(* ===== verification/PB_Prelude.thy ===== *)
theory PB_Prelude
  imports Main "HOL-Library.Word"
begin

text \<open>
  Shared material of the nanopb development.

  \<^item> C types of the build that the sources are compiled in (LP64, little endian,
    \<^verbatim>\<open>PB_FIELD_32BIT\<close>): bytes, \<^verbatim>\<open>size_t\<close>, \<^verbatim>\<open>pb_size_t\<close> and addresses.
  \<^item> \<open>outcome\<close>: what a call of a C function of type \<^verbatim>\<open>bool f(state*, ...)\<close> can do:
    return true, return false, run into undefined behaviour, or not return within the fuel.
    The state is kept on the failing branch, because callers look at it (\<^verbatim>\<open>errmsg\<close>,
    \<^verbatim>\<open>bytes_left\<close>).
  \<^item> \<open>andThen\<close>: the idiom \<^verbatim>\<open>if (!f(...)) return false;\<close>.
  \<^item> \<open>outp\<close>: the Hoare-style predicate "the call is defined, returns, and its two exits
    satisfy the given postconditions", with one rule per construct in \<open>outp_rules\<close>.
  \<^item> byte-addressed memory with a domain of valid addresses, and little-endian integers in it.
\<close>

unbundle bit_operations_syntax

subsection \<open>C types\<close>

type_synonym byte = "8 word"
type_synonym size_t = "64 word"
type_synonym pb_size_t = "32 word"
type_synonym addr = int
type_synonym mem = "int \<Rightarrow> 8 word option"

subsection \<open>Outcomes of calls\<close>

datatype ('a, 's) outcome = Ret 'a 's | Err 's | Undef | NoFuel

fun andThen :: "('a, 's) outcome \<Rightarrow> ('a \<Rightarrow> 's \<Rightarrow> ('b, 's) outcome) \<Rightarrow> ('b, 's) outcome" where
  "andThen (Ret a s) k = k a s"
| "andThen (Err s) k = Err s"
| "andThen Undef k = Undef"
| "andThen NoFuel k = NoFuel"

text \<open>A dereference: undefined behaviour when the address is not valid.\<close>

fun deref :: "'v option \<Rightarrow> ('v \<Rightarrow> ('a, 's) outcome) \<Rightarrow> ('a, 's) outcome" where
  "deref None k = Undef"
| "deref (Some v) k = k v"

text \<open>A loop over known items that leaves at the first failing call.\<close>

primrec seq_out :: "('x \<Rightarrow> 's \<Rightarrow> (unit, 's) outcome) \<Rightarrow> 'x list \<Rightarrow> 's \<Rightarrow> (unit, 's) outcome" where
  "seq_out f [] s = Ret () s"
| "seq_out f (x # xs) s = andThen (f x s) (\<lambda>_ s. seq_out f xs s)"

text \<open>
  \<open>outp Q E r\<close>: the outcome \<open>r\<close> is an ordinary return, its true exit satisfies \<open>Q\<close> and its
  false exit satisfies \<open>E\<close>. Neither undefined behaviour nor exhausted fuel satisfies it.
\<close>

fun outp :: "('a \<Rightarrow> 's \<Rightarrow> bool) \<Rightarrow> ('s \<Rightarrow> bool) \<Rightarrow> ('a, 's) outcome \<Rightarrow> bool" where
  "outp Q E (Ret a s) = Q a s"
| "outp Q E (Err s) = E s"
| "outp Q E Undef = False"
| "outp Q E NoFuel = False"

text \<open>\<open>outw\<close> is the partial version: it also accepts \<open>Undef\<close> and \<open>NoFuel\<close>.\<close>

fun outw :: "('s \<Rightarrow> bool) \<Rightarrow> ('a, 's) outcome \<Rightarrow> bool" where
  "outw I (Ret a s) = I s"
| "outw I (Err s) = I s"
| "outw I Undef = True"
| "outw I NoFuel = True"

named_theorems outp_rules
named_theorems outw_rules

subsection \<open>Memory\<close>

primrec load_bytes :: "mem \<Rightarrow> addr \<Rightarrow> nat \<Rightarrow> byte list option" where
  "load_bytes m a 0 = Some []"
| "load_bytes m a (Suc n) =
     (case m a of None \<Rightarrow> None
      | Some b \<Rightarrow> map_option (Cons b) (load_bytes m (a + 1) n))"

primrec store_bytes :: "mem \<Rightarrow> addr \<Rightarrow> byte list \<Rightarrow> mem option" where
  "store_bytes m a [] = Some m"
| "store_bytes m a (b # bs) =
     (case m a of None \<Rightarrow> None
      | Some _ \<Rightarrow> store_bytes (m(a \<mapsto> b)) (a + 1) bs)"

text \<open>Little-endian integers.\<close>

primrec le_word :: "byte list \<Rightarrow> 'a::len word" where
  "le_word [] = 0"
| "le_word (b # bs) = ucast b OR push_bit 8 (le_word bs)"

primrec word_le :: "nat \<Rightarrow> 'a::len word \<Rightarrow> byte list" where
  "word_le 0 w = []"
| "word_le (Suc n) w = ucast w # word_le n (drop_bit 8 w)"

definition load_u8 :: "mem \<Rightarrow> addr \<Rightarrow> 8 word option" where
  "load_u8 m a = m a"

definition load_u16 :: "mem \<Rightarrow> addr \<Rightarrow> 16 word option" where
  "load_u16 m a = map_option le_word (load_bytes m a 2)"

definition load_u32 :: "mem \<Rightarrow> addr \<Rightarrow> 32 word option" where
  "load_u32 m a = map_option le_word (load_bytes m a 4)"

definition load_u64 :: "mem \<Rightarrow> addr \<Rightarrow> 64 word option" where
  "load_u64 m a = map_option le_word (load_bytes m a 8)"

text \<open>A pointer is a 64-bit value in memory; NULL is address 0.\<close>

definition load_ptr :: "mem \<Rightarrow> addr \<Rightarrow> addr option" where
  "load_ptr m a = map_option uint (load_u64 m a)"

text \<open>
  \<open>valid_range m a n\<close>: the \<open>n\<close> bytes at \<open>a\<close> are readable and writable.
  \<open>mem_frame a n m m'\<close>: \<open>m'\<close> is \<open>m\<close> except for the contents of the \<open>n\<close> bytes at \<open>a\<close>.
\<close>

definition valid_range :: "mem \<Rightarrow> addr \<Rightarrow> nat \<Rightarrow> bool" where
  "valid_range m a n \<longleftrightarrow> (\<forall>i<n. m (a + int i) \<noteq> None)"

definition mem_frame :: "addr \<Rightarrow> nat \<Rightarrow> mem \<Rightarrow> mem \<Rightarrow> bool" where
  "mem_frame a n m m' \<longleftrightarrow> dom m' = dom m \<and> (\<forall>x. x < a \<or> a + int n \<le> x \<longrightarrow> m' x = m x)"

subsection \<open>Lemmas: outcomes\<close>

lemma andThen_cong [fundef_cong]:
  assumes "m = m'" and "\<And>a s. m' = Ret a s \<Longrightarrow> k a s = k' a s"
  shows "andThen m k = andThen m' k'"
  using assms by (cases m') auto

lemma deref_cong [fundef_cong]:
  assumes "v = v'" and "\<And>x. v' = Some x \<Longrightarrow> k x = k' x"
  shows "deref v k = deref v' k'"
  using assms by (cases v') auto

lemma andThen_eq_Ret: "andThen m k = Ret b t \<longleftrightarrow> (\<exists>a s. m = Ret a s \<and> k a s = Ret b t)"
  by (cases m) auto

lemma andThen_assoc: "andThen (andThen m k) h = andThen m (\<lambda>a s. andThen (k a s) h)"
  by (cases m) auto

lemma outp_andThen [outp_rules]:
  assumes "outp P E m" and "\<And>a s. P a s \<Longrightarrow> outp Q E (k a s)"
  shows "outp Q E (andThen m k)"
  using assms by (cases m) auto

lemma outp_deref [outp_rules]:
  assumes "v \<noteq> None" and "\<And>x. v = Some x \<Longrightarrow> outp Q E (k x)"
  shows "outp Q E (deref v k)"
  using assms by (cases v) auto

lemma outp_mono:
  assumes "outp P E m" and "\<And>a s. P a s \<Longrightarrow> Q a s" and "\<And>s. E s \<Longrightarrow> F s"
  shows "outp Q F m"
  using assms by (cases m) auto

lemma outp_defined: "outp Q E m \<Longrightarrow> m \<noteq> Undef \<and> m \<noteq> NoFuel"
  by (cases m) auto

lemma outp_If [outp_rules]:
  assumes "b \<Longrightarrow> outp Q E x" and "\<not> b \<Longrightarrow> outp Q E y"
  shows "outp Q E (if b then x else y)"
  using assms by simp

lemma outp_Ret_D: "outp Q E m \<Longrightarrow> m = Ret a s \<Longrightarrow> Q a s"
  by simp

lemma outp_Err_D: "outp Q E m \<Longrightarrow> m = Err s \<Longrightarrow> E s"
  by simp

lemma outw_andThen [outw_rules]:
  assumes "outw I m" and "\<And>a s. I s \<Longrightarrow> outw I (k a s)"
  shows "outw I (andThen m k)"
  using assms by (cases m) auto

lemma outw_deref [outw_rules]:
  assumes "\<And>x. v = Some x \<Longrightarrow> outw I (k x)"
  shows "outw I (deref v k)"
  using assms by (cases v) auto

lemma outw_If [outw_rules]:
  assumes "b \<Longrightarrow> outw I x" and "\<not> b \<Longrightarrow> outw I y"
  shows "outw I (if b then x else y)"
  using assms by simp

lemma outp_seq_out [outp_rules]:
  assumes "I s" and "\<And>x s. x \<in> set xs \<Longrightarrow> I s \<Longrightarrow> outp (\<lambda>_. I) E (f x s)"
  shows "outp (\<lambda>_. I) E (seq_out f xs s)"
  using assms
proof (induction xs arbitrary: s)
  case Nil
  then show ?case by simp
next
  case (Cons x xs)
  have "outp (\<lambda>_. I) E (f x s)" using Cons.prems by simp
  then show ?case using Cons by (auto intro!: outp_andThen)
qed

lemma outw_seq_out [outw_rules]:
  assumes "I s" and "\<And>x s. x \<in> set xs \<Longrightarrow> I s \<Longrightarrow> outw I (f x s)"
  shows "outw I (seq_out f xs s)"
  using assms
proof (induction xs arbitrary: s)
  case Nil
  then show ?case by simp
next
  case (Cons x xs)
  have "outw I (f x s)" using Cons.prems by simp
  then show ?case using Cons by (auto intro!: outw_andThen)
qed

subsection \<open>Lemmas: words\<close>

lemma unat_ucast_up:
  "LENGTH('a) \<le> LENGTH('b) \<Longrightarrow> unat (ucast (w :: 'a::len word) :: 'b::len word) = unat w"
  by (simp add: unsigned_ucast_eq take_bit_nat_eq_self_iff)
    (meson unsigned_less order_less_le_trans power_increasing one_le_numeral)

lemma uint_ucast_up:
  "LENGTH('a) \<le> LENGTH('b) \<Longrightarrow> uint (ucast (w :: 'a::len word) :: 'b::len word) = uint w"
  using unat_ucast_up [of w] by (metis uint_nat)

lemma ucast_sizes [simp]:
  "unat (ucast (w :: 32 word) :: 64 word) = unat w"
  "uint (ucast (w :: 32 word) :: 64 word) = uint w"
  "unat (ucast (b :: 8 word) :: 64 word) = unat b"
  "unat (ucast (b :: 8 word) :: 32 word) = unat b"
  by (simp_all add: unat_ucast_up uint_ucast_up)

lemma unat_take_bit_7: "unat (take_bit 7 (v :: 'a::len word)) = unat v mod 128"
  unfolding unsigned_take_bit_eq by (simp add: take_bit_eq_mod)

lemma and_127: "v AND 0x7F = take_bit 7 (v :: 'a::len word)"
  by (simp add: take_bit_eq_mask mask_eq_exp_minus_1)

lemma and_128: "v AND 0x80 = 0 \<longleftrightarrow> \<not> bit v 7" for v :: byte
  using and_exp_eq_0_iff_not_bit [of v 7] by simp

lemma or_128: "take_bit 7 v OR 0x80 = take_bit 7 v + (0x80 :: 'a::len word)"
proof -
  have "take_bit 7 v AND (2 ^ 7 :: 'a word) = 0"
    unfolding and_exp_eq_0_iff_not_bit by (simp add: bit_take_bit_iff)
  then have "take_bit 7 v AND (0x80 :: 'a word) = 0" by simp
  then show ?thesis by (metis disjunctive_add_eq_or)
qed

lemma unat_sub_less: "0 < n \<Longrightarrow> n \<le> w \<Longrightarrow> unat (w - n) < unat (w :: 'a::len word)"
proof -
  assume "0 < n" "n \<le> w"
  then have "0 < unat n" "unat n \<le> unat w" by (simp_all add: unat_gt_0 word_le_nat_alt)
  with \<open>n \<le> w\<close> show ?thesis by (simp add: unat_sub)
qed

lemma word_one_le: "w \<noteq> 0 \<Longrightarrow> 1 \<le> (w :: 'a::len word)"
  by (simp add: word_le_nat_alt Suc_le_eq unat_gt_0)

lemma unat_32_less: "unat (w :: 32 word) < 2 ^ 32"
  using unsigned_less [of w] by simp

lemma unat_64_less: "unat (w :: 64 word) < 2 ^ 64"
  using unsigned_less [of w] by simp

subsection \<open>Lemmas: memory\<close>

lemma valid_range_0 [simp]: "valid_range m a 0"
  by (simp add: valid_range_def)

lemma valid_range_Suc: "valid_range m a (Suc n) \<longleftrightarrow> m a \<noteq> None \<and> valid_range m (a + 1) n"
  by (simp add: valid_range_def All_less_Suc2 add.assoc)

lemma valid_range_sub:
  assumes "valid_range m a n" and "a \<le> b" and "b + int k \<le> a + int n"
  shows "valid_range m b k"
  unfolding valid_range_def
proof (intro allI impI)
  fix i assume "i < k"
  with assms(2,3) have "nat (b - a) + i < n" by linarith
  with assms(1) have "m (a + int (nat (b - a) + i)) \<noteq> None"
    unfolding valid_range_def by blast
  moreover have "a + int (nat (b - a) + i) = b + int i"
    using assms(2) by simp
  ultimately show "m (b + int i) \<noteq> None" by simp
qed

lemma valid_range_off: "valid_range m a n \<Longrightarrow> j + k \<le> n \<Longrightarrow> valid_range m (a + int j) k"
  by (erule valid_range_sub) simp_all

lemma valid_range_prefix: "valid_range m a n \<Longrightarrow> k \<le> n \<Longrightarrow> valid_range m a k"
  using valid_range_off [of m a n 0 k] by simp

lemma valid_range_dom: "dom m' = dom m \<Longrightarrow> valid_range m' a n = valid_range m a n"
  unfolding valid_range_def dom_def by auto

lemma valid_range_at: "valid_range m a n \<Longrightarrow> a \<le> x \<Longrightarrow> x < a + int n \<Longrightarrow> m x \<noteq> None"
  using valid_range_sub [of m a n x "Suc 0"] by (simp add: valid_range_Suc)

lemma load_bytes_valid: "load_bytes m a n \<noteq> None \<longleftrightarrow> valid_range m a n"
proof (induction n arbitrary: a)
  case 0
  then show ?case by simp
next
  case (Suc n)
  then show ?case by (auto simp: valid_range_Suc split: option.splits)
qed

lemma load_bytes_length: "load_bytes m a n = Some bs \<Longrightarrow> length bs = n"
  by (induction n arbitrary: a bs) (auto split: option.splits)

lemma load_bytes_nth: "load_bytes m a n = Some bs \<Longrightarrow> i < n \<Longrightarrow> m (a + int i) = Some (bs ! i)"
proof (induction n arbitrary: a bs i)
  case 0
  then show ?case by simp
next
  case (Suc n)
  then obtain b bs' where b: "m a = Some b" "load_bytes m (a + 1) n = Some bs'" "bs = b # bs'"
    by (auto split: option.splits)
  show ?case
  proof (cases i)
    case 0
    with b show ?thesis by simp
  next
    case (Suc j)
    with Suc.IH [OF b(2), of j] Suc.prems b show ?thesis by (simp add: add.assoc)
  qed
qed

lemma load_bytes_cong:
  assumes "\<And>i. i < n \<Longrightarrow> m' (a + int i) = m (a + int i)"
  shows "load_bytes m' a n = load_bytes m a n"
  using assms
proof (induction n arbitrary: a)
  case 0
  then show ?case by simp
next
  case (Suc n)
  have "m' (a + 1 + int i) = m (a + 1 + int i)" if "i < n" for i
    using Suc.prems [of "Suc i"] that by (simp add: add.assoc)
  then have "load_bytes m' (a + 1) n = load_bytes m (a + 1) n"
    by (rule Suc.IH)
  moreover have "m' a = m a" using Suc.prems [of 0] by simp
  ultimately show ?case by (simp split: option.split)
qed

lemma store_bytes_eq:
  "store_bytes m a bs =
     (if valid_range m a (length bs)
      then Some (\<lambda>x. if a \<le> x \<and> x < a + int (length bs) then Some (bs ! nat (x - a)) else m x)
      else None)"
proof (induction bs arbitrary: m a)
  case Nil
  then show ?case by (auto simp: fun_eq_iff)
next
  case (Cons b bs)
  show ?case
  proof (cases "m a")
    case None
    then show ?thesis by (simp add: valid_range_Suc)
  next
    case (Some c)
    have st: "store_bytes m a (b # bs) = store_bytes (m(a \<mapsto> b)) (a + 1) bs"
      using Some by simp
    have v: "valid_range (m(a \<mapsto> b)) (a + 1) (length bs) = valid_range m (a + 1) (length bs)"
      by (simp add: valid_range_def)
    have f: "(\<lambda>x. if a + 1 \<le> x \<and> x < a + 1 + int (length bs) then Some (bs ! nat (x - (a + 1)))
                 else (m(a \<mapsto> b)) x) =
          (\<lambda>x. if a \<le> x \<and> x < a + int (length (b # bs)) then Some ((b # bs) ! nat (x - a)) else m x)"
    proof (rule ext)
      fix x
      consider "x = a" | "a + 1 \<le> x" | "x < a" by linarith
      then show "(if a + 1 \<le> x \<and> x < a + 1 + int (length bs) then Some (bs ! nat (x - (a + 1)))
                 else (m(a \<mapsto> b)) x) =
          (if a \<le> x \<and> x < a + int (length (b # bs)) then Some ((b # bs) ! nat (x - a)) else m x)"
      proof cases
        case 2
        then have "nat (x - a) = Suc (nat (x - (a + 1)))" by linarith
        with 2 show ?thesis by auto
      qed auto
    qed
    have w: "valid_range m a (length (b # bs)) = valid_range m (a + 1) (length bs)"
      using Some by (simp add: valid_range_Suc)
    show ?thesis
      unfolding st w Cons.IH [of "m(a \<mapsto> b)" "a + 1"] v f ..
  qed
qed

lemma store_bytes_frame:
  assumes "store_bytes m a bs = Some m'"
  shows "mem_frame a (length bs) m m'"
proof -
  from assms have v: "valid_range m a (length bs)"
    and m': "m' = (\<lambda>x. if a \<le> x \<and> x < a + int (length bs) then Some (bs ! nat (x - a)) else m x)"
    by (auto simp: store_bytes_eq split: if_splits)
  have "m' x \<noteq> None \<longleftrightarrow> m x \<noteq> None" for x
    using valid_range_at [OF v, of x] by (auto simp: m')
  then show ?thesis by (auto simp: mem_frame_def dom_def m')
qed

lemma load_store_same:
  assumes "store_bytes m a bs = Some m'"
  shows "load_bytes m' a (length bs) = Some bs"
proof -
  from assms have v: "valid_range m a (length bs)"
    and m': "m' = (\<lambda>x. if a \<le> x \<and> x < a + int (length bs) then Some (bs ! nat (x - a)) else m x)"
    by (auto simp: store_bytes_eq split: if_splits)
  have "valid_range m' a (length bs)" by (simp add: valid_range_def m')
  then obtain cs where cs: "load_bytes m' a (length bs) = Some cs"
    using load_bytes_valid by fastforce
  have "cs = bs"
  proof (rule nth_equalityI)
    show "length cs = length bs" using load_bytes_length [OF cs] .
    fix i assume "i < length cs"
    then have i: "i < length bs" using load_bytes_length [OF cs] by simp
    from load_bytes_nth [OF cs i] i show "cs ! i = bs ! i" by (simp add: m')
  qed
  with cs show ?thesis by simp
qed

lemma mem_frame_refl [simp]: "mem_frame a n m m"
  by (simp add: mem_frame_def)

lemma mem_frame_trans [trans]: "mem_frame a n m m' \<Longrightarrow> mem_frame a n m' m'' \<Longrightarrow> mem_frame a n m m''"
  by (simp add: mem_frame_def)

lemma mem_frame_sub:
  assumes "mem_frame b k m m'" and "a \<le> b" and "b + int k \<le> a + int n"
  shows "mem_frame a n m m'"
proof -
  have "m' x = m x" if "x < a \<or> a + int n \<le> x" for x
  proof -
    have "x < b \<or> b + int k \<le> x" using that assms(2,3) by linarith
    with assms(1) show ?thesis unfolding mem_frame_def by blast
  qed
  with assms(1) show ?thesis by (simp add: mem_frame_def)
qed

lemma mem_frame_valid: "mem_frame a n m m' \<Longrightarrow> valid_range m' b k = valid_range m b k"
  by (rule valid_range_dom) (simp add: mem_frame_def)

subsection \<open>Lemmas: little-endian words\<close>

lemma length_word_le [simp]: "length (word_le n w) = n"
  by (induction n arbitrary: w) auto

lemma word_le_take_bit: "8 * n \<le> j \<Longrightarrow> word_le n (take_bit j v) = word_le n (v :: 'a::len word)"
proof (induction n arbitrary: j v)
  case 0
  then show ?case by simp
next
  case (Suc n)
  have "(ucast (take_bit j v) :: byte) = ucast v"
    using Suc.prems by (intro bit_word_eqI) (auto simp: bit_ucast_iff bit_take_bit_iff)
  moreover have "drop_bit 8 (take_bit j v) = take_bit (j - 8) (drop_bit 8 v)"
    by (simp add: drop_bit_take_bit)
  ultimately show ?case using Suc by simp
qed

lemma le_word_word_le: "(le_word (word_le n w) :: 'a::len word) = take_bit (8 * n) (w :: 'a word)"
proof (induction n arbitrary: w)
  case 0
  then show ?case by simp
next
  case (Suc n)
  show ?case
  proof (rule bit_word_eqI)
    fix k assume "k < LENGTH('a)"
    then show "bit (le_word (word_le (Suc n) w) :: 'a word) k \<longleftrightarrow> bit (take_bit (8 * Suc n) w) k"
      by (auto simp: Suc.IH bit_or_iff bit_push_bit_iff bit_take_bit_iff bit_drop_bit_eq
          bit_ucast_iff bit_imp_le_length)
  qed
qed

lemma word_le_le_word:
  "8 * length bs \<le> LENGTH('a) \<Longrightarrow> word_le (length bs) (le_word bs :: 'a::len word) = bs"
proof (induction bs)
  case Nil
  then show ?case by simp
next
  case (Cons b bs)
  have low: "(ucast (ucast b OR push_bit 8 (le_word bs) :: 'a word) :: byte) = b"
    using Cons.prems by (intro bit_word_eqI) (simp add: bit_ucast_iff bit_or_iff bit_push_bit_iff)
  have b8: "\<not> bit b (n + 8)" for n
    using bit_imp_le_length [of b "n + 8"] by auto
  have high: "drop_bit 8 (ucast b OR push_bit 8 (le_word bs) :: 'a word) = take_bit (LENGTH('a) - 8) (le_word bs)"
    using Cons.prems by (intro bit_word_eqI)
      (simp add: bit_drop_bit_eq bit_or_iff bit_push_bit_iff bit_ucast_iff bit_take_bit_iff less_diff_conv
        add.commute b8)
  have "8 * length bs \<le> LENGTH('a) - 8" using Cons.prems by simp
  with Cons low high show ?case by (simp add: word_le_take_bit)
qed

lemma load_u32_valid: "load_u32 m a \<noteq> None \<longleftrightarrow> valid_range m a 4"
  using load_bytes_valid [of m a 4] by (simp add: load_u32_def)

lemma load_u64_valid: "load_u64 m a \<noteq> None \<longleftrightarrow> valid_range m a 8"
  using load_bytes_valid [of m a 8] by (simp add: load_u64_def)

lemma load_u16_valid: "load_u16 m a \<noteq> None \<longleftrightarrow> valid_range m a 2"
  using load_bytes_valid [of m a 2] by (simp add: load_u16_def)

lemma load_u8_valid: "load_u8 m a \<noteq> None \<longleftrightarrow> valid_range m a 1"
  using valid_range_Suc [of m a 0] by (simp add: load_u8_def)

end
