(* ===== verification/PB_Types.thy ===== *)
theory PB_Types
  imports PB_Prelude
begin

text \<open>
  The declarations of \<^verbatim>\<open>pb.h\<close>: the encoding of a field's type in one byte
  (\<^verbatim>\<open>PB_LTYPE\<close>, \<^verbatim>\<open>PB_HTYPE\<close>, \<^verbatim>\<open>PB_ATYPE\<close>), wire types, the field descriptor
  \<^verbatim>\<open>pb_field_t\<close>, the macros that generated code uses to fill descriptors in, and the memory
  layout of the structures the library reads through pointers (\<^verbatim>\<open>pb_callback_t\<close>,
  \<^verbatim>\<open>pb_extension_type_t\<close>, \<^verbatim>\<open>pb_extension_t\<close>, \<^verbatim>\<open>pb_bytes_array_t\<close>).

  A descriptor array is the list of its entries without the terminator \<^verbatim>\<open>PB_LAST_FIELD\<close>;
  \<open>field_at fs i\<close> reads entry \<open>i\<close> and gives the terminator behind the last one.
\<close>

subsection \<open>Field types\<close>

type_synonym pb_type_t = "8 word"

abbreviation (input) PB_LTYPE_VARINT :: pb_type_t where "PB_LTYPE_VARINT \<equiv> 0x00"
abbreviation (input) PB_LTYPE_UVARINT :: pb_type_t where "PB_LTYPE_UVARINT \<equiv> 0x01"
abbreviation (input) PB_LTYPE_SVARINT :: pb_type_t where "PB_LTYPE_SVARINT \<equiv> 0x02"
abbreviation (input) PB_LTYPE_FIXED32 :: pb_type_t where "PB_LTYPE_FIXED32 \<equiv> 0x03"
abbreviation (input) PB_LTYPE_FIXED64 :: pb_type_t where "PB_LTYPE_FIXED64 \<equiv> 0x04"
abbreviation (input) PB_LTYPE_LAST_PACKABLE :: pb_type_t where "PB_LTYPE_LAST_PACKABLE \<equiv> 0x04"
abbreviation (input) PB_LTYPE_BYTES :: pb_type_t where "PB_LTYPE_BYTES \<equiv> 0x05"
abbreviation (input) PB_LTYPE_STRING :: pb_type_t where "PB_LTYPE_STRING \<equiv> 0x06"
abbreviation (input) PB_LTYPE_SUBMESSAGE :: pb_type_t where "PB_LTYPE_SUBMESSAGE \<equiv> 0x07"
abbreviation (input) PB_LTYPE_EXTENSION :: pb_type_t where "PB_LTYPE_EXTENSION \<equiv> 0x08"
abbreviation (input) PB_LTYPE_FIXED_LENGTH_BYTES :: pb_type_t where "PB_LTYPE_FIXED_LENGTH_BYTES \<equiv> 0x09"
abbreviation (input) PB_LTYPES_COUNT :: pb_type_t where "PB_LTYPES_COUNT \<equiv> 0x0A"
abbreviation (input) PB_LTYPE_MASK :: pb_type_t where "PB_LTYPE_MASK \<equiv> 0x0F"

abbreviation (input) PB_HTYPE_REQUIRED :: pb_type_t where "PB_HTYPE_REQUIRED \<equiv> 0x00"
abbreviation (input) PB_HTYPE_OPTIONAL :: pb_type_t where "PB_HTYPE_OPTIONAL \<equiv> 0x10"
abbreviation (input) PB_HTYPE_REPEATED :: pb_type_t where "PB_HTYPE_REPEATED \<equiv> 0x20"
abbreviation (input) PB_HTYPE_ONEOF :: pb_type_t where "PB_HTYPE_ONEOF \<equiv> 0x30"
abbreviation (input) PB_HTYPE_MASK :: pb_type_t where "PB_HTYPE_MASK \<equiv> 0x30"

abbreviation (input) PB_ATYPE_STATIC :: pb_type_t where "PB_ATYPE_STATIC \<equiv> 0x00"
abbreviation (input) PB_ATYPE_POINTER :: pb_type_t where "PB_ATYPE_POINTER \<equiv> 0x80"
abbreviation (input) PB_ATYPE_CALLBACK :: pb_type_t where "PB_ATYPE_CALLBACK \<equiv> 0x40"
abbreviation (input) PB_ATYPE_MASK :: pb_type_t where "PB_ATYPE_MASK \<equiv> 0xC0"

definition PB_ATYPE :: "pb_type_t \<Rightarrow> pb_type_t" where
  "PB_ATYPE x = x AND PB_ATYPE_MASK"

definition PB_HTYPE :: "pb_type_t \<Rightarrow> pb_type_t" where
  "PB_HTYPE x = x AND PB_HTYPE_MASK"

definition PB_LTYPE :: "pb_type_t \<Rightarrow> pb_type_t" where
  "PB_LTYPE x = x AND PB_LTYPE_MASK"

abbreviation (input) PB_SIZE_MAX :: pb_size_t where "PB_SIZE_MAX \<equiv> 0xFFFFFFFF"

text \<open>Wire types, an unsigned enumeration that the decoder fills with any value of three bits.\<close>

type_synonym pb_wire_type_t = "32 word"

abbreviation (input) PB_WT_VARINT :: pb_wire_type_t where "PB_WT_VARINT \<equiv> 0"
abbreviation (input) PB_WT_64BIT :: pb_wire_type_t where "PB_WT_64BIT \<equiv> 1"
abbreviation (input) PB_WT_STRING :: pb_wire_type_t where "PB_WT_STRING \<equiv> 2"
abbreviation (input) PB_WT_32BIT :: pb_wire_type_t where "PB_WT_32BIT \<equiv> 5"

subsection \<open>Field descriptors\<close>

record pb_field_t =
  tag :: pb_size_t
  ftype :: pb_type_t
  data_offset :: pb_size_t
  size_offset :: "32 word"
  data_size :: pb_size_t
  array_size :: pb_size_t
  ptr :: addr

definition PB_LAST_FIELD :: pb_field_t where
  "PB_LAST_FIELD = \<lparr>tag = 0, ftype = 0, data_offset = 0, size_offset = 0, data_size = 0,
     array_size = 0, ptr = 0\<rparr>"

definition field_at :: "pb_field_t list \<Rightarrow> nat \<Rightarrow> pb_field_t" where
  "field_at fs i = (if i < length fs then fs ! i else PB_LAST_FIELD)"

subsection \<open>Descriptor macros\<close>

text \<open>
  The macros take a structure and a member name; what they use of it is the member's offset and
  size (\<^verbatim>\<open>offsetof\<close>, \<^verbatim>\<open>sizeof\<close>), and for arrays and pointers the size of one element.
\<close>

record cmember =
  moff :: nat
  msize :: nat
  melem :: nat

definition pb_membersize :: "cmember \<Rightarrow> pb_size_t" where
  "pb_membersize m = word_of_nat (msize m)"

definition pb_elemsize :: "cmember \<Rightarrow> pb_size_t" where
  "pb_elemsize m = word_of_nat (melem m)"

definition pb_arraysize :: "cmember \<Rightarrow> pb_size_t" where
  "pb_arraysize m = word_of_nat (msize m div melem m)"

definition pb_delta :: "cmember \<Rightarrow> cmember \<Rightarrow> 32 word" where
  "pb_delta m1 m2 = word_of_int (int (moff m1) - int (moff m2))"

definition PB_DATAOFFSET_FIRST :: "cmember \<Rightarrow> pb_size_t" where
  "PB_DATAOFFSET_FIRST m1 = word_of_nat (moff m1)"

definition PB_DATAOFFSET_OTHER :: "cmember \<Rightarrow> cmember \<Rightarrow> pb_size_t" where
  "PB_DATAOFFSET_OTHER m1 m2 =
     ucast (word_of_nat (moff m1) - word_of_nat (moff m2) - word_of_nat (msize m2) :: size_t)"

definition PB_DATAOFFSET_UNION :: pb_size_t where
  "PB_DATAOFFSET_UNION = PB_SIZE_MAX"

definition PB_REQUIRED_STATIC :: "pb_size_t \<Rightarrow> cmember \<Rightarrow> pb_size_t \<Rightarrow> pb_type_t \<Rightarrow> addr \<Rightarrow> pb_field_t" where
  "PB_REQUIRED_STATIC tg m fd lt p =
     \<lparr>tag = tg, ftype = PB_ATYPE_STATIC OR PB_HTYPE_REQUIRED OR lt,
      data_offset = fd, size_offset = 0, data_size = pb_membersize m, array_size = 0, ptr = p\<rparr>"

definition PB_OPTIONAL_STATIC ::
    "pb_size_t \<Rightarrow> cmember \<Rightarrow> cmember \<Rightarrow> pb_size_t \<Rightarrow> pb_type_t \<Rightarrow> addr \<Rightarrow> pb_field_t" where
  "PB_OPTIONAL_STATIC tg has m fd lt p =
     \<lparr>tag = tg, ftype = PB_ATYPE_STATIC OR PB_HTYPE_OPTIONAL OR lt,
      data_offset = fd, size_offset = pb_delta has m, data_size = pb_membersize m,
      array_size = 0, ptr = p\<rparr>"

definition PB_SINGULAR_STATIC :: "pb_size_t \<Rightarrow> cmember \<Rightarrow> pb_size_t \<Rightarrow> pb_type_t \<Rightarrow> addr \<Rightarrow> pb_field_t" where
  "PB_SINGULAR_STATIC tg m fd lt p =
     \<lparr>tag = tg, ftype = PB_ATYPE_STATIC OR PB_HTYPE_OPTIONAL OR lt,
      data_offset = fd, size_offset = 0, data_size = pb_membersize m, array_size = 0, ptr = p\<rparr>"

definition PB_REPEATED_STATIC ::
    "pb_size_t \<Rightarrow> cmember \<Rightarrow> cmember \<Rightarrow> pb_size_t \<Rightarrow> pb_type_t \<Rightarrow> addr \<Rightarrow> pb_field_t" where
  "PB_REPEATED_STATIC tg cnt m fd lt p =
     \<lparr>tag = tg, ftype = PB_ATYPE_STATIC OR PB_HTYPE_REPEATED OR lt,
      data_offset = fd, size_offset = pb_delta cnt m, data_size = pb_elemsize m,
      array_size = pb_arraysize m, ptr = p\<rparr>"

definition PB_REQUIRED_POINTER :: "pb_size_t \<Rightarrow> cmember \<Rightarrow> pb_size_t \<Rightarrow> pb_type_t \<Rightarrow> addr \<Rightarrow> pb_field_t" where
  "PB_REQUIRED_POINTER tg m fd lt p =
     \<lparr>tag = tg, ftype = PB_ATYPE_POINTER OR PB_HTYPE_REQUIRED OR lt,
      data_offset = fd, size_offset = 0, data_size = pb_elemsize m, array_size = 0, ptr = p\<rparr>"

definition PB_OPTIONAL_POINTER :: "pb_size_t \<Rightarrow> cmember \<Rightarrow> pb_size_t \<Rightarrow> pb_type_t \<Rightarrow> addr \<Rightarrow> pb_field_t" where
  "PB_OPTIONAL_POINTER tg m fd lt p =
     \<lparr>tag = tg, ftype = PB_ATYPE_POINTER OR PB_HTYPE_OPTIONAL OR lt,
      data_offset = fd, size_offset = 0, data_size = pb_elemsize m, array_size = 0, ptr = p\<rparr>"

definition PB_REPEATED_POINTER ::
    "pb_size_t \<Rightarrow> cmember \<Rightarrow> cmember \<Rightarrow> pb_size_t \<Rightarrow> pb_type_t \<Rightarrow> addr \<Rightarrow> pb_field_t" where
  "PB_REPEATED_POINTER tg cnt m fd lt p =
     \<lparr>tag = tg, ftype = PB_ATYPE_POINTER OR PB_HTYPE_REPEATED OR lt,
      data_offset = fd, size_offset = pb_delta cnt m, data_size = pb_elemsize m,
      array_size = 0, ptr = p\<rparr>"

definition PB_REQUIRED_CALLBACK :: "pb_size_t \<Rightarrow> cmember \<Rightarrow> pb_size_t \<Rightarrow> pb_type_t \<Rightarrow> addr \<Rightarrow> pb_field_t" where
  "PB_REQUIRED_CALLBACK tg m fd lt p =
     \<lparr>tag = tg, ftype = PB_ATYPE_CALLBACK OR PB_HTYPE_REQUIRED OR lt,
      data_offset = fd, size_offset = 0, data_size = pb_membersize m, array_size = 0, ptr = p\<rparr>"

definition PB_OPTIONAL_CALLBACK :: "pb_size_t \<Rightarrow> cmember \<Rightarrow> pb_size_t \<Rightarrow> pb_type_t \<Rightarrow> addr \<Rightarrow> pb_field_t" where
  "PB_OPTIONAL_CALLBACK tg m fd lt p =
     \<lparr>tag = tg, ftype = PB_ATYPE_CALLBACK OR PB_HTYPE_OPTIONAL OR lt,
      data_offset = fd, size_offset = 0, data_size = pb_membersize m, array_size = 0, ptr = p\<rparr>"

definition PB_REPEATED_CALLBACK :: "pb_size_t \<Rightarrow> cmember \<Rightarrow> pb_size_t \<Rightarrow> pb_type_t \<Rightarrow> addr \<Rightarrow> pb_field_t" where
  "PB_REPEATED_CALLBACK tg m fd lt p =
     \<lparr>tag = tg, ftype = PB_ATYPE_CALLBACK OR PB_HTYPE_REPEATED OR lt,
      data_offset = fd, size_offset = 0, data_size = pb_membersize m, array_size = 0, ptr = p\<rparr>"

definition PB_OPTEXT_STATIC :: "pb_size_t \<Rightarrow> cmember \<Rightarrow> pb_type_t \<Rightarrow> addr \<Rightarrow> pb_field_t" where
  "PB_OPTEXT_STATIC tg m lt p =
     \<lparr>tag = tg, ftype = PB_ATYPE_STATIC OR PB_HTYPE_REQUIRED OR lt,
      data_offset = 0, size_offset = 0, data_size = pb_membersize m, array_size = 0, ptr = p\<rparr>"

definition PB_ONEOF_STATIC ::
    "pb_size_t \<Rightarrow> cmember \<Rightarrow> cmember \<Rightarrow> pb_size_t \<Rightarrow> pb_type_t \<Rightarrow> addr \<Rightarrow> pb_field_t" where
  "PB_ONEOF_STATIC tg which m fd lt p =
     \<lparr>tag = tg, ftype = PB_ATYPE_STATIC OR PB_HTYPE_ONEOF OR lt,
      data_offset = fd, size_offset = pb_delta which m, data_size = pb_membersize m,
      array_size = 0, ptr = p\<rparr>"

definition PB_ONEOF_POINTER ::
    "pb_size_t \<Rightarrow> cmember \<Rightarrow> cmember \<Rightarrow> pb_size_t \<Rightarrow> pb_type_t \<Rightarrow> addr \<Rightarrow> pb_field_t" where
  "PB_ONEOF_POINTER tg which m fd lt p =
     \<lparr>tag = tg, ftype = PB_ATYPE_POINTER OR PB_HTYPE_ONEOF OR lt,
      data_offset = fd, size_offset = pb_delta which m, data_size = pb_elemsize m,
      array_size = 0, ptr = p\<rparr>"

subsection \<open>Structures read through pointers\<close>

text \<open>
  Offsets of the members on an LP64 target: \<^verbatim>\<open>pb_callback_t\<close> holds the function pointer and
  the user's argument, \<^verbatim>\<open>pb_extension_type_t\<close> two function pointers and an argument,
  \<^verbatim>\<open>pb_extension_t\<close> the type, the destination, the next extension and the flag
  \<^verbatim>\<open>found\<close>; \<^verbatim>\<open>pb_bytes_array_t\<close> a 4-byte size and the bytes.
\<close>

definition callback_funcs :: "addr \<Rightarrow> addr" where "callback_funcs p = p"

definition callback_arg :: "addr \<Rightarrow> addr" where "callback_arg p = p + 8"

definition exttype_decode :: "addr \<Rightarrow> addr" where "exttype_decode p = p"

definition exttype_encode :: "addr \<Rightarrow> addr" where "exttype_encode p = p + 8"

definition exttype_arg :: "addr \<Rightarrow> addr" where "exttype_arg p = p + 16"

definition ext_type :: "addr \<Rightarrow> addr" where "ext_type p = p"

definition ext_dest :: "addr \<Rightarrow> addr" where "ext_dest p = p + 8"

definition ext_next :: "addr \<Rightarrow> addr" where "ext_next p = p + 16"

definition ext_found :: "addr \<Rightarrow> addr" where "ext_found p = p + 24"

definition bytes_size :: "addr \<Rightarrow> addr" where "bytes_size p = p"

definition bytes_bytes :: "addr \<Rightarrow> addr" where "bytes_bytes p = p + 4"

definition PB_BYTES_ARRAY_T_ALLOCSIZE :: "pb_size_t \<Rightarrow> size_t" where
  "PB_BYTES_ARRAY_T_ALLOCSIZE n = ucast n + 4"

subsection \<open>Error messages\<close>

text \<open>\<^verbatim>\<open>PB_SET_ERROR\<close> keeps the first message; \<^verbatim>\<open>PB_GET_ERROR\<close> reads it.\<close>

definition PB_SET_ERROR :: "string option \<Rightarrow> string \<Rightarrow> string option" where
  "PB_SET_ERROR e msg = (case e of Some x \<Rightarrow> Some x | None \<Rightarrow> Some msg)"

definition PB_GET_ERROR :: "string option \<Rightarrow> string" where
  "PB_GET_ERROR e = (case e of Some x \<Rightarrow> x | None \<Rightarrow> ''(none)'')"

subsection \<open>Lemmas\<close>

lemma HTYPE_cases:
  "PB_HTYPE t = PB_HTYPE_REQUIRED \<or> PB_HTYPE t = PB_HTYPE_OPTIONAL \<or>
   PB_HTYPE t = PB_HTYPE_REPEATED \<or> PB_HTYPE t = PB_HTYPE_ONEOF"
proof -
  have "t AND 0x30 = (if bit t 4 then 0x10 else 0) OR (if bit t 5 then 0x20 else (0::8 word))"
  proof (rule bit_word_eqI)
    fix n assume "n < LENGTH(8)"
    then have "n = 0 \<or> n = 1 \<or> n = 2 \<or> n = 3 \<or> n = 4 \<or> n = 5 \<or> n = 6 \<or> n = 7" by auto
    then show "bit (t AND 0x30) n =
        bit ((if bit t 4 then 0x10 else 0) OR (if bit t 5 then 0x20 else (0::8 word))) n"
      by (elim disjE) (simp_all add: bit_and_iff bit_or_iff bit_numeral_rec)
  qed
  then show ?thesis by (auto simp: PB_HTYPE_def)
qed

lemma type_parts: "t = PB_ATYPE t OR PB_HTYPE t OR PB_LTYPE t"
proof (rule bit_word_eqI)
  fix n assume "n < LENGTH(8)"
  then have "n = 0 \<or> n = 1 \<or> n = 2 \<or> n = 3 \<or> n = 4 \<or> n = 5 \<or> n = 6 \<or> n = 7" by auto
  then show "bit t n = bit (PB_ATYPE t OR PB_HTYPE t OR PB_LTYPE t) n"
    by (elim disjE)
      (simp_all add: PB_ATYPE_def PB_HTYPE_def PB_LTYPE_def bit_and_iff bit_or_iff bit_numeral_rec)
qed

lemma field_at_nth [simp]: "i < length fs \<Longrightarrow> field_at fs i = fs ! i"
  by (simp add: field_at_def)

lemma field_at_end [simp]: "length fs \<le> i \<Longrightarrow> field_at fs i = PB_LAST_FIELD"
  by (simp add: field_at_def)

lemma tag_PB_LAST_FIELD [simp]: "tag PB_LAST_FIELD = 0"
  by (simp add: PB_LAST_FIELD_def)

lemma PB_SET_ERROR_not_None [simp]: "PB_SET_ERROR e msg \<noteq> None"
  by (simp add: PB_SET_ERROR_def split: option.split)

lemma PB_SET_ERROR_first: "PB_SET_ERROR (PB_SET_ERROR e msg) msg' = PB_SET_ERROR e msg"
  by (simp add: PB_SET_ERROR_def split: option.split)

end
