(* ===== verification/PB_Ostream.thy ===== *)
theory PB_Ostream
  imports PB_Types
begin

text \<open>
  Output streams and the primitive encoders of \<^verbatim>\<open>pb_encode.c\<close>.

  A stream's \<^verbatim>\<open>callback\<close> and \<^verbatim>\<open>state\<close> are one value of type \<open>osink\<close>: no callback
  (a sizing stream), \<^verbatim>\<open>buf_write\<close> with the buffer and the write position, or the user's
  callback with the user's state. A source buffer is a reader \<open>rbuf\<close> that gives its first
  \<open>n\<close> bytes, or \<open>None\<close> if they are not readable; a sizing stream never reads it.

  The specification is \<open>writes g r\<close>: the writer \<open>g\<close> appends the bytes \<open>r\<close> to every
  stream, whether it only counts or writes to a buffer, fails without touching memory outside the
  stream's window when they do not fit, and fails on every stream if \<open>r\<close> is \<open>None\<close>. The
  primitive encoders are shown to satisfy it; \<open>writes_then\<close> composes it.
\<close>

datatype (dead 'u) osink =
    Osizing
  | Obuf "byte list" nat
  | Ouser "'u \<Rightarrow> byte list \<Rightarrow> bool \<times> 'u" 'u

record 'u pb_ostream_t =
  sink :: "'u osink"
  max_size :: size_t
  bytes_written :: size_t
  oerrmsg :: "string option"

type_synonym rbuf = "nat \<Rightarrow> byte list option"

definition NULL_buf :: rbuf where
  "NULL_buf n = (if n = 0 then Some [] else None)"

definition local_buf :: "byte list \<Rightarrow> rbuf" where
  "local_buf bs n = (if n \<le> length bs then Some (take n bs) else None)"

definition mem_buf :: "mem \<Rightarrow> addr \<Rightarrow> rbuf" where
  "mem_buf m a n = load_bytes m a n"

definition is_sizing :: "'u osink \<Rightarrow> bool" where
  "is_sizing k = (case k of Osizing \<Rightarrow> True | _ \<Rightarrow> False)"

definition PB_OSTREAM_SIZING :: "'u pb_ostream_t" where
  "PB_OSTREAM_SIZING = \<lparr>sink = Osizing, max_size = 0, bytes_written = 0, oerrmsg = None\<rparr>"

definition oerror :: "'u pb_ostream_t \<Rightarrow> string \<Rightarrow> ('a, 'u pb_ostream_t) outcome" where
  "oerror st msg = Err (st\<lparr>oerrmsg := PB_SET_ERROR (oerrmsg st) msg\<rparr>)"

definition buf_write :: "byte list \<Rightarrow> nat \<Rightarrow> byte list \<Rightarrow> (byte list \<times> nat) option" where
  "buf_write dest p bs =
     (if p + length bs \<le> length dest
      then Some (take p dest @ bs @ drop (p + length bs) dest, p + length bs)
      else None)"

definition ostream_callback :: "'u osink \<Rightarrow> byte list \<Rightarrow> (unit, 'u osink) outcome" where
  "ostream_callback k bs =
     (case k of
        Osizing \<Rightarrow> Undef
      | Obuf dest p \<Rightarrow> deref (buf_write dest p bs) (\<lambda>(dest', p'). Ret () (Obuf dest' p'))
      | Ouser cb u \<Rightarrow> (case cb u bs of (ok, u') \<Rightarrow> if ok then Ret () (Ouser cb u') else Err (Ouser cb u')))"

definition pb_ostream_from_buffer :: "byte list \<Rightarrow> size_t \<Rightarrow> 'u pb_ostream_t" where
  "pb_ostream_from_buffer buf bufsize =
     \<lparr>sink = Obuf buf 0, max_size = bufsize, bytes_written = 0, oerrmsg = None\<rparr>"

definition pb_write :: "'u pb_ostream_t \<Rightarrow> rbuf \<Rightarrow> size_t \<Rightarrow> (unit, 'u pb_ostream_t) outcome" where
  "pb_write st buf count =
     (if \<not> is_sizing (sink st) then
        if bytes_written st + count > max_size st then oerror st ''stream full''
        else deref (buf (unat count)) (\<lambda>bs.
          (case ostream_callback (sink st) bs of
             Ret _ k \<Rightarrow> Ret () (st\<lparr>sink := k, bytes_written := bytes_written st + count\<rparr>)
           | Err k \<Rightarrow> oerror (st\<lparr>sink := k\<rparr>) ''io error''
           | Undef \<Rightarrow> Undef
           | NoFuel \<Rightarrow> NoFuel))
      else Ret () (st\<lparr>bytes_written := bytes_written st + count\<rparr>))"

subsection \<open>Primitive encoders\<close>

text \<open>The loop of \<^verbatim>\<open>pb_encode_varint\<close> that fills \<^verbatim>\<open>buffer\<close>, low groups first.\<close>

lemma drop_bit_7_less: "value \<noteq> 0 \<Longrightarrow> unat (drop_bit 7 value) < unat (value :: size_t)"
  by (simp add: drop_bit_eq_div unat_div_distrib unat_gt_0)

function varint_fill :: "size_t \<Rightarrow> byte list" where
  "varint_fill value =
     (if value = 0 then []
      else ucast ((value AND 0x7F) OR 0x80) # varint_fill (drop_bit 7 value))"
  by pat_completeness auto
termination
  by (relation "measure unat") (auto simp: drop_bit_7_less)

declare varint_fill.simps [simp del]

definition pb_encode_varint :: "'u pb_ostream_t \<Rightarrow> size_t \<Rightarrow> (unit, 'u pb_ostream_t) outcome" where
  "pb_encode_varint st value =
     (if value \<le> 0x7F then pb_write st (local_buf [ucast value]) 1
      else
        let buffer = varint_fill value; i = length buffer in
        if 10 < i then Undef
        else pb_write st (local_buf (buffer[i - 1 := buffer ! (i - 1) AND 0x7F])) (word_of_nat i))"

definition zigzag :: "64 word \<Rightarrow> size_t" where
  "zigzag value = (if sint value < 0 then NOT (push_bit 1 value) else push_bit 1 value)"

definition pb_encode_svarint :: "'u pb_ostream_t \<Rightarrow> 64 word \<Rightarrow> (unit, 'u pb_ostream_t) outcome" where
  "pb_encode_svarint st value = pb_encode_varint st (zigzag value)"

definition pb_encode_fixed32 :: "'u pb_ostream_t \<Rightarrow> mem \<Rightarrow> addr \<Rightarrow> (unit, 'u pb_ostream_t) outcome" where
  "pb_encode_fixed32 st m value =
     deref (load_u32 m value) (\<lambda>val.
       pb_write st (local_buf
         [ucast (val AND 0xFF), ucast (drop_bit 8 val AND 0xFF),
          ucast (drop_bit 16 val AND 0xFF), ucast (drop_bit 24 val AND 0xFF)]) 4)"

definition pb_encode_fixed64 :: "'u pb_ostream_t \<Rightarrow> mem \<Rightarrow> addr \<Rightarrow> (unit, 'u pb_ostream_t) outcome" where
  "pb_encode_fixed64 st m value =
     deref (load_u64 m value) (\<lambda>val.
       pb_write st (local_buf
         [ucast (val AND 0xFF), ucast (drop_bit 8 val AND 0xFF),
          ucast (drop_bit 16 val AND 0xFF), ucast (drop_bit 24 val AND 0xFF),
          ucast (drop_bit 32 val AND 0xFF), ucast (drop_bit 40 val AND 0xFF),
          ucast (drop_bit 48 val AND 0xFF), ucast (drop_bit 56 val AND 0xFF)]) 8)"

definition pb_encode_tag ::
    "'u pb_ostream_t \<Rightarrow> pb_wire_type_t \<Rightarrow> 32 word \<Rightarrow> (unit, 'u pb_ostream_t) outcome" where
  "pb_encode_tag st wiretype field_number =
     (let tg :: size_t = push_bit 3 (ucast field_number) OR ucast wiretype in pb_encode_varint st tg)"

definition wire_type_of :: "pb_type_t \<Rightarrow> pb_wire_type_t option" where
  "wire_type_of lt =
     (if lt = PB_LTYPE_VARINT \<or> lt = PB_LTYPE_UVARINT \<or> lt = PB_LTYPE_SVARINT then Some PB_WT_VARINT
      else if lt = PB_LTYPE_FIXED32 then Some PB_WT_32BIT
      else if lt = PB_LTYPE_FIXED64 then Some PB_WT_64BIT
      else if lt = PB_LTYPE_BYTES \<or> lt = PB_LTYPE_STRING \<or> lt = PB_LTYPE_SUBMESSAGE \<or>
              lt = PB_LTYPE_FIXED_LENGTH_BYTES then Some PB_WT_STRING
      else None)"

definition pb_encode_tag_for_field ::
    "'u pb_ostream_t \<Rightarrow> pb_field_t \<Rightarrow> (unit, 'u pb_ostream_t) outcome" where
  "pb_encode_tag_for_field st f =
     (case wire_type_of (PB_LTYPE (ftype f)) of
        None \<Rightarrow> oerror st ''invalid field type''
      | Some wiretype \<Rightarrow> pb_encode_tag st wiretype (tag f))"

definition pb_encode_string ::
    "'u pb_ostream_t \<Rightarrow> rbuf \<Rightarrow> size_t \<Rightarrow> (unit, 'u pb_ostream_t) outcome" where
  "pb_encode_string st buffer sz =
     andThen (pb_encode_varint st sz) (\<lambda>_ st. pb_write st buffer sz)"

subsection \<open>Specification of writers\<close>

definition room :: "'u pb_ostream_t \<Rightarrow> nat \<Rightarrow> bool" where
  "room st n \<longleftrightarrow> unat (bytes_written st) + n \<le> unat (max_size st)"

definition put_bytes :: "'u pb_ostream_t \<Rightarrow> byte list \<Rightarrow> 'u pb_ostream_t" where
  "put_bytes st bs = st\<lparr>
     sink := (case sink st of
                Obuf b p \<Rightarrow> Obuf (take p b @ bs @ drop (p + length bs) b) (p + length bs)
              | k \<Rightarrow> k),
     bytes_written := bytes_written st + word_of_nat (length bs)\<rparr>"

text \<open>
  A buffer stream is well formed when its limit lies inside the buffer that it writes to. The
  limit is below \<open>2^63\<close>, as the size of every C object is, and no error has been reported.
\<close>

definition obuf_ok :: "'u pb_ostream_t \<Rightarrow> bool" where
  "obuf_ok st \<longleftrightarrow> oerrmsg st = None \<and>
     unat (max_size st) < 2 ^ 63 \<and> unat (bytes_written st) \<le> unat (max_size st) \<and>
     (case sink st of
        Obuf b p \<Rightarrow> p + (unat (max_size st) - unat (bytes_written st)) \<le> length b
      | _ \<Rightarrow> False)"

text \<open>
  \<open>owin st st'\<close>: from \<open>st\<close> to \<open>st'\<close> only bytes of the buffer between the position and the
  limit of \<open>st\<close> have changed, and position and count have advanced together.
\<close>

definition owin :: "'u pb_ostream_t \<Rightarrow> 'u pb_ostream_t \<Rightarrow> bool" where
  "owin st st' \<longleftrightarrow>
     max_size st' = max_size st \<and>
     unat (bytes_written st) \<le> unat (bytes_written st') \<and>
     unat (bytes_written st') \<le> unat (max_size st) \<and>
     (case (sink st, sink st') of
        (Obuf b p, Obuf b' p') \<Rightarrow>
          length b' = length b \<and>
          p' = p + (unat (bytes_written st') - unat (bytes_written st)) \<and>
          (\<forall>i<length b. i < p \<or> p + (unat (max_size st) - unat (bytes_written st)) \<le> i
             \<longrightarrow> b' ! i = b ! i)
      | _ \<Rightarrow> False)"

definition writes :: "('u pb_ostream_t \<Rightarrow> (unit, 'u pb_ostream_t) outcome) \<Rightarrow> byte list option \<Rightarrow> bool" where
  "writes g r \<longleftrightarrow>
     (\<forall>st. is_sizing (sink st) \<longrightarrow>
        (case r of Some bs \<Rightarrow> g st = Ret () (put_bytes st bs) | None \<Rightarrow> (\<exists>st'. g st = Err st'))) \<and>
     (\<forall>st. obuf_ok st \<longrightarrow>
        (case r of
           Some bs \<Rightarrow> if room st (length bs) then g st = Ret () (put_bytes st bs)
                      else (\<exists>st'. g st = Err st' \<and> owin st st')
         | None \<Rightarrow> (\<exists>st'. g st = Err st' \<and> owin st st')))"

text \<open>Appending what two writers write, if both succeed.\<close>

definition cat_opt :: "byte list option \<Rightarrow> byte list option \<Rightarrow> byte list option" where
  "cat_opt r1 r2 = (case r1 of None \<Rightarrow> None
     | Some bs1 \<Rightarrow> (case r2 of None \<Rightarrow> None | Some bs2 \<Rightarrow> Some (bs1 @ bs2)))"

text \<open>The base-128 encoding of natural numbers of the protobuf specification.\<close>

function varint :: "nat \<Rightarrow> byte list" where
  "varint n = (if n < 128 then [word_of_nat n]
               else word_of_nat (n mod 128 + 128) # varint (n div 128))"
  by pat_completeness auto
termination
  by (relation "measure id") auto

declare varint.simps [simp del]

subsection \<open>Lemmas: the varint encoder\<close>

lemma varint_nonempty: "varint n \<noteq> []"
  by (subst varint.simps) simp

lemma varint_fill_nonempty: "v \<noteq> 0 \<Longrightarrow> varint_fill v \<noteq> []"
  by (subst varint_fill.simps) simp

lemma low_group: "(ucast ((v AND 0x7F) OR 0x80 :: size_t) :: byte) = word_of_nat (unat v mod 128 + 128)"
proof -
  have u: "unat (take_bit 7 v + 0x80) = unat v mod 128 + 128"
    by (simp add: unat_word_ariths unat_take_bit_7)
  have "(ucast (take_bit 7 v + 0x80 :: size_t) :: byte) = word_of_nat (unat (take_bit 7 v + 0x80))"
    by (rule of_nat_unat [symmetric])
  then show ?thesis unfolding and_127 or_128 u .
qed

lemma low_group_last: "(word_of_nat (n mod 128 + 128) AND 0x7F :: byte) = word_of_nat (n mod 128)"
proof -
  have "n mod 128 + 128 < 256" by simp
  then have "unat (word_of_nat (n mod 128 + 128) :: byte) = n mod 128 + 128"
    by (simp add: unat_of_nat del: of_nat_add)
  then have "unat (word_of_nat (n mod 128 + 128) AND 0x7F :: byte) = n mod 128"
    unfolding and_127 unat_take_bit_7 by simp
  then show ?thesis by (metis of_nat_unat ucast_id)
qed

lemma varint_fill_varint:
  "v \<noteq> 0 \<Longrightarrow>
   (varint_fill v)[length (varint_fill v) - 1 := varint_fill v ! (length (varint_fill v) - 1) AND 0x7F]
     = varint (unat v)"
proof (induction v rule: varint_fill.induct)
  case (1 v)
  have d: "unat (drop_bit 7 v) = unat v div 128"
    unfolding unat_drop_bit_eq by (simp add: drop_bit_eq_div)
  have fill: "varint_fill v = word_of_nat (unat v mod 128 + 128) # varint_fill (drop_bit 7 v)"
    using "1.prems" by (subst varint_fill.simps) (simp add: low_group del: of_nat_add)
  show ?case
  proof (cases "drop_bit 7 v = 0")
    case True
    then have lt: "unat v < 128" using d by simp
    have "varint_fill (drop_bit 7 v) = []" using True by (subst varint_fill.simps) simp
    with lt low_group_last [of "unat v"] show ?thesis
      by (subst varint.simps) (simp add: fill del: of_nat_add)
  next
    case False
    then have ge: "\<not> unat v < 128" using d by (metis div_less unat_eq_zero)
    obtain x xs where xs: "varint_fill (drop_bit 7 v) = x # xs"
      using varint_fill_nonempty [OF False] by (cases "varint_fill (drop_bit 7 v)") auto
    have "varint (unat v) = word_of_nat (unat v mod 128 + 128) # varint (unat (drop_bit 7 v))"
      using ge d by (subst varint.simps) (simp del: of_nat_add)
    with "1.IH" [OF "1.prems" False] show ?thesis
      unfolding fill xs by simp
  qed
qed

lemma varint_length_le: "0 < k \<Longrightarrow> n < 2 ^ (7 * k) \<Longrightarrow> length (varint n) \<le> k"
proof (induction k arbitrary: n)
  case 0
  then show ?case by simp
next
  case (Suc k)
  show ?case
  proof (cases "n < 128")
    case True
    then show ?thesis by (subst varint.simps) simp
  next
    case False
    then have k: "0 < k" using Suc.prems by (cases k) auto
    have "n < 128 * 2 ^ (7 * k)" using Suc.prems by (simp add: power_add)
    then have "n div 128 < 2 ^ (7 * k)" by (simp add: less_mult_imp_div_less mult.commute)
    with Suc.IH [OF k] False show ?thesis by (subst varint.simps) simp
  qed
qed

lemma varint_word_length: "length (varint (unat (v :: size_t))) \<le> 10"
proof (rule varint_length_le)
  have "unat v < 2 ^ 64" by (rule unat_64_less)
  also have "\<dots> < 2 ^ (7 * 10)" by simp
  finally show "unat v < 2 ^ (7 * 10)" .
qed simp

lemma varint_fill_length: "v \<noteq> 0 \<Longrightarrow> length (varint_fill v) = length (varint (unat v))"
  by (metis varint_fill_varint length_list_update)

subsection \<open>Lemmas: writers\<close>

lemma local_buf_all [simp]: "local_buf bs (length bs) = Some bs"
  by (simp add: local_buf_def)

lemma put_bytes_simps [simp]:
  "max_size (put_bytes st bs) = max_size st"
  "bytes_written (put_bytes st bs) = bytes_written st + word_of_nat (length bs)"
  "oerrmsg (put_bytes st bs) = oerrmsg st"
  by (simp_all add: put_bytes_def)

lemma is_sizing_put [simp]: "is_sizing (sink (put_bytes st bs)) = is_sizing (sink st)"
  by (simp add: put_bytes_def is_sizing_def split: osink.split)

lemma obuf_okE:
  assumes "obuf_ok st"
  obtains b p where "sink st = Obuf b p" and "unat (max_size st) < 2 ^ 63" and "oerrmsg st = None"
    and "unat (bytes_written st) \<le> unat (max_size st)"
    and "p + (unat (max_size st) - unat (bytes_written st)) \<le> length b"
  using assms by (auto simp: obuf_ok_def split: osink.splits)

lemma obuf_ok_not_sizing: "obuf_ok st \<Longrightarrow> \<not> is_sizing (sink st)"
  by (auto simp: is_sizing_def elim: obuf_okE)

lemma room_unat:
  assumes "obuf_ok st" and "room st n"
  shows "unat (bytes_written st + word_of_nat n) = unat (bytes_written st) + n"
proof -
  have lt: "unat (bytes_written st) + n < 2 ^ 64"
    using assms(2) unat_64_less [of "max_size st"] unfolding room_def by linarith
  then have "unat (word_of_nat n :: size_t) = n" by (simp add: unat_of_nat)
  with lt show ?thesis by (simp add: unat_word_ariths)
qed

lemma obuf_ok_put:
  assumes "obuf_ok st" and "room st (length bs)"
  shows "obuf_ok (put_bytes st bs)"
  using assms(1)
proof (rule obuf_okE)
  fix b p
  assume "sink st = Obuf b p" "unat (max_size st) < 2 ^ 63" "oerrmsg st = None"
    "p + (unat (max_size st) - unat (bytes_written st)) \<le> length b"
  with assms(2) show ?thesis
    unfolding obuf_ok_def put_bytes_simps room_unat [OF assms]
    by (simp add: put_bytes_def room_def)
qed

lemma owin_put:
  assumes "obuf_ok st" and "room st (length bs)"
  shows "owin st (put_bytes st bs)"
  using assms(1)
proof (rule obuf_okE)
  fix b p
  assume k: "sink st = Obuf b p"
    and le: "p + (unat (max_size st) - unat (bytes_written st)) \<le> length b"
  have r: "unat (bytes_written st) + length bs \<le> unat (max_size st)"
    using assms(2) by (simp add: room_def)
  have fit: "p + length bs \<le> length b" using le r by linarith
  have same: "(take p b @ bs @ drop (p + length bs) b) ! i = b ! i"
    if "i < length b" "i < p \<or> p + (unat (max_size st) - unat (bytes_written st)) \<le> i" for i
  proof (cases "i < p")
    case True
    with that fit show ?thesis by (simp add: nth_append)
  next
    case False
    with that r have "p + length bs \<le> i" by linarith
    with that fit show ?thesis by (auto simp: nth_append)
  qed
  have s: "sink (put_bytes st bs) = Obuf (take p b @ bs @ drop (p + length bs) b) (p + length bs)"
    by (simp add: put_bytes_def k)
  show ?thesis
    unfolding owin_def put_bytes_simps room_unat [OF assms] s k
    using r fit same by simp
qed

lemma owin_refl: "obuf_ok st \<Longrightarrow> owin st st"
  by (auto simp: owin_def elim: obuf_okE)

lemma owin_trans:
  assumes "owin a b" and "owin b c"
  shows "owin a c"
proof -
  from assms(1) obtain ba pa bb pb where k: "sink a = Obuf ba pa" "sink b = Obuf bb pb"
    by (auto simp: owin_def split: osink.splits)
  from assms(2) k obtain bc pc where kc: "sink c = Obuf bc pc"
    by (auto simp: owin_def split: osink.splits)
  note o1 = assms(1) [unfolded owin_def k, simplified]
  have mb: "max_size b = max_size a" using o1 by blast
  note o2 = assms(2) [unfolded owin_def k kc, simplified]
  have "bc ! i = ba ! i"
    if "i < length ba" "i < pa \<or> pa + (unat (max_size a) - unat (bytes_written a)) \<le> i" for i
  proof -
    have "i < pb \<or> pb + (unat (max_size b) - unat (bytes_written b)) \<le> i"
      unfolding mb using that(2) o1 by (elim disjE) linarith+
    then have "bc ! i = bb ! i" using o2 o1 that(1) by auto
    also have "bb ! i = ba ! i" using o1 that by auto
    finally show ?thesis .
  qed
  then show ?thesis unfolding owin_def k kc using o1 o2 by auto
qed

lemma owin_errmsg [simp]: "owin st (st'\<lparr>oerrmsg := e\<rparr>) = owin st st'"
  by (cases "sink st"; cases "sink st'") (simp_all add: owin_def)

lemma put_bytes_append: "put_bytes (put_bytes st xs) ys = put_bytes st (xs @ ys)"
proof (cases "sink st")
  case (Obuf b p)
  show ?thesis
  proof (cases "p \<le> length b")
    case True
    with Obuf show ?thesis by (simp add: put_bytes_def ac_simps)
  next
    case False
    with Obuf show ?thesis by (simp add: put_bytes_def ac_simps)
  qed
qed (simp_all add: put_bytes_def add.assoc)

lemma put_bytes_Nil: "is_sizing (sink st) \<or> obuf_ok st \<Longrightarrow> put_bytes st [] = st"
  by (auto simp: put_bytes_def is_sizing_def split: osink.split)

lemma room_append:
  "obuf_ok st \<Longrightarrow> room st (length xs) \<Longrightarrow>
   room (put_bytes st xs) (length ys) = room st (length (xs @ ys))"
  by (simp add: room_def room_unat [unfolded room_def] add.assoc)

lemma writesI:
  assumes "\<And>st. is_sizing (sink st) \<Longrightarrow> g st = Ret () (put_bytes st bs)"
    and "\<And>st. obuf_ok st \<Longrightarrow> room st (length bs) \<Longrightarrow> g st = Ret () (put_bytes st bs)"
    and "\<And>st. obuf_ok st \<Longrightarrow> \<not> room st (length bs) \<Longrightarrow> \<exists>st'. g st = Err st' \<and> owin st st'"
  shows "writes g (Some bs)"
  using assms by (simp add: writes_def)

lemma writes_sizing: "writes g (Some bs) \<Longrightarrow> is_sizing (sink st) \<Longrightarrow> g st = Ret () (put_bytes st bs)"
  by (simp add: writes_def)

lemma writes_room:
  "writes g (Some bs) \<Longrightarrow> obuf_ok st \<Longrightarrow> room st (length bs) \<Longrightarrow> g st = Ret () (put_bytes st bs)"
  by (simp add: writes_def)

lemma writes_no_room:
  "writes g (Some bs) \<Longrightarrow> obuf_ok st \<Longrightarrow> \<not> room st (length bs) \<Longrightarrow> \<exists>st'. g st = Err st' \<and> owin st st'"
  by (simp add: writes_def)

lemma writes_None_sizing: "writes g None \<Longrightarrow> is_sizing (sink st) \<Longrightarrow> \<exists>st'. g st = Err st'"
  by (simp add: writes_def)

lemma writes_None_obuf: "writes g None \<Longrightarrow> obuf_ok st \<Longrightarrow> \<exists>st'. g st = Err st' \<and> owin st st'"
  by (simp add: writes_def)

lemma writes_error: "writes (\<lambda>st. oerror st msg) None"
  by (simp add: writes_def oerror_def owin_refl)

lemma writes_Nil: "writes (\<lambda>st. Ret () st) (Some [])"
proof (rule writesI)
  fix st :: "'a pb_ostream_t"
  assume "obuf_ok st" and "\<not> room st (length [])"
  then show "\<exists>st'. Ret () st = Err st' \<and> owin st st'"
    by (simp add: room_def obuf_ok_def)
qed (simp_all add: put_bytes_Nil)

lemma writes_then:
  assumes "writes g r1" and "\<And>bs. r1 = Some bs \<Longrightarrow> writes h r2"
  shows "writes (\<lambda>st. andThen (g st) (\<lambda>_ st. h st)) (cat_opt r1 r2)"
proof (cases r1)
  case None
  then show ?thesis using assms(1) by (fastforce simp: writes_def cat_opt_def)
next
  case (Some xs)
  note g = assms(1) [unfolded Some] and h = assms(2) [OF Some]
  have room1: "\<exists>st'. andThen (g st) (\<lambda>_ st. h st) = Err st' \<and> owin st st'"
    if "obuf_ok st" "\<not> room st (length xs)" for st
    using writes_no_room [OF g that] by auto
  have room2: "\<exists>st'. andThen (g st) (\<lambda>_ st. h st) = Err st' \<and> owin st st'"
    if ok: "obuf_ok st" "room st (length xs)"
      and e: "\<exists>st'. h (put_bytes st xs) = Err st' \<and> owin (put_bytes st xs) st'" for st
    using writes_room [OF g ok] e owin_trans [OF owin_put [OF ok]] by auto
  show ?thesis
  proof (cases r2)
    case None
    note h = h [unfolded None]
    have "\<exists>st'. andThen (g st) (\<lambda>_ st. h st) = Err st' \<and> owin st st'" if ok: "obuf_ok st" for st
      using room1 [OF ok] room2 [OF ok] writes_None_obuf [OF h] obuf_ok_put [OF ok] by blast
    moreover have "\<exists>st'. andThen (g st) (\<lambda>_ st. h st) = Err st'" if "is_sizing (sink st)" for st
      using writes_sizing [OF g that] writes_None_sizing [OF h, of "put_bytes st xs"] that by auto
    ultimately show ?thesis by (simp add: Some None cat_opt_def writes_def)
  next
    case some2: (Some ys)
    note h = h [unfolded some2]
    have "writes (\<lambda>st. andThen (g st) (\<lambda>_ st. h st)) (Some (xs @ ys))"
    proof (rule writesI)
      fix st :: "'a pb_ostream_t" assume "is_sizing (sink st)"
      then show "andThen (g st) (\<lambda>_ st. h st) = Ret () (put_bytes st (xs @ ys))"
        by (simp add: writes_sizing [OF g] writes_sizing [OF h] put_bytes_append)
    next
      fix st :: "'a pb_ostream_t" assume ok: "obuf_ok st" and r: "room st (length (xs @ ys))"
      then have rx: "room st (length xs)" by (simp add: room_def)
      then have "room (put_bytes st xs) (length ys)" using room_append [OF ok rx] r by simp
      then show "andThen (g st) (\<lambda>_ st. h st) = Ret () (put_bytes st (xs @ ys))"
        by (simp add: writes_room [OF g ok rx] writes_room [OF h obuf_ok_put [OF ok rx]] put_bytes_append)
    next
      fix st :: "'a pb_ostream_t" assume ok: "obuf_ok st" and nr: "\<not> room st (length (xs @ ys))"
      show "\<exists>st'. andThen (g st) (\<lambda>_ st. h st) = Err st' \<and> owin st st'"
      proof (cases "room st (length xs)")
        case True
        then have "\<not> room (put_bytes st xs) (length ys)" using room_append [OF ok True] nr by simp
        from room2 [OF ok True writes_no_room [OF h obuf_ok_put [OF ok True] this]] show ?thesis .
      qed (rule room1 [OF ok])
    qed
    then show ?thesis by (simp add: Some some2 cat_opt_def)
  qed
qed

lemma pb_write_sizing: "is_sizing (sink st) \<Longrightarrow> pb_write st buf n = Ret () (st\<lparr>bytes_written := bytes_written st + n\<rparr>)"
  by (simp add: pb_write_def)

lemma put_bytes_sizing:
  "is_sizing (sink st) \<Longrightarrow> put_bytes st bs = st\<lparr>bytes_written := bytes_written st + word_of_nat (length bs)\<rparr>"
  by (auto simp: put_bytes_def is_sizing_def split: osink.splits)

lemma writes_pb_write:
  assumes "buf (length bs) = Some bs" and "length bs < 2 ^ 63" and "n = word_of_nat (length bs)"
  shows "writes (\<lambda>st. pb_write st buf n) (Some bs)"
proof (rule writesI)
  fix st :: "'a pb_ostream_t" assume "is_sizing (sink st)"
  then show "pb_write st buf n = Ret () (put_bytes st bs)"
    by (simp add: pb_write_sizing put_bytes_sizing assms(3))
next
  fix st :: "'a pb_ostream_t" assume ok: "obuf_ok st" and r: "room st (length bs)"
  from ok obtain b p where k: "sink st = Obuf b p"
    and le: "p + (unat (max_size st) - unat (bytes_written st)) \<le> length b"
    by (rule obuf_okE)
  have n: "unat n = length bs" using assms(2,3) by (simp add: unat_of_nat)
  have "\<not> bytes_written st + n > max_size st"
    using room_unat [OF ok r] r by (simp add: assms(3) room_def word_less_nat_alt)
  moreover have "p + length bs \<le> length b" using le r unfolding room_def by linarith
  ultimately show "pb_write st buf n = Ret () (put_bytes st bs)"
    by (simp add: pb_write_def is_sizing_def k n assms(1) ostream_callback_def buf_write_def
        put_bytes_def assms(3) [symmetric])
next
  fix st :: "'a pb_ostream_t" assume ok: "obuf_ok st" and nr: "\<not> room st (length bs)"
  have n: "unat n = length bs" using assms(2,3) by (simp add: unat_of_nat)
  have lt: "unat (bytes_written st) + length bs < 2 ^ 64"
    using assms(2) ok by (elim obuf_okE) simp
  then have "unat (bytes_written st + n) = unat (bytes_written st) + length bs"
    by (simp add: unat_word_ariths n)
  then have "bytes_written st + n > max_size st"
    using nr by (simp add: room_def word_less_nat_alt)
  then show "\<exists>st'. pb_write st buf n = Err st' \<and> owin st st'"
    using obuf_ok_not_sizing [OF ok] ok by (simp add: pb_write_def oerror_def owin_refl)
qed

lemma writes_varint: "writes (\<lambda>st. pb_encode_varint st v) (Some (varint (unat v)))"
proof (cases "v \<le> 0x7F")
  case True
  then have "unat v < 128" by (simp add: word_le_nat_alt)
  then have "varint (unat v) = [ucast v]" by (subst varint.simps) simp
  with True show ?thesis
    by (simp add: pb_encode_varint_def writes_pb_write local_buf_def)
next
  case False
  then have nz: "v \<noteq> 0" by auto
  let ?bs = "(varint_fill v)[length (varint_fill v) - 1 := varint_fill v ! (length (varint_fill v) - 1) AND 0x7F]"
  have len: "length ?bs = length (varint_fill v)" by simp
  have le: "length (varint_fill v) \<le> 10"
    using varint_word_length [of v] varint_fill_length [OF nz] by simp
  have "writes (\<lambda>st. pb_write st (local_buf ?bs) (word_of_nat (length (varint_fill v)))) (Some ?bs)"
    by (rule writes_pb_write) (use le local_buf_all [of ?bs] len in simp_all)
  with False le show ?thesis
    by (simp add: pb_encode_varint_def Let_def varint_fill_varint [OF nz, simplified])
qed

lemma writes_svarint: "writes (\<lambda>st. pb_encode_svarint st v) (Some (varint (unat (zigzag v))))"
  by (simp add: pb_encode_svarint_def writes_varint)

lemma writes_deref:
  "v = Some x \<Longrightarrow> writes (\<lambda>st. k st x) r \<Longrightarrow> writes (\<lambda>st. deref v (k st)) r"
  by simp

lemma ucast_and_255: "(ucast (x AND 0xFF) :: byte) = ucast (x :: 'a::len word)"
proof -
  have x: "x AND 0xFF = take_bit 8 x" by (simp add: take_bit_eq_mask mask_eq_exp_minus_1)
  show ?thesis
    unfolding x by (intro bit_word_eqI) (simp add: bit_ucast_iff bit_take_bit_iff)
qed

lemma word_le_bytes32:
  "word_le 4 (val :: 32 word) =
     [ucast (val AND 0xFF), ucast (drop_bit 8 val AND 0xFF),
      ucast (drop_bit 16 val AND 0xFF), ucast (drop_bit 24 val AND 0xFF)]"
  by (simp add: ucast_and_255 numeral_eq_Suc drop_bit_drop_bit)

lemma word_le_bytes64:
  "word_le 8 (val :: 64 word) =
     [ucast (val AND 0xFF), ucast (drop_bit 8 val AND 0xFF),
      ucast (drop_bit 16 val AND 0xFF), ucast (drop_bit 24 val AND 0xFF),
      ucast (drop_bit 32 val AND 0xFF), ucast (drop_bit 40 val AND 0xFF),
      ucast (drop_bit 48 val AND 0xFF), ucast (drop_bit 56 val AND 0xFF)]"
  by (simp add: ucast_and_255 numeral_eq_Suc drop_bit_drop_bit)

lemma load_u32_word_le: "load_bytes m a 4 = Some bs \<Longrightarrow> load_u32 m a = Some (le_word bs) \<and> word_le 4 (le_word bs :: 32 word) = bs"
  using word_le_le_word [of bs, where 'a = 32] load_bytes_length [of m a 4 bs]
  by (simp add: load_u32_def)

lemma load_u64_word_le: "load_bytes m a 8 = Some bs \<Longrightarrow> load_u64 m a = Some (le_word bs) \<and> word_le 8 (le_word bs :: 64 word) = bs"
  using word_le_le_word [of bs, where 'a = 64] load_bytes_length [of m a 8 bs]
  by (simp add: load_u64_def)

text \<open>A fixed-width integer is written as the little-endian bytes that memory holds.\<close>

lemma writes_fixed32:
  assumes "load_bytes m a 4 = Some bs"
  shows "writes (\<lambda>st. pb_encode_fixed32 st m a) (Some bs)"
proof -
  note l = load_u32_word_le [OF assms] and n = load_bytes_length [OF assms]
  have "pb_encode_fixed32 st m a = pb_write st (local_buf bs) 4" for st :: "'a pb_ostream_t"
    using l by (simp add: pb_encode_fixed32_def word_le_bytes32)
  moreover have "writes (\<lambda>st :: 'a pb_ostream_t. pb_write st (local_buf bs) 4) (Some bs)"
    by (rule writes_pb_write) (simp_all add: n local_buf_def)
  ultimately show ?thesis by simp
qed

lemma writes_fixed64:
  assumes "load_bytes m a 8 = Some bs"
  shows "writes (\<lambda>st. pb_encode_fixed64 st m a) (Some bs)"
proof -
  note l = load_u64_word_le [OF assms] and n = load_bytes_length [OF assms]
  have "pb_encode_fixed64 st m a = pb_write st (local_buf bs) 8" for st :: "'a pb_ostream_t"
    using l by (simp add: pb_encode_fixed64_def word_le_bytes64)
  moreover have "writes (\<lambda>st :: 'a pb_ostream_t. pb_write st (local_buf bs) 8) (Some bs)"
    by (rule writes_pb_write) (simp_all add: n local_buf_def)
  ultimately show ?thesis by simp
qed

lemma tag_value:
  assumes "unat wt < 8"
  shows "unat (push_bit 3 (ucast (fn :: 32 word)) OR ucast (wt :: 32 word) :: size_t) = unat fn * 8 + unat wt"
proof -
  have "push_bit 3 (ucast fn) AND (ucast wt :: size_t) = 0"
  proof (rule bit_word_eqI)
    fix n
    have "\<not> bit wt n" if "3 \<le> n"
    proof -
      have "take_bit 3 wt = wt"
        unfolding word_unat_eq_iff unsigned_take_bit_eq using assms by (simp add: take_bit_eq_mod)
      then show ?thesis using that by (metis bit_take_bit_iff not_le)
    qed
    then show "bit (push_bit 3 (ucast fn) AND (ucast wt :: size_t)) n = bit (0 :: size_t) n"
      by (auto simp: bit_and_iff bit_push_bit_iff bit_ucast_iff)
  qed
  then have or: "push_bit 3 (ucast fn) OR ucast wt = push_bit 3 (ucast fn) + (ucast wt :: size_t)"
    by (simp add: disjunctive_add_eq_or)
  have f: "unat fn < 2 ^ 32" by (rule unat_32_less)
  then have "unat (push_bit 3 (ucast fn) :: size_t) = unat fn * 8"
    by (simp add: push_bit_eq_mult unat_word_ariths)
  then show ?thesis unfolding or using f assms by (simp add: unat_word_ariths)
qed

lemma writes_tag:
  "unat wt < 8 \<Longrightarrow> writes (\<lambda>st. pb_encode_tag st wt fn) (Some (varint (unat fn * 8 + unat wt)))"
  using writes_varint by (simp add: pb_encode_tag_def tag_value [symmetric])

definition tag_spec :: "pb_field_t \<Rightarrow> byte list option" where
  "tag_spec f = map_option (\<lambda>wt. varint (unat (tag f) * 8 + unat wt)) (wire_type_of (PB_LTYPE (ftype f)))"

lemma wire_type_of_small: "wire_type_of lt = Some wt \<Longrightarrow> unat wt < 8"
  by (auto simp: wire_type_of_def split: if_splits)

lemma writes_tag_for_field: "writes (\<lambda>st. pb_encode_tag_for_field st f) (tag_spec f)"
proof (cases "wire_type_of (PB_LTYPE (ftype f))")
  case None
  then show ?thesis by (simp add: pb_encode_tag_for_field_def tag_spec_def writes_error)
next
  case (Some wt)
  then show ?thesis
    using writes_tag [OF wire_type_of_small [OF Some]] by (simp add: pb_encode_tag_for_field_def tag_spec_def)
qed

lemma writes_string:
  assumes "buf (unat sz) = Some bs" and "length bs = unat sz" and "unat sz < 2 ^ 63"
  shows "writes (\<lambda>st. pb_encode_string st buf sz) (Some (varint (length bs) @ bs))"
proof -
  have "writes (\<lambda>st. pb_write st buf sz) (Some bs)"
    by (rule writes_pb_write) (use assms in simp_all)
  from writes_then [OF writes_varint [of sz] this]
  show ?thesis by (simp add: pb_encode_string_def cat_opt_def assms(2))
qed

text \<open>What a writer leaves in a buffer that is large enough.\<close>

definition written :: "byte list \<Rightarrow> byte list \<Rightarrow> 'u pb_ostream_t" where
  "written bs buf =
     \<lparr>sink = Obuf (bs @ drop (length bs) buf) (length bs), max_size = word_of_nat (length buf),
      bytes_written = word_of_nat (length bs), oerrmsg = None\<rparr>"

lemma from_buffer_ok:
  "length buf < 2 ^ 63 \<Longrightarrow> obuf_ok (pb_ostream_from_buffer buf (word_of_nat (length buf)))"
  by (simp add: obuf_ok_def pb_ostream_from_buffer_def unat_of_nat)

lemma writes_from_buffer:
  assumes "writes g (Some bs)" and "length bs \<le> length buf" and "length buf < 2 ^ 63"
  shows "g (pb_ostream_from_buffer buf (word_of_nat (length buf))) = Ret () (written bs buf)"
proof -
  let ?st = "pb_ostream_from_buffer buf (word_of_nat (length buf))"
  have "room ?st (length bs)"
    using assms(2,3) by (simp add: room_def pb_ostream_from_buffer_def unat_of_nat)
  from writes_room [OF assms(1) from_buffer_ok [OF assms(3)] this]
  show ?thesis by (simp add: put_bytes_def pb_ostream_from_buffer_def written_def)
qed

lemma writes_window:
  assumes "writes g r" and "obuf_ok st"
  shows "\<exists>st'. owin st st' \<and>
    g st = (case r of Some bs \<Rightarrow> if room st (length bs) then Ret () st' else Err st' | None \<Rightarrow> Err st')"
proof (cases r)
  case None
  then show ?thesis using writes_None_obuf [of g st] assms by auto
next
  case (Some bs)
  show ?thesis
  proof (cases "room st (length bs)")
    case True
    then show ?thesis using Some writes_room [of g bs st] owin_put [OF assms(2) True] assms by auto
  next
    case False
    then show ?thesis using Some writes_no_room [of g bs st] assms by auto
  qed
qed

lemma writes_size:
  assumes "writes g r"
  shows "(case g PB_OSTREAM_SIZING of
        Ret _ st \<Rightarrow> Ret (bytes_written st) () | Err _ \<Rightarrow> Err () | Undef \<Rightarrow> Undef | NoFuel \<Rightarrow> NoFuel) =
    (case r of Some bs \<Rightarrow> Ret (word_of_nat (length bs)) () | None \<Rightarrow> Err ())"
proof (cases r)
  case None
  then show ?thesis
    using writes_None_sizing [of g PB_OSTREAM_SIZING] assms by (auto simp: PB_OSTREAM_SIZING_def is_sizing_def)
next
  case (Some bs)
  then show ?thesis
    using writes_sizing [of g bs PB_OSTREAM_SIZING] assms by (auto simp: PB_OSTREAM_SIZING_def is_sizing_def)
qed

end
