(* ===== verification/PB_Iter.thy ===== *)
theory PB_Iter
  imports PB_Types
begin

text \<open>
  The field iterator of \<^verbatim>\<open>pb_common.c\<close>. The iterator walks a descriptor array and keeps the
  address of the current field's data and of its size or presence flag; it wraps to the first field
  at the end, so that a search can start from the current position.

  The position is an index into the descriptor array. The search loop
  \<open>iter_search\<close> is the shape that \<^verbatim>\<open>pb_field_iter_find\<close> and
  \<^verbatim>\<open>find_extension_field\<close> share, and \<open>iter_for\<close> is the loop
  \<^verbatim>\<open>do ... while (pb_field_iter_next(&iter))\<close>; both have fuel, and the lemmas show
  that one unit per descriptor is enough.

  The specification is \<open>iter_nth fs d k\<close>, the iterator at field \<open>k\<close>, with the closed
  forms \<open>field_off\<close> of its data offset and \<open>required_before\<close> of its required-field index.
\<close>

record pb_field_iter_t =
  start :: "pb_field_t list"
  pos :: nat
  required_field_index :: "32 word"
  dest_struct :: addr
  pData :: addr
  pSize :: addr

definition cur :: "pb_field_iter_t \<Rightarrow> pb_field_t" where
  "cur it = field_at (start it) (pos it)"

definition pb_field_iter_begin :: "pb_field_t list \<Rightarrow> addr \<Rightarrow> bool \<times> pb_field_iter_t" where
  "pb_field_iter_begin fs dest =
     (let f = field_at fs 0; pd = dest + uint (data_offset f) in
      (tag f \<noteq> 0,
       \<lparr>start = fs, pos = 0, required_field_index = 0, dest_struct = dest,
        pData = pd, pSize = pd + sint (size_offset f)\<rparr>))"

definition pb_field_iter_next :: "pb_field_iter_t \<Rightarrow> bool \<times> pb_field_iter_t" where
  "pb_field_iter_next it =
     (let prev_field = cur it in
      if tag prev_field = 0 then (False, it)
      else
        let it = it\<lparr>pos := Suc (pos it)\<rparr> in
        if tag (cur it) = 0 then (False, snd (pb_field_iter_begin (start it) (dest_struct it)))
        else if PB_HTYPE (ftype prev_field) = PB_HTYPE_ONEOF \<and>
                PB_HTYPE (ftype (cur it)) = PB_HTYPE_ONEOF \<and>
                data_offset (cur it) = PB_SIZE_MAX
        then (True, it)
        else
          let prev_size :: size_t =
                (if PB_ATYPE (ftype prev_field) = PB_ATYPE_STATIC \<and>
                    PB_HTYPE (ftype prev_field) = PB_HTYPE_REPEATED
                 then ucast (data_size prev_field) * ucast (array_size prev_field)
                 else if PB_ATYPE (ftype prev_field) = PB_ATYPE_POINTER then 8
                 else ucast (data_size prev_field));
              rfi = (if PB_HTYPE (ftype prev_field) = PB_HTYPE_REQUIRED
                     then required_field_index it + 1 else required_field_index it);
              pd = pData it + uint prev_size + uint (data_offset (cur it))
          in (True, it\<lparr>required_field_index := rfi, pData := pd,
                       pSize := pd + sint (size_offset (cur it))\<rparr>))"

text \<open>
  The search loop: \<open>None\<close> when the fuel ends before the loop is back at its start position.
\<close>

fun iter_search ::
    "(pb_field_t \<Rightarrow> bool) \<Rightarrow> nat \<Rightarrow> nat \<Rightarrow> pb_field_iter_t \<Rightarrow> (bool \<times> pb_field_iter_t) option" where
  "iter_search P 0 start_pos it = None"
| "iter_search P (Suc n) start_pos it =
     (if P (cur it) then Some (True, it)
      else let it' = snd (pb_field_iter_next it)
           in if pos it' \<noteq> start_pos then iter_search P n start_pos it' else Some (False, it'))"

definition pb_field_iter_find :: "pb_field_iter_t \<Rightarrow> 32 word \<Rightarrow> (bool \<times> pb_field_iter_t) option" where
  "pb_field_iter_find it tg =
     iter_search (\<lambda>f. tag f = tg \<and> PB_LTYPE (ftype f) \<noteq> PB_LTYPE_EXTENSION)
       (Suc (length (start it))) (pos it) it"

definition find_extension_field :: "pb_field_iter_t \<Rightarrow> (bool \<times> pb_field_iter_t) option" where
  "find_extension_field it =
     iter_search (\<lambda>f. PB_LTYPE (ftype f) = PB_LTYPE_EXTENSION)
       (Suc (length (start it))) (pos it) it"

fun iter_for ::
    "nat \<Rightarrow> (pb_field_iter_t \<Rightarrow> 's \<Rightarrow> (unit, 's) outcome) \<Rightarrow> pb_field_iter_t \<Rightarrow> 's \<Rightarrow> (unit, 's) outcome" where
  "iter_for 0 body it s = NoFuel"
| "iter_for (Suc n) body it s =
     andThen (body it s) (\<lambda>_ s.
       if fst (pb_field_iter_next it) then iter_for n body (snd (pb_field_iter_next it)) s
       else Ret () s)"

subsection \<open>Specification of iterator positions\<close>

text \<open>The bytes that a field occupies at its data offset in the message structure.\<close>

definition field_extent :: "pb_field_t \<Rightarrow> nat" where
  "field_extent f =
     (if PB_ATYPE (ftype f) = PB_ATYPE_STATIC \<and> PB_HTYPE (ftype f) = PB_HTYPE_REPEATED
      then unat (data_size f) * unat (array_size f)
      else if PB_ATYPE (ftype f) = PB_ATYPE_POINTER then 8
      else unat (data_size f))"

definition same_union :: "pb_field_t \<Rightarrow> pb_field_t \<Rightarrow> bool" where
  "same_union f g \<longleftrightarrow> PB_HTYPE (ftype f) = PB_HTYPE_ONEOF \<and> PB_HTYPE (ftype g) = PB_HTYPE_ONEOF \<and>
     data_offset g = PB_SIZE_MAX"

text \<open>The offset of field \<open>k\<close>'s data in the message structure.\<close>

fun field_off :: "pb_field_t list \<Rightarrow> nat \<Rightarrow> nat" where
  "field_off fs 0 = unat (data_offset (field_at fs 0))"
| "field_off fs (Suc k) =
     (if same_union (field_at fs k) (field_at fs (Suc k)) then field_off fs k
      else field_off fs k + field_extent (field_at fs k) + unat (data_offset (field_at fs (Suc k))))"

text \<open>
  The offset of field \<open>k\<close>'s size or presence flag. Members of a union share the flag of
  the first member.
\<close>

fun size_off :: "pb_field_t list \<Rightarrow> nat \<Rightarrow> int" where
  "size_off fs 0 = int (field_off fs 0) + sint (size_offset (field_at fs 0))"
| "size_off fs (Suc k) =
     (if same_union (field_at fs k) (field_at fs (Suc k)) then size_off fs k
      else int (field_off fs (Suc k)) + sint (size_offset (field_at fs (Suc k))))"

definition is_required :: "pb_field_t \<Rightarrow> bool" where
  "is_required f \<longleftrightarrow> PB_HTYPE (ftype f) = PB_HTYPE_REQUIRED"

definition required_before :: "pb_field_t list \<Rightarrow> nat \<Rightarrow> nat" where
  "required_before fs k = length (filter is_required (take k fs))"

definition iter_nth :: "pb_field_t list \<Rightarrow> addr \<Rightarrow> nat \<Rightarrow> pb_field_iter_t" where
  "iter_nth fs d k =
     \<lparr>start = fs, pos = k, required_field_index = word_of_nat (required_before fs k),
      dest_struct = d, pData = d + int (field_off fs k), pSize = d + size_off fs k\<rparr>"

text \<open>A descriptor array as the generator writes it: no entry has tag 0.\<close>

definition fields_ok :: "pb_field_t list \<Rightarrow> bool" where
  "fields_ok fs \<longleftrightarrow> (\<forall>f\<in>set fs. tag f \<noteq> 0)"

subsection \<open>Lemmas\<close>

lemma iter_nth_simps [simp]:
  "start (iter_nth fs d k) = fs" "pos (iter_nth fs d k) = k" "dest_struct (iter_nth fs d k) = d"
  "pData (iter_nth fs d k) = d + int (field_off fs k)" "pSize (iter_nth fs d k) = d + size_off fs k"
  "required_field_index (iter_nth fs d k) = word_of_nat (required_before fs k)"
  "cur (iter_nth fs d k) = field_at fs k"
  by (simp_all add: iter_nth_def cur_def)

lemma fields_ok_nth: "fields_ok fs \<Longrightarrow> k < length fs \<Longrightarrow> tag (fs ! k) \<noteq> 0"
  by (simp add: fields_ok_def)

lemma begin_iter_nth: "snd (pb_field_iter_begin fs d) = iter_nth fs d 0"
  by (simp add: pb_field_iter_begin_def Let_def iter_nth_def required_before_def)

lemma fst_begin: "fields_ok fs \<Longrightarrow> fst (pb_field_iter_begin fs d) \<longleftrightarrow> fs \<noteq> []"
  by (cases fs) (auto simp: pb_field_iter_begin_def Let_def fields_ok_def field_at_def)

lemma required_before_Suc:
  "k < length fs \<Longrightarrow>
   required_before fs (Suc k) = required_before fs k + (if is_required (fs ! k) then 1 else 0)"
  by (simp add: required_before_def take_Suc_conv_app_nth)

lemma uint_prev_size:
  "uint (ucast (a :: 32 word) * ucast (b :: 32 word) :: size_t) = int (unat a * unat b)"
proof -
  have "unat a < 2 ^ 32" "unat b < 2 ^ 32"
    by (rule unat_32_less)+
  then have "unat a * unat b < 2 ^ 32 * 2 ^ 32"
    by (intro mult_strict_mono') simp_all
  then have "unat (ucast a * ucast b :: size_t) = unat a * unat b"
    by (simp add: unat_word_ariths)
  then show ?thesis by (metis uint_nat)
qed

text \<open>One step of the iterator, at any position of a well-formed descriptor array.\<close>

lemma next_iter_nth:
  assumes "fields_ok fs" and "Suc k < length fs"
  shows "pb_field_iter_next (iter_nth fs d k) = (True, iter_nth fs d (Suc k))"
proof -
  let ?p = "fs ! k" and ?c = "fs ! Suc k"
  have t: "tag ?p \<noteq> 0" "tag ?c \<noteq> 0" using assms by (simp_all add: fields_ok_nth)
  have c: "cur (iter_nth fs d k) = ?p" "cur ((iter_nth fs d k)\<lparr>pos := Suc k\<rparr>) = ?c"
    using assms by (simp_all add: cur_def iter_nth_def)
  have req: "word_of_nat (required_before fs (Suc k)) =
     (if PB_HTYPE (ftype ?p) = PB_HTYPE_REQUIRED then word_of_nat (required_before fs k) + 1
      else word_of_nat (required_before fs k) :: 32 word)"
    using assms by (simp add: required_before_Suc is_required_def)
  show ?thesis
  proof (cases "same_union ?p ?c")
    case True
    then have "PB_HTYPE (ftype ?p) = PB_HTYPE_ONEOF" by (simp add: same_union_def)
    with True t c req assms show ?thesis
      by (simp add: pb_field_iter_next_def Let_def same_union_def iter_nth_def)
  next
    case False
    then have nu: "\<not> (PB_HTYPE (ftype ?p) = PB_HTYPE_ONEOF \<and> PB_HTYPE (ftype ?c) = PB_HTYPE_ONEOF \<and>
        data_offset ?c = PB_SIZE_MAX)"
      by (simp add: same_union_def)
    have off: "field_off fs (Suc k) = field_off fs k + field_extent ?p + unat (data_offset ?c)"
      "size_off fs (Suc k) = int (field_off fs (Suc k)) + sint (size_offset ?c)"
      using False assms by simp_all
    show ?thesis
      unfolding pb_field_iter_next_def Let_def
      using nu t c assms(2)
      by (simp add: field_extent_def uint_prev_size required_before_Suc is_required_def off iter_nth_def
          del: field_off.simps size_off.simps)
  qed
qed

lemma next_iter_nth_last:
  assumes "fields_ok fs" and "Suc k = length fs"
  shows "pb_field_iter_next (iter_nth fs d k) = (False, iter_nth fs d 0)"
proof -
  have "tag (fs ! k) \<noteq> 0" using assms by (simp add: fields_ok_nth)
  with assms show ?thesis
    by (simp add: pb_field_iter_next_def Let_def cur_def begin_iter_nth)
qed

lemma next_iter_nth_empty: "pb_field_iter_next (iter_nth [] d 0) = (False, iter_nth [] d 0)"
  by (simp add: pb_field_iter_next_def Let_def)

text \<open>
  Positions the iterator can be in while it is used: a field of the array, or the terminator of
  an empty one.
\<close>

definition at_field :: "pb_field_t list \<Rightarrow> nat \<Rightarrow> bool" where
  "at_field fs k \<longleftrightarrow> k < length fs \<or> fs = [] \<and> k = 0"

text \<open>The fields a search passes from position \<open>j\<close> until it is back at \<open>p\<close>.\<close>

definition passed :: "nat \<Rightarrow> nat \<Rightarrow> nat \<Rightarrow> nat set" where
  "passed n j p = (if j < p then {j..<p} else {j..<n} \<union> {..<p})"

lemma at_field_next:
  assumes "fields_ok fs" and "at_field fs k"
  shows "snd (pb_field_iter_next (iter_nth fs d k)) = iter_nth fs d (if Suc k < length fs then Suc k else 0)"
proof (cases "fs = []")
  case True
  with assms(2) show ?thesis by (simp add: at_field_def next_iter_nth_empty)
next
  case False
  with assms(2) have "Suc k < length fs \<or> Suc k = length fs" by (auto simp: at_field_def)
  then show ?thesis using assms(1) by (auto simp: next_iter_nth next_iter_nth_last)
qed

lemma at_field_step: "at_field fs k \<Longrightarrow> at_field fs (if Suc k < length fs then Suc k else 0)"
  by (auto simp: at_field_def)

lemma iter_search_spec:
  assumes "fields_ok fs" and "j < length fs" and "p < length fs"
    and "(if j < p then p - j else length fs + p - j) \<le> n"
  shows "(\<exists>i<length fs. P (fs ! i) \<and> iter_search P n p (iter_nth fs d j) = Some (True, iter_nth fs d i)) \<or>
         ((\<forall>i\<in>passed (length fs) j p. \<not> P (fs ! i)) \<and>
          iter_search P n p (iter_nth fs d j) = Some (False, iter_nth fs d p))"
  using assms(2,4)
proof (induction n arbitrary: j)
  case 0
  with assms(3) show ?case by (auto split: if_splits)
next
  case (Suc n)
  let ?j = "if Suc j < length fs then Suc j else 0"
  have nxt: "snd (pb_field_iter_next (iter_nth fs d j)) = iter_nth fs d ?j"
    using Suc.prems assms(1) by (simp add: at_field_next at_field_def)
  show ?case
  proof (cases "P (fs ! j)")
    case True
    with Suc.prems show ?thesis by auto
  next
    case notP: False
    show ?thesis
    proof (cases "?j = p")
      case True
      have "passed (length fs) j p = {j}"
        using True Suc.prems assms(3) by (auto simp: passed_def split: if_splits)
      with notP True nxt Suc.prems show ?thesis by (auto simp: Let_def)
    next
      case False
      have lt: "?j < length fs" using Suc.prems by auto
      have le: "(if ?j < p then p - ?j else length fs + p - ?j) \<le> n"
        using Suc.prems False assms(3) by (auto split: if_splits)
      have "passed (length fs) j p = insert j (passed (length fs) ?j p)"
        using False Suc.prems assms(3) by (auto simp: passed_def split: if_splits)
      moreover have "iter_search P (Suc n) p (iter_nth fs d j) = iter_search P n p (iter_nth fs d ?j)"
        using notP nxt False Suc.prems by (simp add: Let_def)
      ultimately show ?thesis using Suc.IH [OF lt le] notP by auto
    qed
  qed
qed

lemma iter_search_full:
  assumes "fields_ok fs" and "k < length fs"
  shows "(\<exists>i<length fs. P (fs ! i) \<and>
            iter_search P (Suc (length fs)) k (iter_nth fs d k) = Some (True, iter_nth fs d i)) \<or>
         ((\<forall>i<length fs. \<not> P (fs ! i)) \<and>
          iter_search P (Suc (length fs)) k (iter_nth fs d k) = Some (False, iter_nth fs d k))"
proof -
  have "passed (length fs) k k = {..<length fs}"
    using assms(2) by (auto simp: passed_def)
  with iter_search_spec [of fs k k "Suc (length fs)" P d] assms show ?thesis by auto
qed

lemma iter_search_empty:
  "iter_search P (Suc n) 0 (iter_nth [] d 0) = Some (P PB_LAST_FIELD, iter_nth [] d 0)"
  by (simp add: next_iter_nth_empty Let_def)

lemma iter_search_at_field:
  assumes "fields_ok fs" and "at_field fs k"
  obtains b i where "iter_search P (Suc (length fs)) k (iter_nth fs d k) = Some (b, iter_nth fs d i)"
    and "at_field fs i" and "b \<longleftrightarrow> P (field_at fs i)"
proof (cases "fs = []")
  case True
  then have k: "k = 0" using assms(2) by (simp add: at_field_def)
  show ?thesis
  proof (rule that [of "P PB_LAST_FIELD" 0])
    show "iter_search P (Suc (length fs)) k (iter_nth fs d k) =
        Some (P PB_LAST_FIELD, iter_nth fs d 0)"
      unfolding True k by (rule iter_search_empty)
  qed (simp_all add: True at_field_def)
next
  case False
  with assms(2) have k: "k < length fs" by (simp add: at_field_def)
  from iter_search_full [OF assms(1) k, of P d] show ?thesis
  proof (elim disjE exE conjE)
    fix i assume "i < length fs" "P (fs ! i)"
      "iter_search P (Suc (length fs)) k (iter_nth fs d k) = Some (True, iter_nth fs d i)"
    then show ?thesis using that [of True i] by (simp add: at_field_def)
  next
    assume "\<forall>i<length fs. \<not> P (fs ! i)"
      "iter_search P (Suc (length fs)) k (iter_nth fs d k) = Some (False, iter_nth fs d k)"
    then show ?thesis using that [of False k] k by (simp add: at_field_def)
  qed
qed

lemma iter_for_seq:
  assumes "fields_ok fs" and "k < length fs" and "n = length fs - k"
  shows "iter_for n body (iter_nth fs d k) s =
         seq_out (\<lambda>j. body (iter_nth fs d j)) [k..<length fs] s"
  using assms(2,3)
proof (induction n arbitrary: k s)
  case 0
  then show ?case by simp
next
  case (Suc n)
  have u: "[k..<length fs] = k # [Suc k..<length fs]"
    using Suc.prems(1) by (simp add: upt_conv_Cons)
  show ?case
  proof (cases "Suc k < length fs")
    case True
    have nx: "pb_field_iter_next (iter_nth fs d k) = (True, iter_nth fs d (Suc k))"
      using assms(1) True by (rule next_iter_nth)
    have IH: "iter_for n body (iter_nth fs d (Suc k)) s' =
        seq_out (\<lambda>j. body (iter_nth fs d j)) [Suc k..<length fs] s'" for s'
    proof (rule Suc.IH)
      show "Suc k < length fs" by (rule True)
      show "n = length fs - Suc k" using Suc.prems by linarith
    qed
    show ?thesis by (simp add: u nx IH del: upt_Suc)
  next
    case False
    then have e: "Suc k = length fs" using Suc.prems(1) by simp
    have nx: "pb_field_iter_next (iter_nth fs d k) = (False, iter_nth fs d 0)"
      using assms(1) e by (rule next_iter_nth_last)
    show ?thesis by (simp add: u nx e del: upt_Suc)
  qed
qed

lemma iter_for_begin:
  assumes "fields_ok fs" and "fs \<noteq> []"
  shows "iter_for (length fs) body (iter_nth fs d 0) s =
         seq_out (\<lambda>j. body (iter_nth fs d j)) [0..<length fs] s"
  using iter_for_seq [of fs 0 "length fs" body d s] assms by simp

end
