(* ===== verification/PB_Encode.thy ===== *)
theory PB_Encode
  imports PB_Ostream PB_Iter
begin

text \<open>
  The message encoder of \<^verbatim>\<open>pb_encode.c\<close>: field encoders, arrays, optional fields and the
  proto3 zero test, callbacks, extensions, submessages and whole messages.

  The C functions call each other recursively through submessages only; here every function takes
  the encoder for submessages as an argument, and \<open>pb_encode\<close> ties the knot with fuel that
  bounds the nesting depth (and the length of extension chains). Code outside the library is a
  parameter, the record \<open>enc_env\<close>: the descriptor arrays by address, the user's field callbacks
  and the user's extension encoders by function address. The message is the memory \<open>m\<close>, which
  encoding does not change.
\<close>

record 'u enc_env =
  desc :: "addr \<Rightarrow> pb_field_t list"
  enc_callback :: "addr \<Rightarrow> 'u pb_ostream_t \<Rightarrow> pb_field_t \<Rightarrow> addr \<Rightarrow> mem \<Rightarrow> (unit, 'u pb_ostream_t) outcome"
  ext_encode :: "addr \<Rightarrow> 'u pb_ostream_t \<Rightarrow> addr \<Rightarrow> mem \<Rightarrow> (unit, 'u pb_ostream_t) outcome"

type_synonym 'u encoder = "'u pb_ostream_t \<Rightarrow> pb_field_t \<Rightarrow> addr \<Rightarrow> (unit, 'u pb_ostream_t) outcome"

type_synonym 'u msg_encoder =
  "'u pb_ostream_t \<Rightarrow> pb_field_t list \<Rightarrow> addr \<Rightarrow> (unit, 'u pb_ostream_t) outcome"

subsection \<open>Field encoders\<close>

definition pb_enc_varint :: "mem \<Rightarrow> 'u encoder" where
  "pb_enc_varint m st f src =
     (if data_size f = 1 then deref (load_u8 m src) (\<lambda>v. pb_encode_varint st (scast v))
      else if data_size f = 2 then deref (load_u16 m src) (\<lambda>v. pb_encode_varint st (scast v))
      else if data_size f = 4 then deref (load_u32 m src) (\<lambda>v. pb_encode_varint st (scast v))
      else if data_size f = 8 then deref (load_u64 m src) (\<lambda>v. pb_encode_varint st v)
      else oerror st ''invalid data_size'')"

definition pb_enc_uvarint :: "mem \<Rightarrow> 'u encoder" where
  "pb_enc_uvarint m st f src =
     (if data_size f = 1 then deref (load_u8 m src) (\<lambda>v. pb_encode_varint st (ucast v))
      else if data_size f = 2 then deref (load_u16 m src) (\<lambda>v. pb_encode_varint st (ucast v))
      else if data_size f = 4 then deref (load_u32 m src) (\<lambda>v. pb_encode_varint st (ucast v))
      else if data_size f = 8 then deref (load_u64 m src) (\<lambda>v. pb_encode_varint st v)
      else oerror st ''invalid data_size'')"

definition pb_enc_svarint :: "mem \<Rightarrow> 'u encoder" where
  "pb_enc_svarint m st f src =
     (if data_size f = 1 then deref (load_u8 m src) (\<lambda>v. pb_encode_svarint st (scast v))
      else if data_size f = 2 then deref (load_u16 m src) (\<lambda>v. pb_encode_svarint st (scast v))
      else if data_size f = 4 then deref (load_u32 m src) (\<lambda>v. pb_encode_svarint st (scast v))
      else if data_size f = 8 then deref (load_u64 m src) (\<lambda>v. pb_encode_svarint st v)
      else oerror st ''invalid data_size'')"

definition pb_enc_fixed64 :: "mem \<Rightarrow> 'u encoder" where
  "pb_enc_fixed64 m st f src = pb_encode_fixed64 st m src"

definition pb_enc_fixed32 :: "mem \<Rightarrow> 'u encoder" where
  "pb_enc_fixed32 m st f src = pb_encode_fixed32 st m src"

definition pb_enc_bytes :: "mem \<Rightarrow> 'u encoder" where
  "pb_enc_bytes m st f src =
     (if src = 0 then pb_encode_string st NULL_buf 0
      else deref (load_u32 m (bytes_size src)) (\<lambda>sz.
        if PB_ATYPE (ftype f) = PB_ATYPE_STATIC \<and> PB_BYTES_ARRAY_T_ALLOCSIZE sz > ucast (data_size f)
        then oerror st ''bytes size exceeded''
        else pb_encode_string st (mem_buf m (bytes_bytes src)) (ucast sz)))"

text \<open>The loop of \<^verbatim>\<open>pb_enc_string\<close> that stands for \<^verbatim>\<open>strnlen\<close>.\<close>

function string_size :: "mem \<Rightarrow> addr \<Rightarrow> size_t \<Rightarrow> size_t \<Rightarrow> size_t option" where
  "string_size m p sz max_sz =
     (if sz < max_sz then
        (case m p of None \<Rightarrow> None
         | Some c \<Rightarrow> if c \<noteq> 0 then string_size m (p + 1) (sz + 1) max_sz else Some sz)
      else Some sz)"
  by pat_completeness auto
termination
proof (relation "measure (\<lambda>(m, p, sz, max_sz). unat max_sz - unat sz)")
  fix sz max_sz :: size_t
  assume "sz < max_sz"
  then have "unat sz < unat max_sz" by (simp add: word_less_nat_alt)
  moreover have "unat (sz + 1) = unat sz + 1"
    using \<open>unat sz < unat max_sz\<close> unat_64_less [of max_sz] by (simp add: unat_word_ariths)
  ultimately show "((m :: mem, p + 1, sz + 1, max_sz), m, p :: addr, sz, max_sz)
      \<in> measure (\<lambda>(m, p, sz, max_sz). unat max_sz - unat sz)" for m p
    by simp
qed simp

declare string_size.simps [simp del]

definition pb_enc_string :: "mem \<Rightarrow> 'u encoder" where
  "pb_enc_string m st f src =
     (let max_sz = (if PB_ATYPE (ftype f) = PB_ATYPE_POINTER then - 1 else ucast (data_size f)) in
      if src = 0 then pb_encode_string st NULL_buf 0
      else deref (string_size m src 0 max_sz) (\<lambda>sz. pb_encode_string st (mem_buf m src) sz))"

definition pb_encode_submessage :: "'u msg_encoder \<Rightarrow> 'u msg_encoder" where
  "pb_encode_submessage rec st fs src =
     (case rec PB_OSTREAM_SIZING fs src of
        Undef \<Rightarrow> Undef
      | NoFuel \<Rightarrow> NoFuel
      | Err substream \<Rightarrow> Err (st\<lparr>oerrmsg := oerrmsg substream\<rparr>)
      | Ret _ substream \<Rightarrow>
          let sz = bytes_written substream in
          andThen (pb_encode_varint st sz) (\<lambda>_ st.
            if is_sizing (sink st) then pb_write st NULL_buf sz
            else if bytes_written st + sz > max_size st then oerror st ''stream full''
            else
              let substream = \<lparr>sink = sink st, max_size = sz, bytes_written = 0, oerrmsg = None\<rparr>;
                  finish = (\<lambda>status substream.
                    let st = st\<lparr>bytes_written := bytes_written st + bytes_written substream,
                                sink := sink substream, oerrmsg := oerrmsg substream\<rparr>
                    in if bytes_written substream \<noteq> sz then oerror st ''submsg size changed''
                       else if status then Ret () st else Err st)
              in (case rec substream fs src of
                    Ret _ substream \<Rightarrow> finish True substream
                  | Err substream \<Rightarrow> finish False substream
                  | Undef \<Rightarrow> Undef
                  | NoFuel \<Rightarrow> NoFuel)))"

definition pb_enc_submessage :: "'u enc_env \<Rightarrow> 'u msg_encoder \<Rightarrow> 'u encoder" where
  "pb_enc_submessage E rec st f src =
     (if ptr f = 0 then oerror st ''invalid field descriptor''
      else pb_encode_submessage rec st (desc E (ptr f)) src)"

definition pb_enc_fixed_length_bytes :: "mem \<Rightarrow> 'u encoder" where
  "pb_enc_fixed_length_bytes m st f src = pb_encode_string st (mem_buf m src) (ucast (data_size f))"

text \<open>
  The table \<^verbatim>\<open>PB_ENCODERS\<close>. Calling the NULL entry of extensions, or an entry behind the
  end, is undefined.
\<close>

definition PB_ENCODERS :: "'u enc_env \<Rightarrow> 'u msg_encoder \<Rightarrow> mem \<Rightarrow> pb_type_t \<Rightarrow> 'u encoder" where
  "PB_ENCODERS E rec m lt =
     (if lt = PB_LTYPE_VARINT then pb_enc_varint m
      else if lt = PB_LTYPE_UVARINT then pb_enc_uvarint m
      else if lt = PB_LTYPE_SVARINT then pb_enc_svarint m
      else if lt = PB_LTYPE_FIXED32 then pb_enc_fixed32 m
      else if lt = PB_LTYPE_FIXED64 then pb_enc_fixed64 m
      else if lt = PB_LTYPE_BYTES then pb_enc_bytes m
      else if lt = PB_LTYPE_STRING then pb_enc_string m
      else if lt = PB_LTYPE_SUBMESSAGE then pb_enc_submessage E rec
      else if lt = PB_LTYPE_FIXED_LENGTH_BYTES then pb_enc_fixed_length_bytes m
      else (\<lambda>st f src. Undef))"

subsection \<open>Encode a single field\<close>

definition item_addr :: "pb_field_t \<Rightarrow> addr \<Rightarrow> nat \<Rightarrow> addr" where
  "item_addr f pd i = pd + int i * uint (data_size f)"

definition array_items :: "'u encoder \<Rightarrow> pb_field_t \<Rightarrow> addr \<Rightarrow> nat \<Rightarrow> 'u pb_ostream_t \<Rightarrow> (unit, 'u pb_ostream_t) outcome" where
  "array_items func f pd n st = seq_out (\<lambda>i st. func st f (item_addr f pd i)) [0..<n] st"

definition packed_size ::
    "'u encoder \<Rightarrow> pb_field_t \<Rightarrow> addr \<Rightarrow> size_t \<Rightarrow> 'u pb_ostream_t \<Rightarrow> (size_t, 'u pb_ostream_t) outcome" where
  "packed_size func f pd count st =
     (if PB_LTYPE (ftype f) = PB_LTYPE_FIXED32 then Ret (4 * count) st
      else if PB_LTYPE (ftype f) = PB_LTYPE_FIXED64 then Ret (8 * count) st
      else (case array_items func f pd (unat count) PB_OSTREAM_SIZING of
              Ret _ sizestream \<Rightarrow> Ret (bytes_written sizestream) st
            | Err _ \<Rightarrow> Err st
            | Undef \<Rightarrow> Undef
            | NoFuel \<Rightarrow> NoFuel))"

definition encode_array ::
    "mem \<Rightarrow> 'u pb_ostream_t \<Rightarrow> pb_field_t \<Rightarrow> addr \<Rightarrow> size_t \<Rightarrow> 'u encoder \<Rightarrow> (unit, 'u pb_ostream_t) outcome" where
  "encode_array m st f pd count func =
     (if count = 0 then Ret () st
      else if PB_ATYPE (ftype f) \<noteq> PB_ATYPE_POINTER \<and> count > ucast (array_size f)
      then oerror st ''array max size exceeded''
      else if PB_LTYPE (ftype f) \<le> PB_LTYPE_LAST_PACKABLE then
        andThen (pb_encode_tag st PB_WT_STRING (tag f)) (\<lambda>_ st.
          andThen (packed_size func f pd count st) (\<lambda>sz st.
            andThen (pb_encode_varint st sz) (\<lambda>_ st.
              if is_sizing (sink st) then pb_write st NULL_buf sz
              else array_items func f pd (unat count) st)))
      else
        seq_out (\<lambda>i st.
          andThen (pb_encode_tag_for_field st f) (\<lambda>_ st.
            if PB_ATYPE (ftype f) = PB_ATYPE_POINTER \<and>
               (PB_LTYPE (ftype f) = PB_LTYPE_STRING \<or> PB_LTYPE (ftype f) = PB_LTYPE_BYTES)
            then deref (load_ptr m (item_addr f pd i)) (\<lambda>p. func st f p)
            else func st f (item_addr f pd i))) [0..<unat count] st)"

primrec zero_bytes :: "mem \<Rightarrow> addr \<Rightarrow> nat \<Rightarrow> bool option" where
  "zero_bytes m a 0 = Some True"
| "zero_bytes m a (Suc n) =
     (case m a of None \<Rightarrow> None | Some b \<Rightarrow> if b \<noteq> 0 then Some False else zero_bytes m (a + 1) n)"

text \<open>
  The proto3 zero test. The loop over the fields of a submessage leaves at the first field that is
  not zero, which the body signals as the failing exit.
\<close>

primrec pb_check_proto3_default_value ::
    "nat \<Rightarrow> (addr \<Rightarrow> pb_field_t list) \<Rightarrow> mem \<Rightarrow> pb_field_t \<Rightarrow> addr \<Rightarrow> (bool, unit) outcome" where
  "pb_check_proto3_default_value 0 = (\<lambda>D m f pd. NoFuel)"
| "pb_check_proto3_default_value (Suc n) = (\<lambda>D m f pd.
     if PB_ATYPE (ftype f) = PB_ATYPE_STATIC \<and> PB_LTYPE (ftype f) = PB_LTYPE_BYTES then
       deref (load_u32 m (bytes_size pd)) (\<lambda>sz. Ret (sz = 0) ())
     else if PB_ATYPE (ftype f) = PB_ATYPE_STATIC \<and> PB_LTYPE (ftype f) = PB_LTYPE_STRING then
       deref (load_u8 m pd) (\<lambda>c. Ret (c = 0) ())
     else if PB_ATYPE (ftype f) = PB_ATYPE_STATIC \<and> PB_LTYPE (ftype f) = PB_LTYPE_FIXED_LENGTH_BYTES then
       Ret (data_size f = 0) ()
     else if PB_ATYPE (ftype f) = PB_ATYPE_STATIC \<and> PB_LTYPE (ftype f) = PB_LTYPE_SUBMESSAGE then
       (if ptr f = 0 then Undef
        else case pb_field_iter_begin (D (ptr f)) pd of (ok, it) \<Rightarrow>
          if \<not> ok then Ret True ()
          else case iter_for (length (D (ptr f))) (\<lambda>it s.
                 andThen (pb_check_proto3_default_value n D m (cur it) (pData it)) (\<lambda>b s.
                   if \<not> b then Err s else Ret () s)) it () of
             Ret _ s \<Rightarrow> Ret True s
           | Err s \<Rightarrow> Ret False s
           | Undef \<Rightarrow> Undef
           | NoFuel \<Rightarrow> NoFuel)
     else deref (zero_bytes m pd (unat (data_size f))) (\<lambda>z. Ret z ()))"

text \<open>
  \<^verbatim>\<open>implicit_has\<close> before the pointer test: computed only where no explicit size or flag exists.
\<close>

definition implicit_has :: "nat \<Rightarrow> 'u enc_env \<Rightarrow> mem \<Rightarrow> pb_field_t \<Rightarrow> addr \<Rightarrow> (bool, unit) outcome" where
  "implicit_has n E m f pd =
     (if size_offset f \<noteq> 0 then Ret True ()
      else if PB_HTYPE (ftype f) = PB_HTYPE_OPTIONAL then
        andThen (pb_check_proto3_default_value n (desc E) m f pd) (\<lambda>z s. Ret (\<not> z) s)
      else Ret True ())"

definition encode_tagged :: "'u encoder \<Rightarrow> 'u encoder" where
  "encode_tagged func st f pd = andThen (pb_encode_tag_for_field st f) (\<lambda>_ st. func st f pd)"

definition encode_basic_field ::
    "nat \<Rightarrow> 'u enc_env \<Rightarrow> 'u msg_encoder \<Rightarrow> mem \<Rightarrow> 'u encoder" where
  "encode_basic_field n E rec m st f pd0 =
     (let func = PB_ENCODERS E rec m (PB_LTYPE (ftype f));
          ps = pd0 + sint (size_offset f);
          size_value = (if size_offset f \<noteq> 0 then load_u32 m ps else None) in
      case implicit_has n E m f pd0 of
        Undef \<Rightarrow> Undef
      | NoFuel \<Rightarrow> NoFuel
      | Err _ \<Rightarrow> Err st
      | Ret has0 _ \<Rightarrow>
          deref (if PB_ATYPE (ftype f) = PB_ATYPE_POINTER then load_ptr m pd0 else Some pd0) (\<lambda>pd.
            let has = (if PB_ATYPE (ftype f) = PB_ATYPE_POINTER then pd \<noteq> 0 else has0) in
            if PB_HTYPE (ftype f) = PB_HTYPE_REQUIRED then
              (if pd = 0 then oerror st ''missing required field'' else encode_tagged func st f pd)
            else if PB_HTYPE (ftype f) = PB_HTYPE_OPTIONAL then
              deref (if size_offset f \<noteq> 0 then map_option (\<lambda>b. b \<noteq> 0) (load_u8 m ps) else Some has)
                (\<lambda>has. if has then encode_tagged func st f pd else Ret () st)
            else if PB_HTYPE (ftype f) = PB_HTYPE_REPEATED then
              deref size_value (\<lambda>count. encode_array m st f pd (ucast count) func)
            else if PB_HTYPE (ftype f) = PB_HTYPE_ONEOF then
              deref size_value (\<lambda>which. if which = tag f then encode_tagged func st f pd else Ret () st)
            else oerror st ''invalid field type''))"

definition encode_callback_field :: "'u enc_env \<Rightarrow> mem \<Rightarrow> 'u encoder" where
  "encode_callback_field E m st f pd =
     deref (load_ptr m (callback_funcs pd)) (\<lambda>fp.
       if fp \<noteq> 0 then
         (case enc_callback E fp st f (callback_arg pd) m of
            Ret _ st \<Rightarrow> Ret () st
          | Err st \<Rightarrow> oerror st ''callback error''
          | Undef \<Rightarrow> Undef
          | NoFuel \<Rightarrow> NoFuel)
       else Ret () st)"

definition encode_field :: "nat \<Rightarrow> 'u enc_env \<Rightarrow> 'u msg_encoder \<Rightarrow> mem \<Rightarrow> 'u encoder" where
  "encode_field n E rec m st f pd =
     (if PB_ATYPE (ftype f) = PB_ATYPE_STATIC \<or> PB_ATYPE (ftype f) = PB_ATYPE_POINTER
      then encode_basic_field n E rec m st f pd
      else if PB_ATYPE (ftype f) = PB_ATYPE_CALLBACK then encode_callback_field E m st f pd
      else oerror st ''invalid field type'')"

definition default_extension_encoder ::
    "nat \<Rightarrow> 'u enc_env \<Rightarrow> 'u msg_encoder \<Rightarrow> mem \<Rightarrow> 'u pb_ostream_t \<Rightarrow> addr \<Rightarrow> (unit, 'u pb_ostream_t) outcome" where
  "default_extension_encoder n E rec m st extension =
     deref (load_ptr m (ext_type extension)) (\<lambda>ty.
       deref (load_ptr m (exttype_arg ty)) (\<lambda>arg.
         let f = field_at (desc E arg) 0 in
         if PB_ATYPE (ftype f) = PB_ATYPE_POINTER
         then encode_field n E rec m st f (ext_dest extension)
         else deref (load_ptr m (ext_dest extension)) (\<lambda>dest. encode_field n E rec m st f dest)))"

fun encode_extensions ::
    "nat \<Rightarrow> nat \<Rightarrow> 'u enc_env \<Rightarrow> 'u msg_encoder \<Rightarrow> mem \<Rightarrow> 'u pb_ostream_t \<Rightarrow> addr \<Rightarrow> (unit, 'u pb_ostream_t) outcome" where
  "encode_extensions k n E rec m st extension =
     (if extension = 0 then Ret () st
      else case k of 0 \<Rightarrow> NoFuel
      | Suc k \<Rightarrow>
          deref (load_ptr m (ext_type extension)) (\<lambda>ty.
            deref (load_ptr m (exttype_encode ty)) (\<lambda>enc.
              andThen (if enc \<noteq> 0 then ext_encode E enc st extension m
                       else default_extension_encoder n E rec m st extension) (\<lambda>_ st.
                deref (load_ptr m (ext_next extension)) (\<lambda>next.
                  encode_extensions k n E rec m st next)))))"

definition encode_extension_field :: "nat \<Rightarrow> 'u enc_env \<Rightarrow> 'u msg_encoder \<Rightarrow> mem \<Rightarrow> 'u encoder" where
  "encode_extension_field n E rec m st f pd =
     deref (load_ptr m pd) (\<lambda>extension. encode_extensions n n E rec m st extension)"

subsection \<open>Encode all fields\<close>

primrec pb_encode :: "nat \<Rightarrow> 'u enc_env \<Rightarrow> mem \<Rightarrow> 'u msg_encoder" where
  "pb_encode 0 = (\<lambda>E m st fs src. NoFuel)"
| "pb_encode (Suc n) = (\<lambda>E m st fs src.
     case pb_field_iter_begin fs src of (ok, it) \<Rightarrow>
       if \<not> ok then Ret () st
       else iter_for (length fs) (\<lambda>it st.
         if PB_LTYPE (ftype (cur it)) = PB_LTYPE_EXTENSION
         then encode_extension_field n E (pb_encode n E m) m st (cur it) (pData it)
         else encode_field n E (pb_encode n E m) m st (cur it) (pData it)) it st)"

definition pb_encode_delimited :: "nat \<Rightarrow> 'u enc_env \<Rightarrow> mem \<Rightarrow> 'u msg_encoder" where
  "pb_encode_delimited n E m st fs src = pb_encode_submessage (pb_encode n E m) st fs src"

text \<open>\<^verbatim>\<open>pb_get_encoded_size\<close>: \<open>Ret size\<close> where it returns true.\<close>

definition pb_get_encoded_size ::
    "nat \<Rightarrow> 'u enc_env \<Rightarrow> mem \<Rightarrow> pb_field_t list \<Rightarrow> addr \<Rightarrow> (size_t, unit) outcome" where
  "pb_get_encoded_size n E m fs src =
     (case pb_encode n E m PB_OSTREAM_SIZING fs src of
        Ret _ st \<Rightarrow> Ret (bytes_written st) ()
      | Err _ \<Rightarrow> Err ()
      | Undef \<Rightarrow> Undef
      | NoFuel \<Rightarrow> NoFuel)"

end
