(* ===== verification/PB_Layout.thy ===== *)
theory PB_Layout
  imports PB_Iter
begin

text \<open>
  When a descriptor array describes a message structure. The library trusts the generated
  descriptors: \<open>msg_ok\<close> says what it trusts, that every field's data and its size or presence
  flag lie inside the structure, that items are large enough for their type, and that submessages
  are described in the same way, down to a nesting depth. The two parameters add what only one
  side needs: a condition on fields and one on whole messages.

  \<open>iter_nth\<close> positions then give addresses inside the structure: \<open>field_ok_data\<close>,
  \<open>field_ok_item\<close>, \<open>field_ok_size\<close>, \<open>field_ok_flag\<close>.
\<close>

definition has_ltype :: "pb_field_t \<Rightarrow> bool" where
  "has_ltype f \<longleftrightarrow> PB_LTYPE (ftype f) < PB_LTYPES_COUNT \<and> PB_LTYPE (ftype f) \<noteq> PB_LTYPE_EXTENSION"

definition item_ok :: "pb_field_t \<Rightarrow> bool" where
  "item_ok f \<longleftrightarrow> has_ltype f \<and>
     (PB_LTYPE (ftype f) = PB_LTYPE_FIXED32 \<longrightarrow> 4 \<le> unat (data_size f)) \<and>
     (PB_LTYPE (ftype f) = PB_LTYPE_FIXED64 \<longrightarrow> 8 \<le> unat (data_size f)) \<and>
     (PB_LTYPE (ftype f) = PB_LTYPE_BYTES \<longrightarrow> 4 \<le> unat (data_size f)) \<and>
     (PB_LTYPE (ftype f) = PB_LTYPE_STRING \<longrightarrow> 1 \<le> unat (data_size f))"

definition flag_ok :: "pb_field_t list \<Rightarrow> nat \<Rightarrow> nat \<Rightarrow> bool" where
  "flag_ok fs sz k \<longleftrightarrow>
     (PB_HTYPE (ftype (fs ! k)) = PB_HTYPE_OPTIONAL \<and> size_off fs k \<noteq> int (field_off fs k)
        \<longrightarrow> 0 \<le> size_off fs k \<and> size_off fs k + 1 \<le> int sz) \<and>
     (PB_HTYPE (ftype (fs ! k)) = PB_HTYPE_REPEATED \<or> PB_HTYPE (ftype (fs ! k)) = PB_HTYPE_ONEOF
        \<longrightarrow> 0 \<le> size_off fs k \<and> size_off fs k + 4 \<le> int sz)"

primrec msg_ok ::
    "nat \<Rightarrow> (pb_field_t \<Rightarrow> bool) \<Rightarrow> (pb_field_t list \<Rightarrow> bool) \<Rightarrow> (addr \<Rightarrow> pb_field_t list) \<Rightarrow>
     pb_field_t list \<Rightarrow> nat \<Rightarrow> bool" where
  "msg_ok 0 = (\<lambda>P R D fs sz. False)"
| "msg_ok (Suc n) = (\<lambda>P R D fs sz.
     fields_ok fs \<and> sz < 2 ^ 32 \<and> R fs \<and>
     (\<forall>k<length fs. let f = fs ! k in
        item_ok f \<and> P f \<and> field_off fs k + field_extent f \<le> sz \<and> flag_ok fs sz k \<and>
        (PB_LTYPE (ftype f) = PB_LTYPE_SUBMESSAGE \<longrightarrow>
           ptr f \<noteq> 0 \<and> msg_ok n P R D (D (ptr f)) (unat (data_size f)))))"

text \<open>A set of valid addresses contains the \<open>n\<close> bytes at \<open>a\<close>.\<close>

definition inV :: "int set \<Rightarrow> addr \<Rightarrow> nat \<Rightarrow> bool" where
  "inV V a n \<longleftrightarrow> {a..<a + int n} \<subseteq> V"

text \<open>A block lies inside another.\<close>

definition within :: "addr \<Rightarrow> nat \<Rightarrow> addr \<Rightarrow> nat \<Rightarrow> bool" where
  "within b k a n \<longleftrightarrow> a \<le> b \<and> b + int k \<le> a + int n"

subsection \<open>Lemmas\<close>

lemma inV_valid: "inV (dom m) a n \<longleftrightarrow> valid_range m a n"
proof
  assume v: "inV (dom m) a n"
  have "a + int i \<in> dom m" if "i < n" for i
  proof -
    have "a + int i \<in> {a..<a + int n}" using that by simp
    with v show ?thesis unfolding inV_def by blast
  qed
  then show "valid_range m a n" by (auto simp: valid_range_def)
next
  assume v: "valid_range m a n"
  have "x \<in> dom m" if "x \<in> {a..<a + int n}" for x
    using valid_range_at [OF v, of x] that by auto
  then show "inV (dom m) a n" unfolding inV_def by blast
qed

lemma inV_within: "inV V a n \<Longrightarrow> within b k a n \<Longrightarrow> inV V b k"
  by (auto simp: inV_def within_def)

lemma within_refl [simp]: "within a n a n"
  by (simp add: within_def)

lemma within_prefix: "k \<le> n \<Longrightarrow> within a k a n"
  by (simp add: within_def)

lemma within_off: "j + k \<le> n \<Longrightarrow> within (a + int j) k a n"
  by (simp add: within_def)

lemma within_uint: "unat j + k \<le> n \<Longrightarrow> within (a + uint j) k a n"
  unfolding uint_nat by (rule within_off)

lemma within_trans: "within c j b k \<Longrightarrow> within b k a n \<Longrightarrow> within c j a n"
  by (simp add: within_def)

lemma within_frame: "mem_frame b k m m' \<Longrightarrow> within b k a n \<Longrightarrow> mem_frame a n m m'"
  by (simp add: within_def mem_frame_sub)

lemma msg_okD:
  assumes "msg_ok (Suc n) P R D fs sz"
  shows "fields_ok fs" "sz < 2 ^ 32" "R fs"
    "\<And>k. k < length fs \<Longrightarrow> item_ok (fs ! k)"
    "\<And>k. k < length fs \<Longrightarrow> P (fs ! k)"
    "\<And>k. k < length fs \<Longrightarrow> flag_ok fs sz k"
    "\<And>k. k < length fs \<Longrightarrow> field_off fs k + field_extent (fs ! k) \<le> sz"
    "\<And>k. k < length fs \<Longrightarrow> PB_LTYPE (ftype (fs ! k)) = PB_LTYPE_SUBMESSAGE \<Longrightarrow>
       ptr (fs ! k) \<noteq> 0 \<and> msg_ok n P R D (D (ptr (fs ! k))) (unat (data_size (fs ! k)))"
  using assms by (auto simp: Let_def)

lemma field_ok_data:
  assumes "msg_ok (Suc n) P R D fs sz" and "k < length fs"
  shows "within (pData (iter_nth fs d k)) (field_extent (fs ! k)) d sz"
  using msg_okD(7) [OF assms] by (simp add: within_def)

lemma extent_single:
  assumes "PB_ATYPE (ftype f) = PB_ATYPE_STATIC" and "PB_HTYPE (ftype f) \<noteq> PB_HTYPE_REPEATED"
  shows "field_extent f = unat (data_size f)"
  using assms by (simp add: field_extent_def)

lemma field_ok_single:
  assumes "msg_ok (Suc n) P R D fs sz" and "k < length fs"
    and "PB_ATYPE (ftype (fs ! k)) = PB_ATYPE_STATIC" and "PB_HTYPE (ftype (fs ! k)) \<noteq> PB_HTYPE_REPEATED"
  shows "within (pData (iter_nth fs d k)) (unat (data_size (fs ! k))) d sz"
  using field_ok_data [OF assms(1,2)] assms(3,4) by (simp add: extent_single)

lemma item_index:
  assumes "i < unat b"
  shows "unat a * i + unat a \<le> unat (a :: 32 word) * unat (b :: 32 word)"
proof -
  have "unat a * Suc i \<le> unat a * unat b" using assms by (intro mult_le_mono2) simp
  then show ?thesis by simp
qed

text \<open>An item of a static array, at the offset that the code computes in 32 bits.\<close>

lemma field_ok_item:
  assumes "msg_ok (Suc n) P R D fs sz" and "k < length fs"
    and "PB_ATYPE (ftype (fs ! k)) = PB_ATYPE_STATIC" and "PB_HTYPE (ftype (fs ! k)) = PB_HTYPE_REPEATED"
    and "i < array_size (fs ! k)"
  shows "within (pData (iter_nth fs d k) + uint (data_size (fs ! k) * i)) (unat (data_size (fs ! k))) d sz"
proof -
  let ?f = "fs ! k"
  have i: "unat i < unat (array_size ?f)" using assms(5) by (simp add: word_less_nat_alt)
  have ext: "field_extent ?f = unat (data_size ?f) * unat (array_size ?f)"
    using assms(3,4) by (simp add: field_extent_def)
  note le = item_index [OF i, of "data_size ?f"]
  have fit: "field_off fs k + field_extent ?f \<le> sz" and lt: "sz < 2 ^ 32"
    using msg_okD(7) [OF assms(1,2)] msg_okD(2) [OF assms(1)] by auto
  have "unat (data_size ?f) * unat i < 2 ^ 32"
    using le fit lt unfolding ext by linarith
  then have "unat (data_size ?f * i) = unat (data_size ?f) * unat i"
    by (simp add: unat_word_ariths)
  then have off: "uint (data_size ?f * i) = int (unat (data_size ?f) * unat i)"
    by (metis uint_nat)
  have "int (field_off fs k) + (int (unat (data_size ?f) * unat i) + int (unat (data_size ?f))) \<le> int sz"
    using le fit unfolding ext by linarith
  then show ?thesis unfolding off within_def by (simp del: of_nat_mult)
qed

lemma field_ok_size:
  assumes "msg_ok (Suc n) P R D fs sz" and "k < length fs"
    and "PB_HTYPE (ftype (fs ! k)) = PB_HTYPE_REPEATED \<or> PB_HTYPE (ftype (fs ! k)) = PB_HTYPE_ONEOF"
  shows "within (pSize (iter_nth fs d k)) 4 d sz"
  using msg_okD(6) [OF assms(1,2)] assms(3) by (auto simp: flag_ok_def within_def)

lemma field_ok_flag:
  assumes "msg_ok (Suc n) P R D fs sz" and "k < length fs"
    and "PB_HTYPE (ftype (fs ! k)) = PB_HTYPE_OPTIONAL" and "pSize (iter_nth fs d k) \<noteq> pData (iter_nth fs d k)"
  shows "within (pSize (iter_nth fs d k)) 1 d sz"
  using msg_okD(6) [OF assms(1,2)] assms(3,4) by (auto simp: flag_ok_def within_def)

lemma ltype_cases:
  assumes "has_ltype f"
  obtains "PB_LTYPE (ftype f) = PB_LTYPE_VARINT" | "PB_LTYPE (ftype f) = PB_LTYPE_UVARINT"
    | "PB_LTYPE (ftype f) = PB_LTYPE_SVARINT" | "PB_LTYPE (ftype f) = PB_LTYPE_FIXED32"
    | "PB_LTYPE (ftype f) = PB_LTYPE_FIXED64" | "PB_LTYPE (ftype f) = PB_LTYPE_BYTES"
    | "PB_LTYPE (ftype f) = PB_LTYPE_STRING" | "PB_LTYPE (ftype f) = PB_LTYPE_SUBMESSAGE"
    | "PB_LTYPE (ftype f) = PB_LTYPE_FIXED_LENGTH_BYTES"
proof -
  let ?t = "PB_LTYPE (ftype f)"
  have lt: "unat ?t < 10" "unat ?t \<noteq> 8"
    using assms by (simp_all add: has_ltype_def word_less_nat_alt word_unat_eq_iff)
  have w: "?t = word_of_nat (unat ?t)" by simp
  have "unat ?t \<in> {0, 1, 2, 3, 4, 5, 6, 7, 9}" using lt by auto
  with that w show ?thesis by (auto simp: word_unat_eq_iff)
qed

subsection \<open>Descriptors from the macros\<close>

text \<open>
  The descriptors that the macros give for the members \<open>ms\<close> of a structure: the offset of the first
  field is absolute, every other one counts from the end of the member before it.
\<close>

definition laid_out :: "cmember list \<Rightarrow> pb_field_t list \<Rightarrow> bool" where
  "laid_out ms fs \<longleftrightarrow> length ms = length fs \<and>
     (\<forall>k<length fs. moff (ms ! k) + msize (ms ! k) < 2 ^ 32 - 1 \<and> field_extent (fs ! k) = msize (ms ! k) \<and>
        data_offset (fs ! k) =
          (case k of 0 \<Rightarrow> PB_DATAOFFSET_FIRST (ms ! k) | Suc j \<Rightarrow> PB_DATAOFFSET_OTHER (ms ! k) (ms ! j)) \<and>
        (case k of 0 \<Rightarrow> True | Suc j \<Rightarrow> moff (ms ! j) + msize (ms ! j) \<le> moff (ms ! k)))"

lemma dataoffset_other:
  assumes "moff m2 + msize m2 \<le> moff m1" and "moff m1 < 2 ^ 32"
  shows "unat (PB_DATAOFFSET_OTHER m1 m2) = moff m1 - moff m2 - msize m2"
proof -
  let ?d = "moff m1 - moff m2 - msize m2"
  have "word_of_nat (moff m1) - word_of_nat (moff m2) - word_of_nat (msize m2) = (word_of_nat ?d :: size_t)"
    using assms(1) by (simp add: of_nat_diff)
  then have "PB_DATAOFFSET_OTHER m1 m2 = ucast (word_of_nat ?d :: size_t)"
    by (simp add: PB_DATAOFFSET_OTHER_def)
  also have "\<dots> = word_of_nat (unat (word_of_nat ?d :: size_t))"
    by (rule of_nat_unat [symmetric])
  also have "unat (word_of_nat ?d :: size_t) = ?d" using assms(2) by (simp add: unat_of_nat del: of_nat_diff)
  finally show ?thesis using assms(2) by (simp add: unat_of_nat del: of_nat_diff)
qed

lemma field_off_laid_out:
  assumes "laid_out ms fs" and "k < length fs"
  shows "field_off fs k = moff (ms ! k)"
  using assms(2)
proof (induction k)
  case 0
  with assms(1) show ?case
    by (auto simp: laid_out_def PB_DATAOFFSET_FIRST_def unat_of_nat)
next
  case (Suc k)
  let ?m = "ms ! Suc k" and ?p = "ms ! k"
  have a: "moff ?m < 2 ^ 32 - 1" "field_extent (fs ! k) = msize ?p" "moff ?p + msize ?p \<le> moff ?m"
    "data_offset (fs ! Suc k) = PB_DATAOFFSET_OTHER ?m ?p"
    using assms(1) Suc.prems by (auto simp: laid_out_def)
  have d: "unat (data_offset (fs ! Suc k)) = moff ?m - moff ?p - msize ?p"
    using dataoffset_other [OF a(3)] a(1,4) by simp
  then have "data_offset (fs ! Suc k) \<noteq> PB_SIZE_MAX" using a(1) by auto
  then have "\<not> same_union (fs ! k) (fs ! Suc k)" by (simp add: same_union_def)
  with Suc a d show ?case by simp
qed

lemma iter_walk:
  assumes "fields_ok fs" and "k < length fs"
  shows "((\<lambda>it. snd (pb_field_iter_next it)) ^^ k) (snd (pb_field_iter_begin fs d)) = iter_nth fs d k"
  using assms(2)
proof (induction k)
  case 0
  then show ?case by (simp add: begin_iter_nth)
next
  case (Suc k)
  then show ?case using next_iter_nth [OF assms(1) Suc.prems] by simp
qed

lemma size_off_laid_out:
  assumes "laid_out ms fs" and "k < length fs"
  shows "size_off fs k = int (moff (ms ! k)) + sint (size_offset (fs ! k))"
proof (cases k)
  case 0
  then show ?thesis using field_off_laid_out [OF assms] assms(2) by simp
next
  case (Suc j)
  have "data_offset (fs ! k) = PB_DATAOFFSET_OTHER (ms ! k) (ms ! j)" "moff (ms ! j) + msize (ms ! j) \<le> moff (ms ! k)"
    "moff (ms ! k) < 2 ^ 32 - 1"
    using assms Suc by (auto simp: laid_out_def)
  with dataoffset_other [of "ms ! j" "ms ! k"] have "data_offset (fs ! k) \<noteq> PB_SIZE_MAX" by auto
  then have "\<not> same_union (fs ! j) (fs ! k)" by (simp add: same_union_def)
  then show ?thesis using field_off_laid_out [OF assms] assms(2) Suc by (simp del: field_off.simps)
qed

end
