(* ===== verification/PB_Encode_Spec.thy ===== *)
theory PB_Encode_Spec
  imports PB_Encode PB_Layout
begin

text \<open>
  What the encoder writes, as functions from the message in memory to bytes, and the refinement
  proof that the code writes exactly that.

  \<open>spec_msg\<close> is the protobuf encoding of the structure that a descriptor array describes, as far as the
  encoder sends it: fields without presence flag are left out by the code's own test for zero (\<open>zero_item\<close>),
  and \<open>PB_Encode_Meaning\<close> says when this agrees with the meaning of the message. Otherwise
  integers are read as numbers (\<open>uint_at\<close>, \<open>sint_at\<close>) and written as \<open>varint\<close>s,
  two's complement and zigzag are arithmetic, lengths are lengths of byte lists. It has no streams,
  no sizing pass and no machine integers. \<open>None\<close> stands for a message that cannot be encoded,
  because an array or byte count in it exceeds its limit or an integer has an unsupported size.

  The refinement is stated with \<open>writes\<close>; the interface between a message and its submessages
  is the locale \<open>msg_encoder\<close>, interpreted by \<^verbatim>\<open>pb_encode\<close> and \<open>spec_msg\<close>.
\<close>

subsection \<open>Values in memory\<close>

definition mem_bytes :: "mem \<Rightarrow> addr \<Rightarrow> nat \<Rightarrow> byte list" where
  "mem_bytes m a n = map (\<lambda>i. case m (a + int i) of Some b \<Rightarrow> b | None \<Rightarrow> 0) [0..<n]"

primrec le_nat :: "byte list \<Rightarrow> nat" where
  "le_nat [] = 0"
| "le_nat (b # bs) = unat b + 256 * le_nat bs"

definition uint_at :: "mem \<Rightarrow> addr \<Rightarrow> nat \<Rightarrow> nat" where
  "uint_at m a n = le_nat (mem_bytes m a n)"

definition sint_at :: "mem \<Rightarrow> addr \<Rightarrow> nat \<Rightarrow> int" where
  "sint_at m a n = (if uint_at m a n < 2 ^ (8 * n - 1) then int (uint_at m a n)
                    else int (uint_at m a n) - 2 ^ (8 * n))"

subsection \<open>Encodings\<close>

definition int_size :: "nat \<Rightarrow> bool" where
  "int_size k \<longleftrightarrow> k = 1 \<or> k = 2 \<or> k = 4 \<or> k = 8"

text \<open>Negative numbers as 64-bit two's complement, and the zigzag numbering of the integers.\<close>

definition two_compl :: "int \<Rightarrow> nat" where
  "two_compl v = nat (v mod 2 ^ 64)"

definition zigzag_nat :: "int \<Rightarrow> nat" where
  "zigzag_nat v = nat (if v < 0 then - 2 * v - 1 else 2 * v)"

definition delimited :: "byte list \<Rightarrow> byte list" where
  "delimited bs = varint (length bs) @ bs"

definition cat_list :: "byte list option list \<Rightarrow> byte list option" where
  "cat_list rs = foldr cat_opt rs (Some [])"

definition item_bytes ::
    "(pb_field_t list \<Rightarrow> addr \<Rightarrow> byte list option) \<Rightarrow> (addr \<Rightarrow> pb_field_t list) \<Rightarrow> mem \<Rightarrow> pb_field_t \<Rightarrow> addr \<Rightarrow> byte list option" where
  "item_bytes sub D m f a =
     (let lt = PB_LTYPE (ftype f); k = unat (data_size f) in
      if lt = PB_LTYPE_VARINT then if int_size k then Some (varint (two_compl (sint_at m a k))) else None
      else if lt = PB_LTYPE_UVARINT then if int_size k then Some (varint (uint_at m a k)) else None
      else if lt = PB_LTYPE_SVARINT then if int_size k then Some (varint (zigzag_nat (sint_at m a k))) else None
      else if lt = PB_LTYPE_FIXED32 then Some (mem_bytes m a 4)
      else if lt = PB_LTYPE_FIXED64 then Some (mem_bytes m a 8)
      else if lt = PB_LTYPE_BYTES then
        if uint_at m a 4 + 4 > k then None else Some (delimited (mem_bytes m (a + 4) (uint_at m a 4)))
      else if lt = PB_LTYPE_STRING then Some (delimited (takeWhile (\<lambda>b. b \<noteq> 0) (mem_bytes m a k)))
      else if lt = PB_LTYPE_SUBMESSAGE then map_option delimited (sub (D (ptr f)) a)
      else Some (delimited (mem_bytes m a k)))"

text \<open>
  The zero test for fields without a presence flag, and for the fields of a submessage that has
  none. It looks at the data of each field only, as the code does.
\<close>

primrec zero_item :: "nat \<Rightarrow> (addr \<Rightarrow> pb_field_t list) \<Rightarrow> mem \<Rightarrow> pb_field_t \<Rightarrow> addr \<Rightarrow> bool" where
  "zero_item 0 = (\<lambda>D m f a. False)"
| "zero_item (Suc n) = (\<lambda>D m f a.
     let lt = PB_LTYPE (ftype f) in
     if lt = PB_LTYPE_BYTES then uint_at m a 4 = 0
     else if lt = PB_LTYPE_STRING then uint_at m a 1 = 0
     else if lt = PB_LTYPE_FIXED_LENGTH_BYTES then data_size f = 0
     else if lt = PB_LTYPE_SUBMESSAGE then
       (\<forall>k<length (D (ptr f)). zero_item n D m (D (ptr f) ! k) (a + int (field_off (D (ptr f)) k)))
     else (\<forall>b\<in>set (mem_bytes m a (unat (data_size f))). b = 0))"

definition field_bytes ::
    "nat \<Rightarrow> (pb_field_t list \<Rightarrow> addr \<Rightarrow> byte list option) \<Rightarrow> (addr \<Rightarrow> pb_field_t list) \<Rightarrow> mem \<Rightarrow> pb_field_t \<Rightarrow> addr \<Rightarrow> byte list option" where
  "field_bytes n sub D m f a =
     (let tagged = (\<lambda>a. cat_opt (tag_spec f) (item_bytes sub D m f a));
          ps = a + sint (size_offset f);
          item = (\<lambda>i. a + int i * int (unat (data_size f))) in
      if PB_HTYPE (ftype f) = PB_HTYPE_REQUIRED then tagged a
      else if PB_HTYPE (ftype f) = PB_HTYPE_OPTIONAL then
        if (if size_offset f \<noteq> 0 then uint_at m ps 1 \<noteq> 0 else \<not> zero_item n D m f a)
        then tagged a else Some []
      else if PB_HTYPE (ftype f) = PB_HTYPE_REPEATED then
        let count = uint_at m ps 4 in
        if count = 0 then Some []
        else if count > unat (array_size f) then None
        else if PB_LTYPE (ftype f) \<le> PB_LTYPE_LAST_PACKABLE
        then cat_opt (Some (varint (unat (tag f) * 8 + 2)))
               (map_option delimited (cat_list (map (\<lambda>i. item_bytes sub D m f (item i)) [0..<count])))
        else cat_list (map (\<lambda>i. tagged (item i)) [0..<count])
      else if uint_at m ps 4 = unat (tag f) then tagged a else Some [])"

primrec spec_msg :: "nat \<Rightarrow> (addr \<Rightarrow> pb_field_t list) \<Rightarrow> mem \<Rightarrow> pb_field_t list \<Rightarrow> addr \<Rightarrow> byte list option" where
  "spec_msg 0 = (\<lambda>D m fs a. None)"
| "spec_msg (Suc n) = (\<lambda>D m fs a.
     cat_list (map (\<lambda>k. field_bytes (Suc n) (spec_msg n D m) D m (fs ! k) (a + int (field_off fs k))) [0..<length fs]))"

subsection \<open>Side conditions\<close>

text \<open>
  What the encoder needs of a field besides its layout: it is static, an array has room for one
  item, and a repeated or oneof field has its counter. Members of a union must agree on where the
  counter is, because the encoder takes it from the member's own offset.
\<close>

definition efield_ok :: "pb_field_t \<Rightarrow> bool" where
  "efield_ok f \<longleftrightarrow> PB_ATYPE (ftype f) = PB_ATYPE_STATIC \<and>
     (PB_HTYPE (ftype f) = PB_HTYPE_REPEATED \<longrightarrow> 1 \<le> unat (array_size f)) \<and>
     (PB_HTYPE (ftype f) = PB_HTYPE_REPEATED \<or> PB_HTYPE (ftype f) = PB_HTYPE_ONEOF \<longrightarrow> size_offset f \<noteq> 0)"

definition union_ok :: "pb_field_t list \<Rightarrow> bool" where
  "union_ok fs \<longleftrightarrow> (\<forall>k. Suc k < length fs \<longrightarrow> same_union (fs ! k) (fs ! Suc k) \<longrightarrow>
     size_offset (fs ! Suc k) = size_offset (fs ! k))"

definition emsg_ok :: "nat \<Rightarrow> (addr \<Rightarrow> pb_field_t list) \<Rightarrow> pb_field_t list \<Rightarrow> nat \<Rightarrow> bool" where
  "emsg_ok n D fs sz \<longleftrightarrow> msg_ok n efield_ok union_ok D fs sz"

text \<open>Every submessage in the structure encodes to fewer than \<open>2^63\<close> bytes.\<close>

primrec small_msg :: "nat \<Rightarrow> (addr \<Rightarrow> pb_field_t list) \<Rightarrow> mem \<Rightarrow> pb_field_t list \<Rightarrow> addr \<Rightarrow> bool" where
  "small_msg 0 = (\<lambda>D m fs a. False)"
| "small_msg (Suc n) = (\<lambda>D m fs a.
     \<forall>k<length fs. PB_LTYPE (ftype (fs ! k)) = PB_LTYPE_SUBMESSAGE \<longrightarrow>
       (\<forall>i<(if PB_HTYPE (ftype (fs ! k)) = PB_HTYPE_REPEATED then unat (array_size (fs ! k)) else 1).
          let b = a + int (field_off fs k) + int i * int (unat (data_size (fs ! k)));
              gs = D (ptr (fs ! k)) in
          small_msg n D m gs b \<and>
          (case spec_msg n D m gs b of Some bs \<Rightarrow> length bs < 2 ^ 63 | None \<Rightarrow> True)))"

subsection \<open>Lemmas: reading memory\<close>

lemma length_mem_bytes [simp]: "length (mem_bytes m a n) = n"
  by (simp add: mem_bytes_def)

lemma load_mem_bytes: "valid_range m a n \<Longrightarrow> load_bytes m a n = Some (mem_bytes m a n)"
proof -
  assume "valid_range m a n"
  then have "load_bytes m a n \<noteq> None" unfolding load_bytes_valid .
  then obtain bs where bs: "load_bytes m a n = Some bs" by blast
  have "bs = mem_bytes m a n"
  proof (rule nth_equalityI)
    show "length bs = length (mem_bytes m a n)" using load_bytes_length [OF bs] by simp
    fix i assume "i < length bs"
    then have "i < n" using load_bytes_length [OF bs] by simp
    with load_bytes_nth [OF bs this] show "bs ! i = mem_bytes m a n ! i" by (simp add: mem_bytes_def)
  qed
  with bs show ?thesis by simp
qed

lemma mem_bytes_Suc:
  "mem_bytes m a (Suc n) = (case m a of Some b \<Rightarrow> b | None \<Rightarrow> 0) # mem_bytes m (a + 1) n"
  by (simp add: mem_bytes_def upt_conv_Cons map_Suc_upt [symmetric] add.assoc del: upt_Suc)

lemma le_nat_bound: "le_nat bs < 256 ^ length bs"
proof (induction bs)
  case (Cons b bs)
  have "unat b < 256" using unsigned_less [of b] by simp
  with Cons show ?case by simp
qed simp

lemma byte_or:
  "(ucast (b :: byte) OR push_bit 8 (word_of_nat x) :: 'a::len word) = word_of_nat (unat b + 256 * x)"
proof -
  have "ucast b AND push_bit 8 (word_of_nat x) = (0 :: 'a word)"
  proof (rule bit_word_eqI)
    fix n assume "n < LENGTH('a)"
    show "bit (ucast b AND push_bit 8 (word_of_nat x) :: 'a word) n = bit (0 :: 'a word) n"
      using bit_imp_le_length [of b n] by (auto simp: bit_and_iff bit_push_bit_iff bit_ucast_iff)
  qed
  then have "ucast b OR push_bit 8 (word_of_nat x) = ucast b + (push_bit 8 (word_of_nat x) :: 'a word)"
    by (simp add: disjunctive_add_eq_or)
  also have "\<dots> = word_of_nat (unat b + 256 * x)"
    by (simp add: push_bit_eq_mult mult.commute)
  finally show ?thesis .
qed

lemma le_word_nat: "(le_word bs :: 'a::len word) = word_of_nat (le_nat bs)"
proof (induction bs)
  case (Cons b bs)
  show ?case unfolding le_word.simps le_nat.simps Cons.IH by (rule byte_or)
qed simp

lemma unat_le_word:
  assumes "8 * length bs \<le> LENGTH('a)"
  shows "unat (le_word bs :: 'a::len word) = le_nat bs"
proof -
  have "(256 :: nat) ^ length bs = 2 ^ (8 * length bs)" by (simp add: power_mult)
  then have "le_nat bs < 2 ^ LENGTH('a)"
    using le_nat_bound [of bs] assms by (metis order_less_le_trans power_increasing one_le_numeral)
  then show ?thesis by (simp add: le_word_nat unat_of_nat)
qed

lemma load_u32_at:
  assumes "valid_range m a 4"
  shows "load_u32 m a = Some (word_of_nat (uint_at m a 4)) \<and> uint_at m a 4 < 2 ^ 32"
  using load_mem_bytes [OF assms] le_nat_bound [of "mem_bytes m a 4"]
  by (simp add: load_u32_def uint_at_def le_word_nat)

text \<open>A loaded integer as a number, unsigned and signed.\<close>

lemma load_uint:
  assumes "valid_range m a n" and "8 * n = LENGTH('a)"
  shows "\<exists>w. map_option le_word (load_bytes m a n) = Some (w :: 'a::len word) \<and> unat w = uint_at m a n"
  using load_mem_bytes [OF assms(1)] unat_le_word [of "mem_bytes m a n", where 'a = 'a] assms(2)
  by (simp add: uint_at_def)

lemma sint_cases:
  "sint w = (if unat w < 2 ^ (LENGTH('a) - 1) then int (unat w) else int (unat w) - 2 ^ LENGTH('a))"
  for w :: "'a::len word"
proof -
  have u: "uint w = sint w mod 2 ^ LENGTH('a)" by (metis uint_sint take_bit_eq_mod)
  have r: "- (2 ^ (LENGTH('a) - 1)) \<le> sint w" "sint w < 2 ^ (LENGTH('a) - 1)"
    using sint_ge [of w] sint_lt [of w] by simp_all
  have p: "(2 :: int) ^ LENGTH('a) = 2 * 2 ^ (LENGTH('a) - 1)" by (cases "LENGTH('a)") simp_all
  have n: "int (unat w) = uint w" by simp
  have lt: "unat w < 2 ^ (LENGTH('a) - 1) \<longleftrightarrow> uint w < 2 ^ (LENGTH('a) - 1)"
    unfolding n [symmetric] by (metis of_nat_less_iff of_nat_numeral of_nat_power)
  show ?thesis
  proof (cases "sint w < 0")
    case True
    have "uint w = (sint w + 2 ^ LENGTH('a)) mod 2 ^ LENGTH('a)" by (simp add: u)
    also have "\<dots> = sint w + 2 ^ LENGTH('a)" using True r p by (intro mod_pos_pos_trivial) linarith+
    finally have "uint w = sint w + 2 ^ LENGTH('a)" .
    then show ?thesis using lt True r p by simp
  next
    case False
    then have "uint w = sint w" unfolding u using r p by (simp add: mod_pos_pos_trivial)
    then show ?thesis using lt False r by simp
  qed
qed

lemma load_sint:
  assumes "valid_range m a n" and "8 * n = LENGTH('a)"
  shows "\<exists>w. map_option le_word (load_bytes m a n) = Some (w :: 'a::len word) \<and> sint w = sint_at m a n"
proof -
  obtain w :: "'a word" where w: "map_option le_word (load_bytes m a n) = Some w" "unat w = uint_at m a n"
    using load_uint [OF assms] by blast
  have "sint w = sint_at m a n"
    unfolding sint_cases [of w] sint_at_def w(2) assms(2) ..
  with w show ?thesis by blast
qed

subsection \<open>Lemmas: integers\<close>

lemma load_u8_bytes: "load_u8 m a = map_option le_word (load_bytes m a 1)"
  by (cases "m a") (simp_all add: load_u8_def)

lemma unat_of_int: "unat (word_of_int v :: 64 word) = two_compl v"
  by (simp add: two_compl_def unsigned_of_int take_bit_eq_mod flip: nat_uint_eq)

lemma unat_scast: "unat (scast w :: 64 word) = two_compl (sint w)"
proof -
  have "(scast w :: 64 word) = word_of_int (sint w)" by (rule of_int_sint [symmetric])
  then show ?thesis by (simp only: unat_of_int)
qed

lemma two_compl_nonneg: "0 \<le> v \<Longrightarrow> v < 2 ^ 64 \<Longrightarrow> two_compl v = nat v"
  by (simp add: two_compl_def)

lemma unat_zigzag: "unat (zigzag v) = zigzag_nat (sint v)"
proof -
  have v: "v = word_of_int (sint v)" by simp
  have r: "- (2 ^ 63) \<le> sint v" "sint v < 2 ^ 63" using sint_ge [of v] sint_lt [of v] by simp_all
  show ?thesis
  proof (cases "sint v < 0")
    case True
    have "NOT (push_bit 1 v) = - (2 * v) - 1"
      by (simp add: push_bit_eq_mult mult.commute not_eq_complement)
    also have "\<dots> = word_of_int (- 2 * sint v - 1)" by simp
    finally have "unat (zigzag v) = two_compl (- 2 * sint v - 1)"
      using True by (simp add: zigzag_def unat_of_int del: of_int_diff of_int_mult)
    also have "\<dots> = nat (- 2 * sint v - 1)" using True r by (intro two_compl_nonneg) simp_all
    finally show ?thesis using True by (simp add: zigzag_nat_def)
  next
    case False
    have "push_bit 1 v = word_of_int (2 * sint v)"
      by (simp add: push_bit_eq_mult mult.commute)
    then have "unat (zigzag v) = two_compl (2 * sint v)"
      using False by (simp add: zigzag_def unat_of_int del: of_int_mult)
    also have "\<dots> = nat (2 * sint v)" using False r by (intro two_compl_nonneg) simp_all
    finally show ?thesis using False by (simp add: zigzag_nat_def)
  qed
qed

lemma sint_scast_up:
  assumes "LENGTH('a) \<le> 64"
  shows "sint (scast (w :: 'a::len word) :: 64 word) = sint w"
proof -
  have "- (2 ^ 63) \<le> sint w" "sint w < 2 ^ 63"
  proof -
    have p: "(2 :: int) ^ (LENGTH('a) - 1) \<le> 2 ^ 63" using assms by (intro power_increasing) simp_all
    show "- (2 ^ 63) \<le> sint w" "sint w < 2 ^ 63"
      using sint_ge [of w] sint_lt [of w] p by linarith+
  qed
  then show ?thesis by (simp add: signed_scast_eq signed_take_bit_int_eq_self)
qed

subsection \<open>Lemmas: item encoders\<close>

lemma sint_of_uint: "unat w = uint_at m a k \<Longrightarrow> 8 * k = LENGTH('b) \<Longrightarrow> sint (w :: 'b::len word) = sint_at m a k"
  unfolding sint_cases [of w] sint_at_def by simp

lemma writes_signed: "writes (\<lambda>st. pb_encode_varint st (scast w)) (Some (varint (two_compl (sint w))))"
  using writes_varint [of "scast w"] by (simp only: unat_scast)

lemma writes_unsigned:
  assumes "LENGTH('b) \<le> 64"
  shows "writes (\<lambda>st. pb_encode_varint st (ucast w)) (Some (varint (unat (w :: 'b::len word))))"
  using writes_varint [of "ucast w"] assms by (simp add: unat_ucast_up)

lemma writes_zigzag:
  assumes "LENGTH('b) \<le> 64"
  shows "writes (\<lambda>st. pb_encode_svarint st (scast w)) (Some (varint (zigzag_nat (sint (w :: 'b::len word)))))"
  using writes_svarint [of "scast w"] by (simp only: unat_zigzag sint_scast_up [OF assms])

text \<open>An integer of one of the four sizes, given an encoder for each width.\<close>

lemma writes_int:
  assumes v: "valid_range m a k" and k: "data_size f = word_of_nat k" "int_size k"
    and "\<And>w :: 8 word. writes (\<lambda>st. g1 st w) (enc (unat w) (sint w))"
    and "\<And>w :: 16 word. writes (\<lambda>st. g2 st w) (enc (unat w) (sint w))"
    and "\<And>w :: 32 word. writes (\<lambda>st. g4 st w) (enc (unat w) (sint w))"
    and "\<And>w :: 64 word. writes (\<lambda>st. g8 st w) (enc (unat w) (sint w))"
  shows "writes (\<lambda>st. if data_size f = 1 then deref (load_u8 m a) (g1 st)
      else if data_size f = 2 then deref (load_u16 m a) (g2 st)
      else if data_size f = 4 then deref (load_u32 m a) (g4 st)
      else if data_size f = 8 then deref (load_u64 m a) (g8 st)
      else oerror st msg) (enc (uint_at m a k) (sint_at m a k))"
proof -
  note s = sint_of_uint
  from k(2) consider "k = 1" | "k = 2" | "k = 4" | "k = 8" by (auto simp: int_size_def)
  then show ?thesis
  proof cases
    case 1
    then obtain w :: "8 word" where w: "load_u8 m a = Some w" "unat w = uint_at m a k"
      using load_uint [of m a k, where 'a = 8] v by (auto simp: load_u8_bytes)
    then show ?thesis using assms(4) [of w] s [of w] k 1 by simp
  next
    case 2
    then obtain w :: "16 word" where w: "load_u16 m a = Some w" "unat w = uint_at m a k"
      using load_uint [of m a k, where 'a = 16] v by (auto simp: load_u16_def)
    then show ?thesis using assms(5) [of w] s [of w] k 2 by simp
  next
    case 3
    then obtain w :: "32 word" where w: "load_u32 m a = Some w" "unat w = uint_at m a k"
      using load_uint [of m a k, where 'a = 32] v by (auto simp: load_u32_def)
    then show ?thesis using assms(6) [of w] s [of w] k 3 by simp
  next
    case 4
    then obtain w :: "64 word" where w: "load_u64 m a = Some w" "unat w = uint_at m a k"
      using load_uint [of m a k, where 'a = 64] v by (auto simp: load_u64_def)
    then show ?thesis using assms(7) [of w] s [of w] k 4 by simp
  qed
qed

lemma no_int_size:
  assumes "\<not> int_size (unat (data_size f))"
  shows "data_size f \<noteq> 1" "data_size f \<noteq> 2" "data_size f \<noteq> 4" "data_size f \<noteq> 8"
  using assms by (auto simp: int_size_def)

lemma writes_enc_varint:
  assumes "valid_range m a (unat (data_size f))"
  shows "writes (\<lambda>st. pb_enc_varint m st f a)
     (if int_size (unat (data_size f)) then Some (varint (two_compl (sint_at m a (unat (data_size f))))) else None)"
proof (cases "int_size (unat (data_size f))")
  case True
  show ?thesis
    unfolding pb_enc_varint_def using True
    by (simp add: writes_int [OF assms, where enc = "\<lambda>u s. Some (varint (two_compl s))"] writes_signed
        writes_signed [where 'b = 64, simplified])
next
  case False
  then show ?thesis by (simp add: pb_enc_varint_def no_int_size writes_error)
qed

lemma writes_enc_uvarint:
  assumes "valid_range m a (unat (data_size f))"
  shows "writes (\<lambda>st. pb_enc_uvarint m st f a)
     (if int_size (unat (data_size f)) then Some (varint (uint_at m a (unat (data_size f)))) else None)"
proof (cases "int_size (unat (data_size f))")
  case True
  then show ?thesis
    unfolding pb_enc_uvarint_def
    by (simp add: writes_int [OF assms, where enc = "\<lambda>u s. Some (varint u)"] writes_varint writes_unsigned)
next
  case False
  then show ?thesis by (simp add: pb_enc_uvarint_def no_int_size writes_error)
qed

lemma writes_enc_svarint:
  assumes "valid_range m a (unat (data_size f))"
  shows "writes (\<lambda>st. pb_enc_svarint m st f a)
     (if int_size (unat (data_size f)) then Some (varint (zigzag_nat (sint_at m a (unat (data_size f))))) else None)"
proof (cases "int_size (unat (data_size f))")
  case True
  show ?thesis
    unfolding pb_enc_svarint_def using True
    by (simp add: writes_int [OF assms, where enc = "\<lambda>u s. Some (varint (zigzag_nat s))"] writes_zigzag
        writes_svarint [unfolded unat_zigzag])
next
  case False
  then show ?thesis by (simp add: pb_enc_svarint_def no_int_size writes_error)
qed

lemma load_at_string: "valid_range m p (unat (max_sz - sz)) \<Longrightarrow> sz \<le> max_sz \<Longrightarrow>
  string_size m p sz max_sz = Some (sz + word_of_nat (length (takeWhile (\<lambda>b. b \<noteq> 0) (mem_bytes m p (unat (max_sz - sz))))))"
proof (induction m p sz max_sz rule: string_size.induct)
  case (1 m p sz max_sz)
  show ?case
  proof (cases "sz < max_sz")
    case True
    let ?n = "unat (max_sz - (sz + 1))"
    have le: "sz + 1 \<le> max_sz" using True by (metis inc_le)
    have n: "unat (max_sz - sz) = Suc ?n"
    proof -
      have "0 < max_sz - sz" using True by (metis diff_add_cancel add_0 word_gt_0 order_less_irrefl)
      then have "unat (max_sz - sz - 1) = unat (max_sz - sz) - 1" "0 < unat (max_sz - sz)"
        by (simp_all add: unat_minus_one unat_gt_0 word_gt_0)
      moreover have d: "max_sz - (sz + 1) = max_sz - sz - 1" by simp
      ultimately show ?thesis unfolding d by simp
    qed
    from "1.prems"(1) obtain c where c: "m p = Some c" and v: "valid_range m (p + 1) ?n"
      unfolding n valid_range_Suc by blast
    show ?thesis
    proof (cases "c = 0")
      case True
      then show ?thesis using \<open>sz < max_sz\<close> c
        by (simp add: string_size.simps [of m p sz max_sz] n mem_bytes_Suc)
    next
      case False
      from "1.IH" [OF True c False v le] show ?thesis
        using True c False by (simp add: string_size.simps [of m p sz max_sz] n mem_bytes_Suc)
    qed
  next
    case False
    then have "sz = max_sz" using "1.prems"(2) by simp
    then show ?thesis by (simp add: string_size.simps [of m p max_sz max_sz] mem_bytes_def)
  qed
qed

lemma writes_delimited:
  assumes "buf (unat sz) = Some bs" and "length bs = unat sz" and "unat sz < 2 ^ 63"
  shows "writes (\<lambda>st. pb_encode_string st buf sz) (Some (delimited bs))"
  using writes_string [of buf, OF assms] by (simp add: delimited_def)

lemma writes_mem:
  assumes "valid_range m a (unat sz)" and "unat sz < 2 ^ 63"
  shows "writes (\<lambda>st. pb_encode_string st (mem_buf m a) sz) (Some (delimited (mem_bytes m a (unat sz))))"
  by (rule writes_delimited) (use assms(2) in \<open>simp_all add: mem_buf_def load_mem_bytes [OF assms(1)]\<close>)

lemma writes_enc_bytes:
  assumes "valid_range m a (unat (data_size f))" and "4 \<le> unat (data_size f)" and "a \<noteq> 0"
    and "PB_ATYPE (ftype f) = PB_ATYPE_STATIC"
  shows "writes (\<lambda>st. pb_enc_bytes m st f a)
     (if uint_at m a 4 + 4 > unat (data_size f) then None else Some (delimited (mem_bytes m (a + 4) (uint_at m a 4))))"
proof -
  let ?k = "uint_at m a 4"
  have "valid_range m a 4" by (rule valid_range_prefix [OF assms(1,2)])
  from load_u32_at [OF this] have l: "load_u32 m a = Some (word_of_nat ?k)" and lt: "?k < 2 ^ 32" by auto
  have u: "unat (word_of_nat ?k :: 32 word) = ?k" using lt by (simp add: unat_of_nat)
  have gt: "PB_BYTES_ARRAY_T_ALLOCSIZE (word_of_nat ?k) > ucast (data_size f) \<longleftrightarrow> ?k + 4 > unat (data_size f)"
    using lt by (simp add: PB_BYTES_ARRAY_T_ALLOCSIZE_def word_less_nat_alt unat_word_ariths u)
  show ?thesis
  proof (cases "?k + 4 > unat (data_size f)")
    case True
    then show ?thesis using assms(3,4) l gt by (simp add: pb_enc_bytes_def bytes_size_def writes_error)
  next
    case False
    have "valid_range m (a + 4) (unat (ucast (word_of_nat ?k :: 32 word) :: size_t))"
      using valid_range_off [OF assms(1), of 4 ?k] False u by simp
    from writes_mem [OF this] lt u
    have "writes (\<lambda>st. pb_encode_string st (mem_buf m (a + 4)) (ucast (word_of_nat ?k :: 32 word)))
        (Some (delimited (mem_bytes m (a + 4) ?k)))" by simp
    with False assms(3,4) l gt show ?thesis by (simp add: pb_enc_bytes_def bytes_size_def bytes_bytes_def)
  qed
qed

lemma takeWhile_mem_bytes:
  assumes "n = length (takeWhile P (mem_bytes m a k))"
  shows "mem_bytes m a n = takeWhile P (mem_bytes m a k)"
proof -
  have "n \<le> k" using assms length_takeWhile_le [of P "mem_bytes m a k"] by simp
  then have "mem_bytes m a n = take n (mem_bytes m a k)"
    by (simp add: mem_bytes_def take_map)
  then show ?thesis using assms by (metis takeWhile_eq_take)
qed

lemma writes_enc_string:
  assumes "valid_range m a (unat (data_size f))" and "a \<noteq> 0" and "PB_ATYPE (ftype f) = PB_ATYPE_STATIC"
  shows "writes (\<lambda>st. pb_enc_string m st f a)
     (Some (delimited (takeWhile (\<lambda>b. b \<noteq> 0) (mem_bytes m a (unat (data_size f))))))"
proof -
  let ?bs = "takeWhile (\<lambda>b. b \<noteq> 0) (mem_bytes m a (unat (data_size f)))"
  let ?sz = "word_of_nat (length ?bs) :: size_t"
  have le: "length ?bs \<le> unat (data_size f)"
    using length_takeWhile_le [of _ "mem_bytes m a (unat (data_size f))"] by simp
  have lt: "length ?bs < 2 ^ 32" using le unat_32_less [of "data_size f"] by linarith
  have u: "unat ?sz = length ?bs" using lt by (simp add: unat_of_nat)
  have "string_size m a 0 (ucast (data_size f)) = Some ?sz"
    using load_at_string [of m a "ucast (data_size f)" 0] assms(1) by simp
  moreover have "valid_range m a (unat ?sz)"
    unfolding u by (rule valid_range_prefix [OF assms(1) le])
  then have "writes (\<lambda>st. pb_encode_string st (mem_buf m a) ?sz) (Some (delimited ?bs))"
    using writes_mem [of m a ?sz] lt u takeWhile_mem_bytes [OF refl, where P = "\<lambda>b. b \<noteq> 0" and m = m and a = a and k = "unat (data_size f)"]
    by simp
  ultimately show ?thesis using assms(2,3) by (simp add: pb_enc_string_def)
qed

lemma writes_enc_fixed_length:
  assumes "valid_range m a (unat (data_size f))"
  shows "writes (\<lambda>st. pb_enc_fixed_length_bytes m st f a) (Some (delimited (mem_bytes m a (unat (data_size f)))))"
  unfolding pb_enc_fixed_length_bytes_def
  using writes_mem [of m a "ucast (data_size f)"] assms unat_32_less [of "data_size f"] by simp

subsection \<open>Lemmas: submessages\<close>

text \<open>
  The second pass of \<^verbatim>\<open>pb_encode_submessage\<close> writes what the first pass counted.
\<close>

lemma writes_second_pass:
  assumes rec: "writes (\<lambda>st. rec st fs a) (Some bs)" and len: "length bs < 2 ^ 63" and sz: "sz = word_of_nat (length bs)"
  shows "writes (\<lambda>st :: 'u pb_ostream_t.
     if is_sizing (sink st) then pb_write st NULL_buf sz
     else if bytes_written st + sz > max_size st then oerror st ''stream full''
     else
       let substream = \<lparr>sink = sink st, max_size = sz, bytes_written = 0, oerrmsg = None\<rparr>;
           finish = (\<lambda>status substream.
             let st = st\<lparr>bytes_written := bytes_written st + bytes_written substream,
                         sink := sink substream, oerrmsg := oerrmsg substream\<rparr>
             in if bytes_written substream \<noteq> sz then oerror st ''submsg size changed''
                else if status then Ret () st else Err st)
       in (case rec substream fs a of
             Ret _ substream \<Rightarrow> finish True substream
           | Err substream \<Rightarrow> finish False substream
           | Undef \<Rightarrow> Undef
           | NoFuel \<Rightarrow> NoFuel)) (Some bs)" (is "writes ?g _")
proof (rule writesI)
  fix st :: "'u pb_ostream_t" assume "is_sizing (sink st)"
  then show "?g st = Ret () (put_bytes st bs)"
    by (simp add: pb_write_sizing put_bytes_sizing sz)
next
  fix st :: "'u pb_ostream_t" assume ok: "obuf_ok st" and r: "room st (length bs)"
  let ?sub = "\<lparr>sink = sink st, max_size = sz, bytes_written = 0, oerrmsg = None\<rparr> :: 'u pb_ostream_t"
  have u: "unat sz = length bs" using len by (simp add: sz unat_of_nat)
  have e: "oerrmsg st = None" using ok by (simp add: obuf_ok_def)
  have "obuf_ok ?sub" using ok r len u by (elim obuf_okE) (simp add: obuf_ok_def room_def)
  moreover have "room ?sub (length bs)" by (simp add: room_def u)
  ultimately have "rec ?sub fs a = Ret () (put_bytes ?sub bs)" by (rule writes_room [OF rec])
  moreover have "\<not> bytes_written st + sz > max_size st"
    using room_unat [OF ok r] r by (simp add: sz room_def word_less_nat_alt)
  ultimately show "?g st = Ret () (put_bytes st bs)"
    using obuf_ok_not_sizing [OF ok] e by (simp add: Let_def put_bytes_def sz)
next
  fix st :: "'u pb_ostream_t" assume ok: "obuf_ok st" and nr: "\<not> room st (length bs)"
  have u: "unat sz = length bs" using len by (simp add: sz unat_of_nat)
  have "unat (bytes_written st) + length bs < 2 ^ 64" using len ok by (elim obuf_okE) simp
  then have "unat (bytes_written st + sz) = unat (bytes_written st) + length bs"
    by (simp add: unat_word_ariths u)
  then have "bytes_written st + sz > max_size st" using nr by (simp add: room_def word_less_nat_alt)
  then show "\<exists>st'. ?g st = Err st' \<and> owin st st'"
    using obuf_ok_not_sizing [OF ok] owin_refl [OF ok] by (simp add: oerror_def)
qed

lemma writes_submessage:
  assumes rec: "writes (\<lambda>st :: 'u pb_ostream_t. rec st fs a) r" and len: "\<And>bs. r = Some bs \<Longrightarrow> length bs < 2 ^ 63"
  shows "writes (\<lambda>st. pb_encode_submessage rec st fs a) (map_option delimited r)"
proof (cases r)
  case None
  then obtain sub where "rec PB_OSTREAM_SIZING fs a = Err sub"
    using writes_None_sizing [of "\<lambda>st. rec st fs a" PB_OSTREAM_SIZING] rec
    by (auto simp: PB_OSTREAM_SIZING_def is_sizing_def)
  then show ?thesis
    using None by (simp add: pb_encode_submessage_def writes_def owin_refl)
next
  case (Some bs)
  note rec = rec [unfolded Some] and len = len [OF Some]
  have s: "rec PB_OSTREAM_SIZING fs a = Ret () (put_bytes PB_OSTREAM_SIZING bs)"
    by (rule writes_sizing [OF rec]) (simp add: PB_OSTREAM_SIZING_def is_sizing_def)
  have w: "bytes_written (put_bytes (PB_OSTREAM_SIZING :: 'u pb_ostream_t) bs) = word_of_nat (length bs)"
    by (simp add: PB_OSTREAM_SIZING_def)
  have c: "cat_opt (Some (varint (unat (word_of_nat (length bs) :: size_t)))) (Some bs) = map_option delimited r"
    using len by (simp add: cat_opt_def Some delimited_def unat_of_nat)
  show ?thesis
    unfolding pb_encode_submessage_def s outcome.case Let_def w c [symmetric]
    by (rule writes_then [OF writes_varint [of "word_of_nat (length bs)"]
          writes_second_pass [where rec = rec and fs = fs and a = a, OF rec len refl, unfolded Let_def]])
qed

subsection \<open>Lemmas: layout of static messages\<close>

lemma emsg_okD:
  assumes "emsg_ok (Suc n) D fs sz" and "k < length fs"
  shows "PB_ATYPE (ftype (fs ! k)) = PB_ATYPE_STATIC" "item_ok (fs ! k)"
    "PB_HTYPE (ftype (fs ! k)) = PB_HTYPE_REPEATED \<Longrightarrow> 1 \<le> unat (array_size (fs ! k))"
    "PB_HTYPE (ftype (fs ! k)) = PB_HTYPE_REPEATED \<or> PB_HTYPE (ftype (fs ! k)) = PB_HTYPE_ONEOF \<Longrightarrow> size_offset (fs ! k) \<noteq> 0"
    "PB_LTYPE (ftype (fs ! k)) = PB_LTYPE_SUBMESSAGE \<Longrightarrow>
       ptr (fs ! k) \<noteq> 0 \<and> emsg_ok n D (D (ptr (fs ! k))) (unat (data_size (fs ! k)))"
  using msg_okD(4,5,8) [OF assms(1) [unfolded emsg_ok_def] assms(2)]
  by (auto simp: efield_ok_def emsg_ok_def)

text \<open>Item \<open>i\<close> of a field: there is one item unless the field is repeated.\<close>

lemma item_valid:
  assumes ok: "emsg_ok (Suc n) D fs sz" and k: "k < length fs" and v: "valid_range m d sz"
    and i: "i < (if PB_HTYPE (ftype (fs ! k)) = PB_HTYPE_REPEATED then unat (array_size (fs ! k)) else 1)"
  shows "valid_range m (d + int (field_off fs k) + int i * int (unat (data_size (fs ! k)))) (unat (data_size (fs ! k)))"
proof -
  let ?f = "fs ! k"
  have fit: "field_off fs k + field_extent ?f \<le> sz"
    using msg_okD(7) [OF ok [unfolded emsg_ok_def] k] .
  have "unat (data_size ?f) * i + unat (data_size ?f) \<le> field_extent ?f"
  proof (cases "PB_HTYPE (ftype ?f) = PB_HTYPE_REPEATED")
    case True
    with item_index [of i "array_size ?f" "data_size ?f"] i emsg_okD(1) [OF ok k] show ?thesis
      by (simp add: field_extent_def)
  next
    case False
    with i emsg_okD(1) [OF ok k] show ?thesis by (simp add: extent_single)
  qed
  with fit have "(field_off fs k + i * unat (data_size ?f)) + unat (data_size ?f) \<le> sz" by (simp add: mult.commute)
  from valid_range_off [OF v this] show ?thesis by (simp add: add.assoc)
qed

lemma first_item_valid:
  assumes ok: "emsg_ok (Suc n) D fs sz" and k: "k < length fs" and v: "valid_range m d sz"
  shows "valid_range m (d + int (field_off fs k)) (unat (data_size (fs ! k)))"
  using item_valid [OF ok k v, of 0] emsg_okD(3) [OF ok k]
  by (cases "PB_HTYPE (ftype (fs ! k)) = PB_HTYPE_REPEATED") auto

text \<open>The counter or flag that the encoder computes from the data address is the iterator's.\<close>

lemma size_off_eq:
  assumes "union_ok fs" and "k < length fs"
  shows "size_off fs k = int (field_off fs k) + sint (size_offset (fs ! k))"
  using assms(2)
proof (induction k)
  case 0
  then show ?case by simp
next
  case (Suc k)
  show ?case
  proof (cases "same_union (fs ! k) (fs ! Suc k)")
    case True
    with assms(1) Suc.prems have "size_offset (fs ! Suc k) = size_offset (fs ! k)"
      by (simp add: union_ok_def)
    with True Suc show ?thesis by simp
  next
    case False
    with Suc.prems show ?thesis by simp
  qed
qed

lemma counter_valid:
  assumes ok: "emsg_ok (Suc n) D fs sz" and k: "k < length fs" and v: "valid_range m d sz"
    and h: "PB_HTYPE (ftype (fs ! k)) = PB_HTYPE_REPEATED \<or> PB_HTYPE (ftype (fs ! k)) = PB_HTYPE_ONEOF"
  shows "valid_range m (d + int (field_off fs k) + sint (size_offset (fs ! k))) 4"
proof -
  note ok' = ok [unfolded emsg_ok_def]
  have "within (d + size_off fs k) 4 d sz" using field_ok_size [OF ok' k h, of d] by simp
  then show ?thesis
    using valid_range_sub [OF v] size_off_eq [OF msg_okD(3) [OF ok'] k] by (simp add: within_def add.assoc)
qed

lemma flag_valid:
  assumes ok: "emsg_ok (Suc n) D fs sz" and k: "k < length fs" and v: "valid_range m d sz"
    and h: "PB_HTYPE (ftype (fs ! k)) = PB_HTYPE_OPTIONAL" and o: "size_offset (fs ! k) \<noteq> 0"
  shows "valid_range m (d + int (field_off fs k) + sint (size_offset (fs ! k))) 1"
proof -
  note ok' = ok [unfolded emsg_ok_def]
  have eq: "size_off fs k = int (field_off fs k) + sint (size_offset (fs ! k))"
    by (rule size_off_eq [OF msg_okD(3) [OF ok'] k])
  have "sint (size_offset (fs ! k)) \<noteq> 0" using o by (metis signed_eq_0_iff)
  then have "within (d + size_off fs k) 1 d sz" using field_ok_flag [OF ok' k h, of d] eq by simp
  then show ?thesis using valid_range_sub [OF v] eq by (simp add: within_def add.assoc)
qed

subsection \<open>Lemmas: the zero test\<close>

lemma zero_bytes_at: "valid_range m a n \<Longrightarrow> zero_bytes m a n = Some (\<forall>b\<in>set (mem_bytes m a n). b = 0)"
proof (induction n arbitrary: a)
  case 0
  then show ?case by (simp add: mem_bytes_def)
next
  case (Suc n)
  then obtain b where "m a = Some b" and "valid_range m (a + 1) n" by (auto simp: valid_range_Suc)
  with Suc.IH [of "a + 1"] show ?case by (simp add: mem_bytes_Suc)
qed

lemma seq_out_test:
  "seq_out (\<lambda>j s. if P j then Ret () s else Err s) xs s = (if \<forall>j\<in>set xs. P j then Ret () s else Err s)"
  by (induction xs) auto

lemma seq_out_cong: "(\<And>x s. x \<in> set xs \<Longrightarrow> f x s = g x s) \<Longrightarrow> seq_out f xs s = seq_out g xs s"
  by (induction xs arbitrary: s) (simp_all cong: andThen_cong)

lemma begin_Some: "fields_ok fs \<Longrightarrow> fs \<noteq> [] \<Longrightarrow> pb_field_iter_begin fs d = (True, iter_nth fs d 0)"
  using begin_iter_nth [of fs d] fst_begin [of fs d] by (cases "pb_field_iter_begin fs d") simp

lemma begin_None: "pb_field_iter_begin [] d = (False, iter_nth [] d 0)"
  using begin_iter_nth [of "[]" d] fst_begin [of "[]" d] by (cases "pb_field_iter_begin [] d") (simp add: fields_ok_def)

lemma load_u8_at: "valid_range m a 1 \<Longrightarrow> \<exists>w. load_u8 m a = Some w \<and> unat w = uint_at m a 1"
  using load_uint [of m a 1, where 'a = 8] by (simp add: load_u8_bytes)

lemma check_submessage:
  assumes f: "fields_ok gs"
    and sub: "\<And>j. j < length gs \<Longrightarrow> pb_check_proto3_default_value n D m (gs ! j) (a + int (field_off gs j)) =
      Ret (zero_item n D m (gs ! j) (a + int (field_off gs j))) ()"
  shows "(case pb_field_iter_begin gs a of (ok, it) \<Rightarrow>
      if \<not> ok then Ret True ()
      else case iter_for (length gs) (\<lambda>it s.
             andThen (pb_check_proto3_default_value n D m (cur it) (pData it)) (\<lambda>b s.
               if \<not> b then Err s else Ret () s)) it () of
         Ret _ s \<Rightarrow> Ret True s | Err s \<Rightarrow> Ret False s | Undef \<Rightarrow> Undef | NoFuel \<Rightarrow> NoFuel) =
     Ret (\<forall>j<length gs. zero_item n D m (gs ! j) (a + int (field_off gs j))) ()"
proof (cases "gs = []")
  case True
  then show ?thesis by (simp add: begin_None)
next
  case False
  let ?z = "\<lambda>j. zero_item n D m (gs ! j) (a + int (field_off gs j))"
  have "seq_out (\<lambda>j s. andThen (pb_check_proto3_default_value n D m (cur (iter_nth gs a j)) (pData (iter_nth gs a j)))
        (\<lambda>b s. if \<not> b then Err s else Ret () s)) [0..<length gs] () =
      seq_out (\<lambda>j s. if ?z j then Ret () s else Err s) [0..<length gs] ()"
    by (rule seq_out_cong) (simp add: sub)
  then have "iter_for (length gs) (\<lambda>it s.
      andThen (pb_check_proto3_default_value n D m (cur it) (pData it)) (\<lambda>b s. if \<not> b then Err s else Ret () s))
      (iter_nth gs a 0) () = (if \<forall>j<length gs. ?z j then Ret () () else Err ())"
    by (simp add: iter_for_begin [OF f False] seq_out_test)
  then show ?thesis by (simp add: begin_Some [OF f False])
qed

lemma check_default_step:
  assumes ok: "emsg_ok (Suc n) D fs sz" and k: "k < length fs" and v: "valid_range m d sz"
    and sub: "\<And>gs sz' a j. emsg_ok n D gs sz' \<Longrightarrow> j < length gs \<Longrightarrow> valid_range m a sz' \<Longrightarrow>
      pb_check_proto3_default_value n D m (gs ! j) (a + int (field_off gs j)) =
      Ret (zero_item n D m (gs ! j) (a + int (field_off gs j))) ()"
  shows "pb_check_proto3_default_value (Suc n) D m (fs ! k) (d + int (field_off fs k)) =
     Ret (zero_item (Suc n) D m (fs ! k) (d + int (field_off fs k))) ()"
proof -
  let ?f = "fs ! k" and ?a = "d + int (field_off fs k)"
  note st = emsg_okD(1) [OF ok k] and io = emsg_okD(2) [OF ok k] and va = first_item_valid [OF ok k v]
  show ?thesis
  proof (cases "PB_LTYPE (ftype ?f) = PB_LTYPE_SUBMESSAGE")
    case True
    have p: "ptr ?f \<noteq> 0" and nested: "emsg_ok n D (D (ptr ?f)) (unat (data_size ?f))"
      using emsg_okD(5) [OF ok k True] by auto
    have f: "fields_ok (D (ptr ?f))"
      using nested by (cases n) (simp_all add: emsg_ok_def)
    have "pb_check_proto3_default_value n D m (D (ptr ?f) ! j) (?a + int (field_off (D (ptr ?f)) j)) =
        Ret (zero_item n D m (D (ptr ?f) ! j) (?a + int (field_off (D (ptr ?f)) j))) ()"
      if "j < length (D (ptr ?f))" for j
      by (rule sub [OF nested that va])
    from check_submessage [OF f this] show ?thesis using st True p by simp
  next
    case False
    consider "PB_LTYPE (ftype ?f) = PB_LTYPE_BYTES" | "PB_LTYPE (ftype ?f) = PB_LTYPE_STRING"
      | "PB_LTYPE (ftype ?f) = PB_LTYPE_FIXED_LENGTH_BYTES"
      | "PB_LTYPE (ftype ?f) \<noteq> PB_LTYPE_BYTES" "PB_LTYPE (ftype ?f) \<noteq> PB_LTYPE_STRING"
        "PB_LTYPE (ftype ?f) \<noteq> PB_LTYPE_FIXED_LENGTH_BYTES"
      by blast
    then show ?thesis
    proof cases
      case 1
      then have "valid_range m ?a 4" using valid_range_prefix [OF va, of 4] io by (simp add: item_ok_def)
      from load_u32_at [OF this] show ?thesis
        using st 1 by (simp add: bytes_size_def word_unat_eq_iff unat_of_nat)
    next
      case 2
      then have "valid_range m ?a 1" using valid_range_prefix [OF va, of 1] io by (simp add: item_ok_def)
      from load_u8_at [OF this] show ?thesis
        using st 2 by (auto simp: unat_eq_zero [symmetric])
    next
      case 3
      then show ?thesis using st by simp
    next
      case 4
      then show ?thesis using st False zero_bytes_at [OF va] by simp
    qed
  qed
qed

lemma check_default:
  "emsg_ok (Suc n) D fs sz \<Longrightarrow> k < length fs \<Longrightarrow> valid_range m d sz \<Longrightarrow>
   pb_check_proto3_default_value (Suc n) D m (fs ! k) (d + int (field_off fs k)) =
     Ret (zero_item (Suc n) D m (fs ! k) (d + int (field_off fs k))) ()"
proof (induction n arbitrary: fs sz d k)
  case 0
  then show ?case by (rule check_default_step) (simp add: emsg_ok_def)
next
  case (Suc n)
  show ?case using Suc.prems by (rule check_default_step) (rule Suc.IH)
qed

subsection \<open>Lemmas: sequences of writers\<close>

lemma cat_list_simps [simp]: "cat_list [] = Some []" "cat_list (r # rs) = cat_opt r (cat_list rs)"
  by (simp_all add: cat_list_def)

lemma writes_seq:
  assumes "\<And>x. x \<in> set xs \<Longrightarrow> writes (g x) (r x)"
  shows "writes (seq_out g xs) (cat_list (map r xs))"
  using assms
proof (induction xs)
  case Nil
  have "seq_out g [] = (\<lambda>st. Ret () st)" by auto
  then show ?case using writes_Nil by simp
next
  case (Cons x xs)
  have "seq_out g (x # xs) = (\<lambda>st. andThen (g x st) (\<lambda>_ st. seq_out g xs st))" by auto
  then show ?case using writes_then [of "g x" "r x" "seq_out g xs" "cat_list (map r xs)"] Cons by simp
qed

lemma cat_list_length:
  assumes "cat_list (map r xs) = Some bs" and "\<And>x b. x \<in> set xs \<Longrightarrow> r x = Some b \<Longrightarrow> length b = c"
  shows "length bs = length xs * c"
  using assms by (induction xs arbitrary: bs) (fastforce simp: cat_opt_def split: option.splits)+

lemma cat_list_length_le:
  assumes "cat_list (map r xs) = Some bs" and "\<And>x b. x \<in> set xs \<Longrightarrow> r x = Some b \<Longrightarrow> length b \<le> c"
  shows "length bs \<le> length xs * c"
  using assms by (induction xs arbitrary: bs) (fastforce simp: cat_opt_def split: option.splits)+

lemma writes_fail: "(\<And>st. g st = Err st) \<Longrightarrow> writes g None"
  by (simp add: writes_def owin_refl)

text \<open>The part of \<^verbatim>\<open>encode_array\<close> behind the tag of a packed array.\<close>

lemma writes_packed:
  assumes items: "writes (array_items func f pd (unat count)) r"
    and size: "\<And>st :: 'u pb_ostream_t. packed_size func f pd count st =
      (case r of Some bs \<Rightarrow> Ret (word_of_nat (length bs)) st | None \<Rightarrow> Err st)"
    and len: "\<And>bs. r = Some bs \<Longrightarrow> length bs < 2 ^ 63"
  shows "writes (\<lambda>st. andThen (packed_size func f pd count st) (\<lambda>sz st.
            andThen (pb_encode_varint st sz) (\<lambda>_ st.
              if is_sizing (sink st) then pb_write st NULL_buf sz
              else array_items func f pd (unat count) st))) (map_option delimited r)"
proof (cases r)
  case None
  then show ?thesis by (simp add: size writes_fail)
next
  case (Some bs)
  note items = items [unfolded Some] and len = len [OF Some]
  let ?sz = "word_of_nat (length bs) :: size_t"
  have "writes (\<lambda>st :: 'u pb_ostream_t. if is_sizing (sink st) then pb_write st NULL_buf ?sz
      else array_items func f pd (unat count) st) (Some bs)"
  proof (rule writesI)
    fix st :: "'u pb_ostream_t" assume ok: "obuf_ok st" and "room st (length bs)"
    then show "(if is_sizing (sink st) then pb_write st NULL_buf ?sz
        else array_items func f pd (unat count) st) = Ret () (put_bytes st bs)"
      using obuf_ok_not_sizing [OF ok] by (simp add: writes_room [OF items])
  next
    fix st :: "'u pb_ostream_t" assume ok: "obuf_ok st" and "\<not> room st (length bs)"
    then show "\<exists>st'. (if is_sizing (sink st) then pb_write st NULL_buf ?sz
        else array_items func f pd (unat count) st) = Err st' \<and> owin st st'"
      using obuf_ok_not_sizing [OF ok] writes_no_room [OF items] by simp
  qed (simp add: pb_write_sizing put_bytes_sizing)
  from writes_then [OF writes_varint [of ?sz] this] show ?thesis
    using len by (simp add: size Some cat_opt_def delimited_def unat_of_nat)
qed

text \<open>The size of a packed array: computed for fixed-width items, counted otherwise.\<close>

lemma packed_size_counted:
  assumes "PB_LTYPE (ftype f) \<noteq> PB_LTYPE_FIXED32" and "PB_LTYPE (ftype f) \<noteq> PB_LTYPE_FIXED64"
    and items: "writes (array_items func f pd (unat count)) r"
  shows "packed_size func f pd count st = (case r of Some bs \<Rightarrow> Ret (word_of_nat (length bs)) st | None \<Rightarrow> Err st)"
proof (cases r)
  case None
  from writes_None_sizing [OF items [unfolded None], of PB_OSTREAM_SIZING] show ?thesis
    using assms(1,2) None by (auto simp: packed_size_def PB_OSTREAM_SIZING_def is_sizing_def)
next
  case (Some bs)
  from writes_sizing [OF items [unfolded Some], of PB_OSTREAM_SIZING] show ?thesis
    using assms(1,2) Some by (auto simp: packed_size_def PB_OSTREAM_SIZING_def is_sizing_def)
qed

subsection \<open>The interface between a message and its submessages\<close>

definition sub_small :: "nat \<Rightarrow> (addr \<Rightarrow> pb_field_t list) \<Rightarrow> mem \<Rightarrow> pb_field_t \<Rightarrow> addr \<Rightarrow> bool" where
  "sub_small n D m f b \<longleftrightarrow> (PB_LTYPE (ftype f) = PB_LTYPE_SUBMESSAGE \<longrightarrow>
     small_msg n D m (D (ptr f)) b \<and>
     (case spec_msg n D m (D (ptr f)) b of Some bs \<Rightarrow> length bs < 2 ^ 63 | None \<Rightarrow> True))"

lemma varint_two_compl_length: "length (varint (two_compl v)) \<le> 10"
  using varint_word_length [of "word_of_int v"] by (simp only: unat_of_int)

lemma small_msgD:
  assumes "small_msg (Suc n) D m fs d" and "k < length fs"
    and "i < (if PB_HTYPE (ftype (fs ! k)) = PB_HTYPE_REPEATED then unat (array_size (fs ! k)) else 1)"
  shows "sub_small n D m (fs ! k) (d + int (field_off fs k) + int i * int (unat (data_size (fs ! k))))"
  using assms by (simp add: sub_small_def Let_def)

lemma uint_at_bound: "uint_at m a k < 2 ^ (8 * k)"
  using le_nat_bound [of "mem_bytes m a k"] by (simp add: uint_at_def power_mult)

lemma varint_64_length: "x < 2 ^ 64 \<Longrightarrow> length (varint x) \<le> 10"
  by (rule varint_length_le) simp_all

lemma int_values_bound:
  assumes "int_size k"
  shows "uint_at m a k < 2 ^ 64" and "zigzag_nat (sint_at m a k) < 2 ^ 64"
  using assms uint_at_bound [of m a k]
  by (auto simp: int_size_def sint_at_def zigzag_nat_def)

text \<open>Packable items are short, and fixed-width ones have their width.\<close>

lemma packable_cases:
  assumes "PB_LTYPE (ftype f) \<le> PB_LTYPE_LAST_PACKABLE"
  obtains "PB_LTYPE (ftype f) = PB_LTYPE_VARINT" | "PB_LTYPE (ftype f) = PB_LTYPE_UVARINT"
    | "PB_LTYPE (ftype f) = PB_LTYPE_SVARINT" | "PB_LTYPE (ftype f) = PB_LTYPE_FIXED32"
    | "PB_LTYPE (ftype f) = PB_LTYPE_FIXED64"
proof -
  let ?t = "PB_LTYPE (ftype f)"
  have "unat ?t \<le> 4" using assms by (simp add: word_le_nat_alt)
  then have "unat ?t \<in> {0, 1, 2, 3, 4}" by auto
  with that show ?thesis by (auto simp: word_unat_eq_iff)
qed

lemma packable_length:
  assumes "PB_LTYPE (ftype f) \<le> PB_LTYPE_LAST_PACKABLE" and "item_bytes sub D m f a = Some bs"
  shows "length bs \<le> 10"
    and "PB_LTYPE (ftype f) = PB_LTYPE_FIXED32 \<Longrightarrow> length bs = 4"
    and "PB_LTYPE (ftype f) = PB_LTYPE_FIXED64 \<Longrightarrow> length bs = 8"
proof -
  note l = varint_two_compl_length varint_64_length [OF int_values_bound(1)] varint_64_length [OF int_values_bound(2)]
  show "length bs \<le> 10"
    using assms(1)
    by (cases rule: packable_cases) (use assms(2) l in \<open>auto simp: item_bytes_def Let_def split: if_splits\<close>)
qed (use assms(2) in \<open>auto simp: item_bytes_def Let_def\<close>)

lemma packed_size_item:
  assumes lt: "PB_LTYPE (ftype f) \<le> PB_LTYPE_LAST_PACKABLE"
    and items: "writes (array_items func f pd (unat count)) r"
    and r: "r = cat_list (map (\<lambda>i. item_bytes sub D m f (g i)) [0..<unat count])"
  shows "packed_size func f pd count st = (case r of Some bs \<Rightarrow> Ret (word_of_nat (length bs)) st | None \<Rightarrow> Err st)"
proof (cases "PB_LTYPE (ftype f) = PB_LTYPE_FIXED32 \<or> PB_LTYPE (ftype f) = PB_LTYPE_FIXED64")
  case True
  then have "\<exists>b. item_bytes sub D m f (g i) = Some b" for i by (auto simp: item_bytes_def Let_def)
  then have "\<exists>bs. cat_list (map (\<lambda>i. item_bytes sub D m f (g i)) xs) = Some bs" for xs
    by (induction xs) (auto simp: cat_opt_def, metis option.simps(5))
  then obtain bs where bs: "r = Some bs" using r by blast
  have "length bs = unat count * (if PB_LTYPE (ftype f) = PB_LTYPE_FIXED32 then 4 else 8)"
    using cat_list_length [OF bs [unfolded r]] packable_length(2,3) [OF lt] True by (auto split: if_splits)
  then show ?thesis using True bs by (auto simp: packed_size_def mult.commute)
next
  case False
  then show ?thesis by (intro packed_size_counted [OF _ _ items]) auto
qed

locale msg_encoder =
  fixes E :: "'u enc_env" and m :: mem and n :: nat and rec :: "'u msg_encoder"
  assumes rec_writes:
    "emsg_ok n (desc E) fs sz \<Longrightarrow> valid_range m a sz \<Longrightarrow> 0 < a \<Longrightarrow> small_msg n (desc E) m fs a \<Longrightarrow>
     writes (\<lambda>st. rec st fs a) (spec_msg n (desc E) m fs a)"
begin

lemma item_writes:
  assumes ok: "emsg_ok (Suc n) (desc E) fs sz" and k: "k < length fs"
    and v: "valid_range m a (unat (data_size (fs ! k)))" and a: "0 < a" and s: "sub_small n (desc E) m (fs ! k) a"
  shows "writes (\<lambda>st. PB_ENCODERS E rec m (PB_LTYPE (ftype (fs ! k))) st (fs ! k) a)
     (item_bytes (spec_msg n (desc E) m) (desc E) m (fs ! k) a)"
proof -
  let ?f = "fs ! k"
  note st = emsg_okD(1) [OF ok k] and io = emsg_okD(2) [OF ok k]
  have "has_ltype ?f" using io by (simp add: item_ok_def)
  then show ?thesis
  proof (cases ?f rule: ltype_cases)
    case 1
    then show ?thesis using writes_enc_varint [OF v] by (simp add: PB_ENCODERS_def item_bytes_def Let_def)
  next
    case 2
    then show ?thesis using writes_enc_uvarint [OF v] by (simp add: PB_ENCODERS_def item_bytes_def Let_def)
  next
    case 3
    then show ?thesis using writes_enc_svarint [OF v] by (simp add: PB_ENCODERS_def item_bytes_def Let_def)
  next
    case 4
    then have "valid_range m a 4" using valid_range_prefix [OF v, of 4] io by (simp add: item_ok_def)
    from writes_fixed32 [OF load_mem_bytes [OF this]] 4 show ?thesis
      by (simp add: PB_ENCODERS_def item_bytes_def Let_def pb_enc_fixed32_def)
  next
    case 5
    then have "valid_range m a 8" using valid_range_prefix [OF v, of 8] io by (simp add: item_ok_def)
    from writes_fixed64 [OF load_mem_bytes [OF this]] 5 show ?thesis
      by (simp add: PB_ENCODERS_def item_bytes_def Let_def pb_enc_fixed64_def)
  next
    case 6
    then show ?thesis using writes_enc_bytes [OF v] io a st by (simp add: PB_ENCODERS_def item_bytes_def Let_def item_ok_def)
  next
    case 7
    then show ?thesis using writes_enc_string [OF v] a st by (simp add: PB_ENCODERS_def item_bytes_def Let_def)
  next
    case 8
    with emsg_okD(5) [OF ok k] have p: "ptr ?f \<noteq> 0" and nested: "emsg_ok n (desc E) (desc E (ptr ?f)) (unat (data_size ?f))"
      by auto
    have "writes (\<lambda>st. rec st (desc E (ptr ?f)) a) (spec_msg n (desc E) m (desc E (ptr ?f)) a)"
      using s 8 by (intro rec_writes [OF nested v a]) (simp add: sub_small_def)
    moreover have "length bs < 2 ^ 63" if "spec_msg n (desc E) m (desc E (ptr ?f)) a = Some bs" for bs
      using s 8 that by (simp add: sub_small_def)
    ultimately have "writes (\<lambda>st. pb_encode_submessage rec st (desc E (ptr ?f)) a)
        (map_option delimited (spec_msg n (desc E) m (desc E (ptr ?f)) a))"
      by (rule writes_submessage)
    with 8 p show ?thesis by (simp add: PB_ENCODERS_def item_bytes_def Let_def pb_enc_submessage_def)
  next
    case 9
    then show ?thesis using writes_enc_fixed_length [OF v] by (simp add: PB_ENCODERS_def item_bytes_def Let_def)
  qed
qed

lemma tagged_writes:
  assumes "writes (\<lambda>st. func st f a) r"
  shows "writes (\<lambda>st. encode_tagged func st f a) (cat_opt (tag_spec f) r)"
  unfolding encode_tagged_def by (rule writes_then [OF writes_tag_for_field assms])

lemma array_writes:
  assumes ok: "emsg_ok (Suc n) (desc E) fs sz" and k: "k < length fs" and v: "valid_range m d sz" and d: "0 < d"
    and s: "small_msg (Suc n) (desc E) m fs d" and h: "PB_HTYPE (ftype (fs ! k)) = PB_HTYPE_REPEATED"
    and i: "i < unat (array_size (fs ! k))"
  shows "writes (\<lambda>st. PB_ENCODERS E rec m (PB_LTYPE (ftype (fs ! k))) st (fs ! k) (item_addr (fs ! k) (d + int (field_off fs k)) i))
     (item_bytes (spec_msg n (desc E) m) (desc E) m (fs ! k) (d + int (field_off fs k) + int i * int (unat (data_size (fs ! k)))))"
proof -
  let ?a = "d + int (field_off fs k) + int i * int (unat (data_size (fs ! k)))"
  have i': "i < (if PB_HTYPE (ftype (fs ! k)) = PB_HTYPE_REPEATED then unat (array_size (fs ! k)) else 1)"
    using i h by simp
  have "0 < ?a" using d by (simp add: add_pos_nonneg)
  from item_writes [OF ok k item_valid [OF ok k v i'] this small_msgD [OF s k i']]
  show ?thesis by (simp add: item_addr_def)
qed

lemma encode_array_writes:
  assumes ok: "emsg_ok (Suc n) (desc E) fs sz" and k: "k < length fs" and v: "valid_range m d sz" and d: "0 < d"
    and s: "small_msg (Suc n) (desc E) m fs d" and h: "PB_HTYPE (ftype (fs ! k)) = PB_HTYPE_REPEATED"
    and c: "c < 2 ^ 32"
  shows "writes (\<lambda>st. encode_array m st (fs ! k) (d + int (field_off fs k)) (word_of_nat c)
       (PB_ENCODERS E rec m (PB_LTYPE (ftype (fs ! k)))))
     (if c = 0 then Some []
      else if c > unat (array_size (fs ! k)) then None
      else if PB_LTYPE (ftype (fs ! k)) \<le> PB_LTYPE_LAST_PACKABLE
      then cat_opt (Some (varint (unat (tag (fs ! k)) * 8 + 2))) (map_option delimited
             (cat_list (map (\<lambda>i. item_bytes (spec_msg n (desc E) m) (desc E) m (fs ! k)
                (d + int (field_off fs k) + int i * int (unat (data_size (fs ! k))))) [0..<c])))
      else cat_list (map (\<lambda>i. cat_opt (tag_spec (fs ! k)) (item_bytes (spec_msg n (desc E) m) (desc E) m (fs ! k)
                (d + int (field_off fs k) + int i * int (unat (data_size (fs ! k)))))) [0..<c]))"
proof -
  let ?f = "fs ! k" and ?pd = "d + int (field_off fs k)" and ?func = "PB_ENCODERS E rec m (PB_LTYPE (ftype (fs ! k)))"
  let ?item = "\<lambda>i. item_bytes (spec_msg n (desc E) m) (desc E) m ?f (?pd + int i * int (unat (data_size ?f)))"
  let ?cnt = "word_of_nat c :: size_t"
  have u: "unat ?cnt = c" using c by (simp add: unat_of_nat)
  have st: "PB_ATYPE (ftype ?f) \<noteq> PB_ATYPE_POINTER" using emsg_okD(1) [OF ok k] by simp
  have gt: "?cnt > ucast (array_size ?f) \<longleftrightarrow> c > unat (array_size ?f)" by (simp add: word_less_nat_alt u)
  have z: "?cnt = 0 \<longleftrightarrow> c = 0" using u by auto
  consider "c = 0" | "c \<noteq> 0" "c > unat (array_size ?f)" | "c \<noteq> 0" "c \<le> unat (array_size ?f)" by linarith
  then show ?thesis
  proof cases
    case 1
    then show ?thesis by (simp add: encode_array_def writes_Nil)
  next
    case 2
    then show ?thesis using st gt z by (simp add: encode_array_def writes_error)
  next
    case 3
    have item: "writes (\<lambda>st. ?func st ?f (item_addr ?f ?pd i)) (?item i)" if "i \<in> set [0..<c]" for i
      by (rule array_writes [OF ok k v d s h]) (use that 3 in simp)
    show ?thesis
    proof (cases "PB_LTYPE (ftype ?f) \<le> PB_LTYPE_LAST_PACKABLE")
      case True
      let ?r = "cat_list (map ?item [0..<c])"
      have items: "writes (array_items ?func ?f ?pd (unat ?cnt)) ?r"
        unfolding array_items_def [abs_def] u by (rule writes_seq) (rule item)
      have len: "length bs < 2 ^ 63" if "?r = Some bs" for bs
      proof -
        have "length bs \<le> length [0..<c] * 10"
          by (rule cat_list_length_le [OF that]) (rule packable_length(1) [OF True])
        then show ?thesis using c by simp
      qed
      have size: "packed_size ?func ?f ?pd ?cnt st = (case ?r of Some bs \<Rightarrow> Ret (word_of_nat (length bs)) st | None \<Rightarrow> Err st)" for st
        by (rule packed_size_item [OF True items]) (simp_all add: u)
      note packed = writes_packed [OF items size len]
      have "writes (\<lambda>st. pb_encode_tag st PB_WT_STRING (tag ?f)) (Some (varint (unat (tag ?f) * 8 + 2)))"
        using writes_tag [of PB_WT_STRING "tag ?f"] by simp
      from writes_then [OF this packed] 3 True st gt z show ?thesis
        by (simp add: encode_array_def)
    next
      case False
      have "writes (seq_out (\<lambda>i st. andThen (pb_encode_tag_for_field st ?f) (\<lambda>_ st. ?func st ?f (item_addr ?f ?pd i))) [0..<c])
          (cat_list (map (\<lambda>i. cat_opt (tag_spec ?f) (?item i)) [0..<c]))"
        by (rule writes_seq) (rule writes_then [OF writes_tag_for_field item])
      then show ?thesis using 3 False st gt z by (simp add: encode_array_def u)
    qed
  qed
qed

lemma basic_field_writes:
  assumes ok: "emsg_ok (Suc n) (desc E) fs sz" and k: "k < length fs" and v: "valid_range m d sz" and d: "0 < d"
    and s: "small_msg (Suc n) (desc E) m fs d"
  shows "writes (\<lambda>st. encode_basic_field (Suc n) E rec m st (fs ! k) (d + int (field_off fs k)))
     (field_bytes (Suc n) (spec_msg n (desc E) m) (desc E) m (fs ! k) (d + int (field_off fs k)))"
proof -
  let ?f = "fs ! k" and ?a = "d + int (field_off fs k)" and ?func = "PB_ENCODERS E rec m (PB_LTYPE (ftype (fs ! k)))"
  let ?tagged = "cat_opt (tag_spec ?f) (item_bytes (spec_msg n (desc E) m) (desc E) m ?f ?a)"
  note st = emsg_okD(1) [OF ok k]
  have a: "0 < ?a" using d by simp
  have tagged: "writes (\<lambda>st. encode_tagged ?func st ?f ?a) ?tagged" if "PB_HTYPE (ftype ?f) \<noteq> PB_HTYPE_REPEATED"
    using small_msgD [OF s k, of 0] that
    by (intro tagged_writes item_writes [OF ok k first_item_valid [OF ok k v] a]) simp
  have has: "implicit_has (Suc n) E m ?f ?a =
      Ret (size_offset ?f = 0 \<and> PB_HTYPE (ftype ?f) = PB_HTYPE_OPTIONAL \<longrightarrow> \<not> zero_item (Suc n) (desc E) m ?f ?a) ()"
    using check_default [OF ok k v] by (auto simp: implicit_has_def)
  have cnt: "load_u32 m (?a + sint (size_offset ?f)) = Some (word_of_nat (uint_at m (?a + sint (size_offset ?f)) 4))"
      "uint_at m (?a + sint (size_offset ?f)) 4 < 2 ^ 32" "size_offset ?f \<noteq> 0"
    if "PB_HTYPE (ftype ?f) = PB_HTYPE_REPEATED \<or> PB_HTYPE (ftype ?f) = PB_HTYPE_ONEOF"
    using load_u32_at [OF counter_valid [OF ok k v that]] emsg_okD(4) [OF ok k that] by auto
  consider "PB_HTYPE (ftype ?f) = PB_HTYPE_REQUIRED" | "PB_HTYPE (ftype ?f) = PB_HTYPE_OPTIONAL"
    | "PB_HTYPE (ftype ?f) = PB_HTYPE_REPEATED" | "PB_HTYPE (ftype ?f) = PB_HTYPE_ONEOF"
    using HTYPE_cases [of "ftype ?f"] by blast
  then show ?thesis
  proof cases
    case 1
    then show ?thesis
      unfolding encode_basic_field_def has using tagged st a by (simp add: field_bytes_def Let_def)
  next
    case 2
    show ?thesis
    proof (cases "size_offset ?f = 0")
      case True
      with 2 show ?thesis
        unfolding encode_basic_field_def has using tagged st by (simp add: field_bytes_def Let_def writes_Nil del: zero_item.simps)
    next
      case False
      obtain w where w: "load_u8 m (?a + sint (size_offset ?f)) = Some w" "unat w = uint_at m (?a + sint (size_offset ?f)) 1"
        using load_u8_at [OF flag_valid [OF ok k v 2 False]] by blast
      then have "w \<noteq> 0 \<longleftrightarrow> uint_at m (?a + sint (size_offset ?f)) 1 \<noteq> 0" by (metis unat_eq_zero)
      with 2 False w(1) show ?thesis
        unfolding encode_basic_field_def has using tagged st by (simp add: field_bytes_def Let_def writes_Nil del: zero_item.simps)
    qed
  next
    case 3
    note c = cnt [OF disjI1, OF 3]
    have u: "(ucast (word_of_nat (uint_at m (?a + sint (size_offset ?f)) 4) :: 32 word) :: size_t) =
        word_of_nat (uint_at m (?a + sint (size_offset ?f)) 4)"
      using c(2) by (simp add: word_unat_eq_iff unat_of_nat)
    have e: "encode_basic_field (Suc n) E rec m st ?f ?a =
        encode_array m st ?f ?a (word_of_nat (uint_at m (?a + sint (size_offset ?f)) 4)) ?func" for st
      unfolding encode_basic_field_def has using 3 st c by (simp add: Let_def u)
    from encode_array_writes [OF ok k v d s 3 c(2)] 3 show ?thesis
      unfolding e field_bytes_def Let_def by (simp split del: if_split)
  next
    case 4
    note c = cnt [OF disjI2, OF 4]
    have "word_of_nat (uint_at m (?a + sint (size_offset ?f)) 4) = tag ?f \<longleftrightarrow>
        uint_at m (?a + sint (size_offset ?f)) 4 = unat (tag ?f)"
      using c(2) by (simp add: word_unat_eq_iff unat_of_nat)
    with 4 c show ?thesis
      unfolding encode_basic_field_def has using tagged st by (simp add: field_bytes_def Let_def writes_Nil del: zero_item.simps)
  qed
qed

lemma message_writes:
  assumes ok: "emsg_ok (Suc n) (desc E) fs sz" and v: "valid_range m d sz" and d: "0 < d"
    and s: "small_msg (Suc n) (desc E) m fs d" and rec: "rec = pb_encode (Suc n) E m"
  shows "writes (\<lambda>st. pb_encode (Suc (Suc n)) E m st fs d) (spec_msg (Suc n) (desc E) m fs d)"
proof (cases "fs = []")
  case True
  then show ?thesis by (simp add: begin_None writes_Nil)
next
  case False
  have f: "fields_ok fs" using msg_okD(1) [OF ok [unfolded emsg_ok_def]] .
  let ?body = "\<lambda>it st. if PB_LTYPE (ftype (cur it)) = PB_LTYPE_EXTENSION
         then encode_extension_field (Suc n) E rec m st (cur it) (pData it)
         else encode_field (Suc n) E rec m st (cur it) (pData it)"
  have body: "writes (?body (iter_nth fs d k))
      (field_bytes (Suc n) (spec_msg n (desc E) m) (desc E) m (fs ! k) (d + int (field_off fs k)))"
    if "k \<in> set [0..<length fs]" for k
  proof -
    have k: "k < length fs" using that by simp
    have "PB_LTYPE (ftype (fs ! k)) \<noteq> PB_LTYPE_EXTENSION"
      using emsg_okD(2) [OF ok k] by (simp add: item_ok_def has_ltype_def)
    then show ?thesis
      using basic_field_writes [OF ok k v d s] emsg_okD(1) [OF ok k] k by (simp add: encode_field_def)
  qed
  have "writes (seq_out (\<lambda>k. ?body (iter_nth fs d k)) [0..<length fs]) (spec_msg (Suc n) (desc E) m fs d)"
    unfolding spec_msg.simps by (rule writes_seq) (rule body)
  moreover have "pb_encode (Suc (Suc n)) E m st fs d = seq_out (\<lambda>k. ?body (iter_nth fs d k)) [0..<length fs] st" for st
    unfolding pb_encode.simps(2) [of "Suc n"] rec [symmetric] begin_Some [OF f False]
    by (simp add: iter_for_begin [OF f False])
  ultimately show ?thesis by simp
qed

end

subsection \<open>Closing the recursion\<close>

lemma encode_writes:
  "emsg_ok n (desc E) fs sz \<Longrightarrow> valid_range m d sz \<Longrightarrow> 0 < d \<Longrightarrow> small_msg n (desc E) m fs d \<Longrightarrow>
   writes (\<lambda>st. pb_encode (Suc n) E m st fs d) (spec_msg n (desc E) m fs d)"
proof (induction n arbitrary: fs sz d)
  case 0
  then show ?case by (simp add: emsg_ok_def)
next
  case (Suc n)
  have "msg_encoder E m n (pb_encode (Suc n) E m)"
    by (intro msg_encoder.intro Suc.IH)
  then show ?case using Suc.prems by (rule msg_encoder.message_writes) (rule refl)
qed

interpretation nested_enc: msg_encoder E m n "pb_encode (Suc n) E m" for E m n
  by unfold_locales (rule encode_writes)

end
