(* ===== verification/PB_Istream.thy ===== *)
theory PB_Istream
  imports PB_Types
begin

text \<open>
  Input streams and the primitive decoders of \<^verbatim>\<open>pb_decode.c\<close>.

  A stream's \<^verbatim>\<open>callback\<close> and \<^verbatim>\<open>state\<close> are one value of type \<open>istate\<close>:
  \<^verbatim>\<open>buf_read\<close> with the bytes from the state pointer to the end of the underlying array, or
  the user's callback with the user's state. A read with a non-NULL \<^verbatim>\<open>buf\<close> returns the
  bytes that it puts there; the caller stores them. Two things are assumed of a user's callback: one that fails
  has stored nothing in the buffer, and its state is a value, so that a substream has a copy of the state that
  closing the substream hands back to the parent.

  The interface between the decoder and a byte source is the locale \<open>istream_source\<close>: what the
  decoder relies on is that as many bytes as the stream promises can be read. Every operation on
  streams is proved in it once, to be defined, to terminate, to consume its bytes and to leave a
  reserve \<open>r\<close> of bytes behind the limit untouched; the reserve is what closing a substream
  needs. The interpretation \<open>src\<close> provides it for \<^verbatim>\<open>buf_read\<close> and for user callbacks
  that return as many bytes as they are asked for.
\<close>

datatype (dead 'u) istate =
    Ibuf "byte list"
  | Iuser "'u \<Rightarrow> nat \<Rightarrow> (byte list \<times> 'u) option" 'u

record 'u pb_istream_t =
  istate :: "'u istate"
  bytes_left :: size_t
  ierrmsg :: "string option"

definition ierror :: "'u pb_istream_t \<Rightarrow> string \<Rightarrow> ('a, 'u pb_istream_t) outcome" where
  "ierror st msg = Err (st\<lparr>ierrmsg := PB_SET_ERROR (ierrmsg st) msg\<rparr>)"

definition buf_read :: "byte list \<Rightarrow> nat \<Rightarrow> (byte list \<times> byte list) option" where
  "buf_read source count =
     (if count \<le> length source then Some (take count source, drop count source) else None)"

definition is_buf_read :: "'u istate \<Rightarrow> bool" where
  "is_buf_read i = (case i of Ibuf _ \<Rightarrow> True | Iuser _ _ \<Rightarrow> False)"

definition istream_callback :: "'u istate \<Rightarrow> nat \<Rightarrow> (byte list, 'u istate) outcome" where
  "istream_callback i count =
     (case i of
        Ibuf source \<Rightarrow> deref (buf_read source count) (\<lambda>(bs, rest). Ret bs (Ibuf rest))
      | Iuser cb u \<Rightarrow>
          (case cb u count of
             None \<Rightarrow> Err (Iuser cb u)
           | Some (bs, u') \<Rightarrow> if length bs = count then Ret bs (Iuser cb u') else Undef))"

text \<open>\<^verbatim>\<open>pb_read\<close> behind its special case for skipping on a user's stream.\<close>

definition pb_read_buf :: "'u pb_istream_t \<Rightarrow> size_t \<Rightarrow> (byte list, 'u pb_istream_t) outcome" where
  "pb_read_buf st count =
     (if bytes_left st < count then ierror st ''end-of-stream''
      else
        (case istream_callback (istate st) (unat count) of
           Ret bs i \<Rightarrow> Ret bs (st\<lparr>istate := i, bytes_left := bytes_left st - count\<rparr>)
         | Err i \<Rightarrow> ierror (st\<lparr>istate := i\<rparr>) ''io error''
         | Undef \<Rightarrow> Undef
         | NoFuel \<Rightarrow> NoFuel))"

text \<open>The loop that skips bytes 16 at a time through a scratch buffer.\<close>

lemma skip_count_less: "16 < count \<Longrightarrow> unat (count - 16) < unat (count :: size_t)"
  by (rule unat_sub_less) auto

function pb_read_skip :: "'u pb_istream_t \<Rightarrow> size_t \<Rightarrow> (byte list, 'u pb_istream_t) outcome" where
  "pb_read_skip st count =
     (if 16 < count then andThen (pb_read_buf st 16) (\<lambda>_ st. pb_read_skip st (count - 16))
      else pb_read_buf st count)"
  by pat_completeness auto
termination
  by (relation "measure (\<lambda>(st, count). unat count)") (auto simp: skip_count_less)

declare pb_read_skip.simps [simp del]

definition pb_read :: "'u pb_istream_t \<Rightarrow> bool \<Rightarrow> size_t \<Rightarrow> (byte list, 'u pb_istream_t) outcome" where
  "pb_read st buf_is_NULL count =
     (if buf_is_NULL \<and> \<not> is_buf_read (istate st) then pb_read_skip st count
      else pb_read_buf st count)"

definition pb_readbyte :: "'u pb_istream_t \<Rightarrow> (byte, 'u pb_istream_t) outcome" where
  "pb_readbyte st =
     (if bytes_left st = 0 then ierror st ''end-of-stream''
      else
        (case istream_callback (istate st) 1 of
           Ret bs i \<Rightarrow> Ret (hd bs) (st\<lparr>istate := i, bytes_left := bytes_left st - 1\<rparr>)
         | Err i \<Rightarrow> ierror (st\<lparr>istate := i\<rparr>) ''io error''
         | Undef \<Rightarrow> Undef
         | NoFuel \<Rightarrow> NoFuel))"

definition pb_istream_from_buffer :: "byte list \<Rightarrow> size_t \<Rightarrow> 'u pb_istream_t" where
  "pb_istream_from_buffer buf bufsize =
     \<lparr>istate = Ibuf buf, bytes_left = bufsize, ierrmsg = None\<rparr>"

subsection \<open>Helper functions\<close>

text \<open>
  \<^verbatim>\<open>bitpos\<close> is a \<^verbatim>\<open>uint_fast8_t\<close> that stays below 80; it is a natural number here.
\<close>

function varint32_loop ::
    "'u pb_istream_t \<Rightarrow> 32 word \<Rightarrow> nat \<Rightarrow> (32 word, 'u pb_istream_t) outcome" where
  "varint32_loop st result bitpos =
     (if 32 \<le> bitpos then ierror st ''varint overflow''
      else andThen (pb_readbyte st) (\<lambda>byte st.
        let result = result OR push_bit bitpos (ucast (byte AND 0x7F)) in
        if byte AND 0x80 \<noteq> 0 then varint32_loop st result (bitpos + 7) else Ret result st))"
  by pat_completeness auto
termination
  by (relation "measure (\<lambda>(st, result, bitpos). 32 - bitpos)") auto

declare varint32_loop.simps [simp del]

definition pb_decode_varint32 :: "'u pb_istream_t \<Rightarrow> (32 word, 'u pb_istream_t) outcome" where
  "pb_decode_varint32 st =
     andThen (pb_readbyte st) (\<lambda>byte st.
       if byte AND 0x80 = 0 then Ret (ucast byte) st
       else varint32_loop st (ucast (byte AND 0x7F)) 7)"

function varint_loop ::
    "'u pb_istream_t \<Rightarrow> 64 word \<Rightarrow> nat \<Rightarrow> (64 word, 'u pb_istream_t) outcome" where
  "varint_loop st result bitpos =
     (if 64 \<le> bitpos then ierror st ''varint overflow''
      else andThen (pb_readbyte st) (\<lambda>byte st.
        let result = result OR push_bit bitpos (ucast (byte AND 0x7F)) in
        if byte AND 0x80 \<noteq> 0 then varint_loop st result (bitpos + 7) else Ret result st))"
  by pat_completeness auto
termination
  by (relation "measure (\<lambda>(st, result, bitpos). 64 - bitpos)") auto

declare varint_loop.simps [simp del]

definition pb_decode_varint :: "'u pb_istream_t \<Rightarrow> (64 word, 'u pb_istream_t) outcome" where
  "pb_decode_varint st = varint_loop st 0 0"

text \<open>
  \<^verbatim>\<open>pb_skip_varint\<close> has no bound on the number of bytes; each iteration takes one from
  the stream.
\<close>

lemma pb_read_buf_one_less:
  "pb_read_buf st 1 = Ret bs st' \<Longrightarrow> unat (bytes_left st') < unat (bytes_left st)"
  by (auto simp: pb_read_buf_def ierror_def not_less intro!: unat_sub_less word_one_le
      split: if_splits outcome.splits)

function pb_skip_varint :: "'u pb_istream_t \<Rightarrow> (unit, 'u pb_istream_t) outcome" where
  "pb_skip_varint st =
     andThen (pb_read st False 1) (\<lambda>bs st.
       if hd bs AND 0x80 \<noteq> 0 then pb_skip_varint st else Ret () st)"
  by pat_completeness auto
termination
  by (relation "measure (\<lambda>st. unat (bytes_left st))") (auto simp: pb_read_def pb_read_buf_one_less)

declare pb_skip_varint.simps [simp del]

definition pb_skip_string :: "'u pb_istream_t \<Rightarrow> (unit, 'u pb_istream_t) outcome" where
  "pb_skip_string st =
     andThen (pb_decode_varint32 st) (\<lambda>length st.
       andThen (pb_read st True (ucast length)) (\<lambda>_ st. Ret () st))"

text \<open>
  \<^verbatim>\<open>pb_decode_tag\<close> has three out-parameters; \<^verbatim>\<open>eof\<close> matters on the failing exit,
  so the call is modelled as one that always returns, with the value \<open>Some (wire_type, tag)\<close>
  where the C function returns true and \<open>None\<close> with \<open>eof\<close> where it returns false.
\<close>

definition pb_decode_tag ::
    "'u pb_istream_t \<Rightarrow> ((pb_wire_type_t \<times> 32 word) option \<times> bool, 'u pb_istream_t) outcome" where
  "pb_decode_tag st =
     (case pb_decode_varint32 st of
        Err st \<Rightarrow> Ret (None, bytes_left st = 0) st
      | Ret temp st \<Rightarrow>
          if temp = 0 then Ret (None, True) st
          else Ret (Some (temp AND 7, drop_bit 3 temp), False) st
      | Undef \<Rightarrow> Undef
      | NoFuel \<Rightarrow> NoFuel)"

definition pb_skip_field :: "'u pb_istream_t \<Rightarrow> pb_wire_type_t \<Rightarrow> (unit, 'u pb_istream_t) outcome" where
  "pb_skip_field st wire_type =
     (if wire_type = PB_WT_VARINT then pb_skip_varint st
      else if wire_type = PB_WT_64BIT then andThen (pb_read st True 8) (\<lambda>_ st. Ret () st)
      else if wire_type = PB_WT_STRING then pb_skip_string st
      else if wire_type = PB_WT_32BIT then andThen (pb_read st True 4) (\<lambda>_ st. Ret () st)
      else ierror st ''invalid wire_type'')"

text \<open>
  \<^verbatim>\<open>read_raw_value\<close> with \<^verbatim>\<open>max_size\<close> bytes of room; it returns the bytes it put into
  the buffer. The varint loop fails without a message when the buffer is full.
\<close>

fun raw_varint_loop :: "nat \<Rightarrow> 'u pb_istream_t \<Rightarrow> (byte list, 'u pb_istream_t) outcome" where
  "raw_varint_loop 0 st = Err st"
| "raw_varint_loop (Suc room_left) st =
     andThen (pb_read st False 1) (\<lambda>bs st.
       if hd bs AND 0x80 \<noteq> 0
       then andThen (raw_varint_loop room_left st) (\<lambda>rest st. Ret (bs @ rest) st)
       else Ret bs st)"

definition read_raw_value ::
    "'u pb_istream_t \<Rightarrow> pb_wire_type_t \<Rightarrow> nat \<Rightarrow> (byte list, 'u pb_istream_t) outcome" where
  "read_raw_value st wire_type max_size =
     (if wire_type = PB_WT_VARINT then raw_varint_loop max_size st
      else if wire_type = PB_WT_64BIT then pb_read st False 8
      else if wire_type = PB_WT_32BIT then pb_read st False 4
      else ierror st ''invalid wire_type'')"

definition pb_make_string_substream ::
    "'u pb_istream_t \<Rightarrow> ('u pb_istream_t, 'u pb_istream_t) outcome" where
  "pb_make_string_substream st =
     andThen (pb_decode_varint32 st) (\<lambda>sz st.
       if bytes_left st < ucast sz then ierror st ''parent stream too short''
       else Ret (st\<lparr>bytes_left := ucast sz\<rparr>) (st\<lparr>bytes_left := bytes_left st - ucast sz\<rparr>))"

definition pb_close_string_substream ::
    "'u pb_istream_t \<Rightarrow> 'u pb_istream_t \<Rightarrow> (unit, 'u pb_istream_t) outcome" where
  "pb_close_string_substream st substream =
     (case (if bytes_left substream \<noteq> 0 then pb_read substream True (bytes_left substream)
            else Ret [] substream) of
        Ret _ substream \<Rightarrow> Ret () (st\<lparr>istate := istate substream, ierrmsg := ierrmsg substream\<rparr>)
      | Err _ \<Rightarrow> Err st
      | Undef \<Rightarrow> Undef
      | NoFuel \<Rightarrow> NoFuel)"

definition unzigzag :: "64 word \<Rightarrow> 64 word" where
  "unzigzag value = (if value AND 1 \<noteq> 0 then NOT (drop_bit 1 value) else drop_bit 1 value)"

definition pb_decode_svarint :: "'u pb_istream_t \<Rightarrow> (64 word, 'u pb_istream_t) outcome" where
  "pb_decode_svarint st =
     andThen (pb_decode_varint st) (\<lambda>value st. Ret (unzigzag value) st)"

text \<open>The fixed-width decoders return the value; their callers store it at \<^verbatim>\<open>dest\<close>.\<close>

definition pb_decode_fixed32 :: "'u pb_istream_t \<Rightarrow> (32 word, 'u pb_istream_t) outcome" where
  "pb_decode_fixed32 st =
     andThen (pb_read st False 4) (\<lambda>bytes st.
       Ret (push_bit 0 (ucast (bytes ! 0)) OR push_bit 8 (ucast (bytes ! 1)) OR
            push_bit 16 (ucast (bytes ! 2)) OR push_bit 24 (ucast (bytes ! 3))) st)"

definition pb_decode_fixed64 :: "'u pb_istream_t \<Rightarrow> (64 word, 'u pb_istream_t) outcome" where
  "pb_decode_fixed64 st =
     andThen (pb_read st False 8) (\<lambda>bytes st.
       Ret (push_bit 0 (ucast (bytes ! 0)) OR push_bit 8 (ucast (bytes ! 1)) OR
            push_bit 16 (ucast (bytes ! 2)) OR push_bit 24 (ucast (bytes ! 3)) OR
            push_bit 32 (ucast (bytes ! 4)) OR push_bit 40 (ucast (bytes ! 5)) OR
            push_bit 48 (ucast (bytes ! 6)) OR push_bit 56 (ucast (bytes ! 7))) st)"

subsection \<open>The interface to a byte source\<close>

text \<open>
  \<open>ok i n\<close>: at least \<open>n\<close> more bytes can be requested from the source in state \<open>i\<close>.
\<close>

definition sok :: "('u istate \<Rightarrow> nat \<Rightarrow> bool) \<Rightarrow> nat \<Rightarrow> 'u pb_istream_t \<Rightarrow> bool" where
  "sok ok r st \<longleftrightarrow> ok (istate st) (unat (bytes_left st) + r)"

definition used ::
    "('u istate \<Rightarrow> nat \<Rightarrow> bool) \<Rightarrow> nat \<Rightarrow> 'u pb_istream_t \<Rightarrow> 'u pb_istream_t \<Rightarrow> bool" where
  "used ok r st st' \<longleftrightarrow> sok ok r st' \<and> unat (bytes_left st') \<le> unat (bytes_left st)"

text \<open>
  The sources of the library: a memory buffer that holds the promised bytes, and a user's
  callback that returns the number of bytes it is asked for or reports an error.
\<close>

definition src_ok :: "'u istate \<Rightarrow> nat \<Rightarrow> bool" where
  "src_ok i n \<longleftrightarrow> (case i of
      Ibuf source \<Rightarrow> n \<le> length source
    | Iuser cb u \<Rightarrow> (\<forall>u k bs u'. cb u k = Some (bs, u') \<longrightarrow> length bs = k))"

definition shorter :: "'u pb_istream_t \<Rightarrow> 'u pb_istream_t \<Rightarrow> bool" where
  "shorter st st' \<longleftrightarrow> unat (bytes_left st') < unat (bytes_left st)"

locale istream_source =
  fixes ok :: "'u istate \<Rightarrow> nat \<Rightarrow> bool"
  assumes callback:
    "ok i n \<Longrightarrow> k \<le> n \<Longrightarrow>
     outp (\<lambda>bs i'. length bs = k \<and> ok i' (n - k)) (\<lambda>i'. ok i' n) (istream_callback i k)"
    and mono: "ok i n \<Longrightarrow> k \<le> n \<Longrightarrow> ok i k"
begin

lemma used_refl: "sok ok r st \<Longrightarrow> used ok r st st"
  by (simp add: used_def)

lemma used_sok: "used ok r st st' \<Longrightarrow> sok ok r st'"
  by (simp add: used_def)

lemma used_trans: "used ok r a b \<Longrightarrow> used ok r b c \<Longrightarrow> used ok r a c"
  by (simp add: used_def)

lemma outp_ierror: "sok ok r st \<Longrightarrow> outp Q (used ok r st) (ierror st msg)"
  by (simp add: ierror_def used_def sok_def)

lemma outp_then_eq:
  assumes "outp (\<lambda>a st'. P a st' \<and> used ok r st st') (used ok r st) m"
    and "\<And>a st'. m = Ret a st' \<Longrightarrow> P a st' \<Longrightarrow> used ok r st st' \<Longrightarrow> outp (\<lambda>b st''. Q b st'' \<and> used ok r st' st'') (used ok r st') (k a st')"
  shows "outp (\<lambda>b st''. Q b st'' \<and> used ok r st st'') (used ok r st) (andThen m k)"
  using assms by (cases m) (auto elim!: outp_mono intro: used_trans)

lemma outp_then:
  assumes "outp (\<lambda>a st'. P a st' \<and> used ok r st st') (used ok r st) m"
    and "\<And>a st'. P a st' \<Longrightarrow> used ok r st st' \<Longrightarrow>
           outp (\<lambda>b st''. Q b st'' \<and> used ok r st' st'') (used ok r st') (k a st')"
  shows "outp (\<lambda>b st''. Q b st'' \<and> used ok r st st'') (used ok r st) (andThen m k)"
  using assms by (rule outp_then_eq)

lemma read_buf_spec:
  assumes "sok ok r st"
  shows "outp (\<lambda>bs st'. (length bs = unat n \<and> bytes_left st' = bytes_left st - n \<and> n \<le> bytes_left st) \<and>
                used ok r st st') (used ok r st) (pb_read_buf st n)"
proof (cases "bytes_left st < n")
  case True
  then show ?thesis using outp_ierror [OF assms] by (simp add: pb_read_buf_def)
next
  case False
  then have le: "n \<le> bytes_left st" by simp
  then have nat: "unat n \<le> unat (bytes_left st)" by (simp add: word_le_nat_alt)
  have cb: "outp (\<lambda>bs i'. length bs = unat n \<and> ok i' (unat (bytes_left st) + r - unat n))
      (\<lambda>i'. ok i' (unat (bytes_left st) + r)) (istream_callback (istate st) (unat n))"
    using assms nat by (intro callback) (auto simp: sok_def)
  have "unat (bytes_left st - n) + r = unat (bytes_left st) + r - unat n"
    using le nat by (simp add: unat_sub)
  with cb le nat show ?thesis
    by (cases "istream_callback (istate st) (unat n)")
      (simp_all add: pb_read_buf_def False used_def sok_def ierror_def unat_sub)
qed

lemma readbyte_spec:
  assumes "sok ok r st"
  shows "outp (\<lambda>b st'. shorter st st' \<and> used ok r st st') (used ok r st) (pb_readbyte st)"
proof (cases "bytes_left st = 0")
  case True
  then show ?thesis using outp_ierror [OF assms] by (simp add: pb_readbyte_def)
next
  case False
  then have le: "1 \<le> bytes_left st" by (rule word_one_le)
  then have nat: "1 \<le> unat (bytes_left st)" by (simp add: word_le_nat_alt)
  have cb: "outp (\<lambda>bs i'. length bs = 1 \<and> ok i' (unat (bytes_left st) + r - 1))
      (\<lambda>i'. ok i' (unat (bytes_left st) + r)) (istream_callback (istate st) 1)"
    using assms nat by (intro callback) (auto simp: sok_def)
  have "unat (bytes_left st - 1) = unat (bytes_left st) - 1" using le by (simp add: unat_sub)
  with cb le nat show ?thesis
    by (cases "istream_callback (istate st) 1")
      (simp_all add: pb_readbyte_def False used_def sok_def ierror_def shorter_def)
qed

lemma read_skip_spec:
  "sok ok r st \<Longrightarrow> outp (\<lambda>bs st'. n \<le> bytes_left st \<and> bytes_left st' = bytes_left st - n \<and> used ok r st st')
     (used ok r st) (pb_read_skip st n)"
proof (induction st n rule: pb_read_skip.induct)
  case (1 st n)
  show ?case
  proof (cases "16 < n")
    case True
    have step: "outp (\<lambda>bs st''. (n \<le> bytes_left st \<and> bytes_left st'' = bytes_left st - n) \<and> used ok r st' st'')
        (used ok r st') (pb_read_skip st' (n - 16))"
      if eq: "pb_read_buf st 16 = Ret bs st'" and
        st': "length bs = unat (16 :: size_t) \<and> bytes_left st' = bytes_left st - 16 \<and> 16 \<le> bytes_left st"
        "used ok r st st'" for bs st'
    proof -
      have "n - 16 \<le> bytes_left st - 16 \<longleftrightarrow> n \<le> bytes_left st"
        using True st'(1) by (simp add: word_le_nat_alt word_less_nat_alt unat_sub [unfolded word_le_nat_alt] le_diff_iff)
      with "1.IH" [OF True eq used_sok [OF st'(2)]] st' show ?thesis
        by (auto elim!: outp_mono simp: word_le_nat_alt)
    qed
    show ?thesis
      using outp_then_eq [OF read_buf_spec [OF "1.prems", of 16] step] True
      by (simp add: pb_read_skip.simps [of st n] conj_assoc)
  next
    case False
    show ?thesis
      using read_buf_spec [OF "1.prems", of n] False
      by (auto simp: pb_read_skip.simps [of st n] elim!: outp_mono)
  qed
qed

lemma shorter_used: "shorter st st' \<Longrightarrow> used ok r st' st'' \<Longrightarrow> shorter st st''"
  by (simp add: shorter_def used_def)

lemma used_shorter: "used ok r st st' \<Longrightarrow> shorter st' st'' \<Longrightarrow> shorter st st''"
  by (simp add: shorter_def used_def)

lemma read_spec:
  assumes "sok ok r st"
  shows "outp (\<lambda>bs st'. (n \<le> bytes_left st \<and> bytes_left st' = bytes_left st - n) \<and> used ok r st st')
           (used ok r st) (pb_read st b n)"
  using read_buf_spec [OF assms, of n] read_skip_spec [OF assms, of n]
  by (auto simp: pb_read_def elim!: outp_mono)

lemma read_length:
  assumes "sok ok r st"
  shows "outp (\<lambda>bs st'. (length bs = unat n \<and> n \<le> bytes_left st \<and> bytes_left st' = bytes_left st - n) \<and> used ok r st st')
           (used ok r st) (pb_read st False n)"
  using read_buf_spec [OF assms, of n] by (auto simp: pb_read_def elim!: outp_mono)

lemma read_nonzero:
  assumes "sok ok r st" and "0 < n"
  shows "outp (\<lambda>bs st'. (length bs = unat n \<and> shorter st st') \<and> used ok r st st') (used ok r st) (pb_read st False n)"
  using read_length [OF assms(1), of n] assms(2)
  by (auto elim!: outp_mono simp: shorter_def intro: unat_sub_less)

lemma varint32_loop_spec:
  "sok ok r st \<Longrightarrow> outp (\<lambda>v st'. shorter st st' \<and> used ok r st st') (used ok r st) (varint32_loop st w b)"
proof (induction st w b rule: varint32_loop.induct)
  case (1 st w b)
  show ?case
  proof (cases "32 \<le> b")
    case True
    then show ?thesis using outp_ierror [OF "1.prems"] by (simp add: varint32_loop.simps [of st w b])
  next
    case False
    have "outp (\<lambda>v st''. shorter st st'' \<and> used ok r st st'') (used ok r st)
       (andThen (pb_readbyte st) (\<lambda>byte st.
        let result = w OR push_bit b (ucast (byte AND 0x7F)) in
        if byte AND 0x80 \<noteq> 0 then varint32_loop st result (b + 7) else Ret result st))"
    proof (rule outp_then_eq [OF readbyte_spec [OF "1.prems"]])
      fix byte st'
      assume eq: "pb_readbyte st = Ret byte st'" and st': "shorter st st'" "used ok r st st'"
      show "outp (\<lambda>v st''. shorter st st'' \<and> used ok r st' st'') (used ok r st')
        (let result = w OR push_bit b (ucast (byte AND 0x7F)) in
          if byte AND 0x80 \<noteq> 0 then varint32_loop st' result (b + 7) else Ret result st')"
        using "1.IH" [OF False eq refl _ used_sok [OF st'(2)]] st'
        by (auto simp: Let_def used_refl used_sok elim!: outp_mono intro: shorter_used)
    qed
    with False show ?thesis by (simp add: varint32_loop.simps [of st w b])
  qed
qed

lemma varint32_spec:
  assumes "sok ok r st"
  shows "outp (\<lambda>v st'. shorter st st' \<and> used ok r st st') (used ok r st) (pb_decode_varint32 st)"
  unfolding pb_decode_varint32_def
proof (rule outp_then [OF readbyte_spec [OF assms]])
  fix byte st' assume st': "shorter st st'" "used ok r st st'"
  show "outp (\<lambda>v st''. shorter st st'' \<and> used ok r st' st'') (used ok r st')
     (if byte AND 0x80 = 0 then Ret (ucast byte) st' else varint32_loop st' (ucast (byte AND 0x7F)) 7)"
    using varint32_loop_spec [OF used_sok [OF st'(2)], of "ucast (byte AND 0x7F)" 7] st'
    by (auto simp: used_refl used_sok elim!: outp_mono intro: shorter_used)
qed

lemma varint_loop_spec:
  "sok ok r st \<Longrightarrow> outp (\<lambda>v st'. shorter st st' \<and> used ok r st st') (used ok r st) (varint_loop st w b)"
proof (induction st w b rule: varint_loop.induct)
  case (1 st w b)
  show ?case
  proof (cases "64 \<le> b")
    case True
    then show ?thesis using outp_ierror [OF "1.prems"] by (simp add: varint_loop.simps [of st w b])
  next
    case False
    have "outp (\<lambda>v st''. shorter st st'' \<and> used ok r st st'') (used ok r st)
       (andThen (pb_readbyte st) (\<lambda>byte st.
        let result = w OR push_bit b (ucast (byte AND 0x7F)) in
        if byte AND 0x80 \<noteq> 0 then varint_loop st result (b + 7) else Ret result st))"
    proof (rule outp_then_eq [OF readbyte_spec [OF "1.prems"]])
      fix byte st'
      assume eq: "pb_readbyte st = Ret byte st'" and st': "shorter st st'" "used ok r st st'"
      show "outp (\<lambda>v st''. shorter st st'' \<and> used ok r st' st'') (used ok r st')
        (let result = w OR push_bit b (ucast (byte AND 0x7F)) in
          if byte AND 0x80 \<noteq> 0 then varint_loop st' result (b + 7) else Ret result st')"
        using "1.IH" [OF False eq refl _ used_sok [OF st'(2)]] st'
        by (auto simp: Let_def used_refl used_sok elim!: outp_mono intro: shorter_used)
    qed
    with False show ?thesis by (simp add: varint_loop.simps [of st w b])
  qed
qed

lemma varint_spec:
  "sok ok r st \<Longrightarrow> outp (\<lambda>v st'. shorter st st' \<and> used ok r st st') (used ok r st) (pb_decode_varint st)"
  unfolding pb_decode_varint_def by (rule varint_loop_spec)

lemma svarint_spec:
  assumes "sok ok r st"
  shows "outp (\<lambda>v st'. shorter st st' \<and> used ok r st st') (used ok r st) (pb_decode_svarint st)"
  unfolding pb_decode_svarint_def
  by (rule outp_then [OF varint_spec [OF assms]]) (auto simp: used_refl used_sok)

lemma fixed32_spec:
  assumes "sok ok r st"
  shows "outp (\<lambda>v st'. shorter st st' \<and> used ok r st st') (used ok r st) (pb_decode_fixed32 st)"
  unfolding pb_decode_fixed32_def
  by (rule outp_then [OF read_nonzero [OF assms]]) (auto simp: used_refl used_sok)

lemma fixed64_spec:
  assumes "sok ok r st"
  shows "outp (\<lambda>v st'. shorter st st' \<and> used ok r st st') (used ok r st) (pb_decode_fixed64 st)"
  unfolding pb_decode_fixed64_def
  by (rule outp_then [OF read_nonzero [OF assms]]) (auto simp: used_refl used_sok)

lemma skip_varint_spec:
  "sok ok r st \<Longrightarrow> outp (\<lambda>v st'. True \<and> used ok r st st') (used ok r st) (pb_skip_varint st)"
proof (induction st rule: pb_skip_varint.induct)
  case (1 st)
  have "outp (\<lambda>v st'. True \<and> used ok r st st') (used ok r st)
    (andThen (pb_read st False 1) (\<lambda>bs st. if hd bs AND 0x80 \<noteq> 0 then pb_skip_varint st else Ret () st))"
  proof (rule outp_then_eq [OF read_length [OF "1.prems"]])
    fix bs st' assume eq: "pb_read st False 1 = Ret bs st'" and u: "used ok r st st'"
    show "outp (\<lambda>v st''. True \<and> used ok r st' st'') (used ok r st')
        (if hd bs AND 0x80 \<noteq> 0 then pb_skip_varint st' else Ret () st')"
      using "1.IH" [OF eq _ used_sok [OF u]] u by (auto simp: used_refl used_sok)
  qed
  then show ?case by (simp add: pb_skip_varint.simps [of st])
qed

lemma skip_string_spec:
  assumes "sok ok r st"
  shows "outp (\<lambda>v st'. True \<and> used ok r st st') (used ok r st) (pb_skip_string st)"
  unfolding pb_skip_string_def
proof (rule outp_then [OF varint32_spec [OF assms]])
  fix n st' assume "used ok r st st'"
  then have "sok ok r st'" by (rule used_sok)
  then show "outp (\<lambda>v st''. True \<and> used ok r st' st'') (used ok r st')
     (andThen (pb_read st' True (ucast n)) (\<lambda>_ st. Ret () st))"
    by (rule outp_then [OF read_spec]) (auto simp: used_refl used_sok)
qed

lemma skip_field_spec:
  assumes "sok ok r st"
  shows "outp (\<lambda>v st'. True \<and> used ok r st st') (used ok r st) (pb_skip_field st wt)"
proof -
  have rd: "outp (\<lambda>v st'. True \<and> used ok r st st') (used ok r st) (andThen (pb_read st True n) (\<lambda>_ st. Ret () st))" for n
    by (rule outp_then [OF read_spec [OF assms]]) (auto simp: used_refl used_sok)
  show ?thesis
    unfolding pb_skip_field_def
    using rd skip_varint_spec [OF assms] skip_string_spec [OF assms] outp_ierror [OF assms] by auto
qed

lemma decode_tag_spec:
  assumes "sok ok r st"
  shows "outp (\<lambda>(v, eof) st'. (v \<noteq> None \<longrightarrow> shorter st st') \<and> used ok r st st') (\<lambda>_. False) (pb_decode_tag st)"
  using varint32_spec [OF assms]
  by (cases "pb_decode_varint32 st") (auto simp: pb_decode_tag_def)

lemma raw_varint_spec:
  "sok ok r st \<Longrightarrow>
   outp (\<lambda>bs st'. (length bs \<le> n \<and> bs \<noteq> []) \<and> used ok r st st') (used ok r st) (raw_varint_loop n st)"
proof (induction n arbitrary: st)
  case 0
  then show ?case by (simp add: used_refl)
next
  case (Suc n)
  show ?case
    unfolding raw_varint_loop.simps
  proof (rule outp_then [OF read_length [OF Suc.prems]])
    fix bs :: "byte list" and st' assume a: "length bs = unat (1 :: size_t) \<and> 1 \<le> bytes_left st \<and> bytes_left st' = bytes_left st - 1"
      and u: "used ok r st st'"
    have rest: "outp (\<lambda>bs' st''. (length bs' \<le> Suc n \<and> bs' \<noteq> []) \<and> used ok r st' st'') (used ok r st')
       (andThen (raw_varint_loop n st') (\<lambda>rest st. Ret (bs @ rest) st))"
      by (rule outp_then [OF Suc.IH [OF used_sok [OF u]]]) (use a in \<open>auto simp: used_refl used_sok\<close>)
    then show "outp (\<lambda>bs' st''. (length bs' \<le> Suc n \<and> bs' \<noteq> []) \<and> used ok r st' st'') (used ok r st')
       (if hd bs AND 0x80 \<noteq> 0 then andThen (raw_varint_loop n st') (\<lambda>rest st. Ret (bs @ rest) st) else Ret bs st')"
      using a u by (auto simp: used_refl used_sok)
  qed
qed

lemma make_substream_spec:
  assumes "sok ok r st"
  shows "outp (\<lambda>sub st'. (sok ok (r + unat (bytes_left st')) sub \<and> shorter st sub \<and> shorter st st') \<and> used ok r st st')
           (used ok r st) (pb_make_string_substream st)"
  unfolding pb_make_string_substream_def
proof (rule outp_then [OF varint32_spec [OF assms]])
  fix sz :: "32 word" and st' assume st': "shorter st st'" "used ok r st st'"
  have sok': "sok ok r st'" using st'(2) by (rule used_sok)
  show "outp (\<lambda>sub st''. (sok ok (r + unat (bytes_left st'')) sub \<and> shorter st sub \<and> shorter st st'') \<and> used ok r st' st'')
     (used ok r st')
     (if bytes_left st' < ucast sz then ierror st' ''parent stream too short''
      else Ret (st'\<lparr>bytes_left := ucast sz\<rparr>) (st'\<lparr>bytes_left := bytes_left st' - ucast sz\<rparr>))"
  proof (cases "bytes_left st' < ucast sz")
    case True
    then show ?thesis using outp_ierror [OF sok'] by simp
  next
    case False
    then have le: "ucast sz \<le> bytes_left st'" by simp
    then have n: "unat sz \<le> unat (bytes_left st')" by (simp add: word_le_nat_alt)
    have sub: "unat (bytes_left st' - ucast sz) = unat (bytes_left st') - unat sz"
      using le by (simp add: unat_sub)
    have m: "ok (istate st') (unat (bytes_left st') + r)" using sok' by (simp add: sok_def)
    have "ok (istate st') (unat (bytes_left st') - unat sz + r)" by (rule mono [OF m]) simp
    with False n sub m st'(1) show ?thesis
      by (simp add: sok_def used_def shorter_def add.assoc add.commute)
  qed
qed

lemma close_substream_spec:
  assumes "sok ok (r + unat (bytes_left st)) sub"
  shows "outp (\<lambda>_ st'. bytes_left st' = bytes_left st \<and> sok ok r st') (\<lambda>st'. st' = st)
           (pb_close_string_substream st sub)"
proof -
  have "outp (\<lambda>_ sub'. bytes_left sub' = 0 \<and> sok ok (r + unat (bytes_left st)) sub') (\<lambda>_. True)
     (if bytes_left sub \<noteq> 0 then pb_read sub True (bytes_left sub) else Ret [] sub)"
    using read_spec [OF assms, of "bytes_left sub" True] assms
    by (auto simp: used_def elim!: outp_mono)
  then show ?thesis
    unfolding pb_close_string_substream_def
    by (cases "if bytes_left sub \<noteq> 0 then pb_read sub True (bytes_left sub) else Ret [] sub")
      (auto simp: sok_def add.commute)
qed

end

subsection \<open>The sources of the library\<close>

interpretation src: istream_source src_ok
proof
  fix i :: "'u istate" and n k :: nat
  assume "src_ok i n" and "k \<le> n"
  then show "outp (\<lambda>bs i'. length bs = k \<and> src_ok i' (n - k)) (\<lambda>i'. src_ok i' n) (istream_callback i k)"
    by (auto simp: src_ok_def istream_callback_def buf_read_def split: istate.splits option.splits)
next
  fix i :: "'u istate" and n k :: nat
  assume "src_ok i n" and "k \<le> n"
  then show "src_ok i k" by (auto simp: src_ok_def split: istate.splits)
qed

end
