(* ===== verification/PB_Decode.thy ===== *)
theory PB_Decode
  imports PB_Istream PB_Iter
begin

text \<open>
  The message decoder of \<^verbatim>\<open>pb_decode.c\<close>: field decoders, static, callback and extension
  fields, default values, and whole messages with the check of required fields. The build does not
  define \<^verbatim>\<open>PB_ENABLE_MALLOC\<close>, so the branches for pointer fields are the ones that report
  \<^verbatim>\<open>no malloc support\<close>.

  The decoder's state is the input stream and the memory that holds the message. Code outside the
  library is a parameter, the record \<open>dec_env\<close>: descriptor arrays by address, the user's field
  callbacks and extension decoders by function address. As in the encoder, the decoder for
  submessages is an argument of the functions below \<open>pb_decode_noinit\<close>, which ties the knot with
  fuel for the nesting depth. The two loops that consume input take their fuel from the number of
  bytes left, one unit per byte and one for the exit.
\<close>

record 'u dstate =
  dstream :: "'u pb_istream_t"
  dmem :: mem

record 'u dec_env =
  ddesc :: "addr \<Rightarrow> pb_field_t list"
  dec_callback :: "addr \<Rightarrow> pb_field_t \<Rightarrow> addr \<Rightarrow> 'u dstate \<Rightarrow> (unit, 'u dstate) outcome"
  ext_decode :: "addr \<Rightarrow> addr \<Rightarrow> 32 word \<Rightarrow> pb_wire_type_t \<Rightarrow> 'u dstate \<Rightarrow> (unit, 'u dstate) outcome"

type_synonym 'u decoder = "pb_field_t \<Rightarrow> addr \<Rightarrow> 'u dstate \<Rightarrow> (unit, 'u dstate) outcome"

type_synonym 'u msg_decoder = "pb_field_t list \<Rightarrow> addr \<Rightarrow> 'u dstate \<Rightarrow> (unit, 'u dstate) outcome"

subsection \<open>Stream and memory operations on the decoder's state\<close>

definition on_stream ::
    "('u pb_istream_t \<Rightarrow> ('a, 'u pb_istream_t) outcome) \<Rightarrow> 'u dstate \<Rightarrow> ('a, 'u dstate) outcome" where
  "on_stream g s =
     (case g (dstream s) of
        Ret a st \<Rightarrow> Ret a (s\<lparr>dstream := st\<rparr>)
      | Err st \<Rightarrow> Err (s\<lparr>dstream := st\<rparr>)
      | Undef \<Rightarrow> Undef
      | NoFuel \<Rightarrow> NoFuel)"

definition on_mem :: "(mem \<Rightarrow> ('a, mem) outcome) \<Rightarrow> 'u dstate \<Rightarrow> ('a, 'u dstate) outcome" where
  "on_mem g s =
     (case g (dmem s) of
        Ret a m \<Rightarrow> Ret a (s\<lparr>dmem := m\<rparr>)
      | Err m \<Rightarrow> Err (s\<lparr>dmem := m\<rparr>)
      | Undef \<Rightarrow> Undef
      | NoFuel \<Rightarrow> NoFuel)"

definition derror :: "'u dstate \<Rightarrow> string \<Rightarrow> ('a, 'u dstate) outcome" where
  "derror s msg = on_stream (\<lambda>st. ierror st msg) s"

definition mem_put :: "addr \<Rightarrow> byte list \<Rightarrow> mem \<Rightarrow> (unit, mem) outcome" where
  "mem_put a bs m = deref (store_bytes m a bs) (\<lambda>m'. Ret () m')"

definition put :: "addr \<Rightarrow> byte list \<Rightarrow> 'u dstate \<Rightarrow> (unit, 'u dstate) outcome" where
  "put a bs s = on_mem (mem_put a bs) s"

text \<open>\<^verbatim>\<open>pb_read(stream, buf, count)\<close> with a buffer in memory.\<close>

definition read_into :: "addr \<Rightarrow> size_t \<Rightarrow> 'u dstate \<Rightarrow> (unit, 'u dstate) outcome" where
  "read_into buf count s =
     andThen (on_stream (\<lambda>st. pb_read st (buf = 0) count) s) (\<lambda>bs s.
       if buf = 0 then Ret () s else put buf bs s)"

subsection \<open>Default values\<close>

definition iter_from_extension :: "(addr \<Rightarrow> pb_field_t list) \<Rightarrow> mem \<Rightarrow> addr \<Rightarrow> pb_field_iter_t option" where
  "iter_from_extension D m extension =
     (case load_ptr m (ext_type extension) of None \<Rightarrow> None | Some ty \<Rightarrow>
      (case load_ptr m (exttype_arg ty) of None \<Rightarrow> None | Some arg \<Rightarrow>
       (case load_ptr m (ext_dest extension) of None \<Rightarrow> None | Some dest \<Rightarrow>
          let it = snd (pb_field_iter_begin (D arg) dest);
              it = it\<lparr>pData := dest, pSize := ext_found extension\<rparr>
          in Some (if PB_ATYPE (ftype (field_at (D arg) 0)) = PB_ATYPE_POINTER
                   then it\<lparr>pData := ext_dest extension\<rparr> else it))))"

definition message_defaults ::
    "(pb_field_iter_t \<Rightarrow> mem \<Rightarrow> (unit, mem) outcome) \<Rightarrow> pb_field_t list \<Rightarrow> addr \<Rightarrow> mem \<Rightarrow> (unit, mem) outcome" where
  "message_defaults set_default fs dest m =
     (case pb_field_iter_begin fs dest of (ok, it) \<Rightarrow>
        if \<not> ok then Ret () m else iter_for (length fs) set_default it m)"

fun extension_defaults ::
    "nat \<Rightarrow> (addr \<Rightarrow> pb_field_t list) \<Rightarrow> (pb_field_iter_t \<Rightarrow> mem \<Rightarrow> (unit, mem) outcome) \<Rightarrow> addr \<Rightarrow> mem \<Rightarrow> (unit, mem) outcome" where
  "extension_defaults k D set_default ext m =
     (if ext = 0 then Ret () m
      else case k of 0 \<Rightarrow> NoFuel
      | Suc k \<Rightarrow>
          andThen (mem_put (ext_found ext) [0] m) (\<lambda>_ m.
            deref (iter_from_extension D m ext) (\<lambda>ext_iter.
              andThen (set_default ext_iter m) (\<lambda>_ m.
                deref (load_ptr m (ext_next ext)) (\<lambda>next.
                  extension_defaults k D set_default next m)))))"

primrec pb_field_set_to_default ::
    "nat \<Rightarrow> (addr \<Rightarrow> pb_field_t list) \<Rightarrow> pb_field_iter_t \<Rightarrow> mem \<Rightarrow> (unit, mem) outcome" where
  "pb_field_set_to_default 0 = (\<lambda>D it m. NoFuel)"
| "pb_field_set_to_default (Suc n) = (\<lambda>D it m.
     let f = cur it; type = ftype f in
     if PB_LTYPE type = PB_LTYPE_EXTENSION then
       deref (load_ptr m (pData it)) (\<lambda>ext.
         extension_defaults n D (pb_field_set_to_default n D) ext m)
     else if PB_ATYPE type = PB_ATYPE_STATIC then
       if PB_HTYPE type \<noteq> PB_HTYPE_OPTIONAL \<and>
          (PB_HTYPE type = PB_HTYPE_REPEATED \<or> PB_HTYPE type = PB_HTYPE_ONEOF)
       then mem_put (pSize it) (word_le 4 (0 :: 32 word)) m
       else
         andThen (if PB_HTYPE type = PB_HTYPE_OPTIONAL \<and> pSize it \<noteq> pData it
                  then mem_put (pSize it) [0] m else Ret () m) (\<lambda>_ m.
           if PB_LTYPE type = PB_LTYPE_SUBMESSAGE then
             (if ptr f = 0 then Undef
              else message_defaults (pb_field_set_to_default n D) (D (ptr f)) (pData it) m)
           else if ptr f \<noteq> 0 then
             deref (load_bytes m (ptr f) (unat (data_size f))) (\<lambda>bs. mem_put (pData it) bs m)
           else mem_put (pData it) (replicate (unat (data_size f)) 0) m)
     else if PB_ATYPE type = PB_ATYPE_POINTER then
       andThen (mem_put (pData it) (word_le 8 (0 :: 64 word)) m) (\<lambda>_ m.
         if PB_HTYPE type = PB_HTYPE_REPEATED \<or> PB_HTYPE type = PB_HTYPE_ONEOF
         then mem_put (pSize it) (word_le 4 (0 :: 32 word)) m else Ret () m)
     else Ret () m)"

definition pb_message_set_to_defaults ::
    "nat \<Rightarrow> (addr \<Rightarrow> pb_field_t list) \<Rightarrow> pb_field_t list \<Rightarrow> addr \<Rightarrow> mem \<Rightarrow> (unit, mem) outcome" where
  "pb_message_set_to_defaults n D fs dest m = message_defaults (pb_field_set_to_default n D) fs dest m"

subsection \<open>Field decoders\<close>

text \<open>
  \<^verbatim>\<open>clamped = *(intN_t*)dest = (intN_t)svalue\<close> for the width that \<^verbatim>\<open>data_size\<close> names;
  the call returns \<^verbatim>\<open>clamped\<close>.
\<close>

definition put_signed :: "pb_field_t \<Rightarrow> addr \<Rightarrow> int \<Rightarrow> 'u dstate \<Rightarrow> (int, 'u dstate) outcome" where
  "put_signed f dest svalue s =
     (if data_size f = 8 then
        andThen (put dest (word_le 8 (word_of_int svalue :: 64 word)) s)
          (\<lambda>_ s. Ret (sint (word_of_int svalue :: 64 word)) s)
      else if data_size f = 4 then
        andThen (put dest (word_le 4 (word_of_int svalue :: 32 word)) s)
          (\<lambda>_ s. Ret (sint (word_of_int svalue :: 32 word)) s)
      else if data_size f = 2 then
        andThen (put dest (word_le 2 (word_of_int svalue :: 16 word)) s)
          (\<lambda>_ s. Ret (sint (word_of_int svalue :: 16 word)) s)
      else if data_size f = 1 then
        andThen (put dest (word_le 1 (word_of_int svalue :: 8 word)) s)
          (\<lambda>_ s. Ret (sint (word_of_int svalue :: 8 word)) s)
      else derror s ''invalid data_size'')"

definition put_unsigned :: "pb_field_t \<Rightarrow> addr \<Rightarrow> 64 word \<Rightarrow> 'u dstate \<Rightarrow> (64 word, 'u dstate) outcome" where
  "put_unsigned f dest val s =
     (if data_size f = 8 then
        andThen (put dest (word_le 8 val) s) (\<lambda>_ s. Ret val s)
      else if data_size f = 4 then
        andThen (put dest (word_le 4 (ucast val :: 32 word)) s)
          (\<lambda>_ s. Ret (ucast (ucast val :: 32 word)) s)
      else if data_size f = 2 then
        andThen (put dest (word_le 2 (ucast val :: 16 word)) s)
          (\<lambda>_ s. Ret (ucast (ucast val :: 16 word)) s)
      else if data_size f = 1 then
        andThen (put dest (word_le 1 (ucast val :: 8 word)) s)
          (\<lambda>_ s. Ret (ucast (ucast val :: 8 word)) s)
      else derror s ''invalid data_size'')"

definition pb_dec_varint :: "'u decoder" where
  "pb_dec_varint f dest s =
     andThen (on_stream pb_decode_varint s) (\<lambda>val s.
       let svalue = (if data_size f = 8 then sint val else sint (ucast val :: 32 word)) in
       andThen (put_signed f dest svalue s) (\<lambda>clamped s.
         if clamped \<noteq> svalue then derror s ''integer too large'' else Ret () s))"

definition pb_dec_uvarint :: "'u decoder" where
  "pb_dec_uvarint f dest s =
     andThen (on_stream pb_decode_varint s) (\<lambda>val s.
       andThen (put_unsigned f dest val s) (\<lambda>clamped s.
         if clamped \<noteq> val then derror s ''integer too large'' else Ret () s))"

definition pb_dec_svarint :: "'u decoder" where
  "pb_dec_svarint f dest s =
     andThen (on_stream pb_decode_svarint s) (\<lambda>val s.
       andThen (put_signed f dest (sint val) s) (\<lambda>clamped s.
         if clamped \<noteq> sint val then derror s ''integer too large'' else Ret () s))"

definition pb_dec_fixed32 :: "'u decoder" where
  "pb_dec_fixed32 f dest s =
     andThen (on_stream pb_decode_fixed32 s) (\<lambda>val s. put dest (word_le 4 val) s)"

definition pb_dec_fixed64 :: "'u decoder" where
  "pb_dec_fixed64 f dest s =
     andThen (on_stream pb_decode_fixed64 s) (\<lambda>val s. put dest (word_le 8 val) s)"

definition pb_dec_bytes :: "'u decoder" where
  "pb_dec_bytes f dest s =
     andThen (on_stream pb_decode_varint32 s) (\<lambda>sz s.
       if sz > PB_SIZE_MAX then derror s ''bytes overflow''
       else
         let alloc_size = PB_BYTES_ARRAY_T_ALLOCSIZE sz in
         if ucast sz > alloc_size then derror s ''size too large''
         else if PB_ATYPE (ftype f) = PB_ATYPE_POINTER then derror s ''no malloc support''
         else if alloc_size > ucast (data_size f) then derror s ''bytes overflow''
         else
           andThen (put (bytes_size dest) (word_le 4 sz) s) (\<lambda>_ s.
             read_into (bytes_bytes dest) (ucast sz) s))"

text \<open>
  \<^verbatim>\<open>size + 1\<close> is computed in 32 bits. The terminator is stored whether or not the read
  succeeds.
\<close>

definition pb_dec_string :: "'u decoder" where
  "pb_dec_string f dest s =
     andThen (on_stream pb_decode_varint32 s) (\<lambda>sz s.
       let alloc_size :: size_t = ucast (sz + 1) in
       if alloc_size < ucast sz then derror s ''size too large''
       else if PB_ATYPE (ftype f) = PB_ATYPE_POINTER then derror s ''no malloc support''
       else if alloc_size > ucast (data_size f) then derror s ''string overflow''
       else
         let terminate = put (dest + uint sz) [0] in
         (case read_into dest (ucast sz) s of
            Ret _ s \<Rightarrow> terminate s
          | Err s \<Rightarrow> andThen (terminate s) (\<lambda>_ s. Err s)
          | Undef \<Rightarrow> Undef
          | NoFuel \<Rightarrow> NoFuel))"

definition pb_dec_fixed_length_bytes :: "'u decoder" where
  "pb_dec_fixed_length_bytes f dest s =
     andThen (on_stream pb_decode_varint32 s) (\<lambda>sz s.
       if sz > PB_SIZE_MAX then derror s ''bytes overflow''
       else if sz = 0 then put dest (replicate (unat (data_size f)) 0) s
       else if sz \<noteq> data_size f then derror s ''incorrect fixed length bytes size''
       else read_into dest (ucast (data_size f)) s)"

text \<open>
  Run a decoder on a substream, then close it: \<^verbatim>\<open>status = f(&substream, ...);
  if (!pb_close_string_substream(...)) return false; return status;\<close>
\<close>

definition close_with :: "'u pb_istream_t \<Rightarrow> bool \<Rightarrow> 'u dstate \<Rightarrow> (unit, 'u dstate) outcome" where
  "close_with st status ss =
     andThen (on_stream (\<lambda>st. pb_close_string_substream st (dstream ss)) (ss\<lparr>dstream := st\<rparr>))
       (\<lambda>_ s. if status then Ret () s else Err s)"

definition in_substream ::
    "('u dstate \<Rightarrow> (unit, 'u dstate) outcome) \<Rightarrow> 'u pb_istream_t \<Rightarrow> 'u dstate \<Rightarrow> (unit, 'u dstate) outcome" where
  "in_substream g sub s =
     (case g (s\<lparr>dstream := sub\<rparr>) of
        Ret _ ss \<Rightarrow> close_with (dstream s) True ss
      | Err ss \<Rightarrow> close_with (dstream s) False ss
      | Undef \<Rightarrow> Undef
      | NoFuel \<Rightarrow> NoFuel)"

text \<open>\<^verbatim>\<open>pb_decode\<close> over a given \<^verbatim>\<open>pb_decode_noinit\<close>.\<close>

definition decode_init :: "nat \<Rightarrow> 'u dec_env \<Rightarrow> 'u msg_decoder \<Rightarrow> 'u msg_decoder" where
  "decode_init n E noinit fs dest s =
     andThen (on_mem (pb_message_set_to_defaults n (ddesc E) fs dest) s) (\<lambda>_ s. noinit fs dest s)"

definition pb_dec_submessage :: "nat \<Rightarrow> 'u dec_env \<Rightarrow> 'u msg_decoder \<Rightarrow> 'u decoder" where
  "pb_dec_submessage n E noinit f dest s =
     andThen (on_stream pb_make_string_substream s) (\<lambda>sub s.
       if ptr f = 0 then derror s ''invalid field descriptor''
       else if PB_HTYPE (ftype f) = PB_HTYPE_REPEATED
       then in_substream (decode_init n E noinit (ddesc E (ptr f)) dest) sub s
       else in_substream (noinit (ddesc E (ptr f)) dest) sub s)"

definition PB_DECODERS :: "nat \<Rightarrow> 'u dec_env \<Rightarrow> 'u msg_decoder \<Rightarrow> pb_type_t \<Rightarrow> 'u decoder" where
  "PB_DECODERS n E noinit lt =
     (if lt = PB_LTYPE_VARINT then pb_dec_varint
      else if lt = PB_LTYPE_UVARINT then pb_dec_uvarint
      else if lt = PB_LTYPE_SVARINT then pb_dec_svarint
      else if lt = PB_LTYPE_FIXED32 then pb_dec_fixed32
      else if lt = PB_LTYPE_FIXED64 then pb_dec_fixed64
      else if lt = PB_LTYPE_BYTES then pb_dec_bytes
      else if lt = PB_LTYPE_STRING then pb_dec_string
      else if lt = PB_LTYPE_SUBMESSAGE then pb_dec_submessage n E noinit
      else if lt = PB_LTYPE_FIXED_LENGTH_BYTES then pb_dec_fixed_length_bytes
      else (\<lambda>f dest s. Undef))"

subsection \<open>Decode a single field\<close>

text \<open>The address of an array item; \<^verbatim>\<open>data_size * (*size)\<close> is a 32-bit product.\<close>

definition ditem :: "pb_field_iter_t \<Rightarrow> 32 word \<Rightarrow> addr" where
  "ditem it sz = pData it + uint (data_size (cur it) * sz)"

fun packed_loop :: "nat \<Rightarrow> 'u decoder \<Rightarrow> pb_field_iter_t \<Rightarrow> 'u dstate \<Rightarrow> (unit, 'u dstate) outcome" where
  "packed_loop k func it s =
     (if bytes_left (dstream s) = 0 then Ret () s
      else case k of 0 \<Rightarrow> NoFuel
      | Suc k \<Rightarrow>
          deref (load_u32 (dmem s) (pSize it)) (\<lambda>sz.
            if sz < array_size (cur it) then
              andThen (func (cur it) (ditem it sz) s) (\<lambda>_ s.
                deref (load_u32 (dmem s) (pSize it)) (\<lambda>sz.
                  andThen (put (pSize it) (word_le 4 (sz + 1)) s) (\<lambda>_ s. packed_loop k func it s)))
            else Ret () s))"

declare packed_loop.simps [simp del]

definition decode_packed :: "'u decoder \<Rightarrow> pb_field_iter_t \<Rightarrow> 'u dstate \<Rightarrow> (unit, 'u dstate) outcome" where
  "decode_packed func it s =
     andThen (on_stream pb_make_string_substream s) (\<lambda>sub s.
       let finish = (\<lambda>status ss.
             if bytes_left (dstream ss) \<noteq> 0 then derror (ss\<lparr>dstream := dstream s\<rparr>) ''array overflow''
             else close_with (dstream s) status ss)
       in (case packed_loop (unat (bytes_left sub)) func it (s\<lparr>dstream := sub\<rparr>) of
             Ret _ ss \<Rightarrow> finish True ss
           | Err ss \<Rightarrow> finish False ss
           | Undef \<Rightarrow> Undef
           | NoFuel \<Rightarrow> NoFuel))"

definition decode_static_field ::
    "nat \<Rightarrow> 'u dec_env \<Rightarrow> 'u msg_decoder \<Rightarrow> pb_wire_type_t \<Rightarrow> pb_field_iter_t \<Rightarrow> 'u dstate \<Rightarrow> (unit, 'u dstate) outcome" where
  "decode_static_field n E noinit wire_type it s =
     (let f = cur it; type = ftype f; func = PB_DECODERS n E noinit (PB_LTYPE type) in
      if PB_HTYPE type = PB_HTYPE_REQUIRED then func f (pData it) s
      else if PB_HTYPE type = PB_HTYPE_OPTIONAL then
        andThen (if pSize it \<noteq> pData it then put (pSize it) [1] s else Ret () s)
          (\<lambda>_ s. func f (pData it) s)
      else if PB_HTYPE type = PB_HTYPE_REPEATED then
        if wire_type = PB_WT_STRING \<and> PB_LTYPE type \<le> PB_LTYPE_LAST_PACKABLE
        then decode_packed func it s
        else
          deref (load_u32 (dmem s) (pSize it)) (\<lambda>sz.
            if sz \<ge> array_size f then derror s ''array overflow''
            else andThen (put (pSize it) (word_le 4 (sz + 1)) s) (\<lambda>_ s. func f (ditem it sz) s))
      else if PB_HTYPE type = PB_HTYPE_ONEOF then
        andThen (put (pSize it) (word_le 4 (tag f)) s) (\<lambda>_ s.
          andThen (if PB_LTYPE type = PB_LTYPE_SUBMESSAGE
                   then andThen (put (pData it) (replicate (unat (data_size f)) 0) s) (\<lambda>_ s.
                          if ptr f = 0 then Undef
                          else on_mem (pb_message_set_to_defaults n (ddesc E) (ddesc E (ptr f)) (pData it)) s)
                   else Ret () s) (\<lambda>_ s. func f (pData it) s))
      else derror s ''invalid field type'')"

definition decode_pointer_field ::
    "pb_wire_type_t \<Rightarrow> pb_field_iter_t \<Rightarrow> 'u dstate \<Rightarrow> (unit, 'u dstate) outcome" where
  "decode_pointer_field wire_type it s = derror s ''no malloc support''"

text \<open>The loop that calls the user's decoder until the substream is empty.\<close>

fun callback_loop :: "nat \<Rightarrow> ('u dstate \<Rightarrow> (unit, 'u dstate) outcome) \<Rightarrow> 'u dstate \<Rightarrow> (unit, 'u dstate) outcome" where
  "callback_loop 0 cb s = NoFuel"
| "callback_loop (Suc k) cb s =
     andThen (cb s) (\<lambda>_ s. if bytes_left (dstream s) \<noteq> 0 then callback_loop k cb s else Ret () s)"

definition decode_callback_field ::
    "nat \<Rightarrow> 'u dec_env \<Rightarrow> pb_wire_type_t \<Rightarrow> pb_field_iter_t \<Rightarrow> 'u dstate \<Rightarrow> (unit, 'u dstate) outcome" where
  "decode_callback_field n E wire_type it s =
     deref (load_ptr (dmem s) (callback_funcs (pData it))) (\<lambda>fp.
       let arg = callback_arg (pData it) in
       if fp = 0 then on_stream (\<lambda>st. pb_skip_field st wire_type) s
       else if wire_type = PB_WT_STRING then
         andThen (on_stream pb_make_string_substream s) (\<lambda>sub s.
           (case callback_loop n (dec_callback E fp (cur it) arg) (s\<lparr>dstream := sub\<rparr>) of
              Ret _ ss \<Rightarrow> close_with (dstream s) True ss
            | Err ss \<Rightarrow> derror (ss\<lparr>dstream := dstream s\<rparr>) ''callback failed''
            | Undef \<Rightarrow> Undef
            | NoFuel \<Rightarrow> NoFuel))
       else
         andThen (on_stream (\<lambda>st. read_raw_value st wire_type 10) s) (\<lambda>bs s.
           (case dec_callback E fp (cur it) arg
                   (s\<lparr>dstream := pb_istream_from_buffer bs (word_of_nat (length bs))\<rparr>) of
              Ret _ ss \<Rightarrow> Ret () (ss\<lparr>dstream := dstream s\<rparr>)
            | Err ss \<Rightarrow> Err (ss\<lparr>dstream := dstream s\<rparr>)
            | Undef \<Rightarrow> Undef
            | NoFuel \<Rightarrow> NoFuel)))"

definition decode_field ::
    "nat \<Rightarrow> 'u dec_env \<Rightarrow> 'u msg_decoder \<Rightarrow> pb_wire_type_t \<Rightarrow> pb_field_iter_t \<Rightarrow> 'u dstate \<Rightarrow> (unit, 'u dstate) outcome" where
  "decode_field n E noinit wire_type it s =
     (if PB_ATYPE (ftype (cur it)) = PB_ATYPE_STATIC then decode_static_field n E noinit wire_type it s
      else if PB_ATYPE (ftype (cur it)) = PB_ATYPE_POINTER then decode_pointer_field wire_type it s
      else if PB_ATYPE (ftype (cur it)) = PB_ATYPE_CALLBACK then decode_callback_field n E wire_type it s
      else derror s ''invalid field type'')"

definition default_extension_decoder ::
    "nat \<Rightarrow> 'u dec_env \<Rightarrow> 'u msg_decoder \<Rightarrow> addr \<Rightarrow> 32 word \<Rightarrow> pb_wire_type_t \<Rightarrow> 'u dstate \<Rightarrow> (unit, 'u dstate) outcome" where
  "default_extension_decoder n E noinit extension tg wire_type s =
     deref (load_ptr (dmem s) (ext_type extension)) (\<lambda>ty.
       deref (load_ptr (dmem s) (exttype_arg ty)) (\<lambda>arg.
         if tag (field_at (ddesc E arg) 0) \<noteq> tg then Ret () s
         else deref (iter_from_extension (ddesc E) (dmem s) extension) (\<lambda>it.
           andThen (put (ext_found extension) [1] s) (\<lambda>_ s.
             decode_field n E noinit wire_type it s))))"

fun extension_loop ::
    "nat \<Rightarrow> nat \<Rightarrow> 'u dec_env \<Rightarrow> 'u msg_decoder \<Rightarrow> size_t \<Rightarrow> 32 word \<Rightarrow> pb_wire_type_t \<Rightarrow> addr \<Rightarrow> 'u dstate \<Rightarrow> (unit, 'u dstate) outcome" where
  "extension_loop k n E noinit pos0 tg wire_type extension s =
     (if extension \<noteq> 0 \<and> pos0 = bytes_left (dstream s) then
        case k of 0 \<Rightarrow> NoFuel
        | Suc k \<Rightarrow>
            deref (load_ptr (dmem s) (ext_type extension)) (\<lambda>ty.
              deref (load_ptr (dmem s) (exttype_decode ty)) (\<lambda>dec.
                andThen (if dec \<noteq> 0 then ext_decode E dec extension tg wire_type s
                         else default_extension_decoder n E noinit extension tg wire_type s) (\<lambda>_ s.
                  deref (load_ptr (dmem s) (ext_next extension)) (\<lambda>next.
                    extension_loop k n E noinit pos0 tg wire_type next s))))
      else Ret () s)"

declare extension_loop.simps [simp del]

definition decode_extension ::
    "nat \<Rightarrow> 'u dec_env \<Rightarrow> 'u msg_decoder \<Rightarrow> 32 word \<Rightarrow> pb_wire_type_t \<Rightarrow> pb_field_iter_t \<Rightarrow> 'u dstate \<Rightarrow> (unit, 'u dstate) outcome" where
  "decode_extension n E noinit tg wire_type it s =
     deref (load_ptr (dmem s) (pData it)) (\<lambda>extension.
       extension_loop n n E noinit (bytes_left (dstream s)) tg wire_type extension s)"

subsection \<open>Decode all fields\<close>

abbreviation (input) PB_MAX_REQUIRED_FIELDS :: "32 word" where "PB_MAX_REQUIRED_FIELDS \<equiv> 64"

text \<open>The local variables of \<^verbatim>\<open>pb_decode_noinit\<close> that its loop changes.\<close>

record locals =
  iter :: pb_field_iter_t
  fields_seen :: "32 word list"
  extension_range_start :: "32 word"

definition note_required :: "pb_field_iter_t \<Rightarrow> 32 word list \<Rightarrow> 32 word list" where
  "note_required it seen =
     (if PB_HTYPE (ftype (cur it)) = PB_HTYPE_REQUIRED \<and> required_field_index it < PB_MAX_REQUIRED_FIELDS
      then let tmp = push_bit (unat (required_field_index it AND 31)) 1;
               i = unat (drop_bit 5 (required_field_index it))
           in seen[i := seen ! i OR tmp]
      else seen)"

text \<open>
  The branch for a tag that matches no field. The result says whether an extension consumed the
  field; if not, the caller skips it.
\<close>

definition try_extension ::
    "nat \<Rightarrow> 'u dec_env \<Rightarrow> 'u msg_decoder \<Rightarrow> 32 word \<Rightarrow> pb_wire_type_t \<Rightarrow> locals \<Rightarrow> 'u dstate \<Rightarrow> (bool \<times> locals, 'u dstate) outcome" where
  "try_extension n E noinit tg wire_type x s =
     (if tg \<ge> extension_range_start x then
        (case find_extension_field (iter x) of
           None \<Rightarrow> NoFuel
         | Some (found, it) \<Rightarrow>
             let x = x\<lparr>iter := it, extension_range_start := (if found then tag (cur it) else - 1)\<rparr> in
             if tg \<ge> extension_range_start x then
               let pos0 = bytes_left (dstream s) in
               andThen (decode_extension n E noinit tg wire_type it s) (\<lambda>_ s.
                 Ret (pos0 \<noteq> bytes_left (dstream s), x) s)
             else Ret (False, x) s)
      else Ret (False, x) s)"

text \<open>
  One iteration of the main loop, first what follows the tag, then the whole of it; the result says
  whether the loop goes on.
\<close>

definition decode_tagged ::
    "nat \<Rightarrow> 'u dec_env \<Rightarrow> 'u msg_decoder \<Rightarrow> pb_wire_type_t \<Rightarrow> 32 word \<Rightarrow> locals \<Rightarrow> 'u dstate \<Rightarrow> (bool \<times> locals, 'u dstate) outcome" where
  "decode_tagged n E noinit wire_type tg x s =
     (case pb_field_iter_find (iter x) tg of
        None \<Rightarrow> NoFuel
      | Some (found, it) \<Rightarrow>
          let x = x\<lparr>iter := it\<rparr> in
          if \<not> found then
            andThen (try_extension n E noinit tg wire_type x s) (\<lambda>(handled, x) s.
              if handled then Ret (True, x) s
              else andThen (on_stream (\<lambda>st. pb_skip_field st wire_type) s) (\<lambda>_ s. Ret (True, x) s))
          else
            let x = x\<lparr>fields_seen := note_required it (fields_seen x)\<rparr> in
            andThen (decode_field n E noinit wire_type it s) (\<lambda>_ s. Ret (True, x) s))"

definition decode_step ::
    "nat \<Rightarrow> 'u dec_env \<Rightarrow> 'u msg_decoder \<Rightarrow> locals \<Rightarrow> 'u dstate \<Rightarrow> (bool \<times> locals, 'u dstate) outcome" where
  "decode_step n E noinit x s =
     andThen (on_stream pb_decode_tag s) (\<lambda>v s.
       (case fst v of
          None \<Rightarrow> if snd v then Ret (False, x) s else Err s
        | Some (wire_type, tg) \<Rightarrow> decode_tagged n E noinit wire_type tg x s))"

fun decode_loop ::
    "nat \<Rightarrow> (locals \<Rightarrow> 'u dstate \<Rightarrow> (bool \<times> locals, 'u dstate) outcome) \<Rightarrow> locals \<Rightarrow> 'u dstate \<Rightarrow> (locals, 'u dstate) outcome" where
  "decode_loop k step x s =
     (if bytes_left (dstream s) = 0 then Ret x s
      else case k of 0 \<Rightarrow> NoFuel
      | Suc k \<Rightarrow> andThen (step x s) (\<lambda>(go, x) s. if go then decode_loop k step x s else Ret x s))"

declare decode_loop.simps [simp del]

text \<open>
  The loop that seeks to the end of the descriptor array to count the required fields:
  the values of \<^verbatim>\<open>req_field_count\<close>, \<^verbatim>\<open>last_type\<close> and the iterator behind it.
\<close>

fun req_count_loop :: "nat \<Rightarrow> pb_field_iter_t \<Rightarrow> (32 word \<times> pb_type_t \<times> pb_field_iter_t) option" where
  "req_count_loop 0 it = None"
| "req_count_loop (Suc k) it =
     (case pb_field_iter_next it of
        (True, it') \<Rightarrow> req_count_loop k it'
      | (False, it') \<Rightarrow> Some (required_field_index it, ftype (cur it), it'))"

definition req_field_count :: "pb_field_iter_t \<Rightarrow> 32 word option" where
  "req_field_count it =
     map_option (\<lambda>(count, last_type, it).
         if PB_HTYPE last_type = PB_HTYPE_REQUIRED \<and> tag (cur it) \<noteq> 0 then count + 1 else count)
       (req_count_loop (Suc (length (start it))) it)"

text \<open>
  The comparison of \<^verbatim>\<open>fields_seen\<close> with the expected bits: \<open>None\<close> where the code reads
  behind the end of the array, or shifts a 32-bit value by 32.
\<close>

primrec whole_words :: "32 word list \<Rightarrow> nat \<Rightarrow> bool option" where
  "whole_words seen 0 = Some True"
| "whole_words seen (Suc k) =
     (case whole_words seen k of
        Some True \<Rightarrow> if k < length seen then Some (seen ! k = - 1) else None
      | r \<Rightarrow> r)"

definition required_present :: "32 word list \<Rightarrow> 32 word \<Rightarrow> bool option" where
  "required_present seen count =
     (if count = 0 then Some True
      else
        let i = unat (drop_bit 5 count) in
        (case whole_words seen i of
           None \<Rightarrow> None
         | Some False \<Rightarrow> Some False
         | Some True \<Rightarrow>
             if length seen \<le> i \<or> count AND 31 = 0 then None
             else Some (seen ! i = drop_bit (32 - unat (count AND 31)) (- 1))))"

primrec pb_decode_noinit :: "nat \<Rightarrow> 'u dec_env \<Rightarrow> 'u msg_decoder" where
  "pb_decode_noinit 0 = (\<lambda>E fs dest s. NoFuel)"
| "pb_decode_noinit (Suc n) = (\<lambda>E fs dest s.
     andThen (decode_loop (unat (bytes_left (dstream s))) (decode_step n E (pb_decode_noinit n E))
                \<lparr>iter = snd (pb_field_iter_begin fs dest), fields_seen = [0, 0], extension_range_start = 0\<rparr> s)
       (\<lambda>x s.
          (case req_field_count (iter x) of
             None \<Rightarrow> NoFuel
           | Some count \<Rightarrow>
               (case required_present (fields_seen x) count of
                  None \<Rightarrow> Undef
                | Some ok \<Rightarrow> if ok then Ret () s else derror s ''missing required field''))))"

definition pb_decode :: "nat \<Rightarrow> 'u dec_env \<Rightarrow> 'u msg_decoder" where
  "pb_decode n E fs dest s = decode_init n E (pb_decode_noinit n E) fs dest s"

definition pb_decode_delimited :: "nat \<Rightarrow> 'u dec_env \<Rightarrow> 'u msg_decoder" where
  "pb_decode_delimited n E fs dest s =
     andThen (on_stream pb_make_string_substream s) (\<lambda>sub s.
       in_substream (pb_decode n E fs dest) sub s)"

end
