(* ===== verification/PB_Decode_Safe.thy ===== *)
theory PB_Decode_Safe
  imports PB_Decode PB_Layout
begin

text \<open>
  Memory safety and termination of the decoder. \<open>dspec ok V a n Q g\<close> is the contract that every
  part of the decoder satisfies: from any state whose stream has the promised bytes and whose valid
  addresses are \<open>V\<close>, the operation \<open>g\<close> is defined and returns, changes memory inside the
  block of \<open>n\<close> bytes at \<open>a\<close> only, takes its input from the stream only, and its successful
  exit satisfies \<open>Q\<close>.

  The interface between a message and its submessages is the locale \<open>msg_decoder\<close>: the code for
  fields relies on a decoder for submessages that keeps the contract on every message that a
  descriptor describes, and is proved in the locale to keep it one level up. The interpretation
  \<open>nested\<close> closes the recursion with \<^verbatim>\<open>pb_decode_noinit\<close> itself.
\<close>

definition dinv ::
    "('u istate \<Rightarrow> nat \<Rightarrow> bool) \<Rightarrow> nat \<Rightarrow> addr \<Rightarrow> nat \<Rightarrow> 'u dstate \<Rightarrow> 'u dstate \<Rightarrow> bool" where
  "dinv ok r a n s s' \<longleftrightarrow> used ok r (dstream s) (dstream s') \<and> mem_frame a n (dmem s) (dmem s')"

definition dspec ::
    "('u istate \<Rightarrow> nat \<Rightarrow> bool) \<Rightarrow> int set \<Rightarrow> addr \<Rightarrow> nat \<Rightarrow> ('a \<Rightarrow> 'u dstate \<Rightarrow> 'u dstate \<Rightarrow> bool) \<Rightarrow>
     ('u dstate \<Rightarrow> ('a, 'u dstate) outcome) \<Rightarrow> bool" where
  "dspec ok V a n Q g \<longleftrightarrow>
     (\<forall>r s. sok ok r (dstream s) \<longrightarrow> dom (dmem s) = V \<longrightarrow>
        outp (\<lambda>x s'. Q x s s' \<and> dinv ok r a n s s') (dinv ok r a n s) (g s))"

abbreviation dsafe ::
    "('u istate \<Rightarrow> nat \<Rightarrow> bool) \<Rightarrow> int set \<Rightarrow> addr \<Rightarrow> nat \<Rightarrow> ('u dstate \<Rightarrow> ('a, 'u dstate) outcome) \<Rightarrow> bool" where
  "dsafe ok V a n g \<equiv> dspec ok V a n (\<lambda>_ _ _. True) g"

abbreviation dshort ::
    "('u istate \<Rightarrow> nat \<Rightarrow> bool) \<Rightarrow> int set \<Rightarrow> addr \<Rightarrow> nat \<Rightarrow> ('u dstate \<Rightarrow> ('a, 'u dstate) outcome) \<Rightarrow> bool" where
  "dshort ok V a n g \<equiv> dspec ok V a n (\<lambda>_ s s'. shorter (dstream s) (dstream s')) g"

text \<open>The same for operations on memory alone, which have no failing exit.\<close>

definition msafe :: "int set \<Rightarrow> addr \<Rightarrow> nat \<Rightarrow> (mem \<Rightarrow> (unit, mem) outcome) \<Rightarrow> bool" where
  "msafe V a n g \<longleftrightarrow> (\<forall>m. dom m = V \<longrightarrow> outp (\<lambda>_ m'. mem_frame a n m m') (\<lambda>_. False) (g m))"

text \<open>
  What decoding needs of a field besides its layout: it is static or a pointer, and its default
  value, if it has one, can be read. Of a message it needs that the number of required fields is
  not a multiple of 32 other than 0, and below 64.
\<close>

definition dfield_ok :: "int set \<Rightarrow> pb_field_t \<Rightarrow> bool" where
  "dfield_ok V f \<longleftrightarrow>
     (PB_ATYPE (ftype f) = PB_ATYPE_STATIC \<or> PB_ATYPE (ftype f) = PB_ATYPE_POINTER) \<and>
     (PB_LTYPE (ftype f) \<noteq> PB_LTYPE_SUBMESSAGE \<and> ptr f \<noteq> 0 \<longrightarrow> inV V (ptr f) (unat (data_size f)))"

definition req_ok :: "pb_field_t list \<Rightarrow> bool" where
  "req_ok fs \<longleftrightarrow> (let c = required_before fs (length fs) in c = 0 \<or> c < 64 \<and> c mod 32 \<noteq> 0)"

definition dmsg_ok :: "int set \<Rightarrow> nat \<Rightarrow> (addr \<Rightarrow> pb_field_t list) \<Rightarrow> pb_field_t list \<Rightarrow> nat \<Rightarrow> bool" where
  "dmsg_ok V n D fs sz \<longleftrightarrow> msg_ok n (dfield_ok V) req_ok D fs sz"

text \<open>A field that the entry \<open>lt\<close> of \<^verbatim>\<open>PB_DECODERS\<close> may be called for.\<close>

definition item_desc :: "int set \<Rightarrow> nat \<Rightarrow> (addr \<Rightarrow> pb_field_t list) \<Rightarrow> pb_type_t \<Rightarrow> pb_field_t \<Rightarrow> bool" where
  "item_desc V n D lt f \<longleftrightarrow> item_ok f \<and> PB_LTYPE (ftype f) = lt \<and>
     (lt = PB_LTYPE_SUBMESSAGE \<longrightarrow> ptr f \<noteq> 0 \<and> dmsg_ok V n D (D (ptr f)) (unat (data_size f)))"

text \<open>The invariant of the local variables of \<^verbatim>\<open>pb_decode_noinit\<close>.\<close>

definition linv :: "pb_field_t list \<Rightarrow> addr \<Rightarrow> locals \<Rightarrow> bool" where
  "linv fs dest x \<longleftrightarrow> (\<exists>k. at_field fs k \<and> iter x = iter_nth fs dest k) \<and> length (fields_seen x) = 2"

subsection \<open>Rules for memory operations\<close>

lemma msafeD: "msafe V a n g \<Longrightarrow> dom m = V \<Longrightarrow> outp (\<lambda>_ m'. mem_frame a n m m') (\<lambda>_. False) (g m)"
  by (simp add: msafe_def)

lemma msafe_Ret: "msafe V a n (\<lambda>m. Ret () m)"
  by (simp add: msafe_def)

lemma mem_frame_dom: "mem_frame a n m m' \<Longrightarrow> dom m' = dom m"
  by (simp add: mem_frame_def)

lemma msafe_put:
  assumes "inV V a n" and "within b (length bs) a n"
  shows "msafe V a n (mem_put b bs)"
  unfolding msafe_def mem_put_def
proof (intro allI impI outp_deref)
  fix m :: mem assume d: "dom m = V"
  then have "valid_range m b (length bs)"
    using inV_within [OF assms] inV_valid [of m] by simp
  then show "store_bytes m b bs \<noteq> None" by (simp add: store_bytes_eq)
  fix m' assume "store_bytes m b bs = Some m'"
  from within_frame [OF store_bytes_frame [OF this] assms(2)]
  show "outp (\<lambda>_. mem_frame a n m) (\<lambda>_. False) (Ret () m')" by simp
qed

lemma msafe_then:
  assumes "msafe V a n g" and "msafe V a n h"
  shows "msafe V a n (\<lambda>m. andThen (g m) (\<lambda>_ m. h m))"
  unfolding msafe_def
proof (intro allI impI)
  fix m :: mem assume d: "dom m = V"
  show "outp (\<lambda>_. mem_frame a n m) (\<lambda>_. False) (andThen (g m) (\<lambda>_. h))"
  proof (rule outp_andThen [OF msafeD [OF assms(1) d]])
    fix m' assume f: "mem_frame a n m m'"
    then have "dom m' = V" using d by (simp add: mem_frame_dom)
    from msafeD [OF assms(2) this] show "outp (\<lambda>_. mem_frame a n m) (\<lambda>_. False) (h m')"
      by (rule outp_mono) (auto intro: mem_frame_trans [OF f])
  qed
qed

lemma msafe_load:
  assumes "inV V p k" and "\<And>bs. length bs = k \<Longrightarrow> msafe V a n (h bs)"
  shows "msafe V a n (\<lambda>m. deref (load_bytes m p k) (\<lambda>bs. h bs m))"
  unfolding msafe_def
proof (intro allI impI outp_deref)
  fix m :: mem assume d: "dom m = V"
  with assms(1) have "valid_range m p k" using inV_valid [of m] by simp
  then show "load_bytes m p k \<noteq> None" unfolding load_bytes_valid .
  fix bs assume "load_bytes m p k = Some bs"
  then have "length bs = k" by (rule load_bytes_length)
  from msafeD [OF assms(2) [OF this] d]
  show "outp (\<lambda>_. mem_frame a n m) (\<lambda>_. False) (h bs m)" .
qed

lemma msafe_If:
  assumes "b \<Longrightarrow> msafe V a n g" and "\<not> b \<Longrightarrow> msafe V a n h"
  shows "msafe V a n (\<lambda>m. if b then g m else h m)"
  using assms by (cases b) simp_all

lemma msafe_within: "msafe V b k g \<Longrightarrow> within b k a n \<Longrightarrow> msafe V a n g"
  unfolding msafe_def by (blast intro: outp_mono within_frame)

lemma msafe_seq_out:
  assumes "\<And>x. x \<in> set xs \<Longrightarrow> msafe V a n (g x)"
  shows "msafe V a n (seq_out g xs)"
  using assms
proof (induction xs)
  case Nil
  then show ?case by (simp add: msafe_def)
next
  case (Cons x xs)
  have "msafe V a n (\<lambda>m. andThen (g x m) (\<lambda>_ m. seq_out g xs m))"
    using Cons by (intro msafe_then) auto
  then show ?case by (simp add: msafe_def)
qed

lemma msafe_message_defaults:
  assumes "fields_ok fs"
    and "\<And>k. k < length fs \<Longrightarrow> msafe V dest sz (set_default (iter_nth fs dest k))"
  shows "msafe V dest sz (message_defaults set_default fs dest)"
proof (cases "fs = []")
  case True
  then show ?thesis
    by (simp add: msafe_def message_defaults_def pb_field_iter_begin_def Let_def)
next
  case False
  have "message_defaults set_default fs dest =
      seq_out (\<lambda>j. set_default (iter_nth fs dest j)) [0..<length fs]"
    using begin_iter_nth [of fs dest] fst_begin [OF assms(1), of dest] False
    by (cases "pb_field_iter_begin fs dest")
      (auto simp: message_defaults_def fun_eq_iff iter_for_begin [OF assms(1) False])
  moreover have "msafe V dest sz (seq_out (\<lambda>j. set_default (iter_nth fs dest j)) [0..<length fs])"
    by (rule msafe_seq_out) (simp add: assms(2))
  ultimately show ?thesis by simp
qed

subsection \<open>Default values\<close>

lemma static_default_safe:
  assumes "inV V dest sz" and "within d (unat (data_size f)) dest sz"
    and "ptr f \<noteq> 0 \<Longrightarrow> inV V (ptr f) (unat (data_size f))"
  shows "msafe V dest sz (\<lambda>m. if ptr f \<noteq> 0
      then deref (load_bytes m (ptr f) (unat (data_size f))) (\<lambda>bs. mem_put d bs m)
      else mem_put d (replicate (unat (data_size f)) 0) m)"
proof (cases "ptr f = 0")
  case True
  then show ?thesis using msafe_put [OF assms(1), of d "replicate (unat (data_size f)) 0"] assms(2) by simp
next
  case False
  then show ?thesis
    using msafe_load [OF assms(3) [OF False], of dest sz "\<lambda>bs. mem_put d bs"] msafe_put [OF assms(1)] assms(2)
    by simp
qed

lemma msafe_if_then:
  assumes "b \<Longrightarrow> msafe V a n g" and "msafe V a n h"
  shows "msafe V a n (\<lambda>m. andThen (if b then g m else Ret () m) (\<lambda>_ m. h m))"
  using assms msafe_then [of V a n g h] by (cases b) simp_all

text \<open>One field, given that the defaults of submessages are safe.\<close>

lemma field_default_step:
  assumes ok: "dmsg_ok V (Suc n) D fs sz" and V: "inV V dest sz" and k: "k < length fs"
    and sub: "\<And>fs' sz' d. dmsg_ok V n D fs' sz' \<Longrightarrow> inV V d sz' \<Longrightarrow>
      msafe V d sz' (message_defaults (pb_field_set_to_default n D) fs' d)"
  shows "msafe V dest sz (pb_field_set_to_default (Suc n) D (iter_nth fs dest k))"
proof -
  let ?f = "fs ! k" and ?it = "iter_nth fs dest k"
  note ok' = ok [unfolded dmsg_ok_def]
  note D = msg_okD [OF ok']
  have cur: "cur ?it = ?f" using k by simp
  have ne: "PB_LTYPE (ftype ?f) \<noteq> PB_LTYPE_EXTENSION"
    using D(4) [OF k] by (simp add: item_ok_def has_ltype_def)
  have at: "PB_ATYPE (ftype ?f) = PB_ATYPE_STATIC \<or> PB_ATYPE (ftype ?f) = PB_ATYPE_POINTER"
    using D(5) [OF k] by (simp add: dfield_ok_def)
  have size: "msafe V dest sz (mem_put (pSize ?it) (word_le 4 (0 :: 32 word)))"
    if "PB_HTYPE (ftype ?f) = PB_HTYPE_REPEATED \<or> PB_HTYPE (ftype ?f) = PB_HTYPE_ONEOF"
    using field_ok_size [OF ok' k that, of dest] by (intro msafe_put [OF V]) simp
  show ?thesis
  proof (cases "PB_ATYPE (ftype ?f) = PB_ATYPE_STATIC")
    case False
    with at have p: "PB_ATYPE (ftype ?f) = PB_ATYPE_POINTER" by simp
    have "msafe V dest sz (mem_put (pData ?it) (word_le 8 (0 :: 64 word)))"
      using field_ok_data [OF ok' k, of dest] p by (intro msafe_put [OF V]) (simp add: field_extent_def)
    from msafe_then [OF this msafe_If [OF size msafe_Ret]]
    show ?thesis unfolding pb_field_set_to_default.simps Let_def cur using p ne by simp
  next
    case st: True
    show ?thesis
    proof (cases "PB_HTYPE (ftype ?f) = PB_HTYPE_REPEATED \<or> PB_HTYPE (ftype ?f) = PB_HTYPE_ONEOF")
      case True
      then show ?thesis using st ne size by (auto simp: Let_def cur k)
    next
      case False
      have flag: "msafe V dest sz (mem_put (pSize ?it) [0])"
        if "PB_HTYPE (ftype ?f) = PB_HTYPE_OPTIONAL \<and> pSize ?it \<noteq> pData ?it"
        using field_ok_flag [OF ok' k, of dest] that by (intro msafe_put [OF V]) simp
      have data: "within (pData ?it) (unat (data_size ?f)) dest sz"
        using False st by (intro field_ok_single [OF ok' k]) simp_all
      have "msafe V dest sz (\<lambda>m. if PB_LTYPE (ftype ?f) = PB_LTYPE_SUBMESSAGE then
             (if ptr ?f = 0 then Undef
              else message_defaults (pb_field_set_to_default n D) (D (ptr ?f)) (pData ?it) m)
           else if ptr ?f \<noteq> 0 then
             deref (load_bytes m (ptr ?f) (unat (data_size ?f))) (\<lambda>bs. mem_put (pData ?it) bs m)
           else mem_put (pData ?it) (replicate (unat (data_size ?f)) 0) m)"
      proof (cases "PB_LTYPE (ftype ?f) = PB_LTYPE_SUBMESSAGE")
        case True
        with D(8) [OF k] have "ptr ?f \<noteq> 0" "dmsg_ok V n D (D (ptr ?f)) (unat (data_size ?f))"
          by (simp_all add: dmsg_ok_def)
        with True sub [OF this(2) inV_within [OF V data]] show ?thesis
          by (simp add: msafe_within [OF _ data])
      next
        case False
        with static_default_safe [OF V data] D(5) [OF k] show ?thesis by (simp add: dfield_ok_def)
      qed
      from msafe_if_then [where b = "PB_HTYPE (ftype ?f) = PB_HTYPE_OPTIONAL \<and> pSize ?it \<noteq> pData ?it", OF flag this]
      show ?thesis unfolding pb_field_set_to_default.simps Let_def cur using False st ne by simp
    qed
  qed
qed

lemma defaults_safe:
  "dmsg_ok V n D fs sz \<Longrightarrow> inV V dest sz \<Longrightarrow> msafe V dest sz (pb_message_set_to_defaults n D fs dest)"
proof (induction n arbitrary: fs sz dest)
  case 0
  then show ?case by (simp add: dmsg_ok_def)
next
  case (Suc n)
  have "msafe V dest sz (message_defaults (pb_field_set_to_default (Suc n) D) fs dest)"
  proof (rule msafe_message_defaults)
    show "fields_ok fs" using Suc.prems(1) by (simp add: dmsg_ok_def)
    fix k assume "k < length fs"
    then show "msafe V dest sz (pb_field_set_to_default (Suc n) D (iter_nth fs dest k))"
      using Suc.IH by (intro field_default_step [OF Suc.prems]) (simp_all add: pb_message_set_to_defaults_def [abs_def])
  qed
  then show ?case by (simp add: pb_message_set_to_defaults_def [abs_def])
qed

subsection \<open>Rules for the decoder's contract\<close>

lemma dspecD:
  "dspec ok V a n Q g \<Longrightarrow> sok ok r (dstream s) \<Longrightarrow> dom (dmem s) = V \<Longrightarrow>
   outp (\<lambda>x s'. Q x s s' \<and> dinv ok r a n s s') (dinv ok r a n s) (g s)"
  by (simp add: dspec_def)

lemma dspecI:
  "(\<And>r s. sok ok r (dstream s) \<Longrightarrow> dom (dmem s) = V \<Longrightarrow>
     outp (\<lambda>x s'. Q x s s' \<and> dinv ok r a n s s') (dinv ok r a n s) (g s)) \<Longrightarrow>
   dspec ok V a n Q g"
  by (simp add: dspec_def)

lemma dspec_mono:
  assumes "dspec ok V a n P g" and "\<And>x s s'. P x s s' \<Longrightarrow> Q x s s'"
  shows "dspec ok V a n Q g"
proof (rule dspecI)
  fix r and s :: "'a dstate" assume st: "sok ok r (dstream s)" "dom (dmem s) = V"
  show "outp (\<lambda>x s'. Q x s s' \<and> dinv ok r a n s s') (dinv ok r a n s) (g s)"
    by (rule outp_mono [OF dspecD [OF assms(1) st]]) (auto intro: assms(2))
qed

lemma dspec_safe: "dspec ok V a n P g \<Longrightarrow> dsafe ok V a n g"
  by (rule dspec_mono) auto

lemma dinv_within: "dinv ok r b k s s' \<Longrightarrow> within b k a n \<Longrightarrow> dinv ok r a n s s'"
  by (auto simp: dinv_def intro: within_frame)

lemma dspec_within:
  assumes "dspec ok V b k Q g" and "within b k a n"
  shows "dspec ok V a n Q g"
proof (rule dspecI)
  fix r and s :: "'a dstate" assume st: "sok ok r (dstream s)" "dom (dmem s) = V"
  show "outp (\<lambda>x s'. Q x s s' \<and> dinv ok r a n s s') (dinv ok r a n s) (g s)"
    by (rule outp_mono [OF dspecD [OF assms(1) st]]) (auto intro: dinv_within [OF _ assms(2)])
qed

lemma dspec_if_state:
  assumes "dspec ok V a n Q g" and "dspec ok V a n Q h"
  shows "dspec ok V a n Q (\<lambda>s. if b s then g s else h s)"
  using assms by (simp add: dspec_def)

lemma dspec_If:
  assumes "b \<Longrightarrow> dspec ok V a n Q g" and "\<not> b \<Longrightarrow> dspec ok V a n Q h"
  shows "dspec ok V a n Q (\<lambda>s. if b then g s else h s)"
  using assms by (cases b) simp_all

context istream_source
begin

lemma dinv_refl: "sok ok r (dstream s) \<Longrightarrow> dinv ok r a n s s"
  by (simp add: dinv_def used_refl)

lemma dinv_trans: "dinv ok r a n s s' \<Longrightarrow> dinv ok r a n s' s'' \<Longrightarrow> dinv ok r a n s s''"
  unfolding dinv_def by (blast intro: used_trans mem_frame_trans)

lemma dinv_sok: "dinv ok r a n s s' \<Longrightarrow> sok ok r (dstream s')"
  unfolding dinv_def by (blast intro: used_sok)

lemma dinv_dom: "dinv ok r a n s s' \<Longrightarrow> dom (dmem s') = dom (dmem s)"
  unfolding dinv_def by (elim conjE) (rule mem_frame_dom)

lemma dinv_shorter:
  "dinv ok r a n s s' \<Longrightarrow> shorter (dstream s') (dstream s'') \<Longrightarrow> shorter (dstream s) (dstream s'')"
  "shorter (dstream s) (dstream s') \<Longrightarrow> dinv ok r a n s' s'' \<Longrightarrow> shorter (dstream s) (dstream s'')"
  unfolding dinv_def by (blast intro: used_shorter shorter_used)+

text \<open>Sequencing, with all that is known of the state between.\<close>

lemma dspec_thenI:
  assumes "dspec ok V a n P g"
    and "\<And>r x s s'. P x s s' \<Longrightarrow> sok ok r (dstream s') \<Longrightarrow> dom (dmem s') = V \<Longrightarrow> dinv ok r a n s s' \<Longrightarrow>
      outp (\<lambda>y s''. Q y s s'' \<and> dinv ok r a n s' s'') (dinv ok r a n s') (k x s')"
  shows "dspec ok V a n Q (\<lambda>s. andThen (g s) k)"
proof (rule dspecI)
  fix r and s :: "'u dstate" assume st: "sok ok r (dstream s)" "dom (dmem s) = V"
  show "outp (\<lambda>x s'. Q x s s' \<and> dinv ok r a n s s') (dinv ok r a n s) (andThen (g s) k)"
  proof (rule outp_andThen [OF dspecD [OF assms(1) st]])
    fix x s' assume p: "P x s s' \<and> dinv ok r a n s s'"
    then have p: "P x s s'" and i: "dinv ok r a n s s'" by blast+
    have "dom (dmem s') = V" using dinv_dom [OF i] st(2) by simp
    from assms(2) [OF p dinv_sok [OF i] this i]
    show "outp (\<lambda>x s'. Q x s s' \<and> dinv ok r a n s s') (dinv ok r a n s) (k x s')"
      by (rule outp_mono) (blast intro: dinv_trans [OF i])+
  qed
qed

lemma dspec_then:
  assumes "dspec ok V a n P g" and "\<And>x s s'. P x s s' \<Longrightarrow> dspec ok V a n (\<lambda>_ _ _. True) (k x)"
  shows "dsafe ok V a n (\<lambda>s. andThen (g s) k)"
proof (rule dspec_thenI [OF assms(1)])
  fix r x s s' assume a: "P x s s'" "sok ok r (dstream s')" "dom (dmem s') = V"
  show "outp (\<lambda>y s''. True \<and> dinv ok r a n s' s'') (dinv ok r a n s') (k x s')"
    by (rule dspecD [OF assms(2) [OF a(1)] a(2,3)])
qed

lemma dshort_then:
  assumes "dshort ok V a n g" and "\<And>x. dsafe ok V a n (k x)"
  shows "dshort ok V a n (\<lambda>s. andThen (g s) k)"
proof (rule dspec_thenI [OF assms(1)])
  fix r x and s s' :: "'u dstate"
  assume a: "shorter (dstream s) (dstream s')" "sok ok r (dstream s')" "dom (dmem s') = V"
  show "outp (\<lambda>y s''. shorter (dstream s) (dstream s'') \<and> dinv ok r a n s' s'') (dinv ok r a n s') (k x s')"
    by (rule outp_mono [OF dspecD [OF assms(2) a(2,3), of x]]) (use a(1) dinv_shorter(2) in blast)+
qed

lemma dspec_Ret: "(\<And>s. Q x s s) \<Longrightarrow> dspec ok V a n Q (\<lambda>s. Ret x s)"
  by (rule dspecI) (simp add: dinv_refl)

lemma dspec_Err: "dspec ok V a n Q (\<lambda>s. Err s)"
  by (rule dspecI) (simp add: dinv_refl)

text \<open>A call whose two exits are both followed by more code.\<close>

lemma dspec_finally:
  assumes "dsafe ok V a n g" and "\<And>x. dsafe ok V a n (h x)" and "dsafe ok V a n h'"
  shows "dsafe ok V a n (\<lambda>s. case g s of Ret x s \<Rightarrow> h x s | Err s \<Rightarrow> h' s | Undef \<Rightarrow> Undef | NoFuel \<Rightarrow> NoFuel)"
proof (rule dspecI)
  fix r and s :: "'u dstate" assume st: "sok ok r (dstream s)" "dom (dmem s) = V"
  have rest: "outp (\<lambda>x s'. True \<and> dinv ok r a n s s') (dinv ok r a n s) (k s')"
    if k: "dsafe ok V a n k" and i: "dinv ok r a n s s'" for k s'
  proof -
    have "dom (dmem s') = V" using dinv_dom [OF i] st(2) by simp
    from dspecD [OF k dinv_sok [OF i] this] show ?thesis
      by (rule outp_mono) (blast intro: dinv_trans [OF i])+
  qed
  show "outp (\<lambda>x s'. True \<and> dinv ok r a n s s') (dinv ok r a n s)
      (case g s of Ret x s \<Rightarrow> h x s | Err s \<Rightarrow> h' s | Undef \<Rightarrow> Undef | NoFuel \<Rightarrow> NoFuel)"
    using dspecD [OF assms(1) st] rest [OF assms(2)] rest [OF assms(3)] by (cases "g s") simp_all
qed

lemma dspec_on_stream:
  assumes "\<And>r st. sok ok r st \<Longrightarrow> outp (\<lambda>x st'. Q x st st' \<and> used ok r st st') (used ok r st) (g st)"
  shows "dspec ok V a n (\<lambda>x s s'. Q x (dstream s) (dstream s')) (on_stream g)"
proof (rule dspecI)
  fix r and s :: "'u dstate" assume "sok ok r (dstream s)"
  from assms [OF this] show "outp (\<lambda>x s'. Q x (dstream s) (dstream s') \<and> dinv ok r a n s s') (dinv ok r a n s) (on_stream g s)"
    by (cases "g (dstream s)") (simp_all add: on_stream_def dinv_def)
qed

lemma dspec_derror: "dspec ok V a n Q (\<lambda>s. derror s msg)"
  by (rule dspecI) (simp add: derror_def on_stream_def ierror_def dinv_def used_def sok_def)

lemma dspec_on_mem: "msafe V a n g \<Longrightarrow> dsafe ok V a n (on_mem g)"
proof (rule dspecI)
  fix r and s :: "'u dstate" assume g: "msafe V a n g" and st: "sok ok r (dstream s)" "dom (dmem s) = V"
  from msafeD [OF g st(2)] st(1) show "outp (\<lambda>x s'. True \<and> dinv ok r a n s s') (dinv ok r a n s) (on_mem g s)"
    by (cases "g (dmem s)") (simp_all add: on_mem_def dinv_def used_refl)
qed

lemma dspec_put: "inV V a n \<Longrightarrow> within b (length bs) a n \<Longrightarrow> dsafe ok V a n (put b bs)"
  unfolding put_def [abs_def] by (intro dspec_on_mem msafe_put)

lemma dspec_load_u32:
  assumes "inV V p 4" and "\<And>v. dspec ok V a n Q (k v)"
  shows "dspec ok V a n Q (\<lambda>s. deref (load_u32 (dmem s) p) (\<lambda>v. k v s))"
proof (rule dspecI)
  fix r and s :: "'u dstate" assume st: "sok ok r (dstream s)" "dom (dmem s) = V"
  then have "valid_range (dmem s) p 4" using assms(1) inV_valid [of "dmem s"] by simp
  then have "load_u32 (dmem s) p \<noteq> None" unfolding load_u32_valid .
  then show "outp (\<lambda>x s'. Q x s s' \<and> dinv ok r a n s s') (dinv ok r a n s) (deref (load_u32 (dmem s) p) (\<lambda>v. k v s))"
    by (rule outp_deref) (rule dspecD [OF assms(2) st])
qed

text \<open>Reading into a buffer stores as many bytes as are asked for.\<close>

lemma read_any:
  assumes "sok ok r st"
  shows "outp (\<lambda>bs st'. (b \<or> length bs = unat c) \<and> used ok r st st') (used ok r st) (pb_read st b c)"
  using read_length [OF assms, of c] read_spec [OF assms, of c b]
  by (cases b) (auto elim!: outp_mono)

lemma dspec_read_into:
  assumes "inV V a n" and "within b (unat c) a n"
  shows "dsafe ok V a n (read_into b c)"
proof -
  have rd: "dspec ok V a n (\<lambda>bs s s'. b = 0 \<or> length bs = unat c) (on_stream (\<lambda>st. pb_read st (b = 0) c))"
    by (rule dspec_on_stream) (rule read_any)
  show ?thesis
    unfolding read_into_def [abs_def]
  proof (rule dspec_then [OF rd])
    fix bs :: "byte list" assume "b = 0 \<or> length bs = unat c"
    then show "dsafe ok V a n (\<lambda>s. if b = 0 then Ret () s else put b bs s)"
      using dspec_put [OF assms(1), of b bs] assms(2) by (intro dspec_If) (auto intro: dspec_Ret)
  qed
qed

lemmas dspec_stream_short =
  dspec_on_stream [where Q = "\<lambda>_ st st'. shorter st st'"]

lemma varint_dshort: "dshort ok V a n (on_stream pb_decode_varint)"
  by (rule dspec_stream_short) (rule varint_spec)

lemma varint32_dshort: "dshort ok V a n (on_stream pb_decode_varint32)"
  by (rule dspec_stream_short) (rule varint32_spec)

subsubsection \<open>Field decoders\<close>

lemma put_signed_safe:
  assumes "inV V dest (unat (data_size f))"
  shows "dsafe ok V dest (unat (data_size f)) (put_signed f dest v)"
proof -
  have p: "dsafe ok V dest (unat (data_size f)) (\<lambda>s. andThen (put dest bs s) (\<lambda>_ s. Ret x s))"
    if "length bs = unat (data_size f)" for bs :: "byte list" and x :: int
    by (rule dspec_then [OF dspec_put [OF assms]]) (simp_all add: that dspec_Ret)
  show ?thesis
    unfolding put_signed_def [abs_def] by (intro dspec_If dspec_derror p) simp_all
qed

lemma put_unsigned_safe:
  assumes "inV V dest (unat (data_size f))"
  shows "dsafe ok V dest (unat (data_size f)) (put_unsigned f dest v)"
proof -
  have p: "dsafe ok V dest (unat (data_size f)) (\<lambda>s. andThen (put dest bs s) (\<lambda>_ s. Ret x s))"
    if "length bs = unat (data_size f)" for bs :: "byte list" and x :: "64 word"
    by (rule dspec_then [OF dspec_put [OF assms]]) (simp_all add: that dspec_Ret)
  show ?thesis
    unfolding put_unsigned_def [abs_def] by (intro dspec_If dspec_derror p) simp_all
qed

lemma dec_varint_short:
  assumes "inV V dest (unat (data_size f))"
  shows "dshort ok V dest (unat (data_size f)) (pb_dec_varint f dest)"
  unfolding pb_dec_varint_def [abs_def] Let_def
  by (intro dshort_then [OF varint_dshort] dspec_then [OF put_signed_safe [OF assms]] dspec_If dspec_derror dspec_Ret) simp

lemma dec_uvarint_short:
  assumes "inV V dest (unat (data_size f))"
  shows "dshort ok V dest (unat (data_size f)) (pb_dec_uvarint f dest)"
  unfolding pb_dec_uvarint_def [abs_def]
  by (intro dshort_then [OF varint_dshort] dspec_then [OF put_unsigned_safe [OF assms]] dspec_If dspec_derror dspec_Ret) simp

lemma dec_svarint_short:
  assumes "inV V dest (unat (data_size f))"
  shows "dshort ok V dest (unat (data_size f)) (pb_dec_svarint f dest)"
proof -
  have "dshort ok V dest (unat (data_size f)) (on_stream pb_decode_svarint)"
    by (rule dspec_stream_short) (rule svarint_spec)
  then show ?thesis
    unfolding pb_dec_svarint_def [abs_def]
    by (intro dshort_then dspec_then [OF put_signed_safe [OF assms]] dspec_If dspec_derror dspec_Ret) simp
qed

lemma dec_fixed32_short:
  assumes "inV V dest (unat (data_size f))" and "4 \<le> unat (data_size f)"
  shows "dshort ok V dest (unat (data_size f)) (pb_dec_fixed32 f dest)"
  unfolding pb_dec_fixed32_def [abs_def]
proof (rule dshort_then)
  show "dshort ok V dest (unat (data_size f)) (on_stream pb_decode_fixed32)"
    by (rule dspec_stream_short) (rule fixed32_spec)
  show "dsafe ok V dest (unat (data_size f)) (put dest (word_le 4 x))" for x :: "32 word"
    using assms(2) by (intro dspec_put [OF assms(1)] within_prefix) simp
qed

lemma dec_fixed64_short:
  assumes "inV V dest (unat (data_size f))" and "8 \<le> unat (data_size f)"
  shows "dshort ok V dest (unat (data_size f)) (pb_dec_fixed64 f dest)"
  unfolding pb_dec_fixed64_def [abs_def]
proof (rule dshort_then)
  show "dshort ok V dest (unat (data_size f)) (on_stream pb_decode_fixed64)"
    by (rule dspec_stream_short) (rule fixed64_spec)
  show "dsafe ok V dest (unat (data_size f)) (put dest (word_le 8 x))" for x :: "64 word"
    using assms(2) by (intro dspec_put [OF assms(1)] within_prefix) simp
qed

lemma allocsize_le:
  "\<not> PB_BYTES_ARRAY_T_ALLOCSIZE sz > ucast (k :: 32 word) \<Longrightarrow> unat sz + 4 \<le> unat k"
  using unat_32_less [of sz]
  by (simp add: PB_BYTES_ARRAY_T_ALLOCSIZE_def word_less_nat_alt unat_word_ariths)

lemma dec_bytes_short:
  assumes "inV V dest (unat (data_size f))"
  shows "dshort ok V dest (unat (data_size f)) (pb_dec_bytes f dest)"
  unfolding pb_dec_bytes_def [abs_def] Let_def
proof (intro dshort_then [OF varint32_dshort] dspec_If dspec_derror)
  fix sz :: "32 word" assume "\<not> PB_BYTES_ARRAY_T_ALLOCSIZE sz > ucast (data_size f)"
  then have le: "unat sz + 4 \<le> unat (data_size f)" by (rule allocsize_le)
  show "dsafe ok V dest (unat (data_size f)) (\<lambda>s. andThen (put (bytes_size dest) (word_le 4 sz) s)
      (\<lambda>_ s. read_into (bytes_bytes dest) (ucast sz) s))"
    using le within_off [of 4 "unat sz" "unat (data_size f)" dest]
    by (intro dspec_then [OF dspec_put [OF assms]] dspec_read_into [OF assms])
      (simp_all add: bytes_size_def bytes_bytes_def within_prefix)
qed

lemma terminated_size:
  assumes "\<not> (ucast (sz + 1) :: size_t) < ucast sz" and "\<not> (ucast (sz + 1) :: size_t) > ucast k"
  shows "unat (sz :: 32 word) + 1 \<le> unat (k :: 32 word)"
proof -
  have "unat sz \<le> unat (sz + 1)" "unat (sz + 1) \<le> unat k"
    using assms by (simp_all add: word_less_nat_alt not_less)
  moreover have "unat (sz + 1) = (unat sz + 1) mod 2 ^ 32" by (simp add: unat_word_ariths)
  ultimately show ?thesis
    using unat_32_less [of sz] by (cases "unat sz + 1 = 2 ^ 32") auto
qed

lemma dec_string_short:
  assumes "inV V dest (unat (data_size f))"
  shows "dshort ok V dest (unat (data_size f)) (pb_dec_string f dest)"
  unfolding pb_dec_string_def [abs_def] Let_def
proof (intro dshort_then [OF varint32_dshort] dspec_If dspec_derror)
  fix sz :: "32 word"
  assume "\<not> (ucast (sz + 1) :: size_t) < ucast sz" "\<not> (ucast (sz + 1) :: size_t) > ucast (data_size f)"
  then have le: "unat sz + 1 \<le> unat (data_size f)" by (rule terminated_size)
  have rd: "dsafe ok V dest (unat (data_size f)) (read_into dest (ucast sz))"
    using le by (intro dspec_read_into [OF assms] within_prefix) simp
  have tm: "dsafe ok V dest (unat (data_size f)) (put (dest + uint sz) [0])"
    using le by (intro dspec_put [OF assms] within_uint) simp
  show "dsafe ok V dest (unat (data_size f)) (\<lambda>s. case read_into dest (ucast sz) s of
      Ret _ s \<Rightarrow> put (dest + uint sz) [0] s
    | Err s \<Rightarrow> andThen (put (dest + uint sz) [0] s) (\<lambda>_ s. Err s) | Undef \<Rightarrow> Undef | NoFuel \<Rightarrow> NoFuel)"
    by (rule dspec_finally [OF rd]) (simp_all add: tm dspec_then [OF tm dspec_Err])
qed

lemma dec_fixed_length_short:
  assumes "inV V dest (unat (data_size f))"
  shows "dshort ok V dest (unat (data_size f)) (pb_dec_fixed_length_bytes f dest)"
  unfolding pb_dec_fixed_length_bytes_def [abs_def]
  by (intro dshort_then [OF varint32_dshort] dspec_If dspec_derror dspec_put [OF assms] dspec_read_into [OF assms]) simp_all

subsubsection \<open>Substreams\<close>

lemma dspec_substream:
  assumes "\<And>r sub s. sok ok r (dstream s) \<Longrightarrow> sok ok (r + unat (bytes_left (dstream s))) sub \<Longrightarrow>
      dom (dmem s) = V \<Longrightarrow> outp (\<lambda>_. dinv ok r a n s) (dinv ok r a n s) (k sub s)"
  shows "dshort ok V a n (\<lambda>s. andThen (on_stream pb_make_string_substream s) k)"
proof (rule dspecI)
  fix r and s :: "'u dstate" assume st: "sok ok r (dstream s)" "dom (dmem s) = V"
  show "outp (\<lambda>x s'. shorter (dstream s) (dstream s') \<and> dinv ok r a n s s') (dinv ok r a n s)
      (andThen (on_stream pb_make_string_substream s) k)"
  proof (cases "pb_make_string_substream (dstream s)")
    case (Ret sub st')
    with make_substream_spec [OF st(1)]
    have m: "sok ok (r + unat (bytes_left st')) sub" "shorter (dstream s) st'" "used ok r (dstream s) st'"
      by auto
    let ?s' = "s\<lparr>dstream := st'\<rparr>"
    have i: "dinv ok r a n s ?s'" using m(3) by (simp add: dinv_def)
    have "outp (\<lambda>_. dinv ok r a n ?s') (dinv ok r a n ?s') (k sub ?s')"
      using assms [of r ?s' sub] m st(2) by (simp add: used_sok)
    then have "outp (\<lambda>x s'. shorter (dstream s) (dstream s') \<and> dinv ok r a n s s') (dinv ok r a n s) (k sub ?s')"
      by (rule outp_mono) (use m(2) dinv_shorter(2) [of s ?s'] dinv_trans [OF i] in auto)
    then show ?thesis by (simp add: on_stream_def Ret)
  qed (use make_substream_spec [OF st(1)] in \<open>simp_all add: on_stream_def dinv_def\<close>)
qed

lemma close_with_safe:
  assumes "sok ok r st" and "sok ok (r + unat (bytes_left st)) (dstream ss)"
    and "mem_frame a n (dmem s) (dmem ss)" and "dstream s = st"
  shows "outp (\<lambda>_. dinv ok r a n s) (dinv ok r a n s) (close_with st status ss)"
  using close_substream_spec [OF assms(2)] assms(1,3,4)
  by (cases "pb_close_string_substream st (dstream ss)")
    (auto simp: close_with_def on_stream_def dinv_def used_def)

lemma in_substream_safe:
  assumes "dsafe ok V a n g" and "sok ok r (dstream s)"
    and "sok ok (r + unat (bytes_left (dstream s))) sub" and "dom (dmem s) = V"
  shows "outp (\<lambda>_. dinv ok r a n s) (dinv ok r a n s) (in_substream g sub s)"
proof -
  have "outp (\<lambda>x s'. True \<and> dinv ok (r + unat (bytes_left (dstream s))) a n (s\<lparr>dstream := sub\<rparr>) s')
      (dinv ok (r + unat (bytes_left (dstream s))) a n (s\<lparr>dstream := sub\<rparr>)) (g (s\<lparr>dstream := sub\<rparr>))"
    using assms by (intro dspecD) simp_all
  then show ?thesis
    by (cases "g (s\<lparr>dstream := sub\<rparr>)")
      (auto simp: in_substream_def dinv_def used_sok intro!: close_with_safe [OF assms(2)])
qed

end

subsection \<open>The interface to the decoder of an item\<close>

text \<open>
  What static fields rely on: on a field that satisfies \<open>good\<close>, the decoder \<open>func\<close> stays
  inside the item and consumes input whenever it succeeds.
\<close>

locale item_decoder = istream_source ok
  for ok :: "'u istate \<Rightarrow> nat \<Rightarrow> bool" +
  fixes V :: "int set" and good :: "pb_field_t \<Rightarrow> bool" and func :: "'u decoder"
  assumes func_short:
    "good f \<Longrightarrow> inV V dest (unat (data_size f)) \<Longrightarrow> dshort ok V dest (unat (data_size f)) (func f dest)"
begin

lemma func_within:
  assumes "good f" and "inV V a n" and "within dest (unat (data_size f)) a n"
  shows "dshort ok V a n (func f dest)"
  using assms by (intro dspec_within [OF func_short]) (auto intro: inV_within)

text \<open>One round of the packed loop, then the rest of it.\<close>

lemma packed_item_short:
  assumes "good (cur it)" and V: "inV V a n" and p: "within (pSize it) 4 a n"
    and "within (ditem it i) (unat (data_size (cur it))) a n"
  shows "dshort ok V a n (\<lambda>s. andThen (func (cur it) (ditem it i) s) (\<lambda>_ s.
     deref (load_u32 (dmem s) (pSize it)) (\<lambda>sz. put (pSize it) (word_le 4 (sz + 1)) s)))"
proof (rule dshort_then [OF func_within [OF assms(1,2,4)]])
  show "dsafe ok V a n (\<lambda>s. deref (load_u32 (dmem s) (pSize it)) (\<lambda>sz. put (pSize it) (word_le 4 (sz + 1)) s))"
    by (rule dspec_load_u32 [OF inV_within [OF V p]], rule dspec_put [OF V]) (simp add: p)
qed

lemma andThen_deref: "andThen (deref v k) h = deref v (\<lambda>x. andThen (k x) h)"
  by (cases v) auto

lemma packed_loop_safe:
  assumes "good (cur it)" and V: "inV V a n" and p: "within (pSize it) 4 a n"
    and item: "\<And>i. i < array_size (cur it) \<Longrightarrow> within (ditem it i) (unat (data_size (cur it))) a n"
    and "sok ok r (dstream s)" and "dom (dmem s) = V" and "unat (bytes_left (dstream s)) \<le> k"
  shows "outp (\<lambda>_. dinv ok r a n s) (dinv ok r a n s) (packed_loop k func it s)"
  using assms(5-7)
proof (induction k arbitrary: s)
  case 0
  then have "bytes_left (dstream s) = 0" by (simp add: unat_eq_zero)
  with 0 show ?case by (simp add: packed_loop.simps [of 0] dinv_refl)
next
  case (Suc k)
  show ?case
  proof (cases "bytes_left (dstream s) = 0")
    case True
    then show ?thesis using Suc.prems by (simp add: packed_loop.simps [of "Suc k"] dinv_refl)
  next
    case False
    have "valid_range (dmem s) (pSize it) 4"
      using inV_within [OF V p] Suc.prems(2) inV_valid [of "dmem s"] by simp
    then have "load_u32 (dmem s) (pSize it) \<noteq> None" unfolding load_u32_valid .
    then obtain i where i: "load_u32 (dmem s) (pSize it) = Some i" by blast
    show ?thesis
    proof (cases "i < array_size (cur it)")
      case True
      let ?g = "\<lambda>s. andThen (func (cur it) (ditem it i) s) (\<lambda>_ s.
        deref (load_u32 (dmem s) (pSize it)) (\<lambda>sz. put (pSize it) (word_le 4 (sz + 1)) s))"
      have "packed_loop (Suc k) func it s = andThen (?g s) (\<lambda>_ s. packed_loop k func it s)"
        using False i True by (simp add: packed_loop.simps [of "Suc k"] andThen_assoc andThen_deref)
      moreover have "outp (\<lambda>_. dinv ok r a n s) (dinv ok r a n s) (andThen (?g s) (\<lambda>_ s. packed_loop k func it s))"
      proof (rule outp_andThen [OF dspecD [OF packed_item_short [OF assms(1) V p item [OF True]] Suc.prems(1,2)]])
        fix s' assume "shorter (dstream s) (dstream s') \<and> dinv ok r a n s s'"
        then have sh: "unat (bytes_left (dstream s')) \<le> k" and d: "dinv ok r a n s s'"
          using Suc.prems(3) by (auto simp: shorter_def)
        have "dom (dmem s') = V" using dinv_dom [OF d] Suc.prems(2) by simp
        from Suc.IH [OF dinv_sok [OF d] this sh]
        show "outp (\<lambda>_. dinv ok r a n s) (dinv ok r a n s) (packed_loop k func it s')"
          by (rule outp_mono) (blast intro: dinv_trans [OF d])+
      qed
      ultimately show ?thesis by simp
    next
      case nlt: False
      then show ?thesis using Suc.prems i False by (simp add: packed_loop.simps [of "Suc k"] dinv_refl)
    qed
  qed
qed

lemma packed_safe:
  assumes "good (cur it)" and V: "inV V a n" and p: "within (pSize it) 4 a n"
    and item: "\<And>i. i < array_size (cur it) \<Longrightarrow> within (ditem it i) (unat (data_size (cur it))) a n"
  shows "dsafe ok V a n (decode_packed func it)"
  unfolding decode_packed_def [abs_def] Let_def
proof (rule dspec_safe [OF dspec_substream])
  fix r sub and s :: "'u dstate"
  assume st: "sok ok r (dstream s)" "sok ok (r + unat (bytes_left (dstream s))) sub" "dom (dmem s) = V"
  let ?r = "r + unat (bytes_left (dstream s))" and ?s = "s\<lparr>dstream := sub\<rparr>"
  let ?finish = "\<lambda>status ss. if bytes_left (dstream ss) \<noteq> 0 then derror (ss\<lparr>dstream := dstream s\<rparr>) ''array overflow''
             else close_with (dstream s) status ss"
  have fin: "outp (\<lambda>_. dinv ok r a n s) (dinv ok r a n s) (?finish status ss)" if "dinv ok ?r a n ?s ss" for status ss
  proof (cases "bytes_left (dstream ss) = 0")
    case True
    with that show ?thesis
      by (auto simp: dinv_def used_sok intro!: close_with_safe [OF st(1)])
  next
    case False
    with that st(1) show ?thesis
      by (simp add: derror_def on_stream_def ierror_def dinv_def used_def sok_def)
  qed
  have "outp (\<lambda>_. dinv ok ?r a n ?s) (dinv ok ?r a n ?s) (packed_loop (unat (bytes_left sub)) func it ?s)"
    using st by (intro packed_loop_safe [OF assms]) simp_all
  then show "outp (\<lambda>_. dinv ok r a n s) (dinv ok r a n s)
      (case packed_loop (unat (bytes_left sub)) func it ?s of
         Ret _ ss \<Rightarrow> ?finish True ss | Err ss \<Rightarrow> ?finish False ss | Undef \<Rightarrow> Undef | NoFuel \<Rightarrow> NoFuel)"
    using fin by (cases "packed_loop (unat (bytes_left sub)) func it ?s") simp_all
qed

end

subsection \<open>The interface between a message and its submessages\<close>

locale msg_decoder = istream_source ok
  for ok :: "'u istate \<Rightarrow> nat \<Rightarrow> bool" +
  fixes V :: "int set" and E :: "'u dec_env" and n :: nat and noinit :: "'u msg_decoder"
  assumes noinit_safe:
    "dmsg_ok V n (ddesc E) fs sz \<Longrightarrow> inV V dest sz \<Longrightarrow> dsafe ok V dest sz (noinit fs dest)"
begin

lemma init_safe:
  assumes "dmsg_ok V n (ddesc E) fs sz" and "inV V dest sz"
  shows "dsafe ok V dest sz (decode_init n E noinit fs dest)"
  unfolding decode_init_def [abs_def]
  by (rule dspec_then [OF dspec_on_mem [OF defaults_safe [OF assms]]]) (rule noinit_safe [OF assms])

lemma submessage_short:
  assumes "ptr f \<noteq> 0" and "dmsg_ok V n (ddesc E) (ddesc E (ptr f)) (unat (data_size f))"
    and "inV V dest (unat (data_size f))"
  shows "dshort ok V dest (unat (data_size f)) (pb_dec_submessage n E noinit f dest)"
  unfolding pb_dec_submessage_def [abs_def]
proof (rule dspec_substream)
  fix r sub and s :: "'u dstate"
  assume st: "sok ok r (dstream s)" "sok ok (r + unat (bytes_left (dstream s))) sub" "dom (dmem s) = V"
  note rules = in_substream_safe [OF init_safe [OF assms(2,3)] st] in_substream_safe [OF noinit_safe [OF assms(2,3)] st]
  show "outp (\<lambda>_. dinv ok r dest (unat (data_size f)) s) (dinv ok r dest (unat (data_size f)) s)
     (if ptr f = 0 then derror s ''invalid field descriptor''
      else if PB_HTYPE (ftype f) = PB_HTYPE_REPEATED
      then in_substream (decode_init n E noinit (ddesc E (ptr f)) dest) sub s
      else in_substream (noinit (ddesc E (ptr f)) dest) sub s)"
    using rules assms(1) by simp
qed

lemma decoders_short:
  assumes "item_desc V n (ddesc E) lt f" and V: "inV V dest (unat (data_size f))"
  shows "dshort ok V dest (unat (data_size f)) (PB_DECODERS n E noinit lt f dest)"
proof -
  have lt: "PB_LTYPE (ftype f) = lt" and ok: "item_ok f"
    using assms(1) by (simp_all add: item_desc_def)
  from ok have "has_ltype f" by (simp add: item_ok_def)
  then show ?thesis
  proof (cases f rule: ltype_cases)
    case 4
    then show ?thesis using ok lt by (simp add: PB_DECODERS_def item_ok_def dec_fixed32_short [OF V])
  next
    case 5
    then show ?thesis using ok lt by (simp add: PB_DECODERS_def item_ok_def dec_fixed64_short [OF V])
  next
    case 8
    then show ?thesis
      using assms lt by (simp add: PB_DECODERS_def item_desc_def submessage_short)
  qed (use lt V in \<open>simp_all add: PB_DECODERS_def dec_varint_short dec_uvarint_short dec_svarint_short
      dec_bytes_short dec_string_short dec_fixed_length_short\<close>)
qed

end

sublocale msg_decoder \<subseteq> item: item_decoder ok V "item_desc V n (ddesc E) lt" "PB_DECODERS n E noinit lt" for lt
  by unfold_locales (rule decoders_short)

context msg_decoder
begin

lemma item_desc_field:
  assumes "dmsg_ok V (Suc n) (ddesc E) fs sz" and "k < length fs"
  shows "item_desc V n (ddesc E) (PB_LTYPE (ftype (fs ! k))) (fs ! k)"
  using msg_okD(4,8) [OF assms(1) [unfolded dmsg_ok_def] assms(2)] by (simp add: item_desc_def dmsg_ok_def)

lemma oneof_safe:
  assumes ok: "dmsg_ok V (Suc n) (ddesc E) fs sz" and V: "inV V dest sz" and k: "k < length fs"
    and st: "PB_ATYPE (ftype (fs ! k)) = PB_ATYPE_STATIC" and h: "PB_HTYPE (ftype (fs ! k)) = PB_HTYPE_ONEOF"
  shows "dsafe ok V dest sz (decode_static_field n E noinit wt (iter_nth fs dest k))"
proof -
  let ?f = "fs ! k" and ?it = "iter_nth fs dest k"
  note ok' = ok [unfolded dmsg_ok_def]
  have data: "within (pData ?it) (unat (data_size ?f)) dest sz"
    using st h by (intro field_ok_single [OF ok' k]) simp_all
  have dec: "dsafe ok V dest sz (PB_DECODERS n E noinit (PB_LTYPE (ftype ?f)) ?f (pData ?it))"
    by (rule dspec_safe [OF item.func_within [OF item_desc_field [OF ok k] V data]])
  have size: "dsafe ok V dest sz (put (pSize ?it) (word_le 4 (tag ?f)))"
    using field_ok_size [OF ok' k, of dest] h by (intro dspec_put [OF V]) simp
  have sub: "dsafe ok V dest sz (on_mem (pb_message_set_to_defaults n (ddesc E) (ddesc E (ptr ?f)) (pData ?it)))"
    and ptr: "ptr ?f \<noteq> 0" if l: "PB_LTYPE (ftype ?f) = PB_LTYPE_SUBMESSAGE"
  proof -
    have m: "ptr ?f \<noteq> 0" "dmsg_ok V n (ddesc E) (ddesc E (ptr ?f)) (unat (data_size ?f))"
      using msg_okD(8) [OF ok' k l] by (simp_all add: dmsg_ok_def)
    show "ptr ?f \<noteq> 0" by (rule m(1))
    show "dsafe ok V dest sz (on_mem (pb_message_set_to_defaults n (ddesc E) (ddesc E (ptr ?f)) (pData ?it)))"
      by (rule dspec_within [OF dspec_on_mem [OF defaults_safe [OF m(2) inV_within [OF V data]]] data])
  qed
  have clear: "dsafe ok V dest sz (put (pData ?it) (replicate (unat (data_size ?f)) 0))"
    using data by (intro dspec_put [OF V]) simp
  have init: "dsafe ok V dest sz (\<lambda>s. if PB_LTYPE (ftype ?f) = PB_LTYPE_SUBMESSAGE
      then andThen (put (pData ?it) (replicate (unat (data_size ?f)) 0) s) (\<lambda>_ s.
        if ptr ?f = 0 then Undef
        else on_mem (pb_message_set_to_defaults n (ddesc E) (ddesc E (ptr ?f)) (pData ?it)) s)
      else Ret () s)"
    by (intro dspec_If dspec_then [OF clear] dspec_Ret) (simp_all add: sub [simplified] ptr)
  have cur: "cur ?it = ?f" using k by simp
  from dspec_then [OF size dspec_then [OF init dec]] show ?thesis
    unfolding decode_static_field_def [abs_def] Let_def cur using h by simp
qed

lemma static_safe:
  assumes ok: "dmsg_ok V (Suc n) (ddesc E) fs sz" and V: "inV V dest sz" and k: "k < length fs"
    and st: "PB_ATYPE (ftype (fs ! k)) = PB_ATYPE_STATIC"
  shows "dsafe ok V dest sz (decode_static_field n E noinit wt (iter_nth fs dest k))"
proof -
  let ?f = "fs ! k" and ?it = "iter_nth fs dest k"
  let ?func = "PB_DECODERS n E noinit (PB_LTYPE (ftype ?f))"
  note ok' = ok [unfolded dmsg_ok_def] and good = item_desc_field [OF ok k]
  have cur: "cur ?it = ?f" using k by simp
  have single: "dsafe ok V dest sz (?func ?f (pData ?it))" if "PB_HTYPE (ftype ?f) \<noteq> PB_HTYPE_REPEATED"
    by (rule dspec_safe [OF item.func_within [OF good V field_ok_single [OF ok' k st that]]])
  consider "PB_HTYPE (ftype ?f) = PB_HTYPE_REQUIRED" | "PB_HTYPE (ftype ?f) = PB_HTYPE_OPTIONAL"
    | "PB_HTYPE (ftype ?f) = PB_HTYPE_REPEATED" | "PB_HTYPE (ftype ?f) = PB_HTYPE_ONEOF"
    using HTYPE_cases [of "ftype ?f"] by blast
  then show ?thesis
  proof cases
    case 1
    then show ?thesis unfolding decode_static_field_def [abs_def] Let_def cur using single by simp
  next
    case 2
    have "dsafe ok V dest sz (\<lambda>s. if pSize ?it \<noteq> pData ?it then put (pSize ?it) [1] s else Ret () s)"
      using field_ok_flag [OF ok' k 2, of dest] by (intro dspec_If dspec_put [OF V] dspec_Ret) simp_all
    from dspec_then [OF this single] 2 show ?thesis
      unfolding decode_static_field_def [abs_def] Let_def cur by simp
  next
    case 3
    have size: "within (pSize ?it) 4 dest sz" using field_ok_size [OF ok' k, of dest] 3 by simp
    have item: "within (ditem ?it i) (unat (data_size ?f)) dest sz" if "i < array_size ?f" for i
      using field_ok_item [OF ok' k st 3 that, of dest] by (simp add: ditem_def k)
    have one: "dsafe ok V dest sz (\<lambda>s. deref (load_u32 (dmem s) (pSize ?it)) (\<lambda>i.
        if i \<ge> array_size ?f then derror s ''array overflow''
        else andThen (put (pSize ?it) (word_le 4 (i + 1)) s) (\<lambda>_ s. ?func ?f (ditem ?it i) s)))"
    proof (intro dspec_load_u32 [OF inV_within [OF V size]] dspec_If dspec_derror)
      fix i assume "\<not> array_size ?f \<le> i"
      then have "dsafe ok V dest sz (?func ?f (ditem ?it i))"
        by (intro dspec_safe [OF item.func_within [OF good V item]]) simp
      moreover have "dsafe ok V dest sz (put (pSize ?it) (word_le 4 (i + 1)))"
        using size by (intro dspec_put [OF V]) simp
      ultimately show "dsafe ok V dest sz (\<lambda>s. andThen (put (pSize ?it) (word_le 4 (i + 1)) s) (\<lambda>_ s. ?func ?f (ditem ?it i) s))"
        by (rule dspec_then [rotated])
    qed
    have "dsafe ok V dest sz (decode_packed ?func ?it)"
      using item.packed_safe [of _ ?it, OF _ V size] good item by (simp add: k)
    from dspec_If [OF this one] 3 show ?thesis
      unfolding decode_static_field_def [abs_def] Let_def cur by simp
  next
    case 4
    then show ?thesis by (rule oneof_safe [OF ok V k st])
  qed
qed

lemma field_safe:
  assumes ok: "dmsg_ok V (Suc n) (ddesc E) fs sz" and V: "inV V dest sz" and k: "k < length fs"
  shows "dsafe ok V dest sz (decode_field n E noinit wt (iter_nth fs dest k))"
proof -
  have cur: "cur (iter_nth fs dest k) = fs ! k" using k by simp
  have "PB_ATYPE (ftype (fs ! k)) = PB_ATYPE_STATIC \<or> PB_ATYPE (ftype (fs ! k)) = PB_ATYPE_POINTER"
    using msg_okD(5) [OF ok [unfolded dmsg_ok_def] k] by (simp add: dfield_ok_def)
  then show ?thesis
    unfolding decode_field_def [abs_def] cur decode_pointer_field_def
    by (elim disjE) (simp_all add: static_safe [OF ok V k] dspec_derror)
qed

text \<open>
  In an empty message the search for tag 0 stops at the terminator, which is then treated as a
  required varint of size 0: decoding it fails.
\<close>

lemma terminator_safe: "dsafe ok V dest sz (decode_field n E noinit wt (iter_nth [] dest 0))"
proof -
  have parts: "PB_ATYPE (ftype PB_LAST_FIELD) = PB_ATYPE_STATIC" "PB_HTYPE (ftype PB_LAST_FIELD) = PB_HTYPE_REQUIRED"
    "PB_LTYPE (ftype PB_LAST_FIELD) = PB_LTYPE_VARINT" "data_size PB_LAST_FIELD = 0"
    "data_offset PB_LAST_FIELD = 0"
    by (simp_all add: PB_LAST_FIELD_def PB_ATYPE_def PB_HTYPE_def PB_LTYPE_def)
  have "dshort ok V dest 0 (pb_dec_varint PB_LAST_FIELD dest)"
    using dec_varint_short [of V dest PB_LAST_FIELD] parts(4) by (simp add: inV_def)
  then have "dsafe ok V dest sz (pb_dec_varint PB_LAST_FIELD dest)"
    by (intro dspec_safe [OF dspec_within]) (auto intro: within_prefix)
  then show ?thesis
    unfolding decode_field_def [abs_def] decode_static_field_def [abs_def] Let_def
    by (simp add: parts PB_DECODERS_def)
qed

lemma field_at_safe:
  assumes "dmsg_ok V (Suc n) (ddesc E) fs sz" and "inV V dest sz" and "at_field fs k"
  shows "dsafe ok V dest sz (decode_field n E noinit wt (iter_nth fs dest k))"
  using assms field_safe terminator_safe by (auto simp: at_field_def)

subsubsection \<open>The main loop\<close>

lemma tag_bound:
  assumes "sok ok r st"
  shows "outp (\<lambda>(v, eof) st'. ((v \<noteq> None \<longrightarrow> shorter st st') \<and> (\<forall>wt tg. v = Some (wt, tg) \<longrightarrow> tg < - 1)) \<and> used ok r st st')
     (used ok r st) (pb_decode_tag st)"
proof -
  have "drop_bit 3 w < - 1" for w :: "32 word"
  proof -
    have "unat (drop_bit 3 w) = unat w div 8"
      unfolding unat_drop_bit_eq by (simp add: drop_bit_eq_div)
    also have "\<dots> < 2 ^ 32 - 1" using unat_32_less [of w] by (auto intro: less_mult_imp_div_less)
    also have "\<dots> = unat (- 1 :: 32 word)" by (simp add: unsigned_minus_1_eq_mask mask_eq_exp_minus_1)
    finally show ?thesis by (simp add: word_less_nat_alt)
  qed
  then show ?thesis
    using varint32_spec [OF assms] by (cases "pb_decode_varint32 st") (auto simp: pb_decode_tag_def)
qed

lemma no_extension:
  assumes "dmsg_ok V (Suc n) (ddesc E) fs sz" and "i < length fs"
  shows "PB_LTYPE (ftype (fs ! i)) \<noteq> PB_LTYPE_EXTENSION"
  using msg_okD(4) [OF assms(1) [unfolded dmsg_ok_def] assms(2)] by (simp add: item_ok_def has_ltype_def)

lemma no_extension_field:
  assumes "dmsg_ok V (Suc n) (ddesc E) fs sz" and "at_field fs k"
  obtains i where "find_extension_field (iter_nth fs dest k) = Some (False, iter_nth fs dest i)" and "at_field fs i"
proof -
  have f: "fields_ok fs" using msg_okD(1) [OF assms(1) [unfolded dmsg_ok_def]] .
  obtain b i where s: "find_extension_field (iter_nth fs dest k) = Some (b, iter_nth fs dest i)"
    "at_field fs i" "b \<longleftrightarrow> PB_LTYPE (ftype (field_at fs i)) = PB_LTYPE_EXTENSION"
    unfolding find_extension_field_def iter_nth_simps by (rule iter_search_at_field [OF f assms(2)])
  have "\<not> b"
    using s(2,3) no_extension [OF assms(1)]
    by (auto simp: at_field_def PB_LAST_FIELD_def PB_LTYPE_def)
  with s that show ?thesis by simp
qed

lemma try_extension_spec:
  assumes "dmsg_ok V (Suc n) (ddesc E) fs sz" and "linv fs dest x" and "tg < - 1"
  obtains x' where "\<And>s. try_extension n E noinit tg wt x s = Ret (False, x') s" and "linv fs dest x'"
proof (cases "tg \<ge> extension_range_start x")
  case False
  then show ?thesis using that [of x] assms(2) by (simp add: try_extension_def)
next
  case True
  from assms(2) obtain k where k: "at_field fs k" "iter x = iter_nth fs dest k" by (auto simp: linv_def)
  obtain i where i: "find_extension_field (iter_nth fs dest k) = Some (False, iter_nth fs dest i)" "at_field fs i"
    by (rule no_extension_field [OF assms(1) k(1)])
  let ?x = "x\<lparr>iter := iter_nth fs dest i, extension_range_start := - 1\<rparr>"
  have "linv fs dest ?x" using assms(2) i(2) by (auto simp: linv_def)
  moreover have "\<not> - 1 \<le> tg" using assms(3) by simp
  then have "try_extension n E noinit tg wt x s = Ret (False, ?x) s" for s
    using True i k by (simp add: try_extension_def Let_def)
  ultimately show ?thesis using that by blast
qed

lemma find_at_field:
  assumes "dmsg_ok V (Suc n) (ddesc E) fs sz" and "at_field fs k"
  obtains b i where "pb_field_iter_find (iter_nth fs dest k) tg = Some (b, iter_nth fs dest i)" and "at_field fs i"
proof -
  have f: "fields_ok fs" using msg_okD(1) [OF assms(1) [unfolded dmsg_ok_def]] .
  obtain b i where "pb_field_iter_find (iter_nth fs dest k) tg = Some (b, iter_nth fs dest i)" "at_field fs i"
    unfolding pb_field_iter_find_def iter_nth_simps by (rule iter_search_at_field [OF f assms(2)])
  then show ?thesis by (rule that)
qed

lemma skip_safe: "dsafe ok V a k (on_stream (\<lambda>st. pb_skip_field st wt))"
  using dspec_on_stream [OF skip_field_spec] by simp

text \<open>One iteration: it keeps the invariant of the locals, and consumes input if the loop goes on.\<close>

lemma tagged_spec:
  assumes ok: "dmsg_ok V (Suc n) (ddesc E) fs sz" and V: "inV V dest sz" and x: "linv fs dest x" and tg: "tg < - 1"
  shows "dspec ok V dest sz (\<lambda>(go, x') s s'. linv fs dest x') (decode_tagged n E noinit wt tg x)"
proof -
  obtain k where k: "at_field fs k" "iter x = iter_nth fs dest k" using x by (auto simp: linv_def)
  obtain b i where f: "pb_field_iter_find (iter_nth fs dest k) tg = Some (b, iter_nth fs dest i)" "at_field fs i"
    by (rule find_at_field [OF ok k(1)])
  have x1: "linv fs dest (x\<lparr>iter := iter_nth fs dest i\<rparr>)" using x f(2) by (auto simp: linv_def)
  have go: "dspec ok V dest sz (\<lambda>(go, x') s s'. linv fs dest x') (\<lambda>s. andThen (g s) (\<lambda>_ s. Ret (True, x') s))"
    if "dsafe ok V dest sz g" and "linv fs dest x'" for g :: "'u dstate \<Rightarrow> (unit, 'u dstate) outcome" and x'
    using that by (intro dspec_thenI [OF that(1)]) (simp add: dinv_refl)
  show ?thesis
  proof (cases b)
    case True
    let ?x = "x\<lparr>iter := iter_nth fs dest i, fields_seen := note_required (iter_nth fs dest i) (fields_seen x)\<rparr>"
    have "linv fs dest ?x" using x1 by (auto simp: linv_def note_required_def Let_def)
    from go [OF field_at_safe [OF ok V f(2)] this] True show ?thesis
      unfolding decode_tagged_def [abs_def] using k f by (simp add: Let_def)
  next
    case False
    obtain x' where e: "\<And>s. try_extension n E noinit tg wt (x\<lparr>iter := iter_nth fs dest i\<rparr>) s = Ret (False, x') s"
      and x': "linv fs dest x'"
      by (rule try_extension_spec [where wt = wt, OF ok x1 tg]) blast
    from go [OF skip_safe x'] False show ?thesis
      unfolding decode_tagged_def [abs_def] using k f by (simp add: Let_def e)
  qed
qed

lemma step_spec:
  assumes ok: "dmsg_ok V (Suc n) (ddesc E) fs sz" and V: "inV V dest sz" and x: "linv fs dest x"
  shows "dspec ok V dest sz (\<lambda>(go, x') s s'. linv fs dest x' \<and> (go \<longrightarrow> shorter (dstream s) (dstream s')))
           (decode_step n E noinit x)"
  unfolding decode_step_def [abs_def]
proof (rule dspec_thenI [OF dspec_on_stream [OF tag_bound [unfolded split_def]]])
  fix r and v :: "(pb_wire_type_t \<times> 32 word) option \<times> bool" and s s' :: "'u dstate"
  assume tag: "(fst v \<noteq> None \<longrightarrow> shorter (dstream s) (dstream s')) \<and> (\<forall>wt tg. fst v = Some (wt, tg) \<longrightarrow> tg < - 1)"
    and st: "sok ok r (dstream s')" "dom (dmem s') = V"
  let ?Q = "\<lambda>y s''. (case y of (go, x') \<Rightarrow> \<lambda>s s'. linv fs dest x' \<and> (go \<longrightarrow> shorter (dstream s) (dstream s'))) s s''
      \<and> dinv ok r dest sz s' s''"
  show "outp ?Q (dinv ok r dest sz s')
      (case fst v of None \<Rightarrow> if snd v then Ret (False, x) s' else Err s'
       | Some (wire_type, tg) \<Rightarrow> decode_tagged n E noinit wire_type tg x s')"
  proof (cases "fst v")
    case None
    then show ?thesis using x st by (auto simp: dinv_refl)
  next
    case (Some p)
    obtain wt tg where p: "p = (wt, tg)" by force
    with tag Some have sh: "shorter (dstream s) (dstream s')" and tg: "tg < - 1" by auto
    have "outp ?Q (dinv ok r dest sz s') (decode_tagged n E noinit wt tg x s')"
      by (rule outp_mono [OF dspecD [OF tagged_spec [OF ok V x tg] st]]) (use dinv_shorter(2) [OF sh] in auto)
    then show ?thesis by (simp add: Some p)
  qed
qed

lemma loop_spec:
  assumes ok: "dmsg_ok V (Suc n) (ddesc E) fs sz" and V: "inV V dest sz"
  shows "linv fs dest x \<Longrightarrow> sok ok r (dstream s) \<Longrightarrow> dom (dmem s) = V \<Longrightarrow> unat (bytes_left (dstream s)) \<le> k \<Longrightarrow>
    outp (\<lambda>x' s'. linv fs dest x' \<and> dinv ok r dest sz s s') (dinv ok r dest sz s)
      (decode_loop k (decode_step n E noinit) x s)"
proof (induction k arbitrary: x s)
  case 0
  then have "bytes_left (dstream s) = 0" by (simp add: unat_eq_zero)
  with 0 show ?case by (simp add: decode_loop.simps [of 0] dinv_refl)
next
  case (Suc k)
  show ?case
  proof (cases "bytes_left (dstream s) = 0")
    case True
    then show ?thesis using Suc.prems by (simp add: decode_loop.simps [of "Suc k"] dinv_refl)
  next
    case False
    have "outp (\<lambda>x' s'. linv fs dest x' \<and> dinv ok r dest sz s s') (dinv ok r dest sz s)
      (andThen (decode_step n E noinit x s) (\<lambda>(go, x) s.
        if go then decode_loop k (decode_step n E noinit) x s else Ret x s))"
    proof (rule outp_andThen [OF dspecD [OF step_spec [OF ok V Suc.prems(1)] Suc.prems(2,3)]])
      fix y s' assume a: "(case y of (go, x') \<Rightarrow> \<lambda>s s'. linv fs dest x' \<and> (go \<longrightarrow> shorter (dstream s) (dstream s'))) s s'
          \<and> dinv ok r dest sz s s'"
      obtain go x' where y: "y = (go, x')" by force
      with a have x': "linv fs dest x'" and sh: "go \<Longrightarrow> shorter (dstream s) (dstream s')" and d: "dinv ok r dest sz s s'"
        by auto
      have "dom (dmem s') = V" using dinv_dom [OF d] Suc.prems(3) by simp
      moreover have "unat (bytes_left (dstream s')) \<le> k" if go
        using sh [OF that] Suc.prems(4) by (simp add: shorter_def)
      ultimately have "outp (\<lambda>x' s''. linv fs dest x' \<and> dinv ok r dest sz s' s'') (dinv ok r dest sz s')
          (decode_loop k (decode_step n E noinit) x' s')" if go
        using Suc.IH [OF x' dinv_sok [OF d]] that by blast
      then have "outp (\<lambda>x' s''. linv fs dest x' \<and> dinv ok r dest sz s s'') (dinv ok r dest sz s)
          (decode_loop k (decode_step n E noinit) x' s')" if go
        by (rule outp_mono [OF _ _ dinv_trans [OF d]]) (use that dinv_trans [OF d] in blast)+
      then show "outp (\<lambda>x' s'. linv fs dest x' \<and> dinv ok r dest sz s s') (dinv ok r dest sz s)
          ((case y of (go, x) \<Rightarrow> \<lambda>s. if go then decode_loop k (decode_step n E noinit) x s else Ret x s) s')"
        using x' d by (simp add: y)
    qed
    then show ?thesis using False by (simp add: decode_loop.simps [of "Suc k"])
  qed
qed

end

subsection \<open>The check of required fields\<close>

lemma req_count_loop_nth:
  assumes "fields_ok fs" and "k < length fs" and "length fs - k \<le> j"
  shows "req_count_loop j (iter_nth fs d k) =
     Some (word_of_nat (required_before fs (length fs - 1)), ftype (fs ! (length fs - 1)), iter_nth fs d 0)"
  using assms(2,3)
proof (induction j arbitrary: k)
  case 0
  then show ?case by simp
next
  case (Suc j)
  show ?case
  proof (cases "Suc k < length fs")
    case True
    then show ?thesis using Suc by (simp add: next_iter_nth [OF assms(1)])
  next
    case False
    then have "Suc k = length fs" using Suc.prems by simp
    then show ?thesis by (simp add: next_iter_nth_last [OF assms(1)] flip: \<open>Suc k = length fs\<close>)
  qed
qed

lemma req_field_count_at:
  assumes "fields_ok fs" and "at_field fs k"
  shows "req_field_count (iter_nth fs d k) = Some (word_of_nat (required_before fs (length fs)))"
proof (cases "fs = []")
  case True
  with assms(2) show ?thesis
    by (simp add: req_field_count_def at_field_def next_iter_nth_empty required_before_def)
next
  case False
  with assms(2) have k: "k < length fs" by (simp add: at_field_def)
  have l: "length fs = Suc (length fs - 1)" using False by simp
  have "tag (fs ! 0) \<noteq> 0" using fields_ok_nth [OF assms(1), of 0] False by simp
  moreover have "required_before fs (length fs) =
      required_before fs (length fs - 1) + (if is_required (fs ! (length fs - 1)) then 1 else 0)"
    using required_before_Suc [of "length fs - 1" fs] False by simp
  ultimately show ?thesis
    using False by (simp add: req_field_count_def req_count_loop_nth [OF assms(1) k] is_required_def
        del: req_count_loop.simps)
qed

lemma whole_words_small: "k \<le> length seen \<Longrightarrow> whole_words seen k = Some (\<forall>i<k. seen ! i = - 1)"
proof (induction k)
  case (Suc k)
  then show ?case by (cases "\<forall>i<k. seen ! i = - 1") (auto simp: All_less_Suc)
qed simp

lemma required_present_defined:
  assumes "length seen = 2" and "c = 0 \<or> c < 64 \<and> c mod 32 \<noteq> 0"
  shows "required_present seen (word_of_nat c) \<noteq> None"
proof (cases "c = 0")
  case True
  then show ?thesis by (simp add: required_present_def)
next
  case False
  with assms(2) have c: "c < 64" "c mod 32 \<noteq> 0" by auto
  have u: "unat (word_of_nat c :: 32 word) = c" using c(1) by (simp add: unat_of_nat)
  have i: "unat (drop_bit 5 (word_of_nat c :: 32 word)) = c div 32"
    unfolding unat_drop_bit_eq u by (simp add: drop_bit_eq_div)
  have "c div 32 < 2" using c(1) by simp
  have "word_of_nat c AND 31 = (take_bit 5 (word_of_nat c) :: 32 word)"
    by (simp add: take_bit_eq_mask mask_eq_exp_minus_1)
  then have m: "unat (word_of_nat c AND 31 :: 32 word) = c mod 32"
    unfolding \<open>word_of_nat c AND 31 = _\<close> unsigned_take_bit_eq u by (simp add: take_bit_eq_mod)
  then have "(word_of_nat c AND 31 :: 32 word) \<noteq> 0" using c(2) by (metis unat_0)
  then show ?thesis
    using \<open>c div 32 < 2\<close> assms(1)
    by (auto simp: required_present_def Let_def i whole_words_small split: option.split bool.split)
qed

subsection \<open>Closing the recursion\<close>

context istream_source
begin

lemma noinit_step:
  assumes md: "msg_decoder ok V E n (pb_decode_noinit n E)"
    and ok: "dmsg_ok V (Suc n) (ddesc E) fs sz" and V: "inV V dest sz"
  shows "dsafe ok V dest sz (pb_decode_noinit (Suc n) E fs dest)"
proof (rule dspecI)
  fix r and s :: "'u dstate" assume st: "sok ok r (dstream s)" "dom (dmem s) = V"
  note f = msg_okD(1,3) [OF ok [unfolded dmsg_ok_def]]
  let ?x = "\<lparr>iter = snd (pb_field_iter_begin fs dest), fields_seen = [0, 0], extension_range_start = 0\<rparr>"
  have x: "linv fs dest ?x"
    by (cases fs) (auto simp: linv_def begin_iter_nth at_field_def)
  show "outp (\<lambda>x s'. True \<and> dinv ok r dest sz s s') (dinv ok r dest sz s) (pb_decode_noinit (Suc n) E fs dest s)"
    unfolding pb_decode_noinit.simps
  proof (rule outp_andThen [OF msg_decoder.loop_spec [OF md ok V x st order_refl]])
    fix x s' assume a: "linv fs dest x \<and> dinv ok r dest sz s s'"
    then obtain k where k: "at_field fs k" "iter x = iter_nth fs dest k" and l: "length (fields_seen x) = 2"
      by (auto simp: linv_def)
    have c: "req_field_count (iter x) = Some (word_of_nat (required_before fs (length fs)))"
      unfolding k(2) by (rule req_field_count_at [OF f(1) k(1)])
    have "required_present (fields_seen x) (word_of_nat (required_before fs (length fs))) \<noteq> None"
      using f(2) by (intro required_present_defined [OF l]) (simp add: req_ok_def Let_def)
    then obtain b where b: "required_present (fields_seen x) (word_of_nat (required_before fs (length fs))) = Some b"
      by blast
    have "dinv ok r dest sz s (s'\<lparr>dstream := (dstream s')\<lparr>ierrmsg := e\<rparr>\<rparr>)" for e
      using a by (simp add: dinv_def used_def sok_def)
    then show "outp (\<lambda>_ s'. True \<and> dinv ok r dest sz s s') (dinv ok r dest sz s)
        (case req_field_count (iter x) of None \<Rightarrow> NoFuel
         | Some count \<Rightarrow> (case required_present (fields_seen x) count of None \<Rightarrow> Undef
             | Some ok \<Rightarrow> if ok then Ret () s' else derror s' ''missing required field''))"
      using a by (simp add: c b derror_def on_stream_def ierror_def)
  qed
qed

lemma noinit_all_safe:
  "dmsg_ok V n (ddesc E) fs sz \<Longrightarrow> inV V dest sz \<Longrightarrow> dsafe ok V dest sz (pb_decode_noinit n E fs dest)"
proof (induction n arbitrary: fs sz dest)
  case 0
  then show ?case by (simp add: dmsg_ok_def)
next
  case (Suc n)
  have "msg_decoder ok V E n (pb_decode_noinit n E)"
    by (intro msg_decoder.intro istream_source_axioms msg_decoder_axioms.intro Suc.IH)
  then show ?case using Suc.prems by (rule noinit_step)
qed

end

interpretation nested: msg_decoder src_ok V E n "pb_decode_noinit n E" for V E n
  by unfold_locales (rule src.noinit_all_safe)

lemma decode_safe:
  assumes "dmsg_ok V n (ddesc E) fs sz" and "inV V dest sz"
  shows "dsafe src_ok V dest sz (pb_decode n E fs dest)"
  unfolding pb_decode_def [abs_def] by (rule nested.init_safe [OF assms])

lemma decode_delimited_safe:
  assumes "dmsg_ok V n (ddesc E) fs sz" and "inV V dest sz"
  shows "dsafe src_ok V dest sz (pb_decode_delimited n E fs dest)"
  unfolding pb_decode_delimited_def [abs_def]
  by (rule dspec_safe [OF src.dspec_substream]) (rule src.in_substream_safe [OF decode_safe [OF assms]])

lemma dsafe_returns:
  assumes "dsafe ok (dom m) a n g" and "ok (istate st) (unat (bytes_left st))"
  shows "\<exists>s'. (g \<lparr>dstream = st, dmem = m\<rparr> = Ret () s' \<or> g \<lparr>dstream = st, dmem = m\<rparr> = Err s') \<and>
     mem_frame a n m (dmem s') \<and> unat (bytes_left (dstream s')) \<le> unat (bytes_left st) \<and>
     ok (istate (dstream s')) (unat (bytes_left (dstream s')))"
  using dspecD [OF assms(1), of 0 "\<lparr>dstream = st, dmem = m\<rparr>"] assms(2)
  by (cases "g \<lparr>dstream = st, dmem = m\<rparr>") (auto simp: sok_def dinv_def used_def)

end
