(* ===== verification/PB_Wire.thy ===== *)
theory PB_Wire
  imports PB_Ostream PB_Istream
begin

text \<open>
  The wire format: what the primitive decoders of \<open>PB_Istream\<close> compute on a memory buffer, and
  that they invert the primitive encoders of \<open>PB_Ostream\<close>.

  \<open>is_varint\<close> and \<open>varint_val\<close> are the reference definitions of a base-128 varint and of its
  value; the decoding loops, which assemble a result with shifts and ors at a fixed width, are shown
  to compute the value modulo that width.
\<close>

fun is_varint :: "byte list \<Rightarrow> bool" where
  "is_varint [] = False"
| "is_varint [b] = (\<not> bit b 7)"
| "is_varint (b # bs) = (bit b 7 \<and> is_varint bs)"

primrec varint_val :: "byte list \<Rightarrow> nat" where
  "varint_val [] = 0"
| "varint_val (b # bs) = unat b mod 128 + 128 * varint_val bs"

definition ibuf :: "byte list \<Rightarrow> size_t \<Rightarrow> string option \<Rightarrow> 'u pb_istream_t" where
  "ibuf bs n e = \<lparr>istate = Ibuf bs, bytes_left = n, ierrmsg = e\<rparr>"

subsection \<open>The varint decoders on a buffer\<close>

lemma ibuf_simps [simp]:
  "bytes_left (ibuf bs n e) = n" "istate (ibuf bs n e) = Ibuf bs" "ierrmsg (ibuf bs n e) = e"
  "(ibuf bs n e)\<lparr>bytes_left := k\<rparr> = ibuf bs k e" "(ibuf bs n e)\<lparr>istate := Ibuf cs\<rparr> = ibuf cs n e"
  "(ibuf bs n e)\<lparr>ierrmsg := e'\<rparr> = ibuf bs n e'"
  by (simp_all add: ibuf_def)

lemma ibuf_from_buffer: "pb_istream_from_buffer bs n = ibuf bs n None"
  by (simp add: pb_istream_from_buffer_def ibuf_def)

lemma readbyte_ibuf: "n \<noteq> 0 \<Longrightarrow> pb_readbyte (ibuf (b # bs) n e) = Ret b (ibuf bs (n - 1) e)"
  by (simp add: pb_readbyte_def istream_callback_def buf_read_def)

lemma readbyte_empty: "pb_readbyte (ibuf bs 0 e) = ierror (ibuf bs 0 e) ''end-of-stream''"
  by (simp add: pb_readbyte_def)

lemma group_or:
  assumes "x < 128"
  shows "word_of_nat x OR push_bit 7 (word_of_nat y) = (word_of_nat (x + 128 * y) :: 'a::len word)"
proof -
  have "word_of_nat x AND push_bit 7 (word_of_nat y) = (0 :: 'a word)"
  proof (rule bit_word_eqI)
    fix n assume "n < LENGTH('a)"
    have "\<not> bit x n" if "7 \<le> n"
    proof -
      have "take_bit 7 x = x" using assms by (simp add: take_bit_eq_mod)
      then show ?thesis using that by (metis bit_take_bit_iff not_le)
    qed
    then show "bit (word_of_nat x AND push_bit 7 (word_of_nat y) :: 'a word) n = bit (0 :: 'a word) n"
      by (auto simp: bit_and_iff bit_push_bit_iff bit_of_nat_iff)
  qed
  then have "word_of_nat x OR push_bit 7 (word_of_nat y) = word_of_nat x + (push_bit 7 (word_of_nat y) :: 'a word)"
    by (simp add: disjunctive_add_eq_or)
  also have "\<dots> = word_of_nat (x + 128 * y)"
    by (simp add: push_bit_eq_mult mult.commute)
  finally show ?thesis .
qed

lemma ucast_low_group: "(ucast (b AND 0x7F :: byte) :: 'a::len word) = word_of_nat (unat b mod 128)"
proof -
  have "(ucast (take_bit 7 b) :: 'a word) = word_of_nat (unat (take_bit 7 b))"
    by (rule of_nat_unat [symmetric])
  then show ?thesis unfolding and_127 unat_take_bit_7 .
qed

lemma push_group:
  "push_bit p (ucast (b AND 0x7F :: byte)) OR push_bit (p + 7) (word_of_nat y)
     = push_bit p (word_of_nat (unat b mod 128 + 128 * y) :: 'a::len word)"
proof -
  have "push_bit p (ucast (b AND 0x7F :: byte)) OR push_bit (p + 7) (word_of_nat y :: 'a word)
      = push_bit p (word_of_nat (unat b mod 128) OR push_bit 7 (word_of_nat y))"
    by (simp add: ucast_low_group push_bit_or push_bit_push_bit add.commute)
  also have "\<dots> = push_bit p (word_of_nat (unat b mod 128 + 128 * y))"
    by (subst group_or) simp_all
  finally show ?thesis .
qed

lemma count_pos: "length (b # bs) \<le> unat n \<Longrightarrow> n \<noteq> 0 \<and> length bs \<le> unat (n - 1)"
  for n :: size_t
proof -
  assume l: "length (b # bs) \<le> unat n"
  then have "n \<noteq> 0" by auto
  then have "1 \<le> n" by (rule word_one_le)
  with l \<open>n \<noteq> 0\<close> show ?thesis by (simp add: unat_sub)
qed

lemma varint_loop_ibuf:
  "is_varint bs \<Longrightarrow> length bs \<le> unat n \<Longrightarrow> p + 7 * length bs \<le> 70 \<Longrightarrow>
   varint_loop (ibuf (bs @ rest) n e :: 'u pb_istream_t) w p =
     Ret (w OR push_bit p (word_of_nat (varint_val bs))) (ibuf rest (n - word_of_nat (length bs)) e)"
proof (induction bs arbitrary: n w p rule: is_varint.induct)
  case 1
  then show ?case by simp
next
  case (2 b)
  then have "n \<noteq> 0" using count_pos [of b "[]" n] by simp
  with 2 show ?case
    by (subst varint_loop.simps) (simp add: count_pos readbyte_ibuf Let_def and_128 ucast_low_group)
next
  case (3 b c bs)
  note n = count_pos [OF "3.prems"(2)]
  have "varint_loop (ibuf ((b # c # bs) @ rest) n e :: 'u pb_istream_t) w p =
      varint_loop (ibuf ((c # bs) @ rest) (n - 1) e) (w OR push_bit p (ucast (b AND 0x7F))) (p + 7)"
    using "3.prems" n by (subst varint_loop.simps) (simp add: readbyte_ibuf Let_def and_128)
  also have "\<dots> = Ret ((w OR push_bit p (ucast (b AND 0x7F))) OR
       push_bit (p + 7) (word_of_nat (varint_val (c # bs)))) (ibuf rest (n - 1 - word_of_nat (length (c # bs))) e)"
    using "3.prems" n by (intro "3.IH") auto
  finally show ?case
    by (simp only: or.assoc push_group varint_val.simps) (simp add: algebra_simps)
qed

lemma varint32_loop_ibuf:
  "is_varint bs \<Longrightarrow> length bs \<le> unat n \<Longrightarrow> p + 7 * length bs \<le> 35 \<Longrightarrow>
   varint32_loop (ibuf (bs @ rest) n e :: 'u pb_istream_t) w p =
     Ret (w OR push_bit p (word_of_nat (varint_val bs))) (ibuf rest (n - word_of_nat (length bs)) e)"
proof (induction bs arbitrary: n w p rule: is_varint.induct)
  case 1
  then show ?case by simp
next
  case (2 b)
  then have "n \<noteq> 0" using count_pos [of b "[]" n] by simp
  with 2 show ?case
    by (subst varint32_loop.simps) (simp add: count_pos readbyte_ibuf Let_def and_128 ucast_low_group)
next
  case (3 b c bs)
  note n = count_pos [OF "3.prems"(2)]
  have "varint32_loop (ibuf ((b # c # bs) @ rest) n e :: 'u pb_istream_t) w p =
      varint32_loop (ibuf ((c # bs) @ rest) (n - 1) e) (w OR push_bit p (ucast (b AND 0x7F))) (p + 7)"
    using "3.prems" n by (subst varint32_loop.simps) (simp add: readbyte_ibuf Let_def and_128)
  also have "\<dots> = Ret ((w OR push_bit p (ucast (b AND 0x7F))) OR
       push_bit (p + 7) (word_of_nat (varint_val (c # bs)))) (ibuf rest (n - 1 - word_of_nat (length (c # bs))) e)"
    using "3.prems" n by (intro "3.IH") auto
  finally show ?case
    by (simp only: or.assoc push_group varint_val.simps) (simp add: algebra_simps)
qed

lemma decode_varint_ibuf:
  assumes "is_varint bs" and "length bs \<le> unat n" and "length bs \<le> 10"
  shows "pb_decode_varint (ibuf (bs @ rest) n e) =
     Ret (word_of_nat (varint_val bs)) (ibuf rest (n - word_of_nat (length bs)) e)"
  using varint_loop_ibuf [OF assms(1,2), of 0 rest e 0] assms(3) by (simp add: pb_decode_varint_def)

lemma decode_varint32_ibuf:
  assumes "is_varint bs" and "length bs \<le> unat n" and "length bs \<le> 5"
  shows "pb_decode_varint32 (ibuf (bs @ rest) n e) =
     Ret (word_of_nat (varint_val bs)) (ibuf rest (n - word_of_nat (length bs)) e)"
proof (cases bs rule: is_varint.cases)
  case 1
  with assms(1) show ?thesis by simp
next
  case (2 b)
  then have "take_bit 7 b = b" using assms(1)
    by (intro bit_word_eqI) (auto simp: bit_take_bit_iff eval_nat_numeral less_Suc_eq)
  then have "unat b mod 128 = unat b" by (metis unat_take_bit_7)
  moreover have "n \<noteq> 0" using count_pos [of b "[]" n] 2 assms(2) by simp
  ultimately show ?thesis
    using 2 assms by (simp add: pb_decode_varint32_def readbyte_ibuf and_128)
next
  case (3 b c cs)
  note n = count_pos [OF assms(2) [unfolded 3]]
  have "pb_decode_varint32 (ibuf (bs @ rest) n e) =
      varint32_loop (ibuf ((c # cs) @ rest) (n - 1) e) (ucast (b AND 0x7F)) 7"
    using assms(1) n 3 by (simp add: pb_decode_varint32_def readbyte_ibuf and_128)
  also have "\<dots> = Ret (ucast (b AND 0x7F) OR push_bit 7 (word_of_nat (varint_val (c # cs))))
      (ibuf rest (n - 1 - word_of_nat (length (c # cs))) e)"
    using assms 3 n by (intro varint32_loop_ibuf) auto
  also have "\<dots> = Ret (word_of_nat (varint_val bs)) (ibuf rest (n - word_of_nat (length bs)) e)"
    using push_group [of 0 b "varint_val (c # cs)"] 3 by (simp add: algebra_simps)
  finally show ?thesis .
qed

subsection \<open>The reference encoding\<close>

lemma byte_group:
  "n < 128 \<Longrightarrow> unat (word_of_nat n :: byte) = n"
  "unat (word_of_nat (n mod 128 + 128) :: byte) = n mod 128 + 128"
proof -
  show "n < 128 \<Longrightarrow> unat (word_of_nat n :: byte) = n" by (simp add: unat_of_nat)
  have "n mod 128 + 128 < 256" by simp
  then show "unat (word_of_nat (n mod 128 + 128) :: byte) = n mod 128 + 128"
    by (simp add: unat_of_nat del: of_nat_add)
qed

lemma bit_7_unat: "bit b 7 \<longleftrightarrow> 128 \<le> unat (b :: byte)"
proof -
  have lt: "unat b < 256" using unsigned_less [of b] by simp
  have "bit b 7 \<longleftrightarrow> bit (unat b) 7" by (simp add: bit_unsigned_iff)
  also have "\<dots> \<longleftrightarrow> odd (unat b div 128)" by (simp add: bit_iff_odd)
  also have "unat b div 128 = (if 128 \<le> unat b then 1 else 0)"
    using lt by (auto intro: div_nat_eqI)
  finally show ?thesis by simp
qed

lemma varint_Cons: "\<not> n < 128 \<Longrightarrow> varint n = word_of_nat (n mod 128 + 128) # varint (n div 128)"
  by (subst varint.simps) simp

lemma is_varint_varint: "is_varint (varint n)"
proof (induction n rule: varint.induct)
  case (1 n)
  show ?case
  proof (cases "n < 128")
    case True
    then show ?thesis by (subst varint.simps) (simp add: bit_7_unat byte_group)
  next
    case False
    obtain c cs where c: "varint (n div 128) = c # cs"
      using varint_nonempty by (cases "varint (n div 128)") auto
    with "1.IH" [OF False] show ?thesis
      by (simp add: varint_Cons [OF False] bit_7_unat byte_group(2) del: of_nat_add)
  qed
qed

lemma varint_val_varint: "varint_val (varint n) = n"
proof (induction n rule: varint.induct)
  case (1 n)
  show ?case
  proof (cases "n < 128")
    case True
    then show ?thesis by (subst varint.simps) (simp add: byte_group)
  next
    case False
    with "1.IH" [OF False] show ?thesis
      by (simp add: varint_Cons [OF False] byte_group(2) del: of_nat_add)
  qed
qed

lemma decode_encode_varint:
  assumes "length (varint (unat v)) \<le> unat n"
  shows "pb_decode_varint (ibuf (varint (unat v) @ rest) n e) =
     Ret v (ibuf rest (n - word_of_nat (length (varint (unat v)))) e)"
  using decode_varint_ibuf [OF is_varint_varint assms varint_word_length]
  by (simp add: varint_val_varint)

lemma varint_length_32: "n < 2 ^ 35 \<Longrightarrow> length (varint n) \<le> 5"
  by (rule varint_length_le) simp_all

lemma decode_encode_varint32:
  assumes "length (varint k) \<le> unat n" and "k < 2 ^ 32"
  shows "pb_decode_varint32 (ibuf (varint k @ rest) n e) =
     Ret (word_of_nat k) (ibuf rest (n - word_of_nat (length (varint k))) e)"
proof -
  have "k < 2 ^ 35" using assms(2) by simp
  from decode_varint32_ibuf [OF is_varint_varint assms(1) varint_length_32 [OF this]]
  show ?thesis by (simp add: varint_val_varint)
qed

subsection \<open>Zigzag\<close>

lemma unzigzag_zigzag: "unzigzag (zigzag v) = v"
proof (cases "sint v < 0")
  case True
  then have b: "bit v 63" using bit_last_iff [of v] by simp
  have "NOT (drop_bit 1 (NOT (v * 2))) = v"
  proof (rule bit_word_eqI)
    fix n :: nat assume "n < LENGTH(64)"
    then consider "n < 63" | "n = 63" by fastforce
    then show "bit (NOT (drop_bit 1 (NOT (v * 2)))) n = bit v n"
      by cases (simp_all add: b bit_not_iff bit_drop_bit_eq mult.commute [of v 2] bit_double_iff)
  qed
  moreover have "NOT (v * 2) AND 1 \<noteq> 0"
    by (simp add: and_one_eq mod_2_eq_odd even_not_iff)
  ultimately show ?thesis using True by (simp add: zigzag_def unzigzag_def)
next
  case False
  then have b: "\<not> bit v 63" using bit_last_iff [of v] by simp
  have "drop_bit 1 (v * 2) = v"
  proof (rule bit_word_eqI)
    fix n :: nat assume "n < LENGTH(64)"
    then consider "n < 63" | "n = 63" by fastforce
    then show "bit (drop_bit 1 (v * 2)) n = bit v n"
      by cases (simp_all add: b bit_drop_bit_eq mult.commute [of v 2] bit_double_iff)
  qed
  moreover have "v * 2 AND 1 = 0"
    by (simp add: and_one_eq mod_2_eq_odd)
  ultimately show ?thesis using False by (simp add: zigzag_def unzigzag_def)
qed

subsection \<open>Failing varints\<close>

text \<open>Ten continuation bytes overflow the 64-bit decoder; a stream may also end too early.\<close>

lemma varint_loop_overflow:
  "\<forall>b\<in>set bs. bit b 7 \<Longrightarrow> length bs \<le> unat n \<Longrightarrow> p + 7 * length bs = 70 \<Longrightarrow>
   varint_loop (ibuf (bs @ rest) n e :: 'u pb_istream_t) w p =
     Err (ibuf rest (n - word_of_nat (length bs)) (PB_SET_ERROR e ''varint overflow''))"
proof (induction bs arbitrary: n w p)
  case Nil
  then show ?case by (subst varint_loop.simps) (simp add: ierror_def)
next
  case (Cons b bs)
  note n = count_pos [OF Cons.prems(2)]
  have "p < 64" using Cons.prems(3) by simp
  then have "varint_loop (ibuf ((b # bs) @ rest) n e :: 'u pb_istream_t) w p =
      varint_loop (ibuf (bs @ rest) (n - 1) e) (w OR push_bit p (ucast (b AND 0x7F))) (p + 7)"
    using Cons.prems n by (subst varint_loop.simps) (simp add: readbyte_ibuf Let_def and_128)
  also have "\<dots> = Err (ibuf rest (n - 1 - word_of_nat (length bs)) (PB_SET_ERROR e ''varint overflow''))"
    using Cons.prems n by (intro Cons.IH) auto
  finally show ?case by (simp add: algebra_simps)
qed

lemma varint_loop_truncated:
  "\<forall>b\<in>set bs. bit b 7 \<Longrightarrow> length bs = unat n \<Longrightarrow> p + 7 * length bs < 64 \<Longrightarrow>
   varint_loop (ibuf (bs @ rest) n e :: 'u pb_istream_t) w p =
     Err (ibuf rest 0 (PB_SET_ERROR e ''end-of-stream''))"
proof (induction bs arbitrary: n w p)
  case Nil
  then have "n = 0" by (simp add: unat_eq_zero)
  with Nil show ?case by (subst varint_loop.simps) (simp add: readbyte_empty ierror_def)
next
  case (Cons b bs)
  have "length (b # bs) \<le> unat n" using Cons.prems(2) by simp
  note n = count_pos [OF this]
  then have u: "unat (n - 1) = length bs"
    using Cons.prems(2) word_one_le [of n] by (simp add: unat_sub)
  have "varint_loop (ibuf ((b # bs) @ rest) n e :: 'u pb_istream_t) w p =
      varint_loop (ibuf (bs @ rest) (n - 1) e) (w OR push_bit p (ucast (b AND 0x7F))) (p + 7)"
    using Cons.prems n by (subst varint_loop.simps) (simp add: readbyte_ibuf Let_def and_128)
  also have "\<dots> = Err (ibuf rest 0 (PB_SET_ERROR e ''end-of-stream''))"
    using Cons.prems u by (intro Cons.IH) auto
  finally show ?case .
qed

subsection \<open>Reading bytes and fixed-width values\<close>

lemma read_ibuf:
  assumes "unat n \<le> length bs" and "n \<le> m"
  shows "pb_read (ibuf bs m e) b n = Ret (take (unat n) bs) (ibuf (drop (unat n) bs) (m - n) e)"
  using assms
  by (simp add: pb_read_def pb_read_buf_def istream_callback_def buf_read_def is_buf_read_def not_less [symmetric])

lemma le_word_bytes32:
  "length bs = 4 \<Longrightarrow>
   push_bit 0 (ucast (bs ! 0)) OR push_bit 8 (ucast (bs ! 1)) OR
   push_bit 16 (ucast (bs ! 2)) OR push_bit 24 (ucast (bs ! 3)) = (le_word bs :: 32 word)"
  by (auto simp: length_Suc_conv numeral_eq_Suc push_bit_or or.assoc push_bit_push_bit)

lemma le_word_bytes64:
  "length bs = 8 \<Longrightarrow>
   push_bit 0 (ucast (bs ! 0)) OR push_bit 8 (ucast (bs ! 1)) OR
   push_bit 16 (ucast (bs ! 2)) OR push_bit 24 (ucast (bs ! 3)) OR
   push_bit 32 (ucast (bs ! 4)) OR push_bit 40 (ucast (bs ! 5)) OR
   push_bit 48 (ucast (bs ! 6)) OR push_bit 56 (ucast (bs ! 7)) = (le_word bs :: 64 word)"
  by (auto simp: length_Suc_conv numeral_eq_Suc push_bit_or or.assoc push_bit_push_bit)

lemma decode_fixed32_ibuf:
  assumes "length bs = 4" and "4 \<le> n"
  shows "pb_decode_fixed32 (ibuf (bs @ rest) n e) = Ret (le_word bs) (ibuf rest (n - 4) e)"
  using assms by (simp add: pb_decode_fixed32_def read_ibuf le_word_bytes32 [simplified])

lemma decode_fixed64_ibuf:
  assumes "length bs = 8" and "8 \<le> n"
  shows "pb_decode_fixed64 (ibuf (bs @ rest) n e) = Ret (le_word bs) (ibuf rest (n - 8) e)"
  using assms by (simp add: pb_decode_fixed64_def read_ibuf le_word_bytes64 [simplified])


lemma decode_encode_svarint:
  assumes "length (varint (unat (zigzag v))) \<le> unat n"
  shows "pb_decode_svarint (ibuf (varint (unat (zigzag v)) @ rest) n e) =
     Ret v (ibuf rest (n - word_of_nat (length (varint (unat (zigzag v))))) e)"
  by (simp add: pb_decode_svarint_def unzigzag_zigzag decode_encode_varint [OF assms])

text \<open>A tag below \<open>2^29\<close>, the limit of the protobuf specification, survives the 32-bit decoder.\<close>

lemma tag_split:
  assumes "unat wt < 8" and "unat fn < 2 ^ 29"
  shows "(word_of_nat (unat fn * 8 + unat wt) AND 7 :: 32 word) = wt"
    and "drop_bit 3 (word_of_nat (unat fn * 8 + unat wt) :: 32 word) = fn"
proof -
  let ?w = "word_of_nat (unat fn * 8 + unat wt) :: 32 word"
  have u: "unat ?w = unat fn * 8 + unat wt" using assms by (simp add: unat_of_nat del: of_nat_add of_nat_mult)
  have m: "?w AND 7 = take_bit 3 ?w" by (simp add: take_bit_eq_mask mask_eq_exp_minus_1)
  have "unat (?w AND 7) = unat wt"
    unfolding m unsigned_take_bit_eq u using assms by (simp add: take_bit_eq_mod)
  then show "?w AND 7 = wt" by (simp add: word_unat_eq_iff)
  have "unat (drop_bit 3 ?w) = unat fn"
    unfolding unat_drop_bit_eq u using assms by (simp add: drop_bit_eq_div)
  then show "drop_bit 3 ?w = fn" by (simp add: word_unat_eq_iff)
qed

lemma decode_encode_tag:
  assumes "unat wt < 8" and "unat fn < 2 ^ 29" and "fn \<noteq> 0 \<or> wt \<noteq> 0"
    and "length (varint (unat fn * 8 + unat wt)) \<le> unat n"
  shows "pb_decode_tag (ibuf (varint (unat fn * 8 + unat wt) @ rest) n e) =
     Ret (Some (wt, fn), False) (ibuf rest (n - word_of_nat (length (varint (unat fn * 8 + unat wt)))) e)"
proof -
  let ?k = "unat fn * 8 + unat wt"
  have k: "?k < 2 ^ 32" using assms(1,2) by simp
  have "(word_of_nat ?k :: 32 word) \<noteq> 0" using tag_split [OF assms(1,2)] assms(3) by auto
  with tag_split [OF assms(1,2)] show ?thesis
    by (simp add: pb_decode_tag_def decode_encode_varint32 [OF assms(4) k] del: of_nat_add of_nat_mult)
qed

lemma decode_tag_truncated:
  "bit b 7 \<Longrightarrow> pb_decode_tag (ibuf (b # rest) 1 None) = Ret (None, True) (ibuf rest 0 (Some ''end-of-stream''))"
  by (simp add: pb_decode_tag_def pb_decode_varint32_def readbyte_ibuf and_128 varint32_loop.simps readbyte_empty
      ierror_def PB_SET_ERROR_def)

subsection \<open>Strings and substreams\<close>

text \<open>The length prefix, and that the bytes it announces are there.\<close>

lemma decode_length_ibuf:
  fixes n :: size_t
  assumes "length (varint (length bs)) + length bs \<le> unat n" and "length bs < 2 ^ 32"
  shows "pb_decode_varint32 (ibuf (varint (length bs) @ cs) n e) =
      Ret (word_of_nat (length bs)) (ibuf cs (n - word_of_nat (length (varint (length bs)))) e)"
    and "word_of_nat (length bs) \<le> n - word_of_nat (length (varint (length bs)))"
    and "ucast (word_of_nat (length bs) :: 32 word) = (word_of_nat (length bs) :: size_t)"
    and "unat (word_of_nat (length bs) :: size_t) = length bs"
proof -
  let ?v = "length (varint (length bs))"
  show "pb_decode_varint32 (ibuf (varint (length bs) @ cs) n e) =
      Ret (word_of_nat (length bs)) (ibuf cs (n - word_of_nat ?v) e)"
    using assms by (intro decode_encode_varint32) simp_all
  have lt: "length bs < 2 ^ 64" "?v < 2 ^ 64" using assms unat_64_less [of n] by simp_all
  show u: "unat (word_of_nat (length bs) :: size_t) = length bs" using lt by (simp add: unat_of_nat)
  have "unat (word_of_nat (length bs) :: 32 word) = length bs" using assms(2) by (simp add: unat_of_nat)
  then show "ucast (word_of_nat (length bs) :: 32 word) = (word_of_nat (length bs) :: size_t)"
    using u by (simp add: word_unat_eq_iff)
  have "unat (n - word_of_nat ?v) = unat n - ?v"
    using assms(1) lt by (subst unat_sub) (simp_all add: word_le_nat_alt unat_of_nat)
  then show "word_of_nat (length bs) \<le> n - (word_of_nat ?v :: size_t)"
    using assms(1) u by (simp add: word_le_nat_alt)
qed

text \<open>
  A length-delimited value gives a substream of exactly its bytes, and leaves the parent with the
  count of the bytes behind it.
\<close>

lemma make_substream_ibuf:
  assumes "length (varint (length bs)) + length bs \<le> unat n" and "length bs < 2 ^ 32"
  shows "pb_make_string_substream (ibuf (varint (length bs) @ bs @ rest) n e) =
     Ret (ibuf (bs @ rest) (word_of_nat (length bs)) e)
         (ibuf (bs @ rest) (n - word_of_nat (length (varint (length bs))) - word_of_nat (length bs)) e)"
  by (simp add: pb_make_string_substream_def decode_length_ibuf [OF assms] leD)

lemma close_substream_ibuf:
  assumes "unat k \<le> length bs"
  shows "pb_close_string_substream (ibuf cs n e) (ibuf bs k e') = Ret () (ibuf (drop (unat k) bs) n e')"
  using assms by (simp add: pb_close_string_substream_def read_ibuf)

subsection \<open>Skipping\<close>

lemma skip_varint_ibuf:
  "is_varint bs \<Longrightarrow> length bs \<le> unat n \<Longrightarrow>
   pb_skip_varint (ibuf (bs @ rest) n e) = Ret () (ibuf rest (n - word_of_nat (length bs)) e)"
proof (induction bs arbitrary: n rule: is_varint.induct)
  case 1
  then show ?case by simp
next
  case (2 b)
  then have "1 \<le> n" using count_pos [of b "[]" n] by (auto intro: word_one_le)
  with 2 show ?case by (subst pb_skip_varint.simps) (simp add: read_ibuf and_128)
next
  case (3 b c bs)
  note n = count_pos [OF "3.prems"(2)]
  then have "1 \<le> n" by (auto intro: word_one_le)
  moreover have "bit b 7" "is_varint (c # bs)" using "3.prems"(1) by simp_all
  ultimately show ?case using "3.IH" [of "n - 1"] n
    by (subst pb_skip_varint.simps) (simp add: read_ibuf and_128 algebra_simps)
qed

lemma skip_string_ibuf:
  assumes "length (varint (length bs)) + length bs \<le> unat n" and "length bs < 2 ^ 32"
  shows "pb_skip_string (ibuf (varint (length bs) @ bs @ rest) n e) =
     Ret () (ibuf rest (n - word_of_nat (length (varint (length bs))) - word_of_nat (length bs)) e)"
  by (simp add: pb_skip_string_def decode_length_ibuf [OF assms] read_ibuf)

text \<open>The bytes that follow a tag with the given wire type.\<close>

definition is_payload :: "pb_wire_type_t \<Rightarrow> byte list \<Rightarrow> bool" where
  "is_payload wt bs \<longleftrightarrow>
     wt = PB_WT_VARINT \<and> is_varint bs \<or>
     wt = PB_WT_64BIT \<and> length bs = 8 \<or>
     wt = PB_WT_STRING \<and> (\<exists>cs. length cs < 2 ^ 32 \<and> bs = varint (length cs) @ cs) \<or>
     wt = PB_WT_32BIT \<and> length bs = 4"

lemma is_payload_wire_type: "is_payload wt bs \<Longrightarrow> unat wt < 8"
  by (auto simp: is_payload_def)

lemma skip_field_ibuf:
  assumes "is_payload wt bs" and "length bs \<le> unat n"
  shows "pb_skip_field (ibuf (bs @ rest) n e) wt = Ret () (ibuf rest (n - word_of_nat (length bs)) e)"
proof -
  have fixed: "andThen (pb_read (ibuf (bs @ rest) n e) True k) (\<lambda>_ st. Ret () st) = Ret () (ibuf rest (n - k) e)"
    if "length bs = unat k" for k
    using that assms(2) by (simp add: read_ibuf word_le_nat_alt)
  from assms(1) consider "wt = 0" "is_varint bs" | "wt = 1" "length bs = 8" | "wt = 5" "length bs = 4"
    | cs where "wt = 2" "length cs < 2 ^ 32" "bs = varint (length cs) @ cs"
    by (auto simp: is_payload_def)
  then show ?thesis
  proof cases
    case 1
    then show ?thesis by (simp add: pb_skip_field_def skip_varint_ibuf assms(2))
  next
    case 2
    then show ?thesis using fixed [of 8] by (simp add: pb_skip_field_def)
  next
    case 3
    then show ?thesis using fixed [of 4] by (simp add: pb_skip_field_def)
  next
    case 4
    then show ?thesis using skip_string_ibuf [of cs n rest e] assms(2)
      by (simp add: pb_skip_field_def diff_diff_eq)
  qed
qed

end
