(* ===== verification/PB_Decode_Fun.thy ===== *)
theory PB_Decode_Fun
  imports PB_Decode_Safe PB_Wire
begin

text \<open>
  Functional behaviour of the message decoder of \<open>PB_Decode\<close> on a memory buffer: which field a tag
  selects, that unknown fields are skipped, and what the check of required fields computes.
\<close>

subsection \<open>Selecting the field\<close>

lemma iter_find_field:
  assumes "fields_ok fs" and "k < length fs"
  shows "(\<exists>i<length fs. tag (fs ! i) = tg \<and> PB_LTYPE (ftype (fs ! i)) \<noteq> PB_LTYPE_EXTENSION \<and>
            pb_field_iter_find (iter_nth fs d k) tg = Some (True, iter_nth fs d i)) \<or>
         ((\<forall>i<length fs. tag (fs ! i) = tg \<longrightarrow> PB_LTYPE (ftype (fs ! i)) = PB_LTYPE_EXTENSION) \<and>
          pb_field_iter_find (iter_nth fs d k) tg = Some (False, iter_nth fs d k))"
  using iter_search_full [OF assms, of "\<lambda>f. tag f = tg \<and> PB_LTYPE (ftype f) \<noteq> PB_LTYPE_EXTENSION" d]
  unfolding pb_field_iter_find_def by auto

lemma iter_find_none:
  assumes "fields_ok fs" and "k < length fs" and "tg \<notin> tag ` set fs"
  shows "pb_field_iter_find (iter_nth fs d k) tg = Some (False, iter_nth fs d k)"
  using iter_find_field [OF assms(1,2), of tg d] assms(3) by auto

lemma iter_find_distinct:
  assumes "fields_ok fs" and "k < length fs" and "distinct (map tag fs)" and "i < length fs"
    and "PB_LTYPE (ftype (fs ! i)) \<noteq> PB_LTYPE_EXTENSION"
  shows "pb_field_iter_find (iter_nth fs d k) (tag (fs ! i)) = Some (True, iter_nth fs d i)"
proof -
  have "j = i" if "j < length fs" "tag (fs ! j) = tag (fs ! i)" for j
    using assms(3,4) that by (metis (no_types) length_map nth_eq_iff_index_eq nth_map)
  then show ?thesis
    using iter_find_field [OF assms(1,2), of "tag (fs ! i)" d] assms(4,5) by blast
qed

lemma find_extension_none:
  assumes "fields_ok fs" and "k < length fs" and "\<forall>f\<in>set fs. PB_LTYPE (ftype f) \<noteq> PB_LTYPE_EXTENSION"
  shows "find_extension_field (iter_nth fs d k) = Some (False, iter_nth fs d k)"
  using iter_search_full [OF assms(1,2), of "\<lambda>f. PB_LTYPE (ftype f) = PB_LTYPE_EXTENSION" d] assms(3)
  unfolding find_extension_field_def by auto

subsection \<open>Unknown fields\<close>

definition at_pos :: "pb_field_t list \<Rightarrow> addr \<Rightarrow> nat \<Rightarrow> 32 word list \<Rightarrow> 32 word \<Rightarrow> locals" where
  "at_pos fs d k seen r = \<lparr>iter = iter_nth fs d k, fields_seen = seen, extension_range_start = r\<rparr>"

lemma at_pos_simps [simp]:
  "iter (at_pos fs d k seen r) = iter_nth fs d k" "fields_seen (at_pos fs d k seen r) = seen"
  "extension_range_start (at_pos fs d k seen r) = r"
  "(at_pos fs d k seen r)\<lparr>iter := iter_nth fs d j\<rparr> = at_pos fs d j seen r"
  "(at_pos fs d k seen r)\<lparr>extension_range_start := r'\<rparr> = at_pos fs d k seen r'"
  "(at_pos fs d k seen r)\<lparr>fields_seen := seen'\<rparr> = at_pos fs d k seen' r"
  "(at_pos fs d k seen r)\<lparr>iter := iter_nth fs d j, extension_range_start := r'\<rparr> = at_pos fs d j seen r'"
  by (simp_all add: at_pos_def)

lemma decode_step_unknown:
  assumes "fields_ok fs" and "k < length fs" and "\<forall>f\<in>set fs. PB_LTYPE (ftype f) \<noteq> PB_LTYPE_EXTENSION"
    and "tg \<notin> tag ` set fs" and "unat tg < 2 ^ 29" and "tg \<noteq> 0" and "is_payload wt bs"
    and "length (varint (unat tg * 8 + unat wt)) + length bs \<le> unat n"
  shows "\<exists>r'. decode_step N E noinit (at_pos fs d k seen r)
       \<lparr>dstream = ibuf (varint (unat tg * 8 + unat wt) @ bs @ rest) n e, dmem = m\<rparr> =
     Ret (True, at_pos fs d k seen r')
       \<lparr>dstream = ibuf rest (n - word_of_nat (length (varint (unat tg * 8 + unat wt))) - word_of_nat (length bs)) e, dmem = m\<rparr>"
proof -
  let ?t = "varint (unat tg * 8 + unat wt)"
  let ?n = "n - word_of_nat (length ?t)"
  have wt: "unat wt < 8" using assms(7) by (rule is_payload_wire_type)
  have l: "length ?t \<le> unat n" using assms(8) by simp
  have "length ?t < 2 ^ 64" using l unat_64_less [of n] by simp
  then have "unat ?n = unat n - length ?t"
    using l by (subst unat_sub) (simp_all add: word_le_nat_alt unat_of_nat)
  then have l2: "length bs \<le> unat ?n" using assms(8) by simp
  have big: "\<not> tg \<ge> - 1" 
  proof -
    have "unat (- 1 :: 32 word) = mask 32" by (simp add: unsigned_minus_1_eq_mask)
    then have "unat (- 1 :: 32 word) = 0xFFFFFFFF" by (simp add: mask_eq_exp_minus_1)
    then show ?thesis using assms(5) by (simp add: word_le_nat_alt)
  qed
  let ?r = "if tg \<ge> r then - 1 else r"
  have "try_extension N E noinit tg wt (at_pos fs d k seen r) s = Ret (False, at_pos fs d k seen ?r) s" for s
    using big find_extension_none [OF assms(1-3), of d]
    by (simp add: try_extension_def Let_def)
  then have "decode_tagged N E noinit wt tg (at_pos fs d k seen r) \<lparr>dstream = ibuf (bs @ rest) ?n e, dmem = m\<rparr> =
     Ret (True, at_pos fs d k seen ?r) \<lparr>dstream = ibuf rest (?n - word_of_nat (length bs)) e, dmem = m\<rparr>"
    using iter_find_none [OF assms(1,2,4), of d]
    by (simp add: decode_tagged_def Let_def on_stream_def skip_field_ibuf [OF assms(7) l2])
  moreover have "tg \<noteq> 0 \<or> wt \<noteq> 0" using assms(6) by simp
  ultimately show ?thesis
    by (simp add: decode_step_def on_stream_def decode_encode_tag [OF wt assms(5) _ l] del: of_nat_add) blast
qed

subsection \<open>Required fields\<close>

text \<open>Bit \<open>i\<close> of the two words of \<^verbatim>\<open>fields_seen\<close>.\<close>

definition seen_bit :: "32 word list \<Rightarrow> nat \<Rightarrow> bool" where
  "seen_bit seen i \<longleftrightarrow> bit (seen ! (i div 32)) (i mod 32)"

lemma word_bits: "w = v \<longleftrightarrow> (\<forall>n<32. bit w n = bit v n)" for w v :: "32 word"
  by (auto intro: bit_word_eqI)

lemma bit_ones: "k \<le> 32 \<Longrightarrow> n < 32 \<Longrightarrow> bit (drop_bit (32 - k) (- 1 :: 32 word)) n \<longleftrightarrow> n < k"
  unfolding bit_drop_bit_eq by auto

lemma count_parts:
  "unat (drop_bit 5 count) = unat count div 32" "unat (count AND 31) = unat count mod 32" for count :: "32 word"
proof -
  show "unat (drop_bit 5 count) = unat count div 32" unfolding unat_drop_bit_eq by (simp add: drop_bit_eq_div)
  have "count AND 31 = take_bit 5 count" by (simp add: take_bit_eq_mask mask_eq_exp_minus_1)
  then show "unat (count AND 31) = unat count mod 32"
    by (simp only: unsigned_take_bit_eq) (simp add: take_bit_eq_mod)
qed

lemma required_present_eq:
  assumes "length seen = 2" and "unat count < 64" and "unat count mod 32 \<noteq> 0"
    and "\<And>i. unat count \<le> i \<Longrightarrow> i < 64 \<Longrightarrow> \<not> seen_bit seen i"
  shows "required_present seen count = Some (\<forall>i<unat count. seen_bit seen i)"
proof -
  let ?c = "unat count" and ?j = "unat count div 32" and ?k = "unat count mod 32"
  have nz: "count \<noteq> 0" "count AND 31 \<noteq> 0"
    using assms(3) count_parts(2) [of count] by (auto simp: unat_eq_zero [symmetric])
  have high: "seen ! ?j = drop_bit (32 - ?k) (- 1) \<longleftrightarrow> (\<forall>n<?k. bit (seen ! ?j) n)"
  proof -
    have "\<not> bit (seen ! ?j) n" if "?k \<le> n" "n < 32" for n
    proof -
      have "?c \<le> ?j * 32 + n" using that(1) div_mult_mod_eq [of ?c 32] by linarith
      moreover have "?j < 2" using assms(2) by (simp add: less_mult_imp_div_less)
      then have "?j * 32 + n < 64" using that(2) by linarith
      ultimately show ?thesis using assms(4) [of "?j * 32 + n"] that(2) by (simp add: seen_bit_def)
    qed
    moreover have "bit (drop_bit (32 - ?k) (- 1 :: 32 word)) n \<longleftrightarrow> n < ?k" if "n < 32" for n
      using that by (intro bit_ones) simp_all
    ultimately have "seen ! ?j = drop_bit (32 - ?k) (- 1) \<longleftrightarrow> (\<forall>n<32. n < ?k \<longrightarrow> bit (seen ! ?j) n)"
      unfolding word_bits by (metis not_less)
    moreover have "n < 32" if "n < ?k" for n using that mod_less_divisor [of 32 ?c] by linarith
    ultimately show ?thesis by blast
  qed
  consider "?c < 32" | "32 \<le> ?c" by linarith
  then show ?thesis
  proof cases
    case 1
    then have "?j = 0" "?k = ?c" by simp_all
    with high nz assms(1) show ?thesis
      by (auto simp: required_present_def Let_def count_parts seen_bit_def)
  next
    case 2
    then have j: "?j = 1" using assms(2) by (simp add: div_nat_eqI)
    then have c: "?c = 32 + ?k" using div_mult_mod_eq [of ?c 32] by simp
    have up: "seen_bit seen (32 + n) \<longleftrightarrow> bit (seen ! 1) n" if "n < ?k" for n
    proof -
      have "n < 32" using that mod_less_divisor [of 32 ?c] by linarith
      then have "(32 + n) div 32 = 1" "(32 + n) mod 32 = n" by simp_all
      then show ?thesis by (simp add: seen_bit_def)
    qed
    have "(\<forall>i<?c. seen_bit seen i) \<longleftrightarrow> (\<forall>n<32. bit (seen ! 0) n) \<and> (\<forall>n<?k. bit (seen ! 1) n)" (is "?l \<longleftrightarrow> ?r")
    proof
      assume l: ?l
      have "bit (seen ! 0) n" if "n < 32" for n
        using l [rule_format, of n] that 2 by (simp add: seen_bit_def)
      moreover have "bit (seen ! 1) n" if "n < ?k" for n
        using l [rule_format, of "32 + n"] that c up [of n] by simp
      ultimately show ?r by simp
    next
      assume r: ?r
      show ?l
      proof (intro allI impI)
        fix i assume "i < ?c"
        then consider "i < 32" | n where "i = 32 + n" "n < ?k" using c by (metis le_Suc_ex nat_add_left_cancel_less not_less)
        then show "seen_bit seen i" using r up by cases (auto simp: seen_bit_def [of _ i])
      qed
    qed
    also have "(\<forall>n<32. bit (seen ! 0) n) \<longleftrightarrow> seen ! 0 = - 1" by (simp add: word_bits [of "seen ! 0"])
    finally show ?thesis using high nz assms(1) j
      by (cases "seen ! 0 = - 1") (simp_all add: required_present_def Let_def count_parts)
  qed
qed

text \<open>No field seen: only a message without required fields passes the check.\<close>

lemma required_present_none: "required_present [0, 0] count = Some (count = 0)"
proof (cases "count = 0")
  case False
  let ?i = "unat count div 32"
  have ww: "whole_words [0, 0] k = Some False" if "0 < k" for k
    using that
  proof (induction k)
    case (Suc k)
    then show ?case by (cases k) simp_all
  qed simp
  show ?thesis
  proof (cases "?i = 0")
    case True
    then have "unat count mod 32 \<noteq> 0" "unat count < 32"
      using False by (simp_all add: unat_eq_zero div_eq_0_iff)
    then have "required_present [0, 0] count = Some (\<forall>i<unat count. seen_bit [0, 0] i)"
      by (intro required_present_eq) (auto simp: seen_bit_def nth_Cons')
    moreover have "0 < unat count \<and> \<not> seen_bit [0, 0] 0"
      using False by (simp add: seen_bit_def unat_gt_0)
    ultimately show ?thesis using False by auto
  next
    case nz: False
    then show ?thesis using False ww [of ?i] by (simp add: required_present_def count_parts)
  qed
qed (simp add: required_present_def)

lemma decode_noinit_empty:
  assumes "fields_ok fs" and "bytes_left (dstream s) = 0" and "required_before fs (length fs) < 2 ^ 32"
  shows "pb_decode_noinit (Suc n) E fs dest s =
    (if \<exists>f\<in>set fs. is_required f then derror s ''missing required field'' else Ret () s)"
proof -
  have "(word_of_nat (required_before fs (length fs)) :: 32 word) = 0 \<longleftrightarrow> required_before fs (length fs) = 0"
    using assms(3) unat_of_nat [of "required_before fs (length fs)", where 'a = 32] by (auto simp: word_unat_eq_iff)
  also have "\<dots> \<longleftrightarrow> (\<forall>f\<in>set fs. \<not> is_required f)" by (simp add: required_before_def filter_empty_conv)
  finally show ?thesis
    using req_field_count_at [OF assms(1), of 0 dest] assms(2)
    by (simp add: decode_loop.simps begin_iter_nth at_field_def required_present_none)
qed

end
