(* ===== verification/PB_Encode_Meaning.thy ===== *)
theory PB_Encode_Meaning
  imports PB_Encode_Spec
begin

text \<open>
  What a structure means as a protobuf message, independently of how the encoder decides what to send.
  \<open>field_holds\<close> says whether a field has anything to send: by its presence flag, its count or its oneof
  selector where it has one, and otherwise, as proto3 prescribes, by a value other than the default, which
  for a submessage is that any of its fields holds something. \<open>proto_msg\<close> is the encoding of all fields
  that hold something.

  \<open>spec_msg\<close> of \<open>PB_Encode_Spec\<close> is what the encoder sends. It differs in the test for submessages without
  presence flag, which looks at the data of the first item of each field only (\<open>zero_item\<close>).
  \<open>default_seen\<close> is the condition on the contents of a structure under which this test is right, and
  \<open>plain_type\<close> a condition on its type alone that guarantees it; under it the two encodings agree
  (\<open>spec_msg_means\<close>). Where the test is wrong, the message that is sent loses data
  (\<open>nothing_sent\<close>, \<open>proto_msg_Nil\<close>).
\<close>

subsection \<open>The meaning of a structure\<close>

definition flagless :: "pb_field_t \<Rightarrow> bool" where
  "flagless f \<longleftrightarrow> PB_HTYPE (ftype f) = PB_HTYPE_OPTIONAL \<and> size_offset f = 0"

primrec field_holds :: "nat \<Rightarrow> (addr \<Rightarrow> pb_field_t list) \<Rightarrow> mem \<Rightarrow> pb_field_t \<Rightarrow> addr \<Rightarrow> bool" where
  "field_holds 0 = (\<lambda>D m f a. False)"
| "field_holds (Suc n) = (\<lambda>D m f a.
     let ps = a + sint (size_offset f); lt = PB_LTYPE (ftype f); k = unat (data_size f) in
     if PB_HTYPE (ftype f) = PB_HTYPE_REQUIRED then True
     else if flagless f then
       if lt = PB_LTYPE_BYTES then uint_at m a 4 \<noteq> 0
       else if lt = PB_LTYPE_STRING then takeWhile (\<lambda>b. b \<noteq> 0) (mem_bytes m a k) \<noteq> []
       else if lt = PB_LTYPE_FIXED_LENGTH_BYTES then k \<noteq> 0
       else if lt = PB_LTYPE_SUBMESSAGE then
         \<exists>j<length (D (ptr f)). field_holds n D m (D (ptr f) ! j) (a + int (field_off (D (ptr f)) j))
       else uint_at m a k \<noteq> 0
     else if PB_HTYPE (ftype f) = PB_HTYPE_OPTIONAL then uint_at m ps 1 \<noteq> 0
     else if PB_HTYPE (ftype f) = PB_HTYPE_REPEATED then uint_at m ps 4 \<noteq> 0
     else uint_at m ps 4 = unat (tag f))"

text \<open>The bytes of a field that holds something.\<close>

definition field_value ::
    "(pb_field_t list \<Rightarrow> addr \<Rightarrow> byte list option) \<Rightarrow> (addr \<Rightarrow> pb_field_t list) \<Rightarrow> mem \<Rightarrow> pb_field_t \<Rightarrow> addr \<Rightarrow> byte list option" where
  "field_value sub D m f a =
     (let tagged = (\<lambda>a. cat_opt (tag_spec f) (item_bytes sub D m f a));
          count = uint_at m (a + sint (size_offset f)) 4;
          item = (\<lambda>i. a + int i * int (unat (data_size f))) in
      if PB_HTYPE (ftype f) \<noteq> PB_HTYPE_REPEATED then tagged a
      else if count > unat (array_size f) then None
      else if PB_LTYPE (ftype f) \<le> PB_LTYPE_LAST_PACKABLE
      then cat_opt (Some (varint (unat (tag f) * 8 + 2)))
             (map_option delimited (cat_list (map (\<lambda>i. item_bytes sub D m f (item i)) [0..<count])))
      else cat_list (map (\<lambda>i. tagged (item i)) [0..<count]))"

primrec proto_msg :: "nat \<Rightarrow> (addr \<Rightarrow> pb_field_t list) \<Rightarrow> mem \<Rightarrow> pb_field_t list \<Rightarrow> addr \<Rightarrow> byte list option" where
  "proto_msg 0 = (\<lambda>D m fs a. None)"
| "proto_msg (Suc n) = (\<lambda>D m fs a.
     cat_list (map (\<lambda>k. let f = fs ! k; b = a + int (field_off fs k) in
         if field_holds (Suc n) D m f b then field_value (proto_msg n D m) D m f b else Some [])
       [0..<length fs]))"

subsection \<open>Where the zero test is right\<close>

text \<open>
  For every submessage without presence flag: it holds something if and only if the data of the first item
  of some field is other than zero. The condition is for submessages that are part of the message; what is
  left in the memory of an absent one does not matter.
\<close>

primrec default_seen :: "nat \<Rightarrow> (addr \<Rightarrow> pb_field_t list) \<Rightarrow> mem \<Rightarrow> pb_field_t list \<Rightarrow> addr \<Rightarrow> bool" where
  "default_seen 0 = (\<lambda>D m fs a. True)"
| "default_seen (Suc n) = (\<lambda>D m fs a.
     \<forall>k<length fs. PB_LTYPE (ftype (fs ! k)) = PB_LTYPE_SUBMESSAGE \<longrightarrow>
       (let f = fs ! k; b = a + int (field_off fs k); gs = D (ptr f) in
        (flagless f \<longrightarrow>
           ((\<exists>j<length gs. field_holds n D m (gs ! j) (b + int (field_off gs j))) \<longleftrightarrow>
            (\<exists>j<length gs. \<not> zero_item n D m (gs ! j) (b + int (field_off gs j))))) \<and>
        (if PB_HTYPE (ftype f) = PB_HTYPE_REPEATED
         then \<forall>i<uint_at m (b + sint (size_offset f)) 4. default_seen n D m gs (b + int i * int (unat (data_size f)))
         else field_holds (Suc n) D m f b \<longrightarrow> default_seen n D m gs b)))"

text \<open>A submessage without presence flag has, at any depth, only fields without presence flag.\<close>

primrec plain_type :: "nat \<Rightarrow> (addr \<Rightarrow> pb_field_t list) \<Rightarrow> pb_field_t list \<Rightarrow> bool" where
  "plain_type 0 = (\<lambda>D fs. True)"
| "plain_type (Suc n) = (\<lambda>D fs.
     \<forall>f\<in>set fs. PB_LTYPE (ftype f) = PB_LTYPE_SUBMESSAGE \<longrightarrow>
       plain_type n D (D (ptr f)) \<and> (flagless f \<longrightarrow> (\<forall>g\<in>set (D (ptr f)). flagless g)))"

subsection \<open>Lemmas: single fields\<close>

lemma le_nat_zero: "le_nat bs = 0 \<longleftrightarrow> (\<forall>b\<in>set bs. b = 0)"
  by (induction bs) (auto simp: unat_eq_zero)

lemma uint_at_zero: "uint_at m a n = 0 \<longleftrightarrow> (\<forall>b\<in>set (mem_bytes m a n). b = 0)"
  by (simp add: uint_at_def le_nat_zero)

lemma uint_at_1: "uint_at m a 1 = 0 \<longleftrightarrow> hd (mem_bytes m a (Suc n)) = 0"
  by (simp add: uint_at_zero mem_bytes_Suc mem_bytes_def [of m _ 0])

text \<open>Fields without presence flag: the value and the bytes in memory.\<close>

lemma holds_iff_data:
  assumes "flagless f" and "item_ok f"
    and "PB_LTYPE (ftype f) = PB_LTYPE_SUBMESSAGE \<Longrightarrow>
      (\<exists>j<length (D (ptr f)). field_holds n D m (D (ptr f) ! j) (a + int (field_off (D (ptr f)) j))) \<longleftrightarrow>
      (\<exists>j<length (D (ptr f)). \<not> zero_item n D m (D (ptr f) ! j) (a + int (field_off (D (ptr f)) j)))"
  shows "field_holds (Suc n) D m f a \<longleftrightarrow> \<not> zero_item (Suc n) D m f a"
proof -
  have r: "PB_HTYPE (ftype f) \<noteq> PB_HTYPE_REQUIRED" using assms(1) by (simp add: flagless_def)
  have s: "(takeWhile (\<lambda>b. b \<noteq> 0) (mem_bytes m a (unat (data_size f))) = []) \<longleftrightarrow> uint_at m a 1 = 0"
    if str: "PB_LTYPE (ftype f) = PB_LTYPE_STRING"
  proof -
    obtain k where k: "unat (data_size f) = Suc k" using assms(2) str by (cases "unat (data_size f)") (auto simp: item_ok_def)
    show ?thesis unfolding k uint_at_1 [of m a k] by (simp add: mem_bytes_Suc)
  qed
  show ?thesis using assms(1) r s assms(3) by (simp add: Let_def uint_at_zero [of m a "unat (data_size f)"] unat_eq_zero)
qed

lemma item_bytes_cong:
  assumes "PB_LTYPE (ftype f) = PB_LTYPE_SUBMESSAGE \<Longrightarrow> sub (D (ptr f)) a = sub' (D (ptr f)) a"
  shows "item_bytes sub D m f a = item_bytes sub' D m f a"
  using assms by (simp add: item_bytes_def Let_def)

lemma field_bytes_means:
  assumes holds: "flagless f \<Longrightarrow> field_holds (Suc n) D m f a \<longleftrightarrow> \<not> zero_item (Suc n) D m f a"
    and items: "\<And>i. field_holds (Suc n) D m f a \<Longrightarrow>
      i < (if PB_HTYPE (ftype f) = PB_HTYPE_REPEATED then uint_at m (a + sint (size_offset f)) 4 else 1) \<Longrightarrow>
      item_bytes sub D m f (a + int i * int (unat (data_size f))) = item_bytes sub' D m f (a + int i * int (unat (data_size f)))"
  shows "field_bytes (Suc n) sub D m f a = (if field_holds (Suc n) D m f a then field_value sub' D m f a else Some [])"
proof (cases "PB_HTYPE (ftype f) = PB_HTYPE_REPEATED")
  case True
  let ?c = "uint_at m (a + sint (size_offset f)) 4"
  have h: "field_holds (Suc n) D m f a \<longleftrightarrow> ?c \<noteq> 0" using True by (simp add: flagless_def)
  show ?thesis
  proof (cases "?c = 0")
    case False
    have i: "item_bytes sub D m f (a + int i * int (unat (data_size f))) = item_bytes sub' D m f (a + int i * int (unat (data_size f)))"
      if "i \<in> set [0..<?c]" for i using items [of i] h True that False by simp
    have maps: "map (\<lambda>i. item_bytes sub D m f (a + int i * int (unat (data_size f)))) [0..<?c] =
        map (\<lambda>i. item_bytes sub' D m f (a + int i * int (unat (data_size f)))) [0..<?c]"
      "map (\<lambda>i. cat_opt (tag_spec f) (item_bytes sub D m f (a + int i * int (unat (data_size f))))) [0..<?c] =
        map (\<lambda>i. cat_opt (tag_spec f) (item_bytes sub' D m f (a + int i * int (unat (data_size f))))) [0..<?c]"
      using i by (auto intro!: map_cong simp del: of_nat_unat uint_nat)
    show ?thesis
      unfolding field_bytes_def field_value_def Let_def maps using True h False by (simp del: field_holds.simps)
  qed (use True h in \<open>simp add: field_bytes_def del: field_holds.simps\<close>)
next
  case False
  then have i: "field_holds (Suc n) D m f a \<Longrightarrow> item_bytes sub D m f a = item_bytes sub' D m f a" using items [of 0] by simp
  show ?thesis
  proof (cases "flagless f")
    case True
    then show ?thesis using False i holds by (simp add: field_bytes_def field_value_def Let_def flagless_def del: field_holds.simps zero_item.simps)
  next
    case nf: False
    then show ?thesis using False i HTYPE_cases [of "ftype f"] by (auto simp: field_bytes_def field_value_def Let_def flagless_def)
  qed
qed

subsection \<open>Lemmas: messages\<close>

lemma default_seenD:
  assumes "default_seen (Suc n) D m fs a" and "k < length fs" and "PB_LTYPE (ftype (fs ! k)) = PB_LTYPE_SUBMESSAGE"
  shows "flagless (fs ! k) \<Longrightarrow>
      (\<exists>j<length (D (ptr (fs ! k))). field_holds n D m (D (ptr (fs ! k)) ! j) (a + int (field_off fs k) + int (field_off (D (ptr (fs ! k))) j))) \<longleftrightarrow>
      (\<exists>j<length (D (ptr (fs ! k))). \<not> zero_item n D m (D (ptr (fs ! k)) ! j) (a + int (field_off fs k) + int (field_off (D (ptr (fs ! k))) j)))"
    and "field_holds (Suc n) D m (fs ! k) (a + int (field_off fs k)) \<Longrightarrow>
      i < (if PB_HTYPE (ftype (fs ! k)) = PB_HTYPE_REPEATED then uint_at m (a + int (field_off fs k) + sint (size_offset (fs ! k))) 4 else 1) \<Longrightarrow>
      default_seen n D m (D (ptr (fs ! k))) (a + int (field_off fs k) + int i * int (unat (data_size (fs ! k))))"
  using assms by (auto simp: Let_def simp del: field_holds.simps zero_item.simps split: if_splits)

lemma default_seenI:
  assumes "\<And>k. k < length fs \<Longrightarrow> PB_LTYPE (ftype (fs ! k)) = PB_LTYPE_SUBMESSAGE \<Longrightarrow> flagless (fs ! k) \<Longrightarrow>
      (\<exists>j<length (D (ptr (fs ! k))). field_holds n D m (D (ptr (fs ! k)) ! j) (a + int (field_off fs k) + int (field_off (D (ptr (fs ! k))) j))) \<longleftrightarrow>
      (\<exists>j<length (D (ptr (fs ! k))). \<not> zero_item n D m (D (ptr (fs ! k)) ! j) (a + int (field_off fs k) + int (field_off (D (ptr (fs ! k))) j)))"
    and "\<And>k b. k < length fs \<Longrightarrow> PB_LTYPE (ftype (fs ! k)) = PB_LTYPE_SUBMESSAGE \<Longrightarrow> default_seen n D m (D (ptr (fs ! k))) b"
  shows "default_seen (Suc n) D m fs a"
  unfolding default_seen.simps Let_def using assms by (simp del: field_holds.simps zero_item.simps)

lemma holds_seen:
  assumes "emsg_ok (Suc n) D fs sz" and "default_seen (Suc n) D m fs a" and "k < length fs" and "flagless (fs ! k)"
  shows "field_holds (Suc n) D m (fs ! k) (a + int (field_off fs k)) \<longleftrightarrow> \<not> zero_item (Suc n) D m (fs ! k) (a + int (field_off fs k))"
  by (rule holds_iff_data [OF assms(4) emsg_okD(2) [OF assms(1,3)] default_seenD(1) [OF assms(2,3) _ assms(4)]])

text \<open>What is sent is what is meant.\<close>

lemma spec_msg_means:
  "emsg_ok n D fs sz \<Longrightarrow> default_seen n D m fs a \<Longrightarrow> spec_msg n D m fs a = proto_msg n D m fs a"
proof (induction n arbitrary: fs sz a)
  case (Suc n)
  have "field_bytes (Suc n) (spec_msg n D m) D m (fs ! k) (a + int (field_off fs k)) =
      (if field_holds (Suc n) D m (fs ! k) (a + int (field_off fs k)) then field_value (proto_msg n D m) D m (fs ! k) (a + int (field_off fs k)) else Some [])"
    if k: "k < length fs" for k
  proof (rule field_bytes_means [OF holds_seen [OF Suc.prems k]])
    fix i assume h: "field_holds (Suc n) D m (fs ! k) (a + int (field_off fs k))"
      and i: "i < (if PB_HTYPE (ftype (fs ! k)) = PB_HTYPE_REPEATED then uint_at m (a + int (field_off fs k) + sint (size_offset (fs ! k))) 4 else 1)"
    show "item_bytes (spec_msg n D m) D m (fs ! k) (a + int (field_off fs k) + int i * int (unat (data_size (fs ! k)))) =
        item_bytes (proto_msg n D m) D m (fs ! k) (a + int (field_off fs k) + int i * int (unat (data_size (fs ! k))))"
    proof (rule item_bytes_cong)
      assume s: "PB_LTYPE (ftype (fs ! k)) = PB_LTYPE_SUBMESSAGE"
      have "emsg_ok n D (D (ptr (fs ! k))) (unat (data_size (fs ! k)))" using emsg_okD(5) [OF Suc.prems(1) k s] by blast
      from Suc.IH [OF this default_seenD(2) [OF Suc.prems(2) k s h i]]
      show "spec_msg n D m (D (ptr (fs ! k))) (a + int (field_off fs k) + int i * int (unat (data_size (fs ! k)))) =
          proto_msg n D m (D (ptr (fs ! k))) (a + int (field_off fs k) + int i * int (unat (data_size (fs ! k))))" .
    qed
  qed
  then have "map (\<lambda>k. field_bytes (Suc n) (spec_msg n D m) D m (fs ! k) (a + int (field_off fs k))) [0..<length fs] =
      map (\<lambda>k. if field_holds (Suc n) D m (fs ! k) (a + int (field_off fs k)) then field_value (proto_msg n D m) D m (fs ! k) (a + int (field_off fs k)) else Some [])
        [0..<length fs]"
    by (intro map_cong) auto
  then show ?case by (simp only: spec_msg.simps proto_msg.simps Let_def)
qed simp

text \<open>The condition on the type.\<close>

lemma plain_type_seen: "emsg_ok n D fs sz \<Longrightarrow> plain_type n D fs \<Longrightarrow> default_seen n D m fs a"
proof (induction n arbitrary: fs sz a)
  case (Suc n)
  have seen: "default_seen n D m (D (ptr (fs ! k))) b"
    if k: "k < length fs" and s: "PB_LTYPE (ftype (fs ! k)) = PB_LTYPE_SUBMESSAGE" for k b
    using Suc.IH [of "D (ptr (fs ! k))" "unat (data_size (fs ! k))" b] emsg_okD(5) [OF Suc.prems(1) k s] Suc.prems(2) k s by simp
  have iff: "field_holds n D m (D (ptr (fs ! k)) ! j) (a + int (field_off fs k) + int (field_off (D (ptr (fs ! k))) j)) \<longleftrightarrow>
      \<not> zero_item n D m (D (ptr (fs ! k)) ! j) (a + int (field_off fs k) + int (field_off (D (ptr (fs ! k))) j))"
    if k: "k < length fs" and s: "PB_LTYPE (ftype (fs ! k)) = PB_LTYPE_SUBMESSAGE" and f: "flagless (fs ! k)"
      and j: "j < length (D (ptr (fs ! k)))" for k j a
  proof -
    have ok: "emsg_ok n D (D (ptr (fs ! k))) (unat (data_size (fs ! k)))" using emsg_okD(5) [OF Suc.prems(1) k s] by blast
    have "\<forall>g\<in>set (D (ptr (fs ! k))). flagless g" using Suc.prems(2) k s f by auto
    then have p: "flagless (D (ptr (fs ! k)) ! j)" using j by simp
    show ?thesis
    proof (cases n)
      case 0
      then show ?thesis using ok by (simp add: emsg_ok_def)
    next
      case n: (Suc n')
      show ?thesis unfolding n by (rule holds_seen [OF ok [unfolded n] seen [OF k s, unfolded n] j p])
    qed
  qed
  show ?case by (rule default_seenI) (simp_all add: iff seen cong: conj_cong)
qed simp

text \<open>A message means nothing if and only if none of its fields holds anything.\<close>

lemma tagged_not_Nil: "cat_opt (tag_spec f) r \<noteq> Some []"
  by (auto simp: cat_opt_def tag_spec_def varint_nonempty split: option.splits)

lemma cat_list_Nil: "cat_list rs = Some [] \<longleftrightarrow> (\<forall>r\<in>set rs. r = Some [])"
  by (induction rs) (auto simp: cat_opt_def split: option.splits)

lemma field_value_not_Nil: "field_holds (Suc n) D m f a \<Longrightarrow> field_value sub D m f a \<noteq> Some []"
proof -
  assume h: "field_holds (Suc n) D m f a"
  show ?thesis
  proof (cases "PB_HTYPE (ftype f) = PB_HTYPE_REPEATED")
    case True
    let ?c = "uint_at m (a + sint (size_offset f)) 4"
    let ?items = "map (\<lambda>i. cat_opt (tag_spec f) (item_bytes sub D m f (a + int i * int (unat (data_size f))))) [0..<?c]"
    have "0 < ?c" using True h by (simp add: flagless_def)
    then have "cat_opt (tag_spec f) (item_bytes sub D m f (a + int 0 * int (unat (data_size f)))) \<in> set ?items"
      unfolding set_map by (intro imageI) simp
    then have "cat_list ?items \<noteq> Some []" using tagged_not_Nil cat_list_Nil by metis
    moreover have "cat_opt (Some (varint v)) r \<noteq> Some []" for v r by (simp add: cat_opt_def varint_nonempty split: option.split)
    ultimately show ?thesis unfolding field_value_def Let_def using True by simp
  qed (simp add: field_value_def Let_def tagged_not_Nil)
qed

lemma proto_msg_Nil:
  "proto_msg (Suc n) D m fs a = Some [] \<longleftrightarrow> (\<forall>k<length fs. \<not> field_holds (Suc n) D m (fs ! k) (a + int (field_off fs k)))"
proof -
  have "(if field_holds (Suc n) D m f b then field_value sub D m f b else Some []) = Some [] \<longleftrightarrow> \<not> field_holds (Suc n) D m f b" for sub f b
    using field_value_not_Nil [of n D m f b sub] by simp
  then show ?thesis unfolding proto_msg.simps Let_def cat_list_Nil set_map ball_simps by (auto simp del: field_holds.simps)
qed

lemma submessage_holds:
  assumes "flagless f" and "PB_LTYPE (ftype f) = PB_LTYPE_SUBMESSAGE" and "j < length (D (ptr f))"
    and "field_holds n D m (D (ptr f) ! j) (a + int (field_off (D (ptr f)) j))"
  shows "field_holds (Suc n) D m f a"
  using assms by (auto simp: Let_def flagless_def)

text \<open>Integers whose first item is zero.\<close>

lemma packable_zero:
  assumes "PB_LTYPE (ftype f) \<le> PB_LTYPE_LAST_PACKABLE" and "uint_at m a (unat (data_size f)) = 0"
  shows "zero_item (Suc n) D m f a"
proof -
  have "PB_LTYPE (ftype f) \<noteq> 5" "PB_LTYPE (ftype f) \<noteq> 6" "PB_LTYPE (ftype f) \<noteq> 7" "PB_LTYPE (ftype f) \<noteq> 9"
    using assms(1) by auto
  then show ?thesis using assms(2) by (simp add: uint_at_zero)
qed

lemma submessage_zero:
  assumes "PB_LTYPE (ftype f) = PB_LTYPE_SUBMESSAGE"
    and "\<forall>j<length (D (ptr f)). PB_LTYPE (ftype (D (ptr f) ! j)) \<le> PB_LTYPE_LAST_PACKABLE \<and>
      uint_at m (a + int (field_off (D (ptr f)) j)) (unat (data_size (D (ptr f) ! j))) = 0"
  shows "zero_item (Suc (Suc n)) D m f a"
  unfolding zero_item.simps(2) [of "Suc n"] Let_def using assms packable_zero [where n = n] by (simp del: zero_item.simps)

text \<open>A message without presence flags whose data are zero is not sent, whatever it holds.\<close>

lemma nothing_sent:
  assumes "\<forall>k<length fs. flagless (fs ! k) \<and> zero_item (Suc n) D m (fs ! k) (a + int (field_off fs k))"
  shows "spec_msg (Suc n) D m fs a = Some []"
  using assms by (simp add: cat_list_Nil field_bytes_def flagless_def Let_def del: zero_item.simps)

end
