(* ===== verification/PB_Decode_Required.thy ===== *)
theory PB_Decode_Required
  imports PB_Decode_Fun
begin

text \<open>
  The check of required fields at the end of \<^verbatim>\<open>pb_decode_noinit\<close> for message types with 32 or with 64 and more
  required fields, which the memory safety theorems exclude (\<open>req_ok\<close>). Whatever the input, the memory and
  the callbacks, the main loop keeps the iterator at a field and two words of \<^verbatim>\<open>fields_seen\<close>
  (\<open>loop_linv\<close>), and for these counts the check never succeeds: it fails, or is undefined
  (\<open>required_present_many\<close>).
\<close>

subsection \<open>The main loop keeps its variables\<close>

lemma linvI: "at_field fs k \<Longrightarrow> iter x = iter_nth fs d k \<Longrightarrow> length (fields_seen x) = 2 \<Longrightarrow> linv fs d x"
  by (auto simp: linv_def)

lemma try_extension_linv:
  assumes "fields_ok fs" and "linv fs d x" and "try_extension n E noinit tg wt x s = Ret (b, x') s'"
  shows "linv fs d x'"
proof -
  obtain k where k: "at_field fs k" "iter x = iter_nth fs d k" and l: "length (fields_seen x) = 2"
    using assms(2) by (auto simp: linv_def)
  obtain c i where i: "find_extension_field (iter_nth fs d k) = Some (c, iter_nth fs d i)" "at_field fs i"
    unfolding find_extension_field_def iter_nth_simps by (rule iter_search_at_field [OF assms(1) k(1)])
  have "linv fs d (x\<lparr>iter := iter_nth fs d i, extension_range_start := r\<rparr>)" for r
    using i(2) l by (auto intro!: linvI)
  then show ?thesis
    using assms(2,3) i(1) k(2) by (auto simp: try_extension_def Let_def andThen_eq_Ret split: if_splits)
qed

lemma decode_tagged_linv:
  assumes "fields_ok fs" and "linv fs d x" and "decode_tagged n E noinit wt tg x s = Ret (b, x') s'"
  shows "linv fs d x'"
proof -
  obtain k where k: "at_field fs k" "iter x = iter_nth fs d k" and l: "length (fields_seen x) = 2"
    using assms(2) by (auto simp: linv_def)
  obtain c i where i: "pb_field_iter_find (iter_nth fs d k) tg = Some (c, iter_nth fs d i)" "at_field fs i"
    unfolding pb_field_iter_find_def iter_nth_simps by (rule iter_search_at_field [OF assms(1) k(1)])
  have 1: "linv fs d (x\<lparr>iter := iter_nth fs d i\<rparr>)" using i(2) l by (auto intro!: linvI)
  have 2: "linv fs d (x\<lparr>iter := iter_nth fs d i, fields_seen := note_required (iter_nth fs d i) (fields_seen x)\<rparr>)"
    using i(2) l by (auto intro!: linvI simp: note_required_def Let_def)
  show ?thesis
  proof (cases c)
    case True
    then show ?thesis using assms(3) i(1) k(2) 2 by (auto simp: decode_tagged_def Let_def andThen_eq_Ret)
  next
    case False
    then obtain h y t where "try_extension n E noinit tg wt (x\<lparr>iter := iter_nth fs d i\<rparr>) s = Ret (h, y) t" "x' = y"
      using assms(3) i(1) k(2) by (auto simp: decode_tagged_def Let_def andThen_eq_Ret split: if_splits)
    then show ?thesis using try_extension_linv [OF assms(1) 1] by blast
  qed
qed

lemma decode_step_linv:
  assumes "fields_ok fs" and "linv fs d x" and "decode_step n E noinit x s = Ret (b, x') s'"
  shows "linv fs d x'"
  using assms(3) decode_tagged_linv [OF assms(1,2)] assms(2)
  by (auto simp: decode_step_def andThen_eq_Ret split: option.splits if_splits)

lemma loop_linv:
  assumes "fields_ok fs"
  shows "linv fs d x \<Longrightarrow> decode_loop k (decode_step n E noinit) x s = Ret x' s' \<Longrightarrow> linv fs d x'"
proof (induction k arbitrary: x s)
  case 0
  then show ?case by (auto simp: decode_loop.simps split: if_splits)
next
  case (Suc k)
  show ?case
  proof (cases "bytes_left (dstream s) = 0")
    case True
    then show ?thesis using Suc.prems by (auto simp: decode_loop.simps)
  next
    case False
    then obtain b y t where y: "decode_step n E noinit x s = Ret (b, y) t"
        and go: "(if b then decode_loop k (decode_step n E noinit) y t else Ret y t) = Ret x' s'"
      using Suc.prems(2) by (auto simp: decode_loop.simps [of "Suc k"] andThen_eq_Ret)
    have "linv fs d y" by (rule decode_step_linv [OF assms Suc.prems(1) y])
    then show ?thesis using go Suc.IH by (auto split: if_splits)
  qed
qed

subsection \<open>The check\<close>

definition too_many_required :: "pb_field_t list \<Rightarrow> bool" where
  "too_many_required fs \<longleftrightarrow> (let c = required_before fs (length fs) in c = 32 \<or> 64 \<le> c \<and> c < 2 ^ 32)"

lemma whole_words_long: "length seen < k \<Longrightarrow> whole_words seen k \<noteq> Some True"
  by (induction k) (auto split: option.splits if_splits bool.splits)

lemma required_present_many:
  assumes "length seen = 2" and "c = 32 \<or> 64 \<le> c \<and> c < 2 ^ 32"
  shows "required_present seen (word_of_nat c) \<noteq> Some True"
    and "\<forall>i<min c 64. seen_bit seen i \<Longrightarrow> required_present seen (word_of_nat c) = None"
proof -
  have c: "unat (word_of_nat c :: 32 word) = c" using assms(2) by (auto simp: unat_of_nat)
  have nz: "(word_of_nat c :: 32 word) \<noteq> 0" using c assms(2) by (metis unat_0 numeral_eq_iff not_numeral_le_zero zero_neq_numeral)
  have i: "unat (drop_bit 5 (word_of_nat c :: 32 word)) = c div 32" by (simp add: count_parts(1) c)
  have r: "(word_of_nat c :: 32 word) AND 31 = 0" if "c = 32" using that by simp
  have u: "required_present seen (word_of_nat c) =
      (case whole_words seen (c div 32) of None \<Rightarrow> None | Some False \<Rightarrow> Some False | Some True \<Rightarrow> None)"
  proof (cases "c = 32")
    case True
    then show ?thesis using r nz i by (simp add: required_present_def Let_def split: option.split bool.split)
  next
    case False
    then have "2 \<le> c div 32" using assms(2) div_le_mono [of 64 c 32] by simp
    then show ?thesis using nz i assms(1) by (simp add: required_present_def Let_def split: option.split bool.split)
  qed
  show "required_present seen (word_of_nat c) \<noteq> Some True" unfolding u by (simp split: option.split bool.split)
  assume s: "\<forall>i<min c 64. seen_bit seen i"
  have w: "seen ! j = - 1" if "j < 2" "32 * j < c" for j
  proof -
    have "j * 32 + 32 \<le> min c 64" using that assms(2) by auto
    then have "bit (seen ! j) n" if "n < 32" for n
      using s that by (auto simp: seen_bit_def dest!: spec [of _ "j * 32 + n"])
    then show ?thesis by (intro bit_word_eqI) auto
  qed
  have "whole_words seen (c div 32) \<noteq> Some False"
  proof -
    have "whole_words seen k \<noteq> Some False" if "k \<le> c div 32" for k
      using that
    proof (induction k)
      case (Suc k)
      then have "32 * k < c" by linarith
      then show ?case using Suc w [of k] assms(1) by (auto split: option.splits bool.splits)
    qed simp
    then show ?thesis by blast
  qed
  then show "required_present seen (word_of_nat c) = None" unfolding u by (simp split: option.split bool.split)
qed

lemma decode_noinit_many:
  assumes "fields_ok fs" and "too_many_required fs"
    and "decode_loop (unat (bytes_left (dstream s))) (decode_step n E (pb_decode_noinit n E))
       \<lparr>iter = snd (pb_field_iter_begin fs dest), fields_seen = [0, 0], extension_range_start = 0\<rparr> s = Ret x s'"
  shows "pb_decode_noinit (Suc n) E fs dest s \<noteq> Ret () t"
    and "\<forall>i<min (required_before fs (length fs)) 64. seen_bit (fields_seen x) i \<Longrightarrow> pb_decode_noinit (Suc n) E fs dest s = Undef"
proof -
  let ?c = "required_before fs (length fs)"
  have "required_before [] 0 = 0" by (simp add: required_before_def)
  then have "fs \<noteq> []" using assms(2) by (auto simp: too_many_required_def)
  then have "linv fs dest \<lparr>iter = snd (pb_field_iter_begin fs dest), fields_seen = [0, 0], extension_range_start = 0\<rparr>"
    by (intro linvI [of _ 0]) (simp_all add: begin_iter_nth at_field_def)
  then have "linv fs dest x" by (rule loop_linv [OF assms(1) _ assms(3)])
  then obtain k where k: "at_field fs k" "iter x = iter_nth fs dest k" and l: "length (fields_seen x) = 2" by (auto simp: linv_def)
  have c: "req_field_count (iter x) = Some (word_of_nat ?c)" unfolding k(2) by (rule req_field_count_at [OF assms(1) k(1)])
  have m: "?c = 32 \<or> 64 \<le> ?c \<and> ?c < 2 ^ 32" using assms(2) by (simp add: too_many_required_def Let_def)
  have e: "pb_decode_noinit (Suc n) E fs dest s =
      (case required_present (fields_seen x) (word_of_nat ?c) of None \<Rightarrow> Undef
       | Some ok \<Rightarrow> if ok then Ret () s' else derror s' ''missing required field'')"
    by (simp add: assms(3) c)
  show "pb_decode_noinit (Suc n) E fs dest s \<noteq> Ret () t"
    unfolding e using required_present_many(1) [OF l m] by (auto simp: derror_def on_stream_def ierror_def split: option.split)
  show "pb_decode_noinit (Suc n) E fs dest s = Undef" if "\<forall>i<min ?c 64. seen_bit (fields_seen x) i"
    unfolding e using required_present_many(2) [OF l m that] by simp
qed

end
