(* ===== verification/PB_Examples.thy ===== *)
theory PB_Examples
  imports PB_Encode_Meaning PB_Decode_Required
begin

text \<open>
  A concrete message type, as the generator would describe it, at which the theorems are
  instantiated: a required \<^verbatim>\<open>uint32\<close>, a repeated \<^verbatim>\<open>uint32\<close> with room for two items, and an
  optional submessage with one \<^verbatim>\<open>sint32\<close> without presence flag. The structure has 24 bytes:
  the integer at 0, the count at 4, the array at 8, the flag at 16 and the submessage at 20.
\<close>

definition ex_int :: "nat \<Rightarrow> cmember" where
  "ex_int off = \<lparr>moff = off, msize = 4, melem = 4\<rparr>"

definition ex_inner :: "pb_field_t list" where
  "ex_inner = [PB_SINGULAR_STATIC 1 (ex_int 0) (PB_DATAOFFSET_FIRST (ex_int 0)) PB_LTYPE_SVARINT 0]"

definition ex_outer :: "pb_field_t list" where
  "ex_outer =
     [PB_REQUIRED_STATIC 1 (ex_int 0) (PB_DATAOFFSET_FIRST (ex_int 0)) PB_LTYPE_UVARINT 0,
      PB_REPEATED_STATIC 2 (ex_int 4) \<lparr>moff = 8, msize = 8, melem = 4\<rparr>
        (PB_DATAOFFSET_OTHER \<lparr>moff = 8, msize = 8, melem = 4\<rparr> (ex_int 0)) PB_LTYPE_UVARINT 0,
      PB_OPTIONAL_STATIC 3 \<lparr>moff = 16, msize = 1, melem = 1\<rparr> (ex_int 20)
        (PB_DATAOFFSET_OTHER (ex_int 20) \<lparr>moff = 8, msize = 8, melem = 4\<rparr>) PB_LTYPE_SUBMESSAGE 1000]"

definition ex_desc :: "addr \<Rightarrow> pb_field_t list" where
  "ex_desc p = (if p = 1000 then ex_inner else [])"

definition ex_dec :: "unit dec_env" where
  "ex_dec = \<lparr>ddesc = ex_desc, dec_callback = (\<lambda>_ _ _ s. Undef), ext_decode = (\<lambda>_ _ _ _ s. Undef)\<rparr>"

definition ex_enc :: "unit enc_env" where
  "ex_enc = \<lparr>desc = ex_desc, enc_callback = (\<lambda>_ _ _ _ _. Undef), ext_encode = (\<lambda>_ _ _ _. Undef)\<rparr>"

text \<open>A memory that holds the given bytes at address 16 and nothing else.\<close>

definition ex_mem :: "byte list \<Rightarrow> mem" where
  "ex_mem bs a = (if 16 \<le> a \<and> a < 16 + int (length bs) then Some (bs ! nat (a - 16)) else None)"

definition ex_msg :: "byte list" where
  "ex_msg = [150, 0, 0, 0,  2, 0, 0, 0,  3, 0, 0, 0,  44, 1, 0, 0,  1, 0, 0, 0,  254, 255, 255, 255]"

lemma dom_ex_mem: "dom (ex_mem bs) = {16..<16 + int (length bs)}"
  by (auto simp: ex_mem_def dom_def)

lemma valid_ex_mem: "valid_range (ex_mem bs) 16 (length bs)"
  using inV_valid [of "ex_mem bs" 16 "length bs"] by (simp add: dom_ex_mem inV_def)

lemma load_ex_mem: "n = length bs \<Longrightarrow> load_bytes (ex_mem bs) 16 n = Some bs"
proof -
  assume n: "n = length bs"
  obtain cs where cs: "load_bytes (ex_mem bs) 16 n = Some cs"
    using valid_ex_mem [of bs] load_bytes_valid [of "ex_mem bs" 16 n] n by auto
  have "cs = bs"
  proof (rule nth_equalityI)
    show "length cs = length bs" using load_bytes_length [OF cs] n by simp
    fix i assume "i < length cs"
    then show "cs ! i = bs ! i"
      using load_bytes_nth [OF cs, of i] load_bytes_length [OF cs] n by (simp add: ex_mem_def)
  qed
  with cs show ?thesis by simp
qed

lemma valid_ex_msg: "valid_range (ex_mem ex_msg) 16 24"
proof -
  have "length ex_msg = 24" by (simp add: ex_msg_def)
  then show ?thesis using valid_ex_mem [of ex_msg] by simp
qed

lemmas ex_macros = PB_REQUIRED_STATIC_def PB_REPEATED_STATIC_def PB_OPTIONAL_STATIC_def PB_SINGULAR_STATIC_def
  PB_DATAOFFSET_FIRST_def PB_DATAOFFSET_OTHER_def pb_membersize_def pb_elemsize_def pb_arraysize_def pb_delta_def
  ex_int_def

lemma ex_inner_eval:
  "ex_inner = [\<lparr>tag = 1, ftype = 0x12, data_offset = 0, size_offset = 0, data_size = 4, array_size = 0, ptr = 0\<rparr>]"
  by (simp add: ex_inner_def ex_macros)

lemma ex_outer_eval:
  "ex_outer = [\<lparr>tag = 1, ftype = 0x01, data_offset = 0, size_offset = 0, data_size = 4, array_size = 0, ptr = 0\<rparr>,
     \<lparr>tag = 2, ftype = 0x21, data_offset = 4, size_offset = - 4, data_size = 4, array_size = 2, ptr = 0\<rparr>,
     \<lparr>tag = 3, ftype = 0x17, data_offset = 4, size_offset = - 4, data_size = 4, array_size = 0, ptr = 1000\<rparr>]"
  by (simp add: ex_outer_def ex_macros)

lemmas ex_layout = fields_ok_def Let_def All_less_Suc item_ok_def has_ltype_def PB_LTYPE_def
  PB_ATYPE_def PB_HTYPE_def flag_ok_def field_extent_def same_union_def field_at_def

lemma ex_fields_ok: "fields_ok ex_outer"
  by (simp add: fields_ok_def ex_outer_eval)

definition ex_members :: "cmember list" where
  "ex_members = [ex_int 0, \<lparr>moff = 8, msize = 8, melem = 4\<rparr>, ex_int 20]"

lemma ex_laid_out: "laid_out ex_members ex_outer"
  by (simp add: laid_out_def All_less_Suc ex_members_def ex_outer_eval ex_macros field_extent_def PB_ATYPE_def PB_HTYPE_def)

lemma ex_dmsg_ok: "dmsg_ok V (Suc (Suc 0)) (ddesc ex_dec) ex_outer 24"
  by (simp add: dmsg_ok_def ex_outer_eval ex_inner_eval ex_dec_def ex_layout dfield_ok_def req_ok_def
        required_before_def is_required_def ex_desc_def)

lemma ex_emsg_ok: "emsg_ok (Suc (Suc 0)) (desc ex_enc) ex_outer 24"
  by (simp add: emsg_ok_def ex_outer_eval ex_inner_eval ex_enc_def ex_layout efield_ok_def union_ok_def
        ex_desc_def)

lemma ex_bytes:
  "mem_bytes (ex_mem ex_msg) 16 4 = [150,0,0,0]"
  "mem_bytes (ex_mem ex_msg) 20 4 = [2,0,0,0]" "mem_bytes (ex_mem ex_msg) 24 4 = [3,0,0,0]"
  "mem_bytes (ex_mem ex_msg) 28 4 = [44,1,0,0]" "mem_bytes (ex_mem ex_msg) 32 (Suc 0) = [1]"
  "mem_bytes (ex_mem ex_msg) 36 4 = [254,255,255,255]"
  by (simp_all add: mem_bytes_def ex_mem_def ex_msg_def upt_rec)

lemmas ex_spec_simps = field_bytes_def ex_layout item_bytes_def tag_spec_def wire_type_of_def uint_at_def sint_at_def
  ex_bytes int_size_def zigzag_nat_def cat_opt_def varint.simps

lemma ex_inner_spec: "spec_msg (Suc 0) ex_desc (ex_mem ex_msg) ex_inner 36 = Some [0x08, 0x03]"
  by (simp add: ex_inner_eval ex_spec_simps)

lemma ex_spec: "spec_msg (Suc (Suc 0)) (desc ex_enc) (ex_mem ex_msg) ex_outer 16 =
    Some [0x08, 0x96, 0x01, 0x12, 0x03, 0x03, 0xAC, 0x02, 0x1A, 0x02, 0x08, 0x03]"
  by (simp add: spec_msg.simps(2) [of "Suc 0"] ex_outer_eval ex_enc_def ex_desc_def ex_inner_spec ex_spec_simps
      delimited_def upt_rec del: spec_msg.simps)

lemma ex_small: "small_msg (Suc (Suc 0)) (desc ex_enc) (ex_mem ex_msg) ex_outer 16"
proof -
  have "small_msg (Suc 0) ex_desc (ex_mem ex_msg) ex_inner 36"
    by (simp add: ex_inner_eval ex_layout)
  then show ?thesis
    by (simp add: small_msg.simps(2) [of "Suc 0"] ex_outer_eval ex_enc_def ex_desc_def ex_layout ex_inner_spec
        del: small_msg.simps spec_msg.simps)
qed

text \<open>
  A message in the style of proto3: an integer without presence flag, and a submessage without presence
  flag, whose field is not at its default.
\<close>

definition p3_outer :: "pb_field_t list" where
  "p3_outer =
     [PB_SINGULAR_STATIC 1 (ex_int 0) (PB_DATAOFFSET_FIRST (ex_int 0)) PB_LTYPE_UVARINT 0,
      PB_SINGULAR_STATIC 2 (ex_int 4) (PB_DATAOFFSET_OTHER (ex_int 4) (ex_int 0)) PB_LTYPE_SUBMESSAGE 1000]"

definition p3_msg :: "byte list" where
  "p3_msg = [5, 0, 0, 0,  254, 255, 255, 255]"

lemma p3_outer_eval:
  "p3_outer = [\<lparr>tag = 1, ftype = 0x11, data_offset = 0, size_offset = 0, data_size = 4, array_size = 0, ptr = 0\<rparr>,
     \<lparr>tag = 2, ftype = 0x17, data_offset = 0, size_offset = 0, data_size = 4, array_size = 0, ptr = 1000\<rparr>]"
  by (simp add: p3_outer_def ex_macros)

lemma valid_p3_msg: "valid_range (ex_mem p3_msg) 16 8"
proof -
  have "length p3_msg = 8" by (simp add: p3_msg_def)
  then show ?thesis using valid_ex_mem [of p3_msg] by simp
qed

lemma p3_emsg_ok: "emsg_ok (Suc (Suc 0)) (desc ex_enc) p3_outer 8"
  by (simp add: emsg_ok_def p3_outer_eval ex_inner_eval ex_enc_def ex_layout efield_ok_def union_ok_def ex_desc_def)

lemma p3_seen: "default_seen (Suc (Suc 0)) (desc ex_enc) m p3_outer a"
  by (rule plain_type_seen [OF p3_emsg_ok])
    (simp add: p3_outer_eval ex_inner_eval ex_enc_def ex_desc_def flagless_def PB_LTYPE_def PB_HTYPE_def)

lemma ex_desc_eq: "ex_desc 1000 = ex_inner"
  by (simp add: ex_desc_def)

lemma p3_bytes:
  "mem_bytes (ex_mem p3_msg) 16 4 = [5,0,0,0]" "mem_bytes (ex_mem p3_msg) 20 4 = [254,255,255,255]"
  by (simp_all add: mem_bytes_def ex_mem_def p3_msg_def upt_rec)

lemmas p3_simps = field_value_def flagless_def ex_layout item_bytes_def tag_spec_def wire_type_of_def uint_at_def sint_at_def
  p3_bytes int_size_def zigzag_nat_def cat_opt_def varint.simps

lemma p3_inner: "proto_msg (Suc 0) ex_desc (ex_mem p3_msg) ex_inner 20 = Some [0x08, 0x03]"
  by (simp add: ex_inner_eval p3_simps)

lemma p3_inner_holds:
  "\<exists>j<length ex_inner. field_holds (Suc 0) ex_desc (ex_mem p3_msg) (ex_inner ! j) (20 + int (field_off ex_inner j))"
  by (simp add: ex_inner_eval p3_simps)

lemma p3_spec: "proto_msg (Suc (Suc 0)) (desc ex_enc) (ex_mem p3_msg) p3_outer 16 = Some [0x08, 0x05, 0x12, 0x02, 0x08, 0x03]"
  by (simp add: proto_msg.simps(2) [of "Suc 0"] field_holds.simps(2) [of "Suc 0"] p3_outer_eval ex_enc_def ex_desc_eq p3_inner
      p3_inner_holds p3_simps delimited_def upt_rec del: proto_msg.simps field_holds.simps)

lemma p3_small: "small_msg (Suc (Suc 0)) (desc ex_enc) (ex_mem p3_msg) p3_outer 16"
proof -
  have "emsg_ok (Suc 0) ex_desc ex_inner 4"
    by (simp add: emsg_ok_def ex_inner_eval ex_layout efield_ok_def union_ok_def ex_desc_def)
  then have "spec_msg (Suc 0) ex_desc (ex_mem p3_msg) ex_inner 20 = Some [0x08, 0x03]"
    unfolding p3_inner [symmetric] by (rule spec_msg_means) (simp add: ex_inner_eval PB_LTYPE_def)
  moreover have "small_msg (Suc 0) ex_desc (ex_mem p3_msg) ex_inner 20"
    by (simp add: ex_inner_eval ex_layout)
  ultimately show ?thesis
    by (simp add: small_msg.simps(2) [of "Suc 0"] p3_outer_eval ex_enc_def ex_desc_def ex_layout
        del: small_msg.simps spec_msg.simps)
qed

text \<open>
  A second message type, for the proto3 zero test: an outer message with one submessage without
  presence flag, whose only field is a repeated \<^verbatim>\<open>uint32\<close>; it holds the two items 0 and 5.
\<close>

definition z_inner :: "pb_field_t list" where
  "z_inner = [PB_REPEATED_STATIC 1 (ex_int 0) \<lparr>moff = 4, msize = 8, melem = 4\<rparr>
     (PB_DATAOFFSET_FIRST \<lparr>moff = 4, msize = 8, melem = 4\<rparr>) PB_LTYPE_UVARINT 0]"

definition z_outer :: "pb_field_t list" where
  "z_outer = [PB_SINGULAR_STATIC 1 \<lparr>moff = 0, msize = 12, melem = 12\<rparr>
     (PB_DATAOFFSET_FIRST \<lparr>moff = 0, msize = 12, melem = 12\<rparr>) PB_LTYPE_SUBMESSAGE 1000]"

definition z_enc :: "unit enc_env" where
  "z_enc = \<lparr>desc = (\<lambda>_. z_inner), enc_callback = (\<lambda>_ _ _ _ _. Undef), ext_encode = (\<lambda>_ _ _ _. Undef)\<rparr>"

definition z_msg :: "byte list" where
  "z_msg = [2, 0, 0, 0,  0, 0, 0, 0,  5, 0, 0, 0]"

lemma z_eval:
  "z_inner = [\<lparr>tag = 1, ftype = 0x21, data_offset = 4, size_offset = - 4, data_size = 4, array_size = 2, ptr = 0\<rparr>]"
  "z_outer = [\<lparr>tag = 1, ftype = 0x17, data_offset = 0, size_offset = 0, data_size = 12, array_size = 0, ptr = 1000\<rparr>]"
  by (simp_all add: z_inner_def z_outer_def ex_macros)

lemma valid_z_msg: "valid_range (ex_mem z_msg) 16 12"
proof -
  have "length z_msg = 12" by (simp add: z_msg_def)
  then show ?thesis using valid_ex_mem [of z_msg] by simp
qed

lemma z_emsg_ok: "emsg_ok (Suc (Suc 0)) (desc z_enc) z_outer 12"
  by (simp add: emsg_ok_def z_eval z_enc_def ex_layout efield_ok_def union_ok_def)

lemma z_bytes:
  "mem_bytes (ex_mem z_msg) 16 4 = [2,0,0,0]" "mem_bytes (ex_mem z_msg) 20 4 = [0,0,0,0]" "mem_bytes (ex_mem z_msg) 24 4 = [5,0,0,0]"
  by (simp_all add: mem_bytes_def ex_mem_def z_msg_def upt_rec)

lemma z_small: "small_msg (Suc (Suc 0)) (desc z_enc) (ex_mem z_msg) z_outer 16"
proof -
  have "spec_msg (Suc 0) (\<lambda>_. z_inner) (ex_mem z_msg) z_inner 16 = Some [0x0A, 0x02, 0x00, 0x05]"
    by (simp add: z_eval field_bytes_def ex_layout item_bytes_def uint_at_def z_bytes int_size_def cat_opt_def varint.simps delimited_def upt_rec)
  moreover have "small_msg (Suc 0) (\<lambda>_. z_inner) (ex_mem z_msg) z_inner 16"
    by (simp add: z_eval ex_layout)
  ultimately show ?thesis
    by (simp add: small_msg.simps(2) [of "Suc 0"] z_eval z_enc_def ex_layout
        del: small_msg.simps spec_msg.simps)
qed

text \<open>A message type with 32 required integers, and an input that has all of them.\<close>

definition many_required :: "pb_field_t list" where
  "many_required = map (\<lambda>i. \<lparr>tag = word_of_nat i, ftype = 0x01, data_offset = 0, size_offset = 0, data_size = 4, array_size = 0, ptr = 0\<rparr>) [1..<33]"

definition many_input :: "byte list" where
  "many_input = concat (map (\<lambda>i. varint (i * 8) @ [7]) [1..<33])"

lemma many_required_ok: "fields_ok many_required" "too_many_required many_required"
  by (simp_all add: fields_ok_def many_required_def too_many_required_def required_before_def is_required_def PB_HTYPE_def upt_rec)

end
