(* ===== verification/LDB_Slice.thy ===== *)
theory LDB_Slice
  imports PB_Prelude
begin

text \<open>
  Slices and comparators of leveldb: \<^verbatim>\<open>include/leveldb/slice.h\<close>, \<^verbatim>\<open>include/leveldb/comparator.h\<close> and
  \<^verbatim>\<open>util/comparator.cc\<close>. A slice is the list of the bytes that it refers to; an operation whose
  assertion fails is \<open>None\<close>.

  The abstract class \<^verbatim>\<open>Comparator\<close> is the locale \<open>comparator\<close>: its laws are what the comments of the
  class promise. \<open>key_order\<close> is the part that an ordered container needs. The interpretation
  \<open>bytewise\<close> shows that \<^verbatim>\<open>BytewiseComparatorImpl\<close> keeps the promises.
\<close>

subsection \<open>Slices\<close>

type_synonym slice = "byte list"

text \<open>\<^verbatim>\<open>memcmp(a, b, n)\<close> of the C library, for arguments of at least \<open>n\<close> bytes.\<close>

primrec memcmp :: "byte list \<Rightarrow> byte list \<Rightarrow> nat \<Rightarrow> int" where
  "memcmp a b 0 = 0"
| "memcmp a b (Suc n) =
     (if hd a < hd b then - 1 else if hd b < hd a then 1 else memcmp (tl a) (tl b) n)"

definition Slice_empty :: "slice \<Rightarrow> bool" where "Slice_empty s \<longleftrightarrow> length s = 0"

definition Slice_at :: "slice \<Rightarrow> nat \<Rightarrow> byte option" where
  "Slice_at s n = (if n < length s then Some (s ! n) else None)"

definition Slice_remove_prefix :: "slice \<Rightarrow> nat \<Rightarrow> slice option" where
  "Slice_remove_prefix s n = (if n \<le> length s then Some (drop n s) else None)"

definition Slice_starts_with :: "slice \<Rightarrow> slice \<Rightarrow> bool" where
  "Slice_starts_with s x \<longleftrightarrow> length x \<le> length s \<and> memcmp s x (length x) = 0"

definition Slice_eq :: "slice \<Rightarrow> slice \<Rightarrow> bool" where
  "Slice_eq x y \<longleftrightarrow> length x = length y \<and> memcmp x y (length x) = 0"

definition Slice_compare :: "slice \<Rightarrow> slice \<Rightarrow> int" where
  "Slice_compare a b =
     (let min_len = (if length a < length b then length a else length b);
          r = memcmp a b min_len
      in if r = 0 then (if length a < length b then - 1 else if length b < length a then 1 else r) else r)"

subsection \<open>The bytewise comparator\<close>

text \<open>The loop that finds the length of the common prefix.\<close>

function diff_index :: "byte list \<Rightarrow> byte list \<Rightarrow> nat \<Rightarrow> nat" where
  "diff_index s limit i =
     (if i < min (length s) (length limit) \<and> s ! i = limit ! i then diff_index s limit (i + 1) else i)"
  by pat_completeness auto
termination
  by (relation "measure (\<lambda>(s, limit, i). length s - i)") auto

declare diff_index.simps [simp del]

definition BytewiseComparator_FindShortestSeparator :: "byte list \<Rightarrow> slice \<Rightarrow> byte list" where
  "BytewiseComparator_FindShortestSeparator start limit =
     (let d = diff_index start limit 0 in
      if d \<ge> min (length start) (length limit) then start
      else if start ! d < 0xFF \<and> unat (start ! d) + 1 < unat (limit ! d)
      then take (d + 1) (start[d := start ! d + 1])
      else start)"

function short_successor :: "byte list \<Rightarrow> nat \<Rightarrow> byte list" where
  "short_successor k i =
     (if i < length k then
        if k ! i \<noteq> 0xFF then take (i + 1) (k[i := k ! i + 1]) else short_successor k (i + 1)
      else k)"
  by pat_completeness auto
termination
  by (relation "measure (\<lambda>(k, i). length k - i)") auto

declare short_successor.simps [simp del]

definition BytewiseComparator_FindShortSuccessor :: "byte list \<Rightarrow> byte list" where
  "BytewiseComparator_FindShortSuccessor k = short_successor k 0"

subsection \<open>What a comparator promises\<close>

locale key_order =
  fixes compare :: "'k \<Rightarrow> 'k \<Rightarrow> int"
  assumes sym: "compare a b < 0 \<longleftrightarrow> 0 < compare b a"
    and trans: "compare a b \<le> 0 \<Longrightarrow> compare b c \<le> 0 \<Longrightarrow> compare a c \<le> 0"
begin

lemma self: "compare a a = 0"
  using sym [of a a] by linarith

lemma equal_sym: "compare a b = 0 \<longleftrightarrow> compare b a = 0"
  using sym [of a b] sym [of b a] by linarith

lemma not_less: "\<not> compare a b < 0 \<longleftrightarrow> compare b a \<le> 0"
  using sym [of a b] by linarith

lemma less_le_trans: "compare a b < 0 \<Longrightarrow> compare b c \<le> 0 \<Longrightarrow> compare a c < 0"
  using trans [of b c a] not_less [of a c] not_less [of a b] by linarith

lemma le_less_trans: "compare a b \<le> 0 \<Longrightarrow> compare b c < 0 \<Longrightarrow> compare a c < 0"
  using trans [of c a b] not_less [of a c] not_less [of b c] by linarith

lemma less_trans: "compare a b < 0 \<Longrightarrow> compare b c < 0 \<Longrightarrow> compare a c < 0"
  using less_le_trans [of a b c] by linarith

end

locale comparator = key_order compare for compare :: "byte list \<Rightarrow> byte list \<Rightarrow> int" +
  fixes separator :: "byte list \<Rightarrow> byte list \<Rightarrow> byte list"
    and successor :: "byte list \<Rightarrow> byte list"
  assumes separator_ge: "compare start limit < 0 \<Longrightarrow> compare start (separator start limit) \<le> 0"
    and separator_less: "compare start limit < 0 \<Longrightarrow> compare (separator start limit) limit < 0"
    and successor_ge: "compare k (successor k) \<le> 0"

subsection \<open>Lemmas: bytewise comparison\<close>

text \<open>\<open>Slice_compare\<close> is the lexicographic order, read off one byte at a time.\<close>

lemma Slice_compare_simps [simp]:
  "Slice_compare [] [] = 0" "Slice_compare [] (b # bs) = - 1" "Slice_compare (a # as) [] = 1"
  "Slice_compare (a # as) (b # bs) = (if a < b then - 1 else if b < a then 1 else Slice_compare as bs)"
  by (simp_all add: Slice_compare_def Let_def)

lemma Slice_compare_induct:
  assumes "P [] []" and "\<And>b bs. P [] (b # bs)" and "\<And>a as. P (a # as) []"
    and "\<And>a as b bs. P as bs \<Longrightarrow> P (a # as) (b # bs)"
  shows "P as bs"
  using assms by (induction as bs rule: list_induct2') auto

lemma Slice_compare_range: "Slice_compare a b \<in> {- 1, 0, 1}"
  by (induction a b rule: Slice_compare_induct) auto

lemma Slice_compare_sym: "Slice_compare b a = - Slice_compare a b"
  by (induction a b rule: Slice_compare_induct) auto

lemma Slice_compare_eq: "Slice_compare a b = 0 \<longleftrightarrow> a = b"
  by (induction a b rule: Slice_compare_induct) auto

lemma Slice_compare_trans: "Slice_compare a b \<le> 0 \<Longrightarrow> Slice_compare b c \<le> 0 \<Longrightarrow> Slice_compare a c \<le> 0"
proof (induction a arbitrary: b c)
  case Nil
  then show ?case by (cases c) auto
next
  case (Cons x a)
  obtain y b' where b: "b = y # b'" using Cons.prems(1) by (cases b) auto
  obtain z c' where c: "c = z # c'" using Cons.prems(2) b by (cases c) auto
  show ?case using Cons unfolding b c by (auto split: if_splits)
qed

lemma memcmp_zero: "n \<le> length a \<Longrightarrow> n \<le> length b \<Longrightarrow> memcmp a b n = 0 \<longleftrightarrow> take n a = take n b"
proof (induction n arbitrary: a b)
  case 0
  then show ?case by simp
next
  case (Suc n)
  then obtain x a' y b' where "a = x # a'" "b = y # b'" by (metis Suc_le_length_iff)
  with Suc show ?case by auto
qed

lemma Slice_starts_with_iff: "Slice_starts_with s x \<longleftrightarrow> (\<exists>t. s = x @ t)"
proof
  assume "Slice_starts_with s x"
  then have "take (length x) s = x" using memcmp_zero [of "length x" s x] by (auto simp: Slice_starts_with_def)
  then have "s = x @ drop (length x) s" by (metis append_take_drop_id)
  then show "\<exists>t. s = x @ t" ..
next
  assume "\<exists>t. s = x @ t"
  then show "Slice_starts_with s x" by (auto simp: Slice_starts_with_def memcmp_zero)
qed

lemma Slice_eq_iff: "Slice_eq x y \<longleftrightarrow> x = y"
  by (auto simp: Slice_eq_def memcmp_zero)

subsection \<open>Lemmas: separators\<close>

lemma diff_index_spec:
  assumes "i \<le> length s" and "i \<le> length limit" and "take i s = take i limit"
  shows "let d = diff_index s limit i in d \<le> min (length s) (length limit) \<and> take d s = take d limit \<and>
    (d < min (length s) (length limit) \<longrightarrow> s ! d \<noteq> limit ! d)"
  using assms
proof (induction s limit i rule: diff_index.induct)
  case (1 s limit i)
  show ?case
  proof (cases "i < min (length s) (length limit) \<and> s ! i = limit ! i")
    case True
    then have "take (i + 1) s = take (i + 1) limit" using "1.prems" by (simp add: take_Suc_conv_app_nth)
    with "1.IH" [OF True] True show ?thesis by (subst diff_index.simps) simp
  next
    case False
    with "1.prems" show ?thesis by (subst diff_index.simps) auto
  qed
qed

lemma compare_prefix: "Slice_compare (p @ a) (p @ b) = Slice_compare a b"
  by (induction p) auto

lemma split_at: "d < length s \<Longrightarrow> s = take d s @ s ! d # drop (Suc d) s"
  by (rule id_take_nth_drop)

lemma bump_at: "d < length s \<Longrightarrow> take (d + 1) (s[d := v]) = take d s @ [v]"
  by (simp add: take_Suc_conv_app_nth)

lemma byte_plus_one: "b \<noteq> 0xFF \<Longrightarrow> unat (b + 1) = unat b + 1" for b :: byte
proof -
  assume "b \<noteq> 0xFF"
  then have "unat b \<noteq> 255" by (simp add: word_unat_eq_iff)
  moreover have "unat b < 256" using unsigned_less [of b] by simp
  ultimately show ?thesis by (simp add: unat_word_ariths)
qed

lemma byte_less_plus_one: "b \<noteq> 0xFF \<Longrightarrow> b < b + 1" for b :: byte
  by (simp add: word_less_nat_alt byte_plus_one)

lemma shortest_separator:
  assumes "Slice_compare start limit < 0"
  shows "Slice_compare start (BytewiseComparator_FindShortestSeparator start limit) \<le> 0 \<and>
    Slice_compare (BytewiseComparator_FindShortestSeparator start limit) limit < 0"
proof -
  let ?d = "diff_index start limit 0"
  note d = diff_index_spec [of 0 start limit, unfolded Let_def, simplified]
  show ?thesis
  proof (cases "?d < min (length start) (length limit) \<and> start ! ?d < 0xFF \<and> unat (start ! ?d) + 1 < unat (limit ! ?d)")
    case False
    then have "BytewiseComparator_FindShortestSeparator start limit = start"
      by (auto simp: BytewiseComparator_FindShortestSeparator_def Let_def)
    then show ?thesis using assms by (simp add: Slice_compare_eq [THEN iffD2])
  next
    case True
    let ?p = "take ?d start" and ?b = "start ! ?d"
    have sep: "BytewiseComparator_FindShortestSeparator start limit = ?p @ [?b + 1]"
      using True bump_at [of ?d start] by (auto simp: BytewiseComparator_FindShortestSeparator_def Let_def)
    have s: "start = ?p @ ?b # drop (Suc ?d) start" using True by (intro split_at) simp
    have l: "limit = ?p @ limit ! ?d # drop (Suc ?d) limit" using True d split_at [of ?d limit] by simp
    have b: "?b \<noteq> 0xFF" using True by auto
    have "?b + 1 < limit ! ?d" using True b by (simp add: word_less_nat_alt byte_plus_one)
    then have "Slice_compare (?p @ [?b + 1]) (?p @ limit ! ?d # drop (Suc ?d) limit) < 0"
      by (simp add: compare_prefix)
    moreover have "Slice_compare (?p @ ?b # drop (Suc ?d) start) (?p @ [?b + 1]) \<le> 0"
      using byte_less_plus_one [OF b] by (simp add: compare_prefix)
    ultimately show ?thesis using s l sep by simp
  qed
qed

lemma short_successor_ge: "Slice_compare k (short_successor k i) \<le> 0"
proof (induction k i rule: short_successor.induct)
  case (1 k i)
  show ?case
  proof (cases "i < length k \<and> k ! i \<noteq> 0xFF")
    case True
    have "Slice_compare (take i k @ k ! i # drop (Suc i) k) (take i k @ [k ! i + 1]) \<le> 0"
      using True byte_less_plus_one [of "k ! i"] by (simp add: compare_prefix)
    moreover have "k = take i k @ k ! i # drop (Suc i) k" using True by (intro split_at) simp
    ultimately have "Slice_compare k (take i k @ [k ! i + 1]) \<le> 0" by simp
    with True show ?thesis using bump_at [of i k "k ! i + 1"] by (subst short_successor.simps) simp
  next
    case False
    then show ?thesis using 1 by (subst short_successor.simps) (auto simp: Slice_compare_eq [THEN iffD2])
  qed
qed

interpretation bytewise: comparator Slice_compare BytewiseComparator_FindShortestSeparator BytewiseComparator_FindShortSuccessor
proof
  show "Slice_compare a b < 0 \<longleftrightarrow> 0 < Slice_compare b a" for a b
    using Slice_compare_sym [of a b] by simp
  show "Slice_compare a c \<le> 0" if "Slice_compare a b \<le> 0" "Slice_compare b c \<le> 0" for a b c
    using that by (rule Slice_compare_trans)
qed (simp_all add: shortest_separator short_successor_ge BytewiseComparator_FindShortSuccessor_def)

end
