(* ===== verification/LDB_Coding.thy ===== *)
theory LDB_Coding
  imports LDB_Slice PB_Wire
begin

text \<open>
  The coding primitives of leveldb, \<^verbatim>\<open>util/coding.h\<close> and \<^verbatim>\<open>util/coding.cc\<close>. A routine that writes
  through a pointer returns the bytes that it writes; one that reads a range \<^verbatim>\<open>[p, limit)\<close> takes the
  bytes of the range and returns, with the value, how many of them it has consumed, or \<open>None\<close> where
  the C++ code returns \<^verbatim>\<open>NULL\<close> or false.

  The reference is the base-128 encoding \<open>varint\<close> of \<open>PB_Ostream\<close>: both libraries of the program are
  shown to write and read the same format.
\<close>

subsection \<open>Fixed-width numbers\<close>

text \<open>\<^verbatim>\<open>port::kLittleEndian\<close> is an argument: the second branch is for the other targets.\<close>

definition EncodeFixed32 :: "bool \<Rightarrow> 32 word \<Rightarrow> byte list" where
  "EncodeFixed32 kLittleEndian value =
     (if kLittleEndian then word_le 4 value
      else [ucast (value AND 0xFF), ucast (drop_bit 8 value AND 0xFF),
            ucast (drop_bit 16 value AND 0xFF), ucast (drop_bit 24 value AND 0xFF)])"

definition EncodeFixed64 :: "bool \<Rightarrow> 64 word \<Rightarrow> byte list" where
  "EncodeFixed64 kLittleEndian value =
     (if kLittleEndian then word_le 8 value
      else [ucast (value AND 0xFF), ucast (drop_bit 8 value AND 0xFF),
            ucast (drop_bit 16 value AND 0xFF), ucast (drop_bit 24 value AND 0xFF),
            ucast (drop_bit 32 value AND 0xFF), ucast (drop_bit 40 value AND 0xFF),
            ucast (drop_bit 48 value AND 0xFF), ucast (drop_bit 56 value AND 0xFF)])"

definition PutFixed32 :: "bool \<Rightarrow> byte list \<Rightarrow> 32 word \<Rightarrow> byte list" where
  "PutFixed32 kLittleEndian dst value = dst @ EncodeFixed32 kLittleEndian value"

definition PutFixed64 :: "bool \<Rightarrow> byte list \<Rightarrow> 64 word \<Rightarrow> byte list" where
  "PutFixed64 kLittleEndian dst value = dst @ EncodeFixed64 kLittleEndian value"

text \<open>The decoders read four and eight bytes at the pointer; the caller makes sure that they exist.\<close>

definition DecodeFixed32 :: "bool \<Rightarrow> byte list \<Rightarrow> 32 word" where
  "DecodeFixed32 kLittleEndian p =
     (if kLittleEndian then le_word (take 4 p)
      else ucast (p ! 0) OR push_bit 8 (ucast (p ! 1)) OR push_bit 16 (ucast (p ! 2)) OR push_bit 24 (ucast (p ! 3)))"

definition DecodeFixed64 :: "bool \<Rightarrow> byte list \<Rightarrow> 64 word" where
  "DecodeFixed64 kLittleEndian p =
     (if kLittleEndian then le_word (take 8 p)
      else let lo :: 64 word = ucast (DecodeFixed32 kLittleEndian p);
               hi :: 64 word = ucast (DecodeFixed32 kLittleEndian (drop 4 p))
           in push_bit 32 hi OR lo)"

subsection \<open>Varints\<close>

definition EncodeVarint32 :: "32 word \<Rightarrow> byte list" where
  "EncodeVarint32 v =
     (if v < 0x80 then [ucast v]
      else if v < 0x4000 then [ucast (v OR 128), ucast (drop_bit 7 v)]
      else if v < 0x200000 then [ucast (v OR 128), ucast (drop_bit 7 v OR 128), ucast (drop_bit 14 v)]
      else if v < 0x10000000 then
        [ucast (v OR 128), ucast (drop_bit 7 v OR 128), ucast (drop_bit 14 v OR 128), ucast (drop_bit 21 v)]
      else
        [ucast (v OR 128), ucast (drop_bit 7 v OR 128), ucast (drop_bit 14 v OR 128),
         ucast (drop_bit 21 v OR 128), ucast (drop_bit 28 v)])"

definition PutVarint32 :: "byte list \<Rightarrow> 32 word \<Rightarrow> byte list" where
  "PutVarint32 dst v = dst @ EncodeVarint32 v"

lemma shift_7_less: "128 \<le> v \<Longrightarrow> unat (drop_bit 7 v) < unat (v :: 64 word)"
  by (rule drop_bit_7_less) auto

function EncodeVarint64 :: "64 word \<Rightarrow> byte list" where
  "EncodeVarint64 v =
     (if v \<ge> 128 then ucast ((v AND 127) OR 128) # EncodeVarint64 (drop_bit 7 v) else [ucast v])"
  by pat_completeness auto
termination
  by (relation "measure unat") (auto simp: shift_7_less)

declare EncodeVarint64.simps [simp del]

definition PutVarint64 :: "byte list \<Rightarrow> 64 word \<Rightarrow> byte list" where
  "PutVarint64 dst v = dst @ EncodeVarint64 v"

definition PutLengthPrefixedSlice :: "byte list \<Rightarrow> slice \<Rightarrow> byte list" where
  "PutLengthPrefixedSlice dst value = PutVarint32 dst (word_of_nat (length value)) @ value"

function VarintLength_loop :: "64 word \<Rightarrow> nat \<Rightarrow> nat" where
  "VarintLength_loop v len = (if v \<ge> 128 then VarintLength_loop (drop_bit 7 v) (len + 1) else len)"
  by pat_completeness auto
termination
  by (relation "measure (\<lambda>(v, len). unat v)") (auto simp: shift_7_less)

declare VarintLength_loop.simps [simp del]

definition VarintLength :: "64 word \<Rightarrow> nat" where
  "VarintLength v = VarintLength_loop v 1"

function varint32_fallback :: "byte list \<Rightarrow> nat \<Rightarrow> nat \<Rightarrow> 32 word \<Rightarrow> (32 word \<times> nat) option" where
  "varint32_fallback p i shift result =
     (if shift \<le> 28 \<and> i < length p then
        let byte :: 32 word = ucast (p ! i) in
        if byte AND 128 \<noteq> 0 then varint32_fallback p (i + 1) (shift + 7) (result OR push_bit shift (byte AND 127))
        else Some (result OR push_bit shift byte, i + 1)
      else None)"
  by pat_completeness auto
termination
  by (relation "measure (\<lambda>(p, i, shift, result). length p - i)") auto

declare varint32_fallback.simps [simp del]

definition GetVarint32PtrFallback :: "byte list \<Rightarrow> (32 word \<times> nat) option" where
  "GetVarint32PtrFallback p = varint32_fallback p 0 0 0"

definition GetVarint32Ptr :: "byte list \<Rightarrow> (32 word \<times> nat) option" where
  "GetVarint32Ptr p =
     (if 0 < length p then
        let result :: 32 word = ucast (p ! 0) in
        if result AND 128 = 0 then Some (result, 1) else GetVarint32PtrFallback p
      else GetVarint32PtrFallback p)"

definition GetVarint32 :: "slice \<Rightarrow> (32 word \<times> slice) option" where
  "GetVarint32 input = map_option (\<lambda>(v, n). (v, drop n input)) (GetVarint32Ptr input)"

function varint64_loop :: "byte list \<Rightarrow> nat \<Rightarrow> nat \<Rightarrow> 64 word \<Rightarrow> (64 word \<times> nat) option" where
  "varint64_loop p i shift result =
     (if shift \<le> 63 \<and> i < length p then
        let byte :: 64 word = ucast (p ! i) in
        if byte AND 128 \<noteq> 0 then varint64_loop p (i + 1) (shift + 7) (result OR push_bit shift (byte AND 127))
        else Some (result OR push_bit shift byte, i + 1)
      else None)"
  by pat_completeness auto
termination
  by (relation "measure (\<lambda>(p, i, shift, result). length p - i)") auto

declare varint64_loop.simps [simp del]

definition GetVarint64Ptr :: "byte list \<Rightarrow> (64 word \<times> nat) option" where
  "GetVarint64Ptr p = varint64_loop p 0 0 0"

definition GetVarint64 :: "slice \<Rightarrow> (64 word \<times> slice) option" where
  "GetVarint64 input = map_option (\<lambda>(v, n). (v, drop n input)) (GetVarint64Ptr input)"

text \<open>
  \<^verbatim>\<open>GetLengthPrefixedSlice\<close> on a slice: the result and the rest of the input. When the varint is read
  but the bytes are missing, the C++ function returns false and leaves the input behind the varint.
\<close>

definition GetLengthPrefixedSlice :: "slice \<Rightarrow> (slice \<times> slice) option" where
  "GetLengthPrefixedSlice input =
     (case GetVarint32 input of None \<Rightarrow> None
      | Some (len, input) \<Rightarrow>
          if unat len \<le> length input then
            map_option (\<lambda>rest. (take (unat len) input, rest)) (Slice_remove_prefix input (unat len))
          else None)"

text \<open>The overload on a range \<^verbatim>\<open>[p, limit)\<close>: the slice, and the offset of the byte behind it.\<close>

definition GetLengthPrefixedSlice_range :: "byte list \<Rightarrow> (slice \<times> nat) option" where
  "GetLengthPrefixedSlice_range p =
     (case GetVarint32Ptr p of None \<Rightarrow> None
      | Some (len, n) \<Rightarrow> if n + unat len > length p then None else Some (take (unat len) (drop n p), n + unat len))"

subsection \<open>Lemmas: fixed-width numbers\<close>

lemma EncodeFixed_le: "EncodeFixed32 le v = word_le 4 v" "EncodeFixed64 le w = word_le 8 w"
  by (simp_all add: EncodeFixed32_def EncodeFixed64_def word_le_bytes32 word_le_bytes64)

lemma bit_le_word:
  "bit (le_word bs :: 'a::len word) n \<longleftrightarrow> n < LENGTH('a) \<and> n < 8 * length bs \<and> bit (bs ! (n div 8)) (n mod 8)"
proof (induction bs arbitrary: n)
  case Nil
  then show ?case by simp
next
  case (Cons b bs)
  show ?case
  proof (cases "n < 8")
    case True
    then show ?thesis by (auto simp: bit_or_iff bit_push_bit_iff bit_ucast_iff)
  next
    case False
    have "\<not> bit b n" using False bit_imp_le_length [of b n] by auto
    moreover have "n div 8 = Suc ((n - 8) div 8)" "n mod 8 = (n - 8) mod 8" using False by (simp_all add: le_div_geq le_mod_geq)
    ultimately show ?thesis using False Cons.IH [of "n - 8"]
      by (auto simp: bit_or_iff bit_push_bit_iff bit_ucast_iff)
  qed
qed

lemma le_word_split: "le_word (xs @ ys) = le_word xs OR push_bit (8 * length xs) (le_word ys :: 'a::len word)"
  by (induction xs) (simp_all add: push_bit_or push_bit_push_bit or.assoc add.commute)

lemma ucast_le_word: "length bs \<le> 4 \<Longrightarrow> ucast (le_word bs :: 32 word) = (le_word bs :: 64 word)"
  by (rule bit_word_eqI) (auto simp: bit_ucast_iff bit_le_word)

text \<open>Both branches of the decoders compute the same number: the encoding is endian-neutral.\<close>

lemma DecodeFixed32_le:
  assumes "4 \<le> length p"
  shows "DecodeFixed32 le p = le_word (take 4 p)"
  using le_word_bytes32 [of "take 4 p"] assms by (simp add: DecodeFixed32_def)

lemma DecodeFixed64_le:
  assumes "8 \<le> length p"
  shows "DecodeFixed64 le p = le_word (take 8 p)"
proof -
  have "take 8 p = take 4 p @ take 4 (drop 4 p)" using take_add [of 4 4 p] by simp
  then have "(le_word (take 8 p) :: 64 word) = le_word (take 4 p) OR push_bit 32 (le_word (take 4 (drop 4 p)))"
    using assms by (simp add: le_word_split)
  then show ?thesis
    using assms by (simp add: DecodeFixed64_def DecodeFixed32_le ucast_le_word or.commute)
qed

lemma coding_fixed32: "DecodeFixed32 le (EncodeFixed32 le' v @ rest) = v"
  using le_word_word_le [of 4 v] by (simp add: DecodeFixed32_le EncodeFixed_le take_bit_word_eq_self)

lemma coding_fixed64: "DecodeFixed64 le (EncodeFixed64 le' v @ rest) = v"
  using le_word_word_le [of 8 v] by (simp add: DecodeFixed64_le EncodeFixed_le take_bit_word_eq_self)

lemma length_EncodeFixed [simp]: "length (EncodeFixed32 le v) = 4" "length (EncodeFixed64 le w) = 8"
  by (simp_all add: EncodeFixed_le)

text \<open>Arrays of fixed-width numbers.\<close>

lemma put_fixed_list: "foldl (PutFixed32 le) dst ws = dst @ concat (map (word_le 4) ws)"
  by (induction ws arbitrary: dst) (simp_all add: PutFixed32_def EncodeFixed_le)

lemma decode_fixed_at:
  "i < length ws \<Longrightarrow> DecodeFixed32 le (drop (i * 4) (concat (map (word_le 4) ws) @ rest)) = ws ! i"
proof (induction ws arbitrary: i)
  case (Cons w ws)
  then show ?case using coding_fixed32 [of le le w] by (cases i) (simp_all add: EncodeFixed_le)
qed simp

lemma length_fixed_list [simp]: "length (concat (map (\<lambda>n. word_le 4 (f n)) ns)) = 4 * length ns"
  by (induction ns) simp_all

subsection \<open>Lemmas: encoding varints\<close>

lemma bit_128: "bit (128 :: 'a::len word) n \<longleftrightarrow> n = 7 \<and> 7 < LENGTH('a)"
  using bit_exp_iff [of 7 n, where 'a = "'a word"] by auto

lemma low_byte:
  assumes "8 \<le> LENGTH('a)"
  shows "(ucast (w OR 128 :: 'a::len word) :: byte) = word_of_nat (unat w mod 128 + 128)"
proof -
  have "(ucast (w OR 128) :: byte) = take_bit 7 (ucast w) OR 128"
  proof (rule bit_word_eqI)
    fix n :: nat assume n: "n < LENGTH(8)"
    have "bit (128 :: 'a word) n \<longleftrightarrow> n = 7" "bit (128 :: byte) n \<longleftrightarrow> n = 7"
      using assms by (simp_all only: bit_128) auto
    moreover have "n < 7 \<longleftrightarrow> n \<noteq> 7" using n by auto
    ultimately show "bit (ucast (w OR 128) :: byte) n = bit (take_bit 7 (ucast w) OR 128 :: byte) n"
      using assms n by (simp only: bit_ucast_iff bit_or_iff bit_take_bit_iff) auto
  qed
  also have "\<dots> = take_bit 7 (ucast w) + 128" by (rule or_128)
  also have "take_bit 7 (ucast w :: byte) = word_of_nat (unat w mod 128)"
  proof -
    have "unat (take_bit 7 (ucast w :: byte)) = unat w mod 128"
      unfolding unat_take_bit_7 unsigned_ucast_eq by (simp add: take_bit_eq_mod mod_mod_cancel)
    then show ?thesis by (metis of_nat_unat ucast_id)
  qed
  finally show ?thesis by simp
qed

lemma low_byte_last: "unat (w :: 'a::len word) < 128 \<Longrightarrow> (ucast w :: byte) = word_of_nat (unat w)"
  by (rule of_nat_unat [symmetric])

lemma unat_drop_7: "unat (drop_bit 7 (w :: 'a::len word)) = unat w div 128"
  unfolding unat_drop_bit_eq by (simp add: drop_bit_eq_div)

text \<open>One step of the reference encoding, on words.\<close>

lemma varint_word_step:
  assumes "8 \<le> LENGTH('a)"
  shows "varint (unat (w :: 'a::len word)) =
    (if unat w < 128 then [ucast w] else ucast (w OR 128) # varint (unat (drop_bit 7 w)))"
  using low_byte [OF assms, of w] low_byte_last [of w]
  by (subst varint.simps) (simp add: unat_drop_7 del: of_nat_add)

lemma EncodeVarint32_varint: "EncodeVarint32 v = varint (unat v)"
proof -
  have d: "unat (drop_bit 7 v) = unat v div 128" "unat (drop_bit 14 v) = unat v div 128 div 128"
    "unat (drop_bit 21 v) = unat v div 128 div 128 div 128" "unat (drop_bit 28 v) = unat v div 128 div 128 div 128 div 128"
    unfolding unat_drop_bit_eq by (simp_all add: drop_bit_eq_div div_mult2_eq [symmetric])
  have "unat v < 2 ^ 32" by (rule unat_32_less)
  then have top: "unat v div 128 div 128 div 128 div 128 < 128" by (simp add: div_mult2_eq [symmetric] less_mult_imp_div_less)
  have lt: "v < 0x80 \<longleftrightarrow> unat v < 128" "v < 0x4000 \<longleftrightarrow> unat v div 128 < 128"
    "v < 0x200000 \<longleftrightarrow> unat v div 128 div 128 < 128" "v < 0x10000000 \<longleftrightarrow> unat v div 128 div 128 div 128 < 128"
    by (simp_all add: word_less_nat_alt div_less_iff_less_mult)
  have s: "varint (unat v) = (if unat v < 128 then [ucast v] else ucast (v OR 128) # varint (unat v div 128))"
    "varint (unat v div 128) = (if unat v div 128 < 128 then [ucast (drop_bit 7 v)]
       else ucast (drop_bit 7 v OR 128) # varint (unat v div 128 div 128))"
    "varint (unat v div 128 div 128) = (if unat v div 128 div 128 < 128 then [ucast (drop_bit 14 v)]
       else ucast (drop_bit 14 v OR 128) # varint (unat v div 128 div 128 div 128))"
    "varint (unat v div 128 div 128 div 128) = (if unat v div 128 div 128 div 128 < 128 then [ucast (drop_bit 21 v)]
       else ucast (drop_bit 21 v OR 128) # varint (unat v div 128 div 128 div 128 div 128))"
    "varint (unat v div 128 div 128 div 128 div 128) = [ucast (drop_bit 28 v)]"
    using varint_word_step [of v] varint_word_step [of "drop_bit 7 v"] varint_word_step [of "drop_bit 14 v"]
      varint_word_step [of "drop_bit 21 v"] varint_word_step [of "drop_bit 28 v"] top
    by (simp_all add: d drop_bit_drop_bit)
  show ?thesis unfolding EncodeVarint32_def lt s by (auto simp: div_less_iff_less_mult)
qed

lemma EncodeVarint64_varint: "EncodeVarint64 v = varint (unat v)"
proof (induction v rule: EncodeVarint64.induct)
  case (1 v)
  have m: "ucast ((v AND 127) OR 128) = (ucast (v OR 128) :: byte)"
    using low_group [of v] low_byte [of v] by simp
  have "128 \<le> v \<longleftrightarrow> \<not> unat v < 128" by (simp add: word_le_nat_alt not_less)
  then show ?case using 1 m by (subst EncodeVarint64.simps) (simp add: varint_word_step [of v])
qed

lemma VarintLength_varint: "VarintLength v = length (varint (unat v))"
proof -
  have "VarintLength_loop v n + 1 = length (varint (unat v)) + n" for n
  proof (induction v n rule: VarintLength_loop.induct)
    case (1 v n)
    have "128 \<le> v \<longleftrightarrow> \<not> unat v < 128" by (simp add: word_le_nat_alt not_less)
    then show ?case using 1 by (subst VarintLength_loop.simps) (simp add: varint_word_step [of v])
  qed
  from this [of 1] show ?thesis by (simp add: VarintLength_def)
qed

subsection \<open>Lemmas: reading varints\<close>

text \<open>What the loops see of a byte: the continuation flag, and the seven bits that they shift in.\<close>

lemma group_flag: "8 \<le> LENGTH('a) \<Longrightarrow> (ucast (b :: byte) :: 'a::len word) AND 128 \<noteq> 0 \<longleftrightarrow> bit b 7"
proof -
  assume l: "8 \<le> LENGTH('a)"
  have e: "(128 :: 'a word) = push_bit 7 1" by (simp add: push_bit_eq_mult)
  have "(ucast b :: 'a word) AND 128 = 0 \<longleftrightarrow> \<not> bit (ucast b :: 'a word) 7"
    unfolding e by (rule and_exp_eq_0_iff_not_bit [of _ 7, simplified push_bit_of_1 [symmetric]])
  then show ?thesis using l by (simp add: bit_ucast_iff)
qed

lemma group_bits: "(ucast (b :: byte) :: 'a::len word) AND 127 = ucast (b AND 0x7F)"
  by (simp only: and_127) (rule bit_word_eqI, auto simp: bit_take_bit_iff bit_ucast_iff)

lemma group_last: "\<not> bit b 7 \<Longrightarrow> (b :: byte) AND 0x7F = b"
  unfolding and_127 by (intro bit_word_eqI) (auto simp: bit_take_bit_iff eval_nat_numeral less_Suc_eq)

lemma varint32_fallback_varint:
  "is_varint bs \<Longrightarrow> shift + 7 * length bs \<le> 35 \<Longrightarrow>
   varint32_fallback (pre @ bs @ rest) (length pre) shift r =
     Some (r OR push_bit shift (word_of_nat (varint_val bs)), length pre + length bs)"
proof (induction bs arbitrary: pre shift r rule: is_varint.induct)
  case 1
  then show ?case by simp
next
  case (2 b)
  then show ?case using group_last [of b]
    by (subst varint32_fallback.simps) (simp add: group_flag [of b, simplified] ucast_low_group [of b, symmetric])
next
  case (3 b c bs)
  have "varint32_fallback (pre @ (b # c # bs) @ rest) (length pre) shift r =
      varint32_fallback ((pre @ [b]) @ (c # bs) @ rest) (length (pre @ [b])) (shift + 7) (r OR push_bit shift (ucast (b AND 0x7F)))"
    using "3.prems" by (subst varint32_fallback.simps) (simp add: group_flag [of b, simplified] group_bits)
  also have "\<dots> = Some ((r OR push_bit shift (ucast (b AND 0x7F))) OR
       push_bit (shift + 7) (word_of_nat (varint_val (c # bs))), length (pre @ [b]) + length (c # bs))"
    using "3.prems" by (intro "3.IH") auto
  finally show ?case
    by (simp only: or.assoc push_group varint_val.simps) simp
qed

lemma varint64_loop_varint:
  "is_varint bs \<Longrightarrow> shift + 7 * length bs \<le> 70 \<Longrightarrow>
   varint64_loop (pre @ bs @ rest) (length pre) shift r =
     Some (r OR push_bit shift (word_of_nat (varint_val bs)), length pre + length bs)"
proof (induction bs arbitrary: pre shift r rule: is_varint.induct)
  case 1
  then show ?case by simp
next
  case (2 b)
  then show ?case using group_last [of b]
    by (subst varint64_loop.simps) (simp add: group_flag [of b, simplified] ucast_low_group [of b, symmetric])
next
  case (3 b c bs)
  have "varint64_loop (pre @ (b # c # bs) @ rest) (length pre) shift r =
      varint64_loop ((pre @ [b]) @ (c # bs) @ rest) (length (pre @ [b])) (shift + 7) (r OR push_bit shift (ucast (b AND 0x7F)))"
    using "3.prems" by (subst varint64_loop.simps) (simp add: group_flag [of b, simplified] group_bits)
  also have "\<dots> = Some ((r OR push_bit shift (ucast (b AND 0x7F))) OR
       push_bit (shift + 7) (word_of_nat (varint_val (c # bs))), length (pre @ [b]) + length (c # bs))"
    using "3.prems" by (intro "3.IH") auto
  finally show ?case
    by (simp only: or.assoc push_group varint_val.simps) simp
qed

text \<open>
  The bytes at the pointer either start with a varint of at most \<open>k\<close> bytes, or all the bytes that a
  reader may look at carry the continuation flag: the range is too short or the varint too long.
\<close>

lemma varint_prefix:
  obtains (varint) bs rest where "p = bs @ rest" "is_varint bs" "length bs \<le> k"
  | (flags) "\<forall>b\<in>set (take k p). bit b 7"
proof -
  have "(\<exists>bs rest. p = bs @ rest \<and> is_varint bs \<and> length bs \<le> k) \<or> (\<forall>b\<in>set (take k p). bit b 7)"
  proof (induction p arbitrary: k)
    case Nil
    then show ?case by simp
  next
    case (Cons b p)
    show ?case
    proof (cases k)
      case (Suc j)
      show ?thesis
      proof (cases "bit b 7")
        case False
        then have "b # p = [b] @ p \<and> is_varint [b] \<and> length [b] \<le> k" using Suc by simp
        then show ?thesis by blast
      next
        case True
        from Cons [of j] show ?thesis
        proof
          assume "\<exists>bs rest. p = bs @ rest \<and> is_varint bs \<and> length bs \<le> j"
          then obtain bs rest where p: "p = bs @ rest" "is_varint bs" "length bs \<le> j" by blast
          then have "b # p = (b # bs) @ rest \<and> is_varint (b # bs) \<and> length (b # bs) \<le> k"
            using True Suc by (cases bs) auto
          then show ?thesis by blast
        qed (use True Suc in simp)
      qed
    qed simp
  qed
  then show thesis using that by blast
qed

lemma varint32_fallback_flags:
  "\<forall>b\<in>set (take k (drop i p)). bit b 7 \<Longrightarrow> 28 < shift + 7 * k \<Longrightarrow> varint32_fallback p i shift r = None"
proof (induction k arbitrary: i shift r)
  case 0
  then show ?case by (subst varint32_fallback.simps) simp
next
  case (Suc k)
  show ?case
  proof (cases "i < length p")
    case True
    then have d: "drop i p = p ! i # drop (Suc i) p" by (simp add: Cons_nth_drop_Suc)
    have "varint32_fallback p (Suc i) (shift + 7) r' = None" for r'
      using Suc.prems d by (intro Suc.IH) auto
    then show ?thesis using Suc.prems d
      by (subst varint32_fallback.simps) (simp add: group_flag [of "p ! i", simplified])
  qed (subst varint32_fallback.simps, simp)
qed

lemma varint64_loop_flags:
  "\<forall>b\<in>set (take k (drop i p)). bit b 7 \<Longrightarrow> 63 < shift + 7 * k \<Longrightarrow> varint64_loop p i shift r = None"
proof (induction k arbitrary: i shift r)
  case 0
  then show ?case by (subst varint64_loop.simps) simp
next
  case (Suc k)
  show ?case
  proof (cases "i < length p")
    case True
    then have d: "drop i p = p ! i # drop (Suc i) p" by (simp add: Cons_nth_drop_Suc)
    have "varint64_loop p (Suc i) (shift + 7) r' = None" for r'
      using Suc.prems d by (intro Suc.IH) auto
    then show ?thesis using Suc.prems d
      by (subst varint64_loop.simps) (simp add: group_flag [of "p ! i", simplified])
  qed (subst varint64_loop.simps, simp)
qed

text \<open>The inlined fast path computes what the loop does.\<close>

lemma GetVarint32Ptr_loop: "GetVarint32Ptr p = varint32_fallback p 0 0 0"
proof (cases p)
  case (Cons b bs)
  show ?thesis
  proof (cases "bit b 7")
    case True
    then show ?thesis using group_flag [of b, where 'a = 32] Cons
      by (simp add: GetVarint32Ptr_def GetVarint32PtrFallback_def)
  next
    case False
    then show ?thesis using group_flag [of b, where 'a = 32] Cons
      by (subst varint32_fallback.simps) (simp add: GetVarint32Ptr_def)
  qed
qed (simp add: GetVarint32Ptr_def GetVarint32PtrFallback_def)

lemma GetVarint32Ptr_varint:
  "is_varint bs \<Longrightarrow> length bs \<le> 5 \<Longrightarrow> GetVarint32Ptr (bs @ rest) = Some (word_of_nat (varint_val bs), length bs)"
  using varint32_fallback_varint [of bs 0 "[]" rest 0] by (simp add: GetVarint32Ptr_loop)

lemma GetVarint64Ptr_varint:
  "is_varint bs \<Longrightarrow> length bs \<le> 10 \<Longrightarrow> GetVarint64Ptr (bs @ rest) = Some (word_of_nat (varint_val bs), length bs)"
  using varint64_loop_varint [of bs 0 "[]" rest 0] by (simp add: GetVarint64Ptr_def)

lemma GetVarint32Ptr_flags: "\<forall>b\<in>set (take 5 p). bit b 7 \<Longrightarrow> GetVarint32Ptr p = None"
  using varint32_fallback_flags [of 5 0 p 0 0] by (simp add: GetVarint32Ptr_loop)

lemma GetVarint64Ptr_flags: "\<forall>b\<in>set (take 10 p). bit b 7 \<Longrightarrow> GetVarint64Ptr p = None"
  using varint64_loop_flags [of 10 0 p 0 0] by (simp add: GetVarint64Ptr_def)

lemma GetVarint32Ptr_iff:
  "GetVarint32Ptr p = Some (v, n) \<longleftrightarrow>
     n \<le> 5 \<and> n \<le> length p \<and> is_varint (take n p) \<and> v = word_of_nat (varint_val (take n p))"
proof
  assume g: "GetVarint32Ptr p = Some (v, n)"
  show "n \<le> 5 \<and> n \<le> length p \<and> is_varint (take n p) \<and> v = word_of_nat (varint_val (take n p))"
  proof (rule varint_prefix [of p 5])
    fix bs rest assume "p = bs @ rest" "is_varint bs" "length bs \<le> 5"
    then show ?thesis using g by (auto simp: GetVarint32Ptr_varint)
  next
    assume "\<forall>b\<in>set (take 5 p). bit b 7"
    then show ?thesis using g GetVarint32Ptr_flags by simp
  qed
next
  assume "n \<le> 5 \<and> n \<le> length p \<and> is_varint (take n p) \<and> v = word_of_nat (varint_val (take n p))"
  then show "GetVarint32Ptr p = Some (v, n)"
    using GetVarint32Ptr_varint [of "take n p" "drop n p"] by simp
qed

lemma GetVarint64Ptr_iff:
  "GetVarint64Ptr p = Some (v, n) \<longleftrightarrow>
     n \<le> 10 \<and> n \<le> length p \<and> is_varint (take n p) \<and> v = word_of_nat (varint_val (take n p))"
proof
  assume g: "GetVarint64Ptr p = Some (v, n)"
  show "n \<le> 10 \<and> n \<le> length p \<and> is_varint (take n p) \<and> v = word_of_nat (varint_val (take n p))"
  proof (rule varint_prefix [of p 10])
    fix bs rest assume "p = bs @ rest" "is_varint bs" "length bs \<le> 10"
    then show ?thesis using g by (auto simp: GetVarint64Ptr_varint)
  next
    assume "\<forall>b\<in>set (take 10 p). bit b 7"
    then show ?thesis using g GetVarint64Ptr_flags by simp
  qed
next
  assume "n \<le> 10 \<and> n \<le> length p \<and> is_varint (take n p) \<and> v = word_of_nat (varint_val (take n p))"
  then show "GetVarint64Ptr p = Some (v, n)"
    using GetVarint64Ptr_varint [of "take n p" "drop n p"] by simp
qed

subsection \<open>Lemmas: round trips\<close>

lemma coding_varint32_ptr: "GetVarint32Ptr (EncodeVarint32 v @ rest) = Some (v, length (EncodeVarint32 v))"
proof -
  have "length (varint (unat v)) \<le> 5" using unat_32_less [of v] by (intro varint_length_32) simp
  then show ?thesis
    using GetVarint32Ptr_varint [OF is_varint_varint, of "unat v" rest]
    by (simp add: EncodeVarint32_varint varint_val_varint)
qed

lemma coding_varint32: "GetVarint32 (EncodeVarint32 v @ rest) = Some (v, rest)"
  by (simp add: GetVarint32_def coding_varint32_ptr)

lemma length_EncodeVarint32: "0 < length (EncodeVarint32 v)" "length (EncodeVarint32 v) \<le> 5"
  by (simp_all add: EncodeVarint32_def)

lemma coding_varint64: "GetVarint64 (EncodeVarint64 v @ rest) = Some (v, rest)"
proof -
  have "length (varint (unat v)) \<le> 10" by (rule varint_word_length)
  then show ?thesis
    using GetVarint64Ptr_varint [OF is_varint_varint, of "unat v" rest]
    by (simp add: GetVarint64_def EncodeVarint64_varint varint_val_varint)
qed

lemma coding_slice:
  assumes "length value < 2 ^ 32"
  shows "GetLengthPrefixedSlice (PutLengthPrefixedSlice [] value @ rest) = Some (value, rest)"
  using assms by (simp add: GetLengthPrefixedSlice_def PutLengthPrefixedSlice_def PutVarint32_def coding_varint32
      unat_of_nat Slice_remove_prefix_def)

lemma PutLengthPrefixedSlice_append: "PutLengthPrefixedSlice dst v = dst @ PutLengthPrefixedSlice [] v"
  by (simp add: PutLengthPrefixedSlice_def PutVarint32_def)

text \<open>A slice that is read lies within the input, and the input that remains is shorter.\<close>

lemma GetVarint32_shorter: "GetVarint32 input = Some (v, rest) \<Longrightarrow> length rest < length input \<and> (\<exists>pre. input = pre @ rest)"
proof -
  assume "GetVarint32 input = Some (v, rest)"
  then obtain n where n: "GetVarint32Ptr input = Some (v, n)" "rest = drop n input"
    by (auto simp: GetVarint32_def)
  from n(1) have "n \<noteq> 0" "n \<le> length input" by (auto simp: GetVarint32Ptr_iff intro: gr0I)
  with n(2) show ?thesis by (auto intro: exI [of _ "take n input"])
qed

lemma GetLengthPrefixedSlice_shorter:
  assumes "GetLengthPrefixedSlice input = Some (s, rest)"
  shows "length rest < length input \<and> (\<exists>pre. input = pre @ s @ rest)"
proof -
  from assms obtain len mid where m: "GetVarint32 input = Some (len, mid)" "unat len \<le> length mid"
      "s = take (unat len) mid" "rest = drop (unat len) mid"
    by (auto simp: GetLengthPrefixedSlice_def Slice_remove_prefix_def split: option.splits if_splits)
  from GetVarint32_shorter [OF m(1)] obtain pre where pre: "input = pre @ mid" "length mid < length input" by blast
  have "length rest \<le> length mid" using m(4) by simp
  then have "length rest < length input" using pre(2) by (rule order.strict_trans1)
  then show ?thesis using pre(1) m(3,4) by simp
qed

lemma GetLengthPrefixedSlice_overloads:
  "GetLengthPrefixedSlice p = map_option (\<lambda>(s, n). (s, drop n p)) (GetLengthPrefixedSlice_range p)"
proof (cases "GetVarint32Ptr p")
  case (Some r)
  obtain len n where r: "r = (len, n)" by fastforce
  then have "n \<le> length p" using Some by (simp add: GetVarint32Ptr_iff)
  then show ?thesis
    using Some r by (auto simp: GetLengthPrefixedSlice_def GetLengthPrefixedSlice_range_def GetVarint32_def
        Slice_remove_prefix_def add.commute)
qed (simp add: GetLengthPrefixedSlice_def GetLengthPrefixedSlice_range_def GetVarint32_def)

subsection \<open>Properties\<close>

text \<open>
  Leveldb writes the varints of the protobuf wire format: the unrolled 32-bit encoder and the 64-bit
  loop give the reference encoding \<open>varint\<close> that the nanopb encoder is verified against, and
  \<^verbatim>\<open>VarintLength\<close> is its length.
\<close>

theorem coding_varint_equivalent:
  "EncodeVarint32 v = varint (unat v) \<and> EncodeVarint64 w = varint (unat w) \<and> VarintLength w = length (EncodeVarint64 w)"
  by (simp add: EncodeVarint32_varint EncodeVarint64_varint VarintLength_varint)

text \<open>
  Reading returns what was written and leaves the input behind it, for varints of both widths and for
  length-prefixed slices of less than 4 GiB, followed by any other bytes.
\<close>

theorem coding_roundtrip:
  assumes "length s < 2 ^ 32"
  shows "GetVarint32 (PutVarint32 [] v @ rest) = Some (v, rest) \<and>
    GetVarint64 (PutVarint64 [] w @ rest) = Some (w, rest) \<and>
    GetLengthPrefixedSlice (PutLengthPrefixedSlice [] s @ rest) = Some (s, rest) \<and>
    DecodeFixed32 le (PutFixed32 le' [] v @ rest) = v \<and> DecodeFixed64 le (PutFixed64 le' [] w @ rest) = w"
  using assms
  by (simp add: PutVarint32_def PutVarint64_def PutFixed32_def PutFixed64_def coding_varint32 coding_varint64 coding_slice
      coding_fixed32 coding_fixed64)

theorem coding_roundtrip_witness:
  "GetLengthPrefixedSlice (PutLengthPrefixedSlice [] [1, 2, 3] @ [9]) = Some ([1, 2, 3], [9])"
  using coding_roundtrip [of "[1, 2, 3]" 0 "[9]"] by simp

text \<open>
  Which inputs the 32-bit reader accepts. It succeeds exactly if a varint of at most five bytes lies at
  the start of the range; it then consumes that varint, never a byte beyond the range, and returns its
  value modulo \<open>2^32\<close>. Everything else, truncated or too long, is an error.
\<close>

theorem coding_varint32_accepts:
  "GetVarint32Ptr p = Some (v, n) \<longleftrightarrow>
     n \<le> 5 \<and> n \<le> length p \<and> is_varint (take n p) \<and> v = word_of_nat (varint_val (take n p))"
  by (rule GetVarint32Ptr_iff)

end
