(* ===== verification/LDB_Format.thy ===== *)
theory LDB_Format
  imports LDB_Coding
begin

text \<open>
  Internal keys of leveldb, \<^verbatim>\<open>db/dbformat.h\<close> and \<^verbatim>\<open>db/dbformat.cc\<close>: a user key, followed by eight bytes
  that pack a sequence number and a value type. \<open>ikey_ok\<close> is the assertion \<^verbatim>\<open>internal_key.size() >= 8\<close>
  of \<^verbatim>\<open>ExtractUserKey\<close> and \<^verbatim>\<open>ExtractValueType\<close>. The slice of \<^verbatim>\<open>ExtractUserKey\<close> and the comparison are total functions,
  because ordered containers need a total order; on shorter keys, where the code fails the assertion, their
  value has no meaning. \<^verbatim>\<open>ExtractValueType\<close>, \<^verbatim>\<open>FindShortestSeparator\<close> and \<^verbatim>\<open>FindShortSuccessor\<close> are \<open>None\<close> where
  any of their assertions fails, the one of \<^verbatim>\<open>ExtractUserKey\<close> included.

  The user comparator is a parameter: \<open>ucmp\<close>, \<open>usep\<close> and \<open>usucc\<close> are its three virtual functions, and
  the locale \<open>comparator\<close> its contract. \<open>internal_order\<close> shows that the comparator of internal keys
  is again an order, and that its separators keep the contract on internal keys.
\<close>

datatype ValueType = kTypeDeletion | kTypeValue

definition ValueType_byte :: "ValueType \<Rightarrow> 8 word" where
  "ValueType_byte t = (case t of kTypeDeletion \<Rightarrow> 0 | kTypeValue \<Rightarrow> 1)"

definition ValueType_of_byte :: "8 word \<Rightarrow> ValueType option" where
  "ValueType_of_byte c = (if c = 0 then Some kTypeDeletion else if c = 1 then Some kTypeValue else None)"

definition kValueTypeForSeek :: ValueType where "kValueTypeForSeek = kTypeValue"

type_synonym SequenceNumber = "64 word"

definition kMaxSequenceNumber :: SequenceNumber where "kMaxSequenceNumber = push_bit 56 1 - 1"

record ParsedInternalKey =
  user_key :: slice
  sequence :: SequenceNumber
  value_type :: ValueType

definition InternalKeyEncodingLength :: "ParsedInternalKey \<Rightarrow> nat" where
  "InternalKeyEncodingLength k = length (user_key k) + 8"

text \<open>The expression \<^verbatim>\<open>(seq << 8) | t\<close>, without and with the assertions of \<^verbatim>\<open>PackSequenceAndType\<close>.\<close>

definition pack_tag :: "SequenceNumber \<Rightarrow> ValueType \<Rightarrow> 64 word" where
  "pack_tag seq t = push_bit 8 seq OR ucast (ValueType_byte t)"

definition PackSequenceAndType :: "SequenceNumber \<Rightarrow> ValueType \<Rightarrow> 64 word option" where
  "PackSequenceAndType seq t =
     (if seq \<le> kMaxSequenceNumber \<and> ValueType_byte t \<le> ValueType_byte kValueTypeForSeek
      then Some (pack_tag seq t) else None)"

definition AppendInternalKey :: "bool \<Rightarrow> byte list \<Rightarrow> ParsedInternalKey \<Rightarrow> byte list option" where
  "AppendInternalKey le result k =
     map_option (PutFixed64 le (result @ user_key k)) (PackSequenceAndType (sequence k) (value_type k))"

definition ikey_ok :: "slice \<Rightarrow> bool" where "ikey_ok k \<longleftrightarrow> 8 \<le> length k"

definition ExtractUserKey :: "slice \<Rightarrow> slice" where
  "ExtractUserKey internal_key = take (length internal_key - 8) internal_key"

text \<open>The last eight bytes of an internal key as a number, \<^verbatim>\<open>DecodeFixed64(key.data() + n - 8)\<close>.\<close>

definition ikey_tag :: "bool \<Rightarrow> slice \<Rightarrow> 64 word" where
  "ikey_tag le internal_key = DecodeFixed64 le (drop (length internal_key - 8) internal_key)"

text \<open>A byte that is no \<^verbatim>\<open>ValueType\<close> is \<open>None\<close>: the cast has no defined value then.\<close>

definition ExtractValueType :: "bool \<Rightarrow> slice \<Rightarrow> ValueType option" where
  "ExtractValueType le internal_key =
     (if \<not> ikey_ok internal_key then None else ValueType_of_byte (ucast (ikey_tag le internal_key AND 0xFF)))"

definition ParseInternalKey :: "bool \<Rightarrow> slice \<Rightarrow> ParsedInternalKey option" where
  "ParseInternalKey le internal_key =
     (let n = length internal_key in
      if n < 8 then None
      else
        let num = ikey_tag le internal_key; c = ucast (num AND 0xFF) in
        map_option (\<lambda>t. \<lparr>user_key = take (n - 8) internal_key, sequence = drop_bit 8 num, value_type = t\<rparr>)
          (ValueType_of_byte c))"

definition InternalKeyComparator_Compare :: "bool \<Rightarrow> (slice \<Rightarrow> slice \<Rightarrow> int) \<Rightarrow> slice \<Rightarrow> slice \<Rightarrow> int" where
  "InternalKeyComparator_Compare le ucmp akey bkey =
     (let r = ucmp (ExtractUserKey akey) (ExtractUserKey bkey) in
      if r = 0 then
        let anum = ikey_tag le akey; bnum = ikey_tag le bkey in
        if anum > bnum then - 1 else if anum < bnum then 1 else r
      else r)"

definition InternalKeyComparator_FindShortestSeparator ::
    "bool \<Rightarrow> (slice \<Rightarrow> slice \<Rightarrow> int) \<Rightarrow> (slice \<Rightarrow> slice \<Rightarrow> slice) \<Rightarrow> byte list \<Rightarrow> slice \<Rightarrow> byte list option" where
  "InternalKeyComparator_FindShortestSeparator le ucmp usep start limit =
     (if \<not> ikey_ok start \<or> \<not> ikey_ok limit then None
      else let user_start = ExtractUserKey start; user_limit = ExtractUserKey limit;
          tmp = usep user_start user_limit
      in if length tmp < length user_start \<and> ucmp user_start tmp < 0 then
           case PackSequenceAndType kMaxSequenceNumber kValueTypeForSeek of None \<Rightarrow> None
           | Some num \<Rightarrow>
               let tmp = PutFixed64 le tmp num in
               if InternalKeyComparator_Compare le ucmp start tmp < 0 \<and> InternalKeyComparator_Compare le ucmp tmp limit < 0
               then Some tmp else None
         else Some start)"

definition InternalKeyComparator_FindShortSuccessor ::
    "bool \<Rightarrow> (slice \<Rightarrow> slice \<Rightarrow> int) \<Rightarrow> (slice \<Rightarrow> slice) \<Rightarrow> byte list \<Rightarrow> byte list option" where
  "InternalKeyComparator_FindShortSuccessor le ucmp usucc k =
     (if \<not> ikey_ok k then None
      else let ukey = ExtractUserKey k; tmp = usucc ukey
      in if length tmp < length ukey \<and> ucmp ukey tmp < 0 then
           case PackSequenceAndType kMaxSequenceNumber kValueTypeForSeek of None \<Rightarrow> None
           | Some num \<Rightarrow>
               let tmp = PutFixed64 le tmp num in
               if InternalKeyComparator_Compare le ucmp k tmp < 0 then Some tmp else None
         else Some k)"

subsection \<open>Filter policies\<close>

text \<open>The wrapper of a filter policy that strips internal keys; the user policy is a parameter.\<close>

definition InternalFilterPolicy_CreateFilter ::
    "(slice list \<Rightarrow> byte list \<Rightarrow> 'r) \<Rightarrow> slice list \<Rightarrow> byte list \<Rightarrow> 'r" where
  "InternalFilterPolicy_CreateFilter create keys dst = create (map ExtractUserKey keys) dst"

definition InternalFilterPolicy_KeyMayMatch :: "(slice \<Rightarrow> slice \<Rightarrow> bool) \<Rightarrow> slice \<Rightarrow> slice \<Rightarrow> bool" where
  "InternalFilterPolicy_KeyMayMatch may_match k f = may_match (ExtractUserKey k) f"

subsection \<open>The class \<^verbatim>\<open>InternalKey\<close>\<close>

text \<open>An \<^verbatim>\<open>InternalKey\<close> is its string \<^verbatim>\<open>rep_\<close>; the empty string is the invalid key.\<close>

type_synonym InternalKey = "byte list"

definition InternalKey_init :: "bool \<Rightarrow> slice \<Rightarrow> SequenceNumber \<Rightarrow> ValueType \<Rightarrow> InternalKey option" where
  "InternalKey_init le u s t = AppendInternalKey le [] \<lparr>user_key = u, sequence = s, value_type = t\<rparr>"

definition InternalKey_DecodeFrom :: "InternalKey \<Rightarrow> slice \<Rightarrow> InternalKey" where
  "InternalKey_DecodeFrom rep s = s"

definition InternalKey_Encode :: "InternalKey \<Rightarrow> slice option" where
  "InternalKey_Encode rep = (if rep \<noteq> [] then Some rep else None)"

definition InternalKey_user_key :: "InternalKey \<Rightarrow> slice" where
  "InternalKey_user_key rep = ExtractUserKey rep"

definition InternalKey_SetFrom :: "bool \<Rightarrow> InternalKey \<Rightarrow> ParsedInternalKey \<Rightarrow> InternalKey option" where
  "InternalKey_SetFrom le rep p = AppendInternalKey le [] p"

definition InternalKey_Clear :: "InternalKey \<Rightarrow> InternalKey" where "InternalKey_Clear rep = []"

definition InternalKey_Compare ::
    "bool \<Rightarrow> (slice \<Rightarrow> slice \<Rightarrow> int) \<Rightarrow> InternalKey \<Rightarrow> InternalKey \<Rightarrow> int option" where
  "InternalKey_Compare le ucmp a b =
     (case (InternalKey_Encode a, InternalKey_Encode b) of
        (Some x, Some y) \<Rightarrow> Some (InternalKeyComparator_Compare le ucmp x y) | _ \<Rightarrow> None)"

subsection \<open>Lookup keys\<close>

text \<open>
  The bytes from \<^verbatim>\<open>start_\<close> to \<^verbatim>\<open>end_\<close>, and the offset \<^verbatim>\<open>kstart_ - start_\<close>. The array has \<^verbatim>\<open>usize + 13\<close>
  bytes, in \<^verbatim>\<open>space_\<close> or on the heap.
\<close>

record LookupKey =
  lookup_data :: "byte list"
  lookup_kstart :: nat

definition LookupKey_init :: "bool \<Rightarrow> slice \<Rightarrow> SequenceNumber \<Rightarrow> LookupKey option" where
  "LookupKey_init le u s =
     (let usize = length u; klength = EncodeVarint32 (word_of_nat (usize + 8)) in
      map_option (\<lambda>num. \<lparr>lookup_data = klength @ u @ EncodeFixed64 le num, lookup_kstart = length klength\<rparr>)
        (PackSequenceAndType s kValueTypeForSeek))"

definition LookupKey_memtable_key :: "LookupKey \<Rightarrow> slice" where
  "LookupKey_memtable_key k = lookup_data k"

definition LookupKey_internal_key :: "LookupKey \<Rightarrow> slice" where
  "LookupKey_internal_key k = drop (lookup_kstart k) (lookup_data k)"

definition LookupKey_user_key :: "LookupKey \<Rightarrow> slice" where
  "LookupKey_user_key k =
     take (length (lookup_data k) - lookup_kstart k - 8) (drop (lookup_kstart k) (lookup_data k))"

subsection \<open>Lemmas: tags\<close>

lemma ValueType_roundtrip [simp]: "ValueType_of_byte (ValueType_byte t) = Some t"
  by (cases t) (simp_all add: ValueType_byte_def ValueType_of_byte_def)

lemma ValueType_of_byte_eq: "ValueType_of_byte c = Some t \<longleftrightarrow> c = ValueType_byte t"
  by (cases t) (auto simp: ValueType_byte_def ValueType_of_byte_def)

lemma ValueType_le_seek [simp]: "ValueType_byte t \<le> ValueType_byte kValueTypeForSeek"
  by (cases t) (simp_all add: ValueType_byte_def kValueTypeForSeek_def)

lemma kMaxSequenceNumber_bits: "seq \<le> kMaxSequenceNumber \<longleftrightarrow> take_bit 56 seq = seq"
proof -
  have m: "unat kMaxSequenceNumber = 2 ^ 56 - 1" by (simp add: kMaxSequenceNumber_def)
  have "seq \<le> kMaxSequenceNumber \<longleftrightarrow> unat seq < 2 ^ 56"
    unfolding word_le_nat_alt m by (simp add: less_Suc_eq_le [symmetric])
  also have "\<dots> \<longleftrightarrow> unat (take_bit 56 seq) = unat seq"
    by (simp only: unsigned_take_bit_eq take_bit_nat_eq_self_iff)
  finally show ?thesis by (simp add: unsigned_word_eqI word_unat_eq_iff)
qed

lemma bit_type: "bit (ucast (ValueType_byte t) :: 64 word) n \<longleftrightarrow> n = 0 \<and> t = kTypeValue"
  by (cases t) (auto simp: ValueType_byte_def bit_1_iff)

lemma mask_8: "(0xFF :: 64 word) = mask 8"
  by (simp add: mask_eq_exp_minus_1)

lemma pack_tag_type: "ucast (pack_tag seq t AND 0xFF) = ValueType_byte t"
proof -
  have "pack_tag seq t AND 0xFF = ucast (ValueType_byte t)"
  proof (rule bit_word_eqI)
    fix n assume "n < LENGTH(64)"
    show "bit (pack_tag seq t AND 0xFF) n = bit (ucast (ValueType_byte t) :: 64 word) n"
      unfolding mask_8 by (auto simp: pack_tag_def bit_and_iff bit_or_iff bit_push_bit_iff bit_mask_iff bit_type)
  qed
  then show ?thesis by (cases t) (simp_all add: ValueType_byte_def)
qed

lemma pack_tag_sequence: "seq \<le> kMaxSequenceNumber \<Longrightarrow> drop_bit 8 (pack_tag seq t) = seq"
proof -
  assume "seq \<le> kMaxSequenceNumber"
  then have s: "take_bit 56 seq = seq" by (simp add: kMaxSequenceNumber_bits)
  show ?thesis
  proof (rule bit_word_eqI)
    fix n assume "n < LENGTH(64)"
    have "bit seq n \<Longrightarrow> n < 56" using s by (metis bit_take_bit_iff)
    then show "bit (drop_bit 8 (pack_tag seq t)) n = bit seq n"
      by (auto simp: pack_tag_def bit_drop_bit_eq bit_or_iff bit_push_bit_iff bit_type)
  qed
qed

text \<open>The tag as a number: tags compare by sequence number first, then by type.\<close>

lemma unat_pack_tag:
  assumes "seq \<le> kMaxSequenceNumber"
  shows "unat (pack_tag seq t) = unat seq * 256 + unat (ValueType_byte t)"
proof -
  have disj: "push_bit 8 seq AND ucast (ValueType_byte t) = 0"
    by (rule bit_word_eqI) (auto simp: bit_and_iff bit_push_bit_iff bit_type)
  have lt: "unat seq < 2 ^ 56" using assms by (simp add: word_le_nat_alt kMaxSequenceNumber_def)
  have "unat (push_bit 8 seq) = unat seq * 256"
    using lt by (simp add: push_bit_eq_mult unat_word_ariths mult.commute)
  moreover have "unat (ucast (ValueType_byte t) :: 64 word) = unat (ValueType_byte t)" by simp
  moreover have "unat (ValueType_byte t) \<le> 1" by (cases t) (simp_all add: ValueType_byte_def)
  moreover have "pack_tag seq t = push_bit 8 seq + ucast (ValueType_byte t)"
    using disj by (simp add: pack_tag_def disjunctive_add_eq_or)
  ultimately show ?thesis using lt by (simp add: unat_word_ariths)
qed

lemma pack_tag_le:
  assumes "s \<le> kMaxSequenceNumber" "s' \<le> kMaxSequenceNumber"
  shows "pack_tag s t \<le> pack_tag s' kTypeValue \<longleftrightarrow> s \<le> s'"
proof -
  have "unat (ValueType_byte t) \<le> 1" "unat (ValueType_byte kTypeValue) = 1"
    by (cases t; simp add: ValueType_byte_def) (simp add: ValueType_byte_def)
  then show ?thesis using assms by (auto simp: word_le_nat_alt unat_pack_tag)
qed

subsection \<open>Lemmas: internal keys\<close>

text \<open>An internal key as bytes.\<close>

definition ikey_bytes :: "slice \<Rightarrow> SequenceNumber \<Rightarrow> ValueType \<Rightarrow> slice" where
  "ikey_bytes u s t = u @ word_le 8 (pack_tag s t)"

lemma length_ikey_bytes [simp]: "length (ikey_bytes u s t) = length u + 8"
  by (simp add: ikey_bytes_def)

lemma AppendInternalKey_bytes:
  "AppendInternalKey le result k =
     (if sequence k \<le> kMaxSequenceNumber then Some (result @ ikey_bytes (user_key k) (sequence k) (value_type k)) else None)"
  by (simp add: AppendInternalKey_def PackSequenceAndType_def PutFixed64_def EncodeFixed_le ikey_bytes_def)

lemma ikey_parts [simp]:
  "ExtractUserKey (ikey_bytes u s t) = u" "ikey_tag le (ikey_bytes u s t) = pack_tag s t" "ikey_ok (ikey_bytes u s t)"
  using coding_fixed64 [of le le "pack_tag s t" "[]"]
  by (simp_all add: ExtractUserKey_def ikey_tag_def ikey_ok_def ikey_bytes_def EncodeFixed_le)

lemma ParseInternalKey_bytes:
  "s \<le> kMaxSequenceNumber \<Longrightarrow> ParseInternalKey le (ikey_bytes u s t) = Some \<lparr>user_key = u, sequence = s, value_type = t\<rparr>"
  using ikey_parts(1) [of u s t]
  by (simp add: ParseInternalKey_def Let_def pack_tag_type pack_tag_sequence ExtractUserKey_def)

text \<open>Conversely, a key that parses is the serialization of the result.\<close>

lemma tag_bytes:
  assumes "ValueType_of_byte (ucast (num AND 0xFF)) = Some t"
  shows "num = pack_tag (drop_bit 8 num) t" "drop_bit 8 num \<le> kMaxSequenceNumber"
proof -
  from assms have c: "ucast (num AND 0xFF) = ValueType_byte t" by (simp add: ValueType_of_byte_eq)
  show "num = pack_tag (drop_bit 8 num) t"
  proof (rule bit_word_eqI)
    fix n assume n: "n < LENGTH(64)"
    show "bit num n = bit (pack_tag (drop_bit 8 num) t) n"
    proof (cases "n < 8")
      case True
      then have "bit num n = bit (ucast (num AND 0xFF) :: 8 word) n"
        unfolding mask_8 by (simp add: bit_ucast_iff bit_and_iff bit_mask_iff)
      also have "\<dots> = bit (ucast (ValueType_byte t) :: 64 word) n" unfolding c using True by (simp add: bit_ucast_iff)
      finally show ?thesis using True by (simp add: pack_tag_def bit_or_iff bit_push_bit_iff)
    qed (use n in \<open>simp add: pack_tag_def bit_or_iff bit_push_bit_iff bit_drop_bit_eq bit_type\<close>)
  qed
  show "drop_bit 8 num \<le> kMaxSequenceNumber"
    unfolding kMaxSequenceNumber_bits
    by (rule bit_word_eqI) (auto simp: bit_take_bit_iff bit_drop_bit_eq dest: bit_imp_le_length)
qed

lemma ParseInternalKey_inverse:
  assumes "ParseInternalKey le k = Some p"
  shows "AppendInternalKey le [] p = Some k"
proof -
  from assms have len: "8 \<le> length k"
    and t: "ValueType_of_byte (ucast (ikey_tag le k AND 0xFF)) = Some (value_type p)"
    and p: "user_key p = take (length k - 8) k" "sequence p = drop_bit 8 (ikey_tag le k)"
    by (auto simp: ParseInternalKey_def Let_def split: if_splits)
  have "word_le 8 (ikey_tag le k) = drop (length k - 8) k"
    using len word_le_le_word [of "drop (length k - 8) k", where 'a = 64]
    by (simp add: ikey_tag_def DecodeFixed64_le)
  then have "user_key p @ word_le 8 (pack_tag (sequence p) (value_type p)) = k"
    using tag_bytes(1) [OF t, symmetric] p by simp
  then show ?thesis
    using tag_bytes(2) [OF t] p(2) by (simp add: AppendInternalKey_bytes ikey_bytes_def)
qed

subsection \<open>Lemmas: the order of internal keys\<close>

locale internal_order = key_order ucmp for ucmp :: "slice \<Rightarrow> slice \<Rightarrow> int" +
  fixes le :: bool
begin

abbreviation icmp :: "slice \<Rightarrow> slice \<Rightarrow> int" where "icmp \<equiv> InternalKeyComparator_Compare le ucmp"

lemma icmp_less:
  "icmp a b < 0 \<longleftrightarrow> ucmp (ExtractUserKey a) (ExtractUserKey b) < 0 \<or>
     ucmp (ExtractUserKey a) (ExtractUserKey b) = 0 \<and> ikey_tag le b < ikey_tag le a"
  by (auto simp: InternalKeyComparator_Compare_def Let_def)

lemma icmp_le:
  "icmp a b \<le> 0 \<longleftrightarrow> ucmp (ExtractUserKey a) (ExtractUserKey b) < 0 \<or>
     ucmp (ExtractUserKey a) (ExtractUserKey b) = 0 \<and> ikey_tag le b \<le> ikey_tag le a"
  by (auto simp: InternalKeyComparator_Compare_def Let_def)

lemma icmp_zero:
  "icmp a b = 0 \<longleftrightarrow> ucmp (ExtractUserKey a) (ExtractUserKey b) = 0 \<and> ikey_tag le a = ikey_tag le b"
  by (auto simp: InternalKeyComparator_Compare_def Let_def)

lemma icmp_order: "key_order icmp"
proof
  show "icmp a b < 0 \<longleftrightarrow> 0 < icmp b a" for a b
  proof -
    let ?x = "ucmp (ExtractUserKey a) (ExtractUserKey b)" and ?y = "ucmp (ExtractUserKey b) (ExtractUserKey a)"
    have "0 < icmp b a \<longleftrightarrow> \<not> icmp b a \<le> 0" by auto
    also have "\<dots> \<longleftrightarrow> 0 < ?y \<or> ?y = 0 \<and> ikey_tag le b < ikey_tag le a" unfolding icmp_le by force
    finally show ?thesis unfolding icmp_less using sym equal_sym by metis
  qed
  show "icmp a c \<le> 0" if "icmp a b \<le> 0" "icmp b c \<le> 0" for a b c
  proof -
    let ?a = "ExtractUserKey a" and ?b = "ExtractUserKey b" and ?c = "ExtractUserKey c"
    have "ucmp ?a ?c < 0" if "ucmp ?a ?b < 0 \<or> ucmp ?b ?c < 0"
      using that \<open>icmp a b \<le> 0\<close> \<open>icmp b c \<le> 0\<close> less_le_trans [of ?a ?b ?c] le_less_trans [of ?a ?b ?c]
      by (auto simp: icmp_le)
    moreover have "ucmp ?a ?c = 0" if "ucmp ?a ?b = 0" "ucmp ?b ?c = 0"
      using that trans [of ?a ?b ?c] trans [of ?c ?b ?a] equal_sym [of ?a ?b] equal_sym [of ?b ?c] sym [of ?a ?c]
      by (auto simp: not_less [of ?a ?c, symmetric] intro: order.antisym)
    ultimately show ?thesis using that unfolding icmp_le by (meson order.trans)
  qed
qed

text \<open>The same user key with a larger tag comes first.\<close>

lemma icmp_bytes:
  "icmp (ikey_bytes u s t) (ikey_bytes u' s' t') =
     (if ucmp u u' = 0 then if pack_tag s t > pack_tag s' t' then - 1 else if pack_tag s t < pack_tag s' t' then 1 else 0
      else ucmp u u')"
  by (simp add: InternalKeyComparator_Compare_def Let_def)

end

sublocale internal_order \<subseteq> ikey: key_order "InternalKeyComparator_Compare le ucmp"
  by (rule icmp_order)

locale internal_comparator = comparator ucmp usep usucc + internal_order ucmp le
  for ucmp usep usucc le
begin

lemma seek_tag: "PackSequenceAndType kMaxSequenceNumber kValueTypeForSeek = Some (pack_tag kMaxSequenceNumber kValueTypeForSeek)"
  by (simp add: PackSequenceAndType_def)

lemma put_seek_tag: "PutFixed64 le tmp (pack_tag s t) = ikey_bytes tmp s t"
  by (simp add: PutFixed64_def EncodeFixed_le ikey_bytes_def)

text \<open>The assertions of \<^verbatim>\<open>FindShortestSeparator\<close> hold, and the result lies in the interval.\<close>

lemma separator_ok:
  assumes keys: "ikey_ok start" "ikey_ok limit" and less: "icmp start limit < 0"
    and sep: "ucmp (ExtractUserKey start) (ExtractUserKey limit) < 0 \<or>
      usep (ExtractUserKey start) (ExtractUserKey limit) = ExtractUserKey start"
  shows "\<exists>r. InternalKeyComparator_FindShortestSeparator le ucmp usep start limit = Some r \<and>
    icmp start r \<le> 0 \<and> icmp r limit < 0 \<and> length r \<le> length start \<and> ikey_ok r"
proof -
  let ?us = "ExtractUserKey start" and ?ul = "ExtractUserKey limit"
  let ?t = "usep ?us ?ul"
  show ?thesis
  proof (cases "length ?t < length ?us \<and> ucmp ?us ?t < 0")
    case True
    then have "ucmp ?us ?ul < 0" using sep by auto
    then have "ucmp ?t ?ul < 0" by (rule separator_less)
    then have "icmp start (ikey_bytes ?t s t) < 0" "icmp (ikey_bytes ?t s t) limit < 0" for s t
      using True by (simp_all add: icmp_less)
    moreover have "length ?us + 8 = length start" using keys(1) by (simp add: ExtractUserKey_def ikey_ok_def)
    ultimately show ?thesis using True keys
      by (auto simp: InternalKeyComparator_FindShortestSeparator_def Let_def seek_tag put_seek_tag less_imp_le)
  next
    case False
    then have "InternalKeyComparator_FindShortestSeparator le ucmp usep start limit = Some start"
      using keys by (auto simp: InternalKeyComparator_FindShortestSeparator_def Let_def)
    then show ?thesis using keys less ikey.self [of start] by auto
  qed
qed

lemma successor_ok:
  assumes "ikey_ok k"
  shows "\<exists>r. InternalKeyComparator_FindShortSuccessor le ucmp usucc k = Some r \<and> icmp k r \<le> 0 \<and> length r \<le> length k \<and> ikey_ok r"
proof (cases "length (usucc (ExtractUserKey k)) < length (ExtractUserKey k) \<and> ucmp (ExtractUserKey k) (usucc (ExtractUserKey k)) < 0")
  case True
  then have "icmp k (ikey_bytes (usucc (ExtractUserKey k)) s t) < 0" for s t by (simp add: icmp_less)
  moreover have "length (ExtractUserKey k) + 8 = length k" using assms by (simp add: ExtractUserKey_def ikey_ok_def)
  ultimately show ?thesis using True assms
    by (auto simp: InternalKeyComparator_FindShortSuccessor_def Let_def seek_tag put_seek_tag less_imp_le)
next
  case False
  then have "InternalKeyComparator_FindShortSuccessor le ucmp usucc k = Some k"
    using assms by (auto simp: InternalKeyComparator_FindShortSuccessor_def Let_def)
  then show ?thesis using assms ikey.self [of k] by auto
qed

end

lemma internal_order_bytewise: "internal_order Slice_compare"
  by unfold_locales

interpretation bytewise_internal: internal_comparator Slice_compare BytewiseComparator_FindShortestSeparator
  BytewiseComparator_FindShortSuccessor le for le
  by unfold_locales

text \<open>With the bytewise comparator no assumption on the two user keys is needed.\<close>

lemma separator_same: "BytewiseComparator_FindShortestSeparator k k = k"
  using diff_index_spec [of 0 k k] by (auto simp: BytewiseComparator_FindShortestSeparator_def Let_def)

lemma bytewise_separator_ok:
  assumes "ikey_ok start" "ikey_ok limit" and "InternalKeyComparator_Compare le Slice_compare start limit < 0"
  shows "\<exists>r. InternalKeyComparator_FindShortestSeparator le Slice_compare BytewiseComparator_FindShortestSeparator start limit = Some r \<and>
    InternalKeyComparator_Compare le Slice_compare start r \<le> 0 \<and> InternalKeyComparator_Compare le Slice_compare r limit < 0 \<and>
    length r \<le> length start \<and> ikey_ok r"
  using assms
proof (rule bytewise_internal.separator_ok)
  show "Slice_compare (ExtractUserKey start) (ExtractUserKey limit) < 0 \<or>
      BytewiseComparator_FindShortestSeparator (ExtractUserKey start) (ExtractUserKey limit) = ExtractUserKey start"
    using assms(3) bytewise_internal.icmp_less separator_same by (auto simp: Slice_compare_eq)
qed

subsection \<open>Lemmas: lookup keys\<close>

lemma LookupKey_bytes:
  assumes "s \<le> kMaxSequenceNumber"
  shows "\<exists>k. LookupKey_init le u s = Some k \<and>
    LookupKey_memtable_key k = EncodeVarint32 (word_of_nat (length u + 8)) @ ikey_bytes u s kTypeValue \<and>
    LookupKey_internal_key k = ikey_bytes u s kTypeValue \<and> LookupKey_user_key k = u \<and>
    length (LookupKey_memtable_key k) \<le> length u + 13"
proof -
  let ?v = "EncodeVarint32 (word_of_nat (length u + 8))"
  let ?k = "\<lparr>lookup_data = ?v @ ikey_bytes u s kTypeValue, lookup_kstart = length ?v\<rparr>"
  have k: "LookupKey_init le u s = Some ?k"
    using assms by (simp add: LookupKey_init_def Let_def PackSequenceAndType_def EncodeFixed_le ikey_bytes_def kValueTypeForSeek_def)
  moreover have "length ?v \<le> 5" by (rule length_EncodeVarint32)
  ultimately show ?thesis
    using ikey_parts(1) [of u s kTypeValue]
    by (simp add: LookupKey_memtable_key_def LookupKey_internal_key_def LookupKey_user_key_def ikey_bytes_def)
qed

subsection \<open>Properties\<close>

text \<open>
  Internal keys round-trip in both directions, for sequence numbers up to \<^verbatim>\<open>kMaxSequenceNumber\<close>: what
  \<^verbatim>\<open>AppendInternalKey\<close> writes parses to the same parts, and whatever parses is the serialization of the
  result.
\<close>

theorem internal_key_roundtrip:
  assumes "sequence p \<le> kMaxSequenceNumber"
  shows "\<exists>bs. AppendInternalKey le [] p = Some bs \<and> ParseInternalKey le bs = Some p \<and>
    length bs = InternalKeyEncodingLength p \<and>
    (\<forall>k q. ParseInternalKey le k = Some q \<longrightarrow> AppendInternalKey le [] q = Some k)"
  using assms ParseInternalKey_inverse
  by (simp add: AppendInternalKey_bytes ParseInternalKey_bytes InternalKeyEncodingLength_def)

theorem internal_key_roundtrip_witness:
  "\<exists>bs. AppendInternalKey True [] \<lparr>user_key = [97], sequence = 5, value_type = kTypeValue\<rparr> = Some bs \<and>
     ParseInternalKey True bs = Some \<lparr>user_key = [97], sequence = 5, value_type = kTypeValue\<rparr>"
  using internal_key_roundtrip [of "\<lparr>user_key = [97], sequence = 5, value_type = kTypeValue\<rparr>" True]
  by (auto simp: kMaxSequenceNumber_def)

text \<open>
  The order of internal keys over any user comparator that is an order. It is an order again, user
  keys compare first, and among the versions of a user key the newer one, with the larger sequence
  number, comes first.
\<close>

theorem internal_key_order:
  assumes "key_order ucmp" and "s \<le> kMaxSequenceNumber" and "s' \<le> kMaxSequenceNumber"
  shows "key_order (InternalKeyComparator_Compare le ucmp) \<and>
    (ucmp u u' \<noteq> 0 \<longrightarrow> InternalKeyComparator_Compare le ucmp (ikey_bytes u s t) (ikey_bytes u' s' t') = ucmp u u') \<and>
    (ucmp u u' = 0 \<longrightarrow> s' < s \<longrightarrow> InternalKeyComparator_Compare le ucmp (ikey_bytes u s t) (ikey_bytes u' s' t') = - 1)"
proof -
  have o: "internal_order ucmp" using assms(1) by (rule internal_order.intro)
  have "pack_tag s' t' < pack_tag s t" if "s' < s"
  proof -
    have "unat s' * 256 + 256 \<le> unat s * 256" using that by (simp add: word_less_nat_alt)
    moreover have "unat (ValueType_byte t') < 256" using unsigned_less [of "ValueType_byte t'"] by simp
    ultimately show ?thesis unfolding word_less_nat_alt unat_pack_tag [OF assms(2)] unat_pack_tag [OF assms(3)] by linarith
  qed
  then show ?thesis
    using internal_order.icmp_order [OF o] internal_order.icmp_bytes [OF o, of le u s t u' s' t'] by auto
qed

theorem internal_key_order_witness:
  "InternalKeyComparator_Compare True Slice_compare (ikey_bytes [97] 9 kTypeDeletion) (ikey_bytes [97] 4 kTypeValue) = - 1"
  using internal_key_order [OF bytewise.key_order_axioms, of 9 4 True "[97]" "[97]" kTypeDeletion kTypeValue]
  by (simp add: kMaxSequenceNumber_def)

text \<open>
  C31: the assertions in \<^verbatim>\<open>InternalKeyComparator::FindShortestSeparator\<close> and \<^verbatim>\<open>FindShortSuccessor\<close> with the bytewise
  comparator. The first two of them ask for internal keys of at least eight bytes; if both keys have them, the
  assertions about the order of the result never fail: for any \<open>start\<close> before \<open>limit\<close> the first function returns an internal key
  that is not before \<open>start\<close>, before \<open>limit\<close> and not longer than \<open>start\<close>, and the second one an internal key
  that is not before the given one and not longer. On shorter keys both functions fail an assertion.
\<close>

theorem internal_separator_safe:
  assumes "InternalKeyComparator_Compare le Slice_compare start limit < 0"
  shows "(case InternalKeyComparator_FindShortestSeparator le Slice_compare BytewiseComparator_FindShortestSeparator start limit of
       None \<Rightarrow> length start < 8 \<or> length limit < 8
     | Some r \<Rightarrow> 8 \<le> length start \<and> 8 \<le> length limit \<and> 8 \<le> length r \<and> length r \<le> length start \<and>
         InternalKeyComparator_Compare le Slice_compare start r \<le> 0 \<and> InternalKeyComparator_Compare le Slice_compare r limit < 0) \<and>
    (case InternalKeyComparator_FindShortSuccessor le Slice_compare BytewiseComparator_FindShortSuccessor start of
       None \<Rightarrow> length start < 8
     | Some r \<Rightarrow> 8 \<le> length start \<and> 8 \<le> length r \<and> length r \<le> length start \<and> InternalKeyComparator_Compare le Slice_compare start r \<le> 0)"
proof
  show "case InternalKeyComparator_FindShortestSeparator le Slice_compare BytewiseComparator_FindShortestSeparator start limit of
       None \<Rightarrow> length start < 8 \<or> length limit < 8
     | Some r \<Rightarrow> 8 \<le> length start \<and> 8 \<le> length limit \<and> 8 \<le> length r \<and> length r \<le> length start \<and>
         InternalKeyComparator_Compare le Slice_compare start r \<le> 0 \<and> InternalKeyComparator_Compare le Slice_compare r limit < 0"
  proof (cases "ikey_ok start \<and> ikey_ok limit")
    case True
    then show ?thesis using bytewise_separator_ok [OF _ _ assms] by (fastforce simp: ikey_ok_def)
  qed (auto simp: InternalKeyComparator_FindShortestSeparator_def ikey_ok_def)
  show "case InternalKeyComparator_FindShortSuccessor le Slice_compare BytewiseComparator_FindShortSuccessor start of
       None \<Rightarrow> length start < 8
     | Some r \<Rightarrow> 8 \<le> length start \<and> 8 \<le> length r \<and> length r \<le> length start \<and> InternalKeyComparator_Compare le Slice_compare start r \<le> 0"
  proof (cases "ikey_ok start")
    case True
    then show ?thesis using bytewise_internal.successor_ok [OF True, of le] by (fastforce simp: ikey_ok_def)
  qed (auto simp: InternalKeyComparator_FindShortSuccessor_def ikey_ok_def)
qed

theorem internal_separator_safe_witness:
  "\<exists>r. InternalKeyComparator_FindShortestSeparator True Slice_compare BytewiseComparator_FindShortestSeparator
         (ikey_bytes [97, 98, 99] 5 kTypeValue) (ikey_bytes [100] 5 kTypeValue) = Some r \<and>
       InternalKeyComparator_Compare True Slice_compare r (ikey_bytes [100] 5 kTypeValue) < 0"
proof -
  have "InternalKeyComparator_Compare True Slice_compare (ikey_bytes [97, 98, 99] 5 kTypeValue) (ikey_bytes [100] 5 kTypeValue) < 0"
    by (simp add: InternalKeyComparator_Compare_def)
  from internal_separator_safe [OF this] show ?thesis
    using ikey_parts(3) [of "[97, 98, 99]" 5 kTypeValue] ikey_parts(3) [of "[100]" 5 kTypeValue]
    by (auto simp: ikey_ok_def split: option.splits)
qed

end
