(* ===== verification/LDB_Logging.thy ===== *)
theory LDB_Logging
  imports LDB_Slice
begin

text \<open>
  Numbers and text, \<^verbatim>\<open>util/logging.h\<close> and \<^verbatim>\<open>util/logging.cc\<close>. Text is the list of its bytes. Of the C
  library's \<^verbatim>\<open>snprintf\<close> the program uses the conversions below; \<open>snprintf_buf\<close> cuts the result off at
  the size of the buffer, and the lemmas show that no call of the program loses a byte.
\<close>

definition str :: "string \<Rightarrow> byte list" where "str s = map of_char s"

definition snprintf_buf :: "nat \<Rightarrow> byte list \<Rightarrow> byte list" where "snprintf_buf n text = take (n - 1) text"

text \<open>The conversions \<^verbatim>\<open>%llu\<close>, \<^verbatim>\<open>%d\<close>, \<^verbatim>\<open>%06llu\<close> and \<^verbatim>\<open>%02x\<close>.\<close>

fun decimal :: "nat \<Rightarrow> byte list" where
  "decimal n = (if n < 10 then [48 + word_of_nat n] else decimal (n div 10) @ [48 + word_of_nat (n mod 10)])"

declare decimal.simps [simp del]

definition print_int :: "int \<Rightarrow> byte list" where
  "print_int i = (if i < 0 then str ''-'' @ decimal (nat (- i)) else decimal (nat i))"

definition pad_zero :: "nat \<Rightarrow> byte list \<Rightarrow> byte list" where
  "pad_zero w ds = replicate (w - length ds) 48 @ ds"

definition hex_digit :: "nat \<Rightarrow> byte" where
  "hex_digit n = (if n < 10 then 48 + word_of_nat n else 87 + word_of_nat n)"

definition hex_byte :: "byte \<Rightarrow> byte list" where
  "hex_byte b = [hex_digit (unat b div 16), hex_digit (unat b mod 16)]"

subsection \<open>The operations\<close>

definition AppendNumberTo :: "byte list \<Rightarrow> 64 word \<Rightarrow> byte list" where
  "AppendNumberTo dst num = dst @ snprintf_buf 30 (decimal (unat num))"

primrec AppendEscapedStringTo :: "byte list \<Rightarrow> slice \<Rightarrow> byte list" where
  "AppendEscapedStringTo dst [] = dst"
| "AppendEscapedStringTo dst (c # value) =
     (if 32 \<le> c \<and> c \<le> 126 then AppendEscapedStringTo (dst @ [c]) value
      else AppendEscapedStringTo (dst @ snprintf_buf 10 (str [CHR 0x5C, CHR ''x''] @ hex_byte c)) value)"

definition NumberToString :: "64 word \<Rightarrow> byte list" where "NumberToString num = AppendNumberTo [] num"

definition EscapeString :: "slice \<Rightarrow> byte list" where "EscapeString value = AppendEscapedStringTo [] value"

text \<open>
  \<^verbatim>\<open>ConsumeDecimalNumber\<close>: the result, what is left of the input, and the number that is stored; on
  overflow nothing is stored and the input is left at the digit that overflows.
\<close>

definition kMaxUint64 :: "64 word" where "kMaxUint64 = NOT 0"

primrec consume_digits :: "slice \<Rightarrow> 64 word \<Rightarrow> nat \<Rightarrow> bool \<times> slice \<times> 64 word option" where
  "consume_digits [] v digits = (0 < digits, [], Some v)"
| "consume_digits (c # cs) v digits =
     (if 48 \<le> c \<and> c \<le> 57 then
        let delta :: 64 word = ucast (c - 48) in
        if v > kMaxUint64 div 10 \<or> (v = kMaxUint64 div 10 \<and> delta > kMaxUint64 mod 10)
        then (False, c # cs, None)
        else consume_digits cs (v * 10 + delta) (digits + 1)
      else (0 < digits, c # cs, Some v))"

definition ConsumeDecimalNumber :: "slice \<Rightarrow> bool \<times> slice \<times> 64 word option" where
  "ConsumeDecimalNumber input = consume_digits input 0 0"

subsection \<open>Lemmas\<close>

definition is_digit :: "byte \<Rightarrow> bool" where "is_digit c \<longleftrightarrow> 48 \<le> c \<and> c \<le> 57"

definition digits_value :: "byte list \<Rightarrow> nat \<Rightarrow> nat" where
  "digits_value ds n = foldl (\<lambda>n c. n * 10 + (unat c - 48)) n ds"

lemma length_str [simp]: "length (str s) = length s"
  by (simp add: str_def)

lemma digit_byte: "n < 10 \<Longrightarrow> is_digit (48 + word_of_nat n) \<and> unat (48 + word_of_nat n :: byte) = 48 + n"
proof -
  assume n: "n < 10"
  then have "unat (word_of_nat (48 + n) :: byte) = 48 + n" by (simp add: unat_of_nat del: of_nat_add)
  then show ?thesis using n by (simp add: is_digit_def word_le_nat_alt)
qed

lemma decimal_digits: "decimal n \<noteq> [] \<and> list_all is_digit (decimal n) \<and> digits_value (decimal n) 0 = n"
proof (induction n rule: decimal.induct)
  case (1 n)
  show ?case
  proof (cases "n < 10")
    case True
    then show ?thesis using digit_byte [of n] by (subst (1 2 3) decimal.simps) (simp add: digits_value_def)
  next
    case False
    then have "decimal n = decimal (n div 10) @ [48 + word_of_nat (n mod 10)]" by (subst decimal.simps) simp
    then show ?thesis using 1 False digit_byte [of "n mod 10"] by (simp add: digits_value_def)
  qed
qed

lemma digits_value_append: "digits_value (xs @ ys) n = digits_value ys (digits_value xs n)"
  by (simp add: digits_value_def)

lemma digits_value_mono: "n \<le> digits_value ds n"
proof (induction ds arbitrary: n)
  case (Cons c ds)
  have "n \<le> n * 10 + (unat c - 48)" by simp
  also have "\<dots> \<le> digits_value ds (n * 10 + (unat c - 48))" by (rule Cons)
  finally show ?case by (simp add: digits_value_def)
qed (simp add: digits_value_def)

lemma digits_value_zeros: "digits_value (replicate k 48 @ ds) 0 = digits_value ds 0"
  by (induction k) (simp_all add: digits_value_def)

lemma decimal_length: "0 < k \<Longrightarrow> n < 10 ^ k \<Longrightarrow> length (decimal n) \<le> k"
proof (induction k arbitrary: n)
  case (Suc k)
  show ?case
  proof (cases "n < 10")
    case False
    then have "k \<noteq> 0" using Suc.prems by (cases k) auto
    moreover have "n div 10 < 10 ^ k" using Suc.prems by (simp add: less_mult_imp_div_less mult.commute)
    ultimately have "length (decimal (n div 10)) \<le> k" using Suc.IH by simp
    then show ?thesis using False by (subst decimal.simps) simp
  qed (subst decimal.simps, simp)
qed simp

lemma decimal_64: "length (decimal (unat (v :: 64 word))) \<le> 20"
  using unat_64_less [of v] by (intro decimal_length) simp_all

text \<open>The buffers are large enough.\<close>

lemma NumberToString_decimal: "NumberToString v = decimal (unat v)"
  using decimal_64 [of v] by (simp add: NumberToString_def AppendNumberTo_def snprintf_buf_def)

lemma AppendNumberTo_decimal: "AppendNumberTo dst v = dst @ decimal (unat v)"
  using decimal_64 [of v] by (simp add: AppendNumberTo_def snprintf_buf_def)

text \<open>One step of the loop, on naturals: the guard is the overflow of a 64-bit number.\<close>

lemma digit_step:
  assumes "is_digit c"
  shows "(v > kMaxUint64 div 10 \<or> (v = kMaxUint64 div 10 \<and> ucast (c - 48) > kMaxUint64 mod 10)) \<longleftrightarrow>
      2 ^ 64 \<le> unat v * 10 + (unat c - 48)"
    and "unat v * 10 + (unat c - 48) < 2 ^ 64 \<Longrightarrow> unat (v * 10 + ucast (c - 48)) = unat v * 10 + (unat c - 48)"
proof -
  have "48 \<le> c" "c \<le> 57" using assms by (simp_all add: is_digit_def)
  then have cd: "unat (c - 48) = unat c - 48" and "unat c \<le> 57" by (simp_all add: unat_sub word_le_nat_alt)
  then have d: "unat (ucast (c - 48) :: 64 word) = unat c - 48" and le: "unat c - 48 \<le> 9" by simp_all
  have m: "unat kMaxUint64 = 2 ^ 64 - 1" by (simp add: kMaxUint64_def unsigned_minus_1_eq_mask mask_eq_exp_minus_1)
  have q: "unat (kMaxUint64 div 10) = 1844674407370955161" "unat (kMaxUint64 mod 10) = 5"
    by (simp_all add: unat_div_distrib unat_mod_distrib m)
  show "(v > kMaxUint64 div 10 \<or> (v = kMaxUint64 div 10 \<and> ucast (c - 48) > kMaxUint64 mod 10)) \<longleftrightarrow>
      2 ^ 64 \<le> unat v * 10 + (unat c - 48)"
    unfolding word_less_nat_alt word_unat_eq_iff q d using le by auto
  show "unat v * 10 + (unat c - 48) < 2 ^ 64 \<Longrightarrow> unat (v * 10 + ucast (c - 48)) = unat v * 10 + (unat c - 48)"
    by (simp add: unat_word_ariths cd)
qed

lemma consume_digits_digit:
  assumes "is_digit c"
  shows "consume_digits (c # cs) v n =
    (if 2 ^ 64 \<le> unat v * 10 + (unat c - 48) then (False, c # cs, None)
     else consume_digits cs (v * 10 + ucast (c - 48)) (n + 1))"
  using assms unfolding consume_digits.simps Let_def digit_step(1) [OF assms, symmetric] by (simp add: is_digit_def)

lemma consume_digits_ok:
  assumes "list_all is_digit ds" and "rest = [] \<or> \<not> is_digit (hd rest)" and "digits_value ds (unat v) < 2 ^ 64"
  shows "consume_digits (ds @ rest) v n = (0 < n + length ds, rest, Some (word_of_nat (digits_value ds (unat v))))"
  using assms
proof (induction ds arbitrary: v n)
  case Nil
  then show ?case by (cases rest) (auto simp: digits_value_def is_digit_def)
next
  case (Cons c ds)
  let ?u = "unat v * 10 + (unat c - 48)"
  have lt: "?u < 2 ^ 64" using Cons.prems(3) digits_value_mono [of ?u ds] by (simp add: digits_value_def)
  have c: "is_digit c" using Cons.prems(1) by simp
  have u: "unat (v * 10 + ucast (c - 48)) = ?u" using digit_step(2) [OF c lt] .
  have "consume_digits ((c # ds) @ rest) v n = consume_digits (ds @ rest) (v * 10 + ucast (c - 48)) (n + 1)"
    using lt by (simp add: consume_digits_digit [OF c] del: consume_digits.simps)
  also have "\<dots> = (0 < n + 1 + length ds, rest, Some (word_of_nat (digits_value ds ?u)))"
    using Cons.prems u by (subst Cons.IH) (simp_all add: digits_value_def)
  finally show ?case by (simp add: digits_value_def)
qed

lemma consume_digits_overflow:
  assumes "list_all is_digit ds" and "2 ^ 64 \<le> digits_value ds (unat v)"
  shows "fst (consume_digits (ds @ rest) v n) = False"
  using assms
proof (induction ds arbitrary: v n)
  case Nil
  then show ?case using unat_64_less [of v] by (simp add: digits_value_def)
next
  case (Cons c ds)
  let ?u = "unat v * 10 + (unat c - 48)"
  have c: "is_digit c" using Cons.prems(1) by simp
  show ?case
  proof (cases "2 ^ 64 \<le> ?u")
    case True
    then show ?thesis by (simp add: consume_digits_digit [OF c] del: consume_digits.simps)
  next
    case False
    then have u: "unat (v * 10 + ucast (c - 48)) = ?u" using digit_step(2) [OF c] by simp
    have "consume_digits ((c # ds) @ rest) v n = consume_digits (ds @ rest) (v * 10 + ucast (c - 48)) (n + 1)"
      using False by (simp add: consume_digits_digit [OF c] del: consume_digits.simps)
    then show ?thesis using Cons.IH [of "v * 10 + ucast (c - 48)" "n + 1"] Cons.prems u by (simp add: digits_value_def)
  qed
qed

lemma ConsumeDecimalNumber_digits:
  assumes "ds \<noteq> []" "list_all is_digit ds" "rest = [] \<or> \<not> is_digit (hd rest)" "digits_value ds 0 < 2 ^ 64"
  shows "ConsumeDecimalNumber (ds @ rest) = (True, rest, Some (word_of_nat (digits_value ds 0)))"
  using consume_digits_ok [OF assms(2,3), of 0 0] assms(1,4) by (simp add: ConsumeDecimalNumber_def)

text \<open>Printing and reading a number, with leading zeros.\<close>

lemma ConsumeDecimalNumber_decimal:
  assumes "rest = [] \<or> \<not> is_digit (hd rest)"
  shows "ConsumeDecimalNumber (pad_zero w (decimal (unat v)) @ rest) = (True, rest, Some v)"
proof -
  let ?ds = "pad_zero w (decimal (unat v))"
  have "?ds \<noteq> [] \<and> list_all is_digit ?ds \<and> digits_value ?ds 0 = unat v"
    using decimal_digits [of "unat v"]
    by (auto simp: pad_zero_def digits_value_zeros list_all_iff is_digit_def)
  then show ?thesis using ConsumeDecimalNumber_digits [OF _ _ assms, of ?ds] unat_64_less [of v] by simp
qed

end
