(* ===== verification/LDB_Status.thy ===== *)
theory LDB_Status
  imports LDB_Logging
begin

text \<open>
  Results of leveldb operations, \<^verbatim>\<open>include/leveldb/status.h\<close> and \<^verbatim>\<open>util/status.cc\<close>. A status is its pointer
  \<^verbatim>\<open>state_\<close>: \<open>None\<close> for \<^verbatim>\<open>NULL\<close>, which means success, else the bytes of the array it points to: the
  length of the message in four bytes, the code in one, and the message.

  The lengths are 32-bit numbers, so a long message can wrap the size of the array; the constructor
  is \<open>None\<close> when it writes past the end of the array or its assertion fails.
\<close>

datatype Code = kOk | kNotFound | kCorruption | kNotSupported | kInvalidArgument | kIOError

type_synonym Status = "byte list option"

definition Code_byte :: "Code \<Rightarrow> byte" where
  "Code_byte c = (case c of kOk \<Rightarrow> 0 | kNotFound \<Rightarrow> 1 | kCorruption \<Rightarrow> 2 | kNotSupported \<Rightarrow> 3
     | kInvalidArgument \<Rightarrow> 4 | kIOError \<Rightarrow> 5)"

definition Status_init :: "Code \<Rightarrow> slice \<Rightarrow> slice \<Rightarrow> Status option" where
  "Status_init code msg msg2 =
     (let len1 :: 32 word = word_of_nat (length msg); len2 :: 32 word = word_of_nat (length msg2);
          size = len1 + (if len2 \<noteq> 0 then 2 + len2 else 0);
          tail = take (unat len1) msg @ (if len2 \<noteq> 0 then str '': '' @ take (unat len2) msg2 else [])
      in if code \<noteq> kOk \<and> 5 + length tail \<le> unat (size + 5)
         then Some (Some (word_le 4 size @ Code_byte code # tail)) else None)"

definition Status_CopyState :: "byte list \<Rightarrow> byte list" where
  "Status_CopyState state = (let size :: 32 word = le_word (take 4 state) in take (unat (size + 5)) state)"

definition Status_copy :: "Status \<Rightarrow> Status" where "Status_copy s = map_option Status_CopyState s"

definition Status_OK :: Status where "Status_OK = None"

definition Status_NotFound :: "slice \<Rightarrow> slice \<Rightarrow> Status option" where
  "Status_NotFound = Status_init kNotFound"

definition Status_Corruption :: "slice \<Rightarrow> slice \<Rightarrow> Status option" where
  "Status_Corruption = Status_init kCorruption"

definition Status_NotSupported :: "slice \<Rightarrow> slice \<Rightarrow> Status option" where
  "Status_NotSupported = Status_init kNotSupported"

definition Status_InvalidArgument :: "slice \<Rightarrow> slice \<Rightarrow> Status option" where
  "Status_InvalidArgument = Status_init kInvalidArgument"

definition Status_IOError :: "slice \<Rightarrow> slice \<Rightarrow> Status option" where
  "Status_IOError = Status_init kIOError"

definition Status_ok :: "Status \<Rightarrow> bool" where "Status_ok s \<longleftrightarrow> s = None"

definition Status_code :: "Status \<Rightarrow> byte" where
  "Status_code s = (case s of None \<Rightarrow> Code_byte kOk | Some state \<Rightarrow> state ! 4)"

definition Status_IsNotFound :: "Status \<Rightarrow> bool" where
  "Status_IsNotFound s \<longleftrightarrow> Status_code s = Code_byte kNotFound"

definition Status_IsCorruption :: "Status \<Rightarrow> bool" where
  "Status_IsCorruption s \<longleftrightarrow> Status_code s = Code_byte kCorruption"

definition Status_IsIOError :: "Status \<Rightarrow> bool" where
  "Status_IsIOError s \<longleftrightarrow> Status_code s = Code_byte kIOError"

definition Status_ToString :: "Status \<Rightarrow> byte list" where
  "Status_ToString s =
     (case s of None \<Rightarrow> str ''OK''
      | Some state \<Rightarrow>
          let c = Status_code s;
              type = (if c = Code_byte kOk then str ''OK''
                else if c = Code_byte kNotFound then str ''NotFound: ''
                else if c = Code_byte kCorruption then str ''Corruption: ''
                else if c = Code_byte kNotSupported then str ''Not implemented: ''
                else if c = Code_byte kInvalidArgument then str ''Invalid argument: ''
                else if c = Code_byte kIOError then str ''IO error: ''
                else snprintf_buf 30 (str ''Unknown code('' @ print_int (sint c) @ str ''): ''));
              len :: 32 word = le_word (take 4 state)
          in type @ take (unat len) (drop 5 state))"

subsection \<open>Lemmas\<close>

definition status_text :: "slice \<Rightarrow> slice \<Rightarrow> byte list" where
  "status_text msg msg2 = msg @ (if msg2 = [] then [] else str '': '' @ msg2)"

definition status_bytes :: "Code \<Rightarrow> slice \<Rightarrow> slice \<Rightarrow> byte list" where
  "status_bytes code msg msg2 =
     word_le 4 (word_of_nat (length (status_text msg msg2)) :: 32 word) @ Code_byte code # status_text msg msg2"

lemma Status_init_bytes:
  assumes "code \<noteq> kOk" and "length (status_text msg msg2) + 5 < 2 ^ 32"
  shows "Status_init code msg msg2 = Some (Some (status_bytes code msg msg2))"
proof -
  let ?n = "length (status_text msg msg2)"
  have l: "length msg < 2 ^ 32" "length msg2 < 2 ^ 32"
    using assms(2) by (auto simp: status_text_def split: if_splits)
  then have u: "unat (word_of_nat (length msg) :: 32 word) = length msg"
    "unat (word_of_nat (length msg2) :: 32 word) = length msg2"
    by (simp_all add: unat_of_nat)
  then have z: "(word_of_nat (length msg2) :: 32 word) = 0 \<longleftrightarrow> msg2 = []"
    by (metis length_0_conv unat_eq_0)
  have size: "word_of_nat (length msg) + (if (word_of_nat (length msg2) :: 32 word) \<noteq> 0 then 2 + word_of_nat (length msg2) else 0)
      = (word_of_nat ?n :: 32 word)"
    unfolding z by (simp add: status_text_def)
  have "unat (word_of_nat ?n + 5 :: 32 word) = ?n + 5"
    using assms(2) unat_of_nat [of "?n + 5", where 'a = 32] by simp
  then show ?thesis
    using assms(1) unfolding Status_init_def Let_def size
    by (simp add: u z status_bytes_def status_text_def)
qed

lemma status_bytes_parts:
  "le_word (take 4 (status_bytes code msg msg2)) = (word_of_nat (length (status_text msg msg2)) :: 32 word)"
  "status_bytes code msg msg2 ! 4 = Code_byte code" "drop 5 (status_bytes code msg msg2) = status_text msg msg2"
  using le_word_word_le [of 4 "word_of_nat (length (status_text msg msg2)) :: 32 word"]
  by (simp_all add: status_bytes_def take_bit_word_eq_self nth_append)

lemma Code_byte_inject [simp]: "Code_byte c = Code_byte d \<longleftrightarrow> c = d"
  by (cases c; cases d) (simp_all add: Code_byte_def)

lemma Status_code_bytes [simp]: "Status_code (Some (status_bytes code msg msg2)) = Code_byte code"
  by (simp add: Status_code_def status_bytes_parts)

lemma Status_copy_bytes:
  assumes "length (status_text msg msg2) + 5 < 2 ^ 32"
  shows "Status_copy (Some (status_bytes code msg msg2)) = Some (status_bytes code msg msg2)"
proof -
  let ?n = "length (status_text msg msg2)"
  have "unat (word_of_nat ?n + 5 :: 32 word) = ?n + 5"
    using assms unat_of_nat [of "?n + 5", where 'a = 32] by simp
  moreover have "length (status_bytes code msg msg2) = ?n + 5" by (simp add: status_bytes_def)
  ultimately show ?thesis
    by (simp add: Status_copy_def Status_CopyState_def status_bytes_parts)
qed

definition code_text :: "Code \<Rightarrow> string" where
  "code_text c = (case c of kOk \<Rightarrow> ''OK'' | kNotFound \<Rightarrow> ''NotFound: '' | kCorruption \<Rightarrow> ''Corruption: ''
     | kNotSupported \<Rightarrow> ''Not implemented: '' | kInvalidArgument \<Rightarrow> ''Invalid argument: '' | kIOError \<Rightarrow> ''IO error: '')"

lemma Status_ToString_bytes:
  assumes "length (status_text msg msg2) + 5 < 2 ^ 32"
  shows "Status_ToString (Some (status_bytes code msg msg2)) = str (code_text code) @ status_text msg msg2"
  using assms by (cases code) (simp_all add: Status_ToString_def Let_def status_bytes_parts unat_of_nat code_text_def)

end
