(* ===== verification/LDB_Random.thy ===== *)
theory LDB_Random
  imports PB_Prelude
begin

text \<open>
  The random number generator of leveldb, \<^verbatim>\<open>class Random\<close> of \<^verbatim>\<open>util/random.h\<close>. The object's state is
  \<^verbatim>\<open>seed_\<close>; every operation that draws a number returns it with the new state. The lemmas show that the
  shift-and-add reduction computes the multiplicative generator modulo \<open>2^31 - 1\<close>, and that the state
  never leaves the range \<open>[1, 2^31 - 2]\<close>, so that the two bad seeds are never reached.
\<close>

record Random =
  seed :: "32 word"

definition Random_init :: "32 word \<Rightarrow> Random" where
  "Random_init s =
     (let s' = s AND 0x7FFFFFFF in
      \<lparr>seed = (if s' = 0 \<or> s' = 2147483647 then 1 else s')\<rparr>)"

definition Random_Next :: "Random \<Rightarrow> 32 word \<times> Random" where
  "Random_Next r =
     (let M :: 32 word = 2147483647;
          A :: 64 word = 16807;
          product :: 64 word = ucast (seed r) * A;
          s' :: 32 word = ucast (drop_bit 31 product + (product AND ucast M));
          s' = (if s' > M then s' - M else s')
      in (s', r\<lparr>seed := s'\<rparr>))"

text \<open>
  The argument \<^verbatim>\<open>n\<close> is a positive \<^verbatim>\<open>int\<close>, which the remainder operation converts to unsigned.
\<close>

definition Random_Uniform :: "Random \<Rightarrow> 32 word \<Rightarrow> 32 word \<times> Random" where
  "Random_Uniform r n = (case Random_Next r of (v, r) \<Rightarrow> (v mod n, r))"

definition Random_OneIn :: "Random \<Rightarrow> 32 word \<Rightarrow> bool \<times> Random" where
  "Random_OneIn r n = (case Random_Next r of (v, r) \<Rightarrow> (v mod n = 0, r))"

definition Random_Skewed :: "Random \<Rightarrow> 32 word \<Rightarrow> 32 word \<times> Random" where
  "Random_Skewed r max_log =
     (case Random_Uniform r (max_log + 1) of (b, r) \<Rightarrow> Random_Uniform r (push_bit (unat b) 1))"

definition seed_ok :: "Random \<Rightarrow> bool" where
  "seed_ok r \<longleftrightarrow> 0 < unat (seed r) \<and> unat (seed r) < 2147483647"

lemma Random_init_ok: "seed_ok (Random_init s)"
proof -
  have "s AND 0x7FFFFFFF = take_bit 31 s" by (simp add: take_bit_eq_mask mask_eq_exp_minus_1)
  then have "unat (s AND 0x7FFFFFFF) = unat s mod 2 ^ 31"
    by (simp only: unsigned_take_bit_eq) (simp add: take_bit_eq_mod)
  then have "unat (s AND 0x7FFFFFFF) < 2147483648" by simp
  moreover have "unat (s AND 0x7FFFFFFF) \<noteq> 2147483647" if "s AND 0x7FFFFFFF \<noteq> 2147483647"
    using that by (simp add: word_unat_eq_iff)
  moreover have "0 < unat (s AND 0x7FFFFFFF)" if "s AND 0x7FFFFFFF \<noteq> 0"
    using that by (simp add: unat_gt_0)
  ultimately show ?thesis by (auto simp: seed_ok_def Random_init_def Let_def)
qed

text \<open>The reduction: writing \<open>p = h * 2^31 + l\<close>, \<open>h + l\<close> is \<open>p\<close> modulo \<open>2^31 - 1\<close>.\<close>

lemma mersenne_reduce:
  fixes p :: nat
  assumes "p < 2147483647 * 2147483647" and "p mod 2147483647 \<noteq> 0"
  defines "q \<equiv> p div 2147483648 + p mod 2147483648"
  shows "(if q > 2147483647 then q - 2147483647 else q) = p mod 2147483647" and "q < 2 ^ 32"
proof -
  have p: "p = 2147483648 * (p div 2147483648) + p mod 2147483648" by simp
  have h: "p div 2147483648 < 2147483647" using assms(1) by (intro div_less_iff_less_mult [THEN iffD2]) simp_all
  have l: "p mod 2147483648 < 2147483648" by simp
  show "q < 2 ^ 32" using h l unfolding q_def by simp
  have "p = 2147483647 * (p div 2147483648) + q" unfolding q_def using p by linarith
  then have m: "p mod 2147483647 = q mod 2147483647" by (metis mod_mult_self4 add.commute)
  have "q \<noteq> 2147483647" using m assms(2) by auto
  moreover have "q < 2 * 2147483647" using h l unfolding q_def by linarith
  ultimately show "(if q > 2147483647 then q - 2147483647 else q) = p mod 2147483647"
    unfolding m by (auto simp: mod_if)
qed

lemma coprime_A_M: "coprime (16807 :: nat) 2147483647"
proof -
  have "gcd (16807 :: nat) 2147483647 = 1" by (simp add: gcd_non_0_nat)
  then show ?thesis by (simp add: coprime_iff_gcd_eq_1)
qed

lemma Random_Next_mod:
  assumes "seed_ok r"
  shows "unat (fst (Random_Next r)) = unat (seed r) * 16807 mod 2147483647"
    and "seed_ok (snd (Random_Next r))"
    and "seed (snd (Random_Next r)) = fst (Random_Next r)"
proof -
  let ?s = "unat (seed r)" and ?p = "ucast (seed r) * 16807 :: 64 word"
  have s: "0 < ?s" "?s < 2147483647" using assms by (simp_all add: seed_ok_def)
  have p: "unat ?p = ?s * 16807" using s by (simp add: unat_word_ariths)
  have lt: "?s * 16807 < 2147483647 * 2147483647" using s by simp
  have "\<not> 2147483647 dvd ?s" using s by (auto dest: dvd_imp_le)
  then have "\<not> 2147483647 dvd ?s * 16807"
    using coprime_A_M by (metis coprime_commute coprime_dvd_mult_left_iff)
  then have nz: "?s * 16807 mod 2147483647 \<noteq> 0" by (simp add: dvd_eq_mod_eq_0)
  note red = mersenne_reduce [OF lt nz]
  let ?q = "?s * 16807 div 2147483648 + ?s * 16807 mod 2147483648"
  have hi: "unat (drop_bit 31 ?p) = ?s * 16807 div 2147483648"
    unfolding unat_drop_bit_eq p by (simp add: drop_bit_eq_div)
  have "?p AND ucast (2147483647 :: 32 word) = take_bit 31 ?p"
    by (simp add: take_bit_eq_mask mask_eq_exp_minus_1)
  then have lo: "unat (?p AND ucast (2147483647 :: 32 word)) = ?s * 16807 mod 2147483648"
    by (simp only: unsigned_take_bit_eq p) (simp add: take_bit_eq_mod)
  have sum: "unat (drop_bit 31 ?p + (?p AND ucast (2147483647 :: 32 word))) = ?q"
    using hi lo red(2) by (simp add: unat_word_ariths)
  have q: "unat (ucast (drop_bit 31 ?p + (?p AND ucast (2147483647 :: 32 word))) :: 32 word) = ?q"
    unfolding unsigned_ucast_eq sum using red(2) by (simp add: take_bit_eq_mod)
  let ?w = "ucast (drop_bit 31 ?p + (?p AND ucast (2147483647 :: 32 word))) :: 32 word"
  have "unat (if ?w > 2147483647 then ?w - 2147483647 else ?w) = (if ?q > 2147483647 then ?q - 2147483647 else ?q)"
    using q by (simp add: word_less_nat_alt unat_sub_if')
  then have next_eq: "unat (fst (Random_Next r)) = ?s * 16807 mod 2147483647"
    unfolding red(1) by (simp add: Random_Next_def Let_def)
  then show "unat (fst (Random_Next r)) = ?s * 16807 mod 2147483647" .
  show st: "seed (snd (Random_Next r)) = fst (Random_Next r)" by (simp add: Random_Next_def Let_def)
  show "seed_ok (snd (Random_Next r))" unfolding seed_ok_def st next_eq using nz by simp
qed

lemma Random_Uniform_less: "0 < n \<Longrightarrow> fst (Random_Uniform r n) < n"
  by (simp add: Random_Uniform_def split_def word_mod_less_divisor)

subsection \<open>Properties\<close>

text \<open>
  C34: every seed, however bad, starts the generator in the range \<open>[1, 2^31 - 2]\<close>; a draw computes
  \<open>16807 * seed mod (2^31 - 1)\<close> without the 64-bit product or the 32-bit sum overflowing, returns the new
  seed, and stays in the range, so that the fixed points \<open>0\<close> and \<open>2^31 - 1\<close> are never reached.
\<close>

theorem random_in_range:
  "seed_ok (Random_init s) \<and>
   (seed_ok r \<longrightarrow>
      unat (fst (Random_Next r)) = unat (seed r) * 16807 mod 2147483647 \<and>
      1 \<le> unat (fst (Random_Next r)) \<and> unat (fst (Random_Next r)) \<le> 2147483646 \<and>
      seed (snd (Random_Next r)) = fst (Random_Next r) \<and> seed_ok (snd (Random_Next r)))"
  using Random_init_ok [of s] Random_Next_mod [of r] by (auto simp: seed_ok_def)

theorem random_in_range_witness:
  "seed_ok (Random_init 0) \<and> unat (fst (Random_Next (Random_init 0))) = 16807"
  using random_in_range [of 0 "Random_init 0"] Random_init_ok [of 0] by (simp add: Random_init_def)

end
