(* ===== verification/LDB_SkipList.thy ===== *)
theory LDB_SkipList
  imports LDB_Random "HOL-Library.Monad_Syntax"
begin

text \<open>
  The skip list of leveldb's memtable, \<^verbatim>\<open>db/skiplist.h\<close>. Nodes are never deleted, so a node is its
  index in the list of nodes in the order of their allocation, and \<^verbatim>\<open>NULL\<close> is \<open>None\<close>. A link of a
  node that has been allocated but not been set yet is \<open>None\<close> in the node's array; reading it, or
  a link above the height of the node, or a failed assertion makes the operation \<open>None\<close>. The barriers
  of the accessors order memory between threads; the model is that of one thread.

  The three search loops run until a link says stop. They are partial functions, so that the value
  \<open>None\<close> also stands for a loop that never returns; the lemmas show that on well-formed lists every
  operation returns.

  The abstraction is the list \<open>ord\<close> of nodes in key order: \<open>skip_inv\<close> says that the chain of links
  at each level is the sublist of the nodes of at least that height.
\<close>

record 'k node =
  key :: 'k
  links :: "nat option option list"

record 'k skiplist =
  nodes :: "'k node list"
  head :: nat
  max_height :: nat
  rnd :: Random

abbreviation (input) kMaxHeight :: nat where "kMaxHeight \<equiv> 12"

definition Node_Next :: "'k node list \<Rightarrow> nat \<Rightarrow> nat \<Rightarrow> nat option option" where
  "Node_Next ns x n = (if x < length ns \<and> n < length (links (ns ! x)) then links (ns ! x) ! n else None)"

definition Node_SetNext :: "'k node list \<Rightarrow> nat \<Rightarrow> nat \<Rightarrow> nat option \<Rightarrow> 'k node list option" where
  "Node_SetNext ns x n v =
     (if x < length ns \<and> n < length (links (ns ! x))
      then Some (ns[x := (ns ! x)\<lparr>links := (links (ns ! x))[n := Some v]\<rparr>]) else None)"

definition Node_key :: "'k node list \<Rightarrow> nat \<Rightarrow> 'k option" where
  "Node_key ns x = (if x < length ns then Some (key (ns ! x)) else None)"

definition NewNode :: "'k node list \<Rightarrow> 'k \<Rightarrow> nat \<Rightarrow> nat \<times> 'k node list" where
  "NewNode ns k height = (length ns, ns @ [\<lparr>key = k, links = replicate height None\<rparr>])"

text \<open>The loop of \<^verbatim>\<open>RandomHeight\<close>, with the number of levels that are left.\<close>

primrec height_loop :: "nat \<Rightarrow> Random \<Rightarrow> nat \<Rightarrow> nat \<times> Random" where
  "height_loop 0 r height = (height, r)"
| "height_loop (Suc n) r height =
     (case Random_Next r of (v, r) \<Rightarrow> if v mod 4 = 0 then height_loop n r (height + 1) else (height, r))"

definition RandomHeight :: "Random \<Rightarrow> nat \<times> Random" where
  "RandomHeight r = height_loop (kMaxHeight - 1) r 1"

definition KeyIsAfterNode :: "('k \<Rightarrow> 'k \<Rightarrow> int) \<Rightarrow> 'k node list \<Rightarrow> 'k \<Rightarrow> nat option \<Rightarrow> bool option" where
  "KeyIsAfterNode compare ns k n =
     (case n of None \<Rightarrow> Some False | Some x \<Rightarrow> map_option (\<lambda>k'. compare k' k < 0) (Node_key ns x))"

definition set_prev :: "nat option list option \<Rightarrow> nat \<Rightarrow> nat \<Rightarrow> nat option list option option" where
  "set_prev prev level x =
     (case prev of None \<Rightarrow> Some None
      | Some p \<Rightarrow> if level < length p then Some (Some (p[level := Some x])) else None)"

partial_function (option) find_ge_loop ::
    "('k \<Rightarrow> 'k \<Rightarrow> int) \<Rightarrow> 'k node list \<Rightarrow> 'k \<Rightarrow> nat \<Rightarrow> nat \<Rightarrow> nat option list option \<Rightarrow>
     (nat option \<times> nat option list option) option" where
  "find_ge_loop compare ns k x level prev =
     do {
       nxt \<leftarrow> Node_Next ns x level;
       after \<leftarrow> KeyIsAfterNode compare ns k nxt;
       if after then find_ge_loop compare ns k (the nxt) level prev
       else do {
         prev \<leftarrow> set_prev prev level x;
         if level = 0 then Some (nxt, prev) else find_ge_loop compare ns k x (level - 1) prev
       }
     }"

definition FindGreaterOrEqual ::
    "('k \<Rightarrow> 'k \<Rightarrow> int) \<Rightarrow> 'k skiplist \<Rightarrow> 'k \<Rightarrow> nat option list option \<Rightarrow>
     (nat option \<times> nat option list option) option" where
  "FindGreaterOrEqual compare l k prev =
     find_ge_loop compare (nodes l) k (head l) (max_height l - 1) prev"

partial_function (option) find_less_loop ::
    "('k \<Rightarrow> 'k \<Rightarrow> int) \<Rightarrow> 'k node list \<Rightarrow> nat \<Rightarrow> 'k \<Rightarrow> nat \<Rightarrow> nat \<Rightarrow> nat option" where
  "find_less_loop compare ns h k x level =
     do {
       kx \<leftarrow> Node_key ns x;
       if \<not> (x = h \<or> compare kx k < 0) then None
       else do {
         nxt \<leftarrow> Node_Next ns x level;
         less \<leftarrow> KeyIsAfterNode compare ns k nxt;
         if \<not> less
         then (if level = 0 then Some x else find_less_loop compare ns h k x (level - 1))
         else find_less_loop compare ns h k (the nxt) level
       }
     }"

definition FindLessThan :: "('k \<Rightarrow> 'k \<Rightarrow> int) \<Rightarrow> 'k skiplist \<Rightarrow> 'k \<Rightarrow> nat option" where
  "FindLessThan compare l k = find_less_loop compare (nodes l) (head l) k (head l) (max_height l - 1)"

partial_function (option) find_last_loop :: "'k node list \<Rightarrow> nat \<Rightarrow> nat \<Rightarrow> nat option" where
  "find_last_loop ns x level =
     do {
       nxt \<leftarrow> Node_Next ns x level;
       (case nxt of
          None \<Rightarrow> if level = 0 then Some x else find_last_loop ns x (level - 1)
        | Some y \<Rightarrow> find_last_loop ns y level)
     }"

declare find_ge_loop.simps [code] find_less_loop.simps [code] find_last_loop.simps [code]

definition FindLast :: "'k skiplist \<Rightarrow> nat option" where
  "FindLast l = find_last_loop (nodes l) (head l) (max_height l - 1)"

primrec null_links :: "'k node list \<Rightarrow> nat \<Rightarrow> nat \<Rightarrow> 'k node list option" where
  "null_links ns x 0 = Some ns"
| "null_links ns x (Suc n) = do { ns \<leftarrow> null_links ns x n; Node_SetNext ns x n None }"

definition SkipList_init :: "'k \<Rightarrow> 'k skiplist option" where
  "SkipList_init any_key =
     (case NewNode [] any_key kMaxHeight of (h, ns) \<Rightarrow>
        do { ns \<leftarrow> null_links ns h kMaxHeight;
             Some \<lparr>nodes = ns, head = h, max_height = 1, rnd = Random_init 0xDEADBEEF\<rparr> })"

text \<open>The loop of \<^verbatim>\<open>Insert\<close> that links the node \<open>x\<close> into the lists below \<open>n\<close>.\<close>

primrec link_loop :: "nat option list \<Rightarrow> nat \<Rightarrow> nat \<Rightarrow> 'k node list \<Rightarrow> 'k node list option" where
  "link_loop prev x 0 ns = Some ns"
| "link_loop prev x (Suc i) ns =
     do {
       ns \<leftarrow> link_loop prev x i ns;
       p \<leftarrow> (if i < length prev then prev ! i else None);
       nxt \<leftarrow> Node_Next ns p i;
       ns \<leftarrow> Node_SetNext ns x i nxt;
       Node_SetNext ns p i (Some x)
     }"

definition raise_prev :: "nat \<Rightarrow> nat \<Rightarrow> nat \<Rightarrow> nat option list \<Rightarrow> nat option list" where
  "raise_prev from height h prev = fold (\<lambda>i p. p[i := Some h]) [from..<height] prev"

definition SkipList_Insert :: "('k \<Rightarrow> 'k \<Rightarrow> int) \<Rightarrow> 'k skiplist \<Rightarrow> 'k \<Rightarrow> 'k skiplist option" where
  "SkipList_Insert compare l k =
     do {
       (x, prev) \<leftarrow> FindGreaterOrEqual compare l k (Some (replicate kMaxHeight None));
       prev \<leftarrow> prev;
       dup \<leftarrow> (case x of None \<Rightarrow> Some False | Some x \<Rightarrow> map_option (\<lambda>k'. compare k k' = 0) (Node_key (nodes l) x));
       if dup then None
       else
         (case RandomHeight (rnd l) of (height, r) \<Rightarrow>
            let prev = (if height > max_height l then raise_prev (max_height l) height (head l) prev else prev);
                mh = (if height > max_height l then height else max_height l)
            in (case NewNode (nodes l) k height of (x, ns) \<Rightarrow>
                  do { ns \<leftarrow> link_loop prev x height ns;
                       Some (l\<lparr>nodes := ns, max_height := mh, rnd := r\<rparr>) }))
     }"

definition SkipList_Contains :: "('k \<Rightarrow> 'k \<Rightarrow> int) \<Rightarrow> 'k skiplist \<Rightarrow> 'k \<Rightarrow> bool option" where
  "SkipList_Contains compare l k =
     do {
       (x, prev) \<leftarrow> FindGreaterOrEqual compare l k None;
       (case x of None \<Rightarrow> Some False | Some x \<Rightarrow> map_option (\<lambda>k'. compare k k' = 0) (Node_key (nodes l) x))
     }"

subsection \<open>Iterators\<close>

text \<open>An iterator's state is \<^verbatim>\<open>node_\<close>; the operations return the new one.\<close>

definition Iterator_init :: "nat option" where "Iterator_init = None"

definition Iterator_Valid :: "nat option \<Rightarrow> bool" where "Iterator_Valid it \<longleftrightarrow> it \<noteq> None"

definition Iterator_key :: "'k skiplist \<Rightarrow> nat option \<Rightarrow> 'k option" where
  "Iterator_key l it = do { x \<leftarrow> it; Node_key (nodes l) x }"

definition Iterator_Next :: "'k skiplist \<Rightarrow> nat option \<Rightarrow> nat option option" where
  "Iterator_Next l it = do { x \<leftarrow> it; Node_Next (nodes l) x 0 }"

definition not_head :: "'k skiplist \<Rightarrow> nat \<Rightarrow> nat option" where
  "not_head l x = (if x = head l then None else Some x)"

definition Iterator_Prev :: "('k \<Rightarrow> 'k \<Rightarrow> int) \<Rightarrow> 'k skiplist \<Rightarrow> nat option \<Rightarrow> nat option option" where
  "Iterator_Prev compare l it =
     do { x \<leftarrow> it; k \<leftarrow> Node_key (nodes l) x; y \<leftarrow> FindLessThan compare l k; Some (not_head l y) }"

definition Iterator_Seek :: "('k \<Rightarrow> 'k \<Rightarrow> int) \<Rightarrow> 'k skiplist \<Rightarrow> 'k \<Rightarrow> nat option option" where
  "Iterator_Seek compare l target = map_option fst (FindGreaterOrEqual compare l target None)"

definition Iterator_SeekToFirst :: "'k skiplist \<Rightarrow> nat option option" where
  "Iterator_SeekToFirst l = Node_Next (nodes l) (head l) 0"

definition Iterator_SeekToLast :: "'k skiplist \<Rightarrow> nat option option" where
  "Iterator_SeekToLast l = do { y \<leftarrow> FindLast l; Some (not_head l y) }"

end
