(* ===== verification/LDB_SkipList_Correct.thy ===== *)
theory LDB_SkipList_Correct
  imports LDB_SkipList LDB_Slice
begin

text \<open>
  Correctness of the skip list. \<open>path ns lv a bs\<close>: following the links of level \<open>lv\<close> from node \<open>a\<close>
  visits the nodes \<open>bs\<close> and ends in \<^verbatim>\<open>NULL\<close>. The invariant \<open>skip_inv\<close> relates a skip list to the list
  \<open>ord\<close> of its nodes in key order; every operation is shown to do on \<open>ord\<close> what its comment promises.
  The lemmas need of the comparator that it is a \<open>key_order\<close>.
\<close>

abbreviation keyof :: "'k node list \<Rightarrow> nat \<Rightarrow> 'k" where "keyof ns i \<equiv> key (ns ! i)"

abbreviation node_height :: "'k node list \<Rightarrow> nat \<Rightarrow> nat" where "node_height ns i \<equiv> length (links (ns ! i))"

primrec path :: "'k node list \<Rightarrow> nat \<Rightarrow> nat \<Rightarrow> nat list \<Rightarrow> bool" where
  "path ns lv a [] \<longleftrightarrow> Node_Next ns a lv = Some None"
| "path ns lv a (b # bs) \<longleftrightarrow> Node_Next ns a lv = Some (Some b) \<and> path ns lv b bs"

definition chain :: "'k node list \<Rightarrow> nat \<Rightarrow> nat list \<Rightarrow> nat list" where
  "chain ns lv ord = filter (\<lambda>i. lv < node_height ns i) ord"

definition skip_inv :: "('k \<Rightarrow> 'k \<Rightarrow> int) \<Rightarrow> 'k skiplist \<Rightarrow> nat list \<Rightarrow> bool" where
  "skip_inv compare l ord \<longleftrightarrow>
     (let ns = nodes l in
      head l = 0 \<and> 1 \<le> max_height l \<and> max_height l \<le> kMaxHeight \<and> ns \<noteq> [] \<and> node_height ns 0 = kMaxHeight \<and>
      (\<forall>i\<in>set ord. 0 < i \<and> i < length ns \<and> 1 \<le> node_height ns i \<and> node_height ns i \<le> max_height l) \<and>
      sorted_wrt (\<lambda>i j. compare (keyof ns i) (keyof ns j) < 0) ord \<and>
      (\<forall>lv<kMaxHeight. path ns lv 0 (chain ns lv ord)))"

definition skip_keys :: "'k skiplist \<Rightarrow> nat list \<Rightarrow> 'k list" where
  "skip_keys l ord = map (keyof (nodes l)) ord"

subsection \<open>Links and paths\<close>

lemma path_append: "path ns lv a (xs @ b # ys) \<Longrightarrow> path ns lv b ys"
  by (induction xs arbitrary: a) auto

lemma path_last: "path ns lv a (xs @ ys) \<Longrightarrow> path ns lv (last (a # xs)) ys"
  by (induction xs arbitrary: a) auto

lemma path_next: "path ns lv a bs \<Longrightarrow> Node_Next ns a lv = Some (case bs of [] \<Rightarrow> None | b # _ \<Rightarrow> Some b)"
  by (cases bs) auto

lemma SetNext_next:
  assumes "Node_SetNext ns x n v = Some ns'"
  shows "Node_Next ns' y lv = (if y = x \<and> lv = n then Some v else Node_Next ns y lv)"
    and "length ns' = length ns" and "keyof ns' i = keyof ns i" and "node_height ns' i = node_height ns i"
proof -
  from assms have x: "x < length ns" "n < node_height ns x"
    and ns': "ns' = ns[x := (ns ! x)\<lparr>links := (links (ns ! x))[n := Some v]\<rparr>]"
    by (auto simp: Node_SetNext_def split: if_splits)
  show "Node_Next ns' y lv = (if y = x \<and> lv = n then Some v else Node_Next ns y lv)"
    using x by (auto simp: ns' Node_Next_def nth_list_update)
  show "length ns' = length ns" by (simp add: ns')
  show "keyof ns' i = keyof ns i" "node_height ns' i = node_height ns i"
    using x by (cases "i = x"; simp add: ns')+
qed

lemma SetNext_Some: "x < length ns \<Longrightarrow> n < node_height ns x \<Longrightarrow> \<exists>ns'. Node_SetNext ns x n v = Some ns'"
  by (simp add: Node_SetNext_def)

lemma path_cong:
  "(\<And>a. a \<in> set (x # xs) \<Longrightarrow> Node_Next ns' a lv = Node_Next ns a lv) \<Longrightarrow> path ns' lv x xs = path ns lv x xs"
  by (induction xs arbitrary: x) auto

text \<open>Linking a node \<open>n\<close> behind the last node of the prefix \<open>xs\<close>.\<close>

lemma path_link:
  assumes "path ns lv a (xs @ ys)" and "distinct (a # xs @ ys)" and "n \<notin> set (a # xs @ ys)"
    and "\<And>b. b \<noteq> n \<Longrightarrow> b \<noteq> last (a # xs) \<Longrightarrow> Node_Next ns' b lv = Node_Next ns b lv"
    and "Node_Next ns' n lv = Node_Next ns (last (a # xs)) lv"
    and "Node_Next ns' (last (a # xs)) lv = Some (Some n)"
  shows "path ns' lv a (xs @ n # ys)"
  using assms
proof (induction xs arbitrary: a)
  case Nil
  have "path ns' lv n ys"
  proof (cases ys)
    case Nil
    with Nil.prems show ?thesis by simp
  next
    case (Cons y zs)
    have "path ns' lv y zs = path ns lv y zs"
    proof (rule path_cong)
      fix b assume "b \<in> set (y # zs)"
      then have "b \<noteq> n" "b \<noteq> a" using Nil.prems(2,3) Cons by auto
      then show "Node_Next ns' b lv = Node_Next ns b lv" using Nil.prems(4) by simp
    qed
    with Cons Nil.prems show ?thesis by simp
  qed
  with Nil.prems show ?case by simp
next
  case (Cons x xs)
  have "a \<noteq> last (x # xs)" using Cons.prems(2) by (metis append_Cons distinct.simps(2) last_in_set list.distinct(1) in_set_conv_decomp Un_iff set_append)
  then have "Node_Next ns' a lv = Some (Some x)" using Cons.prems(1,3,4) by simp
  moreover have "path ns' lv x (xs @ n # ys)"
    using Cons.prems by (intro Cons.IH) auto
  ultimately show ?case by simp
qed

subsection \<open>The search loops\<close>

lemma KeyIsAfterNode_simps [simp]:
  "KeyIsAfterNode compare ns k None = Some False"
  "x < length ns \<Longrightarrow> KeyIsAfterNode compare ns k (Some x) = Some (compare (keyof ns x) k < 0)"
  by (simp_all add: KeyIsAfterNode_def Node_key_def)

text \<open>One level of each search: the loop walks over the smaller keys.\<close>

lemma find_ge_level:
  assumes "path ns lv x (ls @ rs)" and "\<forall>i\<in>set ls. i < length ns \<and> compare (keyof ns i) k < 0"
    and "\<forall>i\<in>set rs. i < length ns \<and> \<not> compare (keyof ns i) k < 0"
  shows "find_ge_loop compare ns k x lv prev =
    do { prev \<leftarrow> set_prev prev lv (last (x # ls));
         if lv = 0 then Some (case rs of [] \<Rightarrow> None | r # _ \<Rightarrow> Some r, prev)
         else find_ge_loop compare ns k (last (x # ls)) (lv - 1) prev }"
  using assms(1,2)
proof (induction ls arbitrary: x)
  case Nil
  with assms(3) show ?case by (subst find_ge_loop.simps) (cases rs; simp cong: if_cong)
next
  case (Cons y ls)
  have l: "last (x # y # ls) = last (y # ls)" by simp
  have "find_ge_loop compare ns k x lv prev = find_ge_loop compare ns k y lv prev"
    using Cons.prems by (subst find_ge_loop.simps) simp
  also note Cons.IH [of y]
  finally show ?case unfolding l using Cons.prems by simp
qed

lemma find_less_level:
  assumes "path ns lv x (ls @ rs)" and "\<forall>i\<in>set ls. i < length ns \<and> compare (keyof ns i) k < 0"
    and "\<forall>i\<in>set rs. i < length ns \<and> \<not> compare (keyof ns i) k < 0"
    and "x < length ns" and "x = h \<or> compare (keyof ns x) k < 0"
  shows "find_less_loop compare ns h k x lv =
    (if lv = 0 then Some (last (x # ls)) else find_less_loop compare ns h k (last (x # ls)) (lv - 1))"
  using assms(1,2,4,5)
proof (induction ls arbitrary: x)
  case Nil
  with assms(3) show ?case by (subst find_less_loop.simps) (cases rs; auto simp: Node_key_def)
next
  case (Cons y ls)
  have l: "last (x # y # ls) = last (y # ls)" by simp
  have "find_less_loop compare ns h k x lv = find_less_loop compare ns h k y lv"
    using Cons.prems by (subst find_less_loop.simps) (auto simp: Node_key_def)
  also note Cons.IH [of y]
  finally show ?case unfolding l using Cons.prems by simp
qed

lemma find_last_level:
  assumes "path ns lv x ls"
  shows "find_last_loop ns x lv =
    (if lv = 0 then Some (last (x # ls)) else find_last_loop ns (last (x # ls)) (lv - 1))"
  using assms
proof (induction ls arbitrary: x)
  case Nil
  then show ?case by (subst find_last_loop.simps) simp
next
  case (Cons y ls)
  then show ?case by (subst find_last_loop.simps) simp
qed

subsection \<open>Searching\<close>

definition first :: "nat list \<Rightarrow> nat option" where
  "first xs = (case xs of [] \<Rightarrow> None | x # _ \<Rightarrow> Some x)"

text \<open>The nodes with keys before \<open>k\<close>, and the others.\<close>

definition below :: "('k \<Rightarrow> 'k \<Rightarrow> int) \<Rightarrow> 'k node list \<Rightarrow> 'k \<Rightarrow> nat list \<Rightarrow> nat list" where
  "below compare ns k ord = filter (\<lambda>i. compare (keyof ns i) k < 0) ord"

definition above :: "('k \<Rightarrow> 'k \<Rightarrow> int) \<Rightarrow> 'k node list \<Rightarrow> 'k \<Rightarrow> nat list \<Rightarrow> nat list" where
  "above compare ns k ord = filter (\<lambda>i. \<not> compare (keyof ns i) k < 0) ord"

text \<open>The predecessor of \<open>k\<close> at a level, and the array \<^verbatim>\<open>prev\<close> filled with them.\<close>

definition pred_at :: "('k \<Rightarrow> 'k \<Rightarrow> int) \<Rightarrow> 'k node list \<Rightarrow> 'k \<Rightarrow> nat list \<Rightarrow> nat \<Rightarrow> nat" where
  "pred_at compare ns k ord lv = last (0 # chain ns lv (below compare ns k ord))"

definition fill :: "(nat \<Rightarrow> nat) \<Rightarrow> nat \<Rightarrow> nat option list \<Rightarrow> nat option list" where
  "fill f lv p = map (\<lambda>j. if j \<le> lv then Some (f j) else p ! j) [0..<length p]"

lemma fill_0: "0 < length p \<Longrightarrow> p[0 := Some (f 0)] = fill f 0 p"
  by (rule nth_equalityI) (auto simp: fill_def nth_list_update)

lemma fill_Suc: "Suc lv < length p \<Longrightarrow> fill f lv (p[Suc lv := Some (f (Suc lv))]) = fill f (Suc lv) p"
  by (rule nth_equalityI) (auto simp: fill_def nth_list_update le_Suc_eq)

lemma skip_invD:
  assumes "skip_inv compare l ord"
  shows "head l = 0" "1 \<le> max_height l" "max_height l \<le> kMaxHeight" "0 < length (nodes l)"
    "node_height (nodes l) 0 = kMaxHeight"
    "\<And>i. i \<in> set ord \<Longrightarrow> 0 < i" "\<And>i. i \<in> set ord \<Longrightarrow> i < length (nodes l)"
    "\<And>i. i \<in> set ord \<Longrightarrow> 1 \<le> node_height (nodes l) i"
    "\<And>i. i \<in> set ord \<Longrightarrow> node_height (nodes l) i \<le> max_height l"
    "sorted_wrt (\<lambda>i j. compare (keyof (nodes l) i) (keyof (nodes l) j) < 0) ord"
    "\<And>lv. lv < kMaxHeight \<Longrightarrow> path (nodes l) lv 0 (chain (nodes l) lv ord)"
  using assms by (auto simp: skip_inv_def Let_def)

lemma chain_append: "chain ns lv (xs @ ys) = chain ns lv xs @ chain ns lv ys"
  by (simp add: chain_def)

lemma chain_mono: "lv' \<le> lv \<Longrightarrow> set (chain ns lv xs) \<subseteq> set (chain ns lv' xs)"
  by (auto simp: chain_def)

lemma chain_0: "skip_inv compare l ord \<Longrightarrow> set xs \<subseteq> set ord \<Longrightarrow> chain (nodes l) 0 xs = xs"
  unfolding chain_def using skip_invD(8) [of compare l ord] by (intro filter_True) fastforce

lemma set_chain: "set (chain ns lv xs) \<subseteq> set xs"
  by (auto simp: chain_def)

context key_order
begin

lemma below_above:
  "sorted_wrt (\<lambda>i j. compare (keyof ns i) (keyof ns j) < 0) ord \<Longrightarrow>
   ord = below compare ns k ord @ above compare ns k ord"
proof (induction ord)
  case Nil
  then show ?case by (simp add: below_def above_def)
next
  case (Cons x xs)
  show ?case
  proof (cases "compare (keyof ns x) k < 0")
    case True
    with Cons show ?thesis by (simp add: below_def above_def)
  next
    case False
    have "\<not> compare (keyof ns y) k < 0" if "y \<in> set xs" for y
      using Cons.prems that less_trans [of "keyof ns x" "keyof ns y" k] False by auto
    then have "below compare ns k xs = []" by (simp add: below_def filter_empty_conv)
    with False Cons show ?thesis by (simp add: below_def above_def)
  qed
qed

lemma level_path:
  assumes "skip_inv compare l ord" and "lv < kMaxHeight"
    and "x \<in> set (0 # chain (nodes l) lv (below compare (nodes l) k ord))"
  obtains ls where "path (nodes l) lv x (ls @ chain (nodes l) lv (above compare (nodes l) k ord))"
    and "last (x # ls) = pred_at compare (nodes l) k ord lv" and "set ls \<subseteq> set (below compare (nodes l) k ord)"
proof -
  let ?lo = "chain (nodes l) lv (below compare (nodes l) k ord)"
  have p: "path (nodes l) lv 0 (?lo @ chain (nodes l) lv (above compare (nodes l) k ord))"
    using skip_invD(11) [OF assms(1,2)] below_above [OF skip_invD(10) [OF assms(1)], of k]
    by (simp add: chain_append [symmetric])
  show ?thesis
  proof (cases "x \<in> set ?lo")
    case True
    then obtain xs ys where xy: "?lo = xs @ x # ys" by (meson split_list)
    have "path (nodes l) lv x (ys @ chain (nodes l) lv (above compare (nodes l) k ord))"
      using path_append [of "nodes l" lv 0 xs x] p xy by simp
    moreover have "last (x # ys) = pred_at compare (nodes l) k ord lv"
      unfolding pred_at_def xy by simp
    moreover have "set ys \<subseteq> set (below compare (nodes l) k ord)"
      using set_chain [of "nodes l" lv "below compare (nodes l) k ord"] xy by auto
    ultimately show ?thesis by (rule that)
  next
    case False
    with assms(3) have "x = 0" by simp
    with p show ?thesis using set_chain [of "nodes l" lv "below compare (nodes l) k ord"]
      by (intro that [of ?lo]) (simp_all add: pred_at_def)
  qed
qed

lemma pred_at_mem:
  "lv' \<le> lv \<Longrightarrow> pred_at compare ns k ord lv \<in> set (0 # chain ns lv' (below compare ns k ord))"
proof -
  assume "lv' \<le> lv"
  have "last (0 # chain ns lv (below compare ns k ord)) \<in> set (0 # chain ns lv (below compare ns k ord))"
    by (rule last_in_set) simp
  moreover have "set (0 # chain ns lv (below compare ns k ord)) \<subseteq> set (0 # chain ns lv' (below compare ns k ord))"
    using chain_mono [OF \<open>lv' \<le> lv\<close>, of ns "below compare ns k ord"] by auto
  ultimately show ?thesis unfolding pred_at_def by (rule rev_subsetD)
qed

lemma below_ok:
  assumes "skip_inv compare l ord" and "i \<in> set (below compare (nodes l) k ord)"
  shows "i < length (nodes l) \<and> compare (keyof (nodes l) i) k < 0"
  using assms(2) skip_invD(7) [OF assms(1)] by (auto simp: below_def)

lemma above_ok:
  assumes "skip_inv compare l ord" and "i \<in> set (chain (nodes l) lv (above compare (nodes l) k ord))"
  shows "i < length (nodes l) \<and> \<not> compare (keyof (nodes l) i) k < 0"
  using assms(2) skip_invD(7) [OF assms(1)] by (auto simp: above_def chain_def)

lemma find_ge_all:
  assumes inv: "skip_inv compare l ord" and "lv < kMaxHeight"
    and "x \<in> set (0 # chain (nodes l) lv (below compare (nodes l) k ord))"
    and "prev = None \<or> (\<exists>p. prev = Some p \<and> length p = kMaxHeight)"
  shows "find_ge_loop compare (nodes l) k x lv prev =
    Some (first (above compare (nodes l) k ord), map_option (fill (pred_at compare (nodes l) k ord) lv) prev)"
  using assms(2,3,4)
proof (induction lv arbitrary: x prev)
  case 0
  let ?ns = "nodes l"
  obtain ls where ls: "path ?ns 0 x (ls @ chain ?ns 0 (above compare ?ns k ord))"
    "last (x # ls) = pred_at compare ?ns k ord 0" "set ls \<subseteq> set (below compare ?ns k ord)"
    using level_path [OF inv "0.prems"(1,2)] .
  have c0: "chain ?ns 0 (above compare ?ns k ord) = above compare ?ns k ord"
    by (rule chain_0 [OF inv]) (auto simp: above_def)
  have "find_ge_loop compare ?ns k x 0 prev =
      do { prev \<leftarrow> set_prev prev 0 (last (x # ls));
        if (0::nat) = 0 then Some (case chain ?ns 0 (above compare ?ns k ord) of [] \<Rightarrow> None | r # _ \<Rightarrow> Some r, prev)
        else find_ge_loop compare ?ns k (last (x # ls)) (0 - 1) prev }"
    using ls(3) below_ok [OF inv] above_ok [OF inv] by (intro find_ge_level [OF ls(1)]) blast+
  then show ?case unfolding ls(2) c0 using "0.prems"(3) by (auto simp: set_prev_def first_def fill_0)
next
  case (Suc lv)
  let ?ns = "nodes l"
  obtain ls where ls: "path ?ns (Suc lv) x (ls @ chain ?ns (Suc lv) (above compare ?ns k ord))"
    "last (x # ls) = pred_at compare ?ns k ord (Suc lv)" "set ls \<subseteq> set (below compare ?ns k ord)"
    using level_path [OF inv Suc.prems(1,2)] .
  have "find_ge_loop compare ?ns k x (Suc lv) prev =
      do { prev \<leftarrow> set_prev prev (Suc lv) (last (x # ls));
        if Suc lv = 0 then Some (case chain ?ns (Suc lv) (above compare ?ns k ord) of [] \<Rightarrow> None | r # _ \<Rightarrow> Some r, prev)
        else find_ge_loop compare ?ns k (last (x # ls)) (Suc lv - 1) prev }"
    using ls(3) below_ok [OF inv] above_ok [OF inv] by (intro find_ge_level [OF ls(1)]) blast+
  moreover have "find_ge_loop compare ?ns k (pred_at compare ?ns k ord (Suc lv)) lv prev' =
      Some (first (above compare ?ns k ord), map_option (fill (pred_at compare ?ns k ord) lv) prev')"
    if "prev' = None \<or> (\<exists>p. prev' = Some p \<and> length p = kMaxHeight)" for prev'
    using Suc.prems(1) that by (intro Suc.IH pred_at_mem) simp_all
  ultimately show ?case unfolding ls(2) using Suc.prems(1,3) by (auto simp: set_prev_def fill_Suc)
qed

lemma FindGreaterOrEqual_spec:
  assumes "skip_inv compare l ord" and "prev = None \<or> (\<exists>p. prev = Some p \<and> length p = kMaxHeight)"
  shows "FindGreaterOrEqual compare l k prev =
    Some (first (above compare (nodes l) k ord), map_option (fill (pred_at compare (nodes l) k ord) (max_height l - 1)) prev)"
  unfolding FindGreaterOrEqual_def skip_invD(1) [OF assms(1)]
  using skip_invD(2,3) [OF assms(1)] assms by (intro find_ge_all) simp_all

lemma find_less_all:
  assumes inv: "skip_inv compare l ord" and "lv < kMaxHeight"
    and "x \<in> set (0 # chain (nodes l) lv (below compare (nodes l) k ord))"
  shows "find_less_loop compare (nodes l) 0 k x lv = Some (pred_at compare (nodes l) k ord 0)"
  using assms(2,3)
proof (induction lv arbitrary: x)
  case 0
  obtain ls where ls: "path (nodes l) 0 x (ls @ chain (nodes l) 0 (above compare (nodes l) k ord))"
    "last (x # ls) = pred_at compare (nodes l) k ord 0" "set ls \<subseteq> set (below compare (nodes l) k ord)"
    using level_path [OF inv 0] .
  have x: "x < length (nodes l)" "x = 0 \<or> compare (keyof (nodes l) x) k < 0"
    using "0.prems"(2) below_ok [OF inv, of x k] skip_invD(4) [OF inv] by (auto simp: chain_def)
  have "find_less_loop compare (nodes l) 0 k x 0 = (if (0::nat) = 0 then Some (last (x # ls))
      else find_less_loop compare (nodes l) 0 k (last (x # ls)) (0 - 1))"
    using ls(3) below_ok [OF inv] above_ok [OF inv] x by (intro find_less_level [OF ls(1)]) blast+
  with ls(2) show ?case by simp
next
  case (Suc lv)
  obtain ls where ls: "path (nodes l) (Suc lv) x (ls @ chain (nodes l) (Suc lv) (above compare (nodes l) k ord))"
    "last (x # ls) = pred_at compare (nodes l) k ord (Suc lv)" "set ls \<subseteq> set (below compare (nodes l) k ord)"
    using level_path [OF inv Suc.prems] .
  have x: "x < length (nodes l)" "x = 0 \<or> compare (keyof (nodes l) x) k < 0"
    using Suc.prems(2) below_ok [OF inv, of x k] skip_invD(4) [OF inv] by (auto simp: chain_def)
  have "find_less_loop compare (nodes l) 0 k x (Suc lv) = (if Suc lv = 0 then Some (last (x # ls))
      else find_less_loop compare (nodes l) 0 k (last (x # ls)) (Suc lv - 1))"
    using ls(3) below_ok [OF inv] above_ok [OF inv] x by (intro find_less_level [OF ls(1)]) blast+
  moreover have "find_less_loop compare (nodes l) 0 k (pred_at compare (nodes l) k ord (Suc lv)) lv =
      Some (pred_at compare (nodes l) k ord 0)"
    using Suc.prems(1) by (intro Suc.IH pred_at_mem) simp_all
  ultimately show ?case using ls(2) by simp
qed

lemma FindLessThan_spec:
  assumes "skip_inv compare l ord"
  shows "FindLessThan compare l k = Some (last (0 # below compare (nodes l) k ord))"
proof -
  have "chain (nodes l) 0 (below compare (nodes l) k ord) = below compare (nodes l) k ord"
    by (rule chain_0 [OF assms]) (auto simp: below_def)
  then have "pred_at compare (nodes l) k ord 0 = last (0 # below compare (nodes l) k ord)" by (simp add: pred_at_def)
  moreover have "FindLessThan compare l k = Some (pred_at compare (nodes l) k ord 0)"
    unfolding FindLessThan_def skip_invD(1) [OF assms]
    using skip_invD(2,3) [OF assms] by (intro find_less_all [OF assms]) simp_all
  ultimately show ?thesis by simp
qed

end

lemma path_suffix:
  assumes "path ns lv a bs" and "x \<in> set (a # bs)"
  obtains cs where "path ns lv x cs" and "last (x # cs) = last (a # bs)"
proof (cases "x = a")
  case True
  with assms(1) show ?thesis by (intro that [of bs]) simp_all
next
  case False
  with assms(2) obtain xs ys where bs: "bs = xs @ x # ys" by (meson set_ConsD split_list)
  with path_append assms(1) show ?thesis by (intro that [of ys]) auto
qed

lemma find_last_all:
  assumes inv: "skip_inv compare l ord" and "lv < kMaxHeight" and "x \<in> set (0 # chain (nodes l) lv ord)"
  shows "find_last_loop (nodes l) x lv = Some (last (0 # ord))"
  using assms(2,3)
proof (induction lv arbitrary: x)
  case 0
  obtain cs where "path (nodes l) 0 x cs" "last (x # cs) = last (0 # chain (nodes l) 0 ord)"
    using path_suffix [OF skip_invD(11) [OF inv "0.prems"(1)] "0.prems"(2)] .
  then show ?case using find_last_level [of "nodes l" 0 x cs] chain_0 [OF inv subset_refl] by simp
next
  case (Suc lv)
  obtain cs where cs: "path (nodes l) (Suc lv) x cs" "last (x # cs) = last (0 # chain (nodes l) (Suc lv) ord)"
    using path_suffix [OF skip_invD(11) [OF inv Suc.prems(1)] Suc.prems(2)] .
  have "last (0 # chain (nodes l) (Suc lv) ord) \<in> set (0 # chain (nodes l) (Suc lv) ord)"
    by (rule last_in_set) simp
  then have "last (x # cs) \<in> set (0 # chain (nodes l) lv ord)"
    unfolding cs(2) using chain_mono [of lv "Suc lv" "nodes l" ord] by auto
  then have "find_last_loop (nodes l) (last (x # cs)) lv = Some (last (0 # ord))"
    using Suc.prems(1) by (intro Suc.IH) simp_all
  then show ?case using find_last_level [OF cs(1)] by simp
qed

lemma FindLast_spec: "skip_inv compare l ord \<Longrightarrow> FindLast l = Some (last (0 # ord))"
  unfolding FindLast_def using skip_invD(1,2,3) [of compare l ord] find_last_all [of compare l ord "max_height l - 1" 0]
  by auto

subsection \<open>Insertion\<close>

lemma RandomHeight_range: "1 \<le> fst (RandomHeight r)" "fst (RandomHeight r) \<le> kMaxHeight"
proof -
  have "h \<le> fst (height_loop n r h) \<and> fst (height_loop n r h) \<le> h + n" for n r h
  proof (induction n arbitrary: r h)
    case (Suc n)
    obtain v r' where r': "Random_Next r = (v, r')" by fastforce
    show ?case using Suc.IH [where r = r' and h = "h + 1"] by (auto simp: r')
  qed simp
  from this [of 1 "kMaxHeight - 1" r] show "1 \<le> fst (RandomHeight r)" "fst (RandomHeight r) \<le> kMaxHeight"
    by (simp_all add: RandomHeight_def)
qed

lemma raise_prev_nth:
  "length (raise_prev from h x0 p) = length p"
  "j < length p \<Longrightarrow> raise_prev from h x0 p ! j = (if from \<le> j \<and> j < h then Some x0 else p ! j)"
proof -
  have "length (fold (\<lambda>i p. p[i := Some x0]) xs p) = length p \<and>
    (\<forall>j<length p. fold (\<lambda>i p. p[i := Some x0]) xs p ! j = (if j \<in> set xs then Some x0 else p ! j))" for xs
    by (induction xs arbitrary: p) (auto simp: nth_list_update)
  from this [of "[from..<h]"] show "length (raise_prev from h x0 p) = length p"
    "j < length p \<Longrightarrow> raise_prev from h x0 p ! j = (if from \<le> j \<and> j < h then Some x0 else p ! j)"
    by (simp_all add: raise_prev_def)
qed

text \<open>What the linking loop does to the links, for the first \<open>j\<close> levels.\<close>

definition linked :: "nat \<Rightarrow> (nat \<Rightarrow> nat) \<Rightarrow> nat \<Rightarrow> 'k node list \<Rightarrow> 'k node list \<Rightarrow> bool" where
  "linked n f j ns ns' \<longleftrightarrow> length ns' = length ns \<and>
    (\<forall>i. keyof ns' i = keyof ns i \<and> node_height ns' i = node_height ns i) \<and>
    (\<forall>b lv. Node_Next ns' b lv =
       (if lv < j then if b = n then Node_Next ns (f lv) lv else if b = f lv then Some (Some n) else Node_Next ns b lv
        else Node_Next ns b lv))"

lemma link_step:
  assumes "linked n f j ns ns1" and "f j \<noteq> n" and "Node_Next ns (f j) j = Some v"
    and "Node_SetNext ns1 n j v = Some ns2" and "Node_SetNext ns2 (f j) j (Some n) = Some ns3"
  shows "linked n f (Suc j) ns ns3"
proof -
  note s2 = SetNext_next [OF assms(4)] and s3 = SetNext_next [OF assms(5)]
  have l: "Node_Next ns1 b lv =
       (if lv < j then if b = n then Node_Next ns (f lv) lv else if b = f lv then Some (Some n) else Node_Next ns b lv
        else Node_Next ns b lv)" for b lv
    using assms(1) by (simp add: linked_def)
  have "Node_Next ns3 b lv =
       (if lv < Suc j then if b = n then Node_Next ns (f lv) lv else if b = f lv then Some (Some n) else Node_Next ns b lv
        else Node_Next ns b lv)" for b lv
    unfolding s3(1) s2(1) l using assms(2,3) by (cases "lv = j") auto
  then show ?thesis using assms(1) s2(2-4) s3(2-4) by (simp add: linked_def)
qed

lemma link_loop_spec:
  assumes "\<And>i. i < j \<Longrightarrow> i < length prev \<and> prev ! i = Some (f i) \<and> f i \<noteq> n \<and> Node_Next ns (f i) i \<noteq> None"
    and "n < length ns" and "j \<le> node_height ns n"
  shows "\<exists>ns'. link_loop prev n j ns = Some ns' \<and> linked n f j ns ns'"
  using assms(1,3)
proof (induction j)
  case 0
  then show ?case by (simp add: linked_def)
next
  case (Suc j)
  have "\<exists>ns'. link_loop prev n j ns = Some ns' \<and> linked n f j ns ns'"
    using Suc.prems by (intro Suc.IH) auto
  then obtain ns1 where ns1: "link_loop prev n j ns = Some ns1" "linked n f j ns ns1" by blast
  have f: "j < length prev" "prev ! j = Some (f j)" "f j \<noteq> n" using Suc.prems(1) [of j] by auto
  obtain v where v: "Node_Next ns (f j) j = Some v" using Suc.prems(1) [of j] by auto
  then have fj: "f j < length ns" "j < node_height ns (f j)" by (auto simp: Node_Next_def split: if_splits)
  have v1: "Node_Next ns1 (f j) j = Some v" using ns1(2) v f(3) by (simp add: linked_def)
  obtain ns2 where ns2: "Node_SetNext ns1 n j v = Some ns2"
    using SetNext_Some [of n ns1 j v] ns1(2) assms(2) Suc.prems(2) by (auto simp: linked_def)
  obtain ns3 where ns3: "Node_SetNext ns2 (f j) j (Some n) = Some ns3"
    using SetNext_Some [of "f j" ns2 j "Some n"] SetNext_next(2,4) [OF ns2] ns1(2) fj by (auto simp: linked_def)
  have "link_loop prev n (Suc j) ns = Some ns3" using ns1(1) f v1 ns2 ns3 by simp
  with link_step [OF ns1(2) f(3) v ns2 ns3] show ?case by blast
qed

lemma NewNode_links:
  assumes "NewNode ns k h = (n, ns0)"
  shows "n = length ns" "length ns0 = Suc n" "keyof ns0 n = k" "node_height ns0 n = h"
    "\<And>i. i < n \<Longrightarrow> ns0 ! i = ns ! i" "\<And>i lv. i < n \<Longrightarrow> Node_Next ns0 i lv = Node_Next ns i lv"
  using assms by (auto simp: NewNode_def Node_Next_def nth_append)

text \<open>The array of predecessors after the levels above \<^verbatim>\<open>max_height_\<close> have been set to the head.\<close>

definition insert_prev :: "('k \<Rightarrow> 'k \<Rightarrow> int) \<Rightarrow> 'k skiplist \<Rightarrow> nat list \<Rightarrow> 'k \<Rightarrow> nat \<Rightarrow> nat option list" where
  "insert_prev cmp l ord k h =
     (let p = fill (pred_at cmp (nodes l) k ord) (max_height l - 1) (replicate kMaxHeight None)
      in if h > max_height l then raise_prev (max_height l) h (head l) p else p)"

context key_order
begin

lemma inv_distinct:
  assumes "skip_inv compare l ord"
  shows "distinct (0 # ord)"
proof -
  have "distinct ord" using skip_invD(10) [OF assms]
  proof (induction ord)
    case (Cons i js)
    then show ?case using self by fastforce
  qed simp
  then show ?thesis using skip_invD(6) [OF assms] by auto
qed

text \<open>The predecessors that the search finds are where the new node is linked in.\<close>

lemma pred_at_next:
  assumes "skip_inv compare l ord" and "lv < kMaxHeight"
  shows "Node_Next (nodes l) (pred_at compare (nodes l) k ord lv) lv \<noteq> None"
    and "pred_at compare (nodes l) k ord lv < length (nodes l)"
proof -
  obtain ls where "path (nodes l) lv (pred_at compare (nodes l) k ord lv) (ls @ chain (nodes l) lv (above compare (nodes l) k ord))"
    using level_path [OF assms pred_at_mem [OF order_refl]] by blast
  from path_next [OF this] show n: "Node_Next (nodes l) (pred_at compare (nodes l) k ord lv) lv \<noteq> None" by simp
  then show "pred_at compare (nodes l) k ord lv < length (nodes l)" by (auto simp: Node_Next_def split: if_splits)
qed

text \<open>Linking node \<open>n\<close> of height \<open>h\<close> behind its predecessors keeps the invariant.\<close>

lemma linked_path:
  assumes inv: "skip_inv compare l ord" and "NewNode (nodes l) k h = (n, ns0)"
    and "linked n (pred_at compare (nodes l) k ord) h ns0 ns'" and lv: "lv < kMaxHeight"
  shows "path ns' lv 0 (chain ns' lv (below compare (nodes l) k ord @ n # above compare (nodes l) k ord))"
proof -
  let ?lo = "below compare (nodes l) k ord" and ?hi = "above compare (nodes l) k ord"
  note nw = NewNode_links [OF assms(2)]
  have ord: "ord = ?lo @ ?hi" by (rule below_above [OF skip_invD(10) [OF inv]])
  have small: "i < n" if "i \<in> set (0 # ord)" for i
    using that skip_invD(4,7) [OF inv] nw(1) by auto
  have height: "node_height ns' i = node_height (nodes l) i" if "i < n" for i
    using assms(3) nw(5) [OF that] by (simp add: linked_def)
  have ch: "chain ns' lv xs = chain (nodes l) lv xs" if "set xs \<subseteq> set ord" for xs
    unfolding chain_def using that small height by (intro filter_cong) auto
  have sub: "set ?lo \<subseteq> set ord" "set ?hi \<subseteq> set ord" by (auto simp: below_def above_def)
  have old: "Node_Next ns0 i lv = Node_Next (nodes l) i lv" if "i \<in> set (0 # ord)" for i
    using nw(6) small [OF that] by simp
  have "path (nodes l) lv 0 (chain (nodes l) lv ?lo @ chain (nodes l) lv ?hi)"
    using skip_invD(11) [OF inv lv] ord by (metis chain_append)
  then have p0: "path ns0 lv 0 (chain (nodes l) lv ?lo @ chain (nodes l) lv ?hi)"
    using old sub set_chain [of "nodes l" lv] by (subst path_cong [where ns = "nodes l"]) (auto, blast+)
  have nxt: "Node_Next ns' b lv =
       (if lv < h then if b = n then Node_Next ns0 (pred_at compare (nodes l) k ord lv) lv
          else if b = pred_at compare (nodes l) k ord lv then Some (Some n) else Node_Next ns0 b lv
        else Node_Next ns0 b lv)" for b
    using assms(3) by (simp add: linked_def)
  show ?thesis
  proof (cases "lv < h")
    case True
    have dist: "distinct (0 # chain (nodes l) lv ?lo @ chain (nodes l) lv ?hi)"
    proof -
      have "distinct (0 # chain (nodes l) lv ord)"
        using inv_distinct [OF inv] by (auto simp: chain_def)
      then show ?thesis using ord by (metis chain_append)
    qed
    have notin: "n \<notin> set (0 # chain (nodes l) lv ?lo @ chain (nodes l) lv ?hi)"
      using small sub by (auto simp: chain_def)
    have last: "last (0 # chain (nodes l) lv ?lo) = pred_at compare (nodes l) k ord lv" by (simp add: pred_at_def)
    have "pred_at compare (nodes l) k ord lv \<noteq> n" using pred_at_next(2) [OF inv lv, of k] nw(1) by simp
    then have "path ns' lv 0 (chain (nodes l) lv ?lo @ n # chain (nodes l) lv ?hi)"
      using True by (intro path_link [OF p0 dist notin]) (simp_all add: nxt last del: last.simps)
    moreover have "lv < node_height ns' n" using True assms(3) nw(4) by (simp add: linked_def)
    ultimately show ?thesis using ch [OF sub(1)] ch [OF sub(2)] by (simp add: chain_def)
  next
    case False
    then have "\<not> lv < node_height ns' n" using assms(3) nw(4) by (simp add: linked_def)
    then have "chain ns' lv (?lo @ n # ?hi) = chain (nodes l) lv ?lo @ chain (nodes l) lv ?hi"
      using ch [OF sub(1)] ch [OF sub(2)] by (simp add: chain_def)
    then show ?thesis using p0 False nxt by (simp add: path_cong [of _ _ ns' lv ns0])
  qed
qed

lemma insert_sorted_wrt:
  assumes "sorted_wrt (\<lambda>i j. compare (g i) (g j) < 0) ord" and "\<forall>i\<in>set ord. compare (g i) k \<noteq> 0"
  shows "sorted_wrt (\<lambda>a b. compare a b < 0)
    (filter (\<lambda>a. compare a k < 0) (map g ord) @ k # filter (\<lambda>a. \<not> compare a k < 0) (map g ord))"
proof -
  have "compare k (g i) < 0" if "i \<in> set ord" "\<not> compare (g i) k < 0" for i
    using that assms(2) not_less [of "g i" k] equal_sym [of k "g i"] by (metis order_le_imp_less_or_eq)
  moreover have "compare (g i) (g j) < 0" if "compare (g i) k < 0" "\<not> compare (g j) k < 0" for i j
    using that not_less [of "g j" k] less_le_trans by blast
  ultimately show ?thesis
    using assms(1) by (auto simp: sorted_wrt_append sorted_wrt_map filter_map o_def intro: sorted_wrt_filter)
qed

lemma insert_prev_nth:
  assumes inv: "skip_inv compare l ord" and "i < h" and "h \<le> kMaxHeight"
  shows "i < length (insert_prev compare l ord k h)"
    and "insert_prev compare l ord k h ! i = Some (pred_at compare (nodes l) k ord i)"
proof -
  show "i < length (insert_prev compare l ord k h)"
    using assms(2,3) by (simp add: insert_prev_def Let_def raise_prev_nth fill_def)
  show "insert_prev compare l ord k h ! i = Some (pred_at compare (nodes l) k ord i)"
  proof (cases "i < max_height l")
    case True
    then show ?thesis using assms(2,3) by (simp add: insert_prev_def Let_def raise_prev_nth fill_def)
  next
    case False
    have "chain (nodes l) i (below compare (nodes l) k ord) = []"
      using skip_invD(9) [OF inv] False by (fastforce simp: chain_def filter_empty_conv below_def)
    then have "pred_at compare (nodes l) k ord i = 0" by (simp add: pred_at_def)
    with False assms(2,3) skip_invD(1) [OF inv] show ?thesis
      by (simp add: insert_prev_def Let_def raise_prev_nth fill_def)
  qed
qed

lemma insert_links:
  assumes inv: "skip_inv compare l ord" and nn: "NewNode (nodes l) k h = (n, ns0)" and h: "h \<le> kMaxHeight"
  shows "\<exists>ns'. link_loop (insert_prev compare l ord k h) n h ns0 = Some ns' \<and>
    linked n (pred_at compare (nodes l) k ord) h ns0 ns'"
proof (rule link_loop_spec)
  note nw = NewNode_links [OF nn]
  show "n < length ns0" "h \<le> node_height ns0 n" using nw by simp_all
  fix i assume i: "i < h"
  then have "i < kMaxHeight" using h by simp
  from pred_at_next [OF inv this, of k] insert_prev_nth [OF inv i h, of k]
  show "i < length (insert_prev compare l ord k h) \<and>
      insert_prev compare l ord k h ! i = Some (pred_at compare (nodes l) k ord i) \<and>
      pred_at compare (nodes l) k ord i \<noteq> n \<and> Node_Next ns0 (pred_at compare (nodes l) k ord i) i \<noteq> None"
    using nw(1,6) by simp
qed

lemma linked_keys:
  assumes "NewNode (nodes l) k h = (n, ns0)" and "linked n f h ns0 ns'"
  shows "length ns' = Suc n" "n = length (nodes l)" "keyof ns' n = k" "node_height ns' n = h"
    "\<And>i. i < n \<Longrightarrow> keyof ns' i = keyof (nodes l) i"
    "\<And>i. i < n \<Longrightarrow> node_height ns' i = node_height (nodes l) i"
  using NewNode_links [OF assms(1)] assms(2) by (simp_all add: linked_def)

lemma linked_sorted:
  assumes inv: "skip_inv compare l ord" and new: "\<forall>i\<in>set ord. compare (keyof (nodes l) i) k \<noteq> 0"
    and nn: "NewNode (nodes l) k h = (n, ns0)" and ln: "linked n f h ns0 ns'"
  shows "sorted_wrt (\<lambda>i j. compare (keyof ns' i) (keyof ns' j) < 0)
    (below compare (nodes l) k ord @ n # above compare (nodes l) k ord)"
proof -
  note K = linked_keys [OF nn ln]
  have lt: "i < n" if "i \<in> set ord" for i using that skip_invD(7) [OF inv] K(2) by simp
  have "map (keyof ns') (below compare (nodes l) k ord @ n # above compare (nodes l) k ord) =
      filter (\<lambda>a. compare a k < 0) (map (keyof (nodes l)) ord) @ k # filter (\<lambda>a. \<not> compare a k < 0) (map (keyof (nodes l)) ord)"
    using K(3,5) lt by (auto simp: below_def above_def filter_map o_def)
  then have "sorted_wrt (\<lambda>a b. compare a b < 0) (map (keyof ns') (below compare (nodes l) k ord @ n # above compare (nodes l) k ord))"
    using insert_sorted_wrt [OF skip_invD(10) [OF inv] new] by simp
  then show ?thesis unfolding sorted_wrt_map .
qed

lemma linked_inv:
  assumes inv: "skip_inv compare l ord" and new: "\<forall>i\<in>set ord. compare (keyof (nodes l) i) k \<noteq> 0"
    and nn: "NewNode (nodes l) k h = (n, ns0)" and ln: "linked n (pred_at compare (nodes l) k ord) h ns0 ns'"
    and h: "1 \<le> h" "h \<le> kMaxHeight"
  shows "skip_inv compare (l\<lparr>nodes := ns', max_height := (if h > max_height l then h else max_height l), rnd := r\<rparr>)
    (below compare (nodes l) k ord @ n # above compare (nodes l) k ord)"
proof -
  let ?mh = "if h > max_height l then h else max_height l"
  note K = linked_keys [OF nn ln] and D = skip_invD [OF inv]
  have mem: "0 < i \<and> i < length ns' \<and> 1 \<le> node_height ns' i \<and> node_height ns' i \<le> ?mh"
    if "i \<in> set (below compare (nodes l) k ord @ n # above compare (nodes l) k ord)" for i
  proof (cases "i = n")
    case True
    then show ?thesis using D(4) K(1,2,4) h by auto
  next
    case False
    with that have "i \<in> set ord" by (auto simp: below_def above_def)
    then show ?thesis using D(6,7,8,9) [of i] K(1,2,6) by auto
  qed
  have "node_height ns' 0 = kMaxHeight" using K(2,6) D(4,5) by simp
  then show ?thesis
    unfolding skip_inv_def Let_def
    using D(1,2,3) h K(1) mem linked_sorted [OF inv new nn ln] linked_path [OF inv nn ln] by auto
qed

text \<open>The whole of \<^verbatim>\<open>Insert\<close>, for a key that is not in the list yet.\<close>

lemma Insert_spec:
  assumes inv: "skip_inv compare l ord" and new: "\<forall>i\<in>set ord. compare (keyof (nodes l) i) k \<noteq> 0"
  shows "\<exists>l'. SkipList_Insert compare l k = Some l' \<and>
    skip_inv compare l' (below compare (nodes l) k ord @ length (nodes l) # above compare (nodes l) k ord) \<and>
    (\<forall>i<length (nodes l). keyof (nodes l') i = keyof (nodes l) i) \<and> keyof (nodes l') (length (nodes l)) = k"
proof -
  let ?hi = "above compare (nodes l) k ord"
  obtain h r where hr: "RandomHeight (rnd l) = (h, r)" by fastforce
  then have h: "1 \<le> h" "h \<le> kMaxHeight" using RandomHeight_range [of "rnd l"] by simp_all
  obtain n ns0 where nn: "NewNode (nodes l) k h = (n, ns0)" by fastforce
  obtain ns' where ns': "link_loop (insert_prev compare l ord k h) n h ns0 = Some ns'"
    "linked n (pred_at compare (nodes l) k ord) h ns0 ns'"
    using insert_links [OF inv nn h(2)] by blast
  note K = linked_keys [OF nn ns'(2)]
  have dup: "(case first ?hi of None \<Rightarrow> Some False | Some x \<Rightarrow> map_option (\<lambda>k'. compare k k' = 0) (Node_key (nodes l) x)) = Some False"
  proof (cases ?hi)
    case (Cons x xs)
    then have "x \<in> set ?hi" by simp
    then have "x \<in> set ord" by (simp add: above_def)
    then show ?thesis using Cons skip_invD(7) [OF inv] new equal_sym [of k] by (simp add: first_def Node_key_def)
  qed (simp add: first_def)
  have "SkipList_Insert compare l k =
      Some (l\<lparr>nodes := ns', max_height := (if h > max_height l then h else max_height l), rnd := r\<rparr>)"
    using dup ns'(1)
    by (simp add: SkipList_Insert_def FindGreaterOrEqual_spec [OF inv] hr nn insert_prev_def Let_def)
  with linked_inv [OF inv new nn ns'(2) h] K show ?thesis by auto
qed

text \<open>An equal key can only be the first one that is not below.\<close>

lemma first_above_equal:
  assumes inv: "skip_inv compare l ord"
  shows "(case first (above compare (nodes l) k ord) of None \<Rightarrow> Some False
       | Some x \<Rightarrow> map_option (\<lambda>k'. compare k k' = 0) (Node_key (nodes l) x)) =
    Some (\<exists>i\<in>set ord. compare (keyof (nodes l) i) k = 0)"
proof -
  let ?hi = "above compare (nodes l) k ord"
  have hi: "i \<in> set ?hi" if "i \<in> set ord" "compare (keyof (nodes l) i) k = 0" for i
    using that by (simp add: above_def)
  show ?thesis
  proof (cases ?hi)
    case Nil
    then show ?thesis using hi by (auto simp: first_def)
  next
    case (Cons x xs)
    then have x: "x \<in> set ord" "\<not> compare (keyof (nodes l) x) k < 0"
      by (metis (no_types, lifting) above_def filter_eq_Cons_iff in_set_conv_decomp)+
    have "compare (keyof (nodes l) x) k = 0" if "i \<in> set ord" "compare (keyof (nodes l) i) k = 0" for i
    proof (rule ccontr)
      assume ne: "compare (keyof (nodes l) x) k \<noteq> 0"
      have "i \<in> set xs" using hi [OF that] Cons that ne by auto
      moreover have "sorted_wrt (\<lambda>i j. compare (keyof (nodes l) i) (keyof (nodes l) j) < 0) ?hi"
        unfolding above_def by (rule sorted_wrt_filter [OF skip_invD(10) [OF inv]])
      ultimately have "compare (keyof (nodes l) x) (keyof (nodes l) i) < 0" using Cons by simp
      then show False using x(2) that(2) less_le_trans by fastforce
    qed
    then show ?thesis using Cons x(1) skip_invD(7) [OF inv] equal_sym [of k]
      by (auto simp: first_def Node_key_def)
  qed
qed

lemma Insert_dup:
  assumes inv: "skip_inv compare l ord" and "i \<in> set ord" and "compare (keyof (nodes l) i) k = 0"
  shows "SkipList_Insert compare l k = None"
  using assms(2,3) first_above_equal [OF inv, of k]
  by (auto simp: SkipList_Insert_def FindGreaterOrEqual_spec [OF inv])

lemma Contains_spec:
  assumes inv: "skip_inv compare l ord"
  shows "SkipList_Contains compare l k = Some (\<exists>i\<in>set ord. compare (keyof (nodes l) i) k = 0)"
  using first_above_equal [OF inv, of k]
  by (simp add: SkipList_Contains_def FindGreaterOrEqual_spec [OF inv])

lemma Seek_spec: "skip_inv compare l ord \<Longrightarrow> Iterator_Seek compare l k = Some (first (above compare (nodes l) k ord))"
  by (simp add: Iterator_Seek_def FindGreaterOrEqual_spec)

lemma Prev_spec:
  assumes inv: "skip_inv compare l (xs @ x # ys)"
  shows "Iterator_Prev compare l (Some x) = Some (if xs = [] then None else Some (last xs))"
proof -
  let ?ns = "nodes l"
  have x: "x < length ?ns" using skip_invD(7) [OF inv, of x] by simp
  note s = skip_invD(10) [OF inv]
  have "below compare ?ns (keyof ?ns x) xs = xs"
    unfolding below_def using s by (intro filter_True) (auto simp: sorted_wrt_append)
  moreover have "below compare ?ns (keyof ?ns x) (x # ys) = []"
    unfolding below_def using s sym [of "keyof ?ns x"] self [of "keyof ?ns x"]
    by (fastforce simp: sorted_wrt_append filter_empty_conv)
  ultimately have "below compare ?ns (keyof ?ns x) (xs @ x # ys) = xs" by (simp add: below_def)
  moreover have "last xs \<noteq> 0" if "xs \<noteq> []" using skip_invD(6) [OF inv, of "last xs"] that by simp
  ultimately show ?thesis
    using x by (cases "xs = []") (simp_all add: Iterator_Prev_def Node_key_def FindLessThan_spec [OF inv] not_head_def skip_invD(1) [OF inv])
qed

end

lemma SeekToFirst_spec: "skip_inv compare l ord \<Longrightarrow> Iterator_SeekToFirst l = Some (first ord)"
  using path_next [OF skip_invD(11) [of compare l ord 0]] skip_invD(1) [of compare l ord] chain_0 [of compare l ord ord]
  by (simp add: Iterator_SeekToFirst_def first_def)

lemma SeekToLast_spec:
  assumes inv: "skip_inv compare l ord"
  shows "Iterator_SeekToLast l = Some (if ord = [] then None else Some (last ord))"
proof -
  have "last ord \<noteq> 0" if "ord \<noteq> []" using skip_invD(6) [OF inv, of "last ord"] that by simp
  then show ?thesis by (cases "ord = []") (simp_all add: Iterator_SeekToLast_def FindLast_spec [OF inv] not_head_def skip_invD(1) [OF inv])
qed

lemma Next_spec:
  assumes inv: "skip_inv compare l (xs @ x # ys)"
  shows "Iterator_Next l (Some x) = Some (first ys)"
proof -
  have "path (nodes l) 0 0 (xs @ x # ys)" using skip_invD(11) [OF inv, of 0] chain_0 [OF inv subset_refl] by simp
  from path_next [OF path_append [OF this]] show ?thesis by (simp add: Iterator_Next_def first_def)
qed

subsection \<open>The empty list\<close>

lemma null_links_spec:
  "n \<le> node_height ns x \<Longrightarrow> x < length ns \<Longrightarrow>
   \<exists>ns'. null_links ns x n = Some ns' \<and> length ns' = length ns \<and> node_height ns' x = node_height ns x \<and>
     (\<forall>lv<n. Node_Next ns' x lv = Some None)"
proof (induction n)
  case (Suc n)
  then obtain ns1 where ns1: "null_links ns x n = Some ns1" "length ns1 = length ns"
    "node_height ns1 x = node_height ns x" "\<forall>lv<n. Node_Next ns1 x lv = Some None" by auto
  obtain ns2 where ns2: "Node_SetNext ns1 x n None = Some ns2" using SetNext_Some [of x ns1 n None] Suc.prems ns1 by auto
  from SetNext_next [OF ns2] ns1 ns2 show ?case by (auto simp: less_Suc_eq)
qed simp

lemma SkipList_init_inv: "\<exists>l. SkipList_init k = Some l \<and> skip_inv compare l []"
proof -
  let ?ns = "[\<lparr>key = k, links = replicate kMaxHeight None\<rparr>]"
  obtain ns' where "null_links ?ns 0 kMaxHeight = Some ns'" "length ns' = 1" "node_height ns' 0 = kMaxHeight"
    "\<forall>lv<kMaxHeight. Node_Next ns' 0 lv = Some None"
    using null_links_spec [of kMaxHeight ?ns 0] by auto
  then show ?thesis by (auto simp: SkipList_init_def NewNode_def skip_inv_def chain_def)
qed

subsection \<open>The skip list as a sorted list of keys\<close>

text \<open>
  The abstract container: the keys in order. A client sees a skip list only through \<open>skip_abs\<close>, and the
  operations implement insertion into, search in and traversal of the sorted list.
\<close>

definition skip_abs :: "('k \<Rightarrow> 'k \<Rightarrow> int) \<Rightarrow> 'k skiplist \<Rightarrow> 'k list \<Rightarrow> bool" where
  "skip_abs compare l ks \<longleftrightarrow> (\<exists>ord. skip_inv compare l ord \<and> skip_keys l ord = ks)"

definition insert_key :: "('k \<Rightarrow> 'k \<Rightarrow> int) \<Rightarrow> 'k \<Rightarrow> 'k list \<Rightarrow> 'k list" where
  "insert_key compare k ks = filter (\<lambda>k'. compare k' k < 0) ks @ k # filter (\<lambda>k'. \<not> compare k' k < 0) ks"

definition at_key :: "'k skiplist \<Rightarrow> nat option \<Rightarrow> 'k list \<Rightarrow> bool" where
  "at_key l it ks \<longleftrightarrow> (case ks of [] \<Rightarrow> it = None | k # _ \<Rightarrow> it \<noteq> None \<and> Iterator_key l it = Some k)"

lemma set_insert_key [simp]: "set (insert_key compare k ks) = insert k (set ks)"
  by (auto simp: insert_key_def)

lemma skip_abs_sorted: "skip_abs compare l ks \<Longrightarrow> sorted_wrt (\<lambda>a b. compare a b < 0) ks"
  using skip_invD(10) by (fastforce simp: skip_abs_def skip_keys_def sorted_wrt_map)

lemma skip_abs_init: "\<exists>l. SkipList_init k = Some l \<and> skip_abs compare l []"
  using SkipList_init_inv [of k compare] by (auto simp: skip_abs_def skip_keys_def)

lemma at_key_first:
  assumes "skip_inv compare l ord" and "set ord' \<subseteq> set ord"
  shows "at_key l (first ord') (map (keyof (nodes l)) ord')"
proof (cases ord')
  case (Cons i tl)
  then have "i < length (nodes l)" using assms skip_invD(7) [OF assms(1), of i] by simp
  then show ?thesis using Cons by (simp add: at_key_def first_def Iterator_key_def Node_key_def)
qed (simp add: at_key_def first_def)

lemma abs_SeekToFirst:
  assumes "skip_abs compare l ks"
  shows "\<exists>it. Iterator_SeekToFirst l = Some it \<and> at_key l it ks"
proof -
  obtain ord where ord: "skip_inv compare l ord" "skip_keys l ord = ks" using assms by (auto simp: skip_abs_def)
  then show ?thesis using SeekToFirst_spec [OF ord(1)] at_key_first [OF ord(1), of ord] by (auto simp: skip_keys_def)
qed

context key_order
begin

lemma abs_Insert:
  assumes "skip_abs compare l ks" and "\<forall>k'\<in>set ks. compare k' k \<noteq> 0"
  shows "\<exists>l'. SkipList_Insert compare l k = Some l' \<and> skip_abs compare l' (insert_key compare k ks)"
proof -
  obtain ord where ord: "skip_inv compare l ord" "skip_keys l ord = ks" using assms(1) by (auto simp: skip_abs_def)
  have "\<forall>i\<in>set ord. compare (keyof (nodes l) i) k \<noteq> 0" using assms(2) ord(2) by (auto simp: skip_keys_def)
  from Insert_spec [OF ord(1) this] obtain l' where l': "SkipList_Insert compare l k = Some l'"
    "skip_inv compare l' (below compare (nodes l) k ord @ length (nodes l) # above compare (nodes l) k ord)"
    "\<forall>i<length (nodes l). keyof (nodes l') i = keyof (nodes l) i" "keyof (nodes l') (length (nodes l)) = k"
    by blast
  have "keyof (nodes l') i = keyof (nodes l) i" if "i \<in> set ord" for i
    using l'(3) skip_invD(7) [OF ord(1) that] by simp
  then have "skip_keys l' (below compare (nodes l) k ord @ length (nodes l) # above compare (nodes l) k ord) =
      insert_key compare k ks"
    using l'(4) ord(2) [symmetric]
    by (simp add: skip_keys_def insert_key_def below_def above_def filter_map comp_def cong: map_cong)
  with l'(1,2) show ?thesis by (auto simp: skip_abs_def)
qed

lemma abs_Insert_dup:
  assumes "skip_abs compare l ks" and "k' \<in> set ks" and "compare k' k = 0"
  shows "SkipList_Insert compare l k = None"
  using assms Insert_dup by (auto simp: skip_abs_def skip_keys_def)

lemma abs_Contains:
  assumes "skip_abs compare l ks"
  shows "SkipList_Contains compare l k = Some (\<exists>k'\<in>set ks. compare k' k = 0)"
  using assms Contains_spec by (auto simp: skip_abs_def skip_keys_def)

lemma abs_Seek:
  assumes "skip_abs compare l ks"
  shows "\<exists>it. Iterator_Seek compare l k = Some it \<and> at_key l it (filter (\<lambda>k'. \<not> compare k' k < 0) ks)"
proof -
  obtain ord where ord: "skip_inv compare l ord" "skip_keys l ord = ks" using assms by (auto simp: skip_abs_def)
  have "filter (\<lambda>k'. \<not> compare k' k < 0) ks = map (keyof (nodes l)) (above compare (nodes l) k ord)"
    using ord(2) by (auto simp: above_def skip_keys_def filter_map comp_def)
  moreover have "set (above compare (nodes l) k ord) \<subseteq> set ord" by (auto simp: above_def)
  ultimately show ?thesis
    using Seek_spec [OF ord(1), of k] at_key_first [OF ord(1), of "above compare (nodes l) k ord"] by auto
qed

end

subsection \<open>Properties\<close>

text \<open>
  C5: insertion refines insertion into a sorted list of keys. For any comparator that is an order,
  \<^verbatim>\<open>Insert\<close> on a well-formed list returns a well-formed list whose keys are the old ones with the new one
  at its place, whatever height the generator draws; if a key that compares equal is there already, and
  only then, the assertion of \<^verbatim>\<open>Insert\<close> fails.
\<close>

theorem skiplist_insert:
  assumes "key_order compare" and "skip_abs compare l ks"
  shows "if \<exists>k'\<in>set ks. compare k' k = 0 then SkipList_Insert compare l k = None
    else \<exists>l'. SkipList_Insert compare l k = Some l' \<and> skip_abs compare l' (insert_key compare k ks)"
  using key_order.abs_Insert [OF assms, of k] key_order.abs_Insert_dup [OF assms, of _ k] by auto

theorem skiplist_insert_witness:
  "\<exists>l l'. SkipList_init [] = Some l \<and> SkipList_Insert Slice_compare l [5] = Some l' \<and> skip_abs Slice_compare l' [[5]]"
proof -
  obtain l where l: "SkipList_init [] = Some l" "skip_abs Slice_compare l []"
    using skip_abs_init [of "[]" Slice_compare] by (elim exE conjE)
  then show ?thesis
    using skiplist_insert [OF bytewise.key_order_axioms l(2), of "[5]"] by (auto simp: insert_key_def)
qed

text \<open>
  C28: the three search loops, which have no bound in the code, return on every well-formed list. The
  search for the first key that is not smaller fills \<^verbatim>\<open>prev\<close> with the predecessors at every level; the
  search for the last smaller key, whose assertion in the loop holds, and the search for the last node
  return the head when there is none.
\<close>

theorem skiplist_search_returns:
  assumes "key_order compare" and "skip_inv compare l ord" and "length prev = 12"
  shows "FindGreaterOrEqual compare l k (Some prev) =
      Some (first (above compare (nodes l) k ord), Some (fill (pred_at compare (nodes l) k ord) (max_height l - 1) prev)) \<and>
    FindLessThan compare l k = Some (last (head l # below compare (nodes l) k ord)) \<and>
    FindLast l = Some (last (head l # ord))"
  using key_order.FindGreaterOrEqual_spec [OF assms(1,2), of "Some prev" k] key_order.FindLessThan_spec [OF assms(1,2), of k]
    FindLast_spec [OF assms(2)] assms(3) skip_invD(1) [OF assms(2)]
  by simp

theorem skiplist_search_returns_witness:
  "\<exists>l. SkipList_init [] = Some l \<and> FindLast l = Some (head l) \<and> FindLessThan Slice_compare l [7] = Some (head l)"
proof -
  obtain l where l: "SkipList_init [] = Some l" "skip_inv Slice_compare l []"
    using SkipList_init_inv [of "[]" Slice_compare] by (elim exE conjE)
  then show ?thesis
    using skiplist_search_returns [OF bytewise.key_order_axioms l(2), of "replicate 12 None" "[7]"] by (simp add: below_def)
qed

text \<open>The keys that an iterator visits in at most \<open>n\<close> steps; \<open>None\<close> if it has not come to the end then.\<close>

primrec walk :: "'k skiplist \<Rightarrow> nat \<Rightarrow> nat option \<Rightarrow> 'k list option" where
  "walk l 0 it = (if Iterator_Valid it then None else Some [])"
| "walk l (Suc n) it =
     (if Iterator_Valid it
      then do { k \<leftarrow> Iterator_key l it; it \<leftarrow> Iterator_Next l it; ks \<leftarrow> walk l n it; Some (k # ks) }
      else Some [])"

lemma walk_from: "skip_inv compare l (xs @ ys) \<Longrightarrow> walk l (length ys) (first ys) = Some (map (keyof (nodes l)) ys)"
proof (induction ys arbitrary: xs)
  case (Cons y ys)
  have "y < length (nodes l)" using skip_invD(7) [OF Cons.prems, of y] by simp
  moreover have "Iterator_Next l (Some y) = Some (first ys)" using Cons.prems by (rule Next_spec)
  ultimately show ?case
    using Cons.IH [of "xs @ [y]"] Cons.prems
    by (simp add: first_def Iterator_Valid_def Iterator_key_def Node_key_def)
qed (simp add: first_def Iterator_Valid_def)

text \<open>
  C33: iteration is complete and ends. From \<^verbatim>\<open>SeekToFirst\<close>, as many calls of \<^verbatim>\<open>Next\<close> as there are keys bring
  the iterator to the end, and it has visited every key of the list once, in increasing order.
\<close>

theorem skiplist_iteration:
  assumes "skip_abs compare l ks"
  shows "\<exists>it. Iterator_SeekToFirst l = Some it \<and> walk l (length ks) it = Some ks \<and> sorted_wrt (\<lambda>a b. compare a b < 0) ks"
proof -
  obtain ord where ord: "skip_inv compare l ord" "ks = map (keyof (nodes l)) ord"
    using assms by (auto simp: skip_abs_def skip_keys_def)
  then show ?thesis using SeekToFirst_spec [OF ord(1)] walk_from [of compare l "[]" ord] skip_abs_sorted [OF assms] by simp
qed

theorem skiplist_iteration_witness:
  "\<exists>l l' it. SkipList_init [] = Some l \<and> SkipList_Insert Slice_compare l [5] = Some l' \<and>
     Iterator_SeekToFirst l' = Some it \<and> walk l' (Suc 0) it = Some [[5]]"
proof -
  obtain l where l: "SkipList_init [] = Some l" "skip_abs Slice_compare l []"
    using skip_abs_init [of "[]" Slice_compare] by (elim exE conjE)
  obtain l' where l': "SkipList_Insert Slice_compare l [5] = Some l'" "skip_abs Slice_compare l' [[5]]"
    using bytewise.abs_Insert [OF l(2), of "[5]"] by (auto simp: insert_key_def)
  obtain it where "Iterator_SeekToFirst l' = Some it" "walk l' (Suc 0) it = Some [[5]]"
    using skiplist_iteration [OF l'(2)] by (auto simp del: walk.simps)
  with l(1) l'(1) show ?thesis by blast
qed

end
