(* ===== verification/LDB_MemTable.thy ===== *)
theory LDB_MemTable
  imports LDB_Format LDB_Status LDB_SkipList_Correct
begin

text \<open>
  The memtable, \<^verbatim>\<open>db/memtable.h\<close> and \<^verbatim>\<open>db/memtable.cc\<close>: a skip list of entries, each a length-prefixed
  internal key followed by a length-prefixed value. An entry, which the code holds as a pointer into
  the arena, is the list of the bytes from that pointer on. The arena itself is in \<open>LDB_Arena\<close>.

  The abstraction of a memtable is the list of its entries as \<open>mentry\<close> records, in the order of the skip
  list; \<open>mem_inv\<close> relates the two. The lemmas say that \<^verbatim>\<open>Add\<close> adds its entry and that \<^verbatim>\<open>Get\<close> finds the
  newest entry that is visible at the sequence number of the lookup key.
\<close>

text \<open>
  The bytes behind the length prefix at a pointer. The code reads five bytes for the prefix and
  assumes that it is not corrupted; a prefix that does not parse, whose slice the code would leave
  undefined, is an empty slice here, so that the comparison is total.
\<close>

definition GetLengthPrefixedSlice_ptr :: "byte list \<Rightarrow> slice" where
  "GetLengthPrefixedSlice_ptr data =
     (case GetVarint32Ptr (take 5 data) of None \<Rightarrow> [] | Some (len, n) \<Rightarrow> take (unat len) (drop n data))"

record MemTable =
  refs :: int
  table :: "slice skiplist"

definition MemTable_init :: "MemTable option" where
  "MemTable_init = map_option (\<lambda>t. \<lparr>refs = 0, table = t\<rparr>) (SkipList_init [])"

definition MemTable_Ref :: "MemTable \<Rightarrow> MemTable" where
  "MemTable_Ref m = m\<lparr>refs := refs m + 1\<rparr>"

text \<open>\<^verbatim>\<open>Unref\<close>: whether the object deletes itself, and the object; \<open>None\<close> when the assertion fails.\<close>

definition MemTable_Unref :: "MemTable \<Rightarrow> (bool \<times> MemTable) option" where
  "MemTable_Unref m =
     (let m = m\<lparr>refs := refs m - 1\<rparr> in if refs m \<ge> 0 then Some (refs m \<le> 0, m) else None)"

definition KeyComparator :: "bool \<Rightarrow> (slice \<Rightarrow> slice \<Rightarrow> int) \<Rightarrow> byte list \<Rightarrow> byte list \<Rightarrow> int" where
  "KeyComparator le ucmp aptr bptr =
     InternalKeyComparator_Compare le ucmp (GetLengthPrefixedSlice_ptr aptr) (GetLengthPrefixedSlice_ptr bptr)"

definition EncodeKey :: "slice \<Rightarrow> byte list" where
  "EncodeKey target = PutVarint32 [] (word_of_nat (length target)) @ target"

definition MemTable_Add ::
    "bool \<Rightarrow> (slice \<Rightarrow> slice \<Rightarrow> int) \<Rightarrow> MemTable \<Rightarrow> SequenceNumber \<Rightarrow> ValueType \<Rightarrow> slice \<Rightarrow> slice \<Rightarrow> MemTable option" where
  "MemTable_Add le ucmp m s t k value =
     (let key_size = length k; val_size = length value; internal_key_size = key_size + 8;
          encoded_len = VarintLength (word_of_nat internal_key_size) + internal_key_size +
            VarintLength (word_of_nat val_size) + val_size;
          buf = EncodeVarint32 (word_of_nat internal_key_size) @ k @ EncodeFixed64 le (push_bit 8 s OR ucast (ValueType_byte t)) @
            EncodeVarint32 (word_of_nat val_size) @ value
      in if length buf = encoded_len
         then map_option (\<lambda>tb. m\<lparr>table := tb\<rparr>) (SkipList_Insert (KeyComparator le ucmp) (table m) buf) else None)"

text \<open>\<^verbatim>\<open>Get\<close>: the result, and the output arguments \<^verbatim>\<open>value\<close> and \<^verbatim>\<open>s\<close>.\<close>

definition MemTable_Get ::
    "bool \<Rightarrow> (slice \<Rightarrow> slice \<Rightarrow> int) \<Rightarrow> MemTable \<Rightarrow> LookupKey \<Rightarrow> byte list \<Rightarrow> Status \<Rightarrow> (bool \<times> byte list \<times> Status) option" where
  "MemTable_Get le ucmp m lkey value s =
     do {
       let memkey = LookupKey_memtable_key lkey;
       iter \<leftarrow> Iterator_Seek (KeyComparator le ucmp) (table m) memkey;
       if Iterator_Valid iter then do {
         entry \<leftarrow> Iterator_key (table m) iter;
         (key_length, n) \<leftarrow> GetVarint32Ptr (take 5 entry);
         let key_ptr = drop n entry;
         if ucmp (take (unat (key_length - 8)) key_ptr) (LookupKey_user_key lkey) = 0 then
           (let num = DecodeFixed64 le (drop (unat key_length - 8) key_ptr) in
            case ValueType_of_byte (ucast (num AND 0xFF)) of
              Some kTypeValue \<Rightarrow> Some (True, GetLengthPrefixedSlice_ptr (drop (unat key_length) key_ptr), s)
            | Some kTypeDeletion \<Rightarrow> map_option (\<lambda>s. (True, value, s)) (Status_NotFound [] [])
            | None \<Rightarrow> Some (False, value, s))
         else Some (False, value, s)
       }
       else Some (False, value, s)
     }"

subsection \<open>The iterator\<close>

definition MemTableIterator_Seek :: "bool \<Rightarrow> (slice \<Rightarrow> slice \<Rightarrow> int) \<Rightarrow> MemTable \<Rightarrow> slice \<Rightarrow> nat option option" where
  "MemTableIterator_Seek le ucmp m k = Iterator_Seek (KeyComparator le ucmp) (table m) (EncodeKey k)"

definition MemTableIterator_key :: "MemTable \<Rightarrow> nat option \<Rightarrow> slice option" where
  "MemTableIterator_key m it = map_option GetLengthPrefixedSlice_ptr (Iterator_key (table m) it)"

definition MemTableIterator_value :: "MemTable \<Rightarrow> nat option \<Rightarrow> slice option" where
  "MemTableIterator_value m it =
     do {
       entry \<leftarrow> Iterator_key (table m) it;
       (key_length, n) \<leftarrow> GetVarint32Ptr (take 5 entry);
       Some (GetLengthPrefixedSlice_ptr (drop (n + unat key_length) entry))
     }"

definition MemTableIterator_Valid :: "nat option \<Rightarrow> bool" where
  "MemTableIterator_Valid it \<longleftrightarrow> Iterator_Valid it"

definition MemTableIterator_SeekToFirst :: "MemTable \<Rightarrow> nat option option" where
  "MemTableIterator_SeekToFirst m = Iterator_SeekToFirst (table m)"

definition MemTableIterator_SeekToLast :: "MemTable \<Rightarrow> nat option option" where
  "MemTableIterator_SeekToLast m = Iterator_SeekToLast (table m)"

definition MemTableIterator_Next :: "MemTable \<Rightarrow> nat option \<Rightarrow> nat option option" where
  "MemTableIterator_Next m it = Iterator_Next (table m) it"

definition MemTableIterator_Prev :: "bool \<Rightarrow> (slice \<Rightarrow> slice \<Rightarrow> int) \<Rightarrow> MemTable \<Rightarrow> nat option \<Rightarrow> nat option option" where
  "MemTableIterator_Prev le ucmp m it = Iterator_Prev (KeyComparator le ucmp) (table m) it"

subsection \<open>Entries\<close>

record mentry =
  mseq :: SequenceNumber
  mtype :: ValueType
  mkey :: slice
  mval :: slice

definition mentry_ok :: "mentry \<Rightarrow> bool" where
  "mentry_ok e \<longleftrightarrow> mseq e \<le> kMaxSequenceNumber \<and> length (mkey e) + 8 < 2 ^ 32 \<and> length (mval e) < 2 ^ 32"

definition mikey :: "mentry \<Rightarrow> slice" where "mikey e = ikey_bytes (mkey e) (mseq e) (mtype e)"

definition entry_bytes :: "mentry \<Rightarrow> byte list" where
  "entry_bytes e = EncodeKey (mikey e) @ EncodeKey (mval e)"

definition mtag :: "mentry \<Rightarrow> 64 word" where "mtag e = pack_tag (mseq e) (mtype e)"

lemma prefixed_ptr:
  assumes "length s < 2 ^ 32"
  shows "GetVarint32Ptr (take 5 (EncodeKey s @ rest)) = Some (word_of_nat (length s), length (EncodeVarint32 (word_of_nat (length s))))"
    and "GetLengthPrefixedSlice_ptr (EncodeKey s @ rest) = s"
proof -
  let ?v = "EncodeVarint32 (word_of_nat (length s))"
  have "length ?v \<le> 5" by (rule length_EncodeVarint32)
  then have "take 5 (EncodeKey s @ rest) = ?v @ take (5 - length ?v) (s @ rest)"
    by (simp add: EncodeKey_def PutVarint32_def)
  then show p: "GetVarint32Ptr (take 5 (EncodeKey s @ rest)) = Some (word_of_nat (length s), length ?v)"
    by (simp add: coding_varint32_ptr)
  show "GetLengthPrefixedSlice_ptr (EncodeKey s @ rest) = s"
    unfolding GetLengthPrefixedSlice_ptr_def p using assms
    by (simp add: EncodeKey_def PutVarint32_def unat_of_nat)
qed

lemma EncodeKey_len:
  "length s < 2 ^ 32 \<Longrightarrow> length (EncodeKey s) = VarintLength (word_of_nat (length s)) + length s"
proof -
  assume "length s < 2 ^ 32"
  then have "unat (word_of_nat (length s) :: 32 word) = unat (word_of_nat (length s) :: 64 word)"
    by (simp add: unat_of_nat)
  then show ?thesis by (simp add: EncodeKey_def PutVarint32_def VarintLength_varint EncodeVarint32_varint)
qed

lemma length_mikey [simp]: "length (mikey e) = length (mkey e) + 8"
  by (simp add: mikey_def)

lemma entry_key: "mentry_ok e \<Longrightarrow> GetLengthPrefixedSlice_ptr (entry_bytes e) = mikey e"
  by (simp add: entry_bytes_def prefixed_ptr mentry_ok_def)

lemma MemTable_Add_entry:
  assumes "mentry_ok e"
  shows "MemTable_Add le ucmp m (mseq e) (mtype e) (mkey e) (mval e) =
    map_option (\<lambda>tb. m\<lparr>table := tb\<rparr>) (SkipList_Insert (KeyComparator le ucmp) (table m) (entry_bytes e))"
proof -
  have buf: "EncodeVarint32 (word_of_nat (length (mkey e) + 8)) @ mkey e @
      EncodeFixed64 le (push_bit 8 (mseq e) OR ucast (ValueType_byte (mtype e))) @
      EncodeVarint32 (word_of_nat (length (mval e))) @ mval e = entry_bytes e"
    by (simp add: entry_bytes_def EncodeKey_def PutVarint32_def mikey_def ikey_bytes_def EncodeFixed_le pack_tag_def)
  have "length (entry_bytes e) = VarintLength (word_of_nat (length (mkey e) + 8)) + (length (mkey e) + 8) +
      VarintLength (word_of_nat (length (mval e))) + length (mval e)"
    using assms EncodeKey_len [of "mikey e"] EncodeKey_len [of "mval e"]
    by (simp add: entry_bytes_def mentry_ok_def)
  then show ?thesis unfolding MemTable_Add_def Let_def buf by simp
qed

subsection \<open>The memtable as a list of entries\<close>

definition mem_inv :: "bool \<Rightarrow> (slice \<Rightarrow> slice \<Rightarrow> int) \<Rightarrow> MemTable \<Rightarrow> mentry list \<Rightarrow> bool" where
  "mem_inv le ucmp m es \<longleftrightarrow>
     skip_abs (KeyComparator le ucmp) (table m) (map entry_bytes es) \<and> list_all mentry_ok es"

lemma MemTable_init_inv: "\<exists>m. MemTable_init = Some m \<and> mem_inv le ucmp m []"
  using skip_abs_init [of "[]" "KeyComparator le ucmp"] by (auto simp: MemTable_init_def mem_inv_def)

text \<open>The entries that a reader of the user key \<open>u\<close> at sequence number \<open>s\<close> may see.\<close>

definition visible :: "(slice \<Rightarrow> slice \<Rightarrow> int) \<Rightarrow> mentry list \<Rightarrow> slice \<Rightarrow> SequenceNumber \<Rightarrow> mentry set" where
  "visible ucmp es u s = {e \<in> set es. ucmp (mkey e) u = 0 \<and> mseq e \<le> s}"

text \<open>What \<^verbatim>\<open>Get\<close> returns for an entry.\<close>

definition get_result :: "mentry \<Rightarrow> byte list \<Rightarrow> Status \<Rightarrow> bool \<times> byte list \<times> Status" where
  "get_result e value s =
     (case mtype e of kTypeValue \<Rightarrow> (True, mval e, s) | kTypeDeletion \<Rightarrow> (True, value, Some (status_bytes kNotFound [] [])))"

context internal_order
begin

abbreviation kcmp :: "slice \<Rightarrow> slice \<Rightarrow> int" where "kcmp \<equiv> KeyComparator le ucmp"

lemma kcmp_order: "key_order kcmp"
proof
  show "kcmp a b < 0 \<longleftrightarrow> 0 < kcmp b a" for a b
    unfolding KeyComparator_def by (rule ikey.sym)
  show "kcmp a c \<le> 0" if "kcmp a b \<le> 0" "kcmp b c \<le> 0" for a b c
    using that unfolding KeyComparator_def by (rule ikey.trans)
qed

end

sublocale internal_order \<subseteq> mem: key_order "KeyComparator le ucmp"
  by (rule kcmp_order)

context internal_order
begin

lemma kcmp_entries: "mentry_ok e \<Longrightarrow> mentry_ok e' \<Longrightarrow> kcmp (entry_bytes e) (entry_bytes e') = icmp (mikey e) (mikey e')"
  by (simp add: KeyComparator_def entry_key)

lemma kcmp_equal:
  "mentry_ok e \<Longrightarrow> mentry_ok e' \<Longrightarrow> kcmp (entry_bytes e) (entry_bytes e') = 0 \<longleftrightarrow> ucmp (mkey e) (mkey e') = 0 \<and> mtag e = mtag e'"
  by (auto simp: kcmp_entries icmp_zero mikey_def mtag_def)

lemma Add_inv:
  assumes inv: "mem_inv le ucmp m es" and ok: "mentry_ok e"
    and new: "\<forall>e'\<in>set es. \<not> (ucmp (mkey e') (mkey e) = 0 \<and> mtag e' = mtag e)"
  shows "\<exists>m' es'. MemTable_Add le ucmp m (mseq e) (mtype e) (mkey e) (mval e) = Some m' \<and>
    mem_inv le ucmp m' es' \<and> set es' = insert e (set es) \<and> refs m' = refs m"
proof -
  have oks: "\<forall>e'\<in>set es. mentry_ok e'" using inv by (simp add: mem_inv_def list_all_iff)
  have "\<forall>k'\<in>set (map entry_bytes es). kcmp k' (entry_bytes e) \<noteq> 0"
    using oks new ok kcmp_equal by auto
  from mem.abs_Insert [OF _ this] inv obtain tb where tb: "SkipList_Insert kcmp (table m) (entry_bytes e) = Some tb"
    "skip_abs kcmp tb (insert_key kcmp (entry_bytes e) (map entry_bytes es))"
    by (auto simp: mem_inv_def)
  let ?lt = "\<lambda>e'. kcmp (entry_bytes e') (entry_bytes e) < 0"
  let ?es = "filter ?lt es @ e # filter (\<lambda>e'. \<not> ?lt e') es"
  have "insert_key kcmp (entry_bytes e) (map entry_bytes es) = map entry_bytes ?es"
    by (simp add: insert_key_def filter_map comp_def)
  then have "mem_inv le ucmp (m\<lparr>table := tb\<rparr>) ?es"
    using tb(2) oks ok by (auto simp: mem_inv_def list_all_iff)
  moreover have "set ?es = insert e (set es)" by auto
  ultimately show ?thesis
    using tb(1) by (intro exI [of _ "m\<lparr>table := tb\<rparr>"] exI [of _ ?es]) (simp add: MemTable_Add_entry [OF ok])
qed

text \<open>An entry is before the lookup key unless its key is larger, or the same with a tag that is not larger.\<close>

lemma lookup_before:
  assumes "mentry_ok e" and "length u + 8 < 2 ^ 32" and "s \<le> kMaxSequenceNumber"
  shows "\<not> kcmp (entry_bytes e) (EncodeKey (ikey_bytes u s kTypeValue)) < 0 \<longleftrightarrow>
    0 < ucmp (mkey e) u \<or> ucmp (mkey e) u = 0 \<and> mseq e \<le> s"
proof -
  have "GetLengthPrefixedSlice_ptr (EncodeKey (ikey_bytes u s kTypeValue)) = ikey_bytes u s kTypeValue"
    using prefixed_ptr(2) [of "ikey_bytes u s kTypeValue" "[]"] assms(2) by simp
  then have "kcmp (entry_bytes e) (EncodeKey (ikey_bytes u s kTypeValue)) = icmp (mikey e) (ikey_bytes u s kTypeValue)"
    using assms(1) by (simp add: KeyComparator_def entry_key)
  moreover have "\<not> icmp (mikey e) (ikey_bytes u s kTypeValue) < 0 \<longleftrightarrow>
      0 < ucmp (mkey e) u \<or> ucmp (mkey e) u = 0 \<and> mtag e \<le> pack_tag s kTypeValue"
    by (auto simp: icmp_less mikey_def mtag_def)
  moreover have "mtag e \<le> pack_tag s kTypeValue \<longleftrightarrow> mseq e \<le> s"
    using assms(1,3) by (simp add: mtag_def pack_tag_le mentry_ok_def)
  ultimately show ?thesis by simp
qed

end

text \<open>What \<^verbatim>\<open>Get\<close> reads at an entry.\<close>

lemma mikey_tag: "DecodeFixed64 le (drop (length (mkey e)) (mikey e @ rest)) = mtag e"
  using coding_fixed64 [of le le "mtag e" rest] by (simp add: mikey_def ikey_bytes_def mtag_def EncodeFixed_le)

lemma get_at_entry:
  assumes "mentry_ok e" and "LookupKey_user_key lk = u"
    and "Iterator_Seek (KeyComparator le ucmp) (table m) (LookupKey_memtable_key lk) = Some it" and "it \<noteq> None"
    and "Iterator_key (table m) it = Some (entry_bytes e)"
  shows "MemTable_Get le ucmp m lk v s = Some (if ucmp (mkey e) u = 0 then get_result e v s else (False, v, s))"
proof -
  have len: "length (mkey e) + 8 < 2 ^ 32" "length (mval e) < 2 ^ 32" using assms(1) by (simp_all add: mentry_ok_def)
  let ?n = "length (EncodeVarint32 (word_of_nat (length (mikey e))))"
  have p: "GetVarint32Ptr (take 5 (entry_bytes e)) = Some (word_of_nat (length (mikey e)), ?n)"
    using len prefixed_ptr(1) [of "mikey e" "EncodeKey (mval e)"] by (simp add: entry_bytes_def del: take_append)
  have d: "drop ?n (entry_bytes e) = mikey e @ EncodeKey (mval e)"
    by (simp add: entry_bytes_def EncodeKey_def PutVarint32_def)
  have u: "unat (word_of_nat (length (mikey e)) :: 32 word) = length (mkey e) + 8"
    using len by (simp add: unat_of_nat del: of_nat_add)
  have u8: "unat (word_of_nat (length (mikey e)) - 8 :: 32 word) = length (mkey e)"
    using len by (simp add: unat_of_nat)
  have nf: "Status_NotFound [] [] = Some (Some (status_bytes kNotFound [] []))"
    unfolding Status_NotFound_def by (rule Status_init_bytes) (simp_all add: status_text_def)
  have v: "GetLengthPrefixedSlice_ptr (EncodeKey (mval e)) = mval e"
    using prefixed_ptr(2) [of "mval e" "[]"] len by simp
  have k: "take (length (mkey e)) (mikey e @ EncodeKey (mval e)) = mkey e" by (simp add: mikey_def ikey_bytes_def)
  have t: "ValueType_of_byte (ucast (mtag e AND 0xFF)) = Some (mtype e)" by (simp add: mtag_def pack_tag_type)
  have r: "drop (length (mkey e) + 8) (mikey e @ EncodeKey (mval e)) = EncodeKey (mval e)" by simp
  show ?thesis
    using assms(2-5) unfolding MemTable_Get_def Let_def
    by (simp add: Iterator_Valid_def p d u u8 k mikey_tag t r v nf get_result_def split: ValueType.split
        del: drop_append of_nat_add length_mikey drop_drop take_append)
qed

context internal_order
begin

lemma Get_spec:
  assumes inv: "mem_inv le ucmp m es" and lk: "LookupKey_init le u s = Some lk" and u: "length u + 8 < 2 ^ 32"
  shows "visible ucmp es u s = {} \<Longrightarrow> MemTable_Get le ucmp m lk v st = Some (False, v, st)"
    and "e \<in> visible ucmp es u s \<Longrightarrow> (\<And>e'. e' \<in> visible ucmp es u s \<Longrightarrow> mtag e' \<le> mtag e) \<Longrightarrow>
      MemTable_Get le ucmp m lk v st = Some (get_result e v st)"
proof -
  have s: "s \<le> kMaxSequenceNumber"
    using lk by (auto simp: LookupKey_init_def PackSequenceAndType_def Let_def split: if_splits)
  have l: "LookupKey_memtable_key lk = EncodeKey (ikey_bytes u s kTypeValue)" "LookupKey_user_key lk = u"
    using LookupKey_bytes [OF s, of le u] lk by (auto simp: EncodeKey_def PutVarint32_def)
  have oks: "\<And>e. e \<in> set es \<Longrightarrow> mentry_ok e" using inv by (simp add: mem_inv_def list_all_iff)
  let ?after = "\<lambda>e. 0 < ucmp (mkey e) u \<or> ucmp (mkey e) u = 0 \<and> mseq e \<le> s"
  have abs: "skip_abs kcmp (table m) (map entry_bytes es)" using inv by (simp add: mem_inv_def)
  have "filter (\<lambda>k'. \<not> kcmp k' (LookupKey_memtable_key lk) < 0) (map entry_bytes es) = map entry_bytes (filter ?after es)"
    using lookup_before [OF oks u s] by (auto simp: filter_map l(1) intro!: arg_cong [of _ _ "map entry_bytes"] filter_cong)
  with mem.abs_Seek [OF abs, of "LookupKey_memtable_key lk"] obtain it where
    it: "Iterator_Seek kcmp (table m) (LookupKey_memtable_key lk) = Some it" "at_key (table m) it (map entry_bytes (filter ?after es))"
    by auto
  have sorted: "sorted_wrt (\<lambda>e e'. icmp (mikey e) (mikey e') < 0) (filter ?after es)"
    using skip_abs_sorted [OF abs] oks
    by (intro sorted_wrt_filter) (auto simp: sorted_wrt_map kcmp_entries elim!: sorted_wrt_mono_rel [rotated])
  have vis: "visible ucmp es u s = {e \<in> set (filter ?after es). ucmp (mkey e) u = 0}" by (auto simp: visible_def)
  show "MemTable_Get le ucmp m lk v st = Some (False, v, st)" if "visible ucmp es u s = {}"
  proof (cases "filter ?after es")
    case Nil
    then show ?thesis using it by (simp add: at_key_def MemTable_Get_def Iterator_Valid_def)
  next
    case (Cons e0 es0)
    then have "e0 \<in> set (filter ?after es)" by simp
    then have "mentry_ok e0" "ucmp (mkey e0) u \<noteq> 0" using that oks [of e0] unfolding vis by auto
    then show ?thesis using get_at_entry [OF _ l(2) it(1), of e0 v st] it(2) Cons by (auto simp: at_key_def)
  qed
  show "MemTable_Get le ucmp m lk v st = Some (get_result e v st)"
    if e: "e \<in> visible ucmp es u s" and max: "\<And>e'. e' \<in> visible ucmp es u s \<Longrightarrow> mtag e' \<le> mtag e"
  proof -
    have "e \<in> set (filter ?after es)" "ucmp (mkey e) u = 0" using e unfolding vis by auto
    then obtain e0 es0 where c: "filter ?after es = e0 # es0" by (cases "filter ?after es") auto
    have "e0 \<in> set (filter ?after es)" unfolding c by simp
    then have e0: "e0 \<in> set es" "?after e0" by auto
    have "e0 = e"
    proof (rule ccontr)
      assume "e0 \<noteq> e"
      then have "e \<in> set es0" using \<open>e \<in> set (filter ?after es)\<close> c by auto
      then have less: "icmp (mikey e0) (mikey e) < 0" using sorted c by simp
      have "ucmp (mkey e0) u \<le> 0"
        using less \<open>ucmp (mkey e) u = 0\<close> trans [of "mkey e0" "mkey e" u] by (auto simp: icmp_less mikey_def)
      then have z: "ucmp (mkey e0) u = 0" using e0 by auto
      then have "mtag e0 \<le> mtag e" using max [of e0] e0 by (auto simp: visible_def)
      moreover have "\<not> ucmp (mkey e0) (mkey e) < 0"
        using z \<open>ucmp (mkey e) u = 0\<close> trans [of "mkey e" u "mkey e0"] equal_sym [of "mkey e0" u] not_less [of "mkey e0" "mkey e"] by auto
      ultimately show False using less by (auto simp: icmp_less mikey_def mtag_def)
    qed
    then show ?thesis
      using get_at_entry [OF oks l(2) it(1), of e v st] it(2) c e0 \<open>ucmp (mkey e) u = 0\<close> by (auto simp: at_key_def)
  qed
qed

end

subsection \<open>Properties\<close>

text \<open>The iterator reads the two parts of an entry.\<close>

lemma iterator_entry:
  assumes "mentry_ok e" and "Iterator_key (table m) it = Some (entry_bytes e)"
  shows "MemTableIterator_key m it = Some (mikey e)" "MemTableIterator_value m it = Some (mval e)"
proof -
  have len: "length (mikey e) < 2 ^ 32" "length (mval e) < 2 ^ 32" using assms(1) by (simp_all add: mentry_ok_def)
  show "MemTableIterator_key m it = Some (mikey e)" using assms by (simp add: MemTableIterator_key_def entry_key)
  let ?n = "length (EncodeVarint32 (word_of_nat (length (mikey e))))"
  have p: "GetVarint32Ptr (take 5 (entry_bytes e)) = Some (word_of_nat (length (mikey e)), ?n)"
    using prefixed_ptr(1) [OF len(1), of "EncodeKey (mval e)"] by (simp add: entry_bytes_def del: take_append)
  have u: "unat (word_of_nat (length (mikey e)) :: 32 word) = length (mikey e)" using len by (simp add: unat_of_nat del: of_nat_add)
  have "drop (?n + length (mikey e)) (entry_bytes e) = EncodeKey (mval e)"
    by (simp add: entry_bytes_def EncodeKey_def PutVarint32_def)
  then show "MemTableIterator_value m it = Some (mval e)"
    using assms(2) prefixed_ptr(2) [OF len(2), of "[]"] p u
    by (simp add: MemTableIterator_value_def del: length_mikey of_nat_add)
qed

text \<open>
  C14: what a lookup in a memtable finds, for any user comparator that is an order. If no entry of the user
  key is as old as the sequence number of the lookup, \<^verbatim>\<open>Get\<close> returns false and leaves its arguments alone.
  Otherwise it answers from the newest such entry: the value of a put, \<^verbatim>\<open>NotFound\<close> for a deletion. It never
  reads outside an entry.
\<close>

theorem memtable_get:
  assumes "key_order ucmp" and "mem_inv le ucmp m es" and "LookupKey_init le u s = Some lk" and "length u + 8 < 2 ^ 32"
  shows "(visible ucmp es u s = {} \<longrightarrow> MemTable_Get le ucmp m lk v st = Some (False, v, st)) \<and>
    (\<forall>e\<in>visible ucmp es u s. (\<forall>e'\<in>visible ucmp es u s. mtag e' \<le> mtag e) \<longrightarrow>
       MemTable_Get le ucmp m lk v st = Some (get_result e v st))"
  using internal_order.Get_spec [OF internal_order.intro [OF assms(1)] assms(2-4)] by blast

theorem memtable_get_witness:
  "\<exists>m m' lk. MemTable_init = Some m \<and> MemTable_Add True Slice_compare m 7 kTypeValue [97] [98] = Some m' \<and>
     LookupKey_init True [97] 9 = Some lk \<and> MemTable_Get True Slice_compare m' lk [] None = Some (True, [98], None)"
proof -
  let ?e = "\<lparr>mseq = 7, mtype = kTypeValue, mkey = [97], mval = [98]\<rparr>"
  obtain m where m: "MemTable_init = Some m" "mem_inv True Slice_compare m []"
    using MemTable_init_inv [of True Slice_compare] by (elim exE conjE)
  have ok: "mentry_ok ?e" by (simp add: mentry_ok_def kMaxSequenceNumber_def)
  obtain m' es' where m': "MemTable_Add True Slice_compare m 7 kTypeValue [97] [98] = Some m'"
    "mem_inv True Slice_compare m' es'" "set es' = {?e}"
    using internal_order.Add_inv [OF internal_order_bytewise m(2) ok] unfolding mentry.simps list.set ball_empty by blast
  obtain lk where lk: "LookupKey_init True [97] 9 = Some lk"
    using LookupKey_bytes [of 9 True "[97]"] by (auto simp: kMaxSequenceNumber_def)
  have "visible Slice_compare es' [97] 9 = {?e}" unfolding visible_def m'(3) by auto
  then have "MemTable_Get True Slice_compare m' lk [] None = Some (True, [98], None)"
    using memtable_get [OF bytewise.key_order_axioms m'(2) lk, of "[]" None] by (simp add: get_result_def)
  then show ?thesis using m(1) m'(1) lk by blast
qed

end
