(* ===== verification/LDB_WriteBatch.thy ===== *)
theory LDB_WriteBatch
  imports LDB_MemTable
begin

text \<open>
  Write batches, \<^verbatim>\<open>include/leveldb/write_batch.h\<close>, \<^verbatim>\<open>db/write_batch_internal.h\<close> and \<^verbatim>\<open>db/write_batch.cc\<close>. A batch
  is its string \<^verbatim>\<open>rep_\<close>: a sequence number in eight bytes, a count in four, and the records. The class
  \<^verbatim>\<open>Handler\<close> is a state with the functions \<open>put\<close> and \<open>del\<close>, which are \<open>None\<close> where their behaviour is
  undefined; \<^verbatim>\<open>MemTableInserter\<close> is the handler whose state is a sequence number and a memtable.

  A batch stands for the list of its operations, \<open>batch_rep\<close>. The lemmas show that building a batch and
  iterating over it are inverse, that iteration over any bytes returns, with an error for those that
  are no batch, and that a batch that is inserted into a memtable acts there like its last operation
  on each key.
\<close>

type_synonym WriteBatch = "byte list"

abbreviation (input) kHeader :: nat where "kHeader \<equiv> 12"

definition WriteBatch_Clear :: "WriteBatch \<Rightarrow> WriteBatch" where
  "WriteBatch_Clear rep = replicate kHeader 0"

definition WriteBatch_init :: WriteBatch where "WriteBatch_init = WriteBatch_Clear []"

definition WriteBatchInternal_Count :: "bool \<Rightarrow> WriteBatch \<Rightarrow> 32 word" where
  "WriteBatchInternal_Count le b = DecodeFixed32 le (drop 8 b)"

definition WriteBatchInternal_SetCount :: "bool \<Rightarrow> WriteBatch \<Rightarrow> 32 word \<Rightarrow> WriteBatch" where
  "WriteBatchInternal_SetCount le b n = take 8 b @ EncodeFixed32 le n @ drop 12 b"

definition WriteBatchInternal_Sequence :: "bool \<Rightarrow> WriteBatch \<Rightarrow> SequenceNumber" where
  "WriteBatchInternal_Sequence le b = DecodeFixed64 le b"

definition WriteBatchInternal_SetSequence :: "bool \<Rightarrow> WriteBatch \<Rightarrow> SequenceNumber \<Rightarrow> WriteBatch" where
  "WriteBatchInternal_SetSequence le b s = EncodeFixed64 le s @ drop 8 b"

definition WriteBatch_Put :: "bool \<Rightarrow> WriteBatch \<Rightarrow> slice \<Rightarrow> slice \<Rightarrow> WriteBatch" where
  "WriteBatch_Put le b k value =
     (let b = WriteBatchInternal_SetCount le b (WriteBatchInternal_Count le b + 1);
          b = b @ [ValueType_byte kTypeValue];
          b = PutLengthPrefixedSlice b k
      in PutLengthPrefixedSlice b value)"

definition WriteBatch_Delete :: "bool \<Rightarrow> WriteBatch \<Rightarrow> slice \<Rightarrow> WriteBatch" where
  "WriteBatch_Delete le b k =
     (let b = WriteBatchInternal_SetCount le b (WriteBatchInternal_Count le b + 1);
          b = b @ [ValueType_byte kTypeDeletion]
      in PutLengthPrefixedSlice b k)"

definition corruption :: "'h \<Rightarrow> string \<Rightarrow> ('h \<times> Status) option" where
  "corruption h msg = map_option (\<lambda>s. (h, s)) (Status_Corruption (str msg) [])"

text \<open>The loop of \<^verbatim>\<open>Iterate\<close> and the check of the count behind it.\<close>

function iterate_loop ::
    "('h \<Rightarrow> slice \<Rightarrow> slice \<Rightarrow> 'h option) \<Rightarrow> ('h \<Rightarrow> slice \<Rightarrow> 'h option) \<Rightarrow> 32 word \<Rightarrow> slice \<Rightarrow> 32 word \<Rightarrow> 'h \<Rightarrow>
     ('h \<times> Status) option" where
  "iterate_loop put del count [] found h =
     (if found \<noteq> count then corruption h ''WriteBatch has wrong count'' else Some (h, Status_OK))"
| "iterate_loop put del count (c # input) found h =
     (case ValueType_of_byte c of
        Some kTypeValue \<Rightarrow>
          (case GetLengthPrefixedSlice input of
             Some (k, input1) \<Rightarrow>
               (case GetLengthPrefixedSlice input1 of
                  Some (value, input2) \<Rightarrow>
                    (case put h k value of None \<Rightarrow> None | Some h \<Rightarrow> iterate_loop put del count input2 (found + 1) h)
                | None \<Rightarrow> corruption h ''bad WriteBatch Put'')
           | None \<Rightarrow> corruption h ''bad WriteBatch Put'')
      | Some kTypeDeletion \<Rightarrow>
          (case GetLengthPrefixedSlice input of
             Some (k, input1) \<Rightarrow>
               (case del h k of None \<Rightarrow> None | Some h \<Rightarrow> iterate_loop put del count input1 (found + 1) h)
           | None \<Rightarrow> corruption h ''bad WriteBatch Delete'')
      | None \<Rightarrow> corruption h ''unknown WriteBatch tag'')"
  by pat_completeness auto
termination
  by (relation "measure (\<lambda>(put, del, count, input, found, h). length input)")
    (auto dest!: GetLengthPrefixedSlice_shorter)

definition WriteBatch_Iterate ::
    "bool \<Rightarrow> ('h \<Rightarrow> slice \<Rightarrow> slice \<Rightarrow> 'h option) \<Rightarrow> ('h \<Rightarrow> slice \<Rightarrow> 'h option) \<Rightarrow> WriteBatch \<Rightarrow> 'h \<Rightarrow> ('h \<times> Status) option" where
  "WriteBatch_Iterate le put del b h =
     (if length b < kHeader then corruption h ''malformed WriteBatch (too small)''
      else
        case Slice_remove_prefix b kHeader of None \<Rightarrow> None
        | Some input \<Rightarrow> iterate_loop put del (WriteBatchInternal_Count le b) input 0 h)"

record MemTableInserter =
  inserter_sequence :: SequenceNumber
  inserter_mem :: MemTable

definition MemTableInserter_Put ::
    "bool \<Rightarrow> (slice \<Rightarrow> slice \<Rightarrow> int) \<Rightarrow> MemTableInserter \<Rightarrow> slice \<Rightarrow> slice \<Rightarrow> MemTableInserter option" where
  "MemTableInserter_Put le ucmp h k value =
     map_option (\<lambda>m. \<lparr>inserter_sequence = inserter_sequence h + 1, inserter_mem = m\<rparr>)
       (MemTable_Add le ucmp (inserter_mem h) (inserter_sequence h) kTypeValue k value)"

definition MemTableInserter_Delete ::
    "bool \<Rightarrow> (slice \<Rightarrow> slice \<Rightarrow> int) \<Rightarrow> MemTableInserter \<Rightarrow> slice \<Rightarrow> MemTableInserter option" where
  "MemTableInserter_Delete le ucmp h k =
     map_option (\<lambda>m. \<lparr>inserter_sequence = inserter_sequence h + 1, inserter_mem = m\<rparr>)
       (MemTable_Add le ucmp (inserter_mem h) (inserter_sequence h) kTypeDeletion k [])"

definition WriteBatchInternal_InsertInto ::
    "bool \<Rightarrow> (slice \<Rightarrow> slice \<Rightarrow> int) \<Rightarrow> WriteBatch \<Rightarrow> MemTable \<Rightarrow> (MemTable \<times> Status) option" where
  "WriteBatchInternal_InsertInto le ucmp b m =
     map_option (\<lambda>(h, s). (inserter_mem h, s))
       (WriteBatch_Iterate le (MemTableInserter_Put le ucmp) (MemTableInserter_Delete le ucmp) b
          \<lparr>inserter_sequence = WriteBatchInternal_Sequence le b, inserter_mem = m\<rparr>)"

definition WriteBatchInternal_Contents :: "WriteBatch \<Rightarrow> slice" where "WriteBatchInternal_Contents b = b"

definition WriteBatchInternal_ByteSize :: "WriteBatch \<Rightarrow> nat" where "WriteBatchInternal_ByteSize b = length b"

definition WriteBatchInternal_SetContents :: "WriteBatch \<Rightarrow> slice \<Rightarrow> WriteBatch option" where
  "WriteBatchInternal_SetContents b contents = (if length contents \<ge> kHeader then Some contents else None)"

definition WriteBatchInternal_Append :: "bool \<Rightarrow> WriteBatch \<Rightarrow> WriteBatch \<Rightarrow> WriteBatch option" where
  "WriteBatchInternal_Append le dst src =
     (let dst = WriteBatchInternal_SetCount le dst (WriteBatchInternal_Count le dst + WriteBatchInternal_Count le src)
      in if length src \<ge> kHeader then Some (dst @ drop kHeader src) else None)"

subsection \<open>A batch as a list of operations\<close>

datatype batch_op = OpPut slice slice | OpDelete slice

definition op_ok :: "batch_op \<Rightarrow> bool" where
  "op_ok op = (case op of OpPut k v \<Rightarrow> length k + 8 < 2 ^ 32 \<and> length v < 2 ^ 32 | OpDelete k \<Rightarrow> length k + 8 < 2 ^ 32)"

definition record_bytes :: "batch_op \<Rightarrow> byte list" where
  "record_bytes op =
     (case op of
        OpPut k v \<Rightarrow> ValueType_byte kTypeValue # PutLengthPrefixedSlice [] k @ PutLengthPrefixedSlice [] v
      | OpDelete k \<Rightarrow> ValueType_byte kTypeDeletion # PutLengthPrefixedSlice [] k)"

definition batch_rep :: "WriteBatch \<Rightarrow> SequenceNumber \<Rightarrow> batch_op list \<Rightarrow> bool" where
  "batch_rep b s ops \<longleftrightarrow>
     b = word_le 8 s @ word_le 4 (word_of_nat (length ops) :: 32 word) @ concat (map record_bytes ops) \<and> list_all op_ok ops"

definition apply_op :: "bool \<Rightarrow> WriteBatch \<Rightarrow> batch_op \<Rightarrow> WriteBatch" where
  "apply_op le b op = (case op of OpPut k v \<Rightarrow> WriteBatch_Put le b k v | OpDelete k \<Rightarrow> WriteBatch_Delete le b k)"

lemma word_le_zero: "word_le n (0 :: 'a::len word) = replicate n 0"
  by (induction n) simp_all

lemma batch_rep_Clear: "batch_rep (WriteBatch_Clear b) 0 []"
  by (simp add: batch_rep_def WriteBatch_Clear_def word_le_zero replicate_add [symmetric])

lemma batch_rep_header:
  assumes "batch_rep b s ops"
  shows "WriteBatchInternal_Count le b = word_of_nat (length ops)" "WriteBatchInternal_Sequence le b = s"
    "WriteBatchInternal_SetCount le b n = word_le 8 s @ word_le 4 n @ concat (map record_bytes ops)"
    "drop 12 b = concat (map record_bytes ops)" "12 \<le> length b"
  using assms coding_fixed32 [of le le "word_of_nat (length ops)" "concat (map record_bytes ops)"]
    coding_fixed64 [of le le s "drop 8 b"]
  by (auto simp: batch_rep_def WriteBatchInternal_Count_def WriteBatchInternal_Sequence_def WriteBatchInternal_SetCount_def EncodeFixed_le)

lemma batch_rep_SetSequence:
  "batch_rep b s ops \<Longrightarrow> batch_rep (WriteBatchInternal_SetSequence le b s') s' ops"
  by (auto simp: batch_rep_def WriteBatchInternal_SetSequence_def EncodeFixed_le)

lemma batch_rep_apply:
  assumes "batch_rep b s ops" and "op_ok op"
  shows "batch_rep (apply_op le b op) s (ops @ [op])"
  using assms(2) batch_rep_header(1,3) [OF assms(1), of le] assms(1)
  by (cases op) (simp_all add: batch_rep_def apply_op_def WriteBatch_Put_def WriteBatch_Delete_def Let_def record_bytes_def
      PutLengthPrefixedSlice_append [of "_ @ _"] PutLengthPrefixedSlice_append [of "_ # _"] add.commute)

lemma batch_rep_Append:
  assumes "batch_rep a s xs" and "batch_rep b s' ys"
  shows "\<exists>c. WriteBatchInternal_Append le a b = Some c \<and> batch_rep c s (xs @ ys)"
  using assms batch_rep_header(1,3) [OF assms(1), of le] batch_rep_header(1) [OF assms(2), of le] batch_rep_header(4,5) [OF assms(2)]
  by (auto simp: WriteBatchInternal_Append_def Let_def batch_rep_def)

subsection \<open>Iteration\<close>

text \<open>The calls that a list of operations makes on a handler.\<close>

primrec run_op :: "('h \<Rightarrow> slice \<Rightarrow> slice \<Rightarrow> 'h option) \<Rightarrow> ('h \<Rightarrow> slice \<Rightarrow> 'h option) \<Rightarrow> batch_op \<Rightarrow> 'h \<Rightarrow> 'h option" where
  "run_op put del (OpPut k v) h = put h k v"
| "run_op put del (OpDelete k) h = del h k"

primrec run_ops :: "('h \<Rightarrow> slice \<Rightarrow> slice \<Rightarrow> 'h option) \<Rightarrow> ('h \<Rightarrow> slice \<Rightarrow> 'h option) \<Rightarrow> batch_op list \<Rightarrow> 'h \<Rightarrow> 'h option" where
  "run_ops put del [] h = Some h"
| "run_ops put del (op # ops) h = (case run_op put del op h of None \<Rightarrow> None | Some h \<Rightarrow> run_ops put del ops h)"

lemma corruption_status:
  "length msg < 1000 \<Longrightarrow> corruption h msg = Some (h, Some (status_bytes kCorruption (str msg) []))"
  using Status_init_bytes [of kCorruption "str msg" "[]"]
  by (simp add: corruption_def Status_Corruption_def status_text_def)

lemma iterate_record:
  assumes "op_ok op"
  shows "iterate_loop put del n (record_bytes op @ rest) f h =
    (case run_op put del op h of None \<Rightarrow> None | Some h' \<Rightarrow> iterate_loop put del n rest (f + 1) h')"
proof (cases op)
  case (OpPut k v)
  with assms have "GetLengthPrefixedSlice (PutLengthPrefixedSlice [] k @ PutLengthPrefixedSlice [] v @ rest) =
      Some (k, PutLengthPrefixedSlice [] v @ rest)" "GetLengthPrefixedSlice (PutLengthPrefixedSlice [] v @ rest) = Some (v, rest)"
    by (simp_all add: coding_slice op_ok_def)
  then show ?thesis using OpPut by (simp add: record_bytes_def)
next
  case (OpDelete k)
  with assms have "GetLengthPrefixedSlice (PutLengthPrefixedSlice [] k @ rest) = Some (k, rest)"
    by (simp add: coding_slice op_ok_def)
  then show ?thesis using OpDelete by (simp add: record_bytes_def)
qed

lemma iterate_ops:
  "list_all op_ok ops \<Longrightarrow>
   iterate_loop put del n (concat (map record_bytes ops) @ rest) f h =
     (case run_ops put del ops h of None \<Rightarrow> None | Some h' \<Rightarrow> iterate_loop put del n rest (f + word_of_nat (length ops)) h')"
proof (induction ops arbitrary: f h)
  case (Cons op ops)
  then show ?case by (simp add: iterate_record algebra_simps split: option.split)
qed simp

lemma Iterate_batch:
  assumes "batch_rep b s ops"
  shows "WriteBatch_Iterate le put del b h = map_option (\<lambda>h'. (h', Status_OK)) (run_ops put del ops h)"
  using batch_rep_header(1,3) [OF assms, of le] batch_rep_header(4,5) [OF assms] assms
    iterate_ops [of ops put del "word_of_nat (length ops)" "[]" 0 h]
  by (auto simp: WriteBatch_Iterate_def Slice_remove_prefix_def batch_rep_def split: option.split)

text \<open>Without the checks of the bytes: the operations and the status are functions of the bytes alone.\<close>

lemma iterate_loop_any:
  "\<exists>ops st. (\<forall>put del (h :: 'h). iterate_loop put del n input f h = map_option (\<lambda>h'. (h', st)) (run_ops put del ops h)) \<and>
     (if st = Status_OK then f + word_of_nat (length ops) = n else Status_IsCorruption st)"
proof (induction "length input" arbitrary: input f rule: less_induct)
  case less
  have stop: ?case if "\<And>put del (h :: 'h). iterate_loop put del n input f h = corruption h msg" "length msg < 1000" for msg
    using that by (intro exI [of _ "[]"] exI [of _ "Some (status_bytes kCorruption (str msg) [])"])
      (simp add: corruption_status Status_OK_def Status_IsCorruption_def)
  have step: ?case if run: "\<And>put del (h :: 'h). iterate_loop put del n input f h =
      (case run_op put del op h of None \<Rightarrow> None | Some h \<Rightarrow> iterate_loop put del n rest (f + 1) h)" and len: "length rest < length input" for op rest
  proof -
    obtain ops st where o: "\<And>put del (h :: 'h). iterate_loop put del n rest (f + 1) h = map_option (\<lambda>h'. (h', st)) (run_ops put del ops h)"
      "if st = Status_OK then f + 1 + word_of_nat (length ops) = n else Status_IsCorruption st"
      using less [OF len, of "f + 1"] by blast
    then show ?thesis using run
      by (intro exI [of _ "op # ops"] exI [of _ st]) (auto simp: algebra_simps split: option.split)
  qed
  show ?case
  proof (cases input)
    case Nil
    show ?thesis
    proof (cases "f = n")
      case True
      then show ?thesis using Nil by (intro exI [of _ "[]"] exI [of _ Status_OK]) simp
    next
      case False
      then show ?thesis using Nil by (intro stop [of "''WriteBatch has wrong count''"]) simp_all
    qed
  next
    case (Cons c rest)
    consider (none) "ValueType_of_byte c = None" | (put) "ValueType_of_byte c = Some kTypeValue"
      | (del) "ValueType_of_byte c = Some kTypeDeletion"
      using ValueType.exhaust by (metis option.exhaust)
    then show ?thesis
    proof cases
      case none
      then show ?thesis using Cons by (intro stop [of "''unknown WriteBatch tag''"]) simp_all
    next
      case del
      show ?thesis
      proof (cases "GetLengthPrefixedSlice rest")
        case None
        then show ?thesis using Cons del by (intro stop [of "''bad WriteBatch Delete''"]) simp_all
      next
        case (Some p)
        then obtain k r where "GetLengthPrefixedSlice rest = Some (k, r)" by (cases p) auto
        then show ?thesis using Cons del GetLengthPrefixedSlice_shorter [of rest k r]
          by (intro step [where op = "OpDelete k" and rest = r]) auto
      qed
    next
      case put
      show ?thesis
      proof (cases "GetLengthPrefixedSlice rest")
        case None
        then show ?thesis using Cons put by (intro stop [of "''bad WriteBatch Put''"]) simp_all
      next
        case (Some p)
        then obtain k r where k: "GetLengthPrefixedSlice rest = Some (k, r)" by (cases p) auto
        show ?thesis
        proof (cases "GetLengthPrefixedSlice r")
          case None
          then show ?thesis using Cons put k by (intro stop [of "''bad WriteBatch Put''"]) auto
        next
          case (Some q)
          then obtain v r' where "GetLengthPrefixedSlice r = Some (v, r')" by (cases q) auto
          then show ?thesis using Cons put k GetLengthPrefixedSlice_shorter [of rest k r] GetLengthPrefixedSlice_shorter [of r v r']
            by (intro step [where op = "OpPut k v" and rest = r']) auto
        qed
      qed
    qed
  qed
qed

lemma Iterate_any:
  "\<exists>ops st. (\<forall>put del (h :: 'h). WriteBatch_Iterate le put del b h = map_option (\<lambda>h'. (h', st)) (run_ops put del ops h)) \<and>
     (if st = Status_OK then word_of_nat (length ops) = WriteBatchInternal_Count le b else Status_IsCorruption st)"
proof (cases "length b < 12")
  case True
  then show ?thesis
    by (intro exI [of _ "[]"] exI [of _ "Some (status_bytes kCorruption (str ''malformed WriteBatch (too small)'') [])"])
      (simp add: WriteBatch_Iterate_def corruption_status Status_OK_def Status_IsCorruption_def)
next
  case False
  obtain ops st where o: "\<And>put del (h :: 'h). iterate_loop put del (WriteBatchInternal_Count le b) (drop 12 b) 0 h =
      map_option (\<lambda>h'. (h', st)) (run_ops put del ops h)"
    "if st = Status_OK then 0 + word_of_nat (length ops) = WriteBatchInternal_Count le b else Status_IsCorruption st"
    using iterate_loop_any [where 'h = 'h, of "WriteBatchInternal_Count le b" "drop 12 b" 0] by blast
  then show ?thesis using False
    by (intro exI [of _ ops] exI [of _ st]) (simp add: WriteBatch_Iterate_def Slice_remove_prefix_def split: if_splits)
qed

subsection \<open>A batch in a memtable\<close>

primrec op_entry :: "SequenceNumber \<Rightarrow> batch_op \<Rightarrow> mentry" where
  "op_entry s (OpPut k v) = \<lparr>mseq = s, mtype = kTypeValue, mkey = k, mval = v\<rparr>"
| "op_entry s (OpDelete k) = \<lparr>mseq = s, mtype = kTypeDeletion, mkey = k, mval = []\<rparr>"

primrec batch_entries :: "SequenceNumber \<Rightarrow> batch_op list \<Rightarrow> mentry list" where
  "batch_entries s [] = []"
| "batch_entries s (op # ops) = op_entry s op # batch_entries (s + 1) ops"

primrec op_key :: "batch_op \<Rightarrow> slice" where
  "op_key (OpPut k v) = k"
| "op_key (OpDelete k) = k"

text \<open>The last operation on a key, and what a reader of the key is told then.\<close>

definition last_op :: "(slice \<Rightarrow> slice \<Rightarrow> int) \<Rightarrow> batch_op list \<Rightarrow> slice \<Rightarrow> batch_op option" where
  "last_op ucmp ops u = find (\<lambda>op. ucmp (op_key op) u = 0) (rev ops)"

primrec op_result :: "batch_op \<Rightarrow> byte list \<Rightarrow> Status \<Rightarrow> bool \<times> byte list \<times> Status" where
  "op_result (OpPut k v') v st = (True, v', st)"
| "op_result (OpDelete k) v st = (True, v, Some (status_bytes kNotFound [] []))"

lemma op_entry_simps [simp]:
  "mseq (op_entry s op) = s" "mkey (op_entry s op) = op_key op" "get_result (op_entry s op) v st = op_result op v st"
  by (cases op; simp add: get_result_def)+

lemma op_entry_ok: "op_ok op \<Longrightarrow> s \<le> kMaxSequenceNumber \<Longrightarrow> mentry_ok (op_entry s op)"
  by (cases op) (simp_all add: op_ok_def mentry_ok_def)

lemma seq_bound: "unat s + n \<le> 2 ^ 56 \<Longrightarrow> 0 < n \<Longrightarrow> s \<le> kMaxSequenceNumber"
  by (simp add: word_le_nat_alt kMaxSequenceNumber_def)

lemma unat_seq_add: "unat s + n \<le> 2 ^ 56 \<Longrightarrow> unat (s + word_of_nat n :: SequenceNumber) = unat s + n"
  by (simp add: unat_word_ariths unat_of_nat)

lemma mtag_mono: "mentry_ok e \<Longrightarrow> mentry_ok e' \<Longrightarrow> mseq e < mseq e' \<Longrightarrow> mtag e < mtag e'"
proof -
  assume "mentry_ok e" "mentry_ok e'" "mseq e < mseq e'"
  then have "unat (mtag e) = unat (mseq e) * 256 + unat (ValueType_byte (mtype e))"
    "unat (mtag e') = unat (mseq e') * 256 + unat (ValueType_byte (mtype e'))" "unat (mseq e) < unat (mseq e')"
    by (simp_all add: mtag_def mentry_ok_def unat_pack_tag word_less_nat_alt)
  moreover have "unat (ValueType_byte (mtype e)) < 256" using unsigned_less [of "ValueType_byte (mtype e)"] by simp
  ultimately show ?thesis unfolding word_less_nat_alt by linarith
qed

lemma batch_entries_seq:
  "e \<in> set (batch_entries s ops) \<Longrightarrow> unat s + length ops \<le> 2 ^ 56 \<Longrightarrow>
   unat s \<le> unat (mseq e) \<and> unat (mseq e) < unat s + length ops \<and> (\<exists>op\<in>set ops. mkey e = op_key op)"
proof (induction ops arbitrary: s)
  case (Cons op ops)
  have "unat (s + 1) = unat s + 1" using unat_seq_add [of s 1] Cons.prems(2) by simp
  then show ?case using Cons.IH [of "s + 1"] Cons.prems by auto
qed simp

lemma batch_entries_append:
  "batch_entries s (xs @ ys) = batch_entries s xs @ batch_entries (s + word_of_nat (length xs)) ys"
  by (induction xs arbitrary: s) (simp_all add: algebra_simps)

lemma batch_entries_ok:
  "list_all op_ok ops \<Longrightarrow> unat s + length ops \<le> 2 ^ 56 \<Longrightarrow> list_all mentry_ok (batch_entries s ops)"
proof (induction ops arbitrary: s)
  case (Cons op ops)
  have "unat (s + 1) = unat s + 1" using unat_seq_add [of s 1] Cons.prems(2) by simp
  moreover have "s \<le> kMaxSequenceNumber" using seq_bound [OF Cons.prems(2)] by simp
  ultimately show ?case using Cons by (simp add: op_entry_ok)
qed simp

context internal_order
begin

lemma insert_ops:
  assumes "mem_inv le ucmp m es" and "list_all op_ok ops" and "unat s + length ops \<le> 2 ^ 56"
    and "\<forall>e\<in>set es. mseq e < s"
  shows "\<exists>m' es'. run_ops (MemTableInserter_Put le ucmp) (MemTableInserter_Delete le ucmp) ops
      \<lparr>inserter_sequence = s, inserter_mem = m\<rparr> = Some \<lparr>inserter_sequence = s + word_of_nat (length ops), inserter_mem = m'\<rparr> \<and>
    mem_inv le ucmp m' es' \<and> set es' = set es \<union> set (batch_entries s ops)"
  using assms
proof (induction ops arbitrary: s m es)
  case Nil
  then show ?case by auto
next
  case (Cons op ops)
  have s: "s \<le> kMaxSequenceNumber" using seq_bound [OF Cons.prems(3)] by simp
  let ?e = "op_entry s op"
  have ok: "mentry_ok ?e" using Cons.prems(2) s by (simp add: op_entry_ok)
  have oks: "\<forall>e\<in>set es. mentry_ok e" using Cons.prems(1) by (simp add: mem_inv_def list_all_iff)
  have "\<forall>e'\<in>set es. \<not> (ucmp (mkey e') (mkey ?e) = 0 \<and> mtag e' = mtag ?e)"
    using Cons.prems(4) oks mtag_mono [OF _ ok] by fastforce
  from Add_inv [OF Cons.prems(1) ok this] obtain m1 es1 where a:
    "MemTable_Add le ucmp m (mseq ?e) (mtype ?e) (mkey ?e) (mval ?e) = Some m1" "mem_inv le ucmp m1 es1"
    "set es1 = insert ?e (set es)" by blast
  have run: "run_op (MemTableInserter_Put le ucmp) (MemTableInserter_Delete le ucmp) op \<lparr>inserter_sequence = s, inserter_mem = m\<rparr> =
      Some \<lparr>inserter_sequence = s + 1, inserter_mem = m1\<rparr>"
    using a(1) by (cases op) (simp_all add: MemTableInserter_Put_def MemTableInserter_Delete_def)
  have s1: "unat (s + 1) = unat s + 1" using unat_seq_add [of s 1] Cons.prems(3) by simp
  then have "\<forall>e\<in>set es1. mseq e < s + 1" using a(3) Cons.prems(4) by (auto simp: word_less_nat_alt)
  from Cons.IH [OF a(2) _ _ this] Cons.prems(2,3) s1 run a(3) show ?case by (auto simp: algebra_simps)
qed

end

text \<open>The last operation on a key is the one with the largest tag among those that a reader sees.\<close>

lemma last_op_split:
  assumes "last_op ucmp ops u = Some op"
  obtains xs ys where "ops = xs @ op # ys" "ucmp (op_key op) u = 0" "\<forall>op'\<in>set ys. ucmp (op_key op') u \<noteq> 0"
proof -
  from assms obtain i where i: "i < length ops" "ucmp (op_key (rev ops ! i)) u = 0" "op = rev ops ! i"
    "\<forall>j<i. ucmp (op_key (rev ops ! j)) u \<noteq> 0"
    by (auto simp: last_op_def find_Some_iff)
  then have r: "rev ops = take i (rev ops) @ op # drop (Suc i) (rev ops)" by (simp add: id_take_nth_drop)
  have "ops = rev (drop (Suc i) (rev ops)) @ op # rev (take i (rev ops))"
    using arg_cong [OF r, of rev] by simp
  moreover have "\<forall>op'\<in>set (rev (take i (rev ops))). ucmp (op_key op') u \<noteq> 0"
    using i(4) by (auto simp: in_set_conv_nth)
  ultimately show thesis using that i by metis
qed

lemma last_op_None: "last_op ucmp ops u = None \<longleftrightarrow> (\<forall>op\<in>set ops. ucmp (op_key op) u \<noteq> 0)"
  by (auto simp: last_op_def find_None_iff)

context internal_order
begin

lemma Get_cong:
  assumes "mem_inv le ucmp m es" "mem_inv le ucmp m' es'" "LookupKey_init le u s = Some lk" "length u + 8 < 2 ^ 32"
    and "visible ucmp es' u s = visible ucmp es u s"
  shows "MemTable_Get le ucmp m' lk v st = MemTable_Get le ucmp m lk v st"
proof (cases "visible ucmp es u s = {}")
  case True
  then show ?thesis using assms Get_spec(1) by metis
next
  case False
  let ?ts = "mtag ` visible ucmp es u s"
  have fin: "finite ?ts" by (simp add: visible_def)
  then have "Max ?ts \<in> ?ts" using False by (intro Max_in) simp_all
  then obtain e where "e \<in> visible ucmp es u s" "mtag e = Max ?ts" by force
  then have "e \<in> visible ucmp es u s" "\<And>e'. e' \<in> visible ucmp es u s \<Longrightarrow> mtag e' \<le> mtag e"
    using fin by simp_all
  then show ?thesis using assms Get_spec(2) by metis
qed

lemma batch_get:
  assumes m: "mem_inv le ucmp m es" and b: "batch_rep b s ops" and n: "unat s + length ops \<le> 2 ^ 56"
    and old: "\<forall>e\<in>set es. mseq e < s" and u: "length u + 8 < 2 ^ 32"
    and lk: "LookupKey_init le u q = Some lk" and q: "unat s + length ops \<le> unat q + 1"
  shows "\<exists>m' es'. WriteBatchInternal_InsertInto le ucmp b m = Some (m', Status_OK) \<and>
    mem_inv le ucmp m' es' \<and> set es' = set es \<union> set (batch_entries s ops) \<and>
    MemTable_Get le ucmp m' lk v st =
      (case last_op ucmp ops u of Some op \<Rightarrow> Some (op_result op v st) | None \<Rightarrow> MemTable_Get le ucmp m lk v st)"
proof -
  have oks: "list_all op_ok ops" using b by (simp add: batch_rep_def)
  obtain m' es' where r: "run_ops (MemTableInserter_Put le ucmp) (MemTableInserter_Delete le ucmp) ops
      \<lparr>inserter_sequence = s, inserter_mem = m\<rparr> = Some \<lparr>inserter_sequence = s + word_of_nat (length ops), inserter_mem = m'\<rparr>"
    and m': "mem_inv le ucmp m' es'" and es': "set es' = set es \<union> set (batch_entries s ops)"
    using insert_ops [OF m oks n old] by blast
  have "WriteBatchInternal_InsertInto le ucmp b m = Some (m', Status_OK)"
    using r by (simp add: WriteBatchInternal_InsertInto_def Iterate_batch [OF b] batch_rep_header(2) [OF b])
  moreover have "MemTable_Get le ucmp m' lk v st =
      (case last_op ucmp ops u of Some op \<Rightarrow> Some (op_result op v st) | None \<Rightarrow> MemTable_Get le ucmp m lk v st)"
  proof (cases "last_op ucmp ops u")
    case None
    then have "ucmp (mkey e) u \<noteq> 0" if "e \<in> set (batch_entries s ops)" for e
      using batch_entries_seq [OF that n] by (auto simp: last_op_None)
    then have "visible ucmp es' u q = visible ucmp es u q" by (auto simp: visible_def es')
    then show ?thesis using Get_cong [OF m m' lk u] None by simp
  next
    case (Some op)
    then obtain xs ys where ops: "ops = xs @ op # ys" "ucmp (op_key op) u = 0" "\<forall>op'\<in>set ys. ucmp (op_key op') u \<noteq> 0"
      by (rule last_op_split)
    let ?s = "s + word_of_nat (length xs)"
    let ?e = "op_entry ?s op"
    have us: "unat ?s = unat s + length xs" using n ops(1) by (intro unat_seq_add) simp
    have ents: "batch_entries s ops = batch_entries s xs @ ?e # batch_entries (?s + 1) ys"
      by (simp add: ops(1) batch_entries_append)
    have ok: "mentry_ok e" if "e \<in> set es'" for e using m' that by (simp add: mem_inv_def list_all_iff)
    have "?e \<in> visible ucmp es' u q"
      using arg_cong [OF ops(1), of length] ops(2) q us by (simp add: visible_def es' ents word_le_nat_alt)
    moreover have "mtag e \<le> mtag ?e" if e: "e \<in> visible ucmp es' u q" for e
    proof -
      have s1: "unat (?s + 1) = unat ?s + 1" using unat_seq_add [of ?s 1] n ops(1) us by simp
      have "e \<notin> set (batch_entries (?s + 1) ys)"
        using e ops(3) batch_entries_seq [of e "?s + 1" ys] n ops(1) s1 us by (auto simp: visible_def)
      then consider "e \<in> set es" | "e \<in> set (batch_entries s xs)" | "e = ?e"
        using e by (auto simp: visible_def es' ents)
      then have "e = ?e \<or> mseq e < mseq ?e"
        using old us batch_entries_seq [of e s xs] n ops(1) by cases (auto simp: word_less_nat_alt)
      then show ?thesis using mtag_mono [OF ok ok, of e ?e] e es' ents by (auto simp: visible_def)
    qed
    ultimately show ?thesis using Get_spec(2) [OF m' lk u, of ?e v st] Some by simp
  qed
  ultimately show ?thesis using m' es' by blast
qed

end

subsection \<open>Properties\<close>

text \<open>
  C4: writing a batch and reading it back, across the batch, the memtable and the skip list, for any user
  comparator that is an order. If the sequence numbers of the batch are above those in the memtable and
  stay below \<open>2^56\<close>, \<^verbatim>\<open>InsertInto\<close> succeeds and keeps the memtable well-formed; a reader at the last sequence
  number of the batch or later sees the last operation of the batch on its key, and what it saw before
  if the batch does not mention the key.
\<close>

theorem batch_write_read:
  assumes "key_order ucmp" and "mem_inv le ucmp m es" and "batch_rep b s ops" and "unat s + length ops \<le> 2 ^ 56"
    and "\<forall>e\<in>set es. mseq e < s" and "length u + 8 < 2 ^ 32"
    and "LookupKey_init le u q = Some lk" and "unat s + length ops \<le> unat q + 1"
  shows "\<exists>m' es'. WriteBatchInternal_InsertInto le ucmp b m = Some (m', Status_OK) \<and>
    mem_inv le ucmp m' es' \<and> set es' = set es \<union> set (batch_entries s ops) \<and>
    MemTable_Get le ucmp m' lk v st =
      (case last_op ucmp ops u of Some op \<Rightarrow> Some (op_result op v st) | None \<Rightarrow> MemTable_Get le ucmp m lk v st)"
  using internal_order.batch_get [OF internal_order.intro [OF assms(1)] assms(2-8)] .

text \<open>The example of the comment in \<^verbatim>\<open>write_batch.h\<close>: put, delete, put, put of one key.\<close>

definition example_ops :: "batch_op list" where
  "example_ops = [OpPut [107] [1], OpDelete [107], OpPut [107] [2], OpPut [107] [3]]"

lemma build_batch: "list_all op_ok ops \<Longrightarrow> batch_rep b s xs \<Longrightarrow> batch_rep (foldl (apply_op le) b ops) s (xs @ ops)"
proof (induction ops arbitrary: b xs)
  case (Cons op ops)
  then have "batch_rep (apply_op le b op) s (xs @ [op])" by (intro batch_rep_apply) simp_all
  from Cons.IH [OF _ this] Cons.prems(1) show ?case by simp
qed simp

theorem batch_write_read_witness:
  "\<exists>m m' lk. MemTable_init = Some m \<and>
     WriteBatchInternal_InsertInto True Slice_compare
       (WriteBatchInternal_SetSequence True (foldl (apply_op True) WriteBatch_init example_ops) 10) m = Some (m', Status_OK) \<and>
     LookupKey_init True [107] 13 = Some lk \<and> MemTable_Get True Slice_compare m' lk [] None = Some (True, [3], None)"
proof -
  obtain m where m: "MemTable_init = Some m" "mem_inv True Slice_compare m []"
    using MemTable_init_inv [of True Slice_compare] by (elim exE conjE)
  obtain lk where lk: "LookupKey_init True [107] 13 = Some lk"
    using LookupKey_bytes [of 13 True "[107]"] by (auto simp: kMaxSequenceNumber_def)
  have "list_all op_ok example_ops" by (simp add: example_ops_def op_ok_def)
  then have "batch_rep (foldl (apply_op True) WriteBatch_init example_ops) 0 example_ops"
    using build_batch [OF _ batch_rep_Clear, of example_ops True "[]"] by (simp add: WriteBatch_init_def)
  then have b: "batch_rep (WriteBatchInternal_SetSequence True (foldl (apply_op True) WriteBatch_init example_ops) 10) 10 example_ops"
    by (rule batch_rep_SetSequence)
  have n: "length example_ops = 4" by (simp add: example_ops_def)
  have l: "last_op Slice_compare example_ops [107] = Some (OpPut [107] [3])" by (simp add: last_op_def example_ops_def)
  from batch_write_read [OF bytewise.key_order_axioms m(2) b _ _ _ lk, of "[]" None]
  show ?thesis using m(1) lk n l by auto
qed

text \<open>
  C29: building a batch and iterating over it are inverse: the handler sees the puts and deletes of the
  batch in the order in which they were added, and the status is OK; the header has their number and the
  sequence number that was set.
\<close>

theorem batch_roundtrip:
  assumes "list_all op_ok ops" and "b = WriteBatchInternal_SetSequence le (foldl (apply_op le) WriteBatch_init ops) s"
  shows "WriteBatch_Iterate le put del b h = map_option (\<lambda>h'. (h', Status_OK)) (run_ops put del ops h) \<and>
    WriteBatchInternal_Count le b = word_of_nat (length ops) \<and> WriteBatchInternal_Sequence le b = s"
proof -
  have "batch_rep b s ops"
    unfolding assms(2) using build_batch [OF assms(1) batch_rep_Clear, of le "[]"]
    by (intro batch_rep_SetSequence) (simp add: WriteBatch_init_def)
  then show ?thesis by (simp add: Iterate_batch batch_rep_header(1,2))
qed

theorem batch_roundtrip_witness:
  "WriteBatch_Iterate True (\<lambda>h k v. Some (h @ [OpPut k v])) (\<lambda>h k. Some (h @ [OpDelete k]))
     (WriteBatchInternal_SetSequence True (foldl (apply_op True) WriteBatch_init example_ops) 10) [] = Some (example_ops, Status_OK)"
  using batch_roundtrip [OF _ refl, where ops = example_ops and le = True and s = 10 and put = "\<lambda>h k v. Some (h @ [OpPut k v])" and del = "\<lambda>h k. Some (h @ [OpDelete k])" and h = "[]"]
  by (simp add: example_ops_def op_ok_def)

text \<open>
  C30: iteration over any bytes, well-formed or not, returns. The calls that it makes and its status depend
  on the bytes alone, not on the handler; the status is OK only if as many records were read as the header
  says, and otherwise it is a corruption. The handler's own result is the only other way to fail.
\<close>

theorem batch_iterate_total:
  "\<exists>ops st. (\<forall>put del (h :: 'h). WriteBatch_Iterate le put del b h = map_option (\<lambda>h'. (h', st)) (run_ops put del ops h)) \<and>
     (if st = Status_OK then word_of_nat (length ops) = WriteBatchInternal_Count le b else Status_IsCorruption st)"
  by (rule Iterate_any)

end
