(* ===== verification/LDB_VersionEdit.thy ===== *)
theory LDB_VersionEdit
  imports LDB_Format LDB_Status "HOL-Library.Product_Lexorder" "HOL-Library.Monad_Syntax"
begin

text \<open>
  Version edits, the records of the descriptor log: \<^verbatim>\<open>db/version_edit.h\<close> and \<^verbatim>\<open>db/version_edit.cc\<close>. The ordered
  set of deleted files is the sorted list of its elements. \<^verbatim>\<open>EncodeTo\<close> is \<open>None\<close> when the assertion that a
  key is not empty fails; \<^verbatim>\<open>DecodeFrom\<close> returns the edit and the status.

  The lemmas view the serialization as a list of fields: encoding concatenates the bytes of the fields
  of an edit, decoding applies the fields one after the other.
\<close>

record FileMetaData =
  file_refs :: int
  allowed_seeks :: int
  file_number :: "64 word"
  file_size :: "64 word"
  smallest :: InternalKey
  largest :: InternalKey

text \<open>The constructor leaves the number undefined; all code sets it before it is used.\<close>

definition FileMetaData_init :: FileMetaData where
  "FileMetaData_init = \<lparr>file_refs = 0, allowed_seeks = 2 ^ 30, file_number = 0, file_size = 0, smallest = [], largest = []\<rparr>"

record VersionEdit =
  comparator_name :: "byte list"
  log_number :: "64 word"
  prev_log_number :: "64 word"
  next_file_number :: "64 word"
  last_sequence :: SequenceNumber
  has_comparator :: bool
  has_log_number :: bool
  has_prev_log_number :: bool
  has_next_file_number :: bool
  has_last_sequence :: bool
  compact_pointers :: "(int \<times> InternalKey) list"
  deleted_files :: "(int \<times> 64 word) list"
  new_files :: "(int \<times> FileMetaData) list"

definition VersionEdit_Clear :: "VersionEdit \<Rightarrow> VersionEdit" where
  "VersionEdit_Clear e = e\<lparr>comparator_name := [], log_number := 0, prev_log_number := 0, last_sequence := 0,
     next_file_number := 0, has_comparator := False, has_log_number := False, has_prev_log_number := False,
     has_next_file_number := False, has_last_sequence := False, deleted_files := [], new_files := []\<rparr>"

text \<open>The constructor: the containers are empty, and \<^verbatim>\<open>Clear\<close> sets the other members.\<close>

definition VersionEdit_init :: VersionEdit where
  "VersionEdit_init = VersionEdit_Clear
     \<lparr>comparator_name = [], log_number = 0, prev_log_number = 0, next_file_number = 0, last_sequence = 0,
      has_comparator = False, has_log_number = False, has_prev_log_number = False, has_next_file_number = False,
      has_last_sequence = False, compact_pointers = [], deleted_files = [], new_files = []\<rparr>"

definition SetComparatorName :: "VersionEdit \<Rightarrow> slice \<Rightarrow> VersionEdit" where
  "SetComparatorName e name = e\<lparr>has_comparator := True, comparator_name := name\<rparr>"

definition SetLogNumber :: "VersionEdit \<Rightarrow> 64 word \<Rightarrow> VersionEdit" where
  "SetLogNumber e num = e\<lparr>has_log_number := True, log_number := num\<rparr>"

definition SetPrevLogNumber :: "VersionEdit \<Rightarrow> 64 word \<Rightarrow> VersionEdit" where
  "SetPrevLogNumber e num = e\<lparr>has_prev_log_number := True, prev_log_number := num\<rparr>"

definition SetNextFile :: "VersionEdit \<Rightarrow> 64 word \<Rightarrow> VersionEdit" where
  "SetNextFile e num = e\<lparr>has_next_file_number := True, next_file_number := num\<rparr>"

definition SetLastSequence :: "VersionEdit \<Rightarrow> SequenceNumber \<Rightarrow> VersionEdit" where
  "SetLastSequence e seq = e\<lparr>has_last_sequence := True, last_sequence := seq\<rparr>"

definition SetCompactPointer :: "VersionEdit \<Rightarrow> int \<Rightarrow> InternalKey \<Rightarrow> VersionEdit" where
  "SetCompactPointer e level k = e\<lparr>compact_pointers := compact_pointers e @ [(level, k)]\<rparr>"

definition AddFile :: "VersionEdit \<Rightarrow> int \<Rightarrow> 64 word \<Rightarrow> 64 word \<Rightarrow> InternalKey \<Rightarrow> InternalKey \<Rightarrow> VersionEdit" where
  "AddFile e level num sz small large =
     (let f = FileMetaData_init\<lparr>file_number := num, file_size := sz, smallest := small, largest := large\<rparr>
      in e\<lparr>new_files := new_files e @ [(level, f)]\<rparr>)"

definition DeleteFile :: "VersionEdit \<Rightarrow> int \<Rightarrow> 64 word \<Rightarrow> VersionEdit" where
  "DeleteFile e level num = e\<lparr>deleted_files := insort_insert (level, num) (deleted_files e)\<rparr>"

subsection \<open>Encoding\<close>

abbreviation (input) kComparator :: "32 word" where "kComparator \<equiv> 1"
abbreviation (input) kLogNumber :: "32 word" where "kLogNumber \<equiv> 2"
abbreviation (input) kNextFileNumber :: "32 word" where "kNextFileNumber \<equiv> 3"
abbreviation (input) kLastSequence :: "32 word" where "kLastSequence \<equiv> 4"
abbreviation (input) kCompactPointer :: "32 word" where "kCompactPointer \<equiv> 5"
abbreviation (input) kDeletedFile :: "32 word" where "kDeletedFile \<equiv> 6"
abbreviation (input) kNewFile :: "32 word" where "kNewFile \<equiv> 7"
abbreviation (input) kPrevLogNumber :: "32 word" where "kPrevLogNumber \<equiv> 9"

definition put_compact :: "byte list \<Rightarrow> int \<times> InternalKey \<Rightarrow> byte list option" where
  "put_compact dst p =
     map_option (PutLengthPrefixedSlice (PutVarint32 (PutVarint32 dst kCompactPointer) (word_of_int (fst p))))
       (InternalKey_Encode (snd p))"

definition put_deleted :: "byte list \<Rightarrow> int \<times> 64 word \<Rightarrow> byte list" where
  "put_deleted dst p = PutVarint64 (PutVarint32 (PutVarint32 dst kDeletedFile) (word_of_int (fst p))) (snd p)"

definition put_new_file :: "byte list \<Rightarrow> int \<times> FileMetaData \<Rightarrow> byte list option" where
  "put_new_file dst p =
     (let f = snd p;
          dst = PutVarint32 dst kNewFile;
          dst = PutVarint32 dst (word_of_int (fst p));
          dst = PutVarint64 dst (file_number f);
          dst = PutVarint64 dst (file_size f)
      in case InternalKey_Encode (smallest f) of None \<Rightarrow> None
         | Some k \<Rightarrow> map_option (PutLengthPrefixedSlice (PutLengthPrefixedSlice dst k)) (InternalKey_Encode (largest f)))"

primrec fold_opt :: "('s \<Rightarrow> 'x \<Rightarrow> 's option) \<Rightarrow> 'x list \<Rightarrow> 's \<Rightarrow> 's option" where
  "fold_opt f [] s = Some s"
| "fold_opt f (x # xs) s = (case f s x of None \<Rightarrow> None | Some s \<Rightarrow> fold_opt f xs s)"

definition VersionEdit_EncodeTo :: "VersionEdit \<Rightarrow> byte list \<Rightarrow> byte list option" where
  "VersionEdit_EncodeTo e dst =
     (let dst = (if has_comparator e then PutLengthPrefixedSlice (PutVarint32 dst kComparator) (comparator_name e) else dst);
          dst = (if has_log_number e then PutVarint64 (PutVarint32 dst kLogNumber) (log_number e) else dst);
          dst = (if has_prev_log_number e then PutVarint64 (PutVarint32 dst kPrevLogNumber) (prev_log_number e) else dst);
          dst = (if has_next_file_number e then PutVarint64 (PutVarint32 dst kNextFileNumber) (next_file_number e) else dst);
          dst = (if has_last_sequence e then PutVarint64 (PutVarint32 dst kLastSequence) (last_sequence e) else dst)
      in case fold_opt put_compact (compact_pointers e) dst of None \<Rightarrow> None
         | Some dst \<Rightarrow> fold_opt put_new_file (new_files e) (foldl put_deleted dst (deleted_files e)))"

subsection \<open>Decoding\<close>

definition GetInternalKey :: "slice \<Rightarrow> (InternalKey \<times> slice) option" where
  "GetInternalKey input = map_option (\<lambda>(s, rest). (InternalKey_DecodeFrom [] s, rest)) (GetLengthPrefixedSlice input)"

definition GetLevel :: "slice \<Rightarrow> (int \<times> slice) option" where
  "GetLevel input =
     (case GetVarint32 input of None \<Rightarrow> None | Some (v, rest) \<Rightarrow> if v < 7 then Some (uint v, rest) else None)"

text \<open>The \<^verbatim>\<open>switch\<close>: the edit and the rest of the input, or the message of an error.\<close>

definition edit_decode_field :: "32 word \<Rightarrow> slice \<Rightarrow> VersionEdit \<Rightarrow> string + (VersionEdit \<times> slice)" where
  "edit_decode_field num input e =
     (if num = kComparator then
        (case GetLengthPrefixedSlice input of
           Some (s, input) \<Rightarrow> Inr (e\<lparr>comparator_name := s, has_comparator := True\<rparr>, input)
         | None \<Rightarrow> Inl ''comparator name'')
      else if num = kLogNumber then
        (case GetVarint64 input of
           Some (v, input) \<Rightarrow> Inr (e\<lparr>log_number := v, has_log_number := True\<rparr>, input)
         | None \<Rightarrow> Inl ''log number'')
      else if num = kPrevLogNumber then
        (case GetVarint64 input of
           Some (v, input) \<Rightarrow> Inr (e\<lparr>prev_log_number := v, has_prev_log_number := True\<rparr>, input)
         | None \<Rightarrow> Inl ''previous log number'')
      else if num = kNextFileNumber then
        (case GetVarint64 input of
           Some (v, input) \<Rightarrow> Inr (e\<lparr>next_file_number := v, has_next_file_number := True\<rparr>, input)
         | None \<Rightarrow> Inl ''next file number'')
      else if num = kLastSequence then
        (case GetVarint64 input of
           Some (v, input) \<Rightarrow> Inr (e\<lparr>last_sequence := v, has_last_sequence := True\<rparr>, input)
         | None \<Rightarrow> Inl ''last sequence number'')
      else if num = kCompactPointer then
        (case do { (level, input) \<leftarrow> GetLevel input; (k, input) \<leftarrow> GetInternalKey input; Some (level, k, input) } of
           Some (level, k, input) \<Rightarrow> Inr (e\<lparr>compact_pointers := compact_pointers e @ [(level, k)]\<rparr>, input)
         | None \<Rightarrow> Inl ''compaction pointer'')
      else if num = kDeletedFile then
        (case do { (level, input) \<leftarrow> GetLevel input; (v, input) \<leftarrow> GetVarint64 input; Some (level, v, input) } of
           Some (level, v, input) \<Rightarrow> Inr (e\<lparr>deleted_files := insort_insert (level, v) (deleted_files e)\<rparr>, input)
         | None \<Rightarrow> Inl ''deleted file'')
      else if num = kNewFile then
        (case do { (level, input) \<leftarrow> GetLevel input; (v, input) \<leftarrow> GetVarint64 input; (sz, input) \<leftarrow> GetVarint64 input;
                   (small, input) \<leftarrow> GetInternalKey input; (large, input) \<leftarrow> GetInternalKey input;
                   Some (level, v, sz, small, large, input) } of
           Some (level, v, sz, small, large, input) \<Rightarrow>
             Inr (e\<lparr>new_files := new_files e @ [(level, FileMetaData_init\<lparr>file_number := v, file_size := sz, smallest := small, largest := large\<rparr>)]\<rparr>, input)
         | None \<Rightarrow> Inl ''new-file entry'')
      else Inl ''unknown tag'')"

lemma GetInternalKey_shorter: "GetInternalKey input = Some (k, rest) \<Longrightarrow> length rest < length input"
  by (auto simp: GetInternalKey_def dest!: GetLengthPrefixedSlice_shorter)

lemma GetLevel_shorter: "GetLevel input = Some (k, rest) \<Longrightarrow> length rest < length input"
  by (auto simp: GetLevel_def split: option.splits if_splits dest: GetVarint32_shorter)

lemma GetVarint64_shorter: "GetVarint64 input = Some (v, rest) \<Longrightarrow> length rest < length input"
proof -
  assume "GetVarint64 input = Some (v, rest)"
  then obtain n where n: "GetVarint64Ptr input = Some (v, n)" "rest = drop n input" by (auto simp: GetVarint64_def)
  from n(1) have "n \<noteq> 0" "n \<le> length input" by (auto simp: GetVarint64Ptr_iff intro: gr0I)
  with n(2) show ?thesis by simp
qed

lemma edit_decode_field_shorter: "edit_decode_field num input e = Inr (e', rest) \<Longrightarrow> length rest < length input"
  by (auto simp: edit_decode_field_def split: if_splits option.splits Option.bind_splits
      dest!: GetLevel_shorter GetInternalKey_shorter GetVarint64_shorter GetLengthPrefixedSlice_shorter)

function edit_decode_loop :: "slice \<Rightarrow> VersionEdit \<Rightarrow> VersionEdit \<times> string option" where
  "edit_decode_loop input e =
     (case GetVarint32 input of
        None \<Rightarrow> (e, if \<not> Slice_empty input then Some ''invalid tag'' else None)
      | Some (num, input) \<Rightarrow>
          (case edit_decode_field num input e of Inl msg \<Rightarrow> (e, Some msg) | Inr (e, input) \<Rightarrow> edit_decode_loop input e))"
  by pat_completeness auto
termination
  by (relation "measure (\<lambda>(input, e). length input)")
    (auto dest!: edit_decode_field_shorter GetVarint32_shorter)

declare edit_decode_loop.simps [simp del]

definition VersionEdit_DecodeFrom :: "VersionEdit \<Rightarrow> slice \<Rightarrow> VersionEdit \<times> Status option" where
  "VersionEdit_DecodeFrom e src =
     (case edit_decode_loop src (VersionEdit_Clear e) of (e, msg) \<Rightarrow>
        (e, case msg of None \<Rightarrow> Some Status_OK | Some m \<Rightarrow> Status_Corruption (str ''VersionEdit'') (str m)))"

subsection \<open>Text\<close>

definition ParsedInternalKey_DebugString :: "ParsedInternalKey \<Rightarrow> byte list" where
  "ParsedInternalKey_DebugString p =
     (let buf = snprintf_buf 50 ([39] @ str '' @ '' @ decimal (unat (sequence p)) @ str '' : '' @ print_int (uint (ValueType_byte (value_type p))))
      in [39] @ EscapeString (user_key p) @ buf)"

definition InternalKey_DebugString :: "bool \<Rightarrow> InternalKey \<Rightarrow> byte list" where
  "InternalKey_DebugString le rep =
     (case ParseInternalKey le rep of Some parsed \<Rightarrow> ParsedInternalKey_DebugString parsed
      | None \<Rightarrow> str ''(bad)'' @ EscapeString rep)"

definition line :: "string \<Rightarrow> byte list" where "line s = [10] @ str s"

definition VersionEdit_DebugString :: "bool \<Rightarrow> VersionEdit \<Rightarrow> byte list" where
  "VersionEdit_DebugString le e =
     (let r = str ''VersionEdit {'';
          r = (if has_comparator e then r @ line ''  Comparator: '' @ comparator_name e else r);
          r = (if has_log_number e then AppendNumberTo (r @ line ''  LogNumber: '') (log_number e) else r);
          r = (if has_prev_log_number e then AppendNumberTo (r @ line ''  PrevLogNumber: '') (prev_log_number e) else r);
          r = (if has_next_file_number e then AppendNumberTo (r @ line ''  NextFile: '') (next_file_number e) else r);
          r = (if has_last_sequence e then AppendNumberTo (r @ line ''  LastSeq: '') (last_sequence e) else r);
          r = foldl (\<lambda>r (level, k).
                AppendNumberTo (r @ line ''  CompactPointer: '') (word_of_int level) @ str '' '' @ InternalKey_DebugString le k)
              r (compact_pointers e);
          r = foldl (\<lambda>r (level, num). AppendNumberTo (AppendNumberTo (r @ line ''  DeleteFile: '') (word_of_int level) @ str '' '') num)
              r (deleted_files e);
          r = foldl (\<lambda>r (level, f).
                let r = AppendNumberTo (r @ line ''  AddFile: '') (word_of_int level) @ str '' '';
                    r = AppendNumberTo r (file_number f) @ str '' '';
                    r = AppendNumberTo r (file_size f) @ str '' ''
                in r @ InternalKey_DebugString le (smallest f) @ str '' .. '' @ InternalKey_DebugString le (largest f))
              r (new_files e)
      in r @ [10] @ str ''}'' @ [10])"

subsection \<open>Edits as lists of fields\<close>

datatype edit_field = FComparator slice | FLogNumber "64 word" | FPrevLog "64 word" | FNextFile "64 word"
  | FLastSequence "64 word" | FCompact int InternalKey | FDeleted int "64 word"
  | FNew int "64 word" "64 word" InternalKey InternalKey

definition prefixed :: "slice \<Rightarrow> byte list" where "prefixed s = PutLengthPrefixedSlice [] s"

primrec edit_field_bytes :: "edit_field \<Rightarrow> byte list" where
  "edit_field_bytes (FComparator s) = EncodeVarint32 kComparator @ prefixed s"
| "edit_field_bytes (FLogNumber v) = EncodeVarint32 kLogNumber @ EncodeVarint64 v"
| "edit_field_bytes (FPrevLog v) = EncodeVarint32 kPrevLogNumber @ EncodeVarint64 v"
| "edit_field_bytes (FNextFile v) = EncodeVarint32 kNextFileNumber @ EncodeVarint64 v"
| "edit_field_bytes (FLastSequence v) = EncodeVarint32 kLastSequence @ EncodeVarint64 v"
| "edit_field_bytes (FCompact level k) = EncodeVarint32 kCompactPointer @ EncodeVarint32 (word_of_int level) @ prefixed k"
| "edit_field_bytes (FDeleted level v) = EncodeVarint32 kDeletedFile @ EncodeVarint32 (word_of_int level) @ EncodeVarint64 v"
| "edit_field_bytes (FNew level v sz a b) =
     EncodeVarint32 kNewFile @ EncodeVarint32 (word_of_int level) @ EncodeVarint64 v @ EncodeVarint64 sz @ prefixed a @ prefixed b"

primrec apply_field :: "edit_field \<Rightarrow> VersionEdit \<Rightarrow> VersionEdit" where
  "apply_field (FComparator s) e = SetComparatorName e s"
| "apply_field (FLogNumber v) e = SetLogNumber e v"
| "apply_field (FPrevLog v) e = SetPrevLogNumber e v"
| "apply_field (FNextFile v) e = SetNextFile e v"
| "apply_field (FLastSequence v) e = SetLastSequence e v"
| "apply_field (FCompact level k) e = SetCompactPointer e level k"
| "apply_field (FDeleted level v) e = DeleteFile e level v"
| "apply_field (FNew level v sz a b) e = AddFile e level v sz a b"

primrec field_ok :: "edit_field \<Rightarrow> bool" where
  "field_ok (FComparator s) \<longleftrightarrow> length s < 2 ^ 32"
| "field_ok (FLogNumber v) \<longleftrightarrow> True"
| "field_ok (FPrevLog v) \<longleftrightarrow> True"
| "field_ok (FNextFile v) \<longleftrightarrow> True"
| "field_ok (FLastSequence v) \<longleftrightarrow> True"
| "field_ok (FCompact level k) \<longleftrightarrow> 0 \<le> level \<and> level < 7 \<and> length k < 2 ^ 32"
| "field_ok (FDeleted level v) \<longleftrightarrow> 0 \<le> level \<and> level < 7"
| "field_ok (FNew level v sz a b) \<longleftrightarrow> 0 \<le> level \<and> level < 7 \<and> length a < 2 ^ 32 \<and> length b < 2 ^ 32"

lemma GetLevel_Encode:
  assumes "0 \<le> level" "level < 7"
  shows "GetLevel (EncodeVarint32 (word_of_int level) @ rest) = Some (level, rest)"
proof -
  have "uint (word_of_int level :: 32 word) = level" using assms by (simp add: uint_word_of_int take_bit_int_eq_self)
  then show ?thesis using assms by (simp add: GetLevel_def coding_varint32 word_less_def)
qed

lemma GetInternalKey_prefixed: "length k < 2 ^ 32 \<Longrightarrow> GetInternalKey (prefixed k @ rest) = Some (k, rest)"
  by (simp add: GetInternalKey_def prefixed_def coding_slice InternalKey_DecodeFrom_def)

lemma GetLengthPrefixedSlice_prefixed: "length k < 2 ^ 32 \<Longrightarrow> GetLengthPrefixedSlice (prefixed k @ rest) = Some (k, rest)"
  by (simp add: prefixed_def coding_slice)

lemma edit_update_order:
  "e\<lparr>comparator_name := s, has_comparator := b\<rparr> = e\<lparr>has_comparator := b, comparator_name := s\<rparr>"
  "e\<lparr>log_number := v, has_log_number := b\<rparr> = e\<lparr>has_log_number := b, log_number := v\<rparr>"
  "e\<lparr>prev_log_number := v, has_prev_log_number := b\<rparr> = e\<lparr>has_prev_log_number := b, prev_log_number := v\<rparr>"
  "e\<lparr>next_file_number := v, has_next_file_number := b\<rparr> = e\<lparr>has_next_file_number := b, next_file_number := v\<rparr>"
  "e\<lparr>last_sequence := v, has_last_sequence := b\<rparr> = e\<lparr>has_last_sequence := b, last_sequence := v\<rparr>"
  by (cases e; simp)+

lemma edit_decode_loop_field:
  assumes "field_ok f"
  shows "edit_decode_loop (edit_field_bytes f @ rest) e = edit_decode_loop rest (apply_field f e)"
  using assms
  by (cases f; subst edit_decode_loop.simps)
    (simp_all add: coding_varint32 coding_varint64 edit_decode_field_def GetLevel_Encode GetInternalKey_prefixed
      GetLengthPrefixedSlice_prefixed SetComparatorName_def SetLogNumber_def SetPrevLogNumber_def SetNextFile_def
      SetLastSequence_def SetCompactPointer_def DeleteFile_def AddFile_def edit_update_order)

lemma edit_decode_loop_fields:
  "list_all field_ok fs \<Longrightarrow> edit_decode_loop (concat (map edit_field_bytes fs) @ rest) e = edit_decode_loop rest (fold apply_field fs e)"
  by (induction fs arbitrary: e) (simp_all add: edit_decode_loop_field)

lemma edit_decode_loop_end: "edit_decode_loop [] e = (e, None)"
proof -
  have "GetVarint32 [] = None" by (simp add: GetVarint32_def GetVarint32Ptr_flags)
  then show ?thesis by (subst edit_decode_loop.simps) (simp add: Slice_empty_def)
qed

text \<open>The fields of an edit, in the order in which they are written.\<close>

definition edit_fields :: "VersionEdit \<Rightarrow> edit_field list" where
  "edit_fields e =
     (if has_comparator e then [FComparator (comparator_name e)] else []) @
     (if has_log_number e then [FLogNumber (log_number e)] else []) @
     (if has_prev_log_number e then [FPrevLog (prev_log_number e)] else []) @
     (if has_next_file_number e then [FNextFile (next_file_number e)] else []) @
     (if has_last_sequence e then [FLastSequence (last_sequence e)] else []) @
     map (\<lambda>(level, k). FCompact level k) (compact_pointers e) @
     map (\<lambda>(level, v). FDeleted level v) (deleted_files e) @
     map (\<lambda>(level, f). FNew level (file_number f) (file_size f) (smallest f) (largest f)) (new_files e)"

text \<open>
  The edits that the public operations make: members without a flag have their initial value, the set
  is sorted, the files are as \<^verbatim>\<open>AddFile\<close> makes them, and keys and levels can be written and read.
\<close>

definition file_ok :: "int \<times> FileMetaData \<Rightarrow> bool" where
  "file_ok p \<longleftrightarrow> 0 \<le> fst p \<and> fst p < 7 \<and> file_refs (snd p) = 0 \<and> allowed_seeks (snd p) = 2 ^ 30 \<and>
     smallest (snd p) \<noteq> [] \<and> largest (snd p) \<noteq> [] \<and> length (smallest (snd p)) < 2 ^ 32 \<and> length (largest (snd p)) < 2 ^ 32"

definition edit_ok :: "VersionEdit \<Rightarrow> bool" where
  "edit_ok e \<longleftrightarrow>
     (has_comparator e \<or> comparator_name e = []) \<and> length (comparator_name e) < 2 ^ 32 \<and>
     (has_log_number e \<or> log_number e = 0) \<and> (has_prev_log_number e \<or> prev_log_number e = 0) \<and>
     (has_next_file_number e \<or> next_file_number e = 0) \<and> (has_last_sequence e \<or> last_sequence e = 0) \<and>
     list_all (\<lambda>(level, k). 0 \<le> level \<and> level < 7 \<and> k \<noteq> [] \<and> length k < 2 ^ 32) (compact_pointers e) \<and>
     sorted (deleted_files e) \<and> distinct (deleted_files e) \<and> list_all (\<lambda>p. 0 \<le> fst p \<and> fst p < 7) (deleted_files e) \<and>
     list_all file_ok (new_files e)"

lemma edit_ok_init: "edit_ok VersionEdit_init"
  by (simp add: VersionEdit_init_def VersionEdit_Clear_def edit_ok_def)

lemma edit_ok_scalars:
  assumes "edit_ok e"
  shows "length s < 2 ^ 32 \<Longrightarrow> edit_ok (SetComparatorName e s)" "edit_ok (SetLogNumber e v)" "edit_ok (SetPrevLogNumber e v)"
    "edit_ok (SetNextFile e v)" "edit_ok (SetLastSequence e v)"
proof -
  show "length s < 2 ^ 32 \<Longrightarrow> edit_ok (SetComparatorName e s)"
    using assms by (cases e) (simp add: edit_ok_def SetComparatorName_def)
  show "edit_ok (SetLogNumber e v)" using assms by (cases e) (simp add: edit_ok_def SetLogNumber_def)
  show "edit_ok (SetPrevLogNumber e v)" using assms by (cases e) (simp add: edit_ok_def SetPrevLogNumber_def)
  show "edit_ok (SetNextFile e v)" using assms by (cases e) (simp add: edit_ok_def SetNextFile_def)
  show "edit_ok (SetLastSequence e v)" using assms by (cases e) (simp add: edit_ok_def SetLastSequence_def)
qed

lemma insert_sorted_set:
  assumes "sorted ds" and "distinct ds" and "list_all P ds" and "P (x :: 'a::linorder)"
  shows "sorted (insort_insert x ds)" "distinct (insort_insert x ds)" "list_all P (insort_insert x ds)"
  using assms by (auto simp: sorted_insort_insert distinct_insort_insert list_all_iff set_insort_insert)

lemma edit_ok_deleted:
  "edit_ok e \<Longrightarrow> sorted ds \<Longrightarrow> distinct ds \<Longrightarrow> list_all (\<lambda>p. 0 \<le> fst p \<and> fst p < 7) ds \<Longrightarrow> edit_ok (e\<lparr>deleted_files := ds\<rparr>)"
  by (cases e) (simp add: edit_ok_def)

lemma edit_ok_containers:
  assumes "edit_ok e" and "0 \<le> level" and "level < 7"
  shows "k \<noteq> [] \<Longrightarrow> length k < 2 ^ 32 \<Longrightarrow> edit_ok (SetCompactPointer e level k)"
    and "edit_ok (DeleteFile e level v)"
    and "k \<noteq> [] \<Longrightarrow> length k < 2 ^ 32 \<Longrightarrow> k' \<noteq> [] \<Longrightarrow> length k' < 2 ^ 32 \<Longrightarrow> edit_ok (AddFile e level v sz k k')"
proof -
  show "k \<noteq> [] \<Longrightarrow> length k < 2 ^ 32 \<Longrightarrow> edit_ok (SetCompactPointer e level k)"
    using assms by (cases e) (simp add: edit_ok_def SetCompactPointer_def)
  show "edit_ok (DeleteFile e level v)"
  proof -
    have ds: "sorted (deleted_files e)" "distinct (deleted_files e)" "list_all (\<lambda>p. 0 \<le> fst p \<and> fst p < 7) (deleted_files e)"
      using assms(1) unfolding edit_ok_def by blast+
    note ins = insert_sorted_set [OF ds, of "(level, v)", unfolded fst_conv, OF conjI [OF assms(2,3)]]
    show ?thesis unfolding DeleteFile_def by (rule edit_ok_deleted [OF assms(1) ins])
  qed
  show "k \<noteq> [] \<Longrightarrow> length k < 2 ^ 32 \<Longrightarrow> k' \<noteq> [] \<Longrightarrow> length k' < 2 ^ 32 \<Longrightarrow> edit_ok (AddFile e level v sz k k')"
    using assms by (cases e) (simp add: edit_ok_def AddFile_def file_ok_def FileMetaData_init_def)
qed

lemmas edit_ok_setters = edit_ok_scalars edit_ok_containers

lemma list_all_if: "list_all P (if b then [x] else []) \<longleftrightarrow> (b \<longrightarrow> P x)"
  by simp

lemma edit_fields_ok:
  assumes "edit_ok e"
  shows "list_all field_ok (edit_fields e)"
proof -
  have "length (comparator_name e) < 2 ^ 32"
    and cs: "list_all (\<lambda>(level, k). 0 \<le> level \<and> level < 7 \<and> k \<noteq> [] \<and> length k < 2 ^ 32) (compact_pointers e)"
    and ds: "list_all (\<lambda>p. 0 \<le> fst p \<and> fst p < 7) (deleted_files e)" and fs: "list_all file_ok (new_files e)"
    using assms unfolding edit_ok_def by blast+
  moreover have "list_all field_ok (map (\<lambda>(level, k). FCompact level k) (compact_pointers e))"
    using cs by (auto simp: list_all_iff)
  moreover have "list_all field_ok (map (\<lambda>(level, v). FDeleted level v) (deleted_files e))"
    using ds by (auto simp: list_all_iff)
  moreover have "list_all field_ok (map (\<lambda>(level, f). FNew level (file_number f) (file_size f) (smallest f) (largest f)) (new_files e))"
    using fs by (auto simp: list_all_iff file_ok_def)
  ultimately show ?thesis by (simp only: edit_fields_def list_all_append list_all_if field_ok.simps simp_thms)
qed

subsection \<open>Encoding and decoding the fields\<close>

lemma put_compacts:
  "list_all (\<lambda>p. snd p \<noteq> []) ps \<Longrightarrow>
   fold_opt put_compact ps dst = Some (dst @ concat (map edit_field_bytes (map (\<lambda>(level, k). FCompact level k) ps)))"
  by (induction ps arbitrary: dst)
    (auto simp: put_compact_def PutVarint32_def prefixed_def InternalKey_Encode_def PutLengthPrefixedSlice_append [of "_ @ _"])

lemma put_deleteds:
  "foldl put_deleted dst ps = dst @ concat (map edit_field_bytes (map (\<lambda>(level, v). FDeleted level v) ps))"
  by (induction ps arbitrary: dst) (auto simp: put_deleted_def PutVarint32_def PutVarint64_def)

lemma put_new_files:
  "list_all file_ok ps \<Longrightarrow>
   fold_opt put_new_file ps dst = Some (dst @ concat (map edit_field_bytes
     (map (\<lambda>(level, f). FNew level (file_number f) (file_size f) (smallest f) (largest f)) ps)))"
  by (induction ps arbitrary: dst)
    (auto simp: put_new_file_def file_ok_def PutVarint32_def PutVarint64_def prefixed_def InternalKey_Encode_def
      PutLengthPrefixedSlice_append [of "_ @ _"])

lemma EncodeTo_fields:
  assumes "edit_ok e"
  shows "VersionEdit_EncodeTo e dst = Some (dst @ concat (map edit_field_bytes (edit_fields e)))"
proof -
  have "list_all (\<lambda>p. snd p \<noteq> []) (compact_pointers e)" "list_all file_ok (new_files e)"
    using assms by (auto simp: edit_ok_def list_all_iff)
  then show ?thesis
    by (simp add: VersionEdit_EncodeTo_def edit_fields_def put_compacts put_deleteds put_new_files PutVarint32_def
        PutVarint64_def prefixed_def PutLengthPrefixedSlice_append [of "_ @ _"])
qed

lemma apply_compacts:
  "fold apply_field (map (\<lambda>(level, k). FCompact level k) ps) e = e\<lparr>compact_pointers := compact_pointers e @ ps\<rparr>"
  by (induction ps arbitrary: e) (auto simp: SetCompactPointer_def)

lemma apply_deleteds:
  "fold apply_field (map (\<lambda>(level, v). FDeleted level v) ps) e = e\<lparr>deleted_files := fold insort_insert ps (deleted_files e)\<rparr>"
  by (induction ps arbitrary: e) (auto simp: DeleteFile_def)

lemma apply_new_files:
  "list_all file_ok ps \<Longrightarrow>
   fold apply_field (map (\<lambda>(level, f). FNew level (file_number f) (file_size f) (smallest f) (largest f)) ps) e =
     e\<lparr>new_files := new_files e @ ps\<rparr>"
proof (induction ps arbitrary: e)
  case (Cons p ps)
  obtain level f where p: "p = (level, f)" by fastforce
  have "FileMetaData_init\<lparr>file_number := file_number f, file_size := file_size f, smallest := smallest f, largest := largest f\<rparr> = f"
    using Cons.prems p by (cases f) (simp add: FileMetaData_init_def file_ok_def)
  then show ?case using Cons p by (simp add: AddFile_def)
qed simp

lemma fold_insort_insert:
  assumes "sorted (xs :: 'a::linorder list)" "distinct xs"
  shows "fold insort_insert xs [] = xs"
proof -
  have "sorted (fold insort_insert ys zs) \<and> distinct (fold insort_insert ys zs) \<and> set (fold insort_insert ys zs) = set ys \<union> set zs"
    if "sorted zs" "distinct zs" for ys zs :: "'a list"
    using that by (induction ys arbitrary: zs) (simp_all add: sorted_insort_insert distinct_insort_insert set_insort_insert)
  then show ?thesis using assms by (intro sorted_distinct_set_unique) simp_all
qed

lemma apply_optional:
  "b \<or> s = [] \<Longrightarrow> \<not> has_comparator x \<Longrightarrow> comparator_name x = [] \<Longrightarrow>
     fold apply_field (if b then [FComparator s] else []) x = x\<lparr>has_comparator := b, comparator_name := s\<rparr>"
  "b \<or> v = 0 \<Longrightarrow> \<not> has_log_number x \<Longrightarrow> log_number x = 0 \<Longrightarrow>
     fold apply_field (if b then [FLogNumber v] else []) x = x\<lparr>has_log_number := b, log_number := v\<rparr>"
  "b \<or> v = 0 \<Longrightarrow> \<not> has_prev_log_number x \<Longrightarrow> prev_log_number x = 0 \<Longrightarrow>
     fold apply_field (if b then [FPrevLog v] else []) x = x\<lparr>has_prev_log_number := b, prev_log_number := v\<rparr>"
  "b \<or> v = 0 \<Longrightarrow> \<not> has_next_file_number x \<Longrightarrow> next_file_number x = 0 \<Longrightarrow>
     fold apply_field (if b then [FNextFile v] else []) x = x\<lparr>has_next_file_number := b, next_file_number := v\<rparr>"
  "b \<or> v = 0 \<Longrightarrow> \<not> has_last_sequence x \<Longrightarrow> last_sequence x = 0 \<Longrightarrow>
     fold apply_field (if b then [FLastSequence v] else []) x = x\<lparr>has_last_sequence := b, last_sequence := v\<rparr>"
  by (cases x; auto simp: SetComparatorName_def SetLogNumber_def SetPrevLogNumber_def SetNextFile_def SetLastSequence_def)+

lemma apply_fields:
  assumes "edit_ok e"
  shows "fold apply_field (edit_fields e) (VersionEdit_Clear e0) = e\<lparr>compact_pointers := compact_pointers e0 @ compact_pointers e\<rparr>"
proof -
  have ok: "has_comparator e \<or> comparator_name e = []" "has_log_number e \<or> log_number e = 0"
    "has_prev_log_number e \<or> prev_log_number e = 0" "has_next_file_number e \<or> next_file_number e = 0"
    "has_last_sequence e \<or> last_sequence e = 0" "list_all file_ok (new_files e)"
    "fold insort_insert (deleted_files e) [] = deleted_files e"
    using assms by (simp_all only: edit_ok_def fold_insort_insert)
  let ?c = "VersionEdit_Clear e0"
  let ?c1 = "?c\<lparr>has_comparator := has_comparator e, comparator_name := comparator_name e\<rparr>"
  let ?c2 = "?c1\<lparr>has_log_number := has_log_number e, log_number := log_number e\<rparr>"
  let ?c3 = "?c2\<lparr>has_prev_log_number := has_prev_log_number e, prev_log_number := prev_log_number e\<rparr>"
  let ?c4 = "?c3\<lparr>has_next_file_number := has_next_file_number e, next_file_number := next_file_number e\<rparr>"
  have steps:
    "fold apply_field (if has_comparator e then [FComparator (comparator_name e)] else []) ?c = ?c1"
    "fold apply_field (if has_log_number e then [FLogNumber (log_number e)] else []) ?c1 = ?c2"
    "fold apply_field (if has_prev_log_number e then [FPrevLog (prev_log_number e)] else []) ?c2 = ?c3"
    "fold apply_field (if has_next_file_number e then [FNextFile (next_file_number e)] else []) ?c3 = ?c4"
    "fold apply_field (if has_last_sequence e then [FLastSequence (last_sequence e)] else []) ?c4 =
       ?c4\<lparr>has_last_sequence := has_last_sequence e, last_sequence := last_sequence e\<rparr>"
    by (rule apply_optional, rule ok; simp add: VersionEdit_Clear_def)+
  have "fold apply_field (edit_fields e) ?c =
      ?c4\<lparr>has_last_sequence := has_last_sequence e, last_sequence := last_sequence e,
          compact_pointers := compact_pointers e0 @ compact_pointers e, deleted_files := deleted_files e, new_files := new_files e\<rparr>"
    unfolding edit_fields_def fold_append comp_def steps
    using ok(6,7) by (simp add: apply_compacts apply_deleteds apply_new_files VersionEdit_Clear_def)
  then show ?thesis by (cases e) (simp add: VersionEdit_Clear_def)
qed

text \<open>Decoding what was encoded; the compact pointers that the receiver already had stay in front.\<close>

lemma DecodeFrom_EncodeTo:
  assumes "edit_ok e" and "VersionEdit_EncodeTo e [] = Some bs"
  shows "VersionEdit_DecodeFrom e0 bs = (e\<lparr>compact_pointers := compact_pointers e0 @ compact_pointers e\<rparr>, Some Status_OK)"
  using assms edit_decode_loop_fields [OF edit_fields_ok [OF assms(1)], of "[]" "VersionEdit_Clear e0"]
  by (simp add: EncodeTo_fields VersionEdit_DecodeFrom_def edit_decode_loop_end apply_fields)

subsection \<open>Calls\<close>

lemmas setter_defs = SetComparatorName_def SetLogNumber_def SetPrevLogNumber_def SetNextFile_def SetLastSequence_def
  SetCompactPointer_def AddFile_def DeleteFile_def FileMetaData_init_def

text \<open>A flag and a value that record the values of the calls that set them: the last one, if there is one.\<close>

definition recorded :: "bool \<Rightarrow> 'a \<Rightarrow> 'a list \<Rightarrow> bool" where
  "recorded b v vs \<longleftrightarrow> b = (vs \<noteq> []) \<and> (vs \<noteq> [] \<longrightarrow> v = last vs)"

text \<open>The arguments that the setters may be called with, if the edit is to be written and read.\<close>

definition call_ok :: "edit_field \<Rightarrow> bool" where
  "call_ok c \<longleftrightarrow> field_ok c \<and> (case c of FCompact level k \<Rightarrow> k \<noteq> [] | FNew level num sz small large \<Rightarrow> small \<noteq> [] \<and> large \<noteq> [] | _ \<Rightarrow> True)"

lemma edit_ok_calls: "list_all call_ok calls \<Longrightarrow> edit_ok e \<Longrightarrow> edit_ok (fold apply_field calls e)"
proof (induction calls arbitrary: e)
  case (Cons c calls)
  then have "edit_ok (apply_field c e)" by (cases c) (simp_all add: edit_ok_setters call_ok_def)
  then show ?case using Cons by simp
qed simp

lemma calls_lists:
  "map (\<lambda>(level, f). (level, file_number f, file_size f, smallest f, largest f)) (new_files (fold apply_field calls e)) =
    map (\<lambda>(level, f). (level, file_number f, file_size f, smallest f, largest f)) (new_files e) @
    [(level, num, sz, small, large). FNew level num sz small large \<leftarrow> calls]"
  "compact_pointers (fold apply_field calls e) = compact_pointers e @ [(level, k). FCompact level k \<leftarrow> calls]"
  "set (deleted_files (fold apply_field calls e)) = set (deleted_files e) \<union> {(level, num). FDeleted level num \<in> set calls}"
proof (induction calls arbitrary: e)
  case (Cons c calls)
  { case 1 show ?case by (cases c) (simp_all add: Cons.IH setter_defs) }
  { case 2 show ?case by (cases c) (simp_all add: Cons.IH setter_defs) }
  { case 3 show ?case by (cases c) (auto simp: Cons.IH setter_defs set_insort_insert) }
qed simp_all

lemma calls_deleted:
  assumes "edit_ok (fold apply_field calls VersionEdit_init)"
  shows "deleted_files (fold apply_field calls VersionEdit_init) = sorted_list_of_set {(level, num). FDeleted level num \<in> set calls}"
proof -
  have "set (deleted_files (fold apply_field calls VersionEdit_init)) = {(level, num). FDeleted level num \<in> set calls}"
    by (simp add: calls_lists(3) VersionEdit_init_def VersionEdit_Clear_def)
  moreover have "sorted (deleted_files (fold apply_field calls VersionEdit_init))" "distinct (deleted_files (fold apply_field calls VersionEdit_init))"
    using assms by (simp_all add: edit_ok_def)
  ultimately show ?thesis by (metis sorted_list_of_set.idem_if_sorted_distinct)
qed

lemma calls_value_step: "recorded b v vs \<Longrightarrow> recorded b v (vs @ [])" "recorded True v (vs @ [v])"
  by (simp_all add: recorded_def)

lemma calls_values:
  "recorded (has_comparator (fold apply_field calls VersionEdit_init)) (comparator_name (fold apply_field calls VersionEdit_init)) [s. FComparator s \<leftarrow> calls]"
  "recorded (has_log_number (fold apply_field calls VersionEdit_init)) (log_number (fold apply_field calls VersionEdit_init)) [v. FLogNumber v \<leftarrow> calls]"
  "recorded (has_prev_log_number (fold apply_field calls VersionEdit_init)) (prev_log_number (fold apply_field calls VersionEdit_init)) [v. FPrevLog v \<leftarrow> calls]"
  "recorded (has_next_file_number (fold apply_field calls VersionEdit_init)) (next_file_number (fold apply_field calls VersionEdit_init)) [v. FNextFile v \<leftarrow> calls]"
  "recorded (has_last_sequence (fold apply_field calls VersionEdit_init)) (last_sequence (fold apply_field calls VersionEdit_init)) [v. FLastSequence v \<leftarrow> calls]"
proof (induction calls rule: rev_induct)
  case (snoc c calls)
  { case 1 show ?case using snoc.IH(1) by (cases c) (simp_all add: setter_defs recorded_def) }
  { case 2 show ?case using snoc.IH(2) by (cases c) (simp_all add: setter_defs recorded_def) }
  { case 3 show ?case using snoc.IH(3) by (cases c) (simp_all add: setter_defs recorded_def) }
  { case 4 show ?case using snoc.IH(4) by (cases c) (simp_all add: setter_defs recorded_def) }
  { case 5 show ?case using snoc.IH(5) by (cases c) (simp_all add: setter_defs recorded_def) }
qed (simp_all add: recorded_def VersionEdit_init_def VersionEdit_Clear_def)

subsection \<open>Properties\<close>

text \<open>
  C15: a version edit survives the descriptor log: decoding the encoding of an edit gives the edit back, with
  status OK. The receiver's own members are all replaced, except that its compaction pointers stay in front
  of those that are read, because \<^verbatim>\<open>Clear\<close> does not clear them; into a fresh edit the round trip is exact.
\<close>

theorem version_edit_roundtrip:
  assumes "edit_ok e"
  shows "\<exists>bs. VersionEdit_EncodeTo e [] = Some bs \<and>
    VersionEdit_DecodeFrom e0 bs = (e\<lparr>compact_pointers := compact_pointers e0 @ compact_pointers e\<rparr>, Some Status_OK) \<and>
    VersionEdit_DecodeFrom VersionEdit_init bs = (e, Some Status_OK)"
proof -
  obtain bs where bs: "VersionEdit_EncodeTo e [] = Some bs" using EncodeTo_fields [OF assms] by auto
  have "compact_pointers VersionEdit_init = []" by (simp add: VersionEdit_init_def VersionEdit_Clear_def)
  with bs DecodeFrom_EncodeTo [OF assms bs] show ?thesis by simp
qed

theorem version_edit_roundtrip_witness:
  "\<exists>bs. VersionEdit_EncodeTo (DeleteFile (SetLogNumber VersionEdit_init 300) 2 9) [] = Some bs \<and>
     VersionEdit_DecodeFrom VersionEdit_init bs = (DeleteFile (SetLogNumber VersionEdit_init 300) 2 9, Some Status_OK)"
proof -
  have "edit_ok (DeleteFile (SetLogNumber VersionEdit_init 300) 2 9)"
    by (intro edit_ok_setters edit_ok_init) simp_all
  from version_edit_roundtrip [OF this] show ?thesis by blast
qed

text \<open>
  C35: a version edit records the calls that built it. For any sequence of calls of the setters on a new edit, with
  levels below \<^verbatim>\<open>kNumLevels\<close> and keys that are not empty, the edit that is read back from its encoding has exactly the
  added files with their level, number, size and key range, and the compaction pointers, each in the order of the
  calls, the ordered set of the deleted files, and of each single value the one that was set last, if it was set.
\<close>

theorem version_edit_replay:
  assumes "list_all call_ok calls"
  shows "\<exists>bs e. VersionEdit_EncodeTo (fold apply_field calls VersionEdit_init) [] = Some bs \<and>
    VersionEdit_DecodeFrom VersionEdit_init bs = (e, Some Status_OK) \<and>
    map (\<lambda>(level, f). (level, file_number f, file_size f, smallest f, largest f)) (new_files e) =
      [(level, num, sz, small, large). FNew level num sz small large \<leftarrow> calls] \<and>
    compact_pointers e = [(level, k). FCompact level k \<leftarrow> calls] \<and>
    deleted_files e = sorted_list_of_set {(level, num). FDeleted level num \<in> set calls} \<and>
    recorded (has_comparator e) (comparator_name e) [s. FComparator s \<leftarrow> calls] \<and>
    recorded (has_log_number e) (log_number e) [v. FLogNumber v \<leftarrow> calls] \<and>
    recorded (has_prev_log_number e) (prev_log_number e) [v. FPrevLog v \<leftarrow> calls] \<and>
    recorded (has_next_file_number e) (next_file_number e) [v. FNextFile v \<leftarrow> calls] \<and>
    recorded (has_last_sequence e) (last_sequence e) [v. FLastSequence v \<leftarrow> calls]"
proof -
  let ?e = "fold apply_field calls VersionEdit_init"
  have ok: "edit_ok ?e" by (rule edit_ok_calls [OF assms edit_ok_init])
  then obtain bs where bs: "VersionEdit_EncodeTo ?e [] = Some bs" using EncodeTo_fields by blast
  have c: "compact_pointers VersionEdit_init = []" "new_files VersionEdit_init = []" by (simp_all add: VersionEdit_init_def VersionEdit_Clear_def)
  have "VersionEdit_DecodeFrom VersionEdit_init bs = (?e, Some Status_OK)" using DecodeFrom_EncodeTo [OF ok bs] c by simp
  with bs calls_deleted [OF ok] show ?thesis
    by (intro exI [of _ bs] exI [of _ ?e] conjI calls_values) (simp_all add: calls_lists(1,2) c)
qed

theorem version_edit_replay_witness:
  "\<exists>bs e. VersionEdit_DecodeFrom VersionEdit_init bs = (e, Some Status_OK) \<and>
    map (\<lambda>(level, f). (level, file_number f, file_size f, smallest f, largest f)) (new_files e) = [(1, 7, 100, [1], [2]), (2, 8, 50, [5], [6])] \<and>
    deleted_files e = [(0, 3), (1, 4)] \<and> has_log_number e \<and> log_number e = 12 \<and> \<not> has_comparator e"
proof -
  define calls where "calls = [FDeleted 1 4, FLogNumber 11, FNew 1 7 100 [1] [2], FDeleted 0 3, FNew 2 8 50 [5] [6], FLogNumber 12, FDeleted 1 4]"
  have "list_all call_ok calls" by (simp add: calls_def call_ok_def)
  from version_edit_replay [OF this] obtain bs e where e: "VersionEdit_DecodeFrom VersionEdit_init bs = (e, Some Status_OK)"
      "map (\<lambda>(level, f). (level, file_number f, file_size f, smallest f, largest f)) (new_files e) =
        [(level, num, sz, small, large). FNew level num sz small large \<leftarrow> calls]"
      "deleted_files e = sorted_list_of_set {(level, num). FDeleted level num \<in> set calls}"
      "recorded (has_comparator e) (comparator_name e) [s. FComparator s \<leftarrow> calls]"
      "recorded (has_log_number e) (log_number e) [v. FLogNumber v \<leftarrow> calls]"
    by blast
  have "{(level, num). FDeleted level num \<in> set calls} = set [(0, 3), (1, 4)]" by (auto simp: calls_def)
  then have "deleted_files e = [(0, 3), (1, 4)]" unfolding e(3) by (simp only: sorted_list_of_set_sort_remdups) simp
  then show ?thesis using e by (intro exI [of _ bs] exI [of _ e]) (simp add: calls_def recorded_def)
qed

end
