(* ===== verification/LDB_Filename.thy ===== *)
theory LDB_Filename
  imports LDB_Status
begin

text \<open>
  The names of the files of a database, \<^verbatim>\<open>db/filename.h\<close> and \<^verbatim>\<open>db/filename.cc\<close>. A function that makes a
  name is \<open>None\<close> when its assertion on the file number fails. The environment that \<^verbatim>\<open>SetCurrentFile\<close>
  calls is an argument: a state and the three operations on it.
\<close>

datatype FileType = kLogFile | kDBLockFile | kTableFile | kDescriptorFile | kCurrentFile | kTempFile | kInfoLogFile

definition MakeFileName :: "byte list \<Rightarrow> 64 word \<Rightarrow> byte list \<Rightarrow> byte list" where
  "MakeFileName name num suffix =
     name @ snprintf_buf 100 (str ''/'' @ pad_zero 6 (decimal (unat num)) @ str ''.'' @ suffix)"

definition LogFileName :: "byte list \<Rightarrow> 64 word \<Rightarrow> byte list option" where
  "LogFileName name num = (if num > 0 then Some (MakeFileName name num (str ''log'')) else None)"

definition TableFileName :: "byte list \<Rightarrow> 64 word \<Rightarrow> byte list option" where
  "TableFileName name num = (if num > 0 then Some (MakeFileName name num (str ''ldb'')) else None)"

definition SSTTableFileName :: "byte list \<Rightarrow> 64 word \<Rightarrow> byte list option" where
  "SSTTableFileName name num = (if num > 0 then Some (MakeFileName name num (str ''sst'')) else None)"

definition DescriptorFileName :: "byte list \<Rightarrow> 64 word \<Rightarrow> byte list option" where
  "DescriptorFileName dbname num =
     (if num > 0 then Some (dbname @ snprintf_buf 100 (str ''/MANIFEST-'' @ pad_zero 6 (decimal (unat num)))) else None)"

definition CurrentFileName :: "byte list \<Rightarrow> byte list" where "CurrentFileName dbname = dbname @ str ''/CURRENT''"

definition LockFileName :: "byte list \<Rightarrow> byte list" where "LockFileName dbname = dbname @ str ''/LOCK''"

definition TempFileName :: "byte list \<Rightarrow> 64 word \<Rightarrow> byte list option" where
  "TempFileName dbname num = (if num > 0 then Some (MakeFileName dbname num (str ''dbtmp'')) else None)"

definition InfoLogFileName :: "byte list \<Rightarrow> byte list" where "InfoLogFileName dbname = dbname @ str ''/LOG''"

definition OldInfoLogFileName :: "byte list \<Rightarrow> byte list" where
  "OldInfoLogFileName dbname = dbname @ str ''/LOG.old''"

text \<open>\<open>None\<close> where the function returns false.\<close>

definition ParseFileName :: "byte list \<Rightarrow> (64 word \<times> FileType) option" where
  "ParseFileName fname =
     (let rest = fname in
      if Slice_eq rest (str ''CURRENT'') then Some (0, kCurrentFile)
      else if Slice_eq rest (str ''LOCK'') then Some (0, kDBLockFile)
      else if Slice_eq rest (str ''LOG'') \<or> Slice_eq rest (str ''LOG.old'') then Some (0, kInfoLogFile)
      else if Slice_starts_with rest (str ''MANIFEST-'') then
        (case Slice_remove_prefix rest (length ''MANIFEST-'') of None \<Rightarrow> None
         | Some rest \<Rightarrow>
             (case ConsumeDecimalNumber rest of
                (True, rest, Some num) \<Rightarrow> if \<not> Slice_empty rest then None else Some (num, kDescriptorFile)
              | _ \<Rightarrow> None))
      else
        (case ConsumeDecimalNumber rest of
           (True, suffix, Some num) \<Rightarrow>
             if Slice_eq suffix (str ''.log'') then Some (num, kLogFile)
             else if Slice_eq suffix (str ''.sst'') \<or> Slice_eq suffix (str ''.ldb'') then Some (num, kTableFile)
             else if Slice_eq suffix (str ''.dbtmp'') then Some (num, kTempFile)
             else None
         | _ \<Rightarrow> None))"

definition SetCurrentFile ::
    "('e \<Rightarrow> byte list \<Rightarrow> byte list \<Rightarrow> 'e \<times> Status) \<Rightarrow> ('e \<Rightarrow> byte list \<Rightarrow> byte list \<Rightarrow> 'e \<times> Status) \<Rightarrow>
     ('e \<Rightarrow> byte list \<Rightarrow> 'e \<times> Status) \<Rightarrow> 'e \<Rightarrow> byte list \<Rightarrow> 64 word \<Rightarrow> ('e \<times> Status) option" where
  "SetCurrentFile WriteStringToFileSync RenameFile DeleteFile env dbname descriptor_number =
     (case DescriptorFileName dbname descriptor_number of None \<Rightarrow> None
      | Some manifest \<Rightarrow>
          if \<not> Slice_starts_with manifest (dbname @ str ''/'') then None
          else
            (case Slice_remove_prefix manifest (length dbname + 1) of None \<Rightarrow> None
             | Some contents \<Rightarrow>
                 (case TempFileName dbname descriptor_number of None \<Rightarrow> None
                  | Some tmp \<Rightarrow>
                      let (env, s) = WriteStringToFileSync env (contents @ [10]) tmp;
                          (env, s) = (if Status_ok s then RenameFile env tmp (CurrentFileName dbname) else (env, s));
                          env = (if \<not> Status_ok s then fst (DeleteFile env tmp) else env)
                      in Some (env, s))))"

subsection \<open>Lemmas\<close>

lemma pad_zero_length: "length (pad_zero 6 (decimal (unat (v :: 64 word)))) \<le> 20"
  using decimal_64 [of v] by (simp add: pad_zero_def)

lemma MakeFileName_text:
  "length suffix \<le> 70 \<Longrightarrow> MakeFileName name v suffix = name @ str ''/'' @ pad_zero 6 (decimal (unat v)) @ str ''.'' @ suffix"
  using pad_zero_length [of v] by (simp add: MakeFileName_def snprintf_buf_def)

lemma DescriptorFileName_text:
  "0 < v \<Longrightarrow> DescriptorFileName name v = Some (name @ str ''/MANIFEST-'' @ pad_zero 6 (decimal (unat v)))"
  using pad_zero_length [of v] by (simp add: DescriptorFileName_def snprintf_buf_def)

text \<open>A name that starts with a digit is none of the fixed names.\<close>

lemma pad_zero_digits: "\<exists>d ds. pad_zero w (decimal n) = d # ds \<and> is_digit d"
proof -
  have "pad_zero w (decimal n) \<noteq> [] \<and> list_all is_digit (pad_zero w (decimal n))"
    using decimal_digits [of n] by (auto simp: pad_zero_def list_all_iff is_digit_def)
  then show ?thesis by (cases "pad_zero w (decimal n)") auto
qed

lemma ParseFileName_number:
  assumes "\<not> is_digit (hd suffix)"
  shows "ParseFileName (pad_zero w (decimal (unat v)) @ suffix) =
    (if suffix = str ''.log'' then Some (v, kLogFile)
     else if suffix = str ''.sst'' \<or> suffix = str ''.ldb'' then Some (v, kTableFile)
     else if suffix = str ''.dbtmp'' then Some (v, kTempFile) else None)"
proof -
  obtain d ds where d: "pad_zero w (decimal (unat v)) = d # ds" "is_digit d" using pad_zero_digits by blast
  have "ConsumeDecimalNumber (pad_zero w (decimal (unat v)) @ suffix) = (True, suffix, Some v)"
    using assms by (intro ConsumeDecimalNumber_decimal) simp
  moreover have "d \<noteq> of_char CHR ''C''" "d \<noteq> of_char CHR ''L''" "d \<noteq> of_char CHR ''M''"
    using d(2) by (auto simp: is_digit_def)
  ultimately show ?thesis
    using d(1) by (auto simp: ParseFileName_def Slice_eq_iff Slice_starts_with_iff str_def)
qed

lemma ParseFileName_manifest:
  "ParseFileName (str ''MANIFEST-'' @ pad_zero w (decimal (unat v))) = Some (v, kDescriptorFile)"
proof -
  have "Slice_starts_with (str ''MANIFEST-'' @ pad_zero w (decimal (unat v))) (str ''MANIFEST-'')"
    by (auto simp: Slice_starts_with_iff)
  moreover have "ConsumeDecimalNumber (pad_zero w (decimal (unat v))) = (True, [], Some v)"
    using ConsumeDecimalNumber_decimal [of "[]" w v] by simp
  ultimately show ?thesis
    by (simp add: ParseFileName_def Slice_eq_iff Slice_remove_prefix_def Slice_empty_def Let_def) (simp add: str_def)
qed

subsection \<open>Properties\<close>

text \<open>
  The names that the database makes parse back to their kind and number: for every positive file number
  and every database name, the part behind the slash of a log, table, old table, descriptor and temporary
  file name is read as that number and type; no buffer of the formatting truncates a name.
\<close>

theorem file_name_roundtrip:
  assumes "0 < n"
  shows "\<exists>l t y d x. LogFileName db n = Some (db @ str ''/'' @ l) \<and> ParseFileName l = Some (n, kLogFile) \<and>
    TableFileName db n = Some (db @ str ''/'' @ t) \<and> ParseFileName t = Some (n, kTableFile) \<and>
    SSTTableFileName db n = Some (db @ str ''/'' @ y) \<and> ParseFileName y = Some (n, kTableFile) \<and>
    DescriptorFileName db n = Some (db @ str ''/'' @ d) \<and> ParseFileName d = Some (n, kDescriptorFile) \<and>
    TempFileName db n = Some (db @ str ''/'' @ x) \<and> ParseFileName x = Some (n, kTempFile)"
proof -
  let ?f = "\<lambda>suffix. pad_zero 6 (decimal (unat n)) @ str ''.'' @ str suffix"
  have dot: "str ''.'' @ str suffix = str (CHR ''.'' # suffix)" "\<not> is_digit (hd (str (CHR ''.'' # suffix)))" for suffix
    by (simp_all add: str_def is_digit_def)
  have p: "ParseFileName (?f ''log'') = Some (n, kLogFile)" "ParseFileName (?f ''ldb'') = Some (n, kTableFile)"
    "ParseFileName (?f ''sst'') = Some (n, kTableFile)" "ParseFileName (?f ''dbtmp'') = Some (n, kTempFile)"
    unfolding dot(1) ParseFileName_number [OF dot(2)] by (simp_all add: str_def)
  have m: "str ''/'' @ str ''MANIFEST-'' = str ''/MANIFEST-''" by (simp add: str_def)
  have "DescriptorFileName db n = Some (db @ str ''/'' @ str ''MANIFEST-'' @ pad_zero 6 (decimal (unat n)))"
    using DescriptorFileName_text [OF assms, of db] m [symmetric] by (metis append.assoc)
  then show ?thesis
    using assms p ParseFileName_manifest [of 6 n]
    by (intro exI [of _ "?f ''log''"] exI [of _ "?f ''ldb''"] exI [of _ "?f ''sst''"]
        exI [of _ "str ''MANIFEST-'' @ pad_zero 6 (decimal (unat n))"] exI [of _ "?f ''dbtmp''"])
      (simp add: LogFileName_def TableFileName_def SSTTableFileName_def TempFileName_def MakeFileName_text)
qed

theorem file_name_roundtrip_witness:
  "\<exists>l. LogFileName (str ''/db'') 5 = Some (str ''/db'' @ str ''/'' @ l) \<and> ParseFileName l = Some (5, kLogFile)"
  using file_name_roundtrip [of 5 "str ''/db''"] by auto

text \<open>
  Reading a decimal number detects overflow exactly. On a run of digits, followed by the end or by another
  character, \<^verbatim>\<open>ConsumeDecimalNumber\<close> succeeds iff there is a digit and the number fits in 64 bits; it then stores
  the number and leaves the input behind the digits.
\<close>

theorem consume_decimal_exact:
  assumes "list_all is_digit ds" and "rest = [] \<or> \<not> is_digit (hd rest)"
  shows "(fst (ConsumeDecimalNumber (ds @ rest)) \<longleftrightarrow> ds \<noteq> [] \<and> digits_value ds 0 < 2 ^ 64) \<and>
    (digits_value ds 0 < 2 ^ 64 \<longrightarrow>
      snd (ConsumeDecimalNumber (ds @ rest)) = (rest, Some (word_of_nat (digits_value ds 0))))"
proof (cases "digits_value ds 0 < 2 ^ 64")
  case True
  then show ?thesis using consume_digits_ok [OF assms, of 0 0] by (simp add: ConsumeDecimalNumber_def)
next
  case False
  then show ?thesis using consume_digits_overflow [OF assms(1), of 0 rest 0] by (simp add: ConsumeDecimalNumber_def)
qed

theorem consume_decimal_exact_witness:
  "fst (ConsumeDecimalNumber (str ''18446744073709551615'')) \<and> \<not> fst (ConsumeDecimalNumber (str ''18446744073709551616''))"
  using consume_decimal_exact [of "str ''18446744073709551615''" "[]"] consume_decimal_exact [of "str ''18446744073709551616''" "[]"]
  by (simp add: str_def is_digit_def digits_value_def)

end
