(* ===== verification/LDB_Ring.thy ===== *)
theory LDB_Ring
  imports Main
begin

text \<open>
  Circular doubly-linked lists with a dummy node, as \<^verbatim>\<open>db/snapshot.h\<close> and \<^verbatim>\<open>util/cache.cc\<close> use them. The links are two
  partial functions on nodes, \<open>nx\<close> and \<open>pv\<close>; \<open>dring nx pv d xs\<close> says that they go round from the dummy \<open>d\<close> through
  \<open>xs\<close>. The two lemmas at the end are about appending a node and removing one.
\<close>

primrec ring_links :: "('a \<Rightarrow> 'a option) \<Rightarrow> ('a \<Rightarrow> 'a option) \<Rightarrow> 'a \<Rightarrow> 'a list \<Rightarrow> 'a \<Rightarrow> bool" where
  "ring_links nx pv a [] b \<longleftrightarrow> nx a = Some b \<and> pv b = Some a"
| "ring_links nx pv a (x # xs) b \<longleftrightarrow> nx a = Some x \<and> pv x = Some a \<and> ring_links nx pv x xs b"

definition dring :: "('a \<Rightarrow> 'a option) \<Rightarrow> ('a \<Rightarrow> 'a option) \<Rightarrow> 'a \<Rightarrow> 'a list \<Rightarrow> bool" where
  "dring nx pv d xs \<longleftrightarrow> ring_links nx pv d xs d \<and> distinct (d # xs)"

lemma ring_links_append: "ring_links nx pv a (xs @ x # ys) b \<longleftrightarrow> ring_links nx pv a xs x \<and> ring_links nx pv x ys b"
  by (induction xs arbitrary: a) auto

lemma ring_links_frame:
  "ring_links nx pv a xs b \<Longrightarrow> (\<And>y. y \<in> set (a # xs) \<Longrightarrow> nx' y = nx y) \<Longrightarrow> (\<And>y. y \<in> set (xs @ [b]) \<Longrightarrow> pv' y = pv y) \<Longrightarrow>
   ring_links nx' pv' a xs b"
  by (induction xs arbitrary: a) auto

lemma ring_links_ends: "ring_links nx pv a xs b \<Longrightarrow> nx a = Some (hd (xs @ [b])) \<and> pv b = Some (last (a # xs))"
  by (induction xs arbitrary: a) auto

lemma dring_ends: "dring nx pv d xs \<Longrightarrow> nx d = Some (hd (xs @ [d]))" "dring nx pv d xs \<Longrightarrow> pv d = Some (last (d # xs))"
  using ring_links_ends [of nx pv d xs d] by (simp_all add: dring_def)

lemma dring_distinct: "dring nx pv d xs \<Longrightarrow> distinct xs" "dring nx pv d xs \<Longrightarrow> d \<notin> set xs"
  by (simp_all add: dring_def)

lemma dring_nodes:
  assumes "dring nx pv d xs" "x \<in> set (d # xs)"
  shows "nx x \<noteq> None" "pv x \<noteq> None"
proof -
  have "nx x \<noteq> None \<and> pv x \<noteq> None"
  proof (cases "x = d")
    case True
    then show ?thesis using dring_ends [OF assms(1)] by simp
  next
    case False
    then obtain ys zs where "xs = ys @ x # zs" using assms(2) by (auto dest: split_list)
    then have "ring_links nx pv d ys x" "ring_links nx pv x zs d" using assms(1) by (simp_all add: dring_def ring_links_append)
    then show ?thesis using ring_links_ends [of nx pv d ys x] ring_links_ends [of nx pv x zs d] by simp
  qed
  then show "nx x \<noteq> None" "pv x \<noteq> None" by simp_all
qed

lemma dring_node:
  assumes "dring nx pv d (xs @ s # ys)"
  shows "pv s = Some (last (d # xs))" "nx s = Some (hd (ys @ [d]))"
  using assms ring_links_ends [of nx pv d xs s] ring_links_ends [of nx pv s ys d] by (simp_all add: dring_def ring_links_append)

text \<open>Behind the last node, \<open>p\<close>, a new one is appended.\<close>

lemma dring_append:
  assumes "dring nx pv d xs" "s \<notin> set (d # xs)" "p = last (d # xs)"
    and "nx' s = Some d" "nx' p = Some s" "\<And>x. x \<noteq> s \<Longrightarrow> x \<noteq> p \<Longrightarrow> nx' x = nx x"
    and "pv' s = Some p" "pv' d = Some s" "\<And>x. x \<noteq> s \<Longrightarrow> x \<noteq> d \<Longrightarrow> pv' x = pv x"
  shows "dring nx' pv' d (xs @ [s])"
proof -
  have "ring_links nx' pv' d (xs @ [s]) d"
  proof (cases xs rule: rev_cases)
    case Nil
    then show ?thesis using assms by simp
  next
    case (snoc ys y)
    then have y: "p = y" using assms(3) by simp
    have l: "ring_links nx pv d ys y" using assms(1) by (simp add: snoc dring_def ring_links_append)
    have "ring_links nx' pv' d ys y"
      by (rule ring_links_frame [OF l]) (use assms(1,2) snoc y in \<open>auto intro!: assms(6,9) simp: dring_def\<close>)
    then show ?thesis using snoc y assms(4,5,7,8) by (simp add: ring_links_append)
  qed
  then show ?thesis using assms(1,2) by (auto simp: dring_def)
qed

text \<open>The node \<open>s\<close> is unlinked from its neighbours.\<close>

lemma dring_remove:
  assumes "dring nx pv d (xs @ s # ys)" "p = last (d # xs)" "q = hd (ys @ [d])"
    and "nx' p = Some q" "\<And>x. x \<noteq> s \<Longrightarrow> x \<noteq> p \<Longrightarrow> nx' x = nx x"
    and "pv' q = Some p" "\<And>x. x \<noteq> s \<Longrightarrow> x \<noteq> q \<Longrightarrow> pv' x = pv x"
  shows "dring nx' pv' d (xs @ ys)"
proof -
  have L: "ring_links nx pv d xs s" "ring_links nx pv s ys d" and D: "distinct (d # xs @ s # ys)"
    using assms(1) by (simp_all add: dring_def ring_links_append)
  have "ring_links nx' pv' d (xs @ ys) d"
  proof (cases xs rule: rev_cases)
    case xs: Nil
    show ?thesis
    proof (cases ys)
      case Nil
      then show ?thesis using xs assms(2-4,6) by simp
    next
      case (Cons w ws)
      have l: "ring_links nx pv w ws d" using L(2) Cons by simp
      have "ring_links nx' pv' w ws d"
        by (rule ring_links_frame [OF l]) (use D xs Cons assms(2,3) in \<open>auto intro!: assms(5,7)\<close>)
      then show ?thesis using xs Cons assms(2-4,6) by simp
    qed
  next
    case (snoc zs z)
    have z: "ring_links nx pv d zs z" using L(1) snoc by (simp add: ring_links_append)
    show ?thesis
    proof (cases ys)
      case Nil
      have "ring_links nx' pv' d zs z"
        by (rule ring_links_frame [OF z]) (use Nil D snoc assms(2,3) in \<open>auto intro!: assms(5,7)\<close>)
      then show ?thesis using snoc Nil assms(2-4,6) by (simp add: ring_links_append)
    next
      case (Cons w ws)
      have l: "ring_links nx pv w ws d" using L(2) Cons by simp
      have "ring_links nx' pv' w ws d"
        by (rule ring_links_frame [OF l]) (use D snoc Cons assms(2,3) in \<open>auto intro!: assms(5,7)\<close>)
      moreover have "ring_links nx' pv' d zs z"
        by (rule ring_links_frame [OF z]) (use D snoc Cons assms(2,3) in \<open>auto intro!: assms(5,7)\<close>)
      ultimately show ?thesis using snoc Cons assms(2-4,6) by (simp add: ring_links_append)
    qed
  qed
  then show ?thesis using D by (simp add: dring_def)
qed

end
