(* ===== verification/LDB_Snapshot.thy ===== *)
theory LDB_Snapshot
  imports LDB_Format LDB_Ring "HOL-Library.Monad_Syntax"
begin

text \<open>
  The list of snapshots, \<^verbatim>\<open>db/snapshot.h\<close>: a circular doubly-linked list with a dummy head. The objects live
  in a heap, a list of cells in which a pointer is an index and a deleted object is \<open>None\<close>; the dummy
  head is the cell \<open>0\<close>. An access to a deleted object and a failed assertion are \<open>None\<close>.

  The abstraction is the list of the snapshots from the oldest to the newest, \<open>ring\<close>.
\<close>

record SnapshotImpl =
  number :: SequenceNumber
  prev :: nat
  next_snap :: nat
  list :: nat

record SnapshotList =
  this :: nat
  heap :: "SnapshotImpl option list"

definition cell :: "SnapshotImpl option list \<Rightarrow> nat \<Rightarrow> SnapshotImpl option" where
  "cell h p = (if p < length h then h ! p else None)"

definition set_next :: "SnapshotImpl option list \<Rightarrow> nat \<Rightarrow> nat \<Rightarrow> SnapshotImpl option list option" where
  "set_next h p v = map_option (\<lambda>s. h[p := Some (s\<lparr>next_snap := v\<rparr>)]) (cell h p)"

definition set_prev_link :: "SnapshotImpl option list \<Rightarrow> nat \<Rightarrow> nat \<Rightarrow> SnapshotImpl option list option" where
  "set_prev_link h p v = map_option (\<lambda>s. h[p := Some (s\<lparr>prev := v\<rparr>)]) (cell h p)"

definition SnapshotList_init :: "nat \<Rightarrow> SnapshotList" where
  "SnapshotList_init self = \<lparr>this = self, heap = [Some \<lparr>number = 0, prev = 0, next_snap = 0, list = self\<rparr>]\<rparr>"

definition SnapshotList_empty :: "SnapshotList \<Rightarrow> bool option" where
  "SnapshotList_empty l = map_option (\<lambda>d. next_snap d = 0) (cell (heap l) 0)"

definition SnapshotList_oldest :: "SnapshotList \<Rightarrow> nat option" where
  "SnapshotList_oldest l =
     do { e \<leftarrow> SnapshotList_empty l; if e then None else map_option next_snap (cell (heap l) 0) }"

definition SnapshotList_newest :: "SnapshotList \<Rightarrow> nat option" where
  "SnapshotList_newest l =
     do { e \<leftarrow> SnapshotList_empty l; if e then None else map_option prev (cell (heap l) 0) }"

definition SnapshotList_New :: "SnapshotList \<Rightarrow> SequenceNumber \<Rightarrow> (nat \<times> SnapshotList) option" where
  "SnapshotList_New l seq =
     do {
       d \<leftarrow> cell (heap l) 0;
       let s = length (heap l);
       let h = heap l @ [Some \<lparr>number = seq, prev = prev d, next_snap = 0, list = this l\<rparr>];
       h \<leftarrow> set_next h (prev d) s;
       h \<leftarrow> set_prev_link h 0 s;
       Some (s, l\<lparr>heap := h\<rparr>)
     }"

definition SnapshotList_Delete :: "SnapshotList \<Rightarrow> nat \<Rightarrow> SnapshotList option" where
  "SnapshotList_Delete l s =
     do {
       c \<leftarrow> cell (heap l) s;
       if list c \<noteq> this l then None
       else do {
         h \<leftarrow> set_next (heap l) (prev c) (next_snap c);
         h \<leftarrow> set_prev_link h (next_snap c) (prev c);
         Some (l\<lparr>heap := h[s := None]\<rparr>)
       }
     }"

subsection \<open>Rings\<close>

definition nx :: "SnapshotImpl option list \<Rightarrow> nat \<Rightarrow> nat option" where "nx h p = map_option next_snap (cell h p)"

definition pv :: "SnapshotImpl option list \<Rightarrow> nat \<Rightarrow> nat option" where "pv h p = map_option prev (cell h p)"

text \<open>The snapshots of the list with their numbers, from the oldest to the newest.\<close>

definition ring :: "SnapshotList \<Rightarrow> (nat \<times> SequenceNumber) list \<Rightarrow> bool" where
  "ring l xs \<longleftrightarrow> dring (nx (heap l)) (pv (heap l)) 0 (map fst xs) \<and>
     list_all (\<lambda>(p, n). \<exists>c. cell (heap l) p = Some c \<and> number c = n \<and> list c = this l) xs"

lemma ringD: "ring l xs \<Longrightarrow> (p, n) \<in> set xs \<Longrightarrow> \<exists>c. cell (heap l) p = Some c \<and> number c = n \<and> list c = this l"
  by (drule ring_def [THEN iffD1]) (auto simp: list_all_iff dest!: bspec)

lemma cell_set:
  "set_next h p v = Some h' \<Longrightarrow> cell h' q = (if q = p then map_option (\<lambda>s. s\<lparr>next_snap := v\<rparr>) (cell h p) else cell h q)"
  "set_prev_link h p v = Some h' \<Longrightarrow> cell h' q = (if q = p then map_option (\<lambda>s. s\<lparr>prev := v\<rparr>) (cell h p) else cell h q)"
  by (auto simp: set_next_def set_prev_link_def cell_def split: if_splits)

lemma set_Some:
  "cell h p \<noteq> None \<Longrightarrow> \<exists>h'. set_next h p v = Some h'" "cell h p \<noteq> None \<Longrightarrow> \<exists>h'. set_prev_link h p v = Some h'"
  by (auto simp: set_next_def set_prev_link_def)

lemma nx_cell: "nx h p = Some q \<Longrightarrow> \<exists>c. cell h p = Some c \<and> next_snap c = q"
  and pv_cell: "pv h p = Some q \<Longrightarrow> \<exists>c. cell h p = Some c \<and> prev c = q"
  by (auto simp: nx_def pv_def)

text \<open>Linking two cells and the effect on the two kinds of links.\<close>

lemma join_cells:
  assumes "cell h a \<noteq> None" "cell h b \<noteq> None"
  obtains h1 h2 where "set_next h a b' = Some h1" "set_prev_link h1 b a' = Some h2"
    "\<And>q. nx h2 q = (if q = a then Some b' else nx h q)" "\<And>q. pv h2 q = (if q = b then Some a' else pv h q)"
    "\<And>q. map_option number (cell h2 q) = map_option number (cell h q)" "\<And>q. map_option list (cell h2 q) = map_option list (cell h q)"
    "length h2 = length h"
proof -
  obtain h1 where h1: "set_next h a b' = Some h1" using set_Some assms by blast
  note c1 = cell_set(1) [OF h1]
  have "cell h1 b \<noteq> None" using assms by (auto simp: c1)
  then obtain h2 where h2: "set_prev_link h1 b a' = Some h2" using set_Some by blast
  note c2 = cell_set(2) [OF h2]
  have len: "length h2 = length h" using h1 h2 by (auto simp: set_next_def set_prev_link_def)
  have "nx h2 q = (if q = a then Some b' else nx h q)" "pv h2 q = (if q = b then Some a' else pv h q)"
    "map_option number (cell h2 q) = map_option number (cell h q)" "map_option list (cell h2 q) = map_option list (cell h q)" for q
    using assms by (auto simp: nx_def pv_def c1 c2)
  then show thesis using that h1 h2 len by blast
qed

lemma cell_append: "cell (h @ [c]) q = (if q = length h then c else cell h q)"
  by (auto simp: cell_def nth_append)

lemma cell_bound: "cell h p = Some c \<Longrightarrow> p < length h"
  by (auto simp: cell_def split: if_splits)

lemma New_ring:
  assumes "ring l xs"
  shows "\<exists>s l'. SnapshotList_New l seq = Some (s, l') \<and> ring l' (xs @ [(s, seq)])"
proof -
  let ?ps = "map fst xs" and ?s = "length (heap l)"
  have R: "dring (nx (heap l)) (pv (heap l)) 0 ?ps" using assms by (simp add: ring_def)
  obtain d where d: "cell (heap l) 0 = Some d" "prev d = last (0 # ?ps)"
    using dring_ends(2) [OF R] pv_cell [of "heap l" 0] by auto
  let ?p = "prev d"
  let ?h = "heap l @ [Some \<lparr>number = seq, prev = ?p, next_snap = 0, list = this l\<rparr>]"
  have cells: "\<And>q. q \<in> set (0 # ?ps) \<Longrightarrow> cell (heap l) q \<noteq> None" using dring_nodes(1) [OF R] by (auto simp: nx_def)
  have p: "cell (heap l) ?p \<noteq> None" using d(2) cells [OF last_in_set] by simp
  have fresh: "?s \<notin> set (0 # ?ps)" "?p \<noteq> ?s" using cells [of ?s] p by (auto simp: cell_def)
  have "cell ?h ?p \<noteq> None" "cell ?h 0 \<noteq> None" using p d by (auto simp: cell_append)
  then obtain h1 h2 where h: "set_next ?h ?p ?s = Some h1" "set_prev_link h1 0 ?s = Some h2"
    "\<And>q. nx h2 q = (if q = ?p then Some ?s else nx ?h q)" "\<And>q. pv h2 q = (if q = 0 then Some ?s else pv ?h q)"
    "\<And>q. map_option number (cell h2 q) = map_option number (cell ?h q)" "\<And>q. map_option list (cell h2 q) = map_option list (cell ?h q)"
    by (rule join_cells [of ?h ?p 0 ?s ?s]) blast
  have old: "nx ?h q = nx (heap l) q" "pv ?h q = pv (heap l) q" if "q \<noteq> ?s" for q
    using that by (simp_all add: nx_def pv_def cell_append)
  have "nx h2 ?s = Some 0" "pv h2 ?s = Some ?p" using h(3,4) [of ?s] fresh by (auto simp: nx_def pv_def cell_append)
  then have "dring (nx h2) (pv h2) 0 (?ps @ [?s])" by (intro dring_append [OF R fresh(1) d(2)]) (simp_all add: h(3,4) old)
  moreover have "\<exists>c. cell h2 p = Some c \<and> number c = n \<and> list c = this l" if "(p, n) \<in> set (xs @ [(?s, seq)])" for p n
  proof -
    have "(p, n) \<in> set xs \<Longrightarrow> p \<noteq> ?s" using fresh(1) by force
    then have "map_option number (cell ?h p) = Some n" "map_option list (cell ?h p) = Some (this l)"
      using that assms by (auto simp: ring_def list_all_iff cell_append)
    then have "map_option number (cell h2 p) = Some n" "map_option list (cell h2 p) = Some (this l)"
      using h(5,6) by simp_all
    then show ?thesis by auto
  qed
  moreover have "SnapshotList_New l seq = Some (?s, l\<lparr>heap := h2\<rparr>)"
    using d(1) h(1,2) by (simp add: SnapshotList_New_def)
  ultimately show ?thesis by (auto simp: ring_def list_all_iff)
qed

lemma Delete_ring:
  assumes "ring l (xs @ (s, n) # ys)"
  shows "\<exists>l'. SnapshotList_Delete l s = Some l' \<and> ring l' (xs @ ys)"
proof -
  let ?ps = "map fst xs" and ?qs = "map fst ys"
  have R: "dring (nx (heap l)) (pv (heap l)) 0 (?ps @ s # ?qs)" using assms by (simp add: ring_def)
  have D: "distinct (0 # ?ps @ s # ?qs)" using R by (simp add: dring_def)
  obtain c where c: "cell (heap l) s = Some c" "list c = this l" using assms by (auto simp: ring_def)
  have pn: "prev c = last (0 # ?ps)" "next_snap c = hd (?qs @ [0])"
    using dring_node [OF R] c by (auto simp: nx_def pv_def)
  have "prev c \<in> set (0 # ?ps)" "next_snap c \<in> set (?qs @ [0])"
    unfolding pn by (rule last_in_set, simp) (rule hd_in_set, simp)
  then have ends: "prev c \<in> set (0 # ?ps @ s # ?qs)" "next_snap c \<in> set (0 # ?ps @ s # ?qs)" "prev c \<noteq> s" "next_snap c \<noteq> s"
    using D by auto
  have "cell (heap l) (prev c) \<noteq> None" "cell (heap l) (next_snap c) \<noteq> None"
    using dring_nodes(1) [OF R ends(1)] dring_nodes(1) [OF R ends(2)] by (auto simp: nx_def)
  then obtain h1 h2 where h: "set_next (heap l) (prev c) (next_snap c) = Some h1" "set_prev_link h1 (next_snap c) (prev c) = Some h2"
    "\<And>q. nx h2 q = (if q = prev c then Some (next_snap c) else nx (heap l) q)"
    "\<And>q. pv h2 q = (if q = next_snap c then Some (prev c) else pv (heap l) q)"
    "\<And>q. map_option number (cell h2 q) = map_option number (cell (heap l) q)"
    "\<And>q. map_option list (cell h2 q) = map_option list (cell (heap l) q)"
    by (rule join_cells [of "heap l" "prev c" "next_snap c" "next_snap c" "prev c"]) blast
  let ?h = "h2[s := None]"
  have other: "cell ?h q = (if q = s then None else cell h2 q)" for q by (simp add: cell_def)
  then have o: "nx ?h q = (if q = s then None else nx h2 q)" "pv ?h q = (if q = s then None else pv h2 q)" for q
    by (simp_all add: nx_def pv_def)
  have "dring (nx ?h) (pv ?h) 0 (?ps @ ?qs)"
    by (rule dring_remove [OF R pn]) (use ends in \<open>simp_all add: o h(3,4)\<close>)
  moreover have "\<exists>d. cell ?h p = Some d \<and> number d = m \<and> list d = this l" if pm: "(p, m) \<in> set (xs @ ys)" for p m
  proof -
    have "p \<in> set (?ps @ ?qs)" using pm image_eqI [of p fst "(p, m)"] by auto
    then have "p \<noteq> s" using D by auto
    obtain d where "cell (heap l) p = Some d" "number d = m" "list d = this l" using ringD [OF assms, of p m] pm by auto
    then show ?thesis using h(5,6) [of p] \<open>p \<noteq> s\<close> by (auto simp: other)
  qed
  moreover have "SnapshotList_Delete l s = Some (l\<lparr>heap := ?h\<rparr>)"
    using c h(1,2) by (simp add: SnapshotList_Delete_def)
  ultimately show ?thesis by (intro exI [of _ "l\<lparr>heap := ?h\<rparr>"]) (simp add: ring_def list_all_iff split_beta)
qed

lemma init_ring: "ring (SnapshotList_init self) []"
  by (simp add: ring_def dring_def SnapshotList_init_def nx_def pv_def cell_def)

lemma ring_ends:
  assumes "ring l xs"
  shows "SnapshotList_empty l = Some (xs = [])"
    and "SnapshotList_oldest l = (if xs = [] then None else Some (fst (hd xs)))"
    and "SnapshotList_newest l = (if xs = [] then None else Some (fst (last xs)))"
proof -
  have R: "dring (nx (heap l)) (pv (heap l)) 0 (map fst xs)" using assms by (simp add: ring_def)
  obtain d where d: "cell (heap l) 0 = Some d" "next_snap d = hd (map fst xs @ [0])" "prev d = last (0 # map fst xs)"
    using dring_ends [OF R] by (auto simp: nx_def pv_def)
  have "hd (map fst xs @ [0]) = 0 \<longleftrightarrow> xs = []" using dring_distinct(2) [OF R] by (cases xs) auto
  with d show e: "SnapshotList_empty l = Some (xs = [])" by (simp add: SnapshotList_empty_def)
  show "SnapshotList_oldest l = (if xs = [] then None else Some (fst (hd xs)))"
    using e d by (auto simp: SnapshotList_oldest_def hd_map hd_append)
  show "SnapshotList_newest l = (if xs = [] then None else Some (fst (last xs)))"
    using e d by (auto simp: SnapshotList_newest_def last_map)
qed

subsection \<open>Properties\<close>

text \<open>
  C32: the linked list implements a sequence of snapshots. A new list is empty; \<^verbatim>\<open>New\<close> appends a snapshot, \<^verbatim>\<open>Delete\<close>
  removes one, wherever it is, and leaves the others in order; \<^verbatim>\<open>oldest\<close> and \<^verbatim>\<open>newest\<close> are the ends. No operation
  follows a pointer to a deleted snapshot.
\<close>

theorem snapshot_list:
  assumes "ring l (xs @ (s, n) # ys)"
  shows "ring (SnapshotList_init self) [] \<and>
    (\<exists>s' l'. SnapshotList_New l seq = Some (s', l') \<and> ring l' ((xs @ (s, n) # ys) @ [(s', seq)])) \<and>
    (\<exists>l'. SnapshotList_Delete l s = Some l' \<and> ring l' (xs @ ys)) \<and>
    SnapshotList_oldest l = Some (fst (hd (xs @ (s, n) # ys))) \<and> SnapshotList_newest l = Some (fst (last (xs @ (s, n) # ys)))"
  using init_ring New_ring [OF assms] Delete_ring [OF assms] ring_ends [OF assms] by simp

theorem snapshot_list_witness:
  "\<exists>s1 s2 s3 l1 l2 l3 l'. SnapshotList_New (SnapshotList_init 0) 5 = Some (s1, l1) \<and> SnapshotList_New l1 6 = Some (s2, l2) \<and>
     SnapshotList_New l2 9 = Some (s3, l3) \<and> SnapshotList_oldest l3 = Some s1 \<and> SnapshotList_newest l3 = Some s3 \<and>
     SnapshotList_Delete l3 s2 = Some l' \<and> ring l' [(s1, 5), (s3, 9)]"
proof -
  obtain s1 l1 where 1: "SnapshotList_New (SnapshotList_init 0) 5 = Some (s1, l1)" "ring l1 [(s1, 5)]"
    using New_ring [OF init_ring, of 0 5] by auto
  obtain s2 l2 where 2: "SnapshotList_New l1 6 = Some (s2, l2)" "ring l2 [(s1, 5), (s2, 6)]"
    using New_ring [OF 1(2), of 6] by auto
  obtain s3 l3 where 3: "SnapshotList_New l2 9 = Some (s3, l3)" "ring l3 [(s1, 5), (s2, 6), (s3, 9)]"
    using New_ring [OF 2(2), of 9] by auto
  show ?thesis using 1(1) 2(1) 3(1) snapshot_list [of l3 "[(s1, 5)]" s2 6 "[(s3, 9)]" 0 0] 3(2) by auto
qed

end
