(* ===== verification/LDB_Env.thy ===== *)
theory LDB_Env
  imports LDB_Status "HOL-Library.Monad_Syntax"
begin

text \<open>
  Files: the classes \<^verbatim>\<open>SequentialFile\<close> and \<^verbatim>\<open>WritableFile\<close> of \<^verbatim>\<open>include/leveldb/env.h\<close> and their
  implementations in \<^verbatim>\<open>util/env_posix.cc\<close>. An operation is a function on the state of the file that
  returns a status, or \<open>None\<close> where its behaviour is undefined.

  A stream of the C library is the record \<open>FILE\<close>: its bytes, the position of the next read, how many
  bytes the device still takes, the offset of the first byte that cannot be read, whether it can seek,
  and the text of the error of a failing call. The locales \<open>sequential_file\<close> and \<open>writable_file\<close> say
  what the log relies on; the interpretations \<open>posix_seq\<close> and \<open>posix_wr\<close> show that the files of
  \<^verbatim>\<open>env_posix.cc\<close> keep it.
\<close>

subsection \<open>Streams of the C library\<close>

record FILE =
  f_data :: "byte list"
  f_pos :: nat
  f_room :: nat
  f_fault :: "nat option"
  f_seekable :: bool
  f_failed :: bool
  f_strerror :: "byte list"

definition readable_end :: "FILE \<Rightarrow> nat" where
  "readable_end f = (case f_fault f of None \<Rightarrow> length (f_data f) | Some q \<Rightarrow> min q (length (f_data f)))"

definition fread_unlocked :: "nat \<Rightarrow> FILE \<Rightarrow> byte list \<times> FILE" where
  "fread_unlocked n f =
     (let bytes = take n (take (readable_end f - f_pos f) (drop (f_pos f) (f_data f)))
      in (bytes, f\<lparr>f_pos := f_pos f + length bytes\<rparr>))"

text \<open>The end-of-file indicator, after a read that returned less than was asked for.\<close>

definition feof :: "FILE \<Rightarrow> bool" where "feof f \<longleftrightarrow> length (f_data f) \<le> f_pos f"

definition fseek_cur :: "64 word \<Rightarrow> FILE \<Rightarrow> FILE option" where
  "fseek_cur n f =
     (let p = int (f_pos f) + sint n in if f_seekable f \<and> 0 \<le> p then Some (f\<lparr>f_pos := nat p\<rparr>) else None)"

definition fwrite_unlocked :: "byte list \<Rightarrow> FILE \<Rightarrow> nat \<times> FILE" where
  "fwrite_unlocked bytes f =
     (let r = min (length bytes) (f_room f)
      in (r, f\<lparr>f_data := f_data f @ take r bytes, f_room := f_room f - r, f_failed := f_failed f \<or> r < length bytes\<rparr>))"

definition fflush_unlocked :: "FILE \<Rightarrow> bool" where "fflush_unlocked f \<longleftrightarrow> \<not> f_failed f"

subsection \<open>The posix files\<close>

definition posix_IOError :: "byte list \<Rightarrow> FILE \<Rightarrow> Status option" where
  "posix_IOError context f = Status_IOError context (f_strerror f)"

record PosixSequentialFile =
  sq_filename :: "byte list"
  sq_file :: FILE

definition PosixSequentialFile_Read :: "nat \<Rightarrow> PosixSequentialFile \<Rightarrow> (Status \<times> slice \<times> PosixSequentialFile) option" where
  "PosixSequentialFile_Read n sf =
     (let (bytes, f) = fread_unlocked n (sq_file sf); sf = sf\<lparr>sq_file := f\<rparr> in
      if length bytes < n then
        if feof f then Some (Status_OK, bytes, sf)
        else do { s \<leftarrow> posix_IOError (sq_filename sf) f; Some (s, bytes, sf) }
      else Some (Status_OK, bytes, sf))"

definition PosixSequentialFile_Skip :: "64 word \<Rightarrow> PosixSequentialFile \<Rightarrow> (Status \<times> PosixSequentialFile) option" where
  "PosixSequentialFile_Skip n sf =
     (case fseek_cur n (sq_file sf) of
        None \<Rightarrow> do { s \<leftarrow> posix_IOError (sq_filename sf) (sq_file sf); Some (s, sf) }
      | Some f \<Rightarrow> Some (Status_OK, sf\<lparr>sq_file := f\<rparr>))"

text \<open>The stream of a writable file is \<^verbatim>\<open>NULL\<close> after \<^verbatim>\<open>Close\<close>.\<close>

record PosixWritableFile =
  wr_filename :: "byte list"
  wr_file :: "FILE option"

definition PosixWritableFile_Append :: "slice \<Rightarrow> PosixWritableFile \<Rightarrow> (Status \<times> PosixWritableFile) option" where
  "PosixWritableFile_Append data pf =
     do { f \<leftarrow> wr_file pf;
          let (r, f) = fwrite_unlocked data f; pf = pf\<lparr>wr_file := Some f\<rparr> in
          if r \<noteq> length data then do { s \<leftarrow> posix_IOError (wr_filename pf) f; Some (s, pf) }
          else Some (Status_OK, pf) }"

definition PosixWritableFile_Flush :: "PosixWritableFile \<Rightarrow> (Status \<times> PosixWritableFile) option" where
  "PosixWritableFile_Flush pf =
     do { f \<leftarrow> wr_file pf;
          if \<not> fflush_unlocked f then do { s \<leftarrow> posix_IOError (wr_filename pf) f; Some (s, pf) }
          else Some (Status_OK, pf) }"

definition PosixWritableFile_Close :: "PosixWritableFile \<Rightarrow> (Status \<times> PosixWritableFile) option" where
  "PosixWritableFile_Close pf =
     do { f \<leftarrow> wr_file pf;
          s \<leftarrow> (if \<not> fflush_unlocked f then posix_IOError (wr_filename pf) f else Some Status_OK);
          Some (s, pf\<lparr>wr_file := None\<rparr>) }"

subsection \<open>What the log relies on\<close>

locale sequential_file =
  fixes file_Read :: "nat \<Rightarrow> 'f \<Rightarrow> (Status \<times> slice \<times> 'f) option"
    and unread :: "'f \<Rightarrow> byte list"
    and healthy :: "'f \<Rightarrow> bool"
  assumes read_ok: "healthy f \<Longrightarrow> \<exists>f'. file_Read n f = Some (Status_OK, take n (unread f), f') \<and>
    unread f' = drop n (unread f) \<and> healthy f'"

locale seekable_file = sequential_file file_Read unread healthy
  for file_Read :: "nat \<Rightarrow> 'f \<Rightarrow> (Status \<times> slice \<times> 'f) option" and unread :: "'f \<Rightarrow> byte list" and healthy :: "'f \<Rightarrow> bool" +
  fixes file_Skip :: "64 word \<Rightarrow> 'f \<Rightarrow> (Status \<times> 'f) option"
  assumes skip_ok: "healthy f \<Longrightarrow> \<exists>s f'. file_Skip n f = Some (s, f') \<and> healthy f'"

text \<open>
  A file that has refused bytes refuses all later ones: \<^verbatim>\<open>Writer::AddRecord\<close> does not look at the status
  of the first of several appends.
\<close>

locale writable_file =
  fixes file_Append :: "slice \<Rightarrow> 'f \<Rightarrow> (Status \<times> 'f) option"
    and file_Flush :: "'f \<Rightarrow> (Status \<times> 'f) option"
    and contents :: "'f \<Rightarrow> byte list"
  assumes append_ok: "file_Append d f = Some (s, f') \<Longrightarrow> Status_ok s \<Longrightarrow> contents f' = contents f @ d"
    and append_sticky: "file_Append d f = Some (s, f') \<Longrightarrow> \<not> Status_ok s \<Longrightarrow> d' \<noteq> [] \<Longrightarrow>
      file_Append d' f' = Some (s', f'') \<Longrightarrow> \<not> Status_ok s'"
    and flush_keeps: "file_Flush f = Some (s, f') \<Longrightarrow> contents f' = contents f"

text \<open>A file with room for \<open>n\<close> more bytes takes them.\<close>

locale bounded_file = writable_file file_Append file_Flush contents
  for file_Append :: "slice \<Rightarrow> 'f \<Rightarrow> (Status \<times> 'f) option" and file_Flush :: "'f \<Rightarrow> (Status \<times> 'f) option"
    and contents :: "'f \<Rightarrow> byte list" +
  fixes has_room :: "nat \<Rightarrow> 'f \<Rightarrow> bool"
  assumes append_room: "has_room (length d + n) f \<Longrightarrow> \<exists>f'. file_Append d f = Some (Status_OK, f') \<and> has_room n f'"
    and flush_room: "has_room n f \<Longrightarrow> \<exists>f'. file_Flush f = Some (Status_OK, f') \<and> has_room n f'"

definition posix_unread :: "PosixSequentialFile \<Rightarrow> byte list" where
  "posix_unread sf = drop (f_pos (sq_file sf)) (f_data (sq_file sf))"

definition posix_healthy :: "PosixSequentialFile \<Rightarrow> bool" where
  "posix_healthy sf \<longleftrightarrow> f_fault (sq_file sf) = None \<and> length (sq_filename sf) + length (f_strerror (sq_file sf)) + 7 < 2 ^ 32"

definition posix_contents :: "PosixWritableFile \<Rightarrow> byte list" where
  "posix_contents pf = (case wr_file pf of None \<Rightarrow> [] | Some f \<Rightarrow> f_data f)"

lemma IOError_returns:
  "length c + length (f_strerror f) + 7 < 2 ^ 32 \<Longrightarrow> posix_IOError c f = Some (Some (status_bytes kIOError c (f_strerror f)))"
  unfolding posix_IOError_def Status_IOError_def by (rule Status_init_bytes) (simp_all add: status_text_def str_def)

definition posix_room :: "nat \<Rightarrow> PosixWritableFile \<Rightarrow> bool" where
  "posix_room n pf \<longleftrightarrow> (case wr_file pf of None \<Rightarrow> False | Some f \<Rightarrow> \<not> f_failed f \<and> n \<le> f_room f)"

interpretation posix_seq: seekable_file PosixSequentialFile_Read posix_unread posix_healthy PosixSequentialFile_Skip
proof
  fix f n
  assume h: "posix_healthy f"
  then have take: "take (readable_end (sq_file f) - f_pos (sq_file f)) (drop (f_pos (sq_file f)) (f_data (sq_file f))) = posix_unread f"
    by (simp add: posix_unread_def posix_healthy_def readable_end_def)
  have len: "length (posix_unread f) = length (f_data (sq_file f)) - f_pos (sq_file f)" by (simp add: posix_unread_def)
  show "\<exists>f'. PosixSequentialFile_Read n f = Some (Status_OK, take n (posix_unread f), f') \<and>
      posix_unread f' = drop n (posix_unread f) \<and> posix_healthy f'"
    using h len
    by (auto simp: PosixSequentialFile_Read_def fread_unlocked_def take feof_def Let_def posix_healthy_def)
      (auto simp: posix_unread_def min_def add.commute)
next
  fix f n
  assume h: "posix_healthy f"
  then have "length (sq_filename f) + length (f_strerror (sq_file f)) + 7 < 2 ^ 32" by (simp add: posix_healthy_def)
  then obtain s where "posix_IOError (sq_filename f) (sq_file f) = Some s" using IOError_returns by blast
  with h show "\<exists>s f'. PosixSequentialFile_Skip n f = Some (s, f') \<and> posix_healthy f'"
    by (auto simp: PosixSequentialFile_Skip_def fseek_cur_def Let_def posix_healthy_def)
qed

lemma not_ok_IOError: "posix_IOError c f = Some s \<Longrightarrow> \<not> Status_ok s"
  by (auto simp: posix_IOError_def Status_IOError_def Status_init_def Status_ok_def Let_def split: if_splits)

lemma posix_append_fails:
  "PosixWritableFile_Append d pf = Some (s, pf') \<Longrightarrow> \<not> Status_ok s \<Longrightarrow> \<exists>f. wr_file pf' = Some f \<and> f_room f = 0"
  by (auto simp: PosixWritableFile_Append_def fwrite_unlocked_def Let_def Status_ok_def Status_OK_def min_def
      split: bind_splits if_splits)

lemma posix_append_full:
  "wr_file pf = Some f \<Longrightarrow> f_room f = 0 \<Longrightarrow> d \<noteq> [] \<Longrightarrow> PosixWritableFile_Append d pf = Some (s, pf') \<Longrightarrow> \<not> Status_ok s"
  by (auto simp: PosixWritableFile_Append_def fwrite_unlocked_def Let_def not_ok_IOError split: bind_splits)

interpretation posix_wr: bounded_file PosixWritableFile_Append PosixWritableFile_Flush posix_contents posix_room
proof
  show "PosixWritableFile_Append d f = Some (s, f') \<Longrightarrow> Status_ok s \<Longrightarrow> posix_contents f' = posix_contents f @ d" for d f s f'
    by (auto simp: PosixWritableFile_Append_def fwrite_unlocked_def posix_contents_def Let_def min_def not_ok_IOError
        split: bind_splits if_splits dest: not_ok_IOError)
  show "PosixWritableFile_Append d f = Some (s, f') \<Longrightarrow> \<not> Status_ok s \<Longrightarrow> d' \<noteq> [] \<Longrightarrow>
      PosixWritableFile_Append d' f' = Some (s', f'') \<Longrightarrow> \<not> Status_ok s'" for d f s f' d' s' f''
    using posix_append_fails posix_append_full by blast
  show "PosixWritableFile_Flush f = Some (s, f') \<Longrightarrow> posix_contents f' = posix_contents f" for f s f'
    by (auto simp: PosixWritableFile_Flush_def split: bind_splits if_splits)
  show "posix_room (length d + n) f \<Longrightarrow> \<exists>f'. PosixWritableFile_Append d f = Some (Status_OK, f') \<and> posix_room n f'" for d n f
    by (cases "wr_file f") (auto simp: posix_room_def PosixWritableFile_Append_def fwrite_unlocked_def Let_def)
  show "posix_room n f \<Longrightarrow> \<exists>f'. PosixWritableFile_Flush f = Some (Status_OK, f') \<and> posix_room n f'" for n f
    by (auto simp: posix_room_def PosixWritableFile_Flush_def fflush_unlocked_def split: option.splits)
qed

end
