(* ===== verification/LDB_Log_Correct.thy ===== *)
theory LDB_Log_Correct
  imports LDB_Log
begin

text \<open>
  Correctness of the log. \<open>fragments\<close> is the reference: how a record that is added at an offset of a
  block is cut into physical records, each behind some bytes of padding. A successful \<^verbatim>\<open>AddRecord\<close> is
  shown to append exactly their bytes, for every file that obeys \<open>writable_file\<close>; \<^verbatim>\<open>ReadRecord\<close> is shown
  to return the record again, for every file that obeys \<open>sequential_file\<close>, and to report the end of the
  log, without a complaint, when the bytes of the record are cut off.
\<close>

subsection \<open>The reference\<close>

definition phys_record :: "nat \<Rightarrow> slice \<Rightarrow> byte list" where
  "phys_record t data =
     word_le 4 (Mask (crc32c_spec 0 (word_of_nat t # data))) @
     [word_of_nat (length data), word_of_nat (length data div 256), word_of_nat t] @ data"

lemma length_phys_record [simp]: "length (phys_record t d) = kHeaderSize + length d"
  by (simp add: phys_record_def)

lemma phys_record_nonempty [simp]: "phys_record t d \<noteq> []"
  by (simp add: phys_record_def)

text \<open>The padding before a record at an offset, and the offset where the record starts.\<close>

definition pad_len :: "nat \<Rightarrow> nat" where
  "pad_len off = (if kBlockSize - off < kHeaderSize then kBlockSize - off else 0)"

definition start_off :: "nat \<Rightarrow> nat" where
  "start_off off = (if kBlockSize - off < kHeaderSize then 0 else off)"

lemma start_off_le: "off \<le> kBlockSize \<Longrightarrow> start_off off + kHeaderSize \<le> kBlockSize"
  by (auto simp: start_off_def kBlockSize_def)

function fragments :: "nat \<Rightarrow> bool \<Rightarrow> slice \<Rightarrow> (nat \<times> slice) list" where
  "fragments off first data =
     (let avail = kBlockSize - start_off off - kHeaderSize in
      if off > kBlockSize \<or> length data \<le> avail then [(fragment_type first True, data)]
      else (fragment_type first False, take avail data) # fragments kBlockSize False (drop avail data))"
  by pat_completeness auto
termination
proof (relation "measure (\<lambda>(off, first, data). 2 * length data + (if off = kBlockSize then 0 else 1))", goal_cases)
  case (2 off first data avail)
  then show ?case by (cases "off = kBlockSize") (auto simp: start_off_def kBlockSize_def)
qed simp

declare fragments.simps [simp del]

fun frags_bytes :: "nat \<Rightarrow> (nat \<times> slice) list \<Rightarrow> byte list" where
  "frags_bytes off [] = []"
| "frags_bytes off ((t, d) # fs) =
     replicate (pad_len off) 0 @ phys_record t d @ frags_bytes (start_off off + kHeaderSize + length d) fs"

fun frags_end :: "nat \<Rightarrow> (nat \<times> slice) list \<Rightarrow> nat" where
  "frags_end off [] = off"
| "frags_end off ((t, d) # fs) = frags_end (start_off off + kHeaderSize + length d) fs"

text \<open>The bytes of one record, the offset behind it, and the bytes of a log.\<close>

definition logrec_bytes :: "nat \<Rightarrow> slice \<Rightarrow> byte list" where
  "logrec_bytes off data = frags_bytes off (fragments off True data)"

definition logrec_end :: "nat \<Rightarrow> slice \<Rightarrow> nat" where
  "logrec_end off data = frags_end off (fragments off True data)"

primrec log_bytes :: "nat \<Rightarrow> slice list \<Rightarrow> byte list" where
  "log_bytes off [] = []"
| "log_bytes off (d # ds) = logrec_bytes off d @ log_bytes (logrec_end off d) ds"

primrec log_end :: "nat \<Rightarrow> slice list \<Rightarrow> nat" where
  "log_end off [] = off"
| "log_end off (d # ds) = log_end (logrec_end off d) ds"

subsection \<open>The writer appends the reference\<close>

definition writer_ok :: "bool \<Rightarrow> 'f log_Writer \<Rightarrow> bool" where
  "writer_ok le w \<longleftrightarrow> w_block_offset w \<le> kBlockSize \<and>
     w_type_crc w = map (\<lambda>i. Value le 0 [word_of_nat i]) [0..<kMaxRecordType + 1]"

lemma writer_ok_init: "writer_ok le (Writer_init le f)"
  by (simp add: writer_ok_def Writer_init_def)

lemma fragment_type_range: "1 \<le> fragment_type a b" "fragment_type a b \<le> 4"
  by (simp_all add: fragment_type_def)

lemma byte_and_FF: "w AND 0xFF = (w :: byte)"
proof -
  have "(0xFF :: byte) = - 1" by simp
  then show ?thesis by (simp only: and.right_neutral)
qed

lemma record_header:
  assumes "w_type_crc w = map (\<lambda>i. Value le 0 [word_of_nat i]) [0..<kMaxRecordType + 1]" "t \<le> 4"
  shows "EncodeFixed32 le (Mask (Extend le 0 (w_type_crc w ! t) data)) @
      [word_of_nat (length data) AND 0xFF, word_of_nat (length data div 256), word_of_nat t] @ data = phys_record t data"
proof -
  have "w_type_crc w ! t = Value le 0 [word_of_nat t]"
    using assms by (simp only: assms(1)) (subst nth_map, simp_all del: upt_Suc)
  then have "Extend le 0 (w_type_crc w ! t) data = crc32c_spec 0 (word_of_nat t # data)"
    by (simp add: Value_def Extend_append)
  then show ?thesis by (simp only: phys_record_def EncodeFixed_le byte_and_FF)
qed

context writable_file
begin

lemma emit_ok:
  assumes emit: "EmitPhysicalRecord file_Append file_Flush le w t data = Some (s, w')" and "Status_ok s"
    and "writer_ok le w" "t \<le> 4"
  shows "contents (w_dest w') = contents (w_dest w) @ phys_record t data \<and> writer_ok le w' \<and>
    w_block_offset w' = w_block_offset w + kHeaderSize + length data"
proof -
  have t: "w_type_crc w = map (\<lambda>i. Value le 0 [word_of_nat i]) [0..<kMaxRecordType + 1]"
    using assms by (simp add: writer_ok_def)
  define buf where "buf = EncodeFixed32 le (Mask (Extend le 0 (w_type_crc w ! t) data)) @
      [word_of_nat (length data) AND 0xFF, word_of_nat (length data div 256), word_of_nat t]"
  have "contents (w_dest w') = contents (w_dest w) @ buf @ data"
    using emit \<open>Status_ok s\<close>
    by (auto simp: EmitPhysicalRecord_def Let_def simp flip: buf_def split: if_splits bind_splits
        dest!: append_ok flush_keeps)
  moreover have "buf @ data = phys_record t data" using record_header [OF t \<open>t \<le> 4\<close>] by (simp add: buf_def)
  moreover have "w_block_offset w + kHeaderSize + length data \<le> kBlockSize"
    using emit by (simp add: EmitPhysicalRecord_def Let_def split: if_splits)
  ultimately show ?thesis using EmitPhysicalRecord_offset [OF emit] assms(3) by (simp add: writer_ok_def)
qed

text \<open>A trailer that the file refuses makes the record behind it fail.\<close>

lemma emit_after_new_block:
  assumes nb: "new_block file_Append w = Some w1"
    and emit: "EmitPhysicalRecord file_Append file_Flush le w1 t data = Some (s, w')" and ok: "Status_ok s"
  shows "contents (w_dest w1) = contents (w_dest w) @ replicate (pad_len (w_block_offset w)) 0"
proof (cases "kBlockSize - w_block_offset w < kHeaderSize \<and> 0 < kBlockSize - w_block_offset w")
  case True
  then obtain s1 where a: "file_Append (replicate (kBlockSize - w_block_offset w) 0) (w_dest w) = Some (s1, w_dest w1)"
    using nb by (auto simp: new_block_def Let_def split: if_splits bind_splits)
  define h where "h = EncodeFixed32 le (Mask (Extend le 0 (w_type_crc w1 ! t) data)) @
      [word_of_nat (length data) AND 0xFF, word_of_nat (length data div 256), word_of_nat t]"
  have "\<exists>s2 d2. file_Append h (w_dest w1) = Some (s2, d2) \<and> Status_ok s2"
    using emit ok by (auto simp: EmitPhysicalRecord_def Let_def simp flip: h_def split: if_splits bind_splits)
  moreover have "h \<noteq> []" by (simp add: h_def)
  ultimately have "Status_ok s1" using append_sticky [OF a] by blast
  then show ?thesis using append_ok [OF a] True by (simp add: pad_len_def)
next
  case False
  then show ?thesis using nb by (auto simp: new_block_def Let_def pad_len_def split: if_splits)
qed

lemma add_loop_step:
  assumes "AddRecord_loop file_Append file_Flush le first data w = Some (s, w')" "Status_ok s" "writer_ok le w"
  defines "off \<equiv> w_block_offset w"
  defines "avail \<equiv> kBlockSize - start_off off - kHeaderSize"
  shows "if length data \<le> avail
    then contents (w_dest w') = contents (w_dest w) @ frags_bytes off [(fragment_type first True, data)] \<and> writer_ok le w' \<and>
      w_block_offset w' = frags_end off [(fragment_type first True, data)]
    else \<exists>w1. AddRecord_loop file_Append file_Flush le False (drop avail data) w1 = Some (s, w') \<and> writer_ok le w1 \<and>
      contents (w_dest w1) = contents (w_dest w) @ frags_bytes off [(fragment_type first False, take avail data)] \<and>
      w_block_offset w1 = kBlockSize"
proof -
  define fl where "fl = (if length data < avail then length data else avail)"
  obtain w0 where nb: "new_block file_Append w = Some w0"
    using assms(1) by (auto simp: AddRecord_loop.simps [of file_Append file_Flush le first data w] split: bind_splits)
  have w0: "w_block_offset w0 = start_off off" "w_type_crc w0 = w_type_crc w" "off \<le> kBlockSize"
    using new_block_offset [OF nb] by (simp_all add: start_off_def off_def)
  have av: "kBlockSize - w_block_offset w0 - kHeaderSize = avail" by (simp add: avail_def w0)
  obtain s1 w1 where
    emit: "EmitPhysicalRecord file_Append file_Flush le w0 (fragment_type first (length data = fl)) (take fl data) = Some (s1, w1)"
    and cont: "(if Status_ok s1 \<and> 0 < length data - fl
      then AddRecord_loop file_Append file_Flush le False (drop fl data) w1 else Some (s1, w1)) = Some (s, w')"
    using assms(1) start_off_le [OF w0(3)]
    unfolding AddRecord_loop.simps [of file_Append file_Flush le first data w] nb bind.bind_lunit Let_def av fl_def [symmetric]
    by (auto simp: w0(1) bind_eq_Some_conv)
  have s1: "Status_ok s1" using cont assms(2) by (auto split: if_splits)
  have w0_ok: "writer_ok le w0" using w0 start_off_le [OF w0(3)] assms(3) by (simp add: writer_ok_def)
  note ok = emit_ok [OF emit s1 w0_ok fragment_type_range(2)] emit_after_new_block [OF nb emit s1] w0
  show ?thesis
  proof (cases "length data \<le> avail")
    case True
    then have "fl = length data" by (simp add: fl_def)
    then show ?thesis using True ok cont by (simp add: off_def)
  next
    case False
    then have "fl = avail" by (simp add: fl_def)
    then show ?thesis using False ok cont s1 start_off_le [OF w0(3)] by (auto simp: off_def avail_def)
  qed
qed

lemma add_loop_ok:
  "AddRecord_loop file_Append file_Flush le first data w = Some (s, w') \<Longrightarrow> Status_ok s \<Longrightarrow> writer_ok le w \<Longrightarrow>
    w_block_offset w = off \<Longrightarrow>
    contents (w_dest w') = contents (w_dest w) @ frags_bytes off (fragments off first data) \<and>
    writer_ok le w' \<and> w_block_offset w' = frags_end off (fragments off first data)"
proof (induction off first data arbitrary: w rule: fragments.induct)
  case (1 off first data)
  define avail where "avail = kBlockSize - start_off off - kHeaderSize"
  have off: "off \<le> kBlockSize" using 1 by (simp add: writer_ok_def)
  show ?case
  proof (cases "length data \<le> avail")
    case True
    then show ?thesis using add_loop_step [OF 1(2-4)] 1(5) off by (simp add: fragments.simps [of off] Let_def avail_def)
  next
    case False
    then obtain w1 where w1: "AddRecord_loop file_Append file_Flush le False (drop avail data) w1 = Some (s, w')" "writer_ok le w1"
      "contents (w_dest w1) = contents (w_dest w) @ frags_bytes off [(fragment_type first False, take avail data)]"
      "w_block_offset w1 = kBlockSize"
      using add_loop_step [OF 1(2-4)] 1(5) by (auto simp: avail_def)
    have fr: "fragments off first data = (fragment_type first False, take avail data) # fragments kBlockSize False (drop avail data)"
      using False off by (simp add: fragments.simps [of off] Let_def avail_def)
    have len: "start_off off + kHeaderSize + length (take avail data) = kBlockSize"
      using False start_off_le [OF off] by (simp add: avail_def)
    show ?thesis
      using 1(1) [OF avail_def _ w1(1) 1(3) w1(2,4)] False off w1(3) unfolding fr frags_bytes.simps frags_end.simps len
      by simp
  qed
qed

theorem add_records_ok:
  "AddRecords file_Append file_Flush le ds w = Some (s, w') \<Longrightarrow> Status_ok s \<Longrightarrow> writer_ok le w \<Longrightarrow>
    contents (w_dest w') = contents (w_dest w) @ log_bytes (w_block_offset w) ds \<and>
    writer_ok le w' \<and> w_block_offset w' = log_end (w_block_offset w) ds"
proof (induction ds arbitrary: w)
  case (Cons d ds)
  then obtain s1 w1 where a: "AddRecord file_Append file_Flush le d w = Some (s1, w1)" "Status_ok s1"
    "AddRecords file_Append file_Flush le ds w1 = Some (s, w')"
    by (auto split: bind_splits if_splits)
  with Cons.IH [OF a(3) Cons.prems(2)] add_loop_ok [OF a(1) [unfolded AddRecord_def] a(2) Cons.prems(3) refl]
  show ?case by (simp add: logrec_bytes_def logrec_end_def)
qed simp

end

subsection \<open>The writer succeeds while the file has room\<close>

context bounded_file
begin

lemma emit_room:
  assumes "has_room (kHeaderSize + length data + n) (w_dest w)" "w_block_offset w + kHeaderSize + length data \<le> kBlockSize"
  shows "\<exists>w'. EmitPhysicalRecord file_Append file_Flush le w t data = Some (Status_OK, w') \<and> has_room n (w_dest w')"
proof -
  define buf where "buf = EncodeFixed32 le (Mask (Extend le 0 (w_type_crc w ! t) data)) @
      [word_of_nat (length data) AND 0xFF, word_of_nat (length data div 256), word_of_nat t]"
  have "length buf = kHeaderSize" by (simp add: buf_def)
  then obtain f1 where f1: "file_Append buf (w_dest w) = Some (Status_OK, f1)" "has_room (length data + n) f1"
    using append_room [of buf "length data + n" "w_dest w"] assms(1) by (auto simp: add.assoc)
  then obtain f2 f3 where "file_Append data f1 = Some (Status_OK, f2)" "file_Flush f2 = Some (Status_OK, f3)" "has_room n f3"
    using append_room [OF f1(2)] flush_room by blast
  then show ?thesis
    using assms(2) f1(1) unfolding EmitPhysicalRecord_def Let_def buf_def [symmetric]
    by (simp add: kBlockSize_def Status_ok_def Status_OK_def)
qed

lemma new_block_room:
  assumes "has_room (pad_len (w_block_offset w) + n) (w_dest w)" "w_block_offset w \<le> kBlockSize"
  shows "\<exists>w'. new_block file_Append w = Some w' \<and> has_room n (w_dest w')"
  using assms append_room [of "replicate (pad_len (w_block_offset w)) 0" n "w_dest w"]
  by (auto simp: new_block_def Let_def pad_len_def split: if_splits)

lemma add_loop_room:
  "has_room (length (frags_bytes off (fragments off first data)) + n) (w_dest w) \<Longrightarrow> w_block_offset w = off \<Longrightarrow> off \<le> kBlockSize \<Longrightarrow>
   \<exists>w'. AddRecord_loop file_Append file_Flush le first data w = Some (Status_OK, w') \<and> has_room n (w_dest w')"
proof (induction off first data arbitrary: w rule: fragments.induct)
  case (1 off first data)
  define avail where "avail = kBlockSize - start_off off - kHeaderSize"
  define fl where "fl = (if length data < avail then length data else avail)"
  define more where "more = (if length data \<le> avail then [] else fragments kBlockSize False (drop avail data))"
  have fr: "fragments off first data = (fragment_type first (length data = fl), take fl data) # more"
    using 1(4) by (auto simp: fragments.simps [of off] Let_def avail_def fl_def more_def)
  have len: "start_off off + kHeaderSize + fl \<le> kBlockSize" "length (take fl data) = fl"
    using start_off_le [OF 1(4)] by (auto simp: fl_def avail_def)
  define k where "k = length (frags_bytes (start_off off + kHeaderSize + fl) more) + n"
  have room: "has_room (pad_len (w_block_offset w) + (kHeaderSize + length (take fl data) + k)) (w_dest w)"
  proof -
    have "length (frags_bytes off (fragments off first data)) =
        pad_len off + (kHeaderSize + length (take fl data) + length (frags_bytes (start_off off + kHeaderSize + fl) more))"
      unfolding fr frags_bytes.simps len(2) by (simp add: len(2) del: length_take)
    then show ?thesis using 1(2) by (simp only: k_def 1(3) add.assoc)
  qed
  obtain w0 where w0: "new_block file_Append w = Some w0" "has_room (kHeaderSize + length (take fl data) + k) (w_dest w0)"
    using new_block_room [OF room] 1(3,4) by auto
  have off0: "w_block_offset w0 = start_off off" using new_block_offset [OF w0(1)] 1(3) by (simp add: start_off_def)
  have "w_block_offset w0 + kHeaderSize + length (take fl data) \<le> kBlockSize" unfolding len(2) off0 by (rule len(1))
  then obtain w1 where w1: "EmitPhysicalRecord file_Append file_Flush le w0 (fragment_type first (length data = fl)) (take fl data) =
      Some (Status_OK, w1)" "has_room k (w_dest w1)"
    using emit_room [OF w0(2)] by blast
  have off1: "w_block_offset w1 = start_off off + kHeaderSize + fl"
    using EmitPhysicalRecord_offset [OF w1(1)] len(2) off0 by simp
  have av: "kBlockSize - w_block_offset w0 - kHeaderSize = avail" by (simp add: avail_def off0)
  have run: "AddRecord_loop file_Append file_Flush le first data w =
      (if 0 < length data - fl then AddRecord_loop file_Append file_Flush le False (drop fl data) w1 else Some (Status_OK, w1))"
    unfolding AddRecord_loop.simps [of file_Append file_Flush le first data w] w0(1) bind.bind_lunit Let_def av fl_def [symmetric]
    using start_off_le [OF 1(4)] by (simp add: off0 w1(1) Status_ok_def Status_OK_def)
  show ?case
  proof (cases "length data \<le> avail")
    case True
    then show ?thesis using run w1(2) by (simp add: fl_def k_def more_def)
  next
    case False
    then have "fl = avail" "start_off off + kHeaderSize + fl = kBlockSize" using start_off_le [OF 1(4)] by (simp_all add: fl_def avail_def)
    then show ?thesis using 1(1) [OF avail_def _ _ _ order_refl, of w1] False run w1(2) off1 1(4) by (simp add: k_def more_def)
  qed
qed

theorem add_records_room:
  "has_room (length (log_bytes (w_block_offset w) recs)) (w_dest w) \<Longrightarrow> writer_ok le w \<Longrightarrow>
   \<exists>w'. AddRecords file_Append file_Flush le recs w = Some (Status_OK, w')"
proof (induction recs arbitrary: w)
  case (Cons d recs)
  have off: "w_block_offset w \<le> kBlockSize" using Cons.prems by (simp add: writer_ok_def)
  obtain w1 where w1: "AddRecord file_Append file_Flush le d w = Some (Status_OK, w1)"
    "has_room (length (log_bytes (logrec_end (w_block_offset w) d) recs)) (w_dest w1)"
    using add_loop_room [OF _ refl off, of True d _ le] Cons.prems(1) by (auto simp: AddRecord_def logrec_bytes_def)
  have "writer_ok le w1 \<and> w_block_offset w1 = logrec_end (w_block_offset w) d"
    using add_loop_ok [OF w1(1) [unfolded AddRecord_def] _ Cons.prems(2) refl] by (simp add: Status_ok_def Status_OK_def logrec_end_def)
  with Cons.IH [of w1] w1 show ?case by (simp add: Status_ok_def Status_OK_def)
qed simp

end

subsection \<open>The reader takes a physical record from its buffer\<close>

lemma header_length:
  assumes "n \<le> 0xFFFF"
  shows "unat ((scast (word_of_nat n :: byte) AND 0xFF) OR push_bit 8 (scast (word_of_nat (n div 256) :: byte) AND 0xFF :: 32 word)) = n"
proof -
  have low: "scast (b :: byte) AND 0xFF = (ucast b :: 32 word)" for b
    unfolding low_byte_and
  proof (rule bit_word_eqI)
    fix n
    have "bit b n \<Longrightarrow> n < 8" using bit_imp_le_length [of b n] by simp
    then show "bit (take_bit 8 (scast b) :: 32 word) n \<longleftrightarrow> bit (ucast b :: 32 word) n"
      by (cases "n = 7") (auto simp: bit_take_bit_iff bit_ucast_iff bit_signed_iff min_def)
  qed
  have d: "(ucast (a :: byte) :: 32 word) OR push_bit 8 (ucast b) = ucast a + push_bit 8 (ucast (b :: byte))" for a b
    by (rule disjunctive_add [symmetric]) (auto simp: bit_push_bit_iff bit_ucast_iff dest: bit_imp_le_length)
  have p: "push_bit 8 (ucast (word_of_nat (n div 256) :: byte)) = (word_of_nat (256 * (n div 256)) :: 32 word)"
    using assms by (simp add: push_bit_eq_mult unsigned_of_nat take_bit_nat_def)
  have m: "ucast (word_of_nat n :: byte) = (word_of_nat (n mod 256) :: 32 word)"
    by (simp add: unsigned_of_nat take_bit_nat_def)
  have "word_of_nat (n mod 256) + word_of_nat (256 * (n div 256)) = (word_of_nat n :: 32 word)"
    by (simp only: of_nat_add [symmetric]) simp
  then have "(ucast (word_of_nat n :: byte) :: 32 word) OR push_bit 8 (ucast (word_of_nat (n div 256) :: byte)) = word_of_nat n"
    unfolding d p [symmetric] m [symmetric] .
  then show ?thesis unfolding low using assms by (simp add: unsigned_of_nat take_bit_nat_def)
qed

lemma type_byte: "t \<le> 4 \<Longrightarrow> scast (word_of_nat t :: byte) = (word_of_nat t :: 32 word)"
  by (auto simp: le_Suc_eq numeral_eq_Suc)

text \<open>The parts of the buffer that the reader looks at.\<close>

lemma phys_record_parts:
  assumes "kHeaderSize \<le> k"
  shows "take k (phys_record t d @ rest) ! 4 = word_of_nat (length d)"
    "take k (phys_record t d @ rest) ! 5 = word_of_nat (length d div 256)"
    "take k (phys_record t d @ rest) ! 6 = word_of_nat t"
  using assms by (simp_all add: phys_record_def nth_append)

lemma parse_phys:
  assumes "r_buffer r = phys_record t d @ rest" "1 \<le> t" "t \<le> 4" "length d \<le> 0xFFFF" "r_initial_offset r = 0"
  shows "parse_record le result r = Some (word_of_nat t, d, r\<lparr>r_buffer := rest\<rparr>)"
proof -
  have parts: "r_buffer r ! 4 = word_of_nat (length d)" "r_buffer r ! 5 = word_of_nat (length d div 256)"
    "r_buffer r ! 6 = word_of_nat t"
    using phys_record_parts [of "length (r_buffer r)" t d rest] assms(1) by simp_all
  have "t = 1 \<or> t = 2 \<or> t = 3 \<or> t = 4" using assms(2,3) by arith
  then have t: "(word_of_nat t :: 32 word) \<noteq> 0" by auto
  have d: "take (length d) (drop kHeaderSize (r_buffer r)) = d" "take (1 + length d) (drop 6 (r_buffer r)) = word_of_nat t # d"
    using assms(1) by (simp_all add: phys_record_def)
  have crc: "Value le 0 (take (1 + length d) (drop 6 (r_buffer r))) = Unmask (DecodeFixed32 le (r_buffer r))"
    unfolding d(2) using assms(1) coding_fixed32 [of le le]
    by (simp add: Value_def Extend_crc phys_record_def EncodeFixed_le Unmask_Mask)
  show ?thesis
    unfolding parse_record_def Let_def parts header_length [OF assms(4)] type_byte [OF assms(3)] crc d(1)
    using assms t by (simp add: Slice_remove_prefix_def)
qed

lemma parse_cut:
  assumes "r_buffer r = take k (phys_record t d)" "kHeaderSize \<le> k" "k < kHeaderSize + length d" "length d \<le> 0xFFFF" "r_eof r"
  shows "parse_record le result r = Some (word_of_nat kEof, result, r\<lparr>r_buffer := []\<rparr>)"
proof -
  have parts: "r_buffer r ! 4 = word_of_nat (length d)" "r_buffer r ! 5 = word_of_nat (length d div 256)"
    using phys_record_parts [of k t d "[]"] assms(1,2) by simp_all
  show ?thesis
    unfolding parse_record_def Let_def parts header_length [OF assms(4)] using assms by simp
qed

subsection \<open>The reader reads the reference\<close>

lemma append_longer: "a @ b = c @ d \<Longrightarrow> length c \<le> length a \<Longrightarrow> \<exists>e. a = c @ e \<and> d = e @ b"
  by (metis append_eq_append_conv_if append_take_drop_id)

context sequential_file
begin

text \<open>
  The reader is at offset \<open>off\<close> of a block, with \<open>rest\<close> to read: the buffer reaches to the end of the
  block, or of the file.
\<close>

definition reading :: "'f log_Reader \<Rightarrow> nat \<Rightarrow> byte list \<Rightarrow> bool" where
  "reading r off rest \<longleftrightarrow>
     healthy (r_file r) \<and> r_initial_offset r = 0 \<and> rest = r_buffer r @ unread (r_file r) \<and>
     off \<le> kBlockSize \<and> length (r_buffer r) \<le> kBlockSize - off \<and> (r_eof r \<longrightarrow> unread (r_file r) = []) \<and>
     (\<not> r_eof r \<longrightarrow> length (r_buffer r) = kBlockSize - off \<or> r_buffer r = [] \<and> off = 0)"

text \<open>A short buffer is refilled from the next block; what was left of the old one is padding.\<close>

lemma refill:
  assumes "reading r off rest" "length (r_buffer r) < kHeaderSize" "\<not> r_eof r"
  obtains r' where "reading r' 0 (drop (length (r_buffer r)) rest)" "r_reports r' = r_reports r"
    "ReadPhysicalRecord file_Read le result r = ReadPhysicalRecord file_Read le result r'"
    "r_buffer r' = take kBlockSize (drop (length (r_buffer r)) rest)"
    "r_eof r' \<longleftrightarrow> length (drop (length (r_buffer r)) rest) < kBlockSize" "r_buffer r' \<noteq> [] \<or> r_eof r'"
proof -
  define u where "u = unread (r_file r)"
  obtain f where f: "file_Read kBlockSize (r_file r) = Some (Status_OK, take kBlockSize u, f)" "unread f = drop kBlockSize u" "healthy f"
    using read_ok [of "r_file r" kBlockSize] assms(1) by (auto simp: reading_def u_def)
  define r' where "r' = r\<lparr>r_file := f, r_buffer := take kBlockSize u,
     r_end_of_buffer_offset := r_end_of_buffer_offset r + word_of_nat (length (take kBlockSize u)), r_eof := length u < kBlockSize\<rparr>"
  have u: "drop (length (r_buffer r)) rest = u" using assms(1) by (simp add: reading_def u_def)
  have "reading r' 0 u" using assms(1) f by (auto simp: reading_def r'_def)
  moreover have same: "r\<lparr>r_file := f', r_buffer := b, r_end_of_buffer_offset := e, r_eof := False\<rparr> =
      r\<lparr>r_file := f', r_buffer := b, r_end_of_buffer_offset := e\<rparr>" for f' b e
    using assms(3) by (cases r) simp
  moreover have "ReadPhysicalRecord file_Read le result r = ReadPhysicalRecord file_Read le result r'"
    using assms(2,3) f(1)
    by (cases "length u < kBlockSize")
      (simp_all add: ReadPhysicalRecord.simps [of _ le result r] Let_def r'_def Status_ok_def Status_OK_def min_def same)
  moreover have "r_buffer r' \<noteq> [] \<or> r_eof r'" by (auto simp: r'_def kBlockSize_def)
  ultimately show thesis using that [of r'] by (simp add: u) (simp add: r'_def)
qed

lemma read_phys_here:
  assumes "reading r (start_off off) (phys_record t d @ tail)" "kHeaderSize \<le> length (r_buffer r)"
    "start_off off + kHeaderSize + length d \<le> kBlockSize" "1 \<le> t" "t \<le> 4"
  obtains r' where "ReadPhysicalRecord file_Read le result r = Some (word_of_nat t, d, r')"
    "reading r' (start_off off + kHeaderSize + length d) tail" "r_reports r' = r_reports r"
proof -
  have "kHeaderSize + length d \<le> length (r_buffer r)"
  proof (cases "r_eof r")
    case True
    then have "r_buffer r = phys_record t d @ tail" using assms(1) by (simp add: reading_def)
    then show ?thesis by simp
  next
    case False
    then show ?thesis using assms(1-3) by (auto simp: reading_def)
  qed
  moreover have "r_buffer r @ unread (r_file r) = phys_record t d @ tail" using assms(1) by (simp add: reading_def)
  ultimately obtain b where b: "r_buffer r = phys_record t d @ b" "tail = b @ unread (r_file r)"
    using append_longer by (metis length_phys_record)
  have "length d \<le> 0xFFFF" using assms(3) by (simp add: kBlockSize_def)
  then have "ReadPhysicalRecord file_Read le result r = Some (word_of_nat t, d, r\<lparr>r_buffer := b\<rparr>)"
    using parse_phys [OF b(1) assms(4,5)] assms(1,2) by (simp add: ReadPhysicalRecord.simps [of _ le result r] reading_def)
  moreover have "reading (r\<lparr>r_buffer := b\<rparr>) (start_off off + kHeaderSize + length d) tail"
    using assms(1,3) b by (auto simp: reading_def)
  ultimately show thesis using that by simp
qed

lemma read_phys:
  assumes "reading r off (replicate (pad_len off) 0 @ phys_record t d @ tail)"
    "start_off off + kHeaderSize + length d \<le> kBlockSize" "1 \<le> t" "t \<le> 4"
  obtains r' where "ReadPhysicalRecord file_Read le result r = Some (word_of_nat t, d, r')"
    "reading r' (start_off off + kHeaderSize + length d) tail" "r_reports r' = r_reports r"
proof (cases "kHeaderSize \<le> length (r_buffer r)")
  case True
  then have "kHeaderSize \<le> kBlockSize - off" using assms(1) by (auto simp: reading_def)
  then have "pad_len off = 0" "start_off off = off" by (simp_all add: pad_len_def start_off_def)
  then have "reading r (start_off off) (phys_record t d @ tail)" using assms(1) by simp
  then show thesis by (rule read_phys_here [OF _ True assms(2-4)]) (rule that)
next
  case short: False
  have "\<not> r_eof r"
  proof
    assume "r_eof r"
    then have "length (replicate (pad_len off) (0::byte) @ phys_record t d @ tail) < kHeaderSize"
      using assms(1) short by (simp add: reading_def)
    then show False by simp
  qed
  moreover have start: "start_off off = 0" and pad: "length (r_buffer r) = pad_len off"
    using assms(1) short \<open>\<not> r_eof r\<close> by (auto simp: reading_def pad_len_def start_off_def kBlockSize_def)
  ultimately obtain r' where r': "reading r' 0 (phys_record t d @ tail)" "r_reports r' = r_reports r"
    "ReadPhysicalRecord file_Read le result r = ReadPhysicalRecord file_Read le result r'"
    "r_buffer r' = take kBlockSize (phys_record t d @ tail)"
    using refill [OF assms(1), of le result] short pad by auto
  have "kHeaderSize \<le> length (r_buffer r')" using r'(4) assms(2) start by (simp add: kBlockSize_def)
  then show thesis using read_phys_here [of r' off t d tail le result] r' assms(2-4) start that by auto
qed

text \<open>A physical record that is cut off ends the log.\<close>

lemma read_cut_eof:
  assumes "r_buffer r = take k (phys_record t d)" "k < kHeaderSize + length d" "length d \<le> 0xFFFF" "r_eof r"
  shows "ReadPhysicalRecord file_Read le result r = Some (word_of_nat kEof, result, r\<lparr>r_buffer := []\<rparr>)"
  using parse_cut [OF assms(1) _ assms(2-4), of le result] assms
  by (cases "kHeaderSize \<le> k") (simp_all add: ReadPhysicalRecord.simps [of _ le result r])

lemma read_cut:
  assumes "reading r off (take k (replicate (pad_len off) 0 @ phys_record t d))"
    "k < pad_len off + kHeaderSize + length d" "start_off off + kHeaderSize + length d \<le> kBlockSize"
  obtains r' where "ReadPhysicalRecord file_Read le result r = Some (word_of_nat kEof, result, r')" "r_reports r' = r_reports r"
proof -
  have d: "length d \<le> 0xFFFF" using assms(3) by (simp add: kBlockSize_def)
  show thesis
  proof (cases "r_eof r")
    case True
    then have buf: "r_buffer r = take k (replicate (pad_len off) 0 @ phys_record t d)" "length (r_buffer r) \<le> kBlockSize - off"
      using assms(1) by (simp_all add: reading_def)
    show thesis
    proof (cases "pad_len off = 0")
      case True
      then show thesis using read_cut_eof [of r k t d le result] buf \<open>r_eof r\<close> d assms(2) that by simp
    next
      case False
      then have "length (r_buffer r) < kHeaderSize" using buf(2) by (simp add: pad_len_def split: if_splits)
      then show thesis using that \<open>r_eof r\<close> by (simp add: ReadPhysicalRecord.simps [of _ le result r])
    qed
  next
    case False
    have short: "length (r_buffer r) < kHeaderSize"
    proof (rule ccontr)
      assume "\<not> length (r_buffer r) < kHeaderSize"
      then have "start_off off = off" "pad_len off = 0" "length (r_buffer r) = kBlockSize - off"
        "length (r_buffer r) \<le> k"
        using assms(1) False by (auto simp: reading_def start_off_def pad_len_def dest: arg_cong [of _ _ length])
      then show False using assms(2,3) by simp
    qed
    then have pad: "length (r_buffer r) = pad_len off" "start_off off = 0"
      using assms(1) False by (auto simp: reading_def pad_len_def start_off_def kBlockSize_def)
    have "length (r_buffer r) \<le> length (take k (replicate (pad_len off) 0 @ phys_record t d))"
      using assms(1) unfolding reading_def by (metis le_add1 length_append)
    then have "pad_len off \<le> k" by (simp add: pad)
    define k' where "k' = k - pad_len off"
    have rest: "drop (length (r_buffer r)) (take k (replicate (pad_len off) 0 @ phys_record t d)) = take k' (phys_record t d)"
      using \<open>pad_len off \<le> k\<close> by (simp add: pad k'_def)
    have k': "k' < kHeaderSize + length d" using assms(2) by (simp add: k'_def)
    then have "length (take k' (phys_record t d)) < kBlockSize" using assms(3) pad by simp
    then obtain r' where r': "r_reports r' = r_reports r" "r_eof r'" "r_buffer r' = take k' (phys_record t d)"
      "ReadPhysicalRecord file_Read le result r = ReadPhysicalRecord file_Read le result r'"
      using refill [OF assms(1) short False, of le result] unfolding rest by (metis take_all less_imp_le)
    then show thesis using read_cut_eof [OF r'(3) k' d r'(2), of le result] that by simp
  qed
qed

text \<open>The loop of \<^verbatim>\<open>ReadRecord\<close> on the fragments of a record, and on fragments that are cut off.\<close>

lemma reading_le: "reading r off rest \<Longrightarrow> off \<le> kBlockSize"
  by (simp add: reading_def)

lemma loop_step:
  assumes "ReadPhysicalRecord file_Read le frag r = Some (t, d, r1)"
  shows "ReadRecord_loop file_Read le frag (in_frag, p, scratch, r) =
    (record_switch (r_end_of_buffer_offset r - word_of_nat (length (r_buffer r))) t d (in_frag, p, scratch, r1) \<bind>
      (\<lambda>n. case n of Inl ls \<Rightarrow> ReadRecord_loop file_Read le d ls | Inr res \<Rightarrow> Some res))"
  by (subst ReadRecord_loop.simps) (simp add: assms Let_def)

lemma read_loop:
  "reading r off (frags_bytes off (fragments off first data) @ tail) \<Longrightarrow> (first \<Longrightarrow> scratch = []) \<Longrightarrow>
   \<exists>scratch' r'. ReadRecord_loop file_Read le frag (\<not> first, p, scratch, r) = Some (True, scratch @ data, scratch', r') \<and>
     reading r' (frags_end off (fragments off first data)) tail \<and> r_reports r' = r_reports r"
proof (induction off first data arbitrary: r p scratch frag rule: fragments.induct)
  case (1 off first data)
  define avail where "avail = kBlockSize - start_off off - kHeaderSize"
  note off = reading_le [OF 1(2)]
  show ?case
  proof (cases "length data \<le> avail")
    case True
    then have fr: "fragments off first data = [(fragment_type first True, data)]" by (simp add: fragments.simps [of off] Let_def avail_def)
    have len: "start_off off + kHeaderSize + length data \<le> kBlockSize" using True start_off_le [OF off] by (simp add: avail_def)
    obtain r1 where r1: "ReadPhysicalRecord file_Read le frag r = Some (word_of_nat (fragment_type first True), data, r1)"
      "reading r1 (start_off off + kHeaderSize + length data) tail" "r_reports r1 = r_reports r"
      using 1(2) by (auto simp: fr intro: read_phys [OF _ len fragment_type_range])
    show ?thesis
      unfolding loop_step [OF r1(1)] fr frags_end.simps
      using r1(2,3) 1(3) by (cases first) (auto simp: record_switch_def fragment_type_def reading_def)
  next
    case False
    have fr: "fragments off first data = (fragment_type first False, take avail data) # fragments kBlockSize False (drop avail data)"
      using False off by (simp add: fragments.simps [of off] Let_def avail_def)
    have len: "start_off off + kHeaderSize + length (take avail data) = kBlockSize"
      using False start_off_le [OF off] by (simp add: avail_def)
    obtain r1 where r1: "ReadPhysicalRecord file_Read le frag r = Some (word_of_nat (fragment_type first False), take avail data, r1)"
      "reading r1 kBlockSize (frags_bytes kBlockSize (fragments kBlockSize False (drop avail data)) @ tail)" "r_reports r1 = r_reports r"
      using 1(2) read_phys [OF _ eq_imp_le [OF len] fragment_type_range, of r _ _ _ le frag]
      unfolding fr frags_bytes.simps len by (metis append.assoc)
    note IH = 1(1) [OF avail_def _ r1(2)]
    show ?thesis
      unfolding loop_step [OF r1(1)] fr frags_end.simps len
      using IH [of "scratch @ take avail data"] False off r1(3) 1(3)
      by (cases first) (simp_all add: record_switch_def fragment_type_def)
  qed
qed

lemma read_loop_cut:
  "reading r off (take k (frags_bytes off (fragments off first data))) \<Longrightarrow> k < length (frags_bytes off (fragments off first data)) \<Longrightarrow>
   (first \<Longrightarrow> scratch = []) \<Longrightarrow>
   \<exists>scratch' r'. ReadRecord_loop file_Read le frag (\<not> first, p, scratch, r) = Some (False, [], scratch', r') \<and>
     r_reports r' = r_reports r"
proof (induction off first data arbitrary: r k p scratch frag rule: fragments.induct)
  case (1 off first data)
  define avail where "avail = kBlockSize - start_off off - kHeaderSize"
  note off = reading_le [OF 1(2)]
  define d where "d = take avail data"
  define more where "more = (if length data \<le> avail then [] else fragments kBlockSize False (drop avail data))"
  have fr: "fragments off first data = (fragment_type first (length data \<le> avail), d) # more"
    using off by (simp add: fragments.simps [of off] Let_def avail_def d_def more_def)
  have len: "start_off off + kHeaderSize + length d \<le> kBlockSize" "length data > avail \<Longrightarrow> start_off off + kHeaderSize + length d = kBlockSize"
    using start_off_le [OF off] by (simp_all add: d_def avail_def)
  show ?case
  proof (cases "k < pad_len off + kHeaderSize + length d")
    case True
    have "take k (frags_bytes off (fragments off first data)) =
        take k (replicate (pad_len off) 0 @ phys_record (fragment_type first (length data \<le> avail)) d)"
      using True by (simp add: fr)
    then obtain r' where "ReadPhysicalRecord file_Read le frag r = Some (word_of_nat kEof, frag, r')" "r_reports r' = r_reports r"
      using read_cut [OF _ True len(1)] 1(2) by metis
    then show ?thesis by (simp add: loop_step record_switch_def)
  next
    case False
    define k' where "k' = k - (pad_len off + kHeaderSize + length d)"
    have ne: "\<not> length data \<le> avail" using False 1(3) by (auto simp: fr more_def)
    have "take k (frags_bytes off (fragments off first data)) = replicate (pad_len off) 0 @
        phys_record (fragment_type first False) d @ take k' (frags_bytes kBlockSize more)"
      using False ne len(2) by (simp add: fr k'_def add.assoc)
    then obtain r1 where r1: "ReadPhysicalRecord file_Read le frag r = Some (word_of_nat (fragment_type first False), d, r1)"
      "reading r1 kBlockSize (take k' (frags_bytes kBlockSize more))" "r_reports r1 = r_reports r"
      using 1(2) read_phys [OF _ len(1) fragment_type_range, of r _ _ _ le frag] len(2) ne by (metis not_le)
    have "k' < length (frags_bytes kBlockSize (fragments kBlockSize False (drop avail data)))"
      using 1(3) ne len(2) False by (simp add: fr more_def k'_def)
    then show ?thesis
      using 1(1) [OF avail_def _ r1(2) [unfolded more_def if_not_P [OF ne]], of "scratch @ d"] ne off r1(3) 1(4)
      by (cases first) (simp_all add: loop_step [OF r1(1)] record_switch_def fragment_type_def)
  qed
qed

text \<open>One record, and all records of a log that is cut off after \<open>k\<close> bytes.\<close>

lemma read_record:
  assumes "reading r off (logrec_bytes off d @ tail)"
  obtains scratch r' where "ReadRecord file_Read skip le rec scr r = Some (True, d, scratch, r')"
    "reading r' (logrec_end off d) tail" "r_reports r' = r_reports r"
  using read_loop [OF assms [unfolded logrec_bytes_def], of "[]" le "[]" 0] assms that
  by (auto simp: ReadRecord_def logrec_end_def reading_def)

lemma read_record_cut:
  assumes "reading r off (take k (logrec_bytes off d))" "k < length (logrec_bytes off d)"
  obtains scratch r' where "ReadRecord file_Read skip le rec scr r = Some (False, [], scratch, r')" "r_reports r' = r_reports r"
  using read_loop_cut [OF assms [unfolded logrec_bytes_def], of "[]" le "[]" 0] assms(1) that
  by (auto simp: ReadRecord_def reading_def)

lemma logrec_bytes_nonempty: "0 < length (logrec_bytes off d)"
  by (subst logrec_bytes_def, subst fragments.simps) (simp add: Let_def)

theorem read_records_cut:
  "reading r off (take k (log_bytes off ds)) \<Longrightarrow>
   \<exists>n r'. ReadRecords file_Read skip le (Suc (length ds)) r = Some (take n ds, r') \<and> r_reports r' = r_reports r \<and>
     n \<le> length ds \<and> length (log_bytes off (take n ds)) \<le> k \<and> (n < length ds \<longrightarrow> k < length (log_bytes off (take (Suc n) ds)))"
proof (induction ds arbitrary: r off k)
  case Nil
  then have "reading r off (take 0 (logrec_bytes off []))" by simp
  then show ?case
    by (rule read_record_cut [OF _ logrec_bytes_nonempty, of r off "[]" skip le "[]" "[]"]) auto
next
  case (Cons d ds)
  show ?case
  proof (cases "k < length (logrec_bytes off d)")
    case True
    then have "reading r off (take k (logrec_bytes off d))" using Cons.prems by simp
    then show ?thesis
      by (rule read_record_cut [OF _ True, of r skip le "[]" "[]"]) (use True in \<open>auto intro: exI [of _ 0]\<close>)
  next
    case False
    define k' where "k' = k - length (logrec_bytes off d)"
    have "reading r off (logrec_bytes off d @ take k' (log_bytes (logrec_end off d) ds))"
      using Cons.prems False by (simp add: k'_def)
    then obtain scratch r1 where r1: "ReadRecord file_Read skip le [] [] r = Some (True, d, scratch, r1)"
      "reading r1 (logrec_end off d) (take k' (log_bytes (logrec_end off d) ds))" "r_reports r1 = r_reports r"
      by (rule read_record)
    obtain n r' where n: "ReadRecords file_Read skip le (Suc (length ds)) r1 = Some (take n ds, r')" "r_reports r' = r_reports r1"
      "n \<le> length ds" "length (log_bytes (logrec_end off d) (take n ds)) \<le> k'"
      "n < length ds \<longrightarrow> k' < length (log_bytes (logrec_end off d) (take (Suc n) ds))"
      using Cons.IH [OF r1(2)] by blast
    have "ReadRecords file_Read skip le (Suc (length (d # ds))) r = Some (take (Suc n) (d # ds), r')"
      unfolding length_Cons by (subst ReadRecords.simps(2)) (simp add: r1(1) n(1) del: ReadRecords.simps)
    then show ?thesis using r1(3) n(2-) False by (intro exI [of _ "Suc n"] exI [of _ r']) (auto simp: k'_def)
  qed
qed

end

subsection \<open>The reader returns\<close>

text \<open>
  Whatever the bytes of the file are: every physical record that is not the last one takes bytes from
  the buffer or the file. The statuses that the reader makes for its reports are defined.
\<close>

lemma report_returns:
  "length reason \<le> 40 \<Longrightarrow>
   ReportCorruption bytes reason r = Some (ReportDrop bytes (Some (status_bytes kCorruption reason [])) r)"
  unfolding ReportCorruption_def Status_Corruption_def by (subst Status_init_bytes) (simp_all add: status_text_def)

lemma ReportDrop_same [simp]:
  "r_file (ReportDrop b s r) = r_file r" "r_buffer (ReportDrop b s r) = r_buffer r" "r_eof (ReportDrop b s r) = r_eof r"
  by (simp_all add: ReportDrop_def)

lemma parse_returns:
  assumes "kHeaderSize \<le> length (r_buffer r)"
  shows "\<exists>t d r'. parse_record le result r = Some (t, d, r') \<and> r_file r' = r_file r \<and> length (r_buffer r') < length (r_buffer r)"
proof -
  have "0 < length (r_buffer r)" using assms by linarith
  then show ?thesis
    unfolding parse_record_def Let_def Slice_remove_prefix_def by (auto simp: report_returns str_def split: if_splits)
qed

lemma record_switch_returns:
  "\<exists>n. record_switch off t d (in_frag, p, scratch, r) = Some n \<and>
    (\<forall>i q c r'. n = Inl (i, q, c, r') \<longrightarrow> r_file r' = r_file r \<and> r_buffer r' = r_buffer r \<and> t \<noteq> word_of_nat kEof)"
  by (auto simp: record_switch_def report_returns str_def snprintf_buf_def Let_def)

context seekable_file
begin

definition left :: "'f log_Reader \<Rightarrow> nat" where "left r = length (r_buffer r) + length (unread (r_file r))"

lemma read_phys_ready:
  assumes "healthy (r_file r)" "kHeaderSize \<le> length (r_buffer r) \<or> r_eof r"
  shows "\<exists>t d r'. ReadPhysicalRecord file_Read le result r = Some (t, d, r') \<and> healthy (r_file r') \<and>
     (t \<noteq> word_of_nat kEof \<longrightarrow> left r' < left r)"
  using parse_returns [of r le result] assms
  by (cases "kHeaderSize \<le> length (r_buffer r)") (fastforce simp: ReadPhysicalRecord.simps [of _ le result r] left_def)+

lemma read_phys_returns:
  assumes "healthy (r_file r)"
  shows "\<exists>t d r'. ReadPhysicalRecord file_Read le result r = Some (t, d, r') \<and> healthy (r_file r') \<and>
     (t \<noteq> word_of_nat kEof \<longrightarrow> left r' < left r)"
proof (cases "kHeaderSize \<le> length (r_buffer r) \<or> r_eof r")
  case True
  then show ?thesis by (rule read_phys_ready [OF assms])
next
  case False
  define u where "u = unread (r_file r)"
  obtain f where f: "file_Read kBlockSize (r_file r) = Some (Status_OK, take kBlockSize u, f)" "unread f = drop kBlockSize u" "healthy f"
    using read_ok [OF assms, of kBlockSize] by (auto simp: u_def)
  define r1 where "r1 = r\<lparr>r_file := f, r_buffer := take kBlockSize u,
     r_end_of_buffer_offset := r_end_of_buffer_offset r + word_of_nat (length (take kBlockSize u))\<rparr>"
  define r2 where "r2 = (if length (take kBlockSize u) < kBlockSize then r1\<lparr>r_eof := True\<rparr> else r1)"
  have "ReadPhysicalRecord file_Read le result r = ReadPhysicalRecord file_Read le result r2"
    using False f(1) by (simp add: ReadPhysicalRecord.simps [of _ le result r] Let_def r2_def r1_def Status_ok_def Status_OK_def)
  moreover have "healthy (r_file r2)" "kHeaderSize \<le> length (r_buffer r2) \<or> r_eof r2"
    using f(3) by (auto simp: r2_def r1_def kBlockSize_def)
  moreover have "left r2 \<le> left r" by (simp add: r2_def r1_def left_def f(2) flip: u_def)
  ultimately show ?thesis using read_phys_ready [of r2 le result] by fastforce
qed

lemma loop_returns: "healthy (r_file r) \<Longrightarrow> \<exists>res. ReadRecord_loop file_Read le frag (in_frag, p, scratch, r) = Some res"
proof (induction "left r" arbitrary: r frag in_frag p scratch rule: less_induct)
  case less
  obtain t d r1 where r1: "ReadPhysicalRecord file_Read le frag r = Some (t, d, r1)" "healthy (r_file r1)"
    "t \<noteq> word_of_nat kEof \<Longrightarrow> left r1 < left r"
    using read_phys_returns [OF less.prems] by blast
  obtain n where n: "record_switch (r_end_of_buffer_offset r - word_of_nat (length (r_buffer r))) t d (in_frag, p, scratch, r1) = Some n"
    "\<And>i q c r'. n = Inl (i, q, c, r') \<Longrightarrow> r_file r' = r_file r1 \<and> r_buffer r' = r_buffer r1 \<and> t \<noteq> word_of_nat kEof"
    using record_switch_returns [of "r_end_of_buffer_offset r - word_of_nat (length (r_buffer r))" t d in_frag p scratch r1] by blast
  show ?case
  proof (cases n)
    case (Inl ls)
    obtain i q c r' where ls: "ls = (i, q, c, r')" by (cases ls) auto
    have "left r' < left r" "healthy (r_file r')" using n(2) r1 Inl ls by (auto simp: left_def)
    then show ?thesis using less.hyps Inl ls by (simp add: loop_step [OF r1(1)] n(1))
  next
    case (Inr res)
    then have "ReadRecord_loop file_Read le frag (in_frag, p, scratch, r) = Some res" by (simp add: loop_step [OF r1(1)] n(1))
    then show ?thesis by blast
  qed
qed

theorem read_record_returns:
  assumes "healthy (r_file r)"
  shows "\<exists>res. ReadRecord file_Read file_Skip le record scratch r = Some res"
proof -
  obtain s f where "file_Skip n (r_file r) = Some (s n, f n)" "healthy (f n)" for n
    using skip_ok [OF assms] by metis
  then show ?thesis using loop_returns assms
    by (auto simp: ReadRecord_def SkipToInitialBlock_def Let_def)
qed

end

subsection \<open>Logs in the files of the system\<close>

lemma reading_init:
  "posix_healthy src \<Longrightarrow> posix_seq.reading (Reader_init src reporter checksum 0) 0 (posix_unread src)"
  by (simp add: posix_seq.reading_def Reader_init_def)

lemma log_bytes_take: "length (log_bytes off (take n ds)) \<le> length (log_bytes off ds)"
  by (induction ds arbitrary: off n) (auto simp: take_Cons split: nat.split)

lemmas log_written = posix_wr.add_records_ok [OF _ _ writer_ok_init]

lemma log_read_cut:
  assumes "AddRecords PosixWritableFile_Append PosixWritableFile_Flush le recs (Writer_init le dest) = Some (s, w)"
    and "Status_ok s" "posix_contents dest = []" "posix_healthy src" "posix_unread src = take k (posix_contents (w_dest w))"
  obtains n r where "ReadRecords PosixSequentialFile_Read PosixSequentialFile_Skip le' (Suc (length recs))
      (Reader_init src reporter checksum 0) = Some (take n recs, r)" "r_reports r = []" "n \<le> length recs"
    "length (log_bytes 0 (take n recs)) \<le> k" "n < length recs \<longrightarrow> k < length (log_bytes 0 (take (Suc n) recs))"
proof -
  have "posix_unread src = take k (log_bytes 0 recs)"
    using log_written [OF assms(1,2)] assms(3,5) by (simp add: Writer_init_def)
  then have "posix_seq.reading (Reader_init src reporter checksum 0) 0 (take k (log_bytes 0 recs))"
    using reading_init [OF assms(4), of reporter checksum] by simp
  from posix_seq.read_records_cut [OF this, of PosixSequentialFile_Skip le'] obtain n r where
    "ReadRecords PosixSequentialFile_Read PosixSequentialFile_Skip le' (Suc (length recs))
      (Reader_init src reporter checksum 0) = Some (take n recs, r)" "r_reports r = r_reports (Reader_init src reporter checksum 0)"
    "n \<le> length recs" "length (log_bytes 0 (take n recs)) \<le> k" "n < length recs \<longrightarrow> k < length (log_bytes 0 (take (Suc n) recs))"
    by blast
  then show thesis using that by (simp add: Reader_init_def)
qed

lemma log_written_posix:
  "AddRecords PosixWritableFile_Append PosixWritableFile_Flush le recs (Writer_init le dest) = Some (s, w) \<Longrightarrow>
   Status_ok s \<Longrightarrow> posix_contents dest = [] \<Longrightarrow> posix_contents (w_dest w) = log_bytes 0 recs"
  using log_written [of le recs dest s w] by (simp add: Writer_init_def)

text \<open>
  C11: records that are added to an empty log with success are read back, in order, and nothing else:
  the reader returns them and then reports the end of the log, without reporting a corruption.
\<close>
theorem log_roundtrip:
  assumes "AddRecords PosixWritableFile_Append PosixWritableFile_Flush le recs (Writer_init le dest) = Some (s, w)"
    and "Status_ok s" "posix_contents dest = []" "posix_healthy src" "posix_unread src = posix_contents (w_dest w)"
  shows "\<exists>r. ReadRecords PosixSequentialFile_Read PosixSequentialFile_Skip le' (Suc (length recs))
    (Reader_init src reporter checksum 0) = Some (recs, r) \<and> r_reports r = []"
proof -
  have c: "posix_unread src = take (length (log_bytes 0 recs)) (posix_contents (w_dest w))"
    using log_written_posix [OF assms(1-3)] assms(5) by simp
  obtain n r where n: "ReadRecords PosixSequentialFile_Read PosixSequentialFile_Skip le' (Suc (length recs))
      (Reader_init src reporter checksum 0) = Some (take n recs, r)" "r_reports r = []" "n \<le> length recs"
    "length (log_bytes 0 (take n recs)) \<le> length (log_bytes 0 recs)"
    "n < length recs \<longrightarrow> length (log_bytes 0 recs) < length (log_bytes 0 (take (Suc n) recs))"
    by (rule log_read_cut [OF assms(1-4) c, of le' reporter checksum])
  then have "length recs \<le> n" using log_bytes_take [of 0 "Suc n" recs] by (meson leD not_le)
  with n show ?thesis by simp
qed

text \<open>A device with room for the log, and a file that holds the first bytes of one.\<close>

definition ex_stream :: "byte list \<Rightarrow> FILE" where
  "ex_stream bytes = \<lparr>f_data = bytes, f_pos = 0, f_room = 70000, f_fault = None, f_seekable = True, f_failed = False, f_strerror = []\<rparr>"

definition ex_dest :: PosixWritableFile where "ex_dest = \<lparr>wr_filename = [], wr_file = Some (ex_stream [])\<rparr>"

definition ex_src :: "byte list \<Rightarrow> PosixSequentialFile" where "ex_src bytes = \<lparr>sq_filename = [], sq_file = ex_stream bytes\<rparr>"

lemma ex_files: "posix_contents ex_dest = []" "posix_healthy (ex_src bytes)" "posix_unread (ex_src bytes) = bytes"
  by (simp_all add: ex_dest_def ex_src_def ex_stream_def posix_contents_def posix_healthy_def posix_unread_def)

lemma ex_log:
  obtains w where "AddRecords PosixWritableFile_Append PosixWritableFile_Flush True [[1, 2, 3], []] (Writer_init True ex_dest) =
    Some (Status_OK, w)"
proof -
  have b: "length (log_bytes 0 [[1, 2, 3], []]) = 17"
    by (simp add: logrec_bytes_def logrec_end_def fragments.simps start_off_def pad_len_def kBlockSize_def)
  show thesis
    using posix_wr.add_records_room [of "Writer_init True ex_dest" "[[1, 2, 3], []]" True, OF _ writer_ok_init] that b
    by (auto simp: Writer_init_def posix_room_def ex_dest_def ex_stream_def simp del: log_bytes.simps)
qed

theorem log_roundtrip_witness:
  "\<exists>w. AddRecords PosixWritableFile_Append PosixWritableFile_Flush True [[1, 2, 3], []] (Writer_init True ex_dest) = Some (Status_OK, w) \<and>
    (\<exists>r. ReadRecords PosixSequentialFile_Read PosixSequentialFile_Skip True 3
      (Reader_init (ex_src (posix_contents (w_dest w))) True True 0) = Some ([[1, 2, 3], []], r) \<and> r_reports r = [])"
proof -
  obtain w where w: "AddRecords PosixWritableFile_Append PosixWritableFile_Flush True [[1, 2, 3], []] (Writer_init True ex_dest) =
    Some (Status_OK, w)" by (rule ex_log)
  have "Suc (length [[1, 2, 3], [] :: byte list]) = 3" by simp
  with w show ?thesis
    using log_roundtrip [OF w _ ex_files, of True True True] by (metis Status_OK_def Status_ok_def)
qed

text \<open>
  C10: a log that is cut off anywhere, as by a crash of the writer, yields exactly the records that were
  written completely, in order, and no report of a corruption.
\<close>
theorem log_crash:
  assumes "AddRecords PosixWritableFile_Append PosixWritableFile_Flush le recs (Writer_init le dest) = Some (s, w)"
    and "Status_ok s" "posix_contents dest = []" "posix_healthy src" "posix_unread src = take k (posix_contents (w_dest w))"
  shows "\<exists>n r. ReadRecords PosixSequentialFile_Read PosixSequentialFile_Skip le' (Suc (length recs))
      (Reader_init src reporter checksum 0) = Some (take n recs, r) \<and> r_reports r = [] \<and>
    length (log_bytes 0 (take n recs)) \<le> k \<and> (n < length recs \<longrightarrow> k < length (log_bytes 0 (take (Suc n) recs)))"
  using log_read_cut [OF assms, of le' reporter checksum] by metis

theorem log_crash_witness:
  "\<exists>w n r. AddRecords PosixWritableFile_Append PosixWritableFile_Flush True [[1, 2, 3], []] (Writer_init True ex_dest) = Some (Status_OK, w) \<and>
    ReadRecords PosixSequentialFile_Read PosixSequentialFile_Skip True 3
      (Reader_init (ex_src (take 12 (posix_contents (w_dest w)))) True True 0) = Some (take n [[1, 2, 3], []], r) \<and> r_reports r = []"
proof -
  obtain w where w: "AddRecords PosixWritableFile_Append PosixWritableFile_Flush True [[1, 2, 3], []] (Writer_init True ex_dest) =
    Some (Status_OK, w)" by (rule ex_log)
  have "Suc (length [[1, 2, 3], [] :: byte list]) = 3" by simp
  with w show ?thesis
    using log_crash [OF w _ ex_files(1,2,3), where k = 12 and le' = True and reporter = True and checksum = True] by (metis Status_OK_def Status_ok_def)
qed

text \<open>
  C26: \<^verbatim>\<open>ReadRecord\<close> returns on every file that can be read, whatever its bytes and wherever it starts:
  damaged logs cannot make the loop run forever.
\<close>
theorem log_reader_returns:
  assumes "posix_healthy (r_file r)"
  shows "\<exists>result. ReadRecord PosixSequentialFile_Read PosixSequentialFile_Skip le record scratch r = Some result"
  by (rule posix_seq.read_record_returns [OF assms])

theorem log_reader_returns_witness:
  "\<exists>result. ReadRecord PosixSequentialFile_Read PosixSequentialFile_Skip True [] []
    (Reader_init (ex_src [1, 2, 3, 4, 5, 0, 7, 8]) True True 0) = Some result"
  by (rule log_reader_returns) (simp add: Reader_init_def ex_files)

text \<open>
  The writer accepts records as long as the device has room for the bytes of the log.
\<close>
theorem log_writer_succeeds:
  assumes "posix_room (length (log_bytes 0 recs)) dest"
  shows "\<exists>w. AddRecords PosixWritableFile_Append PosixWritableFile_Flush le recs (Writer_init le dest) = Some (Status_OK, w)"
  using posix_wr.add_records_room [of "Writer_init le dest" recs le, OF _ writer_ok_init] assms by (simp add: Writer_init_def)

theorem log_writer_succeeds_witness:
  "\<exists>w. AddRecords PosixWritableFile_Append PosixWritableFile_Flush True [] (Writer_init True ex_dest) = Some (Status_OK, w)"
  by (rule log_writer_succeeds) (simp add: posix_room_def ex_dest_def ex_stream_def)

end
