(* ===== verification/LDB_Filter.thy ===== *)
theory LDB_Filter
  imports LDB_Format "HOL-Library.Monad_Syntax"
begin

text \<open>
  Filters: the hash function of \<^verbatim>\<open>util/hash.cc\<close>, the Bloom filter of \<^verbatim>\<open>util/bloom.cc\<close>, and the filter blocks
  of \<^verbatim>\<open>table/filter_block.cc\<close>.

  The locale \<open>filter_policy\<close> is the contract of the class \<^verbatim>\<open>FilterPolicy\<close>: a filter is appended to the
  string, and it may match every key that it was made from. Filter blocks are verified over any policy
  that keeps it; the interpretation \<open>bloom\<close> shows that the Bloom filter does, and \<open>internal_bloom\<close> that
  the wrapper for internal keys does.
\<close>

subsection \<open>Hashing\<close>

function Hash_loop :: "bool \<Rightarrow> 32 word \<Rightarrow> byte list \<Rightarrow> 32 word \<times> byte list" where
  "Hash_loop le h data =
     (if 4 \<le> length data then
        let w = DecodeFixed32 le data; h = h + w; h = h * 0xc6a4a793; h = h XOR drop_bit 16 h
        in Hash_loop le h (drop 4 data)
      else (h, data))"
  by pat_completeness auto
termination
  by (relation "measure (\<lambda>(le, h, data). length data)") auto

declare Hash_loop.simps [simp del]

definition Hash :: "bool \<Rightarrow> byte list \<Rightarrow> 32 word \<Rightarrow> 32 word" where
  "Hash le data seed =
     (let m = 0xc6a4a793;
          h = seed XOR (word_of_nat (length data) * m);
          (h, data) = Hash_loop le h data;
          h = (if length data = 3 then h + push_bit 16 (ucast (data ! 2)) else h);
          h = (if length data = 3 \<or> length data = 2 then h + push_bit 8 (ucast (data ! 1)) else h)
      in if length data = 3 \<or> length data = 2 \<or> length data = 1 then
           let h = h + ucast (data ! 0); h = h * m in h XOR drop_bit 24 h
         else h)"

subsection \<open>The Bloom filter\<close>

definition BloomHash :: "bool \<Rightarrow> slice \<Rightarrow> 32 word" where "BloomHash le k = Hash le k 0xbc9f1d34"

record BloomFilterPolicy =
  bits_per_key :: "64 word"
  bloom_k :: nat

text \<open>
  The number of probes is \<^verbatim>\<open>bits_per_key * 0.69\<close>, rounded towards 0 and limited to the range from 1 to 30;
  the conversion of a number of -1 or less is undefined. Up to 44, where the limit is reached, the
  product is at least 0.01 away from the next integer, so that the division below is exact.
\<close>

definition BloomFilterPolicy_init :: "int \<Rightarrow> BloomFilterPolicy option" where
  "BloomFilterPolicy_init n =
     (if n < - 1 then None
      else let k = nat (n * 69 div 100); k = (if k < 1 then 1 else k); k = (if k > 30 then 30 else k)
           in Some \<lparr>bits_per_key = word_of_int n, bloom_k = k\<rparr>)"

definition bloom_delta :: "32 word \<Rightarrow> 32 word" where "bloom_delta h = drop_bit 17 h OR push_bit 15 h"

primrec bloom_add :: "nat \<Rightarrow> nat \<Rightarrow> 32 word \<Rightarrow> 32 word \<Rightarrow> byte list \<Rightarrow> byte list" where
  "bloom_add bits 0 h delta array = array"
| "bloom_add bits (Suc k) h delta array =
     (let bitpos = unat h mod bits
      in bloom_add bits k (h + delta) delta
           (array[bitpos div 8 := array ! (bitpos div 8) OR push_bit (bitpos mod 8) 1]))"

definition Bloom_CreateFilter :: "bool \<Rightarrow> BloomFilterPolicy \<Rightarrow> slice list \<Rightarrow> byte list \<Rightarrow> byte list option" where
  "Bloom_CreateFilter le p keys dst =
     (let bits = word_of_nat (length keys) * bits_per_key p;
          bits = (if bits < 64 then 64 else bits);
          bytes = unat ((bits + 7) div 8);
          bits = bytes * 8
      in if bits = 0 \<and> keys \<noteq> [] then None
         else Some (dst @ foldl (\<lambda>array k. let h = BloomHash le k in bloom_add bits (bloom_k p) h (bloom_delta h) array)
                            (replicate bytes 0) keys @ [word_of_nat (bloom_k p)]))"

primrec bloom_test :: "nat \<Rightarrow> nat \<Rightarrow> 32 word \<Rightarrow> 32 word \<Rightarrow> byte list \<Rightarrow> bool" where
  "bloom_test bits 0 h delta array \<longleftrightarrow> True"
| "bloom_test bits (Suc k) h delta array \<longleftrightarrow>
     (let bitpos = unat h mod bits
      in if array ! (bitpos div 8) AND push_bit (bitpos mod 8) 1 = 0 then False
         else bloom_test bits k (h + delta) delta array)"

text \<open>The number of probes in a filter is a signed character that is converted to an unsigned number.\<close>

definition Bloom_KeyMayMatch :: "bool \<Rightarrow> slice \<Rightarrow> slice \<Rightarrow> bool" where
  "Bloom_KeyMayMatch le k bloom_filter =
     (let len = length bloom_filter in
      if len < 2 then False
      else let bits = (len - 1) * 8; n :: 64 word = scast (bloom_filter ! (len - 1)) in
           if n > 30 then True
           else let h = BloomHash le k in bloom_test bits (unat n) h (bloom_delta h) bloom_filter)"

definition NewBloomFilterPolicy :: "bool \<Rightarrow> int \<Rightarrow> slice list \<Rightarrow> byte list \<Rightarrow> byte list option" where
  "NewBloomFilterPolicy le n keys dst = do { p \<leftarrow> BloomFilterPolicy_init n; Bloom_CreateFilter le p keys dst }"

subsection \<open>Filter blocks\<close>

record FilterBlockBuilder =
  fb_keys :: "byte list"
  fb_start :: "nat list"
  fb_result :: "byte list"
  fb_filter_offsets :: "32 word list"

abbreviation (input) kFilterBaseLg :: nat where "kFilterBaseLg \<equiv> 11"

definition kFilterBase :: "64 word" where "kFilterBase = push_bit kFilterBaseLg 1"

definition FilterBlockBuilder_init :: FilterBlockBuilder where
  "FilterBlockBuilder_init = \<lparr>fb_keys = [], fb_start = [], fb_result = [], fb_filter_offsets = []\<rparr>"

definition GenerateFilter ::
    "(slice list \<Rightarrow> byte list \<Rightarrow> byte list option) \<Rightarrow> FilterBlockBuilder \<Rightarrow> FilterBlockBuilder option" where
  "GenerateFilter create b =
     (let num_keys = length (fb_start b) in
      if num_keys = 0 then Some (b\<lparr>fb_filter_offsets := fb_filter_offsets b @ [word_of_nat (length (fb_result b))]\<rparr>)
      else
        let start = fb_start b @ [length (fb_keys b)];
            tmp_keys = map (\<lambda>i. take (start ! (i + 1) - start ! i) (drop (start ! i) (fb_keys b))) [0..<num_keys];
            filter_offsets = fb_filter_offsets b @ [word_of_nat (length (fb_result b))]
        in do {
          result \<leftarrow> create tmp_keys (fb_result b);
          Some \<lparr>fb_keys = [], fb_start = [], fb_result = result, fb_filter_offsets = filter_offsets\<rparr>
        })"

lemma GenerateFilter_offsets:
  "GenerateFilter create b = Some b' \<Longrightarrow> length (fb_filter_offsets b') = Suc (length (fb_filter_offsets b))"
  by (auto simp: GenerateFilter_def Let_def split: if_splits bind_splits)

function StartBlock_loop ::
    "(slice list \<Rightarrow> byte list \<Rightarrow> byte list option) \<Rightarrow> nat \<Rightarrow> FilterBlockBuilder \<Rightarrow> FilterBlockBuilder option" where
  "StartBlock_loop create filter_index b =
     (if filter_index > length (fb_filter_offsets b)
      then do { b \<leftarrow> GenerateFilter create b; StartBlock_loop create filter_index b } else Some b)"
  by pat_completeness auto
termination
  by (relation "measure (\<lambda>(create, i, b). i - length (fb_filter_offsets b))") (auto dest: GenerateFilter_offsets)

declare StartBlock_loop.simps [simp del]

definition StartBlock ::
    "(slice list \<Rightarrow> byte list \<Rightarrow> byte list option) \<Rightarrow> 64 word \<Rightarrow> FilterBlockBuilder \<Rightarrow> FilterBlockBuilder option" where
  "StartBlock create block_offset b =
     (let filter_index = unat (block_offset div kFilterBase) in
      if filter_index \<ge> length (fb_filter_offsets b) then StartBlock_loop create filter_index b else None)"

definition AddKey :: "slice \<Rightarrow> FilterBlockBuilder \<Rightarrow> FilterBlockBuilder" where
  "AddKey k b = b\<lparr>fb_start := fb_start b @ [length (fb_keys b)], fb_keys := fb_keys b @ k\<rparr>"

definition FilterBlock_Finish ::
    "(slice list \<Rightarrow> byte list \<Rightarrow> byte list option) \<Rightarrow> bool \<Rightarrow> FilterBlockBuilder \<Rightarrow> byte list option" where
  "FilterBlock_Finish create le b =
     do {
       b \<leftarrow> (if fb_start b \<noteq> [] then GenerateFilter create b else Some b);
       let array_offset = word_of_nat (length (fb_result b)) in
       let result = foldl (PutFixed32 le) (fb_result b) (fb_filter_offsets b) in
       Some (PutFixed32 le result array_offset @ [word_of_nat kFilterBaseLg])
     }"

text \<open>
  The reader. Its pointers are offsets into the contents; \<^verbatim>\<open>base_lg_\<close> is a signed character that is
  converted, and a shift by 64 or more is undefined.
\<close>

record FilterBlockReader =
  fr_data :: "byte list"
  fr_offset :: nat
  fr_num :: nat
  fr_base_lg :: "64 word"

definition FilterBlockReader_init :: "bool \<Rightarrow> slice \<Rightarrow> FilterBlockReader" where
  "FilterBlockReader_init le contents =
     (let n = length contents; r = \<lparr>fr_data = [], fr_offset = 0, fr_num = 0, fr_base_lg = 0\<rparr> in
      if n < 5 then r
      else
        let r = r\<lparr>fr_base_lg := scast (contents ! (n - 1))\<rparr>; last_word = unat (DecodeFixed32 le (drop (n - 5) contents)) in
        if last_word > n - 5 then r
        else r\<lparr>fr_data := contents, fr_offset := last_word, fr_num := (n - 5 - last_word) div 4\<rparr>)"

definition FilterBlock_KeyMayMatch ::
    "(slice \<Rightarrow> slice \<Rightarrow> bool) \<Rightarrow> bool \<Rightarrow> FilterBlockReader \<Rightarrow> 64 word \<Rightarrow> slice \<Rightarrow> bool option" where
  "FilterBlock_KeyMayMatch may_match le r block_offset k =
     (if fr_base_lg r \<ge> 64 then None
      else
        let index = unat (drop_bit (unat (fr_base_lg r)) block_offset) in
        Some (if index < fr_num r then
                let start = unat (DecodeFixed32 le (drop (fr_offset r + index * 4) (fr_data r)));
                    limit = unat (DecodeFixed32 le (drop (fr_offset r + index * 4 + 4) (fr_data r)))
                in if start \<le> limit \<and> limit \<le> fr_offset r then may_match k (take (limit - start) (drop start (fr_data r)))
                   else if start = limit then False
                   else True
              else True))"

text \<open>A client, as the table builder: for each data block its offset and its keys.\<close>

primrec build_filters ::
    "(slice list \<Rightarrow> byte list \<Rightarrow> byte list option) \<Rightarrow> (64 word \<times> slice list) list \<Rightarrow> FilterBlockBuilder \<Rightarrow> FilterBlockBuilder option" where
  "build_filters create [] b = Some b"
| "build_filters create (block # blocks) b =
     do { b \<leftarrow> StartBlock create (fst block) b; build_filters create blocks (foldl (\<lambda>b k. AddKey k b) b (snd block)) }"

subsection \<open>What a filter policy promises\<close>

locale filter_policy =
  fixes create :: "slice list \<Rightarrow> byte list \<Rightarrow> byte list option"
    and may_match :: "slice \<Rightarrow> slice \<Rightarrow> bool"
  assumes create_matches: "create keys dst = Some dst' \<Longrightarrow> \<exists>f. dst' = dst @ f \<and> (\<forall>k\<in>set keys. may_match k f)"

text \<open>A bit that is set stays set.\<close>

definition bit_at :: "byte list \<Rightarrow> nat \<Rightarrow> bool" where
  "bit_at array pos \<longleftrightarrow> bit (array ! (pos div 8)) (pos mod 8)"

lemma bloom_test_bits:
  "bloom_test bits k h delta array \<longleftrightarrow> (\<forall>j<k. bit_at array (unat (h + word_of_nat j * delta) mod bits))"
proof (induction k arbitrary: h)
  case (Suc k)
  have "(\<forall>j<Suc k. bit_at array (unat (h + word_of_nat j * delta) mod bits)) \<longleftrightarrow>
      bit_at array (unat h mod bits) \<and> (\<forall>j<k. bit_at array (unat (h + word_of_nat (Suc j) * delta) mod bits))"
    by (simp only: All_less_Suc2) simp
  then show ?case by (simp add: Suc.IH and_exp_eq_0_iff_not_bit bit_at_def Let_def algebra_simps)
qed simp

lemma bloom_add_length [simp]: "length (bloom_add bits k h delta array) = length array"
  by (induction k arbitrary: h array) (simp_all add: Let_def)

lemma bloom_add_keeps: "bit_at array pos \<Longrightarrow> pos div 8 < length array \<Longrightarrow> bit_at (bloom_add bits k h delta array) pos"
proof (induction k arbitrary: h array)
  case (Suc k)
  have "bit_at (array[i := array ! i OR m]) pos" for i m
    using Suc.prems by (cases "i = pos div 8") (simp_all add: bit_at_def bit_or_iff)
  then show ?case using Suc.prems by (simp add: Suc.IH Let_def)
qed simp

lemma bloom_add_sets:
  assumes "bits = 8 * length array" "0 < bits"
  shows "j < k \<Longrightarrow> bit_at (bloom_add bits k h delta array) (unat (h + word_of_nat j * delta) mod bits)"
  using assms
proof (induction k arbitrary: h array j)
  case (Suc k)
  define pos where "pos = unat h mod bits"
  define array' where "array' = array[pos div 8 := array ! (pos div 8) OR push_bit (pos mod 8) 1]"
  have pos: "pos div 8 < length array" using Suc.prems by (simp add: pos_def less_mult_imp_div_less mult.commute [of 8])
  have add: "bloom_add bits (Suc k) h delta array = bloom_add bits k (h + delta) delta array'"
    by (simp add: array'_def pos_def Let_def)
  show ?case
  proof (cases j)
    case 0
    have "bit_at array' pos" using pos by (simp add: bit_at_def array'_def bit_or_iff bit_exp_iff)
    then show ?thesis using pos by (simp add: add 0 bloom_add_keeps array'_def flip: pos_def)
  next
    case (Suc i)
    have "length array' = length array" by (simp add: array'_def)
    with Suc show ?thesis using Suc.prems Suc.IH [of i array' "h + delta"] unfolding add by (simp add: algebra_simps)
  qed
qed simp

lemma bloom_fold:
  fixes le :: bool and n :: nat and array :: "byte list"
  assumes "bits = 8 * length array" "0 < bits"
  defines "added \<equiv> foldl (\<lambda>array k. bloom_add bits n (BloomHash le k) (bloom_delta (BloomHash le k)) array)"
  shows "length (added array keys) = length array"
    and "pos div 8 < length array \<Longrightarrow> bit_at array pos \<Longrightarrow> bit_at (added array keys) pos"
    and "k \<in> set keys \<Longrightarrow> j < n \<Longrightarrow>
      bit_at (added array keys) (unat (BloomHash le k + word_of_nat j * bloom_delta (BloomHash le k)) mod bits)"
proof -
  show len: "length (added array keys) = length array" for array keys
    unfolding added_def by (induction keys arbitrary: array) simp_all
  show keeps: "pos div 8 < length array \<Longrightarrow> bit_at array pos \<Longrightarrow> bit_at (added array keys) pos" for array keys pos
    unfolding added_def by (induction keys arbitrary: array) (simp_all add: bloom_add_keeps)
  show "k \<in> set keys \<Longrightarrow> j < n \<Longrightarrow>
      bit_at (added array keys) (unat (BloomHash le k + word_of_nat j * bloom_delta (BloomHash le k)) mod bits)"
    using assms(1,2)
  proof (induction keys arbitrary: array)
    case (Cons a keys)
    define array' where "array' = bloom_add bits n (BloomHash le a) (bloom_delta (BloomHash le a)) array"
    have f: "added array (a # keys) = added array' keys" by (simp add: added_def array'_def)
    have l: "bits = 8 * length array'" using Cons.prems by (simp add: array'_def)
    show ?case
    proof (cases "k = a")
      case True
      then have "bit_at array' (unat (BloomHash le k + word_of_nat j * bloom_delta (BloomHash le k)) mod bits)"
        using bloom_add_sets [OF Cons.prems(3,4,2)] by (simp add: array'_def)
      moreover have "unat (BloomHash le k + word_of_nat j * bloom_delta (BloomHash le k)) mod bits div 8 < length array'"
        using l Cons.prems(4) by (simp add: less_mult_imp_div_less mult.commute [of 8])
      ultimately show ?thesis unfolding f by (intro keeps)
    next
      case False
      then show ?thesis unfolding f using Cons.IH [of array'] Cons.prems l by simp
    qed
  qed simp
qed

lemma probes_byte: "n \<le> 30 \<Longrightarrow> scast (word_of_nat n :: byte) = (word_of_nat n :: 64 word)"
proof -
  assume n: "n \<le> 30"
  then have "sint (word_of_nat n :: byte) = int n"
    by (simp add: signed_of_nat signed_take_bit_int_eq_self_iff take_bit_nat_eq_self_iff)
  then show ?thesis by (metis of_int_of_nat_eq of_int_sint)
qed

lemma Bloom_CreateFilter_matches:
  assumes "bloom_k p \<le> 30" "Bloom_CreateFilter le p keys dst = Some dst'"
  shows "\<exists>f. dst' = dst @ f \<and> (\<forall>k\<in>set keys. Bloom_KeyMayMatch le k f)"
proof -
  define bits where "bits = (if word_of_nat (length keys) * bits_per_key p < 64 then 64 else word_of_nat (length keys) * bits_per_key p)"
  define bytes where "bytes = unat ((bits + 7) div 8)"
  define array where "array = foldl (\<lambda>array k. bloom_add (bytes * 8) (bloom_k p) (BloomHash le k) (bloom_delta (BloomHash le k)) array)
     (replicate bytes 0) keys"
  define f where "f = array @ [word_of_nat (bloom_k p)]"
  have dst': "dst' = dst @ f" and pos: "keys \<noteq> [] \<Longrightarrow> 0 < bytes"
    using assms(2) unfolding Bloom_CreateFilter_def Let_def bits_def [symmetric] bytes_def [symmetric] array_def [symmetric]
    by (auto simp: f_def split: if_splits)
  have "Bloom_KeyMayMatch le k f" if k: "k \<in> set keys" for k
  proof -
    have ne: "keys \<noteq> []" using k by auto
    have b: "0 < bytes * 8" "bytes * 8 = 8 * length (replicate bytes (0 :: byte))" using pos [OF ne] by simp_all
    have len: "length array = bytes" unfolding array_def using bloom_fold(1) [OF b(2,1)] by simp
    have "bit_at f (unat (BloomHash le k + word_of_nat j * bloom_delta (BloomHash le k)) mod (bytes * 8))" if "j < bloom_k p" for j
    proof -
      define q where "q = unat (BloomHash le k + word_of_nat j * bloom_delta (BloomHash le k)) mod (bytes * 8)"
      have "q div 8 < bytes" unfolding q_def using b(1) by (simp add: less_mult_imp_div_less)
      moreover have "bit_at array q" unfolding array_def q_def using bloom_fold(3) [OF b(2,1) k that] .
      ultimately show ?thesis unfolding q_def [symmetric] by (simp add: bit_at_def f_def nth_append len)
    qed
    moreover have "\<not> (word_of_nat (bloom_k p) :: 64 word) > 30" "unat (word_of_nat (bloom_k p) :: 64 word) = bloom_k p"
      using assms(1) by (simp_all add: not_less word_le_nat_alt unsigned_of_nat take_bit_nat_eq_self)
    moreover have "f ! (length f - 1) = word_of_nat (bloom_k p)" "length f = Suc bytes" by (simp_all add: f_def len nth_append)
    ultimately show ?thesis
      using b(1) by (simp add: Bloom_KeyMayMatch_def Let_def bloom_test_bits probes_byte [OF assms(1)])
  qed
  with dst' show ?thesis by blast
qed

lemma BloomFilterPolicy_init_k: "BloomFilterPolicy_init n = Some p \<Longrightarrow> bloom_k p \<le> 30"
  by (auto simp: BloomFilterPolicy_init_def Let_def split: if_splits)

interpretation bloom: filter_policy "NewBloomFilterPolicy le n" "Bloom_KeyMayMatch le" for le n
  by unfold_locales (auto simp: NewBloomFilterPolicy_def bind_eq_Some_conv intro: Bloom_CreateFilter_matches dest: BloomFilterPolicy_init_k)

context filter_policy
begin

lemma internal_policy:
  "filter_policy (InternalFilterPolicy_CreateFilter create) (InternalFilterPolicy_KeyMayMatch may_match)"
  by unfold_locales (auto simp: InternalFilterPolicy_CreateFilter_def InternalFilterPolicy_KeyMayMatch_def dest!: create_matches)

end

interpretation internal_bloom: filter_policy
  "InternalFilterPolicy_CreateFilter (NewBloomFilterPolicy le n)" "InternalFilterPolicy_KeyMayMatch (Bloom_KeyMayMatch le)" for le n
  by (rule bloom.internal_policy)

subsection \<open>Filter blocks have no false negatives\<close>

text \<open>The builder stands for the filters that it has made and the keys that wait for the next one.\<close>

definition starts :: "'a list list \<Rightarrow> nat list" where
  "starts xss = map (\<lambda>i. length (concat (take i xss))) [0..<length xss]"

definition fb_abs :: "FilterBlockBuilder \<Rightarrow> byte list list \<Rightarrow> slice list \<Rightarrow> bool" where
  "fb_abs b fs pend \<longleftrightarrow> fb_keys b = concat pend \<and> fb_start b = starts pend \<and>
     fb_result b = concat fs \<and> fb_filter_offsets b = map word_of_nat (starts fs)"

lemma length_starts [simp]: "length (starts xss) = length xss"
  by (simp add: starts_def)

lemma starts_snoc: "starts (xss @ [xs]) = starts xss @ [length (concat xss)]"
  by (simp add: starts_def)

lemma starts_slices:
  "map (\<lambda>i. take ((starts xss @ [length (concat xss)]) ! (i + 1) - (starts xss @ [length (concat xss)]) ! i)
      (drop ((starts xss @ [length (concat xss)]) ! i) (concat xss))) [0..<length xss] = xss"
proof (rule nth_equalityI)
  fix i assume i: "i < length (map (\<lambda>i. take ((starts xss @ [length (concat xss)]) ! (i + 1) - (starts xss @ [length (concat xss)]) ! i)
      (drop ((starts xss @ [length (concat xss)]) ! i) (concat xss))) [0..<length xss])"
  then have l: "i < length xss" by simp
  have at: "(starts xss @ [length (concat xss)]) ! j = length (concat (take j xss))" if "j \<le> length xss" for j
    using that by (simp add: starts_def nth_append)
  have c: "concat xss = concat (take i xss) @ xss ! i @ concat (drop (Suc i) xss)"
    using l by (metis concat.simps(2) concat_append id_take_nth_drop)
  have "take (length (concat (take (i + 1) xss)) - length (concat (take i xss))) (drop (length (concat (take i xss))) (concat xss)) = xss ! i"
    unfolding c using l by (simp add: take_Suc_conv_app_nth)
  then show "map (\<lambda>i. take ((starts xss @ [length (concat xss)]) ! (i + 1) - (starts xss @ [length (concat xss)]) ! i)
      (drop ((starts xss @ [length (concat xss)]) ! i) (concat xss))) [0..<length xss] ! i = xss ! i"
    using l by (simp add: at)
qed simp

text \<open>The bytes of a filter block, and how the reader takes them apart.\<close>

definition filter_block :: "byte list list \<Rightarrow> byte list" where
  "filter_block fs = concat fs @ concat (map (\<lambda>n. word_le 4 (word_of_nat n :: 32 word)) (starts fs @ [length (concat fs)])) @ [11]"

lemma filter_block_word:
  assumes "i \<le> length fs" "length (filter_block fs) < 2 ^ 32"
  shows "unat (DecodeFixed32 le (drop (length (concat fs) + i * 4) (filter_block fs))) = length (concat (take i fs))"
proof -
  define ns where "ns = starts fs @ [length (concat fs)]"
  have at: "ns ! i = length (concat (take i fs))" using assms(1) by (auto simp: ns_def starts_def nth_append)
  have "length (concat (take i fs)) \<le> length (concat fs)"
    by (metis append_take_drop_id concat_append le_add1 length_append)
  then have "length (concat (take i fs)) < 2 ^ 32" using assms(2) by (simp add: filter_block_def)
  moreover have "DecodeFixed32 le (drop (length (concat fs) + i * 4) (filter_block fs)) = word_of_nat (ns ! i)"
  proof -
    have l: "i < length (map word_of_nat ns :: 32 word list)" "i < length ns" using assms(1) by (simp_all add: ns_def)
    show ?thesis
      using decode_fixed_at [OF l(1), of le "[11]"] l(2) unfolding nth_map [OF l(2)] by (simp add: filter_block_def o_def flip: ns_def)
  qed
  ultimately show ?thesis by (simp add: at unsigned_of_nat take_bit_nat_eq_self)
qed

lemma filter_block_reader:
  assumes "length (filter_block fs) < 2 ^ 32"
  shows "FilterBlockReader_init le (filter_block fs) =
    \<lparr>fr_data = filter_block fs, fr_offset = length (concat fs), fr_num = length fs, fr_base_lg = 11\<rparr>"
proof -
  have n: "length (filter_block fs) = length (concat fs) + length fs * 4 + 5" by (simp add: filter_block_def)
  then have "unat (DecodeFixed32 le (drop (length (filter_block fs) - 5) (filter_block fs))) = length (concat fs)"
    using filter_block_word [OF order_refl assms, of le] by simp
  moreover have "filter_block fs ! (length (filter_block fs) - 1) = 11" unfolding filter_block_def by (simp add: nth_append)
  ultimately show ?thesis using n by (simp add: FilterBlockReader_init_def Let_def)
qed

lemma filter_block_filter:
  fixes le :: bool
  assumes "i < length fs" "length (filter_block fs) < 2 ^ 32"
  defines "start \<equiv> unat (DecodeFixed32 le (drop (length (concat fs) + i * 4) (filter_block fs)))"
  defines "limit \<equiv> unat (DecodeFixed32 le (drop (length (concat fs) + i * 4 + 4) (filter_block fs)))"
  shows "start \<le> limit" "limit \<le> length (concat fs)" "take (limit - start) (drop start (filter_block fs)) = fs ! i"
proof -
  have s: "start = length (concat (take i fs))" "limit = length (concat (take (Suc i) fs))"
    using filter_block_word [of i fs le] filter_block_word [of "Suc i" fs le] assms by (simp_all add: add_ac)
  have c: "concat fs = concat (take i fs) @ fs ! i @ concat (drop (Suc i) fs)"
    using assms(1) by (metis concat.simps(2) concat_append id_take_nth_drop)
  have t: "concat (take (Suc i) fs) = concat (take i fs) @ fs ! i" using assms(1) by (simp add: take_Suc_conv_app_nth)
  show "start \<le> limit" "limit \<le> length (concat fs)" unfolding s t by (simp_all add: c)
  show "take (limit - start) (drop start (filter_block fs)) = fs ! i" unfolding s t filter_block_def c by simp
qed

context filter_policy
begin

lemma generate_abs:
  assumes "fb_abs b fs pend" "GenerateFilter create b = Some b'"
  shows "\<exists>f. fb_abs b' (fs @ [f]) [] \<and> (\<forall>k\<in>set pend. may_match k f)"
proof (cases "pend = []")
  case True
  then show ?thesis using assms by (auto simp: GenerateFilter_def fb_abs_def starts_snoc starts_def intro!: exI [of _ "[]"])
next
  case False
  have f: "fb_keys b = concat pend" "fb_start b = starts pend" using assms(1) by (simp_all add: fb_abs_def)
  obtain result where r: "create pend (fb_result b) = Some result"
    "b' = \<lparr>fb_keys = [], fb_start = [], fb_result = result, fb_filter_offsets = fb_filter_offsets b @ [word_of_nat (length (fb_result b))]\<rparr>"
    using assms(2) False unfolding GenerateFilter_def Let_def f length_starts starts_slices by (auto simp: bind_eq_Some_conv)
  then show ?thesis using create_matches [OF r(1)] assms(1) by (auto simp: fb_abs_def starts_snoc) (auto simp: starts_def)
qed

lemma start_loop_abs:
  "StartBlock_loop create i b = Some b' \<Longrightarrow> fb_abs b fs pend \<Longrightarrow> length fs \<le> i \<Longrightarrow>
   \<exists>fs' pend'. fb_abs b' (fs @ fs') pend' \<and> length (fs @ fs') = i \<and>
     (fs' = [] \<and> pend' = pend \<or> pend' = [] \<and> fs' \<noteq> [] \<and> (\<forall>k\<in>set pend. may_match k (hd fs')))"
proof (induction "i - length fs" arbitrary: b fs pend)
  case 0
  then have "b' = b" by (auto simp: StartBlock_loop.simps [of create "length fs" b] fb_abs_def)
  with 0 show ?case by auto
next
  case (Suc n)
  have l: "length (fb_filter_offsets b) = length fs" using Suc.prems by (simp add: fb_abs_def)
  obtain b1 where b1: "GenerateFilter create b = Some b1" "StartBlock_loop create i b1 = Some b'"
    using Suc.prems(1) Suc.hyps(2) l by (auto simp: StartBlock_loop.simps [of create i b] bind_eq_Some_conv split: if_splits)
  obtain f where f: "fb_abs b1 (fs @ [f]) []" "\<forall>k\<in>set pend. may_match k f" using generate_abs [OF Suc.prems(2) b1(1)] by blast
  have n: "n = i - length (fs @ [f])" "length (fs @ [f]) \<le> i" using Suc.hyps(2) by auto
  obtain fs' pend' where "fb_abs b' (fs @ [f] @ fs') pend'" "length (fs @ [f] @ fs') = i" "pend' = []"
    using Suc.hyps(1) [OF n(1) b1(2) f(1) n(2)] by auto
  with f(2) show ?case by (intro exI [of _ "f # fs'"] exI [of _ pend']) simp
qed

lemma add_keys_abs: "fb_abs b fs pend \<Longrightarrow> fb_abs (foldl (\<lambda>b k. AddKey k b) b ks) fs (pend @ ks)"
proof (induction ks arbitrary: b pend)
  case (Cons k ks)
  have "fb_abs (AddKey k b) fs (pend @ [k])" using Cons.prems by (simp add: fb_abs_def AddKey_def starts_snoc)
  from Cons.IH [OF this] show ?case by simp
qed simp

text \<open>The keys of a block are in the filter of its offset, or they wait for it.\<close>

definition covered :: "byte list list \<Rightarrow> slice list \<Rightarrow> 64 word \<times> slice list \<Rightarrow> bool" where
  "covered fs pend block \<longleftrightarrow> (let i = unat (fst block div kFilterBase) in
     \<forall>k\<in>set (snd block). if i < length fs then may_match k (fs ! i) else i = length fs \<and> k \<in> set pend)"

lemma covered_start:
  assumes "covered fs pend block" "fs' = [] \<and> pend' = pend \<or> pend' = [] \<and> fs' \<noteq> [] \<and> (\<forall>k\<in>set pend. may_match k (hd fs'))"
  shows "covered (fs @ fs') (pend' @ ks) block"
  using assms by (auto simp: covered_def Let_def nth_append hd_conv_nth split: if_splits)

lemma build_abs:
  "build_filters create blocks b = Some b' \<Longrightarrow> fb_abs b fs pend \<Longrightarrow> \<forall>block\<in>set old. covered fs pend block \<Longrightarrow>
   \<exists>fs' pend'. fb_abs b' fs' pend' \<and> (\<forall>block\<in>set (old @ blocks). covered fs' pend' block)"
proof (induction blocks arbitrary: b fs pend old)
  case (Cons block blocks)
  define i where "i = unat (fst block div kFilterBase)"
  obtain b1 where b1: "StartBlock_loop create i b = Some b1" "length fs \<le> i"
    "build_filters create blocks (foldl (\<lambda>b k. AddKey k b) b1 (snd block)) = Some b'"
    using Cons.prems(1,2) by (auto simp: StartBlock_def Let_def i_def fb_abs_def bind_eq_Some_conv split: if_splits)
  obtain fs' pend' where n: "fb_abs b1 (fs @ fs') pend'" "length (fs @ fs') = i"
    "fs' = [] \<and> pend' = pend \<or> pend' = [] \<and> fs' \<noteq> [] \<and> (\<forall>k\<in>set pend. may_match k (hd fs'))"
    using start_loop_abs [OF b1(1) Cons.prems(2) b1(2)] by blast
  have "covered (fs @ fs') (pend' @ snd block) block" using n(2) by (simp add: covered_def i_def)
  moreover have "\<forall>blk\<in>set old. covered (fs @ fs') (pend' @ snd block) blk" using Cons.prems(3) covered_start [OF _ n(3)] by blast
  ultimately show ?case
    using Cons.IH [OF b1(3) add_keys_abs [OF n(1)], of "old @ [block]"] by auto
qed auto

lemma finish_abs:
  assumes "FilterBlock_Finish create le b = Some contents" "fb_abs b fs pend" "\<forall>block\<in>set blocks. covered fs pend block"
  shows "\<exists>fs'. contents = filter_block fs' \<and> (\<forall>block\<in>set blocks. covered fs' [] block)"
proof -
  obtain b1 where b1: "(if fb_start b \<noteq> [] then GenerateFilter create b else Some b) = Some b1"
    "contents = PutFixed32 le (foldl (PutFixed32 le) (fb_result b1) (fb_filter_offsets b1)) (word_of_nat (length (fb_result b1))) @ [11]"
    using assms(1) by (auto simp: FilterBlock_Finish_def Let_def bind_eq_Some_conv split: if_splits)
  obtain fs' where fs': "fb_abs b1 fs' []" "\<forall>block\<in>set blocks. covered fs' [] block"
  proof (cases "pend = []")
    case True
    then show thesis using that [of fs] b1(1) assms(2,3) by (simp add: fb_abs_def starts_def)
  next
    case False
    then have "GenerateFilter create b = Some b1" using b1(1) assms(2) by (auto simp: fb_abs_def starts_def split: if_splits)
    then obtain f where f: "fb_abs b1 (fs @ [f]) []" "\<forall>k\<in>set pend. may_match k f" using generate_abs [OF assms(2)] by blast
    have "covered (fs @ [f]) ([] @ []) block" if "covered fs pend block" for block
      by (rule covered_start [OF that]) (use f(2) in simp)
    then show thesis using that [OF f(1)] assms(3) by simp
  qed
  have "contents = filter_block fs'" using b1(2) fs'(1) by (simp add: filter_block_def put_fixed_list PutFixed32_def EncodeFixed_le fb_abs_def o_def)
  with fs'(2) show ?thesis by blast
qed

lemma filter_block_match:
  assumes "covered fs [] block" "k \<in> set (snd block)" "length (filter_block fs) < 2 ^ 32"
  shows "FilterBlock_KeyMayMatch may_match le (FilterBlockReader_init le (filter_block fs)) (fst block) k = Some True"
proof -
  define i where "i = unat (fst block div kFilterBase)"
  have i: "unat (drop_bit 11 (fst block)) = i" by (simp add: i_def kFilterBase_def drop_bit_eq_div push_bit_eq_mult)
  show ?thesis
  proof (cases "i < length fs")
    case True
    then show ?thesis
      using assms(1,2) filter_block_filter [OF True assms(3)] unfolding FilterBlock_KeyMayMatch_def filter_block_reader [OF assms(3)]
      by (simp add: i covered_def Let_def flip: i_def)
  next
    case False
    then show ?thesis unfolding FilterBlock_KeyMayMatch_def filter_block_reader [OF assms(3)] by (simp add: i)
  qed
qed

theorem no_false_negatives:
  assumes "build_filters create blocks FilterBlockBuilder_init = Some b" "FilterBlock_Finish create le b = Some contents"
    "length contents < 2 ^ 32" "block \<in> set blocks" "k \<in> set (snd block)"
  shows "FilterBlock_KeyMayMatch may_match le (FilterBlockReader_init le contents) (fst block) k = Some True"
proof -
  have "fb_abs FilterBlockBuilder_init [] []" by (simp add: fb_abs_def FilterBlockBuilder_init_def starts_def)
  from build_abs [OF assms(1) this, of "[]"] obtain fs pend where "fb_abs b fs pend" "\<forall>block\<in>set blocks. covered fs pend block"
    by auto
  from finish_abs [OF assms(2) this] obtain fs' where fs': "contents = filter_block fs'" "\<forall>block\<in>set blocks. covered fs' [] block"
    by blast
  from filter_block_match [of fs' block k le] fs' assms(3-5) show ?thesis by simp
qed

end

text \<open>
  C23: a filter block never hides a key. Whatever data blocks a table has, a key of a block may match the
  filter that the reader finds at the offset of the block, with the Bloom filter on user keys.
\<close>
theorem filter_no_false_negatives:
  assumes "build_filters (InternalFilterPolicy_CreateFilter (NewBloomFilterPolicy le n)) blocks FilterBlockBuilder_init = Some b"
    and "FilterBlock_Finish (InternalFilterPolicy_CreateFilter (NewBloomFilterPolicy le n)) le b = Some contents"
    and "length contents < 2 ^ 32" "block \<in> set blocks" "k \<in> set (snd block)"
  shows "FilterBlock_KeyMayMatch (InternalFilterPolicy_KeyMayMatch (Bloom_KeyMayMatch le)) le
    (FilterBlockReader_init le contents) (fst block) k = Some True"
  by (rule internal_bloom.no_false_negatives [OF assms])

lemma ex_create: "\<exists>r. NewBloomFilterPolicy True 1 [k] [] = Some r \<and> length r = 9"
  by (simp add: NewBloomFilterPolicy_def BloomFilterPolicy_init_def Bloom_CreateFilter_def Let_def)

lemma ex_filter:
  defines "create \<equiv> InternalFilterPolicy_CreateFilter (NewBloomFilterPolicy True 1)"
  obtains b contents where "build_filters create [(0, [[7, 1, 0, 0, 0, 0, 0, 0, 0]])] FilterBlockBuilder_init = Some b"
    "FilterBlock_Finish create True b = Some contents" "length contents < 2 ^ 32"
proof -
  obtain r where "create [[7, 1, 0, 0, 0, 0, 0, 0, 0]] [] = Some r" "length r = 9"
    using ex_create [of "ExtractUserKey [7, 1, 0, 0, 0, 0, 0, 0, 0]"] by (auto simp: create_def InternalFilterPolicy_CreateFilter_def)
  then show thesis
    using that by (simp add: StartBlock_def StartBlock_loop.simps FilterBlockBuilder_init_def AddKey_def
        FilterBlock_Finish_def GenerateFilter_def Let_def PutFixed32_def)
qed

theorem filter_no_false_negatives_witness:
  "\<exists>contents. FilterBlock_KeyMayMatch (InternalFilterPolicy_KeyMayMatch (Bloom_KeyMayMatch True)) True
    (FilterBlockReader_init True contents) 0 [7, 1, 0, 0, 0, 0, 0, 0, 0] = Some True"
proof -
  obtain b contents where
    c: "build_filters (InternalFilterPolicy_CreateFilter (NewBloomFilterPolicy True 1)) [(0, [[7, 1, 0, 0, 0, 0, 0, 0, 0]])]
      FilterBlockBuilder_init = Some b"
    "FilterBlock_Finish (InternalFilterPolicy_CreateFilter (NewBloomFilterPolicy True 1)) True b = Some contents"
    "length contents < 2 ^ 32"
    by (rule ex_filter)
  show ?thesis
    using filter_no_false_negatives [OF c, of "(0, [[7, 1, 0, 0, 0, 0, 0, 0, 0]])" "[7, 1, 0, 0, 0, 0, 0, 0, 0]"] by auto
qed

end
