(* ===== verification/LDB_Iterator.thy ===== *)
theory LDB_Iterator
  imports LDB_Slice LDB_Status "HOL-Library.Monad_Syntax"
begin

text \<open>
  The class \<^verbatim>\<open>Iterator\<close> of leveldb, \<^verbatim>\<open>include/leveldb/iterator.h\<close>, \<^verbatim>\<open>table/iterator.cc\<close> and
  \<^verbatim>\<open>table/iterator_wrapper.h\<close>. The virtual functions of a class are a record \<open>Iterator_vt\<close> of operations on
  the state of an iterator. The locale \<open>iterator_contract\<close> is what the comments of the class promise, relative to a
  list of entries; \<open>iterator_class\<close> is the same for a record of operations, with the status.
\<close>

subsection \<open>The operations of an iterator\<close>

record 'i Iterator_vt =
  vt_Valid :: "'i \<Rightarrow> bool"
  vt_key :: "'i \<Rightarrow> slice option"
  vt_value :: "'i \<Rightarrow> slice option"
  vt_Next :: "'i \<Rightarrow> 'i option"
  vt_Prev :: "'i \<Rightarrow> 'i option"
  vt_SeekToFirst :: "'i \<Rightarrow> 'i option"
  vt_SeekToLast :: "'i \<Rightarrow> 'i option"
  vt_Seek :: "slice \<Rightarrow> 'i \<Rightarrow> 'i option"
  vt_status :: "'i \<Rightarrow> Status option"

text \<open>
  The functions that an iterator calls when it is destroyed, in the order of the calls: the one
  in the object itself and those of the chain behind it.
\<close>

fun RegisterCleanup :: "'c \<Rightarrow> 'c list \<Rightarrow> 'c list" where
  "RegisterCleanup c [] = [c]"
| "RegisterCleanup c (first # chain) = first # c # chain"

subsection \<open>The wrapper that caches validity and key\<close>

record 'i IteratorWrapper =
  w_iter :: "'i option"
  w_valid :: bool
  w_key :: slice

definition IteratorWrapper_init :: "'i IteratorWrapper" where
  "IteratorWrapper_init = \<lparr>w_iter = None, w_valid = False, w_key = []\<rparr>"

definition Wrapper_Update :: "'i Iterator_vt \<Rightarrow> 'i IteratorWrapper \<Rightarrow> 'i IteratorWrapper option" where
  "Wrapper_Update vt w =
     do {
       it \<leftarrow> w_iter w;
       if vt_Valid vt it then do { k \<leftarrow> vt_key vt it; Some (w\<lparr>w_valid := True, w_key := k\<rparr>) }
       else Some (w\<lparr>w_valid := False\<rparr>)
     }"

definition Wrapper_Set :: "'i Iterator_vt \<Rightarrow> 'i option \<Rightarrow> 'i IteratorWrapper \<Rightarrow> 'i IteratorWrapper option" where
  "Wrapper_Set vt it w =
     (let w = w\<lparr>w_iter := it\<rparr> in case it of None \<Rightarrow> Some (w\<lparr>w_valid := False\<rparr>) | Some _ \<Rightarrow> Wrapper_Update vt w)"

definition Wrapper_key :: "'i IteratorWrapper \<Rightarrow> slice option" where
  "Wrapper_key w = (if w_valid w then Some (w_key w) else None)"

definition Wrapper_value :: "'i Iterator_vt \<Rightarrow> 'i IteratorWrapper \<Rightarrow> slice option" where
  "Wrapper_value vt w = (if w_valid w then w_iter w \<bind> vt_value vt else None)"

definition Wrapper_status :: "'i Iterator_vt \<Rightarrow> 'i IteratorWrapper \<Rightarrow> Status option" where
  "Wrapper_status vt w = w_iter w \<bind> vt_status vt"

text \<open>The five functions that move the iterator and then call \<^verbatim>\<open>Update\<close>.\<close>

definition Wrapper_move ::
    "'i Iterator_vt \<Rightarrow> ('i \<Rightarrow> 'i option) \<Rightarrow> 'i IteratorWrapper \<Rightarrow> 'i IteratorWrapper option" where
  "Wrapper_move vt move w =
     do { it \<leftarrow> w_iter w; it \<leftarrow> move it; Wrapper_Update vt (w\<lparr>w_iter := Some it\<rparr>) }"

definition Wrapper_Next :: "'i Iterator_vt \<Rightarrow> 'i IteratorWrapper \<Rightarrow> 'i IteratorWrapper option" where
  "Wrapper_Next vt = Wrapper_move vt (vt_Next vt)"

definition Wrapper_Prev :: "'i Iterator_vt \<Rightarrow> 'i IteratorWrapper \<Rightarrow> 'i IteratorWrapper option" where
  "Wrapper_Prev vt = Wrapper_move vt (vt_Prev vt)"

definition Wrapper_Seek :: "'i Iterator_vt \<Rightarrow> slice \<Rightarrow> 'i IteratorWrapper \<Rightarrow> 'i IteratorWrapper option" where
  "Wrapper_Seek vt k = Wrapper_move vt (vt_Seek vt k)"

definition Wrapper_SeekToFirst :: "'i Iterator_vt \<Rightarrow> 'i IteratorWrapper \<Rightarrow> 'i IteratorWrapper option" where
  "Wrapper_SeekToFirst vt = Wrapper_move vt (vt_SeekToFirst vt)"

definition Wrapper_SeekToLast :: "'i Iterator_vt \<Rightarrow> 'i IteratorWrapper \<Rightarrow> 'i IteratorWrapper option" where
  "Wrapper_SeekToLast vt = Wrapper_move vt (vt_SeekToLast vt)"

subsection \<open>Sorted entries\<close>

definition ascending :: "('k \<Rightarrow> 'k \<Rightarrow> int) \<Rightarrow> ('k \<times> 'v) list \<Rightarrow> bool" where
  "ascending compare es \<longleftrightarrow> sorted_wrt (\<lambda>a b. compare (fst a) (fst b) < 0) es"

text \<open>The first entry that is not below the target.\<close>

definition first_ge :: "('k \<Rightarrow> 'k \<Rightarrow> int) \<Rightarrow> ('k \<times> 'v) list \<Rightarrow> 'k \<Rightarrow> nat" where
  "first_ge compare es target = length (takeWhile (\<lambda>e. compare (fst e) target < 0) es)"

lemma first_ge_iff:
  "i \<le> length es \<Longrightarrow> \<forall>j<i. compare (fst (es ! j)) target < 0 \<Longrightarrow> i < length es \<longrightarrow> \<not> compare (fst (es ! i)) target < 0 \<Longrightarrow>
   first_ge compare es target = i"
proof (induction es arbitrary: i)
  case (Cons e es)
  show ?case
  proof (cases i)
    case 0
    then show ?thesis using Cons.prems(3) by (simp add: first_ge_def)
  next
    case (Suc j)
    have "compare (fst e) target < 0" using Cons.prems(2) Suc by auto
    moreover have "first_ge compare es target = j"
    proof (rule Cons.IH)
      show "\<forall>k<j. compare (fst (es ! k)) target < 0" using Cons.prems(2) Suc by (metis Suc_less_eq nth_Cons_Suc)
    qed (use Cons.prems Suc in auto)
    ultimately show ?thesis using Suc by (simp add: first_ge_def)
  qed
qed (simp add: first_ge_def)

context key_order
begin

lemma ascending_nth: "ascending compare es \<Longrightarrow> i < j \<Longrightarrow> j < length es \<Longrightarrow> compare (fst (es ! i)) (fst (es ! j)) < 0"
  by (simp add: ascending_def sorted_wrt_iff_nth_less)

lemma ascending_nth_le: "ascending compare es \<Longrightarrow> i \<le> j \<Longrightarrow> j < length es \<Longrightarrow> compare (fst (es ! i)) (fst (es ! j)) \<le> 0"
  using ascending_nth [of es i j] self by (cases "i = j") (auto simp: less_le)

lemma ascending_distinct: "ascending compare es \<Longrightarrow> distinct es"
  using ascending_nth [of es] self unfolding distinct_conv_nth by (metis less_irrefl nat_neq_iff)

text \<open>An entry from index \<open>j\<close>.\<close>

lemma drop_le: "ascending compare es \<Longrightarrow> e \<in> set (drop j es) \<Longrightarrow> compare (fst (es ! j)) (fst e) \<le> 0"
  using ascending_nth_le by (fastforce simp: in_set_conv_nth)

lemma drop_less: "ascending compare es \<Longrightarrow> e \<in> set (drop j es) \<Longrightarrow> e \<noteq> es ! j \<Longrightarrow> compare (fst (es ! j)) (fst e) < 0"
proof -
  assume "ascending compare es" "e \<in> set (drop j es)" "e \<noteq> es ! j"
  moreover from this obtain i where "i < length es - j" "e = es ! (j + i)" by (auto simp: in_set_conv_nth)
  ultimately show ?thesis using ascending_nth [of es j "j + i"] by (cases i) auto
qed

text \<open>In a sorted list, the entries below a target are those before the first one at or past it.\<close>

lemma first_ge_split:
  assumes "ascending compare es"
  shows "take (first_ge compare es t) es = filter (\<lambda>e. compare (fst e) t < 0) es"
    "drop (first_ge compare es t) es = filter (\<lambda>e. \<not> compare (fst e) t < 0) es"
proof -
  have "takeWhile (\<lambda>e. compare (fst e) t < 0) es = filter (\<lambda>e. compare (fst e) t < 0) es \<and>
      dropWhile (\<lambda>e. compare (fst e) t < 0) es = filter (\<lambda>e. \<not> compare (fst e) t < 0) es"
    using assms
  proof (induction es)
    case (Cons e es)
    have "\<not> compare (fst e) t < 0 \<Longrightarrow> x \<in> set es \<Longrightarrow> \<not> compare (fst x) t < 0" for x
      using Cons.prems less_trans [of "fst e" "fst x" t] by (auto simp: ascending_def)
    then show ?case using Cons by (auto simp: ascending_def filter_empty_conv [symmetric] filter_id_conv)
  qed simp
  then show "take (first_ge compare es t) es = filter (\<lambda>e. compare (fst e) t < 0) es"
    "drop (first_ge compare es t) es = filter (\<lambda>e. \<not> compare (fst e) t < 0) es"
    unfolding first_ge_def by (metis takeWhile_eq_take, metis dropWhile_eq_drop)
qed

lemma first_ge_le: "first_ge compare es t \<le> length es"
  by (simp add: first_ge_def length_takeWhile_le)

lemma first_ge_nth: "ascending compare es \<Longrightarrow> i < length es \<Longrightarrow> first_ge compare es (fst (es ! i)) = i"
  by (rule first_ge_iff) (auto simp: self intro: ascending_nth)

end

subsection \<open>What an iterator promises\<close>

text \<open>
  The class \<^verbatim>\<open>Iterator\<close> of \<^verbatim>\<open>include/leveldb/iterator.h\<close>, as its comments describe it. \<open>pos es it i\<close> says that
  the iterator is over the entries \<open>es\<close>, at entry \<open>i\<close>, or not valid if \<open>i\<close> is their number. \<open>seekable\<close> are the targets
  that \<^verbatim>\<open>Seek\<close> accepts: all of them for a block or table, those shorter than \<open>2 ^ 32\<close> bytes for a memtable.
\<close>

locale iterator_contract = key_order compare for compare :: "slice \<Rightarrow> slice \<Rightarrow> int" +
  fixes it_valid :: "'i \<Rightarrow> bool"
    and it_key it_value :: "'i \<Rightarrow> slice option"
    and it_next it_prev it_first it_last :: "'i \<Rightarrow> 'i option"
    and it_seek :: "slice \<Rightarrow> 'i \<Rightarrow> 'i option"
    and pos :: "(slice \<times> slice) list \<Rightarrow> 'i \<Rightarrow> nat \<Rightarrow> bool"
    and seekable :: "slice \<Rightarrow> bool"
  assumes pos_valid: "pos es it i \<Longrightarrow> it_valid it \<longleftrightarrow> i < length es"
    and pos_le: "pos es it i \<Longrightarrow> i \<le> length es"
    and pos_ascending: "pos es it i \<Longrightarrow> ascending compare es"
    and pos_key: "pos es it i \<Longrightarrow> i < length es \<Longrightarrow> it_key it = Some (fst (es ! i))"
    and pos_value: "pos es it i \<Longrightarrow> i < length es \<Longrightarrow> it_value it = Some (snd (es ! i))"
    and pos_next: "pos es it i \<Longrightarrow> i < length es \<Longrightarrow> \<exists>it'. it_next it = Some it' \<and> pos es it' (Suc i)"
    and pos_prev: "pos es it i \<Longrightarrow> i < length es \<Longrightarrow> \<exists>it'. it_prev it = Some it' \<and> pos es it' (if i = 0 then length es else i - 1)"
    and pos_first: "pos es it i \<Longrightarrow> \<exists>it'. it_first it = Some it' \<and> pos es it' 0"
    and pos_last: "pos es it i \<Longrightarrow> \<exists>it'. it_last it = Some it' \<and> pos es it' (length es - 1)"
    and pos_seekable: "pos es it i \<Longrightarrow> e \<in> set es \<Longrightarrow> seekable (fst e)"
    and pos_seek: "pos es it i \<Longrightarrow> seekable target \<Longrightarrow> \<exists>it'. it_seek target it = Some it' \<and> pos es it' (first_ge compare es target)"

text \<open>The position one before \<open>q\<close>, which is not valid, \<open>n\<close>, in front of the first entry.\<close>

definition one_before :: "nat \<Rightarrow> nat \<Rightarrow> nat" where
  "one_before q n = (if q = 0 then n else q - 1)"

lemma first_ge_append:
  "first_ge compare (xs @ ys) t =
     (if \<forall>e \<in> set xs. compare (fst e) t < 0 then length xs + first_ge compare ys t else first_ge compare xs t)"
  by (induction xs) (auto simp: first_ge_def)

text \<open>A client: it collects at most \<open>n\<close> entries with a step function.\<close>

primrec collect ::
    "('i \<Rightarrow> bool) \<Rightarrow> ('i \<Rightarrow> slice option) \<Rightarrow> ('i \<Rightarrow> slice option) \<Rightarrow> ('i \<Rightarrow> 'i option) \<Rightarrow> nat \<Rightarrow> 'i \<Rightarrow> (slice \<times> slice) list option" where
  "collect valid key value step 0 it = (if valid it then None else Some [])"
| "collect valid key value step (Suc n) it =
     (if valid it then
        do { k \<leftarrow> key it; v \<leftarrow> value it; it \<leftarrow> step it; rest \<leftarrow> collect valid key value step n it; Some ((k, v) # rest) }
      else Some [])"

context iterator_contract
begin

lemma collect_forward:
  "pos es it i \<Longrightarrow> length es - i \<le> n \<Longrightarrow> collect it_valid it_key it_value it_next n it = Some (drop i es)"
proof (induction n arbitrary: it i)
  case 0
  then show ?case using pos_valid [OF 0(1)] by simp
next
  case (Suc n)
  show ?case
  proof (cases "i < length es")
    case True
    then obtain it' where "it_next it = Some it'" "pos es it' (Suc i)" using pos_next [OF Suc.prems(1)] by blast
    with True show ?thesis
      using Suc.IH [of it' "Suc i"] Suc.prems(2) pos_valid [OF Suc.prems(1)] pos_key [OF Suc.prems(1)] pos_value [OF Suc.prems(1)]
      by (simp add: Cons_nth_drop_Suc)
  next
    case False
    then show ?thesis using pos_valid [OF Suc.prems(1)] by simp
  qed
qed

lemma collect_backward:
  "pos es it i \<Longrightarrow> i < length es \<Longrightarrow> i < n \<Longrightarrow> collect it_valid it_key it_value it_prev n it = Some (rev (take (Suc i) es))"
proof (induction n arbitrary: it i)
  case (Suc n)
  obtain it' where it': "it_prev it = Some it'" "pos es it' (if i = 0 then length es else i - 1)" using pos_prev [OF Suc.prems(1,2)] by blast
  have "collect it_valid it_key it_value it_prev n it' = Some (rev (take i es))"
  proof (cases "i = 0")
    case True
    then show ?thesis using it'(2) pos_valid [of es it' "length es"] by (cases n) simp_all
  next
    case False
    then show ?thesis using Suc.IH [of it' "i - 1"] it'(2) Suc.prems(2,3) by simp
  qed
  then show ?case
    using it'(1) pos_valid [OF Suc.prems(1)] pos_key [OF Suc.prems(1)] pos_value [OF Suc.prems(1)] Suc.prems(2)
    by (simp add: take_Suc_conv_app_nth)
qed simp

end


subsection \<open>The contract of a class\<close>

locale iterator_class =
  iterator_contract compare "vt_Valid vt" "vt_key vt" "vt_value vt" "vt_Next vt" "vt_Prev vt" "vt_SeekToFirst vt"
    "vt_SeekToLast vt" "vt_Seek vt" pos seekable
  for compare :: "slice \<Rightarrow> slice \<Rightarrow> int" and vt :: "'i Iterator_vt" and pos :: "(slice \<times> slice) list \<Rightarrow> 'i \<Rightarrow> nat \<Rightarrow> bool"
    and seekable :: "slice \<Rightarrow> bool" +
  assumes pos_status: "pos es it i \<Longrightarrow> vt_status vt it = Some Status_OK"

text \<open>A wrapper at a position: it has an iterator there and its cache is up to date.\<close>

definition wrapper_pos ::
    "((slice \<times> slice) list \<Rightarrow> 'i \<Rightarrow> nat \<Rightarrow> bool) \<Rightarrow> (slice \<times> slice) list \<Rightarrow> 'i IteratorWrapper \<Rightarrow> nat \<Rightarrow> bool" where
  "wrapper_pos pos es w i \<longleftrightarrow> (\<exists>it. w_iter w = Some it \<and> pos es it i) \<and> (w_valid w \<longleftrightarrow> i < length es) \<and>
     (i < length es \<longrightarrow> w_key w = fst (es ! i))"

text \<open>
  A client that makes any sequence of calls and looks at the entry after each; and the same on a list of entries
  with an index, where \<^verbatim>\<open>Next\<close> and \<^verbatim>\<open>Prev\<close> require a valid position.
\<close>

datatype iter_call = CallFirst | CallLast | CallSeek slice | CallNext | CallPrev

primrec call_iter :: "'i Iterator_vt \<Rightarrow> iter_call \<Rightarrow> 'i \<Rightarrow> 'i option" where
  "call_iter vt CallFirst = vt_SeekToFirst vt"
| "call_iter vt CallLast = vt_SeekToLast vt"
| "call_iter vt (CallSeek target) = vt_Seek vt target"
| "call_iter vt CallNext = vt_Next vt"
| "call_iter vt CallPrev = vt_Prev vt"

primrec call_list :: "(slice \<Rightarrow> slice \<Rightarrow> int) \<Rightarrow> (slice \<times> slice) list \<Rightarrow> iter_call \<Rightarrow> nat \<Rightarrow> nat option" where
  "call_list compare es CallFirst i = Some 0"
| "call_list compare es CallLast i = Some (length es - 1)"
| "call_list compare es (CallSeek target) i = Some (first_ge compare es target)"
| "call_list compare es CallNext i = (if i < length es then Some (Suc i) else None)"
| "call_list compare es CallPrev i = (if i < length es then Some (if i = 0 then length es else i - 1) else None)"

definition entry_iter :: "'i Iterator_vt \<Rightarrow> 'i \<Rightarrow> (slice \<times> slice) option option" where
  "entry_iter vt it =
     (if vt_Valid vt it then do { k \<leftarrow> vt_key vt it; v \<leftarrow> vt_value vt it; Some (Some (k, v)) } else Some None)"

primrec run_iter :: "'i Iterator_vt \<Rightarrow> iter_call list \<Rightarrow> 'i \<Rightarrow> (slice \<times> slice) option list option" where
  "run_iter vt [] it = Some []"
| "run_iter vt (c # cs) it =
     do { it \<leftarrow> call_iter vt c it; e \<leftarrow> entry_iter vt it; rest \<leftarrow> run_iter vt cs it; Some (e # rest) }"

primrec run_list ::
    "(slice \<Rightarrow> slice \<Rightarrow> int) \<Rightarrow> (slice \<times> slice) list \<Rightarrow> iter_call list \<Rightarrow> nat \<Rightarrow> (slice \<times> slice) option list option" where
  "run_list compare es [] i = Some []"
| "run_list compare es (c # cs) i =
     do { i \<leftarrow> call_list compare es c i; rest \<leftarrow> run_list compare es cs i;
          Some ((if i < length es then Some (es ! i) else None) # rest) }"

definition seeks_ok :: "(slice \<Rightarrow> bool) \<Rightarrow> iter_call list \<Rightarrow> bool" where
  "seeks_ok seekable calls \<longleftrightarrow> (\<forall>target. CallSeek target \<in> set calls \<longrightarrow> seekable target)"

lemma seeks_ok_any [simp]: "seeks_ok (\<lambda>_. True) calls"
  by (simp add: seeks_ok_def)

lemma seeks_ok_Cons: "seeks_ok seekable (c # cs) \<longleftrightarrow> seeks_ok seekable [c] \<and> seeks_ok seekable cs"
  by (auto simp: seeks_ok_def)

context iterator_class
begin

lemma call_pos: "pos es it i \<Longrightarrow> seeks_ok seekable [c] \<Longrightarrow> call_list compare es c i = Some j \<Longrightarrow> \<exists>it'. call_iter vt c it = Some it' \<and> pos es it' j"
  using pos_first [of es it i] pos_last [of es it i] pos_seek [of es it i] pos_next [of es it i] pos_prev [of es it i]
  by (cases c) (auto simp: seeks_ok_def split: if_splits)

lemma entry_pos: "pos es it i \<Longrightarrow> entry_iter vt it = Some (if i < length es then Some (es ! i) else None)"
  using pos_valid [of es it i] pos_key [of es it i] pos_value [of es it i] by (simp add: entry_iter_def)

lemma run_pos: "pos es it i \<Longrightarrow> run_list compare es cs i = Some obs \<Longrightarrow> seeks_ok seekable cs \<Longrightarrow> run_iter vt cs it = Some obs"
proof (induction cs arbitrary: it i obs)
  case (Cons c cs)
  from Cons.prems(2) obtain j rest where j: "call_list compare es c i = Some j" "run_list compare es cs j = Some rest"
      "obs = (if j < length es then Some (es ! j) else None) # rest"
    by (auto simp: bind_eq_Some_conv)
  obtain it' where it': "call_iter vt c it = Some it'" "pos es it' j"
    using call_pos [OF Cons.prems(1) _ j(1)] Cons.prems(3) seeks_ok_Cons by blast
  then show ?case using Cons.IH [OF it'(2) j(2)] Cons.prems(3) seeks_ok_Cons [of seekable c cs] entry_pos [OF it'(2)] j(3) by simp
qed simp

lemma wrapper_update:
  "w_iter w = Some it \<Longrightarrow> pos es it i \<Longrightarrow> \<exists>w'. Wrapper_Update vt w = Some w' \<and> wrapper_pos pos es w' i"
  using pos_valid [of es it i] pos_key [of es it i] by (auto simp: Wrapper_Update_def wrapper_pos_def)

lemma wrapper_set: "pos es it i \<Longrightarrow> \<exists>w'. Wrapper_Set vt (Some it) w = Some w' \<and> wrapper_pos pos es w' i"
  by (auto simp: Wrapper_Set_def intro: wrapper_update)

lemma wrapper_move:
  assumes "wrapper_pos pos es w i" "\<And>it. pos es it i \<Longrightarrow> \<exists>it'. move it = Some it' \<and> pos es it' j"
  shows "\<exists>w'. Wrapper_move vt move w = Some w' \<and> wrapper_pos pos es w' j"
proof -
  obtain it it' where "w_iter w = Some it" "move it = Some it'" "pos es it' j"
    using assms unfolding wrapper_pos_def by blast
  then show ?thesis using wrapper_update [of "w\<lparr>w_iter := Some it'\<rparr>" it' es j] by (simp add: Wrapper_move_def)
qed

lemma wrapper_ops:
  assumes "wrapper_pos pos es w i"
  shows "w_valid w \<longleftrightarrow> i < length es" "i \<le> length es" "ascending compare es"
    "i < length es \<Longrightarrow> Wrapper_key w = Some (fst (es ! i))" "i < length es \<Longrightarrow> w_key w = fst (es ! i)"
    "i < length es \<Longrightarrow> Wrapper_value vt w = Some (snd (es ! i))"
    "Wrapper_status vt w = Some Status_OK"
    "i < length es \<Longrightarrow> \<exists>w'. Wrapper_Next vt w = Some w' \<and> wrapper_pos pos es w' (Suc i)"
    "i < length es \<Longrightarrow> \<exists>w'. Wrapper_Prev vt w = Some w' \<and> wrapper_pos pos es w' (if i = 0 then length es else i - 1)"
    "\<exists>w'. Wrapper_SeekToFirst vt w = Some w' \<and> wrapper_pos pos es w' 0"
    "\<exists>w'. Wrapper_SeekToLast vt w = Some w' \<and> wrapper_pos pos es w' (length es - 1)"
    "seekable target \<Longrightarrow> \<exists>w'. Wrapper_Seek vt target w = Some w' \<and> wrapper_pos pos es w' (first_ge compare es target)"
    "i < length es \<Longrightarrow> seekable (fst (es ! i))"
proof -
  obtain it where it: "w_iter w = Some it" "pos es it i" using assms by (auto simp: wrapper_pos_def)
  show "w_valid w \<longleftrightarrow> i < length es" "i < length es \<Longrightarrow> Wrapper_key w = Some (fst (es ! i))" "i < length es \<Longrightarrow> w_key w = fst (es ! i)"
    using assms by (auto simp: wrapper_pos_def Wrapper_key_def)
  show "i \<le> length es" "ascending compare es" using pos_le [OF it(2)] pos_ascending [OF it(2)] by simp_all
  show "i < length es \<Longrightarrow> Wrapper_value vt w = Some (snd (es ! i))" "Wrapper_status vt w = Some Status_OK"
    using it assms pos_value [OF it(2)] pos_status [OF it(2)] by (auto simp: Wrapper_value_def Wrapper_status_def wrapper_pos_def)
  show "i < length es \<Longrightarrow> \<exists>w'. Wrapper_Next vt w = Some w' \<and> wrapper_pos pos es w' (Suc i)"
    unfolding Wrapper_Next_def by (rule wrapper_move [OF assms pos_next])
  show "i < length es \<Longrightarrow> \<exists>w'. Wrapper_Prev vt w = Some w' \<and> wrapper_pos pos es w' (if i = 0 then length es else i - 1)"
    unfolding Wrapper_Prev_def by (rule wrapper_move [OF assms pos_prev])
  show "\<exists>w'. Wrapper_SeekToFirst vt w = Some w' \<and> wrapper_pos pos es w' 0"
    unfolding Wrapper_SeekToFirst_def by (rule wrapper_move [OF assms pos_first])
  show "\<exists>w'. Wrapper_SeekToLast vt w = Some w' \<and> wrapper_pos pos es w' (length es - 1)"
    unfolding Wrapper_SeekToLast_def by (rule wrapper_move [OF assms pos_last])
  show "i < length es \<Longrightarrow> seekable (fst (es ! i))" using pos_seekable [OF it(2)] by simp
  show "seekable target \<Longrightarrow> \<exists>w'. Wrapper_Seek vt target w = Some w' \<and> wrapper_pos pos es w' (first_ge compare es target)"
    unfolding Wrapper_Seek_def by (rule wrapper_move [OF assms pos_seek])
qed

end

end
