(* ===== verification/LDB_Block.thy ===== *)
theory LDB_Block
  imports LDB_Coding LDB_Iterator
begin

text \<open>
  The blocks of a table, \<^verbatim>\<open>table/block_builder.cc\<close> and \<^verbatim>\<open>table/block.cc\<close>. A block is a list of entries whose
  keys are compressed against the key before, except at the restart points, with an array of the
  restart points behind them. The builder and the iterator are records; an operation is \<open>None\<close> where
  an assertion fails or a byte outside the block is read, and where a loop does not end.

  Offsets are the 32-bit numbers of the code. The value of an iterator is the place of its bytes in the
  block, or \<open>None\<close> for a slice that does not point into it.
\<close>

subsection \<open>The builder\<close>

record BlockBuilder =
  bb_buffer :: "byte list"
  bb_restarts :: "32 word list"
  bb_counter :: nat
  bb_finished :: bool
  bb_last_key :: "byte list"

definition BlockBuilder_init :: "nat \<Rightarrow> BlockBuilder option" where
  "BlockBuilder_init block_restart_interval =
     (if block_restart_interval \<ge> 1
      then Some \<lparr>bb_buffer = [], bb_restarts = [0], bb_counter = 0, bb_finished = False, bb_last_key = []\<rparr> else None)"

definition BlockBuilder_Reset :: "BlockBuilder \<Rightarrow> BlockBuilder" where
  "BlockBuilder_Reset b =
     b\<lparr>bb_buffer := [], bb_restarts := [0], bb_counter := 0, bb_finished := False, bb_last_key := []\<rparr>"

definition CurrentSizeEstimate :: "BlockBuilder \<Rightarrow> nat" where
  "CurrentSizeEstimate b = length (bb_buffer b) + length (bb_restarts b) * 4 + 4"

definition BlockBuilder_empty :: "BlockBuilder \<Rightarrow> bool" where "BlockBuilder_empty b \<longleftrightarrow> bb_buffer b = []"

definition BlockBuilder_Finish :: "bool \<Rightarrow> BlockBuilder \<Rightarrow> slice \<times> BlockBuilder" where
  "BlockBuilder_Finish le b =
     (let buffer = foldl (PutFixed32 le) (bb_buffer b) (bb_restarts b);
          buffer = PutFixed32 le buffer (word_of_nat (length (bb_restarts b)))
      in (buffer, b\<lparr>bb_buffer := buffer, bb_finished := True\<rparr>))"

text \<open>The loop that counts the bytes that two keys share.\<close>

fun shared_length :: "byte list \<Rightarrow> byte list \<Rightarrow> nat" where
  "shared_length (a # as) (b # bs) = (if a = b then Suc (shared_length as bs) else 0)"
| "shared_length as bs = 0"

definition BlockBuilder_Add ::
    "(slice \<Rightarrow> slice \<Rightarrow> int) \<Rightarrow> nat \<Rightarrow> slice \<Rightarrow> slice \<Rightarrow> BlockBuilder \<Rightarrow> BlockBuilder option" where
  "BlockBuilder_Add compare block_restart_interval k v b =
     (if \<not> bb_finished b \<and> bb_counter b \<le> block_restart_interval \<and> (bb_buffer b = [] \<or> compare k (bb_last_key b) > 0) then
        let (shared, restarts, counter) =
              (if bb_counter b < block_restart_interval then (shared_length (bb_last_key b) k, bb_restarts b, bb_counter b)
               else (0, bb_restarts b @ [word_of_nat (length (bb_buffer b))], 0));
            non_shared = length k - shared;
            buffer = PutVarint32 (bb_buffer b) (word_of_nat shared);
            buffer = PutVarint32 buffer (word_of_nat non_shared);
            buffer = PutVarint32 buffer (word_of_nat (length v));
            buffer = buffer @ drop shared k;
            buffer = buffer @ v;
            last_key = take shared (bb_last_key b) @ drop shared k
        in if Slice_eq last_key k
           then Some (b\<lparr>bb_buffer := buffer, bb_restarts := restarts, bb_counter := counter + 1, bb_last_key := last_key\<rparr>)
           else None
      else None)"

subsection \<open>Blocks\<close>

record Block =
  b_data :: "byte list"
  b_size :: nat
  b_restart_offset :: "32 word"

definition NumRestarts :: "bool \<Rightarrow> byte list \<Rightarrow> nat \<Rightarrow> 32 word" where
  "NumRestarts le data sz = DecodeFixed32 le (drop (sz - 4) data)"

definition Block_init :: "bool \<Rightarrow> slice \<Rightarrow> Block" where
  "Block_init le contents =
     (let sz = length contents in
      if sz < 4 then \<lparr>b_data = contents, b_size = 0, b_restart_offset = 0\<rparr>
      else
        let max_restarts_allowed = (sz - 4) div 4 in
        if unat (NumRestarts le contents sz) > max_restarts_allowed
        then \<lparr>b_data = contents, b_size = 0, b_restart_offset = 0\<rparr>
        else \<lparr>b_data = contents, b_size = sz,
              b_restart_offset = word_of_nat (sz - (1 + unat (NumRestarts le contents sz)) * 4)\<rparr>)"

text \<open>The three numbers and the place of the key delta, for an entry between two offsets.\<close>

definition DecodeEntry :: "byte list \<Rightarrow> nat \<Rightarrow> nat \<Rightarrow> (nat \<times> 32 word \<times> 32 word \<times> 32 word) option" where
  "DecodeEntry data p limit =
     (if limit < p + 3 then None
      else
        let range = take (limit - p) (drop p data);
            shared :: 32 word = ucast (range ! 0);
            non_shared :: 32 word = ucast (range ! 1);
            value_length :: 32 word = ucast (range ! 2)
        in do {
          (p, shared, non_shared, value_length) \<leftarrow>
            (if (shared OR non_shared OR value_length) < 128 then Some (p + 3, shared, non_shared, value_length)
             else do {
               (shared, n1) \<leftarrow> GetVarint32Ptr range;
               (non_shared, n2) \<leftarrow> GetVarint32Ptr (drop n1 range);
               (value_length, n3) \<leftarrow> GetVarint32Ptr (drop (n1 + n2) range);
               Some (p + n1 + n2 + n3, shared, non_shared, value_length)
             });
          if (word_of_nat (limit - p) :: 32 word) < non_shared + value_length then None
          else Some (p, shared, non_shared, value_length)
        })"

subsection \<open>The iterator\<close>

record BlockIter =
  bi_data :: "byte list"
  bi_restarts :: "32 word"
  bi_num_restarts :: "32 word"
  bi_current :: "32 word"
  bi_restart_index :: "32 word"
  bi_key :: "byte list"
  bi_value :: "(nat \<times> nat) option"
  bi_status :: Status

definition BlockIter_init :: "byte list \<Rightarrow> 32 word \<Rightarrow> 32 word \<Rightarrow> BlockIter option" where
  "BlockIter_init data restarts num_restarts =
     (if num_restarts > 0
      then Some \<lparr>bi_data = data, bi_restarts = restarts, bi_num_restarts = num_restarts, bi_current = restarts,
                 bi_restart_index = num_restarts, bi_key = [], bi_value = None, bi_status = Status_OK\<rparr>
      else None)"

definition NextEntryOffset :: "BlockIter \<Rightarrow> 32 word option" where
  "NextEntryOffset it = map_option (\<lambda>(start, len). word_of_nat (start + len)) (bi_value it)"

definition GetRestartPoint :: "bool \<Rightarrow> BlockIter \<Rightarrow> 32 word \<Rightarrow> 32 word option" where
  "GetRestartPoint le it index =
     (if index < bi_num_restarts it
      then Some (DecodeFixed32 le (drop (unat (bi_restarts it) + unat index * 4) (bi_data it))) else None)"

definition SeekToRestartPoint :: "bool \<Rightarrow> 32 word \<Rightarrow> BlockIter \<Rightarrow> BlockIter option" where
  "SeekToRestartPoint le index it =
     do { offset \<leftarrow> GetRestartPoint le it index;
          Some (it\<lparr>bi_key := [], bi_restart_index := index, bi_value := Some (unat offset, 0)\<rparr>) }"

definition BlockIter_Valid :: "BlockIter \<Rightarrow> bool" where "BlockIter_Valid it \<longleftrightarrow> bi_current it < bi_restarts it"

definition BlockIter_key :: "BlockIter \<Rightarrow> slice option" where
  "BlockIter_key it = (if BlockIter_Valid it then Some (bi_key it) else None)"

text \<open>The bytes of the value, if they lie in the block.\<close>

definition BlockIter_value :: "BlockIter \<Rightarrow> slice option" where
  "BlockIter_value it =
     (if BlockIter_Valid it then
        case bi_value it of None \<Rightarrow> Some []
        | Some (start, len) \<Rightarrow> if start + len \<le> length (bi_data it) then Some (take len (drop start (bi_data it))) else None
      else None)"

definition CorruptionError :: "BlockIter \<Rightarrow> BlockIter option" where
  "CorruptionError it =
     do { s \<leftarrow> Status_Corruption (str ''bad entry in block'') [];
          Some (it\<lparr>bi_current := bi_restarts it, bi_restart_index := bi_num_restarts it, bi_status := s,
                   bi_key := [], bi_value := None\<rparr>) }"

function advance_restart :: "bool \<Rightarrow> BlockIter \<Rightarrow> BlockIter" where
  "advance_restart le it =
     (if bi_restart_index it + 1 < bi_num_restarts it \<and>
         (case GetRestartPoint le it (bi_restart_index it + 1) of None \<Rightarrow> False | Some p \<Rightarrow> p < bi_current it)
      then advance_restart le (it\<lparr>bi_restart_index := bi_restart_index it + 1\<rparr>) else it)"
  by pat_completeness auto
termination
proof (relation "measure (\<lambda>(le, it). unat (bi_num_restarts it - (bi_restart_index it + 1)))", goal_cases)
  case (2 le it)
  then have "1 \<le> bi_num_restarts it - (bi_restart_index it + 1)" by (metis eq_iff_diff_eq_0 less_irrefl word_one_le)
  then have "unat (bi_num_restarts it - (bi_restart_index it + 1) - 1) < unat (bi_num_restarts it - (bi_restart_index it + 1))"
    by (intro unat_sub_less) simp_all
  then show ?case by (simp add: algebra_simps)
qed simp

declare advance_restart.simps [simp del]

definition ParseNextKey :: "bool \<Rightarrow> BlockIter \<Rightarrow> (bool \<times> BlockIter) option" where
  "ParseNextKey le it =
     do {
       current \<leftarrow> NextEntryOffset it;
       let it = it\<lparr>bi_current := current\<rparr> in
       if current \<ge> bi_restarts it then
         Some (False, it\<lparr>bi_current := bi_restarts it, bi_restart_index := bi_num_restarts it\<rparr>)
       else
         case DecodeEntry (bi_data it) (unat current) (unat (bi_restarts it)) of
           None \<Rightarrow> map_option (Pair False) (CorruptionError it)
         | Some (p, shared, non_shared, value_length) \<Rightarrow>
             if length (bi_key it) < unat shared then map_option (Pair False) (CorruptionError it)
             else if length (bi_data it) < p + unat non_shared then None
             else
               let it = it\<lparr>bi_key := take (unat shared) (bi_key it) @ take (unat non_shared) (drop p (bi_data it)),
                           bi_value := Some (p + unat non_shared, unat value_length)\<rparr>
               in Some (True, advance_restart le it)
     }"

definition BlockIter_Next :: "bool \<Rightarrow> BlockIter \<Rightarrow> BlockIter option" where
  "BlockIter_Next le it = (if BlockIter_Valid it then map_option snd (ParseNextKey le it) else None)"

text \<open>The two loops of \<^verbatim>\<open>Prev\<close>: back to a restart point before the entry, or to none; then forward.\<close>

function back_restart :: "bool \<Rightarrow> 32 word \<Rightarrow> BlockIter \<Rightarrow> (bool \<times> BlockIter) option" where
  "back_restart le original it =
     do {
       p \<leftarrow> GetRestartPoint le it (bi_restart_index it);
       if p \<ge> original then
         if bi_restart_index it = 0 then
           Some (False, it\<lparr>bi_current := bi_restarts it, bi_restart_index := bi_num_restarts it\<rparr>)
         else back_restart le original (it\<lparr>bi_restart_index := bi_restart_index it - 1\<rparr>)
       else Some (True, it)
     }"
  by pat_completeness auto
termination
  by (relation "measure (\<lambda>(le, original, it). unat (bi_restart_index it))") (auto intro!: unat_sub_less simp: word_one_le)

declare back_restart.simps [simp del]

partial_function (option) parse_until :: "bool \<Rightarrow> 32 word \<Rightarrow> BlockIter \<Rightarrow> BlockIter option" where
  [code]: "parse_until le limit it =
     do {
       (ok, it) \<leftarrow> ParseNextKey le it;
       if ok then do { offset \<leftarrow> NextEntryOffset it; if offset < limit then parse_until le limit it else Some it }
       else Some it
     }"

definition BlockIter_Prev :: "bool \<Rightarrow> BlockIter \<Rightarrow> BlockIter option" where
  "BlockIter_Prev le it =
     (if BlockIter_Valid it then
        do {
          let original = bi_current it;
          (found, it) \<leftarrow> back_restart le original it;
          if found then do { it \<leftarrow> SeekToRestartPoint le (bi_restart_index it) it; parse_until le original it } else Some it
        }
      else None)"

text \<open>\<^verbatim>\<open>Seek\<close>: the binary search over the restart points, or \<open>Inl\<close> where it finds a bad entry; then the scan.\<close>

partial_function (option) search_restarts ::
    "(slice \<Rightarrow> slice \<Rightarrow> int) \<Rightarrow> bool \<Rightarrow> slice \<Rightarrow> BlockIter \<Rightarrow> 32 word \<Rightarrow> 32 word \<Rightarrow> (unit + 32 word) option" where
  [code]: "search_restarts compare le target it left right =
     (if left < right then
        let mid = (left + right + 1) div 2 in
        do {
          region_offset \<leftarrow> GetRestartPoint le it mid;
          case DecodeEntry (bi_data it) (unat region_offset) (unat (bi_restarts it)) of
            None \<Rightarrow> Some (Inl ())
          | Some (key_ptr, shared, non_shared, value_length) \<Rightarrow>
              if shared \<noteq> 0 then Some (Inl ())
              else if length (bi_data it) < key_ptr + unat non_shared then None
              else if compare (take (unat non_shared) (drop key_ptr (bi_data it))) target < 0
              then search_restarts compare le target it mid right
              else search_restarts compare le target it left (mid - 1)
        }
      else Some (Inr left))"

partial_function (option) seek_scan ::
    "(slice \<Rightarrow> slice \<Rightarrow> int) \<Rightarrow> bool \<Rightarrow> slice \<Rightarrow> BlockIter \<Rightarrow> BlockIter option" where
  [code]: "seek_scan compare le target it =
     do {
       (ok, it) \<leftarrow> ParseNextKey le it;
       if \<not> ok then Some it else if compare (bi_key it) target \<ge> 0 then Some it else seek_scan compare le target it
     }"

definition BlockIter_Seek ::
    "(slice \<Rightarrow> slice \<Rightarrow> int) \<Rightarrow> bool \<Rightarrow> slice \<Rightarrow> BlockIter \<Rightarrow> BlockIter option" where
  "BlockIter_Seek compare le target it =
     do {
       found \<leftarrow> search_restarts compare le target it 0 (bi_num_restarts it - 1);
       case found of Inl _ \<Rightarrow> CorruptionError it
       | Inr left \<Rightarrow> do { it \<leftarrow> SeekToRestartPoint le left it; seek_scan compare le target it }
     }"

definition BlockIter_SeekToFirst :: "bool \<Rightarrow> BlockIter \<Rightarrow> BlockIter option" where
  "BlockIter_SeekToFirst le it = do { it \<leftarrow> SeekToRestartPoint le 0 it; map_option snd (ParseNextKey le it) }"

definition BlockIter_SeekToLast :: "bool \<Rightarrow> BlockIter \<Rightarrow> BlockIter option" where
  "BlockIter_SeekToLast le it =
     do { it \<leftarrow> SeekToRestartPoint le (bi_num_restarts it - 1) it; parse_until le (bi_restarts it) it }"

text \<open>The iterators without entries, and the iterator of a block.\<close>

datatype TableIterator = EmptyIterator Status | BlockIterator BlockIter

definition Block_NewIterator :: "bool \<Rightarrow> Block \<Rightarrow> TableIterator option" where
  "Block_NewIterator le b =
     (if b_size b < 4 then map_option EmptyIterator (Status_Corruption (str ''bad block contents'') [])
      else
        let num_restarts = NumRestarts le (b_data b) (b_size b) in
        if num_restarts = 0 then Some (EmptyIterator Status_OK)
        else map_option BlockIterator (BlockIter_init (b_data b) (b_restart_offset b) num_restarts))"

text \<open>The virtual functions of the two classes. Those of \<^verbatim>\<open>EmptyIterator\<close> fail an assertion, except the seeks.\<close>

definition TableIterator_vt :: "(slice \<Rightarrow> slice \<Rightarrow> int) \<Rightarrow> bool \<Rightarrow> TableIterator Iterator_vt" where
  "TableIterator_vt compare le =
     \<lparr>vt_Valid = (\<lambda>t. case t of EmptyIterator s \<Rightarrow> False | BlockIterator it \<Rightarrow> BlockIter_Valid it),
      vt_key = (\<lambda>t. case t of EmptyIterator s \<Rightarrow> None | BlockIterator it \<Rightarrow> BlockIter_key it),
      vt_value = (\<lambda>t. case t of EmptyIterator s \<Rightarrow> None | BlockIterator it \<Rightarrow> BlockIter_value it),
      vt_Next = (\<lambda>t. case t of EmptyIterator s \<Rightarrow> None | BlockIterator it \<Rightarrow> map_option BlockIterator (BlockIter_Next le it)),
      vt_Prev = (\<lambda>t. case t of EmptyIterator s \<Rightarrow> None | BlockIterator it \<Rightarrow> map_option BlockIterator (BlockIter_Prev le it)),
      vt_SeekToFirst = (\<lambda>t. case t of EmptyIterator s \<Rightarrow> Some t
        | BlockIterator it \<Rightarrow> map_option BlockIterator (BlockIter_SeekToFirst le it)),
      vt_SeekToLast = (\<lambda>t. case t of EmptyIterator s \<Rightarrow> Some t
        | BlockIterator it \<Rightarrow> map_option BlockIterator (BlockIter_SeekToLast le it)),
      vt_Seek = (\<lambda>target t. case t of EmptyIterator s \<Rightarrow> Some t
        | BlockIterator it \<Rightarrow> map_option BlockIterator (BlockIter_Seek compare le target it)),
      vt_status = (\<lambda>t. case t of EmptyIterator s \<Rightarrow> Some s | BlockIterator it \<Rightarrow> Some (bi_status it))\<rparr>"

end
