(* ===== verification/LDB_Block_Correct.thy ===== *)
theory LDB_Block_Correct
  imports LDB_Block
begin

text \<open>
  Correctness of blocks. The reference is the layout of a block with given entries: \<open>blk_entry\<close>, the
  bytes of one entry, \<open>blk_off\<close>, its offset, and \<open>blk_bytes\<close>, the whole block. The builder is shown to
  produce it; the iterator over it is shown to implement a position in the list of entries.
\<close>

subsection \<open>The layout of a block\<close>

definition blk_shared :: "nat \<Rightarrow> (slice \<times> slice) list \<Rightarrow> nat \<Rightarrow> nat" where
  "blk_shared interval es i =
     (if i mod interval = 0 then 0 else shared_length (fst (es ! (i - 1))) (fst (es ! i)))"

definition blk_head :: "nat \<Rightarrow> (slice \<times> slice) list \<Rightarrow> nat \<Rightarrow> byte list" where
  "blk_head interval es i =
     EncodeVarint32 (word_of_nat (blk_shared interval es i)) @
     EncodeVarint32 (word_of_nat (length (fst (es ! i)) - blk_shared interval es i)) @
     EncodeVarint32 (word_of_nat (length (snd (es ! i))))"

definition blk_entry :: "nat \<Rightarrow> (slice \<times> slice) list \<Rightarrow> nat \<Rightarrow> byte list" where
  "blk_entry interval es i = blk_head interval es i @ drop (blk_shared interval es i) (fst (es ! i)) @ snd (es ! i)"

definition blk_data :: "nat \<Rightarrow> (slice \<times> slice) list \<Rightarrow> nat \<Rightarrow> byte list" where
  "blk_data interval es n = concat (map (blk_entry interval es) [0..<n])"

definition blk_off :: "nat \<Rightarrow> (slice \<times> slice) list \<Rightarrow> nat \<Rightarrow> nat" where
  "blk_off interval es n = length (blk_data interval es n)"

definition blk_num :: "nat \<Rightarrow> nat \<Rightarrow> nat" where
  "blk_num interval n = (if n = 0 then 1 else (n - 1) div interval + 1)"

definition blk_restarts :: "nat \<Rightarrow> (slice \<times> slice) list \<Rightarrow> 32 word list" where
  "blk_restarts interval es = map (\<lambda>j. word_of_nat (blk_off interval es (j * interval))) [0..<blk_num interval (length es)]"

definition blk_bytes :: "nat \<Rightarrow> (slice \<times> slice) list \<Rightarrow> byte list" where
  "blk_bytes interval es =
     blk_data interval es (length es) @
     concat (map (word_le 4) (blk_restarts interval es @ [word_of_nat (blk_num interval (length es))]))"

lemma shared_length_le: "shared_length a b \<le> length a" "shared_length a b \<le> length b"
  by (induction a b rule: shared_length.induct) simp_all

lemma shared_length_take: "take (shared_length a b) a = take (shared_length a b) b"
  by (induction a b rule: shared_length.induct) simp_all

lemma blk_shared_le: "blk_shared interval es i \<le> length (fst (es ! i))"
  by (simp add: blk_shared_def shared_length_le)

lemma blk_data_Suc: "blk_data interval es (Suc n) = blk_data interval es n @ blk_entry interval es n"
  by (simp add: blk_data_def)

lemma blk_off_0 [simp]: "blk_off interval es 0 = 0"
  by (simp add: blk_off_def blk_data_def)

lemma blk_off_Suc: "blk_off interval es (Suc n) = blk_off interval es n + length (blk_entry interval es n)"
  by (simp add: blk_off_def blk_data_Suc)

lemma length_blk_head: "3 \<le> length (blk_head interval es i)"
  using length_EncodeVarint32(1) [of "word_of_nat (blk_shared interval es i)"]
    length_EncodeVarint32(1) [of "word_of_nat (length (fst (es ! i)) - blk_shared interval es i)"]
    length_EncodeVarint32(1) [of "word_of_nat (length (snd (es ! i)))"]
  unfolding blk_head_def length_append by linarith

lemma blk_off_mono: "i < j \<Longrightarrow> blk_off interval es i < blk_off interval es j"
proof (induction j)
  case (Suc j)
  then show ?case using length_blk_head [of interval es j] by (cases "i = j") (auto simp: blk_off_Suc blk_entry_def)
qed simp

lemma blk_off_less_iff: "blk_off interval es i < blk_off interval es j \<longleftrightarrow> i < j"
  using blk_off_mono [of i j interval es] blk_off_mono [of j i interval es] by (cases i j rule: linorder_cases) auto

lemma blk_entry_snoc: "i < length es \<Longrightarrow> blk_entry interval (es @ [e]) i = blk_entry interval es i"
  by (auto simp: blk_entry_def blk_head_def blk_shared_def nth_append)

lemma blk_data_snoc: "n \<le> length es \<Longrightarrow> blk_data interval (es @ [e]) n = blk_data interval es n"
  by (auto simp: blk_data_def blk_entry_snoc intro!: arg_cong [of _ _ concat])

lemma blk_off_snoc: "n \<le> length es \<Longrightarrow> blk_off interval (es @ [e]) n = blk_off interval es n"
  by (simp add: blk_off_def blk_data_snoc)

subsection \<open>The builder produces the layout\<close>

primrec BlockBuilder_AddAll ::
    "(slice \<Rightarrow> slice \<Rightarrow> int) \<Rightarrow> nat \<Rightarrow> (slice \<times> slice) list \<Rightarrow> BlockBuilder \<Rightarrow> BlockBuilder option" where
  "BlockBuilder_AddAll compare interval [] b = Some b"
| "BlockBuilder_AddAll compare interval (e # es) b =
     do { b \<leftarrow> BlockBuilder_Add compare interval (fst e) (snd e) b; BlockBuilder_AddAll compare interval es b }"

definition building :: "nat \<Rightarrow> (slice \<times> slice) list \<Rightarrow> BlockBuilder" where
  "building interval es =
     \<lparr>bb_buffer = blk_data interval es (length es), bb_restarts = blk_restarts interval es,
      bb_counter = (if es = [] then 0 else (length es - 1) mod interval + 1), bb_finished = False,
      bb_last_key = (if es = [] then [] else fst (last es))\<rparr>"

lemma blk_num_restart: "1 \<le> interval \<Longrightarrow> j < blk_num interval n \<Longrightarrow> j = 0 \<or> j * interval < n"
proof -
  assume "1 \<le> interval" "j < blk_num interval n"
  then have "n = 0 \<Longrightarrow> j = 0" "0 < n \<Longrightarrow> j \<le> (n - 1) div interval" by (auto simp: blk_num_def)
  moreover have "j \<le> (n - 1) div interval \<Longrightarrow> j * interval \<le> n - 1"
    by (metis le_trans div_times_less_eq_dividend mult_le_mono1)
  ultimately show "j = 0 \<or> j * interval < n" by (cases "n = 0") auto
qed

lemma blk_num_pos: "0 < blk_num interval n"
  by (simp add: blk_num_def)

lemma blk_num_Suc:
  "1 \<le> interval \<Longrightarrow> blk_num interval (Suc n) = (if n \<noteq> 0 \<and> n mod interval = 0 then Suc (blk_num interval n) else blk_num interval n)"
  by (cases n) (auto simp: blk_num_def div_Suc)

lemma blk_restarts_snoc:
  assumes "1 \<le> interval"
  shows "blk_restarts interval (es @ [e]) =
    (if es \<noteq> [] \<and> length es mod interval = 0 then blk_restarts interval es @ [word_of_nat (blk_off interval es (length es))]
     else blk_restarts interval es)"
proof -
  define n where "n = length es"
  have old: "map (\<lambda>j. word_of_nat (blk_off interval (es @ [e]) (j * interval))) [0..<blk_num interval n] = blk_restarts interval es"
    using blk_num_restart [OF assms, of _ n] by (fastforce simp: blk_restarts_def n_def blk_off_snoc)
  have "blk_num interval n * interval = n" if n0: "n \<noteq> 0" "n mod interval = 0"
  proof -
    obtain m where m: "n = Suc m" using n0(1) by (cases n) auto
    then have "n div interval = Suc (m div interval)" using n0 by (simp add: div_Suc)
    moreover have "n div interval * interval = n" using div_mult_mod_eq [of n interval] n0(2) by simp
    ultimately show ?thesis using m by (simp add: blk_num_def)
  qed
  then show ?thesis
    using old blk_num_Suc [OF assms, of n] by (cases "es = []") (auto simp: blk_restarts_def n_def blk_off_snoc)
qed

lemma building_init: "1 \<le> interval \<Longrightarrow> BlockBuilder_init interval = Some (building interval [])"
  by (simp add: BlockBuilder_init_def building_def blk_data_def blk_restarts_def blk_num_def)

lemma building_counter:
  assumes "1 \<le> interval"
  shows "bb_counter (building interval es) < interval \<longleftrightarrow> es = [] \<or> length es mod interval \<noteq> 0"
    "bb_counter (building interval es) \<le> interval"
    "bb_counter (building interval (es @ [e])) = length es mod interval + 1"
    "es \<noteq> [] \<Longrightarrow> length es mod interval \<noteq> 0 \<Longrightarrow> bb_counter (building interval es) = length es mod interval"
proof -
  define m where "m = (length es - Suc 0) mod interval"
  have "m < interval" using assms by (simp add: m_def)
  moreover have "es \<noteq> [] \<Longrightarrow> length es mod interval = (if Suc m = interval then 0 else Suc m)"
    using mod_Suc [of "length es - 1" interval] by (simp add: m_def)
  ultimately show "bb_counter (building interval es) < interval \<longleftrightarrow> es = [] \<or> length es mod interval \<noteq> 0"
    "bb_counter (building interval es) \<le> interval"
    "es \<noteq> [] \<Longrightarrow> length es mod interval \<noteq> 0 \<Longrightarrow> bb_counter (building interval es) = length es mod interval"
    using assms by (auto simp: building_def simp flip: m_def split: if_splits)
qed (simp add: building_def)

lemma building_shared:
  fixes es :: "(slice \<times> slice) list"
  assumes "1 \<le> interval"
  defines "b \<equiv> building interval es"
  shows "(if bb_counter b < interval then (shared_length (bb_last_key b) k, bb_restarts b, bb_counter b)
      else (0, bb_restarts b @ [word_of_nat (length (bb_buffer b))], 0)) =
    (blk_shared interval (es @ [(k, v)]) (length es), blk_restarts interval (es @ [(k, v)]), length es mod interval)"
proof (cases "es = []")
  case True
  then show ?thesis using assms(1) blk_restarts_snoc [OF assms(1), of "[]" "(k, v)"] by (simp add: b_def building_def blk_shared_def)
next
  case False
  have last: "bb_last_key b = fst (es ! (length es - 1))" "(es @ [(k, v)]) ! (length es - 1) = es ! (length es - 1)"
    using False by (simp_all add: b_def building_def last_conv_nth nth_append)
  show ?thesis
    using False assms(1) building_counter [OF assms(1), of es] last
    by (simp add: blk_shared_def blk_restarts_snoc flip: b_def) (simp add: b_def building_def blk_off_def)
qed

lemma building_add:
  assumes "1 \<le> interval" "es = [] \<or> compare k (fst (last es)) > 0"
  shows "BlockBuilder_Add compare interval k v (building interval es) = Some (building interval (es @ [(k, v)]))"
proof -
  define b where "b = building interval es"
  define sh where "sh = blk_shared interval (es @ [(k, v)]) (length es)"
  have guard: "\<not> bb_finished b \<and> bb_counter b \<le> interval \<and> (bb_buffer b = [] \<or> compare k (bb_last_key b) > 0)"
    using assms building_counter(2) [OF assms(1), of es] by (auto simp: b_def building_def blk_data_def)
  have key: "take sh (bb_last_key b) @ drop sh k = k"
  proof (cases "sh = 0")
    case False
    then have "es \<noteq> []" "sh = shared_length (bb_last_key b) k"
      by (auto simp: sh_def blk_shared_def b_def building_def last_conv_nth nth_append split: if_splits)
    then show ?thesis by (metis append_take_drop_id shared_length_take)
  qed simp
  have bytes: "bb_buffer b @ EncodeVarint32 (word_of_nat sh) @ EncodeVarint32 (word_of_nat (length k - sh)) @
      EncodeVarint32 (word_of_nat (length v)) @ drop sh k @ v = blk_data interval (es @ [(k, v)]) (Suc (length es))"
    by (simp add: blk_data_Suc blk_data_snoc blk_entry_def blk_head_def nth_append b_def building_def flip: sh_def)
  show ?thesis
    using guard building_shared [OF assms(1), of es k v]
    unfolding BlockBuilder_Add_def b_def [symmetric] sh_def [symmetric] Let_def
    by (simp add: key Slice_eq_iff PutVarint32_def bytes) (simp add: building_def b_def)
qed

lemma building_add_all:
  assumes "1 \<le> interval" "key_order compare" "ascending compare (es @ es')"
  shows "BlockBuilder_AddAll compare interval es' (building interval es) = Some (building interval (es @ es'))"
  using assms(3)
proof (induction es' arbitrary: es)
  case (Cons e es')
  have "es = [] \<or> compare (fst e) (fst (last es)) > 0"
  proof (cases "es = []")
    case False
    then have "compare (fst (last es)) (fst e) < 0" using Cons.prems by (simp add: ascending_def sorted_wrt_append)
    then show ?thesis using key_order.sym [OF assms(2)] by blast
  qed simp
  then have "BlockBuilder_Add compare interval (fst e) (snd e) (building interval es) = Some (building interval (es @ [e]))"
    using building_add [OF assms(1), of es compare "fst e" "snd e"] by simp
  then show ?case using Cons.IH [of "es @ [e]"] Cons.prems by simp
qed simp

lemma length_blk_restarts: "length (blk_restarts interval es) = blk_num interval (length es)"
  by (simp add: blk_restarts_def)

lemma building_finish: "fst (BlockBuilder_Finish le (building interval es)) = blk_bytes interval es"
  by (simp add: BlockBuilder_Finish_def Let_def building_def put_fixed_list PutFixed32_def EncodeFixed_le blk_bytes_def length_blk_restarts)

subsection \<open>Decoding an entry\<close>

lemma less_128_bits: "(w :: 32 word) < 128 \<longleftrightarrow> take_bit 7 w = w"
proof -
  have "w < 128 \<longleftrightarrow> unat w < 2 ^ 7" by (simp add: word_less_nat_alt)
  also have "\<dots> \<longleftrightarrow> unat (take_bit 7 w) = unat w" by (simp only: unsigned_take_bit_eq take_bit_nat_eq_self_iff)
  finally show ?thesis by (simp only: word_unat_eq_iff)
qed

lemma varint_first_byte:
  assumes "(ucast (hd (EncodeVarint32 v)) :: 32 word) < 128"
  shows "EncodeVarint32 v = [ucast v]" "(ucast (ucast v :: byte) :: 32 word) = v"
proof -
  have *: "\<not> (ucast (ucast (v OR 128) :: byte) :: 32 word) < 128"
  proof
    assume "(ucast (ucast (v OR 128) :: byte) :: 32 word) < 128"
    then have "\<not> bit (ucast (ucast (v OR 128) :: byte) :: 32 word) 7" unfolding less_128_bits by (metis bit_take_bit_iff less_irrefl)
    then show False by (simp add: bit_ucast_iff bit_or_iff bit_128)
  qed
  then have v: "v < 128" using assms by (auto simp: EncodeVarint32_def split: if_splits)
  then show "EncodeVarint32 v = [ucast v]" by (simp add: EncodeVarint32_def)
  show "(ucast (ucast v :: byte) :: 32 word) = v"
  proof (rule bit_word_eqI)
    fix n
    have "bit v n \<Longrightarrow> n < 7" using v unfolding less_128_bits by (metis bit_take_bit_iff)
    then show "bit (ucast (ucast v :: byte) :: 32 word) n \<longleftrightarrow> bit v n"
      by (auto simp: bit_ucast_iff dest: bit_imp_le_length)
  qed
qed

lemma or_less_128: "(a :: 32 word) OR b < 128 \<longleftrightarrow> a < 128 \<and> b < 128"
proof -
  have *: "w < 128 \<longleftrightarrow> (\<forall>n. bit w n \<longrightarrow> n < 7)" for w :: "32 word"
  proof -
    have "w < 128 \<longleftrightarrow> take_bit 7 w = w" by (rule less_128_bits)
    also have "\<dots> \<longleftrightarrow> (\<forall>n. bit w n \<longrightarrow> n < 7)"
      by (metis bit_eq_iff bit_take_bit_iff)
    finally show ?thesis .
  qed
  show ?thesis unfolding * by (auto simp: bit_or_iff)
qed

lemma DecodeEntry_bytes:
  fixes a b c :: "32 word"
  defines "head \<equiv> EncodeVarint32 a @ EncodeVarint32 b @ EncodeVarint32 c"
  assumes "p + length head \<le> limit" and range: "take (limit - p) (drop p data) = head @ rest"
  shows "DecodeEntry data p limit =
    (if (word_of_nat (limit - (p + length head)) :: 32 word) < b + c then None else Some (p + length head, a, b, c))"
proof -
  define r where "r = head @ rest"
  note len = length_EncodeVarint32(1)
  have 3: "3 \<le> length head" using len [of a] len [of b] len [of c] unfolding head_def length_append by linarith
  have inner: "(if (ucast (r ! 0) OR (ucast (r ! 1) OR ucast (r ! 2)) :: 32 word) < 128
       then Some (p + 3, ucast (r ! 0), ucast (r ! 1), ucast (r ! 2))
       else do { (shared, n1) \<leftarrow> GetVarint32Ptr r; (non_shared, n2) \<leftarrow> GetVarint32Ptr (drop n1 r);
         (value_length, n3) \<leftarrow> GetVarint32Ptr (drop (n1 + n2) r); Some (p + n1 + n2 + n3, shared, non_shared, value_length) }) =
      Some (p + length head, a, b, c)"
  proof (cases "(ucast (r ! 0) OR (ucast (r ! 1) OR ucast (r ! 2)) :: 32 word) < 128")
    case True
    then have l: "(ucast (r ! 0) :: 32 word) < 128" "(ucast (r ! 1) :: 32 word) < 128" "(ucast (r ! 2) :: 32 word) < 128"
      by (simp_all add: or_less_128)
    have "r ! 0 = hd (EncodeVarint32 a)" using len [of a] by (cases "EncodeVarint32 a") (simp_all add: r_def head_def)
    then have a: "EncodeVarint32 a = [ucast a]" "(ucast (ucast a :: byte) :: 32 word) = a" using varint_first_byte [of a] l(1) by simp_all
    then have "r ! 1 = hd (EncodeVarint32 b)" using len [of b] by (cases "EncodeVarint32 b") (simp_all add: r_def head_def)
    then have b: "EncodeVarint32 b = [ucast b]" "(ucast (ucast b :: byte) :: 32 word) = b" using varint_first_byte [of b] l(2) by simp_all
    then have "r ! 2 = hd (EncodeVarint32 c)" using a len [of c] by (cases "EncodeVarint32 c") (simp_all add: r_def head_def)
    then have c: "EncodeVarint32 c = [ucast c]" "(ucast (ucast c :: byte) :: 32 word) = c" using varint_first_byte [of c] l(3) by simp_all
    show ?thesis using True a b c by (simp add: r_def head_def)
  next
    case False
    then show ?thesis by (simp add: r_def head_def coding_varint32_ptr)
  qed
  show ?thesis
    using assms(2) 3 inner unfolding DecodeEntry_def range r_def [symmetric] Let_def by simp
qed

subsection \<open>The iterator is a position in the list of entries\<close>

definition blk_ok :: "nat \<Rightarrow> (slice \<times> slice) list \<Rightarrow> bool" where
  "blk_ok interval es \<longleftrightarrow> 1 \<le> interval \<and> length (blk_bytes interval es) < 2 ^ 31"

definition over :: "nat \<Rightarrow> (slice \<times> slice) list \<Rightarrow> BlockIter \<Rightarrow> bool" where
  "over interval es it \<longleftrightarrow>
     bi_data it = blk_bytes interval es \<and> bi_restarts it = word_of_nat (blk_off interval es (length es)) \<and>
     bi_num_restarts it = word_of_nat (blk_num interval (length es)) \<and> bi_status it = Status_OK"

definition near_restart :: "nat \<Rightarrow> (slice \<times> slice) list \<Rightarrow> BlockIter \<Rightarrow> nat \<Rightarrow> bool" where
  "near_restart interval es it i \<longleftrightarrow>
     (\<exists>r<blk_num interval (length es). bi_restart_index it = word_of_nat r \<and> r * interval \<le> i)"

text \<open>The iterator is at entry \<open>i\<close>, or it is not valid and \<open>i\<close> is the number of entries.\<close>

definition block_pos :: "nat \<Rightarrow> (slice \<times> slice) list \<Rightarrow> BlockIter \<Rightarrow> nat \<Rightarrow> bool" where
  "block_pos interval es it i \<longleftrightarrow>
     over interval es it \<and> i \<le> length es \<and>
     (if i < length es
      then bi_current it = word_of_nat (blk_off interval es i) \<and> bi_key it = fst (es ! i) \<and>
        bi_value it = Some (blk_off interval es (Suc i) - length (snd (es ! i)), length (snd (es ! i))) \<and>
        near_restart interval es it i
      else bi_current it = bi_restarts it)"

text \<open>The next entry that is parsed is \<open>i\<close>.\<close>

definition ready :: "nat \<Rightarrow> (slice \<times> slice) list \<Rightarrow> BlockIter \<Rightarrow> nat \<Rightarrow> bool" where
  "ready interval es it i \<longleftrightarrow>
     over interval es it \<and> i \<le> length es \<and> NextEntryOffset it = Some (word_of_nat (blk_off interval es i)) \<and>
     (i < length es \<longrightarrow> blk_shared interval es i \<le> length (bi_key it) \<and>
        take (blk_shared interval es i) (bi_key it) = take (blk_shared interval es i) (fst (es ! i))) \<and>
     near_restart interval es it i"

lemma blk_off_le: "i \<le> j \<Longrightarrow> blk_off interval es i \<le> blk_off interval es j"
  using blk_off_mono [of i j interval es] by (cases "i = j") auto

lemma length_blk_bytes:
  "length (blk_bytes interval es) = blk_off interval es (length es) + 4 * blk_num interval (length es) + 4"
  by (simp add: blk_bytes_def blk_off_def length_blk_restarts length_concat o_def sum_list_triv)

lemma blk_off_word:
  assumes "blk_ok interval es" "i \<le> length es"
  shows "unat (word_of_nat (blk_off interval es i) :: 32 word) = blk_off interval es i"
  using assms blk_off_le [OF assms(2), of interval es]
  by (simp add: blk_ok_def length_blk_bytes unsigned_of_nat take_bit_nat_eq_self)

lemma blk_num_word:
  assumes "blk_ok interval es" "r \<le> blk_num interval (length es)"
  shows "unat (word_of_nat r :: 32 word) = r" "r < 2 ^ 29"
  using assms by (simp_all add: blk_ok_def length_blk_bytes unsigned_of_nat take_bit_nat_eq_self)

lemma blk_num_less:
  assumes "blk_ok interval es" "r \<le> blk_num interval (length es)" "q \<le> blk_num interval (length es)"
  shows "(word_of_nat r :: 32 word) < word_of_nat q \<longleftrightarrow> r < q"
  using blk_num_word [OF assms(1,2)] blk_num_word [OF assms(1,3)] by (simp add: word_less_nat_alt)

lemma restart_point:
  assumes "blk_ok interval es" "over interval es it" "r < blk_num interval (length es)"
  shows "GetRestartPoint le it (word_of_nat r) = Some (word_of_nat (blk_off interval es (r * interval)))"
proof -
  define ws where "ws = blk_restarts interval es @ [word_of_nat (blk_num interval (length es))]"
  have "DecodeFixed32 le (drop (blk_off interval es (length es) + r * 4) (blk_bytes interval es)) = ws ! r"
    using decode_fixed_at [of r ws le "[]"] assms(3) by (simp add: blk_bytes_def blk_off_def ws_def length_blk_restarts)
  also have "ws ! r = word_of_nat (blk_off interval es (r * interval))"
    using assms(3) by (simp add: ws_def nth_append length_blk_restarts) (simp add: blk_restarts_def)
  finally show ?thesis
    using assms blk_num_less [OF assms(1), of r "blk_num interval (length es)"] blk_num_word [OF assms(1), of r] blk_off_word [OF assms(1) order_refl]
    by (simp add: GetRestartPoint_def over_def)
qed

lemma restart_le: "blk_ok interval es \<Longrightarrow> r < blk_num interval (length es) \<Longrightarrow> r * interval \<le> length es"
  using blk_num_restart [of interval r "length es"] by (auto simp: blk_ok_def)

text \<open>The bytes of entry \<open>i\<close>.\<close>

lemma blk_data_split:
  assumes "i < n"
  shows "\<exists>tail. blk_data interval es n = blk_data interval es i @ blk_entry interval es i @ tail"
proof -
  have "[0..<n] = [0..<i] @ i # [Suc i..<n]" using assms upt_add_eq_append [of 0 i "n - i"] by (simp add: upt_conv_Cons)
  then show ?thesis by (auto simp: blk_data_def)
qed

lemma decode_blk_entry:
  assumes "blk_ok interval es" "i < length es"
  shows "DecodeEntry (blk_bytes interval es) (blk_off interval es i) (blk_off interval es (length es)) =
    Some (blk_off interval es i + length (blk_head interval es i), word_of_nat (blk_shared interval es i),
      word_of_nat (length (fst (es ! i)) - blk_shared interval es i), word_of_nat (length (snd (es ! i))))"
proof -
  define sh where "sh = blk_shared interval es i"
  define k where "k = fst (es ! i)"
  define v where "v = snd (es ! i)"
  define limit where "limit = blk_off interval es (length es)"
  define p where "p = blk_off interval es i"
  obtain tail where tail: "blk_data interval es (length es) = blk_data interval es i @ blk_entry interval es i @ tail"
    using blk_data_split [OF assms(2)] by blast
  define rest where "rest = drop sh k @ v @ tail"
  have entry: "blk_entry interval es i = blk_head interval es i @ drop sh k @ v"
    by (simp add: blk_entry_def sh_def k_def v_def)
  have lim: "limit = p + length (blk_head interval es i) + length rest"
    by (simp add: limit_def p_def blk_off_def tail entry rest_def)
  have range: "take (limit - p) (drop p (blk_bytes interval es)) = blk_head interval es i @ rest"
    unfolding lim by (simp add: p_def blk_bytes_def blk_off_def tail entry rest_def)
  have small: "length rest < 2 ^ 32" using assms(1) lim by (simp add: blk_ok_def length_blk_bytes limit_def)
  have "\<not> (word_of_nat (length rest) :: 32 word) < word_of_nat (length k - sh) + word_of_nat (length v)"
  proof -
    have "length k - sh + length v \<le> length rest" by (simp add: rest_def)
    then have "unat (word_of_nat (length k - sh + length v) :: 32 word) \<le> unat (word_of_nat (length rest) :: 32 word)"
      using small by (simp add: unsigned_of_nat take_bit_nat_eq_self del: of_nat_add)
    then show ?thesis unfolding of_nat_add [symmetric] not_less word_le_nat_alt .
  qed
  moreover have "limit - (p + length (blk_head interval es i)) = length rest" using lim by simp
  ultimately show ?thesis
    using DecodeEntry_bytes [of p "word_of_nat sh" "word_of_nat (length k - sh)" "word_of_nat (length v)" limit "blk_bytes interval es" rest] range lim
    by (simp add: blk_head_def flip: sh_def k_def v_def limit_def p_def)
qed

lemma blk_entry_place:
  fixes interval :: nat
  assumes "i < length es"
  defines "p \<equiv> blk_off interval es i + length (blk_head interval es i)"
  defines "ns \<equiv> length (fst (es ! i)) - blk_shared interval es i"
  shows "p + ns + length (snd (es ! i)) = blk_off interval es (Suc i)" "blk_off interval es (Suc i) \<le> length (blk_bytes interval es)"
    "take ns (drop p (blk_bytes interval es)) = drop (blk_shared interval es i) (fst (es ! i))"
    "take (length (snd (es ! i))) (drop (p + ns) (blk_bytes interval es)) = snd (es ! i)"
proof -
  obtain tail where tail: "blk_data interval es (length es) = blk_data interval es i @ blk_entry interval es i @ tail"
    using blk_data_split [OF assms(1)] by blast
  then have bytes: "blk_bytes interval es = blk_data interval es i @ blk_head interval es i @ drop (blk_shared interval es i) (fst (es ! i)) @
      snd (es ! i) @ tail @ concat (map (word_le 4) (blk_restarts interval es @ [word_of_nat (blk_num interval (length es))]))"
    by (simp add: blk_bytes_def blk_entry_def)
  show "p + ns + length (snd (es ! i)) = blk_off interval es (Suc i)"
    by (simp add: p_def ns_def blk_off_Suc blk_entry_def)
  then show "blk_off interval es (Suc i) \<le> length (blk_bytes interval es)"
    unfolding bytes by (simp add: p_def ns_def blk_off_def)
  show "take ns (drop p (blk_bytes interval es)) = drop (blk_shared interval es i) (fst (es ! i))"
    unfolding bytes by (simp add: p_def ns_def blk_off_def)
  show "take (length (snd (es ! i))) (drop (p + ns) (blk_bytes interval es)) = snd (es ! i)"
    unfolding bytes by (simp add: p_def ns_def blk_off_def)
qed

lemma advance_near:
  assumes ok: "blk_ok interval es" and "over interval es it" "r < blk_num interval (length es)" "bi_restart_index it = word_of_nat r"
    "r * interval \<le> i" "i < length es" "bi_current it = word_of_nat (blk_off interval es i)"
  shows "\<exists>r'<blk_num interval (length es). advance_restart le it = it\<lparr>bi_restart_index := word_of_nat r'\<rparr> \<and> r' * interval \<le> i"
  using assms(2-)
proof (induction "blk_num interval (length es) - r" arbitrary: r it)
  case (Suc d)
  have n: "(word_of_nat r + 1 :: 32 word) = word_of_nat (Suc r)" by simp
  have guard: "bi_restart_index it + 1 < bi_num_restarts it \<longleftrightarrow> Suc r < blk_num interval (length es)"
    using Suc.prems blk_num_less [OF ok, of "Suc r" "blk_num interval (length es)"] by (simp add: over_def n del: of_nat_Suc)
  show ?case
  proof (cases "Suc r < blk_num interval (length es) \<and> Suc r * interval < i")
    case True
    then have p: "GetRestartPoint le it (bi_restart_index it + 1) = Some (word_of_nat (blk_off interval es (Suc r * interval)))"
      using restart_point [OF ok Suc.prems(1), of "Suc r" le] Suc.prems(3) by (simp add: n del: of_nat_Suc)
    have "(word_of_nat (blk_off interval es (Suc r * interval)) :: 32 word) < word_of_nat (blk_off interval es i)"
      using True Suc.prems(5) blk_off_word [OF ok, of i] blk_off_word [OF ok, of "Suc r * interval"] blk_off_mono [of "Suc r * interval" i]
      by (simp add: word_less_nat_alt)
    then have step: "advance_restart le it = advance_restart le (it\<lparr>bi_restart_index := word_of_nat (Suc r)\<rparr>)"
      using True p guard Suc.prems(3,6) by (simp add: advance_restart.simps [of le it] n del: of_nat_Suc)
    show ?thesis
      unfolding step using Suc.hyps(1) [of "Suc r" "it\<lparr>bi_restart_index := word_of_nat (Suc r)\<rparr>"] Suc.hyps(2) Suc.prems True
      by (fastforce simp: over_def)
  next
    case False
    have "advance_restart le it = it"
    proof (cases "Suc r < blk_num interval (length es)")
      case True
      then have p: "GetRestartPoint le it (bi_restart_index it + 1) = Some (word_of_nat (blk_off interval es (Suc r * interval)))"
        using restart_point [OF ok Suc.prems(1), of "Suc r" le] Suc.prems(3) by (simp add: n del: of_nat_Suc)
      have "\<not> (word_of_nat (blk_off interval es (Suc r * interval)) :: 32 word) < word_of_nat (blk_off interval es i)"
        using True False Suc.prems(5) blk_off_word [OF ok, of i] blk_off_word [OF ok, of "Suc r * interval"] restart_le [OF ok True]
          blk_off_less_iff [of interval es "Suc r * interval" i] by (simp add: word_less_nat_alt)
      then show ?thesis using p Suc.prems(6) by (simp add: advance_restart.simps [of le it])
    next
      case False
      then show ?thesis using guard by (simp add: advance_restart.simps [of le it])
    qed
    then show ?thesis using Suc.prems by (intro exI [of _ r]) (cases it, auto)
  qed
qed simp

lemma blk_key_length: "i < length es \<Longrightarrow> length (fst (es ! i)) \<le> blk_off interval es (Suc i)"
proof (induction i)
  case 0
  then show ?case by (simp add: blk_off_Suc blk_entry_def blk_shared_def)
next
  case (Suc i)
  have "blk_shared interval es (Suc i) \<le> length (fst (es ! i))" by (simp add: blk_shared_def shared_length_le)
  then have "length (fst (es ! Suc i)) \<le> blk_off interval es (Suc i) + (length (fst (es ! Suc i)) - blk_shared interval es (Suc i))"
    using Suc by simp
  then show ?case by (simp add: blk_off_Suc [of interval es "Suc i"] blk_entry_def)
qed

lemma blk_entry_words:
  assumes "blk_ok interval es" "i < length es"
  shows "unat (word_of_nat (blk_shared interval es i) :: 32 word) = blk_shared interval es i"
    "unat (word_of_nat (length (fst (es ! i)) - blk_shared interval es i) :: 32 word) = length (fst (es ! i)) - blk_shared interval es i"
    "unat (word_of_nat (length (snd (es ! i))) :: 32 word) = length (snd (es ! i))"
proof -
  have "length (fst (es ! i)) < 2 ^ 31" "length (snd (es ! i)) < 2 ^ 31"
    using blk_key_length [OF assms(2), of interval] blk_entry_place(1,2) [OF assms(2), of interval] assms(1) by (simp_all add: blk_ok_def)
  then show "unat (word_of_nat (blk_shared interval es i) :: 32 word) = blk_shared interval es i"
    "unat (word_of_nat (length (fst (es ! i)) - blk_shared interval es i) :: 32 word) = length (fst (es ! i)) - blk_shared interval es i"
    "unat (word_of_nat (length (snd (es ! i))) :: 32 word) = length (snd (es ! i))"
    using blk_shared_le [of interval es i] by (simp_all add: unsigned_of_nat take_bit_nat_eq_self del: of_nat_diff)
qed

lemma parse_ready:
  assumes ok: "blk_ok interval es" and r: "ready interval es it i"
  shows "\<exists>it'. ParseNextKey le it = Some (i < length es, it') \<and> block_pos interval es it' i"
proof (cases "i < length es")
  case False
  then have "i = length es" using r by (simp add: ready_def)
  with r show ?thesis by (auto simp: ready_def over_def ParseNextKey_def block_pos_def Let_def)
next
  case True
  define off where "off = blk_off interval es"
  define sh where "sh = blk_shared interval es i"
  define k where "k = fst (es ! i)"
  define v where "v = snd (es ! i)"
  define p where "p = off i + length (blk_head interval es i)"
  note w = blk_entry_words [OF ok True, folded sh_def k_def v_def] blk_off_word [OF ok, folded off_def]
  note place = blk_entry_place [OF True, of interval, folded off_def sh_def k_def v_def, folded p_def]
  have it: "over interval es it" "NextEntryOffset it = Some (word_of_nat (off i))" "sh \<le> length (bi_key it)"
    "take sh (bi_key it) = take sh k" "near_restart interval es it i"
    using r True by (simp_all add: ready_def off_def sh_def k_def)
  have cur: "\<not> (word_of_nat (off i) :: 32 word) \<ge> bi_restarts it"
    using it(1) w(4) [of i] w(4) [of "length es"] True blk_off_mono [OF True, of interval es]
    by (simp add: over_def word_le_nat_alt flip: off_def)
  have dec: "DecodeEntry (bi_data it) (unat (word_of_nat (off i) :: 32 word)) (unat (bi_restarts it)) =
      Some (p, word_of_nat sh, word_of_nat (length k - sh), word_of_nat (length v))"
    using decode_blk_entry [OF ok True] it(1) w(4) [of i] w(4) [of "length es"] True
    by (simp add: over_def p_def off_def sh_def k_def v_def)
  define it1 where "it1 = it\<lparr>bi_current := word_of_nat (off i), bi_key := k, bi_value := Some (p + (length k - sh), length v)\<rparr>"
  have inb: "p + (length k - sh) \<le> length (bi_data it)" using it(1) place(1,2) by (simp add: over_def)
  have key: "take sh (bi_key it) @ take (length k - sh) (drop p (bi_data it)) = k"
    using it(1,4) place(3) by (simp add: over_def)
  have parse: "ParseNextKey le it = Some (True, advance_restart le it1)"
    unfolding ParseNextKey_def it(2) using cur dec inb it(3) w(1-3) key by (simp add: Let_def it1_def not_less)
  obtain r where r: "r < blk_num interval (length es)" "bi_restart_index it = word_of_nat r" "r * interval \<le> i"
    using it(5) by (auto simp: near_restart_def)
  have "over interval es it1" using it(1) by (simp add: over_def it1_def)
  then obtain r' where r': "r' < blk_num interval (length es)" "advance_restart le it1 = it1\<lparr>bi_restart_index := word_of_nat r'\<rparr>" "r' * interval \<le> i"
    using advance_near [OF ok, of it1 r i le] r True by (auto simp: it1_def off_def)
  have "block_pos interval es (advance_restart le it1) i"
    using \<open>over interval es it1\<close> True r' place(1) unfolding r'(2)
    by (auto simp: block_pos_def over_def near_restart_def it1_def off_def k_def v_def)
  with parse True show ?thesis by auto
qed

lemma ready_next:
  assumes "block_pos interval es it i" "i < length es"
  shows "ready interval es it (Suc i)"
proof -
  have "near_restart interval es it (Suc i)" using assms by (auto simp: block_pos_def near_restart_def)
  moreover have "NextEntryOffset it = Some (word_of_nat (blk_off interval es (Suc i)))"
    using assms blk_entry_place(1) [OF assms(2), of interval] by (simp add: block_pos_def NextEntryOffset_def)
  moreover have "blk_shared interval es (Suc i) \<le> length (fst (es ! i))"
    "take (blk_shared interval es (Suc i)) (fst (es ! i)) = take (blk_shared interval es (Suc i)) (fst (es ! Suc i))"
    using shared_length_take [of "fst (es ! i)" "fst (es ! Suc i)"] by (simp_all add: blk_shared_def shared_length_le)
  ultimately show ?thesis using assms by (simp add: block_pos_def ready_def)
qed

lemma seek_restart_ready:
  assumes "blk_ok interval es" "over interval es it" "r < blk_num interval (length es)"
  shows "\<exists>it'. SeekToRestartPoint le (word_of_nat r) it = Some it' \<and> ready interval es it' (r * interval)"
proof -
  have "unat (word_of_nat (blk_off interval es (r * interval)) :: 32 word) = blk_off interval es (r * interval)"
    by (rule blk_off_word [OF assms(1) restart_le [OF assms(1,3)]])
  moreover have "blk_shared interval es (r * interval) = 0" by (simp add: blk_shared_def)
  ultimately show ?thesis
    using assms restart_le [OF assms(1,3)] by (auto simp: SeekToRestartPoint_def restart_point ready_def over_def NextEntryOffset_def near_restart_def)
qed

text \<open>The loops.\<close>

lemma parse_until_pos:
  assumes ok: "blk_ok interval es"
  shows "ready interval es it i \<Longrightarrow> i < n \<or> n = 0 \<and> es = [] \<Longrightarrow> n \<le> length es \<Longrightarrow>
    \<exists>it'. parse_until le (word_of_nat (blk_off interval es n)) it = Some it' \<and> block_pos interval es it' (n - 1)"
proof (induction "n - i" arbitrary: i it rule: less_induct)
  case less
  obtain it1 where it1: "ParseNextKey le it = Some (i < length es, it1)" "block_pos interval es it1 i"
    using parse_ready [OF ok less.prems(1)] by blast
  show ?case
  proof (cases "es = []")
    case True
    then have "i = 0" using less.prems(1) by (simp add: ready_def)
    with True show ?thesis using it1 less.prems by (simp add: parse_until.simps [of le _ it])
  next
    case False
    then have i: "i < n" "i < length es" using less.prems by auto
    note rn = ready_next [OF it1(2) i(2)]
    have off: "NextEntryOffset it1 = Some (word_of_nat (blk_off interval es (Suc i)))" using rn by (simp add: ready_def)
    have lt: "(word_of_nat (blk_off interval es (Suc i)) :: 32 word) < word_of_nat (blk_off interval es n) \<longleftrightarrow> Suc i < n"
      using blk_off_word [OF ok, of "Suc i"] blk_off_word [OF ok, of n] i less.prems(3) by (simp add: word_less_nat_alt blk_off_less_iff)
    show ?thesis
    proof (cases "Suc i < n")
      case True
      then show ?thesis
        using less.hyps [OF _ rn] less.prems(3) it1(1) i off lt by (simp add: parse_until.simps [of le _ it])
    next
      case False
      then have "n - 1 = i" using i by simp
      then show ?thesis using False it1 i off lt by (simp add: parse_until.simps [of le _ it])
    qed
  qed
qed

lemma back_restart_pos:
  assumes ok: "blk_ok interval es" and "i < length es" "0 < i"
  shows "over interval es it \<Longrightarrow> bi_restart_index it = word_of_nat r \<Longrightarrow> r < blk_num interval (length es) \<Longrightarrow> r * interval \<le> i \<Longrightarrow>
    \<exists>r'<blk_num interval (length es). back_restart le (word_of_nat (blk_off interval es i)) it =
      Some (True, it\<lparr>bi_restart_index := word_of_nat r'\<rparr>) \<and> r' * interval < i"
proof (induction r arbitrary: it)
  case 0
  have "unat (word_of_nat (blk_off interval es i) :: 32 word) = blk_off interval es i" "0 < blk_off interval es i"
    using blk_off_word [OF ok, of i] assms(2,3) blk_off_mono [OF assms(3), of interval es] by simp_all
  then have "\<not> 0 \<ge> (word_of_nat (blk_off interval es i) :: 32 word)" by (simp add: word_le_nat_alt)
  then have "back_restart le (word_of_nat (blk_off interval es i)) it = Some (True, it)"
    using 0 restart_point [OF ok 0(1,3), of le] by (simp add: back_restart.simps [of le _ it])
  then show ?case using 0(2,3) assms(3) by (intro exI [of _ 0]) (cases it, simp)
next
  case (Suc r)
  note rp = restart_point [OF ok Suc.prems(1,3), of le]
  have ge: "(word_of_nat (blk_off interval es (Suc r * interval)) :: 32 word) \<ge> word_of_nat (blk_off interval es i) \<longleftrightarrow> \<not> Suc r * interval < i"
    using blk_off_word [OF ok, of i] blk_off_word [OF ok restart_le [OF ok Suc.prems(3)]] assms(2) blk_off_less_iff [of interval es "Suc r * interval" i]
    by (simp add: word_le_nat_alt not_less [symmetric])
  show ?case
  proof (cases "Suc r * interval < i")
    case True
    then have "back_restart le (word_of_nat (blk_off interval es i)) it = Some (True, it)"
      using Suc.prems(2) rp ge by (simp add: back_restart.simps [of le _ it] del: of_nat_Suc)
    then show ?thesis using Suc.prems(2,3) True by (intro exI [of _ "Suc r"]) (cases it, simp del: of_nat_Suc)
  next
    case False
    have nz: "(word_of_nat (Suc r) :: 32 word) \<noteq> 0"
      using blk_num_word(1) [OF ok, of "Suc r"] Suc.prems(3) by (metis less_imp_le nat.distinct(1) unat_0)
    have m: "(word_of_nat (Suc r) :: 32 word) - 1 = word_of_nat r" by simp
    have "back_restart le (word_of_nat (blk_off interval es i)) it =
        back_restart le (word_of_nat (blk_off interval es i)) (it\<lparr>bi_restart_index := word_of_nat r\<rparr>)"
      using False rp ge nz Suc.prems(2) m by (simp add: back_restart.simps [of le _ it] del: of_nat_Suc)
    then show ?thesis
      using Suc.IH [of "it\<lparr>bi_restart_index := word_of_nat r\<rparr>"] Suc.prems by (fastforce simp: over_def)
  qed
qed

lemma unat_inverse: "word_of_nat (unat w) = (w :: 32 word)"
  by simp

lemma search_restarts_pos:
  assumes ok: "blk_ok interval es" and over: "over interval es it"
  shows "l \<le> r \<Longrightarrow> r < blk_num interval (length es) \<Longrightarrow> l = 0 \<or> compare (fst (es ! (l * interval))) target < 0 \<Longrightarrow>
    \<exists>m<blk_num interval (length es). search_restarts compare le target it (word_of_nat l) (word_of_nat r) = Some (Inr (word_of_nat m)) \<and>
      (m = 0 \<or> compare (fst (es ! (m * interval))) target < 0)"
proof (induction "r - l" arbitrary: l r rule: less_induct)
  case less
  have lr: "(word_of_nat l :: 32 word) < word_of_nat r \<longleftrightarrow> l < r" using blk_num_less [OF ok, of l r] less.prems by simp
  show ?case
  proof (cases "l < r")
    case False
    then show ?thesis using less.prems lr by (intro exI [of _ l]) (simp add: search_restarts.simps [of compare le target it "word_of_nat r"])
  next
    case True
    define mid where "mid = (l + r + 1) div 2"
    have mid: "l < mid" "mid \<le> r" "mid - 1 < r" "0 < mid" using True by (auto simp: mid_def)
    have midN: "mid < blk_num interval (length es)" using mid less.prems by simp
    have w: "((word_of_nat l + word_of_nat r + 1) div 2 :: 32 word) = word_of_nat mid"
    proof -
      have "l + r + 1 < 2 ^ 32" using blk_num_word(2) [OF ok, of r] less.prems True by simp
      then have "unat (word_of_nat (l + r + 1) :: 32 word) = l + r + 1" by (simp add: unsigned_of_nat take_bit_nat_eq_self del: of_nat_add of_nat_Suc)
      then have "unat (word_of_nat (l + r + 1) div 2 :: 32 word) = mid" by (simp only: unat_div mid_def) simp
      then have "word_of_nat (l + r + 1) div 2 = (word_of_nat mid :: 32 word)" by (metis unat_inverse)
      then show ?thesis by (simp add: add_ac)
    qed
    have w1: "(word_of_nat mid - 1 :: 32 word) = word_of_nat (mid - 1)" using mid(4) by simp
    have n: "mid * interval < length es" using blk_num_restart [of interval mid "length es"] ok midN mid by (auto simp: blk_ok_def)
    note place = blk_entry_place [OF n, of interval]
    have sh: "blk_shared interval es (mid * interval) = 0" by (simp add: blk_shared_def)
    note words = blk_entry_words [OF ok n, unfolded sh]
    have dec: "DecodeEntry (bi_data it) (unat (word_of_nat (blk_off interval es (mid * interval)) :: 32 word)) (unat (bi_restarts it)) =
        Some (blk_off interval es (mid * interval) + length (blk_head interval es (mid * interval)), 0,
          word_of_nat (length (fst (es ! (mid * interval)))), word_of_nat (length (snd (es ! (mid * interval)))))"
      using decode_blk_entry [OF ok n] over blk_off_word [OF ok, of "mid * interval"] blk_off_word [OF ok order_refl] n
      by (simp add: over_def sh)
    have step: "search_restarts compare le target it (word_of_nat l) (word_of_nat r) =
        (if compare (fst (es ! (mid * interval))) target < 0
         then search_restarts compare le target it (word_of_nat mid) (word_of_nat r)
         else search_restarts compare le target it (word_of_nat l) (word_of_nat (mid - 1)))"
      using True lr dec over restart_point [OF ok over midN, of le] place words
      by (simp add: search_restarts.simps [of compare le target it "word_of_nat l"] Let_def w w1 sh over_def del: of_nat_diff)
    show ?thesis
    proof (cases "compare (fst (es ! (mid * interval))) target < 0")
      case True
      then show ?thesis unfolding step using less.hyps [of r mid] less.prems mid by auto
    next
      case False
      then show ?thesis unfolding step using less.hyps [of "mid - 1" l] less.prems mid by auto
    qed
  qed
qed

lemma seek_scan_pos:
  assumes ok: "blk_ok interval es"
  shows "ready interval es it i \<Longrightarrow> \<forall>j<i. compare (fst (es ! j)) target < 0 \<Longrightarrow>
    \<exists>it'. seek_scan compare le target it = Some it' \<and> block_pos interval es it' (first_ge compare es target)"
proof (induction "length es - i" arbitrary: i it rule: less_induct)
  case less
  have i: "i \<le> length es" using less.prems(1) by (simp add: ready_def)
  obtain it1 where it1: "ParseNextKey le it = Some (i < length es, it1)" "block_pos interval es it1 i"
    using parse_ready [OF ok less.prems(1)] by blast
  show ?case
  proof (cases "i < length es \<and> compare (fst (es ! i)) target < 0")
    case True
    then have "bi_key it1 = fst (es ! i)" using it1(2) by (simp add: block_pos_def)
    then have "seek_scan compare le target it = seek_scan compare le target it1"
      using True it1(1) by (simp add: seek_scan.simps [of compare le target it])
    moreover have "\<forall>j<Suc i. compare (fst (es ! j)) target < 0" using less.prems(2) True by (auto simp: less_Suc_eq)
    ultimately show ?thesis using less.hyps [OF _ ready_next [OF it1(2)]] True by simp
  next
    case False
    then have "first_ge compare es target = i" using i less.prems(2) by (intro first_ge_iff) auto
    moreover have "seek_scan compare le target it = Some it1"
      using False it1 by (auto simp: seek_scan.simps [of compare le target it] block_pos_def)
    ultimately show ?thesis using it1(2) by simp
  qed
qed

subsection \<open>The operations\<close>

lemma block_valid: "blk_ok interval es \<Longrightarrow> block_pos interval es it i \<Longrightarrow> BlockIter_Valid it \<longleftrightarrow> i < length es"
  using blk_off_word [of interval es i] blk_off_word [of interval es "length es"] blk_off_mono [of i "length es" interval es]
  by (auto simp: BlockIter_Valid_def block_pos_def over_def word_less_nat_alt split: if_splits)

lemma block_entry:
  assumes "blk_ok interval es" "block_pos interval es it i" "i < length es"
  shows "BlockIter_key it = Some (fst (es ! i))" "BlockIter_value it = Some (snd (es ! i))"
proof -
  have v: "BlockIter_Valid it" using block_valid [OF assms(1,2)] assms(3) by simp
  have place: "blk_off interval es (Suc i) \<le> length (blk_bytes interval es)"
    "length (snd (es ! i)) \<le> blk_off interval es (Suc i)"
    "take (length (snd (es ! i))) (drop (blk_off interval es (Suc i) - length (snd (es ! i))) (blk_bytes interval es)) = snd (es ! i)"
    using blk_entry_place [OF assms(3), of interval] by (simp, simp, metis diff_add_inverse2)
  show "BlockIter_key it = Some (fst (es ! i))" using v assms(2,3) by (simp add: BlockIter_key_def block_pos_def)
  show "BlockIter_value it = Some (snd (es ! i))"
    using v assms(2,3) place by (simp add: BlockIter_value_def block_pos_def over_def)
qed

lemma block_next:
  assumes "blk_ok interval es" "block_pos interval es it i" "i < length es"
  shows "\<exists>it'. BlockIter_Next le it = Some it' \<and> block_pos interval es it' (Suc i)"
  using parse_ready [OF assms(1) ready_next [OF assms(2,3)], of le] block_valid [OF assms(1,2)] assms(3)
  by (auto simp: BlockIter_Next_def)

lemma block_pos_over: "block_pos interval es it i \<Longrightarrow> over interval es it"
  by (simp add: block_pos_def)

lemma block_first:
  assumes "blk_ok interval es" "block_pos interval es it i"
  shows "\<exists>it'. BlockIter_SeekToFirst le it = Some it' \<and> block_pos interval es it' 0"
proof -
  obtain it1 where it1: "SeekToRestartPoint le 0 it = Some it1" "ready interval es it1 0"
    using seek_restart_ready [OF assms(1) block_pos_over [OF assms(2)] blk_num_pos, of le] by auto
  then show ?thesis using parse_ready [OF assms(1) it1(2), of le] by (auto simp: BlockIter_SeekToFirst_def)
qed

lemma block_last:
  assumes ok: "blk_ok interval es" and pos: "block_pos interval es it i"
  shows "\<exists>it'. BlockIter_SeekToLast le it = Some it' \<and> block_pos interval es it' (length es - 1)"
proof -
  define r where "r = blk_num interval (length es) - 1"
  have r: "r < blk_num interval (length es)" using blk_num_pos [of interval "length es"] by (simp add: r_def)
  have "bi_num_restarts it - 1 = word_of_nat r"
    using pos blk_num_pos [of interval "length es"] by (simp add: block_pos_def over_def r_def)
  then obtain it1 where it1: "SeekToRestartPoint le (bi_num_restarts it - 1) it = Some it1" "ready interval es it1 (r * interval)"
    using seek_restart_ready [OF ok block_pos_over [OF pos] r, of le] by auto
  have "r * interval < length es \<or> length es = 0 \<and> es = []" using blk_num_restart [of interval r "length es"] ok r by (auto simp: blk_ok_def)
  then show ?thesis
    using parse_until_pos [OF ok it1(2), of "length es" le] it1 by (auto simp: BlockIter_SeekToLast_def ready_def over_def)
qed

lemma block_prev:
  assumes ok: "blk_ok interval es" and pos: "block_pos interval es it i" and i: "i < length es"
  shows "\<exists>it'. BlockIter_Prev le it = Some it' \<and> block_pos interval es it' (if i = 0 then length es else i - 1)"
proof -
  obtain r where r: "r < blk_num interval (length es)" "bi_restart_index it = word_of_nat r" "r * interval \<le> i"
    using pos i by (auto simp: block_pos_def near_restart_def)
  have it: "over interval es it" "bi_current it = word_of_nat (blk_off interval es i)" using pos i by (simp_all add: block_pos_def)
  have v: "BlockIter_Valid it" using block_valid [OF ok pos] i by simp
  show ?thesis
  proof (cases "i = 0")
    case True
    then have "r = 0" using r(3) ok by (simp add: blk_ok_def)
    then have "back_restart le (bi_current it) it = Some (False, it\<lparr>bi_current := bi_restarts it, bi_restart_index := bi_num_restarts it\<rparr>)"
      using r restart_point [OF ok it(1) r(1), of le] it(2) True by (simp add: back_restart.simps [of le _ it])
    then show ?thesis using v it(1) True by (simp add: BlockIter_Prev_def block_pos_def over_def)
  next
    case False
    then obtain r' where r': "r' < blk_num interval (length es)" "r' * interval < i"
      "back_restart le (bi_current it) it = Some (True, it\<lparr>bi_restart_index := word_of_nat r'\<rparr>)"
      using back_restart_pos [OF ok i _ it(1) r(2,1,3), of le] it(2) by auto
    have "over interval es (it\<lparr>bi_restart_index := word_of_nat r'\<rparr>)" using it(1) by (simp add: over_def)
    then obtain it1 where it1: "SeekToRestartPoint le (word_of_nat r') (it\<lparr>bi_restart_index := word_of_nat r'\<rparr>) = Some it1"
      "ready interval es it1 (r' * interval)"
      using seek_restart_ready [OF ok _ r'(1)] by blast
    obtain it2 where "parse_until le (bi_current it) it1 = Some it2" "block_pos interval es it2 (i - 1)"
      using parse_until_pos [OF ok it1(2), of i le] r'(2) i it(2) by auto
    then show ?thesis using v r'(3) it1(1) False by (simp add: BlockIter_Prev_def)
  qed
qed

lemma block_seek:
  assumes ok: "blk_ok interval es" and pos: "block_pos interval es it i" and "key_order compare" "ascending compare es"
  shows "\<exists>it'. BlockIter_Seek compare le target it = Some it' \<and> block_pos interval es it' (first_ge compare es target)"
proof -
  have over: "over interval es it" by (rule block_pos_over [OF pos])
  define n where "n = blk_num interval (length es)"
  have "bi_num_restarts it - 1 = word_of_nat (n - 1)"
    using over blk_num_pos [of interval "length es"] by (simp add: over_def n_def)
  then obtain m where m: "m < n" "search_restarts compare le target it 0 (bi_num_restarts it - 1) = Some (Inr (word_of_nat m))"
    "m = 0 \<or> compare (fst (es ! (m * interval))) target < 0"
    using search_restarts_pos [OF ok over, of 0 "n - 1" compare target le] blk_num_pos [of interval "length es"] by (auto simp: n_def)
  obtain it1 where it1: "SeekToRestartPoint le (word_of_nat m) it = Some it1" "ready interval es it1 (m * interval)"
    using seek_restart_ready [OF ok over] m(1) unfolding n_def by blast
  have "\<forall>j<m * interval. compare (fst (es ! j)) target < 0"
  proof (intro allI impI)
    fix j assume j: "j < m * interval"
    then have m0: "m \<noteq> 0" by (cases m) auto
    then have "m * interval < length es" using blk_num_restart [of interval m "length es"] ok m(1) by (auto simp: blk_ok_def n_def)
    then have "compare (fst (es ! j)) (fst (es ! (m * interval))) < 0"
      using assms(4) j by (simp add: ascending_def sorted_wrt_iff_nth_less)
    then show "compare (fst (es ! j)) target < 0" using key_order.less_trans [OF assms(3)] m(3) m0 by blast
  qed
  then show ?thesis using seek_scan_pos [OF ok it1(2)] m(2) it1(1) by (simp add: BlockIter_Seek_def)
qed

text \<open>The iterator of a finished block starts without a position.\<close>

lemma block_new_iterator:
  assumes "blk_ok interval es"
  shows "\<exists>it. Block_NewIterator le (Block_init le (blk_bytes interval es)) = Some (BlockIterator it) \<and> block_pos interval es it (length es)"
proof -
  define n where "n = blk_num interval (length es)"
  define off where "off = blk_off interval es (length es)"
  have len: "length (blk_bytes interval es) = off + 4 * n + 4" by (simp add: length_blk_bytes n_def off_def)
  define ws where "ws = blk_restarts interval es @ [word_of_nat n]"
  have "DecodeFixed32 le (drop (n * 4) (concat (map (word_le 4) ws) @ [])) = ws ! n"
    by (rule decode_fixed_at) (simp add: ws_def length_blk_restarts n_def)
  then have num: "NumRestarts le (blk_bytes interval es) (length (blk_bytes interval es)) = word_of_nat n"
    using len by (simp add: NumRestarts_def blk_bytes_def ws_def n_def nth_append length_blk_restarts off_def blk_off_def mult.commute)
  have w: "unat (word_of_nat n :: 32 word) = n" using blk_num_word(1) [OF assms, of n] by (simp add: n_def)
  have "0 < n" by (simp add: n_def blk_num_pos)
  then have "(word_of_nat n :: 32 word) \<noteq> 0" using w by (metis less_irrefl unat_0)
  moreover have "\<not> n > (length (blk_bytes interval es) - 4) div 4" using len by simp
  moreover have "length (blk_bytes interval es) - (1 + n) * 4 = off" using len by simp
  ultimately show ?thesis
    using num w len
    by (simp add: Block_init_def Let_def Block_NewIterator_def BlockIter_init_def word_neq_0_conv block_pos_def over_def flip: n_def off_def)
qed

subsection \<open>The iterator of a block keeps its promises\<close>

definition block_iterator :: "(slice \<Rightarrow> slice \<Rightarrow> int) \<Rightarrow> (slice \<times> slice) list \<Rightarrow> BlockIter \<Rightarrow> nat \<Rightarrow> bool" where
  "block_iterator compare es it i \<longleftrightarrow> ascending compare es \<and> (\<exists>interval. blk_ok interval es \<and> block_pos interval es it i)"

lemma block_iterator_ops:
  assumes "block_iterator compare es it i"
  shows "BlockIter_Valid it \<longleftrightarrow> i < length es" "i \<le> length es" "ascending compare es"
    "i < length es \<Longrightarrow> BlockIter_key it = Some (fst (es ! i))"
    "i < length es \<Longrightarrow> BlockIter_value it = Some (snd (es ! i))"
    "i < length es \<Longrightarrow> \<exists>it'. BlockIter_Next le it = Some it' \<and> block_iterator compare es it' (Suc i)"
    "i < length es \<Longrightarrow> \<exists>it'. BlockIter_Prev le it = Some it' \<and> block_iterator compare es it' (if i = 0 then length es else i - 1)"
    "\<exists>it'. BlockIter_SeekToFirst le it = Some it' \<and> block_iterator compare es it' 0"
    "\<exists>it'. BlockIter_SeekToLast le it = Some it' \<and> block_iterator compare es it' (length es - 1)"
    "key_order compare \<Longrightarrow> \<exists>it'. BlockIter_Seek compare le target it = Some it' \<and> block_iterator compare es it' (first_ge compare es target)"
proof -
  obtain interval where ok: "blk_ok interval es" and pos: "block_pos interval es it i" and asc: "ascending compare es"
    using assms by (auto simp: block_iterator_def)
  have lift: "\<exists>it'. f = Some it' \<and> block_pos interval es it' j \<Longrightarrow> \<exists>it'. f = Some it' \<and> block_iterator compare es it' j" for f j
    using ok asc by (auto simp: block_iterator_def)
  show "BlockIter_Valid it \<longleftrightarrow> i < length es" by (rule block_valid [OF ok pos])
  show "i \<le> length es" using pos by (simp add: block_pos_def)
  show "ascending compare es" by (rule asc)
  show "i < length es \<Longrightarrow> BlockIter_key it = Some (fst (es ! i))" by (rule block_entry(1) [OF ok pos])
  show "i < length es \<Longrightarrow> BlockIter_value it = Some (snd (es ! i))" by (rule block_entry(2) [OF ok pos])
  show "i < length es \<Longrightarrow> \<exists>it'. BlockIter_Next le it = Some it' \<and> block_iterator compare es it' (Suc i)"
    by (rule lift [OF block_next [OF ok pos]])
  show "i < length es \<Longrightarrow> \<exists>it'. BlockIter_Prev le it = Some it' \<and> block_iterator compare es it' (if i = 0 then length es else i - 1)"
    by (rule lift [OF block_prev [OF ok pos]])
  show "\<exists>it'. BlockIter_SeekToFirst le it = Some it' \<and> block_iterator compare es it' 0"
    by (rule lift [OF block_first [OF ok pos]])
  show "\<exists>it'. BlockIter_SeekToLast le it = Some it' \<and> block_iterator compare es it' (length es - 1)"
    by (rule lift [OF block_last [OF ok pos]])
  show "key_order compare \<Longrightarrow> \<exists>it'. BlockIter_Seek compare le target it = Some it' \<and> block_iterator compare es it' (first_ge compare es target)"
    by (rule lift [OF block_seek [OF ok pos _ asc]])
qed

lemma block_iterator_contract:
  assumes "key_order compare"
  shows "iterator_contract compare BlockIter_Valid BlockIter_key BlockIter_value (BlockIter_Next le) (BlockIter_Prev le)
    (BlockIter_SeekToFirst le) (BlockIter_SeekToLast le) (BlockIter_Seek compare le) (block_iterator compare) (\<lambda>_. True)"
  using assms block_iterator_ops
  by (intro iterator_contract.intro iterator_contract_axioms.intro) simp_all

interpretation bytewise_block: iterator_contract Slice_compare BlockIter_Valid BlockIter_key BlockIter_value "BlockIter_Next le"
  "BlockIter_Prev le" "BlockIter_SeekToFirst le" "BlockIter_SeekToLast le" "BlockIter_Seek Slice_compare le" "block_iterator Slice_compare" "\<lambda>_. True" for le
  by (rule block_iterator_contract) (rule bytewise.key_order_axioms)

text \<open>The iterators that a table uses, empty ones included, form a class.\<close>

primrec table_iterator :: "(slice \<Rightarrow> slice \<Rightarrow> int) \<Rightarrow> (slice \<times> slice) list \<Rightarrow> TableIterator \<Rightarrow> nat \<Rightarrow> bool" where
  "table_iterator compare es (EmptyIterator s) = (\<lambda>i. es = [] \<and> i = 0 \<and> s = Status_OK)"
| "table_iterator compare es (BlockIterator it) = block_iterator compare es it"

lemma table_iterator_class:
  assumes "key_order compare"
  shows "iterator_class compare (TableIterator_vt compare le) (table_iterator compare) (\<lambda>_. True)"
proof -
  have ops: "(vt_Valid (TableIterator_vt compare le) t \<longleftrightarrow> i < length es) \<and> i \<le> length es \<and> ascending compare es \<and>
    (i < length es \<longrightarrow> vt_key (TableIterator_vt compare le) t = Some (fst (es ! i))) \<and>
    (i < length es \<longrightarrow> vt_value (TableIterator_vt compare le) t = Some (snd (es ! i))) \<and>
    (i < length es \<longrightarrow> (\<exists>t'. vt_Next (TableIterator_vt compare le) t = Some t' \<and> table_iterator compare es t' (Suc i))) \<and>
    (i < length es \<longrightarrow> (\<exists>t'. vt_Prev (TableIterator_vt compare le) t = Some t' \<and>
        table_iterator compare es t' (if i = 0 then length es else i - 1))) \<and>
    (\<exists>t'. vt_SeekToFirst (TableIterator_vt compare le) t = Some t' \<and> table_iterator compare es t' 0) \<and>
    (\<exists>t'. vt_SeekToLast (TableIterator_vt compare le) t = Some t' \<and> table_iterator compare es t' (length es - 1)) \<and>
    (\<exists>t'. vt_Seek (TableIterator_vt compare le) target t = Some t' \<and> table_iterator compare es t' (first_ge compare es target)) \<and>
    vt_status (TableIterator_vt compare le) t = Some Status_OK"
    if "table_iterator compare es t i" for es t i target
  proof (cases t)
    case (EmptyIterator s)
    with that show ?thesis by (simp add: TableIterator_vt_def ascending_def first_ge_def)
  next
    case (BlockIterator it)
    with that have it: "block_iterator compare es it i" by simp
    have lift: "\<exists>t'. map_option BlockIterator f = Some t' \<and> table_iterator compare es t' j"
      if "\<exists>it'. f = Some it' \<and> block_iterator compare es it' j" for f j using that by auto
    have "bi_status it = Status_OK" using it by (auto simp: block_iterator_def block_pos_def over_def)
    with BlockIterator show ?thesis
      using block_iterator_ops(1-5) [OF it] lift [OF block_iterator_ops(6) [OF it]] lift [OF block_iterator_ops(7) [OF it]]
        lift [OF block_iterator_ops(8) [OF it]] lift [OF block_iterator_ops(9) [OF it]]
        lift [OF block_iterator_ops(10) [OF it assms]]
      by (simp add: TableIterator_vt_def)
  qed
  show ?thesis
    by (intro iterator_class.intro iterator_contract.intro iterator_contract_axioms.intro iterator_class_axioms.intro assms)
      (use ops in blast)+
qed

interpretation bytewise_table: iterator_class Slice_compare "TableIterator_vt Slice_compare le" "table_iterator Slice_compare" "\<lambda>_. True" for le
  by (rule table_iterator_class) (rule bytewise.key_order_axioms)

subsection \<open>Properties\<close>

lemma build_block:
  assumes "key_order compare" "ascending compare es" "1 \<le> interval"
  shows "BlockBuilder_init interval \<bind> BlockBuilder_AddAll compare interval es = Some (building interval es)"
  using building_add_all [of interval compare "[]" es] assms by (simp add: building_init)

lemma built_iterator:
  assumes "key_order compare" "ascending compare es" "1 \<le> interval"
    "BlockBuilder_init interval \<bind> BlockBuilder_AddAll compare interval es = Some b"
    "BlockBuilder_Finish le b = (contents, b')" "length contents < 2 ^ 31"
  obtains it where "Block_NewIterator le (Block_init le contents) = Some (BlockIterator it)" "block_iterator compare es it (length es)"
proof -
  have "b = building interval es" using build_block [OF assms(1-3)] assms(4) by simp
  then have c: "contents = blk_bytes interval es" using building_finish [of le interval es] assms(5) by simp
  then have ok: "blk_ok interval es" using assms(3,6) by (simp add: blk_ok_def)
  show thesis using block_new_iterator [OF ok, of le] that assms(2) ok unfolding c block_iterator_def by blast
qed

text \<open>
  C13: a block gives its entries back. A block that is built from ascending entries, with any comparator
  and restart interval, has an iterator that visits exactly these entries, in order from
  \<^verbatim>\<open>SeekToFirst\<close> on and in reverse order from \<^verbatim>\<open>SeekToLast\<close> on; the builder does not fail.
\<close>
theorem block_roundtrip:
  assumes "key_order compare" "ascending compare es" "1 \<le> interval"
  shows "\<exists>b. BlockBuilder_init interval \<bind> BlockBuilder_AddAll compare interval es = Some b \<and>
    (length (fst (BlockBuilder_Finish le b)) < 2 ^ 31 \<longrightarrow>
     (\<exists>it. Block_NewIterator le (Block_init le (fst (BlockBuilder_Finish le b))) = Some (BlockIterator it) \<and>
       BlockIter_SeekToFirst le it \<bind> collect BlockIter_Valid BlockIter_key BlockIter_value (BlockIter_Next le) (length es) = Some es \<and>
       BlockIter_SeekToLast le it \<bind> collect BlockIter_Valid BlockIter_key BlockIter_value (BlockIter_Prev le) (length es) = Some (rev es)))"
proof -
  define b where "b = building interval es"
  have build: "BlockBuilder_init interval \<bind> BlockBuilder_AddAll compare interval es = Some b"
    unfolding b_def by (rule build_block [OF assms])
  have "\<exists>it. Block_NewIterator le (Block_init le (fst (BlockBuilder_Finish le b))) = Some (BlockIterator it) \<and>
      BlockIter_SeekToFirst le it \<bind> collect BlockIter_Valid BlockIter_key BlockIter_value (BlockIter_Next le) (length es) = Some es \<and>
      BlockIter_SeekToLast le it \<bind> collect BlockIter_Valid BlockIter_key BlockIter_value (BlockIter_Prev le) (length es) = Some (rev es)"
    if small: "length (fst (BlockBuilder_Finish le b)) < 2 ^ 31"
  proof -
    obtain it where it: "Block_NewIterator le (Block_init le (fst (BlockBuilder_Finish le b))) = Some (BlockIterator it)"
      "block_iterator compare es it (length es)"
      using built_iterator [OF assms build _ small] by (metis prod.collapse)
    note contract = block_iterator_contract [OF assms(1), of le]
    obtain it1 it2 where it1: "BlockIter_SeekToFirst le it = Some it1" "block_iterator compare es it1 0"
      and it2: "BlockIter_SeekToLast le it = Some it2" "block_iterator compare es it2 (length es - 1)"
      using block_iterator_ops(8,9) [OF it(2)] by metis
    have "collect BlockIter_Valid BlockIter_key BlockIter_value (BlockIter_Next le) (length es) it1 = Some es"
      using iterator_contract.collect_forward [OF contract it1(2), of "length es"] by simp
    moreover have "collect BlockIter_Valid BlockIter_key BlockIter_value (BlockIter_Prev le) (length es) it2 = Some (rev es)"
      using iterator_contract.collect_backward [OF contract it2(2), of "length es"] block_iterator_ops(1) [OF it2(2)] by (cases es) simp_all
    ultimately show ?thesis using it(1) it1(1) it2(1) by simp
  qed
  with build show ?thesis by blast
qed

theorem block_roundtrip_witness:
  "\<exists>b. BlockBuilder_init 2 \<bind> BlockBuilder_AddAll Slice_compare 2 [([1], [7]), ([1, 2], []), ([3], [8, 9])] = Some b \<and>
    (length (fst (BlockBuilder_Finish True b)) < 2 ^ 31 \<longrightarrow>
     (\<exists>it. Block_NewIterator True (Block_init True (fst (BlockBuilder_Finish True b))) = Some (BlockIterator it) \<and>
       BlockIter_SeekToFirst True it \<bind> collect BlockIter_Valid BlockIter_key BlockIter_value (BlockIter_Next True) 3 =
         Some [([1], [7]), ([1, 2], []), ([3], [8, 9])]))"
  using block_roundtrip [OF bytewise.key_order_axioms, of "[([1], [7]), ([1, 2], []), ([3], [8, 9])]" 2 True]
  by (auto simp: ascending_def numeral_3_eq_3)

text \<open>
  C12: from any position of an iterator over a block, \<^verbatim>\<open>Seek\<close> returns, without an error, at the first entry
  whose key is at or past the target: what is left to read are the entries from there on.
\<close>
theorem block_seek_correct:
  assumes "key_order compare" "block_iterator compare es it i"
  shows "\<exists>it'. BlockIter_Seek compare le target it = Some it' \<and> bi_status it' = Status_OK \<and>
    collect BlockIter_Valid BlockIter_key BlockIter_value (BlockIter_Next le) (length es) it' =
      Some (dropWhile (\<lambda>e. compare (fst e) target < 0) es)"
proof -
  obtain it' where it': "BlockIter_Seek compare le target it = Some it'" "block_iterator compare es it' (first_ge compare es target)"
    using block_iterator_ops(10) [OF assms(2,1)] by blast
  have "collect BlockIter_Valid BlockIter_key BlockIter_value (BlockIter_Next le) (length es) it' = Some (drop (first_ge compare es target) es)"
    by (rule iterator_contract.collect_forward [OF block_iterator_contract [OF assms(1)] it'(2)]) simp
  moreover have "drop (first_ge compare es target) es = dropWhile (\<lambda>e. compare (fst e) target < 0) es"
    by (simp add: first_ge_def dropWhile_eq_drop)
  moreover have "bi_status it' = Status_OK" using it'(2) by (auto simp: block_iterator_def block_pos_def over_def)
  ultimately show ?thesis using it'(1) by simp
qed

lemma ex_block:
  obtains it where "block_iterator Slice_compare [([1], [7]), ([3], [8, 9])] it 2"
proof -
  have "blk_ok 2 [([1], [7]), ([3], [8, 9])]"
    by (simp add: blk_ok_def length_blk_bytes blk_num_def blk_off_def blk_data_def blk_entry_def blk_head_def blk_shared_def
        EncodeVarint32_def upt_rec)
  moreover from this obtain it where "block_pos 2 [([1], [7]), ([3], [8, 9])] it 2"
    using block_new_iterator [of 2 "[([1], [7]), ([3], [8, 9])]" True] by (auto simp: numeral_2_eq_2)
  ultimately show thesis using that by (fastforce simp: block_iterator_def ascending_def)
qed

theorem block_seek_correct_witness:
  "\<exists>it it'. block_iterator Slice_compare [([1], [7]), ([3], [8, 9])] it 2 \<and> BlockIter_Seek Slice_compare True [2] it = Some it' \<and>
    collect BlockIter_Valid BlockIter_key BlockIter_value (BlockIter_Next True) 2 it' = Some [([3], [8, 9])]"
proof -
  obtain it where it: "block_iterator Slice_compare [([1], [7]), ([3], [8, 9])] it 2" by (rule ex_block)
  have l: "length [([1], [7]), ([3], [8, 9]) :: slice \<times> slice] = 2" by simp
  have d: "dropWhile (\<lambda>e. Slice_compare (fst e) [2] < 0) [([1], [7]), ([3], [8, 9])] = [([3], [8, 9])]" by simp
  from block_seek_correct [OF bytewise.key_order_axioms it, of True "[2]", unfolded l d] it show ?thesis by blast
qed

text \<open>
  The contents of a block with one restart point whose first entry has a header that announces \<open>ns\<close> key bytes and
  \<open>vl\<close> value bytes; \<open>body\<close> is what follows the header, of any length.
\<close>

definition first_header :: "32 word \<Rightarrow> 32 word \<Rightarrow> byte list" where
  "first_header ns vl = EncodeVarint32 0 @ EncodeVarint32 ns @ EncodeVarint32 vl"

definition first_block :: "bool \<Rightarrow> 32 word \<Rightarrow> 32 word \<Rightarrow> byte list \<Rightarrow> byte list" where
  "first_block le ns vl body = first_header ns vl @ body @ EncodeFixed32 le 0 @ EncodeFixed32 le 1"

lemma length_first_header: "0 < length (first_header ns vl)" "length (first_header ns vl) \<le> 15"
  using length_EncodeVarint32 [of 0] length_EncodeVarint32 [of ns] length_EncodeVarint32 [of vl] unfolding first_header_def length_append
  by linarith+

lemma corruption_error: "\<exists>it'. CorruptionError it = Some it' \<and> \<not> BlockIter_Valid it' \<and> Status_IsCorruption (bi_status it')"
  by (simp add: CorruptionError_def Status_Corruption_def Status_init_def BlockIter_Valid_def Status_IsCorruption_def Status_code_def nth_append)

lemma first_block_step:
  assumes "length body < 2 ^ 31"
  shows "\<exists>it st. Block_NewIterator le (Block_init le (first_block le ns vl body)) = Some (BlockIterator it) \<and>
    bi_status it = Status_OK \<and>
    BlockIter_SeekToFirst le it =
      (if unat (ns + vl) > length body then CorruptionError st
       else if unat ns > length body + 8 then None
       else Some (it\<lparr>bi_current := 0, bi_restart_index := 0, bi_key := take (unat ns) (body @ EncodeFixed32 le 0 @ EncodeFixed32 le 1),
              bi_value := Some (length (first_header ns vl) + unat ns, unat vl)\<rparr>)) \<and>
    bi_data it = first_block le ns vl body \<and> unat (bi_restarts it) = length (first_header ns vl) + length body"
proof -
  define h where "h = length (first_header ns vl)"
  define data where "data = first_block le ns vl body"
  define r where "r = (word_of_nat (h + length body) :: 32 word)"
  define it where "it = \<lparr>bi_data = data, bi_restarts = r, bi_num_restarts = 1, bi_current = r,
    bi_restart_index = 1, bi_key = [], bi_value = None, bi_status = Status_OK\<rparr>"
  note h = length_first_header [of ns vl, folded h_def]
  have len: "length data = h + length body + 8" by (simp add: data_def first_block_def h_def)
  have small: "unat r = h + length body"
    using h assms by (simp add: r_def unat_of_nat del: of_nat_add)
  have d: "drop (h + length body) data = EncodeFixed32 le 0 @ EncodeFixed32 le 1" "drop (4 + (h + length body)) data = EncodeFixed32 le 1"
    by (simp_all add: data_def first_block_def h_def)
  have num: "NumRestarts le data (length data) = 1" using d(2) coding_fixed32 [of le le 1 "[]"] by (simp add: NumRestarts_def len)
  have point: "DecodeFixed32 le (drop (h + length body) data) = 0" unfolding d(1) by (rule coding_fixed32)
  have new: "Block_NewIterator le (Block_init le data) = Some (BlockIterator it)"
    using num by (simp add: Block_init_def Let_def len Block_NewIterator_def BlockIter_init_def it_def r_def)
  have pos: "r \<noteq> 0" using h(1) small by auto
  define st where "st = it\<lparr>bi_key := [], bi_restart_index := 0, bi_value := Some (0, 0), bi_current := 0\<rparr>"
  have "take (h + length body - 0) (drop 0 data) = (EncodeVarint32 0 @ EncodeVarint32 ns @ EncodeVarint32 vl) @ body"
    by (simp add: data_def first_block_def h_def first_header_def)
  from DecodeEntry_bytes [OF _ this] have e: "DecodeEntry data 0 (h + length body) =
      (if (word_of_nat (length body) :: 32 word) < ns + vl then None else Some (h, 0, ns, vl))"
    by (simp add: h_def first_header_def)
  have lt: "(word_of_nat (length body) :: 32 word) < ns + vl \<longleftrightarrow> length body < unat (ns + vl)"
    using assms by (simp add: word_less_nat_alt unat_of_nat)
  have k: "drop h data = body @ EncodeFixed32 le 0 @ EncodeFixed32 le 1" by (simp add: data_def first_block_def h_def)
  have adv: "advance_restart le x = x" if "bi_restart_index x = 0" "bi_num_restarts x = 1" for x
    by (subst advance_restart.simps) (simp add: that)
  have "BlockIter_SeekToFirst le it = map_option snd (ParseNextKey le (it\<lparr>bi_key := [], bi_restart_index := 0, bi_value := Some (0, 0)\<rparr>))"
    using point small by (simp add: BlockIter_SeekToFirst_def SeekToRestartPoint_def GetRestartPoint_def it_def)
  also have "\<dots> = (if unat (ns + vl) > length body then CorruptionError st
       else if unat ns > length body + 8 then None
       else Some (it\<lparr>bi_current := 0, bi_restart_index := 0, bi_key := take (unat ns) (body @ EncodeFixed32 le 0 @ EncodeFixed32 le 1),
              bi_value := Some (h + unat ns, unat vl)\<rparr>))"
    using pos small e lt k len adv
    by (auto simp: ParseNextKey_def NextEntryOffset_def it_def st_def Let_def option.map_comp comp_def option.map_ident)
  finally show ?thesis using new small by (intro exI [of _ it] exI [of _ st]) (simp add: data_def h_def it_def)
qed

text \<open>
  C40: the first step over a block whose first entry may be damaged, for all lengths that its header can announce.
  If the key and the value fit between the header and the restart array, the iterator is at an entry with
  exactly these bytes. If they do not fit, it reports a corruption, but only as long as the sum of the two lengths,
  which \<^verbatim>\<open>DecodeEntry\<close> computes in 32 bits, does not fit either. If the sum wraps around and fits, the entry is accepted: the
  iterator then copies key bytes from behind the block, or, if the key ends inside the block, offers a value
  that reaches behind it.
\<close>
theorem block_length_overflow:
  assumes "length body < 2 ^ 31"
  shows "\<exists>it. Block_NewIterator le (Block_init le (first_block le ns vl body)) = Some (BlockIterator it) \<and>
    (unat ns + unat vl \<le> length body \<longrightarrow>
       (\<exists>it'. BlockIter_SeekToFirst le it = Some it' \<and> BlockIter_key it' = Some (take (unat ns) body) \<and>
          BlockIter_value it' = Some (take (unat vl) (drop (unat ns) body)) \<and> bi_status it' = Status_OK)) \<and>
    (length body < (unat ns + unat vl) mod 2 ^ 32 \<longrightarrow>
       (\<exists>it'. BlockIter_SeekToFirst le it = Some it' \<and> \<not> BlockIter_Valid it' \<and> Status_IsCorruption (bi_status it'))) \<and>
    (2 ^ 32 \<le> unat ns + unat vl \<and> unat ns + unat vl - 2 ^ 32 \<le> length body \<longrightarrow>
       (if length body + 8 < unat ns then BlockIter_SeekToFirst le it = None
        else \<exists>it'. BlockIter_SeekToFirst le it = Some it' \<and> BlockIter_Valid it' \<and> bi_status it' = Status_OK \<and> BlockIter_value it' = None))"
proof -
  obtain it st where new: "Block_NewIterator le (Block_init le (first_block le ns vl body)) = Some (BlockIterator it)"
    and it: "bi_status it = Status_OK" "bi_data it = first_block le ns vl body" "unat (bi_restarts it) = length (first_header ns vl) + length body"
    and seek: "BlockIter_SeekToFirst le it = (if unat (ns + vl) > length body then CorruptionError st
       else if unat ns > length body + 8 then None
       else Some (it\<lparr>bi_current := 0, bi_restart_index := 0, bi_key := take (unat ns) (body @ EncodeFixed32 le 0 @ EncodeFixed32 le 1),
              bi_value := Some (length (first_header ns vl) + unat ns, unat vl)\<rparr>))"
    using first_block_step [OF assms, of le ns vl] by blast
  have sum: "unat (ns + vl) = (unat ns + unat vl) mod 2 ^ 32" by (simp add: unat_word_ariths)
  have pos: "0 < bi_restarts it" using it(3) length_first_header(1) [of ns vl] by (simp add: word_less_nat_alt)
  have ns: "unat ns < 2 ^ 32" "unat vl < 2 ^ 32" using unsigned_less [of ns] unsigned_less [of vl] by simp_all
  show ?thesis
  proof (rule exI [of _ it], intro conjI impI new)
    assume f: "unat ns + unat vl \<le> length body"
    then have "unat (ns + vl) \<le> length body" unfolding sum using mod_less_eq_dividend le_trans by blast
    then show "\<exists>it'. BlockIter_SeekToFirst le it = Some it' \<and> BlockIter_key it' = Some (take (unat ns) body) \<and>
        BlockIter_value it' = Some (take (unat vl) (drop (unat ns) body)) \<and> bi_status it' = Status_OK"
      using f pos it unfolding seek by (simp add: BlockIter_key_def BlockIter_value_def BlockIter_Valid_def first_block_def)
  next
    assume "length body < (unat ns + unat vl) mod 2 ^ 32"
    then show "\<exists>it'. BlockIter_SeekToFirst le it = Some it' \<and> \<not> BlockIter_Valid it' \<and> Status_IsCorruption (bi_status it')"
      using corruption_error [of st] unfolding seek sum by simp
  next
    assume w: "2 ^ 32 \<le> unat ns + unat vl \<and> unat ns + unat vl - 2 ^ 32 \<le> length body"
    then have "(unat ns + unat vl) mod 2 ^ 32 = unat ns + unat vl - 2 ^ 32" using ns by (simp add: le_mod_geq)
    then have a: "\<not> unat (ns + vl) > length body" unfolding sum using w by simp
    have "length (first_block le ns vl body) < unat ns + unat vl" using w assms length_first_header(2) [of ns vl] by (simp add: first_block_def)
    then show "if length body + 8 < unat ns then BlockIter_SeekToFirst le it = None
        else \<exists>it'. BlockIter_SeekToFirst le it = Some it' \<and> BlockIter_Valid it' \<and> bi_status it' = Status_OK \<and> BlockIter_value it' = None"
      using a pos it unfolding seek by (simp add: BlockIter_value_def BlockIter_Valid_def)
  qed
qed

theorem block_length_overflow_witness:
  "\<exists>it. Block_NewIterator True (Block_init True (first_block True 0xFFFFFFFF 1 [])) = Some (BlockIterator it) \<and> BlockIter_SeekToFirst True it = None"
  using block_length_overflow [where body = "[]" and le = True and ns = "0xFFFFFFFF" and vl = "1"] by auto

end
