(* ===== verification/LDB_Arena.thy ===== *)
theory LDB_Arena
  imports PB_Prelude
begin

text \<open>
  The arena of leveldb, \<^verbatim>\<open>util/arena.h\<close> and \<^verbatim>\<open>util/arena.cc\<close>, which hands out memory for memtables and
  skip lists and gives all of it back at once. Addresses and sizes are 64-bit words.

  The memory that \<^verbatim>\<open>new char[]\<close> manages is the list of the live arrays. The language leaves their
  addresses open; \<open>pick\<close> stands for the choice, and \<open>new_array\<close> accepts every choice that the language
  allows (a fresh region, aligned for an object of its size) and fails (\<^verbatim>\<open>std::bad_alloc\<close>) on any
  other, so that a theorem for all \<open>pick\<close> is one for all implementations.

  The locale \<open>allocator\<close> is what a client of an allocator relies on. It is interpreted twice: by
  \<open>new_array\<close> and by the arena on top of it.
\<close>

type_synonym addr64 = "64 word"

definition region :: "addr64 \<Rightarrow> 64 word \<Rightarrow> nat set" where
  "region p n = {unat p ..< unat p + unat n}"

datatype alloc_error = Bad_alloc | Assertion_failed

subsection \<open>Arrays of the C++ heap\<close>

type_synonym cxx_heap = "(addr64 \<times> 64 word) list"

definition new_allowed :: "cxx_heap \<Rightarrow> addr64 \<Rightarrow> 64 word \<Rightarrow> bool" where
  "new_allowed h p n \<longleftrightarrow> p \<noteq> 0 \<and> unat p + unat n < 2 ^ 64 \<and> (8 \<le> n \<longrightarrow> unat p mod 8 = 0) \<and>
     list_all (\<lambda>(q, m). p \<noteq> q \<and> (unat p + unat n \<le> unat q \<or> unat q + unat m \<le> unat p)) h"

definition new_array ::
    "(64 word \<Rightarrow> cxx_heap \<Rightarrow> addr64 option) \<Rightarrow> 64 word \<Rightarrow> cxx_heap \<Rightarrow> alloc_error + addr64 \<times> cxx_heap" where
  "new_array pick n h =
     (case pick n h of None \<Rightarrow> Inl Bad_alloc
      | Some p \<Rightarrow> if new_allowed h p n then Inr (p, (p, n) # h) else Inl Bad_alloc)"

definition delete_array :: "addr64 \<Rightarrow> cxx_heap \<Rightarrow> cxx_heap option" where
  "delete_array p h = (if p \<in> fst ` set h then Some (filter (\<lambda>(q, m). q \<noteq> p) h) else None)"

subsection \<open>The arena\<close>

record Arena =
  alloc_ptr :: addr64
  alloc_bytes_remaining :: "64 word"
  arena_blocks :: "addr64 list"
  blocks_memory :: "64 word"

definition Arena_kBlockSize :: "64 word" where "Arena_kBlockSize = 4096"

definition Arena_init :: Arena where
  "Arena_init = \<lparr>alloc_ptr = 0, alloc_bytes_remaining = 0, arena_blocks = [], blocks_memory = 0\<rparr>"

text \<open>The destructor; \<open>None\<close> if it deletes something that is not a live array.\<close>

definition Arena_destroy :: "Arena \<Rightarrow> cxx_heap \<Rightarrow> cxx_heap option" where
  "Arena_destroy a h = foldl (\<lambda>h p. Option.bind h (delete_array p)) (Some h) (arena_blocks a)"

type_synonym arena_heap = "Arena \<times> cxx_heap"

definition AllocateNewBlock ::
    "(64 word \<Rightarrow> cxx_heap \<Rightarrow> addr64 option) \<Rightarrow> 64 word \<Rightarrow> arena_heap \<Rightarrow> alloc_error + addr64 \<times> arena_heap" where
  "AllocateNewBlock pick block_bytes = (\<lambda>(a, h).
     case new_array pick block_bytes h of Inl e \<Rightarrow> Inl e
     | Inr (result, h) \<Rightarrow>
         Inr (result, a\<lparr>blocks_memory := blocks_memory a + block_bytes, arena_blocks := arena_blocks a @ [result]\<rparr>, h))"

definition AllocateFallback ::
    "(64 word \<Rightarrow> cxx_heap \<Rightarrow> addr64 option) \<Rightarrow> 64 word \<Rightarrow> arena_heap \<Rightarrow> alloc_error + addr64 \<times> arena_heap" where
  "AllocateFallback pick bytes s =
     (if bytes > Arena_kBlockSize div 4 then AllocateNewBlock pick bytes s
      else case AllocateNewBlock pick Arena_kBlockSize s of Inl e \<Rightarrow> Inl e
        | Inr (result, a, h) \<Rightarrow>
            Inr (result, a\<lparr>alloc_ptr := result + bytes, alloc_bytes_remaining := Arena_kBlockSize - bytes\<rparr>, h))"

definition Arena_Allocate ::
    "(64 word \<Rightarrow> cxx_heap \<Rightarrow> addr64 option) \<Rightarrow> 64 word \<Rightarrow> arena_heap \<Rightarrow> alloc_error + addr64 \<times> arena_heap" where
  "Arena_Allocate pick bytes = (\<lambda>(a, h).
     if bytes = 0 then Inl Assertion_failed
     else if bytes \<le> alloc_bytes_remaining a then
       Inr (alloc_ptr a, a\<lparr>alloc_ptr := alloc_ptr a + bytes, alloc_bytes_remaining := alloc_bytes_remaining a - bytes\<rparr>, h)
     else AllocateFallback pick bytes (a, h))"

definition AllocateAligned ::
    "(64 word \<Rightarrow> cxx_heap \<Rightarrow> addr64 option) \<Rightarrow> 64 word \<Rightarrow> arena_heap \<Rightarrow> alloc_error + addr64 \<times> arena_heap" where
  "AllocateAligned pick bytes = (\<lambda>(a, h).
     let align = 8;
         current_mod = alloc_ptr a AND (align - 1);
         slop = (if current_mod = 0 then 0 else align - current_mod);
         needed = bytes + slop
     in case (if needed \<le> alloc_bytes_remaining a then
                Inr (alloc_ptr a + slop,
                     a\<lparr>alloc_ptr := alloc_ptr a + needed, alloc_bytes_remaining := alloc_bytes_remaining a - needed\<rparr>, h)
              else AllocateFallback pick bytes (a, h))
        of Inl e \<Rightarrow> Inl e
        | Inr (result, s) \<Rightarrow> if result AND (align - 1) = 0 then Inr (result, s) else Inl Assertion_failed)"

definition MemoryUsage :: "nat \<Rightarrow> Arena \<Rightarrow> 64 word" where
  "MemoryUsage capacity a = blocks_memory a + word_of_nat capacity * 8"

text \<open>The requests of a client: either of the two functions, for a number of bytes.\<close>

datatype request = Plain "64 word" | Aligned "64 word"

primrec request_size :: "request \<Rightarrow> 64 word" where
  "request_size (Plain n) = n" | "request_size (Aligned n) = n"

primrec arena_serve ::
    "(64 word \<Rightarrow> cxx_heap \<Rightarrow> addr64 option) \<Rightarrow> request \<Rightarrow> arena_heap \<Rightarrow> alloc_error + addr64 \<times> arena_heap" where
  "arena_serve pick (Plain n) = Arena_Allocate pick n"
| "arena_serve pick (Aligned n) = AllocateAligned pick n"

primrec serve_all ::
    "('r \<Rightarrow> 'h \<Rightarrow> alloc_error + addr64 \<times> 'h) \<Rightarrow> 'r list \<Rightarrow> 'h \<Rightarrow> alloc_error + addr64 list \<times> 'h" where
  "serve_all alloc [] h = Inr ([], h)"
| "serve_all alloc (r # rs) h =
     (case alloc r h of Inl e \<Rightarrow> Inl e
      | Inr (p, h) \<Rightarrow> (case serve_all alloc rs h of Inl e \<Rightarrow> Inl e | Inr (ps, h) \<Rightarrow> Inr (p # ps, h)))"

subsection \<open>What an allocator promises\<close>

locale allocator =
  fixes alloc :: "'r \<Rightarrow> 'h \<Rightarrow> alloc_error + addr64 \<times> 'h"
    and req_size :: "'r \<Rightarrow> 64 word"
    and allowed :: "'r \<Rightarrow> bool"
    and ok :: "'h \<Rightarrow> bool"
    and used :: "'h \<Rightarrow> nat set"
    and aligned_for :: "'r \<Rightarrow> addr64 \<Rightarrow> bool"
  assumes alloc_ok: "ok h \<Longrightarrow> allowed r \<Longrightarrow> alloc r h = Inr (p, h') \<Longrightarrow> ok h'"
    and alloc_fresh: "ok h \<Longrightarrow> allowed r \<Longrightarrow> alloc r h = Inr (p, h') \<Longrightarrow> region p (req_size r) \<inter> used h = {}"
    and alloc_used: "ok h \<Longrightarrow> allowed r \<Longrightarrow> alloc r h = Inr (p, h') \<Longrightarrow> region p (req_size r) \<union> used h \<subseteq> used h'"
    and alloc_aligned: "ok h \<Longrightarrow> allowed r \<Longrightarrow> alloc r h = Inr (p, h') \<Longrightarrow> aligned_for r p"
    and alloc_no_assertion: "ok h \<Longrightarrow> allowed r \<Longrightarrow> alloc r h \<noteq> Inl Assertion_failed"
begin

lemma serve_all_ok: "ok h \<Longrightarrow> list_all allowed rs \<Longrightarrow> serve_all alloc rs h = Inr (ps, h') \<Longrightarrow> ok h'"
proof (induction rs arbitrary: h ps)
  case (Cons r rs)
  then obtain p h1 qs where "alloc r h = Inr (p, h1)" "serve_all alloc rs h1 = Inr (qs, h')"
    by (auto split: sum.splits)
  then show ?case using Cons.IH [of h1 qs] Cons.prems alloc_ok [of h r p h1] by simp
qed simp

lemma serve_all_no_assertion:
  "ok h \<Longrightarrow> list_all allowed rs \<Longrightarrow> serve_all alloc rs h \<noteq> Inl Assertion_failed"
proof (induction rs arbitrary: h)
  case (Cons r rs)
  show ?case
  proof (cases "alloc r h")
    case (Inl e)
    then show ?thesis using alloc_no_assertion [of h r] Cons.prems by simp
  next
    case (Inr x)
    then show ?thesis
      using Cons.IH [of "snd x"] Cons.prems alloc_ok [of h r "fst x" "snd x"] by (auto split: sum.splits prod.splits)
  qed
qed simp

lemma serve_all_regions:
  assumes "ok h" "list_all allowed rs" "serve_all alloc rs h = Inr (ps, h')"
  shows "length ps = length rs \<and> used h \<subseteq> used h' \<and>
    (\<forall>i<length rs. region (ps ! i) (req_size (rs ! i)) \<subseteq> used h' - used h) \<and>
    (\<forall>i<length rs. aligned_for (rs ! i) (ps ! i)) \<and>
    (\<forall>i<length rs. \<forall>j<i. region (ps ! i) (req_size (rs ! i)) \<inter> region (ps ! j) (req_size (rs ! j)) = {})"
  using assms
proof (induction rs arbitrary: h ps)
  case (Cons r rs)
  obtain p h1 qs where step: "alloc r h = Inr (p, h1)" "serve_all alloc rs h1 = Inr (qs, h')" "ps = p # qs"
    using Cons.prems(3) by (auto split: sum.splits)
  note now = alloc_fresh [OF _ _ step(1)] alloc_used [OF _ _ step(1)]
  have "ok h1" using alloc_ok [OF _ _ step(1)] Cons.prems(1,2) by simp
  then have IH: "length qs = length rs" "used h1 \<subseteq> used h'"
      "\<And>i. i < length rs \<Longrightarrow> region (qs ! i) (req_size (rs ! i)) \<subseteq> used h' - used h1"
      "\<And>i. i < length rs \<Longrightarrow> aligned_for (rs ! i) (qs ! i)"
      "\<And>i j. i < length rs \<Longrightarrow> j < i \<Longrightarrow> region (qs ! i) (req_size (rs ! i)) \<inter> region (qs ! j) (req_size (rs ! j)) = {}"
    using Cons.IH [of h1 qs] Cons.prems(2) step(2) by auto
  have first: "region p (req_size r) \<subseteq> used h1 - used h" "used h \<subseteq> used h1" using now Cons.prems by auto
  have in_used: "region (ps ! i) (req_size ((r # rs) ! i)) \<subseteq> used h' - used h" if "i < length (r # rs)" for i
  proof (cases i)
    case 0
    then show ?thesis using first IH(2) step(3) by auto
  next
    case (Suc k)
    then show ?thesis using IH(3) [of k] first(2) that step(3) by auto
  qed
  have apart: "region (ps ! i) (req_size ((r # rs) ! i)) \<inter> region (ps ! j) (req_size ((r # rs) ! j)) = {}"
    if "i < length (r # rs)" "j < i" for i j
  proof (cases j)
    case 0
    then show ?thesis using that IH(3) [of "i - 1"] first step(3) by (cases i) auto
  next
    case (Suc k)
    then show ?thesis using that IH(5) [of "i - 1" k] step(3) by (cases i) auto
  qed
  have "aligned_for ((r # rs) ! i) (ps ! i)" if "i < length (r # rs)" for i
    using that IH(4) alloc_aligned [OF _ _ step(1)] Cons.prems(1,2) step(3) by (cases i) auto
  then show ?case using IH(1,2) first(2) in_used apart step(3) by auto
qed simp

end

subsection \<open>Arrays of the heap keep the promises\<close>

primrec heap_ok :: "cxx_heap \<Rightarrow> bool" where
  "heap_ok [] \<longleftrightarrow> True"
| "heap_ok (b # h) \<longleftrightarrow> new_allowed h (fst b) (snd b) \<and> heap_ok h"

definition heap_used :: "cxx_heap \<Rightarrow> nat set" where
  "heap_used h = (\<Union>(q, m) \<in> set h. region q m)"

lemma heap_used_simps [simp]: "heap_used [] = {}" "heap_used (b # h) = region (fst b) (snd b) \<union> heap_used h"
  by (auto simp: heap_used_def split: prod.splits)

lemma new_allowed_fresh: "new_allowed h p n \<Longrightarrow> region p n \<inter> heap_used h = {} \<and> p \<notin> fst ` set h"
  by (fastforce simp: new_allowed_def heap_used_def region_def list_all_iff)

lemma new_allowed_aligned: "new_allowed h p n \<Longrightarrow> 8 \<le> n \<Longrightarrow> unat p mod 8 = 0"
  by (simp add: new_allowed_def)

lemma new_array_Inr:
  "new_array pick n h = Inr (p, h') \<longleftrightarrow> pick n h = Some p \<and> new_allowed h p n \<and> h' = (p, n) # h"
  by (auto simp: new_array_def split: option.splits)

lemma new_array_Inl: "new_array pick n h = Inl e \<Longrightarrow> e = Bad_alloc"
  by (auto simp: new_array_def split: option.splits if_splits)

interpretation cxx_new: allocator "new_array pick" "\<lambda>n. n" "\<lambda>n. True" heap_ok heap_used "\<lambda>n p. 8 \<le> n \<longrightarrow> unat p mod 8 = 0" for pick
  by unfold_locales (auto simp: new_array_Inr dest: new_array_Inl new_allowed_fresh new_allowed_aligned simp del: dvd_imp_mod_0 mod_0_imp_dvd)

lemma heap_ok_distinct: "heap_ok h \<Longrightarrow> distinct (map fst h)"
  by (induction h) (auto dest: new_allowed_fresh)

lemma heap_ok_range: "heap_ok h \<Longrightarrow> (q, m) \<in> set h \<Longrightarrow> unat q + unat m < 2 ^ 64"
  by (induction h) (auto simp: new_allowed_def)

lemma heap_ok_aligned: "heap_ok h \<Longrightarrow> (q, m) \<in> set h \<Longrightarrow> 8 \<le> m \<Longrightarrow> unat q mod 8 = 0"
  by (induction h) (auto simp: new_allowed_def)

subsection \<open>The arena keeps the promises\<close>

text \<open>
  The invariant: the blocks are live arrays without repetition, their sizes sum up to \<^verbatim>\<open>blocks_memory_\<close>,
  and the bytes that remain are the end of one of them.
\<close>

definition arena_ok :: "arena_heap \<Rightarrow> bool" where
  "arena_ok = (\<lambda>(a, h). heap_ok h \<and> distinct (arena_blocks a) \<and> set (arena_blocks a) \<subseteq> fst ` set h \<and>
     blocks_memory a = sum_list (map (\<lambda>q. the (map_of h q)) (arena_blocks a)) \<and>
     (alloc_bytes_remaining a \<noteq> 0 \<longrightarrow>
        (\<exists>(q, m) \<in> set h. q \<in> set (arena_blocks a) \<and> unat q \<le> unat (alloc_ptr a) \<and>
           unat (alloc_ptr a) + unat (alloc_bytes_remaining a) = unat q + unat m)))"

definition arena_used :: "arena_heap \<Rightarrow> nat set" where
  "arena_used = (\<lambda>(a, h). heap_used h - region (alloc_ptr a) (alloc_bytes_remaining a))"

lemma region_bump:
  assumes "unat p + unat r < 2 ^ 64" "n \<le> r"
  shows "region p r = region p n \<union> region (p + n) (r - n)" "region p n \<inter> region (p + n) (r - n) = {}"
    "unat (p + n) = unat p + unat n" "unat (r - n) = unat r - unat n"
proof -
  show 1: "unat (r - n) = unat r - unat n" using assms(2) by (simp add: unat_sub)
  have n: "unat n \<le> unat r" using assms(2) by (simp add: word_le_nat_alt)
  then show 2: "unat (p + n) = unat p + unat n" using assms(1) by (simp add: unat_word_ariths)
  show "region p r = region p n \<union> region (p + n) (r - n)" "region p n \<inter> region (p + n) (r - n) = {}"
    using n by (auto simp: region_def 1 2)
qed

lemma arena_remaining:
  assumes "arena_ok (a, h)"
  shows "region (alloc_ptr a) (alloc_bytes_remaining a) \<subseteq> heap_used h"
    "alloc_bytes_remaining a \<noteq> 0 \<Longrightarrow> unat (alloc_ptr a) + unat (alloc_bytes_remaining a) < 2 ^ 64"
proof -
  have *: "\<exists>(q, m) \<in> set h. unat q \<le> unat (alloc_ptr a) \<and>
      unat (alloc_ptr a) + unat (alloc_bytes_remaining a) = unat q + unat m" if "alloc_bytes_remaining a \<noteq> 0"
    using assms that by (auto simp: arena_ok_def)
  show "unat (alloc_ptr a) + unat (alloc_bytes_remaining a) < 2 ^ 64" if "alloc_bytes_remaining a \<noteq> 0"
    using * [OF that] heap_ok_range [of h] assms by (auto simp: arena_ok_def)
  show "region (alloc_ptr a) (alloc_bytes_remaining a) \<subseteq> heap_used h"
  proof (cases "alloc_bytes_remaining a = 0")
    case False
    then obtain q m where "(q, m) \<in> set h" "region (alloc_ptr a) (alloc_bytes_remaining a) \<subseteq> region q m"
      using * by (auto simp: region_def)
    then show ?thesis by (force simp: heap_used_def)
  qed (simp add: region_def)
qed

text \<open>The first \<open>n\<close> of the bytes that remain are taken.\<close>

lemma arena_take:
  assumes "arena_ok (a, h)" "n \<le> alloc_bytes_remaining a"
  defines "a' \<equiv> a\<lparr>alloc_ptr := alloc_ptr a + n, alloc_bytes_remaining := alloc_bytes_remaining a - n\<rparr>"
  shows "arena_ok (a', h)" "arena_used (a', h) = arena_used (a, h) \<union> region (alloc_ptr a) n"
    "region (alloc_ptr a) n \<inter> arena_used (a, h) = {}"
proof -
  note rem = arena_remaining [OF assms(1)]
  have *: "arena_ok (a', h) \<and> arena_used (a', h) = arena_used (a, h) \<union> region (alloc_ptr a) n \<and>
    region (alloc_ptr a) n \<inter> arena_used (a, h) = {}"
  proof (cases "alloc_bytes_remaining a = 0")
    case True
    then have "n = 0" using assms(2) by simp
    then show ?thesis using assms(1) True by (simp add: a'_def region_def arena_ok_def arena_used_def)
  next
    case False
    note bump = region_bump [OF rem(2) [OF False] assms(2)]
    have "arena_ok (a', h)"
      using assms(1,2) False unfolding arena_ok_def a'_def by (force simp: bump(3,4) word_le_nat_alt)
    then show ?thesis using bump(1,2) rem(1) by (auto simp: arena_used_def a'_def)
  qed
  then show "arena_ok (a', h)" "arena_used (a', h) = arena_used (a, h) \<union> region (alloc_ptr a) n"
    "region (alloc_ptr a) n \<inter> arena_used (a, h) = {}" by simp_all
qed

lemma arena_new_block:
  assumes "arena_ok (a, h)" "AllocateNewBlock pick n (a, h) = Inr (p, a', h')"
  shows "arena_ok (a', h')" "arena_used (a', h') = arena_used (a, h) \<union> region p n" "h' = (p, n) # h"
    "p \<in> set (arena_blocks a')" "region p n \<inter> heap_used h = {}"
    "8 \<le> n \<Longrightarrow> unat p mod 8 = 0" "unat p + unat n < 2 ^ 64"
proof -
  have new: "new_allowed h p n" "h' = (p, n) # h"
      "a' = a\<lparr>blocks_memory := blocks_memory a + n, arena_blocks := arena_blocks a @ [p]\<rparr>"
    using assms(2) by (auto simp: AllocateNewBlock_def new_array_Inr split: sum.splits)
  note fresh = new_allowed_fresh [OF new(1)]
  have "p \<notin> set (arena_blocks a)" using fresh assms(1) by (auto simp: arena_ok_def)
  moreover from this have "sum_list (map (\<lambda>q. the (if q = p then Some n else map_of h q)) (arena_blocks a)) =
      sum_list (map (\<lambda>q. the (map_of h q)) (arena_blocks a))"
    by (intro arg_cong [of _ _ sum_list] map_cong) auto
  ultimately show "arena_ok (a', h')"
    using assms(1) new by (auto simp: arena_ok_def)
  show "arena_used (a', h') = arena_used (a, h) \<union> region p n"
    using fresh arena_remaining(1) [OF assms(1)] new by (auto simp: arena_used_def)
  show "h' = (p, n) # h" "p \<in> set (arena_blocks a')" "region p n \<inter> heap_used h = {}" using new fresh by auto
  show "8 \<le> n \<Longrightarrow> unat p mod 8 = 0" "unat p + unat n < 2 ^ 64" using new(1) by (auto simp: new_allowed_def)
qed

text \<open>What either function does in an arena that is well-formed: the regions are fresh, and used after it.\<close>

definition serves :: "arena_heap \<Rightarrow> 64 word \<Rightarrow> addr64 \<Rightarrow> arena_heap \<Rightarrow> bool" where
  "serves s n p s' \<longleftrightarrow> arena_ok s' \<and> region p n \<inter> arena_used s = {} \<and> region p n \<union> arena_used s \<subseteq> arena_used s'"

lemma AllocateFallback_serves:
  assumes "arena_ok s" "AllocateFallback pick bytes s = Inr (p, s')"
  shows "serves s bytes p s'" "unat p mod 8 = 0"
proof -
  obtain a h where s: "s = (a, h)" by (cases s)
  have "serves s bytes p s' \<and> unat p mod 8 = 0"
  proof (cases "bytes > Arena_kBlockSize div 4")
    case True
    then have new: "AllocateNewBlock pick bytes (a, h) = Inr (p, fst s', snd s')"
      using assms(2) by (simp add: AllocateFallback_def s)
    have "8 \<le> bytes" using True by (simp add: Arena_kBlockSize_def word_less_nat_alt word_le_nat_alt)
    then show ?thesis
      using arena_new_block [OF assms(1) [unfolded s] new] by (cases s') (auto simp: serves_def s arena_used_def)
  next
    case False
    obtain a1 h1 where new: "AllocateNewBlock pick Arena_kBlockSize (a, h) = Inr (p, a1, h1)"
        and s': "s' = (a1\<lparr>alloc_ptr := p + bytes, alloc_bytes_remaining := Arena_kBlockSize - bytes\<rparr>, h1)"
      using assms(2) False by (auto simp: AllocateFallback_def s split: sum.splits)
    note blk = arena_new_block [OF assms(1) [unfolded s] new]
    define a2 where "a2 = a1\<lparr>alloc_ptr := p, alloc_bytes_remaining := Arena_kBlockSize\<rparr>"
    have "arena_ok (a2, h1)" using blk(1,3,4) by (auto simp: arena_ok_def a2_def)
    moreover have le: "bytes \<le> alloc_bytes_remaining a2"
      using False by (simp add: a2_def Arena_kBlockSize_def word_le_nat_alt word_less_nat_alt)
    ultimately have "arena_ok s'" "arena_used s' = arena_used (a2, h1) \<union> region p bytes"
      "region p bytes \<inter> arena_used (a2, h1) = {}"
      using arena_take [of a2 h1 bytes] by (simp_all add: s' a2_def)
    moreover have "arena_used (a, h) \<subseteq> arena_used (a2, h1)"
      using blk(3,5) by (auto simp: arena_used_def a2_def)
    moreover have "unat p mod 8 = 0" using blk(6) by (simp add: Arena_kBlockSize_def)
    ultimately show ?thesis by (auto simp: serves_def s)
  qed
  then show "serves s bytes p s'" "unat p mod 8 = 0" by simp_all
qed

lemma AllocateFallback_no_assertion: "AllocateFallback pick bytes s \<noteq> Inl Assertion_failed"
  by (cases s) (auto simp: AllocateFallback_def AllocateNewBlock_def split: sum.splits dest: new_array_Inl)

lemma Allocate_serves:
  assumes "arena_ok s" "Arena_Allocate pick bytes s = Inr (p, s')"
  shows "serves s bytes p s'"
proof -
  obtain a h where s: "s = (a, h)" by (cases s)
  show ?thesis
  proof (cases "bytes \<le> alloc_bytes_remaining a")
    case True
    then show ?thesis
      using assms arena_take [OF assms(1) [unfolded s] True] by (auto simp: Arena_Allocate_def s serves_def split: if_splits)
  next
    case False
    then show ?thesis
      using assms AllocateFallback_serves(1) [OF assms(1)] by (auto simp: Arena_Allocate_def s split: if_splits)
  qed
qed

lemma and_7: "unat (w AND 7 :: 64 word) = unat w mod 8"
proof -
  have "w AND 7 = take_bit 3 w" by (simp only: take_bit_eq_mask) (simp add: mask_eq_exp_minus_1)
  then have "unat (w AND 7) = take_bit 3 (unat w)" by (simp only: unsigned_take_bit_eq)
  then show ?thesis by (simp add: take_bit_eq_mod)
qed

lemma and_7_zero: "(w AND 7 :: 64 word) = 0 \<longleftrightarrow> unat w mod 8 = 0"
  by (metis and_7 unsigned_0 word_unat_eq_iff)

text \<open>The distance to the next aligned address.\<close>

definition slop_of :: "addr64 \<Rightarrow> 64 word" where
  "slop_of p = (if p AND 7 = 0 then 0 else 8 - (p AND 7))"

lemma unat_slop: "unat (slop_of p) = (if unat p mod 8 = 0 then 0 else 8 - unat p mod 8)"
proof (cases "unat p mod 8 = 0")
  case False
  have "(p AND 7) \<le> 8" using and_7 [of p] by (simp add: word_le_nat_alt)
  then show ?thesis using False by (simp add: slop_of_def and_7_zero unat_sub and_7)
qed (simp add: slop_of_def and_7_zero)

lemma slop_aligned: "unat p + unat (slop_of p) < 2 ^ 64 \<Longrightarrow> unat (p + slop_of p) mod 8 = 0"
proof -
  assume "unat p + unat (slop_of p) < 2 ^ 64"
  then have "unat (p + slop_of p) = unat p + unat (slop_of p)" by (simp add: unat_word_ariths)
  moreover have "(unat p + unat (slop_of p)) mod 8 = 0" unfolding unat_slop by presburger
  ultimately show ?thesis by simp
qed

lemma AllocateAligned_slop:
  "AllocateAligned pick bytes (a, h) =
     (case (if bytes + slop_of (alloc_ptr a) \<le> alloc_bytes_remaining a then
              Inr (alloc_ptr a + slop_of (alloc_ptr a),
                   a\<lparr>alloc_ptr := alloc_ptr a + (bytes + slop_of (alloc_ptr a)),
                     alloc_bytes_remaining := alloc_bytes_remaining a - (bytes + slop_of (alloc_ptr a))\<rparr>, h)
            else AllocateFallback pick bytes (a, h))
      of Inl e \<Rightarrow> Inl e
      | Inr (result, s) \<Rightarrow> if unat result mod 8 = 0 then Inr (result, s) else Inl Assertion_failed)"
proof -
  have "(8 - 1 :: 64 word) = 7" by simp
  then show ?thesis unfolding AllocateAligned_def Let_def split and_7_zero [symmetric] by (simp only: slop_of_def)
qed

lemma AllocateAligned_serves:
  assumes "arena_ok s" "unat bytes + 7 < 2 ^ 64"
  shows "AllocateAligned pick bytes s \<noteq> Inl Assertion_failed"
    "AllocateAligned pick bytes s = Inr (p, s') \<Longrightarrow> serves s bytes p s' \<and> unat p mod 8 = 0"
proof -
  obtain a h where s: "s = (a, h)" by (cases s)
  define slop where "slop = slop_of (alloc_ptr a)"
  have needed: "unat (bytes + slop) = unat bytes + unat slop"
    using assms(2) by (simp add: unat_word_ariths slop_def unat_slop)
  have "AllocateAligned pick bytes s \<noteq> Inl Assertion_failed \<and>
    (AllocateAligned pick bytes s = Inr (p, s') \<longrightarrow> serves s bytes p s' \<and> unat p mod 8 = 0)"
  proof (cases "bytes + slop \<le> alloc_bytes_remaining a")
    case False
    then show ?thesis
      using AllocateFallback_serves [OF assms(1)] AllocateFallback_no_assertion [of pick bytes s]
      by (auto simp: AllocateAligned_slop s simp flip: slop_def split: sum.splits)
  next
    case True
    have room: "unat (alloc_ptr a) + unat (bytes + slop) < 2 ^ 64 \<or> bytes + slop = 0"
      using arena_remaining(2) [OF assms(1) [unfolded s]] True
      by (cases "alloc_bytes_remaining a = 0") (auto simp: word_le_nat_alt word_unat_eq_iff)
    then have sum: "unat (alloc_ptr a) + unat slop < 2 ^ 64"
      using needed unsigned_less [of "alloc_ptr a"] by (cases "bytes + slop = 0") auto
    have aligned: "unat (alloc_ptr a + slop) mod 8 = 0" using slop_aligned [of "alloc_ptr a"] sum by (simp add: slop_def)
    have "unat (alloc_ptr a + slop) = unat (alloc_ptr a) + unat slop" using sum by (simp add: unat_word_ariths)
    then have "region (alloc_ptr a + slop) bytes \<subseteq> region (alloc_ptr a) (bytes + slop)"
      using needed by (auto simp: region_def)
    then show ?thesis
      using True aligned arena_take [OF assms(1) [unfolded s] True]
      by (auto simp: AllocateAligned_slop s serves_def simp flip: slop_def)
  qed
  then show "AllocateAligned pick bytes s \<noteq> Inl Assertion_failed"
    "AllocateAligned pick bytes s = Inr (p, s') \<Longrightarrow> serves s bytes p s' \<and> unat p mod 8 = 0" by simp_all
qed

definition request_allowed :: "request \<Rightarrow> bool" where
  "request_allowed r = (case r of Plain n \<Rightarrow> n \<noteq> 0 | Aligned n \<Rightarrow> unat n + 7 < 2 ^ 64)"

definition request_aligned :: "request \<Rightarrow> addr64 \<Rightarrow> bool" where
  "request_aligned r p = (case r of Plain n \<Rightarrow> True | Aligned n \<Rightarrow> unat p mod 8 = 0)"

lemma arena_serve_serves:
  assumes "arena_ok s" "request_allowed r"
  shows "arena_serve pick r s \<noteq> Inl Assertion_failed"
    "arena_serve pick r s = Inr (p, s') \<Longrightarrow> serves s (request_size r) p s' \<and> request_aligned r p"
proof -
  have plain: "Arena_Allocate pick n s \<noteq> Inl Assertion_failed" if "n \<noteq> 0" for n
    using that AllocateFallback_no_assertion by (cases s) (simp add: Arena_Allocate_def)
  show "arena_serve pick r s \<noteq> Inl Assertion_failed"
    using assms plain AllocateAligned_serves(1) by (cases r) (simp_all add: request_allowed_def)
  assume served: "arena_serve pick r s = Inr (p, s')"
  show "serves s (request_size r) p s' \<and> request_aligned r p"
  proof (cases r)
    case (Plain n)
    then show ?thesis using Allocate_serves [OF assms(1), of pick n p s'] served by (simp add: request_aligned_def)
  next
    case (Aligned n)
    then show ?thesis
      using AllocateAligned_serves(2) [OF assms(1), of n pick p s'] served assms(2)
      by (simp add: request_aligned_def request_allowed_def)
  qed
qed

interpretation arena: allocator "arena_serve pick" request_size request_allowed arena_ok arena_used request_aligned for pick
proof
  fix s r p s'
  assume "arena_ok s" "request_allowed r" "arena_serve pick r s = Inr (p, s')"
  then have "serves s (request_size r) p s' \<and> request_aligned r p" by (rule arena_serve_serves(2))
  then show "arena_ok s'" "region p (request_size r) \<inter> arena_used s = {}"
    "region p (request_size r) \<union> arena_used s \<subseteq> arena_used s'" "request_aligned r p" by (simp_all add: serves_def)
qed (rule arena_serve_serves(1))

subsection \<open>Giving the memory back\<close>

lemma delete_all:
  assumes "distinct ps" "set ps \<subseteq> fst ` set h"
  shows "foldl (\<lambda>h p. Option.bind h (delete_array p)) (Some h) ps = Some (filter (\<lambda>(q, m). q \<notin> set ps) h)"
  using assms
proof (induction ps arbitrary: h)
  case (Cons p ps)
  have "set ps \<subseteq> fst ` set (filter (\<lambda>(q, m). q \<noteq> p) h)" using Cons.prems by (fastforce simp: image_iff)
  then show ?case
    using Cons.IH [of "filter (\<lambda>(q, m). q \<noteq> p) h"] Cons.prems
    by (simp add: delete_array_def) (auto intro!: filter_cong split: prod.splits)
qed simp

text \<open>The arrays of the arena are in front of those that were live before.\<close>

definition arena_on :: "cxx_heap \<Rightarrow> arena_heap \<Rightarrow> bool" where
  "arena_on h0 = (\<lambda>(a, h). \<exists>bs. h = bs @ h0 \<and> map fst bs = rev (arena_blocks a))"

lemma arena_on_block:
  "arena_on h0 s \<Longrightarrow> AllocateNewBlock pick n s = Inr (p, s') \<Longrightarrow> arena_on h0 s'"
  by (force simp: arena_on_def AllocateNewBlock_def new_array_Inr split: sum.splits prod.splits)

lemma arena_on_more:
  "arena_on h0 (a, h) \<Longrightarrow> arena_on h0 (a\<lparr>alloc_ptr := q, alloc_bytes_remaining := r\<rparr>, h)"
  by (simp add: arena_on_def)

lemma arena_on_fallback:
  "arena_on h0 s \<Longrightarrow> AllocateFallback pick n s = Inr (p, s') \<Longrightarrow> arena_on h0 s'"
  by (auto simp: AllocateFallback_def split: if_splits sum.splits dest: arena_on_block intro!: arena_on_more)

lemma arena_on_serve:
  assumes "arena_on h0 s" "arena_serve pick r s = Inr (p, s')"
  shows "arena_on h0 s'"
proof -
  obtain a h where s: "s = (a, h)" by (cases s)
  show ?thesis
    using assms arena_on_fallback [OF assms(1)]
    by (cases r) (auto simp: s Arena_Allocate_def AllocateAligned_slop split: if_splits sum.splits intro: arena_on_more)
qed

lemma arena_on_all: "arena_on h0 s \<Longrightarrow> serve_all (arena_serve pick) rs s = Inr (ps, s') \<Longrightarrow> arena_on h0 s'"
proof (induction rs arbitrary: s ps)
  case (Cons r rs)
  then obtain p s1 qs where "arena_serve pick r s = Inr (p, s1)" "serve_all (arena_serve pick) rs s1 = Inr (qs, s')"
    by (auto split: sum.splits)
  then show ?case using Cons.IH [of s1 qs] Cons.prems(1) arena_on_serve by blast
qed simp

lemma arena_on_destroy:
  assumes "arena_on h0 (a, h)" "arena_ok (a, h)"
  shows "Arena_destroy a h = Some h0"
proof -
  obtain bs where bs: "h = bs @ h0" "map fst bs = rev (arena_blocks a)" using assms(1) by (auto simp: arena_on_def)
  then have blocks: "set (arena_blocks a) = fst ` set bs" by (metis list.set_map set_rev)
  have "fst ` set bs \<inter> fst ` set h0 = {}" using heap_ok_distinct [of h] assms(2) bs(1) by (simp add: arena_ok_def)
  then have "filter (\<lambda>(q, m). q \<notin> set (arena_blocks a)) bs = []" "filter (\<lambda>(q, m). q \<notin> set (arena_blocks a)) h0 = h0"
    unfolding blocks by (force simp: filter_empty_conv, force simp: filter_id_conv)
  moreover have "distinct (arena_blocks a)" "set (arena_blocks a) \<subseteq> fst ` set h" using assms(2) by (auto simp: arena_ok_def)
  ultimately show ?thesis using delete_all [of "arena_blocks a" h] bs(1) by (simp add: Arena_destroy_def)
qed

subsection \<open>The invariant over any sequence of requests\<close>

text \<open>
  C25: the invariant of the arena. Start from an empty arena over any live arrays, and serve any sequence of
  calls of \<^verbatim>\<open>Allocate\<close> (of at least one byte) and \<^verbatim>\<open>AllocateAligned\<close> (of fewer than \<open>2 ^ 64 - 7\<close> bytes), whatever
  addresses \<^verbatim>\<open>new\<close> chooses. No assertion fails; and unless \<^verbatim>\<open>new\<close> fails, the invariant holds (blocks are
  live arrays without repetition, \<^verbatim>\<open>blocks_memory_\<close> is the sum of their sizes, the remaining bytes end a
  block); the regions that were handed out lie in new live arrays and are pairwise disjoint, those of
  \<^verbatim>\<open>AllocateAligned\<close> at multiples of 8; and the destructor frees the arrays of the arena, each once, and nothing else.
\<close>

theorem arena_invariant:
  assumes "heap_ok h0" "list_all request_allowed rs"
  shows "serve_all (arena_serve pick) rs (Arena_init, h0) \<noteq> Inl Assertion_failed \<and>
    (\<forall>ps a h. serve_all (arena_serve pick) rs (Arena_init, h0) = Inr (ps, a, h) \<longrightarrow>
       arena_ok (a, h) \<and> length ps = length rs \<and>
       (\<forall>i<length rs. region (ps ! i) (request_size (rs ! i)) \<subseteq> heap_used h - heap_used h0) \<and>
       (\<forall>i<length rs. \<forall>j<i. region (ps ! i) (request_size (rs ! i)) \<inter> region (ps ! j) (request_size (rs ! j)) = {}) \<and>
       (\<forall>i<length rs. request_aligned (rs ! i) (ps ! i)) \<and>
       Arena_destroy a h = Some h0)"
proof (intro conjI allI impI)
  have ok: "arena_ok (Arena_init, h0)" using assms(1) by (simp add: arena_ok_def Arena_init_def)
  have used: "arena_used (Arena_init, h0) = heap_used h0" by (simp add: arena_used_def Arena_init_def region_def)
  show "serve_all (arena_serve pick) rs (Arena_init, h0) \<noteq> Inl Assertion_failed"
    by (rule arena.serve_all_no_assertion [OF ok assms(2)])
  fix ps a h
  assume run: "serve_all (arena_serve pick) rs (Arena_init, h0) = Inr (ps, a, h)"
  note regions = arena.serve_all_regions [OF ok assms(2) run, unfolded used]
  show ok': "arena_ok (a, h)" by (rule arena.serve_all_ok [OF ok assms(2) run])
  have "arena_used (a, h) \<subseteq> heap_used h" by (auto simp: arena_used_def)
  then show "region (ps ! i) (request_size (rs ! i)) \<subseteq> heap_used h - heap_used h0" if "i < length rs" for i
    using regions that by blast
  have "arena_on h0 (Arena_init, h0)" by (simp add: arena_on_def Arena_init_def)
  then show "Arena_destroy a h = Some h0" using arena_on_all run ok' by (intro arena_on_destroy) blast
qed (use arena.serve_all_regions [of "(Arena_init, h0)" rs pick] assms in \<open>auto simp: arena_ok_def Arena_init_def\<close>)

text \<open>Four requests, with blocks at 8192 and 16384: the third is too large for a shared block.\<close>

definition sample_pick :: "64 word \<Rightarrow> cxx_heap \<Rightarrow> addr64 option" where
  "sample_pick n h = Some (if h = [] then 8192 else 16384)"

lemma sample_arena:
  "serve_all (arena_serve sample_pick) [Plain 3, Aligned 16, Plain 4080, Aligned 5] (Arena_init, []) =
     Inr ([8192, 8200, 16384, 8216],
          \<lparr>alloc_ptr = 8221, alloc_bytes_remaining = 4067, arena_blocks = [8192, 16384], blocks_memory = 8176\<rparr>,
          [(16384, 4080), (8192, 4096)])"
  by (simp add: Arena_Allocate_def Arena_init_def AllocateFallback_def AllocateNewBlock_def AllocateAligned_def
      new_array_def new_allowed_def sample_pick_def Arena_kBlockSize_def Let_def)

theorem arena_invariant_witness:
  "list_all request_allowed [Plain 3, Aligned 16, Plain 4080, Aligned 5] \<and>
   region 8200 16 \<inter> region 8192 3 = {} \<and>
   Arena_destroy \<lparr>alloc_ptr = 8221, alloc_bytes_remaining = 4067, arena_blocks = [8192, 16384], blocks_memory = 8176\<rparr>
     [(16384, 4080), (8192, 4096)] = Some []"
proof -
  define rs where "rs = [Plain 3, Aligned 16, Plain 4080, Aligned 5]"
  have ok: "list_all request_allowed rs" by (simp add: rs_def request_allowed_def)
  have "heap_ok []" by simp
  note all = conjunct2 [OF arena_invariant [OF this ok, of sample_pick], rule_format, OF sample_arena [folded rs_def]]
  have "\<forall>i<length rs. \<forall>j<i. region ([8192, 8200, 16384, 8216] ! i) (request_size (rs ! i)) \<inter>
      region ([8192, 8200, 16384, 8216] ! j) (request_size (rs ! j)) = {}"
    using all by blast
  from this [rule_format, of 1 0] show ?thesis using ok all by (simp add: rs_def)
qed

end
