(* ===== verification/LDB_Table_Format.thy ===== *)
theory LDB_Table_Format
  imports LDB_Coding LDB_Crc32c LDB_Env LDB_Block
begin

text \<open>
  The format of table files, \<^verbatim>\<open>table/format.h\<close> and \<^verbatim>\<open>table/format.cc\<close>: handles of blocks, the footer, and the
  function that reads a block from a file. Random-access files (\<^verbatim>\<open>util/env_posix.cc\<close>) are read-only: a function of
  offset and length, with the contract \<open>random_access_file\<close>.

  The build does not define \<^verbatim>\<open>SNAPPY\<close>, so the functions of \<^verbatim>\<open>port/port_posix.h\<close> refuse to compress and to
  uncompress. An operation is \<open>None\<close> where an assertion fails or a byte outside a buffer is read.
\<close>

subsection \<open>Random-access files\<close>

text \<open>
  The result of \<^verbatim>\<open>Read\<close> is a status, the bytes, and whether they are in the buffer of the caller. A file descriptor is
  the bytes of the file, or the text of an error that \<^verbatim>\<open>pread\<close> reports.
\<close>

type_synonym RandomAccessFile = "64 word \<Rightarrow> 64 word \<Rightarrow> (Status \<times> slice \<times> bool) option"

record PosixRandomAccessFile =
  ra_filename :: "byte list"
  ra_data :: "byte list"
  ra_error :: "byte list option"

definition PosixRandomAccessFile_Read :: "PosixRandomAccessFile \<Rightarrow> RandomAccessFile" where
  "PosixRandomAccessFile_Read f offset n =
     (case (if sint offset < 0 then Some (str ''Invalid argument'') else ra_error f) of
        Some err \<Rightarrow> do { s \<leftarrow> Status_IOError (ra_filename f) err; Some (s, [], True) }
      | None \<Rightarrow> Some (Status_OK, take (unat n) (drop (unat offset) (ra_data f)), True))"

record PosixMmapReadableFile =
  mm_filename :: "byte list"
  mm_region :: "byte list"

definition PosixMmapReadableFile_Read :: "PosixMmapReadableFile \<Rightarrow> RandomAccessFile" where
  "PosixMmapReadableFile_Read f offset n =
     (if offset + n > word_of_nat (length (mm_region f)) then
        do { s \<leftarrow> Status_IOError (mm_filename f) (str ''Invalid argument''); Some (s, [], False) }
      else if unat offset + unat n \<le> length (mm_region f) then
        Some (Status_OK, take (unat n) (drop (unat offset) (mm_region f)), False)
      else None)"

text \<open>What readers rely on: bytes that exist are returned. Offsets of a file are below \<open>2 ^ 63\<close>.\<close>

locale random_access_file =
  fixes file_read :: RandomAccessFile
    and file_bytes :: "byte list"
  assumes read_inside: "unat offset + unat n \<le> length file_bytes \<Longrightarrow> length file_bytes < 2 ^ 63 \<Longrightarrow>
    \<exists>in_buf. file_read offset n = Some (Status_OK, take (unat n) (drop (unat offset) file_bytes), in_buf)"

lemma sint_small: "unat (w :: 64 word) < 2 ^ 63 \<Longrightarrow> \<not> sint w < 0"
proof -
  assume "unat w < 2 ^ 63"
  then have "uint w < int (2 ^ 63)" by (simp only: unat_eq_nat_uint nat_less_iff [OF uint_ge_0])
  then have "uint w < 2 ^ 63" by simp
  then have "signed_take_bit 63 (uint w) = uint w" by (intro signed_take_bit_int_eq_self order.trans [OF _ uint_ge_0]) simp_all
  moreover have "sint w = signed_take_bit 63 (uint w)" by (simp add: sint_uint)
  ultimately show ?thesis by simp
qed

interpretation posix_ra: random_access_file
  "PosixRandomAccessFile_Read \<lparr>ra_filename = name, ra_data = data, ra_error = None\<rparr>" data for name data
proof
  fix offset n :: "64 word"
  assume "unat offset + unat n \<le> length data" "length data < 2 ^ 63"
  then have "\<not> sint offset < 0" by (intro sint_small) linarith
  then show "\<exists>in_buf. PosixRandomAccessFile_Read \<lparr>ra_filename = name, ra_data = data, ra_error = None\<rparr> offset n =
      Some (Status_OK, take (unat n) (drop (unat offset) data), in_buf)"
    by (auto simp: PosixRandomAccessFile_Read_def)
qed

interpretation mmap_ra: random_access_file "PosixMmapReadableFile_Read \<lparr>mm_filename = name, mm_region = data\<rparr>" data for name data
proof
  fix offset n :: "64 word"
  assume inside: "unat offset + unat n \<le> length data" and len: "length data < 2 ^ 63"
  then have "unat (offset + n) = unat offset + unat n" by (simp add: unat_word_ariths)
  moreover have "unat (word_of_nat (length data) :: 64 word) = length data" using len by (simp add: unat_of_nat)
  ultimately have "\<not> offset + n > word_of_nat (length data)" using inside by (simp add: word_less_nat_alt)
  then show "\<exists>in_buf. PosixMmapReadableFile_Read \<lparr>mm_filename = name, mm_region = data\<rparr> offset n =
      Some (Status_OK, take (unat n) (drop (unat offset) data), in_buf)"
    using inside by (auto simp: PosixMmapReadableFile_Read_def)
qed

subsection \<open>Handles of blocks\<close>

record BlockHandle =
  bh_offset :: "64 word"
  bh_size :: "64 word"

definition BlockHandle_init :: BlockHandle where "BlockHandle_init = \<lparr>bh_offset = - 1, bh_size = - 1\<rparr>"

definition kMaxEncodedLength :: nat where "kMaxEncodedLength = 10 + 10"

definition BlockHandle_EncodeTo :: "BlockHandle \<Rightarrow> byte list \<Rightarrow> byte list option" where
  "BlockHandle_EncodeTo h dst =
     (if bh_offset h \<noteq> - 1 \<and> bh_size h \<noteq> - 1 then Some (PutVarint64 (PutVarint64 dst (bh_offset h)) (bh_size h)) else None)"

definition BlockHandle_DecodeFrom :: "slice \<Rightarrow> BlockHandle \<Rightarrow> (Status \<times> slice \<times> BlockHandle) option" where
  "BlockHandle_DecodeFrom input h =
     (case GetVarint64 input of
        None \<Rightarrow> do { s \<leftarrow> Status_Corruption (str ''bad block handle'') []; Some (s, input, h) }
      | Some (offset, input) \<Rightarrow>
          let h = h\<lparr>bh_offset := offset\<rparr> in
          (case GetVarint64 input of
             None \<Rightarrow> do { s \<leftarrow> Status_Corruption (str ''bad block handle'') []; Some (s, input, h) }
           | Some (sz, input) \<Rightarrow> Some (Status_OK, input, h\<lparr>bh_size := sz\<rparr>)))"

subsection \<open>The footer\<close>

record Footer =
  metaindex_handle :: BlockHandle
  index_handle :: BlockHandle

definition Footer_init :: Footer where
  "Footer_init = \<lparr>metaindex_handle = BlockHandle_init, index_handle = BlockHandle_init\<rparr>"

definition Footer_kEncodedLength :: nat where "Footer_kEncodedLength = 2 * kMaxEncodedLength + 8"

definition kTableMagicNumber :: "64 word" where "kTableMagicNumber = 0xdb4775248b80fb57"

text \<open>\<^verbatim>\<open>std::string::resize\<close>.\<close>

definition resize :: "nat \<Rightarrow> byte list \<Rightarrow> byte list" where
  "resize n dst = take n dst @ replicate (n - length dst) 0"

definition Footer_EncodeTo :: "bool \<Rightarrow> Footer \<Rightarrow> byte list \<Rightarrow> byte list option" where
  "Footer_EncodeTo le f dst =
     do {
       let original_size = length dst;
       dst \<leftarrow> BlockHandle_EncodeTo (metaindex_handle f) dst;
       dst \<leftarrow> BlockHandle_EncodeTo (index_handle f) dst;
       let dst = resize (2 * kMaxEncodedLength) dst;
       let dst = PutFixed32 le dst (ucast (kTableMagicNumber AND 0xffffffff));
       let dst = PutFixed32 le dst (ucast (drop_bit 32 kTableMagicNumber));
       if length dst = original_size + Footer_kEncodedLength then Some dst else None
     }"

definition Footer_DecodeFrom :: "bool \<Rightarrow> slice \<Rightarrow> Footer \<Rightarrow> (Status \<times> slice \<times> Footer) option" where
  "Footer_DecodeFrom le input f =
     (if length input < Footer_kEncodedLength then None
      else
        let magic_ptr = Footer_kEncodedLength - 8;
            magic_lo = DecodeFixed32 le (drop magic_ptr input);
            magic_hi = DecodeFixed32 le (drop (magic_ptr + 4) input);
            magic :: 64 word = push_bit 32 (ucast magic_hi) OR ucast magic_lo
        in if magic \<noteq> kTableMagicNumber then
             do { s \<leftarrow> Status_Corruption (str ''not an sstable (bad magic number)'') []; Some (s, input, f) }
           else
             do {
               (result, rest, h) \<leftarrow> BlockHandle_DecodeFrom input (metaindex_handle f);
               let f = f\<lparr>metaindex_handle := h\<rparr>;
               (result, rest, f) \<leftarrow>
                 (if Status_ok result then
                    do { (result, rest, h) \<leftarrow> BlockHandle_DecodeFrom rest (index_handle f); Some (result, rest, f\<lparr>index_handle := h\<rparr>) }
                  else Some (result, rest, f));
               if Status_ok result then Some (result, drop (magic_ptr + 8) input, f) else Some (result, rest, f)
             })"

subsection \<open>Reading a block\<close>

datatype CompressionType = kNoCompression | kSnappyCompression

primrec CompressionType_byte :: "CompressionType \<Rightarrow> byte" where
  "CompressionType_byte kNoCompression = 0" | "CompressionType_byte kSnappyCompression = 1"

definition Snappy_Compress :: "byte list \<Rightarrow> byte list option" where "Snappy_Compress input = None"

definition Snappy_GetUncompressedLength :: "byte list \<Rightarrow> nat option" where "Snappy_GetUncompressedLength input = None"

definition Snappy_Uncompress :: "byte list \<Rightarrow> byte list option" where "Snappy_Uncompress input = None"

definition kBlockTrailerSize :: nat where "kBlockTrailerSize = 5"

record BlockContents =
  bc_data :: slice
  bc_cachable :: bool
  bc_heap_allocated :: bool

definition BlockContents_init :: BlockContents where
  "BlockContents_init = \<lparr>bc_data = [], bc_cachable = False, bc_heap_allocated = False\<rparr>"

text \<open>The part of \<^verbatim>\<open>ReadBlock\<close> behind the check of the length: \<open>contents\<close> are the bytes that were read.\<close>

definition check_block :: "bool \<Rightarrow> bool \<Rightarrow> nat \<Rightarrow> slice \<Rightarrow> bool \<Rightarrow> (Status \<times> BlockContents) option" where
  "check_block le verify_checksums n contents in_buf =
     (if length contents < n + kBlockTrailerSize then None
      else if verify_checksums \<and> Value le 0 (take (n + 1) contents) \<noteq> Unmask (DecodeFixed32 le (drop (n + 1) contents)) then
        do { s \<leftarrow> Status_Corruption (str ''block checksum mismatch'') []; Some (s, BlockContents_init) }
      else if contents ! n = CompressionType_byte kNoCompression then
        Some (Status_OK, \<lparr>bc_data = take n contents, bc_cachable = in_buf, bc_heap_allocated = in_buf\<rparr>)
      else if contents ! n = CompressionType_byte kSnappyCompression then
        (case Snappy_GetUncompressedLength (take n contents) of
           None \<Rightarrow> do { s \<leftarrow> Status_Corruption (str ''corrupted compressed block contents'') []; Some (s, BlockContents_init) }
         | Some ulength \<Rightarrow>
             (case Snappy_Uncompress (take n contents) of
                None \<Rightarrow> do { s \<leftarrow> Status_Corruption (str ''corrupted compressed block contents'') []; Some (s, BlockContents_init) }
              | Some ubuf \<Rightarrow> Some (Status_OK, \<lparr>bc_data = take ulength ubuf, bc_cachable = True, bc_heap_allocated = True\<rparr>)))
      else do { s \<leftarrow> Status_Corruption (str ''bad block type'') []; Some (s, BlockContents_init) })"

definition ReadBlock :: "bool \<Rightarrow> RandomAccessFile \<Rightarrow> bool \<Rightarrow> BlockHandle \<Rightarrow> (Status \<times> BlockContents) option" where
  "ReadBlock le file verify_checksums handle =
     do {
       let n = bh_size handle;
       (s, contents, in_buf) \<leftarrow> file (bh_offset handle) (n + word_of_nat kBlockTrailerSize);
       if \<not> Status_ok s then Some (s, BlockContents_init)
       else if length contents \<noteq> unat (n + word_of_nat kBlockTrailerSize) then
         do { s \<leftarrow> Status_Corruption (str ''truncated block read'') []; Some (s, BlockContents_init) }
       else check_block le verify_checksums (unat n) contents in_buf
     }"

subsection \<open>Round trips\<close>

text \<open>A block as it is stored: its contents, the type and the checksum.\<close>

definition stored_block :: "byte list \<Rightarrow> byte list" where
  "stored_block contents = contents @ [0] @ word_le 4 (Mask (crc32c_spec 0 (contents @ [0])))"

lemma length_stored_block [simp]: "length (stored_block contents) = length contents + kBlockTrailerSize"
  by (simp add: stored_block_def kBlockTrailerSize_def)

lemma check_stored_block:
  "check_block le verify (length contents) (stored_block contents) in_buf =
     Some (Status_OK, \<lparr>bc_data = contents, bc_cachable = in_buf, bc_heap_allocated = in_buf\<rparr>)"
proof -
  have t: "take (length contents + 1) (stored_block contents) = contents @ [0]" by (simp add: stored_block_def)
  have d: "drop (length contents + 1) (stored_block contents) = EncodeFixed32 le (Mask (crc32c_spec 0 (contents @ [0])))"
    by (simp add: stored_block_def EncodeFixed_le)
  have "Value le 0 (take (length contents + 1) (stored_block contents)) =
      Unmask (DecodeFixed32 le (drop (length contents + 1) (stored_block contents)))"
    unfolding t d using coding_fixed32 [of le le _ "[]"] by (simp add: Value_def Extend_crc Unmask_Mask)
  then show ?thesis by (simp add: check_block_def) (simp add: stored_block_def nth_append)
qed

context random_access_file
begin

text \<open>A block that is stored at the place of its handle is read back, with or without the check of its checksum.\<close>

lemma read_stored_block:
  assumes "take (length (stored_block contents)) (drop (unat (bh_offset h)) file_bytes) = stored_block contents"
    "unat (bh_size h) = length contents" "length file_bytes < 2 ^ 63"
  shows "\<exists>in_buf. ReadBlock le file_read verify h =
    Some (Status_OK, \<lparr>bc_data = contents, bc_cachable = in_buf, bc_heap_allocated = in_buf\<rparr>)"
proof -
  define n :: "64 word" where "n = bh_size h + word_of_nat kBlockTrailerSize"
  have "length (stored_block contents) \<le> length (drop (unat (bh_offset h)) file_bytes)"
    using arg_cong [OF assms(1), of length] by (metis length_take min.cobounded1)
  then have inside: "unat (bh_offset h) + (length contents + 5) \<le> length file_bytes" by (simp add: kBlockTrailerSize_def)
  then have n: "unat n = length (stored_block contents)"
    using assms(2,3) by (simp add: n_def kBlockTrailerSize_def unat_word_ariths)
  then obtain in_buf where "file_read (bh_offset h) n = Some (Status_OK, stored_block contents, in_buf)"
    using read_inside [of "bh_offset h" n] inside assms(1,3) by (auto simp: kBlockTrailerSize_def)
  then show ?thesis
    using n check_stored_block [of le verify contents in_buf] assms(2)
    by (auto simp: ReadBlock_def Status_ok_def Status_OK_def simp flip: n_def)
qed

end

lemma handle_roundtrip:
  "BlockHandle_EncodeTo h dst = Some enc \<Longrightarrow>
   enc = dst @ EncodeVarint64 (bh_offset h) @ EncodeVarint64 (bh_size h)"
  by (auto simp: BlockHandle_EncodeTo_def PutVarint64_def split: if_splits)

lemma handle_decode:
  "BlockHandle_DecodeFrom (EncodeVarint64 (bh_offset h) @ EncodeVarint64 (bh_size h) @ rest) h0 = Some (Status_OK, rest, h)"
  by (cases h) (simp add: BlockHandle_DecodeFrom_def coding_varint64)

lemma length_EncodeVarint64: "length (EncodeVarint64 v) \<le> 10"
  unfolding EncodeVarint64_varint by (rule varint_word_length)

lemma magic_words:
  "push_bit 32 (ucast (ucast (drop_bit 32 kTableMagicNumber) :: 32 word)) OR
     ucast (ucast (kTableMagicNumber AND 0xffffffff) :: 32 word) = kTableMagicNumber"
  by (simp add: kTableMagicNumber_def)

lemma footer_encode:
  assumes "Footer_EncodeTo le f [] = Some enc"
  obtains pad where "enc = EncodeVarint64 (bh_offset (metaindex_handle f)) @ EncodeVarint64 (bh_size (metaindex_handle f)) @
      EncodeVarint64 (bh_offset (index_handle f)) @ EncodeVarint64 (bh_size (index_handle f)) @ pad @
      EncodeFixed32 le (ucast (kTableMagicNumber AND 0xffffffff)) @ EncodeFixed32 le (ucast (drop_bit 32 kTableMagicNumber))"
    "length enc = Footer_kEncodedLength"
proof -
  define hs where "hs = EncodeVarint64 (bh_offset (metaindex_handle f)) @ EncodeVarint64 (bh_size (metaindex_handle f)) @
      EncodeVarint64 (bh_offset (index_handle f)) @ EncodeVarint64 (bh_size (index_handle f))"
  have "length hs \<le> 2 * kMaxEncodedLength"
    unfolding hs_def kMaxEncodedLength_def length_append
    using length_EncodeVarint64 [of "bh_offset (metaindex_handle f)"] length_EncodeVarint64 [of "bh_size (metaindex_handle f)"]
      length_EncodeVarint64 [of "bh_offset (index_handle f)"] length_EncodeVarint64 [of "bh_size (index_handle f)"] by simp
  then have pad: "resize (2 * kMaxEncodedLength) hs = hs @ replicate (2 * kMaxEncodedLength - length hs) 0"
    by (simp add: resize_def)
  obtain d1 d2 where d: "BlockHandle_EncodeTo (metaindex_handle f) [] = Some d1" "BlockHandle_EncodeTo (index_handle f) d1 = Some d2"
      "enc = PutFixed32 le (PutFixed32 le (resize (2 * kMaxEncodedLength) d2) (ucast (kTableMagicNumber AND 0xffffffff)))
         (ucast (drop_bit 32 kTableMagicNumber))" "length enc = Footer_kEncodedLength"
    using assms by (auto simp: Footer_EncodeTo_def Let_def split: bind_splits if_splits)
  have "d2 = hs" using handle_roundtrip [OF d(1)] handle_roundtrip [OF d(2)] by (simp add: hs_def)
  then show thesis using d(3,4) pad that by (simp add: PutFixed32_def hs_def)
qed

lemma footer_succeeds:
  assumes "bh_offset (metaindex_handle f) \<noteq> - 1" "bh_size (metaindex_handle f) \<noteq> - 1" "bh_offset (index_handle f) \<noteq> - 1" "bh_size (index_handle f) \<noteq> - 1"
  shows "\<exists>enc. Footer_EncodeTo le f [] = Some enc"
  using assms by (simp add: Footer_EncodeTo_def BlockHandle_EncodeTo_def PutFixed32_def resize_def Footer_kEncodedLength_def Let_def)

lemma footer_decode:
  assumes "Footer_EncodeTo le f [] = Some enc"
  shows "length enc = 48 \<and> Footer_DecodeFrom le (enc @ rest) f0 = Some (Status_OK, rest, f)"
proof -
  obtain pad where enc: "enc = EncodeVarint64 (bh_offset (metaindex_handle f)) @ EncodeVarint64 (bh_size (metaindex_handle f)) @
      EncodeVarint64 (bh_offset (index_handle f)) @ EncodeVarint64 (bh_size (index_handle f)) @ pad @
      EncodeFixed32 le (ucast (kTableMagicNumber AND 0xffffffff)) @ EncodeFixed32 le (ucast (drop_bit 32 kTableMagicNumber))"
    and len: "length enc = Footer_kEncodedLength"
    by (rule footer_encode [OF assms])
  define magic where "magic = EncodeFixed32 le (ucast (kTableMagicNumber AND 0xffffffff)) @ EncodeFixed32 le (ucast (drop_bit 32 kTableMagicNumber))"
  define body where "body = EncodeVarint64 (bh_offset (metaindex_handle f)) @ EncodeVarint64 (bh_size (metaindex_handle f)) @
      EncodeVarint64 (bh_offset (index_handle f)) @ EncodeVarint64 (bh_size (index_handle f)) @ pad"
  have split: "enc = body @ magic" "length magic = 8" "length body = Footer_kEncodedLength - 8"
    using len by (simp_all add: enc body_def magic_def)
  have lo: "DecodeFixed32 le (drop (Footer_kEncodedLength - 8) (enc @ rest)) = ucast (kTableMagicNumber AND 0xffffffff)"
    using coding_fixed32 by (simp add: split(1) split(3) [symmetric]) (simp add: magic_def)
  have hi: "DecodeFixed32 le (drop (Footer_kEncodedLength - 8 + 4) (enc @ rest)) = ucast (drop_bit 32 kTableMagicNumber)"
    using coding_fixed32 by (simp add: split(1) split(3) [symmetric]) (simp add: magic_def)
  have "BlockHandle_DecodeFrom (enc @ rest) h0 = Some (Status_OK, EncodeVarint64 (bh_offset (index_handle f)) @
      EncodeVarint64 (bh_size (index_handle f)) @ pad @ magic @ rest, metaindex_handle f)" for h0
    using handle_decode by (simp add: enc magic_def)
  moreover have "drop (Footer_kEncodedLength - 8 + 8) (enc @ rest) = rest" using len by (simp add: Footer_kEncodedLength_def)
  ultimately show ?thesis
    using len handle_decode magic_words unfolding Footer_DecodeFrom_def Let_def lo hi
    by (cases f; cases f0) (simp add: Status_OK_def Status_ok_def Footer_kEncodedLength_def kMaxEncodedLength_def)
qed

text \<open>
  The footer of a table. Encoded into an empty string it always takes 48 bytes, and it decodes to the same two
  handles, also when bytes follow; the input is then left behind it.
\<close>

theorem footer_roundtrip:
  assumes "Footer_EncodeTo le f [] = Some enc"
  shows "length enc = 48 \<and> Footer_DecodeFrom le (enc @ rest) f0 = Some (Status_OK, rest, f)"
  by (rule footer_decode [OF assms])

theorem footer_roundtrip_witness:
  "\<exists>enc. Footer_EncodeTo True \<lparr>metaindex_handle = \<lparr>bh_offset = 300, bh_size = 8\<rparr>, index_handle = \<lparr>bh_offset = 313, bh_size = 20\<rparr>\<rparr> [] = Some enc \<and>
     Footer_DecodeFrom True (enc @ [1, 2]) Footer_init =
       Some (Status_OK, [1, 2], \<lparr>metaindex_handle = \<lparr>bh_offset = 300, bh_size = 8\<rparr>, index_handle = \<lparr>bh_offset = 313, bh_size = 20\<rparr>\<rparr>)"
proof -
  obtain enc where "Footer_EncodeTo True \<lparr>metaindex_handle = \<lparr>bh_offset = 300, bh_size = 8\<rparr>, index_handle = \<lparr>bh_offset = 313, bh_size = 20\<rparr>\<rparr> [] = Some enc"
    using footer_succeeds [of "\<lparr>metaindex_handle = \<lparr>bh_offset = 300, bh_size = 8\<rparr>, index_handle = \<lparr>bh_offset = 313, bh_size = 20\<rparr>\<rparr>" True] by auto
  then show ?thesis using footer_roundtrip by blast
qed

text \<open>
  \<^verbatim>\<open>EncodeTo\<close> appends the handles but resizes the whole string, so that on a string that is not empty its assertion
  fails.
\<close>

lemma length_resize [simp]: "length (resize n dst) = n"
  by (simp add: resize_def)

lemma footer_nonempty: "dst \<noteq> [] \<Longrightarrow> Footer_EncodeTo le f dst = None"
  by (auto simp: Footer_EncodeTo_def BlockHandle_EncodeTo_def PutFixed32_def Footer_kEncodedLength_def Let_def
      split: bind_splits if_splits)

text \<open>
  The size in a damaged handle is added to the size of the trailer in 64 bits. If the sum wraps, the check of the
  length passes and the code reads far behind the buffer.
\<close>

lemma read_block_overflow:
  assumes "4 \<le> length data"
  shows "ReadBlock le (PosixRandomAccessFile_Read \<lparr>ra_filename = name, ra_data = data, ra_error = None\<rparr>) verify
    \<lparr>bh_offset = 0, bh_size = 18446744073709551615\<rparr> = None"
  using assms by (simp add: ReadBlock_def PosixRandomAccessFile_Read_def kBlockTrailerSize_def Status_ok_def Status_OK_def check_block_def)

end
