(* ===== verification/LDB_TwoLevel.thy ===== *)
theory LDB_TwoLevel
  imports LDB_Iterator
begin

text \<open>
  The two-level iterator, \<^verbatim>\<open>table/two_level_iterator.cc\<close>: an iterator over an index, whose values say where to
  find blocks, and an iterator over the block of the current index entry. The classes of both are parameters
  (their virtual functions), as is the function that turns an index value into an iterator of a block; it may change
  the state behind its argument \<^verbatim>\<open>arg_\<close>, such as a cache, which is the field \<open>tl_world\<close>.

  The locale \<open>two_level\<close> has the contracts of the parts as its assumptions: the index and the blocks keep the contract
  of iterators, and the block function returns an iterator over the contents of the block. The iterator then keeps
  the contract for the concatenation of the blocks.
\<close>

subsection \<open>The iterator\<close>

record ('i, 'd, 's) TwoLevelIterator =
  tl_status :: Status
  tl_index :: "'i IteratorWrapper"
  tl_data :: "'d IteratorWrapper"
  tl_handle :: slice
  tl_world :: 's

definition TwoLevelIterator_init :: "'i Iterator_vt \<Rightarrow> 'i \<Rightarrow> 's \<Rightarrow> ('i, 'd, 's) TwoLevelIterator option" where
  "TwoLevelIterator_init vti index_iter arg =
     do {
       w \<leftarrow> Wrapper_Set vti (Some index_iter) IteratorWrapper_init;
       Some \<lparr>tl_status = Status_OK, tl_index = w, tl_data = IteratorWrapper_init, tl_handle = [], tl_world = arg\<rparr>
     }"

definition TwoLevel_Valid :: "('i, 'd, 's) TwoLevelIterator \<Rightarrow> bool" where
  "TwoLevel_Valid t \<longleftrightarrow> w_valid (tl_data t)"

definition TwoLevel_key :: "('i, 'd, 's) TwoLevelIterator \<Rightarrow> slice option" where
  "TwoLevel_key t = Wrapper_key (tl_data t)"

definition TwoLevel_value :: "'d Iterator_vt \<Rightarrow> ('i, 'd, 's) TwoLevelIterator \<Rightarrow> slice option" where
  "TwoLevel_value vtd t = Wrapper_value vtd (tl_data t)"

definition TwoLevel_status ::
    "'i Iterator_vt \<Rightarrow> 'd Iterator_vt \<Rightarrow> ('i, 'd, 's) TwoLevelIterator \<Rightarrow> Status option" where
  "TwoLevel_status vti vtd t =
     do {
       s \<leftarrow> Wrapper_status vti (tl_index t);
       if \<not> Status_ok s then Some s
       else if w_iter (tl_data t) \<noteq> None then
         do { s \<leftarrow> Wrapper_status vtd (tl_data t); if \<not> Status_ok s then Some s else Some (tl_status t) }
       else Some (tl_status t)
     }"

definition SaveError :: "Status \<Rightarrow> ('i, 'd, 's) TwoLevelIterator \<Rightarrow> ('i, 'd, 's) TwoLevelIterator" where
  "SaveError s t = (if Status_ok (tl_status t) \<and> \<not> Status_ok s then t\<lparr>tl_status := s\<rparr> else t)"

definition SetDataIterator ::
    "'d Iterator_vt \<Rightarrow> 'd option \<Rightarrow> ('i, 'd, 's) TwoLevelIterator \<Rightarrow> ('i, 'd, 's) TwoLevelIterator option" where
  "SetDataIterator vtd data_iter t =
     do {
       t \<leftarrow> (if w_iter (tl_data t) \<noteq> None then do { s \<leftarrow> Wrapper_status vtd (tl_data t); Some (SaveError s t) } else Some t);
       w \<leftarrow> Wrapper_Set vtd data_iter (tl_data t);
       Some (t\<lparr>tl_data := w\<rparr>)
     }"

type_synonym ('d, 's) block_fun = "'s \<Rightarrow> slice \<Rightarrow> ('d \<times> 's) option"

definition InitDataBlock ::
    "'i Iterator_vt \<Rightarrow> 'd Iterator_vt \<Rightarrow> ('d, 's) block_fun \<Rightarrow> ('i, 'd, 's) TwoLevelIterator \<Rightarrow> ('i, 'd, 's) TwoLevelIterator option" where
  "InitDataBlock vti vtd block_function t =
     (if \<not> w_valid (tl_index t) then SetDataIterator vtd None t
      else
        do {
          handle \<leftarrow> Wrapper_value vti (tl_index t);
          if w_iter (tl_data t) \<noteq> None \<and> Slice_compare handle (tl_handle t) = 0 then Some t
          else
            do {
              (it, world) \<leftarrow> block_function (tl_world t) handle;
              SetDataIterator vtd (Some it) (t\<lparr>tl_handle := handle, tl_world := world\<rparr>)
            }
        })"

text \<open>\<^verbatim>\<open>if (data_iter_.iter() != NULL) data_iter_.f()\<close>.\<close>

definition on_data ::
    "('d IteratorWrapper \<Rightarrow> 'd IteratorWrapper option) \<Rightarrow> ('i, 'd, 's) TwoLevelIterator \<Rightarrow> ('i, 'd, 's) TwoLevelIterator option" where
  "on_data f t =
     (if w_iter (tl_data t) \<noteq> None then do { w \<leftarrow> f (tl_data t); Some (t\<lparr>tl_data := w\<rparr>) } else Some t)"

definition on_index ::
    "('i IteratorWrapper \<Rightarrow> 'i IteratorWrapper option) \<Rightarrow> ('i, 'd, 's) TwoLevelIterator \<Rightarrow> ('i, 'd, 's) TwoLevelIterator option" where
  "on_index f t = do { w \<leftarrow> f (tl_index t); Some (t\<lparr>tl_index := w\<rparr>) }"

text \<open>One round of the two loops that skip empty blocks: \<open>Inl\<close> if the loop is left, \<open>Inr\<close> if it goes on.\<close>

definition skip_round ::
    "'i Iterator_vt \<Rightarrow> 'd Iterator_vt \<Rightarrow> ('d, 's) block_fun \<Rightarrow> bool \<Rightarrow> ('i, 'd, 's) TwoLevelIterator \<Rightarrow>
     (('i, 'd, 's) TwoLevelIterator + ('i, 'd, 's) TwoLevelIterator) option" where
  "skip_round vti vtd block_function forward t =
     (if w_iter (tl_data t) = None \<or> \<not> w_valid (tl_data t) then
        if \<not> w_valid (tl_index t) then map_option Inl (SetDataIterator vtd None t)
        else
          do {
            t \<leftarrow> on_index (if forward then Wrapper_Next vti else Wrapper_Prev vti) t;
            t \<leftarrow> InitDataBlock vti vtd block_function t;
            t \<leftarrow> on_data (if forward then Wrapper_SeekToFirst vtd else Wrapper_SeekToLast vtd) t;
            Some (Inr t)
          }
      else Some (Inl t))"

partial_function (option) skip_blocks ::
    "'i Iterator_vt \<Rightarrow> 'd Iterator_vt \<Rightarrow> ('d, 's) block_fun \<Rightarrow> bool \<Rightarrow> ('i, 'd, 's) TwoLevelIterator \<Rightarrow> ('i, 'd, 's) TwoLevelIterator option" where
  [code]: "skip_blocks vti vtd block_function forward t =
     (case skip_round vti vtd block_function forward t of None \<Rightarrow> None
      | Some (Inl t) \<Rightarrow> Some t
      | Some (Inr t) \<Rightarrow> skip_blocks vti vtd block_function forward t)"

definition SkipEmptyDataBlocksForward ::
    "'i Iterator_vt \<Rightarrow> 'd Iterator_vt \<Rightarrow> ('d, 's) block_fun \<Rightarrow> ('i, 'd, 's) TwoLevelIterator \<Rightarrow> ('i, 'd, 's) TwoLevelIterator option" where
  "SkipEmptyDataBlocksForward vti vtd block_function = skip_blocks vti vtd block_function True"

definition SkipEmptyDataBlocksBackward ::
    "'i Iterator_vt \<Rightarrow> 'd Iterator_vt \<Rightarrow> ('d, 's) block_fun \<Rightarrow> ('i, 'd, 's) TwoLevelIterator \<Rightarrow> ('i, 'd, 's) TwoLevelIterator option" where
  "SkipEmptyDataBlocksBackward vti vtd block_function = skip_blocks vti vtd block_function False"

definition TwoLevel_Seek ::
    "'i Iterator_vt \<Rightarrow> 'd Iterator_vt \<Rightarrow> ('d, 's) block_fun \<Rightarrow> slice \<Rightarrow> ('i, 'd, 's) TwoLevelIterator \<Rightarrow> ('i, 'd, 's) TwoLevelIterator option" where
  "TwoLevel_Seek vti vtd block_function target t =
     do {
       t \<leftarrow> on_index (Wrapper_Seek vti target) t;
       t \<leftarrow> InitDataBlock vti vtd block_function t;
       t \<leftarrow> on_data (Wrapper_Seek vtd target) t;
       SkipEmptyDataBlocksForward vti vtd block_function t
     }"

definition TwoLevel_SeekToFirst ::
    "'i Iterator_vt \<Rightarrow> 'd Iterator_vt \<Rightarrow> ('d, 's) block_fun \<Rightarrow> ('i, 'd, 's) TwoLevelIterator \<Rightarrow> ('i, 'd, 's) TwoLevelIterator option" where
  "TwoLevel_SeekToFirst vti vtd block_function t =
     do {
       t \<leftarrow> on_index (Wrapper_SeekToFirst vti) t;
       t \<leftarrow> InitDataBlock vti vtd block_function t;
       t \<leftarrow> on_data (Wrapper_SeekToFirst vtd) t;
       SkipEmptyDataBlocksForward vti vtd block_function t
     }"

definition TwoLevel_SeekToLast ::
    "'i Iterator_vt \<Rightarrow> 'd Iterator_vt \<Rightarrow> ('d, 's) block_fun \<Rightarrow> ('i, 'd, 's) TwoLevelIterator \<Rightarrow> ('i, 'd, 's) TwoLevelIterator option" where
  "TwoLevel_SeekToLast vti vtd block_function t =
     do {
       t \<leftarrow> on_index (Wrapper_SeekToLast vti) t;
       t \<leftarrow> InitDataBlock vti vtd block_function t;
       t \<leftarrow> on_data (Wrapper_SeekToLast vtd) t;
       SkipEmptyDataBlocksBackward vti vtd block_function t
     }"

definition TwoLevel_Next ::
    "'i Iterator_vt \<Rightarrow> 'd Iterator_vt \<Rightarrow> ('d, 's) block_fun \<Rightarrow> ('i, 'd, 's) TwoLevelIterator \<Rightarrow> ('i, 'd, 's) TwoLevelIterator option" where
  "TwoLevel_Next vti vtd block_function t =
     (if TwoLevel_Valid t then
        do { w \<leftarrow> Wrapper_Next vtd (tl_data t); SkipEmptyDataBlocksForward vti vtd block_function (t\<lparr>tl_data := w\<rparr>) }
      else None)"

definition TwoLevel_Prev ::
    "'i Iterator_vt \<Rightarrow> 'd Iterator_vt \<Rightarrow> ('d, 's) block_fun \<Rightarrow> ('i, 'd, 's) TwoLevelIterator \<Rightarrow> ('i, 'd, 's) TwoLevelIterator option" where
  "TwoLevel_Prev vti vtd block_function t =
     (if TwoLevel_Valid t then
        do { w \<leftarrow> Wrapper_Prev vtd (tl_data t); SkipEmptyDataBlocksBackward vti vtd block_function (t\<lparr>tl_data := w\<rparr>) }
      else None)"

definition TwoLevelIterator_vt ::
    "'i Iterator_vt \<Rightarrow> 'd Iterator_vt \<Rightarrow> ('d, 's) block_fun \<Rightarrow> ('i, 'd, 's) TwoLevelIterator Iterator_vt" where
  "TwoLevelIterator_vt vti vtd block_function =
     \<lparr>vt_Valid = TwoLevel_Valid, vt_key = TwoLevel_key, vt_value = TwoLevel_value vtd,
      vt_Next = TwoLevel_Next vti vtd block_function, vt_Prev = TwoLevel_Prev vti vtd block_function,
      vt_SeekToFirst = TwoLevel_SeekToFirst vti vtd block_function, vt_SeekToLast = TwoLevel_SeekToLast vti vtd block_function,
      vt_Seek = TwoLevel_Seek vti vtd block_function, vt_status = TwoLevel_status vti vtd\<rparr>"

subsection \<open>The contract of the parts\<close>

text \<open>
  \<open>content h\<close> are the entries of the block with index value \<open>h\<close>, for the values that are \<open>readable\<close>; \<open>world_ok\<close> is the
  invariant of the state that the block function changes.
\<close>

locale two_level = index: iterator_class compare vti ipos "\<lambda>_. True" + data: iterator_class compare vtd dpos "\<lambda>_. True"
  for compare :: "slice \<Rightarrow> slice \<Rightarrow> int" and vti :: "'i Iterator_vt" and ipos and vtd :: "'d Iterator_vt" and dpos +
  fixes block_function :: "('d, 's) block_fun"
    and world_ok :: "'s \<Rightarrow> bool"
    and readable :: "slice \<Rightarrow> bool"
    and content :: "slice \<Rightarrow> (slice \<times> slice) list"
  assumes read_block: "world_ok s \<Longrightarrow> readable h \<Longrightarrow>
    \<exists>d s' p. block_function s h = Some (d, s') \<and> world_ok s' \<and> dpos (content h) d p"

text \<open>
  An index over blocks: the keys of a block are at most the key of its entry in the index, and those of later blocks
  above it.
\<close>

definition index_of ::
    "(slice \<Rightarrow> slice \<Rightarrow> int) \<Rightarrow> (slice \<Rightarrow> bool) \<Rightarrow> (slice \<Rightarrow> (slice \<times> slice) list) \<Rightarrow> (slice \<times> slice) list \<Rightarrow> (slice \<times> slice) list \<Rightarrow> bool" where
  "index_of compare readable content ies es \<longleftrightarrow>
     es = concat (map (content \<circ> snd) ies) \<and> ascending compare es \<and> (\<forall>e \<in> set ies. readable (snd e)) \<and>
     (\<forall>k<length ies. \<forall>e \<in> set (content (snd (ies ! k))). compare (fst e) (fst (ies ! k)) \<le> 0) \<and>
     (\<forall>l<length ies. \<forall>k<l. \<forall>e \<in> set (content (snd (ies ! l))). compare (fst (ies ! k)) (fst e) < 0)"

definition block_start :: "(slice \<Rightarrow> (slice \<times> slice) list) \<Rightarrow> (slice \<times> slice) list \<Rightarrow> nat \<Rightarrow> nat" where
  "block_start content ies k = length (concat (map (content \<circ> snd) (take k ies)))"

lemma block_start_0 [simp]: "block_start content ies 0 = 0"
  by (simp add: block_start_def)

lemma block_start_Suc:
  "k < length ies \<Longrightarrow> block_start content ies (Suc k) = block_start content ies k + length (content (snd (ies ! k)))"
  by (simp add: block_start_def take_Suc_conv_app_nth)

lemma concat_split:
  "k < length ies \<Longrightarrow> concat (map (content \<circ> snd) ies) =
     concat (map (content \<circ> snd) (take k ies)) @ content (snd (ies ! k)) @ concat (map (content \<circ> snd) (drop (Suc k) ies))"
  by (subst id_take_nth_drop [of k ies]) simp_all

lemma concat_at:
  assumes "k < length ies" "j < length (content (snd (ies ! k)))"
  shows "concat (map (content \<circ> snd) ies) ! (block_start content ies k + j) = content (snd (ies ! k)) ! j"
    "block_start content ies k + j < length (concat (map (content \<circ> snd) ies))"
  using assms(2) by (simp_all add: concat_split [OF assms(1)] block_start_def nth_append)

subsection \<open>Positions\<close>

text \<open>
  On entry \<open>p\<close> of block \<open>k\<close>; without a block; and while it moves, with the index at \<open>k\<close> and the block of some other entry.
\<close>

definition tl_on where
  "tl_on ipos dpos world_ok content ies t k p \<longleftrightarrow> tl_status t = Status_OK \<and> world_ok (tl_world t) \<and>
     wrapper_pos ipos ies (tl_index t) k \<and> k < length ies \<and> tl_handle t = snd (ies ! k) \<and>
     wrapper_pos dpos (content (snd (ies ! k))) (tl_data t) p"

definition tl_moving where
  "tl_moving ipos dpos world_ok content ies t k \<longleftrightarrow> tl_status t = Status_OK \<and> world_ok (tl_world t) \<and>
     wrapper_pos ipos ies (tl_index t) k \<and>
     (if w_iter (tl_data t) = None then \<not> w_valid (tl_data t) else \<exists>p. wrapper_pos dpos (content (tl_handle t)) (tl_data t) p)"

definition tl_off where
  "tl_off ipos dpos world_ok content ies t \<longleftrightarrow> w_iter (tl_data t) = None \<and> (\<exists>k. tl_moving ipos dpos world_ok content ies t k)"

definition two_level_pos ::
    "(slice \<Rightarrow> slice \<Rightarrow> int) \<Rightarrow> ((slice \<times> slice) list \<Rightarrow> 'i \<Rightarrow> nat \<Rightarrow> bool) \<Rightarrow> ((slice \<times> slice) list \<Rightarrow> 'd \<Rightarrow> nat \<Rightarrow> bool) \<Rightarrow>
     ('s \<Rightarrow> bool) \<Rightarrow> (slice \<Rightarrow> bool) \<Rightarrow> (slice \<Rightarrow> (slice \<times> slice) list) \<Rightarrow>
     (slice \<times> slice) list \<Rightarrow> ('i, 'd, 's) TwoLevelIterator \<Rightarrow> nat \<Rightarrow> bool" where
  "two_level_pos compare ipos dpos world_ok readable content es t i \<longleftrightarrow>
     (\<exists>ies. index_of compare readable content ies es \<and>
        (i = length es \<and> tl_off ipos dpos world_ok content ies t \<or>
         (\<exists>k p. tl_on ipos dpos world_ok content ies t k p \<and> p < length (content (snd (ies ! k))) \<and>
            i = block_start content ies k + p)))"

context two_level
begin

abbreviation "on \<equiv> tl_on ipos dpos world_ok content"
abbreviation "moving \<equiv> tl_moving ipos dpos world_ok content"
abbreviation "off \<equiv> tl_off ipos dpos world_ok content"
abbreviation "at \<equiv> two_level_pos compare ipos dpos world_ok readable content"

lemma on_moving: "on ies t k p \<Longrightarrow> moving ies t k"
  by (auto simp: tl_on_def tl_moving_def wrapper_pos_def)

lemma index_move:
  assumes "moving ies t k" "\<And>w. wrapper_pos ipos ies w k \<Longrightarrow> \<exists>w'. f w = Some w' \<and> wrapper_pos ipos ies w' k'"
  shows "\<exists>t'. on_index f t = Some t' \<and> moving ies t' k' \<and> w_iter (tl_data t') = w_iter (tl_data t)"
proof -
  obtain w' where "f (tl_index t) = Some w'" "wrapper_pos ipos ies w' k'" using assms by (auto simp: tl_moving_def)
  then show ?thesis using assms(1) by (auto simp: on_index_def tl_moving_def)
qed

lemma data_move:
  assumes "on ies t k p" "\<And>w. wrapper_pos dpos (content (snd (ies ! k))) w p \<Longrightarrow>
    \<exists>w'. f w = Some w' \<and> wrapper_pos dpos (content (snd (ies ! k))) w' p'"
  shows "\<exists>w'. f (tl_data t) = Some w' \<and> on ies (t\<lparr>tl_data := w'\<rparr>) k p'" "w_iter (tl_data t) \<noteq> None"
proof -
  obtain w' where "f (tl_data t) = Some w'" "wrapper_pos dpos (content (snd (ies ! k))) w' p'" using assms by (auto simp: tl_on_def)
  then show "\<exists>w'. f (tl_data t) = Some w' \<and> on ies (t\<lparr>tl_data := w'\<rparr>) k p'" using assms(1) by (auto simp: tl_on_def)
  show "w_iter (tl_data t) \<noteq> None" using assms(1) by (auto simp: tl_on_def wrapper_pos_def)
qed

lemma set_data:
  assumes "moving ies t k"
  shows "SetDataIterator vtd d t = do { w \<leftarrow> Wrapper_Set vtd d (tl_data t); Some (t\<lparr>tl_data := w\<rparr>) }"
proof (cases "w_iter (tl_data t)")
  case (Some it)
  then obtain p where "wrapper_pos dpos (content (tl_handle t)) (tl_data t) p" using assms by (auto simp: tl_moving_def)
  then have "Wrapper_status vtd (tl_data t) = Some Status_OK" by (rule data.wrapper_ops(7))
  then show ?thesis using Some by (simp add: SetDataIterator_def SaveError_def Status_OK_def Status_ok_def)
qed (simp add: SetDataIterator_def)

lemma set_none:
  assumes "moving ies t k"
  shows "\<exists>t'. SetDataIterator vtd None t = Some t' \<and> moving ies t' k \<and> w_iter (tl_data t') = None"
  using assms by (auto simp: set_data [OF assms] Wrapper_Set_def tl_moving_def)

lemma init_block:
  assumes "moving ies t k" "k < length ies" "readable (snd (ies ! k))"
  shows "\<exists>t' p. InitDataBlock vti vtd block_function t = Some t' \<and> on ies t' k p"
proof -
  have idx: "wrapper_pos ipos ies (tl_index t) k" "world_ok (tl_world t)" using assms(1) by (auto simp: tl_moving_def)
  then have val: "w_valid (tl_index t)" "Wrapper_value vti (tl_index t) = Some (snd (ies ! k))"
    using index.wrapper_ops(1,6) [OF idx(1)] assms(2) by auto
  show ?thesis
  proof (cases "w_iter (tl_data t) \<noteq> None \<and> Slice_compare (snd (ies ! k)) (tl_handle t) = 0")
    case True
    then have "snd (ies ! k) = tl_handle t" by (simp add: Slice_compare_eq)
    then show ?thesis using True val assms(1,2) by (auto simp: InitDataBlock_def tl_moving_def tl_on_def)
  next
    case False
    obtain d s' p where read: "block_function (tl_world t) (snd (ies ! k)) = Some (d, s')" "world_ok s'" "dpos (content (snd (ies ! k))) d p"
      using read_block [OF idx(2) assms(3)] by blast
    obtain w where w: "Wrapper_Set vtd (Some d) (tl_data t) = Some w" "wrapper_pos dpos (content (snd (ies ! k))) w p"
      using data.wrapper_set [OF read(3)] by blast
    have old: "w_iter (tl_data t) \<noteq> None \<Longrightarrow> Wrapper_status vtd (tl_data t) = Some Status_OK"
      using assms(1) data.wrapper_ops(7) by (auto simp: tl_moving_def)
    have "SetDataIterator vtd (Some d) (t\<lparr>tl_handle := snd (ies ! k), tl_world := s'\<rparr>) =
        Some (t\<lparr>tl_handle := snd (ies ! k), tl_world := s', tl_data := w\<rparr>)"
      using old w(1) by (cases "w_iter (tl_data t) = None") (simp_all add: SetDataIterator_def SaveError_def Status_OK_def Status_ok_def)
    then have "InitDataBlock vti vtd block_function t = Some (t\<lparr>tl_handle := snd (ies ! k), tl_world := s', tl_data := w\<rparr>)"
      using False val read(1) by (auto simp: InitDataBlock_def)
    then show ?thesis using assms(1,2) idx read(2) w(2) by (auto simp: tl_on_def tl_moving_def)
  qed
qed

lemma init_end:
  assumes "moving ies t (length ies)"
  shows "\<exists>t'. InitDataBlock vti vtd block_function t = Some t' \<and> moving ies t' (length ies) \<and> w_iter (tl_data t') = None"
proof -
  have "\<not> w_valid (tl_index t)" using index.wrapper_ops(1) assms by (auto simp: tl_moving_def)
  then show ?thesis using set_none [OF assms] by (simp add: InitDataBlock_def)
qed

text \<open>Without a block and without an index entry, the loops end at once.\<close>

lemma skip_end:
  assumes "moving ies t (length ies)" "w_iter (tl_data t) = None"
  shows "\<exists>t'. skip_blocks vti vtd block_function forward t = Some t' \<and> off ies t'"
proof -
  have "\<not> w_valid (tl_index t)" using index.wrapper_ops(1) assms by (auto simp: tl_moving_def)
  moreover obtain t' where "SetDataIterator vtd None t = Some t'" "moving ies t' (length ies)" "w_iter (tl_data t') = None"
    using set_none [OF assms(1)] by blast
  ultimately show ?thesis using assms(2) by (subst skip_blocks.simps) (auto simp: skip_round_def tl_off_def)
qed

lemma index_readable: "index_of compare readable content ies es \<Longrightarrow> k < length ies \<Longrightarrow> readable (snd (ies ! k))"
  by (simp add: index_of_def)

lemma index_start:
  assumes "index_of compare readable content ies es"
  shows "block_start content ies (length ies) = length es" "k < length ies \<Longrightarrow> block_start content ies (Suc k) \<le> length es"
proof -
  have es: "es = concat (map (content \<circ> snd) ies)" using assms by (simp add: index_of_def)
  then show "block_start content ies (length ies) = length es" by (simp add: block_start_def)
  show "k < length ies \<Longrightarrow> block_start content ies (Suc k) \<le> length es"
    using concat_split [of k ies content] es by (simp add: block_start_Suc) (simp add: block_start_def)
qed

lemma at_on:
  "index_of compare readable content ies es \<Longrightarrow> on ies t k p \<Longrightarrow> p < length (content (snd (ies ! k))) \<Longrightarrow>
   at es t (block_start content ies k + p)"
  by (auto simp: two_level_pos_def)

lemma at_off: "index_of compare readable content ies es \<Longrightarrow> off ies t \<Longrightarrow> at es t (length es)"
  by (auto simp: two_level_pos_def)

lemma on_data_valid:
  assumes "on ies t k p"
  shows "w_valid (tl_data t) \<longleftrightarrow> p < length (content (snd (ies ! k)))" "p \<le> length (content (snd (ies ! k)))"
    "w_iter (tl_data t) \<noteq> None" "w_valid (tl_index t)" "k < length ies"
proof -
  have w: "wrapper_pos dpos (content (snd (ies ! k))) (tl_data t) p" "wrapper_pos ipos ies (tl_index t) k" "k < length ies"
    using assms by (simp_all add: tl_on_def)
  show "w_valid (tl_data t) \<longleftrightarrow> p < length (content (snd (ies ! k)))" "p \<le> length (content (snd (ies ! k)))"
    using data.wrapper_ops(1,2) [OF w(1)] by simp_all
  show "w_iter (tl_data t) \<noteq> None" using w(1) by (auto simp: wrapper_pos_def)
  show "w_valid (tl_index t)" "k < length ies" using index.wrapper_ops(1) [OF w(2)] w(3) by simp_all
qed

lemma skip_stop:
  assumes "on ies t k p" "p < length (content (snd (ies ! k)))"
  shows "skip_blocks vti vtd block_function forward t = Some t"
proof -
  have "skip_round vti vtd block_function forward t = Some (Inl t)"
    using on_data_valid [OF assms(1)] assms(2) by (auto simp: skip_round_def)
  then show ?thesis by (subst skip_blocks.simps) simp
qed

text \<open>A round from the end of a block to the next one, or the one before, and there to position \<open>p'\<close>.\<close>

lemma skip_step:
  assumes "index_of compare readable content ies es" "on ies t k p" "\<not> p < length (content (snd (ies ! k)))"
    "\<And>w. wrapper_pos ipos ies w k \<Longrightarrow> \<exists>w'. (if forward then Wrapper_Next vti w else Wrapper_Prev vti w) = Some w' \<and> wrapper_pos ipos ies w' k'"
    "k' < length ies" "\<And>w q. wrapper_pos dpos (content (snd (ies ! k'))) w q \<Longrightarrow>
      \<exists>w'. (if forward then Wrapper_SeekToFirst vtd w else Wrapper_SeekToLast vtd w) = Some w' \<and> wrapper_pos dpos (content (snd (ies ! k'))) w' p'"
  shows "\<exists>t'. skip_blocks vti vtd block_function forward t = skip_blocks vti vtd block_function forward t' \<and> on ies t' k' p'"
proof -
  have fs: "(if forward then Wrapper_Next vti else Wrapper_Prev vti) w = (if forward then Wrapper_Next vti w else Wrapper_Prev vti w)"
    "(if forward then Wrapper_SeekToFirst vtd else Wrapper_SeekToLast vtd) v = (if forward then Wrapper_SeekToFirst vtd v else Wrapper_SeekToLast vtd v)"
    for w v by simp_all
  obtain t1 where t1: "on_index (if forward then Wrapper_Next vti else Wrapper_Prev vti) t = Some t1" "moving ies t1 k'"
    using index_move [OF on_moving [OF assms(2)], of "if forward then Wrapper_Next vti else Wrapper_Prev vti" k'] assms(4) fs(1) by auto
  obtain t2 q where t2: "InitDataBlock vti vtd block_function t1 = Some t2" "on ies t2 k' q"
    using init_block [OF t1(2) assms(5) index_readable [OF assms(1,5)]] by blast
  obtain w' where w': "(if forward then Wrapper_SeekToFirst vtd else Wrapper_SeekToLast vtd) (tl_data t2) = Some w'"
      "on ies (t2\<lparr>tl_data := w'\<rparr>) k' p'"
    using data_move(1) [OF t2(2), of "if forward then Wrapper_SeekToFirst vtd else Wrapper_SeekToLast vtd" p'] assms(6) fs(2) by auto
  have "skip_round vti vtd block_function forward t = Some (Inr (t2\<lparr>tl_data := w'\<rparr>))"
    using on_data_valid [OF assms(2)] on_data_valid(3) [OF t2(2)] assms(3) t1(1) t2(1) w'(1) by (simp add: skip_round_def on_data_def)
  then have "skip_blocks vti vtd block_function forward t = skip_blocks vti vtd block_function forward (t2\<lparr>tl_data := w'\<rparr>)"
    by (subst skip_blocks.simps) simp
  then show ?thesis using w'(2) by blast
qed

text \<open>A round from the last block, or the first one backward, to no block.\<close>

lemma skip_last:
  assumes "on ies t k p" "\<not> p < length (content (snd (ies ! k)))"
    "\<And>w. wrapper_pos ipos ies w k \<Longrightarrow> \<exists>w'. (if forward then Wrapper_Next vti w else Wrapper_Prev vti w) = Some w' \<and> wrapper_pos ipos ies w' (length ies)"
  shows "\<exists>t'. skip_blocks vti vtd block_function forward t = Some t' \<and> off ies t'"
proof -
  have fs: "(if forward then Wrapper_Next vti else Wrapper_Prev vti) w = (if forward then Wrapper_Next vti w else Wrapper_Prev vti w)" for w
    by simp
  obtain t1 where t1: "on_index (if forward then Wrapper_Next vti else Wrapper_Prev vti) t = Some t1" "moving ies t1 (length ies)"
    using index_move [OF on_moving [OF assms(1)], of "if forward then Wrapper_Next vti else Wrapper_Prev vti" "length ies"] assms(3) fs by auto
  obtain t2 where t2: "InitDataBlock vti vtd block_function t1 = Some t2" "moving ies t2 (length ies)" "w_iter (tl_data t2) = None"
    using init_end [OF t1(2)] by blast
  have "skip_round vti vtd block_function forward t = Some (Inr t2)"
    using on_data_valid [OF assms(1)] assms(2) t1(1) t2 by (simp add: skip_round_def on_data_def)
  then have "skip_blocks vti vtd block_function forward t = skip_blocks vti vtd block_function forward t2"
    by (subst skip_blocks.simps) simp
  then show ?thesis using skip_end [OF t2(2,3)] by simp
qed

lemma skip_forward:
  assumes "index_of compare readable content ies es" "on ies t k p"
  shows "\<exists>t'. SkipEmptyDataBlocksForward vti vtd block_function t = Some t' \<and> at es t' (block_start content ies k + p)"
  using assms(2)
proof (induction "length ies - k" arbitrary: t k p rule: less_induct)
  case less
  note on = on_data_valid [OF less.prems]
  show ?case
  proof (cases "p < length (content (snd (ies ! k)))")
    case True
    then show ?thesis using skip_stop [OF less.prems True, of True] at_on [OF assms(1) less.prems] by (simp add: SkipEmptyDataBlocksForward_def)
  next
    case False
    have goal: "block_start content ies k + p = block_start content ies (Suc k)" using on(2,5) False by (simp add: block_start_Suc)
    have step: "\<exists>w'. (if True then Wrapper_Next vti w else Wrapper_Prev vti w) = Some w' \<and> wrapper_pos ipos ies w' (Suc k)"
      if "wrapper_pos ipos ies w k" for w using index.wrapper_ops(8) [OF that on(5)] by simp
    show ?thesis
    proof (cases "Suc k < length ies")
      case True
      obtain t' where t': "skip_blocks vti vtd block_function True t = skip_blocks vti vtd block_function True t'" "on ies t' (Suc k) 0"
        using skip_step [OF assms(1) less.prems False step True] data.wrapper_ops(10) by fastforce
      then show ?thesis using less.hyps [of "Suc k" t' 0] on(5) goal by (simp add: SkipEmptyDataBlocksForward_def)
    next
      case end_of: False
      then have k: "Suc k = length ies" using on(5) by simp
      then show ?thesis
        using skip_last [OF less.prems False step [unfolded k]] at_off [OF assms(1)] goal index_start(1) [OF assms(1)]
        by (auto simp: SkipEmptyDataBlocksForward_def)
    qed
  qed
qed

lemma skip_backward:
  assumes "index_of compare readable content ies es" "on ies t k (one_before q (length (content (snd (ies ! k)))))"
    "q \<le> length (content (snd (ies ! k)))"
  shows "\<exists>t'. SkipEmptyDataBlocksBackward vti vtd block_function t = Some t' \<and> at es t' (one_before (block_start content ies k + q) (length es))"
  using assms(2,3)
proof (induction k arbitrary: t q)
  case (0 t q)
  note on = on_data_valid [OF "0.prems"(1)]
  show ?case
  proof (cases "q = 0")
    case True
    have "\<exists>w'. (if False then Wrapper_Next vti w else Wrapper_Prev vti w) = Some w' \<and> wrapper_pos ipos ies w' (length ies)"
      if "wrapper_pos ipos ies w 0" for w using index.wrapper_ops(9) [OF that on(5)] by simp
    moreover have "\<not> one_before q (length (content (snd (ies ! 0)))) < length (content (snd (ies ! 0)))" using True by (simp add: one_before_def)
    ultimately show ?thesis
      using skip_last [OF "0.prems"(1), of False] at_off [OF assms(1)] True by (auto simp: SkipEmptyDataBlocksBackward_def one_before_def)
  next
    case False
    then have p: "one_before q (length (content (snd (ies ! 0)))) < length (content (snd (ies ! 0)))"
      using "0.prems"(2) by (auto simp: one_before_def)
    show ?thesis
      using skip_stop [OF "0.prems"(1) p, of False] at_on [OF assms(1) "0.prems"(1) p] False
      by (simp add: SkipEmptyDataBlocksBackward_def one_before_def)
  qed
next
  case (Suc k t q)
  note on = on_data_valid [OF Suc.prems(1)]
  show ?case
  proof (cases "q = 0")
    case True
    have step: "\<exists>w'. (if False then Wrapper_Next vti w else Wrapper_Prev vti w) = Some w' \<and> wrapper_pos ipos ies w' k"
      if "wrapper_pos ipos ies w (Suc k)" for w using index.wrapper_ops(9) [OF that on(5)] by simp
    have stop: "\<not> one_before q (length (content (snd (ies ! Suc k)))) < length (content (snd (ies ! Suc k)))" using True by (simp add: one_before_def)
    have k: "k < length ies" using on(5) by simp
    define n where "n = length (content (snd (ies ! k)))"
    have "\<exists>w'. (if False then Wrapper_SeekToFirst vtd w else Wrapper_SeekToLast vtd w) = Some w' \<and>
        wrapper_pos dpos (content (snd (ies ! k))) w' (one_before n n)" if "wrapper_pos dpos (content (snd (ies ! k))) w p" for w p
      using data.wrapper_ops(11) [OF that] by (cases n) (simp_all add: n_def one_before_def)
    then obtain t' where t': "skip_blocks vti vtd block_function False t = skip_blocks vti vtd block_function False t'" "on ies t' k (one_before n n)"
      using skip_step [OF assms(1) Suc.prems(1) stop step k, of "one_before n n"] by blast
    then show ?thesis
      using Suc.IH [of t' n] k True by (simp add: SkipEmptyDataBlocksBackward_def n_def block_start_Suc)
  next
    case False
    then have p: "one_before q (length (content (snd (ies ! Suc k)))) < length (content (snd (ies ! Suc k)))"
      using Suc.prems(2) by (auto simp: one_before_def)
    show ?thesis
      using skip_stop [OF Suc.prems(1) p, of False] at_on [OF assms(1) Suc.prems(1) p] False
      by (simp add: SkipEmptyDataBlocksBackward_def one_before_def)
  qed
qed

lemma at_cases:
  assumes "at es t i"
  obtains ies k p where "index_of compare readable content ies es" "on ies t k p" "p < length (content (snd (ies ! k)))"
      "i = block_start content ies k + p" "i < length es" "es ! i = content (snd (ies ! k)) ! p"
  | ies where "index_of compare readable content ies es" "off ies t" "i = length es"
proof -
  obtain ies where idx: "index_of compare readable content ies es"
    and cases: "i = length es \<and> off ies t \<or> (\<exists>k p. on ies t k p \<and> p < length (content (snd (ies ! k))) \<and> i = block_start content ies k + p)"
    using assms unfolding two_level_pos_def by blast
  from cases show thesis
  proof
    assume "i = length es \<and> off ies t"
    then show thesis using that(2) idx by blast
  next
    assume "\<exists>k p. on ies t k p \<and> p < length (content (snd (ies ! k))) \<and> i = block_start content ies k + p"
    then obtain k p where kp: "on ies t k p" "p < length (content (snd (ies ! k)))" "i = block_start content ies k + p" by blast
    have es: "es = concat (map (content \<circ> snd) ies)" using idx by (simp add: index_of_def)
    show thesis
      using that(1) [OF idx kp] concat_at [where content = content, OF on_data_valid(5) [OF kp(1)] kp(2)] kp(3) unfolding es by simp
  qed
qed

lemma at_moving: "at es t i \<Longrightarrow> \<exists>ies k. index_of compare readable content ies es \<and> moving ies t k"
  by (erule at_cases) (blast intro: on_moving, auto simp: tl_off_def)

lemma two_level_entry:
  assumes "at es t i"
  shows "TwoLevel_Valid t \<longleftrightarrow> i < length es" "i \<le> length es" "ascending compare es"
    "i < length es \<Longrightarrow> TwoLevel_key t = Some (fst (es ! i))" "i < length es \<Longrightarrow> TwoLevel_value vtd t = Some (snd (es ! i))"
    "TwoLevel_status vti vtd t = Some Status_OK"
proof -
  have asc: "ascending compare es" using assms by (auto simp: two_level_pos_def index_of_def)
  have "(TwoLevel_Valid t \<longleftrightarrow> i < length es) \<and> i \<le> length es \<and> ascending compare es \<and>
    (i < length es \<longrightarrow> TwoLevel_key t = Some (fst (es ! i)) \<and> TwoLevel_value vtd t = Some (snd (es ! i))) \<and>
    TwoLevel_status vti vtd t = Some Status_OK"
    using assms
  proof (cases rule: at_cases)
    case (1 ies k p)
    have w: "wrapper_pos dpos (content (snd (ies ! k))) (tl_data t) p" "wrapper_pos ipos ies (tl_index t) k" "tl_status t = Status_OK"
      using 1(2) by (simp_all add: tl_on_def)
    show ?thesis
      using 1(3,5,6) data.wrapper_ops(1,4,6,7) [OF w(1)] index.wrapper_ops(7) [OF w(2)] w(3) asc
      by (auto simp: TwoLevel_Valid_def TwoLevel_key_def TwoLevel_value_def TwoLevel_status_def Status_OK_def Status_ok_def)
  next
    case (2 ies)
    then obtain k where "wrapper_pos ipos ies (tl_index t) k" "w_iter (tl_data t) = None" "\<not> w_valid (tl_data t)" "tl_status t = Status_OK"
      by (auto simp: tl_off_def tl_moving_def)
    then show ?thesis
      using 2(3) index.wrapper_ops(7) asc by (auto simp: TwoLevel_Valid_def TwoLevel_status_def Status_OK_def Status_ok_def)
  qed
  then show "TwoLevel_Valid t \<longleftrightarrow> i < length es" "i \<le> length es" "ascending compare es"
    "i < length es \<Longrightarrow> TwoLevel_key t = Some (fst (es ! i))" "i < length es \<Longrightarrow> TwoLevel_value vtd t = Some (snd (es ! i))"
    "TwoLevel_status vti vtd t = Some Status_OK" by simp_all
qed

lemma two_level_next:
  assumes "at es t i" "i < length es"
  shows "\<exists>t'. TwoLevel_Next vti vtd block_function t = Some t' \<and> at es t' (Suc i)"
  using assms(1)
proof (cases rule: at_cases)
  case (1 ies k p)
  obtain w where w: "Wrapper_Next vtd (tl_data t) = Some w" "on ies (t\<lparr>tl_data := w\<rparr>) k (Suc p)"
    using data_move(1) [OF 1(2), of "Wrapper_Next vtd" "Suc p"] data.wrapper_ops(8) 1(3) by blast
  then show ?thesis
    using skip_forward [OF 1(1) w(2)] 1(4) two_level_entry(1) [OF assms(1)] assms(2) by (simp add: TwoLevel_Next_def)
qed (use assms(2) in simp)

lemma two_level_prev:
  assumes "at es t i" "i < length es"
  shows "\<exists>t'. TwoLevel_Prev vti vtd block_function t = Some t' \<and> at es t' (if i = 0 then length es else i - 1)"
  using assms(1)
proof (cases rule: at_cases)
  case (1 ies k p)
  have "\<exists>w'. Wrapper_Prev vtd w = Some w' \<and> wrapper_pos dpos (content (snd (ies ! k))) w' (one_before p (length (content (snd (ies ! k)))))"
    if "wrapper_pos dpos (content (snd (ies ! k))) w p" for w using data.wrapper_ops(9) [OF that 1(3)] unfolding one_before_def .
  then obtain w where w: "Wrapper_Prev vtd (tl_data t) = Some w"
      "on ies (t\<lparr>tl_data := w\<rparr>) k (one_before p (length (content (snd (ies ! k)))))"
    using data_move(1) [OF 1(2), of "Wrapper_Prev vtd"] by blast
  have "one_before (block_start content ies k + p) (length es) = (if i = 0 then length es else i - 1)"
    using 1(4) by (simp add: one_before_def)
  from skip_backward [OF 1(1) w(2) less_imp_le [OF 1(3)], unfolded this] show ?thesis
    using two_level_entry(1) [OF assms(1)] assms(2) w(1) by (simp add: TwoLevel_Prev_def)
qed (use assms(2) in simp)

text \<open>The three seeks: move the index, open the block, move in it, and skip empty blocks.\<close>

lemma seek_block:
  assumes "at es t i" "\<forall>ies w k. wrapper_pos ipos ies w k \<longrightarrow> (\<exists>w'. fi w = Some w' \<and> wrapper_pos ipos ies w' (goal ies))"
    "\<forall>bs w p. wrapper_pos dpos bs w p \<longrightarrow> (\<exists>w'. fd w = Some w' \<and> wrapper_pos dpos bs w' (inner bs))"
  shows "\<exists>ies t1 t2 t3. index_of compare readable content ies es \<and> on_index fi t = Some t1 \<and>
    InitDataBlock vti vtd block_function t1 = Some t2 \<and> on_data fd t2 = Some t3 \<and>
    (if goal ies < length ies then on ies t3 (goal ies) (inner (content (snd (ies ! goal ies))))
     else goal ies = length ies \<and> moving ies t3 (length ies) \<and> w_iter (tl_data t3) = None)"
proof -
  obtain ies k where idx: "index_of compare readable content ies es" "moving ies t k" using at_moving [OF assms(1)] by blast
  obtain t1 where t1: "on_index fi t = Some t1" "moving ies t1 (goal ies)"
    using index_move [OF idx(2), of fi "goal ies"] assms(2) by blast
  have "goal ies \<le> length ies" using t1(2) index.wrapper_ops(2) by (auto simp: tl_moving_def)
  then consider "goal ies < length ies" | "goal ies = length ies" by linarith
  then show ?thesis
  proof cases
    case 1
    obtain t2 p where t2: "InitDataBlock vti vtd block_function t1 = Some t2" "on ies t2 (goal ies) p"
      using init_block [OF t1(2) 1 index_readable [OF idx(1) 1]] by blast
    obtain w where "fd (tl_data t2) = Some w" "on ies (t2\<lparr>tl_data := w\<rparr>) (goal ies) (inner (content (snd (ies ! goal ies))))"
      using data_move(1) [OF t2(2)] assms(3) by blast
    then show ?thesis using idx(1) t1(1) t2 1 on_data_valid(3) [OF t2(2)] by (intro exI conjI) (auto simp: on_data_def)
  next
    case 2
    obtain t2 where t2: "InitDataBlock vti vtd block_function t1 = Some t2" "moving ies t2 (length ies)" "w_iter (tl_data t2) = None"
      using init_end t1(2) 2 by metis
    then show ?thesis using idx(1) t1(1) 2 by (intro exI conjI) (auto simp: on_data_def)
  qed
qed

lemma two_level_first:
  assumes "at es t i"
  shows "\<exists>t'. TwoLevel_SeekToFirst vti vtd block_function t = Some t' \<and> at es t' 0"
proof -
  have i: "\<forall>ies w k. wrapper_pos ipos ies w k \<longrightarrow> (\<exists>w'. Wrapper_SeekToFirst vti w = Some w' \<and> wrapper_pos ipos ies w' 0)"
    using index.wrapper_ops(10) by blast
  have d: "\<forall>bs w p. wrapper_pos dpos bs w p \<longrightarrow> (\<exists>w'. Wrapper_SeekToFirst vtd w = Some w' \<and> wrapper_pos dpos bs w' 0)"
    using data.wrapper_ops(10) by blast
  obtain ies t1 t2 t3 where t: "index_of compare readable content ies es" "on_index (Wrapper_SeekToFirst vti) t = Some t1"
      "InitDataBlock vti vtd block_function t1 = Some t2" "on_data (Wrapper_SeekToFirst vtd) t2 = Some t3"
      "if 0 < length ies then on ies t3 0 0 else 0 = length ies \<and> moving ies t3 (length ies) \<and> w_iter (tl_data t3) = None"
    using seek_block [OF assms i d] by blast
  have "\<exists>t'. SkipEmptyDataBlocksForward vti vtd block_function t3 = Some t' \<and> at es t' 0"
  proof (cases "0 < length ies")
    case True
    then show ?thesis using t(5) skip_forward [OF t(1), of t3 0 0] by simp
  next
    case False
    then show ?thesis
      using t(5) skip_end [of ies t3 True] at_off [OF t(1)] index_start(1) [OF t(1)] by (auto simp: SkipEmptyDataBlocksForward_def)
  qed
  then show ?thesis using t(2-4) by (simp add: TwoLevel_SeekToFirst_def)
qed

lemma two_level_last:
  assumes "at es t i"
  shows "\<exists>t'. TwoLevel_SeekToLast vti vtd block_function t = Some t' \<and> at es t' (length es - 1)"
proof -
  have i: "\<forall>ies w k. wrapper_pos ipos ies w k \<longrightarrow> (\<exists>w'. Wrapper_SeekToLast vti w = Some w' \<and> wrapper_pos ipos ies w' (length ies - 1))"
    using index.wrapper_ops(11) by blast
  have d: "\<forall>bs w p. wrapper_pos dpos bs w p \<longrightarrow> (\<exists>w'. Wrapper_SeekToLast vtd w = Some w' \<and> wrapper_pos dpos bs w' (length bs - 1))"
    using data.wrapper_ops(11) by blast
  obtain ies t1 t2 t3 where t: "index_of compare readable content ies es" "on_index (Wrapper_SeekToLast vti) t = Some t1"
      "InitDataBlock vti vtd block_function t1 = Some t2" "on_data (Wrapper_SeekToLast vtd) t2 = Some t3"
      "if length ies - 1 < length ies then on ies t3 (length ies - 1) (length (content (snd (ies ! (length ies - 1)))) - 1)
       else length ies - 1 = length ies \<and> moving ies t3 (length ies) \<and> w_iter (tl_data t3) = None"
    using seek_block [OF assms i d] by blast
  have "\<exists>t'. SkipEmptyDataBlocksBackward vti vtd block_function t3 = Some t' \<and> at es t' (length es - 1)"
  proof (cases "0 < length ies")
    case True
    define k where "k = length ies - 1"
    define n where "n = length (content (snd (ies ! k)))"
    have "on ies t3 k (one_before n n)" using t(5) True by (cases n) (simp_all add: k_def n_def one_before_def)
    moreover have "block_start content ies k + n = length es"
      using index_start(1) [OF t(1)] block_start_Suc [of k ies content] True by (simp add: k_def n_def)
    moreover have "one_before (length es) (length es) = length es - 1" by (simp add: one_before_def)
    ultimately show ?thesis using skip_backward [OF t(1), of t3 k n] by (simp add: n_def)
  next
    case False
    then show ?thesis
      using t(5) skip_end [of ies t3 False] at_off [OF t(1)] index_start(1) [OF t(1)] by (auto simp: SkipEmptyDataBlocksBackward_def)
  qed
  then show ?thesis using t(2-4) by (simp add: TwoLevel_SeekToLast_def)
qed

text \<open>Where \<^verbatim>\<open>Seek\<close> ends: in the first block whose index key is at or past the target, or behind it.\<close>

lemma index_before:
  assumes "index_of compare readable content ies es" "k \<le> length ies" "\<forall>l<k. compare (fst (ies ! l)) target < 0"
  shows "\<forall>e \<in> set (concat (map (content \<circ> snd) (take k ies))). compare (fst e) target < 0"
proof
  fix e
  assume "e \<in> set (concat (map (content \<circ> snd) (take k ies)))"
  then obtain l where "l < k" "l < length ies" "e \<in> set (content (snd (ies ! l)))"
    using assms(2) by (fastforce simp: in_set_conv_nth)
  then show "compare (fst e) target < 0"
    using assms(1,3) index.le_less_trans [of "fst e" "fst (ies ! l)" target] by (auto simp: index_of_def)
qed

lemma index_after:
  assumes "index_of compare readable content ies es" "k < length ies" "\<not> compare (fst (ies ! k)) target < 0"
    "e \<in> set (concat (map (content \<circ> snd) (drop (Suc k) ies)))"
  shows "\<not> compare (fst e) target < 0"
proof -
  obtain x where x: "x \<in> set (drop (Suc k) ies)" "e \<in> set (content (snd x))" using assms(4) by auto
  then obtain n where n: "n < length ies - Suc k" "x = ies ! (Suc k + n)" by (auto simp: in_set_conv_nth)
  have "\<forall>l<length ies. \<forall>k<l. \<forall>e \<in> set (content (snd (ies ! l))). compare (fst (ies ! k)) (fst e) < 0"
    using assms(1) by (simp add: index_of_def)
  from this [rule_format, of "Suc k + n" k e] have "compare (fst (ies ! k)) (fst e) < 0" using n x(2) by simp
  then show ?thesis using assms(3) index.less_trans [of "fst (ies ! k)" "fst e" target] by blast
qed

lemma seek_goal:
  fixes target :: slice
  assumes "index_of compare readable content ies es" "ascending compare ies"
  defines "k \<equiv> first_ge compare ies target"
  shows "first_ge compare es target =
    (if k < length ies then block_start content ies k + first_ge compare (content (snd (ies ! k))) target else length es)"
proof -
  have es: "es = concat (map (content \<circ> snd) ies)" using assms(1) by (simp add: index_of_def)
  note split = index.first_ge_split [OF assms(2), of target, folded k_def]
  have le: "k \<le> length ies" unfolding k_def by (rule index.first_ge_le)
  have "compare (fst (ies ! l)) target < 0" if "l < k" for l
  proof -
    have "ies ! l \<in> set (take k ies)" using that le by (metis in_set_conv_nth length_take min.absorb2 nth_take)
    then show ?thesis using split(1) by simp
  qed
  note before = index_before [OF assms(1) le, of target, rule_format, OF this]
  show ?thesis
  proof (cases "k < length ies")
    case True
    have "ies ! k \<in> set (drop k ies)" using True by (metis Cons_nth_drop_Suc list.set_intros(1))
    then have at: "\<not> compare (fst (ies ! k)) target < 0" using split(2) by simp
    define ys where "ys = content (snd (ies ! k))"
    define zs where "zs = concat (map (content \<circ> snd) (drop (Suc k) ies))"
    have "\<forall>e \<in> set zs. \<not> compare (fst e) target < 0" using index_after [OF assms(1) True at] unfolding zs_def by blast
    then have "first_ge compare zs target = 0" by (cases zs) (auto simp: first_ge_def)
    then have "first_ge compare (ys @ zs) target = first_ge compare ys target"
      unfolding first_ge_append by (auto simp: first_ge_def takeWhile_eq_all_conv [THEN iffD2])
    then show ?thesis
      using True before concat_split [OF True, of content] first_ge_append [of compare "concat (map (content \<circ> snd) (take k ies))" "ys @ zs" target]
      by (auto simp: es ys_def zs_def block_start_def)
  next
    case False
    then have "\<forall>e \<in> set es. compare (fst e) target < 0" using before le es by simp
    then show ?thesis using False by (simp add: first_ge_def takeWhile_eq_all_conv [THEN iffD2])
  qed
qed

lemma two_level_seek:
  assumes "at es t i"
  shows "\<exists>t'. TwoLevel_Seek vti vtd block_function target t = Some t' \<and> at es t' (first_ge compare es target)"
proof -
  have i: "\<forall>ies w k. wrapper_pos ipos ies w k \<longrightarrow> (\<exists>w'. Wrapper_Seek vti target w = Some w' \<and> wrapper_pos ipos ies w' (first_ge compare ies target))"
    using index.wrapper_ops(12) by simp
  have d: "\<forall>bs w p. wrapper_pos dpos bs w p \<longrightarrow> (\<exists>w'. Wrapper_Seek vtd target w = Some w' \<and> wrapper_pos dpos bs w' (first_ge compare bs target))"
    using data.wrapper_ops(12) by simp
  obtain ies t1 t2 t3 where t: "index_of compare readable content ies es" "on_index (Wrapper_Seek vti target) t = Some t1"
      "InitDataBlock vti vtd block_function t1 = Some t2" "on_data (Wrapper_Seek vtd target) t2 = Some t3"
      "if first_ge compare ies target < length ies
       then on ies t3 (first_ge compare ies target) (first_ge compare (content (snd (ies ! first_ge compare ies target))) target)
       else first_ge compare ies target = length ies \<and> moving ies t3 (length ies) \<and> w_iter (tl_data t3) = None"
    using seek_block [OF assms i d] by blast
  have asc: "ascending compare ies" using t(5) index.wrapper_ops(3) by (auto simp: tl_on_def tl_moving_def split: if_splits)
  note goal = seek_goal [OF t(1) asc, of target]
  have "\<exists>t'. SkipEmptyDataBlocksForward vti vtd block_function t3 = Some t' \<and> at es t' (first_ge compare es target)"
  proof (cases "first_ge compare ies target < length ies")
    case True
    then show ?thesis using t(5) skip_forward [OF t(1)] goal by simp
  next
    case False
    then show ?thesis using t(5) skip_end [of ies t3 True] at_off [OF t(1)] goal by (auto simp: SkipEmptyDataBlocksForward_def)
  qed
  then show ?thesis using t(2-4) by (simp add: TwoLevel_Seek_def)
qed

lemma two_level_init:
  assumes "index_of compare readable content ies es" "ipos ies it k" "world_ok s"
  shows "\<exists>t :: ('i, 'd, 's) TwoLevelIterator. TwoLevelIterator_init vti it s = Some t \<and> at es t (length es)"
proof -
  obtain w where w: "Wrapper_Set vti (Some it) IteratorWrapper_init = Some w" "wrapper_pos ipos ies w k" using index.wrapper_set [OF assms(2)] by blast
  define t :: "('i, 'd, 's) TwoLevelIterator" where "t = \<lparr>tl_status = Status_OK, tl_index = w, tl_data = IteratorWrapper_init, tl_handle = [], tl_world = s\<rparr>"
  have "off ies t" using w(2) assms(3) by (auto simp: tl_off_def tl_moving_def t_def IteratorWrapper_init_def)
  then have "at es t (length es)" by (rule at_off [OF assms(1)])
  then show ?thesis using w(1) by (simp add: TwoLevelIterator_init_def t_def)
qed

lemma two_level_class:
  "iterator_class compare (TwoLevelIterator_vt vti vtd block_function) (two_level_pos compare ipos dpos world_ok readable content) (\<lambda>_. True)"
proof -
  have "iterator_contract compare TwoLevel_Valid TwoLevel_key (TwoLevel_value vtd) (TwoLevel_Next vti vtd block_function)
      (TwoLevel_Prev vti vtd block_function) (TwoLevel_SeekToFirst vti vtd block_function) (TwoLevel_SeekToLast vti vtd block_function)
      (TwoLevel_Seek vti vtd block_function) (two_level_pos compare ipos dpos world_ok readable content) (\<lambda>_. True)"
    by (intro iterator_contract.intro iterator_contract_axioms.intro index.key_order_axioms)
      (rule TrueI | rule two_level_entry two_level_next two_level_prev two_level_first two_level_last two_level_seek; assumption)+
  then show ?thesis
    using two_level_entry(6) by (auto simp: iterator_class_def iterator_class_axioms_def TwoLevelIterator_vt_def)
qed

end

end
