(* ===== verification/LDB_Table.thy ===== *)
theory LDB_Table
  imports LDB_Table_Format LDB_Filter LDB_TwoLevel
begin

text \<open>
  Tables: the builder of \<^verbatim>\<open>table/table_builder.cc\<close> and the reader of \<^verbatim>\<open>table/table.cc\<close>. Options are a record with the
  functions of the comparator and of the filter policy; the file that the builder writes and the cache of blocks are
  given by their operations.
\<close>

subsection \<open>Options\<close>

record FilterPolicy =
  fp_Name :: slice
  fp_CreateFilter :: "slice list \<Rightarrow> byte list \<Rightarrow> byte list option"
  fp_KeyMayMatch :: "slice \<Rightarrow> slice \<Rightarrow> bool"

text \<open>\<open>cmp_id\<close> is the address of the comparator, by which \<^verbatim>\<open>ChangeOptions\<close> compares two of them.\<close>

record Comparator =
  cmp_id :: nat
  cmp_Compare :: "slice \<Rightarrow> slice \<Rightarrow> int"
  cmp_FindShortestSeparator :: "slice \<Rightarrow> slice \<Rightarrow> slice"
  cmp_FindShortSuccessor :: "slice \<Rightarrow> slice"

record Options =
  opt_comparator :: Comparator
  opt_paranoid_checks :: bool
  opt_block_size :: nat
  opt_block_restart_interval :: nat
  opt_compression :: CompressionType
  opt_filter_policy :: "FilterPolicy option"

definition Options_init :: "Comparator \<Rightarrow> Options" where
  "Options_init bytewise_comparator =
     \<lparr>opt_comparator = bytewise_comparator, opt_paranoid_checks = False, opt_block_size = 4096,
      opt_block_restart_interval = 16, opt_compression = kSnappyCompression, opt_filter_policy = None\<rparr>"

subsection \<open>The builder\<close>

record 'f WritableFile_vt =
  wf_Append :: "slice \<Rightarrow> 'f \<Rightarrow> (Status \<times> 'f) option"
  wf_Flush :: "'f \<Rightarrow> (Status \<times> 'f) option"

record 'f TableBuilder =
  tb_options :: Options
  tb_index_block_options :: Options
  tb_file :: 'f
  tb_offset :: "64 word"
  tb_status :: Status
  tb_data_block :: BlockBuilder
  tb_index_block :: BlockBuilder
  tb_last_key :: slice
  tb_num_entries :: "64 word"
  tb_closed :: bool
  tb_filter_block :: "(FilterPolicy \<times> FilterBlockBuilder) option"
  tb_pending_index_entry :: bool
  tb_pending_handle :: BlockHandle

text \<open>
  \<^verbatim>\<open>r->filter_block->f()\<close> where there is a filter block. It keeps the policy that it was made with, which may no longer be
  the one of the options after \<^verbatim>\<open>ChangeOptions\<close>.
\<close>

definition on_filter ::
    "('f TableBuilder \<Rightarrow> FilterPolicy \<Rightarrow> FilterBlockBuilder \<Rightarrow> FilterBlockBuilder option) \<Rightarrow> 'f TableBuilder \<Rightarrow> 'f TableBuilder option" where
  "on_filter f r =
     (case tb_filter_block r of None \<Rightarrow> Some r
      | Some (p, b) \<Rightarrow> do { b \<leftarrow> f r p b; Some (r\<lparr>tb_filter_block := Some (p, b)\<rparr>) })"

definition TableBuilder_init :: "Options \<Rightarrow> 'f \<Rightarrow> 'f TableBuilder option" where
  "TableBuilder_init options file =
     do {
       data_block \<leftarrow> BlockBuilder_init (opt_block_restart_interval options);
       index_block \<leftarrow> BlockBuilder_init (opt_block_restart_interval options);
       let r = \<lparr>tb_options = options, tb_index_block_options = options\<lparr>opt_block_restart_interval := 1\<rparr>, tb_file = file,
                tb_offset = 0, tb_status = Status_OK, tb_data_block = data_block, tb_index_block = index_block, tb_last_key = [],
                tb_num_entries = 0, tb_closed = False,
                tb_filter_block = map_option (\<lambda>p. (p, FilterBlockBuilder_init)) (opt_filter_policy options),
                tb_pending_index_entry = False, tb_pending_handle = BlockHandle_init\<rparr>;
       on_filter (\<lambda>r p b. StartBlock (fp_CreateFilter p) 0 b) r
     }"

definition ChangeOptions :: "Options \<Rightarrow> 'f TableBuilder \<Rightarrow> (Status \<times> 'f TableBuilder) option" where
  "ChangeOptions options r =
     (if cmp_id (opt_comparator options) \<noteq> cmp_id (opt_comparator (tb_options r)) then
        do { s \<leftarrow> Status_InvalidArgument (str ''changing comparator while building table'') []; Some (s, r) }
      else Some (Status_OK, r\<lparr>tb_options := options, tb_index_block_options := options\<lparr>opt_block_restart_interval := 1\<rparr>\<rparr>))"

definition tb_ok :: "'f TableBuilder \<Rightarrow> bool" where "tb_ok r \<longleftrightarrow> Status_ok (tb_status r)"

definition WriteRawBlock ::
    "'f WritableFile_vt \<Rightarrow> bool \<Rightarrow> slice \<Rightarrow> CompressionType \<Rightarrow> 'f TableBuilder \<Rightarrow> (BlockHandle \<times> 'f TableBuilder) option" where
  "WriteRawBlock fv le block_contents type r =
     do {
       let handle = \<lparr>bh_offset = tb_offset r, bh_size = word_of_nat (length block_contents)\<rparr>;
       (s, file) \<leftarrow> wf_Append fv block_contents (tb_file r);
       let r = r\<lparr>tb_status := s, tb_file := file\<rparr>;
       if Status_ok s then
         do {
           let crc = Value le 0 block_contents;
           let crc = Extend le 0 crc [CompressionType_byte type];
           let trailer = CompressionType_byte type # EncodeFixed32 le (Mask crc);
           (s, file) \<leftarrow> wf_Append fv trailer (tb_file r);
           let r = r\<lparr>tb_status := s, tb_file := file\<rparr>;
           Some (handle, if Status_ok s
                         then r\<lparr>tb_offset := tb_offset r + word_of_nat (length block_contents + kBlockTrailerSize)\<rparr> else r)
         }
       else Some (handle, r)
     }"

text \<open>\<open>WriteBlock\<close> returns the block as it is after \<^verbatim>\<open>Reset\<close>; the caller puts it back.\<close>

definition WriteBlock ::
    "'f WritableFile_vt \<Rightarrow> bool \<Rightarrow> BlockBuilder \<Rightarrow> 'f TableBuilder \<Rightarrow> (BlockBuilder \<times> BlockHandle \<times> 'f TableBuilder) option" where
  "WriteBlock fv le block r =
     (if \<not> tb_ok r then None
      else
        let (raw, block) = BlockBuilder_Finish le block;
            (block_contents, type) =
              (case opt_compression (tb_options r) of
                 kNoCompression \<Rightarrow> (raw, kNoCompression)
               | kSnappyCompression \<Rightarrow>
                   (case Snappy_Compress raw of
                      Some compressed \<Rightarrow> if length compressed < length raw - length raw div 8 then (compressed, kSnappyCompression)
                                         else (raw, kNoCompression)
                    | None \<Rightarrow> (raw, kNoCompression)))
        in do {
          (handle, r) \<leftarrow> WriteRawBlock fv le block_contents type r;
          Some (BlockBuilder_Reset block, handle, r)
        })"

definition TableBuilder_Flush :: "'f WritableFile_vt \<Rightarrow> bool \<Rightarrow> 'f TableBuilder \<Rightarrow> 'f TableBuilder option" where
  "TableBuilder_Flush fv le r =
     (if tb_closed r then None
      else if \<not> tb_ok r then Some r
      else if BlockBuilder_empty (tb_data_block r) then Some r
      else if tb_pending_index_entry r then None
      else
        do {
          (block, handle, r) \<leftarrow> WriteBlock fv le (tb_data_block r) r;
          let r = r\<lparr>tb_data_block := block, tb_pending_handle := handle\<rparr>;
          r \<leftarrow> (if tb_ok r then
                  do { (s, file) \<leftarrow> wf_Flush fv (tb_file r); Some (r\<lparr>tb_pending_index_entry := True, tb_status := s, tb_file := file\<rparr>) }
                else Some r);
          on_filter (\<lambda>r p b. StartBlock (fp_CreateFilter p) (tb_offset r) b) r
        })"

text \<open>The entry of the index for the last block, under the key that \<open>last_key\<close> becomes.\<close>

definition add_index_entry :: "slice \<Rightarrow> 'f TableBuilder \<Rightarrow> 'f TableBuilder option" where
  "add_index_entry last_key r =
     do {
       handle_encoding \<leftarrow> BlockHandle_EncodeTo (tb_pending_handle r) [];
       index_block \<leftarrow> BlockBuilder_Add (cmp_Compare (opt_comparator (tb_index_block_options r)))
         (opt_block_restart_interval (tb_index_block_options r)) last_key handle_encoding (tb_index_block r);
       Some (r\<lparr>tb_last_key := last_key, tb_index_block := index_block, tb_pending_index_entry := False\<rparr>)
     }"

definition TableBuilder_Add :: "'f WritableFile_vt \<Rightarrow> bool \<Rightarrow> slice \<Rightarrow> slice \<Rightarrow> 'f TableBuilder \<Rightarrow> 'f TableBuilder option" where
  "TableBuilder_Add fv le k v r =
     (if tb_closed r then None
      else if \<not> tb_ok r then Some r
      else if sint (tb_num_entries r) > 0 \<and> \<not> cmp_Compare (opt_comparator (tb_options r)) k (tb_last_key r) > 0 then None
      else
        do {
          r \<leftarrow> (if tb_pending_index_entry r then
                  if \<not> BlockBuilder_empty (tb_data_block r) then None
                  else add_index_entry (cmp_FindShortestSeparator (opt_comparator (tb_options r)) (tb_last_key r) k) r
                else Some r);
          r \<leftarrow> on_filter (\<lambda>r p b. Some (AddKey k b)) r;
          let r = r\<lparr>tb_last_key := k, tb_num_entries := tb_num_entries r + 1\<rparr>;
          data_block \<leftarrow> BlockBuilder_Add (cmp_Compare (opt_comparator (tb_options r))) (opt_block_restart_interval (tb_options r)) k v (tb_data_block r);
          let r = r\<lparr>tb_data_block := data_block\<rparr>;
          if CurrentSizeEstimate (tb_data_block r) \<ge> opt_block_size (tb_options r) then TableBuilder_Flush fv le r else Some r
        })"

text \<open>The parts of \<^verbatim>\<open>Finish\<close>, each of which is skipped after an error.\<close>

definition write_filter :: "'f WritableFile_vt \<Rightarrow> bool \<Rightarrow> 'f TableBuilder \<Rightarrow> (BlockHandle \<times> 'f TableBuilder) option" where
  "write_filter fv le r =
     (case tb_filter_block r of
        Some (p, b) \<Rightarrow>
          if tb_ok r then
            do { contents \<leftarrow> FilterBlock_Finish (fp_CreateFilter p) le b; WriteRawBlock fv le contents kNoCompression r }
          else Some (BlockHandle_init, r)
      | None \<Rightarrow> Some (BlockHandle_init, r))"

definition write_metaindex :: "'f WritableFile_vt \<Rightarrow> bool \<Rightarrow> BlockHandle \<Rightarrow> 'f TableBuilder \<Rightarrow> (BlockHandle \<times> 'f TableBuilder) option" where
  "write_metaindex fv le filter_block_handle r =
     (if tb_ok r then
        do {
          meta_index_block \<leftarrow> BlockBuilder_init (opt_block_restart_interval (tb_options r));
          meta_index_block \<leftarrow>
            (if tb_filter_block r \<noteq> None then
               do {
                 p \<leftarrow> opt_filter_policy (tb_options r);
                 handle_encoding \<leftarrow> BlockHandle_EncodeTo filter_block_handle [];
                 BlockBuilder_Add (cmp_Compare (opt_comparator (tb_options r))) (opt_block_restart_interval (tb_options r))
                   (str ''filter.'' @ fp_Name p) handle_encoding meta_index_block
               }
             else Some meta_index_block);
          (block, handle, r) \<leftarrow> WriteBlock fv le meta_index_block r;
          Some (handle, r)
        }
      else Some (BlockHandle_init, r))"

definition write_index :: "'f WritableFile_vt \<Rightarrow> bool \<Rightarrow> 'f TableBuilder \<Rightarrow> (BlockHandle \<times> 'f TableBuilder) option" where
  "write_index fv le r =
     (if tb_ok r then
        do {
          r \<leftarrow> (if tb_pending_index_entry r
                then add_index_entry (cmp_FindShortSuccessor (opt_comparator (tb_options r)) (tb_last_key r)) r else Some r);
          (block, handle, r) \<leftarrow> WriteBlock fv le (tb_index_block r) r;
          Some (handle, r\<lparr>tb_index_block := block\<rparr>)
        }
      else Some (BlockHandle_init, r))"

definition write_footer :: "'f WritableFile_vt \<Rightarrow> bool \<Rightarrow> BlockHandle \<Rightarrow> BlockHandle \<Rightarrow> 'f TableBuilder \<Rightarrow> 'f TableBuilder option" where
  "write_footer fv le metaindex_block_handle index_block_handle r =
     (if tb_ok r then
        do {
          footer_encoding \<leftarrow> Footer_EncodeTo le \<lparr>metaindex_handle = metaindex_block_handle, index_handle = index_block_handle\<rparr> [];
          (s, file) \<leftarrow> wf_Append fv footer_encoding (tb_file r);
          let r = r\<lparr>tb_status := s, tb_file := file\<rparr>;
          Some (if Status_ok s then r\<lparr>tb_offset := tb_offset r + word_of_nat (length footer_encoding)\<rparr> else r)
        }
      else Some r)"

definition TableBuilder_Finish :: "'f WritableFile_vt \<Rightarrow> bool \<Rightarrow> 'f TableBuilder \<Rightarrow> (Status \<times> 'f TableBuilder) option" where
  "TableBuilder_Finish fv le r =
     do {
       r \<leftarrow> TableBuilder_Flush fv le r;
       r \<leftarrow> (if tb_closed r then None else Some (r\<lparr>tb_closed := True\<rparr>));
       (filter_block_handle, r) \<leftarrow> write_filter fv le r;
       (metaindex_block_handle, r) \<leftarrow> write_metaindex fv le filter_block_handle r;
       (index_block_handle, r) \<leftarrow> write_index fv le r;
       r \<leftarrow> write_footer fv le metaindex_block_handle index_block_handle r;
       Some (tb_status r, r)
     }"

definition TableBuilder_Abandon :: "'f TableBuilder \<Rightarrow> 'f TableBuilder option" where
  "TableBuilder_Abandon r = (if tb_closed r then None else Some (r\<lparr>tb_closed := True\<rparr>))"

definition TableBuilder_FileSize :: "'f TableBuilder \<Rightarrow> 64 word" where "TableBuilder_FileSize r = tb_offset r"

definition TableBuilder_NumEntries :: "'f TableBuilder \<Rightarrow> 64 word" where "TableBuilder_NumEntries r = tb_num_entries r"

subsection \<open>The reader\<close>

text \<open>
  The operations of a cache of blocks; \<^verbatim>\<open>Lookup\<close> with \<^verbatim>\<open>Value\<close> gives the block under a key. A block that an iterator uses stays
  alive whether or not the cache drops it, so that the release of handles is not modelled here.
\<close>

record 's BlockCache_vt =
  ca_NewId :: "'s \<Rightarrow> 64 word \<times> 's"
  ca_Lookup :: "slice \<Rightarrow> 's \<Rightarrow> Block option \<times> 's"
  ca_Insert :: "slice \<Rightarrow> Block \<Rightarrow> nat \<Rightarrow> 's \<Rightarrow> 's"

record ReadOptions =
  ro_verify_checksums :: bool
  ro_fill_cache :: bool

definition ReadOptions_init :: ReadOptions where
  "ReadOptions_init = \<lparr>ro_verify_checksums = False, ro_fill_cache = True\<rparr>"

record Table =
  t_options :: Options
  t_file :: RandomAccessFile
  t_cache_id :: "64 word"
  t_filter :: "FilterBlockReader option"
  t_metaindex_handle :: BlockHandle
  t_index_block :: Block

definition ReadFilter :: "bool \<Rightarrow> slice \<Rightarrow> Table \<Rightarrow> Table option" where
  "ReadFilter le filter_handle_value t =
     do {
       (s, v, filter_handle) \<leftarrow> BlockHandle_DecodeFrom filter_handle_value BlockHandle_init;
       if \<not> Status_ok s then Some t
       else
         do {
           (s, block) \<leftarrow> ReadBlock le (t_file t) (opt_paranoid_checks (t_options t)) filter_handle;
           if \<not> Status_ok s then Some t else Some (t\<lparr>t_filter := Some (FilterBlockReader_init le (bc_data block))\<rparr>)
         }
     }"

definition ReadMeta :: "bool \<Rightarrow> Footer \<Rightarrow> Table \<Rightarrow> Table option" where
  "ReadMeta le footer t =
     (case opt_filter_policy (t_options t) of None \<Rightarrow> Some t
      | Some p \<Rightarrow>
          do {
            (s, contents) \<leftarrow> ReadBlock le (t_file t) (opt_paranoid_checks (t_options t)) (metaindex_handle footer);
            if \<not> Status_ok s then Some t
            else
              do {
                let vt = TableIterator_vt Slice_compare le;
                iter \<leftarrow> Block_NewIterator le (Block_init le (bc_data contents));
                let k = str ''filter.'' @ fp_Name p;
                iter \<leftarrow> vt_Seek vt k iter;
                if vt_Valid vt iter then
                  do { key \<leftarrow> vt_key vt iter;
                       if Slice_eq key k then do { v \<leftarrow> vt_value vt iter; ReadFilter le v t } else Some t }
                else Some t
              }
          })"

definition Table_Open ::
    "bool \<Rightarrow> 's BlockCache_vt option \<Rightarrow> Options \<Rightarrow> RandomAccessFile \<Rightarrow> 64 word \<Rightarrow> 's \<Rightarrow> (Status \<times> Table option \<times> 's) option" where
  "Table_Open le cache options file file_size world =
     (if unat file_size < Footer_kEncodedLength then
        do { s \<leftarrow> Status_Corruption (str ''file is too short to be an sstable'') []; Some (s, None, world) }
      else
        do {
          (s, footer_input, in_buf) \<leftarrow> file (file_size - word_of_nat Footer_kEncodedLength) (word_of_nat Footer_kEncodedLength);
          if \<not> Status_ok s then Some (s, None, world)
          else
            do {
              (s, rest, footer) \<leftarrow> Footer_DecodeFrom le footer_input Footer_init;
              if \<not> Status_ok s then Some (s, None, world)
              else
                do {
                  (s, contents) \<leftarrow> ReadBlock le file (opt_paranoid_checks options) (index_handle footer);
                  if \<not> Status_ok s then Some (s, None, world)
                  else
                    do {
                      let (cache_id, world) = (case cache of None \<Rightarrow> (0, world) | Some c \<Rightarrow> ca_NewId c world);
                      t \<leftarrow> ReadMeta le footer
                        \<lparr>t_options = options, t_file = file, t_cache_id = cache_id, t_filter = None,
                         t_metaindex_handle = metaindex_handle footer, t_index_block = Block_init le (bc_data contents)\<rparr>;
                      Some (s, Some t, world)
                    }
                }
            }
        })"

text \<open>The block that an index value stands for, from the cache or from the file; or the status of an error.\<close>

definition fetch_block ::
    "bool \<Rightarrow> 's BlockCache_vt option \<Rightarrow> Table \<Rightarrow> ReadOptions \<Rightarrow> BlockHandle \<Rightarrow> 's \<Rightarrow> ((Status + Block) \<times> 's) option" where
  "fetch_block le cache t options handle world =
     (let read_file = (do {
            (s, contents) \<leftarrow> ReadBlock le (t_file t) (ro_verify_checksums options) handle;
            Some (if Status_ok s then Inr (Block_init le (bc_data contents), bc_cachable contents) else Inl s) })
      in case cache of
           None \<Rightarrow> do { r \<leftarrow> read_file; Some (map_sum id fst r, world) }
         | Some c \<Rightarrow>
             let key = EncodeFixed64 le (t_cache_id t) @ EncodeFixed64 le (bh_offset handle);
                 (found, world) = ca_Lookup c key world
             in (case found of
                   Some block \<Rightarrow> Some (Inr block, world)
                 | None \<Rightarrow>
                     do {
                       r \<leftarrow> read_file;
                       Some (case r of
                               Inl s \<Rightarrow> (Inl s, world)
                             | Inr (block, cachable) \<Rightarrow>
                                 (Inr block, if cachable \<and> ro_fill_cache options then ca_Insert c key block (b_size block) world else world))
                     }))"

definition BlockReader ::
    "bool \<Rightarrow> 's BlockCache_vt option \<Rightarrow> Table \<Rightarrow> ReadOptions \<Rightarrow> (TableIterator, 's) block_fun" where
  "BlockReader le cache t options world index_value =
     do {
       (s, input, handle) \<leftarrow> BlockHandle_DecodeFrom index_value BlockHandle_init;
       (r, world) \<leftarrow> (if Status_ok s then fetch_block le cache t options handle world else Some (Inl s, world));
       (case r of Inl s \<Rightarrow> Some (EmptyIterator s, world)
        | Inr block \<Rightarrow> do { it \<leftarrow> Block_NewIterator le block; Some (it, world) })
     }"

abbreviation table_vt :: "bool \<Rightarrow> Table \<Rightarrow> TableIterator Iterator_vt" where
  "table_vt le t \<equiv> TableIterator_vt (cmp_Compare (opt_comparator (t_options t))) le"

definition Table_NewIterator ::
    "bool \<Rightarrow> Table \<Rightarrow> 's \<Rightarrow> (TableIterator, TableIterator, 's) TwoLevelIterator option" where
  "Table_NewIterator le t world =
     do { index_iter \<leftarrow> Block_NewIterator le (t_index_block t); TwoLevelIterator_init (table_vt le t) index_iter world }"

definition Table_iterator_vt ::
    "bool \<Rightarrow> 's BlockCache_vt option \<Rightarrow> Table \<Rightarrow> ReadOptions \<Rightarrow> (TableIterator, TableIterator, 's) TwoLevelIterator Iterator_vt" where
  "Table_iterator_vt le cache t options = TwoLevelIterator_vt (table_vt le t) (table_vt le t) (BlockReader le cache t options)"

text \<open>\<^verbatim>\<open>InternalGet\<close>; the entry that it gives to \<^verbatim>\<open>saver\<close>, if any, is part of the result.\<close>

definition InternalGet ::
    "bool \<Rightarrow> 's BlockCache_vt option \<Rightarrow> Table \<Rightarrow> ReadOptions \<Rightarrow> slice \<Rightarrow> 's \<Rightarrow> (Status \<times> (slice \<times> slice) option \<times> 's) option" where
  "InternalGet le cache t options k world =
     do {
       let vt = table_vt le t;
       iiter \<leftarrow> Block_NewIterator le (t_index_block t);
       iiter \<leftarrow> vt_Seek vt k iiter;
       (s, saved, world) \<leftarrow>
         (if vt_Valid vt iiter then
            do {
              handle_value \<leftarrow> vt_value vt iiter;
              excluded \<leftarrow>
                (case t_filter t of None \<Rightarrow> Some False
                 | Some reader \<Rightarrow>
                     do {
                       (s, rest, handle) \<leftarrow> BlockHandle_DecodeFrom handle_value BlockHandle_init;
                       if Status_ok s then
                         do { p \<leftarrow> opt_filter_policy (t_options t);
                              m \<leftarrow> FilterBlock_KeyMayMatch (fp_KeyMayMatch p) le reader (bh_offset handle) k; Some (\<not> m) }
                       else Some False
                     });
              if excluded then Some (Status_OK, None, world)
              else
                do {
                  (block_iter, world) \<leftarrow> BlockReader le cache t options world handle_value;
                  block_iter \<leftarrow> vt_Seek vt k block_iter;
                  saved \<leftarrow> entry_iter vt block_iter;
                  s \<leftarrow> vt_status vt block_iter;
                  Some (s, saved, world)
                }
            }
          else Some (Status_OK, None, world));
       s \<leftarrow> (if Status_ok s then vt_status vt iiter else Some s);
       Some (s, saved, world)
     }"

definition ApproximateOffsetOf :: "bool \<Rightarrow> Table \<Rightarrow> slice \<Rightarrow> 64 word option" where
  "ApproximateOffsetOf le t k =
     do {
       let vt = table_vt le t;
       index_iter \<leftarrow> Block_NewIterator le (t_index_block t);
       index_iter \<leftarrow> vt_Seek vt k index_iter;
       if vt_Valid vt index_iter then
         do {
           input \<leftarrow> vt_value vt index_iter;
           (s, rest, handle) \<leftarrow> BlockHandle_DecodeFrom input BlockHandle_init;
           Some (if Status_ok s then bh_offset handle else bh_offset (t_metaindex_handle t))
         }
       else Some (bh_offset (t_metaindex_handle t))
     }"

end
