(* ===== verification/LDB_Table_Writer.thy ===== *)
theory LDB_Table_Writer
  imports LDB_Table LDB_Block_Correct
begin

text \<open>
  The bytes that the table builder writes. The reference is the layout of a table with given entries:
  \<open>table_blocks\<close>, how they are split into blocks, \<open>index_entries\<close>, the entries of the index, and \<open>table_bytes\<close>, the
  whole file. The builder is shown to write it whenever it reports success.
\<close>

subsection \<open>The layout of a table\<close>

type_synonym entries = "(slice \<times> slice) list"

definition split_step :: "Options \<Rightarrow> entries list \<times> entries \<Rightarrow> slice \<times> slice \<Rightarrow> entries list \<times> entries" where
  "split_step options = (\<lambda>(bs, cur) e.
     let cur = cur @ [e] in
     if CurrentSizeEstimate (building (opt_block_restart_interval options) cur) \<ge> opt_block_size options then (bs @ [cur], []) else (bs, cur))"

definition split_entries :: "Options \<Rightarrow> entries \<Rightarrow> entries list \<times> entries" where
  "split_entries options es = foldl (split_step options) ([], []) es"

definition table_blocks :: "Options \<Rightarrow> entries \<Rightarrow> entries list" where
  "table_blocks options es = (case split_entries options es of (bs, cur) \<Rightarrow> if cur = [] then bs else bs @ [cur])"

definition blocks_bytes :: "nat \<Rightarrow> entries list \<Rightarrow> byte list" where
  "blocks_bytes interval bs = concat (map (\<lambda>b. stored_block (blk_bytes interval b)) bs)"

definition block_offset :: "nat \<Rightarrow> entries list \<Rightarrow> nat \<Rightarrow> nat" where
  "block_offset interval bs k = length (blocks_bytes interval (take k bs))"

definition handle_at :: "nat \<Rightarrow> nat \<Rightarrow> BlockHandle" where
  "handle_at off n = \<lparr>bh_offset = word_of_nat off, bh_size = word_of_nat n\<rparr>"

definition handle_bytes :: "BlockHandle \<Rightarrow> byte list" where
  "handle_bytes h = EncodeVarint64 (bh_offset h) @ EncodeVarint64 (bh_size h)"

definition block_handle :: "nat \<Rightarrow> entries list \<Rightarrow> nat \<Rightarrow> BlockHandle" where
  "block_handle interval bs k = handle_at (block_offset interval bs k) (length (blk_bytes interval (bs ! k)))"

text \<open>The key of a block in the index separates it from the next block; the last block has none behind it.\<close>

definition index_key :: "Comparator \<Rightarrow> entries list \<Rightarrow> nat \<Rightarrow> slice" where
  "index_key c bs k =
     (if Suc k < length bs then cmp_FindShortestSeparator c (fst (last (bs ! k))) (fst (hd (bs ! Suc k)))
      else cmp_FindShortSuccessor c (fst (last (bs ! k))))"

definition index_entries :: "Comparator \<Rightarrow> nat \<Rightarrow> entries list \<Rightarrow> entries" where
  "index_entries c interval bs = map (\<lambda>k. (index_key c bs k, handle_bytes (block_handle interval bs k))) [0..<length bs]"

text \<open>The file, with the contents of the filter block if there is one.\<close>

definition meta_entries :: "Options \<Rightarrow> entries list \<Rightarrow> byte list option \<Rightarrow> entries" where
  "meta_entries options bs fc =
     (case fc of None \<Rightarrow> []
      | Some c \<Rightarrow> [(str ''filter.'' @ (case opt_filter_policy options of None \<Rightarrow> [] | Some p \<Rightarrow> fp_Name p),
          handle_bytes (handle_at (length (blocks_bytes (opt_block_restart_interval options) bs)) (length c)))])"

definition table_body :: "Options \<Rightarrow> entries list \<Rightarrow> byte list option \<Rightarrow> byte list" where
  "table_body options bs fc =
     blocks_bytes (opt_block_restart_interval options) bs @ (case fc of None \<Rightarrow> [] | Some c \<Rightarrow> stored_block c)"

definition meta_bytes :: "Options \<Rightarrow> entries list \<Rightarrow> byte list option \<Rightarrow> byte list" where
  "meta_bytes options bs fc = blk_bytes (opt_block_restart_interval options) (meta_entries options bs fc)"

definition index_bytes :: "Options \<Rightarrow> entries list \<Rightarrow> byte list" where
  "index_bytes options bs = blk_bytes 1 (index_entries (opt_comparator options) (opt_block_restart_interval options) bs)"

definition table_footer :: "Options \<Rightarrow> entries list \<Rightarrow> byte list option \<Rightarrow> Footer" where
  "table_footer options bs fc =
     \<lparr>metaindex_handle = handle_at (length (table_body options bs fc)) (length (meta_bytes options bs fc)),
      index_handle = handle_at (length (table_body options bs fc @ stored_block (meta_bytes options bs fc))) (length (index_bytes options bs))\<rparr>"

definition table_bytes :: "bool \<Rightarrow> Options \<Rightarrow> entries list \<Rightarrow> byte list option \<Rightarrow> byte list option" where
  "table_bytes le options bs fc =
     map_option (\<lambda>footer. table_body options bs fc @ stored_block (meta_bytes options bs fc) @ stored_block (index_bytes options bs) @ footer)
       (Footer_EncodeTo le (table_footer options bs fc) [])"

text \<open>What the filter block covers: the keys of each block under its offset, and those of the block in the making.\<close>

definition filter_blocks :: "nat \<Rightarrow> entries list \<Rightarrow> entries \<Rightarrow> (64 word \<times> slice list) list" where
  "filter_blocks interval bs cur =
     map (\<lambda>k. (word_of_nat (block_offset interval bs k), map fst ((bs @ [cur]) ! k))) [0..<Suc (length bs)]"

definition filter_contents :: "bool \<Rightarrow> Options \<Rightarrow> entries list \<Rightarrow> byte list option \<Rightarrow> bool" where
  "filter_contents le options bs fc =
     (case opt_filter_policy options of None \<Rightarrow> fc = None
      | Some p \<Rightarrow> \<exists>b c. build_filters (fp_CreateFilter p) (filter_blocks (opt_block_restart_interval options) bs []) FilterBlockBuilder_init = Some b \<and>
          FilterBlock_Finish (fp_CreateFilter p) le b = Some c \<and> fc = Some c)"

subsection \<open>The client and the state of the builder\<close>

primrec TableBuilder_AddAll :: "'f WritableFile_vt \<Rightarrow> bool \<Rightarrow> entries \<Rightarrow> 'f TableBuilder \<Rightarrow> 'f TableBuilder option" where
  "TableBuilder_AddAll fv le [] r = Some r"
| "TableBuilder_AddAll fv le (e # es) r = do { r \<leftarrow> TableBuilder_Add fv le (fst e) (snd e) r; TableBuilder_AddAll fv le es r }"

text \<open>The index entries that exist while the block \<open>cur\<close> is in the making: the last block waits for its first key.\<close>

definition index_so_far :: "Comparator \<Rightarrow> nat \<Rightarrow> entries list \<Rightarrow> entries \<Rightarrow> entries" where
  "index_so_far c interval bs cur =
     map (\<lambda>k. (cmp_FindShortestSeparator c (fst (last (bs ! k))) (fst (hd ((bs @ [cur]) ! Suc k))), handle_bytes (block_handle interval bs k)))
       [0..<(if cur = [] then length bs - 1 else length bs)]"

definition filter_state ::
    "Options \<Rightarrow> nat \<Rightarrow> entries list \<Rightarrow> entries \<Rightarrow> (FilterPolicy \<times> FilterBlockBuilder) option \<Rightarrow> bool" where
  "filter_state options interval bs cur f =
     (case opt_filter_policy options of None \<Rightarrow> f = None
      | Some p \<Rightarrow> \<exists>b. f = Some (p, b) \<and> build_filters (fp_CreateFilter p) (filter_blocks interval bs cur) FilterBlockBuilder_init = Some b)"

definition table_state ::
    "('f \<Rightarrow> byte list) \<Rightarrow> Options \<Rightarrow> entries list \<Rightarrow> entries \<Rightarrow> 'f TableBuilder \<Rightarrow> bool" where
  "table_state contents options bs cur r \<longleftrightarrow>
     (let interval = opt_block_restart_interval options in
      tb_options r = options \<and> tb_index_block_options r = options\<lparr>opt_block_restart_interval := 1\<rparr> \<and>
      contents (tb_file r) = blocks_bytes interval bs \<and> tb_offset r = word_of_nat (length (blocks_bytes interval bs)) \<and>
      \<not> tb_closed r \<and> tb_ok r \<and> tb_data_block r = building interval cur \<and>
      tb_index_block r = building 1 (index_so_far (opt_comparator options) interval bs cur) \<and>
      (concat bs @ cur \<noteq> [] \<longrightarrow> tb_last_key r = fst (last (concat bs @ cur))) \<and> (\<forall>b \<in> set bs. b \<noteq> []) \<and>
      (concat bs @ cur = [] \<longrightarrow> tb_num_entries r = 0) \<and>
      (tb_pending_index_entry r \<longleftrightarrow> cur = [] \<and> bs \<noteq> []) \<and>
      (cur = [] \<and> bs \<noteq> [] \<longrightarrow> tb_pending_handle r = block_handle interval bs (length bs - 1)) \<and>
      filter_state options interval bs cur (tb_filter_block r))"

text \<open>What the rest of \<^verbatim>\<open>Finish\<close> relies on once the last block is written.\<close>

definition index_ready :: "Options \<Rightarrow> entries list \<Rightarrow> 'f TableBuilder \<Rightarrow> bool" where
  "index_ready options bs r \<longleftrightarrow>
     (let interval = opt_block_restart_interval options in
      tb_options r = options \<and> tb_index_block_options r = options\<lparr>opt_block_restart_interval := 1\<rparr> \<and>
      tb_index_block r = building 1 (index_so_far (opt_comparator options) interval bs []) \<and> (tb_pending_index_entry r \<longleftrightarrow> bs \<noteq> []) \<and>
      (bs \<noteq> [] \<longrightarrow> tb_pending_handle r = block_handle interval bs (length bs - 1) \<and> tb_last_key r = fst (last (last bs))))"

text \<open>After the filter block, and after the metaindex block.\<close>

definition body_written :: "('f \<Rightarrow> byte list) \<Rightarrow> bool \<Rightarrow> Options \<Rightarrow> entries list \<Rightarrow> byte list option \<Rightarrow> BlockHandle \<Rightarrow> 'f TableBuilder \<Rightarrow> bool" where
  "body_written contents le options bs fc fh r \<longleftrightarrow>
     filter_contents le options bs fc \<and> index_ready options bs r \<and> (tb_filter_block r = None \<longleftrightarrow> fc = None) \<and> tb_options r = options \<and>
     contents (tb_file r) = table_body options bs fc \<and> tb_offset r = word_of_nat (length (table_body options bs fc)) \<and>
     (fc \<noteq> None \<longrightarrow> fh = handle_at (length (blocks_bytes (opt_block_restart_interval options) bs)) (length (the fc)))"

lemma last_concat_blocks: "\<forall>b \<in> set bs. b \<noteq> [] \<Longrightarrow> bs \<noteq> [] \<Longrightarrow> concat bs \<noteq> [] \<and> last (concat bs) = last (last bs)"
  by (cases bs rule: rev_cases) simp_all

subsection \<open>Writing blocks\<close>

locale table_file = writable_file "wf_Append fv" "wf_Flush fv" contents
  for fv :: "'f WritableFile_vt" and contents :: "'f \<Rightarrow> byte list"

interpretation posix_table: table_file "\<lparr>wf_Append = PosixWritableFile_Append, wf_Flush = PosixWritableFile_Flush\<rparr>" posix_contents
  by (simp add: table_file_def posix_wr.writable_file_axioms)

definition written_block :: "('f \<Rightarrow> byte list) \<Rightarrow> byte list \<Rightarrow> 'f TableBuilder \<Rightarrow> BlockHandle \<Rightarrow> 'f TableBuilder \<Rightarrow> bool" where
  "written_block contents c r h r' \<longleftrightarrow>
     h = \<lparr>bh_offset = tb_offset r, bh_size = word_of_nat (length c)\<rparr> \<and> contents (tb_file r') = contents (tb_file r) @ stored_block c \<and>
     r' = r\<lparr>tb_status := Status_OK, tb_file := tb_file r', tb_offset := tb_offset r + word_of_nat (length (stored_block c))\<rparr>"

context table_file
begin

lemma write_raw_block:
  assumes "WriteRawBlock fv le c kNoCompression r = Some (h, r')" "tb_ok r'"
  shows "written_block contents c r h r'"
proof -
  obtain s f where a: "wf_Append fv c (tb_file r) = Some (s, f)"
    using assms(1) by (auto simp: WriteRawBlock_def Let_def split: bind_splits)
  have ok: "Status_ok s" using assms a by (auto simp: WriteRawBlock_def tb_ok_def Let_def split: bind_splits if_splits)
  define trailer where "trailer = (0 :: byte) # EncodeFixed32 le (Mask (Extend le 0 (Value le 0 c) [0]))"
  obtain s' f' where b: "wf_Append fv trailer f = Some (s', f')"
      "(h, r') = (\<lparr>bh_offset = tb_offset r, bh_size = word_of_nat (length c)\<rparr>,
         if Status_ok s' then r\<lparr>tb_status := s', tb_file := f', tb_offset := tb_offset r + word_of_nat (length c + kBlockTrailerSize)\<rparr>
         else r\<lparr>tb_status := s', tb_file := f'\<rparr>)"
    using assms(1) a ok by (auto simp: WriteRawBlock_def trailer_def Let_def split: bind_splits)
  have ok': "Status_ok s'" using b(2) assms(2) by (auto simp: tb_ok_def split: if_splits)
  have "c @ trailer = stored_block c"
    by (simp add: trailer_def stored_block_def Value_def Extend_append EncodeFixed_le)
  then have "contents f' = contents (tb_file r) @ stored_block c" using append_ok [OF a ok] append_ok [OF b(1) ok'] by (metis append.assoc)
  then show ?thesis using b(2) ok' by (simp add: written_block_def Status_ok_def Status_OK_def)
qed

lemma write_block:
  assumes "WriteBlock fv le block r = Some (block', h, r')" "tb_ok r'"
  shows "written_block contents (fst (BlockBuilder_Finish le block)) r h r' \<and> block' = BlockBuilder_Reset (snd (BlockBuilder_Finish le block)) \<and> tb_ok r"
proof -
  obtain raw b1 where f: "BlockBuilder_Finish le block = (raw, b1)" by fastforce
  have "WriteRawBlock fv le raw kNoCompression r = Some (h, r') \<and> block' = BlockBuilder_Reset b1 \<and> tb_ok r"
    using assms(1) by (cases "opt_compression (tb_options r)")
      (auto simp: WriteBlock_def f Snappy_Compress_def Let_def split: if_splits bind_splits)
  then show ?thesis using write_raw_block assms(2) f by auto
qed

end

lemma reset_building: "BlockBuilder_Reset (snd (BlockBuilder_Finish le b)) = building interval []"
  by (cases b) (simp add: BlockBuilder_Reset_def BlockBuilder_Finish_def Let_def building_def blk_data_def blk_restarts_def blk_num_def)

lemma building_empty: "BlockBuilder_empty (building interval es) \<longleftrightarrow> es = []"
proof (cases "es = []")
  case False
  then have "blk_data interval es (length es) \<noteq> []" using blk_off_mono [of 0 "length es" interval es] by (auto simp: blk_off_def)
  with False show ?thesis by (simp add: BlockBuilder_empty_def building_def)
qed (simp add: BlockBuilder_empty_def building_def blk_data_def)

lemma building_add_some:
  assumes "1 \<le> interval" "BlockBuilder_Add compare interval k v (building interval es) = Some b"
  shows "b = building interval (es @ [(k, v)])"
proof -
  have "bb_buffer (building interval es) = [] \<or> compare k (bb_last_key (building interval es)) > 0"
    using assms(2) by (auto simp: BlockBuilder_Add_def split: if_splits)
  then have "es = [] \<or> compare k (fst (last es)) > 0"
    using building_empty [of interval es] by (auto simp: BlockBuilder_empty_def building_def split: if_splits)
  then show ?thesis using building_add [OF assms(1)] assms(2) by simp
qed

subsection \<open>Lemmas on the layout\<close>

lemma blocks_bytes_snoc: "blocks_bytes interval (bs @ [b]) = blocks_bytes interval bs @ stored_block (blk_bytes interval b)"
  by (simp add: blocks_bytes_def)

lemma block_offset_snoc: "k \<le> length bs \<Longrightarrow> block_offset interval (bs @ bs') k = block_offset interval bs k"
  by (simp add: block_offset_def)

lemma block_handle_snoc: "k < length bs \<Longrightarrow> block_handle interval (bs @ bs') k = block_handle interval bs k"
  by (simp add: block_handle_def block_offset_snoc nth_append)

lemma block_offset_last: "block_offset interval bs (length bs) = length (blocks_bytes interval bs)"
  by (simp add: block_offset_def)

lemma filter_blocks_flush:
  "filter_blocks interval (bs @ [cur]) [] = filter_blocks interval bs cur @ [(word_of_nat (length (blocks_bytes interval (bs @ [cur]))), [])]"
proof -
  have "map (\<lambda>k. (word_of_nat (block_offset interval (bs @ [cur]) k), map fst (((bs @ [cur]) @ [[]]) ! k))) [0..<Suc (length bs)] =
      filter_blocks interval bs cur"
    unfolding filter_blocks_def by (rule map_cong) (auto simp: block_offset_snoc nth_append)
  then show ?thesis using block_offset_last [of interval "bs @ [cur]"] by (simp add: filter_blocks_def nth_append)
qed

lemma filter_blocks_last:
  "filter_blocks interval bs cur =
     map (\<lambda>k. (word_of_nat (block_offset interval bs k), map fst (bs ! k))) [0..<length bs] @ [(word_of_nat (block_offset interval bs (length bs)), map fst cur)]"
  by (auto simp: filter_blocks_def nth_append)

lemma build_filters_append:
  "build_filters create (xs @ ys) b = build_filters create xs b \<bind> build_filters create ys"
  by (induction xs arbitrary: b) (auto split: bind_splits)

lemma build_filters_key:
  "build_filters create (xs @ [(off, ks @ [k])]) b = map_option (AddKey k) (build_filters create (xs @ [(off, ks)]) b)"
  by (auto simp: build_filters_append split: bind_splits)

lemma index_so_far_add:
  "bs \<noteq> [] \<Longrightarrow> index_so_far c interval bs [e] =
     index_so_far c interval bs [] @ [(cmp_FindShortestSeparator c (fst (last (last bs))) (fst e), handle_bytes (block_handle interval bs (length bs - 1)))]"
proof -
  assume "bs \<noteq> []"
  then obtain n where n: "length bs = Suc n" by (cases bs) auto
  then have "bs ! n = last bs" by (metis \<open>bs \<noteq> []\<close> diff_Suc_1 last_conv_nth)
  then show ?thesis using n by (auto simp: index_so_far_def nth_append)
qed

lemma index_so_far_more: "cur \<noteq> [] \<Longrightarrow> index_so_far c interval bs (cur @ [e]) = index_so_far c interval bs cur"
  by (auto simp: index_so_far_def nth_append)

lemma index_so_far_flush: "cur \<noteq> [] \<Longrightarrow> index_so_far c interval (bs @ [cur]) [] = index_so_far c interval bs cur"
  by (auto simp: index_so_far_def nth_append block_handle_snoc)

lemma index_so_far_finish:
  assumes "bs \<noteq> []"
  shows "index_so_far c interval bs [] @ [(cmp_FindShortSuccessor c (fst (last (last bs))), handle_bytes (block_handle interval bs (length bs - 1)))] =
    index_entries c interval bs"
proof -
  obtain n where n: "length bs = Suc n" using assms by (cases bs) auto
  then have "bs ! n = last bs" by (metis assms diff_Suc_1 last_conv_nth)
  then show ?thesis using n by (auto simp: index_so_far_def index_entries_def index_key_def nth_append)
qed

subsection \<open>One call of the builder\<close>

lemma filter_blocks_add:
  "build_filters create (filter_blocks interval bs (cur @ [e])) b = map_option (AddKey (fst e)) (build_filters create (filter_blocks interval bs cur) b)"
  by (simp add: filter_blocks_last build_filters_key)

lemma filter_state_add:
  assumes "on_filter (\<lambda>r p b. Some (AddKey (fst e) b)) r = Some r'" "filter_state options interval bs cur (tb_filter_block r)"
  shows "\<exists>f. r' = r\<lparr>tb_filter_block := f\<rparr> \<and> filter_state options interval bs (cur @ [e]) f"
  using assms by (cases "opt_filter_policy options") (auto simp: filter_state_def on_filter_def filter_blocks_add split: option.splits)

lemma filter_state_flush:
  assumes "on_filter (\<lambda>r p b. StartBlock (fp_CreateFilter p) (tb_offset r) b) r = Some r'" "filter_state options interval bs cur (tb_filter_block r)"
    and "tb_offset r = word_of_nat (length (blocks_bytes interval (bs @ [cur])))"
  shows "\<exists>f. r' = r\<lparr>tb_filter_block := f\<rparr> \<and> filter_state options interval (bs @ [cur]) [] f"
  using assms by (cases "opt_filter_policy options")
    (auto simp: filter_state_def on_filter_def filter_blocks_flush build_filters_append split: option.splits bind_splits)

lemma add_index_entry_some:
  assumes "add_index_entry key r = Some r'" "tb_index_block_options r = options\<lparr>opt_block_restart_interval := 1\<rparr>" "tb_index_block r = building 1 es"
  shows "r' = r\<lparr>tb_last_key := key, tb_index_block := building 1 (es @ [(key, handle_bytes (tb_pending_handle r))]), tb_pending_index_entry := False\<rparr>"
  using assms building_add_some [of 1]
  by (auto simp: add_index_entry_def BlockHandle_EncodeTo_def PutVarint64_def handle_bytes_def split: bind_splits if_splits)

context table_file
begin

lemma flush_block:
  assumes "TableBuilder_Flush fv le r = Some r'" "tb_ok r'" "table_state contents options bs cur r" "cur \<noteq> []"
  shows "table_state contents options (bs @ [cur]) [] r'"
proof -
  define interval where "interval = opt_block_restart_interval options"
  note st = assms(3) [unfolded table_state_def Let_def, folded interval_def]
  have "\<not> BlockBuilder_empty (tb_data_block r)" using st assms(4) building_empty by simp
  then obtain block handle r1 where w: "WriteBlock fv le (tb_data_block r) r = Some (block, handle, r1)"
    and rest: "(do { r \<leftarrow> (if tb_ok r1 then
                  do { (s, file) \<leftarrow> wf_Flush fv (tb_file r1);
                       Some (r1\<lparr>tb_data_block := block, tb_pending_handle := handle, tb_pending_index_entry := True, tb_status := s, tb_file := file\<rparr>) }
                else Some (r1\<lparr>tb_data_block := block, tb_pending_handle := handle\<rparr>));
          on_filter (\<lambda>r p b. StartBlock (fp_CreateFilter p) (tb_offset r) b) r }) = Some r'"
    using assms(1) st by (auto simp: TableBuilder_Flush_def tb_ok_def Let_def split: bind_splits if_splits)
  have ok1: "tb_ok r1" using rest assms(2) by (auto simp: on_filter_def tb_ok_def split: if_splits option.splits bind_splits)
  obtain s f1 where f: "wf_Flush fv (tb_file r1) = Some (s, f1)"
    and rest: "on_filter (\<lambda>r p b. StartBlock (fp_CreateFilter p) (tb_offset r) b)
      (r1\<lparr>tb_data_block := block, tb_pending_handle := handle, tb_pending_index_entry := True, tb_status := s, tb_file := f1\<rparr>) = Some r'"
    using rest ok1 by (auto split: bind_splits)
  have wb: "written_block contents (blk_bytes interval cur) r handle r1" "block = building interval []"
    using write_block [OF w ok1] building_finish [of le interval cur] reset_building st by auto
  have bb: "blocks_bytes interval (bs @ [cur]) = contents (tb_file r1)" using wb st by (simp add: written_block_def blocks_bytes_snoc)
  have off: "tb_offset r1 = word_of_nat (length (blocks_bytes interval (bs @ [cur])))"
    using wb st by (cases r1) (simp add: written_block_def blocks_bytes_snoc)
  have "filter_state options interval bs cur (tb_filter_block r1)" using wb st by (cases r1) (simp add: written_block_def)
  then obtain fl where fl: "filter_state options interval (bs @ [cur]) [] fl"
      "r' = r1\<lparr>tb_data_block := block, tb_pending_handle := handle, tb_pending_index_entry := True, tb_status := s, tb_file := f1, tb_filter_block := fl\<rparr>"
    using filter_state_flush [OF rest, of options interval bs cur] off by auto
  have "handle = block_handle interval (bs @ [cur]) (length bs)"
    using wb st by (simp add: written_block_def block_handle_def handle_at_def block_offset_snoc block_offset_last)
  then show ?thesis
    using st wb bb off fl assms(2,4) flush_keeps [OF f] index_so_far_flush [OF assms(4)]
    unfolding table_state_def Let_def interval_def [symmetric] by (cases r1) (simp add: written_block_def)
qed

text \<open>The entry for the last block and the key in the filter, which come before the new entry.\<close>

lemma add_prepare:
  fixes options :: Options and interval :: nat and c :: Comparator
  assumes "table_state contents options bs cur r"
    and a: "(if tb_pending_index_entry r then add_index_entry (cmp_FindShortestSeparator (opt_comparator options) (tb_last_key r) (fst e)) r else Some r) = Some r1"
    and b: "on_filter (\<lambda>r p b. Some (AddKey (fst e) b)) r1 = Some r2"
  defines "interval \<equiv> opt_block_restart_interval options" and "c \<equiv> opt_comparator options"
  shows "\<exists>lk f. r2 = r\<lparr>tb_last_key := lk, tb_index_block := building 1 (index_so_far c interval bs (cur @ [e])), tb_pending_index_entry := False, tb_filter_block := f\<rparr> \<and>
    filter_state options interval bs (cur @ [e]) f"
proof -
  note st = assms(1) [unfolded table_state_def Let_def, folded interval_def c_def]
  note a = a [folded c_def]
  obtain lk where r1: "r1 = r\<lparr>tb_last_key := lk, tb_index_block := building 1 (index_so_far c interval bs (cur @ [e])), tb_pending_index_entry := False\<rparr>"
  proof (cases "tb_pending_index_entry r")
    case True
    then have "cur = []" "bs \<noteq> []" "tb_pending_handle r = block_handle interval bs (length bs - 1)" using st by auto
    moreover have "concat bs \<noteq> [] \<and> last (concat bs) = last (last bs)" using st \<open>bs \<noteq> []\<close> by (intro last_concat_blocks) simp_all
    ultimately have "index_so_far c interval bs cur @ [(cmp_FindShortestSeparator c (tb_last_key r) (fst e), handle_bytes (tb_pending_handle r))] =
        index_so_far c interval bs (cur @ [e])"
      using st index_so_far_add [OF \<open>bs \<noteq> []\<close>, of c interval e] by auto
    with add_index_entry_some [of "cmp_FindShortestSeparator c (tb_last_key r) (fst e)" r r1 options "index_so_far c interval bs cur"]
    have "r1 = r\<lparr>tb_last_key := cmp_FindShortestSeparator c (tb_last_key r) (fst e), tb_index_block := building 1 (index_so_far c interval bs (cur @ [e])),
        tb_pending_index_entry := False\<rparr>"
      using a True st by simp
    then show ?thesis by (rule that)
  next
    case False
    then have r: "r1 = r" using a by simp
    have "cur \<noteq> [] \<or> bs = []" using st False by blast
    then have "index_so_far c interval bs (cur @ [e]) = index_so_far c interval bs cur"
      by (cases "cur = []") (auto simp: index_so_far_more, simp add: index_so_far_def)
    then have "r1 = r\<lparr>tb_last_key := tb_last_key r, tb_index_block := building 1 (index_so_far c interval bs (cur @ [e])), tb_pending_index_entry := False\<rparr>"
      using st False unfolding r by (cases r) simp
    then show ?thesis by (rule that)
  qed
  then show ?thesis using filter_state_add [OF b, of options interval bs cur] st by auto
qed

lemma add_state:
  assumes "table_state contents options bs cur r" "filter_state options (opt_block_restart_interval options) bs (cur @ [e]) f"
  shows "table_state contents options bs (cur @ [e])
    (r\<lparr>tb_last_key := fst e, tb_index_block := building 1 (index_so_far (opt_comparator options) (opt_block_restart_interval options) bs (cur @ [e])),
       tb_pending_index_entry := False, tb_filter_block := f,
       tb_num_entries := num, tb_data_block := building (opt_block_restart_interval options) (cur @ [e])\<rparr>)"
  using assms by (simp add: table_state_def Let_def tb_ok_def)

lemma add_entry:
  assumes "TableBuilder_Add fv le (fst e) (snd e) r = Some r'" "tb_ok r'" "table_state contents options bs cur r" "1 \<le> opt_block_restart_interval options"
  shows "case split_step options (bs, cur) e of (bs', cur') \<Rightarrow> table_state contents options bs' cur' r'"
proof -
  define interval where "interval = opt_block_restart_interval options"
  note st = assms(3) [unfolded table_state_def Let_def, folded interval_def]
  obtain r1 r2 data where a: "(if tb_pending_index_entry r then add_index_entry (cmp_FindShortestSeparator (opt_comparator options) (tb_last_key r) (fst e)) r else Some r) = Some r1"
    and b: "on_filter (\<lambda>r p b. Some (AddKey (fst e) b)) r1 = Some r2"
    and d: "BlockBuilder_Add (cmp_Compare (opt_comparator (tb_options r2))) (opt_block_restart_interval (tb_options r2)) (fst e) (snd e) (tb_data_block r2) = Some data"
    and rest: "(let r3 = r2\<lparr>tb_last_key := fst e, tb_num_entries := tb_num_entries r2 + 1, tb_data_block := data\<rparr>
      in if CurrentSizeEstimate data \<ge> opt_block_size (tb_options r2) then TableBuilder_Flush fv le r3 else Some r3) = Some r'"
    using assms(1) st by (auto simp: TableBuilder_Add_def Let_def tb_ok_def split: bind_splits if_splits)
  obtain lk f where r2: "r2 = r\<lparr>tb_last_key := lk, tb_index_block := building 1 (index_so_far (opt_comparator options) interval bs (cur @ [e])),
      tb_pending_index_entry := False, tb_filter_block := f\<rparr>" and f: "filter_state options interval bs (cur @ [e]) f"
    using add_prepare [OF assms(3) a b] unfolding interval_def by blast
  have data: "data = building interval (cur @ [e])"
    using building_add_some [of interval _ "fst e" "snd e" cur data] d st assms(4) unfolding r2 by (simp add: interval_def)
  have "table_state contents options bs (cur @ [e]) (r2\<lparr>tb_last_key := fst e, tb_num_entries := tb_num_entries r2 + 1, tb_data_block := data\<rparr>)"
    using add_state [OF assms(3) f [unfolded interval_def], of "tb_num_entries r2 + 1"] unfolding r2 data interval_def by (cases r) simp
  moreover have "opt_block_size (tb_options r2) = opt_block_size options" using st unfolding r2 by simp
  ultimately show ?thesis using rest flush_block [of le _ r' options bs "cur @ [e]"] assms(2) data
    by (auto simp: split_step_def Let_def interval_def split: if_splits)
qed

lemma add_not_ok: "TableBuilder_Add fv le k v r = Some r' \<Longrightarrow> tb_ok r' \<Longrightarrow> tb_ok r"
  by (auto simp: TableBuilder_Add_def split: if_splits)

lemma add_all_not_ok: "TableBuilder_AddAll fv le es r = Some r' \<Longrightarrow> tb_ok r' \<Longrightarrow> tb_ok r"
  by (induction es arbitrary: r) (auto split: bind_splits dest: add_not_ok)

lemma add_all:
  assumes "TableBuilder_AddAll fv le es r = Some r'" "tb_ok r'" "table_state contents options bs cur r" "1 \<le> opt_block_restart_interval options"
  shows "case foldl (split_step options) (bs, cur) es of (bs', cur') \<Rightarrow> table_state contents options bs' cur' r'"
  using assms(1,3)
proof (induction es arbitrary: r bs cur)
  case (Cons e es)
  then obtain r1 where r1: "TableBuilder_Add fv le (fst e) (snd e) r = Some r1" "TableBuilder_AddAll fv le es r1 = Some r'" by (auto split: bind_splits)
  obtain bs1 cur1 where step: "split_step options (bs, cur) e = (bs1, cur1)" by fastforce
  have "table_state contents options bs1 cur1 r1"
    using add_entry [OF r1(1) add_all_not_ok [OF r1(2) assms(2)] Cons.prems(2) assms(4)] step by simp
  then show ?case using Cons.IH [OF r1(2)] step by simp
qed simp

lemma init_state:
  assumes "TableBuilder_init options f = Some r" "contents f = []"
  shows "table_state contents options [] [] r" "1 \<le> opt_block_restart_interval options"
proof -
  let ?interval = "opt_block_restart_interval options"
  have i: "1 \<le> ?interval" "BlockBuilder_init ?interval = Some (building ?interval [])"
    using assms(1) by (auto simp: TableBuilder_init_def BlockBuilder_init_def building_def blk_data_def blk_restarts_def blk_num_def split: bind_splits if_splits)
  have b: "building ?interval [] = building 1 []" by (simp add: building_def blk_data_def blk_restarts_def blk_num_def)
  show "1 \<le> ?interval" by (rule i)
  show "table_state contents options [] [] r"
    using assms i b by (cases "opt_filter_policy options")
      (auto simp: TableBuilder_init_def table_state_def filter_state_def on_filter_def filter_blocks_def block_offset_def blocks_bytes_def
        index_so_far_def Let_def tb_ok_def Status_ok_def Status_OK_def split: bind_splits)
qed

subsection \<open>Finishing a table\<close>

lemma finish_not_ok: "TableBuilder_Finish fv le r = Some (s, r') \<Longrightarrow> Status_ok s \<Longrightarrow> tb_ok r"
  by (rule ccontr) (auto simp: TableBuilder_Finish_def TableBuilder_Flush_def write_filter_def write_metaindex_def write_index_def write_footer_def
      tb_ok_def split: if_splits option.splits)

lemma flush_last:
  assumes "TableBuilder_Flush fv le r = Some r'" "tb_ok r'" "table_state contents options bs cur r"
  shows "table_state contents options (if cur = [] then bs else bs @ [cur]) [] r'"
proof (cases "cur = []")
  case True
  then have "BlockBuilder_empty (tb_data_block r)" using assms(3) building_empty by (simp add: table_state_def Let_def)
  then have "r' = r" using assms(1) by (auto simp: TableBuilder_Flush_def split: if_splits)
  then show ?thesis using assms(3) True by simp
qed (use flush_block [OF assms] in simp)

lemma write_filter_ok:
  assumes "write_filter fv le r = Some (h, r')" "tb_ok r'" "filter_state options interval bs [] (tb_filter_block r)" "interval = opt_block_restart_interval options"
  shows "\<exists>fc. filter_contents le options bs fc \<and> (case fc of None \<Rightarrow> r' = r | Some c \<Rightarrow> written_block contents c r h r')"
proof (cases "opt_filter_policy options")
  case None
  then show ?thesis using assms by (auto simp: filter_state_def filter_contents_def write_filter_def)
next
  case (Some p)
  then obtain b where b: "tb_filter_block r = Some (p, b)" "build_filters (fp_CreateFilter p) (filter_blocks interval bs []) FilterBlockBuilder_init = Some b"
    using assms(3) by (auto simp: filter_state_def)
  then obtain c where c: "FilterBlock_Finish (fp_CreateFilter p) le b = Some c" "WriteRawBlock fv le c kNoCompression r = Some (h, r')"
    using assms(1,2) by (auto simp: write_filter_def split: if_splits bind_splits)
  have "filter_contents le options bs (Some c)" using Some b c assms(4) by (auto simp: filter_contents_def)
  then show ?thesis using write_raw_block [OF c(2) assms(2)] by (intro exI [of _ "Some c"]) simp
qed

lemma write_metaindex_ok:
  assumes "write_metaindex fv le fh r = Some (h, r')" "tb_ok r'" "tb_options r = options" "1 \<le> opt_block_restart_interval options"
    and "filter_contents le options bs fc" "tb_filter_block r = None \<longleftrightarrow> fc = None"
    and "fc \<noteq> None \<Longrightarrow> fh = handle_at (length (blocks_bytes (opt_block_restart_interval options) bs)) (length (the fc))"
  shows "written_block contents (meta_bytes options bs fc) r h r'" "tb_ok r"
proof -
  define interval where "interval = opt_block_restart_interval options"
  have ok: "tb_ok r" using assms(1,2) by (auto simp: write_metaindex_def split: if_splits)
  have init: "BlockBuilder_init interval = Some (building interval [])"
    using assms(4) by (auto simp: interval_def BlockBuilder_init_def building_def blk_data_def blk_restarts_def blk_num_def)
  obtain meta block where w: "WriteBlock fv le meta r = Some (block, h, r')"
    and meta: "(if tb_filter_block r \<noteq> None then
               do {
                 p \<leftarrow> opt_filter_policy options;
                 handle_encoding \<leftarrow> BlockHandle_EncodeTo fh [];
                 BlockBuilder_Add (cmp_Compare (opt_comparator options)) interval (str ''filter.'' @ fp_Name p) handle_encoding (building interval [])
               }
             else Some (building interval [])) = Some meta"
    using assms(1,3) ok init unfolding write_metaindex_def interval_def
    by (cases "tb_filter_block r") (auto simp: bind_eq_Some_conv)
  have "meta = building interval (meta_entries options bs fc)"
  proof (cases fc)
    case None
    then show ?thesis using meta assms(6) by (simp add: meta_entries_def)
  next
    case (Some c)
    then obtain p where p: "opt_filter_policy options = Some p" using assms(5) by (auto simp: filter_contents_def split: option.splits)
    have fh: "fh = handle_at (length (blocks_bytes interval bs)) (length c)" using assms(7) Some by (simp add: interval_def)
    have "BlockBuilder_Add (cmp_Compare (opt_comparator options)) interval (str ''filter.'' @ fp_Name p) (handle_bytes fh) (building interval []) = Some meta"
      using meta assms(6) Some p by (auto simp: BlockHandle_EncodeTo_def PutVarint64_def handle_bytes_def split: bind_splits if_splits)
    from building_add_some [OF _ this] assms(4) show ?thesis by (simp add: meta_entries_def Some p fh interval_def)
  qed
  then show "written_block contents (meta_bytes options bs fc) r h r'"
    using write_block [OF w assms(2)] building_finish [of le interval "meta_entries options bs fc"] by (simp add: meta_bytes_def interval_def)
  show "tb_ok r" by (rule ok)
qed

lemma written_block_keeps:
  assumes "written_block contents c r h r'"
  shows "index_ready options bs r' \<longleftrightarrow> index_ready options bs r" "tb_filter_block r' = tb_filter_block r" "tb_options r' = tb_options r"
    "contents (tb_file r') = contents (tb_file r) @ stored_block c" "tb_offset r' = tb_offset r + word_of_nat (length (stored_block c))"
    "h = \<lparr>bh_offset = tb_offset r, bh_size = word_of_nat (length c)\<rparr>"
proof -
  obtain f where f: "r' = r\<lparr>tb_status := Status_OK, tb_file := f, tb_offset := tb_offset r + word_of_nat (length (stored_block c))\<rparr>"
    using assms by (auto simp: written_block_def)
  show "index_ready options bs r' \<longleftrightarrow> index_ready options bs r" unfolding f by (simp add: index_ready_def)
  show "tb_filter_block r' = tb_filter_block r" "tb_options r' = tb_options r"
    "tb_offset r' = tb_offset r + word_of_nat (length (stored_block c))" unfolding f by simp_all
  show "contents (tb_file r') = contents (tb_file r) @ stored_block c" "h = \<lparr>bh_offset = tb_offset r, bh_size = word_of_nat (length c)\<rparr>"
    using assms by (simp_all add: written_block_def)
qed

lemma write_index_ok:
  assumes "write_index fv le r = Some (h, r')" "tb_ok r'" "index_ready options bs r"
  shows "h = \<lparr>bh_offset = tb_offset r, bh_size = word_of_nat (length (index_bytes options bs))\<rparr>"
    "contents (tb_file r') = contents (tb_file r) @ stored_block (index_bytes options bs)"
    "tb_offset r' = tb_offset r + word_of_nat (length (stored_block (index_bytes options bs)))" "tb_ok r"
proof -
  define es where "es = index_entries (opt_comparator options) (opt_block_restart_interval options) bs"
  note st = assms(3) [unfolded index_ready_def Let_def]
  show ok: "tb_ok r" using assms(1,2) by (auto simp: write_index_def split: if_splits)
  obtain r1 r2 block where
    a: "(if tb_pending_index_entry r then add_index_entry (cmp_FindShortSuccessor (opt_comparator (tb_options r)) (tb_last_key r)) r else Some r) = Some r1"
    and w: "WriteBlock fv le (tb_index_block r1) r1 = Some (block, h, r2)" and r': "r' = r2\<lparr>tb_index_block := block\<rparr>"
    using assms(1) ok unfolding write_index_def by (auto simp: bind_eq_Some_conv)
  have r1: "tb_index_block r1 = building 1 es \<and> tb_file r1 = tb_file r \<and> tb_offset r1 = tb_offset r"
  proof (cases "bs = []")
    case True
    then show ?thesis using a st by (simp add: es_def index_entries_def index_so_far_def)
  next
    case False
    then show ?thesis using a st index_so_far_finish [OF False, of "opt_comparator options" "opt_block_restart_interval options"]
      add_index_entry_some [of "cmp_FindShortSuccessor (opt_comparator options) (tb_last_key r)" r r1 options
        "index_so_far (opt_comparator options) (opt_block_restart_interval options) bs []"] by (simp add: es_def)
  qed
  have "tb_ok r2" using r' assms(2) by (simp add: tb_ok_def)
  then have "written_block contents (blk_bytes 1 es) r1 h r2"
    using write_block [OF w] building_finish [of le 1 es] r1 by simp
  from written_block_keeps [OF this] r1 r'
  show "h = \<lparr>bh_offset = tb_offset r, bh_size = word_of_nat (length (index_bytes options bs))\<rparr>"
    "contents (tb_file r') = contents (tb_file r) @ stored_block (index_bytes options bs)"
    "tb_offset r' = tb_offset r + word_of_nat (length (stored_block (index_bytes options bs)))"
    by (simp_all add: index_bytes_def es_def)
qed

lemma write_footer_ok:
  assumes "write_footer fv le mh ih r = Some r'" "tb_ok r'"
  shows "\<exists>footer. Footer_EncodeTo le \<lparr>metaindex_handle = mh, index_handle = ih\<rparr> [] = Some footer \<and>
    contents (tb_file r') = contents (tb_file r) @ footer \<and> tb_offset r' = tb_offset r + word_of_nat (length footer)" "tb_ok r"
proof -
  show ok: "tb_ok r" using assms by (auto simp: write_footer_def split: if_splits)
  obtain footer s f where "Footer_EncodeTo le \<lparr>metaindex_handle = mh, index_handle = ih\<rparr> [] = Some footer" "wf_Append fv footer (tb_file r) = Some (s, f)"
    "r' = (let r = r\<lparr>tb_status := s, tb_file := f\<rparr> in if Status_ok s then r\<lparr>tb_offset := tb_offset r + word_of_nat (length footer)\<rparr> else r)"
    using assms(1) ok unfolding write_footer_def by (auto simp: bind_eq_Some_conv Let_def split: if_splits)
  moreover have "Status_ok s" using calculation(3) assms(2) by (auto simp: tb_ok_def Let_def split: if_splits)
  ultimately show "\<exists>footer. Footer_EncodeTo le \<lparr>metaindex_handle = mh, index_handle = ih\<rparr> [] = Some footer \<and>
    contents (tb_file r') = contents (tb_file r) @ footer \<and> tb_offset r' = tb_offset r + word_of_nat (length footer)"
    using append_ok by (auto simp: Let_def)
qed

abbreviation "body \<equiv> body_written contents"

lemma filter_written:
  assumes "table_state contents options bs [] r1" "write_filter fv le (r1\<lparr>tb_closed := True\<rparr>) = Some (fh, r2)" "tb_ok r2"
  shows "\<exists>fc. body le options bs fc fh r2"
proof -
  define interval where "interval = opt_block_restart_interval options"
  note st = assms(1)
  have ready: "index_ready options bs (r1\<lparr>tb_closed := True\<rparr>)" and fs: "filter_state options interval bs [] (tb_filter_block (r1\<lparr>tb_closed := True\<rparr>))"
    using st by (auto simp: table_state_def index_ready_def Let_def interval_def last_concat_blocks)
  obtain fc where fc: "filter_contents le options bs fc" "case fc of None \<Rightarrow> r2 = r1\<lparr>tb_closed := True\<rparr> | Some c \<Rightarrow> written_block contents c (r1\<lparr>tb_closed := True\<rparr>) fh r2"
    using write_filter_ok [OF assms(2,3) fs] by (auto simp: interval_def)
  have r2: "index_ready options bs r2 \<and> tb_filter_block r2 = tb_filter_block r1 \<and> tb_options r2 = options \<and>
      contents (tb_file r2) = table_body options bs fc \<and> tb_offset r2 = word_of_nat (length (table_body options bs fc)) \<and>
      (fc \<noteq> None \<longrightarrow> fh = handle_at (length (blocks_bytes interval bs)) (length (the fc)))"
    using st fc(2) ready written_block_keeps [of _ "r1\<lparr>tb_closed := True\<rparr>" fh r2]
    by (cases fc) (auto simp: table_state_def table_body_def Let_def interval_def handle_at_def)
  moreover have "tb_filter_block r2 = None \<longleftrightarrow> fc = None"
    using fc(1) fs r2 by (auto simp: filter_contents_def filter_state_def split: option.splits)
  ultimately show ?thesis using fc(1) by (auto simp: body_written_def interval_def)
qed

lemma meta_written:
  assumes "body le options bs fc fh r2" "write_metaindex fv le fh r2 = Some (mh, r3)" "tb_ok r3" "1 \<le> opt_block_restart_interval options"
  shows "index_ready options bs r3" "contents (tb_file r3) = table_body options bs fc @ stored_block (meta_bytes options bs fc)"
    "tb_offset r3 = word_of_nat (length (table_body options bs fc @ stored_block (meta_bytes options bs fc)))"
    "mh = metaindex_handle (table_footer options bs fc)"
proof -
  have meta: "written_block contents (meta_bytes options bs fc) r2 mh r3"
    using write_metaindex_ok(1) [OF assms(2,3) _ assms(4)] assms(1) by (simp add: body_written_def)
  show "index_ready options bs r3" "contents (tb_file r3) = table_body options bs fc @ stored_block (meta_bytes options bs fc)"
    "tb_offset r3 = word_of_nat (length (table_body options bs fc @ stored_block (meta_bytes options bs fc)))"
    "mh = metaindex_handle (table_footer options bs fc)"
    using written_block_keeps [OF meta] assms(1) by (simp_all add: body_written_def table_footer_def handle_at_def)
qed

lemma finish_table:
  assumes "TableBuilder_Finish fv le r = Some (s, r')" "Status_ok s" "table_state contents options bs cur r" "1 \<le> opt_block_restart_interval options"
  shows "\<exists>fc. filter_contents le options (if cur = [] then bs else bs @ [cur]) fc \<and>
    table_bytes le options (if cur = [] then bs else bs @ [cur]) fc = Some (contents (tb_file r')) \<and>
    TableBuilder_FileSize r' = word_of_nat (length (contents (tb_file r')))"
proof -
  define bs' where "bs' = (if cur = [] then bs else bs @ [cur])"
  obtain r1 fh r2 mh r3 ih r4 where f: "TableBuilder_Flush fv le r = Some r1" and wf: "write_filter fv le (r1\<lparr>tb_closed := True\<rparr>) = Some (fh, r2)"
    and wm: "write_metaindex fv le fh r2 = Some (mh, r3)" and wi: "write_index fv le r3 = Some (ih, r4)"
    and wt: "write_footer fv le mh ih r4 = Some r'" and s: "s = tb_status r'"
    using assms(1) unfolding TableBuilder_Finish_def by (auto simp: bind_eq_Some_conv split: if_splits)
  have ok: "tb_ok r'" using s assms(2) by (simp add: tb_ok_def)
  note ok4 = write_footer_ok(2) [OF wt ok]
  have ok3: "tb_ok r3" using wi ok4 by (auto simp: write_index_def split: if_splits)
  have ok2: "tb_ok r2" using wm ok3 by (auto simp: write_metaindex_def split: if_splits)
  have ok1: "tb_ok r1" using wf ok2 by (auto simp: write_filter_def tb_ok_def split: if_splits option.splits)
  have "table_state contents options bs' [] r1" using flush_last [OF f ok1 assms(3)] by (simp add: bs'_def)
  then obtain fc where fc: "body le options bs' fc fh r2" using filter_written [OF _ wf ok2] by blast
  note meta = meta_written [OF fc wm ok3 assms(4)]
  note index = write_index_ok [OF wi ok4 meta(1)]
  have "\<lparr>metaindex_handle = mh, index_handle = ih\<rparr> = table_footer options bs' fc"
    using meta(3,4) index(1) by (simp add: table_footer_def handle_at_def)
  then have "table_bytes le options bs' fc = Some (contents (tb_file r')) \<and> tb_offset r' = word_of_nat (length (contents (tb_file r')))"
    using write_footer_ok(1) [OF wt ok] index(2,3) meta(2,3) by (auto simp: table_bytes_def)
  then show ?thesis using fc by (auto simp: bs'_def TableBuilder_FileSize_def body_written_def)
qed

text \<open>The whole life of a builder that reports success.\<close>

lemma build_table:
  assumes "TableBuilder_init options f = Some r" "contents f = []" "TableBuilder_AddAll fv le es r = Some r1"
    and "TableBuilder_Finish fv le r1 = Some (s, r2)" "Status_ok s"
  shows "\<exists>fc. filter_contents le options (table_blocks options es) fc \<and>
    table_bytes le options (table_blocks options es) fc = Some (contents (tb_file r2)) \<and>
    TableBuilder_FileSize r2 = word_of_nat (length (contents (tb_file r2)))"
proof -
  note init = init_state [OF assms(1,2)]
  obtain bs cur where split: "split_entries options es = (bs, cur)" by fastforce
  have "tb_ok r1" using assms(4,5) by (rule finish_not_ok)
  then have "table_state contents options bs cur r1" using add_all [OF assms(3) _ init] split by (simp add: split_entries_def)
  then show ?thesis using finish_table [OF assms(4,5) _ init(2)] by (simp add: table_blocks_def split)
qed

end

end
