(* ===== verification/LDB_Table_Reader.thy ===== *)
theory LDB_Table_Reader
  imports LDB_Table_Writer
begin

text \<open>
  Reading a table back. A file with the bytes of \<open>table_bytes\<close> opens, its index is an index over its blocks in the
  sense of the two-level iterator, and \<^verbatim>\<open>BlockReader\<close> keeps the contract of a block function; so the iterator of
  the table is a position in its entries, and \<^verbatim>\<open>InternalGet\<close> finds what is there. The block cache is a locale.
\<close>

subsection \<open>The blocks of sorted entries\<close>

lemma split_step_concat:
  "case split_step options (bs, cur) e of (bs', cur') \<Rightarrow> concat bs' @ cur' = (concat bs @ cur) @ [e] \<and> ((\<forall>b\<in>set bs. b \<noteq> []) \<longrightarrow> (\<forall>b\<in>set bs'. b \<noteq> []))"
  by (auto simp: split_step_def Let_def)

lemma split_entries_concat:
  "case split_entries options es of (bs, cur) \<Rightarrow> concat bs @ cur = es \<and> (\<forall>b\<in>set bs. b \<noteq> [])"
proof (induction es rule: rev_induct)
  case (snoc e es)
  obtain bs cur where s: "split_entries options es = (bs, cur)" by fastforce
  then show ?case using snoc split_step_concat [where options = options and bs = bs and cur = cur and e = e] by (auto simp: split_entries_def)
qed (simp add: split_entries_def)

lemma table_blocks_concat: "concat (table_blocks options es) = es" "b \<in> set (table_blocks options es) \<Longrightarrow> b \<noteq> []"
  using split_entries_concat [where options = options and es = es] by (auto simp: table_blocks_def split: prod.splits if_splits)

lemma sorted_blocks:
  "sorted_wrt P (concat bs) \<Longrightarrow> k < l \<Longrightarrow> l < length bs \<Longrightarrow> x \<in> set (bs ! k) \<Longrightarrow> y \<in> set (bs ! l) \<Longrightarrow> P x y"
proof (induction bs arbitrary: k l)
  case (Cons b bs)
  obtain l' where l: "l = Suc l'" "l' < length bs" using Cons.prems(2,3) by (cases l) auto
  show ?case
  proof (cases k)
    case 0
    have "y \<in> set (concat bs)" using Cons.prems(5) l by auto
    then show ?thesis using Cons.prems(1,4) 0 by (auto simp: sorted_wrt_append)
  next
    case (Suc k')
    then show ?thesis using Cons.IH [of k' l'] Cons.prems l by (simp add: sorted_wrt_append)
  qed
qed simp

lemma ascending_block: "ascending compare (concat bs) \<Longrightarrow> b \<in> set bs \<Longrightarrow> ascending compare b"
proof -
  assume "ascending compare (concat bs)" "b \<in> set bs"
  moreover from this obtain xs ys where "bs = xs @ b # ys" by (meson split_list)
  ultimately show ?thesis by (simp add: ascending_def sorted_wrt_append)
qed

text \<open>A table in a file: its bytes, few enough for the 32-bit numbers in blocks, and sorted entries.\<close>

definition stored_table :: "bool \<Rightarrow> Options \<Rightarrow> entries list \<Rightarrow> byte list option \<Rightarrow> byte list \<Rightarrow> bool" where
  "stored_table le options bs fc bytes \<longleftrightarrow>
     table_bytes le options bs fc = Some bytes \<and> length bytes < 2 ^ 31 \<and> 1 \<le> opt_block_restart_interval options \<and>
     (\<forall>b \<in> set bs. b \<noteq> []) \<and> ascending (cmp_Compare (opt_comparator options)) (concat bs) \<and>
     comparator (cmp_Compare (opt_comparator options)) (cmp_FindShortestSeparator (opt_comparator options)) (cmp_FindShortSuccessor (opt_comparator options))"

text \<open>The entries of the block that an index value stands for.\<close>

definition block_content :: "nat \<Rightarrow> entries list \<Rightarrow> slice \<Rightarrow> entries" where
  "block_content interval bs h =
     (case List.find (\<lambda>k. handle_bytes (block_handle interval bs k) = h) [0..<length bs] of None \<Rightarrow> [] | Some k \<Rightarrow> bs ! k)"

lemma handle_bytes_decode: "BlockHandle_DecodeFrom (handle_bytes h) h0 = Some (Status_OK, [], h)"
  using handle_decode [of h "[]" h0] by (simp add: handle_bytes_def)

lemma handle_bytes_eq: "handle_bytes h = handle_bytes h' \<longleftrightarrow> h = h'"
  using handle_bytes_decode [of h BlockHandle_init] handle_bytes_decode [of h' BlockHandle_init] by (metis option.inject prod.inject)

lemma block_offset_Suc:
  "k < length bs \<Longrightarrow> block_offset interval bs (Suc k) = block_offset interval bs k + length (stored_block (blk_bytes interval (bs ! k)))"
  by (simp add: block_offset_def blocks_bytes_def take_Suc_conv_app_nth)

lemma block_offset_less: "k < l \<Longrightarrow> l \<le> length bs \<Longrightarrow> block_offset interval bs k < block_offset interval bs l"
proof (induction l)
  case (Suc l)
  then show ?case by (cases "k = l") (auto simp: block_offset_Suc kBlockTrailerSize_def)
qed simp

lemma block_offset_le: "k \<le> length bs \<Longrightarrow> block_offset interval bs k \<le> length (blocks_bytes interval bs)"
  using block_offset_less [of k "length bs" bs interval] block_offset_last [of interval bs] by (cases "k = length bs") auto

lemma block_offset_inj:
  assumes "k < length bs" "l < length bs" "length (blocks_bytes interval bs) < 2 ^ 31"
    "bh_offset (block_handle interval bs k) = bh_offset (block_handle interval bs l)"
  shows "k = l"
proof -
  have "block_offset interval bs k < 2 ^ 64" using block_offset_le [of k bs interval] assms(1,3) by simp
  moreover have "block_offset interval bs l < 2 ^ 64" using block_offset_le [of l bs interval] assms(2,3) by simp
  ultimately have "block_offset interval bs k = block_offset interval bs l"
    using arg_cong [OF assms(4), of unat] by (simp add: block_handle_def handle_at_def unat_of_nat)
  then show ?thesis
    using block_offset_less [of k l bs interval] block_offset_less [of l k bs interval] assms(1,2) by (cases k l rule: linorder_cases) auto
qed

lemma block_content_handle:
  assumes "k < length bs" "length (blocks_bytes interval bs) < 2 ^ 31"
  shows "block_content interval bs (handle_bytes (block_handle interval bs k)) = bs ! k"
proof (cases "List.find (\<lambda>j. handle_bytes (block_handle interval bs j) = handle_bytes (block_handle interval bs k)) [0..<length bs]")
  case None
  then show ?thesis using assms(1) by (auto simp: find_None_iff)
next
  case (Some j)
  then have "j < length bs" "block_handle interval bs j = block_handle interval bs k" by (auto simp: find_Some_iff handle_bytes_eq)
  then have "j = k" using block_offset_inj [OF _ assms(1,2), of j] by simp
  then show ?thesis using Some by (simp add: block_content_def)
qed

subsection \<open>The index\<close>

context comparator
begin

text \<open>An index key is at or above the keys of its block and below those of the next ones.\<close>

lemma index_key_bounds:
  assumes "c = \<lparr>cmp_id = i, cmp_Compare = compare, cmp_FindShortestSeparator = separator, cmp_FindShortSuccessor = successor\<rparr>"
    and "ascending compare (concat bs)" "\<forall>b \<in> set bs. b \<noteq> []"
  shows "k < length bs \<Longrightarrow> e \<in> set (bs ! k) \<Longrightarrow> compare (fst e) (index_key c bs k) \<le> 0"
    "k < l \<Longrightarrow> l < length bs \<Longrightarrow> e \<in> set (bs ! l) \<Longrightarrow> compare (index_key c bs k) (fst e) < 0"
proof -
  have less: "compare (fst x) (fst y) < 0" if "k < l" "l < length bs" "x \<in> set (bs ! k)" "y \<in> set (bs ! l)" for k l x y
    using sorted_blocks [OF assms(2) [unfolded ascending_def] that] .
  have ne: "bs ! k \<noteq> []" if "k < length bs" for k using assms(3) that by simp
  have last_le: "compare (fst e) (fst (last (bs ! k))) \<le> 0" if k: "k < length bs" "e \<in> set (bs ! k)" for k e
  proof -
    obtain j where j: "j < length (bs ! k)" "e = bs ! k ! j" using k(2) by (auto simp: in_set_conv_nth)
    have "ascending compare (bs ! k)" using ascending_block [OF assms(2)] k(1) by simp
    from ascending_nth_le [OF this, of j "length (bs ! k) - 1"] j ne [OF k(1)] show ?thesis by (simp add: last_conv_nth)
  qed
  have hd_le: "compare (fst (hd (bs ! k))) (fst e) \<le> 0" if k: "k < length bs" "e \<in> set (bs ! k)" for k e
  proof -
    obtain j where j: "j < length (bs ! k)" "e = bs ! k ! j" using k(2) by (auto simp: in_set_conv_nth)
    have "ascending compare (bs ! k)" using ascending_block [OF assms(2)] k(1) by simp
    from ascending_nth_le [OF this, of 0 j] j ne [OF k(1)] show ?thesis by (simp add: hd_conv_nth)
  qed
  have sep: "compare (fst (last (bs ! k))) (index_key c bs k) \<le> 0" if "k < length bs" for k
    using less [of k "Suc k" "last (bs ! k)" "hd (bs ! Suc k)"] that ne separator_ge successor_ge
    by (auto simp: index_key_def assms(1))
  have sep_less: "compare (index_key c bs k) (fst (hd (bs ! l))) < 0" if "k < l" "l < length bs" for k l
  proof -
    have *: "compare (index_key c bs k) (fst (hd (bs ! Suc k))) < 0"
      using less [of k "Suc k" "last (bs ! k)" "hd (bs ! Suc k)"] that ne [of k] ne [of "Suc k"] separator_less by (auto simp: index_key_def assms(1))
    show ?thesis
    proof (cases "l = Suc k")
      case False
      then have "compare (fst (hd (bs ! Suc k))) (fst (hd (bs ! l))) < 0"
        using less [of "Suc k" l "hd (bs ! Suc k)" "hd (bs ! l)"] that ne [of "Suc k"] ne [of l] by auto
      then show ?thesis using less_le_trans [OF *] by simp
    qed (use * in simp)
  qed
  show upper: "compare (fst e) (index_key c bs k) \<le> 0" if "k < length bs" "e \<in> set (bs ! k)" for k e
    using trans [OF last_le [OF that] sep [OF that(1)]] .
  show lower: "compare (index_key c bs k) (fst e) < 0" if "k < l" "l < length bs" "e \<in> set (bs ! l)" for k l e
    using less_le_trans [OF sep_less [OF that(1,2)] hd_le [OF that(2,3)]] .
qed

lemma index_entries_ascending:
  assumes "c = \<lparr>cmp_id = i, cmp_Compare = compare, cmp_FindShortestSeparator = separator, cmp_FindShortSuccessor = successor\<rparr>"
    and "ascending compare (concat bs)" "\<forall>b \<in> set bs. b \<noteq> []"
  shows "ascending compare (index_entries c interval bs)"
proof -
  have "compare (index_key c bs k) (index_key c bs l) < 0" if "k < l" "l < length bs" for k l
    using less_le_trans [OF index_key_bounds(2) [OF assms that, of "hd (bs ! l)"] index_key_bounds(1) [OF assms that(2), of "hd (bs ! l)"]] assms(3) that by simp
  then show ?thesis by (simp add: ascending_def sorted_wrt_iff_nth_less index_entries_def)
qed

lemma index_entries_index:
  assumes "c = \<lparr>cmp_id = i, cmp_Compare = compare, cmp_FindShortestSeparator = separator, cmp_FindShortSuccessor = successor\<rparr>"
    and "ascending compare (concat bs)" "\<forall>b \<in> set bs. b \<noteq> []" "length (blocks_bytes interval bs) < 2 ^ 31"
  shows "index_of compare (\<lambda>h. \<exists>k<length bs. h = handle_bytes (block_handle interval bs k)) (block_content interval bs) (index_entries c interval bs) (concat bs)"
proof -
  define ies where "ies = index_entries c interval bs"
  have len: "length ies = length bs" by (simp add: ies_def index_entries_def)
  have nth: "ies ! k = (index_key c bs k, handle_bytes (block_handle interval bs k))" if "k < length bs" for k
    using that by (simp add: ies_def index_entries_def)
  have content: "block_content interval bs (snd (ies ! k)) = bs ! k" if "k < length bs" for k
    using block_content_handle [OF that assms(4)] that by (simp add: nth)
  have readable: "\<forall>e \<in> set ies. \<exists>k<length bs. snd e = handle_bytes (block_handle interval bs k)" by (auto simp: ies_def index_entries_def)
  have "map (block_content interval bs \<circ> snd) ies = bs" using content by (intro nth_equalityI) (simp_all add: len)
  then show ?thesis
    using assms(2) index_key_bounds [OF assms(1-3)] content readable unfolding ies_def [symmetric] index_of_def by (auto simp: len nth)
qed

end

subsection \<open>Reading blocks\<close>

lemma read_block_at:
  assumes "random_access_file file (pre @ stored_block c @ post)" "length (pre @ stored_block c @ post) < 2 ^ 31"
  shows "\<exists>in_buf. ReadBlock le file verify (handle_at (length pre) (length c)) =
    Some (Status_OK, \<lparr>bc_data = c, bc_cachable = in_buf, bc_heap_allocated = in_buf\<rparr>)"
proof (rule random_access_file.read_stored_block [OF assms(1)])
  have small: "length pre < 2 ^ 64" "length c < 2 ^ 64" using assms(2) by simp_all
  show "take (length (stored_block c)) (drop (unat (bh_offset (handle_at (length pre) (length c)))) (pre @ stored_block c @ post)) = stored_block c"
    using small by (simp add: handle_at_def unat_of_nat)
  show "unat (bh_size (handle_at (length pre) (length c))) = length c" using small by (simp add: handle_at_def unat_of_nat)
  show "length (pre @ stored_block c @ post) < 2 ^ 63" using assms(2) by simp
qed

lemma blocks_bytes_at:
  "k < length bs \<Longrightarrow> blocks_bytes interval bs =
     blocks_bytes interval (take k bs) @ stored_block (blk_bytes interval (bs ! k)) @ blocks_bytes interval (drop (Suc k) bs)"
  unfolding blocks_bytes_def by (subst id_take_nth_drop [of k bs]) simp_all

lemma stored_table_bytes:
  assumes "stored_table le options bs fc bytes"
  obtains footer where "bytes = table_body options bs fc @ stored_block (meta_bytes options bs fc) @ stored_block (index_bytes options bs) @ footer"
    "Footer_EncodeTo le (table_footer options bs fc) [] = Some footer"
  using assms by (auto simp: stored_table_def table_bytes_def)

lemma read_table_block:
  assumes "stored_table le options bs fc bytes" "random_access_file file bytes" "k < length bs"
  shows "\<exists>in_buf. ReadBlock le file verify (block_handle (opt_block_restart_interval options) bs k) =
    Some (Status_OK, \<lparr>bc_data = blk_bytes (opt_block_restart_interval options) (bs ! k), bc_cachable = in_buf, bc_heap_allocated = in_buf\<rparr>)"
proof -
  obtain rest where "bytes = blocks_bytes (opt_block_restart_interval options) bs @ rest"
    by (rule stored_table_bytes [OF assms(1)]) (simp add: table_body_def)
  then obtain post where bytes: "bytes = blocks_bytes (opt_block_restart_interval options) (take k bs) @
      stored_block (blk_bytes (opt_block_restart_interval options) (bs ! k)) @ post"
    using blocks_bytes_at [OF assms(3), of "opt_block_restart_interval options"] by simp
  have "length bytes < 2 ^ 31" using assms(1) by (simp add: stored_table_def)
  from read_block_at [OF assms(2) [unfolded bytes] this [unfolded bytes]] show ?thesis by (simp add: block_handle_def block_offset_def)
qed

lemma table_block_ok:
  assumes "stored_table le options bs fc bytes" "k < length bs"
  shows "blk_ok (opt_block_restart_interval options) (bs ! k)" "length (blocks_bytes (opt_block_restart_interval options) bs) < 2 ^ 31"
proof -
  obtain rest where "bytes = blocks_bytes (opt_block_restart_interval options) bs @ rest"
    by (rule stored_table_bytes [OF assms(1)]) (simp add: table_body_def)
  moreover have "length bytes < 2 ^ 31" using assms(1) by (simp add: stored_table_def)
  ultimately show "blk_ok (opt_block_restart_interval options) (bs ! k)" "length (blocks_bytes (opt_block_restart_interval options) bs) < 2 ^ 31"
    using assms(1) blocks_bytes_at [OF assms(2), of "opt_block_restart_interval options"] by (simp_all add: stored_table_def blk_ok_def)
qed

lemma new_block_iterator:
  assumes "blk_ok interval es" "ascending compare es"
  shows "\<exists>it. Block_NewIterator le (Block_init le (blk_bytes interval es)) = Some it \<and> table_iterator compare es it (length es)"
  using block_new_iterator [OF assms(1), of le] assms by (auto simp: block_iterator_def)

subsection \<open>The cache of blocks\<close>

text \<open>
  What a table relies on: a lookup gives a block that was inserted under the key. The cache may drop blocks at any
  time; \<open>may_hold\<close> are the blocks that it may still hold.
\<close>

locale table_cache =
  fixes cache :: "'s BlockCache_vt option"
    and may_hold :: "'s \<Rightarrow> slice \<Rightarrow> Block \<Rightarrow> bool"
  assumes lookup_found: "cache = Some c \<Longrightarrow> ca_Lookup c k s = (Some b, s') \<Longrightarrow> may_hold s k b"
    and lookup_keeps: "cache = Some c \<Longrightarrow> ca_Lookup c k s = (r, s') \<Longrightarrow> may_hold s' k' b \<Longrightarrow> may_hold s k' b"
    and insert_holds: "cache = Some c \<Longrightarrow> may_hold (ca_Insert c k b n s) k' b' \<Longrightarrow> k' = k \<and> b' = b \<or> may_hold s k' b'"

interpretation no_cache: table_cache None "\<lambda>_ _ _. False"
  by unfold_locales simp_all

text \<open>The blocks that the cache may hold under the keys of a table are the blocks of the table.\<close>

definition cache_fits :: "('s \<Rightarrow> slice \<Rightarrow> Block \<Rightarrow> bool) \<Rightarrow> bool \<Rightarrow> 64 word \<Rightarrow> nat \<Rightarrow> entries list \<Rightarrow> 's \<Rightarrow> bool" where
  "cache_fits may_hold le cache_id interval bs s \<longleftrightarrow>
     (\<forall>k<length bs. \<forall>b. may_hold s (EncodeFixed64 le cache_id @ EncodeFixed64 le (bh_offset (block_handle interval bs k))) b \<longrightarrow>
        b = Block_init le (blk_bytes interval (bs ! k)))"

context table_cache
begin

lemma fetch_table_block:
  fixes t :: Table and interval :: nat and options :: Options
  defines "interval \<equiv> opt_block_restart_interval options"
  assumes "stored_table le options bs fc bytes" "random_access_file (t_file t) bytes" "k < length bs"
    "cache_fits may_hold le (t_cache_id t) interval bs s"
  shows "\<exists>s'. fetch_block le cache t ro (block_handle interval bs k) s = Some (Inr (Block_init le (blk_bytes interval (bs ! k))), s') \<and>
    cache_fits may_hold le (t_cache_id t) interval bs s'"
proof -
  define key where "key = EncodeFixed64 le (t_cache_id t) @ EncodeFixed64 le (bh_offset (block_handle interval bs k))"
  define b where "b = Block_init le (blk_bytes interval (bs ! k))"
  obtain in_buf where rd: "ReadBlock le (t_file t) (ro_verify_checksums ro) (block_handle interval bs k) =
      Some (Status_OK, \<lparr>bc_data = blk_bytes interval (bs ! k), bc_cachable = in_buf, bc_heap_allocated = in_buf\<rparr>)"
    using read_table_block [OF assms(2-4)] unfolding interval_def by blast
  show ?thesis
  proof (cases cache)
    case None
    then show ?thesis using rd assms(5) by (simp add: fetch_block_def Status_ok_def Status_OK_def)
  next
    case (Some c)
    obtain r s1 where l: "ca_Lookup c key s = (r, s1)" by fastforce
    have fits: "cache_fits may_hold le (t_cache_id t) interval bs s1"
      using assms(5) lookup_keeps [OF Some l] unfolding cache_fits_def by blast
    show ?thesis
    proof (cases r)
      case (Some b')
      then have "may_hold s key b'" using lookup_found [OF \<open>cache = Some c\<close>] l by blast
      then have "b' = b" using assms(4,5) unfolding cache_fits_def key_def b_def by blast
      then show ?thesis using fits l Some \<open>cache = Some c\<close> by (simp add: fetch_block_def Let_def b_def flip: key_def)
    next
      case None
      have "cache_fits may_hold le (t_cache_id t) interval bs (ca_Insert c key b n s1)" for n
        unfolding cache_fits_def
      proof (intro allI impI)
        fix j b' assume j: "j < length bs"
          and "may_hold (ca_Insert c key b n s1) (EncodeFixed64 le (t_cache_id t) @ EncodeFixed64 le (bh_offset (block_handle interval bs j))) b'"
        then consider "EncodeFixed64 le (bh_offset (block_handle interval bs j)) = EncodeFixed64 le (bh_offset (block_handle interval bs k))" "b' = b"
          | "may_hold s1 (EncodeFixed64 le (t_cache_id t) @ EncodeFixed64 le (bh_offset (block_handle interval bs j))) b'"
          using insert_holds [OF \<open>cache = Some c\<close>] unfolding key_def by blast
        then show "b' = Block_init le (blk_bytes interval (bs ! j))"
        proof cases
          case 1
          then have "bh_offset (block_handle interval bs j) = bh_offset (block_handle interval bs k)" by (metis append.right_neutral coding_fixed64)
          then have "j = k" using block_offset_inj [OF j assms(4)] table_block_ok(2) [OF assms(2,4)] by (simp add: interval_def)
          then show ?thesis using 1 by (simp add: b_def)
        next
          case 2
          then show ?thesis using fits j unfolding cache_fits_def by blast
        qed
      qed
      then show ?thesis using fits l None \<open>cache = Some c\<close> rd
        by (simp add: fetch_block_def Let_def b_def Status_ok_def Status_OK_def flip: key_def)
    qed
  qed
qed

lemma block_reader:
  fixes t :: Table and interval :: nat and options :: Options
  defines "interval \<equiv> opt_block_restart_interval options"
  assumes "stored_table le options bs fc bytes" "random_access_file (t_file t) bytes" "k < length bs"
    "cache_fits may_hold le (t_cache_id t) interval bs s"
  shows "\<exists>it s'. BlockReader le cache t ro s (handle_bytes (block_handle interval bs k)) = Some (it, s') \<and>
    cache_fits may_hold le (t_cache_id t) interval bs s' \<and> table_iterator (cmp_Compare (opt_comparator options)) (bs ! k) it (length (bs ! k))"
proof -
  obtain s' where s': "fetch_block le cache t ro (block_handle interval bs k) s = Some (Inr (Block_init le (blk_bytes interval (bs ! k))), s')"
      "cache_fits may_hold le (t_cache_id t) interval bs s'"
    using fetch_table_block [OF assms(2-4)] assms(5) unfolding interval_def by blast
  have "ascending (cmp_Compare (opt_comparator options)) (bs ! k)" using assms(2,4) ascending_block [of _ bs "bs ! k"] by (simp add: stored_table_def)
  then obtain it where "Block_NewIterator le (Block_init le (blk_bytes interval (bs ! k))) = Some it"
      "table_iterator (cmp_Compare (opt_comparator options)) (bs ! k) it (length (bs ! k))"
    using new_block_iterator [OF table_block_ok(1) [OF assms(2,4)]] unfolding interval_def by blast
  then show ?thesis using s' by (simp add: BlockReader_def handle_bytes_decode Status_ok_def Status_OK_def)
qed

end

subsection \<open>Opening a table\<close>

text \<open>The table that \<^verbatim>\<open>Open\<close> makes, with the filter if the options have a policy.\<close>

definition open_table :: "bool \<Rightarrow> Options \<Rightarrow> RandomAccessFile \<Rightarrow> 64 word \<Rightarrow> entries list \<Rightarrow> byte list option \<Rightarrow> Table" where
  "open_table le options file cache_id bs fc =
     \<lparr>t_options = options, t_file = file, t_cache_id = cache_id, t_filter = map_option (FilterBlockReader_init le) fc,
      t_metaindex_handle = metaindex_handle (table_footer options bs fc), t_index_block = Block_init le (index_bytes options bs)\<rparr>"

lemma read_filter:
  assumes "stored_table le options bs (Some c) bytes" "random_access_file (t_file t) bytes"
  shows "ReadFilter le (handle_bytes (handle_at (length (blocks_bytes (opt_block_restart_interval options) bs)) (length c))) t =
    Some (t\<lparr>t_filter := Some (FilterBlockReader_init le c)\<rparr>)"
proof -
  obtain rest where bytes: "bytes = blocks_bytes (opt_block_restart_interval options) bs @ stored_block c @ rest"
    by (rule stored_table_bytes [OF assms(1)]) (simp add: table_body_def)
  have "length bytes < 2 ^ 31" using assms(1) by (simp add: stored_table_def)
  from read_block_at [OF assms(2) [unfolded bytes] this [unfolded bytes], of le "opt_paranoid_checks (t_options t)"]
  show ?thesis by (auto simp: ReadFilter_def handle_bytes_decode Status_ok_def Status_OK_def)
qed

lemma read_meta:
  assumes "stored_table le options bs fc bytes" "random_access_file (t_file t) bytes" "filter_contents le options bs fc"
    "t_options t = options" "t_filter t = None"
  shows "ReadMeta le (table_footer options bs fc) t = Some (t\<lparr>t_filter := map_option (FilterBlockReader_init le) fc\<rparr>)"
proof (cases "opt_filter_policy options")
  case None
  then show ?thesis using assms(3-5) by (cases t) (simp add: filter_contents_def ReadMeta_def)
next
  case (Some p)
  then obtain c where c: "fc = Some c" using assms(3) by (auto simp: filter_contents_def)
  define vt where "vt = TableIterator_vt Slice_compare le"
  define key where "key = str ''filter.'' @ fp_Name p"
  define v where "v = handle_bytes (handle_at (length (blocks_bytes (opt_block_restart_interval options) bs)) (length c))"
  have meta: "meta_entries options bs fc = [(key, v)]" by (simp add: meta_entries_def c Some key_def v_def)
  obtain rest where bytes: "bytes = table_body options bs fc @ stored_block (meta_bytes options bs fc) @ rest"
    by (rule stored_table_bytes [OF assms(1)]) simp
  have small: "length bytes < 2 ^ 31" using assms(1) by (simp add: stored_table_def)
  obtain in_buf where rd: "ReadBlock le (t_file t) (opt_paranoid_checks options) (metaindex_handle (table_footer options bs fc)) =
      Some (Status_OK, \<lparr>bc_data = meta_bytes options bs fc, bc_cachable = in_buf, bc_heap_allocated = in_buf\<rparr>)"
    using read_block_at [OF assms(2) [unfolded bytes] small [unfolded bytes], of le "opt_paranoid_checks options"]
    by (auto simp: table_footer_def)
  have "blk_ok (opt_block_restart_interval options) [(key, v)]"
    using assms(1) small bytes meta by (simp add: stored_table_def blk_ok_def meta_bytes_def)
  then obtain it where it: "Block_NewIterator le (Block_init le (meta_bytes options bs fc)) = Some it" "table_iterator Slice_compare [(key, v)] it 1"
    using new_block_iterator [of _ "[(key, v)]" Slice_compare le] by (auto simp: meta_bytes_def meta ascending_def)
  obtain it' where it': "vt_Seek vt key it = Some it'" "table_iterator Slice_compare [(key, v)] it' 0"
    using bytewise_table.pos_seek [OF it(2) TrueI, of le key] bytewise.self [of key] by (auto simp: vt_def first_ge_def)
  have entry: "vt_Valid vt it'" "vt_key vt it' = Some key" "vt_value vt it' = Some v"
    using bytewise_table.pos_valid [OF it'(2), of le] bytewise_table.pos_key [OF it'(2), of le] bytewise_table.pos_value [OF it'(2), of le]
    by (simp_all add: vt_def)
  have "ReadFilter le v t = Some (t\<lparr>t_filter := Some (FilterBlockReader_init le c)\<rparr>)"
    unfolding v_def by (rule read_filter [OF assms(1) [unfolded c] assms(2)])
  then show ?thesis
    using rd it(1) it'(1) entry assms(4) Some c unfolding ReadMeta_def vt_def [symmetric]
    by (simp add: Status_ok_def Status_OK_def Let_def Slice_eq_iff flip: key_def vt_def)
qed

lemma table_open:
  assumes "stored_table le options bs fc bytes" "random_access_file file bytes" "filter_contents le options bs fc"
  shows "Table_Open le cache options file (word_of_nat (length bytes)) s =
    (let (cache_id, s') = (case cache of None \<Rightarrow> (0, s) | Some c \<Rightarrow> ca_NewId c s) in
     Some (Status_OK, Some (open_table le options file cache_id bs fc), s'))"
proof -
  define len :: "64 word" where "len = word_of_nat (length bytes)"
  obtain footer where bytes: "bytes = table_body options bs fc @ stored_block (meta_bytes options bs fc) @ stored_block (index_bytes options bs) @ footer"
    and enc: "Footer_EncodeTo le (table_footer options bs fc) [] = Some footer"
    by (rule stored_table_bytes [OF assms(1)])
  have small: "length bytes < 2 ^ 31" using assms(1) by (simp add: stored_table_def)
  have len: "unat len = length bytes" using small by (simp add: len_def unat_of_nat)
  note footer = footer_decode [OF enc, of "[]" Footer_init]
  have sub: "unat (len - 48) = length bytes - 48" using len footer small bytes by (subst unat_sub) (simp_all add: word_le_nat_alt)
  have "drop (length bytes - 48) bytes = footer" using footer bytes by simp
  then obtain in_buf where rd: "file (len - 48) 48 = Some (Status_OK, footer, in_buf)"
    using random_access_file.read_inside [OF assms(2), of "len - 48" 48] sub small footer bytes by auto
  obtain in_buf' where idx: "ReadBlock le file (opt_paranoid_checks options) (index_handle (table_footer options bs fc)) =
      Some (Status_OK, \<lparr>bc_data = index_bytes options bs, bc_cachable = in_buf', bc_heap_allocated = in_buf'\<rparr>)"
    using read_block_at [of "file" "table_body options bs fc @ stored_block (meta_bytes options bs fc)" "index_bytes options bs" footer]
      assms(2) small bytes by (auto simp: table_footer_def)
  have meta: "ReadMeta le (table_footer options bs fc)
      \<lparr>t_options = options, t_file = file, t_cache_id = cache_id, t_filter = None,
       t_metaindex_handle = metaindex_handle (table_footer options bs fc), t_index_block = Block_init le (index_bytes options bs)\<rparr> =
      Some (open_table le options file cache_id bs fc)" for cache_id
    by (subst read_meta [OF assms(1) _ assms(3)]) (simp_all add: assms(2) open_table_def)
  have "\<not> unat len < 48" using len footer bytes by simp
  then show ?thesis
    using rd footer idx meta unfolding Table_Open_def len_def [symmetric]
    by (simp add: Footer_kEncodedLength_def kMaxEncodedLength_def Status_ok_def Status_OK_def split: prod.splits)
qed

subsection \<open>The iterator of a table\<close>

text \<open>The index values of a table that is in the file that it was opened with.\<close>

definition table_readable :: "bool \<Rightarrow> Options \<Rightarrow> entries list \<Rightarrow> byte list option \<Rightarrow> byte list \<Rightarrow> Table \<Rightarrow> slice \<Rightarrow> bool" where
  "table_readable le options bs fc bytes t h \<longleftrightarrow> stored_table le options bs fc bytes \<and> random_access_file (t_file t) bytes \<and>
     (\<exists>k<length bs. h = handle_bytes (block_handle (opt_block_restart_interval options) bs k))"

lemma stored_table_order:
  "stored_table le options bs fc bytes \<Longrightarrow> key_order (cmp_Compare (opt_comparator options))"
  by (simp add: stored_table_def comparator_def)

lemma stored_table_index:
  fixes interval :: nat and options :: Options and ies :: entries
  assumes "stored_table le options bs fc bytes"
  defines "interval \<equiv> opt_block_restart_interval options"
  defines "ies \<equiv> index_entries (opt_comparator options) interval bs"
  shows "index_of (cmp_Compare (opt_comparator options)) (\<lambda>h. \<exists>k<length bs. h = handle_bytes (block_handle interval bs k))
      (block_content interval bs) ies (concat bs)"
    "ascending (cmp_Compare (opt_comparator options)) ies" "blk_ok 1 ies"
    "k < length bs \<Longrightarrow> block_content interval bs (handle_bytes (block_handle interval bs k)) = bs ! k"
proof -
  have cmp: "comparator (cmp_Compare (opt_comparator options)) (cmp_FindShortestSeparator (opt_comparator options)) (cmp_FindShortSuccessor (opt_comparator options))"
    and asc: "ascending (cmp_Compare (opt_comparator options)) (concat bs)" "\<forall>b \<in> set bs. b \<noteq> []" and len: "length bytes < 2 ^ 31"
    using assms(1) by (simp_all add: stored_table_def)
  obtain rest where bytes: "bytes = blocks_bytes interval bs @ rest"
    by (rule stored_table_bytes [OF assms(1)]) (simp add: table_body_def interval_def)
  then have small: "length (blocks_bytes interval bs) < 2 ^ 31" using len by simp
  obtain i a b c where o: "opt_comparator options = \<lparr>cmp_id = i, cmp_Compare = a, cmp_FindShortestSeparator = b, cmp_FindShortSuccessor = c\<rparr>"
    by (cases "opt_comparator options")
  note idx = comparator.index_entries_index [OF cmp _ asc small, of "opt_comparator options" i]
    comparator.index_entries_ascending [OF cmp _ asc, of "opt_comparator options" i]
  show "index_of (cmp_Compare (opt_comparator options)) (\<lambda>h. \<exists>k<length bs. h = handle_bytes (block_handle interval bs k))
      (block_content interval bs) ies (concat bs)" "ascending (cmp_Compare (opt_comparator options)) ies"
    using idx by (simp_all add: ies_def o)
  have "length (index_bytes options bs) < 2 ^ 31" by (rule stored_table_bytes [OF assms(1)]) (use len in simp)
  then show "blk_ok 1 ies" by (simp add: blk_ok_def index_bytes_def ies_def interval_def)
  show "k < length bs \<Longrightarrow> block_content interval bs (handle_bytes (block_handle interval bs k)) = bs ! k"
    by (rule block_content_handle [OF _ small])
qed

context table_cache
begin

lemma table_two_level:
  assumes "key_order (cmp_Compare (opt_comparator options))"
  shows "two_level (cmp_Compare (opt_comparator options)) (TableIterator_vt (cmp_Compare (opt_comparator options)) le) (table_iterator (cmp_Compare (opt_comparator options)))
    (TableIterator_vt (cmp_Compare (opt_comparator options)) le) (table_iterator (cmp_Compare (opt_comparator options)))
    (BlockReader le cache t ro) (cache_fits may_hold le (t_cache_id t) (opt_block_restart_interval options) bs)
    (table_readable le options bs fc bytes t) (block_content (opt_block_restart_interval options) bs)"
proof (intro two_level.intro two_level_axioms.intro table_iterator_class assms)
  fix s h
  assume s: "cache_fits may_hold le (t_cache_id t) (opt_block_restart_interval options) bs s" and "table_readable le options bs fc bytes t h"
  then obtain k where k: "stored_table le options bs fc bytes" "random_access_file (t_file t) bytes" "k < length bs"
      "h = handle_bytes (block_handle (opt_block_restart_interval options) bs k)"
    by (auto simp: table_readable_def)
  from block_reader [OF k(1-3) s] stored_table_index(4) [OF k(1,3)]
  show "\<exists>d s' p. BlockReader le cache t ro s h = Some (d, s') \<and> cache_fits may_hold le (t_cache_id t) (opt_block_restart_interval options) bs s' \<and>
      table_iterator (cmp_Compare (opt_comparator options)) (block_content (opt_block_restart_interval options) bs h) d p"
    unfolding k(4) by fastforce
qed

lemma table_new_iterator:
  assumes "stored_table le options bs fc bytes" "random_access_file (t_file t) bytes" "t_options t = options"
    "t_index_block t = Block_init le (index_bytes options bs)" "cache_fits may_hold le (t_cache_id t) (opt_block_restart_interval options) bs s"
  shows "\<exists>it. Table_NewIterator le t s = Some it \<and>
    (\<forall>calls obs. run_list (cmp_Compare (opt_comparator options)) (concat bs) calls (length (concat bs)) = Some obs \<longrightarrow>
       run_iter (Table_iterator_vt le cache t ro) calls it = Some obs)"
proof -
  define ies where "ies = index_entries (opt_comparator options) (opt_block_restart_interval options) bs"
  note order = stored_table_order [OF assms(1)]
  note tl = table_two_level [OF order, of le t ro bs fc bytes]
  note index = stored_table_index [OF assms(1), folded ies_def]
  obtain it0 where it0: "Block_NewIterator le (t_index_block t) = Some it0" "table_iterator (cmp_Compare (opt_comparator options)) ies it0 (length ies)"
    using new_block_iterator [OF index(3,2), of le] assms(4) by (auto simp: index_bytes_def ies_def)
  have "index_of (cmp_Compare (opt_comparator options)) (table_readable le options bs fc bytes t) (block_content (opt_block_restart_interval options) bs) ies (concat bs)"
    using index(1) assms(1,2) unfolding index_of_def table_readable_def by blast
  from two_level.two_level_init [OF tl this it0(2) assms(5)] obtain it where
    it: "TwoLevelIterator_init (TableIterator_vt (cmp_Compare (opt_comparator options)) le) it0 s = Some it"
      "two_level_pos (cmp_Compare (opt_comparator options)) (table_iterator (cmp_Compare (opt_comparator options))) (table_iterator (cmp_Compare (opt_comparator options)))
        (cache_fits may_hold le (t_cache_id t) (opt_block_restart_interval options) bs) (table_readable le options bs fc bytes t)
        (block_content (opt_block_restart_interval options) bs) (concat bs) it (length (concat bs))"
    by blast
  have "run_iter (Table_iterator_vt le cache t ro) calls it = Some obs"
    if "run_list (cmp_Compare (opt_comparator options)) (concat bs) calls (length (concat bs)) = Some obs" for calls obs
    using iterator_class.run_pos [OF two_level.two_level_class [OF tl] it(2) that seeks_ok_any] by (simp add: Table_iterator_vt_def assms(3))
  then show ?thesis using it0(1) it(1) by (simp add: Table_NewIterator_def assms(3))
qed

end

subsection \<open>Point lookups\<close>

context comparator
begin

text \<open>An entry with exactly the target as its key is in the first block whose index key is not below the target.\<close>

lemma index_hit:
  fixes ies :: "(slice \<times> slice) list"
  assumes "index_of compare readable content ies es" "ascending compare ies" "(target, v) \<in> set es"
  defines "j \<equiv> first_ge compare ies target"
  shows "j < length ies \<and> first_ge compare (content (snd (ies ! j))) target < length (content (snd (ies ! j))) \<and>
    content (snd (ies ! j)) ! first_ge compare (content (snd (ies ! j))) target = (target, v)"
proof -
  obtain e where e: "e \<in> set ies" "(target, v) \<in> set (content (snd e))" using assms(1,3) by (auto simp: index_of_def)
  then obtain m where m: "m < length ies" "(target, v) \<in> set (content (snd (ies ! m)))" by (metis in_set_conv_nth)
  have "j = m"
    unfolding j_def
  proof (rule first_ge_iff)
    have low: "\<forall>l<length ies. \<forall>k<l. \<forall>e \<in> set (content (snd (ies ! l))). compare (fst (ies ! k)) (fst e) < 0"
      and up: "\<forall>k<length ies. \<forall>e \<in> set (content (snd (ies ! k))). compare (fst e) (fst (ies ! k)) \<le> 0"
      using assms(1) unfolding index_of_def by blast+
    show "\<forall>k<m. compare (fst (ies ! k)) target < 0" using low [rule_format, OF m(1) _ m(2)] by simp
    show "m < length ies \<longrightarrow> \<not> compare (fst (ies ! m)) target < 0" using up [rule_format, OF m] by (simp add: not_less)
  qed (use m in simp)
  obtain n where n: "n < length (content (snd (ies ! m)))" "content (snd (ies ! m)) ! n = (target, v)" using m(2) by (auto simp: in_set_conv_nth)
  have "ascending compare (content (snd (ies ! m)))"
    by (rule ascending_block [of compare "map (content \<circ> snd) ies"]) (use assms(1) m(1) in \<open>auto simp: index_of_def\<close>)
  from first_ge_nth [OF this n(1)] n m(1) show ?thesis by (simp add: \<open>j = m\<close>)
qed

end

context filter_policy
begin

lemma built_filter_total:
  assumes "build_filters create blocks FilterBlockBuilder_init = Some b" "FilterBlock_Finish create le b = Some contents" "length contents < 2 ^ 32"
  shows "\<exists>m. FilterBlock_KeyMayMatch may_match le (FilterBlockReader_init le contents) off k = Some m"
proof -
  have "fb_abs FilterBlockBuilder_init [] []" by (simp add: fb_abs_def FilterBlockBuilder_init_def starts_def)
  from build_abs [OF assms(1) this, of "[]"] obtain fs pend where "fb_abs b fs pend" "\<forall>block\<in>set blocks. covered fs pend block" by auto
  from finish_abs [OF assms(2) this] obtain fs' where fs': "contents = filter_block fs'" by blast
  show ?thesis using assms(3) by (simp add: fs' FilterBlock_KeyMayMatch_def filter_block_reader Let_def)
qed

end

text \<open>The filter of a table never hides a key of a block.\<close>

lemma table_filter:
  fixes options :: Options
  assumes "stored_table le options bs (Some c) bytes" "filter_contents le options bs (Some c)" "opt_filter_policy options = Some p"
    "filter_policy (fp_CreateFilter p) (fp_KeyMayMatch p)" "j < length bs"
  shows "\<exists>m. FilterBlock_KeyMayMatch (fp_KeyMayMatch p) le (FilterBlockReader_init le c)
      (bh_offset (block_handle (opt_block_restart_interval options) bs j)) k = Some m \<and> (k \<in> fst ` set (bs ! j) \<longrightarrow> m)"
proof -
  define interval where "interval = opt_block_restart_interval options"
  define off where "off = bh_offset (block_handle interval bs j)"
  obtain b where b: "build_filters (fp_CreateFilter p) (filter_blocks interval bs []) FilterBlockBuilder_init = Some b"
      "FilterBlock_Finish (fp_CreateFilter p) le b = Some c"
    using assms(2,3) by (auto simp: filter_contents_def interval_def)
  have "length c < 2 ^ 31" by (rule stored_table_bytes [OF assms(1)]) (use assms(1) in \<open>simp add: stored_table_def table_body_def\<close>)
  then have len: "length c < 2 ^ 32" by simp
  have block: "(off, map fst (bs ! j)) \<in> set (filter_blocks interval bs [])"
    using assms(5) by (auto simp: filter_blocks_last off_def block_handle_def handle_at_def)
  obtain m where "FilterBlock_KeyMayMatch (fp_KeyMayMatch p) le (FilterBlockReader_init le c) off k = Some m"
    using filter_policy.built_filter_total [OF assms(4) b len] by blast
  moreover have "m" if "k \<in> fst ` set (bs ! j)"
    using filter_policy.no_false_negatives [OF assms(4) b len block, of k] that calculation by simp
  ultimately show ?thesis by (auto simp: off_def interval_def)
qed

lemma table_excluded:
  fixes options :: Options
  assumes "stored_table le options bs fc bytes" "filter_contents le options bs fc"
    "\<forall>p. opt_filter_policy options = Some p \<longrightarrow> filter_policy (fp_CreateFilter p) (fp_KeyMayMatch p)" "j < length bs"
  shows "\<exists>m. (case map_option (FilterBlockReader_init le) fc of None \<Rightarrow> Some False
     | Some reader \<Rightarrow> do {
         (s, rest, handle) \<leftarrow> BlockHandle_DecodeFrom (handle_bytes (block_handle (opt_block_restart_interval options) bs j)) BlockHandle_init;
         if Status_ok s then do { p \<leftarrow> opt_filter_policy options; m \<leftarrow> FilterBlock_KeyMayMatch (fp_KeyMayMatch p) le reader (bh_offset handle) k; Some (\<not> m) }
         else Some False }) = Some m \<and> (m \<longrightarrow> k \<notin> fst ` set (bs ! j))"
proof (cases fc)
  case (Some c)
  then obtain q where q: "opt_filter_policy options = Some q" using assms(2) by (auto simp: filter_contents_def split: option.splits)
  show ?thesis
    using table_filter [OF assms(1) [unfolded Some] assms(2) [unfolded Some] q assms(3) [rule_format, OF q] assms(4), of k] Some q
    by (auto simp: handle_bytes_decode Status_ok_def Status_OK_def)
qed auto

context table_cache
begin

lemma table_get:
  fixes options :: Options and bs :: "entries list" and es :: entries and t :: Table and k :: slice and i :: nat
  assumes st: "stored_table le options bs fc bytes" and raf: "random_access_file (t_file t) bytes" and fc: "filter_contents le options bs fc"
    and t: "t_options t = options" "t_index_block t = Block_init le (index_bytes options bs)" "t_filter t = map_option (FilterBlockReader_init le) fc"
    and fits: "cache_fits may_hold le (t_cache_id t) (opt_block_restart_interval options) bs s"
    and policy: "\<forall>p. opt_filter_policy options = Some p \<longrightarrow> filter_policy (fp_CreateFilter p) (fp_KeyMayMatch p)"
  defines "es \<equiv> concat bs" and "i \<equiv> first_ge (cmp_Compare (opt_comparator options)) (concat bs) k"
  shows "\<exists>saved s'. InternalGet le cache t ro k s = Some (Status_OK, saved, s') \<and>
    cache_fits may_hold le (t_cache_id t) (opt_block_restart_interval options) bs s' \<and>
    (saved = None \<or> i < length es \<and> saved = Some (es ! i)) \<and> (\<forall>v. (k, v) \<in> set es \<longrightarrow> saved = Some (k, v))"
proof -
  define interval where "interval = opt_block_restart_interval options"
  define compare where "compare = cmp_Compare (opt_comparator options)"
  define ies where "ies = index_entries (opt_comparator options) interval bs"
  define vt where "vt = TableIterator_vt compare le"
  define content where "content = block_content interval bs"
  note order = stored_table_order [OF st, folded compare_def]
  note cls = table_iterator_class [OF order, of le, folded vt_def]
  note con = iterator_class.axioms(1) [OF cls]
  note index = stored_table_index [OF st, folded interval_def, folded ies_def compare_def content_def]
  have len: "length ies = length bs" by (simp add: ies_def index_entries_def)
  define j where "j = first_ge compare ies k"
  obtain it0 where it0: "Block_NewIterator le (t_index_block t) = Some it0" "table_iterator compare ies it0 (length ies)"
    using new_block_iterator [OF index(3,2), of le] t(2) by (auto simp: index_bytes_def ies_def interval_def)
  obtain it1 where it1: "vt_Seek vt k it0 = Some it1" "table_iterator compare ies it1 j"
    using iterator_contract.pos_seek [OF con it0(2) TrueI, of k] unfolding j_def by blast
  have valid: "vt_Valid vt it1 \<longleftrightarrow> j < length bs" and stat: "vt_status vt it1 = Some Status_OK"
    using iterator_contract.pos_valid [OF con it1(2)] iterator_class.pos_status [OF cls it1(2)] len by simp_all
  have cmp: "comparator compare (cmp_FindShortestSeparator (opt_comparator options)) (cmp_FindShortSuccessor (opt_comparator options))"
    using st by (simp add: stored_table_def compare_def)
  note hit = comparator.index_hit [OF cmp index(1,2), where target = k, folded j_def, folded es_def]
  show ?thesis
  proof (cases "j < length bs")
    case False
    then have "InternalGet le cache t ro k s = Some (Status_OK, None, s)"
      using it0(1) it1(1) valid stat by (simp add: InternalGet_def t(1) Status_ok_def Status_OK_def Let_def flip: compare_def vt_def)
    moreover have "(k, v) \<notin> set es" for v using hit [of v] False len by auto
    ultimately show ?thesis using fits by blast
  next
    case True
    define h where "h = block_handle interval bs j"
    define p where "p = first_ge compare (bs ! j) k"
    have snd: "snd (ies ! j) = handle_bytes h" using True by (simp add: ies_def index_entries_def h_def)
    then have val: "vt_value vt it1 = Some (handle_bytes h)" using iterator_contract.pos_value [OF con it1(2)] True len by simp
    have cont: "content (handle_bytes h) = bs ! j" using index(4) [OF True] by (simp add: h_def)
    have hit': "p < length (bs ! j) \<and> bs ! j ! p = (k, v)" if "(k, v) \<in> set es" for v
      using hit [OF that] cont snd by (simp add: p_def)
    obtain d s' where d: "BlockReader le cache t ro s (handle_bytes h) = Some (d, s')" "cache_fits may_hold le (t_cache_id t) interval bs s'"
        "table_iterator compare (bs ! j) d (length (bs ! j))"
      using block_reader [OF st raf True fits] unfolding h_def interval_def compare_def by blast
    obtain d' where d': "vt_Seek vt k d = Some d'" "table_iterator compare (bs ! j) d' p"
      using iterator_contract.pos_seek [OF con d(3) TrueI, of k] unfolding p_def by blast
    have entry: "entry_iter vt d' = Some (if p < length (bs ! j) then Some (bs ! j ! p) else None)" "vt_status vt d' = Some Status_OK"
      using iterator_class.entry_pos [OF cls d'(2)] iterator_class.pos_status [OF cls d'(2)] by simp_all
    obtain m where m: "(case t_filter t of None \<Rightarrow> Some False
         | Some reader \<Rightarrow> do {
             (s, rest, handle) \<leftarrow> BlockHandle_DecodeFrom (handle_bytes h) BlockHandle_init;
             if Status_ok s then do { p \<leftarrow> opt_filter_policy options; m \<leftarrow> FilterBlock_KeyMayMatch (fp_KeyMayMatch p) le reader (bh_offset handle) k; Some (\<not> m) }
             else Some False }) = Some m" "m \<Longrightarrow> k \<notin> fst ` set (bs ! j)"
      using table_excluded [OF st fc policy True, of k] unfolding t(3) h_def interval_def by blast
    define saved where "saved = (if m then None else if p < length (bs ! j) then Some (bs ! j ! p) else None)"
    define s'' where "s'' = (if m then s else s')"
    have "InternalGet le cache t ro k s = Some (Status_OK, saved, s'')"
      unfolding InternalGet_def Let_def t(1) compare_def [symmetric] vt_def [symmetric]
      using it0(1) it1(1) valid stat True val m(1) d(1) d'(1) entry
      by (simp add: saved_def s''_def Status_ok_def Status_OK_def)
    moreover have "i = block_start content ies j + p \<and> es = concat (map (content \<circ> snd) ies)" if "p < length (bs ! j)"
    proof -
      note tl = table_two_level [OF stored_table_order [OF st], of le t ro bs fc bytes, folded compare_def interval_def, folded content_def]
      have "index_of compare (table_readable le options bs fc bytes t) content ies es"
        using index(1) st raf unfolding index_of_def table_readable_def interval_def es_def by blast
      from two_level.seek_goal [OF tl this index(2), of k] True len cont snd show ?thesis
        using index(1) by (simp add: i_def es_def j_def p_def index_of_def flip: compare_def j_def)
    qed
    moreover have "es ! (block_start content ies j + p) = bs ! j ! p \<and> block_start content ies j + p < length es" if "p < length (bs ! j)"
    proof -
      have "j < length ies" "p < length (content (snd (ies ! j)))" using that True len cont snd by simp_all
      from concat_at [of j ies p content, OF this] cont snd index(1) show ?thesis unfolding index_of_def es_def by simp
    qed
    moreover have "saved = Some (k, v)" if "(k, v) \<in> set es" for v
    proof -
      have "(k, v) \<in> set (bs ! j)" using hit' [OF that] nth_mem by metis
      then have "\<not> m" using m(2) by force
      then show ?thesis using hit' [OF that] by (simp add: saved_def)
    qed
    ultimately show ?thesis using fits d(2) unfolding saved_def s''_def interval_def by auto
  qed
qed

end

subsection \<open>Writing and reading\<close>

text \<open>The comparator that a database uses by default, and the two-level iterator of tables that are sorted by it.\<close>

definition BytewiseComparator :: Comparator where
  "BytewiseComparator =
     \<lparr>cmp_id = 0, cmp_Compare = Slice_compare, cmp_FindShortestSeparator = BytewiseComparator_FindShortestSeparator,
      cmp_FindShortSuccessor = BytewiseComparator_FindShortSuccessor\<rparr>"

lemma bytewise_comparator:
  "comparator (cmp_Compare BytewiseComparator) (cmp_FindShortestSeparator BytewiseComparator) (cmp_FindShortSuccessor BytewiseComparator)"
  using bytewise.comparator_axioms by (simp add: BytewiseComparator_def)

interpretation bytewise_two_level: two_level Slice_compare "TableIterator_vt Slice_compare le" "table_iterator Slice_compare"
  "TableIterator_vt Slice_compare le" "table_iterator Slice_compare" "BlockReader le None t ro"
  "cache_fits (\<lambda>_ _ _. False) le (t_cache_id t) (opt_block_restart_interval options) bs"
  "table_readable le (options\<lparr>opt_comparator := BytewiseComparator\<rparr>) bs fc bytes t" "block_content (opt_block_restart_interval options) bs"
  for le t ro options bs fc bytes
  using no_cache.table_two_level [of "options\<lparr>opt_comparator := BytewiseComparator\<rparr>" le t ro bs fc bytes] bytewise.key_order_axioms
  by (simp add: BytewiseComparator_def)

text \<open>A client that writes a whole table to a file.\<close>

abbreviation posix_file_vt :: "PosixWritableFile WritableFile_vt" where
  "posix_file_vt \<equiv> \<lparr>wf_Append = PosixWritableFile_Append, wf_Flush = PosixWritableFile_Flush\<rparr>"

definition write_table :: "'f WritableFile_vt \<Rightarrow> bool \<Rightarrow> Options \<Rightarrow> entries \<Rightarrow> 'f \<Rightarrow> (Status \<times> 'f TableBuilder) option" where
  "write_table fv le options es f =
     do { r \<leftarrow> TableBuilder_init options f; r \<leftarrow> TableBuilder_AddAll fv le es r; TableBuilder_Finish fv le r }"

text \<open>A file that is read at its offsets, as the posix environment opens it.\<close>

abbreviation posix_read :: "slice \<Rightarrow> byte list \<Rightarrow> RandomAccessFile" where
  "posix_read name data \<equiv> PosixRandomAccessFile_Read \<lparr>ra_filename = name, ra_data = data, ra_error = None\<rparr>"

lemma written_table:
  assumes "comparator (cmp_Compare (opt_comparator options)) (cmp_FindShortestSeparator (opt_comparator options)) (cmp_FindShortSuccessor (opt_comparator options))"
    and "ascending (cmp_Compare (opt_comparator options)) es" "posix_contents f = []"
    and "write_table posix_file_vt le options es f = Some (s, r)" "Status_ok s" "length (posix_contents (tb_file r)) < 2 ^ 31"
  obtains fc where "stored_table le options (table_blocks options es) fc (posix_contents (tb_file r))" "filter_contents le options (table_blocks options es) fc"
    "TableBuilder_FileSize r = word_of_nat (length (posix_contents (tb_file r)))"
proof -
  obtain r0 r1 where w: "TableBuilder_init options f = Some r0" "TableBuilder_AddAll posix_file_vt le es r0 = Some r1" "TableBuilder_Finish posix_file_vt le r1 = Some (s, r)"
    using assms(4) by (auto simp: write_table_def bind_eq_Some_conv)
  obtain fc where fc: "filter_contents le options (table_blocks options es) fc" "table_bytes le options (table_blocks options es) fc = Some (posix_contents (tb_file r))"
      "TableBuilder_FileSize r = word_of_nat (length (posix_contents (tb_file r)))"
    using posix_table.build_table [OF w(1) assms(3) w(2,3) assms(5)] by blast
  have "stored_table le options (table_blocks options es) fc (posix_contents (tb_file r))"
    using fc(2) assms(1,2,6) posix_table.init_state(2) [OF w(1) assms(3)] table_blocks_concat by (auto simp: stored_table_def)
  then show thesis using that fc(1,3) by blast
qed

end
