(* ===== verification/LDB_Table_Correct.thy ===== *)
theory LDB_Table_Correct
  imports LDB_Table_Reader
begin

text \<open>
  The correctness of tables as a whole: the writer succeeds on sorted entries as long as the file has room, and what it
  writes is read back, by iterators and by point lookups.
\<close>

subsection \<open>Filters are always built\<close>

text \<open>The filter policy of the options, if there is one, makes a filter for any list of up to \<open>m\<close> keys.\<close>

definition policy_upto :: "nat \<Rightarrow> (slice list \<Rightarrow> byte list \<Rightarrow> byte list option) \<Rightarrow> bool" where
  "policy_upto m create \<longleftrightarrow> (\<forall>keys dst. length keys \<le> m \<longrightarrow> (\<exists>d. create keys dst = Some d))"

definition total_policy :: "nat \<Rightarrow> Options \<Rightarrow> bool" where
  "total_policy m options \<longleftrightarrow> (\<forall>p. opt_filter_policy options = Some p \<longrightarrow> policy_upto m (fp_CreateFilter p))"

text \<open>The Bloom filter does, as long as the number of its bits does not reach the range of \<^verbatim>\<open>size_t\<close>.\<close>

lemma bloom_upto:
  assumes "0 \<le> n" "m * nat n < 2 ^ 63"
  shows "policy_upto m (NewBloomFilterPolicy le n)"
  unfolding policy_upto_def
proof (intro allI impI)
  fix keys dst assume k: "length (keys :: slice list) \<le> m"
  obtain p where p: "BloomFilterPolicy_init n = Some p" "bits_per_key p = word_of_int n"
    using assms(1) by (simp add: BloomFilterPolicy_init_def Let_def)
  show "\<exists>d. NewBloomFilterPolicy le n keys dst = Some d"
  proof (cases "keys = []")
    case True
    then show ?thesis using p(1) by (simp add: NewBloomFilterPolicy_def Bloom_CreateFilter_def Let_def)
  next
    case False
    define w where "w = (word_of_nat (length keys) * bits_per_key p :: 64 word)"
    have "length keys * nat n \<le> m * nat n" using k by (rule mult_le_mono1)
    then have small: "length keys * nat n < 2 ^ 63" using assms(2) by linarith
    have "(word_of_int n :: 64 word) = word_of_nat (nat n)" using assms(1) by simp
    then have "w = word_of_nat (length keys * nat n)" by (simp only: w_def p(2) of_nat_mult)
    then have w: "unat w < 2 ^ 63" using small by (simp add: unat_of_nat del: of_nat_mult)
    define bits where "bits = (if w < 64 then 64 else w)"
    have b: "64 \<le> unat bits" "unat bits < 2 ^ 63" using w by (auto simp: bits_def word_less_nat_alt)
    have "unat (bits + 7) = unat bits + 7" using b(2) by (simp add: unat_word_ariths)
    then have "0 < unat ((bits + 7) div 8)" using b(1) by (simp add: unat_div)
    moreover have "NewBloomFilterPolicy le n keys dst = Bloom_CreateFilter le p keys dst" by (simp add: NewBloomFilterPolicy_def p(1))
    ultimately show ?thesis unfolding Bloom_CreateFilter_def Let_def w_def [symmetric] bits_def [symmetric] by simp
  qed
qed

text \<open>The object that \<^verbatim>\<open>NewBloomFilterPolicy\<close> returns.\<close>

definition BuiltinBloomFilter :: "bool \<Rightarrow> int \<Rightarrow> FilterPolicy" where
  "BuiltinBloomFilter le n =
     \<lparr>fp_Name = str ''leveldb.BuiltinBloomFilter2'', fp_CreateFilter = NewBloomFilterPolicy le n,
      fp_KeyMayMatch = Bloom_KeyMayMatch le\<rparr>"

lemma generate_total: "policy_upto m create \<Longrightarrow> length (fb_start b) \<le> m \<Longrightarrow> \<exists>b'. GenerateFilter create b = Some b'"
  by (auto simp: GenerateFilter_def Let_def bind_eq_Some_conv policy_upto_def)

lemma generate_start: "GenerateFilter create b = Some b' \<Longrightarrow> length (fb_start b') \<le> length (fb_start b)"
  by (auto simp: GenerateFilter_def Let_def bind_eq_Some_conv split: if_splits)

lemma loop_start: "StartBlock_loop create i b = Some b' \<Longrightarrow> length (fb_start b') \<le> length (fb_start b)"
proof (induction "i - length (fb_filter_offsets b)" arbitrary: b)
  case 0
  then show ?case by (simp add: StartBlock_loop.simps [of create i b])
next
  case (Suc n)
  then obtain b1 where b1: "GenerateFilter create b = Some b1" "StartBlock_loop create i b1 = Some b'"
    by (auto simp: StartBlock_loop.simps [of create i b] bind_eq_Some_conv split: if_splits)
  have "length (fb_start b') \<le> length (fb_start b1)" by (rule Suc.hyps(1) [OF _ b1(2)]) (use Suc.hyps(2) GenerateFilter_offsets [OF b1(1)] in simp)
  then show ?case using generate_start [OF b1(1)] by simp
qed

lemma add_keys_start: "length (fb_start (foldl (\<lambda>b k. AddKey k b) b ks)) = length (fb_start b) + length ks"
  by (induction ks arbitrary: b) (simp_all add: AddKey_def)

lemma build_start:
  "build_filters create blocks b = Some b' \<Longrightarrow> length (fb_start b') \<le> length (fb_start b) + length (concat (map snd blocks))"
proof (induction blocks arbitrary: b)
  case (Cons block blocks)
  then obtain b1 where b1: "StartBlock create (fst block) b = Some b1"
      "build_filters create blocks (foldl (\<lambda>b k. AddKey k b) b1 (snd block)) = Some b'"
    by (auto simp: bind_eq_Some_conv)
  have "length (fb_start b1) \<le> length (fb_start b)" using b1(1) loop_start by (auto simp: StartBlock_def Let_def split: if_splits)
  then show ?case using Cons.IH [OF b1(2)] by (simp add: add_keys_start)
qed simp

lemma filter_blocks_keys: "concat (map snd (filter_blocks interval bs cur)) = map fst (concat bs @ cur)"
proof -
  have "map snd (filter_blocks interval bs cur) = map (map fst) (map ((!) (bs @ [cur])) [0..<length (bs @ [cur])])"
    by (simp add: filter_blocks_def)
  also have "\<dots> = map (map fst) (bs @ [cur])" by (simp only: map_nth)
  finally show ?thesis by (simp add: map_concat)
qed

lemma filter_pending:
  assumes "build_filters create (filter_blocks interval bs cur) FilterBlockBuilder_init = Some b" and "length (concat bs @ cur) \<le> m"
  shows "length (fb_start b) \<le> m"
  using build_start [OF assms(1), unfolded filter_blocks_keys] assms(2) by (simp add: FilterBlockBuilder_init_def)

lemma loop_offsets:
  "StartBlock_loop create i b = Some b' \<Longrightarrow> length (fb_filter_offsets b') = max i (length (fb_filter_offsets b))"
proof (induction "i - length (fb_filter_offsets b)" arbitrary: b)
  case 0
  then show ?case by (simp add: StartBlock_loop.simps [of create i b])
next
  case (Suc n)
  then obtain b1 where "GenerateFilter create b = Some b1" "StartBlock_loop create i b1 = Some b'"
    by (auto simp: StartBlock_loop.simps [of create i b] bind_eq_Some_conv split: if_splits)
  then show ?case using Suc.hyps(1) [of b1] Suc.hyps(2) GenerateFilter_offsets [of create b b1] by simp
qed

lemma loop_total: "policy_upto m create \<Longrightarrow> length (fb_start b) \<le> m \<Longrightarrow> \<exists>b'. StartBlock_loop create i b = Some b'"
proof (induction "i - length (fb_filter_offsets b)" arbitrary: b)
  case 0
  then show ?case by (simp add: StartBlock_loop.simps [of create i b])
next
  case (Suc n)
  obtain b1 where b1: "GenerateFilter create b = Some b1" using generate_total [OF Suc.prems] by blast
  have "\<exists>b'. StartBlock_loop create i b1 = Some b'"
    by (rule Suc.hyps(1)) (use Suc.hyps(2) Suc.prems GenerateFilter_offsets [OF b1] generate_start [OF b1] in simp_all)
  then show ?case using b1 by (simp add: StartBlock_loop.simps [of create i b])
qed

lemma filter_index: "n < 2 ^ 63 \<Longrightarrow> unat (word_of_nat n div kFilterBase) = n div 2048"
proof -
  assume "n < 2 ^ 63"
  then have "unat (word_of_nat n :: 64 word) = n" by (simp add: unat_of_nat)
  moreover have "unat kFilterBase = 2048" by (simp add: kFilterBase_def)
  ultimately show ?thesis by (simp add: unat_div)
qed

lemma add_keys_offsets: "fb_filter_offsets (foldl (\<lambda>b k. AddKey k b) b ks) = fb_filter_offsets b"
  by (induction ks arbitrary: b) (simp_all add: AddKey_def)

lemma built_offsets:
  assumes "build_filters create (xs @ [(off, ks)]) b0 = Some b"
  shows "length (fb_filter_offsets b) = unat (off div kFilterBase)"
proof -
  obtain b1 b2 where "StartBlock create off b1 = Some b2" "b = foldl (\<lambda>b k. AddKey k b) b2 ks"
    using assms by (auto simp: build_filters_append bind_eq_Some_conv)
  then show ?thesis using loop_offsets by (fastforce simp: StartBlock_def Let_def add_keys_offsets split: if_splits)
qed

lemma start_filter_total:
  assumes "filter_state options interval bs cur (tb_filter_block r)" "total_policy m options" "length (concat bs @ cur) \<le> m"
    "tb_offset r = word_of_nat n" "length (blocks_bytes interval bs) \<le> n" "n < 2 ^ 63"
  shows "\<exists>r'. on_filter (\<lambda>r p b. StartBlock (fp_CreateFilter p) (tb_offset r) b) r = Some r' \<and> tb_ok r' = tb_ok r \<and> tb_file r' = tb_file r"
proof (cases "opt_filter_policy options")
  case None
  then show ?thesis using assms(1) by (simp add: filter_state_def on_filter_def)
next
  case (Some p)
  then obtain b where b: "tb_filter_block r = Some (p, b)" "build_filters (fp_CreateFilter p) (filter_blocks interval bs cur) FilterBlockBuilder_init = Some b"
    using assms(1) by (auto simp: filter_state_def)
  have "length (fb_filter_offsets b) = length (blocks_bytes interval bs) div 2048"
    using built_offsets [OF b(2) [unfolded filter_blocks_last]] filter_index [of "length (blocks_bytes interval bs)"] assms(5,6) by (simp add: block_offset_last)
  then have "length (fb_filter_offsets b) \<le> unat (tb_offset r div kFilterBase)"
    using filter_index [OF assms(6)] assms(4,5) by (simp add: div_le_mono)
  moreover have "policy_upto m (fp_CreateFilter p)" using assms(2) Some by (simp add: total_policy_def)
  ultimately obtain b' where "StartBlock (fp_CreateFilter p) (tb_offset r) b = Some b'"
    using loop_total [of m "fp_CreateFilter p" b "unat (tb_offset r div kFilterBase)"] filter_pending [OF b(2) assms(3)] by (auto simp: StartBlock_def Let_def)
  then show ?thesis using b(1) by (simp add: on_filter_def tb_ok_def)
qed

text \<open>The filter block that the writer makes.\<close>

definition filter_of :: "bool \<Rightarrow> Options \<Rightarrow> entries list \<Rightarrow> byte list option" where
  "filter_of le options bs =
     do { p \<leftarrow> opt_filter_policy options;
          b \<leftarrow> build_filters (fp_CreateFilter p) (filter_blocks (opt_block_restart_interval options) bs []) FilterBlockBuilder_init;
          FilterBlock_Finish (fp_CreateFilter p) le b }"

lemma finish_filter_total: "policy_upto m create \<Longrightarrow> length (fb_start b) \<le> m \<Longrightarrow> \<exists>c. FilterBlock_Finish create le b = Some c"
  using generate_total [of m create b] by (auto simp: FilterBlock_Finish_def Let_def)

subsection \<open>The index stays sorted\<close>

lemma blk_bytes_le: "k < length bs \<Longrightarrow> length (blk_bytes interval (bs ! k)) \<le> length (blocks_bytes interval bs)"
  using blocks_bytes_at [of k bs interval] by simp

lemma index_so_far_entries:
  "index_entries c interval (bs @ [cur]) = index_so_far c interval bs cur @ [(index_key c (bs @ [cur]) (length bs), handle_bytes (block_handle interval (bs @ [cur]) (length bs)))]"
  if "cur \<noteq> []"
  using that by (auto simp: index_entries_def index_so_far_def index_key_def nth_append block_handle_snoc)

lemma index_so_far_ascending:
  assumes "comparator (cmp_Compare c) (cmp_FindShortestSeparator c) (cmp_FindShortSuccessor c)"
    "ascending (cmp_Compare c) (concat bs @ cur)" "\<forall>b \<in> set bs. b \<noteq> []" "cur \<noteq> []"
  shows "ascending (cmp_Compare c) (index_so_far c interval bs cur)"
proof -
  obtain i x y z where c: "c = \<lparr>cmp_id = i, cmp_Compare = x, cmp_FindShortestSeparator = y, cmp_FindShortSuccessor = z\<rparr>" by (cases c)
  have "ascending x (index_entries c interval (bs @ [cur]))"
    by (rule comparator.index_entries_ascending [of x y z c i]) (use assms c in auto)
  then show ?thesis by (simp add: index_so_far_entries [OF assms(4)] ascending_def sorted_wrt_append c)
qed

lemma index_entries_sorted:
  assumes "comparator (cmp_Compare c) (cmp_FindShortestSeparator c) (cmp_FindShortSuccessor c)"
    "ascending (cmp_Compare c) (concat bs)" "\<forall>b \<in> set bs. b \<noteq> []"
  shows "ascending (cmp_Compare c) (index_entries c interval bs)"
proof -
  obtain i x y z where c: "c = \<lparr>cmp_id = i, cmp_Compare = x, cmp_FindShortestSeparator = y, cmp_FindShortSuccessor = z\<rparr>" by (cases c)
  show ?thesis using comparator.index_entries_ascending [of x y z c i] assms c by auto
qed

lemma split_extends: "\<exists>zs. fst (foldl (split_step options) s es) = fst s @ zs"
proof (induction es arbitrary: s)
  case (Cons e es)
  obtain zs where "fst (foldl (split_step options) (split_step options s e) es) = fst (split_step options s e) @ zs" using Cons.IH by blast
  moreover have "\<exists>zs. fst (split_step options s e) = fst s @ zs" by (cases s) (simp add: split_step_def Let_def)
  ultimately show ?case by auto
qed simp

lemma word_not_max: "m < 2 ^ 63 \<Longrightarrow> word_of_nat m \<noteq> (- 1 :: 64 word)"
proof
  assume m: "m < 2 ^ 63" and eq: "word_of_nat m = (- 1 :: 64 word)"
  have "m = unat (- 1 :: 64 word)" using arg_cong [OF eq, of unat] m by (simp add: unat_of_nat)
  then show False using m by (simp add: unsigned_minus_1_eq_mask mask_eq_exp_minus_1)
qed

subsection \<open>A file with room\<close>

text \<open>A file that may grow up to \<open>n\<close> bytes.\<close>

definition file_fits :: "('f \<Rightarrow> byte list) \<Rightarrow> (nat \<Rightarrow> 'f \<Rightarrow> bool) \<Rightarrow> nat \<Rightarrow> 'f \<Rightarrow> bool" where
  "file_fits contents has_room n f \<longleftrightarrow> length (contents f) \<le> n \<and> has_room (n - length (contents f)) f"

text \<open>The size of a table.\<close>

definition table_size :: "bool \<Rightarrow> Options \<Rightarrow> entries list \<Rightarrow> nat" where
  "table_size le options bs =
     length (table_body options bs (filter_of le options bs)) + length (stored_block (meta_bytes options bs (filter_of le options bs))) +
     length (stored_block (index_bytes options bs)) + Footer_kEncodedLength"

lemma filter_of_contents: "filter_contents le options bs fc \<Longrightarrow> fc = filter_of le options bs"
  by (auto simp: filter_contents_def filter_of_def split: option.splits)

lemma init_total:
  assumes "1 \<le> opt_block_restart_interval options" "total_policy m options"
  shows "\<exists>r. TableBuilder_init options f = Some r \<and> tb_file r = f"
proof (cases "opt_filter_policy options")
  case None
  then show ?thesis using building_init [OF assms(1)] by (simp add: TableBuilder_init_def on_filter_def Let_def)
next
  case (Some p)
  obtain b where "StartBlock (fp_CreateFilter p) 0 FilterBlockBuilder_init = Some b"
    using loop_total [of m "fp_CreateFilter p" FilterBlockBuilder_init 0] assms(2) Some
    by (auto simp: total_policy_def StartBlock_def FilterBlockBuilder_init_def)
  then show ?thesis using building_init [OF assms(1)] Some by (simp add: TableBuilder_init_def on_filter_def Let_def)
qed

locale table_room = table_file fv contents + bounded_file "wf_Append fv" "wf_Flush fv" contents has_room
  for fv :: "'f WritableFile_vt" and contents :: "'f \<Rightarrow> byte list" and has_room :: "nat \<Rightarrow> 'f \<Rightarrow> bool"
begin

abbreviation "fits \<equiv> file_fits contents has_room"

lemma append_fits:
  assumes "fits n f" "length (contents f) + length d \<le> n"
  shows "\<exists>f'. wf_Append fv d f = Some (Status_OK, f') \<and> fits n f' \<and> contents f' = contents f @ d"
proof -
  have "has_room (length d + (n - length (contents f) - length d)) f" using assms by (simp add: file_fits_def)
  then obtain f' where f': "wf_Append fv d f = Some (Status_OK, f')" "has_room (n - length (contents f) - length d) f'" using append_room by blast
  then have "contents f' = contents f @ d" using append_ok [OF f'(1)] by (simp add: Status_ok_def Status_OK_def)
  then show ?thesis using f' assms(2) by (simp add: file_fits_def)
qed

lemma flush_fits: "fits n f \<Longrightarrow> \<exists>f'. wf_Flush fv f = Some (Status_OK, f') \<and> fits n f'"
  using flush_room [of "n - length (contents f)" f] flush_keeps by (auto simp: file_fits_def)

lemma raw_fits:
  assumes "fits n (tb_file r)" "length (contents (tb_file r)) + length (stored_block c) \<le> n"
  shows "\<exists>h r'. WriteRawBlock fv le c kNoCompression r = Some (h, r') \<and> tb_ok r' \<and> fits n (tb_file r')"
proof -
  obtain f where f: "wf_Append fv c (tb_file r) = Some (Status_OK, f)" "fits n f" "contents f = contents (tb_file r) @ c"
    using append_fits [OF assms(1), of c] assms(2) by auto
  define trailer where "trailer = (0 :: byte) # EncodeFixed32 le (Mask (Extend le 0 (Value le 0 c) [0]))"
  obtain f' where f': "wf_Append fv trailer f = Some (Status_OK, f')" "fits n f'"
    using append_fits [OF f(2), of trailer] f(3) assms(2) by (auto simp: trailer_def kBlockTrailerSize_def)
  show ?thesis using f(1) f' by (simp add: WriteRawBlock_def Let_def Status_ok_def Status_OK_def tb_ok_def trailer_def)
qed

lemma block_fits:
  assumes "fits n (tb_file r)" "tb_ok r" "length (contents (tb_file r)) + length (stored_block (fst (BlockBuilder_Finish le b))) \<le> n"
  shows "\<exists>b' h r'. WriteBlock fv le b r = Some (b', h, r') \<and> tb_ok r' \<and> fits n (tb_file r')"
proof -
  obtain raw b1 where f: "BlockBuilder_Finish le b = (raw, b1)" by fastforce
  then obtain h r' where "WriteRawBlock fv le raw kNoCompression r = Some (h, r')" "tb_ok r'" "fits n (tb_file r')"
    using raw_fits [OF assms(1), of raw le] assms(3) by auto
  then show ?thesis using f assms(2) by (cases "opt_compression (tb_options r)") (auto simp: WriteBlock_def Snappy_Compress_def)
qed

lemma index_entry_total:
  assumes "tb_index_block_options r = options\<lparr>opt_block_restart_interval := 1\<rparr>" "tb_index_block r = building 1 ies"
    "ascending (cmp_Compare (opt_comparator options)) (ies @ [(k, handle_bytes (tb_pending_handle r))])" "key_order (cmp_Compare (opt_comparator options))"
    "tb_pending_handle r = handle_at a n" "a < 2 ^ 63" "n < 2 ^ 63"
  shows "\<exists>r'. add_index_entry k r = Some r'"
proof -
  have "BlockHandle_EncodeTo (tb_pending_handle r) [] = Some (handle_bytes (tb_pending_handle r))"
    using word_not_max [OF assms(6)] word_not_max [OF assms(7)] by (simp add: BlockHandle_EncodeTo_def assms(5) handle_at_def PutVarint64_def handle_bytes_def)
  moreover have "ies = [] \<or> cmp_Compare (opt_comparator options) k (fst (last ies)) > 0"
  proof (cases "ies = []")
    case False
    then have "cmp_Compare (opt_comparator options) (fst (last ies)) k < 0" using assms(3) by (auto simp: ascending_def sorted_wrt_append)
    then show ?thesis using key_order.sym [OF assms(4)] by simp
  qed simp
  ultimately show ?thesis
    using building_add [of 1 ies "cmp_Compare (opt_comparator options)" k "handle_bytes (tb_pending_handle r)"] assms(1,2) by (simp add: add_index_entry_def)
qed

lemma flush_fits_block:
  assumes "table_state contents options bs cur r" "cur \<noteq> []" "fits n (tb_file r)" "n < 2 ^ 63" "total_policy m options"
    "length (blocks_bytes (opt_block_restart_interval options) (bs @ [cur])) \<le> n" "length (concat bs @ cur) \<le> m"
  shows "\<exists>r'. TableBuilder_Flush fv le r = Some r' \<and> tb_ok r' \<and> fits n (tb_file r')"
proof -
  define interval where "interval = opt_block_restart_interval options"
  note st = assms(1) [unfolded table_state_def Let_def, folded interval_def]
  have fin: "fst (BlockBuilder_Finish le (tb_data_block r)) = blk_bytes interval cur" using building_finish [of le interval cur] st by simp
  have len: "length (contents (tb_file r)) + length (stored_block (blk_bytes interval cur)) \<le> n" "contents (tb_file r) = blocks_bytes interval bs"
    using assms(6) st by (simp_all add: blocks_bytes_snoc interval_def)
  obtain b' h r1 where w: "WriteBlock fv le (tb_data_block r) r = Some (b', h, r1)" "tb_ok r1" "fits n (tb_file r1)"
    using block_fits [OF assms(3), of le "tb_data_block r"] len(1) st fin by auto
  have wb: "written_block contents (blk_bytes interval cur) r h r1" using write_block [OF w(1,2)] fin by simp
  note keeps = written_block_keeps [OF wb]
  obtain f where f: "wf_Flush fv (tb_file r1) = Some (Status_OK, f)" "fits n f" using flush_fits [OF w(3)] by blast
  define r2 where "r2 = r1\<lparr>tb_data_block := b', tb_pending_handle := h, tb_pending_index_entry := True, tb_status := Status_OK, tb_file := f\<rparr>"
  have "\<exists>r'. on_filter (\<lambda>r p b. StartBlock (fp_CreateFilter p) (tb_offset r) b) r2 = Some r' \<and> tb_ok r' = tb_ok r2 \<and> tb_file r' = tb_file r2"
  proof (rule start_filter_total [OF _ assms(5,7)])
    show "filter_state options interval bs cur (tb_filter_block r2)" using st keeps(2) by (simp add: r2_def)
    show "tb_offset r2 = word_of_nat (length (blocks_bytes interval (bs @ [cur])))" using st keeps(5) by (simp add: r2_def blocks_bytes_snoc)
    show "length (blocks_bytes interval bs) \<le> length (blocks_bytes interval (bs @ [cur]))" by (simp add: blocks_bytes_snoc)
    show "length (blocks_bytes interval (bs @ [cur])) < 2 ^ 63" using assms(4,6) by (simp add: interval_def)
  qed
  then obtain r' where r': "on_filter (\<lambda>r p b. StartBlock (fp_CreateFilter p) (tb_offset r) b) r2 = Some r'" "tb_ok r'" "fits n (tb_file r')"
    using f(2) by (auto simp: r2_def tb_ok_def Status_ok_def Status_OK_def)
  have "\<not> BlockBuilder_empty (tb_data_block r)" using st assms(2) building_empty by simp
  then have "TableBuilder_Flush fv le r = Some r'"
    using st assms(2) w(1,2) f(1) r'(1) by (simp add: TableBuilder_Flush_def r2_def tb_ok_def Let_def)
  then show ?thesis using r' by blast
qed

lemma index_total:
  assumes "table_state contents options bs [] r" "bs \<noteq> []" "fits n (tb_file r)" "n < 2 ^ 63"
    "comparator (cmp_Compare (opt_comparator options)) (cmp_FindShortestSeparator (opt_comparator options)) (cmp_FindShortSuccessor (opt_comparator options))"
    "ascending (cmp_Compare (opt_comparator options)) (index_so_far (opt_comparator options) (opt_block_restart_interval options) bs [] @
       [(k, handle_bytes (block_handle (opt_block_restart_interval options) bs (length bs - 1)))])"
  shows "\<exists>r1. add_index_entry k r = Some r1"
proof (rule index_entry_total)
  note st = assms(1) [unfolded table_state_def Let_def]
  let ?interval = "opt_block_restart_interval options"
  have small: "length (blocks_bytes ?interval bs) < 2 ^ 63" using assms(3,4) st by (simp add: file_fits_def)
  show "tb_index_block_options r = options\<lparr>opt_block_restart_interval := 1\<rparr>" "tb_index_block r = building 1 (index_so_far (opt_comparator options) ?interval bs [])"
    using st by simp_all
  show h: "tb_pending_handle r = handle_at (block_offset ?interval bs (length bs - 1)) (length (blk_bytes ?interval (bs ! (length bs - 1))))"
    using st assms(2) by (simp add: block_handle_def)
  show "ascending (cmp_Compare (opt_comparator options)) (index_so_far (opt_comparator options) ?interval bs [] @ [(k, handle_bytes (tb_pending_handle r))])"
    using assms(6) unfolding h by (simp add: block_handle_def)
  show "key_order (cmp_Compare (opt_comparator options))" using assms(5) by (simp add: comparator_def)
  show "block_offset ?interval bs (length bs - 1) < 2 ^ 63" using small block_offset_le [of "length bs - 1" bs ?interval] by simp
  show "length (blk_bytes ?interval (bs ! (length bs - 1))) < 2 ^ 63" using small blk_bytes_le [of "length bs - 1" bs ?interval] assms(2) by simp
qed

lemma add_total:
  assumes "table_state contents options bs cur r" "fits n (tb_file r)" "n < 2 ^ 63" "total_policy m options" "1 \<le> opt_block_restart_interval options"
    "comparator (cmp_Compare (opt_comparator options)) (cmp_FindShortestSeparator (opt_comparator options)) (cmp_FindShortSuccessor (opt_comparator options))"
    "ascending (cmp_Compare (opt_comparator options)) (concat bs @ cur @ [e])"
    "length (blocks_bytes (opt_block_restart_interval options) (fst (split_step options (bs, cur) e))) \<le> n"
    "length (concat bs @ cur @ [e]) \<le> m"
  shows "\<exists>r'. TableBuilder_Add fv le (fst e) (snd e) r = Some r' \<and> tb_ok r' \<and> fits n (tb_file r')"
proof -
  define interval where "interval = opt_block_restart_interval options"
  define compare where "compare = cmp_Compare (opt_comparator options)"
  define k where "k = cmp_FindShortestSeparator (opt_comparator options) (tb_last_key r) (fst e)"
  note st = assms(1) [unfolded table_state_def Let_def, folded interval_def]
  have order: "key_order compare" using assms(6) by (simp add: comparator_def compare_def)
  have last: "compare (fst e) (fst (last es)) > 0" if "es \<noteq> []" "ascending compare (xs @ es @ [e])" for xs es
    using that key_order.sym [OF order] by (auto simp: ascending_def sorted_wrt_append)
  have guard: "\<not> (sint (tb_num_entries r) > 0 \<and> \<not> compare (fst e) (tb_last_key r) > 0)"
  proof (cases "concat bs @ cur = []")
    case True
    then have "tb_num_entries r = 0" using st by blast
    then show ?thesis by simp
  next
    case False
    then have "tb_last_key r = fst (last (concat bs @ cur))" using st by blast
    then show ?thesis using last [OF False, of "[]"] assms(7) by (simp add: compare_def)
  qed
  have "\<exists>r1. (if tb_pending_index_entry r then add_index_entry k r else Some r) = Some r1"
  proof (cases "tb_pending_index_entry r")
    case True
    then have cur: "cur = []" and bs: "bs \<noteq> []" and h: "tb_pending_handle r = block_handle interval bs (length bs - 1)" using st by auto
    have k: "k = cmp_FindShortestSeparator (opt_comparator options) (fst (last (last bs))) (fst e)"
    proof -
      have "\<forall>b \<in> set bs. b \<noteq> []" using st by blast
      from last_concat_blocks [OF this bs] have "concat bs @ cur \<noteq> []" "last (concat bs @ cur) = last (last bs)" using cur by simp_all
      moreover from this(1) have "tb_last_key r = fst (last (concat bs @ cur))" using st by blast
      ultimately show ?thesis by (simp only: k_def)
    qed
    have "ascending compare (index_so_far (opt_comparator options) interval bs [e])"
      unfolding compare_def by (rule index_so_far_ascending [OF assms(6)]) (use assms(7) st cur in auto)
    then have "\<exists>r1. add_index_entry k r = Some r1"
      using index_total [OF assms(1) [unfolded cur] bs assms(2,3,6), of k] index_so_far_add [OF bs, of "opt_comparator options" interval e]
      by (simp add: k compare_def interval_def)
    then show ?thesis using True by simp
  qed simp
  then obtain r1 where a: "(if tb_pending_index_entry r then add_index_entry k r else Some r) = Some r1" by blast
  obtain r2 where b: "on_filter (\<lambda>r p b. Some (AddKey (fst e) b)) r1 = Some r2" by (cases "tb_filter_block r1") (auto simp: on_filter_def)
  obtain lk f where r2: "r2 = r\<lparr>tb_last_key := lk, tb_index_block := building 1 (index_so_far (opt_comparator options) interval bs (cur @ [e])),
      tb_pending_index_entry := False, tb_filter_block := f\<rparr>" and f: "filter_state options interval bs (cur @ [e]) f"
    using add_prepare [OF assms(1) a [unfolded k_def] b] unfolding interval_def by blast
  define r3 where "r3 = r2\<lparr>tb_last_key := fst e, tb_num_entries := tb_num_entries r2 + 1, tb_data_block := building interval (cur @ [e])\<rparr>"
  have st3: "table_state contents options bs (cur @ [e]) r3"
    using add_state [OF assms(1) f [unfolded interval_def], of "tb_num_entries r2 + 1"] unfolding r3_def r2 interval_def by (cases r) simp
  have data: "BlockBuilder_Add compare interval (fst e) (snd e) (building interval cur) = Some (building interval (cur @ [e]))"
    using building_add [of interval cur compare "fst e" "snd e"] assms(5,7) last [of cur "concat bs"] by (auto simp: interval_def compare_def)
  have s1: "\<not> tb_closed r" "tb_ok r" "tb_options r = options" "tb_data_block r = building interval cur" using st by blast+
  have r2s: "tb_options r2 = options" "tb_data_block r2 = building interval cur" using s1 by (simp_all add: r2)
  have "TableBuilder_Add fv le (fst e) (snd e) r =
      (if CurrentSizeEstimate (building interval (cur @ [e])) \<ge> opt_block_size options then TableBuilder_Flush fv le r3 else Some r3)"
  proof (cases "tb_pending_index_entry r")
    case True
    then have "add_index_entry (cmp_FindShortestSeparator (opt_comparator options) (tb_last_key r) (fst e)) r = Some r1" using a by (simp add: k_def)
    moreover have "BlockBuilder_empty (building interval cur)" using st True building_empty by blast
    ultimately show ?thesis using True b data guard by (auto simp add: TableBuilder_Add_def Let_def r3_def s1 r2s simp flip: compare_def interval_def)
  next
    case False
    then have "r1 = r" using a by simp
    then show ?thesis using False b data guard by (auto simp add: TableBuilder_Add_def Let_def r3_def s1 r2s simp flip: compare_def interval_def)
  qed
  moreover have "\<exists>r'. TableBuilder_Flush fv le r3 = Some r' \<and> tb_ok r' \<and> fits n (tb_file r')" if "CurrentSizeEstimate (building interval (cur @ [e])) \<ge> opt_block_size options"
    by (rule flush_fits_block [OF st3 _ _ assms(3,4)]) (use assms(2,8,9) that in \<open>simp_all add: r3_def r2 split_step_def interval_def\<close>)
  moreover have "tb_ok r3" "fits n (tb_file r3)" using s1(2) assms(2) by (simp_all add: r3_def r2 tb_ok_def)
  ultimately show ?thesis by (auto split: if_splits)
qed

lemma add_all_total:
  assumes "table_state contents options bs cur r" "fits n (tb_file r)" "n < 2 ^ 63" "total_policy m options" "1 \<le> opt_block_restart_interval options"
    "comparator (cmp_Compare (opt_comparator options)) (cmp_FindShortestSeparator (opt_comparator options)) (cmp_FindShortSuccessor (opt_comparator options))"
    "ascending (cmp_Compare (opt_comparator options)) (concat bs @ cur @ es)"
    "length (blocks_bytes (opt_block_restart_interval options) (fst (foldl (split_step options) (bs, cur) es))) \<le> n"
    "length (concat bs @ cur @ es) \<le> m"
  shows "\<exists>r'. TableBuilder_AddAll fv le es r = Some r' \<and> tb_ok r' \<and> fits n (tb_file r')"
  using assms(1,2,7,8,9)
proof (induction es arbitrary: r bs cur)
  case Nil
  then show ?case by (simp add: table_state_def Let_def)
next
  case (Cons e es)
  obtain bs1 cur1 where step: "split_step options (bs, cur) e = (bs1, cur1)" by fastforce
  have "length (blocks_bytes (opt_block_restart_interval options) bs1) \<le> n"
    using Cons.prems(4) split_extends [of options "(bs1, cur1)" es] step by (auto simp: blocks_bytes_def)
  moreover have "ascending (cmp_Compare (opt_comparator options)) (concat bs @ cur @ [e])"
    using Cons.prems(3) by (auto simp: ascending_def sorted_wrt_append)
  ultimately obtain r1 where r1: "TableBuilder_Add fv le (fst e) (snd e) r = Some r1" "tb_ok r1" "fits n (tb_file r1)"
    using add_total [OF Cons.prems(1,2) assms(3-6), of e le] step Cons.prems(5) by auto
  have "table_state contents options bs1 cur1 r1" using add_entry [OF r1(1,2) Cons.prems(1) assms(5)] step by simp
  moreover have "concat bs1 @ cur1 = concat bs @ cur @ [e]"
    using split_step_concat [where options = options and bs = bs and cur = cur and e = e] step by simp
  then have "ascending (cmp_Compare (opt_comparator options)) (concat bs1 @ cur1 @ es)"
    using Cons.prems(3) by (metis append.assoc append_Cons append_Nil)
  moreover have "length (concat bs1 @ cur1 @ es) \<le> m"
    using Cons.prems(5) arg_cong [OF \<open>concat bs1 @ cur1 = concat bs @ cur @ [e]\<close>, of length] by simp
  ultimately show ?case using Cons.IH [of bs1 cur1 r1] r1 Cons.prems(4) step by simp
qed

lemma filter_fits:
  assumes "table_state contents options bs [] r" "fits n (tb_file r)" "total_policy m options" "length (table_body options bs (filter_of le options bs)) \<le> n"
    "length (concat bs) \<le> m"
  shows "\<exists>fh r'. write_filter fv le (r\<lparr>tb_closed := True\<rparr>) = Some (fh, r') \<and> tb_ok r' \<and> fits n (tb_file r')"
proof (cases "opt_filter_policy options")
  case None
  then show ?thesis using assms(1,2) by (simp add: table_state_def Let_def filter_state_def write_filter_def tb_ok_def)
next
  case (Some p)
  note st = assms(1) [unfolded table_state_def Let_def]
  obtain b where b: "tb_filter_block r = Some (p, b)"
      "build_filters (fp_CreateFilter p) (filter_blocks (opt_block_restart_interval options) bs []) FilterBlockBuilder_init = Some b"
    using st Some by (auto simp: filter_state_def)
  obtain c where c: "FilterBlock_Finish (fp_CreateFilter p) le b = Some c"
    using finish_filter_total [of m "fp_CreateFilter p" b le] filter_pending [OF b(2), of m] assms(3,5) Some by (auto simp: total_policy_def)
  have "filter_of le options bs = Some c" using Some b c by (simp add: filter_of_def)
  then have "length (contents (tb_file r)) + length (stored_block c) \<le> n" using assms(4) st by (simp add: table_body_def)
  then obtain h r' where "WriteRawBlock fv le c kNoCompression (r\<lparr>tb_closed := True\<rparr>) = Some (h, r')" "tb_ok r'" "fits n (tb_file r')"
    using raw_fits [of n "r\<lparr>tb_closed := True\<rparr>" c le] assms(2) by auto
  then show ?thesis using b c st by (simp add: write_filter_def tb_ok_def)
qed

lemma handle_encodes: "a < 2 ^ 63 \<Longrightarrow> n < 2 ^ 63 \<Longrightarrow> BlockHandle_EncodeTo (handle_at a n) [] = Some (handle_bytes (handle_at a n))"
  by (simp add: BlockHandle_EncodeTo_def handle_at_def PutVarint64_def handle_bytes_def word_not_max)

lemma metaindex_fits:
  assumes "body le options bs fc fh r" "fits n (tb_file r)" "tb_ok r" "n < 2 ^ 63" "1 \<le> opt_block_restart_interval options"
    "length (table_body options bs fc @ stored_block (meta_bytes options bs fc)) \<le> n"
  shows "\<exists>mh r'. write_metaindex fv le fh r = Some (mh, r') \<and> tb_ok r' \<and> fits n (tb_file r')"
proof -
  let ?interval = "opt_block_restart_interval options"
  note st = assms(1) [unfolded body_written_def]
  have "\<exists>meta. (if tb_filter_block r \<noteq> None then
           do { p \<leftarrow> opt_filter_policy options; handle_encoding \<leftarrow> BlockHandle_EncodeTo fh [];
                BlockBuilder_Add (cmp_Compare (opt_comparator options)) ?interval (str ''filter.'' @ fp_Name p) handle_encoding (building ?interval []) }
         else Some (building ?interval [])) = Some meta \<and> meta = building ?interval (meta_entries options bs fc)"
  proof (cases fc)
    case None
    then show ?thesis using st by (simp add: meta_entries_def)
  next
    case (Some c)
    then obtain p where p: "opt_filter_policy options = Some p" using st by (auto simp: filter_contents_def split: option.splits)
    have "length (blocks_bytes ?interval bs) < 2 ^ 63" "length c < 2 ^ 63" using assms(4,6) Some by (simp_all add: table_body_def)
    from handle_encodes [OF this] show ?thesis
      using st Some p building_add [of ?interval "[]"] assms(5) by (simp add: meta_entries_def)
  qed
  then obtain meta where meta: "(if tb_filter_block r \<noteq> None then
           do { p \<leftarrow> opt_filter_policy options; handle_encoding \<leftarrow> BlockHandle_EncodeTo fh [];
                BlockBuilder_Add (cmp_Compare (opt_comparator options)) ?interval (str ''filter.'' @ fp_Name p) handle_encoding (building ?interval []) }
         else Some (building ?interval [])) = Some meta" "meta = building ?interval (meta_entries options bs fc)" by blast
  have "fst (BlockBuilder_Finish le meta) = meta_bytes options bs fc" using building_finish meta(2) by (simp add: meta_bytes_def)
  then obtain b' h r' where w: "WriteBlock fv le meta r = Some (b', h, r')" "tb_ok r'" "fits n (tb_file r')"
    using block_fits [OF assms(2,3), of le meta] assms(6) st by auto
  have "write_metaindex fv le fh r = Some (h, r')"
    using building_init [OF assms(5)] meta(1) w(1) st assms(3)
    by (cases "tb_filter_block r") (auto simp: write_metaindex_def bind_eq_Some_conv)
  then show ?thesis using w by blast
qed

lemma index_fits:
  assumes "index_ready options bs r" "fits n (tb_file r)" "tb_ok r" "n < 2 ^ 63" "\<forall>b \<in> set bs. b \<noteq> []"
    "comparator (cmp_Compare (opt_comparator options)) (cmp_FindShortestSeparator (opt_comparator options)) (cmp_FindShortSuccessor (opt_comparator options))"
    "ascending (cmp_Compare (opt_comparator options)) (concat bs)" "length (blocks_bytes (opt_block_restart_interval options) bs) \<le> n"
    "length (contents (tb_file r)) + length (stored_block (index_bytes options bs)) \<le> n"
  shows "\<exists>ih r'. write_index fv le r = Some (ih, r') \<and> tb_ok r' \<and> fits n (tb_file r')"
proof -
  let ?interval = "opt_block_restart_interval options" and ?c = "opt_comparator options"
  define ies where "ies = index_entries ?c ?interval bs"
  define k where "k = cmp_FindShortSuccessor ?c (tb_last_key r)"
  note st = assms(1) [unfolded index_ready_def Let_def]
  have "\<exists>r1. (if tb_pending_index_entry r then add_index_entry k r else Some r) = Some r1 \<and>
      tb_index_block r1 = building 1 ies \<and> tb_ok r1 \<and> tb_file r1 = tb_file r \<and> tb_options r1 = options"
  proof (cases "bs = []")
    case True
    then show ?thesis using st assms(3) by (simp add: ies_def index_entries_def index_so_far_def)
  next
    case False
    have h: "tb_pending_handle r = block_handle ?interval bs (length bs - 1)" using st False by simp
    have ies: "index_so_far ?c ?interval bs [] @ [(k, handle_bytes (tb_pending_handle r))] = ies"
      using index_so_far_finish [OF False, of ?c ?interval] st False by (simp add: ies_def k_def)
    have "\<exists>r1. add_index_entry k r = Some r1"
    proof (rule index_entry_total)
      show "ascending (cmp_Compare ?c) (index_so_far ?c ?interval bs [] @ [(k, handle_bytes (tb_pending_handle r))])"
        unfolding ies ies_def by (rule index_entries_sorted [OF assms(6,7,5)])
      show "key_order (cmp_Compare ?c)" using assms(6) by (simp add: comparator_def)
      show "tb_pending_handle r = handle_at (block_offset ?interval bs (length bs - 1)) (length (blk_bytes ?interval (bs ! (length bs - 1))))"
        using h by (simp add: block_handle_def)
      show "block_offset ?interval bs (length bs - 1) < 2 ^ 63" using assms(4,8) block_offset_le [of "length bs - 1" bs ?interval] by simp
      show "length (blk_bytes ?interval (bs ! (length bs - 1))) < 2 ^ 63" using assms(4,8) blk_bytes_le [of "length bs - 1" bs ?interval] False by simp
    qed (use st in simp_all)
    then obtain r1 where r1: "add_index_entry k r = Some r1" by blast
    have "r1 = r\<lparr>tb_last_key := k, tb_index_block := building 1 ies, tb_pending_index_entry := False\<rparr>"
      using add_index_entry_some [OF r1, of options "index_so_far ?c ?interval bs []"] st ies by simp
    then show ?thesis using r1 st False assms(3) by (simp add: tb_ok_def)
  qed
  then obtain r1 where r1: "(if tb_pending_index_entry r then add_index_entry k r else Some r) = Some r1"
      "tb_index_block r1 = building 1 ies" "tb_ok r1" "tb_file r1 = tb_file r" "tb_options r1 = options" by blast
  have "fst (BlockBuilder_Finish le (tb_index_block r1)) = index_bytes options bs" using building_finish r1(2) by (simp add: index_bytes_def ies_def)
  then obtain b' h r' where w: "WriteBlock fv le (tb_index_block r1) r1 = Some (b', h, r')" "tb_ok r'" "fits n (tb_file r')"
    using block_fits [of n r1 le "tb_index_block r1"] assms(2,9) r1(3,4) by auto
  have "tb_options r = options" using st by simp
  then have "write_index fv le r = Some (h, r'\<lparr>tb_index_block := b'\<rparr>)"
    using r1(1) w(1) assms(3) unfolding write_index_def k_def by (cases "tb_pending_index_entry r") simp_all
  then show ?thesis using w by (simp add: tb_ok_def)
qed

lemma footer_fits:
  assumes "fits n (tb_file r)" "tb_ok r" "length (contents (tb_file r)) + 48 \<le> n" "n < 2 ^ 63" "mh = handle_at a b" "ih = handle_at c d"
    "a < 2 ^ 63" "b < 2 ^ 63" "c < 2 ^ 63" "d < 2 ^ 63"
  shows "\<exists>r'. write_footer fv le mh ih r = Some r' \<and> tb_ok r'"
proof -
  obtain footer where f: "Footer_EncodeTo le \<lparr>metaindex_handle = mh, index_handle = ih\<rparr> [] = Some footer"
    using footer_succeeds [of "\<lparr>metaindex_handle = mh, index_handle = ih\<rparr>" le] assms(5-10) word_not_max by (auto simp: handle_at_def)
  then have "length footer = 48" using footer_decode by blast
  then obtain f' where "wf_Append fv footer (tb_file r) = Some (Status_OK, f')" using append_fits [OF assms(1), of footer] assms(3) by auto
  then show ?thesis using f assms(2) by (simp add: write_footer_def Let_def Status_ok_def Status_OK_def tb_ok_def)
qed

lemma finish_total:
  fixes bs' :: "entries list"
  assumes "table_state contents options bs cur r" "fits n (tb_file r)" "total_policy m options" "1 \<le> opt_block_restart_interval options"
    "comparator (cmp_Compare (opt_comparator options)) (cmp_FindShortestSeparator (opt_comparator options)) (cmp_FindShortSuccessor (opt_comparator options))"
    "ascending (cmp_Compare (opt_comparator options)) (concat bs @ cur)" "tb_ok r" "length (concat bs @ cur) \<le> m"
  defines "bs' \<equiv> if cur = [] then bs else bs @ [cur]"
  assumes n: "n = table_size le options bs'" "n < 2 ^ 63"
  shows "\<exists>r'. TableBuilder_Finish fv le r = Some (Status_OK, r')"
proof -
  let ?interval = "opt_block_restart_interval options"
  define fc where "fc = filter_of le options bs'"
  have size: "length (table_body options bs' fc @ stored_block (meta_bytes options bs' fc)) + length (stored_block (index_bytes options bs')) + 48 = n"
    by (simp add: n(1) table_size_def fc_def Footer_kEncodedLength_def kMaxEncodedLength_def)
  have blocks: "length (blocks_bytes ?interval bs') \<le> n" using size by (simp add: table_body_def)
  have "\<exists>r1. TableBuilder_Flush fv le r = Some r1 \<and> tb_ok r1 \<and> fits n (tb_file r1)"
  proof (cases "cur = []")
    case True
    then have "BlockBuilder_empty (tb_data_block r)" "\<not> tb_closed r" using assms(1) building_empty by (simp_all add: table_state_def Let_def)
    then show ?thesis using assms(2,7) by (simp add: TableBuilder_Flush_def)
  qed (use flush_fits_block [OF assms(1) _ assms(2) n(2) assms(3)] assms(8) blocks in \<open>simp add: bs'_def\<close>)
  then obtain r1 where r1: "TableBuilder_Flush fv le r = Some r1" "tb_ok r1" "fits n (tb_file r1)" by blast
  have st: "table_state contents options bs' [] r1" using flush_last [OF r1(1,2) assms(1)] by (simp add: bs'_def)
  obtain fh r2 where r2: "write_filter fv le (r1\<lparr>tb_closed := True\<rparr>) = Some (fh, r2)" "tb_ok r2" "fits n (tb_file r2)"
    using filter_fits [OF st r1(3) assms(3), of le] size assms(8) by (auto simp: fc_def bs'_def split: if_splits)
  obtain fc' where fc': "body le options bs' fc' fh r2" using filter_written [OF st r2(1,2)] by blast
  have "fc' = fc" using filter_of_contents fc' by (auto simp: fc_def body_written_def)
  note body = fc' [unfolded this]
  obtain mh r3 where r3: "write_metaindex fv le fh r2 = Some (mh, r3)" "tb_ok r3" "fits n (tb_file r3)"
    using metaindex_fits [OF body r2(3,2) n(2) assms(4)] size by auto
  note meta = meta_written [OF body r3(1,2) assms(4)]
  have "\<exists>ih r'. write_index fv le r3 = Some (ih, r') \<and> tb_ok r' \<and> fits n (tb_file r')"
  proof (rule index_fits [OF meta(1) r3(3,2) n(2) _ assms(5) _ blocks])
    show "\<forall>b \<in> set bs'. b \<noteq> []" using st by (simp add: table_state_def Let_def)
    show "ascending (cmp_Compare (opt_comparator options)) (concat bs')" using assms(6) by (cases "cur = []") (simp_all add: bs'_def)
    show "length (contents (tb_file r3)) + length (stored_block (index_bytes options bs')) \<le> n" using size meta(2) by simp
  qed
  then obtain ih r4 where r4: "write_index fv le r3 = Some (ih, r4)" "tb_ok r4" "fits n (tb_file r4)" by blast
  note index = write_index_ok [OF r4(1,2) meta(1)]
  have "\<exists>r'. write_footer fv le mh ih r4 = Some r' \<and> tb_ok r'"
  proof (rule footer_fits [OF r4(3,2) _ n(2)])
    show "length (contents (tb_file r4)) + 48 \<le> n" using size meta(2) index(2) by simp
    show "mh = handle_at (length (table_body options bs' fc)) (length (meta_bytes options bs' fc))" using meta(4) by (simp add: table_footer_def)
    show "ih = handle_at (length (table_body options bs' fc @ stored_block (meta_bytes options bs' fc))) (length (index_bytes options bs'))"
      using index(1) meta(3) by (simp add: handle_at_def)
  qed (use size n(2) in simp_all)
  then obtain r' where r': "write_footer fv le mh ih r4 = Some r'" "tb_ok r'" by blast
  moreover have "\<not> tb_closed r1" using st unfolding table_state_def Let_def by blast
  moreover have "tb_status r' = Status_OK" using r'(2) by (simp add: tb_ok_def Status_ok_def Status_OK_def)
  ultimately show ?thesis using r1(1) r2(1) r3(1) r4(1) by (simp add: TableBuilder_Finish_def)
qed

lemma write_table_total:
  assumes "comparator (cmp_Compare (opt_comparator options)) (cmp_FindShortestSeparator (opt_comparator options)) (cmp_FindShortSuccessor (opt_comparator options))"
    "ascending (cmp_Compare (opt_comparator options)) es" "1 \<le> opt_block_restart_interval options" "total_policy (length es) options"
    "contents f = []" "has_room (table_size le options (table_blocks options es)) f" "table_size le options (table_blocks options es) < 2 ^ 63"
  shows "\<exists>r. write_table fv le options es f = Some (Status_OK, r)"
proof -
  define n where "n = table_size le options (table_blocks options es)"
  obtain bs cur where split: "split_entries options es = (bs, cur)" by fastforce
  have blocks: "table_blocks options es = (if cur = [] then bs else bs @ [cur])" by (simp add: table_blocks_def split)
  have es: "concat bs @ cur = es" using split_entries_concat [where options = options and es = es] unfolding split by simp
  obtain r where r: "TableBuilder_init options f = Some r" "tb_file r = f" using init_total [OF assms(3,4), of f] by (elim exE conjE)
  note st = init_state [OF r(1) assms(5)]
  have fits: "fits n (tb_file r)" using assms(5,6) r(2) by (simp add: file_fits_def n_def)
  have "length (blocks_bytes (opt_block_restart_interval options) bs) \<le> length (blocks_bytes (opt_block_restart_interval options) (table_blocks options es))"
    by (simp add: blocks blocks_bytes_def)
  also have "\<dots> \<le> n" by (simp add: n_def table_size_def table_body_def)
  finally obtain r1 where r1: "TableBuilder_AddAll fv le es r = Some r1" "tb_ok r1" "fits n (tb_file r1)"
    using add_all_total [OF st(1) fits _ assms(4,3,1), of es le] assms(2,7) split by (auto simp: n_def split_entries_def)
  have "table_state contents options bs cur r1" using add_all [OF r1(1,2) st] split by (simp add: split_entries_def)
  from finish_total [OF this r1(3) assms(4,3,1) _ r1(2), of le] assms(2,7) arg_cong [OF es, of length] show ?thesis
    using r(1) r1(1) unfolding es by (simp add: write_table_def n_def blocks)
qed

end

interpretation posix_table_room: table_room posix_file_vt posix_contents posix_room
  by (simp add: table_room_def posix_table.table_file_axioms posix_wr.bounded_file_axioms)

subsection \<open>Properties\<close>

lemma written_size:
  assumes "comparator (cmp_Compare (opt_comparator options)) (cmp_FindShortestSeparator (opt_comparator options)) (cmp_FindShortSuccessor (opt_comparator options))"
    "ascending (cmp_Compare (opt_comparator options)) es" "1 \<le> opt_block_restart_interval options" "total_policy (length es) options"
    "posix_contents f = []" "posix_room (table_size le options (table_blocks options es)) f" "table_size le options (table_blocks options es) < 2 ^ 31"
  obtains r where "write_table posix_file_vt le options es f = Some (Status_OK, r)" "length (posix_contents (tb_file r)) < 2 ^ 31"
proof -
  obtain r where r: "write_table posix_file_vt le options es f = Some (Status_OK, r)"
    using posix_table_room.write_table_total [OF assms(1-6)] assms(7) by auto
  then obtain r0 r1 where w: "TableBuilder_init options f = Some r0" "TableBuilder_AddAll posix_file_vt le es r0 = Some r1" "TableBuilder_Finish posix_file_vt le r1 = Some (Status_OK, r)"
    by (auto simp: write_table_def bind_eq_Some_conv)
  obtain fc where fc: "filter_contents le options (table_blocks options es) fc" "table_bytes le options (table_blocks options es) fc = Some (posix_contents (tb_file r))"
    using posix_table.build_table [OF w(1) assms(5) w(2,3)] by (auto simp: Status_ok_def Status_OK_def)
  obtain footer where "Footer_EncodeTo le (table_footer options (table_blocks options es) fc) [] = Some footer"
      "posix_contents (tb_file r) = table_body options (table_blocks options es) fc @ stored_block (meta_bytes options (table_blocks options es) fc) @
        stored_block (index_bytes options (table_blocks options es)) @ footer"
    using fc(2) by (auto simp: table_bytes_def)
  then have "length (posix_contents (tb_file r)) = table_size le options (table_blocks options es)"
    using footer_decode filter_of_contents [OF fc(1)] by (auto simp: table_size_def Footer_kEncodedLength_def kMaxEncodedLength_def)
  then show thesis using that r assms(7) by simp
qed

text \<open>
  C8: what is written to a table is read back. Take entries in the order of any comparator that keeps its contract, any
  block size, restart interval, compression and filter policy that makes filters for as many keys as there are entries,
  as the Bloom filter does (\<open>bloom_upto\<close>), and an empty file with room for the table, which is below 2 GB. Then the writer succeeds, \<^verbatim>\<open>Open\<close> on the file with the size that the
  writer reports succeeds, and the iterator of the table behaves on every sequence of calls like an index into the
  entries: no block boundary is visible.
\<close>
theorem table_roundtrip:
  assumes "comparator (cmp_Compare (opt_comparator options)) (cmp_FindShortestSeparator (opt_comparator options)) (cmp_FindShortSuccessor (opt_comparator options))"
    and "ascending (cmp_Compare (opt_comparator options)) es" "1 \<le> opt_block_restart_interval options" "total_policy (length es) options"
    and "posix_contents f = []" "posix_room (table_size le options (table_blocks options es)) f" "table_size le options (table_blocks options es) < 2 ^ 31"
  shows "\<exists>r t it. write_table posix_file_vt le options es f = Some (Status_OK, r) \<and>
    Table_Open le None options (posix_read name (posix_contents (tb_file r))) (TableBuilder_FileSize r) () = Some (Status_OK, Some t, ()) \<and>
    Table_NewIterator le t () = Some it \<and>
    (\<forall>calls obs. run_list (cmp_Compare (opt_comparator options)) es calls (length es) = Some obs \<longrightarrow>
       run_iter (Table_iterator_vt le None t ro) calls it = Some obs)"
proof -
  obtain r where r: "write_table posix_file_vt le options es f = Some (Status_OK, r)" "length (posix_contents (tb_file r)) < 2 ^ 31"
    by (rule written_size [OF assms])
  obtain fc where fc: "stored_table le options (table_blocks options es) fc (posix_contents (tb_file r))" "filter_contents le options (table_blocks options es) fc"
      "TableBuilder_FileSize r = word_of_nat (length (posix_contents (tb_file r)))"
    by (rule written_table [OF assms(1,2,5) r(1) _ r(2)]) (simp add: Status_ok_def Status_OK_def)
  define t where "t = open_table le options (posix_read name (posix_contents (tb_file r))) 0 (table_blocks options es) fc"
  have "Table_Open le None options (posix_read name (posix_contents (tb_file r))) (TableBuilder_FileSize r) () = Some (Status_OK, Some t, ())"
    using table_open [OF fc(1) posix_ra.random_access_file_axioms fc(2), where cache = None and s = "()"] fc(3) by (simp add: t_def)
  moreover have "\<exists>it. Table_NewIterator le t () = Some it \<and>
      (\<forall>calls obs. run_list (cmp_Compare (opt_comparator options)) es calls (length es) = Some obs \<longrightarrow> run_iter (Table_iterator_vt le None t ro) calls it = Some obs)"
    using no_cache.table_new_iterator [OF fc(1), of t "()" ro] posix_ra.random_access_file_axioms table_blocks_concat(1) [of options es]
    by (simp add: t_def open_table_def cache_fits_def)
  ultimately show ?thesis using r(1) by blast
qed

text \<open>
  C9: point lookups in a table that is written as above, with no filter policy or one that keeps its contract, as the
  Bloom filter does (the interpretation \<open>bloom\<close>). \<^verbatim>\<open>InternalGet\<close>
  returns OK, it hands at most the first entry at or past the key to its client, and an entry with exactly this key
  is found: neither the index, which holds shortened keys, nor the filter ever hides it.
\<close>
theorem table_lookup:
  assumes "comparator (cmp_Compare (opt_comparator options)) (cmp_FindShortestSeparator (opt_comparator options)) (cmp_FindShortSuccessor (opt_comparator options))"
    and "ascending (cmp_Compare (opt_comparator options)) es" "1 \<le> opt_block_restart_interval options" "total_policy (length es) options"
    and "posix_contents f = []" "posix_room (table_size le options (table_blocks options es)) f" "table_size le options (table_blocks options es) < 2 ^ 31"
    and "\<forall>p. opt_filter_policy options = Some p \<longrightarrow> filter_policy (fp_CreateFilter p) (fp_KeyMayMatch p)"
  shows "\<exists>r t. write_table posix_file_vt le options es f = Some (Status_OK, r) \<and>
    Table_Open le None options (posix_read name (posix_contents (tb_file r))) (TableBuilder_FileSize r) () = Some (Status_OK, Some t, ()) \<and>
    (\<forall>k. \<exists>saved. InternalGet le None t ro k () = Some (Status_OK, saved, ()) \<and>
       (saved = None \<or> (let i = first_ge (cmp_Compare (opt_comparator options)) es k in i < length es \<and> saved = Some (es ! i))) \<and>
       (\<forall>v. (k, v) \<in> set es \<longrightarrow> saved = Some (k, v)))"
proof -
  obtain r where r: "write_table posix_file_vt le options es f = Some (Status_OK, r)" "length (posix_contents (tb_file r)) < 2 ^ 31"
    by (rule written_size [OF assms(1-7)])
  obtain fc where fc: "stored_table le options (table_blocks options es) fc (posix_contents (tb_file r))" "filter_contents le options (table_blocks options es) fc"
      "TableBuilder_FileSize r = word_of_nat (length (posix_contents (tb_file r)))"
    by (rule written_table [OF assms(1,2,5) r(1) _ r(2)]) (simp add: Status_ok_def Status_OK_def)
  define t where "t = open_table le options (posix_read name (posix_contents (tb_file r))) 0 (table_blocks options es) fc"
  have "Table_Open le None options (posix_read name (posix_contents (tb_file r))) (TableBuilder_FileSize r) () = Some (Status_OK, Some t, ())"
    using table_open [OF fc(1) posix_ra.random_access_file_axioms fc(2), where cache = None and s = "()"] fc(3) by (simp add: t_def)
  moreover have "\<exists>saved. InternalGet le None t ro k () = Some (Status_OK, saved, ()) \<and>
       (saved = None \<or> (let i = first_ge (cmp_Compare (opt_comparator options)) es k in i < length es \<and> saved = Some (es ! i))) \<and>
       (\<forall>v. (k, v) \<in> set es \<longrightarrow> saved = Some (k, v))" for k
    using no_cache.table_get [OF fc(1) _ fc(2), where t = t and s = "()" and k = k and ro = ro] posix_ra.random_access_file_axioms assms(8)
    by (simp add: t_def open_table_def cache_fits_def table_blocks_concat Let_def)
  ultimately show ?thesis using r(1) by blast
qed

text \<open>A table of two entries, in blocks of one entry each, with a Bloom filter of 10 bits per key.\<close>

definition ex_options :: Options where
  "ex_options = (Options_init BytewiseComparator)\<lparr>opt_block_size := 1, opt_filter_policy := Some (BuiltinBloomFilter True 10)\<rparr>"

definition ex_entries :: entries where "ex_entries = [([1], [7]), ([3], [8, 9])]"

lemma ex_blocks: "table_blocks ex_options ex_entries = [[([1], [7])], [([3], [8, 9])]]"
  by (simp add: table_blocks_def split_entries_def split_step_def ex_entries_def ex_options_def Options_init_def CurrentSizeEstimate_def Let_def)

lemma ex_block_lengths: "length (blk_bytes 16 [([1], [7])]) = 13" "length (blk_bytes 16 [([3], [8, 9])]) = 14"
  by (simp_all add: length_blk_bytes blk_off_def blk_data_def blk_entry_def blk_head_def blk_shared_def blk_num_def EncodeVarint32_def)

lemma ex_index: "index_entries BytewiseComparator 16 [[([1], [7])], [([3], [8, 9])]] = [([2], [0, 13]), ([4], [18, 14])]"
proof -
  have keys: "BytewiseComparator_FindShortestSeparator [1] [3] = [2]" "BytewiseComparator_FindShortSuccessor [3] = [4]"
    by (simp_all add: BytewiseComparator_FindShortestSeparator_def BytewiseComparator_FindShortSuccessor_def diff_index.simps short_successor.simps)
  have varints: "EncodeVarint64 0 = [0]" "EncodeVarint64 13 = [13]" "EncodeVarint64 14 = [14]" "EncodeVarint64 18 = [18]"
    by (simp_all add: EncodeVarint64.simps)
  show ?thesis
    by (simp add: index_entries_def index_key_def block_handle_def handle_at_def handle_bytes_def block_offset_def blocks_bytes_def
        kBlockTrailerSize_def BytewiseComparator_def keys varints ex_block_lengths upt_rec)
qed

text \<open>The filter block: one filter of eight bytes and the number of probes, its offset, the offset of the array, and the base.\<close>

lemma ex_filter_bytes: "\<exists>r. NewBloomFilterPolicy True 10 [[1], [3]] [] = Some r \<and> length r = 9"
  by (simp add: NewBloomFilterPolicy_def BloomFilterPolicy_init_def Bloom_CreateFilter_def Let_def)

lemma ex_filter_of: "\<exists>c. filter_of True ex_options [[([1], [7])], [([3], [8, 9])]] = Some c \<and> length c = 18"
proof -
  obtain r where r: "NewBloomFilterPolicy True 10 [[1], [3]] [] = Some r" "length r = 9" using ex_filter_bytes by blast
  have blocks: "filter_blocks 16 [[([1], [7])], [([3], [8, 9])]] [] = [(0, [[1]]), (18, [[3]]), (37, [])]"
    by (simp add: filter_blocks_def block_offset_def blocks_bytes_def kBlockTrailerSize_def ex_block_lengths upt_rec)
  have base: "unat ((18 :: 64 word) div kFilterBase) = 0" "unat ((37 :: 64 word) div kFilterBase) = 0"
    by (simp_all add: kFilterBase_def unat_div)
  have "build_filters (NewBloomFilterPolicy True 10) [(0, [[1]]), (18, [[3]]), (37, [])] FilterBlockBuilder_init =
      Some \<lparr>fb_keys = [1, 3], fb_start = [0, 1], fb_result = [], fb_filter_offsets = []\<rparr>"
    by (simp add: StartBlock_def StartBlock_loop.simps FilterBlockBuilder_init_def AddKey_def base)
  then have "filter_of True ex_options [[([1], [7])], [([3], [8, 9])]] =
      FilterBlock_Finish (NewBloomFilterPolicy True 10) True \<lparr>fb_keys = [1, 3], fb_start = [0, 1], fb_result = [], fb_filter_offsets = []\<rparr>"
    by (simp add: filter_of_def ex_options_def Options_init_def BuiltinBloomFilter_def blocks del: build_filters.simps)
  then show ?thesis using r by (simp add: FilterBlock_Finish_def GenerateFilter_def Let_def PutFixed32_def upt_rec)
qed

lemma ex_size: "table_size True ex_options (table_blocks ex_options ex_entries) < 2 ^ 31"
proof -
  obtain c where c: "filter_of True ex_options [[([1], [7])], [([3], [8, 9])]] = Some c" "length c = 18" using ex_filter_of by blast
  have policy: "opt_filter_policy ex_options = Some (BuiltinBloomFilter True 10)" "opt_block_restart_interval ex_options = 16"
    "opt_comparator ex_options = BytewiseComparator" by (simp_all add: ex_options_def Options_init_def)
  have varints: "EncodeVarint64 37 = [37]" "EncodeVarint64 18 = [18]" by (simp_all add: EncodeVarint64.simps)
  have "length (handle_bytes (handle_at 37 18)) = 2" by (simp add: handle_bytes_def handle_at_def varints)
  then have "length (blk_bytes 16 [(str ''filter.'' @ str ''leveldb.BuiltinBloomFilter2'', handle_bytes (handle_at 37 18))]) < 1000"
    by (simp add: length_blk_bytes blk_off_def blk_data_def blk_entry_def blk_head_def blk_shared_def blk_num_def EncodeVarint32_def)
  then have m: "length (meta_bytes ex_options [[([1], [7])], [([3], [8, 9])]] (Some c)) < 1000"
    by (simp add: meta_bytes_def meta_entries_def policy c(2) blocks_bytes_def kBlockTrailerSize_def ex_block_lengths BuiltinBloomFilter_def)
  have "length (index_bytes ex_options [[([1], [7])], [([3], [8, 9])]]) < 1000"
    by (simp add: index_bytes_def policy ex_index length_blk_bytes blk_off_def blk_data_def blk_entry_def blk_head_def blk_shared_def blk_num_def
        EncodeVarint32_def upt_rec)
  with m show ?thesis
    unfolding ex_blocks
    by (simp add: table_size_def table_body_def c policy blocks_bytes_def ex_block_lengths kBlockTrailerSize_def
      Footer_kEncodedLength_def kMaxEncodedLength_def)
qed

definition ex_file :: "nat \<Rightarrow> PosixWritableFile" where
  "ex_file n = \<lparr>wr_filename = [], wr_file = Some \<lparr>f_data = [], f_pos = 0, f_room = n, f_fault = None, f_seekable = False, f_failed = False, f_strerror = []\<rparr>\<rparr>"

lemma ex_table:
  "comparator (cmp_Compare (opt_comparator ex_options)) (cmp_FindShortestSeparator (opt_comparator ex_options)) (cmp_FindShortSuccessor (opt_comparator ex_options))"
  "ascending (cmp_Compare (opt_comparator ex_options)) ex_entries" "1 \<le> opt_block_restart_interval ex_options"
  "total_policy (length ex_entries) ex_options" "posix_contents (ex_file n) = []" "posix_room n (ex_file n)"
  "cmp_Compare (opt_comparator ex_options) = Slice_compare"
  "\<forall>p. opt_filter_policy ex_options = Some p \<longrightarrow> filter_policy (fp_CreateFilter p) (fp_KeyMayMatch p)"
  using bytewise_comparator bloom_upto [of 10 "length ex_entries" True] bloom.filter_policy_axioms [of True 10]
  by (simp_all add: ex_options_def Options_init_def ex_entries_def ascending_def BytewiseComparator_def total_policy_def BuiltinBloomFilter_def
      posix_contents_def ex_file_def posix_room_def)

theorem table_roundtrip_witness:
  "\<exists>f r t it. write_table posix_file_vt True ex_options ex_entries f = Some (Status_OK, r) \<and>
    Table_Open True None ex_options (posix_read [] (posix_contents (tb_file r))) (TableBuilder_FileSize r) () = Some (Status_OK, Some t, ()) \<and>
    Table_NewIterator True t () = Some it \<and>
    run_iter (Table_iterator_vt True None t ReadOptions_init) [CallSeek [2], CallPrev, CallNext, CallNext] it =
      Some [Some ([3], [8, 9]), Some ([1], [7]), Some ([3], [8, 9]), None]"
proof -
  have "run_list Slice_compare ex_entries [CallSeek [2], CallPrev, CallNext, CallNext] (length ex_entries) =
      Some [Some ([3], [8, 9]), Some ([1], [7]), Some ([3], [8, 9]), None]"
    by (simp add: ex_entries_def first_ge_def)
  then show ?thesis using table_roundtrip [OF ex_table(1-6) ex_size, of "[]" ReadOptions_init] unfolding ex_table(7) by blast
qed

theorem table_lookup_witness:
  "\<exists>f r t saved. write_table posix_file_vt True ex_options ex_entries f = Some (Status_OK, r) \<and>
    Table_Open True None ex_options (posix_read [] (posix_contents (tb_file r))) (TableBuilder_FileSize r) () = Some (Status_OK, Some t, ()) \<and>
    InternalGet True None t ReadOptions_init [3] () = Some (Status_OK, Some ([3], [8, 9]), ())"
proof -
  have "([3], [8, 9]) \<in> set ex_entries" by (simp add: ex_entries_def)
  then show ?thesis using table_lookup [OF ex_table(1-6) ex_size ex_table(8), of "[]" ReadOptions_init] by blast
qed

end
