(* ===== verification/LDB_Merger.thy ===== *)
theory LDB_Merger
  imports LDB_Block_Correct "HOL-Library.Multiset"
begin

text \<open>
  The merging iterator, \<^verbatim>\<open>table/merger.cc\<close>: one iterator over the union of several. Its children are
  iterators of any class (a parameter \<open>vt\<close>, their virtual functions) behind wrappers; \<^verbatim>\<open>current_\<close> is the index
  of a child.

  If the children keep the contract of iterators and no key occurs in two of them, which is the case for the
  internal keys that leveldb merges, then the merging iterator keeps it too, for the sorted union of their
  entries. The position of a child is described by a cut (\<open>cut\<close>): the entries before it are those among the
  first \<open>j\<close> of the union.
\<close>

subsection \<open>The iterator\<close>

datatype Direction = kForward | kReverse

record 'i MergingIterator =
  mi_children :: "'i IteratorWrapper list"
  mi_current :: "nat option"
  mi_direction :: Direction

primrec map_children :: "('a \<Rightarrow> 'b option) \<Rightarrow> 'a list \<Rightarrow> 'b list option" where
  "map_children f [] = Some []"
| "map_children f (w # ws) = do { w \<leftarrow> f w; ws \<leftarrow> map_children f ws; Some (w # ws) }"

definition MergingIterator_init :: "'i Iterator_vt \<Rightarrow> 'i list \<Rightarrow> 'i MergingIterator option" where
  "MergingIterator_init vt children =
     do { ws \<leftarrow> map_children (\<lambda>it. Wrapper_Set vt (Some it) IteratorWrapper_init) children;
          Some \<lparr>mi_children = ws, mi_current = None, mi_direction = kForward\<rparr> }"

text \<open>The loops over the children that look for the smallest key from the front, the largest from the back.\<close>

fun smallest_child ::
    "(slice \<Rightarrow> slice \<Rightarrow> int) \<Rightarrow> (nat \<times> 'i IteratorWrapper) list \<Rightarrow> (nat \<times> 'i IteratorWrapper) option \<Rightarrow>
     (nat \<times> 'i IteratorWrapper) option" where
  "smallest_child compare [] smallest = smallest"
| "smallest_child compare ((i, child) # ws) smallest =
     smallest_child compare ws
       (if w_valid child then
          case smallest of None \<Rightarrow> Some (i, child)
          | Some (j, s) \<Rightarrow> if compare (w_key child) (w_key s) < 0 then Some (i, child) else smallest
        else smallest)"

fun largest_child ::
    "(slice \<Rightarrow> slice \<Rightarrow> int) \<Rightarrow> (nat \<times> 'i IteratorWrapper) list \<Rightarrow> (nat \<times> 'i IteratorWrapper) option \<Rightarrow>
     (nat \<times> 'i IteratorWrapper) option" where
  "largest_child compare [] largest = largest"
| "largest_child compare ((i, child) # ws) largest =
     largest_child compare ws
       (if w_valid child then
          case largest of None \<Rightarrow> Some (i, child)
          | Some (j, s) \<Rightarrow> if compare (w_key child) (w_key s) > 0 then Some (i, child) else largest
        else largest)"

definition FindSmallest :: "(slice \<Rightarrow> slice \<Rightarrow> int) \<Rightarrow> 'i MergingIterator \<Rightarrow> 'i MergingIterator" where
  "FindSmallest compare m =
     m\<lparr>mi_current := map_option fst (smallest_child compare (enumerate 0 (mi_children m)) None)\<rparr>"

definition FindLargest :: "(slice \<Rightarrow> slice \<Rightarrow> int) \<Rightarrow> 'i MergingIterator \<Rightarrow> 'i MergingIterator" where
  "FindLargest compare m =
     m\<lparr>mi_current := map_option fst (largest_child compare (rev (enumerate 0 (mi_children m))) None)\<rparr>"

definition Merging_Valid :: "'i MergingIterator \<Rightarrow> bool" where
  "Merging_Valid m \<longleftrightarrow> mi_current m \<noteq> None"

text \<open>\<^verbatim>\<open>*current_\<close>; \<open>None\<close> if there is no current child.\<close>

definition current_child :: "'i MergingIterator \<Rightarrow> 'i IteratorWrapper option" where
  "current_child m = mi_current m \<bind> (\<lambda>c. if c < length (mi_children m) then Some (mi_children m ! c) else None)"

definition Merging_key :: "'i MergingIterator \<Rightarrow> slice option" where
  "Merging_key m = current_child m \<bind> Wrapper_key"

definition Merging_value :: "'i Iterator_vt \<Rightarrow> 'i MergingIterator \<Rightarrow> slice option" where
  "Merging_value vt m = current_child m \<bind> Wrapper_value vt"

primrec first_error :: "'i Iterator_vt \<Rightarrow> 'i IteratorWrapper list \<Rightarrow> Status \<Rightarrow> Status option" where
  "first_error vt [] status = Some status"
| "first_error vt (w # ws) status =
     do { status \<leftarrow> Wrapper_status vt w; if Status_ok status then first_error vt ws status else Some status }"

definition Merging_status :: "'i Iterator_vt \<Rightarrow> 'i MergingIterator \<Rightarrow> Status option" where
  "Merging_status vt m = first_error vt (mi_children m) Status_OK"

definition Merging_SeekToFirst :: "(slice \<Rightarrow> slice \<Rightarrow> int) \<Rightarrow> 'i Iterator_vt \<Rightarrow> 'i MergingIterator \<Rightarrow> 'i MergingIterator option" where
  "Merging_SeekToFirst compare vt m =
     do { ws \<leftarrow> map_children (Wrapper_SeekToFirst vt) (mi_children m);
          Some ((FindSmallest compare (m\<lparr>mi_children := ws\<rparr>))\<lparr>mi_direction := kForward\<rparr>) }"

definition Merging_SeekToLast :: "(slice \<Rightarrow> slice \<Rightarrow> int) \<Rightarrow> 'i Iterator_vt \<Rightarrow> 'i MergingIterator \<Rightarrow> 'i MergingIterator option" where
  "Merging_SeekToLast compare vt m =
     do { ws \<leftarrow> map_children (Wrapper_SeekToLast vt) (mi_children m);
          Some ((FindLargest compare (m\<lparr>mi_children := ws\<rparr>))\<lparr>mi_direction := kReverse\<rparr>) }"

definition Merging_Seek ::
    "(slice \<Rightarrow> slice \<Rightarrow> int) \<Rightarrow> 'i Iterator_vt \<Rightarrow> slice \<Rightarrow> 'i MergingIterator \<Rightarrow> 'i MergingIterator option" where
  "Merging_Seek compare vt target m =
     do { ws \<leftarrow> map_children (Wrapper_Seek vt target) (mi_children m);
          Some ((FindSmallest compare (m\<lparr>mi_children := ws\<rparr>))\<lparr>mi_direction := kForward\<rparr>) }"

text \<open>The loops that bring all children but the current one, number \<open>c\<close>, behind or before its key.\<close>

definition after_key ::
    "(slice \<Rightarrow> slice \<Rightarrow> int) \<Rightarrow> 'i Iterator_vt \<Rightarrow> slice \<Rightarrow> 'i IteratorWrapper \<Rightarrow> 'i IteratorWrapper option" where
  "after_key compare vt k child =
     do {
       child \<leftarrow> Wrapper_Seek vt k child;
       if w_valid child \<and> compare k (w_key child) = 0 then Wrapper_Next vt child else Some child
     }"

definition before_key :: "'i Iterator_vt \<Rightarrow> slice \<Rightarrow> 'i IteratorWrapper \<Rightarrow> 'i IteratorWrapper option" where
  "before_key vt k child =
     do {
       child \<leftarrow> Wrapper_Seek vt k child;
       if w_valid child then Wrapper_Prev vt child else Wrapper_SeekToLast vt child
     }"

definition other_children ::
    "('i IteratorWrapper \<Rightarrow> 'i IteratorWrapper option) \<Rightarrow> nat \<Rightarrow> 'i IteratorWrapper list \<Rightarrow> 'i IteratorWrapper list option" where
  "other_children f c ws = map_children (\<lambda>(i, child). if i \<noteq> c then f child else Some child) (enumerate 0 ws)"

text \<open>\<^verbatim>\<open>current_->Next()\<close> or \<^verbatim>\<open>current_->Prev()\<close>.\<close>

definition move_current ::
    "('i IteratorWrapper \<Rightarrow> 'i IteratorWrapper option) \<Rightarrow> 'i MergingIterator \<Rightarrow> 'i MergingIterator option" where
  "move_current f m =
     do { c \<leftarrow> mi_current m; w \<leftarrow> current_child m; w \<leftarrow> f w; Some (m\<lparr>mi_children := (mi_children m)[c := w]\<rparr>) }"

definition Merging_Next :: "(slice \<Rightarrow> slice \<Rightarrow> int) \<Rightarrow> 'i Iterator_vt \<Rightarrow> 'i MergingIterator \<Rightarrow> 'i MergingIterator option" where
  "Merging_Next compare vt m =
     do {
       c \<leftarrow> mi_current m;
       m \<leftarrow> (if mi_direction m \<noteq> kForward then
               do {
                 k \<leftarrow> Merging_key m;
                 ws \<leftarrow> other_children (after_key compare vt k) c (mi_children m);
                 Some (m\<lparr>mi_children := ws, mi_direction := kForward\<rparr>)
               }
             else Some m);
       m \<leftarrow> move_current (Wrapper_Next vt) m;
       Some (FindSmallest compare m)
     }"

definition Merging_Prev :: "(slice \<Rightarrow> slice \<Rightarrow> int) \<Rightarrow> 'i Iterator_vt \<Rightarrow> 'i MergingIterator \<Rightarrow> 'i MergingIterator option" where
  "Merging_Prev compare vt m =
     do {
       c \<leftarrow> mi_current m;
       m \<leftarrow> (if mi_direction m \<noteq> kReverse then
               do {
                 k \<leftarrow> Merging_key m;
                 ws \<leftarrow> other_children (before_key vt k) c (mi_children m);
                 Some (m\<lparr>mi_children := ws, mi_direction := kReverse\<rparr>)
               }
             else Some m);
       m \<leftarrow> move_current (Wrapper_Prev vt) m;
       Some (FindLargest compare m)
     }"

definition MergingIterator_vt :: "(slice \<Rightarrow> slice \<Rightarrow> int) \<Rightarrow> 'i Iterator_vt \<Rightarrow> 'i MergingIterator Iterator_vt" where
  "MergingIterator_vt compare vt =
     \<lparr>vt_Valid = Merging_Valid, vt_key = Merging_key, vt_value = Merging_value vt, vt_Next = Merging_Next compare vt,
      vt_Prev = Merging_Prev compare vt, vt_SeekToFirst = Merging_SeekToFirst compare vt,
      vt_SeekToLast = Merging_SeekToLast compare vt, vt_Seek = Merging_Seek compare vt, vt_status = Merging_status vt\<rparr>"

text \<open>The three results of \<^verbatim>\<open>NewMergingIterator\<close>: an empty iterator, the only child, or a merging iterator.\<close>

datatype 'i AnyIterator = NoChild | OnlyChild 'i | Merging "'i MergingIterator"

definition NewMergingIterator :: "'i Iterator_vt \<Rightarrow> 'i list \<Rightarrow> 'i AnyIterator option" where
  "NewMergingIterator vt list =
     (if length list = 0 then Some NoChild
      else if length list = 1 then Some (OnlyChild (list ! 0))
      else map_option Merging (MergingIterator_init vt list))"

subsection \<open>Cuts of a union of sorted lists\<close>

definition merged :: "('k \<Rightarrow> 'k \<Rightarrow> int) \<Rightarrow> ('k \<times> 'v) list list \<Rightarrow> ('k \<times> 'v) list \<Rightarrow> bool" where
  "merged compare ess es \<longleftrightarrow> ascending compare es \<and> mset es = mset (concat ess) \<and> (\<forall>xs \<in> set ess. ascending compare xs)"

definition cut :: "'a list \<Rightarrow> nat \<Rightarrow> 'a list \<Rightarrow> nat \<Rightarrow> bool" where
  "cut es j xs p \<longleftrightarrow> p \<le> length xs \<and> set (take p xs) \<subseteq> set (take j es) \<and> set (drop p xs) \<subseteq> set (drop j es)"

lemma distinct_concat_nth:
  "distinct (concat ess) \<Longrightarrow> k < length ess \<Longrightarrow> c < length ess \<Longrightarrow> k \<noteq> c \<Longrightarrow> set (ess ! k) \<inter> set (ess ! c) = {}"
proof (induction ess arbitrary: k c)
  case (Cons xs ess)
  have other: "set xs \<inter> set (ess ! n) = {}" if "n < length ess" for n
    using Cons.prems(1) that by (fastforce simp: in_set_conv_nth)
  show ?case using Cons other by (cases k; cases c) (auto simp: Int_commute)
qed simp

context key_order
begin

lemma merged_distinct: "merged compare ess es \<Longrightarrow> distinct es" "merged compare ess es \<Longrightarrow> distinct (concat ess)"
  using ascending_distinct [of es] mset_eq_imp_distinct_iff [of es "concat ess"] by (auto simp: merged_def)

lemma merged_apart:
  "merged compare ess es \<Longrightarrow> k < length ess \<Longrightarrow> c < length ess \<Longrightarrow> k \<noteq> c \<Longrightarrow> set (ess ! k) \<inter> set (ess ! c) = {}"
  by (rule distinct_concat_nth [OF merged_distinct(2)])

lemma merged_set: "merged compare ess es \<Longrightarrow> set es = (\<Union>xs \<in> set ess. set xs)"
  using mset_eq_setD [of es "concat ess"] by (auto simp: merged_def)

lemma merged_ascending: "merged compare ess es \<Longrightarrow> k < length ess \<Longrightarrow> ascending compare (ess ! k)"
  by (simp add: merged_def)

text \<open>Among the entries at the cut, the next one of the union is the smallest.\<close>

lemma cut_smallest:
  assumes "merged compare ess es" "\<forall>k<length ess. cut es j (ess ! k) (ps k)" "j < length es"
  obtains c where "c < length ess" "ps c < length (ess ! c)" "ess ! c ! ps c = es ! j"
    "\<And>k. k < length ess \<Longrightarrow> k \<noteq> c \<Longrightarrow> ps k < length (ess ! k) \<Longrightarrow> compare (fst (es ! j)) (fst (ess ! k ! ps k)) < 0"
proof -
  have asc: "ascending compare es" using assms(1) by (simp add: merged_def)
  have head: "ess ! k ! ps k \<in> set (drop j es)" if "k < length ess" "ps k < length (ess ! k)" for k
    using assms(2) that by (fastforce simp: cut_def Cons_nth_drop_Suc [symmetric])
  have "es ! j \<in> set es" using assms(3) by simp
  then obtain c where c: "c < length ess" "es ! j \<in> set (ess ! c)"
    using merged_set [OF assms(1)] by (metis UN_E in_set_conv_nth)
  have "es ! j \<notin> set (take j es)"
    using merged_distinct(1) [OF assms(1)] assms(3) by (auto simp: in_set_conv_nth nth_eq_iff_index_eq)
  moreover have "set (ess ! c) = set (take (ps c) (ess ! c)) \<union> set (drop (ps c) (ess ! c))"
    by (metis append_take_drop_id set_append)
  moreover have "set (take (ps c) (ess ! c)) \<subseteq> set (take j es)" using assms(2) c(1) by (simp add: cut_def)
  ultimately have "es ! j \<in> set (drop (ps c) (ess ! c))" using c(2) by blast
  then obtain n where n: "ess ! c ! (ps c + n) = es ! j" "n < length (ess ! c) - ps c" by (auto simp: in_set_conv_nth)
  have "n = 0"
  proof (rule ccontr)
    assume "n \<noteq> 0"
    then have "compare (fst (ess ! c ! ps c)) (fst (es ! j)) < 0"
      using ascending_nth [OF merged_ascending [OF assms(1) c(1)], of "ps c" "ps c + n"] n by simp
    moreover have "compare (fst (es ! j)) (fst (ess ! c ! ps c)) \<le> 0" using drop_le [OF asc head [OF c(1)]] n(2) by simp
    ultimately show False using not_less by blast
  qed
  then have now: "ps c < length (ess ! c)" "ess ! c ! ps c = es ! j" using n by simp_all
  show thesis
  proof (rule that [OF c(1) now])
    fix k
    assume k: "k < length ess" "k \<noteq> c" "ps k < length (ess ! k)"
    then have "ess ! k ! ps k \<noteq> es ! j" using merged_apart [OF assms(1) k(1) c(1) k(2)] c(2) by (metis disjoint_iff nth_mem)
    then show "compare (fst (es ! j)) (fst (ess ! k ! ps k)) < 0" by (rule drop_less [OF asc head [OF k(1,3)]])
  qed
qed

lemma cut_end: "cut es (length es) xs p \<Longrightarrow> p = length xs"
  by (auto simp: cut_def)

lemma cut_next:
  assumes "merged compare ess es" "\<forall>k<length ess. cut es j (ess ! k) (ps k)" "j < length es"
    "c < length ess" "ps c < length (ess ! c)" "ess ! c ! ps c = es ! j"
  shows "\<forall>k<length ess. cut es (Suc j) (ess ! k) ((ps(c := Suc (ps c))) k)"
proof (intro allI impI)
  fix k
  assume k: "k < length ess"
  then have cut: "cut es j (ess ! k) (ps k)" using assms(2) by simp
  have es: "set (drop j es) = insert (es ! j) (set (drop (Suc j) es))" "set (take (Suc j) es) = insert (es ! j) (set (take j es))"
    using assms(3) by (simp_all add: Cons_nth_drop_Suc [symmetric] take_Suc_conv_app_nth)
  show "cut es (Suc j) (ess ! k) ((ps(c := Suc (ps c))) k)"
  proof (cases "k = c")
    case True
    have "distinct (ess ! c)" using ascending_distinct merged_ascending [OF assms(1,4)] by blast
    then have "es ! j \<notin> set (drop (Suc (ps c)) (ess ! c))"
      using assms(5,6) by (metis Cons_nth_drop_Suc distinct.simps(2) distinct_drop)
    moreover have "set (drop (Suc (ps c)) (ess ! c)) \<subseteq> set (drop (ps c) (ess ! c))" by (simp add: set_drop_subset_set_drop)
    moreover have "set (take (Suc (ps c)) (ess ! c)) = insert (es ! j) (set (take (ps c) (ess ! c)))"
      using assms(5,6) by (simp add: take_Suc_conv_app_nth)
    ultimately show ?thesis using cut True assms(5) es by (auto simp: cut_def)
  next
    case False
    then have "es ! j \<notin> set (ess ! k)" using merged_apart [OF assms(1) k assms(4)] assms(5,6) by (metis disjoint_iff nth_mem)
    then have "es ! j \<notin> set (drop (ps k) (ess ! k))" by (metis in_set_dropD)
    then show ?thesis using cut False es by (auto simp: cut_def)
  qed
qed

lemma cut_prev:
  assumes "merged compare ess es" "\<forall>k<length ess. cut es (Suc i) (ess ! k) ((qs(c := Suc p)) k)" "i < length es"
    "c < length ess" "p < length (ess ! c)" "ess ! c ! p = es ! i"
  shows "\<forall>k<length ess. cut es i (ess ! k) ((qs(c := p)) k)"
proof (intro allI impI)
  fix k
  assume k: "k < length ess"
  then have cut: "cut es (Suc i) (ess ! k) ((qs(c := Suc p)) k)" using assms(2) by simp
  have es: "set (drop i es) = insert (es ! i) (set (drop (Suc i) es))" "set (take (Suc i) es) = insert (es ! i) (set (take i es))"
    using assms(3) by (simp_all add: Cons_nth_drop_Suc [symmetric] take_Suc_conv_app_nth)
  show "cut es i (ess ! k) ((qs(c := p)) k)"
  proof (cases "k = c")
    case True
    have "distinct (ess ! c)" using ascending_distinct merged_ascending [OF assms(1,4)] by blast
    then have "es ! i \<notin> set (take p (ess ! c))"
      using assms(5,6) by (auto simp: in_set_conv_nth nth_eq_iff_index_eq simp flip: assms(6))
    moreover have "set (take p (ess ! c)) \<subseteq> set (take (Suc p) (ess ! c))" by (simp add: set_take_subset_set_take)
    moreover have "set (drop p (ess ! c)) = insert (es ! i) (set (drop (Suc p) (ess ! c)))"
      using assms(5,6) by (simp add: Cons_nth_drop_Suc [symmetric])
    ultimately show ?thesis using cut True es by (auto simp: cut_def)
  next
    case False
    then have "es ! i \<notin> set (ess ! k)" using merged_apart [OF assms(1) k assms(4)] assms(5,6) by (metis disjoint_iff nth_mem)
    then have "es ! i \<notin> set (take (qs k) (ess ! k))" by (metis in_set_takeD)
    then show ?thesis using cut False es by (auto simp: cut_def)
  qed
qed

lemma cut_seek:
  assumes "merged compare ess es" "k < length ess"
  shows "cut es (first_ge compare es t) (ess ! k) (first_ge compare (ess ! k) t)"
proof -
  have "set (ess ! k) \<subseteq> set es" using merged_set [OF assms(1)] assms(2) by auto
  moreover have "ascending compare es" using assms(1) by (simp add: merged_def)
  ultimately show ?thesis
    using first_ge_split [of es t] first_ge_split [OF merged_ascending [OF assms], of t] first_ge_le by (auto simp: cut_def)
qed

text \<open>The same at the other end: the union in reverse order, for the reversed comparison.\<close>

lemma reversed: "key_order (\<lambda>a b. - compare a b)"
proof
  show "- compare a b < 0 \<longleftrightarrow> 0 < - compare b a" for a b using sym [of b a] by simp
  show "- compare a c \<le> 0" if "- compare a b \<le> 0" "- compare b c \<le> 0" for a b c
    using that trans [of c b a] not_less [of a b] not_less [of b c] not_less [of a c] sym by (metis neg_0_le_iff_le neg_le_0_iff_le not_less linorder_not_le)
qed

lemma ascending_rev: "ascending compare es \<Longrightarrow> ascending (\<lambda>a b. - compare a b) (rev es)"
  using sym by (simp add: ascending_def sorted_wrt_rev)

lemma merged_rev: "merged compare ess es \<Longrightarrow> merged (\<lambda>a b. - compare a b) (map rev ess) (rev es)"
proof -
  have "mset (concat (map rev ess)) = mset (concat ess)" by (induction ess) simp_all
  then show "merged compare ess es \<Longrightarrow> ?thesis" by (auto simp: merged_def ascending_rev)
qed

end

lemma cut_rev: "j \<le> length es \<Longrightarrow> cut es j xs p \<Longrightarrow> cut (rev es) (length es - j) (rev xs) (length xs - p)"
  by (auto simp: cut_def take_rev drop_rev)

context key_order
begin

lemma cut_largest:
  assumes "merged compare ess es" "\<forall>k<length ess. cut es (Suc i) (ess ! k) (qs k)" "i < length es"
  obtains c where "c < length ess" "0 < qs c" "ess ! c ! (qs c - 1) = es ! i"
    "\<And>k. k < length ess \<Longrightarrow> k \<noteq> c \<Longrightarrow> 0 < qs k \<Longrightarrow> compare (fst (ess ! k ! (qs k - 1))) (fst (es ! i)) < 0"
proof -
  define ps where "ps k = length (ess ! k) - qs k" for k
  have qs: "qs k \<le> length (ess ! k)" if "k < length ess" for k using assms(2) that by (simp add: cut_def)
  have nth: "rev (ess ! k) ! ps k = ess ! k ! (qs k - 1)" if "k < length ess" "0 < qs k" for k
    using qs [OF that(1)] that(2) by (simp add: ps_def rev_nth)
  have "\<forall>k<length (map rev ess). cut (rev es) (length es - Suc i) (map rev ess ! k) (ps k)"
    using assms(2,3) by (auto simp: ps_def intro!: cut_rev)
  moreover have "length es - Suc i < length (rev es)" using assms(3) by simp
  ultimately obtain c where c0: "c < length (map rev ess)" "ps c < length (map rev ess ! c)"
      "map rev ess ! c ! ps c = rev es ! (length es - Suc i)"
      "\<And>k. k < length (map rev ess) \<Longrightarrow> k \<noteq> c \<Longrightarrow> ps k < length (map rev ess ! k) \<Longrightarrow>
         - compare (fst (rev es ! (length es - Suc i))) (fst (map rev ess ! k ! ps k)) < 0"
    by (rule key_order.cut_smallest [OF reversed merged_rev [OF assms(1)]]) blast
  then have c: "c < length ess" "ps c < length (ess ! c)" "rev (ess ! c) ! ps c = rev es ! (length es - Suc i)"
    by simp_all
  have least: "- compare (fst (rev es ! (length es - Suc i))) (fst (rev (ess ! k) ! ps k)) < 0"
    if "k < length ess" "k \<noteq> c" "ps k < length (ess ! k)" for k using c0(4) [of k] that by simp
  have e: "rev es ! (length es - Suc i) = es ! i" using assms(3) by (simp add: rev_nth)
  have pos: "0 < qs c" using c(2) by (simp add: ps_def)
  show thesis
  proof (rule that [OF c(1) pos])
    show "ess ! c ! (qs c - 1) = es ! i" using c(3) e nth [OF c(1) pos] by simp
    show "compare (fst (ess ! k ! (qs k - 1))) (fst (es ! i)) < 0" if "k < length ess" "k \<noteq> c" "0 < qs k" for k
      using least [OF that(1,2)] nth [OF that(1,3)] qs [OF that(1)] that(3) e sym by (simp add: ps_def)
  qed
qed

end

text \<open>Which child the two loops find, when one is below (or above) all the others.\<close>

lemma smallest_child_unique:
  assumes "key_order compare" "acc = Some x \<or> x \<in> set ws \<and> w_valid (snd x)"
    "\<And>y. y \<in> set ws \<or> acc = Some y \<Longrightarrow> w_valid (snd y) \<Longrightarrow> y \<noteq> x \<Longrightarrow> compare (w_key (snd x)) (w_key (snd y)) < 0"
    "\<And>y. acc = Some y \<Longrightarrow> w_valid (snd y)"
  shows "smallest_child compare ws acc = Some x"
  using assms(2-)
proof (induction ws arbitrary: acc)
  case (Cons y ws)
  obtain i child where y: "y = (i, child)" by (cases y)
  define acc' where "acc' = (if w_valid child then
      case acc of None \<Rightarrow> Some (i, child) | Some (j, s) \<Rightarrow> if compare (w_key child) (w_key s) < 0 then Some (i, child) else acc
    else acc)"
  have "smallest_child compare ws acc' = Some x"
  proof (rule Cons.IH)
    show "acc' = Some x \<or> x \<in> set ws \<and> w_valid (snd x)"
    proof (cases "y = x")
      case True
      then have "acc = Some z \<Longrightarrow> w_valid child \<Longrightarrow> z \<noteq> x \<Longrightarrow> compare (w_key child) (w_key (snd z)) < 0" for z
        using Cons.prems(2) [of z] Cons.prems(3) [of z] y by auto
      then show ?thesis using Cons.prems(1,3) True y by (cases acc) (auto simp: acc'_def split: if_splits)
    next
      case False
      have "\<not> compare (w_key child) (w_key (snd x)) < 0" if "w_valid child"
        using Cons.prems(2) [of y] that False y key_order.sym [OF assms(1), of "w_key (snd x)" "w_key child"] by simp
      then show ?thesis using Cons.prems(1) False y by (cases acc) (auto simp: acc'_def)
    qed
    show "compare (w_key (snd x)) (w_key (snd z)) < 0"
      if "z \<in> set ws \<or> acc' = Some z" "w_valid (snd z)" "z \<noteq> x" for z
      using that Cons.prems(2) [of z] y by (auto simp: acc'_def split: if_splits option.splits)
    show "w_valid (snd z)" if "acc' = Some z" for z
      using that Cons.prems(3) [of z] by (auto simp: acc'_def split: if_splits option.splits)
  qed
  then show ?case by (simp add: y acc'_def)
qed simp

lemma smallest_child_none: "\<forall>y \<in> set ws. \<not> w_valid (snd y) \<Longrightarrow> smallest_child compare ws None = None"
  by (induction ws) auto

lemma largest_child_smallest: "largest_child compare ws acc = smallest_child (\<lambda>a b. - compare a b) ws acc"
  by (induction compare ws acc rule: largest_child.induct) (auto split: option.split)

subsection \<open>The merging iterator keeps the contract\<close>

text \<open>
  The children are over the lists \<open>ess\<close>, at the positions \<open>ps\<close>. In forward direction, the positions cut the union at
  the current entry; in reverse direction, they are one before a cut behind the current entry.
\<close>

definition children_pos ::
    "((slice \<times> slice) list \<Rightarrow> 'i \<Rightarrow> nat \<Rightarrow> bool) \<Rightarrow> (slice \<times> slice) list list \<Rightarrow> (nat \<Rightarrow> nat) \<Rightarrow> 'i IteratorWrapper list \<Rightarrow> bool" where
  "children_pos pos ess ps ws \<longleftrightarrow> length ws = length ess \<and> (\<forall>k<length ess. wrapper_pos pos (ess ! k) (ws ! k) (ps k))"

definition merge_pos ::
    "(slice \<Rightarrow> slice \<Rightarrow> int) \<Rightarrow> ((slice \<times> slice) list \<Rightarrow> 'i \<Rightarrow> nat \<Rightarrow> bool) \<Rightarrow>
     (slice \<times> slice) list \<Rightarrow> 'i MergingIterator \<Rightarrow> nat \<Rightarrow> bool" where
  "merge_pos compare pos es m i \<longleftrightarrow>
     (\<exists>ess ps. merged compare ess es \<and> children_pos pos ess ps (mi_children m) \<and> i \<le> length es \<and>
        (if i < length es then
           (\<exists>c<length ess. mi_current m = Some c \<and> ps c < length (ess ! c) \<and> ess ! c ! ps c = es ! i) \<and>
           (case mi_direction m of kForward \<Rightarrow> \<forall>k<length ess. cut es i (ess ! k) (ps k)
            | kReverse \<Rightarrow> \<exists>qs. (\<forall>k<length ess. cut es (Suc i) (ess ! k) (qs k) \<and> ps k = one_before (qs k) (length (ess ! k))))
         else mi_current m = None))"

lemma merge_posI:
  assumes "merged compare ess es" "children_pos pos ess ps (mi_children m)" "i < length es"
    "c < length ess" "mi_current m = Some c" "ps c < length (ess ! c)" "ess ! c ! ps c = es ! i"
  shows "mi_direction m = kForward \<Longrightarrow> \<forall>k<length ess. cut es i (ess ! k) (ps k) \<Longrightarrow> merge_pos compare pos es m i"
    "mi_direction m = kReverse \<Longrightarrow> \<forall>k<length ess. cut es (Suc i) (ess ! k) (qs k) \<and> ps k = one_before (qs k) (length (ess ! k)) \<Longrightarrow>
     merge_pos compare pos es m i"
proof -
  have cur: "\<exists>c<length ess. mi_current m = Some c \<and> ps c < length (ess ! c) \<and> ess ! c ! ps c = es ! i" using assms by blast
  show "mi_direction m = kForward \<Longrightarrow> \<forall>k<length ess. cut es i (ess ! k) (ps k) \<Longrightarrow> merge_pos compare pos es m i"
    unfolding merge_pos_def using assms(1-3) cur by (intro exI [of _ ess] exI [of _ ps]) simp
  show "mi_direction m = kReverse \<Longrightarrow> \<forall>k<length ess. cut es (Suc i) (ess ! k) (qs k) \<and> ps k = one_before (qs k) (length (ess ! k)) \<Longrightarrow>
     merge_pos compare pos es m i"
    unfolding merge_pos_def using assms(1-3) cur by (intro exI [of _ ess] exI [of _ ps]) auto
qed

lemma map_children_Some:
  "\<forall>w \<in> set ws. \<exists>w'. f w = Some w' \<Longrightarrow> map_children f ws = Some (map (\<lambda>w. the (f w)) ws)"
  by (induction ws) auto

lemma map_children_pos:
  assumes "children_pos pos ess ps ws"
    "\<And>k w. k < length ess \<Longrightarrow> wrapper_pos pos (ess ! k) w (ps k) \<Longrightarrow> \<exists>w'. f w = Some w' \<and> wrapper_pos pos (ess ! k) w' (ps' k)"
  shows "\<exists>ws'. map_children f ws = Some ws' \<and> children_pos pos ess ps' ws'"
proof -
  have all: "\<exists>w'. f (ws ! k) = Some w' \<and> wrapper_pos pos (ess ! k) w' (ps' k)" if "k < length ess" for k
    using assms that by (simp add: children_pos_def)
  have len: "length ws = length ess" using assms(1) by (simp add: children_pos_def)
  have "map_children f ws = Some (map (\<lambda>w. the (f w)) ws)"
    using all len by (intro map_children_Some) (metis in_set_conv_nth)
  moreover have "children_pos pos ess ps' (map (\<lambda>w. the (f w)) ws)" using all len by (fastforce simp: children_pos_def)
  ultimately show ?thesis by blast
qed

lemma other_children_pos:
  assumes "children_pos pos ess ps ws"
    "\<And>k w. k < length ess \<Longrightarrow> k \<noteq> c \<Longrightarrow> wrapper_pos pos (ess ! k) w (ps k) \<Longrightarrow> \<exists>w'. f w = Some w' \<and> wrapper_pos pos (ess ! k) w' (ps' k)"
    "ps' c = ps c"
  shows "\<exists>ws'. other_children f c ws = Some ws' \<and> children_pos pos ess ps' ws'"
proof -
  define g where "g = (\<lambda>(i, child). if i \<noteq> c then f child else Some child)"
  have len: "length ws = length ess" using assms(1) by (simp add: children_pos_def)
  have all: "\<exists>w'. g (k, ws ! k) = Some w' \<and> wrapper_pos pos (ess ! k) w' (ps' k)" if "k < length ess" for k
    using assms that by (auto simp: children_pos_def g_def)
  have "map_children g (enumerate 0 ws) = Some (map (\<lambda>w. the (g w)) (enumerate 0 ws))"
    using all len by (intro map_children_Some) (fastforce simp: in_set_enumerate_eq)
  moreover have "children_pos pos ess ps' (map (\<lambda>w. the (g w)) (enumerate 0 ws))"
    using all len by (fastforce simp: children_pos_def nth_enumerate_eq)
  ultimately show ?thesis by (simp add: other_children_def g_def)
qed

context iterator_class
begin

lemma children_ascending: "children_pos pos ess ps ws \<Longrightarrow> k < length ess \<Longrightarrow> ascending compare (ess ! k)"
  using wrapper_ops(3) by (auto simp: children_pos_def)

lemma child_seekable: "children_pos pos ess ps ws \<Longrightarrow> k < length ess \<Longrightarrow> j < length (ess ! k) \<Longrightarrow> seekable (fst (ess ! k ! j))"
  using pos_seekable nth_mem unfolding children_pos_def wrapper_pos_def by blast

text \<open>The choice of the current child, after the children have been brought to a cut.\<close>

lemma find_smallest:
  assumes "merged compare ess es" "children_pos pos ess ps (mi_children m)" "j \<le> length es"
    "\<forall>k<length ess. cut es j (ess ! k) (ps k)"
  shows "merge_pos compare pos es ((FindSmallest compare m)\<lparr>mi_direction := kForward\<rparr>) j"
proof -
  have len: "length (mi_children m) = length ess" using assms(2) by (simp add: children_pos_def)
  have valid: "w_valid (mi_children m ! k) \<longleftrightarrow> ps k < length (ess ! k)" "ps k < length (ess ! k) \<Longrightarrow> w_key (mi_children m ! k) = fst (ess ! k ! ps k)"
    if "k < length ess" for k using assms(2) that wrapper_ops(1,5) by (auto simp: children_pos_def)
  have inset: "y \<in> set (enumerate 0 (mi_children m)) \<longleftrightarrow> fst y < length ess \<and> snd y = mi_children m ! fst y" for y
    by (auto simp: in_set_enumerate_eq len)
  show ?thesis
  proof (cases "j < length es")
    case False
    then have "cut es (length es) (ess ! k) (ps k)" if "k < length ess" for k using assms(3,4) that by simp
    then have "ps k = length (ess ! k)" if "k < length ess" for k using that cut_end by blast
    then have "smallest_child compare (enumerate 0 (mi_children m)) None = None"
      by (intro smallest_child_none ballI) (auto simp: inset valid)
    then show ?thesis using assms(1-3) False by (auto simp: merge_pos_def FindSmallest_def)
  next
    case True
    obtain c where c: "c < length ess" "ps c < length (ess ! c)" "ess ! c ! ps c = es ! j"
        "\<And>k. k < length ess \<Longrightarrow> k \<noteq> c \<Longrightarrow> ps k < length (ess ! k) \<Longrightarrow> compare (fst (es ! j)) (fst (ess ! k ! ps k)) < 0"
      using cut_smallest [OF assms(1,4) True] by blast
    have "smallest_child compare (enumerate 0 (mi_children m)) None = Some (c, mi_children m ! c)"
    proof (rule smallest_child_unique [OF key_order_axioms])
      show "compare (w_key (snd (c, mi_children m ! c))) (w_key (snd y)) < 0"
        if y: "y \<in> set (enumerate 0 (mi_children m)) \<or> None = Some y" "w_valid (snd y)" "y \<noteq> (c, mi_children m ! c)" for y
      proof -
        have "fst y \<noteq> c" using y by (cases y) (auto simp: inset)
        then show ?thesis using y c valid by (auto simp: inset)
      qed
    qed (use c valid in \<open>auto simp: inset\<close>)
    then show ?thesis
      using assms(2,4) c(1-3) by (intro merge_posI(1) [OF assms(1) _ True]) (simp_all add: FindSmallest_def)
  qed
qed

lemma find_largest:
  assumes "merged compare ess es" "children_pos pos ess ps (mi_children m)" "j \<le> length es"
    "\<forall>k<length ess. cut es j (ess ! k) (qs k) \<and> ps k = one_before (qs k) (length (ess ! k))"
  shows "merge_pos compare pos es ((FindLargest compare m)\<lparr>mi_direction := kReverse\<rparr>) (one_before j (length es))"
proof -
  have len: "length (mi_children m) = length ess" using assms(2) by (simp add: children_pos_def)
  have q: "qs k \<le> length (ess ! k)" if "k < length ess" for k using assms(4) that by (simp add: cut_def)
  have valid: "w_valid (mi_children m ! k) \<longleftrightarrow> 0 < qs k" "0 < qs k \<Longrightarrow> w_key (mi_children m ! k) = fst (ess ! k ! (qs k - 1))"
    if "k < length ess" for k
  proof -
    have w: "wrapper_pos pos (ess ! k) (mi_children m ! k) (ps k)" using assms(2) that by (simp add: children_pos_def)
    show "w_valid (mi_children m ! k) \<longleftrightarrow> 0 < qs k" "0 < qs k \<Longrightarrow> w_key (mi_children m ! k) = fst (ess ! k ! (qs k - 1))"
      using wrapper_ops(1,5) [OF w] assms(4) that q [OF that] by (auto simp: one_before_def)
  qed
  have inset: "y \<in> set (enumerate 0 (mi_children m)) \<longleftrightarrow> fst y < length ess \<and> snd y = mi_children m ! fst y" for y
    by (auto simp: in_set_enumerate_eq len)
  show ?thesis
  proof (cases j)
    case 0
    then have "qs k = 0" if "k < length ess" for k using assms(4) q [OF that] that by (auto simp: cut_def)
    then have "largest_child compare (rev (enumerate 0 (mi_children m))) None = None"
      unfolding largest_child_smallest by (intro smallest_child_none ballI) (auto simp: inset valid)
    then show ?thesis using assms(1,2) 0 by (auto simp: merge_pos_def FindLargest_def one_before_def)
  next
    case (Suc i)
    obtain c where c: "c < length ess" "0 < qs c" "ess ! c ! (qs c - 1) = es ! i"
        "\<And>k. k < length ess \<Longrightarrow> k \<noteq> c \<Longrightarrow> 0 < qs k \<Longrightarrow> compare (fst (ess ! k ! (qs k - 1))) (fst (es ! i)) < 0"
      using cut_largest [OF assms(1), of i qs] assms(3,4) Suc by auto
    have "largest_child compare (rev (enumerate 0 (mi_children m))) None = Some (c, mi_children m ! c)"
      unfolding largest_child_smallest
    proof (rule smallest_child_unique [OF reversed])
      show "- compare (w_key (snd (c, mi_children m ! c))) (w_key (snd y)) < 0"
        if y: "y \<in> set (rev (enumerate 0 (mi_children m))) \<or> None = Some y" "w_valid (snd y)" "y \<noteq> (c, mi_children m ! c)" for y
      proof -
        have "fst y \<noteq> c" using y by (cases y) (auto simp: inset)
        then show ?thesis using y c valid sym by (auto simp: inset)
      qed
    qed (use c valid in \<open>auto simp: inset\<close>)
    moreover have "ps c = qs c - 1" "ps c < length (ess ! c)" using assms(4) c q [OF c(1)] by (auto simp: one_before_def)
    moreover have "one_before j (length es) = i" "i < length es" using Suc assms(3) by (simp_all add: one_before_def)
    ultimately show ?thesis
      using assms(2,4) c(1-3) Suc by (auto intro!: merge_posI(2) [OF assms(1), of _ ps] simp: FindLargest_def)
  qed
qed

lemma merging_some: "merge_pos compare pos es m i \<Longrightarrow> i < length es \<Longrightarrow> \<exists>c. mi_current m = Some c"
  by (auto simp: merge_pos_def)

lemma merging_current:
  assumes "merge_pos compare pos es m i" "i < length es" "mi_current m = Some c"
  obtains ess ps where "merged compare ess es" "children_pos pos ess ps (mi_children m)" "c < length ess"
    "ps c < length (ess ! c)" "ess ! c ! ps c = es ! i"
    "mi_direction m = kForward \<Longrightarrow> \<forall>k<length ess. cut es i (ess ! k) (ps k)"
    "mi_direction m = kReverse \<Longrightarrow>
       \<exists>qs. \<forall>k<length ess. cut es (Suc i) (ess ! k) (qs k) \<and> ps k = one_before (qs k) (length (ess ! k))"
    "current_child m = Some (mi_children m ! c)" "wrapper_pos pos (ess ! c) (mi_children m ! c) (ps c)"
proof -
  obtain ess ps c' where c: "merged compare ess es" "children_pos pos ess ps (mi_children m)" "c' < length ess" "mi_current m = Some c'"
      "ps c' < length (ess ! c')" "ess ! c' ! ps c' = es ! i"
      "case mi_direction m of kForward \<Rightarrow> \<forall>k<length ess. cut es i (ess ! k) (ps k)
       | kReverse \<Rightarrow> \<exists>qs. \<forall>k<length ess. cut es (Suc i) (ess ! k) (qs k) \<and> ps k = one_before (qs k) (length (ess ! k))"
    using assms(1,2) unfolding merge_pos_def by (metis (no_types, lifting))
  then show thesis using assms(3) by (intro that [of ess ps]) (auto simp: current_child_def children_pos_def)
qed

lemma move_current_pos:
  assumes "children_pos pos ess ps (mi_children m)" "mi_current m = Some c" "c < length ess"
    "\<exists>w. f (mi_children m ! c) = Some w \<and> wrapper_pos pos (ess ! c) w p"
  shows "\<exists>m'. move_current f m = Some m' \<and> children_pos pos ess (ps(c := p)) (mi_children m') \<and> mi_direction m' = mi_direction m"
  using assms by (auto simp: move_current_def current_child_def children_pos_def nth_list_update)

lemma merging_key_value:
  assumes "merge_pos compare pos es m i" "i < length es"
  shows "Merging_key m = Some (fst (es ! i))" "Merging_value vt m = Some (snd (es ! i))"
proof -
  obtain c where c: "mi_current m = Some c" using merging_some [OF assms] by blast
  obtain ess ps where "current_child m = Some (mi_children m ! c)" "wrapper_pos pos (ess ! c) (mi_children m ! c) (ps c)"
      "ps c < length (ess ! c)" "ess ! c ! ps c = es ! i"
    by (rule merging_current [OF assms c]) blast
  then show "Merging_key m = Some (fst (es ! i))" "Merging_value vt m = Some (snd (es ! i))"
    using wrapper_ops(4,6) by (auto simp: Merging_key_def Merging_value_def)
qed

text \<open>No other child has the key of the current entry.\<close>

lemma other_key:
  assumes "merged compare ess es" "c < length ess" "ps c < length (ess ! c)" "ess ! c ! ps c = es ! i" "i < length es"
    "k < length ess" "k \<noteq> c" "n < length (ess ! k)"
  shows "compare (fst (es ! i)) (fst (ess ! k ! n)) \<noteq> 0" "es ! i \<notin> set (ess ! k)"
proof -
  show other: "es ! i \<notin> set (ess ! k)" using merged_apart [OF assms(1,6,2,7)] assms(3,4) by (metis disjoint_iff nth_mem)
  have "ess ! k ! n \<in> set es" using merged_set [OF assms(1)] assms(6,8) by (metis UN_I nth_mem)
  then obtain j where j: "j < length es" "ess ! k ! n = es ! j" by (metis in_set_conv_nth)
  have "i \<noteq> j" using other j assms(8) by (metis nth_mem)
  then show "compare (fst (es ! i)) (fst (ess ! k ! n)) \<noteq> 0"
    using ascending_nth [of es i j] ascending_nth [of es j i] j assms(1,5) equal_sym [of "fst (es ! i)" "fst (es ! j)"]
    by (cases i j rule: linorder_cases) (auto simp: merged_def)
qed

lemma turn_forward:
  assumes "merge_pos compare pos es m i" "i < length es" "mi_current m = Some c"
  obtains ess ps m' where
    "(if mi_direction m \<noteq> kForward then
        do { k \<leftarrow> Merging_key m; ws \<leftarrow> other_children (after_key compare vt k) c (mi_children m);
             Some (m\<lparr>mi_children := ws, mi_direction := kForward\<rparr>) }
      else Some m) = Some m'"
    "merged compare ess es" "children_pos pos ess ps (mi_children m')" "mi_direction m' = kForward" "mi_current m' = Some c"
    "c < length ess" "ps c < length (ess ! c)" "ess ! c ! ps c = es ! i" "\<forall>k<length ess. cut es i (ess ! k) (ps k)"
proof -
  obtain ess ps where cur: "merged compare ess es" "children_pos pos ess ps (mi_children m)" "c < length ess"
      "ps c < length (ess ! c)" "ess ! c ! ps c = es ! i"
      "mi_direction m = kForward \<Longrightarrow> \<forall>k<length ess. cut es i (ess ! k) (ps k)"
    by (rule merging_current [OF assms]) blast
  show thesis
  proof (cases "mi_direction m")
    case kForward
    then show ?thesis using that [of m ess ps] cur assms(3) by simp
  next
    case kReverse
    define key where "key = fst (es ! i)"
    have key_ok: "seekable key" using child_seekable [OF cur(2-4)] cur(5) by (simp add: key_def)
    define ps' where "ps' = (\<lambda>k. first_ge compare (ess ! k) key)(c := ps c)"
    have "\<exists>ws. other_children (after_key compare vt key) c (mi_children m) = Some ws \<and> children_pos pos ess ps' ws"
    proof (rule other_children_pos [OF cur(2)])
      fix k w
      assume k: "k < length ess" "k \<noteq> c" "wrapper_pos pos (ess ! k) w (ps k)"
      obtain w' where w': "Wrapper_Seek vt key w = Some w'" "wrapper_pos pos (ess ! k) w' (first_ge compare (ess ! k) key)"
        using wrapper_ops(12) [OF k(3)] key_ok by blast
      have "\<not> (w_valid w' \<and> compare key (w_key w') = 0)"
        using wrapper_ops(1,5) [OF w'(2)] other_key(1) [of ess es c ps i k] cur(1,3-5) assms(2) k(1,2) by (auto simp: key_def)
      then show "\<exists>w'. after_key compare vt key w = Some w' \<and> wrapper_pos pos (ess ! k) w' (ps' k)"
        using w' k(2) by (auto simp: after_key_def ps'_def)
    qed (simp add: ps'_def)
    then obtain ws where ws: "other_children (after_key compare vt key) c (mi_children m) = Some ws" "children_pos pos ess ps' ws" by blast
    have asc: "ascending compare es" using cur(1) by (simp add: merged_def)
    have "cut es i (ess ! k) (ps' k)" if "k < length ess" for k
      using cut_seek [OF cur(1) that, of key] first_ge_nth [OF asc assms(2)] first_ge_nth [OF merged_ascending [OF cur(1,3)] cur(4)] cur(5)
      by (auto simp: ps'_def key_def)
    then show ?thesis
      using that [of "m\<lparr>mi_children := ws, mi_direction := kForward\<rparr>" ess ps'] ws cur kReverse assms(3) merging_key_value(1) [OF assms(1,2)]
      by (simp add: key_def ps'_def)
  qed
qed

lemma turn_reverse:
  assumes "merge_pos compare pos es m i" "i < length es" "mi_current m = Some c"
  obtains ess ps qs m' where
    "(if mi_direction m \<noteq> kReverse then
        do { k \<leftarrow> Merging_key m; ws \<leftarrow> other_children (before_key vt k) c (mi_children m);
             Some (m\<lparr>mi_children := ws, mi_direction := kReverse\<rparr>) }
      else Some m) = Some m'"
    "merged compare ess es" "children_pos pos ess ps (mi_children m')" "mi_direction m' = kReverse" "mi_current m' = Some c"
    "c < length ess" "ps c < length (ess ! c)" "ess ! c ! ps c = es ! i"
    "\<forall>k<length ess. cut es (Suc i) (ess ! k) (qs k) \<and> ps k = one_before (qs k) (length (ess ! k))"
proof -
  obtain ess ps where cur: "merged compare ess es" "children_pos pos ess ps (mi_children m)" "c < length ess"
      "ps c < length (ess ! c)" "ess ! c ! ps c = es ! i"
      "mi_direction m = kForward \<Longrightarrow> \<forall>k<length ess. cut es i (ess ! k) (ps k)"
      "mi_direction m = kReverse \<Longrightarrow>
         \<exists>qs. \<forall>k<length ess. cut es (Suc i) (ess ! k) (qs k) \<and> ps k = one_before (qs k) (length (ess ! k))"
    by (rule merging_current [OF assms]) blast
  show thesis
  proof (cases "mi_direction m")
    case kReverse
    then obtain qs where "\<forall>k<length ess. cut es (Suc i) (ess ! k) (qs k) \<and> ps k = one_before (qs k) (length (ess ! k))"
      using cur(7) by blast
    then show ?thesis using that [of m ess ps qs] cur assms(3) kReverse by simp
  next
    case kForward
    define key where "key = fst (es ! i)"
    have key_ok: "seekable key" using child_seekable [OF cur(2-4)] cur(5) by (simp add: key_def)
    define fs where "fs k = first_ge compare (ess ! k) key" for k
    define ps' where "ps' = (\<lambda>k. one_before (fs k) (length (ess ! k)))(c := ps c)"
    have "\<exists>ws. other_children (before_key vt key) c (mi_children m) = Some ws \<and> children_pos pos ess ps' ws"
    proof (rule other_children_pos [OF cur(2)])
      fix k w
      assume k: "k < length ess" "k \<noteq> c" "wrapper_pos pos (ess ! k) w (ps k)"
      obtain w' where w': "Wrapper_Seek vt key w = Some w'" "wrapper_pos pos (ess ! k) w' (fs k)"
        using wrapper_ops(12) [OF k(3)] key_ok by (auto simp: fs_def)
      have "\<exists>w''. (if w_valid w' then Wrapper_Prev vt w' else Wrapper_SeekToLast vt w') = Some w'' \<and>
          wrapper_pos pos (ess ! k) w'' (one_before (fs k) (length (ess ! k)))"
        using wrapper_ops(1,9,11) [OF w'(2)] wrapper_ops(2) [OF w'(2)]
        by (cases "fs k < length (ess ! k)"; cases "length (ess ! k)") (auto simp: one_before_def)
      then show "\<exists>w'. before_key vt key w = Some w' \<and> wrapper_pos pos (ess ! k) w' (ps' k)"
        using w' k(2) by (simp add: before_key_def ps'_def)
    qed (simp add: ps'_def)
    then obtain ws where ws: "other_children (before_key vt key) c (mi_children m) = Some ws" "children_pos pos ess ps' ws" by blast
    have asc: "ascending compare es" using cur(1) by (simp add: merged_def)
    have fc: "fs c = ps c" using first_ge_nth [OF merged_ascending [OF cur(1,3)] cur(4)] cur(5) by (simp add: fs_def key_def)
    have "\<forall>k<length ess. cut es i (ess ! k) (fs k)"
      using cut_seek [OF cur(1), of _ key] first_ge_nth [OF asc assms(2)] by (auto simp: fs_def key_def)
    then have "\<forall>k<length ess. cut es (Suc i) (ess ! k) ((fs(c := Suc (fs c))) k)"
      using cur(4,5) fc by (intro cut_next [OF cur(1) _ assms(2) cur(3)]) simp_all
    moreover have "ps' k = one_before ((fs(c := Suc (fs c))) k) (length (ess ! k))" for k
      by (simp add: ps'_def fc one_before_def)
    ultimately show ?thesis
      using that [of "m\<lparr>mi_children := ws, mi_direction := kReverse\<rparr>" ess ps' "fs(c := Suc (fs c))"] ws cur kForward assms(3)
        merging_key_value(1) [OF assms(1,2)]
      by (simp add: key_def ps'_def)
  qed
qed

lemma merging_next:
  assumes "merge_pos compare pos es m i" "i < length es"
  shows "\<exists>m'. Merging_Next compare vt m = Some m' \<and> merge_pos compare pos es m' (Suc i)"
proof -
  obtain c where c: "mi_current m = Some c" using merging_some [OF assms] by blast
  obtain ess ps m1 where turn: "(if mi_direction m \<noteq> kForward then
        do { k \<leftarrow> Merging_key m; ws \<leftarrow> other_children (after_key compare vt k) c (mi_children m);
             Some (m\<lparr>mi_children := ws, mi_direction := kForward\<rparr>) }
      else Some m) = Some m1"
    and m1: "merged compare ess es" "children_pos pos ess ps (mi_children m1)" "mi_direction m1 = kForward" "mi_current m1 = Some c"
    "c < length ess" "ps c < length (ess ! c)" "ess ! c ! ps c = es ! i" "\<forall>k<length ess. cut es i (ess ! k) (ps k)"
    by (rule turn_forward [OF assms c])
  have "wrapper_pos pos (ess ! c) (mi_children m1 ! c) (ps c)" using m1(2,5) by (simp add: children_pos_def)
  then obtain m2 where m2: "move_current (Wrapper_Next vt) m1 = Some m2" "children_pos pos ess (ps(c := Suc (ps c))) (mi_children m2)"
      "mi_direction m2 = kForward"
    using move_current_pos [OF m1(2,4,5), of "Wrapper_Next vt" "Suc (ps c)"] wrapper_ops(8) m1(3,6) by metis
  have "merge_pos compare pos es ((FindSmallest compare m2)\<lparr>mi_direction := kForward\<rparr>) (Suc i)"
    using assms(2) by (intro find_smallest [OF m1(1) m2(2)] cut_next [OF m1(1,8) assms(2) m1(5-7)]) simp
  moreover have "(FindSmallest compare m2)\<lparr>mi_direction := kForward\<rparr> = FindSmallest compare m2"
    using m2(3) by (cases m2) (simp add: FindSmallest_def)
  moreover have "Merging_Next compare vt m = Some (FindSmallest compare m2)"
    unfolding Merging_Next_def c bind.bind_lunit turn by (simp add: m2(1))
  ultimately show ?thesis by simp
qed

lemma merging_prev:
  assumes "merge_pos compare pos es m i" "i < length es"
  shows "\<exists>m'. Merging_Prev compare vt m = Some m' \<and> merge_pos compare pos es m' (if i = 0 then length es else i - 1)"
proof -
  obtain c where c: "mi_current m = Some c" using merging_some [OF assms] by blast
  obtain ess ps qs m1 where turn: "(if mi_direction m \<noteq> kReverse then
        do { k \<leftarrow> Merging_key m; ws \<leftarrow> other_children (before_key vt k) c (mi_children m);
             Some (m\<lparr>mi_children := ws, mi_direction := kReverse\<rparr>) }
      else Some m) = Some m1"
    and m1: "merged compare ess es" "children_pos pos ess ps (mi_children m1)" "mi_direction m1 = kReverse" "mi_current m1 = Some c"
    "c < length ess" "ps c < length (ess ! c)" "ess ! c ! ps c = es ! i"
    "\<forall>k<length ess. cut es (Suc i) (ess ! k) (qs k) \<and> ps k = one_before (qs k) (length (ess ! k))"
    by (rule turn_reverse [OF assms c])
  have w: "wrapper_pos pos (ess ! c) (mi_children m1 ! c) (ps c)" using m1(2,5) by (simp add: children_pos_def)
  have "ps c = one_before (qs c) (length (ess ! c))" using m1(5,8) by blast
  then have qc: "qs c = Suc (ps c)" using m1(6) by (simp add: one_before_def split: if_splits)
  have "\<exists>w. Wrapper_Prev vt (mi_children m1 ! c) = Some w \<and> wrapper_pos pos (ess ! c) w (one_before (ps c) (length (ess ! c)))"
    using wrapper_ops(9) [OF w m1(6)] unfolding one_before_def .
  then obtain m2 where m2: "move_current (Wrapper_Prev vt) m1 = Some m2"
      "children_pos pos ess (ps(c := one_before (ps c) (length (ess ! c)))) (mi_children m2)" "mi_direction m2 = kReverse"
    using move_current_pos [OF m1(2,4,5)] m1(3) by metis
  have "qs(c := Suc (ps c)) = qs" using qc by auto
  then have "\<forall>k<length ess. cut es (Suc i) (ess ! k) ((qs(c := Suc (ps c))) k)" using m1(8) by metis
  then have cuts: "\<forall>k<length ess. cut es i (ess ! k) ((qs(c := ps c)) k)"
    by (rule cut_prev [OF m1(1) _ assms(2) m1(5-7)])
  have "merge_pos compare pos es ((FindLargest compare m2)\<lparr>mi_direction := kReverse\<rparr>) (one_before i (length es))"
    using assms(2) cuts m1(8) by (intro find_largest [OF m1(1) m2(2), of _ "qs(c := ps c)"]) simp_all
  moreover have "(FindLargest compare m2)\<lparr>mi_direction := kReverse\<rparr> = FindLargest compare m2"
    using m2(3) by (cases m2) (simp add: FindLargest_def)
  moreover have "Merging_Prev compare vt m = Some (FindLargest compare m2)"
    unfolding Merging_Prev_def c bind.bind_lunit turn by (simp add: m2(1))
  ultimately show ?thesis by (simp add: one_before_def)
qed

lemma merging_children: "merge_pos compare pos es m i \<Longrightarrow> \<exists>ess ps. merged compare ess es \<and> children_pos pos ess ps (mi_children m)"
  by (auto simp: merge_pos_def)

lemma merging_first:
  assumes "merge_pos compare pos es m i"
  shows "\<exists>m'. Merging_SeekToFirst compare vt m = Some m' \<and> merge_pos compare pos es m' 0"
proof -
  obtain ess ps where m: "merged compare ess es" "children_pos pos ess ps (mi_children m)" using merging_children [OF assms] by blast
  obtain ws where ws: "map_children (Wrapper_SeekToFirst vt) (mi_children m) = Some ws" "children_pos pos ess (\<lambda>k. 0) ws"
    using map_children_pos [OF m(2), of "Wrapper_SeekToFirst vt" "\<lambda>k. 0"] wrapper_ops(10) by blast
  have "\<forall>k<length ess. cut es 0 (ess ! k) 0" using merged_set [OF m(1)] by (auto simp: cut_def)
  then have "merge_pos compare pos es ((FindSmallest compare (m\<lparr>mi_children := ws\<rparr>))\<lparr>mi_direction := kForward\<rparr>) 0"
    using ws(2) by (intro find_smallest [OF m(1), of "\<lambda>k. 0"]) simp_all
  then show ?thesis using ws(1) by (simp add: Merging_SeekToFirst_def)
qed

lemma merging_last:
  assumes "merge_pos compare pos es m i"
  shows "\<exists>m'. Merging_SeekToLast compare vt m = Some m' \<and> merge_pos compare pos es m' (length es - 1)"
proof -
  obtain ess ps where m: "merged compare ess es" "children_pos pos ess ps (mi_children m)" using merging_children [OF assms] by blast
  obtain ws where ws: "map_children (Wrapper_SeekToLast vt) (mi_children m) = Some ws" "children_pos pos ess (\<lambda>k. length (ess ! k) - 1) ws"
    using map_children_pos [OF m(2), of "Wrapper_SeekToLast vt" "\<lambda>k. length (ess ! k) - 1"] wrapper_ops(11) by blast
  have "\<forall>k<length ess. cut es (length es) (ess ! k) (length (ess ! k)) \<and> length (ess ! k) - 1 = one_before (length (ess ! k)) (length (ess ! k))"
    using merged_set [OF m(1)] by (auto simp: cut_def one_before_def)
  then have "merge_pos compare pos es ((FindLargest compare (m\<lparr>mi_children := ws\<rparr>))\<lparr>mi_direction := kReverse\<rparr>) (one_before (length es) (length es))"
    using ws(2) by (intro find_largest [OF m(1), of "\<lambda>k. length (ess ! k) - 1" _ _ "\<lambda>k. length (ess ! k)"]) simp_all
  moreover have "one_before (length es) (length es) = length es - 1" by (simp add: one_before_def)
  ultimately show ?thesis using ws(1) by (simp add: Merging_SeekToLast_def)
qed

lemma merging_seek:
  assumes "merge_pos compare pos es m i" "seekable target"
  shows "\<exists>m'. Merging_Seek compare vt target m = Some m' \<and> merge_pos compare pos es m' (first_ge compare es target)"
proof -
  obtain ess ps where m: "merged compare ess es" "children_pos pos ess ps (mi_children m)" using merging_children [OF assms(1)] by blast
  obtain ws where ws: "map_children (Wrapper_Seek vt target) (mi_children m) = Some ws"
      "children_pos pos ess (\<lambda>k. first_ge compare (ess ! k) target) ws"
    using map_children_pos [OF m(2), of "Wrapper_Seek vt target" "\<lambda>k. first_ge compare (ess ! k) target"] wrapper_ops(12) assms(2) by blast
  have "merge_pos compare pos es ((FindSmallest compare (m\<lparr>mi_children := ws\<rparr>))\<lparr>mi_direction := kForward\<rparr>) (first_ge compare es target)"
    using ws(2) cut_seek [OF m(1)] first_ge_le by (intro find_smallest [OF m(1), of "\<lambda>k. first_ge compare (ess ! k) target"]) simp_all
  then show ?thesis using ws(1) by (simp add: Merging_Seek_def)
qed

lemma merging_seekable:
  assumes "merge_pos compare pos es m i" "e \<in> set es"
  shows "seekable (fst e)"
proof -
  obtain ess ps where m: "merged compare ess es" "children_pos pos ess ps (mi_children m)" using merging_children [OF assms(1)] by blast
  then obtain k j where "k < length ess" "j < length (ess ! k)" "e = ess ! k ! j"
    using assms(2) merged_set [OF m(1)] by (fastforce simp: in_set_conv_nth)
  then show ?thesis using child_seekable [OF m(2)] by simp
qed

lemma merging_status:
  assumes "merge_pos compare pos es m i"
  shows "Merging_status vt m = Some Status_OK"
proof -
  obtain ess ps where "children_pos pos ess ps (mi_children m)" using merging_children [OF assms] by blast
  then have "\<forall>w \<in> set (mi_children m). Wrapper_status vt w = Some Status_OK"
    using wrapper_ops(7) by (fastforce simp: children_pos_def in_set_conv_nth)
  moreover have "\<forall>w \<in> set ws. Wrapper_status vt w = Some Status_OK \<Longrightarrow> first_error vt ws Status_OK = Some Status_OK" for ws
    by (induction ws) (auto simp: Status_ok_def Status_OK_def)
  ultimately have "first_error vt (mi_children m) Status_OK = Some Status_OK" by blast
  then show ?thesis by (simp add: Merging_status_def)
qed

lemma merging_init:
  assumes "merged compare ess es" "length its = length ess" "\<And>k. k < length ess \<Longrightarrow> pos (ess ! k) (its ! k) (ps k)"
  shows "\<exists>m. MergingIterator_init vt its = Some m \<and> merge_pos compare pos es m (length es)"
proof -
  define f where "f = (\<lambda>it. Wrapper_Set vt (Some it) IteratorWrapper_init)"
  have all: "\<exists>w. f (its ! k) = Some w \<and> wrapper_pos pos (ess ! k) w (ps k)" if "k < length ess" for k
    using wrapper_set [OF assms(3) [OF that]] by (simp add: f_def)
  then have "map_children f its = Some (map (\<lambda>w. the (f w)) its)"
    using assms(2) by (intro map_children_Some) (metis in_set_conv_nth)
  moreover have "children_pos pos ess ps (map (\<lambda>w. the (f w)) its)" using all assms(2) by (fastforce simp: children_pos_def)
  ultimately show ?thesis using assms(1) by (auto simp: MergingIterator_init_def merge_pos_def simp flip: f_def)
qed

end

lemma merging_iterator_class:
  assumes "iterator_class compare vt pos seekable"
  shows "iterator_class compare (MergingIterator_vt compare vt) (merge_pos compare pos) seekable"
proof -
  have order: "key_order compare" using assms by (simp add: iterator_class_def iterator_contract_def)
  have basic: "(Merging_Valid m \<longleftrightarrow> i < length es) \<and> i \<le> length es \<and> ascending compare es" if "merge_pos compare pos es m i" for es m i
    using that by (auto simp: merge_pos_def Merging_Valid_def merged_def split: if_splits)
  note ops = iterator_class.merging_key_value [OF assms] iterator_class.merging_next [OF assms] iterator_class.merging_prev [OF assms]
    iterator_class.merging_first [OF assms] iterator_class.merging_last [OF assms] iterator_class.merging_seek [OF assms]
    iterator_class.merging_status [OF assms] iterator_class.merging_seekable [OF assms]
  have "iterator_contract compare Merging_Valid Merging_key (Merging_value vt) (Merging_Next compare vt) (Merging_Prev compare vt)
      (Merging_SeekToFirst compare vt) (Merging_SeekToLast compare vt) (Merging_Seek compare vt) (merge_pos compare pos) seekable"
  proof (intro iterator_contract.intro iterator_contract_axioms.intro order)
    fix es m i
    assume "merge_pos compare pos es m i"
    then show "Merging_Valid m = (i < length es)" "i \<le> length es" "ascending compare es" using basic by blast+
  qed (rule ops; assumption)+
  then show ?thesis using ops(8) by (auto simp: iterator_class_def iterator_class_axioms_def MergingIterator_vt_def)
qed

interpretation bytewise_merging: iterator_class Slice_compare
  "MergingIterator_vt Slice_compare (TableIterator_vt Slice_compare le)" "merge_pos Slice_compare (table_iterator Slice_compare)" "\<lambda>_. True" for le
  by (rule merging_iterator_class) (rule bytewise_table.iterator_class_axioms)

subsection \<open>Properties\<close>

text \<open>
  C24: the merging iterator refines a position in the sorted union of its children. For children of any class that
  keeps the contract of iterators, over lists without common keys, any sequence of calls of
  \<^verbatim>\<open>SeekToFirst\<close>, \<^verbatim>\<open>SeekToLast\<close>, \<^verbatim>\<open>Seek\<close>, \<^verbatim>\<open>Next\<close> and \<^verbatim>\<open>Prev\<close>, with any changes of direction, shows the entries that the same
  calls show on the sorted list of all entries.
\<close>

theorem merging_iterator:
  assumes "iterator_class compare vt pos seekable" "merged compare ess es" "length its = length ess"
    "\<And>k. k < length ess \<Longrightarrow> pos (ess ! k) (its ! k) (ps k)"
    "run_list compare es calls (length es) = Some obs" "seeks_ok seekable calls"
  shows "\<exists>m. MergingIterator_init vt its = Some m \<and> run_iter (MergingIterator_vt compare vt) calls m = Some obs"
proof -
  obtain m where m: "MergingIterator_init vt its = Some m" "merge_pos compare pos es m (length es)"
    using iterator_class.merging_init [OF assms(1-4)] by blast
  then show ?thesis using iterator_class.run_pos [OF merging_iterator_class [OF assms(1)] m(2) assms(5,6)] by blast
qed

text \<open>Two blocks, walked forward and then backward across both.\<close>

theorem merging_iterator_witness:
  "\<exists>a b m. table_iterator Slice_compare [([1], [7]), ([3], [8, 9])] a 2 \<and> table_iterator Slice_compare [] b 0 \<and>
     MergingIterator_init (TableIterator_vt Slice_compare True) [a, b] = Some m \<and>
     run_iter (MergingIterator_vt Slice_compare (TableIterator_vt Slice_compare True)) [CallSeek [2], CallPrev, CallNext, CallNext] m =
       Some [Some ([3], [8, 9]), Some ([1], [7]), Some ([3], [8, 9]), None]"
proof -
  obtain it where it: "block_iterator Slice_compare [([1], [7]), ([3], [8, 9])] it 2" by (rule ex_block)
  define a where "a = BlockIterator it"
  define b where "b = EmptyIterator Status_OK"
  have pos: "table_iterator Slice_compare [([1], [7]), ([3], [8, 9])] a 2" "table_iterator Slice_compare [] b 0"
    using it by (simp_all add: a_def b_def)
  have "\<exists>m. MergingIterator_init (TableIterator_vt Slice_compare True) [a, b] = Some m \<and>
     run_iter (MergingIterator_vt Slice_compare (TableIterator_vt Slice_compare True)) [CallSeek [2], CallPrev, CallNext, CallNext] m =
       Some [Some ([3], [8, 9]), Some ([1], [7]), Some ([3], [8, 9]), None]"
  proof (rule merging_iterator [OF bytewise_table.iterator_class_axioms])
    show "merged Slice_compare [[([1], [7]), ([3], [8, 9])], []] [([1], [7]), ([3], [8, 9])]"
      by (simp add: merged_def ascending_def)
    show "table_iterator Slice_compare ([[([1], [7]), ([3], [8, 9])], []] ! k) ([a, b] ! k) (if k = 0 then 2 else 0)"
      if "k < length [[([1], [7]), ([3], [8, 9])], []]" for k using that pos by (cases k) simp_all
  qed (simp_all add: first_ge_def)
  with pos show ?thesis by blast
qed

end
