(* ===== verification/LDB_DBIter.thy ===== *)
theory LDB_DBIter
  imports LDB_Merger LDB_Format LDB_Random
begin

text \<open>
  The iterator of the database, \<^verbatim>\<open>db/db_iter.cc\<close>: it shows the user keys and values as of a sequence number, out of
  the versions and deletion markers that an internal iterator goes through. The internal iterator is of any class
  (a parameter \<open>vt\<close>, its virtual functions); \<^verbatim>\<open>user_comparator_\<close> is the parameter \<open>ucmp\<close>, and
  \<^verbatim>\<open>DBImpl::RecordReadSample\<close> the parameter \<open>record_sample\<close>, a function on the state \<open>di_db\<close> of the database.
  The capacity of \<^verbatim>\<open>saved_value_\<close> is not modelled: the two ways to clear it give the same string.

  The reference is \<open>db_view\<close>: of the internal entries, those that are the newest visible version of their user key and
  not a deletion. If the internal iterator keeps the contract of iterators then the iterator of the database keeps it
  for the view and the user's comparator, forward, backward and across changes of direction.
\<close>

subsection \<open>The iterator\<close>

datatype Direction = kForward | kReverse

definition kReadBytesPeriod :: "32 word" where "kReadBytesPeriod = 1048576"

record ('i, 'w) DBIter =
  di_db :: 'w
  di_iter :: 'i
  di_sequence :: SequenceNumber
  di_status :: Status
  di_saved_key :: slice
  di_saved_value :: slice
  di_direction :: Direction
  di_valid :: bool
  di_rnd :: Random
  di_bytes_counter :: int

definition RandomPeriod :: "Random \<Rightarrow> int \<times> Random" where
  "RandomPeriod rnd = (case Random_Uniform rnd (2 * kReadBytesPeriod) of (v, rnd) \<Rightarrow> (uint v, rnd))"

definition DBIter_init :: "'w \<Rightarrow> 'i \<Rightarrow> SequenceNumber \<Rightarrow> 32 word \<Rightarrow> ('i, 'w) DBIter" where
  "DBIter_init db iter s rnd_seed =
     (case RandomPeriod (Random_init rnd_seed) of (period, rnd) \<Rightarrow>
        \<lparr>di_db = db, di_iter = iter, di_sequence = s, di_status = Status_OK, di_saved_key = [], di_saved_value = [],
         di_direction = kForward, di_valid = False, di_rnd = rnd, di_bytes_counter = period\<rparr>)"

definition DBIter_Valid :: "('i, 'w) DBIter \<Rightarrow> bool" where "DBIter_Valid it \<longleftrightarrow> di_valid it"

definition DBIter_key :: "'i Iterator_vt \<Rightarrow> ('i, 'w) DBIter \<Rightarrow> slice option" where
  "DBIter_key vt it =
     (if \<not> di_valid it then None
      else if di_direction it = kForward then map_option ExtractUserKey (vt_key vt (di_iter it))
      else Some (di_saved_key it))"

definition DBIter_value :: "'i Iterator_vt \<Rightarrow> ('i, 'w) DBIter \<Rightarrow> slice option" where
  "DBIter_value vt it =
     (if \<not> di_valid it then None
      else if di_direction it = kForward then vt_value vt (di_iter it)
      else Some (di_saved_value it))"

definition DBIter_status :: "'i Iterator_vt \<Rightarrow> ('i, 'w) DBIter \<Rightarrow> Status option" where
  "DBIter_status vt it = (if Status_ok (di_status it) then vt_status vt (di_iter it) else Some (di_status it))"

text \<open>The loop of \<^verbatim>\<open>ParseKey\<close> that draws the next gap between samples until the counter is not negative.\<close>

partial_function (option) read_samples ::
    "(slice \<Rightarrow> 'w \<Rightarrow> 'w) \<Rightarrow> slice \<Rightarrow> ('i, 'w) DBIter \<Rightarrow> ('i, 'w) DBIter option" where
  [code]: "read_samples record_sample k it =
     (if di_bytes_counter it < 0 then
        case RandomPeriod (di_rnd it) of (period, rnd) \<Rightarrow>
          read_samples record_sample k
            (it\<lparr>di_rnd := rnd, di_bytes_counter := di_bytes_counter it + period, di_db := record_sample k (di_db it)\<rparr>)
      else Some it)"

definition DBIter_ParseKey ::
    "'i Iterator_vt \<Rightarrow> bool \<Rightarrow> (slice \<Rightarrow> 'w \<Rightarrow> 'w) \<Rightarrow> ('i, 'w) DBIter \<Rightarrow> (ParsedInternalKey option \<times> ('i, 'w) DBIter) option" where
  "DBIter_ParseKey vt le record_sample it =
     do {
       k \<leftarrow> vt_key vt (di_iter it);
       v \<leftarrow> vt_value vt (di_iter it);
       let n = int (length k) + int (length v);
       it \<leftarrow> read_samples record_sample k (it\<lparr>di_bytes_counter := di_bytes_counter it - n\<rparr>);
       case ParseInternalKey le k of
         None \<Rightarrow> do { s \<leftarrow> Status_Corruption (str ''corrupted internal key in DBIter'') []; Some (None, it\<lparr>di_status := s\<rparr>) }
       | Some ikey \<Rightarrow> Some (Some ikey, it)
     }"

text \<open>
  The argument \<^verbatim>\<open>skip\<close> of \<^verbatim>\<open>FindNextUserEntry\<close> is \<^verbatim>\<open>saved_key_\<close> in every call. One round of the loop: \<open>Inl\<close> if the function
  returns, \<open>Inr\<close> with \<^verbatim>\<open>skipping\<close> if it goes on.
\<close>

definition find_next_round ::
    "'i Iterator_vt \<Rightarrow> bool \<Rightarrow> (slice \<Rightarrow> slice \<Rightarrow> int) \<Rightarrow> (slice \<Rightarrow> 'w \<Rightarrow> 'w) \<Rightarrow> bool \<Rightarrow> ('i, 'w) DBIter \<Rightarrow>
     (('i, 'w) DBIter + bool \<times> ('i, 'w) DBIter) option" where
  "find_next_round vt le ucmp record_sample skipping it =
     do {
       (parsed, it) \<leftarrow> DBIter_ParseKey vt le record_sample it;
       let (found, skipping, it) =
         (case parsed of
            None \<Rightarrow> (False, skipping, it)
          | Some ikey \<Rightarrow>
              if sequence ikey \<le> di_sequence it then
                case value_type ikey of
                  kTypeDeletion \<Rightarrow> (False, True, it\<lparr>di_saved_key := user_key ikey\<rparr>)
                | kTypeValue \<Rightarrow>
                    if skipping \<and> ucmp (user_key ikey) (di_saved_key it) \<le> 0 then (False, skipping, it)
                    else (True, skipping, it\<lparr>di_valid := True, di_saved_key := []\<rparr>)
              else (False, skipping, it));
       if found then Some (Inl it)
       else do {
         i \<leftarrow> vt_Next vt (di_iter it);
         if vt_Valid vt i then Some (Inr (skipping, it\<lparr>di_iter := i\<rparr>))
         else Some (Inl (it\<lparr>di_iter := i, di_saved_key := [], di_valid := False\<rparr>))
       }
     }"

partial_function (option) find_next_loop ::
    "'i Iterator_vt \<Rightarrow> bool \<Rightarrow> (slice \<Rightarrow> slice \<Rightarrow> int) \<Rightarrow> (slice \<Rightarrow> 'w \<Rightarrow> 'w) \<Rightarrow> bool \<Rightarrow> ('i, 'w) DBIter \<Rightarrow> ('i, 'w) DBIter option" where
  [code]: "find_next_loop vt le ucmp record_sample skipping it =
     (case find_next_round vt le ucmp record_sample skipping it of
        None \<Rightarrow> None
      | Some (Inl it) \<Rightarrow> Some it
      | Some (Inr p) \<Rightarrow> find_next_loop vt le ucmp record_sample (fst p) (snd p))"

definition FindNextUserEntry ::
    "'i Iterator_vt \<Rightarrow> bool \<Rightarrow> (slice \<Rightarrow> slice \<Rightarrow> int) \<Rightarrow> (slice \<Rightarrow> 'w \<Rightarrow> 'w) \<Rightarrow> bool \<Rightarrow> ('i, 'w) DBIter \<Rightarrow> ('i, 'w) DBIter option" where
  "FindNextUserEntry vt le ucmp record_sample skipping it =
     (if vt_Valid vt (di_iter it) \<and> di_direction it = kForward then find_next_loop vt le ucmp record_sample skipping it else None)"

definition DBIter_Next ::
    "'i Iterator_vt \<Rightarrow> bool \<Rightarrow> (slice \<Rightarrow> slice \<Rightarrow> int) \<Rightarrow> (slice \<Rightarrow> 'w \<Rightarrow> 'w) \<Rightarrow> ('i, 'w) DBIter \<Rightarrow> ('i, 'w) DBIter option" where
  "DBIter_Next vt le ucmp record_sample it =
     (if \<not> di_valid it then None
      else if di_direction it = kReverse then
        do {
          let it = it\<lparr>di_direction := kForward\<rparr>;
          i \<leftarrow> (if \<not> vt_Valid vt (di_iter it) then vt_SeekToFirst vt (di_iter it) else vt_Next vt (di_iter it));
          let it = it\<lparr>di_iter := i\<rparr>;
          if \<not> vt_Valid vt i then Some (it\<lparr>di_valid := False, di_saved_key := []\<rparr>)
          else FindNextUserEntry vt le ucmp record_sample True it
        }
      else
        do {
          k \<leftarrow> vt_key vt (di_iter it);
          FindNextUserEntry vt le ucmp record_sample True (it\<lparr>di_saved_key := ExtractUserKey k\<rparr>)
        })"

text \<open>
  One round of \<^verbatim>\<open>FindPrevUserEntry\<close>, with \<^verbatim>\<open>value_type\<close>: \<open>Inl\<close> if the loop is left, \<open>Inr\<close> if it goes on.
\<close>

definition find_prev_round ::
    "'i Iterator_vt \<Rightarrow> bool \<Rightarrow> (slice \<Rightarrow> slice \<Rightarrow> int) \<Rightarrow> (slice \<Rightarrow> 'w \<Rightarrow> 'w) \<Rightarrow> ValueType \<Rightarrow> ('i, 'w) DBIter \<Rightarrow>
     (ValueType \<times> ('i, 'w) DBIter + ValueType \<times> ('i, 'w) DBIter) option" where
  "find_prev_round vt le ucmp record_sample type it =
     do {
       (parsed, it) \<leftarrow> DBIter_ParseKey vt le record_sample it;
       v \<leftarrow> vt_value vt (di_iter it);
       k \<leftarrow> vt_key vt (di_iter it);
       let (break, type, it) =
         (case parsed of
            None \<Rightarrow> (False, type, it)
          | Some ikey \<Rightarrow>
              if sequence ikey \<le> di_sequence it then
                if type \<noteq> kTypeDeletion \<and> ucmp (user_key ikey) (di_saved_key it) < 0 then (True, type, it)
                else case value_type ikey of
                    kTypeDeletion \<Rightarrow> (False, kTypeDeletion, it\<lparr>di_saved_key := [], di_saved_value := []\<rparr>)
                  | kTypeValue \<Rightarrow> (False, kTypeValue, it\<lparr>di_saved_key := ExtractUserKey k, di_saved_value := v\<rparr>)
              else (False, type, it));
       if break then Some (Inl (type, it))
       else do {
         i \<leftarrow> vt_Prev vt (di_iter it);
         let it = it\<lparr>di_iter := i\<rparr>;
         Some (if vt_Valid vt i then Inr (type, it) else Inl (type, it))
       }
     }"

partial_function (option) find_prev_loop ::
    "'i Iterator_vt \<Rightarrow> bool \<Rightarrow> (slice \<Rightarrow> slice \<Rightarrow> int) \<Rightarrow> (slice \<Rightarrow> 'w \<Rightarrow> 'w) \<Rightarrow> ValueType \<Rightarrow> ('i, 'w) DBIter \<Rightarrow>
     (ValueType \<times> ('i, 'w) DBIter) option" where
  [code]: "find_prev_loop vt le ucmp record_sample type it =
     (case find_prev_round vt le ucmp record_sample type it of
        None \<Rightarrow> None
      | Some (Inl r) \<Rightarrow> Some r
      | Some (Inr p) \<Rightarrow> find_prev_loop vt le ucmp record_sample (fst p) (snd p))"

definition FindPrevUserEntry ::
    "'i Iterator_vt \<Rightarrow> bool \<Rightarrow> (slice \<Rightarrow> slice \<Rightarrow> int) \<Rightarrow> (slice \<Rightarrow> 'w \<Rightarrow> 'w) \<Rightarrow> ('i, 'w) DBIter \<Rightarrow> ('i, 'w) DBIter option" where
  "FindPrevUserEntry vt le ucmp record_sample it =
     (if di_direction it \<noteq> kReverse then None
      else do {
        (type, it) \<leftarrow>
          (if vt_Valid vt (di_iter it) then find_prev_loop vt le ucmp record_sample kTypeDeletion it else Some (kTypeDeletion, it));
        Some (if type = kTypeDeletion
              then it\<lparr>di_valid := False, di_saved_key := [], di_saved_value := [], di_direction := kForward\<rparr>
              else it\<lparr>di_valid := True\<rparr>)
      })"

text \<open>The loop of \<^verbatim>\<open>Prev\<close> that leaves the entries of the current user key: \<open>None\<close> inside if it reaches the end.\<close>

partial_function (option) prev_key_loop ::
    "'i Iterator_vt \<Rightarrow> (slice \<Rightarrow> slice \<Rightarrow> int) \<Rightarrow> slice \<Rightarrow> 'i \<Rightarrow> ('i \<times> bool) option" where
  [code]: "prev_key_loop vt ucmp saved_key i =
     do {
       i \<leftarrow> vt_Prev vt i;
       if \<not> vt_Valid vt i then Some (i, False)
       else do {
         k \<leftarrow> vt_key vt i;
         if ucmp (ExtractUserKey k) saved_key < 0 then Some (i, True) else prev_key_loop vt ucmp saved_key i
       }
     }"

definition DBIter_Prev ::
    "'i Iterator_vt \<Rightarrow> bool \<Rightarrow> (slice \<Rightarrow> slice \<Rightarrow> int) \<Rightarrow> (slice \<Rightarrow> 'w \<Rightarrow> 'w) \<Rightarrow> ('i, 'w) DBIter \<Rightarrow> ('i, 'w) DBIter option" where
  "DBIter_Prev vt le ucmp record_sample it =
     (if \<not> di_valid it then None
      else if di_direction it = kForward then
        if \<not> vt_Valid vt (di_iter it) then None
        else do {
          k \<leftarrow> vt_key vt (di_iter it);
          let it = it\<lparr>di_saved_key := ExtractUserKey k\<rparr>;
          (i, more) \<leftarrow> prev_key_loop vt ucmp (di_saved_key it) (di_iter it);
          let it = it\<lparr>di_iter := i\<rparr>;
          if \<not> more then Some (it\<lparr>di_valid := False, di_saved_key := [], di_saved_value := []\<rparr>)
          else FindPrevUserEntry vt le ucmp record_sample (it\<lparr>di_direction := kReverse\<rparr>)
        }
      else FindPrevUserEntry vt le ucmp record_sample it)"

definition DBIter_Seek ::
    "'i Iterator_vt \<Rightarrow> bool \<Rightarrow> (slice \<Rightarrow> slice \<Rightarrow> int) \<Rightarrow> (slice \<Rightarrow> 'w \<Rightarrow> 'w) \<Rightarrow> slice \<Rightarrow> ('i, 'w) DBIter \<Rightarrow> ('i, 'w) DBIter option" where
  "DBIter_Seek vt le ucmp record_sample target it =
     do {
       let it = it\<lparr>di_direction := kForward, di_saved_value := []\<rparr>;
       k \<leftarrow> AppendInternalKey le [] \<lparr>user_key = target, sequence = di_sequence it, value_type = kValueTypeForSeek\<rparr>;
       i \<leftarrow> vt_Seek vt k (di_iter it);
       let it = it\<lparr>di_iter := i, di_saved_key := k\<rparr>;
       if vt_Valid vt i then FindNextUserEntry vt le ucmp record_sample False it else Some (it\<lparr>di_valid := False\<rparr>)
     }"

definition DBIter_SeekToFirst ::
    "'i Iterator_vt \<Rightarrow> bool \<Rightarrow> (slice \<Rightarrow> slice \<Rightarrow> int) \<Rightarrow> (slice \<Rightarrow> 'w \<Rightarrow> 'w) \<Rightarrow> ('i, 'w) DBIter \<Rightarrow> ('i, 'w) DBIter option" where
  "DBIter_SeekToFirst vt le ucmp record_sample it =
     do {
       let it = it\<lparr>di_direction := kForward, di_saved_value := []\<rparr>;
       i \<leftarrow> vt_SeekToFirst vt (di_iter it);
       let it = it\<lparr>di_iter := i\<rparr>;
       if vt_Valid vt i then FindNextUserEntry vt le ucmp record_sample False it else Some (it\<lparr>di_valid := False\<rparr>)
     }"

definition DBIter_SeekToLast ::
    "'i Iterator_vt \<Rightarrow> bool \<Rightarrow> (slice \<Rightarrow> slice \<Rightarrow> int) \<Rightarrow> (slice \<Rightarrow> 'w \<Rightarrow> 'w) \<Rightarrow> ('i, 'w) DBIter \<Rightarrow> ('i, 'w) DBIter option" where
  "DBIter_SeekToLast vt le ucmp record_sample it =
     do {
       let it = it\<lparr>di_direction := kReverse, di_saved_value := []\<rparr>;
       i \<leftarrow> vt_SeekToLast vt (di_iter it);
       FindPrevUserEntry vt le ucmp record_sample (it\<lparr>di_iter := i\<rparr>)
     }"

definition DBIter_vt ::
    "'i Iterator_vt \<Rightarrow> bool \<Rightarrow> (slice \<Rightarrow> slice \<Rightarrow> int) \<Rightarrow> (slice \<Rightarrow> 'w \<Rightarrow> 'w) \<Rightarrow> ('i, 'w) DBIter Iterator_vt" where
  "DBIter_vt vt le ucmp record_sample =
     \<lparr>vt_Valid = DBIter_Valid, vt_key = DBIter_key vt, vt_value = DBIter_value vt,
      vt_Next = DBIter_Next vt le ucmp record_sample, vt_Prev = DBIter_Prev vt le ucmp record_sample,
      vt_SeekToFirst = DBIter_SeekToFirst vt le ucmp record_sample, vt_SeekToLast = DBIter_SeekToLast vt le ucmp record_sample,
      vt_Seek = DBIter_Seek vt le ucmp record_sample, vt_status = DBIter_status vt\<rparr>"

subsection \<open>The loop over samples returns\<close>

text \<open>
  A gap may be \<open>0\<close>, but not two in a row: if \<open>seed\<close> is a multiple of \<open>2 ^ 21\<close> then the next number of the generator is
  none.
\<close>

lemma two_gaps:
  fixes s :: nat
  assumes "0 < s" "s < 2147483647" "s mod 2097152 = 0"
  shows "s * 16807 mod 2147483647 mod 2097152 \<noteq> 0"
proof -
  define k where "k = s div 2097152"
  have s: "s = 2097152 * k" using assms(3) mult_div_mod_eq [of 2097152 s] by (simp add: k_def)
  then have k: "0 < k" "k < 1024" using assms(1,2) by simp_all
  define q where "q = 16807 * k div 1024"
  define r where "r = 16807 * k mod 1024"
  have kr: "16807 * k = 1024 * q + r" by (simp add: q_def r_def)
  have r: "r < 1024" by (simp add: r_def)
  have q: "0 < q" "q < 16807" using k by (simp_all add: q_def div_greater_zero_iff div_less_iff_less_mult)
  have "s * 16807 = 2097152 * (1024 * q + r)" unfolding s using kr by simp
  also have "\<dots> = 2147483647 * q + (r * 2097152 + q)" by simp
  finally have "s * 16807 mod 2147483647 = (r * 2097152 + q) mod 2147483647" by (metis mod_mult_self4 add.commute)
  also have "\<dots> = r * 2097152 + q" using r q by simp
  finally show ?thesis using q by simp
qed

lemma RandomPeriod_ok:
  assumes "seed_ok rnd"
  shows "0 \<le> fst (RandomPeriod rnd)" "seed_ok (snd (RandomPeriod rnd))"
    "fst (RandomPeriod rnd) = 0 \<Longrightarrow> 0 < fst (RandomPeriod (snd (RandomPeriod rnd)))"
proof -
  have p: "RandomPeriod r = (uint (fst (Random_Next r) mod (2 * kReadBytesPeriod)), snd (Random_Next r))" for r
    by (simp add: RandomPeriod_def Random_Uniform_def split_def)
  show "0 \<le> fst (RandomPeriod rnd)" by (simp add: p)
  show "seed_ok (snd (RandomPeriod rnd))" using Random_Next_mod(2) [OF assms] by (simp add: p)
  have u: "uint (v mod (2 * kReadBytesPeriod)) = int (unat v mod 2097152)" for v :: "32 word"
    unfolding uint_nat by (simp add: kReadBytesPeriod_def unat_mod)
  assume z: "fst (RandomPeriod rnd) = 0"
  let ?r = "snd (Random_Next rnd)"
  have ok: "seed_ok ?r" using Random_Next_mod(2) [OF assms] .
  have "unat (seed ?r) mod 2097152 = 0" using z Random_Next_mod(3) [OF assms] by (simp add: p u)
  with ok have "unat (seed ?r) * 16807 mod 2147483647 mod 2097152 \<noteq> 0" by (intro two_gaps) (simp_all add: seed_ok_def)
  then have "unat (fst (Random_Next ?r)) mod 2097152 \<noteq> 0" using Random_Next_mod(1) [OF ok] by simp
  then show "0 < fst (RandomPeriod (snd (RandomPeriod rnd)))" by (simp add: p u)
qed

text \<open>What the loop may change.\<close>

definition same_iter :: "('i, 'w) DBIter \<Rightarrow> ('i, 'w) DBIter \<Rightarrow> bool" where
  "same_iter it it' \<longleftrightarrow> seed_ok (di_rnd it') \<and> di_iter it' = di_iter it \<and> di_sequence it' = di_sequence it \<and>
     di_status it' = di_status it \<and> di_saved_key it' = di_saved_key it \<and> di_saved_value it' = di_saved_value it \<and>
     di_direction it' = di_direction it \<and> di_valid it' = di_valid it"

lemma read_samples_returns:
  "seed_ok (di_rnd it) \<Longrightarrow> \<exists>it'. read_samples record_sample k it = Some it' \<and> same_iter it it'"
proof (induction "2 * nat (- di_bytes_counter it) + (if fst (RandomPeriod (di_rnd it)) = 0 then 1 else 0)" arbitrary: it rule: less_induct)
  case less
  show ?case
  proof (cases "di_bytes_counter it < 0")
    case True
    obtain p rnd where pr: "RandomPeriod (di_rnd it) = (p, rnd)" by fastforce
    let ?it = "it\<lparr>di_rnd := rnd, di_bytes_counter := di_bytes_counter it + p, di_db := record_sample k (di_db it)\<rparr>"
    have ok: "0 \<le> p" "seed_ok rnd" "p = 0 \<Longrightarrow> 0 < fst (RandomPeriod rnd)" using RandomPeriod_ok [OF less.prems] by (simp_all add: pr)
    have "\<exists>it'. read_samples record_sample k ?it = Some it' \<and> same_iter ?it it'"
      by (rule less.hyps) (use True ok pr in auto)
    then obtain it' where "read_samples record_sample k ?it = Some it'" "same_iter ?it it'" by blast
    then show ?thesis using True pr by (simp add: read_samples.simps [of _ _ it] same_iter_def)
  next
    case False
    then show ?thesis using less.prems by (simp add: read_samples.simps same_iter_def)
  qed
qed

subsection \<open>The view of the database\<close>

text \<open>
  An entry is visible at a sequence number if it is not newer. \<open>shown\<close> says that entry \<open>i\<close> is what a reader sees for
  its user key: it is visible, a value, and no visible entry for the same user key comes before it.
\<close>

definition visible_entry :: "bool \<Rightarrow> SequenceNumber \<Rightarrow> slice \<times> slice \<Rightarrow> bool" where
  "visible_entry le s e = (case ParseInternalKey le (fst e) of None \<Rightarrow> False | Some p \<Rightarrow> sequence p \<le> s)"

definition value_entry :: "bool \<Rightarrow> slice \<times> slice \<Rightarrow> bool" where
  "value_entry le e = (case ParseInternalKey le (fst e) of None \<Rightarrow> False | Some p \<Rightarrow> value_type p = kTypeValue)"

abbreviation user_at :: "(slice \<times> slice) list \<Rightarrow> nat \<Rightarrow> slice" where
  "user_at es i \<equiv> ExtractUserKey (fst (es ! i))"

definition shown :: "bool \<Rightarrow> (slice \<Rightarrow> slice \<Rightarrow> int) \<Rightarrow> SequenceNumber \<Rightarrow> (slice \<times> slice) list \<Rightarrow> nat \<Rightarrow> bool" where
  "shown le ucmp s es i \<longleftrightarrow> visible_entry le s (es ! i) \<and> value_entry le (es ! i) \<and>
     \<not> (\<exists>j<i. visible_entry le s (es ! j) \<and> ucmp (user_at es j) (user_at es i) = 0)"

definition db_view :: "bool \<Rightarrow> (slice \<Rightarrow> slice \<Rightarrow> int) \<Rightarrow> SequenceNumber \<Rightarrow> (slice \<times> slice) list \<Rightarrow> (slice \<times> slice) list" where
  "db_view le ucmp s es = map (\<lambda>i. (user_at es i, snd (es ! i))) (filter (shown le ucmp s es) [0..<length es])"

definition parses :: "bool \<Rightarrow> (slice \<times> slice) list \<Rightarrow> bool" where
  "parses le es \<longleftrightarrow> (\<forall>e \<in> set es. ParseInternalKey le (fst e) \<noteq> None)"

text \<open>The number of entries before index \<open>n\<close> that satisfy \<open>P\<close>.\<close>

definition rank :: "(nat \<Rightarrow> bool) \<Rightarrow> nat \<Rightarrow> nat" where "rank P n = length (filter P [0..<n])"

lemma rank_0 [simp]: "rank P 0 = 0" by (simp add: rank_def)

lemma rank_Suc: "rank P (Suc n) = rank P n + (if P n then 1 else 0)" by (simp add: rank_def)

lemma rank_skip: "lo \<le> n \<Longrightarrow> (\<And>j. lo \<le> j \<Longrightarrow> j < n \<Longrightarrow> \<not> P j) \<Longrightarrow> rank P n = rank P lo"
  by (induction n rule: dec_induct) (simp_all add: rank_Suc)

lemma rank_mono: "m \<le> n \<Longrightarrow> rank P m \<le> rank P n"
  by (induction n rule: dec_induct) (simp_all add: rank_Suc)

lemma filter_rank:
  assumes "P m" "m < n"
  shows "rank P m < length (filter P [0..<n])" "filter P [0..<n] ! rank P m = m"
proof -
  have "[0..<n] = [0..<m] @ m # [Suc m..<n]" using assms(2) upt_add_eq_append [of 0 m "n - m"] upt_conv_Cons [of m n] by simp
  then show "rank P m < length (filter P [0..<n])" "filter P [0..<n] ! rank P m = m"
    using assms(1) by (simp_all add: rank_def nth_append)
qed

lemma view_rank:
  assumes "shown le ucmp s es m" "m < length es"
  shows "rank (shown le ucmp s es) m < length (db_view le ucmp s es)"
    "db_view le ucmp s es ! rank (shown le ucmp s es) m = (user_at es m, snd (es ! m))"
  using filter_rank [of "shown le ucmp s es", OF assms] by (simp_all add: db_view_def)

lemma view_index:
  assumes "k < length (db_view le ucmp s es)"
  obtains m where "m < length es" "shown le ucmp s es m" "k = rank (shown le ucmp s es) m"
proof -
  let ?f = "filter (shown le ucmp s es) [0..<length es]"
  have k: "k < length ?f" using assms by (simp add: db_view_def)
  define m where "m = ?f ! k"
  have m: "m < length es" "shown le ucmp s es m" using nth_mem [OF k] by (auto simp: m_def)
  have "distinct ?f" by simp
  then have "k = rank (shown le ucmp s es) m"
    using filter_rank [of "shown le ucmp s es", OF m(2,1)] k m_def nth_eq_iff_index_eq [of ?f k "rank (shown le ucmp s es) m"] by simp
  then show thesis using that m by blast
qed

lemma view_length: "length (db_view le ucmp s es) = rank (shown le ucmp s es) (length es)"
  by (simp add: db_view_def rank_def)

lemma parsed_entry:
  assumes "ParseInternalKey le k = Some p"
  shows "user_key p = ExtractUserKey k" "ikey_tag le k = pack_tag (sequence p) (value_type p)" "sequence p \<le> kMaxSequenceNumber"
proof -
  have "AppendInternalKey le [] p = Some k" using ParseInternalKey_inverse [OF assms] .
  then have "k = ikey_bytes (user_key p) (sequence p) (value_type p)" "sequence p \<le> kMaxSequenceNumber"
    by (auto simp: AppendInternalKey_bytes split: if_splits)
  then show "user_key p = ExtractUserKey k" "ikey_tag le k = pack_tag (sequence p) (value_type p)" "sequence p \<le> kMaxSequenceNumber"
    by simp_all
qed

subsection \<open>Positions\<close>

text \<open>
  Moving forward, the internal iterator is on the entry that is shown. Moving backward, the entry is saved and the
  internal iterator is somewhere before it, with nothing visible in between; it is not valid if nothing visible is
  before the entry.
\<close>

definition dbiter_pos ::
    "bool \<Rightarrow> (slice \<Rightarrow> slice \<Rightarrow> int) \<Rightarrow> SequenceNumber \<Rightarrow> ((slice \<times> slice) list \<Rightarrow> 'i \<Rightarrow> nat \<Rightarrow> bool) \<Rightarrow>
     (slice \<times> slice) list \<Rightarrow> ('i, 'w) DBIter \<Rightarrow> nat \<Rightarrow> bool" where
  "dbiter_pos le ucmp s pos vs it k \<longleftrightarrow>
     di_sequence it = s \<and> s \<le> kMaxSequenceNumber \<and> di_status it = Status_OK \<and> seed_ok (di_rnd it) \<and>
     (\<exists>es p. vs = db_view le ucmp s es \<and> parses le es \<and> pos es (di_iter it) p \<and>
        (if \<not> di_valid it then k = length vs
         else if di_direction it = kForward then p < length es \<and> shown le ucmp s es p \<and> k = rank (shown le ucmp s es) p
         else \<exists>m<length es. shown le ucmp s es m \<and> k = rank (shown le ucmp s es) m \<and> di_saved_key it = user_at es m \<and>
           di_saved_value it = snd (es ! m) \<and> (p = length es \<or> p < m) \<and>
           (\<forall>j<m. p = length es \<or> p < j \<longrightarrow> \<not> visible_entry le s (es ! j))))"

locale db_internal = inner: iterator_class "InternalKeyComparator_Compare le ucmp" vt pos seekable + internal_order ucmp le
  for le :: bool and ucmp :: "slice \<Rightarrow> slice \<Rightarrow> int" and vt :: "'i Iterator_vt" and pos and seekable :: "slice \<Rightarrow> bool" +
  fixes record_sample :: "slice \<Rightarrow> 'w \<Rightarrow> 'w"
  assumes seek_user: "seekable (ikey_bytes u s t) \<Longrightarrow> seekable (ikey_bytes u s' t')"
begin

abbreviation "vis \<equiv> visible_entry le"
abbreviation "shw \<equiv> shown le ucmp"

lemma user_le: "ascending icmp es \<Longrightarrow> i \<le> j \<Longrightarrow> j < length es \<Longrightarrow> ucmp (user_at es i) (user_at es j) \<le> 0"
  using inner.ascending_nth [of es i j] icmp_less [of "fst (es ! i)" "fst (es ! j)"] self by (cases "i = j") (auto simp: less_imp_le)

lemma equal_iff: "ucmp a b = 0 \<longleftrightarrow> ucmp a b \<le> 0 \<and> ucmp b a \<le> 0"
  using equal_sym [of a b] not_less [of a b] by auto

lemma equal_trans: "ucmp a b = 0 \<Longrightarrow> ucmp b c = 0 \<Longrightarrow> ucmp a c = 0"
  unfolding equal_iff using trans [of a b c] trans [of c b a] by blast

text \<open>In the view every user key occurs once.\<close>

lemma view_ascending:
  assumes "ascending icmp es"
  shows "ascending ucmp (db_view le ucmp s es)"
proof -
  have "ucmp (user_at es i) (user_at es j) < 0" if "shw s es i" "shw s es j" "i < j" "j < length es" for i j
  proof -
    have "ucmp (user_at es i) (user_at es j) \<le> 0" using user_le [OF assms] that by simp
    moreover have "ucmp (user_at es i) (user_at es j) \<noteq> 0" using that by (auto simp: shown_def)
    ultimately show ?thesis by simp
  qed
  moreover have "sorted_wrt (<) (filter (shw s es) [0..<length es])" by (simp add: sorted_wrt_filter)
  ultimately show ?thesis unfolding ascending_def db_view_def sorted_wrt_map
    by (rule_tac sorted_wrt_mono_rel [of _ "(<)"]) auto
qed

text \<open>Parsing the current entry.\<close>

lemma parse_key:
  assumes "pos es (di_iter it) p" "p < length es" "parses le es" "seed_ok (di_rnd it)"
  obtains ikey it' where "DBIter_ParseKey vt le record_sample it = Some (Some ikey, it')" "same_iter it it'"
    "ParseInternalKey le (fst (es ! p)) = Some ikey" "user_key ikey = user_at es p"
    "vis s (es ! p) \<longleftrightarrow> sequence ikey \<le> s" "value_entry le (es ! p) \<longleftrightarrow> value_type ikey = kTypeValue"
    "vt_key vt (di_iter it') = Some (fst (es ! p))" "vt_value vt (di_iter it') = Some (snd (es ! p))"
proof -
  obtain ikey where ikey: "ParseInternalKey le (fst (es ! p)) = Some ikey"
    using assms(2,3) by (auto simp: parses_def dest!: bspec [OF _ nth_mem])
  note kv = inner.pos_key [OF assms(1,2)] inner.pos_value [OF assms(1,2)]
  define n where "n = int (length (fst (es ! p))) + int (length (snd (es ! p)))"
  obtain it' where it': "read_samples record_sample (fst (es ! p)) (it\<lparr>di_bytes_counter := di_bytes_counter it - n\<rparr>) = Some it'"
      "same_iter (it\<lparr>di_bytes_counter := di_bytes_counter it - n\<rparr>) it'"
    using read_samples_returns [of "it\<lparr>di_bytes_counter := di_bytes_counter it - n\<rparr>"] assms(4) by auto
  show thesis
  proof (rule that [of ikey it'])
    show "DBIter_ParseKey vt le record_sample it = Some (Some ikey, it')"
      using it'(1) ikey by (simp add: DBIter_ParseKey_def kv Let_def n_def)
    show "same_iter it it'" using it'(2) by (simp add: same_iter_def)
    then show "vt_key vt (di_iter it') = Some (fst (es ! p))" "vt_value vt (di_iter it') = Some (snd (es ! p))"
      using kv by (simp_all add: same_iter_def)
    show "user_key ikey = user_at es p" by (rule parsed_entry(1) [OF ikey])
  qed (use ikey in \<open>simp_all add: visible_entry_def value_entry_def\<close>)
qed

text \<open>
  What the search forward knows: an entry that is visible is to be skipped exactly if a visible one for its user key
  is behind. \<open>lo\<close> is a lower bound of the entries that may be shown.
\<close>

definition passed_inv :: "SequenceNumber \<Rightarrow> (slice \<times> slice) list \<Rightarrow> nat \<Rightarrow> nat \<Rightarrow> bool \<Rightarrow> slice \<Rightarrow> bool" where
  "passed_inv s es lo p skipping skip \<longleftrightarrow>
     (\<forall>j<length es. p \<le> j \<longrightarrow> vis s (es ! j) \<longrightarrow>
        (skipping \<and> ucmp (user_at es j) skip \<le> 0 \<longleftrightarrow> (\<exists>i<max p lo. vis s (es ! i) \<and> ucmp (user_at es i) (user_at es j) = 0))) \<and>
     (\<forall>j. p \<le> j \<longrightarrow> Suc j < lo \<longrightarrow> \<not> vis s (es ! j))"

lemma passed_inv_invisible: "passed_inv s es lo p skipping skip \<Longrightarrow> \<not> vis s (es ! p) \<Longrightarrow> passed_inv s es lo (Suc p) skipping skip"
  unfolding passed_inv_def by (metis Suc_leD less_max_iff_disj less_Suc_eq)

lemma passed_inv_hidden:
  assumes "passed_inv s es lo p skipping skip" "p < length es" "vis s (es ! p)" "skipping \<and> ucmp (user_at es p) skip \<le> 0"
  shows "passed_inv s es lo (Suc p) skipping skip"
proof -
  obtain i where i: "i < max p lo" "vis s (es ! i)" "ucmp (user_at es i) (user_at es p) = 0"
    using assms unfolding passed_inv_def by blast
  have eq: "ucmp (user_at es i) (user_at es j) = 0" if "ucmp (user_at es p) (user_at es j) = 0" for j
    using equal_trans [OF i(3) that] .
  then have "(\<exists>i<max (Suc p) lo. vis s (es ! i) \<and> ucmp (user_at es i) (user_at es j) = 0) \<longleftrightarrow>
      (\<exists>i<max p lo. vis s (es ! i) \<and> ucmp (user_at es i) (user_at es j) = 0)" for j
    using i(1,2) by (metis less_Suc_eq less_max_iff_disj)
  then show ?thesis using assms(1) unfolding passed_inv_def by (metis Suc_leD)
qed

lemma passed_inv_deletion:
  assumes "passed_inv s es lo p skipping skip" "ascending icmp es" "p < length es" "vis s (es ! p)"
  shows "passed_inv s es lo (Suc p) True (user_at es p)"
proof -
  have lo: "lo \<le> Suc p" using assms(1,4) unfolding passed_inv_def by (meson linorder_not_le order_refl)
  have "ucmp (user_at es j) (user_at es p) \<le> 0 \<longleftrightarrow> (\<exists>i<Suc p. vis s (es ! i) \<and> ucmp (user_at es i) (user_at es j) = 0)"
    if j: "j < length es" "Suc p \<le> j" for j
  proof
    assume "ucmp (user_at es j) (user_at es p) \<le> 0"
    moreover have "ucmp (user_at es p) (user_at es j) \<le> 0" using user_le [OF assms(2)] j by simp
    ultimately have "ucmp (user_at es p) (user_at es j) = 0" by (simp add: equal_iff)
    then show "\<exists>i<Suc p. vis s (es ! i) \<and> ucmp (user_at es i) (user_at es j) = 0" using assms(4) by blast
  next
    assume "\<exists>i<Suc p. vis s (es ! i) \<and> ucmp (user_at es i) (user_at es j) = 0"
    then obtain i where i: "i \<le> p" "ucmp (user_at es i) (user_at es j) = 0" by (auto simp: less_Suc_eq_le)
    then have "ucmp (user_at es j) (user_at es i) \<le> 0" "ucmp (user_at es i) (user_at es p) \<le> 0"
      using user_le [OF assms(2), of i p] assms(3) equal_iff by simp_all
    then show "ucmp (user_at es j) (user_at es p) \<le> 0" by (rule trans)
  qed
  then show ?thesis using lo assms(1) unfolding passed_inv_def by (simp add: max_absorb1)
qed

lemma passed_inv_shown:
  assumes "passed_inv s es lo p skipping skip" "p < length es" "vis s (es ! p)" "value_entry le (es ! p)"
    "\<not> (skipping \<and> ucmp (user_at es p) skip \<le> 0)"
  shows "shw s es p" "lo \<le> p"
proof -
  have none: "\<not> (\<exists>i<max p lo. vis s (es ! i) \<and> ucmp (user_at es i) (user_at es p) = 0)"
    using assms unfolding passed_inv_def by blast
  then show "shw s es p" using assms(3,4) by (auto simp: shown_def)
  show "lo \<le> p" using none assms(3) self [of "user_at es p"] by (metis linorder_not_le less_max_iff_disj)
qed

lemma passed_inv_not_shown:
  "passed_inv s es lo p skipping skip \<Longrightarrow> p < length es \<Longrightarrow> lo \<le> p \<Longrightarrow> skipping \<and> ucmp (user_at es p) skip \<le> 0 \<Longrightarrow> \<not> shw s es p"
  unfolding passed_inv_def shown_def by (metis max_absorb1 order_refl)

definition forward_state :: "SequenceNumber \<Rightarrow> (slice \<times> slice) list \<Rightarrow> ('i, 'w) DBIter \<Rightarrow> nat \<Rightarrow> bool" where
  "forward_state s es it p \<longleftrightarrow> di_sequence it = s \<and> s \<le> kMaxSequenceNumber \<and> di_status it = Status_OK \<and> seed_ok (di_rnd it) \<and>
     parses le es \<and> pos es (di_iter it) p \<and> di_direction it = kForward"

lemma find_next:
  assumes "forward_state s es it p" "p < length es" "passed_inv s es lo p skipping (di_saved_key it)" "lo \<le> length es"
  shows "\<exists>it' q. find_next_loop vt le ucmp record_sample skipping it = Some it' \<and> forward_state s es it' q \<and> p \<le> q \<and>
    lo \<le> q \<and> (\<forall>j. lo \<le> j \<longrightarrow> p \<le> j \<longrightarrow> j < q \<longrightarrow> \<not> shw s es j) \<and> (di_valid it' \<longleftrightarrow> q < length es) \<and> (q < length es \<longrightarrow> shw s es q)"
  using assms(1-3)
proof (induction "length es - p" arbitrary: p it skipping rule: less_induct)
  case less
  note st = less.prems(1) [unfolded forward_state_def]
  have asc: "ascending icmp es" using st inner.pos_ascending by blast
  obtain ikey it1 where k: "DBIter_ParseKey vt le record_sample it = Some (Some ikey, it1)" "same_iter it it1"
      "user_key ikey = user_at es p" "vis s (es ! p) \<longleftrightarrow> sequence ikey \<le> s" "value_entry le (es ! p) \<longleftrightarrow> value_type ikey = kTypeValue"
    using parse_key [of es it p s] st less.prems(2) by blast
  have st1: "forward_state s es it1 p" "di_saved_key it1 = di_saved_key it" "di_sequence it1 = s"
    using k(2) less.prems(1) by (simp_all add: same_iter_def forward_state_def)
  \<comment> \<open>the entry is passed, with a new value of \<open>skipping\<close>\<close>
  have pass: ?case if pass: "find_next_round vt le ucmp record_sample skipping it =
      do { i \<leftarrow> vt_Next vt (di_iter it2);
           if vt_Valid vt i then Some (Inr (skipping', it2\<lparr>di_iter := i\<rparr>))
           else Some (Inl (it2\<lparr>di_iter := i, di_saved_key := [], di_valid := False\<rparr>)) }"
    and st2: "forward_state s es it2 p" and inv: "passed_inv s es lo (Suc p) skipping' (di_saved_key it2)"
    and not_shown: "lo \<le> p \<Longrightarrow> \<not> shw s es p" for skipping' it2
  proof -
    obtain i where i: "vt_Next vt (di_iter it2) = Some i" "pos es i (Suc p)"
      using inner.pos_next [of es "di_iter it2" p] st2 less.prems(2) unfolding forward_state_def by blast
    show ?thesis
    proof (cases "Suc p < length es")
      case True
      then have "vt_Valid vt i" using inner.pos_valid [OF i(2)] by simp
      then have r: "find_next_loop vt le ucmp record_sample skipping it =
          find_next_loop vt le ucmp record_sample skipping' (it2\<lparr>di_iter := i\<rparr>)"
        using pass i(1) by (simp add: find_next_loop.simps [of _ _ _ _ skipping it])
      have "forward_state s es (it2\<lparr>di_iter := i\<rparr>) (Suc p)" using st2 i(2) by (simp add: forward_state_def)
      then have "\<exists>it' q. find_next_loop vt le ucmp record_sample skipping' (it2\<lparr>di_iter := i\<rparr>) = Some it' \<and>
          forward_state s es it' q \<and> Suc p \<le> q \<and> lo \<le> q \<and> (\<forall>j. lo \<le> j \<longrightarrow> Suc p \<le> j \<longrightarrow> j < q \<longrightarrow> \<not> shw s es j) \<and>
          (di_valid it' \<longleftrightarrow> q < length es) \<and> (q < length es \<longrightarrow> shw s es q)"
        by (rule less.hyps [rotated]) (use inv True in simp_all)
      then obtain it' q where
        "find_next_loop vt le ucmp record_sample skipping' (it2\<lparr>di_iter := i\<rparr>) = Some it'"
        "forward_state s es it' q" "Suc p \<le> q" "lo \<le> q" "\<forall>j. lo \<le> j \<longrightarrow> Suc p \<le> j \<longrightarrow> j < q \<longrightarrow> \<not> shw s es j"
        "di_valid it' \<longleftrightarrow> q < length es" "q < length es \<longrightarrow> shw s es q" by blast
      then show ?thesis using not_shown unfolding r by (metis Suc_leD le_antisym not_less_eq_eq)
    next
      case False
      then have p: "Suc p = length es" using less.prems(2) by simp
      then have "\<not> vt_Valid vt i" using inner.pos_valid [OF i(2)] by simp
      then have "find_next_loop vt le ucmp record_sample skipping it = Some (it2\<lparr>di_iter := i, di_saved_key := [], di_valid := False\<rparr>)"
        using pass i(1) by (simp add: find_next_loop.simps [of _ _ _ _ skipping it])
      moreover have "forward_state s es (it2\<lparr>di_iter := i, di_saved_key := [], di_valid := False\<rparr>) (length es)"
        using st2 i(2) p by (simp add: forward_state_def)
      moreover have "\<forall>j. lo \<le> j \<longrightarrow> p \<le> j \<longrightarrow> j < length es \<longrightarrow> \<not> shw s es j" using not_shown p by (metis le_antisym less_Suc_eq_le)
      ultimately show ?thesis using assms(4) less.prems(2) by (intro exI conjI) (auto simp: less_imp_le)
    qed
  qed
  show ?case
  proof (cases "vis s (es ! p)")
    case False
    then show ?thesis using k st1(2) passed_inv_invisible [OF less.prems(3)]
      by (intro pass [of it1 skipping]) (simp_all add: find_next_round_def st1 shown_def)
  next
    case vis: True
    show ?thesis
    proof (cases "value_entry le (es ! p)")
      case False
      then have "value_type ikey = kTypeDeletion" using k(5) by (cases "value_type ikey") simp_all
      moreover have "forward_state s es (it1\<lparr>di_saved_key := user_at es p\<rparr>) p" using st1(1) by (simp add: forward_state_def)
      ultimately show ?thesis using vis k passed_inv_deletion [OF less.prems(3) asc less.prems(2) vis] False
        by (intro pass [of "it1\<lparr>di_saved_key := user_at es p\<rparr>" True]) (simp_all add: find_next_round_def st1(3) shown_def)
    next
      case val: True
      show ?thesis
      proof (cases "skipping \<and> ucmp (user_at es p) (di_saved_key it) \<le> 0")
        case True
        then show ?thesis using vis k val st1 passed_inv_hidden [OF less.prems(3,2) vis True] passed_inv_not_shown [OF less.prems(3,2) _ True]
          by (intro pass [of it1 True]) (simp_all add: find_next_round_def)
      next
        case False
        then have "find_next_loop vt le ucmp record_sample skipping it = Some (it1\<lparr>di_valid := True, di_saved_key := []\<rparr>)"
          using vis k val st1(2) by (auto simp: find_next_loop.simps find_next_round_def st1(3) Let_def)
        moreover have "forward_state s es (it1\<lparr>di_valid := True, di_saved_key := []\<rparr>) p" using st1(1) by (simp add: forward_state_def)
        ultimately show ?thesis using passed_inv_shown [OF less.prems(3,2) vis val False] less.prems(2)
          by (intro exI conjI) auto
      qed
    qed
  qed
qed

text \<open>The result of a search that finds the next entry that is shown.\<close>

lemma forward_pos:
  assumes "forward_state s es it q" "di_valid it \<longleftrightarrow> q < length es" "q < length es \<longrightarrow> shw s es q" "q \<le> length es"
  shows "dbiter_pos le ucmp s pos (db_view le ucmp s es) it (rank (shw s es) q)"
proof (cases "q = length es")
  case True
  then show ?thesis using assms(1,2) view_length [of le ucmp s es]
    unfolding dbiter_pos_def forward_state_def by (intro conjI exI [of _ es] exI [of _ q]) auto
next
  case False
  then show ?thesis using assms unfolding dbiter_pos_def forward_state_def by (intro conjI exI [of _ es] exI [of _ q]) auto
qed

lemma find_next_pos:
  assumes "forward_state s es it p" "p < length es" "passed_inv s es lo p skipping (di_saved_key it)" "lo \<le> length es"
    "\<And>j. lo \<le> j \<Longrightarrow> j < p \<Longrightarrow> \<not> shw s es j"
  shows "\<exists>it'. FindNextUserEntry vt le ucmp record_sample skipping it = Some it' \<and>
    dbiter_pos le ucmp s pos (db_view le ucmp s es) it' (rank (shw s es) lo)"
proof -
  obtain it' q where q: "find_next_loop vt le ucmp record_sample skipping it = Some it'" "forward_state s es it' q" "lo \<le> q"
      "\<forall>j. lo \<le> j \<longrightarrow> p \<le> j \<longrightarrow> j < q \<longrightarrow> \<not> shw s es j" "di_valid it' \<longleftrightarrow> q < length es" "q < length es \<longrightarrow> shw s es q"
    using find_next [OF assms(1-4)] by blast
  have "rank (shw s es) q = rank (shw s es) lo" using q(3,4) assms(5) by (intro rank_skip) (auto simp: not_le)
  moreover have "q \<le> length es" using q(2) inner.pos_le unfolding forward_state_def by blast
  moreover have "vt_Valid vt (di_iter it)" "di_direction it = kForward"
    using assms(1,2) inner.pos_valid unfolding forward_state_def by auto
  ultimately show ?thesis using forward_pos [OF q(2,5,6)] q(1) by (simp add: FindNextUserEntry_def)
qed

text \<open>Skipping past the entries of a user key that is shown.\<close>

lemma passed_inv_past:
  assumes "ascending icmp es" "m < length es" "shw s es m" "p \<le> Suc m" "\<And>j. p \<le> j \<Longrightarrow> j < m \<Longrightarrow> \<not> vis s (es ! j)"
  shows "passed_inv s es (Suc m) p True (user_at es m)"
proof -
  have eq: "ucmp (user_at es j) (user_at es m) \<le> 0 \<longleftrightarrow> (\<exists>i<Suc m. vis s (es ! i) \<and> ucmp (user_at es i) (user_at es j) = 0)"
    if j: "j < length es" "m \<le> j" for j
  proof
    assume "ucmp (user_at es j) (user_at es m) \<le> 0"
    then have "ucmp (user_at es m) (user_at es j) = 0" using user_le [OF assms(1) j(2,1)] by (simp add: equal_iff)
    then show "\<exists>i<Suc m. vis s (es ! i) \<and> ucmp (user_at es i) (user_at es j) = 0" using assms(3) by (auto simp: shown_def)
  next
    assume "\<exists>i<Suc m. vis s (es ! i) \<and> ucmp (user_at es i) (user_at es j) = 0"
    then obtain i where i: "i \<le> m" "ucmp (user_at es i) (user_at es j) = 0" by (auto simp: less_Suc_eq_le)
    then have "ucmp (user_at es j) (user_at es i) \<le> 0" "ucmp (user_at es i) (user_at es m) \<le> 0"
      using user_le [OF assms(1), of i m] assms(2) equal_iff by simp_all
    then show "ucmp (user_at es j) (user_at es m) \<le> 0" by (rule trans)
  qed
  have "max p (Suc m) = Suc m" using assms(4) by simp
  moreover have "m \<le> j" if "p \<le> j" "vis s (es ! j)" for j by (rule ccontr) (use assms(5) [OF that(1)] that(2) in simp)
  ultimately show ?thesis using eq assms(5) by (simp add: passed_inv_def)
qed

text \<open>\<open>dbiter_pos\<close>, unfolded once for all operations.\<close>

lemma pos_cases:
  assumes "dbiter_pos le ucmp s pos vs it k"
  obtains es p where "vs = db_view le ucmp s es" "parses le es" "pos es (di_iter it) p" "di_sequence it = s" "s \<le> kMaxSequenceNumber"
    "di_status it = Status_OK" "seed_ok (di_rnd it)" "ascending icmp es" "p \<le> length es" "\<not> di_valid it" "k = length vs"
  | es p where "vs = db_view le ucmp s es" "forward_state s es it p" "ascending icmp es" "di_valid it" "p < length es" "shw s es p"
    "k = rank (shw s es) p"
  | es p m where "vs = db_view le ucmp s es" "forward_state s es (it\<lparr>di_direction := kForward\<rparr>) p" "ascending icmp es" "di_valid it"
    "p \<le> length es" "di_direction it = kReverse" "m < length es" "shw s es m" "k = rank (shw s es) m" "di_saved_key it = user_at es m"
    "di_saved_value it = snd (es ! m)" "p = length es \<or> p < m" "\<And>j. j < m \<Longrightarrow> p = length es \<or> p < j \<Longrightarrow> \<not> vis s (es ! j)"
proof -
  obtain es p where e: "vs = db_view le ucmp s es" "parses le es" "pos es (di_iter it) p"
      "if \<not> di_valid it then k = length vs
         else if di_direction it = kForward then p < length es \<and> shw s es p \<and> k = rank (shw s es) p
         else \<exists>m<length es. shw s es m \<and> k = rank (shw s es) m \<and> di_saved_key it = user_at es m \<and>
           di_saved_value it = snd (es ! m) \<and> (p = length es \<or> p < m) \<and>
           (\<forall>j<m. p = length es \<or> p < j \<longrightarrow> \<not> vis s (es ! j))"
    and st: "di_sequence it = s" "s \<le> kMaxSequenceNumber" "di_status it = Status_OK" "seed_ok (di_rnd it)"
    using assms unfolding dbiter_pos_def by blast
  have asc: "ascending icmp es" "p \<le> length es" using inner.pos_ascending inner.pos_le e(3) by blast+
  consider "\<not> di_valid it" | "di_valid it" "di_direction it = kForward" | "di_valid it" "di_direction it = kReverse"
    by (cases "di_direction it") auto
  then show thesis
  proof cases
    case 1
    then show thesis using that(1) e st asc by simp
  next
    case 2
    then show thesis using that(2) e st asc by (simp add: forward_state_def)
  next
    case 3
    then obtain m where "m<length es" "shw s es m" "k = rank (shw s es) m" "di_saved_key it = user_at es m"
        "di_saved_value it = snd (es ! m)" "p = length es \<or> p < m" "\<forall>j<m. p = length es \<or> p < j \<longrightarrow> \<not> vis s (es ! j)"
      using e(4) by auto
    moreover have "forward_state s es (it\<lparr>di_direction := kForward\<rparr>) p" using e st by (simp add: forward_state_def)
    ultimately show thesis using that(3) [OF e(1) _ asc(1) 3(1) asc(2) 3(2)] by blast
  qed
qed

text \<open>Any position has an iterator state behind it, which is all that the three ways to seek need.\<close>

lemma pos_state:
  assumes "dbiter_pos le ucmp s pos vs it k"
  obtains es p where "vs = db_view le ucmp s es" "forward_state s es (it\<lparr>di_direction := kForward\<rparr>) p" "ascending icmp es"
  using assms by (cases rule: pos_cases) (auto simp: forward_state_def)

lemma DBIter_Next_pos:
  assumes "dbiter_pos le ucmp s pos vs it k" "k < length vs"
  shows "\<exists>it'. DBIter_Next vt le ucmp record_sample it = Some it' \<and> dbiter_pos le ucmp s pos vs it' (Suc k)"
  using assms(1)
proof (cases rule: pos_cases)
  case 1
  then show ?thesis using assms(2) by simp
next
  case (2 es p)
  have "passed_inv s es (Suc p) p True (user_at es p)" using passed_inv_past [OF 2(3,5,6)] by simp
  moreover have "forward_state s es (it\<lparr>di_saved_key := user_at es p\<rparr>) p" using 2(2) by (simp add: forward_state_def)
  ultimately have "\<exists>it'. FindNextUserEntry vt le ucmp record_sample True (it\<lparr>di_saved_key := user_at es p\<rparr>) = Some it' \<and>
      dbiter_pos le ucmp s pos (db_view le ucmp s es) it' (rank (shw s es) (Suc p))"
    using 2(5) by (intro find_next_pos [where p = p]) simp_all
  moreover have "vt_key vt (di_iter it) = Some (fst (es ! p))" "di_direction it = kForward"
    using 2(2,5) inner.pos_key unfolding forward_state_def by auto
  ultimately show ?thesis using 2 by (simp add: DBIter_Next_def rank_Suc)
next
  case (3 es p m)
  have ps: "pos es (di_iter it) p" using 3(2) by (simp add: forward_state_def)
  define q where "q = (if p = length es then 0 else Suc p)"
  have "\<exists>i. (if \<not> vt_Valid vt (di_iter it) then vt_SeekToFirst vt (di_iter it) else vt_Next vt (di_iter it)) = Some i \<and> pos es i q"
    using inner.pos_valid [OF ps] inner.pos_first [OF ps] inner.pos_next [OF ps] 3(5) by (auto simp: q_def)
  then obtain i where i: "(if \<not> vt_Valid vt (di_iter it) then vt_SeekToFirst vt (di_iter it) else vt_Next vt (di_iter it)) = Some i" "pos es i q"
    by blast
  have q: "q \<le> m" "q < length es" using 3(7,12) by (auto simp: q_def)
  have inv: "\<not> vis s (es ! j)" if "q \<le> j" "j < m" for j using 3(13) [OF that(2)] that(1) by (auto simp: q_def split: if_splits)
  let ?it = "it\<lparr>di_direction := kForward, di_iter := i\<rparr>"
  have "forward_state s es ?it q" using 3(2) i(2) by (simp add: forward_state_def)
  moreover have "passed_inv s es (Suc m) q True (di_saved_key ?it)" using passed_inv_past [OF 3(3,7,8) _ inv] q 3(10) by simp
  ultimately have "\<exists>it'. FindNextUserEntry vt le ucmp record_sample True ?it = Some it' \<and>
      dbiter_pos le ucmp s pos (db_view le ucmp s es) it' (rank (shw s es) (Suc m))"
    using q 3(7) by (intro find_next_pos [where p = q]) simp_all
  moreover have "vt_Valid vt i" using inner.pos_valid [OF i(2)] q by simp
  ultimately show ?thesis using 3(1,4,6,8,9) i(1) by (simp add: DBIter_Next_def rank_Suc Let_def split del: if_split cong: if_cong)
qed

lemma DBIter_first_pos:
  assumes "dbiter_pos le ucmp s pos vs it k"
  shows "\<exists>it'. DBIter_SeekToFirst vt le ucmp record_sample it = Some it' \<and> dbiter_pos le ucmp s pos vs it' 0"
  using assms
proof (rule pos_state)
  fix es p assume e: "vs = db_view le ucmp s es" "forward_state s es (it\<lparr>di_direction := kForward\<rparr>) p" "ascending icmp es"
  have "pos es (di_iter it) p" using e(2) by (simp add: forward_state_def)
  then obtain i where i: "vt_SeekToFirst vt (di_iter it) = Some i" "pos es i 0" using inner.pos_first by blast
  let ?it = "it\<lparr>di_direction := kForward, di_saved_value := [], di_iter := i\<rparr>"
  have st: "forward_state s es ?it 0" using e(2) i(2) by (simp add: forward_state_def)
  show ?thesis
  proof (cases "es = []")
    case True
    then have "\<not> vt_Valid vt i" "db_view le ucmp s es = []" using inner.pos_valid [OF i(2)] by (simp_all add: db_view_def)
    moreover have "dbiter_pos le ucmp s pos (db_view le ucmp s es) (?it\<lparr>di_valid := False\<rparr>) (rank (shw s es) 0)"
      by (rule forward_pos) (use st True in \<open>simp_all add: forward_state_def\<close>)
    ultimately show ?thesis using i(1) e(1) by (simp add: DBIter_SeekToFirst_def Let_def)
  next
    case False
    have "passed_inv s es 0 0 False k" for k by (simp add: passed_inv_def)
    then have "\<exists>it'. FindNextUserEntry vt le ucmp record_sample False ?it = Some it' \<and>
        dbiter_pos le ucmp s pos (db_view le ucmp s es) it' (rank (shw s es) 0)"
      using False by (intro find_next_pos [OF st]) simp_all
    moreover have "vt_Valid vt i" using inner.pos_valid [OF i(2)] False by simp
    ultimately show ?thesis using i(1) e(1) by (simp add: DBIter_SeekToFirst_def Let_def)
  qed
qed

text \<open>The target of a seek: entries before it are for smaller user keys or not visible, and those at or past it are not below.\<close>

lemma seek_target:
  fixes target :: slice and p :: nat
  assumes "ascending icmp es" "parses le es" "s \<le> kMaxSequenceNumber"
  defines "p \<equiv> first_ge icmp es (ikey_bytes target s kTypeValue)"
  shows "j < p \<Longrightarrow> vis s (es ! j) \<Longrightarrow> ucmp (user_at es j) target < 0"
    "p \<le> j \<Longrightarrow> j < length es \<Longrightarrow> \<not> ucmp (user_at es j) target < 0"
proof -
  define t where "t = ikey_bytes target s kTypeValue"
  note split = inner.first_ge_split [OF assms(1), of t, folded p_def [folded t_def]]
  assume j: "j < p" "vis s (es ! j)"
  have "j < length es" using j(1) inner.first_ge_le [of es t] by (simp add: p_def flip: t_def)
  then have "es ! j \<in> set (take p es)" using j(1) by (auto simp: in_set_conv_nth)
  then have less: "icmp (fst (es ! j)) t < 0" unfolding split by simp
  obtain q where q: "ParseInternalKey le (fst (es ! j)) = Some q" "sequence q \<le> s" using j(2) by (auto simp: visible_entry_def split: option.splits)
  note pe = parsed_entry [OF q(1)]
  have "ikey_tag le (fst (es ! j)) \<le> pack_tag s kTypeValue" unfolding pe(2) using pack_tag_le [OF pe(3) assms(3)] q(2) by simp
  then show "ucmp (user_at es j) target < 0" using less unfolding icmp_less by (auto simp: t_def)
next
  define t where "t = ikey_bytes target s kTypeValue"
  note split = inner.first_ge_split [OF assms(1), of t, folded p_def [folded t_def]]
  assume j: "p \<le> j" "j < length es"
  then have "es ! j \<in> set (drop p es)" by (auto simp: in_set_conv_nth intro!: exI [of _ "j - p"])
  then have "\<not> icmp (fst (es ! j)) t < 0" unfolding split by simp
  then show "\<not> ucmp (user_at es j) target < 0" by (auto simp: icmp_less t_def)
qed

lemma view_first_ge:
  assumes "p \<le> length es" "\<And>j. j < p \<Longrightarrow> vis s (es ! j) \<Longrightarrow> ucmp (user_at es j) target < 0"
    "\<And>j. p \<le> j \<Longrightarrow> j < length es \<Longrightarrow> \<not> ucmp (user_at es j) target < 0"
  shows "first_ge ucmp (db_view le ucmp s es) target = rank (shw s es) p"
proof (rule first_ge_iff)
  show "rank (shw s es) p \<le> length (db_view le ucmp s es)" unfolding view_length using rank_mono [OF assms(1)] .
  have less: "m < p \<longleftrightarrow> rank (shw s es) m < rank (shw s es) p" if "m < length es" "shw s es m" for m
    using rank_mono [of "Suc m" p "shw s es"] rank_mono [of p m "shw s es"] that(2) by (cases "m < p") (simp_all add: rank_Suc)
  show "\<forall>k<rank (shw s es) p. ucmp (fst (db_view le ucmp s es ! k)) target < 0"
  proof (intro allI impI)
    fix k assume k: "k < rank (shw s es) p"
    then have "k < length (db_view le ucmp s es)" unfolding view_length using rank_mono [OF assms(1), of "shw s es"] by simp
    then obtain m where m: "m < length es" "shw s es m" "k = rank (shw s es) m" by (rule view_index)
    then show "ucmp (fst (db_view le ucmp s es ! k)) target < 0"
      using assms(2) [of m] less [OF m(1,2)] k view_rank(2) [OF m(2,1)] by (simp add: shown_def)
  qed
  show "rank (shw s es) p < length (db_view le ucmp s es) \<longrightarrow> \<not> ucmp (fst (db_view le ucmp s es ! rank (shw s es) p)) target < 0"
  proof
    assume "rank (shw s es) p < length (db_view le ucmp s es)"
    then obtain m where m: "m < length es" "shw s es m" "rank (shw s es) p = rank (shw s es) m" by (rule view_index)
    then show "\<not> ucmp (fst (db_view le ucmp s es ! rank (shw s es) p)) target < 0"
      using assms(3) [of m] less [OF m(1,2)] view_rank(2) [OF m(2,1)] by (simp add: not_less)
  qed
qed

lemma DBIter_Seek_pos:
  assumes "dbiter_pos le ucmp s pos vs it k" "seekable (ikey_bytes target s kTypeValue)"
  shows "\<exists>it'. DBIter_Seek vt le ucmp record_sample target it = Some it' \<and> dbiter_pos le ucmp s pos vs it' (first_ge ucmp vs target)"
  using assms(1)
proof (rule pos_state)
  fix es p0 assume e: "vs = db_view le ucmp s es" "forward_state s es (it\<lparr>di_direction := kForward\<rparr>) p0" "ascending icmp es"
  define t where "t = ikey_bytes target s kTypeValue"
  define p where "p = first_ge icmp es t"
  have s: "di_sequence it = s" "s \<le> kMaxSequenceNumber" "parses le es" "pos es (di_iter it) p0"
    using e(2) by (simp_all add: forward_state_def)
  then have t: "AppendInternalKey le [] \<lparr>user_key = target, sequence = s, value_type = kValueTypeForSeek\<rparr> = Some t"
    by (simp add: AppendInternalKey_bytes t_def kValueTypeForSeek_def)
  obtain i where i: "vt_Seek vt t (di_iter it) = Some i" "pos es i p" using inner.pos_seek [OF s(4) assms(2)] by (auto simp: p_def t_def)
  note target = seek_target [where target = target, OF e(3) s(3,2), folded t_def, folded p_def]
  have p: "p \<le> length es" by (rule inner.pos_le [OF i(2)])
  have ge: "first_ge ucmp vs target = rank (shw s es) p" unfolding e(1) by (rule view_first_ge [OF p target])
  let ?it = "it\<lparr>di_direction := kForward, di_saved_value := [], di_iter := i, di_saved_key := t\<rparr>"
  have st: "forward_state s es ?it p" using e(2) i(2) by (simp add: forward_state_def)
  show ?thesis
  proof (cases "p = length es")
    case True
    then have "\<not> vt_Valid vt i" using inner.pos_valid [OF i(2)] by simp
    moreover have "dbiter_pos le ucmp s pos (db_view le ucmp s es) (?it\<lparr>di_valid := False\<rparr>) (rank (shw s es) p)"
      by (rule forward_pos) (use st True in \<open>simp_all add: forward_state_def\<close>)
    ultimately show ?thesis using i(1) e(1) t s(1) ge by (simp add: DBIter_Seek_def Let_def)
  next
    case False
    have "\<not> (\<exists>i<p. vis s (es ! i) \<and> ucmp (user_at es i) (user_at es j) = 0)" if "j < length es" "p \<le> j" for j
      using target(1) target(2) [OF that(2,1)] le_less_trans [of "user_at es j" _ target] equal_iff by (metis)
    then have "passed_inv s es p p False t" by (auto simp: passed_inv_def)
    then have "\<exists>it'. FindNextUserEntry vt le ucmp record_sample False ?it = Some it' \<and>
        dbiter_pos le ucmp s pos (db_view le ucmp s es) it' (rank (shw s es) p)"
      using False p by (intro find_next_pos [OF st]) simp_all
    moreover have "vt_Valid vt i" using inner.pos_valid [OF i(2)] False p by simp
    ultimately show ?thesis using i(1) e(1) t s(1) ge by (simp add: DBIter_Seek_def Let_def)
  qed
qed

subsection \<open>Moving backward\<close>

text \<open>
  What the search backward from \<open>hi\<close> knows after the entries from \<open>n\<close>: no entry among them is shown, or the last visible one,
  \<open>m\<close>, is a value and is saved.
\<close>

definition prev_inv :: "SequenceNumber \<Rightarrow> (slice \<times> slice) list \<Rightarrow> nat \<Rightarrow> nat \<Rightarrow> ValueType \<Rightarrow> slice \<Rightarrow> slice \<Rightarrow> bool" where
  "prev_inv s es hi n type saved_key saved_value \<longleftrightarrow>
     (if type = kTypeDeletion then \<forall>j. n \<le> j \<longrightarrow> j \<le> hi \<longrightarrow> \<not> shw s es j
      else \<exists>m. n \<le> m \<and> m \<le> hi \<and> m < length es \<and> vis s (es ! m) \<and> value_entry le (es ! m) \<and> saved_key = user_at es m \<and>
        saved_value = snd (es ! m) \<and> (\<forall>j. n \<le> j \<longrightarrow> j < m \<longrightarrow> \<not> vis s (es ! j)) \<and> (\<forall>j. m < j \<longrightarrow> j \<le> hi \<longrightarrow> \<not> shw s es j))"

definition prev_found :: "SequenceNumber \<Rightarrow> (slice \<times> slice) list \<Rightarrow> nat \<Rightarrow> nat \<Rightarrow> slice \<Rightarrow> slice \<Rightarrow> nat \<Rightarrow> bool" where
  "prev_found s es hi q saved_key saved_value m \<longleftrightarrow>
     m \<le> hi \<and> m < length es \<and> shw s es m \<and> saved_key = user_at es m \<and> saved_value = snd (es ! m) \<and>
     (q = length es \<or> q < m) \<and> (\<forall>j<m. q = length es \<or> q < j \<longrightarrow> \<not> vis s (es ! j)) \<and> (\<forall>j. m < j \<longrightarrow> j \<le> hi \<longrightarrow> \<not> shw s es j)"

lemma prev_inv_invisible: "prev_inv s es hi (Suc q) type k v \<Longrightarrow> \<not> vis s (es ! q) \<Longrightarrow> prev_inv s es hi q type k v"
  unfolding prev_inv_def by (simp add: shown_def split: if_splits) (metis Suc_leI Suc_leD le_neq_implies_less)+

lemma prev_inv_break:
  assumes "prev_inv s es hi (Suc q) kTypeValue k v" "ascending icmp es" "ucmp (user_at es q) k < 0"
  shows "\<exists>m. prev_found s es hi q k v m"
proof -
  obtain m where m: "Suc q \<le> m" "m \<le> hi" "m < length es" "vis s (es ! m)" "value_entry le (es ! m)" "k = user_at es m" "v = snd (es ! m)"
      "\<forall>j. Suc q \<le> j \<longrightarrow> j < m \<longrightarrow> \<not> vis s (es ! j)" "\<forall>j. m < j \<longrightarrow> j \<le> hi \<longrightarrow> \<not> shw s es j"
    using assms(1) by (auto simp: prev_inv_def)
  have "ucmp (user_at es j) (user_at es m) \<noteq> 0" if "j \<le> q" for j
    using le_less_trans [OF user_le [OF assms(2) that], of k] m(1,3,6) assms(3) by simp
  then have "shw s es m" using m(4,5,8) by (auto simp: shown_def) (metis not_less_eq_eq)
  then show ?thesis using m by (auto simp: prev_found_def Suc_le_eq)
qed

lemma prev_inv_none:
  assumes "prev_inv s es hi (Suc q) type k v" "ascending icmp es" "vis s (es ! q)" "\<not> (type \<noteq> kTypeDeletion \<and> ucmp (user_at es q) k < 0)"
    "Suc q \<le> j" "j \<le> hi"
  shows "\<not> shw s es j"
proof (cases "type = kTypeDeletion")
  case True
  then show ?thesis using assms(1,5,6) by (simp add: prev_inv_def)
next
  case False
  then obtain m where m: "Suc q \<le> m" "m \<le> hi" "m < length es" "vis s (es ! m)" "value_entry le (es ! m)" "k = user_at es m" "v = snd (es ! m)"
      "\<forall>j. Suc q \<le> j \<longrightarrow> j < m \<longrightarrow> \<not> vis s (es ! j)" "\<forall>j. m < j \<longrightarrow> j \<le> hi \<longrightarrow> \<not> shw s es j"
    using assms(1) by (auto simp: prev_inv_def)
  have "ucmp (user_at es q) (user_at es m) = 0"
    using user_le [OF assms(2), of q m] m(1,3,6) assms(4) False by (simp add: equal_iff not_less)
  then have "\<not> shw s es m" using m(1) assms(3) by (auto simp: shown_def)
  then show ?thesis using m(8,9) assms(5,6) by (metis shown_def linorder_neqE_nat)
qed

lemma prev_inv_end: "prev_inv s es hi 0 kTypeValue k v \<Longrightarrow> \<exists>m. prev_found s es hi (length es) k v m"
  unfolding prev_inv_def prev_found_def by (auto simp: shown_def)

definition iter_state :: "SequenceNumber \<Rightarrow> (slice \<times> slice) list \<Rightarrow> ('i, 'w) DBIter \<Rightarrow> nat \<Rightarrow> bool" where
  "iter_state s es it p \<longleftrightarrow> di_sequence it = s \<and> s \<le> kMaxSequenceNumber \<and> di_status it = Status_OK \<and> seed_ok (di_rnd it) \<and>
     parses le es \<and> pos es (di_iter it) p"

lemma find_prev:
  assumes "iter_state s es it q" "q < length es" "prev_inv s es hi (Suc q) type (di_saved_key it) (di_saved_value it)" "q \<le> hi"
  shows "\<exists>type' it' q'. find_prev_loop vt le ucmp record_sample type it = Some (type', it') \<and> iter_state s es it' q' \<and>
    di_direction it' = di_direction it \<and>
    (if type' = kTypeDeletion then \<forall>j\<le>hi. \<not> shw s es j else \<exists>m. prev_found s es hi q' (di_saved_key it') (di_saved_value it') m)"
  using assms
proof (induction q arbitrary: it type rule: less_induct)
  case (less q)
  note st = less.prems(1) [unfolded iter_state_def]
  have asc: "ascending icmp es" using st inner.pos_ascending by blast
  obtain ikey it1 where k: "DBIter_ParseKey vt le record_sample it = Some (Some ikey, it1)" "same_iter it it1"
      "user_key ikey = user_at es q" "vis s (es ! q) \<longleftrightarrow> sequence ikey \<le> s" "value_entry le (es ! q) \<longleftrightarrow> value_type ikey = kTypeValue"
      "vt_key vt (di_iter it1) = Some (fst (es ! q))" "vt_value vt (di_iter it1) = Some (snd (es ! q))"
    using parse_key [of es it q s] st less.prems(2) by blast
  have st1: "iter_state s es it1 q" "di_saved_key it1 = di_saved_key it" "di_saved_value it1 = di_saved_value it" "di_sequence it1 = s"
      "di_direction it1 = di_direction it"
    using k(2) less.prems(1) by (simp_all add: same_iter_def iter_state_def)
  have pass: ?case if pass: "find_prev_round vt le ucmp record_sample type it =
      do { i \<leftarrow> vt_Prev vt (di_iter it2);
           Some (if vt_Valid vt i then Inr (type', it2\<lparr>di_iter := i\<rparr>) else Inl (type', it2\<lparr>di_iter := i\<rparr>)) }"
    and st2: "iter_state s es it2 q" "di_direction it2 = di_direction it"
    and inv: "prev_inv s es hi q type' (di_saved_key it2) (di_saved_value it2)" for type' it2
  proof -
    obtain i where i: "vt_Prev vt (di_iter it2) = Some i" "pos es i (if q = 0 then length es else q - 1)"
      using inner.pos_prev [of es "di_iter it2" q] st2(1) less.prems(2) unfolding iter_state_def by blast
    show ?thesis
    proof (cases q)
      case 0
      then have "\<not> vt_Valid vt i" using inner.pos_valid [OF i(2)] by simp
      then have "find_prev_loop vt le ucmp record_sample type it = Some (type', it2\<lparr>di_iter := i\<rparr>)"
        using pass i(1) by (simp add: find_prev_loop.simps)
      moreover have "iter_state s es (it2\<lparr>di_iter := i\<rparr>) (length es)" using st2(1) i(2) 0 by (simp add: iter_state_def)
      moreover have "if type' = kTypeDeletion then \<forall>j\<le>hi. \<not> shw s es j
          else \<exists>m. prev_found s es hi (length es) (di_saved_key it2) (di_saved_value it2) m"
        using inv 0 prev_inv_end by (cases type') (auto simp: prev_inv_def)
      ultimately show ?thesis using st2(2) by (intro exI [of _ type'] exI [of _ "it2\<lparr>di_iter := i\<rparr>"] exI [of _ "length es"]) simp
    next
      case (Suc r)
      then have "vt_Valid vt i" using inner.pos_valid [OF i(2)] less.prems(2) by simp
      then have r: "find_prev_loop vt le ucmp record_sample type it = find_prev_loop vt le ucmp record_sample type' (it2\<lparr>di_iter := i\<rparr>)"
        using pass i(1) by (simp add: find_prev_loop.simps [of _ _ _ _ type it])
      have "iter_state s es (it2\<lparr>di_iter := i\<rparr>) r" using st2(1) i(2) Suc by (simp add: iter_state_def)
      from less.IH [OF _ this, of type'] inv Suc less.prems(2,4) st2(2) show ?thesis unfolding r by simp
    qed
  qed
  show ?case
  proof (cases "vis s (es ! q)")
    case False
    then show ?thesis using k st1 prev_inv_invisible [OF less.prems(3)]
      by (intro pass [of it1 type]) (simp_all add: find_prev_round_def Let_def)
  next
    case vis: True
    show ?thesis
    proof (cases "type \<noteq> kTypeDeletion \<and> ucmp (user_at es q) (di_saved_key it) < 0")
      case True
      then have "find_prev_loop vt le ucmp record_sample type it = Some (type, it1)"
        using vis k st1 by (simp add: find_prev_loop.simps find_prev_round_def Let_def)
      moreover have "\<exists>m. prev_found s es hi q (di_saved_key it1) (di_saved_value it1) m"
        using prev_inv_break [of s es hi q "di_saved_key it" "di_saved_value it"] less.prems(3) asc True st1(2,3) by (cases type) simp_all
      ultimately show ?thesis using st1 True by auto
    next
      case go_on: False
      have none: "\<not> shw s es j" if "Suc q \<le> j" "j \<le> hi" for j by (rule prev_inv_none [OF less.prems(3) asc vis go_on that])
      show ?thesis
      proof (cases "value_type ikey")
        case kTypeDeletion
        let ?it2 = "it1\<lparr>di_saved_key := [], di_saved_value := []\<rparr>"
        have "\<not> shw s es q" using kTypeDeletion k(5) by (simp add: shown_def)
        then have "\<not> shw s es j" if "q \<le> j" "j \<le> hi" for j using none that by (cases "j = q") auto
        then have "prev_inv s es hi q kTypeDeletion (di_saved_key ?it2) (di_saved_value ?it2)" by (simp add: prev_inv_def)
        moreover have "iter_state s es ?it2 q" using st1(1) by (simp add: iter_state_def)
        ultimately show ?thesis using vis k st1 go_on kTypeDeletion
          by (intro pass [of ?it2 ValueType.kTypeDeletion]) (auto simp: find_prev_round_def Let_def)
      next
        case kTypeValue
        let ?it2 = "it1\<lparr>di_saved_key := user_at es q, di_saved_value := snd (es ! q)\<rparr>"
        have "prev_inv s es hi q kTypeValue (di_saved_key ?it2) (di_saved_value ?it2)"
          using none less.prems(4) vis k(5) kTypeValue less.prems(2) by (auto simp: prev_inv_def)
        moreover have "iter_state s es ?it2 q" using st1(1) by (simp add: iter_state_def)
        ultimately show ?thesis using vis k st1 go_on kTypeValue
          by (intro pass [of ?it2 ValueType.kTypeValue]) (auto simp: find_prev_round_def Let_def)
      qed
    qed
  qed
qed

lemma find_prev_pos:
  assumes "iter_state s es it p" "p \<le> length es" "di_direction it = kReverse" "c \<le> length es"
    "\<And>j. p = length es \<or> p < j \<Longrightarrow> j < c \<Longrightarrow> \<not> shw s es j" "p = length es \<or> p < c"
  shows "\<exists>it'. FindPrevUserEntry vt le ucmp record_sample it = Some it' \<and>
    dbiter_pos le ucmp s pos (db_view le ucmp s es) it' (one_before (rank (shw s es) c) (length (db_view le ucmp s es)))"
proof -
  note ps = assms(1) [unfolded iter_state_def]
  have off: "\<exists>it'. FindPrevUserEntry vt le ucmp record_sample it = Some it' \<and>
      dbiter_pos le ucmp s pos (db_view le ucmp s es) it' (length (db_view le ucmp s es))"
    if "(if vt_Valid vt (di_iter it) then find_prev_loop vt le ucmp record_sample kTypeDeletion it else Some (kTypeDeletion, it)) =
        Some (ValueType.kTypeDeletion, it2)" "iter_state s es it2 q" for it2 q
    using that assms(3) by (auto simp: FindPrevUserEntry_def dbiter_pos_def iter_state_def split del: if_split)
  show ?thesis
  proof (cases "p = length es")
    case True
    then have "\<not> vt_Valid vt (di_iter it)" using ps inner.pos_valid by auto
    moreover have "rank (shw s es) c = 0" using assms(5) True rank_skip [of 0 c "shw s es"] by simp
    ultimately show ?thesis using off [of it p] assms(1) by (simp add: one_before_def)
  next
    case False
    then have p: "p < length es" "p < c" using assms(2,6) by simp_all
    then have valid: "vt_Valid vt (di_iter it)" using ps inner.pos_valid by auto
    have "prev_inv s es p (Suc p) kTypeDeletion k v" for k v by (simp add: prev_inv_def)
    from find_prev [OF assms(1) p(1) this order_refl] obtain type' it' q where
      l: "find_prev_loop vt le ucmp record_sample kTypeDeletion it = Some (type', it')" "iter_state s es it' q"
         "di_direction it' = di_direction it"
         "if type' = kTypeDeletion then \<forall>j\<le>p. \<not> shw s es j else \<exists>m. prev_found s es p q (di_saved_key it') (di_saved_value it') m"
      by blast
    have skip: "\<not> shw s es j" if "p < j" "j < c" for j using assms(5) that by blast
    show ?thesis
    proof (cases type')
      case kTypeDeletion
      then have "\<not> shw s es j" if "j < c" for j using l(4) skip [of j] that by (cases "j \<le> p") simp_all
      then have "rank (shw s es) c = 0" using rank_skip [of 0 c "shw s es"] by simp
      then show ?thesis using off [OF _ l(2)] l(1) valid kTypeDeletion by (simp add: one_before_def)
    next
      case kTypeValue
      then obtain m where m: "prev_found s es p q (di_saved_key it') (di_saved_value it') m" using l(4) by auto
      note mm = m [unfolded prev_found_def]
      have "rank (shw s es) c = rank (shw s es) (Suc m)"
      proof (rule rank_skip)
        show "Suc m \<le> c" using mm p(2) by simp
        show "\<not> shw s es j" if "Suc m \<le> j" "j < c" for j using mm skip [of j] that by (cases "j \<le> p") simp_all
      qed
      then have "one_before (rank (shw s es) c) (length (db_view le ucmp s es)) = rank (shw s es) m"
        using mm by (simp add: one_before_def rank_Suc)
      moreover have "dbiter_pos le ucmp s pos (db_view le ucmp s es) (it'\<lparr>di_valid := True\<rparr>) (rank (shw s es) m)"
        unfolding dbiter_pos_def using l(2,3) assms(3) mm
        by (intro conjI exI [of _ es] exI [of _ q]) (auto simp: iter_state_def intro!: exI [of _ m])
      ultimately show ?thesis using l(1) valid kTypeValue assms(3) by (simp add: FindPrevUserEntry_def)
    qed
  qed
qed

text \<open>The loop that leaves the versions of the current user key backward.\<close>

lemma prev_key:
  assumes "ascending icmp es" "pos es i p" "p < length es" "\<And>j. p \<le> j \<Longrightarrow> j \<le> m \<Longrightarrow> \<not> ucmp (user_at es j) (user_at es m) < 0"
    "p \<le> m" "m < length es"
  shows "\<exists>i' more q. prev_key_loop vt ucmp (user_at es m) i = Some (i', more) \<and> pos es i' q \<and> (more \<longleftrightarrow> q < length es) \<and>
    (q = length es \<or> q < m) \<and> (\<forall>j. q = length es \<or> q < j \<longrightarrow> j \<le> m \<longrightarrow> \<not> ucmp (user_at es j) (user_at es m) < 0)"
  using assms(2-5)
proof (induction p arbitrary: i)
  case 0
  obtain i' where i': "vt_Prev vt i = Some i'" "pos es i' (length es)" using inner.pos_prev [OF 0(1,2)] by auto
  then have "\<not> vt_Valid vt i'" using inner.pos_valid [OF i'(2)] by simp
  then have "prev_key_loop vt ucmp (user_at es m) i = Some (i', False)" using i'(1) by (simp add: prev_key_loop.simps)
  then show ?case using i'(2) 0(3) by blast
next
  case (Suc p)
  obtain i' where i': "vt_Prev vt i = Some i'" "pos es i' p" using inner.pos_prev [OF Suc.prems(1,2)] by auto
  then have v: "vt_Valid vt i'" "vt_key vt i' = Some (fst (es ! p))" using inner.pos_valid [OF i'(2)] inner.pos_key [OF i'(2)] Suc.prems(2) by simp_all
  show ?case
  proof (cases "ucmp (user_at es p) (user_at es m) < 0")
    case True
    then have "prev_key_loop vt ucmp (user_at es m) i = Some (i', True)" using i'(1) v by (simp add: prev_key_loop.simps)
    then show ?thesis using i'(2) Suc.prems(2-4) by (intro exI [of _ i'] exI [of _ True] exI [of _ p]) auto
  next
    case False
    then have "prev_key_loop vt ucmp (user_at es m) i = prev_key_loop vt ucmp (user_at es m) i'"
      using i'(1) v by (simp add: prev_key_loop.simps [of _ _ _ i])
    moreover have "\<not> ucmp (user_at es j) (user_at es m) < 0" if "p \<le> j" "j \<le> m" for j
      using False Suc.prems(3) [OF _ that(2)] that(1) by (cases "j = p") auto
    ultimately show ?thesis using Suc.IH [OF i'(2)] Suc.prems(2,4) by simp
  qed
qed

lemma DBIter_Prev_pos:
  assumes "dbiter_pos le ucmp s pos vs it k" "k < length vs"
  shows "\<exists>it'. DBIter_Prev vt le ucmp record_sample it = Some it' \<and>
    dbiter_pos le ucmp s pos vs it' (one_before k (length vs))"
  using assms(1)
proof (cases rule: pos_cases)
  case 1
  then show ?thesis using assms(2) by simp
next
  case (2 es m)
  note st = 2(2) [unfolded forward_state_def]
  have ps: "pos es (di_iter it) m" using st by blast
  obtain i more q where l: "prev_key_loop vt ucmp (user_at es m) (di_iter it) = Some (i, more)" "pos es i q" "more \<longleftrightarrow> q < length es"
      "q = length es \<or> q < m" "\<forall>j. q = length es \<or> q < j \<longrightarrow> j \<le> m \<longrightarrow> \<not> ucmp (user_at es j) (user_at es m) < 0"
    using prev_key [OF 2(3) ps 2(5), of m] 2(5) self by auto
  have between: "\<not> shw s es j" if "q = length es \<or> q < j" "j < m" for j
  proof -
    have "ucmp (user_at es j) (user_at es m) = 0"
      using l(5) [rule_format, OF that(1)] user_le [OF 2(3), of j m] 2(5) that(2) by (simp add: equal_iff not_less)
    then show ?thesis using 2(6) that(2) by (auto simp: shown_def)
  qed
  have kv: "vt_key vt (di_iter it) = Some (fst (es ! m))" "vt_Valid vt (di_iter it)" "di_direction it = kForward"
    using st inner.pos_key [OF ps] inner.pos_valid [OF ps] 2(5) by simp_all
  show ?thesis
  proof (cases "q = length es")
    case True
    then have "rank (shw s es) m = 0" using between rank_skip [of 0 m "shw s es"] by simp
    moreover have "dbiter_pos le ucmp s pos vs (it\<lparr>di_iter := i, di_valid := False, di_saved_key := [], di_saved_value := []\<rparr>) (length vs)"
      unfolding dbiter_pos_def using st 2(1) l(2) by (auto intro!: exI [of _ es])
    ultimately show ?thesis using 2 kv l(1,3) True by (simp add: DBIter_Prev_def one_before_def Let_def)
  next
    case False
    then have q: "q < m" using l(4) by blast
    let ?it = "it\<lparr>di_saved_key := user_at es m, di_iter := i, di_direction := kReverse\<rparr>"
    have "iter_state s es ?it q" using st l(2) by (simp add: iter_state_def)
    then have "\<exists>it'. FindPrevUserEntry vt le ucmp record_sample ?it = Some it' \<and>
        dbiter_pos le ucmp s pos (db_view le ucmp s es) it' (one_before (rank (shw s es) m) (length (db_view le ucmp s es)))"
      using q 2(5) between by (intro find_prev_pos [where p = q]) auto
    then show ?thesis using 2 kv l(1,3) q by (simp add: DBIter_Prev_def Let_def)
  qed
next
  case (3 es p m)
  have "iter_state s es it p" using 3(2) by (simp add: forward_state_def iter_state_def)
  then have "\<exists>it'. FindPrevUserEntry vt le ucmp record_sample it = Some it' \<and>
      dbiter_pos le ucmp s pos (db_view le ucmp s es) it' (one_before (rank (shw s es) m) (length (db_view le ucmp s es)))"
    using 3(5,6,7,12,13) by (intro find_prev_pos [where p = p]) (auto simp: shown_def)
  then show ?thesis using 3(1,4,6,9) by (simp add: DBIter_Prev_def)
qed

lemma DBIter_last_pos:
  assumes "dbiter_pos le ucmp s pos vs it k"
  shows "\<exists>it'. DBIter_SeekToLast vt le ucmp record_sample it = Some it' \<and> dbiter_pos le ucmp s pos vs it' (length vs - 1)"
  using assms
proof (rule pos_state)
  fix es p assume e: "vs = db_view le ucmp s es" "forward_state s es (it\<lparr>di_direction := kForward\<rparr>) p" "ascending icmp es"
  have "pos es (di_iter it) p" using e(2) by (simp add: forward_state_def)
  then obtain i where i: "vt_SeekToLast vt (di_iter it) = Some i" "pos es i (length es - 1)" using inner.pos_last by blast
  let ?it = "it\<lparr>di_direction := kReverse, di_saved_value := [], di_iter := i\<rparr>"
  have "iter_state s es ?it (length es - 1)" using e(2) i(2) by (simp add: forward_state_def iter_state_def)
  then have "\<exists>it'. FindPrevUserEntry vt le ucmp record_sample ?it = Some it' \<and>
      dbiter_pos le ucmp s pos (db_view le ucmp s es) it' (one_before (rank (shw s es) (length es)) (length (db_view le ucmp s es)))"
    by (intro find_prev_pos [where p = "length es - 1"]) (cases es; auto)+
  then show ?thesis using i(1) e(1) by (simp add: DBIter_SeekToLast_def Let_def one_before_def view_length split: if_splits)
qed

lemma db_seekable:
  fixes it :: "('i, 'w) DBIter"
  assumes "dbiter_pos le ucmp s pos vs it k" "e \<in> set vs"
  shows "seekable (ikey_bytes (fst e) s kTypeValue)"
  using assms(1)
proof (rule pos_state)
  fix es p assume e: "vs = db_view le ucmp s es" "forward_state s es (it\<lparr>di_direction := kForward\<rparr>) p"
  obtain m where m: "m < length es" "fst e = user_at es m" using assms(2) unfolding e(1) db_view_def by auto
  have "parses le es" "pos es (di_iter it) p" using e(2) by (simp_all add: forward_state_def)
  then obtain ikey where ikey: "ParseInternalKey le (fst (es ! m)) = Some ikey" and "seekable (fst (es ! m))"
    using m(1) inner.pos_seekable [of es "di_iter it" p "es ! m"] by (auto simp: parses_def dest!: bspec [OF _ nth_mem])
  moreover have "fst (es ! m) = ikey_bytes (user_key ikey) (sequence ikey) (value_type ikey)"
    using ParseInternalKey_inverse [OF ikey] by (auto simp: AppendInternalKey_bytes split: if_splits)
  ultimately show ?thesis using seek_user parsed_entry(1) [OF ikey] m(2) by metis
qed

lemma dbiter_class:
  "iterator_class ucmp (DBIter_vt vt le ucmp record_sample) (dbiter_pos le ucmp s pos) (\<lambda>u. seekable (ikey_bytes u s kTypeValue))"
proof -
  have basic: "(DBIter_Valid it \<longleftrightarrow> k < length vs) \<and> k \<le> length vs \<and> ascending ucmp vs \<and> DBIter_status vt it = Some Status_OK \<and>
      (k < length vs \<longrightarrow> DBIter_key vt it = Some (fst (vs ! k)) \<and> DBIter_value vt it = Some (snd (vs ! k)))"
    if "dbiter_pos le ucmp s pos vs it k" for vs k and it :: "('i, 'w) DBIter"
    using that
  proof (cases rule: pos_cases)
    case (1 es p)
    then show ?thesis using view_ascending [OF 1(8)] inner.pos_status [OF 1(3)] by (simp add: DBIter_Valid_def DBIter_status_def Status_ok_def Status_OK_def)
  next
    case (2 es p)
    note st = 2(2) [unfolded forward_state_def]
    then have ps: "pos es (di_iter it) p" by blast
    show ?thesis
      using 2 st view_ascending [OF 2(3)] inner.pos_status [OF ps] inner.pos_key [OF ps] inner.pos_value [OF ps] view_rank [OF 2(6,5)]
      by (simp add: DBIter_Valid_def DBIter_status_def DBIter_key_def DBIter_value_def Status_ok_def Status_OK_def)
  next
    case (3 es p m)
    note st = 3(2) [unfolded forward_state_def]
    then have "pos es (di_iter it) p" by simp
    then show ?thesis
      using 3 st view_ascending [OF 3(3)] inner.pos_status [of es "di_iter it" p] view_rank [OF 3(8,7)]
      by (simp add: DBIter_Valid_def DBIter_status_def DBIter_key_def DBIter_value_def Status_ok_def Status_OK_def)
  qed
  have "iterator_contract ucmp DBIter_Valid (DBIter_key vt :: ('i, 'w) DBIter \<Rightarrow> _) (DBIter_value vt) (DBIter_Next vt le ucmp record_sample)
      (DBIter_Prev vt le ucmp record_sample) (DBIter_SeekToFirst vt le ucmp record_sample) (DBIter_SeekToLast vt le ucmp record_sample)
      (DBIter_Seek vt le ucmp record_sample) (dbiter_pos le ucmp s pos) (\<lambda>u. seekable (ikey_bytes u s kTypeValue))"
  proof (intro iterator_contract.intro iterator_contract_axioms.intro key_order_axioms)
    fix vs k target and it :: "('i, 'w) DBIter"
    assume p: "dbiter_pos le ucmp s pos vs it k"
    show "DBIter_Valid it = (k < length vs)" "k \<le> length vs" "ascending ucmp vs"
      "k < length vs \<Longrightarrow> DBIter_key vt it = Some (fst (vs ! k))" "k < length vs \<Longrightarrow> DBIter_value vt it = Some (snd (vs ! k))"
      using basic [OF p] by simp_all
    show "k < length vs \<Longrightarrow> \<exists>it'. DBIter_Next vt le ucmp record_sample it = Some it' \<and> dbiter_pos le ucmp s pos vs it' (Suc k)"
      by (rule DBIter_Next_pos [OF p])
    show "k < length vs \<Longrightarrow> \<exists>it'. DBIter_Prev vt le ucmp record_sample it = Some it' \<and>
        dbiter_pos le ucmp s pos vs it' (if k = 0 then length vs else k - 1)"
      using DBIter_Prev_pos [OF p] by (simp add: one_before_def)
    show "\<exists>it'. DBIter_SeekToFirst vt le ucmp record_sample it = Some it' \<and> dbiter_pos le ucmp s pos vs it' 0"
      "\<exists>it'. DBIter_SeekToLast vt le ucmp record_sample it = Some it' \<and> dbiter_pos le ucmp s pos vs it' (length vs - 1)"
      by (rule DBIter_first_pos [OF p] DBIter_last_pos [OF p])+
    show "seekable (ikey_bytes target s kTypeValue) \<Longrightarrow>
        \<exists>it'. DBIter_Seek vt le ucmp record_sample target it = Some it' \<and> dbiter_pos le ucmp s pos vs it' (first_ge ucmp vs target)"
      by (rule DBIter_Seek_pos [OF p])
    show "e \<in> set vs \<Longrightarrow> seekable (ikey_bytes (fst e) s kTypeValue)" for e
      by (rule db_seekable [OF p])
  qed
  then show ?thesis using basic by (simp add: iterator_class_def iterator_class_axioms_def DBIter_vt_def)
qed

lemma DBIter_init_pos:
  assumes "pos es iter p" "parses le es" "s \<le> kMaxSequenceNumber"
  shows "dbiter_pos le ucmp s pos (db_view le ucmp s es) (DBIter_init db iter s rnd_seed) (length (db_view le ucmp s es))"
proof -
  have "seed_ok (snd (RandomPeriod (Random_init rnd_seed)))" by (intro RandomPeriod_ok Random_init_ok)
  then show ?thesis using assms unfolding dbiter_pos_def DBIter_init_def by (auto simp: split_def)
qed

end

text \<open>Over a merging iterator, as \<^verbatim>\<open>DBImpl::NewIterator\<close> has it, with tables as its children.\<close>

interpretation bytewise_db: db_internal le Slice_compare
  "MergingIterator_vt (InternalKeyComparator_Compare le Slice_compare) (TableIterator_vt (InternalKeyComparator_Compare le Slice_compare) le)"
  "merge_pos (InternalKeyComparator_Compare le Slice_compare) (table_iterator (InternalKeyComparator_Compare le Slice_compare))"
  "\<lambda>_. True" "\<lambda>_ db. db" for le
  by (intro db_internal.intro db_internal_axioms.intro merging_iterator_class table_iterator_class bytewise_internal.icmp_order
      bytewise_internal.internal_order_axioms TrueI)

subsection \<open>Properties\<close>

text \<open>
  C6: the iterator of the database shows a snapshot. Over any internal iterator that keeps the contract of iterators on
  entries with internal keys, any sequence of calls of \<^verbatim>\<open>SeekToFirst\<close>, \<^verbatim>\<open>SeekToLast\<close>, \<^verbatim>\<open>Seek\<close>, \<^verbatim>\<open>Next\<close> and \<^verbatim>\<open>Prev\<close>, with any
  changes of direction, shows what the same calls show on the list of the user keys whose newest version at the
  sequence number is a value, each once, with that value. No assertion fails and every loop returns, also the one that
  draws random numbers.
\<close>

theorem db_iterator:
  assumes "iterator_class (InternalKeyComparator_Compare le ucmp) vt pos seekable" and "key_order ucmp"
    and "\<And>u s s' t t'. seekable (ikey_bytes u s t) \<Longrightarrow> seekable (ikey_bytes u s' t')"
    and "pos es iter p" and "parses le es" and "s \<le> kMaxSequenceNumber"
    and "run_list ucmp (db_view le ucmp s es) calls (length (db_view le ucmp s es)) = Some obs"
    and "seeks_ok (\<lambda>u. seekable (ikey_bytes u s kTypeValue)) calls"
  shows "run_iter (DBIter_vt vt le ucmp record_sample) calls (DBIter_init db iter s rnd_seed) = Some obs"
proof -
  have db: "db_internal le ucmp vt pos seekable" using assms(1-3) by (simp add: db_internal_def internal_order_def db_internal_axioms_def)
  show ?thesis
    by (rule iterator_class.run_pos [OF db_internal.dbiter_class [OF db] db_internal.DBIter_init_pos [OF db assms(4-6)] assms(7,8)])
qed

text \<open>A block with a deletion that is too new to be seen, an older value of the same key, and a second key.\<close>

definition ex_versions :: "(slice \<times> slice) list" where
  "ex_versions = [(ikey_bytes [1] 9 kTypeDeletion, []), (ikey_bytes [1] 4 kTypeValue, [7]), (ikey_bytes [2] 3 kTypeValue, [8])]"

lemma ex_versions_block:
  obtains it where "block_iterator (InternalKeyComparator_Compare True Slice_compare) ex_versions it 3"
proof -
  have "blk_ok 1 ex_versions"
    by (simp add: ex_versions_def blk_ok_def length_blk_bytes blk_num_def blk_off_def blk_data_def blk_entry_def blk_head_def
        blk_shared_def EncodeVarint32_def upt_rec)
  moreover from this obtain it where "block_pos 1 ex_versions it 3"
    using block_new_iterator [of 1 ex_versions True] by (auto simp: ex_versions_def eval_nat_numeral)
  moreover have "ascending (InternalKeyComparator_Compare True Slice_compare) ex_versions"
    by (simp add: ex_versions_def ascending_def bytewise_internal.icmp_bytes pack_tag_def ValueType_byte_def)
  ultimately show thesis using that by (fastforce simp: block_iterator_def)
qed

lemma ex_versions_view: "db_view True Slice_compare 5 ex_versions = [([1], [7]), ([2], [8])]"
  by (simp add: ex_versions_def db_view_def shown_def visible_entry_def value_entry_def ParseInternalKey_bytes kMaxSequenceNumber_def upt_rec
      Ex_less_Suc)

lemma ex_versions_parses: "parses True ex_versions"
  by (simp add: ex_versions_def parses_def ParseInternalKey_bytes kMaxSequenceNumber_def)

theorem db_iterator_witness:
  "\<exists>it. block_iterator (InternalKeyComparator_Compare True Slice_compare) ex_versions it 3 \<and>
     run_iter (DBIter_vt (TableIterator_vt (InternalKeyComparator_Compare True Slice_compare) True) True Slice_compare (\<lambda>_ w. w))
       [CallFirst, CallNext, CallPrev, CallNext, CallNext, CallSeek [2]] (DBIter_init () (BlockIterator it) 5 301) =
     Some [Some ([1], [7]), Some ([2], [8]), Some ([1], [7]), Some ([2], [8]), None, Some ([2], [8])]"
proof -
  obtain it where it: "block_iterator (InternalKeyComparator_Compare True Slice_compare) ex_versions it 3" by (rule ex_versions_block)
  have "run_iter (DBIter_vt (TableIterator_vt (InternalKeyComparator_Compare True Slice_compare) True) True Slice_compare (\<lambda>_ w. w))
       [CallFirst, CallNext, CallPrev, CallNext, CallNext, CallSeek [2]] (DBIter_init () (BlockIterator it) 5 301) =
     Some [Some ([1], [7]), Some ([2], [8]), Some ([1], [7]), Some ([2], [8]), None, Some ([2], [8])]"
  proof (rule db_iterator [OF table_iterator_class [OF bytewise_internal.icmp_order] bytewise.key_order_axioms])
    show "table_iterator (InternalKeyComparator_Compare True Slice_compare) ex_versions (BlockIterator it) 3" using it by simp
    show "run_list Slice_compare (db_view True Slice_compare 5 ex_versions) [CallFirst, CallNext, CallPrev, CallNext, CallNext, CallSeek [2]]
        (length (db_view True Slice_compare 5 ex_versions)) =
      Some [Some ([1], [7]), Some ([2], [8]), Some ([1], [7]), Some ([2], [8]), None, Some ([2], [8])]"
      by (simp add: ex_versions_view first_ge_def)
  qed (simp_all add: ex_versions_parses kMaxSequenceNumber_def)
  with it show ?thesis by blast
qed

end
