(* ===== verification/LDB_MemTable_Iter.thy ===== *)
theory LDB_MemTable_Iter
  imports LDB_MemTable LDB_DBIter
begin

text \<open>
  Memtables as a source of the database iterator: the class \<^verbatim>\<open>MemTableIterator\<close> of \<^verbatim>\<open>db/memtable.cc\<close> keeps the contract
  of iterators, for the entries of the memtable as pairs of internal key and value. So the iterator of the database over
  a memtable shows a snapshot of it, and that snapshot is what \<^verbatim>\<open>MemTable::Get\<close> answers from.
\<close>

subsection \<open>The class of memtable iterators\<close>

definition MemTableIterator_vt :: "bool \<Rightarrow> (slice \<Rightarrow> slice \<Rightarrow> int) \<Rightarrow> MemTable \<Rightarrow> nat option Iterator_vt" where
  "MemTableIterator_vt le ucmp m =
     \<lparr>vt_Valid = MemTableIterator_Valid, vt_key = MemTableIterator_key m, vt_value = MemTableIterator_value m,
      vt_Next = MemTableIterator_Next m, vt_Prev = MemTableIterator_Prev le ucmp m,
      vt_SeekToFirst = (\<lambda>_. MemTableIterator_SeekToFirst m), vt_SeekToLast = (\<lambda>_. MemTableIterator_SeekToLast m),
      vt_Seek = (\<lambda>k _. MemTableIterator_Seek le ucmp m k), vt_status = (\<lambda>_. Some Status_OK)\<rparr>"

definition mem_entries :: "mentry list \<Rightarrow> (slice \<times> slice) list" where
  "mem_entries ms = map (\<lambda>e. (mikey e, mval e)) ms"

lemma mem_entries_simps [simp]:
  "length (mem_entries ms) = length ms" "i < length ms \<Longrightarrow> mem_entries ms ! i = (mikey (ms ! i), mval (ms ! i))"
  by (simp_all add: mem_entries_def)

text \<open>A position: the node of entry \<open>i\<close> in the order of the skip list.\<close>

definition node_at :: "nat list \<Rightarrow> nat \<Rightarrow> nat option" where
  "node_at ord i = (if i < length ord then Some (ord ! i) else None)"

definition mem_nodes :: "bool \<Rightarrow> (slice \<Rightarrow> slice \<Rightarrow> int) \<Rightarrow> MemTable \<Rightarrow> mentry list \<Rightarrow> nat list \<Rightarrow> bool" where
  "mem_nodes le ucmp m ms ord \<longleftrightarrow>
     skip_inv (KeyComparator le ucmp) (table m) ord \<and> skip_keys (table m) ord = map entry_bytes ms \<and> list_all mentry_ok ms"

definition mem_pos :: "bool \<Rightarrow> (slice \<Rightarrow> slice \<Rightarrow> int) \<Rightarrow> MemTable \<Rightarrow> (slice \<times> slice) list \<Rightarrow> nat option \<Rightarrow> nat \<Rightarrow> bool" where
  "mem_pos le ucmp m es it i \<longleftrightarrow>
     (\<exists>ms ord. mem_nodes le ucmp m ms ord \<and> es = mem_entries ms \<and> i \<le> length ms \<and> it = node_at ord i)"

lemma mem_inv_nodes: "mem_inv le ucmp m ms \<longleftrightarrow> (\<exists>ord. mem_nodes le ucmp m ms ord)"
  by (auto simp: mem_inv_def mem_nodes_def skip_abs_def)

lemma mem_nodes_length: "mem_nodes le ucmp m ms ord \<Longrightarrow> length ord = length ms"
  unfolding mem_nodes_def skip_keys_def by (metis length_map)

lemma mem_pos_init: "mem_inv le ucmp m ms \<Longrightarrow> mem_pos le ucmp m (mem_entries ms) Iterator_init (length ms)"
  unfolding mem_inv_nodes mem_pos_def Iterator_init_def node_at_def using mem_nodes_length by fastforce

lemma node_at_split:
  assumes "mem_nodes le ucmp m ms ord" "i < length ms"
  shows "ord = take i ord @ ord ! i # drop (Suc i) ord" "node_at ord i = Some (ord ! i)"
    "Iterator_key (table m) (node_at ord i) = Some (entry_bytes (ms ! i))" "mentry_ok (ms ! i)"
proof -
  note n = mem_nodes_length [OF assms(1)]
  show "ord = take i ord @ ord ! i # drop (Suc i) ord" "node_at ord i = Some (ord ! i)"
    using assms(2) n id_take_nth_drop [of i ord] by (simp_all add: node_at_def)
  have "ord ! i < length (nodes (table m))" using assms n skip_invD(7) nth_mem unfolding mem_nodes_def by metis
  moreover have "keyof (nodes (table m)) (ord ! i) = entry_bytes (ms ! i)"
    using assms n unfolding mem_nodes_def skip_keys_def by (metis nth_map)
  ultimately show "Iterator_key (table m) (node_at ord i) = Some (entry_bytes (ms ! i))"
    using assms(2) n by (simp add: node_at_def Iterator_key_def Node_key_def)
  show "mentry_ok (ms ! i)" using assms by (simp add: mem_nodes_def list_all_length)
qed

lemma first_drop: "first (drop i ord) = node_at ord i"
  by (simp add: first_def node_at_def Cons_nth_drop_Suc [symmetric] split: list.splits)

context internal_order
begin

lemma mem_ascending:
  assumes "mem_nodes le ucmp m ms ord"
  shows "ascending icmp (mem_entries ms)"
proof -
  have "sorted_wrt (\<lambda>a b. kcmp a b < 0) (map entry_bytes ms)"
    using assms skip_abs_sorted unfolding mem_nodes_def skip_abs_def by blast
  then have "sorted_wrt (\<lambda>x y. kcmp (entry_bytes x) (entry_bytes y) < 0) ms" by (simp add: sorted_wrt_map)
  moreover have ok: "\<forall>e\<in>set ms. mentry_ok e" using assms by (simp add: mem_nodes_def list_all_iff)
  ultimately have "sorted_wrt (\<lambda>x y. icmp (mikey x) (mikey y) < 0) ms"
    by (simp add: sorted_wrt_iff_nth_less kcmp_entries)
  then show ?thesis by (simp add: ascending_def mem_entries_def sorted_wrt_map)
qed

lemma mem_seek:
  assumes "mem_nodes le ucmp m ms ord" "length target < 2 ^ 32"
  shows "MemTableIterator_Seek le ucmp m target = Some (node_at ord (first_ge icmp (mem_entries ms) target))"
proof -
  let ?ns = "nodes (table m)"
  have inv: "skip_inv kcmp (table m) ord" and keys: "map (keyof ?ns) ord = map entry_bytes ms" and ok: "\<forall>e\<in>set ms. mentry_ok e"
    using assms(1) by (simp_all add: mem_nodes_def skip_keys_def list_all_iff)
  have k: "GetLengthPrefixedSlice_ptr (EncodeKey target) = target" using prefixed_ptr(2) [OF assms(2), of "[]"] by simp
  define j where "j = first_ge icmp (mem_entries ms) target"
  have less: "kcmp (keyof ?ns (ord ! i)) (EncodeKey target) < 0 \<longleftrightarrow> icmp (fst (mem_entries ms ! i)) target < 0" if "i < length ms" for i
  proof -
    have "keyof ?ns (ord ! i) = entry_bytes (ms ! i)"
      using keys that mem_nodes_length [OF assms(1)] by (metis nth_map)
    then show ?thesis using that ok k by (simp add: KeyComparator_def entry_key)
  qed
  have asc: "ascending icmp (mem_entries ms)" by (rule mem_ascending [OF assms(1)])
  have "length ord = length ms" by (rule mem_nodes_length [OF assms(1)])
  have split: "take j (mem_entries ms) = filter (\<lambda>e. icmp (fst e) target < 0) (mem_entries ms)"
      "drop j (mem_entries ms) = filter (\<lambda>e. \<not> icmp (fst e) target < 0) (mem_entries ms)"
    using ikey.first_ge_split [OF asc, of target] by (simp_all add: j_def)
  have j: "j \<le> length ms" using ikey.first_ge_le [of "mem_entries ms" target] by (simp add: j_def)
  have "above kcmp ?ns (EncodeKey target) ord = drop j ord"
  proof -
    have below: "\<forall>x\<in>set (take j ord). kcmp (keyof ?ns x) (EncodeKey target) < 0"
    proof
      fix x assume "x \<in> set (take j ord)"
      then obtain i where i: "i < j" "i < length ms" "x = ord ! i" using \<open>length ord = length ms\<close> by (auto simp: in_set_conv_nth)
      then have "mem_entries ms ! i \<in> set (take j (mem_entries ms))" by (auto simp: in_set_conv_nth)
      then show "kcmp (keyof ?ns x) (EncodeKey target) < 0" using less [OF i(2)] i(3) unfolding split by simp
    qed
    have "\<forall>x\<in>set (drop j ord). \<not> kcmp (keyof ?ns x) (EncodeKey target) < 0"
    proof
      fix x assume "x \<in> set (drop j ord)"
      then obtain n where "n < length (drop j ord)" "x = drop j ord ! n" unfolding in_set_conv_nth by blast
      then have "j + n < length ms" "x = ord ! (j + n)" using \<open>length ord = length ms\<close> j by simp_all
      then obtain i where i: "j \<le> i" "i < length ms" "x = ord ! i" using le_add1 by blast
      then have "mem_entries ms ! i \<in> set (drop j (mem_entries ms))"
        by (auto simp: in_set_conv_nth intro!: exI [of _ "i - j"])
      then show "\<not> kcmp (keyof ?ns x) (EncodeKey target) < 0" using less [OF i(2)] i(3) unfolding split by simp
    qed
    then have "filter (\<lambda>i. \<not> kcmp (keyof ?ns i) (EncodeKey target) < 0) (take j ord @ drop j ord) = drop j ord"
      using below unfolding filter_append by (simp add: filter_empty_conv del: append_take_drop_id)
    then show ?thesis by (simp add: above_def)
  qed
  then show ?thesis using mem.Seek_spec [OF inv, of "EncodeKey target"] by (simp add: MemTableIterator_Seek_def first_drop j_def)
qed

lemma mem_iterator_class: "iterator_class icmp (MemTableIterator_vt le ucmp m) (mem_pos le ucmp m) (\<lambda>k. length k < 2 ^ 32)"
proof -
  have at: "mem_pos le ucmp m (mem_entries ms) (node_at ord i) i" if "mem_nodes le ucmp m ms ord" "i \<le> length ms" for ms ord i
    using that by (auto simp: mem_pos_def)
  have "iterator_contract icmp MemTableIterator_Valid (MemTableIterator_key m) (MemTableIterator_value m) (MemTableIterator_Next m)
      (MemTableIterator_Prev le ucmp m) (\<lambda>_. MemTableIterator_SeekToFirst m) (\<lambda>_. MemTableIterator_SeekToLast m)
      (\<lambda>k _. MemTableIterator_Seek le ucmp m k) (mem_pos le ucmp m) (\<lambda>k. length k < 2 ^ 32)"
  proof (intro iterator_contract.intro iterator_contract_axioms.intro ikey.key_order_axioms)
    fix es it i target e
    assume "mem_pos le ucmp m es it i"
    then obtain ms ord where ms: "mem_nodes le ucmp m ms ord" "es = mem_entries ms" "i \<le> length ms" "it = node_at ord i"
      by (auto simp: mem_pos_def)
    note len = mem_nodes_length [OF ms(1)]
    have inv: "skip_inv kcmp (table m) ord" using ms(1) by (simp add: mem_nodes_def)
    show "MemTableIterator_Valid it = (i < length es)" using ms len by (simp add: MemTableIterator_Valid_def Iterator_Valid_def node_at_def)
    show "i \<le> length es" using ms by simp
    show "ascending icmp es" using mem_ascending [OF ms(1)] ms(2) by simp
    show "i < length es \<Longrightarrow> MemTableIterator_key m it = Some (fst (es ! i))" "i < length es \<Longrightarrow> MemTableIterator_value m it = Some (snd (es ! i))"
      using iterator_entry [OF node_at_split(4,3) [OF ms(1)]] ms(2,4) by simp_all
    show "i < length es \<Longrightarrow> \<exists>it'. MemTableIterator_Next m it = Some it' \<and> mem_pos le ucmp m es it' (Suc i)"
    proof -
      assume i: "i < length es"
      then have "Iterator_Next (table m) it = Some (node_at ord (Suc i))"
        using Next_spec [of kcmp "table m" "take i ord" "ord ! i" "drop (Suc i) ord"] inv node_at_split(1,2) [OF ms(1), of i] ms(2,4)
        by (simp add: first_drop)
      then show ?thesis using at [OF ms(1), of "Suc i"] i ms(2) by (simp add: MemTableIterator_Next_def)
    qed
    show "i < length es \<Longrightarrow> \<exists>it'. MemTableIterator_Prev le ucmp m it = Some it' \<and> mem_pos le ucmp m es it' (if i = 0 then length es else i - 1)"
    proof -
      assume i: "i < length es"
      then have "Iterator_Prev kcmp (table m) it = Some (if take i ord = [] then None else Some (last (take i ord)))"
        using mem.Prev_spec [of "table m" "take i ord" "ord ! i" "drop (Suc i) ord"] inv node_at_split(1,2) [OF ms(1), of i] ms(2,4)
        by simp
      also have "(if take i ord = [] then None else Some (last (take i ord))) = node_at ord (if i = 0 then length es else i - 1)"
        using i ms(2) len by (cases i) (simp_all add: node_at_def take_Suc_conv_app_nth)
      finally show ?thesis using at [OF ms(1), of "if i = 0 then length es else i - 1"] i ms(2)
        by (cases i) (simp_all add: MemTableIterator_Prev_def)
    qed
    show "\<exists>it'. MemTableIterator_SeekToFirst m = Some it' \<and> mem_pos le ucmp m es it' 0"
      using SeekToFirst_spec [OF inv] at [OF ms(1), of 0] first_drop [of 0 ord] ms(2) by (simp add: MemTableIterator_SeekToFirst_def)
    have "(if ord = [] then None else Some (last ord)) = node_at ord (length es - 1)"
      using ms(2) last_conv_nth [of ord] by (cases "ord = []") (simp_all add: node_at_def flip: len)
    then show "\<exists>it'. MemTableIterator_SeekToLast m = Some it' \<and> mem_pos le ucmp m es it' (length es - 1)"
      using SeekToLast_spec [OF inv] at [OF ms(1), of "length es - 1"] ms(2) by (simp add: MemTableIterator_SeekToLast_def)
    show "e \<in> set es \<Longrightarrow> length (fst e) < 2 ^ 32"
      using ms(1,2) by (auto simp: mem_entries_def mem_nodes_def list_all_iff mentry_ok_def)
    show "length target < 2 ^ 32 \<Longrightarrow> \<exists>it'. MemTableIterator_Seek le ucmp m target = Some it' \<and> mem_pos le ucmp m es it' (first_ge icmp es target)"
      using mem_seek [OF ms(1)] at [OF ms(1), of "first_ge icmp es target"] ikey.first_ge_le [of es target] ms(2) by simp
  qed
  then show ?thesis by (simp add: iterator_class_def iterator_class_axioms_def MemTableIterator_vt_def)
qed

lemma mem_db: "db_internal le ucmp (MemTableIterator_vt le ucmp m) (mem_pos le ucmp m) (\<lambda>k. length k < 2 ^ 32)"
  using mem_iterator_class internal_order_axioms by (simp add: db_internal_def db_internal_axioms_def)

end

interpretation bytewise_mem_db: db_internal le Slice_compare "MemTableIterator_vt le Slice_compare m" "mem_pos le Slice_compare m"
  "\<lambda>k. length k < 2 ^ 32" "\<lambda>_ db. db" for le m
  by (rule bytewise_internal.mem_db)

subsection \<open>Scans and point lookups\<close>

lemma mem_parses: "list_all mentry_ok ms \<Longrightarrow> parses le (mem_entries ms)"
  by (auto simp: parses_def mem_entries_def list_all_iff mentry_ok_def mikey_def ParseInternalKey_bytes)

lemma mem_visible:
  assumes "mentry_ok e"
  shows "visible_entry le s (mikey e, v) \<longleftrightarrow> mseq e \<le> s" "value_entry le (mikey e, v) \<longleftrightarrow> mtype e = kTypeValue"
  using assms by (simp_all add: visible_entry_def value_entry_def mikey_def ParseInternalKey_bytes mentry_ok_def)

context internal_order
begin

lemma equal_trans: "ucmp a b = 0 \<Longrightarrow> ucmp b c = 0 \<Longrightarrow> ucmp a c = 0"
  using trans [of a b c] trans [of c b a] equal_sym [of a b] equal_sym [of b c] equal_sym [of a c] not_less [of a c] by auto

lemma entry_at_unique:
  assumes "mem_inv le ucmp m ms" "i < length ms" "j < length ms" "ucmp (mkey (ms ! j)) (mkey (ms ! i)) = 0" "mtag (ms ! j) = mtag (ms ! i)"
  shows "i = j"
proof -
  obtain ord where ord: "mem_nodes le ucmp m ms ord" using assms(1) mem_inv_nodes by blast
  have "icmp (mikey (ms ! i)) (mikey (ms ! j)) = 0" "icmp (mikey (ms ! j)) (mikey (ms ! i)) = 0"
    using assms(4,5) equal_sym by (simp_all add: icmp_zero mikey_def mtag_def)
  then show ?thesis
    using ikey.ascending_nth [OF mem_ascending [OF ord], of i j] ikey.ascending_nth [OF mem_ascending [OF ord], of j i] assms(2,3)
    by (cases i j rule: linorder_cases) auto
qed

text \<open>The entry that is shown for a user key is the visible one with the largest tag.\<close>

lemma mem_shown:
  assumes "mem_inv le ucmp m ms" "i < length ms"
  shows "shown le ucmp s (mem_entries ms) i \<longleftrightarrow> mseq (ms ! i) \<le> s \<and> mtype (ms ! i) = kTypeValue \<and>
    (\<forall>e \<in> visible ucmp ms (mkey (ms ! i)) s. mtag e \<le> mtag (ms ! i))"
proof -
  obtain ord where ord: "mem_nodes le ucmp m ms ord" using assms(1) mem_inv_nodes by blast
  have ok: "mentry_ok (ms ! j)" if "j < length ms" for j using ord that by (simp add: mem_nodes_def list_all_length)
  have user: "user_at (mem_entries ms) j = mkey (ms ! j)" if "j < length ms" for j using that by (simp add: mikey_def)
  have less: "mtag (ms ! j) < mtag (ms ! i)" if "i < j" "j < length ms" "ucmp (mkey (ms ! j)) (mkey (ms ! i)) = 0" for i j
    using ikey.ascending_nth [OF mem_ascending [OF ord], of i j] that equal_sym [of "mkey (ms ! i)" "mkey (ms ! j)"]
    by (simp add: icmp_less mikey_def mtag_def)
  have "(\<exists>j<i. mseq (ms ! j) \<le> s \<and> ucmp (mkey (ms ! j)) (mkey (ms ! i)) = 0) \<longleftrightarrow>
      \<not> (\<forall>e \<in> visible ucmp ms (mkey (ms ! i)) s. mtag e \<le> mtag (ms ! i))"
  proof
    assume "\<exists>j<i. mseq (ms ! j) \<le> s \<and> ucmp (mkey (ms ! j)) (mkey (ms ! i)) = 0"
    then obtain j where j: "j < i" "mseq (ms ! j) \<le> s" "ucmp (mkey (ms ! j)) (mkey (ms ! i)) = 0" by blast
    then have "ms ! j \<in> visible ucmp ms (mkey (ms ! i)) s" using assms(2) by (auto simp: visible_def)
    moreover have "mtag (ms ! i) < mtag (ms ! j)" using less [of j i] j assms(2) equal_sym by blast
    ultimately show "\<not> (\<forall>e \<in> visible ucmp ms (mkey (ms ! i)) s. mtag e \<le> mtag (ms ! i))" by (meson linorder_not_le)
  next
    assume "\<not> (\<forall>e \<in> visible ucmp ms (mkey (ms ! i)) s. mtag e \<le> mtag (ms ! i))"
    then obtain j where j: "j < length ms" "ucmp (mkey (ms ! j)) (mkey (ms ! i)) = 0" "mseq (ms ! j) \<le> s" "\<not> mtag (ms ! j) \<le> mtag (ms ! i)"
      by (auto simp: visible_def in_set_conv_nth)
    then have "j < i" using less [of i j] by (cases i j rule: linorder_cases) auto
    then show "\<exists>j<i. mseq (ms ! j) \<le> s \<and> ucmp (mkey (ms ! j)) (mkey (ms ! i)) = 0" using j by blast
  qed
  moreover have v: "visible_entry le s (mem_entries ms ! j) \<longleftrightarrow> mseq (ms ! j) \<le> s"
    "value_entry le (mem_entries ms ! j) \<longleftrightarrow> mtype (ms ! j) = kTypeValue" if "j < length ms" for j
    using that ok mem_visible by simp_all
  moreover have "(\<exists>j<i. visible_entry le s (mem_entries ms ! j) \<and> ucmp (user_at (mem_entries ms) j) (user_at (mem_entries ms) i) = 0) \<longleftrightarrow>
      (\<exists>j<i. mseq (ms ! j) \<le> s \<and> ucmp (mkey (ms ! j)) (mkey (ms ! i)) = 0)"
    using v(1) user assms(2) by (intro ex_cong1 conj_cong refl) simp_all
  ultimately show ?thesis unfolding shown_def using assms(2) by blast
qed

lemma mem_view_get:
  assumes "mem_inv le ucmp m ms" "LookupKey_init le u s = Some lk" "length u + 8 < 2 ^ 32"
  shows "MemTable_Get le ucmp m lk v Status_OK = Some (True, val, Status_OK) \<longleftrightarrow>
    (\<exists>u'. ucmp u' u = 0 \<and> (u', val) \<in> set (db_view le ucmp s (mem_entries ms)))"
proof -
  have get: "visible ucmp ms u s = {} \<Longrightarrow> MemTable_Get le ucmp m lk v Status_OK = Some (False, v, Status_OK)"
    "e \<in> visible ucmp ms u s \<Longrightarrow> \<forall>e'\<in>visible ucmp ms u s. mtag e' \<le> mtag e \<Longrightarrow>
       MemTable_Get le ucmp m lk v Status_OK = Some (get_result e v Status_OK)" for e
    using Get_spec [OF assms] by blast+
  have result: "get_result e v Status_OK = (True, val, Status_OK) \<longleftrightarrow> mtype e = kTypeValue \<and> mval e = val" for e
    by (cases "mtype e") (simp_all add: get_result_def Status_OK_def)
  have vis: "visible ucmp ms (mkey e) s = visible ucmp ms u s" if "ucmp (mkey e) u = 0" for e
    using that equal_trans equal_sym unfolding visible_def by blast
  have view: "(\<exists>u'. ucmp u' u = 0 \<and> (u', val) \<in> set (db_view le ucmp s (mem_entries ms))) \<longleftrightarrow>
      (\<exists>i<length ms. ucmp (mkey (ms ! i)) u = 0 \<and> mval (ms ! i) = val \<and> shown le ucmp s (mem_entries ms) i)"
    by (auto simp: db_view_def mikey_def)
  show ?thesis
  proof (cases "visible ucmp ms u s = {}")
    case True
    then have "\<not> (mseq (ms ! i) \<le> s \<and> ucmp (mkey (ms ! i)) u = 0)" if "i < length ms" for i using that by (auto simp: visible_def)
    then show ?thesis unfolding view using get(1) [OF True] mem_shown [OF assms(1)] by auto
  next
    case False
    have "finite (visible ucmp ms u s)" by (simp add: visible_def)
    then have max: "Max (mtag ` visible ucmp ms u s) \<in> mtag ` visible ucmp ms u s"
        "\<forall>e'\<in>visible ucmp ms u s. mtag e' \<le> Max (mtag ` visible ucmp ms u s)"
      using False Max_in [of "mtag ` visible ucmp ms u s"] by simp_all
    from max(1) obtain e where m: "e \<in> visible ucmp ms u s" "Max (mtag ` visible ucmp ms u s) = mtag e" by blast
    note e = m(1) max(2) [unfolded m(2)]
    then obtain i where i: "i < length ms" "e = ms ! i" "ucmp (mkey e) u = 0" "mseq e \<le> s" by (auto simp: visible_def in_set_conv_nth)
    have same: "ms ! j = e" if "j < length ms" "shown le ucmp s (mem_entries ms) j" "ucmp (mkey (ms ! j)) u = 0" for j
    proof -
      have "mtag e \<le> mtag (ms ! j)" "ms ! j \<in> visible ucmp ms u s"
        using that e(1) mem_shown [OF assms(1) that(1)] vis [OF that(3)] by (auto simp: visible_def)
      then have "mtag (ms ! j) = mtag e" using e(2) by (simp add: order.antisym)
      moreover have "ucmp (mkey (ms ! j)) (mkey e) = 0" using that(3) i(3) equal_trans equal_sym by blast
      ultimately have "i = j"
        using that(1) i(1,2) entry_at_unique [OF assms(1)] by blast
      then show ?thesis using i(2) by simp
    qed
    have "shown le ucmp s (mem_entries ms) i \<longleftrightarrow> mtype e = kTypeValue" using mem_shown [OF assms(1) i(1)] i e(2) vis [OF i(3)] by simp
    then have "(\<exists>j<length ms. ucmp (mkey (ms ! j)) u = 0 \<and> mval (ms ! j) = val \<and> shown le ucmp s (mem_entries ms) j) \<longleftrightarrow>
        mtype e = kTypeValue \<and> mval e = val"
      using i(1-3) same mem_shown [OF assms(1)] by metis
    then show ?thesis unfolding view get(2) [OF e] using result by simp
  qed
qed

end

subsection \<open>Properties\<close>

text \<open>
  C7: scans of a memtable agree with point lookups. The iterator of the database over a memtable, created at sequence
  number \<open>s\<close>, is a position in a list of user keys, ascending and each once: any sequence of calls shows what it shows on
  the list. A key and value are in the list if and only if \<^verbatim>\<open>MemTable::Get\<close> at the sequence number finds the value for the
  key.
\<close>

theorem memtable_scan:
  assumes "key_order ucmp" and "mem_inv le ucmp m ms" and "s \<le> kMaxSequenceNumber"
  shows "\<exists>vs. ascending ucmp vs \<and> (\<forall>(u, v) \<in> set vs. length u + 8 < 2 ^ 32) \<and>
    (\<forall>calls obs. run_list ucmp vs calls (length vs) = Some obs \<longrightarrow> seeks_ok (\<lambda>u. length u + 8 < 2 ^ 32) calls \<longrightarrow>
       run_iter (DBIter_vt (MemTableIterator_vt le ucmp m) le ucmp record_sample) calls (DBIter_init db Iterator_init s rnd_seed) = Some obs) \<and>
    (\<forall>u lk v val. LookupKey_init le u s = Some lk \<longrightarrow> length u + 8 < 2 ^ 32 \<longrightarrow>
       (MemTable_Get le ucmp m lk v Status_OK = Some (True, val, Status_OK) \<longleftrightarrow> (\<exists>u'. ucmp u' u = 0 \<and> (u', val) \<in> set vs)))"
proof -
  let ?vs = "db_view le ucmp s (mem_entries ms)"
  have order: "internal_order ucmp" using assms(1) by (rule internal_order.intro)
  note db = internal_order.mem_db [OF order, of le m]
  obtain ord where ord: "mem_nodes le ucmp m ms ord" using assms(2) mem_inv_nodes by blast
  have "parses le (mem_entries ms)" using ord mem_parses by (simp add: mem_nodes_def)
  note pos = db_internal.DBIter_init_pos [OF db mem_pos_init [OF assms(2)] this assms(3)]
  have "run_iter (DBIter_vt (MemTableIterator_vt le ucmp m) le ucmp record_sample) calls (DBIter_init db Iterator_init s rnd_seed) = Some obs"
    if "run_list ucmp ?vs calls (length ?vs) = Some obs" "seeks_ok (\<lambda>u. length u + 8 < 2 ^ 32) calls" for calls obs
    using iterator_class.run_pos [OF db_internal.dbiter_class [OF db] pos that(1)] that(2) by simp
  moreover have "ascending ucmp ?vs"
    by (rule db_internal.view_ascending [OF db internal_order.mem_ascending [OF order ord]])
  moreover have "\<forall>(u, v) \<in> set ?vs. length u + 8 < 2 ^ 32"
    using ord by (auto simp: db_view_def mem_nodes_def list_all_length mentry_ok_def mikey_def)
  ultimately show ?thesis using internal_order.mem_view_get [OF order assms(2)] by blast
qed

theorem memtable_scan_witness:
  "\<exists>m m'. MemTable_init = Some m \<and> MemTable_Add True Slice_compare m 7 kTypeValue [97] [98] = Some m' \<and>
     run_iter (DBIter_vt (MemTableIterator_vt True Slice_compare m') True Slice_compare (\<lambda>_ w. w)) [CallLast, CallPrev]
       (DBIter_init () Iterator_init 9 301) = Some [Some ([97], [98]), None]"
proof -
  let ?e = "\<lparr>mseq = 7, mtype = kTypeValue, mkey = [97], mval = [98]\<rparr>"
  obtain m where m: "MemTable_init = Some m" "mem_inv True Slice_compare m []"
    using MemTable_init_inv [of True Slice_compare] by (elim exE conjE)
  have ok: "mentry_ok ?e" by (simp add: mentry_ok_def kMaxSequenceNumber_def)
  obtain m' es' where m': "MemTable_Add True Slice_compare m 7 kTypeValue [97] [98] = Some m'"
    "mem_inv True Slice_compare m' es'" "set es' = {?e}"
    using internal_order.Add_inv [OF internal_order_bytewise m(2) ok] unfolding mentry.simps list.set ball_empty by blast
  have "(9 :: SequenceNumber) \<le> kMaxSequenceNumber" by (simp add: kMaxSequenceNumber_def)
  from memtable_scan [OF bytewise.key_order_axioms m'(2) this, where record_sample = "\<lambda>_ w. w" and db = "()" and rnd_seed = 301] obtain vs where
    vs: "ascending Slice_compare vs" "\<forall>(u, v) \<in> set vs. length u + 8 < 2 ^ 32"
      and run: "\<forall>calls obs. run_list Slice_compare vs calls (length vs) = Some obs \<longrightarrow> seeks_ok (\<lambda>u. length u + 8 < 2 ^ 32) calls \<longrightarrow>
         run_iter (DBIter_vt (MemTableIterator_vt True Slice_compare m') True Slice_compare (\<lambda>_ w. w)) calls (DBIter_init () Iterator_init 9 301) = Some obs"
      and get: "\<forall>u lk v val. LookupKey_init True u 9 = Some lk \<longrightarrow> length u + 8 < 2 ^ 32 \<longrightarrow>
         (MemTable_Get True Slice_compare m' lk v Status_OK = Some (True, val, Status_OK) \<longleftrightarrow> (\<exists>u'. Slice_compare u' u = 0 \<and> (u', val) \<in> set vs))"
    by (elim exE conjE) (rule that)
  have "(u, val) \<in> set vs \<longleftrightarrow> (u, val) = ([97], [98])" for u val
  proof (cases "length u + 8 < 2 ^ 32")
    case True
    obtain lk where lk: "LookupKey_init True u 9 = Some lk"
      using LookupKey_bytes [of 9 True u] by (auto simp: kMaxSequenceNumber_def)
    have "visible Slice_compare es' u 9 = (if u = [97] then {?e} else {})"
      unfolding visible_def m'(3) by (auto simp: Slice_compare_eq)
    then have "MemTable_Get True Slice_compare m' lk [] Status_OK = (if u = [97] then Some (True, [98], Status_OK) else Some (False, [], Status_OK))"
      using internal_order.Get_spec [OF internal_order_bytewise m'(2) lk True, where v = "[]" and st = Status_OK] by (auto simp: get_result_def)
    then show ?thesis using get [rule_format, OF lk True, of "[]" val] by (auto simp: Slice_compare_eq split: if_splits)
  next
    case False
    then show ?thesis using vs(2) by auto
  qed
  then have set: "set vs = {([97], [98])}" by (auto simp only: set_eq_iff insert_iff empty_iff split_paired_All)
  have "length vs = Suc 0" using distinct_card [OF bytewise.ascending_distinct [OF vs(1)]] by (simp add: set)
  then obtain a where "vs = [a]" by (auto simp: length_Suc_conv)
  with set have vs': "vs = [([97], [98])]" by simp
  have "run_list Slice_compare vs [CallLast, CallPrev] (length vs) = Some [Some ([97], [98]), None]" by (simp add: vs')
  moreover have "seeks_ok (\<lambda>u. length u + 8 < 2 ^ 32) [CallLast, CallPrev]" by (simp add: seeks_ok_def)
  ultimately show ?thesis using m(1) m'(1) run by blast
qed

end
