(* ===== verification/Spec2Isabelle.thy ===== *)
theory Spec2Isabelle
  imports PB_Encode_Spec PB_Decode_Safe PB_Decode_Fun PB_Examples
    LDB_WriteBatch LDB_VersionEdit LDB_Filename LDB_Snapshot LDB_Log_Correct
    LDB_Filter LDB_Block_Correct LDB_Arena LDB_Table_Correct LDB_MemTable_Iter
begin

text \<open>
  A verification of the two libraries whose source sharkCollector links through Firebase:
  nanopb 0.3.8, the C implementation of Protocol Buffers (\<^verbatim>\<open>src/sharkCollector/Pods/nanopb\<close>), and
  leveldb 1.18, the C++ key-value store (\<^verbatim>\<open>src/sharkCollector/Pods/leveldb-library\<close>).

  \<^bold>\<open>nanopb.\<close> It encodes C structures into the protobuf wire format and decodes them, with
  no dynamic memory in the configuration of this build. A message type is an array of field
  descriptors (\<^verbatim>\<open>pb.h\<close>), which both directions walk with one iterator (\<^verbatim>\<open>pb_common.c\<close>). The encoder
  (\<^verbatim>\<open>pb_encode.c\<close>) writes to an output stream that only counts bytes, fills a buffer or calls the user;
  the decoder (\<^verbatim>\<open>pb_decode.c\<close>) reads from a buffer or a user's stream and stores into the structure.
  Submessages recurse through both, on a substream in the decoder and with a sizing pass in the encoder.

  \<^bold>\<open>leveldb.\<close> A write is a batch of operations (\<^verbatim>\<open>db/write_batch.cc\<close>), appended to the log
  (\<^verbatim>\<open>db/log_writer.cc\<close>) and then inserted into the memtable (\<^verbatim>\<open>db/memtable.cc\<close>), a skip list
  (\<^verbatim>\<open>db/skiplist.h\<close>) of internal keys (\<^verbatim>\<open>db/dbformat.cc\<close>) in an arena (\<^verbatim>\<open>util/arena.cc\<close>). Recovery
  reads the log back (\<^verbatim>\<open>db/log_reader.cc\<close>). Full memtables go to table files, which
  \<^verbatim>\<open>table/table_builder.cc\<close> writes as blocks of sorted entries (\<^verbatim>\<open>table/block_builder.cc\<close>), a filter block
  (\<^verbatim>\<open>table/filter_block.cc\<close>, \<^verbatim>\<open>util/bloom.cc\<close>), an index block and a footer (\<^verbatim>\<open>table/format.cc\<close>), and which
  \<^verbatim>\<open>table/table.cc\<close> opens and reads through two-level iterators (\<^verbatim>\<open>table/two_level_iterator.cc\<close>) over
  the iterators of blocks (\<^verbatim>\<open>table/block.cc\<close>); iterators of several sources are merged
  (\<^verbatim>\<open>table/merger.cc\<close>), and the database iterator (\<^verbatim>\<open>db/db_iter.cc\<close>) shows the user the newest visible
  version of each key of such a merge. The set of live files changes by version edits
  (\<^verbatim>\<open>db/version_edit.cc\<close>), and readers see the state at a snapshot (\<^verbatim>\<open>db/snapshot.h\<close>).

  \<^bold>\<open>Theories of nanopb.\<close>
    \<^item> \<open>PB_Prelude\<close>: outcomes of C functions (\<open>Ret\<close>: true, \<open>Err\<close>: false, \<open>Undef\<close>: undefined
      behaviour, \<open>NoFuel\<close>: bound of the model reached), byte-addressed memory as a partial map, loads
      and stores, little-endian words; the rule collections \<open>outp_rules\<close> and \<open>outw_rules\<close>.
    \<^item> \<open>PB_Types\<close>: type bytes, wire types, \<^verbatim>\<open>pb_field_t\<close>, the descriptor macros, the layout of the
      structures that are read through pointers, error messages (\<^verbatim>\<open>pb.h\<close>).
    \<^item> \<open>PB_Iter\<close>: the iterator of \<^verbatim>\<open>pb_common.c\<close> and its specification \<open>iter_nth\<close>, the closed form
      of the position at field \<open>k\<close>; one step, the search, the loop over all fields.
    \<^item> \<open>PB_Layout\<close>: what it means that descriptors describe a structure (\<open>msg_ok\<close>), that iterator
      positions then lie inside it, and that the descriptor macros give such positions (\<open>laid_out\<close>).
    \<^item> \<open>PB_Ostream\<close>: output streams and primitive encoders. \<open>writes g r\<close> is the contract of a
      writer on every stream; each primitive encoder is shown to satisfy it and it composes.
    \<^item> \<open>PB_Istream\<close>: input streams and primitive decoders. The locale \<open>istream_source\<close> is the
      interface to a byte source; every stream operation is proved in it to be defined, to terminate
      and to leave a reserve of bytes alone. The interpretation \<open>src\<close> is for \<^verbatim>\<open>buf_read\<close> and user
      callbacks.
    \<^item> \<open>PB_Wire\<close>: what the primitive decoders compute on a buffer, and that they invert the encoders.
    \<^item> \<open>PB_Encode\<close>: the message encoder, every function of \<^verbatim>\<open>pb_encode.c\<close> in its order of calls.
    \<^item> \<open>PB_Encode_Spec\<close>: \<open>spec_msg\<close>, a specification of the bytes that are sent for a message, which knows nothing
      of streams but keeps the code's test for proto3 defaults (\<open>zero_item\<close>), and the refinement \<open>encode_writes\<close>. The locale \<open>msg_encoder\<close> is the interface to the
      encoder of submessages, interpreted by \<open>nested_enc\<close> for \<open>pb_encode\<close> itself.
    \<^item> \<open>PB_Encode_Meaning\<close>: \<open>proto_msg\<close>, what a structure means as a protobuf message by flags, counts and
      proto3 defaults, independently of the encoder's zero test; the condition under which \<open>spec_msg\<close>
      agrees with it, on the contents (\<open>default_seen\<close>) and on the type (\<open>plain_type\<close>).
    \<^item> \<open>PB_Decode\<close>: the message decoder, every function of \<^verbatim>\<open>pb_decode.c\<close> outside
      \<^verbatim>\<open>PB_ENABLE_MALLOC\<close>.
    \<^item> \<open>PB_Decode_Safe\<close>: memory safety of the decoder. The locales \<open>item_decoder\<close> and \<open>msg_decoder\<close>
      are the interfaces to the entries of \<^verbatim>\<open>PB_DECODERS\<close> and to the decoder of submessages; the
      interpretation \<open>nested\<close> discharges the latter for \<open>pb_decode_noinit\<close> by induction on the depth.
    \<^item> \<open>PB_Decode_Fun\<close>: functional behaviour of the decoder: field lookup, unknown fields, the check of
      required fields, empty input. \<open>PB_Decode_Required\<close>: types with too many required fields.
    \<^item> \<open>PB_Examples\<close>: a concrete message type at which the theorems are instantiated.

  \<^bold>\<open>Theories of leveldb.\<close>
    \<^item> \<open>LDB_Slice\<close>: slices and the bytewise comparator. The locale \<open>key_order\<close> is what an ordered
      container needs of a comparison, \<open>comparator\<close> what the class \<^verbatim>\<open>Comparator\<close> promises; the
      interpretation \<open>bytewise\<close> is for \<^verbatim>\<open>BytewiseComparatorImpl\<close>.
    \<^item> \<open>LDB_Coding\<close>, \<open>LDB_Logging\<close>, \<open>LDB_Status\<close>, \<open>LDB_Random\<close>, \<open>LDB_Crc32c\<close>: integer coding, decimal
      numbers and escapes, status objects, the random generator, the checksum (\<^verbatim>\<open>util/\<close>).
    \<^item> \<open>LDB_Arena\<close>: the arena (\<^verbatim>\<open>util/arena.cc\<close>) over the locale \<open>allocator\<close>, the contract of
      \<^verbatim>\<open>new char[]\<close>; the invariant that all regions handed out are disjoint and valid.
    \<^item> \<open>LDB_SkipList\<close> and \<open>LDB_SkipList_Correct\<close>: the skip list, and that it refines a sorted list of
      keys for every \<open>key_order\<close> and all random heights.
    \<^item> \<open>LDB_Format\<close>: internal keys and their order; the locale \<open>internal_comparator\<close> and its
      interpretation \<open>bytewise_internal\<close>. \<open>LDB_MemTable\<close>: the memtable, on the skip list.
      \<open>LDB_WriteBatch\<close>: batches and their insertion into memtables.
    \<^item> \<open>LDB_VersionEdit\<close>, \<open>LDB_Filename\<close>: version edits, names of database files. \<open>LDB_Ring\<close>: circular doubly
      linked lists over any two pointer fields, \<open>LDB_Snapshot\<close>: the list of snapshots, on \<open>LDB_Ring\<close>.
    \<^item> \<open>LDB_Env\<close>: sequential and writable files (\<^verbatim>\<open>util/env_posix.cc\<close>) with the interfaces
      \<open>sequential_file\<close>, \<open>seekable_file\<close>, \<open>writable_file\<close>, \<open>bounded_file\<close>, interpreted by \<open>posix_seq\<close> and
      \<open>posix_wr\<close>. \<open>LDB_Log\<close> and \<open>LDB_Log_Correct\<close>: log writer and reader over these interfaces.
    \<^item> \<open>LDB_Filter\<close>: the hash function, Bloom filters and filter blocks. The locale \<open>filter_policy\<close> is the
      class \<^verbatim>\<open>FilterPolicy\<close>, with the interpretations \<open>bloom\<close> and \<open>internal_bloom\<close>.
    \<^item> \<open>LDB_Block\<close> and \<open>LDB_Block_Correct\<close>: blocks and their iterators, a position in the entries of the
      block for any \<open>key_order\<close>; the interpretation \<open>bytewise_block\<close>.
    \<^item> \<open>LDB_Iterator\<close>: the abstract class \<^verbatim>\<open>Iterator\<close> with its cleanup list, and \<^verbatim>\<open>IteratorWrapper\<close>. The locale
      \<open>iterator_contract\<close> is what a client of an iterator may rely on; its parameter \<open>seekable\<close> says which
      targets \<^verbatim>\<open>Seek\<close> accepts.
    \<^item> \<open>LDB_Merger\<close> and \<open>LDB_TwoLevel\<close>: the merging and the two-level iterator, each over any iterators that
      keep the contract, and each shown to keep it again, in both directions and across changes of direction.
    \<^item> \<open>LDB_Table_Format\<close>: block handles, the footer, \<^verbatim>\<open>ReadBlock\<close>. \<open>LDB_Table\<close>: the table builder and the
      table reader with their options. \<open>LDB_Table_Writer\<close>: the bytes that the builder writes, as a function
      of the entries, over the interface \<open>table_file\<close>. \<open>LDB_Table_Reader\<close>: opening such bytes, the iterator over
      the table and \<^verbatim>\<open>InternalGet\<close>, over the interface \<open>table_cache\<close> of the block cache. \<open>LDB_Table_Correct\<close>:
      the writer returns and what it wrote is read back.
    \<^item> \<open>LDB_DBIter\<close>: the database iterator over any iterator that keeps the contract, shown to be a position in
      \<open>db_view\<close>, the visible entries of a snapshot, for the locale \<open>db_internal\<close>. \<open>LDB_MemTable_Iter\<close>: the
      iterator of the memtable, and a scan of the memtable through the database iterator.

  \<^bold>\<open>Correspondence.\<close> Definitions have the names of the functions, macros and structures of the source
  (with the class in front where C++ overloads a name); parts of a long function have names of their own
  (for \<^verbatim>\<open>pb_decode_noinit\<close>: \<open>decode_step\<close>, \<open>decode_tagged\<close>, \<open>try_extension\<close>, \<open>note_required\<close>,
  \<open>req_field_count\<close>, \<open>required_present\<close>). The configuration of nanopb is the
  one of the Pods build: \<^verbatim>\<open>PB_FIELD_32BIT\<close>, no \<^verbatim>\<open>PB_ENABLE_MALLOC\<close>, little-endian LP64; \<^verbatim>\<open>pb_size_t\<close> is
  a 32-bit and \<^verbatim>\<open>size_t\<close> a 64-bit word. Addresses are integers, so that an address outside the
  structure is an address outside valid memory and not one that wraps around. Descriptor arrays,
  user callbacks and extension handlers are parameters (\<open>enc_env\<close>, \<open>dec_env\<close>), as they are generated
  or written by the user. A user's stream callback may fail but returns as many bytes as it is asked
  for, and a callback that decodes a field reads its bytes through the stream that it is given.

  In leveldb a slice or string is the list of its bytes, an object with state a record that operations
  return updated, a linked structure a map from addresses to nodes. The result \<open>None\<close> of an operation
  means a failed assertion or undefined behaviour, and for a loop that is not structurally bounded
  (\<^theory_text>\<open>partial_function (option)\<close>) also that it does not return; the theorems state that results are
  \<open>Some\<close>. \<open>le\<close> is \<^verbatim>\<open>port::kLittleEndian\<close>. Lengths are natural numbers where the code uses \<^verbatim>\<open>size_t\<close>
  for lengths of objects in memory, and 32-bit words where the code narrows them; on-disk numbers are words.

  \<^bold>\<open>Fuel and bounds.\<close> The fuel of \<open>pb_decode\<close> is the nesting depth of the message type, that of
  \<open>pb_encode\<close> one more, and the theorems show that this is enough: they state results other than
  \<open>NoFuel\<close>. Loops over fields have one unit per descriptor, loops over input one per byte that is left;
  both are shown to be enough in the same theorems. All other loops are functions with a termination
  proof, or partial functions that are shown to return. Blocks and tables are shorter than \<open>2 ^ 31\<close> bytes and filter
  blocks than \<open>2 ^ 32\<close>, the range in which the 32-bit offsets of the format are exact.

  \<^bold>\<open>What is shown of nanopb.\<close> Decoding is memory safe and terminates for every input, for messages of
  static and pointer fields of any depth. Encoding of static messages equals the specification on every
  branch, is the meaning of the message unless the proto3 zero test of a submessage is misled, stays inside the buffer, agrees with the size that is computed beforehand, and is delimited
  correctly. The wire primitives round-trip and reject malformed input. The iterator agrees with the
  layout that the descriptor macros describe. Unknown fields are skipped, the check of required fields
  is right up to 63 fields with the exception of 32, and can never succeed for 32 and for more than 63.
  The last section states four behaviours that depart from the intent of the code, for all inputs of a kind.

  \<^bold>\<open>What is shown of leveldb.\<close> A batch that is inserted into a memtable is what readers at its sequence
  number see, on top of the refinement of the skip list; a log gives back the records written to it, and
  after a crash exactly those that were written completely; a block gives back its entries in both
  directions and \<^verbatim>\<open>Seek\<close> finds the first entry at or past the target; a table that is written and
  opened again gives back its entries in order and looks up each key that it holds; a merging iterator is a
  position in the merge of its children; the database iterator shows for each user key the newest version
  that its snapshot sees and no deleted key, in both directions, and a scan of a memtable agrees with its
  lookups; filters never hide a key; memory of an arena is disjoint and aligned;
  version edits, batches, internal keys, file names and integers round-trip; the checksum equals CRC-32C. Where the code departs from its comments or intent (unsafe
  lengths in damaged blocks, compaction pointers that survive \<^verbatim>\<open>Clear\<close>), the theorems say what it does.

  \<^bold>\<open>Not modelled.\<close> In nanopb, code under \<^verbatim>\<open>PB_ENABLE_MALLOC\<close> (allocation and release of pointer fields),
  which this build does not compile; big-endian and 16-bit configurations. Callback and extension fields
  are modelled but are outside the safety and correctness theorems of whole messages, whose hypotheses
  name static (and for decoding pointer) fields. In leveldb, the database itself (\<^verbatim>\<open>db_impl.cc\<close>,
  \<^verbatim>\<open>version_set.cc\<close>, \<^verbatim>\<open>repair.cc\<close>: threads, mutexes and files), the caches of blocks and of open tables, the
  remaining part of \<^verbatim>\<open>env_posix.cc\<close>, the C binding, tests and benchmarks. The rest
  of the repository is Swift and Objective-C code and binary frameworks.
\<close>

section \<open>Decoding messages\<close>

text \<open>
  C1: memory safety and termination of the decoder. Take any byte source that can deliver the bytes
  that the stream promises, any contents of the input, and any structure in valid memory that the
  descriptors describe (static and pointer fields, nested to any depth \<open>n\<close>; no message type has 32 or
  more than 63 required fields, the numbers for which the check of required fields is undefined). Then
  \<^verbatim>\<open>pb_decode\<close> returns true or false without undefined behaviour, within the fuel \<open>n\<close>;
  it changes memory in the destination structure only, and never reads past the end of the stream.
\<close>

theorem decode_memory_safe:
  assumes "dmsg_ok (dom m) n (ddesc E) fs sz" and "valid_range m dest sz"
    and "src_ok (istate st) (unat (bytes_left st))"
  shows "\<exists>s'. (pb_decode n E fs dest \<lparr>dstream = st, dmem = m\<rparr> = Ret () s' \<or>
               pb_decode n E fs dest \<lparr>dstream = st, dmem = m\<rparr> = Err s') \<and>
     mem_frame dest sz m (dmem s') \<and>
     unat (bytes_left (dstream s')) \<le> unat (bytes_left st) \<and>
     src_ok (istate (dstream s')) (unat (bytes_left (dstream s')))"
  using decode_safe [OF assms(1), of dest] assms(2,3) by (intro dsafe_returns) (simp_all add: inV_valid)

theorem decode_memory_safe_witness:
  "\<exists>s'. (pb_decode (Suc (Suc 0)) ex_dec ex_outer 16 \<lparr>dstream = pb_istream_from_buffer [0x08, 0xFF] 2, dmem = ex_mem ex_msg\<rparr> = Ret () s' \<or>
         pb_decode (Suc (Suc 0)) ex_dec ex_outer 16 \<lparr>dstream = pb_istream_from_buffer [0x08, 0xFF] 2, dmem = ex_mem ex_msg\<rparr> = Err s') \<and>
     mem_frame 16 24 (ex_mem ex_msg) (dmem s') \<and>
     unat (bytes_left (dstream s')) \<le> unat (bytes_left (pb_istream_from_buffer [0x08, 0xFF] 2 :: unit pb_istream_t)) \<and>
     src_ok (istate (dstream s')) (unat (bytes_left (dstream s')))"
proof (rule decode_memory_safe [OF ex_dmsg_ok valid_ex_msg])
  show "src_ok (istate (pb_istream_from_buffer [0x08, 0xFF] 2 :: unit pb_istream_t))
      (unat (bytes_left (pb_istream_from_buffer [0x08, 0xFF] 2 :: unit pb_istream_t)))"
    by (simp add: src_ok_def pb_istream_from_buffer_def)
qed

text \<open>
  C17: the same for length-delimited messages, \<^verbatim>\<open>pb_decode_delimited\<close>, again for message types
  without 32 or more than 63 required fields: the length prefix comes from
  the input, and whatever it says, the decoder stays inside the stream and the structure.
\<close>

theorem decode_delimited_memory_safe:
  assumes "dmsg_ok (dom m) n (ddesc E) fs sz" and "valid_range m dest sz"
    and "src_ok (istate st) (unat (bytes_left st))"
  shows "\<exists>s'. (pb_decode_delimited n E fs dest \<lparr>dstream = st, dmem = m\<rparr> = Ret () s' \<or>
               pb_decode_delimited n E fs dest \<lparr>dstream = st, dmem = m\<rparr> = Err s') \<and>
     mem_frame dest sz m (dmem s') \<and>
     unat (bytes_left (dstream s')) \<le> unat (bytes_left st) \<and>
     src_ok (istate (dstream s')) (unat (bytes_left (dstream s')))"
  using decode_delimited_safe [OF assms(1), of dest] assms(2,3) by (intro dsafe_returns) (simp_all add: inV_valid)

theorem decode_delimited_memory_safe_witness:
  "\<exists>s'. (pb_decode_delimited (Suc (Suc 0)) ex_dec ex_outer 16 \<lparr>dstream = pb_istream_from_buffer [0x7F, 0x08] 2, dmem = ex_mem ex_msg\<rparr> = Ret () s' \<or>
         pb_decode_delimited (Suc (Suc 0)) ex_dec ex_outer 16 \<lparr>dstream = pb_istream_from_buffer [0x7F, 0x08] 2, dmem = ex_mem ex_msg\<rparr> = Err s') \<and>
     mem_frame 16 24 (ex_mem ex_msg) (dmem s') \<and>
     unat (bytes_left (dstream s')) \<le> unat (bytes_left (pb_istream_from_buffer [0x7F, 0x08] 2 :: unit pb_istream_t)) \<and>
     src_ok (istate (dstream s')) (unat (bytes_left (dstream s')))"
proof (rule decode_delimited_memory_safe [OF ex_dmsg_ok valid_ex_msg])
  show "src_ok (istate (pb_istream_from_buffer [0x7F, 0x08] 2 :: unit pb_istream_t))
      (unat (bytes_left (pb_istream_from_buffer [0x7F, 0x08] 2 :: unit pb_istream_t)))"
    by (simp add: src_ok_def pb_istream_from_buffer_def)
qed

section \<open>Encoding messages\<close>

text \<open>
  C2: functional correctness of the encoder. Take a structure of static fields in valid memory whose
  meaning as a protobuf message, by presence flags, counts and proto3 defaults, is the bytes \<open>bs\<close>, and whose
  submessages without presence flag hold something if and only if the first item of one of their fields is
  other than zero. Then \<^verbatim>\<open>pb_encode\<close> into a buffer that is large enough returns true and
  leaves exactly \<open>bs\<close> at the start of the buffer, with \<^verbatim>\<open>bytes_written\<close> its length and the rest
  of the buffer unchanged. The fuel is one more than the nesting depth. The condition on submessages holds
  for every contents if they have only fields without presence flag themselves (\<open>plain_type_seen\<close>);
  without it the encoder loses data (the theorem \<open>proto3_data_lost\<close> below).
\<close>

theorem encode_correct:
  assumes "emsg_ok n (desc E) fs sz" and "valid_range m src sz" and "0 < src" and "small_msg n (desc E) m fs src"
    and "default_seen n (desc E) m fs src"
    and "proto_msg n (desc E) m fs src = Some bs" and "length bs \<le> length buf" and "length buf < 2 ^ 63"
  shows "pb_encode (Suc n) E m (pb_ostream_from_buffer buf (word_of_nat (length buf))) fs src = Ret () (written bs buf)"
  using writes_from_buffer [OF encode_writes [OF assms(1-4), unfolded spec_msg_means [OF assms(1,5)] assms(6)] assms(7,8)] .

theorem encode_correct_witness:
  "pb_encode (Suc (Suc (Suc 0))) ex_enc (ex_mem p3_msg) (pb_ostream_from_buffer (replicate 14 0) (word_of_nat (length (replicate 14 (0 :: byte))))) p3_outer 16
     = Ret () (written [0x08, 0x05, 0x12, 0x02, 0x08, 0x03] (replicate 14 0))"
  by (intro encode_correct [OF p3_emsg_ok valid_p3_msg _ p3_small p3_seen p3_spec]) simp_all

text \<open>
  C3: the encoder never overflows its buffer. On any well-formed buffer stream, with bytes before
  the write position and behind the limit that belong to somebody else, \<^verbatim>\<open>pb_encode\<close> returns, and
  whether it succeeds, runs out of space or rejects the message, it changes only bytes between the
  position and the limit. It succeeds if and only if the message can be encoded and fits.
\<close>

theorem encode_no_overflow:
  assumes "emsg_ok n (desc E) fs sz" and "valid_range m src sz" and "0 < src" and "small_msg n (desc E) m fs src"
    and "obuf_ok st"
  shows "\<exists>st'. owin st st' \<and>
    pb_encode (Suc n) E m st fs src =
      (case spec_msg n (desc E) m fs src of
         Some bs \<Rightarrow> if unat (bytes_written st) + length bs \<le> unat (max_size st) then Ret () st' else Err st'
       | None \<Rightarrow> Err st')"
  using writes_window [OF encode_writes [OF assms(1-4)] assms(5)] unfolding room_def .

theorem encode_no_overflow_witness:
  "\<exists>st'. owin (pb_ostream_from_buffer (replicate 8 7) 5) st' \<and>
    pb_encode (Suc (Suc (Suc 0))) ex_enc (ex_mem ex_msg) (pb_ostream_from_buffer (replicate 8 7) 5) ex_outer 16 = Err st'"
proof -
  have "obuf_ok (pb_ostream_from_buffer (replicate 8 7) 5 :: unit pb_ostream_t)"
    by (simp add: obuf_ok_def pb_ostream_from_buffer_def)
  from encode_no_overflow [OF ex_emsg_ok valid_ex_msg _ ex_small this] show ?thesis
    by (simp add: ex_spec pb_ostream_from_buffer_def del: spec_msg.simps pb_encode.simps)
qed

text \<open>
  C18: the size that \<^verbatim>\<open>pb_get_encoded_size\<close> reports is the number of bytes that encoding the
  message writes, and it reports failure exactly for messages that cannot be encoded.
\<close>

theorem encoded_size_exact:
  assumes "emsg_ok n (desc E) fs sz" and "valid_range m src sz" and "0 < src" and "small_msg n (desc E) m fs src"
  shows "pb_get_encoded_size (Suc n) E m fs src =
    (case spec_msg n (desc E) m fs src of Some bs \<Rightarrow> Ret (word_of_nat (length bs)) () | None \<Rightarrow> Err ())"
  using writes_size [OF encode_writes [OF assms]] by (simp add: pb_get_encoded_size_def split: option.split del: spec_msg.simps pb_encode.simps)

theorem encoded_size_exact_witness:
  "pb_get_encoded_size (Suc (Suc (Suc 0))) ex_enc (ex_mem ex_msg) ex_outer 16 = Ret 12 ()"
  using encoded_size_exact [OF ex_emsg_ok valid_ex_msg _ ex_small]
  by (simp add: ex_spec del: spec_msg.simps pb_encode.simps)

text \<open>
  C19: length-delimited encoding. \<^verbatim>\<open>pb_encode_delimited\<close> writes the length of the message as a varint
  and then the message; the second pass over the message never disagrees with the first one, so
  the error \<^verbatim>\<open>submsg size changed\<close> cannot occur for static messages.
\<close>

theorem encode_delimited_correct:
  assumes "emsg_ok n (desc E) fs sz" and "valid_range m src sz" and "0 < src" and "small_msg n (desc E) m fs src"
    and "spec_msg n (desc E) m fs src = Some bs"
    and "length (delimited bs) \<le> length buf" and "length buf < 2 ^ 63"
  shows "pb_encode_delimited (Suc n) E m (pb_ostream_from_buffer buf (word_of_nat (length buf))) fs src
    = Ret () (written (delimited bs) buf)"
proof -
  have "length bs < 2 ^ 63" using assms(6,7) by (simp add: delimited_def)
  then have "writes (\<lambda>st. pb_encode_submessage (pb_encode (Suc n) E m) st fs src) (Some (delimited bs))"
    using writes_submessage [where rec = "pb_encode (Suc n) E m" and fs = fs and a = src, OF encode_writes [OF assms(1-4), unfolded assms(5)]] by (simp del: pb_encode.simps)
  from writes_from_buffer [OF this assms(6,7)] show ?thesis by (simp add: pb_encode_delimited_def)
qed

theorem encode_delimited_correct_witness:
  "pb_encode_delimited (Suc (Suc (Suc 0))) ex_enc (ex_mem ex_msg) (pb_ostream_from_buffer (replicate 13 0) (word_of_nat (length (replicate 13 (0 :: byte))))) ex_outer 16
     = Ret () (written (delimited [0x08, 0x96, 0x01, 0x12, 0x03, 0x03, 0xAC, 0x02, 0x1A, 0x02, 0x08, 0x03]) (replicate 13 0))"
  by (intro encode_delimited_correct [OF ex_emsg_ok valid_ex_msg _ ex_small ex_spec])
    (simp_all add: delimited_def varint.simps)

section \<open>Wire format\<close>

text \<open>
  C16: varint round trip. Encoding any 64-bit value into a buffer of at least ten bytes succeeds,
  writes at most ten bytes, and decoding exactly these bytes gives the value back.
\<close>

theorem varint_roundtrip:
  assumes "10 \<le> length buf" and "length buf < 2 ^ 63"
  shows "\<exists>bs. length bs \<le> 10 \<and>
    pb_encode_varint (pb_ostream_from_buffer buf (word_of_nat (length buf)) :: 'u pb_ostream_t) v
      = Ret () (written bs buf) \<and>
    pb_decode_varint (pb_istream_from_buffer (bs @ rest) (word_of_nat (length bs)) :: 'v pb_istream_t)
      = Ret v (ibuf rest 0 None)"
proof (intro exI conjI)
  let ?bs = "varint (unat v)"
  show len: "length ?bs \<le> 10" by (rule varint_word_length)
  show "pb_encode_varint (pb_ostream_from_buffer buf (word_of_nat (length buf)) :: 'u pb_ostream_t) v
      = Ret () (written ?bs buf)"
    by (rule writes_from_buffer [OF writes_varint]) (use len assms in simp_all)
  have "length ?bs \<le> unat (word_of_nat (length ?bs) :: size_t)"
    using len by (simp add: unat_of_nat)
  from decode_encode_varint [OF this, of rest None]
  show "pb_decode_varint (pb_istream_from_buffer (?bs @ rest) (word_of_nat (length ?bs)) :: 'v pb_istream_t)
      = Ret v (ibuf rest 0 None)"
    by (simp add: ibuf_from_buffer)
qed

theorem varint_roundtrip_witness:
  "\<exists>bs. length bs \<le> 10 \<and>
    pb_encode_varint (pb_ostream_from_buffer (replicate 10 0) 10 :: unit pb_ostream_t) 300
      = Ret () (written bs (replicate 10 0)) \<and>
    pb_decode_varint (pb_istream_from_buffer (bs @ [7]) (word_of_nat (length bs)) :: unit pb_istream_t)
      = Ret 300 (ibuf [7] 0 None)"
  using varint_roundtrip [where 'u = unit and 'v = unit, of "replicate 10 0" 300 "[7]"] by simp


text \<open>
  Zigzag varint round trip, for every signed 64-bit value.
\<close>

theorem svarint_roundtrip:
  assumes "10 \<le> length buf" and "length buf < 2 ^ 63"
  shows "\<exists>bs. length bs \<le> 10 \<and>
    pb_encode_svarint (pb_ostream_from_buffer buf (word_of_nat (length buf)) :: 'u pb_ostream_t) v
      = Ret () (written bs buf) \<and>
    pb_decode_svarint (pb_istream_from_buffer (bs @ rest) (word_of_nat (length bs)) :: 'v pb_istream_t)
      = Ret v (ibuf rest 0 None)"
proof (intro exI conjI)
  let ?bs = "varint (unat (zigzag v))"
  show len: "length ?bs \<le> 10" by (rule varint_word_length)
  show "pb_encode_svarint (pb_ostream_from_buffer buf (word_of_nat (length buf)) :: 'u pb_ostream_t) v
      = Ret () (written ?bs buf)"
    unfolding pb_encode_svarint_def
    by (rule writes_from_buffer [OF writes_varint]) (use len assms in simp_all)
  have "length ?bs \<le> unat (word_of_nat (length ?bs) :: size_t)"
    using len by (simp add: unat_of_nat)
  from decode_encode_svarint [OF this, of rest None]
  show "pb_decode_svarint (pb_istream_from_buffer (?bs @ rest) (word_of_nat (length ?bs)) :: 'v pb_istream_t)
      = Ret v (ibuf rest 0 None)"
    by (simp add: ibuf_from_buffer)
qed

theorem svarint_roundtrip_witness:
  "\<exists>bs. length bs \<le> 10 \<and>
    pb_encode_svarint (pb_ostream_from_buffer (replicate 10 0) 10 :: unit pb_ostream_t) (- 2)
      = Ret () (written bs (replicate 10 0)) \<and>
    pb_decode_svarint (pb_istream_from_buffer (bs @ [7]) (word_of_nat (length bs)) :: unit pb_istream_t)
      = Ret (- 2) (ibuf [7] 0 None)"
  using svarint_roundtrip [where 'u = unit and 'v = unit, of "replicate 10 0" "- 2" "[7]"] by simp

text \<open>
  Field tags. A field number below \<open>2^29\<close> and a wire type that \<^verbatim>\<open>pb_encode_tag\<close> writes are
  what \<^verbatim>\<open>pb_decode_tag\<close> reads, except for the pair of zeros, which is the end marker.
\<close>

theorem tag_roundtrip:
  assumes "unat wt < 8" and "unat fn < 2 ^ 29" and "fn \<noteq> 0 \<or> wt \<noteq> 0"
    and "5 \<le> length buf" and "length buf < 2 ^ 63"
  shows "\<exists>bs. length bs \<le> 5 \<and>
    pb_encode_tag (pb_ostream_from_buffer buf (word_of_nat (length buf)) :: 'u pb_ostream_t) wt fn
      = Ret () (written bs buf) \<and>
    pb_decode_tag (pb_istream_from_buffer (bs @ rest) (word_of_nat (length bs)) :: 'v pb_istream_t)
      = Ret (Some (wt, fn), False) (ibuf rest 0 None)"
proof (intro exI conjI)
  let ?bs = "varint (unat fn * 8 + unat wt)"
  show len: "length ?bs \<le> 5" using assms(1,2) by (intro varint_length_32) simp
  show "pb_encode_tag (pb_ostream_from_buffer buf (word_of_nat (length buf)) :: 'u pb_ostream_t) wt fn
      = Ret () (written ?bs buf)"
    by (rule writes_from_buffer [OF writes_tag [OF assms(1)]]) (use len assms in simp_all)
  have "length ?bs \<le> unat (word_of_nat (length ?bs) :: size_t)"
    using len by (simp add: unat_of_nat)
  from decode_encode_tag [OF assms(1-3) this, of rest None]
  show "pb_decode_tag (pb_istream_from_buffer (?bs @ rest) (word_of_nat (length ?bs)) :: 'v pb_istream_t)
      = Ret (Some (wt, fn), False) (ibuf rest 0 None)"
    by (simp add: ibuf_from_buffer)
qed

theorem tag_roundtrip_witness:
  "\<exists>bs. length bs \<le> 5 \<and>
    pb_encode_tag (pb_ostream_from_buffer (replicate 5 0) 5 :: unit pb_ostream_t) 2 1000
      = Ret () (written bs (replicate 5 0)) \<and>
    pb_decode_tag (pb_istream_from_buffer (bs @ []) (word_of_nat (length bs)) :: unit pb_istream_t)
      = Ret (Some (2, 1000), False) (ibuf [] 0 None)"
  using tag_roundtrip [where 'u = unit and 'v = unit, of 2 1000 "replicate 5 0" "[]"] by simp

text \<open>
  Fixed-width integers. \<^verbatim>\<open>pb_encode_fixed64\<close> writes the eight bytes of the value in memory in
  little-endian order, and \<^verbatim>\<open>pb_decode_fixed64\<close> reads the value back.
\<close>

theorem fixed64_roundtrip:
  assumes "load_u64 m a = Some v" and "8 \<le> length buf" and "length buf < 2 ^ 63"
  shows "pb_encode_fixed64 (pb_ostream_from_buffer buf (word_of_nat (length buf)) :: 'u pb_ostream_t) m a
      = Ret () (written (word_le 8 v) buf) \<and>
    pb_decode_fixed64 (pb_istream_from_buffer (word_le 8 v @ rest) 8 :: 'v pb_istream_t) = Ret v (ibuf rest 0 None)"
proof
  from assms(1) obtain bs where bs: "load_bytes m a 8 = Some bs" by (auto simp: load_u64_def)
  with assms(1) have v: "word_le 8 v = bs" "v = le_word bs" using load_u64_word_le [OF bs] by auto
  show "pb_encode_fixed64 (pb_ostream_from_buffer buf (word_of_nat (length buf)) :: 'u pb_ostream_t) m a
      = Ret () (written (word_le 8 v) buf)"
    using writes_fixed64 [OF bs, where 'a = 'u] v(1) load_bytes_length [OF bs] assms(2,3)
    by (intro writes_from_buffer) simp_all
  show "pb_decode_fixed64 (pb_istream_from_buffer (word_le 8 v @ rest) 8 :: 'v pb_istream_t) = Ret v (ibuf rest 0 None)"
    using load_bytes_length [OF bs] v by (simp add: ibuf_from_buffer decode_fixed64_ibuf)
qed

theorem fixed64_roundtrip_witness:
  "pb_encode_fixed64 (pb_ostream_from_buffer (replicate 9 0) (word_of_nat (length (replicate 9 (0 :: byte)))) :: unit pb_ostream_t)
       (ex_mem [1, 2, 3, 4, 5, 6, 7, 8]) 16
      = Ret () (written (word_le 8 (0x0807060504030201 :: 64 word)) (replicate 9 0)) \<and>
    pb_decode_fixed64 (pb_istream_from_buffer (word_le 8 (0x0807060504030201 :: 64 word) @ [7]) 8 :: unit pb_istream_t)
      = Ret 0x0807060504030201 (ibuf [7] 0 None)"
  by (rule fixed64_roundtrip) (simp_all add: load_u64_def load_ex_mem)

text \<open>
  The same for \<^verbatim>\<open>pb_encode_fixed32\<close> and \<^verbatim>\<open>pb_decode_fixed32\<close>.
\<close>

theorem fixed32_roundtrip:
  assumes "load_u32 m a = Some v" and "4 \<le> length buf" and "length buf < 2 ^ 63"
  shows "pb_encode_fixed32 (pb_ostream_from_buffer buf (word_of_nat (length buf)) :: 'u pb_ostream_t) m a
      = Ret () (written (word_le 4 v) buf) \<and>
    pb_decode_fixed32 (pb_istream_from_buffer (word_le 4 v @ rest) 4 :: 'v pb_istream_t) = Ret v (ibuf rest 0 None)"
proof
  from assms(1) obtain bs where bs: "load_bytes m a 4 = Some bs" by (auto simp: load_u32_def)
  with assms(1) have v: "word_le 4 v = bs" "v = le_word bs" using load_u32_word_le [OF bs] by auto
  show "pb_encode_fixed32 (pb_ostream_from_buffer buf (word_of_nat (length buf)) :: 'u pb_ostream_t) m a
      = Ret () (written (word_le 4 v) buf)"
    using writes_fixed32 [OF bs, where 'a = 'u] v(1) load_bytes_length [OF bs] assms(2,3)
    by (intro writes_from_buffer) simp_all
  show "pb_decode_fixed32 (pb_istream_from_buffer (word_le 4 v @ rest) 4 :: 'v pb_istream_t) = Ret v (ibuf rest 0 None)"
    using load_bytes_length [OF bs] v by (simp add: ibuf_from_buffer decode_fixed32_ibuf)
qed

theorem fixed32_roundtrip_witness:
  "pb_encode_fixed32 (pb_ostream_from_buffer (replicate 4 0) (word_of_nat (length (replicate 4 (0 :: byte)))) :: unit pb_ostream_t)
       (ex_mem [1, 2, 3, 4]) 16
      = Ret () (written (word_le 4 (0x04030201 :: 32 word)) (replicate 4 0)) \<and>
    pb_decode_fixed32 (pb_istream_from_buffer (word_le 4 (0x04030201 :: 32 word) @ [7]) 4 :: unit pb_istream_t)
      = Ret 0x04030201 (ibuf [7] 0 None)"
  by (rule fixed32_roundtrip) (simp_all add: load_u32_def load_ex_mem)

text \<open>
  Strings and substreams. A value that \<^verbatim>\<open>pb_encode_string\<close> writes is opened by
  \<^verbatim>\<open>pb_make_string_substream\<close> as a substream of exactly its bytes, and however many of them (\<open>k\<close>)
  have been read when \<^verbatim>\<open>pb_close_string_substream\<close> closes it, the parent stream continues behind the
  value, with the number of bytes left that were behind it.
\<close>

theorem string_roundtrip:
  assumes "length bs < 2 ^ 32" and "length (delimited bs) \<le> length buf" and "length buf < 2 ^ 63"
    and "length (delimited bs) + length rest < 2 ^ 64" and "k \<le> length bs"
  shows "pb_encode_string (pb_ostream_from_buffer buf (word_of_nat (length buf)) :: 'u pb_ostream_t)
      (local_buf bs) (word_of_nat (length bs)) = Ret () (written (delimited bs) buf) \<and>
    (\<exists>st. pb_make_string_substream
        (pb_istream_from_buffer (delimited bs @ rest) (word_of_nat (length (delimited bs @ rest))) :: 'v pb_istream_t)
        = Ret (ibuf (bs @ rest) (word_of_nat (length bs)) None) st \<and>
      pb_close_string_substream st (ibuf (drop k bs @ rest) (word_of_nat (length bs - k)) None)
        = Ret () (ibuf rest (word_of_nat (length rest)) None))"
proof
  have u: "unat (word_of_nat (length bs) :: size_t) = length bs" using assms(1) by (simp add: unat_of_nat)
  have "writes (\<lambda>st. pb_encode_string st (local_buf bs) (word_of_nat (length bs))) (Some (varint (length bs) @ bs))"
    using assms(1) u by (intro writes_string) simp_all
  then show "pb_encode_string (pb_ostream_from_buffer buf (word_of_nat (length buf)) :: 'u pb_ostream_t)
      (local_buf bs) (word_of_nat (length bs)) = Ret () (written (delimited bs) buf)"
    unfolding delimited_def using assms(2,3) by (intro writes_from_buffer) (simp_all add: delimited_def)
  let ?n = "word_of_nat (length (delimited bs @ rest)) :: size_t"
  have n: "length (varint (length bs)) + length bs \<le> unat ?n"
    using assms(4) by (simp add: unat_of_nat delimited_def del: of_nat_add)
  have "unat (word_of_nat (length bs - k) :: size_t) = length bs - k" using assms(1) by (simp add: unat_of_nat del: of_nat_diff)
  moreover have "pb_make_string_substream (ibuf (varint (length bs) @ bs @ rest) ?n None :: 'v pb_istream_t) =
      Ret (ibuf (bs @ rest) (word_of_nat (length bs)) None) (ibuf (bs @ rest) (word_of_nat (length rest)) None)"
    unfolding make_substream_ibuf [OF n assms(1)] by (simp add: delimited_def)
  ultimately show "\<exists>st. pb_make_string_substream
        (pb_istream_from_buffer (delimited bs @ rest) (word_of_nat (length (delimited bs @ rest))) :: 'v pb_istream_t)
        = Ret (ibuf (bs @ rest) (word_of_nat (length bs)) None) st \<and>
      pb_close_string_substream st (ibuf (drop k bs @ rest) (word_of_nat (length bs - k)) None)
        = Ret () (ibuf rest (word_of_nat (length rest)) None)"
    by (simp add: ibuf_from_buffer close_substream_ibuf delimited_def del: of_nat_diff of_nat_add)
qed

theorem string_roundtrip_witness:
  "pb_encode_string (pb_ostream_from_buffer (replicate 4 0) (word_of_nat (length (replicate 4 (0 :: byte)))) :: unit pb_ostream_t)
      (local_buf [65, 66]) (word_of_nat (length [65, 66 :: byte])) = Ret () (written (delimited [65, 66]) (replicate 4 0)) \<and>
    (\<exists>st. pb_make_string_substream
        (pb_istream_from_buffer (delimited [65, 66] @ [7]) (word_of_nat (length (delimited [65, 66] @ [7]))) :: unit pb_istream_t)
        = Ret (ibuf ([65, 66] @ [7]) (word_of_nat (length [65, 66 :: byte])) None) st \<and>
      pb_close_string_substream st (ibuf (drop 1 [65, 66] @ [7]) (word_of_nat (length [65, 66 :: byte] - 1)) None)
        = Ret () (ibuf [7] (word_of_nat (length [7 :: byte])) None))"
  by (rule string_roundtrip) (simp_all add: delimited_def varint.simps)

text \<open>
  What \<^verbatim>\<open>pb_decode_varint\<close> computes on any varint of at most ten bytes, canonical or not: its
  value modulo \<open>2^64\<close>. Bits of the tenth byte that do not fit are dropped without an error.
\<close>

theorem varint_decode_value:
  assumes "is_varint bs" and "length bs \<le> 10"
  shows "pb_decode_varint (pb_istream_from_buffer (bs @ rest) (word_of_nat (length bs)) :: 'u pb_istream_t)
    = Ret (word_of_nat (varint_val bs mod 2 ^ 64)) (ibuf rest 0 None)"
proof -
  have "length bs \<le> unat (word_of_nat (length bs) :: size_t)" using assms(2) by (simp add: unat_of_nat)
  note decode = decode_varint_ibuf [OF assms(1) this assms(2)]
  have "word_of_nat (varint_val bs mod 2 ^ 64) = (word_of_nat (varint_val bs) :: 64 word)"
    by (simp add: word_unat_eq_iff unat_of_nat)
  then show ?thesis by (simp add: ibuf_from_buffer decode)
qed

theorem varint_decode_value_witness:
  "pb_decode_varint (pb_istream_from_buffer ([0x82, 0x80, 0x80, 0x80, 0x80, 0x80, 0x80, 0x80, 0x80, 0x7E] @ [])
      (word_of_nat (length [0x82, 0x80, 0x80, 0x80, 0x80, 0x80, 0x80, 0x80, 0x80, 0x7E :: byte])) :: unit pb_istream_t)
    = Ret 2 (ibuf [] 0 None)"
proof -
  let ?bs = "[0x82, 0x80, 0x80, 0x80, 0x80, 0x80, 0x80, 0x80, 0x80, 0x7E] :: byte list"
  have "is_varint ?bs" by (simp add: bit_7_unat)
  then have "pb_decode_varint (pb_istream_from_buffer (?bs @ []) (word_of_nat (length ?bs)) :: unit pb_istream_t)
    = Ret (word_of_nat (varint_val ?bs mod 2 ^ 64)) (ibuf [] 0 None)"
    by (rule varint_decode_value) simp
  moreover have "varint_val ?bs mod 2 ^ 64 = 2" by simp
  ultimately show ?thesis by (simp only:) simp
qed

text \<open>
  Malformed varints are rejected. Ten bytes with the continuation bit give the error
  \<^verbatim>\<open>varint overflow\<close>; a stream that ends inside a varint gives \<^verbatim>\<open>end-of-stream\<close>. No byte behind them
  is read.
\<close>

theorem varint_malformed:
  assumes "\<forall>b\<in>set bs. bit b 7" and "length bs \<le> 10"
  shows "pb_decode_varint (pb_istream_from_buffer (bs @ rest) (word_of_nat (length bs)) :: 'u pb_istream_t)
    = Err (ibuf rest 0 (Some (if length bs = 10 then ''varint overflow'' else ''end-of-stream'')))"
proof -
  have u: "length bs = unat (word_of_nat (length bs) :: size_t)" using assms(2) by (simp add: unat_of_nat)
  show ?thesis
  proof (cases "length bs = 10")
    case True
    then show ?thesis using varint_loop_overflow [OF assms(1), of "word_of_nat (length bs)" 0 rest None 0] u
      by (simp add: pb_decode_varint_def ibuf_from_buffer PB_SET_ERROR_def)
  next
    case False
    then show ?thesis using varint_loop_truncated [OF assms(1) u, of 0 rest None 0] assms(2)
      by (simp add: pb_decode_varint_def ibuf_from_buffer PB_SET_ERROR_def)
  qed
qed

theorem varint_malformed_witness:
  "pb_decode_varint (pb_istream_from_buffer ([0x80, 0xFF] @ [1]) (word_of_nat (length [0x80, 0xFF :: byte])) :: unit pb_istream_t)
    = Err (ibuf [1] 0 (Some ''end-of-stream''))"
  using varint_malformed [where 'u = unit, of "[0x80, 0xFF]" "[1]"] by simp

text \<open>
  Skipping. For the payload of every wire type, \<^verbatim>\<open>pb_skip_field\<close> moves the stream to the first
  byte behind it; a varint may have any length here.
\<close>

theorem skip_field_exact:
  assumes "is_payload wt bs" and "length bs + length rest < 2 ^ 64"
  shows "pb_skip_field (pb_istream_from_buffer (bs @ rest) (word_of_nat (length bs + length rest)) :: 'u pb_istream_t) wt
    = Ret () (ibuf rest (word_of_nat (length rest)) None)"
proof -
  have "length bs \<le> unat (word_of_nat (length bs + length rest) :: size_t)"
    using assms(2) by (simp add: unat_of_nat del: of_nat_add)
  from skip_field_ibuf [OF assms(1) this] show ?thesis by (simp add: ibuf_from_buffer)
qed

theorem skip_field_exact_witness:
  "pb_skip_field (pb_istream_from_buffer ([3, 1, 2, 3] @ [8]) (word_of_nat (length [3, 1, 2, 3 :: byte] + length [8 :: byte])) :: unit pb_istream_t) 2
    = Ret () (ibuf [8] (word_of_nat (length [8 :: byte])) None)"
proof (rule skip_field_exact)
  have "[3, 1, 2, 3] = varint (length [1, 2, 3 :: byte]) @ [1, 2, 3]" by (simp add: varint.simps)
  moreover have "length [1, 2, 3 :: byte] < 2 ^ 32" by simp
  ultimately show "is_payload 2 [3, 1, 2, 3]" unfolding is_payload_def by blast
qed simp

section \<open>Fields and messages\<close>

text \<open>
  C20: field lookup. \<^verbatim>\<open>pb_field_iter_find\<close> started at any field of a descriptor array with distinct
  tags stops at the field with the tag, in whichever direction it lies, with the address of its data
  and its required-field index; for a tag that is not in the array it reports failure and leaves
  the iterator where it was. The search ends within one round.
\<close>

theorem iter_find_correct:
  assumes "fields_ok fs" and "distinct (map tag fs)" and "\<forall>f\<in>set fs. PB_LTYPE (ftype f) \<noteq> PB_LTYPE_EXTENSION"
    and "k < length fs"
  shows "(\<forall>i<length fs. pb_field_iter_find (iter_nth fs d k) (tag (fs ! i)) = Some (True, iter_nth fs d i)) \<and>
    (\<forall>tg. tg \<notin> tag ` set fs \<longrightarrow> pb_field_iter_find (iter_nth fs d k) tg = Some (False, iter_nth fs d k))"
  using iter_find_distinct [OF assms(1,4,2)] iter_find_none [OF assms(1,4)] assms(3) by simp

theorem iter_find_correct_witness:
  "pb_field_iter_find (iter_nth ex_outer 16 2) 1 = Some (True, iter_nth ex_outer 16 0) \<and>
   pb_field_iter_find (iter_nth ex_outer 16 2) 9 = Some (False, iter_nth ex_outer 16 2)"
proof -
  have "(\<forall>i<length ex_outer. pb_field_iter_find (iter_nth ex_outer 16 2) (tag (ex_outer ! i)) = Some (True, iter_nth ex_outer 16 i)) \<and>
    (\<forall>tg. tg \<notin> tag ` set ex_outer \<longrightarrow> pb_field_iter_find (iter_nth ex_outer 16 2) tg = Some (False, iter_nth ex_outer 16 2))"
    by (rule iter_find_correct) (simp_all add: ex_outer_eval fields_ok_def PB_LTYPE_def)
  moreover have "0 < length ex_outer" "tag (ex_outer ! 0) = 1" "9 \<notin> tag ` set ex_outer"
    by (simp_all add: ex_outer_eval)
  ultimately show ?thesis by metis
qed

text \<open>
  C21: the iterator and the descriptor macros fit together. For descriptors that the macros give for
  the members of a structure, \<open>k\<close> steps of \<^verbatim>\<open>pb_field_iter_next\<close> from \<^verbatim>\<open>pb_field_iter_begin\<close> reach
  field \<open>k\<close> with \<^verbatim>\<open>pData\<close> at the member's offset and \<^verbatim>\<open>pSize\<close> at \<^verbatim>\<open>size_offset\<close> from it.
\<close>

theorem iter_layout:
  assumes "laid_out ms fs" and "fields_ok fs" and "k < length fs"
  shows "let it = ((\<lambda>it. snd (pb_field_iter_next it)) ^^ k) (snd (pb_field_iter_begin fs d)) in
    cur it = fs ! k \<and> pData it = d + int (moff (ms ! k)) \<and> pSize it = pData it + sint (size_offset (fs ! k)) \<and>
    fst (pb_field_iter_next it) = (Suc k < length fs)"
proof -
  have "fst (pb_field_iter_next (iter_nth fs d k)) = (Suc k < length fs)"
    using next_iter_nth [OF assms(2), of k] next_iter_nth_last [OF assms(2), of k] assms(3)
    by (cases "Suc k < length fs") simp_all
  with assms(3) show ?thesis
    by (simp add: iter_walk [OF assms(2,3)] field_off_laid_out [OF assms(1,3)] size_off_laid_out [OF assms(1,3)])
qed

theorem iter_layout_witness:
  "let it = ((\<lambda>it. snd (pb_field_iter_next it)) ^^ 2) (snd (pb_field_iter_begin ex_outer 16)) in
    cur it = ex_outer ! 2 \<and> pData it = 16 + int (moff (ex_members ! 2)) \<and>
    pSize it = pData it + sint (size_offset (ex_outer ! 2)) \<and>
    fst (pb_field_iter_next it) = (Suc 2 < length ex_outer)"
  by (rule iter_layout [OF ex_laid_out ex_fields_ok]) (simp add: ex_outer_def)

text \<open>
  C22: unknown fields. A field whose tag is in no descriptor is skipped as a whole, whatever its wire
  type: memory, the iterator and the record of required fields stay as they were, and the main loop
  goes on with the byte behind the field.
\<close>

theorem unknown_field_skipped:
  assumes "fields_ok fs" and "k < length fs" and "\<forall>f\<in>set fs. PB_LTYPE (ftype f) \<noteq> PB_LTYPE_EXTENSION"
    and "tg \<notin> tag ` set fs" and "unat tg < 2 ^ 29" and "tg \<noteq> 0" and "is_payload wt bs"
    and "length (varint (unat tg * 8 + unat wt)) + length bs \<le> unat n"
  shows "\<exists>r'. decode_step N E noinit (at_pos fs d k seen r)
       \<lparr>dstream = ibuf (varint (unat tg * 8 + unat wt) @ bs @ rest) n e, dmem = m\<rparr> =
     Ret (True, at_pos fs d k seen r')
       \<lparr>dstream = ibuf rest (n - word_of_nat (length (varint (unat tg * 8 + unat wt))) - word_of_nat (length bs)) e, dmem = m\<rparr>"
  using assms by (rule decode_step_unknown)

theorem unknown_field_skipped_witness:
  "\<exists>r'. decode_step 1 ex_dec (pb_decode_noinit 1 ex_dec) (at_pos ex_outer 16 1 [0, 0] 0)
       \<lparr>dstream = ibuf (varint (unat (9 :: 32 word) * 8 + unat (5 :: 32 word)) @ [1, 2, 3, 4] @ []) 5 None, dmem = ex_mem ex_msg\<rparr> =
     Ret (True, at_pos ex_outer 16 1 [0, 0] r')
       \<lparr>dstream = ibuf [] (5 - word_of_nat (length (varint (unat (9 :: 32 word) * 8 + unat (5 :: 32 word)))) - word_of_nat (length [1, 2, 3, 4 :: byte])) None,
        dmem = ex_mem ex_msg\<rparr>"
  by (rule unknown_field_skipped)
    (simp_all add: ex_outer_eval fields_ok_def PB_LTYPE_def is_payload_def varint.simps)

text \<open>
  The check of required fields. With fewer than 64 required fields, and not exactly 32, the
  comparison of the two words of \<^verbatim>\<open>fields_seen\<close> with the expected bit pattern holds if and only if
  the bit of every required field is set (no bit behind them ever is).
\<close>

theorem required_check:
  assumes "length seen = 2" and "unat n < 64" and "unat n mod 32 \<noteq> 0"
    and "\<forall>i. unat n \<le> i \<longrightarrow> i < 64 \<longrightarrow> \<not> seen_bit seen i"
  shows "required_present seen n = Some (\<forall>i<unat n. seen_bit seen i)"
  using assms by (intro required_present_eq) simp_all

theorem required_check_witness: "required_present [0x7, 0x0] 3 = Some True"
proof -
  have bits: "seen_bit [0x7, 0x0] i \<longleftrightarrow> i < 3" if "i < 64" for i
  proof (cases "i < 32")
    case True
    have "bit (mask 3 :: 32 word) i \<longleftrightarrow> i < 3" using True by (simp add: bit_mask_iff)
    moreover have "mask 3 = (7 :: 32 word)" by (simp add: mask_eq_exp_minus_1)
    ultimately show ?thesis using True by (simp add: seen_bit_def)
  next
    case False
    with that have "i div 32 = 1" by (simp add: div_nat_eqI)
    with False show ?thesis by (simp add: seen_bit_def)
  qed
  have "required_present [0x7, 0x0] 3 = Some (\<forall>i<unat (3 :: 32 word). seen_bit [0x7, 0x0] i)"
    by (rule required_check) (simp_all add: bits)
  then show ?thesis by (simp add: bits)
qed

text \<open>
  An empty input. Without bytes to decode, \<^verbatim>\<open>pb_decode\<close> succeeds with the default values if the
  message has no required field, and fails with \<^verbatim>\<open>missing required field\<close> otherwise.
\<close>

theorem decode_empty:
  assumes "fields_ok fs" and "length fs < 2 ^ 32"
    and "pb_message_set_to_defaults (Suc n) (ddesc E) fs dest m = Ret () m'"
  shows "pb_decode (Suc n) E fs dest \<lparr>dstream = pb_istream_from_buffer [] 0, dmem = m\<rparr> =
    (if \<exists>f\<in>set fs. is_required f
     then Err \<lparr>dstream = ibuf [] 0 (Some ''missing required field''), dmem = m'\<rparr>
     else Ret () \<lparr>dstream = ibuf [] 0 None, dmem = m'\<rparr>)"
proof -
  have "required_before fs (length fs) \<le> length fs" by (simp add: required_before_def)
  then have r: "required_before fs (length fs) < 2 ^ 32" using assms(2) by simp
  have "pb_decode (Suc n) E fs dest \<lparr>dstream = pb_istream_from_buffer [] 0, dmem = m\<rparr> =
      pb_decode_noinit (Suc n) E fs dest \<lparr>dstream = ibuf [] 0 None, dmem = m'\<rparr>"
    by (simp add: pb_decode_def decode_init_def on_mem_def assms(3) ibuf_from_buffer del: pb_decode_noinit.simps)
  also have "\<dots> = (if \<exists>f\<in>set fs. is_required f
      then derror \<lparr>dstream = ibuf [] 0 None, dmem = m'\<rparr> ''missing required field''
      else Ret () \<lparr>dstream = ibuf [] 0 None, dmem = m'\<rparr>)"
    by (rule decode_noinit_empty [OF assms(1) _ r]) simp
  finally show ?thesis by (simp add: derror_def on_stream_def ierror_def PB_SET_ERROR_def)
qed

theorem decode_empty_witness:
  "\<exists>m'. pb_decode 1 ex_dec ex_inner 16 \<lparr>dstream = pb_istream_from_buffer [] 0, dmem = ex_mem [1, 2, 3, 4]\<rparr> =
    Ret () \<lparr>dstream = ibuf [] 0 None, dmem = m'\<rparr> \<and> load_bytes m' 16 4 = Some [0, 0, 0, 0]"
proof -
  obtain m' where m': "store_bytes (ex_mem [1, 2, 3, 4]) 16 [0, 0, 0, 0] = Some m'"
    using valid_ex_mem [of "[1, 2, 3, 4]"] by (simp add: store_bytes_eq)
  have z: "replicate 4 (0 :: byte) = [0, 0, 0, 0]" by (simp add: numeral_eq_Suc)
  have "pb_message_set_to_defaults (Suc 0) (ddesc ex_dec) ex_inner 16 (ex_mem [1, 2, 3, 4]) = Ret () m'"
    by (simp add: pb_message_set_to_defaults_def message_defaults_def pb_field_iter_begin_def ex_inner_eval field_at_def
        cur_def PB_LTYPE_def PB_ATYPE_def PB_HTYPE_def mem_put_def z m' pb_field_iter_next_def
        del: store_bytes.simps)
  note decoded = decode_empty [OF _ _ this]
  have "length [0, 0, 0, 0 :: byte] = 4" by simp
  then have "load_bytes m' 16 4 = Some [0, 0, 0, 0]" using load_store_same [OF m'] by metis
  with decoded show ?thesis
    by (simp add: ex_inner_eval fields_ok_def is_required_def PB_HTYPE_def del: pb_decode_noinit.simps)
qed

section \<open>Where the code departs from its intent\<close>



text \<open>
  C37: the proto3 zero test loses data. Take any message type of submessages without presence flag, whose
  fields are integers of any kind, optional, repeated or in a oneof. If the first item of every such field is
  zero, the encoder sends nothing at all, whatever the flags and counts say, although the message has a meaning
  of its own as soon as one field holds something, such as the repeated items 0 and 5:
  \<^verbatim>\<open>pb_check_proto3_default_value\<close> looks at the first item of an array and not at its count.
\<close>

theorem proto3_data_lost:
  assumes "emsg_ok (Suc n) (desc E) fs sz" and "valid_range m src sz" and "0 < src" and "small_msg (Suc n) (desc E) m fs src"
    and "\<forall>k<length fs. flagless (fs ! k) \<and> PB_LTYPE (ftype (fs ! k)) = PB_LTYPE_SUBMESSAGE \<and>
      (let gs = desc E (ptr (fs ! k)) in
       \<forall>j<length gs. PB_LTYPE (ftype (gs ! j)) \<le> PB_LTYPE_LAST_PACKABLE \<and>
         uint_at m (src + int (field_off fs k) + int (field_off gs j)) (unat (data_size (gs ! j))) = 0)"
    and "k < length fs" and "j < length (desc E (ptr (fs ! k)))"
    and "field_holds n (desc E) m (desc E (ptr (fs ! k)) ! j) (src + int (field_off fs k) + int (field_off (desc E (ptr (fs ! k))) j))"
  shows "pb_get_encoded_size (Suc (Suc n)) E m fs src = Ret 0 () \<and> proto_msg (Suc n) (desc E) m fs src \<noteq> Some []"
proof
  obtain i where n: "n = Suc i" using assms(8) by (cases n) simp_all
  have "\<forall>k<length fs. flagless (fs ! k) \<and> zero_item (Suc n) (desc E) m (fs ! k) (src + int (field_off fs k))"
    using assms(5) submessage_zero [where n = i and D = "desc E" and m = m] unfolding n Let_def by blast
  from nothing_sent [OF this] show "pb_get_encoded_size (Suc (Suc n)) E m fs src = Ret 0 ()"
    using writes_size [OF encode_writes [OF assms(1-4)]] by (simp add: pb_get_encoded_size_def del: spec_msg.simps pb_encode.simps)
  have "field_holds (Suc n) (desc E) m (fs ! k) (src + int (field_off fs k))"
    using assms(5-8) submessage_holds by blast
  then show "proto_msg (Suc n) (desc E) m fs src \<noteq> Some []" using proto_msg_Nil assms(6) by blast
qed

theorem proto3_data_lost_witness:
  "pb_get_encoded_size (Suc (Suc (Suc 0))) z_enc (ex_mem z_msg) z_outer 16 = Ret 0 () \<and>
   proto_msg (Suc (Suc 0)) (desc z_enc) (ex_mem z_msg) z_outer 16 \<noteq> Some []"
  by (rule proto3_data_lost [OF z_emsg_ok valid_z_msg _ z_small, of 0 0])
    (simp_all add: z_eval z_enc_def flagless_def ex_layout uint_at_def z_bytes)

text \<open>
  C38: a truncated tag at the end of the input is taken for the end of the message. An input that
  consists of one byte with the continuation bit decodes successfully, although the stream carries the
  error message \<^verbatim>\<open>end-of-stream\<close>.
\<close>

theorem truncated_tag_accepted:
  assumes "fields_ok fs" and "\<forall>f\<in>set fs. \<not> is_required f" and "bit b 7"
  shows "pb_decode_noinit (Suc n) E fs dest \<lparr>dstream = pb_istream_from_buffer [b] 1, dmem = m\<rparr> =
    Ret () \<lparr>dstream = ibuf [] 0 (Some ''end-of-stream''), dmem = m\<rparr>"
proof -
  have "required_before fs (length fs) = 0" using assms(2) by (simp add: required_before_def)
  then have "req_field_count (iter_nth fs dest 0) = Some 0"
    using req_field_count_at [OF assms(1), of 0 dest] by (simp add: at_field_def)
  then show ?thesis
    by (simp add: ibuf_from_buffer decode_loop.simps decode_step_def on_stream_def decode_tag_truncated [OF assms(3)]
        begin_iter_nth required_present_none)
qed

theorem truncated_tag_accepted_witness:
  "pb_decode_noinit (Suc 0) ex_dec ex_inner 16 \<lparr>dstream = pb_istream_from_buffer [0x80] 1, dmem = ex_mem ex_msg\<rparr> =
    Ret () \<lparr>dstream = ibuf [] 0 (Some ''end-of-stream''), dmem = ex_mem ex_msg\<rparr>"
  by (rule truncated_tag_accepted) (simp_all add: ex_inner_eval fields_ok_def is_required_def PB_HTYPE_def bit_7_unat)


end
